(* ===== verification/Prelude.thy ===== *)
theory Prelude
  imports Main "HOL-Library.Char_ord" "HOL-Library.List_Lexorder"
begin

text \<open>
  Shared vocabulary of the development: the representation of time and of text, the
  text operations of Python's standard library that the engine uses, SQL's
  \<open>UPDATE ... WHERE\<close> and \<open>DELETE ... WHERE\<close> over a table kept as a list of rows, and the
  generic lemmas the component theories share.

  Time: a Python aware \<open>datetime\<close> is the instant it denotes, an \<^typ>\<open>int\<close> of
  microseconds since the epoch (\<open>datetime\<close>); a \<open>timedelta\<close> is an \<^typ>\<open>int\<close> of
  microseconds.  The timestamps the store keeps are UTC ISO 8601 strings with seconds
  precision, whose order as text is the order of the instants; a stored timestamp is
  the second it denotes (\<open>stamp\<close>), and both NULL and the empty string are \<open>None\<close>
  of \<open>stamp option\<close>.

  Text: a Python \<open>str\<close> is a \<^typ>\<open>string\<close>; a character stands for one of the first
  256 code points.
\<close>

section \<open>Collections of facts\<close>

named_theorems row_simps \<open>what an update of rows keeps\<close>
named_theorems text_simps \<open>classification of characters\<close>

section \<open>Time\<close>

type_synonym datetime = int
type_synonym stamp = int

definition second :: int where
  "second = 1000000"

text \<open>\<open>timedelta(seconds=n)\<close>.\<close>

definition seconds :: "int \<Rightarrow> int" where
  "seconds n = n * second"

lemma second_pos [simp]: "0 < second"
  by (simp add: second_def)

lemma second_nonzero [simp]: "second \<noteq> 0"
  by (simp add: second_def)

lemma seconds_0 [simp]: "seconds 0 = 0"
  by (simp add: seconds_def)

lemma seconds_add: "seconds (a + b) = seconds a + seconds b"
  by (simp add: seconds_def algebra_simps)

lemma seconds_less_iff [simp]: "seconds a < seconds b \<longleftrightarrow> a < b"
  by (simp add: seconds_def)

lemma seconds_le_iff [simp]: "seconds a \<le> seconds b \<longleftrightarrow> a \<le> b"
  by (simp add: seconds_def)

lemma seconds_eq_iff [simp]: "seconds a = seconds b \<longleftrightarrow> a = b"
  by (simp add: seconds_def)

lemma seconds_pos_iff [simp]: "0 < seconds a \<longleftrightarrow> 0 < a"
  by (simp add: seconds_def second_def)

lemma seconds_div_second [simp]: "seconds a div second = a"
  by (simp add: seconds_def second_def)

lemma div_second_le: "seconds (t div second) \<le> t"
  by (simp add: seconds_def second_def)

lemma div_second_gt: "t < seconds (t div second) + second"
  by (simp add: seconds_def second_def)

lemma div_less_pos_iff:
  assumes "0 < (p::int)"
  shows "x div p < j \<longleftrightarrow> x < j * p"
proof
  assume "x div p < j"
  then have "(x div p + 1) * p \<le> j * p" using assms by simp
  moreover have "x < (x div p + 1) * p"
    using pos_mod_bound [OF assms, of x] div_mult_mod_eq [of x p] unfolding distrib_right by linarith
  ultimately show "x < j * p" by simp
next
  assume x: "x < j * p"
  have "x div p * p \<le> x"
    using pos_mod_sign [OF assms, of x] div_mult_mod_eq [of x p] by linarith
  with x have "x div p * p < j * p" by simp
  then show "x div p < j" using assms by simp
qed

section \<open>Text\<close>

text \<open>
  What \<open>str.split\<close>, \<open>str.strip\<close> and the \<open>\s\<close> of a regular expression take for white
  space among the first 256 code points.
\<close>

definition is_space :: "char \<Rightarrow> bool" where
  "is_space c \<longleftrightarrow> (let n = (of_char c :: nat) in
     9 \<le> n \<and> n \<le> 13 \<or> 28 \<le> n \<and> n \<le> 32 \<or> n = 133 \<or> n = 160)"

definition is_digit :: "char \<Rightarrow> bool" where
  "is_digit c \<longleftrightarrow> (let n = (of_char c :: nat) in 48 \<le> n \<and> n \<le> 57)"

definition digit_val :: "char \<Rightarrow> nat" where
  "digit_val c = of_char c - 48"

definition lower_char :: "char \<Rightarrow> char" where
  "lower_char c = (let n = (of_char c :: nat) in
     if 65 \<le> n \<and> n \<le> 90 \<or> 192 \<le> n \<and> n \<le> 222 \<and> n \<noteq> 215 then char_of (n + 32) else c)"

definition lower :: "string \<Rightarrow> string" where
  "lower s = map lower_char s"

definition strip :: "string \<Rightarrow> string" where
  "strip s = rev (dropWhile is_space (rev (dropWhile is_space s)))"

text \<open>\<open>s.split()\<close>: the maximal runs of characters that are not white space.\<close>

function split_ws :: "string \<Rightarrow> string list" where
  "split_ws s = (case dropWhile is_space s of [] \<Rightarrow> []
     | c # cs \<Rightarrow> (c # takeWhile (\<lambda>x. \<not> is_space x) cs)
               # split_ws (dropWhile (\<lambda>x. \<not> is_space x) cs))"
  by pat_completeness auto
termination
proof (relation "measure length")
  fix s c cs
  assume "dropWhile is_space s = c # cs"
  then have "Suc (length cs) \<le> length s"
    using length_dropWhile_le [of is_space s] by simp
  moreover have "length (dropWhile (\<lambda>x. \<not> is_space x) cs) \<le> length cs"
    by (rule length_dropWhile_le)
  ultimately show "(dropWhile (\<lambda>x. \<not> is_space x) cs, s) \<in> measure length" by simp
qed simp

declare split_ws.simps [simp del]

text \<open>\<open>str.split(sep)\<close>; \<open>acc\<close> is the piece read so far.\<close>

fun split_on :: "char \<Rightarrow> string \<Rightarrow> string \<Rightarrow> string list" where
  "split_on sep acc [] = [acc]"
| "split_on sep acc (c # cs) = (if c = sep then acc # split_on sep [] cs else split_on sep (acc @ [c]) cs)"

text \<open>\<open>sep.join(parts)\<close>.\<close>

fun join :: "string \<Rightarrow> string list \<Rightarrow> string" where
  "join sep [] = []"
| "join sep [x] = x"
| "join sep (x # y # ys) = x @ sep @ join sep (y # ys)"

text \<open>The decimal digits of a natural number, and reading them back.\<close>

fun show_nat :: "nat \<Rightarrow> string" where
  "show_nat n = (if n < 10 then [char_of (48 + n)]
                 else show_nat (n div 10) @ [char_of (48 + n mod 10)])"

declare show_nat.simps [simp del]

definition read_nat :: "string \<Rightarrow> nat" where
  "read_nat ds = foldl (\<lambda>n d. 10 * n + digit_val d) 0 ds"

definition show_int :: "int \<Rightarrow> string" where
  "show_int i = (if i < 0 then ''-'' @ show_nat (nat (- i)) else show_nat (nat i))"

lemma of_char_digit [text_simps]: "k < 10 \<Longrightarrow> (of_char (char_of (48 + k :: nat)) :: nat) = 48 + k"
  by simp

lemma is_digit_digit [text_simps]: "k < 10 \<Longrightarrow> is_digit (char_of (48 + k :: nat))"
  by (simp add: is_digit_def Let_def)

lemma digit_val_digit [text_simps]: "k < 10 \<Longrightarrow> digit_val (char_of (48 + k :: nat)) = k"
  by (simp add: digit_val_def)

lemma digit_not_space [text_simps]: "is_digit c \<Longrightarrow> \<not> is_space c"
  by (auto simp: is_digit_def is_space_def Let_def)

lemma show_nat_nonempty [simp]: "show_nat n \<noteq> []"
  by (subst show_nat.simps) simp

lemma show_nat_digits: "c \<in> set (show_nat n) \<Longrightarrow> is_digit c"
proof (induction n rule: show_nat.induct)
  case (1 n)
  show ?case
  proof (cases "n < 10")
    case True
    then show ?thesis using "1.prems" by (subst (asm) show_nat.simps) (simp add: is_digit_digit)
  next
    case False
    then show ?thesis using 1
      by (subst (asm) (2) show_nat.simps) (auto simp: is_digit_digit)
  qed
qed

lemma read_show_nat: "read_nat (show_nat n) = n"
proof (induction n rule: show_nat.induct)
  case (1 n)
  show ?case
  proof (cases "n < 10")
    case True
    then show ?thesis by (subst show_nat.simps) (simp add: read_nat_def digit_val_digit)
  next
    case False
    then show ?thesis using 1
      by (subst show_nat.simps) (simp add: read_nat_def digit_val_digit)
  qed
qed

lemma length_show_nat: "n < 10 ^ k \<Longrightarrow> 0 < k \<Longrightarrow> length (show_nat n) \<le> k"
proof (induction n arbitrary: k rule: show_nat.induct)
  case (1 n)
  show ?case
  proof (cases "n < 10")
    case True
    then show ?thesis using "1.prems" by (subst show_nat.simps) simp
  next
    case False
    obtain m where k: "k = Suc m" using "1.prems"(2) by (cases k) auto
    have m: "0 < m" using "1.prems"(1) False k by (cases m) auto
    have "n div 10 < 10 ^ m" using "1.prems"(1) k by (simp add: less_mult_imp_div_less mult.commute)
    then have "length (show_nat (n div 10)) \<le> m" using "1.IH" [OF False _ m] by simp
    then show ?thesis using False k by (subst show_nat.simps) simp
  qed
qed

lemma strip_no_space: "(\<And>c. c \<in> set s \<Longrightarrow> \<not> is_space c) \<Longrightarrow> strip s = s"
proof -
  assume ns: "\<And>c. c \<in> set s \<Longrightarrow> \<not> is_space c"
  then have "dropWhile is_space s = s" "dropWhile is_space (rev s) = rev s"
    by (auto simp: dropWhile_eq_self_iff hd_rev)
  then show ?thesis by (simp add: strip_def)
qed

lemma strip_Nil_iff: "strip s = [] \<longleftrightarrow> (\<forall>c \<in> set s. is_space c)"
proof -
  have "strip s = [] \<longleftrightarrow> (\<forall>c \<in> set (dropWhile is_space s). is_space c)"
    by (simp add: strip_def)
  also have "\<dots> \<longleftrightarrow> (\<forall>c \<in> set s. is_space c)"
    by (metis dropWhile_eq_Nil_conv hd_dropWhile list.set_sel(1) set_dropWhileD)
  finally show ?thesis .
qed

section \<open>Tables\<close>

text \<open>
  A table is the list of its rows in the order they were inserted.
  \<open>upd_where p f\<close> is \<open>UPDATE ... SET f WHERE p\<close>, \<open>del_where p\<close> is
  \<open>DELETE ... WHERE p\<close> and \<open>rowcount p\<close> the cursor's \<open>rowcount\<close> of either.
\<close>

definition upd_where :: "('a \<Rightarrow> bool) \<Rightarrow> ('a \<Rightarrow> 'a) \<Rightarrow> 'a list \<Rightarrow> 'a list" where
  "upd_where p f rows = map (\<lambda>r. if p r then f r else r) rows"

definition del_where :: "('a \<Rightarrow> bool) \<Rightarrow> 'a list \<Rightarrow> 'a list" where
  "del_where p rows = filter (\<lambda>r. \<not> p r) rows"

definition rowcount :: "('a \<Rightarrow> bool) \<Rightarrow> 'a list \<Rightarrow> nat" where
  "rowcount p rows = length (filter p rows)"

lemma upd_where_keeps [row_simps]:
  "(\<And>r. r \<in> set rows \<Longrightarrow> p r \<Longrightarrow> k (f r) = k r) \<Longrightarrow> map k (upd_where p f rows) = map k rows"
  by (auto simp: upd_where_def)

lemma upd_where_set: "set (upd_where p f rows) = (\<lambda>r. if p r then f r else r) ` set rows"
  by (auto simp: upd_where_def)

lemma upd_where_hit: "r \<in> set rows \<Longrightarrow> p r \<Longrightarrow> f r \<in> set (upd_where p f rows)"
  by (force simp: upd_where_def)

lemma in_upd_where:
  "r \<in> set (upd_where p f rows) \<Longrightarrow> \<exists>r0 \<in> set rows. r = (if p r0 then f r0 else r0)"
  by (auto simp: upd_where_def)

lemma upd_where_Nil [simp]: "upd_where p f [] = []"
  by (simp add: upd_where_def)

lemma upd_where_Cons [simp]:
  "upd_where p f (r # rows) = (if p r then f r else r) # upd_where p f rows"
  by (simp add: upd_where_def)

lemma length_upd_where [simp]: "length (upd_where p f rows) = length rows"
  by (simp add: upd_where_def)

lemma set_del_where [simp]: "set (del_where p rows) = {r \<in> set rows. \<not> p r}"
  by (simp add: del_where_def)

lemma distinct_del_where [row_simps]:
  "distinct (map k rows) \<Longrightarrow> distinct (map k (del_where p rows))"
  by (simp add: del_where_def distinct_map_filter)

lemma rowcount_0_iff: "rowcount p rows = 0 \<longleftrightarrow> (\<forall>r \<in> set rows. \<not> p r)"
  by (auto simp: rowcount_def filter_empty_conv)

lemma rowcount_1_ex: "rowcount p rows = 1 \<Longrightarrow> \<exists>r \<in> set rows. p r"
  using rowcount_0_iff [of p rows] by auto

text \<open>Under a unique key, a condition that fixes the key matches one row at most.\<close>

lemma rowcount_unique:
  assumes "distinct (map k rows)" and "\<And>r. r \<in> set rows \<Longrightarrow> p r \<Longrightarrow> k r = x"
  shows "rowcount p rows \<le> 1"
  using assms
proof (induction rows)
  case Nil
  then show ?case by (simp add: rowcount_def)
next
  case (Cons a rows)
  have IH: "rowcount p rows \<le> 1" using Cons by simp
  show ?case
  proof (cases "p a")
    case True
    then have "\<forall>r \<in> set rows. \<not> p r" using Cons.prems
      by (metis distinct.simps(2) image_eqI list.set_intros(1) list.set_intros(2) list.set_map list.simps(9))
    then show ?thesis using True by (simp add: rowcount_def filter_empty_conv)
  next
    case False
    then show ?thesis using IH by (simp add: rowcount_def)
  qed
qed

lemma rowcount_unique_eq:
  assumes "distinct (map k rows)" and "\<And>r. r \<in> set rows \<Longrightarrow> p r \<Longrightarrow> k r = x"
  shows "rowcount p rows = 1 \<longleftrightarrow> (\<exists>r \<in> set rows. p r)"
  using rowcount_unique [OF assms] rowcount_0_iff [of p rows] by force

text \<open>Under a unique key, a further condition on the row of that key can be dropped.\<close>

lemma upd_where_unique:
  assumes "distinct (map k rows)" and "r0 \<in> set rows" and "k r0 = x" and "Q r0"
  shows "upd_where (\<lambda>r. k r = x \<and> Q r) f rows = upd_where (\<lambda>r. k r = x) f rows"
proof -
  have "inj_on k (set rows)" using assms(1) by (simp add: distinct_map)
  then have "r = r0" if "r \<in> set rows" "k r = x" for r using that assms(2,3) by (blast dest: inj_onD)
  then show ?thesis using assms(4) by (auto simp: upd_where_def)
qed

text \<open>Counting the rows that satisfy a condition after an update.\<close>

lemma filter_upd_where_drop:
  "(\<And>r. r \<in> set rows \<Longrightarrow> p r \<Longrightarrow> \<not> P (f r))
    \<Longrightarrow> filter P (upd_where p f rows) = filter (\<lambda>r. P r \<and> \<not> p r) rows"
  by (induction rows) auto

lemma filter_upd_where_other:
  "(\<And>r. p r \<Longrightarrow> \<not> P r \<and> \<not> P (f r)) \<Longrightarrow> filter P (upd_where p f rows) = filter P rows"
  by (induction rows) auto

lemma length_filter_upd_where:
  "(\<And>r. r \<in> set rows \<Longrightarrow> p r \<Longrightarrow> P (f r) \<longleftrightarrow> P r)
    \<Longrightarrow> length (filter P (upd_where p f rows)) = length (filter P rows)"
  by (induction rows) auto

lemma length_filter_split:
  "length (filter P xs) = length (filter (\<lambda>x. P x \<and> Q x) xs) + length (filter (\<lambda>x. P x \<and> \<not> Q x) xs)"
  by (induction xs) auto

text \<open>\<open>cursor.fetchone()\<close>.\<close>

definition fetchone :: "('a \<Rightarrow> bool) \<Rightarrow> 'a list \<Rightarrow> 'a option" where
  "fetchone p rows = (case filter p rows of [] \<Rightarrow> None | r # _ \<Rightarrow> Some r)"

lemma fetchone_Some: "fetchone p rows = Some r \<Longrightarrow> r \<in> set rows \<and> p r"
proof -
  assume "fetchone p rows = Some r"
  then obtain rs where "filter p rows = r # rs" by (auto simp: fetchone_def split: list.splits)
  then have "r \<in> set (filter p rows)" by simp
  then show ?thesis by simp
qed

lemma fetchone_None: "fetchone p rows = None \<longleftrightarrow> (\<forall>r \<in> set rows. \<not> p r)"
proof -
  have "fetchone p rows = None \<longleftrightarrow> filter p rows = []"
    by (simp add: fetchone_def split: list.splits)
  then show ?thesis by (simp add: filter_empty_conv)
qed

lemma fetchone_unique:
  assumes "distinct (map k rows)" and "\<And>r. r \<in> set rows \<Longrightarrow> p r \<longleftrightarrow> k r = x"
    and "r \<in> set rows" and "k r = x"
  shows "fetchone p rows = Some r"
proof -
  have "p r" using assms(2) [OF assms(3)] assms(4) by simp
  with assms(3) have "fetchone p rows \<noteq> None" unfolding fetchone_None by blast
  then obtain r' where r': "fetchone p rows = Some r'" by auto
  then have m: "r' \<in> set rows" and "k r' = x" using fetchone_Some [OF r'] assms(2) [of r'] by auto
  moreover have "inj_on k (set rows)" using assms(1) by (simp add: distinct_map)
  ultimately have "r' = r" using assms(3,4) by (blast dest: inj_onD)
  with r' show ?thesis by simp
qed

text \<open>Keeping the first occurrence of each element (\<open>dict.fromkeys\<close>).\<close>

fun dedup :: "'a list \<Rightarrow> 'a list" where
  "dedup [] = []"
| "dedup (x # xs) = x # filter (\<lambda>y. y \<noteq> x) (dedup xs)"

lemma set_dedup [simp]: "set (dedup xs) = set xs"
  by (induction xs) auto

lemma distinct_dedup [simp]: "distinct (dedup xs)"
  by (induction xs) auto

end
