(* ===== verification/Contracts.thy ===== *)
theory Contracts
  imports Prelude
begin

text \<open>
  The interfaces several components share, as locales.  Each is interpreted, in the theory
  of the component that provides it, on the model of the code.

  \<^item> \<open>invariant_system\<close>: a transition system whose steps keep a property.
  \<^item> \<open>single_winner\<close>: calls that compete for something that can be taken once (a due
    occurrence, a pending card, a token of a form).
  \<^item> \<open>one_shot\<close>: the same with a read of what is there and a removal, as the in-memory
    registries have it.
\<close>

section \<open>Reachable states\<close>

inductive reachable :: "('s \<Rightarrow> bool) \<Rightarrow> ('s \<Rightarrow> 's \<Rightarrow> bool) \<Rightarrow> 's \<Rightarrow> bool"
  for init :: "'s \<Rightarrow> bool" and step :: "'s \<Rightarrow> 's \<Rightarrow> bool" where
  start: "init s \<Longrightarrow> reachable init step s"
| move: "reachable init step s \<Longrightarrow> step s s' \<Longrightarrow> reachable init step s'"

locale invariant_system =
  fixes init :: "'s \<Rightarrow> bool"
    and step :: "'s \<Rightarrow> 's \<Rightarrow> bool"
    and inv :: "'s \<Rightarrow> bool"
  assumes init_inv: "init s \<Longrightarrow> inv s"
    and step_inv: "inv s \<Longrightarrow> step s s' \<Longrightarrow> inv s'"
begin

lemma reachable_inv: "reachable init step s \<Longrightarrow> inv s"
  by (induction rule: reachable.induct) (auto intro: init_inv step_inv)

lemma steps_inv: "inv s \<Longrightarrow> step\<^sup>*\<^sup>* s s' \<Longrightarrow> inv s'"
  by (rotate_tac, induction rule: rtranclp_induct) (auto intro: step_inv)

end

section \<open>Taking something once\<close>

text \<open>A sequence of calls, each answering whether it won.\<close>

fun run_attempts :: "('c \<Rightarrow> 's \<Rightarrow> 's \<times> bool) \<Rightarrow> 'c list \<Rightarrow> 's \<Rightarrow> 's \<times> bool list" where
  "run_attempts attempt [] s = (s, [])"
| "run_attempts attempt (c # cs) s =
     (case attempt c s of (s1, won) \<Rightarrow>
      (case run_attempts attempt cs s1 of (s2, rest) \<Rightarrow> (s2, won # rest)))"

definition wins :: "('c \<Rightarrow> 'k) \<Rightarrow> 'k \<Rightarrow> 'c list \<Rightarrow> bool list \<Rightarrow> nat" where
  "wins key k cs bs = length (filter (\<lambda>(c, won). won \<and> key c = k) (zip cs bs))"

locale single_winner =
  fixes attempt :: "'c \<Rightarrow> 's \<Rightarrow> 's \<times> bool"
    and key :: "'c \<Rightarrow> 'k"
    and takeable :: "'k \<Rightarrow> 's \<Rightarrow> bool"
  assumes win_takeable: "attempt c s = (s', True) \<Longrightarrow> takeable (key c) s"
    and win_takes: "attempt c s = (s', True) \<Longrightarrow> \<not> takeable (key c) s'"
    and stays_taken: "\<not> takeable k s \<Longrightarrow> attempt c s = (s', won) \<Longrightarrow> \<not> takeable k s'"
begin

lemma taken_no_winner:
  "\<not> takeable k s \<Longrightarrow> wins key k cs (snd (run_attempts attempt cs s)) = 0"
proof (induction cs arbitrary: s)
  case Nil
  then show ?case by (simp add: wins_def)
next
  case (Cons c cs)
  obtain s1 won where a: "attempt c s = (s1, won)" by fastforce
  have "\<not> (won \<and> key c = k)" using a win_takeable Cons.prems by metis
  moreover have "\<not> takeable k s1" using stays_taken [OF Cons.prems a] .
  ultimately show ?case using Cons.IH [of s1] a by (auto simp: wins_def split: prod.splits)
qed

lemma at_most_one_winner: "wins key k cs (snd (run_attempts attempt cs s)) \<le> 1"
proof (induction cs arbitrary: s)
  case Nil
  then show ?case by (simp add: wins_def)
next
  case (Cons c cs)
  obtain s1 won where a: "attempt c s = (s1, won)" by fastforce
  show ?case
  proof (cases "won \<and> key c = k")
    case True
    then have "\<not> takeable k s1" using a win_takes by metis
    then show ?thesis using taken_no_winner [of k s1 cs] True a
      by (auto simp: wins_def split: prod.splits)
  next
    case False
    then show ?thesis using Cons.IH [of s1] a by (auto simp: wins_def split: prod.splits)
  qed
qed

end

text \<open>
  A registry read and emptied by one operation: \<open>take\<close> answers what was there and removes
  it, and nothing comes back by taking something else.
\<close>

locale one_shot =
  fixes take_one :: "'k \<Rightarrow> 's \<Rightarrow> 's \<times> 'v option"
    and held :: "'s \<Rightarrow> 'k \<Rightarrow> 'v option"
  assumes take_answers: "take_one k s = (s', Some v) \<Longrightarrow> held s k \<noteq> None"
    and take_removes: "take_one k s = (s', r) \<Longrightarrow> held s' k = None"
    and take_frame: "take_one k s = (s', r) \<Longrightarrow> j \<noteq> k \<Longrightarrow> held s' j = held s j"
begin

lemma taken_twice:
  assumes "take_one k s = (s1, r1)" and "take_one k s1 = (s2, r2)"
  shows "r2 = None"
  using take_removes [OF assms(1)] take_answers [of k s1 s2] assms(2) by (cases r2) auto

end

sublocale one_shot \<subseteq> single_winner "\<lambda>k s. map_prod id (\<lambda>r. r \<noteq> None) (take_one k s)" id "\<lambda>k s. held s k \<noteq> None"
proof unfold_locales
  fix c s s'
  assume "map_prod id (\<lambda>r. r \<noteq> None) (take_one c s) = (s', True)"
  then obtain v where t: "take_one c s = (s', Some v)" by (cases "take_one c s") auto
  then show "held s (id c) \<noteq> None" using take_answers by simp
  show "\<not> held s' (id c) \<noteq> None" using take_removes [OF t] by simp
next
  fix k s c s' won
  assume k: "\<not> held s k \<noteq> None" and "map_prod id (\<lambda>r. r \<noteq> None) (take_one c s) = (s', won)"
  then obtain r where t: "take_one c s = (s', r)" by (cases "take_one c s") auto
  show "\<not> held s' k \<noteq> None"
    using k take_removes [OF t] take_frame [OF t, of k] by (cases "k = c") auto
qed

end
