(* ===== verification/Triggers.thy ===== *)
theory Triggers
  imports Prelude
begin

text \<open>
  Schedule arithmetic: \<open>packages/crucible/src/crucible/scheduler/triggers.py\<close>.

  What the module takes from outside is gathered in the record \<open>time_env\<close>: the
  \<open>croniter\<close> package (a third-party parser and stepper of cron expressions), the tz
  database behind \<open>zoneinfo\<close>, \<open>datetime.fromisoformat\<close>, and the first four bytes of a
  SHA-256 digest.  A zone is its IANA name; a wall-clock reading (a naive \<open>datetime\<close>) is
  an \<^typ>\<open>int\<close> of microseconds, like an instant.

  The exact integer quotient stands for the quotient of two floating point numbers of
  seconds in \<open>_index_of\<close> and \<open>grace_window\<close>; the range of \<open>datetime\<close> (years 1 to 9999)
  is not modelled.
\<close>

section \<open>The trigger and its environment\<close>

type_synonym wall = int

datatype trigger_kind = TRIGGER_AT | TRIGGER_EVERY | TRIGGER_CRON

definition MIN_INTERVAL_S :: int where "MIN_INTERVAL_S = 60"
definition MIN_GRACE_S :: int where "MIN_GRACE_S = 120"
definition MAX_GRACE_S :: int where "MAX_GRACE_S = 7200"
definition ONESHOT_GRACE_S :: int where "ONESHOT_GRACE_S = 900"
definition JITTER_CAP_S :: int where "JITTER_CAP_S = 30"
definition MAX_CRON_STEPS :: nat where "MAX_CRON_STEPS = 10000"

record trigger =
  kind :: trigger_kind
  spec :: string
  anchor_at :: datetime
  interval_s :: int
  cron_expr :: string
  timezone :: string

text \<open>
  \<open>cron_next e w\<close> is the reading \<open>croniter(e, w).get_next(datetime)\<close> returns, \<open>None\<close>
  when it raises.  \<open>to_wall z t\<close> is \<open>t.astimezone(z).replace(tzinfo=None)\<close> and
  \<open>of_wall z f w\<close> is \<open>w.replace(tzinfo=z, fold=f).astimezone(utc)\<close>.
  \<open>iso_parse s\<close> is \<open>datetime.fromisoformat(s)\<close>: the reading and, when the text has one,
  its UTC offset; \<open>None\<close> when it raises.
\<close>

record time_env =
  cron_valid :: "string \<Rightarrow> bool"
  cron_next :: "string \<Rightarrow> wall \<Rightarrow> wall option"
  zone_known :: "string \<Rightarrow> bool"
  to_wall :: "string \<Rightarrow> datetime \<Rightarrow> wall"
  of_wall :: "string \<Rightarrow> nat \<Rightarrow> wall \<Rightarrow> datetime"
  iso_parse :: "string \<Rightarrow> (wall \<times> int option) option"
  digest4 :: "string \<Rightarrow> nat"

text \<open>
  What can be raised.  The text of a \<open>TriggerError\<close> is kept as the name of its template
  and the values put into it.
\<close>

datatype trigger_msg =
    ScheduleRequired
  | UnknownTimezone string
  | UnreadableInterval string
  | IntervalTooShort nat
  | InvalidCron string
  | UnreadableSchedule string
  | AlreadyPassed datetime

datatype trigger_exn = TriggerError trigger_msg | ZeroDivisionError | CroniterError

definition recurring :: "trigger \<Rightarrow> bool" where
  "recurring t \<longleftrightarrow> kind t \<noteq> TRIGGER_AT"

section \<open>Time helpers\<close>

definition to_iso :: "datetime option \<Rightarrow> stamp option" where
  "to_iso m = (case m of None \<Rightarrow> None | Some t \<Rightarrow> Some (t div second))"

definition from_iso :: "stamp option \<Rightarrow> datetime option" where
  "from_iso r = (case r of None \<Rightarrow> None | Some s \<Rightarrow> Some (seconds s))"

definition zone_of :: "time_env \<Rightarrow> string \<Rightarrow> trigger_exn + string" where
  "zone_of env name =
     (if name = [] then Inr ''UTC''
      else if zone_known env name then Inr name
      else Inl (TriggerError (UnknownTimezone name)))"

text \<open>\<open>moment.replace(microsecond=0)\<close>.\<close>

definition floor_s :: "datetime \<Rightarrow> datetime" where
  "floor_s t = seconds (t div second)"

text \<open>\<open>timedelta / 2\<close> rounds to the nearest microsecond, ties to even.\<close>

definition half_even :: "int \<Rightarrow> int" where
  "half_even d = (let q = d div 2 in if d mod 2 = 1 \<and> q mod 2 = 1 then q + 1 else q)"

lemma half_even_bounds: "1 < d \<Longrightarrow> 0 < half_even d \<and> half_even d < d"
  unfolding half_even_def Let_def by (cases "d mod 2 = 1 \<and> d div 2 mod 2 = 1") (simp_all, presburger+)

text \<open>The bisection that looks for the end of a gap.\<close>

function bisect_gap :: "time_env \<Rightarrow> string \<Rightarrow> wall \<Rightarrow> datetime \<Rightarrow> datetime \<Rightarrow> datetime" where
  "bisect_gap env zone wall low high =
     (if high - low > second
      then let middle = low + half_even (high - low) in
           if to_wall env zone middle < wall
           then bisect_gap env zone wall middle high
           else bisect_gap env zone wall low middle
      else high)"
  by pat_completeness auto
termination
proof (relation "measure (\<lambda>(env, zone, wall, low, high). nat (high - low))")
  fix env :: time_env and zone wall low high middle
  assume gap: "second < high - low" and m: "middle = low + half_even (high - low)"
  have "0 < half_even (high - low)" "half_even (high - low) < high - low"
    using half_even_bounds [of "high - low"] gap by (simp_all add: second_def)
  then show "((env, zone, wall, middle, high), env, zone, wall, low, high)
      \<in> measure (\<lambda>(env, zone, wall, low, high). nat (high - low))"
    and "((env, zone, wall, low, middle), env, zone, wall, low, high)
      \<in> measure (\<lambda>(env, zone, wall, low, high). nat (high - low))"
    using m by auto
qed simp

declare bisect_gap.simps [simp del]

definition resolve_local :: "time_env \<Rightarrow> wall \<Rightarrow> string \<Rightarrow> datetime" where
  "resolve_local env wall zone =
     (let candidate = of_wall env zone 0 wall in
      if to_wall env zone candidate = wall then candidate
      else let low = of_wall env zone 1 wall; high = candidate in
           if low > high then floor_s (bisect_gap env zone wall high low)
           else floor_s (bisect_gap env zone wall low high))"

section \<open>Parsing\<close>

definition unit_seconds :: "char \<Rightarrow> nat option" where
  "unit_seconds u = (let l = lower_char u in
     if l = CHR ''s'' then Some 1 else if l = CHR ''m'' then Some 60
     else if l = CHR ''h'' then Some 3600 else if l = CHR ''d'' then Some 86400
     else if l = CHR ''w'' then Some 604800 else None)"

text \<open>
  One match of \<open>(\d+)\s*([smhdw])\<close> at the start of the text: the digits, the number of
  seconds of the unit, and the text after the match.  A failed match stays failed under
  backtracking, since a shorter run of digits or of white space is followed by a digit or
  by white space, never by a unit.
\<close>

definition match_duration :: "string \<Rightarrow> (string \<times> nat \<times> string) option" where
  "match_duration s =
     (let ds = takeWhile is_digit s in
      if ds = [] then None
      else case dropWhile is_space (dropWhile is_digit s) of
             [] \<Rightarrow> None
           | u # rest \<Rightarrow> (case unit_seconds u of None \<Rightarrow> None | Some k \<Rightarrow> Some (ds, k, rest)))"

text \<open>
  \<open>findall\<close> and \<open>sub\<close> with that pattern in one scan from the left: the matches, and
  what is left of the text when they are removed.
\<close>

lemma match_duration_shorter:
  assumes "match_duration s = Some (ds, k, rest)"
  shows "length rest < length s"
proof -
  from assms obtain u where "dropWhile is_space (dropWhile is_digit s) = u # rest"
    by (auto simp: match_duration_def Let_def split: if_splits list.splits option.splits)
  then have "Suc (length rest) = length (dropWhile is_space (dropWhile is_digit s))" by simp
  also have "\<dots> \<le> length s"
    by (meson length_dropWhile_le order_trans)
  finally show ?thesis by simp
qed

function scan_durations :: "string \<Rightarrow> (string \<times> nat) list \<times> string" where
  "scan_durations [] = ([], [])"
| "scan_durations (c # cs) =
     (case match_duration (c # cs) of
        Some (ds, k, rest) \<Rightarrow> (case scan_durations rest of (ms, left) \<Rightarrow> ((ds, k) # ms, left))
      | None \<Rightarrow> (case scan_durations cs of (ms, left) \<Rightarrow> (ms, c # left)))"
  by pat_completeness auto
termination
  by (relation "measure length") (auto dest: match_duration_shorter)

definition parse_duration :: "string \<Rightarrow> nat" where
  "parse_duration text =
     (case scan_durations (strip text) of (matches, left) \<Rightarrow>
        if matches = [] then 0
        else if strip left \<noteq> [] then 0
        else sum_list (map (\<lambda>(value, k). read_nat value * k) matches))"

text \<open>
  \<open>^(p1|p2|...)\s+\<close>, ignoring case, against the start of the text: the text after the
  match, or \<open>None\<close>.
\<close>

fun after_prefix :: "string list \<Rightarrow> string \<Rightarrow> string option" where
  "after_prefix [] s = None"
| "after_prefix (p # ps) s =
     (if lower (take (length p) s) = p
         \<and> (case drop (length p) s of [] \<Rightarrow> False | c # _ \<Rightarrow> is_space c)
      then Some (dropWhile is_space (drop (length p) s))
      else after_prefix ps s)"

definition every_prefix :: "string \<Rightarrow> string option" where
  "every_prefix = after_prefix [''every'', ''each'']"

definition at_prefix :: "string \<Rightarrow> string option" where
  "at_prefix = after_prefix [''at'', ''in'', ''after'']"

definition cron_prefix :: "string \<Rightarrow> string option" where
  "cron_prefix = after_prefix [''cron:'', ''cron'']"

definition parse_moment :: "time_env \<Rightarrow> string \<Rightarrow> datetime \<Rightarrow> string \<Rightarrow> datetime option" where
  "parse_moment env text now zone =
     (let secs = parse_duration text in
      if secs \<noteq> 0 then Some (floor_s (now + seconds (int secs)))
      else case iso_parse env text of
             None \<Rightarrow> None
           | Some (wall, Some offset) \<Rightarrow> Some (floor_s (wall - offset))
           | Some (wall, None) \<Rightarrow> Some (floor_s (resolve_local env wall zone)))"

definition parse_trigger :: "time_env \<Rightarrow> string \<Rightarrow> datetime \<Rightarrow> string \<Rightarrow> trigger_exn + trigger" where
  "parse_trigger env raw now tz =
     (let text = join '' '' (split_ws raw) in
      if text = [] then Inl (TriggerError ScheduleRequired)
      else case zone_of env tz of Inl e \<Rightarrow> Inl e | Inr zone \<Rightarrow>
      (case every_prefix text of
         Some body \<Rightarrow>
           (let secs = parse_duration body in
            if secs = 0 then Inl (TriggerError (UnreadableInterval body))
            else if int secs < MIN_INTERVAL_S then Inl (TriggerError (IntervalTooShort secs))
            else Inr \<lparr>kind = TRIGGER_EVERY, spec = text, anchor_at = floor_s now,
                      interval_s = int secs, cron_expr = [], timezone = tz\<rparr>)
       | None \<Rightarrow>
           (let cron_body = (case cron_prefix text of Some b \<Rightarrow> b | None \<Rightarrow> text) in
            if length (split_ws cron_body) = 5 \<and> cron_valid env cron_body
            then Inr \<lparr>kind = TRIGGER_CRON, spec = text, anchor_at = floor_s now,
                      interval_s = 0, cron_expr = cron_body, timezone = tz\<rparr>
            else if cron_prefix text \<noteq> None then Inl (TriggerError (InvalidCron cron_body))
            else
              (case parse_moment env (case at_prefix text of Some b \<Rightarrow> b | None \<Rightarrow> text) now zone of
                 None \<Rightarrow> Inl (TriggerError (UnreadableSchedule text))
               | Some moment \<Rightarrow>
                   if moment \<le> now then Inl (TriggerError (AlreadyPassed moment))
                   else Inr \<lparr>kind = TRIGGER_AT, spec = text, anchor_at = moment,
                             interval_s = 0, cron_expr = [], timezone = tz\<rparr>))))"

section \<open>When it fires\<close>

definition index_of :: "datetime \<Rightarrow> int \<Rightarrow> datetime \<Rightarrow> trigger_exn + int" where
  "index_of anchor period moment =
     (let elapsed = moment - anchor in
      if elapsed < 0 then Inr (- 1)
      else if period = 0 then Inl ZeroDivisionError
      else Inr (elapsed div period))"

definition advance_interval :: "trigger \<Rightarrow> datetime \<Rightarrow> datetime \<Rightarrow> trigger_exn + (datetime \<times> int)" where
  "advance_interval t after until =
     (let period = seconds (interval_s t); anchor = anchor_at t in
      case index_of anchor period until of Inl e \<Rightarrow> Inl e | Inr index_until \<Rightarrow>
      (case index_of anchor period after of Inl e \<Rightarrow> Inl e | Inr index_after \<Rightarrow>
         Inr (anchor + (index_until + 1) * period, max 0 (index_until - index_after))))"

text \<open>
  The \<open>for _ in range(n)\<close> of \<open>_advance_cron\<close>: \<open>Inr None\<close> when the loop runs out.
\<close>

fun cron_steps :: "time_env \<Rightarrow> string \<Rightarrow> string \<Rightarrow> datetime \<Rightarrow> nat \<Rightarrow> wall \<Rightarrow> int
    \<Rightarrow> trigger_exn + (datetime \<times> int) option" where
  "cron_steps env expr zone until 0 cursor skipped = Inr None"
| "cron_steps env expr zone until (Suc n) cursor skipped =
     (case cron_next env expr cursor of
        None \<Rightarrow> Inl CroniterError
      | Some reading \<Rightarrow>
          (let moment = resolve_local env reading zone in
           if moment > until then Inr (Some (moment, skipped))
           else cron_steps env expr zone until n reading (skipped + 1)))"

definition advance_cron :: "time_env \<Rightarrow> trigger \<Rightarrow> datetime \<Rightarrow> datetime
    \<Rightarrow> trigger_exn + (datetime \<times> int)" where
  "advance_cron env t after until =
     (case zone_of env (timezone t) of Inl e \<Rightarrow> Inl e | Inr zone \<Rightarrow>
      (case cron_steps env (cron_expr t) zone until MAX_CRON_STEPS (to_wall env zone after) 0 of
         Inl e \<Rightarrow> Inl e
       | Inr (Some found) \<Rightarrow> Inr found
       | Inr None \<Rightarrow>
           (case cron_next env (cron_expr t) (to_wall env zone until) of
              None \<Rightarrow> Inl CroniterError
            | Some reading \<Rightarrow> Inr (resolve_local env reading zone, - 1))))"

definition advance_past :: "time_env \<Rightarrow> trigger \<Rightarrow> datetime \<Rightarrow> datetime
    \<Rightarrow> trigger_exn + (datetime option \<times> int)" where
  "advance_past env t after until =
     (case kind t of
        TRIGGER_AT \<Rightarrow> Inr (None, 0)
      | TRIGGER_EVERY \<Rightarrow> map_sum id (map_prod Some id) (advance_interval t after until)
      | TRIGGER_CRON \<Rightarrow> map_sum id (map_prod Some id) (advance_cron env t after until))"

definition first_run :: "time_env \<Rightarrow> trigger \<Rightarrow> datetime \<Rightarrow> trigger_exn + datetime option" where
  "first_run env t now =
     (if kind t = TRIGGER_AT then Inr (if anchor_at t > now then Some (anchor_at t) else None)
      else map_sum id fst (advance_past env t (anchor_at t) now))"

fun occurrences_loop :: "time_env \<Rightarrow> trigger \<Rightarrow> datetime \<Rightarrow> nat \<Rightarrow> datetime list \<Rightarrow> datetime
    \<Rightarrow> trigger_exn + datetime list" where
  "occurrences_loop env t now 0 moments cursor = Inr moments"
| "occurrences_loop env t now (Suc n) moments cursor =
     (case advance_past env t cursor cursor of
        Inl e \<Rightarrow> Inl e
      | Inr (None, _) \<Rightarrow>
          Inr (if kind t = TRIGGER_AT \<and> anchor_at t > now \<and> moments = []
               then moments @ [anchor_at t] else moments)
      | Inr (Some nxt, _) \<Rightarrow> occurrences_loop env t now n (moments @ [nxt]) nxt)"

definition next_occurrences :: "time_env \<Rightarrow> trigger \<Rightarrow> datetime \<Rightarrow> nat \<Rightarrow> trigger_exn + datetime list" where
  "next_occurrences env t now count = occurrences_loop env t now count [] now"

definition period_of :: "time_env \<Rightarrow> trigger \<Rightarrow> datetime \<Rightarrow> trigger_exn + int" where
  "period_of env t now =
     (case kind t of
        TRIGGER_EVERY \<Rightarrow> Inr (seconds (interval_s t))
      | TRIGGER_CRON \<Rightarrow>
          (case next_occurrences env t now 2 of
             Inl e \<Rightarrow> Inl e
           | Inr upcoming \<Rightarrow> Inr (if length upcoming = 2 then upcoming ! 1 - upcoming ! 0 else 0))
      | TRIGGER_AT \<Rightarrow> Inr 0)"

definition grace_window :: "time_env \<Rightarrow> trigger \<Rightarrow> datetime \<Rightarrow> trigger_exn + int" where
  "grace_window env t now =
     (if kind t = TRIGGER_AT then Inr (seconds ONESHOT_GRACE_S)
      else map_sum id (\<lambda>p. min (max (half_even p) (seconds MIN_GRACE_S)) (seconds MAX_GRACE_S))
             (period_of env t now))"

definition jitter_for :: "time_env \<Rightarrow> string \<Rightarrow> int \<Rightarrow> int \<Rightarrow> int" where
  "jitter_for env task_id period_s cap_s =
     (if period_s \<le> 0 \<or> cap_s \<le> 0 then 0
      else let bound = min cap_s (max 1 (period_s div 20)) in
           int (digest4 env task_id) mod (bound + 1))"

section \<open>Intervals\<close>

text \<open>The value \<open>_index_of\<close> returns for a positive period.\<close>

definition idx :: "datetime \<Rightarrow> int \<Rightarrow> datetime \<Rightarrow> int" where
  "idx anchor period moment = (if moment < anchor then - 1 else (moment - anchor) div period)"

lemma index_of_idx: "0 < period \<Longrightarrow> index_of anchor period moment = Inr (idx anchor period moment)"
  by (simp add: index_of_def idx_def Let_def)

lemma idx_ge: "0 < period \<Longrightarrow> - 1 \<le> idx anchor period moment"
  by (simp add: idx_def) (smt (verit) pos_imp_zdiv_nonneg_iff)

lemma idx_less_iff:
  assumes "0 < period" and "0 \<le> j"
  shows "idx anchor period moment < j \<longleftrightarrow> moment < anchor + j * period"
proof (cases "moment < anchor")
  case True
  moreover have "0 \<le> j * period" using assms by simp
  ultimately have "moment < anchor + j * period" by linarith
  with True assms show ?thesis by (simp add: idx_def)
next
  case False
  have "(moment - anchor) div period < j \<longleftrightarrow> moment - anchor < j * period"
    using assms(1) by (rule div_less_pos_iff)
  then show ?thesis using False by (auto simp: idx_def)
qed

lemma idx_le_iff:
  assumes "0 < period" and "0 \<le> j"
  shows "j \<le> idx anchor period moment \<longleftrightarrow> anchor + j * period \<le> moment"
  using idx_less_iff [OF assms, of anchor moment] by linarith

lemma advance_interval_idx:
  assumes "0 < interval_s t"
  shows "advance_interval t after until =
    Inr (anchor_at t + (idx (anchor_at t) (seconds (interval_s t)) until + 1) * seconds (interval_s t),
         max 0 (idx (anchor_at t) (seconds (interval_s t)) until
                - idx (anchor_at t) (seconds (interval_s t)) after))"
  using assms by (simp add: advance_interval_def index_of_idx Let_def)

lemma advance_interval_after:
  assumes "0 < interval_s t" and "advance_interval t after until = Inr (nxt, k)"
  shows "until < nxt"
proof -
  let ?P = "seconds (interval_s t)" and ?i = "idx (anchor_at t) (seconds (interval_s t)) until"
  have P: "0 < ?P" using assms(1) by simp
  then have "0 \<le> ?i + 1" using idx_ge [of ?P "anchor_at t" until] by simp
  then have "until < anchor_at t + (?i + 1) * ?P"
    using idx_less_iff [OF P, of "?i + 1" "anchor_at t" until] by simp
  then show ?thesis using assms by (simp add: advance_interval_idx)
qed

lemma card_between:
  assumes "- 1 \<le> (a::int)"
  shows "card {j. 0 \<le> j \<and> a < j \<and> j \<le> b} = nat (b - a)"
proof -
  have "{j. 0 \<le> j \<and> a < j \<and> j \<le> b} = {a<..b}" using assms by auto
  then show ?thesis by simp
qed

text \<open>C3. The interval trigger advances by its phase: for a positive interval the next
  occurrence \<open>_advance_interval\<close> gives lies strictly after \<open>until\<close>, is the anchor plus a whole
  number of periods, is the least such instant, and the number given with it is exactly the
  number of occurrences in \<open>(after, until]\<close>.\<close>

theorem advance_interval_spec:
  assumes pos: "0 < interval_s t" and le: "after \<le> until"
    and adv: "advance_interval t after until = Inr (nxt, k)"
  shows "until < nxt
    \<and> (\<exists>j \<ge> 0. nxt = anchor_at t + j * seconds (interval_s t))
    \<and> (\<forall>j \<ge> 0. until < anchor_at t + j * seconds (interval_s t)
          \<longrightarrow> nxt \<le> anchor_at t + j * seconds (interval_s t))
    \<and> k = int (card {j. 0 \<le> j \<and> after < anchor_at t + j * seconds (interval_s t)
                       \<and> anchor_at t + j * seconds (interval_s t) \<le> until})"
proof -
  let ?P = "seconds (interval_s t)" and ?a = "anchor_at t"
  let ?iu = "idx ?a ?P until" and ?ia = "idx ?a ?P after"
  have P: "0 < ?P" using pos by simp
  have iu: "- 1 \<le> ?iu" and ia: "- 1 \<le> ?ia" using idx_ge [OF P] by simp_all
  from adv pos have nxt: "nxt = ?a + (?iu + 1) * ?P" and k: "k = max 0 (?iu - ?ia)"
    by (simp_all add: advance_interval_idx)
  have mono: "?ia \<le> ?iu"
  proof (cases "?ia = - 1")
    case True
    then show ?thesis using iu by simp
  next
    case False
    then have "0 \<le> ?ia" using ia by simp
    then have "?a + ?ia * ?P \<le> until" using idx_le_iff [OF P, of ?ia ?a after] le by simp
    then show ?thesis using idx_le_iff [OF P \<open>0 \<le> ?ia\<close>, of ?a until] by simp
  qed
  have "{j. 0 \<le> j \<and> after < ?a + j * ?P \<and> ?a + j * ?P \<le> until}
      = {j. 0 \<le> j \<and> ?ia < j \<and> j \<le> ?iu}"
    using idx_less_iff [OF P] idx_le_iff [OF P] by blast
  then have "k = int (card {j. 0 \<le> j \<and> after < ?a + j * ?P \<and> ?a + j * ?P \<le> until})"
    using k mono by (simp add: card_between [OF ia])
  moreover have "nxt \<le> ?a + j * ?P" if j: "0 \<le> j" "until < ?a + j * ?P" for j
  proof -
    have "?iu < j" using idx_less_iff [OF P j(1)] j(2) by simp
    then show ?thesis using P by (simp add: nxt mult_right_mono)
  qed
  moreover have "\<exists>j \<ge> 0. nxt = ?a + j * ?P" using nxt iu by (intro exI [of _ "?iu + 1"]) simp
  ultimately show ?thesis using advance_interval_after [OF pos adv] by blast
qed

lemma advance_interval_spec_witness:
  "advance_interval \<lparr>kind = TRIGGER_EVERY, spec = ''every 1h'', anchor_at = 0, interval_s = 3600,
     cron_expr = [], timezone = []\<rparr> (seconds 3600) (seconds 9000) = Inr (seconds 10800, 1)
   \<and> seconds 9000 < seconds 10800"
proof -
  let ?t = "\<lparr>kind = TRIGGER_EVERY, spec = ''every 1h'', anchor_at = 0, interval_s = 3600,
     cron_expr = [], timezone = []\<rparr>"
  have adv: "advance_interval ?t (seconds 3600) (seconds 9000) = Inr (seconds 10800, 1)"
    by (simp add: advance_interval_def index_of_def seconds_def second_def)
  show ?thesis using advance_interval_spec [OF _ _ adv] adv by simp
qed

section \<open>Cron expressions\<close>

lemma cron_steps_after:
  "cron_steps env e z until n cursor sk = Inr (Some (m, k)) \<Longrightarrow> until < m \<and> sk \<le> k"
proof (induction n arbitrary: cursor sk)
  case 0
  then show ?case by simp
next
  case (Suc n)
  then show ?case by (fastforce simp: Let_def split: option.splits if_splits)
qed

lemma advance_cron_after:
  assumes "advance_cron env t after until = Inr (m, k)" and "k \<noteq> - 1"
  shows "until < m"
  using assms by (auto simp: advance_cron_def split: sum.splits option.splits dest: cron_steps_after)

lemma advance_past_after:
  assumes "advance_past env t after until = Inr (Some m, k)" and "k \<noteq> - 1"
    and "kind t = TRIGGER_EVERY \<Longrightarrow> 0 < interval_s t"
  shows "until < m"
proof (cases "kind t")
  case TRIGGER_AT
  with assms show ?thesis by (simp add: advance_past_def)
next
  case TRIGGER_EVERY
  with assms(1) have "advance_interval t after until = Inr (m, k)"
    by (cases "advance_interval t after until") (auto simp: advance_past_def)
  then show ?thesis using advance_interval_after assms(3) TRIGGER_EVERY by blast
next
  case TRIGGER_CRON
  with assms(1) have "advance_cron env t after until = Inr (m, k)"
    by (cases "advance_cron env t after until") (auto simp: advance_past_def)
  then show ?thesis using advance_cron_after assms(2) by blast
qed

text \<open>A one-shot never has a successor.\<close>

lemma advance_past_at: "kind t = TRIGGER_AT \<Longrightarrow> advance_past env t after until = Inr (None, 0)"
  by (simp add: advance_past_def)

section \<open>Local readings\<close>

lemma bisect_gap_floor:
  assumes "low < T" and "T \<le> high" and whole: "T mod second = 0"
    and step: "\<And>t. low \<le> t \<Longrightarrow> t \<le> high \<Longrightarrow> to_wall env zone t < wall \<longleftrightarrow> t < T"
  shows "floor_s (bisect_gap env zone wall low high) = T"
  using assms(1,2,4)
proof (induction env zone wall low high rule: bisect_gap.induct)
  case (1 env zone wall low high)
  let ?m = "low + half_even (high - low)"
  show ?case
  proof (cases "high - low > second")
    case True
    have m: "low < ?m" "?m < high"
      using half_even_bounds [of "high - low"] True by (simp_all add: second_def)
    show ?thesis
    proof (cases "to_wall env zone ?m < wall")
      case left: True
      then have "?m < T" using 1(5) m by simp
      then have "floor_s (bisect_gap env zone wall ?m high) = T"
        using 1(1) [OF True refl left] 1(4,5) m by (meson less_imp_le order_trans)
      then show ?thesis using True left by (subst bisect_gap.simps) (simp add: Let_def)
    next
      case right: False
      then have "T \<le> ?m" using 1(5) m by (meson less_imp_le not_less)
      then have "floor_s (bisect_gap env zone wall low ?m) = T"
        using 1(2) [OF True refl right] 1(3,5) m by (meson less_imp_le order_trans)
      then show ?thesis using True right by (subst bisect_gap.simps) (simp add: Let_def)
    qed
  next
    case False
    then have "T \<le> high" "high < T + second" using 1(3,4) by simp_all
    moreover obtain q where q: "T = q * second" using whole by (metis dvd_def mod_0_imp_dvd mult.commute)
    ultimately have "high div second = q"
      by (intro int_div_pos_eq [of _ _ _ "high - T"]) (auto simp: algebra_simps)
    then show ?thesis using False q by (subst bisect_gap.simps) (simp add: floor_s_def seconds_def)
  qed
qed

text \<open>A reading that does not exist (clocks jumped forward) resolves to the end of the gap:
  when the two folds of the reading bracket a whole second \<open>T\<close> from which on the zone's clock
  shows at least that reading, \<open>_resolve_local\<close> returns \<open>T\<close>, whichever fold is earlier.\<close>

lemma resolve_local_gap_end:
  assumes absent: "to_wall env zone (of_wall env zone 0 wall) \<noteq> wall"
    and lo: "min (of_wall env zone 0 wall) (of_wall env zone 1 wall) < T"
    and hi: "T \<le> max (of_wall env zone 0 wall) (of_wall env zone 1 wall)"
    and whole: "T mod second = 0"
    and jump: "\<And>t. min (of_wall env zone 0 wall) (of_wall env zone 1 wall) \<le> t
        \<Longrightarrow> t \<le> max (of_wall env zone 0 wall) (of_wall env zone 1 wall)
        \<Longrightarrow> to_wall env zone t < wall \<longleftrightarrow> t < T"
  shows "resolve_local env wall zone = T"
proof (cases "of_wall env zone 1 wall > of_wall env zone 0 wall")
  case True
  then show ?thesis using bisect_gap_floor [of "of_wall env zone 0 wall" T "of_wall env zone 1 wall"]
      assms by (simp add: resolve_local_def Let_def min_def max_def)
next
  case False
  then show ?thesis using bisect_gap_floor [of "of_wall env zone 1 wall" T "of_wall env zone 0 wall"]
      assms by (auto simp: resolve_local_def Let_def min_def max_def split: if_splits)
qed

text \<open>
  An environment to evaluate in: a zone one hour ahead of UTC whose clock jumps to two hours
  ahead at \<open>1970-01-01T01:00Z\<close> (readings from 02:00 to 03:00 do not exist), and a cron
  stepper for the one expression that fires on every full hour.
\<close>

definition jump_env :: time_env where
  "jump_env = \<lparr>
     cron_valid = (\<lambda>e. e = ''0 * * * *''),
     cron_next = (\<lambda>e w. if e = ''0 * * * *''
        then Some (seconds ((w div seconds 3600 + 1) * 3600)) else None),
     zone_known = (\<lambda>z. z = ''Europe/Paris''),
     to_wall = (\<lambda>z t. if z = ''UTC'' then t
        else if t < seconds 3600 then t + seconds 3600 else t + seconds 7200),
     of_wall = (\<lambda>z f w. if z = ''UTC'' then w
        else if w < seconds 7200 then w - seconds 3600
        else if seconds 10800 \<le> w then w - seconds 7200
        else if f = 0 then w - seconds 3600 else w - seconds 7200),
     iso_parse = (\<lambda>_. None),
     digest4 = (\<lambda>s. sum_list (map of_char s))\<rparr>"

lemma resolve_local_gap_end_witness:
  "resolve_local jump_env (seconds 9000) ''Europe/Paris'' = seconds 3600"
proof (rule resolve_local_gap_end)
  show "seconds 3600 mod second = 0" by (simp add: seconds_def)
qed (auto simp: jump_env_def seconds_def second_def)

section \<open>Durations\<close>

text \<open>How a duration is written: a list of a count and a unit.\<close>

fun render_duration :: "(nat \<times> char) list \<Rightarrow> string" where
  "render_duration [] = []"
| "render_duration ((n, u) # ps) = show_nat n @ u # render_duration ps"

lemma unit_not_digit: "unit_seconds u = Some k \<Longrightarrow> \<not> is_digit u"
  by (auto simp: unit_seconds_def is_digit_def lower_char_def Let_def split: if_splits)

lemma unit_not_space: "unit_seconds u = Some k \<Longrightarrow> \<not> is_space u"
  by (auto simp: unit_seconds_def is_space_def lower_char_def Let_def split: if_splits)

lemma match_rendered:
  assumes "unit_seconds u = Some k"
  shows "match_duration (show_nat n @ u # rest) = Some (show_nat n, k, rest)"
proof -
  have "takeWhile is_digit (show_nat n @ u # rest) = show_nat n"
    and "dropWhile is_digit (show_nat n @ u # rest) = u # rest"
    using show_nat_digits unit_not_digit [OF assms]
    by (simp_all add: takeWhile_append2 dropWhile_append2)
  then show ?thesis using unit_not_space [OF assms] assms by (simp add: match_duration_def)
qed

lemma scan_rendered:
  assumes "\<forall>(n, u) \<in> set ps. \<exists>k. unit_seconds u = Some k"
  shows "scan_durations (render_duration ps) = (map (\<lambda>(n, u). (show_nat n, the (unit_seconds u))) ps, [])"
  using assms
proof (induction ps)
  case Nil
  then show ?case by simp
next
  case (Cons p ps)
  obtain n u where p: "p = (n, u)" by fastforce
  with Cons.prems obtain k where k: "unit_seconds u = Some k" by auto
  obtain c cs where s: "show_nat n @ u # render_duration ps = c # cs"
    by (cases "show_nat n @ u # render_duration ps") simp_all
  have "scan_durations (c # cs) = ((show_nat n, k) # fst (scan_durations (render_duration ps)),
      snd (scan_durations (render_duration ps)))"
    using match_rendered [OF k, of n "render_duration ps"] s by (simp split: prod.splits)
  then show ?case using p k s Cons by simp
qed

lemma render_no_space:
  assumes "\<forall>(n, u) \<in> set ps. \<exists>k. unit_seconds u = Some k" and "c \<in> set (render_duration ps)"
  shows "\<not> is_space c"
  using assms
proof (induction ps)
  case Nil
  then show ?case by simp
next
  case (Cons p ps)
  obtain n u where p: "p = (n, u)" by fastforce
  with Cons.prems obtain k where k: "unit_seconds u = Some k" by auto
  from Cons.prems(2) p consider "c \<in> set (show_nat n)" | "c = u" | "c \<in> set (render_duration ps)"
    by auto
  then show ?case
  proof cases
    case 1
    then show ?thesis using show_nat_digits digit_not_space by blast
  next
    case 2
    then show ?thesis using k unit_not_space by blast
  next
    case 3
    then show ?thesis using Cons by simp
  qed
qed

text \<open>Durations read back: the text that writes a non-empty list of counts and units one
  after another is parsed as the sum of the counts times the seconds of their units.\<close>

lemma parse_duration_rendered:
  assumes units: "\<forall>(n, u) \<in> set ps. \<exists>k. unit_seconds u = Some k" and "ps \<noteq> []"
  shows "parse_duration (render_duration ps) = sum_list (map (\<lambda>(n, u). n * the (unit_seconds u)) ps)"
proof -
  have "strip (render_duration ps) = render_duration ps"
    using render_no_space [OF units] by (rule strip_no_space)
  moreover have "(\<lambda>(v, k). read_nat v * k) \<circ> (\<lambda>(n, u). (show_nat n, the (unit_seconds u)))
      = (\<lambda>(n, u). n * the (unit_seconds u))"
    by (auto simp: read_show_nat fun_eq_iff)
  ultimately show ?thesis using assms scan_rendered [OF units]
    by (simp add: parse_duration_def strip_Nil_iff)
qed

lemma parse_duration_rendered_witness: "parse_duration ''1h30m'' = 5400"
proof -
  have u: "unit_seconds CHR ''h'' = Some 3600" "unit_seconds CHR ''m'' = Some 60"
    by (simp_all add: unit_seconds_def lower_char_def)
  have r: "render_duration [(1, CHR ''h''), (30, CHR ''m'')] = ''1h30m''"
    by code_simp
  have "parse_duration (render_duration [(1, CHR ''h''), (30, CHR ''m'')]) = 5400"
    using parse_duration_rendered [of "[(1, CHR ''h''), (30, CHR ''m'')]"] u
    by (simp del: render_duration.simps)
  then show ?thesis by (simp only: r)
qed

section \<open>Schedules as they are parsed\<close>

text \<open>What \<open>parse_trigger\<close> accepts is never impossible: an interval is at least the floor of
  60 seconds and counts from the present second, a one-shot lies in the future, a cron expression is one
  croniter takes for valid.\<close>

lemma parse_trigger_sound:
  assumes "parse_trigger env raw now tz = Inr t"
  shows "timezone t = tz
    \<and> (kind t = TRIGGER_EVERY \<longrightarrow> MIN_INTERVAL_S \<le> interval_s t \<and> anchor_at t = floor_s now)
    \<and> (kind t = TRIGGER_AT \<longrightarrow> now < anchor_at t)
    \<and> (kind t = TRIGGER_CRON \<longrightarrow> cron_valid env (cron_expr t) \<and> anchor_at t = floor_s now)"
  using assms by (auto simp: parse_trigger_def Let_def split: if_splits sum.splits option.splits)

lemma parse_trigger_sound_witness:
  "\<exists>t. parse_trigger jump_env '' Every   15m '' (seconds 100) [] = Inr t
     \<and> MIN_INTERVAL_S \<le> interval_s t \<and> interval_s t = 900"
proof -
  have "join '' '' (split_ws '' Every   15m '') = ''Every 15m''"
    by (simp add: split_ws.simps is_space_def)
  moreover have "every_prefix ''Every 15m'' = Some ''15m''"
    by code_simp
  moreover have "parse_duration ''15m'' = 900"
    by (simp add: parse_duration_def strip_def is_space_def match_duration_def is_digit_def
        unit_seconds_def lower_char_def read_nat_def digit_val_def)
  ultimately have p: "parse_trigger jump_env '' Every   15m '' (seconds 100) [] = Inr
      \<lparr>kind = TRIGGER_EVERY, spec = ''Every 15m'', anchor_at = floor_s (seconds 100),
       interval_s = 900, cron_expr = [], timezone = []\<rparr>"
    by (simp add: parse_trigger_def zone_of_def MIN_INTERVAL_S_def)
  show ?thesis using parse_trigger_sound [OF p] p by simp
qed

section \<open>Grace and jitter\<close>

lemma grace_window_bounds:
  assumes "grace_window env t now = Inr g" and "kind t \<noteq> TRIGGER_AT"
  shows "seconds MIN_GRACE_S \<le> g \<and> g \<le> seconds MAX_GRACE_S"
  using assms by (cases "period_of env t now")
    (auto simp: grace_window_def seconds_def second_def MIN_GRACE_S_def MAX_GRACE_S_def)

text \<open>The smear of a task stays within its bounds: no jitter without a period or a cap, and
  otherwise a value from 0 to the smaller of the cap and a twentieth of the period (at least one second).\<close>

lemma jitter_for_bounds:
  "0 \<le> jitter_for env i p c
   \<and> (p \<le> 0 \<or> c \<le> 0 \<longrightarrow> jitter_for env i p c = 0)
   \<and> (0 < p \<and> 0 < c \<longrightarrow> jitter_for env i p c \<le> min c (max 1 (p div 20)))"
proof (cases "p \<le> 0 \<or> c \<le> 0")
  case True
  then show ?thesis by (auto simp: jitter_for_def)
next
  case False
  let ?b = "min c (max 1 (p div 20))"
  have b: "0 < ?b + 1" using False by simp
  have "jitter_for env i p c = int (digest4 env i) mod (?b + 1)"
    using False by (simp add: jitter_for_def Let_def)
  moreover have "0 \<le> int (digest4 env i) mod (?b + 1)" "int (digest4 env i) mod (?b + 1) < ?b + 1"
    using b by (rule pos_mod_sign, rule pos_mod_bound)
  ultimately show ?thesis using False by linarith
qed

lemma jitter_for_bounds_witness:
  "jitter_for jump_env ''tsk_1'' 3600 30 \<le> 30 \<and> jitter_for jump_env ''tsk_1'' 0 30 = 0"
  using jitter_for_bounds [of jump_env "''tsk_1''" 3600 30] jitter_for_bounds [of jump_env "''tsk_1''" 0 30]
  by simp

section \<open>The next few occurrences\<close>

lemma idx_on_phase: "0 < p \<Longrightarrow> 0 \<le> j \<Longrightarrow> idx a p (a + j * p) = j"
  using idx_less_iff [of p "j + 1" a "a + j * p"] idx_le_iff [of p j a "a + j * p"] by auto

lemma advance_past_interval:
  assumes "kind t = TRIGGER_EVERY" and "0 < interval_s t"
  shows "advance_past env t c c =
    Inr (Some (anchor_at t + (idx (anchor_at t) (seconds (interval_s t)) c + 1) * seconds (interval_s t)), 0)"
  using assms by (simp add: advance_past_def advance_interval_idx)

lemma occurrences_loop_interval:
  assumes k: "kind t = TRIGGER_EVERY" "0 < interval_s t" and "- 1 \<le> j"
    and "idx (anchor_at t) (seconds (interval_s t)) c = j"
  shows "occurrences_loop env t now n ms c =
    Inr (ms @ map (\<lambda>i. anchor_at t + (j + 1 + int i) * seconds (interval_s t)) [0..<n])"
  using assms(3,4)
proof (induction n arbitrary: ms c j)
  case 0
  then show ?case by simp
next
  case (Suc n)
  let ?P = "seconds (interval_s t)" and ?a = "anchor_at t"
  have P: "0 < ?P" using k by simp
  have "idx ?a ?P (?a + (j + 1) * ?P) = j + 1" using P Suc.prems(1) by (intro idx_on_phase) simp_all
  then have "occurrences_loop env t now n (ms @ [?a + (j + 1) * ?P]) (?a + (j + 1) * ?P) =
      Inr ((ms @ [?a + (j + 1) * ?P]) @ map (\<lambda>i. ?a + (j + 1 + 1 + int i) * ?P) [0..<n])"
    using Suc.prems(1) by (intro Suc.IH) simp_all
  moreover have "map (\<lambda>i. ?a + (j + 1 + int i) * ?P) [0..<Suc n] =
      (?a + (j + 1) * ?P) # map (\<lambda>i. ?a + (j + 1 + 1 + int i) * ?P) [0..<n]"
    by (simp only: upt_conv_Cons map_Suc_upt [symmetric]) (simp add: algebra_simps)
  ultimately show ?case using Suc.prems advance_past_interval [OF k, of env c] by simp
qed

text \<open>The occurrences echoed back when an interval task is made are exactly the next
  \<open>count\<close> instants of its phase after the present, in order and without a gap.\<close>

lemma next_occurrences_interval:
  assumes "kind t = TRIGGER_EVERY" and "0 < interval_s t" and "anchor_at t \<le> now"
  shows "next_occurrences env t now count = Inr (map (\<lambda>i. anchor_at t
      + ((now - anchor_at t) div seconds (interval_s t) + 1 + int i) * seconds (interval_s t)) [0..<count])"
proof -
  let ?j = "(now - anchor_at t) div seconds (interval_s t)"
  have "idx (anchor_at t) (seconds (interval_s t)) now = ?j" using assms(3) by (simp add: idx_def)
  moreover have "- 1 \<le> ?j" using idx_ge [of "seconds (interval_s t)" "anchor_at t" now] calculation assms(2)
    by simp
  ultimately show ?thesis using occurrences_loop_interval [OF assms(1,2)]
    by (simp add: next_occurrences_def)
qed

lemma next_occurrences_interval_witness:
  "next_occurrences jump_env \<lparr>kind = TRIGGER_EVERY, spec = ''every 1h'', anchor_at = 0, interval_s = 3600,
     cron_expr = [], timezone = []\<rparr> (seconds 5000) 2 = Inr [seconds 7200, seconds 10800]"
proof -
  let ?t = "\<lparr>kind = TRIGGER_EVERY, spec = ''every 1h'', anchor_at = 0, interval_s = 3600,
     cron_expr = [], timezone = []\<rparr>"
  have "next_occurrences jump_env ?t (seconds 5000) 2 = Inr (map (\<lambda>i. anchor_at ?t
      + ((seconds 5000 - anchor_at ?t) div seconds (interval_s ?t) + 1 + int i) * seconds (interval_s ?t)) [0..<2])"
    by (rule next_occurrences_interval) (simp_all add: seconds_def second_def)
  then show ?thesis by (simp add: seconds_def second_def upt_conv_Cons)
qed

end
