(* ===== verification/TaskStore.thy ===== *)
theory TaskStore
  imports Triggers Contracts "HOL-Library.Option_ord"
begin

text \<open>
  Scheduled tasks, their run history and the scheduler's heartbeat as the SQLite store keeps
  them: the records of \<open>packages/crucible/src/crucible/store/base.py\<close> and the statements of
  \<open>packages/crucible/src/crucible/store/sqlite/tasks.py\<close>.

  The database is a record of tables (lists of rows in insertion order); each method holds
  the store's lock from its first statement to its commit or rollback, so it is one function
  from a database to a database and a result.  Rows that tie under an \<open>ORDER BY\<close> come in
  insertion order.  The REAL column of the heartbeat holds a duration in microseconds here.  The \<open>asyncio.to_thread\<close> facade passes its arguments on unchanged and has
  no definition of its own.
\<close>

section \<open>Records\<close>

datatype conv_kind = KIND_THREAD | KIND_DM | KIND_CHANNEL
datatype task_mode = MODE_TURN | MODE_PROMPT | MODE_WATCH
datatype task_state = STATE_IDLE | STATE_RUNNING | STATE_PAUSED | STATE_DONE

datatype run_status =
    RUN_RUNNING | RUN_OK | RUN_EMPTY | RUN_TIMEOUT | RUN_ERROR | RUN_DEADLINE
  | RUN_INTERRUPTED | RUN_NO_AGENT | RUN_NO_CONVERSATION | RUN_MISSED | RUN_OVERLAP
  | RUN_CANCELLED | RUN_DUPLICATE | RUN_GONE | RUN_STOPPED | RUN_NOT_ADMITTED

datatype run_trigger = TRIGGERED_SCHEDULE | TRIGGERED_CATCHUP | TRIGGERED_MANUAL
datatype missed_mode = ON_MISSED_RUN | ON_MISSED_SKIP
datatype notify_mode = NOTIFY_FAILURES | NOTIFY_ALWAYS | NOTIFY_NEVER

record task_record =
  t_id :: string
  t_agent :: string
  t_name :: string
  t_channel_id :: string
  t_conversation_id :: string
  t_kind :: conv_kind
  t_mode :: task_mode
  t_prompt :: string
  t_trigger_kind :: trigger_kind
  t_trigger_spec :: string
  t_interval_s :: int
  t_cron_expr :: string
  t_timezone :: string
  t_anchor_at :: "stamp option"
  t_next_run_at :: "stamp option"
  t_due_at :: "stamp option"
  t_jitter_s :: int
  t_state :: task_state
  t_claim_owner :: string
  t_claim_at :: "stamp option"
  t_lease_until :: "stamp option"
  t_on_missed :: missed_mode
  t_notify :: notify_mode
  t_deadline_s :: int
  t_created_by :: string
  t_created_by_username :: string
  t_created_at :: "stamp option"
  t_updated_at :: "stamp option"
  t_last_run_at :: "stamp option"
  t_last_status :: "run_status option"
  t_run_count :: int
  t_miss_count :: int
  t_consecutive_failures :: int
  t_watch_key :: string
  t_expires_at :: "stamp option"

record task_run =
  r_run_id :: string
  r_task_id :: string
  r_agent :: string
  r_scheduled_at :: "stamp option"
  r_started_at :: "stamp option"
  r_finished_at :: "stamp option"
  r_status :: run_status
  r_trigger :: run_trigger
  r_owner :: string
  r_duration_ms :: int
  r_detail :: string
  r_reply_chars :: int
  r_tool_calls :: int
  r_coalesced :: int
  r_notified :: int

record heartbeat =
  hb_scheduler_id :: string
  hb_pid :: int
  hb_version :: string
  hb_started_at :: "stamp option"
  hb_last_tick_at :: "stamp option"
  hb_tick_seq :: int
  hb_interval_s :: int
  hb_next_wake_at :: "stamp option"
  hb_next_task_id :: string
  hb_next_task_name :: string
  hb_running_count :: int
  hb_tasks_total :: int
  hb_last_error :: string
  hb_last_error_at :: "stamp option"

record task_db =
  tasks :: "task_record list"
  task_runs :: "task_run list"
  beat :: "heartbeat option"

datatype sql_error = IntegrityError

definition empty_db :: task_db where
  "empty_db = \<lparr>tasks = [], task_runs = [], beat = None\<rparr>"

section \<open>Reads\<close>

definition get_task :: "string \<Rightarrow> task_db \<Rightarrow> task_record option" where
  "get_task task_id db = fetchone (\<lambda>t. t_id t = task_id) (tasks db)"

definition find_task :: "string \<Rightarrow> string \<Rightarrow> task_db \<Rightarrow> task_record option" where
  "find_task agent name db = fetchone (\<lambda>t. t_agent t = agent \<and> t_name t = name) (tasks db)"

text \<open>An empty agent or conversation stands for \<open>None\<close> too: neither restricts the list.\<close>

definition list_tasks :: "string \<Rightarrow> string \<Rightarrow> task_db \<Rightarrow> task_record list" where
  "list_tasks agent conversation_id db =
     sort_key t_created_at (sort_key t_id
       (filter (\<lambda>t. (agent = [] \<or> t_agent t = agent)
                  \<and> (conversation_id = [] \<or> t_conversation_id t = conversation_id)) (tasks db)))"

definition is_due :: "stamp \<Rightarrow> task_record \<Rightarrow> bool" where
  "is_due now t \<longleftrightarrow> (t_state t = STATE_IDLE \<or> t_state t = STATE_RUNNING)
     \<and> (case t_due_at t of None \<Rightarrow> False | Some d \<Rightarrow> d \<le> now)"

definition due_tasks :: "stamp \<Rightarrow> nat \<Rightarrow> task_db \<Rightarrow> task_record list" where
  "due_tasks now limit db = take limit (sort_key t_due_at (filter (is_due now) (tasks db)))"

definition peek_next :: "task_db \<Rightarrow> task_record option" where
  "peek_next db = (case sort_key t_next_run_at
       (filter (\<lambda>t. t_state t = STATE_IDLE \<and> t_next_run_at t \<noteq> None) (tasks db)) of
     [] \<Rightarrow> None | t # _ \<Rightarrow> Some t)"

definition list_runs :: "string \<Rightarrow> nat \<Rightarrow> task_db \<Rightarrow> task_run list" where
  "list_runs task_id limit db =
     take limit (rev (sort_key r_scheduled_at
       (rev (filter (\<lambda>r. r_task_id r = task_id) (task_runs db)))))"

definition unnotified_runs :: "nat \<Rightarrow> task_db \<Rightarrow> task_run list" where
  "unnotified_runs limit db =
     take limit (sort_key r_finished_at
       (filter (\<lambda>r. r_notified r = 0 \<and> r_status r \<noteq> RUN_RUNNING) (task_runs db)))"

section \<open>Administration\<close>

definition create_task :: "task_record \<Rightarrow> task_db \<Rightarrow> sql_error + task_db" where
  "create_task t db =
     (if \<exists>t' \<in> set (tasks db). t_id t' = t_id t \<or> t_agent t' = t_agent t \<and> t_name t' = t_name t
      then Inl IntegrityError
      else Inr (db\<lparr>tasks := tasks db @ [t]\<rparr>))"

definition delete_task :: "string \<Rightarrow> task_db \<Rightarrow> task_db \<times> task_record option" where
  "delete_task task_id db =
     (case get_task task_id db of
        None \<Rightarrow> (db, None)
      | Some t \<Rightarrow>
          (db\<lparr>task_runs := del_where (\<lambda>r. r_task_id r = task_id) (task_runs db),
              tasks := del_where (\<lambda>t. t_id t = task_id) (tasks db)\<rparr>, Some t))"

definition set_paused :: "string \<Rightarrow> bool \<Rightarrow> stamp option \<Rightarrow> stamp option \<Rightarrow> stamp option
    \<Rightarrow> task_db \<Rightarrow> task_db \<times> bool" where
  "set_paused task_id paused now next_run_at due_at db =
     (let state = (if paused then STATE_PAUSED else STATE_IDLE);
          hit = (\<lambda>t. t_id t = task_id \<and> t_state t \<noteq> STATE_RUNNING) in
      (db\<lparr>tasks := upd_where hit (\<lambda>t. t\<lparr>t_state := state, t_next_run_at := next_run_at,
              t_due_at := due_at, t_updated_at := now\<rparr>) (tasks db)\<rparr>,
       rowcount hit (tasks db) = 1))"

definition request_run_now :: "string \<Rightarrow> stamp \<Rightarrow> task_db \<Rightarrow> task_db \<times> bool" where
  "request_run_now task_id now db =
     (let hit = (\<lambda>t. t_id t = task_id \<and> t_state t = STATE_IDLE) in
      (db\<lparr>tasks := upd_where hit (\<lambda>t. t\<lparr>t_next_run_at := Some now, t_due_at := Some now,
              t_updated_at := Some now\<rparr>) (tasks db)\<rparr>,
       rowcount hit (tasks db) = 1))"

definition reschedule :: "string \<Rightarrow> stamp option \<Rightarrow> stamp option \<Rightarrow> stamp option
    \<Rightarrow> task_db \<Rightarrow> task_db" where
  "reschedule task_id next_run_at due_at now db =
     db\<lparr>tasks := upd_where (\<lambda>t. t_id t = task_id)
        (\<lambda>t. t\<lparr>t_next_run_at := next_run_at, t_due_at := due_at, t_updated_at := now\<rparr>) (tasks db)\<rparr>"

section \<open>The atomic state machines\<close>

text \<open>Inserting a run row that breaks PRIMARY KEY \<open>run_id\<close> or UNIQUE \<open>(task_id, scheduled_at)\<close>.\<close>

definition run_conflict :: "task_run \<Rightarrow> task_db \<Rightarrow> bool" where
  "run_conflict run db \<longleftrightarrow> (\<exists>r \<in> set (task_runs db). r_run_id r = r_run_id run
     \<or> r_task_id r = r_task_id run \<and> r_scheduled_at r = r_scheduled_at run)"

definition claim_due :: "string \<Rightarrow> stamp option \<Rightarrow> stamp option \<Rightarrow> stamp option \<Rightarrow> task_run
    \<Rightarrow> string \<Rightarrow> stamp option \<Rightarrow> stamp option \<Rightarrow> task_db \<Rightarrow> task_db \<times> task_run option" where
  "claim_due task_id seen_due_at next_run_at due_at run owner lease_until now db =
     (let hit = (\<lambda>t. t_id t = task_id \<and> t_state t = STATE_IDLE
                   \<and> t_due_at t \<noteq> None \<and> t_due_at t = seen_due_at) in
      if rowcount hit (tasks db) \<noteq> 1 then (db, None)
      else if run_conflict run db then (db, None)
      else (db\<lparr>tasks := upd_where hit (\<lambda>t. t\<lparr>t_state := STATE_RUNNING, t_claim_owner := owner,
                 t_claim_at := now, t_lease_until := lease_until, t_next_run_at := next_run_at,
                 t_due_at := due_at, t_last_run_at := now, t_run_count := t_run_count t + 1,
                 t_updated_at := now\<rparr>) (tasks db),
               task_runs := task_runs db @ [run]\<rparr>, Some run))"

definition record_skip :: "string \<Rightarrow> stamp option \<Rightarrow> task_run \<Rightarrow> stamp option \<Rightarrow> stamp option
    \<Rightarrow> stamp option \<Rightarrow> task_db \<Rightarrow> task_db \<times> bool" where
  "record_skip task_id seen_due_at run next_run_at due_at now db =
     (let hit = (\<lambda>t. t_id t = task_id \<and> t_due_at t \<noteq> None \<and> t_due_at t = seen_due_at) in
      if rowcount hit (tasks db) \<noteq> 1 then (db, False)
      else if run_conflict run db then (db, False)
      else (db\<lparr>tasks := upd_where hit (\<lambda>t. t\<lparr>t_next_run_at := next_run_at, t_due_at := due_at,
                 t_miss_count := t_miss_count t + 1, t_last_status := Some (r_status run),
                 t_updated_at := now\<rparr>) (tasks db),
               task_runs := task_runs db @ [run]\<rparr>, True))"

definition complete_run :: "string \<Rightarrow> string \<Rightarrow> run_status \<Rightarrow> stamp option \<Rightarrow> int \<Rightarrow> string
    \<Rightarrow> int \<Rightarrow> int \<Rightarrow> bool \<Rightarrow> task_state \<Rightarrow> task_db \<Rightarrow> task_db" where
  "complete_run run_id task_id status finished_at duration_ms detail reply_chars tool_calls
     failed release_state db =
     (let hit = (\<lambda>r. r_run_id r = run_id \<and> r_status r = RUN_RUNNING) in
      if rowcount hit (task_runs db) \<noteq> 1 then db
      else db\<lparr>task_runs := upd_where hit (\<lambda>r. r\<lparr>r_status := status, r_finished_at := finished_at,
                r_duration_ms := duration_ms, r_detail := detail, r_reply_chars := reply_chars,
                r_tool_calls := tool_calls\<rparr>) (task_runs db),
              tasks := upd_where (\<lambda>t. t_id t = task_id) (\<lambda>t. t\<lparr>t_state := release_state,
                t_claim_owner := [], t_lease_until := None, t_last_status := Some status,
                t_consecutive_failures := (if failed then t_consecutive_failures t + 1 else 0),
                t_updated_at := finished_at\<rparr>) (tasks db)\<rparr>)"

definition lease_expired :: "task_db \<Rightarrow> task_run \<Rightarrow> stamp \<Rightarrow> bool" where
  "lease_expired db run now =
     (case get_task (r_task_id run) db of
        None \<Rightarrow> True
      | Some t \<Rightarrow> (case t_lease_until t of None \<Rightarrow> False | Some l \<Rightarrow> l \<le> now))"

definition is_orphan :: "string \<Rightarrow> stamp \<Rightarrow> task_db \<Rightarrow> task_run \<Rightarrow> bool" where
  "is_orphan scheduler_id now db r \<longleftrightarrow>
     r_status r = RUN_RUNNING \<and> (r_owner r \<noteq> scheduler_id \<or> lease_expired db r now)"

definition interrupt_run :: "stamp \<Rightarrow> task_run \<Rightarrow> task_db \<Rightarrow> task_db" where
  "interrupt_run now orphan db =
     db\<lparr>task_runs := upd_where (\<lambda>r. r_run_id r = r_run_id orphan) (\<lambda>r. r\<lparr>r_status := RUN_INTERRUPTED,
          r_finished_at := Some now,
          r_detail := ''the engine stopped while this run was in flight''\<rparr>) (task_runs db),
        tasks := upd_where (\<lambda>t. t_id t = r_task_id orphan \<and> t_state t = STATE_RUNNING)
          (\<lambda>t. t\<lparr>t_state := STATE_IDLE, t_claim_owner := [], t_lease_until := None,
             t_last_status := Some RUN_INTERRUPTED,
             t_consecutive_failures := t_consecutive_failures t + 1,
             t_updated_at := Some now\<rparr>) (tasks db)\<rparr>"

definition reclaim_orphans :: "string \<Rightarrow> stamp \<Rightarrow> task_db \<Rightarrow> task_db \<times> task_run list" where
  "reclaim_orphans scheduler_id now db =
     (let orphans = filter (is_orphan scheduler_id now db) (task_runs db) in
      (fold (interrupt_run now) orphans db, orphans))"

definition mark_notified :: "string \<Rightarrow> task_db \<Rightarrow> task_db" where
  "mark_notified run_id db =
     db\<lparr>task_runs := upd_where (\<lambda>r. r_run_id r = run_id) (\<lambda>r. r\<lparr>r_notified := 1\<rparr>) (task_runs db)\<rparr>"

text \<open>\<open>ROW_NUMBER() OVER (PARTITION BY task_id ORDER BY scheduled_at DESC)\<close>.\<close>

definition run_rank :: "task_run list \<Rightarrow> task_run \<Rightarrow> nat" where
  "run_rank rows r = Suc (length (filter (\<lambda>r'. r_task_id r' = r_task_id r
     \<and> r_scheduled_at r < r_scheduled_at r') rows))"

definition prunable :: "nat \<Rightarrow> stamp \<Rightarrow> task_run list \<Rightarrow> task_run \<Rightarrow> bool" where
  "prunable keep before rows r \<longleftrightarrow>
     (case r_finished_at r of None \<Rightarrow> False | Some f \<Rightarrow> f < before)
     \<and> r_run_id r \<notin> set (map r_run_id (filter (\<lambda>r'. run_rank rows r' \<le> keep) rows))"

definition prune_runs :: "nat \<Rightarrow> stamp \<Rightarrow> task_db \<Rightarrow> task_db \<times> nat" where
  "prune_runs keep before db =
     (db\<lparr>task_runs := del_where (prunable keep before (task_runs db)) (task_runs db)\<rparr>,
      rowcount (prunable keep before (task_runs db)) (task_runs db))"

section \<open>The scheduler's own state\<close>

definition write_heartbeat :: "heartbeat \<Rightarrow> task_db \<Rightarrow> task_db" where
  "write_heartbeat b db = db\<lparr>beat := Some b\<rparr>"

definition read_heartbeat :: "task_db \<Rightarrow> heartbeat option" where
  "read_heartbeat db = beat db"

section \<open>Invariants\<close>

text \<open>
  The constraints the schema declares (primary keys and unique indexes), with the referential
  integrity of the ledger, which no constraint declares and the deletion keeps.
\<close>

definition db_ok :: "task_db \<Rightarrow> bool" where
  "db_ok db \<longleftrightarrow> distinct (map t_id (tasks db))
     \<and> distinct (map (\<lambda>t. (t_agent t, t_name t)) (tasks db))
     \<and> distinct (map r_run_id (task_runs db))
     \<and> distinct (map (\<lambda>r. (r_task_id r, r_scheduled_at r)) (task_runs db))
     \<and> r_task_id ` set (task_runs db) \<subseteq> t_id ` set (tasks db)"

text \<open>The runs of a task that are in flight.\<close>

definition running_of :: "task_db \<Rightarrow> string \<Rightarrow> task_run list" where
  "running_of db i = filter (\<lambda>r. r_task_id r = i \<and> r_status r = RUN_RUNNING) (task_runs db)"

text \<open>
  The lease: a task is \<open>running\<close> exactly while one run of it is in flight, never two, the
  run belongs to the owner the task names, and a run in flight has not finished.
\<close>

definition lease_ok :: "task_db \<Rightarrow> bool" where
  "lease_ok db \<longleftrightarrow>
     (\<forall>t \<in> set (tasks db). length (running_of db (t_id t)) = (if t_state t = STATE_RUNNING then 1 else 0)
        \<and> (\<forall>r \<in> set (running_of db (t_id t)). r_owner r = t_claim_owner t))
   \<and> (\<forall>r \<in> set (task_runs db). r_status r = RUN_RUNNING \<longrightarrow> r_finished_at r = None)"

lemma db_ok_empty [simp]: "db_ok empty_db"
  by (simp add: db_ok_def empty_db_def)

lemma lease_ok_empty [simp]: "lease_ok empty_db"
  by (simp add: lease_ok_def empty_db_def)

lemma db_okD:
  assumes "db_ok db"
  shows "distinct (map t_id (tasks db))" "distinct (map r_run_id (task_runs db))"
    "distinct (map (\<lambda>r. (r_task_id r, r_scheduled_at r)) (task_runs db))"
  using assms by (simp_all add: db_ok_def)

lemma db_ok_task_of:
  assumes "db_ok db" and "r \<in> set (task_runs db)"
  shows "\<exists>t \<in> set (tasks db). t_id t = r_task_id r"
proof -
  have "r_task_id ` set (task_runs db) \<subseteq> t_id ` set (tasks db)"
    using assms(1) by (simp add: db_ok_def)
  moreover have "r_task_id r \<in> r_task_id ` set (task_runs db)" using assms(2) by (rule imageI)
  ultimately have "r_task_id r \<in> t_id ` set (tasks db)" by (rule subsetD)
  then show ?thesis by auto
qed

text \<open>An update that keeps the keys of the rows keeps the constraints.\<close>

lemma db_ok_same_keys:
  assumes "db_ok db" and "map t_id (tasks db') = map t_id (tasks db)"
    and "map (\<lambda>t. (t_agent t, t_name t)) (tasks db') = map (\<lambda>t. (t_agent t, t_name t)) (tasks db)"
    and "map r_run_id (task_runs db') = map r_run_id (task_runs db)"
    and "map (\<lambda>r. (r_task_id r, r_scheduled_at r)) (task_runs db')
       = map (\<lambda>r. (r_task_id r, r_scheduled_at r)) (task_runs db)"
    and "map r_task_id (task_runs db') = map r_task_id (task_runs db)"
  shows "db_ok db'"
  using assms unfolding db_ok_def by (metis (no_types, lifting) list.set_map)

text \<open>A new run row of an existing task, when the ledger has no such row, keeps them too.\<close>

lemma db_ok_insert_run:
  assumes "db_ok db" and "\<not> run_conflict run db" and "r_task_id run \<in> t_id ` set (tasks db)"
  shows "db_ok (db\<lparr>task_runs := task_runs db @ [run]\<rparr>)"
  using assms by (auto simp: db_ok_def run_conflict_def)

lemma db_ok_set_paused: "db_ok db \<Longrightarrow> db_ok (fst (set_paused i p now nr due db))"
  by (rule db_ok_same_keys [of db]) (auto simp: set_paused_def Let_def row_simps)

lemma db_ok_request_run_now: "db_ok db \<Longrightarrow> db_ok (fst (request_run_now i now db))"
  by (rule db_ok_same_keys [of db]) (auto simp: request_run_now_def Let_def row_simps)

lemma db_ok_reschedule: "db_ok db \<Longrightarrow> db_ok (reschedule i nr due now db)"
  by (rule db_ok_same_keys [of db]) (auto simp: reschedule_def row_simps)

lemma db_ok_mark_notified: "db_ok db \<Longrightarrow> db_ok (mark_notified i db)"
  by (rule db_ok_same_keys [of db]) (auto simp: mark_notified_def row_simps)

lemma db_ok_write_heartbeat: "db_ok db \<Longrightarrow> db_ok (write_heartbeat b db)"
  by (rule db_ok_same_keys [of db]) (auto simp: write_heartbeat_def)

lemma db_ok_complete_run: "db_ok db \<Longrightarrow> db_ok (complete_run rid tid st f d de rc tc fl rel db)"
  by (rule db_ok_same_keys [of db]) (auto simp: complete_run_def Let_def row_simps)

lemma db_ok_interrupt_run: "db_ok db \<Longrightarrow> db_ok (interrupt_run now r db)"
  by (rule db_ok_same_keys [of db]) (auto simp: interrupt_run_def row_simps)

lemma db_ok_reclaim: "db_ok db \<Longrightarrow> db_ok (fst (reclaim_orphans s now db))"
proof -
  have "db_ok db \<Longrightarrow> db_ok (fold (interrupt_run now) rs db)" for rs
    by (induction rs arbitrary: db) (auto intro: db_ok_interrupt_run)
  then show "db_ok db \<Longrightarrow> db_ok (fst (reclaim_orphans s now db))"
    by (simp add: reclaim_orphans_def Let_def)
qed

lemma create_task_fresh:
  assumes "create_task t db = Inr db'"
  shows "db' = db\<lparr>tasks := tasks db @ [t]\<rparr>" and "t_id t \<notin> t_id ` set (tasks db)"
    and "(t_agent t, t_name t) \<notin> (\<lambda>t. (t_agent t, t_name t)) ` set (tasks db)"
  using assms by (auto simp: create_task_def image_iff split: if_splits)

lemma db_ok_create_task: "db_ok db \<Longrightarrow> create_task t db = Inr db' \<Longrightarrow> db_ok db'"
  using create_task_fresh [of t db db'] by (simp add: db_ok_def) blast

lemma db_ok_delete_task: "db_ok db \<Longrightarrow> db_ok (fst (delete_task i db))"
  by (auto simp: delete_task_def db_ok_def row_simps split: option.splits)

lemma db_ok_prune_runs: "db_ok db \<Longrightarrow> db_ok (fst (prune_runs k b db))"
  by (auto simp: prune_runs_def db_ok_def row_simps)

lemma rowcount_task_ex:
  "rowcount (\<lambda>t. t_id t = i \<and> P t) (tasks db) = Suc 0 \<Longrightarrow> i \<in> t_id ` set (tasks db)"
  using rowcount_1_ex [of "\<lambda>t. t_id t = i \<and> P t" "tasks db"] by auto

lemma db_ok_claim_due:
  assumes "db_ok db" and "r_task_id run = i"
  shows "db_ok (fst (claim_due i seen nr due run own lease now db))"
proof (cases "fst (claim_due i seen nr due run own lease now db) = db")
  case False
  then have "\<not> run_conflict run db" and "i \<in> t_id ` set (tasks db)"
    by (auto simp: claim_due_def Let_def split: if_splits dest: rowcount_task_ex)
  then have "db_ok (db\<lparr>task_runs := task_runs db @ [run]\<rparr>)"
    using assms by (intro db_ok_insert_run) simp_all
  then show ?thesis
    by (rule db_ok_same_keys [of "db\<lparr>task_runs := task_runs db @ [run]\<rparr>"]) (use False in \<open>auto simp: claim_due_def Let_def row_simps split: if_splits\<close>)
qed (use assms in simp)

lemma db_ok_record_skip:
  assumes "db_ok db" and "r_task_id run = i"
  shows "db_ok (fst (record_skip i seen run nr due now db))"
proof (cases "fst (record_skip i seen run nr due now db) = db")
  case False
  then have "\<not> run_conflict run db" and "i \<in> t_id ` set (tasks db)"
    by (auto simp: record_skip_def Let_def split: if_splits dest: rowcount_task_ex)
  then have "db_ok (db\<lparr>task_runs := task_runs db @ [run]\<rparr>)"
    using assms by (intro db_ok_insert_run) simp_all
  then show ?thesis
    by (rule db_ok_same_keys [of "db\<lparr>task_runs := task_runs db @ [run]\<rparr>"]) (use False in \<open>auto simp: record_skip_def Let_def row_simps split: if_splits\<close>)
qed (use assms in simp)

section \<open>The lease\<close>

lemma running_of_frame: "task_runs db' = task_runs db \<Longrightarrow> running_of db' i = running_of db i"
  by (simp add: running_of_def)

text \<open>
  An update of tasks that leaves the state running or not as it was, and the owner, with the
  ledger unchanged, keeps the lease.
\<close>

lemma lease_ok_upd_tasks:
  assumes "lease_ok db"
    and "\<And>t. t \<in> set (tasks db) \<Longrightarrow> p t \<Longrightarrow> t_id (f t) = t_id t \<and> t_claim_owner (f t) = t_claim_owner t
        \<and> (t_state (f t) = STATE_RUNNING \<longleftrightarrow> t_state t = STATE_RUNNING)"
    and "tasks db' = upd_where p f (tasks db)" and "task_runs db' = task_runs db"
  shows "lease_ok db'"
  using assms by (auto simp: lease_ok_def running_of_def upd_where_set)

lemma lease_ok_set_paused: "lease_ok db \<Longrightarrow> lease_ok (fst (set_paused i p now nr due db))"
  by (erule lease_ok_upd_tasks) (auto simp: set_paused_def Let_def)

lemma lease_ok_request_run_now: "lease_ok db \<Longrightarrow> lease_ok (fst (request_run_now i now db))"
  by (erule lease_ok_upd_tasks) (auto simp: request_run_now_def Let_def)

lemma lease_ok_reschedule: "lease_ok db \<Longrightarrow> lease_ok (reschedule i nr due now db)"
  by (erule lease_ok_upd_tasks) (auto simp: reschedule_def)

lemma lease_ok_write_heartbeat: "lease_ok db \<Longrightarrow> lease_ok (write_heartbeat b db)"
  by (simp add: write_heartbeat_def lease_ok_def running_of_def)

text \<open>A step over the ledger that keeps, task by task, the runs in flight and their owners.\<close>

lemma lease_okI:
  assumes "\<And>t. t \<in> set (tasks db) \<Longrightarrow>
      length (running_of db (t_id t)) = (if t_state t = STATE_RUNNING then 1 else 0)"
    and "\<And>t r. t \<in> set (tasks db) \<Longrightarrow> r \<in> set (running_of db (t_id t)) \<Longrightarrow> r_owner r = t_claim_owner t"
    and "\<And>r. r \<in> set (task_runs db) \<Longrightarrow> r_status r = RUN_RUNNING \<Longrightarrow> r_finished_at r = None"
  shows "lease_ok db"
  using assms by (simp add: lease_ok_def)

lemma lease_okD:
  assumes "lease_ok db"
  shows "t \<in> set (tasks db) \<Longrightarrow>
      length (running_of db (t_id t)) = (if t_state t = STATE_RUNNING then 1 else 0)"
    and "t \<in> set (tasks db) \<Longrightarrow> r \<in> set (running_of db (t_id t)) \<Longrightarrow> r_owner r = t_claim_owner t"
    and "r \<in> set (task_runs db) \<Longrightarrow> r_status r = RUN_RUNNING \<Longrightarrow> r_finished_at r = None"
  using assms by (simp_all add: lease_ok_def)

lemma lease_ok_mark_notified:
  assumes "lease_ok db"
  shows "lease_ok (mark_notified i db)"
proof (rule lease_okI)
  fix t assume t: "t \<in> set (tasks (mark_notified i db))"
  have "length (running_of (mark_notified i db) (t_id t)) = length (running_of db (t_id t))"
    by (simp add: running_of_def mark_notified_def length_filter_upd_where)
  then show "length (running_of (mark_notified i db) (t_id t)) = (if t_state t = STATE_RUNNING then 1 else 0)"
    using lease_okD(1) [OF assms] t by (simp add: mark_notified_def)
next
  fix t r assume "t \<in> set (tasks (mark_notified i db))" "r \<in> set (running_of (mark_notified i db) (t_id t))"
  then show "r_owner r = t_claim_owner t" using lease_okD(2) [OF assms]
    by (auto simp: running_of_def mark_notified_def upd_where_set split: if_splits)
next
  fix r assume "r \<in> set (task_runs (mark_notified i db))" "r_status r = RUN_RUNNING"
  then show "r_finished_at r = None" using lease_okD(3) [OF assms]
    by (auto simp: mark_notified_def upd_where_set split: if_splits)
qed

lemma lease_ok_prune_runs:
  assumes "lease_ok db"
  shows "lease_ok (fst (prune_runs k b db))"
proof -
  have "r_status r = RUN_RUNNING \<Longrightarrow> r \<in> set (task_runs db) \<Longrightarrow> \<not> prunable k b (task_runs db) r" for r
    using lease_okD(3) [OF assms] by (simp add: prunable_def)
  then have "running_of (fst (prune_runs k b db)) i = running_of db i" for i
    by (simp add: running_of_def prune_runs_def del_where_def)
       (rule filter_cong, auto)
  then show ?thesis using assms by (auto simp: lease_ok_def prune_runs_def)
qed

lemma lease_ok_create_task:
  assumes "db_ok db" and "lease_ok db" and c: "create_task t db = Inr db'" and "t_state t \<noteq> STATE_RUNNING"
  shows "lease_ok db'"
proof -
  note fresh = create_task_fresh [OF c]
  have "r_task_id r \<noteq> t_id t" if "r \<in> set (task_runs db)" for r
    using db_ok_task_of [OF assms(1) that] fresh(2) by (metis imageI)
  then have "running_of db (t_id t) = []" by (auto simp: running_of_def filter_empty_conv)
  moreover have "running_of db' j = running_of db j" for j
    using fresh(1) by (simp add: running_of_def)
  moreover have "set (tasks db') = insert t (set (tasks db))" "task_runs db' = task_runs db"
    using fresh(1) by simp_all
  ultimately show ?thesis using assms(2,4) by (simp add: lease_ok_def)
qed

lemma lease_ok_delete_task:
  assumes "lease_ok db"
  shows "lease_ok (fst (delete_task i db))"
proof (cases "get_task i db")
  case None
  then show ?thesis using assms by (simp add: delete_task_def)
next
  case (Some t0)
  have "running_of (fst (delete_task i db)) j = running_of db j" if "j \<noteq> i" for j
    using Some that by (simp add: delete_task_def running_of_def del_where_def)
      (rule filter_cong, auto)
  then show ?thesis using Some lease_okD [OF assms]
    by (intro lease_okI) (auto simp: delete_task_def)
qed

text \<open>What a successful claim found and wrote.\<close>

lemma claim_due_cases:
  assumes "claim_due i seen nr due run own lease now db = (db', res)"
  obtains (lost) "res = None" "db' = db"
  | (won) t where "res = Some run" "t \<in> set (tasks db)" "t_id t = i" "t_state t = STATE_IDLE"
      "t_due_at t \<noteq> None" "t_due_at t = seen" "\<not> run_conflict run db"
      "db' = db\<lparr>tasks := upd_where (\<lambda>t. t_id t = i \<and> t_state t = STATE_IDLE
                   \<and> t_due_at t \<noteq> None \<and> t_due_at t = seen) (\<lambda>t. t\<lparr>t_state := STATE_RUNNING, t_claim_owner := own,
                 t_claim_at := now, t_lease_until := lease, t_next_run_at := nr,
                 t_due_at := due, t_last_run_at := now, t_run_count := t_run_count t + 1,
                 t_updated_at := now\<rparr>) (tasks db),
               task_runs := task_runs db @ [run]\<rparr>"
proof (cases "rowcount (\<lambda>t. t_id t = i \<and> t_state t = STATE_IDLE \<and> t_due_at t \<noteq> None \<and> t_due_at t = seen)
      (tasks db) = 1 \<and> \<not> run_conflict run db")
  case True
  then obtain t where "t \<in> set (tasks db)" "t_id t = i" "t_state t = STATE_IDLE"
      "t_due_at t \<noteq> None" "t_due_at t = seen"
    using rowcount_1_ex [of _ "tasks db"] by blast
  then show ?thesis using True assms won by (auto simp: claim_due_def Let_def)
next
  case False
  then show ?thesis using assms lost by (auto simp: claim_due_def Let_def split: if_splits)
qed

lemma lease_ok_claim_due:
  assumes ok: "db_ok db" "lease_ok db"
    and c: "claim_due i seen nr due run own lease now db = (db', res)"
    and run: "r_task_id run = i" "r_status run = RUN_RUNNING" "r_finished_at run = None" "r_owner run = own"
  shows "lease_ok db'"
  using c
proof (cases rule: claim_due_cases)
  case lost
  then show ?thesis using ok by simp
next
  case (won t)
  let ?f = "\<lambda>t. t\<lparr>t_state := STATE_RUNNING, t_claim_owner := own, t_claim_at := now,
      t_lease_until := lease, t_next_run_at := nr, t_due_at := due, t_last_run_at := now,
      t_run_count := t_run_count t + 1, t_updated_at := now\<rparr>"
  have tasks': "tasks db' = upd_where (\<lambda>t. t_id t = i) ?f (tasks db)"
    using won upd_where_unique [OF db_okD(1) [OF ok(1)] won(2,3),
        of "\<lambda>t. t_state t = STATE_IDLE \<and> t_due_at t \<noteq> None \<and> t_due_at t = seen" ?f] by simp
  have none: "running_of db i = []" using lease_okD(1) [OF ok(2) won(2)] won(3,4) by simp
  have run_i: "running_of db' j = (if j = i then [run] else running_of db j)" for j
    using won(8) none run by (auto simp: running_of_def)
  show ?thesis
  proof (rule lease_okI)
    fix u assume "u \<in> set (tasks db')"
    then obtain u0 where u0: "u0 \<in> set (tasks db)" "u = (if t_id u0 = i then ?f u0 else u0)"
      unfolding tasks' by (blast dest: in_upd_where)
    show "length (running_of db' (t_id u)) = (if t_state u = STATE_RUNNING then 1 else 0)"
      using lease_okD(1) [OF ok(2) u0(1)] by (auto simp: u0(2) run_i split: if_splits)
  next
    fix u r assume u: "u \<in> set (tasks db')" "r \<in> set (running_of db' (t_id u))"
    then obtain u0 where u0: "u0 \<in> set (tasks db)" "u = (if t_id u0 = i then ?f u0 else u0)"
      unfolding tasks' by (blast dest: in_upd_where)
    show "r_owner r = t_claim_owner u"
      using u(2) run(4) lease_okD(2) [OF ok(2) u0(1)] by (cases "t_id u0 = i") (simp_all add: u0(2) run_i)
  next
    fix r assume "r \<in> set (task_runs db')" "r_status r = RUN_RUNNING"
    then show "r_finished_at r = None" using won(8) run(3) lease_okD(3) [OF ok(2)] by auto
  qed
qed

lemma record_skip_cases:
  assumes "record_skip i seen run nr due now db = (db', res)"
  obtains (lost) "\<not> res" "db' = db"
  | (won) t where "res" "t \<in> set (tasks db)" "t_id t = i" "t_due_at t \<noteq> None" "t_due_at t = seen"
      "\<not> run_conflict run db"
      "db' = db\<lparr>tasks := upd_where (\<lambda>t. t_id t = i \<and> t_due_at t \<noteq> None \<and> t_due_at t = seen)
               (\<lambda>t. t\<lparr>t_next_run_at := nr, t_due_at := due, t_miss_count := t_miss_count t + 1,
                 t_last_status := Some (r_status run), t_updated_at := now\<rparr>) (tasks db),
               task_runs := task_runs db @ [run]\<rparr>"
proof (cases "rowcount (\<lambda>t. t_id t = i \<and> t_due_at t \<noteq> None \<and> t_due_at t = seen) (tasks db) = 1
      \<and> \<not> run_conflict run db")
  case True
  then obtain t where "t \<in> set (tasks db)" "t_id t = i" "t_due_at t \<noteq> None" "t_due_at t = seen"
    using rowcount_1_ex [of _ "tasks db"] by blast
  then show ?thesis using True assms won by (auto simp: record_skip_def Let_def)
next
  case False
  then show ?thesis using assms lost by (auto simp: record_skip_def Let_def split: if_splits)
qed

lemma lease_ok_record_skip:
  assumes "lease_ok db" and c: "record_skip i seen run nr due now db = (db', res)"
    and run: "r_status run \<noteq> RUN_RUNNING"
  shows "lease_ok db'"
  using c
proof (cases rule: record_skip_cases)
  case lost
  then show ?thesis using assms by simp
next
  case (won t)
  have "lease_ok (db\<lparr>task_runs := task_runs db @ [run]\<rparr>)"
    using assms(1) run by (auto simp: lease_ok_def running_of_def)
  then show ?thesis by (rule lease_ok_upd_tasks) (use won(7) in auto)
qed

text \<open>A completion finds the run in flight or changes nothing.\<close>

lemma complete_run_cases:
  assumes "db_ok db"
  obtains (stale) "complete_run rid tid st f d de rc tc fl rel db = db"
      "\<And>r. r \<in> set (task_runs db) \<Longrightarrow> r_run_id r = rid \<Longrightarrow> r_status r \<noteq> RUN_RUNNING"
  | (live) r0 where "r0 \<in> set (task_runs db)" "r_run_id r0 = rid" "r_status r0 = RUN_RUNNING"
      "complete_run rid tid st f d de rc tc fl rel db =
        db\<lparr>task_runs := upd_where (\<lambda>r. r_run_id r = rid \<and> r_status r = RUN_RUNNING)
              (\<lambda>r. r\<lparr>r_status := st, r_finished_at := f,
                r_duration_ms := d, r_detail := de, r_reply_chars := rc, r_tool_calls := tc\<rparr>) (task_runs db),
            tasks := upd_where (\<lambda>t. t_id t = tid) (\<lambda>t. t\<lparr>t_state := rel,
                t_claim_owner := [], t_lease_until := None, t_last_status := Some st,
                t_consecutive_failures := (if fl then t_consecutive_failures t + 1 else 0),
                t_updated_at := f\<rparr>) (tasks db)\<rparr>"
proof (cases "\<exists>r \<in> set (task_runs db). r_run_id r = rid \<and> r_status r = RUN_RUNNING")
  case True
  then obtain r0 where "r0 \<in> set (task_runs db)" "r_run_id r0 = rid" "r_status r0 = RUN_RUNNING" by blast
  moreover have "rowcount (\<lambda>r. r_run_id r = rid \<and> r_status r = RUN_RUNNING) (task_runs db) = 1"
    using True rowcount_unique_eq [OF db_okD(2) [OF assms], of "\<lambda>r. r_run_id r = rid \<and> r_status r = RUN_RUNNING" rid]
    by blast
  ultimately show ?thesis using live by (simp add: complete_run_def Let_def)
next
  case False
  then have "rowcount (\<lambda>r. r_run_id r = rid \<and> r_status r = RUN_RUNNING) (task_runs db) = 0"
    by (auto simp: rowcount_0_iff)
  then show ?thesis using False stale by (auto simp: complete_run_def Let_def)
qed

lemma lease_ok_complete_run:
  assumes ok: "db_ok db" "lease_ok db"
    and own: "\<And>r. r \<in> set (task_runs db) \<Longrightarrow> r_run_id r = rid \<Longrightarrow> r_task_id r = tid"
    and st: "st \<noteq> RUN_RUNNING" and rel: "rel \<noteq> STATE_RUNNING"
  shows "lease_ok (complete_run rid tid st f d de rc tc fl rel db)"
proof (cases rule: complete_run_cases [OF ok(1), of rid tid st f d de rc tc fl rel])
  case 1
  then show ?thesis using ok by simp
next
  case (2 r0)
  let ?db = "complete_run rid tid st f d de rc tc fl rel db"
  let ?hit = "\<lambda>r. r_run_id r = rid \<and> r_status r = RUN_RUNNING"
  let ?g = "\<lambda>t. t\<lparr>t_state := rel, t_claim_owner := [], t_lease_until := None, t_last_status := Some st,
                t_consecutive_failures := (if fl then t_consecutive_failures t + 1 else 0),
                t_updated_at := f\<rparr>"
  have r0: "r_task_id r0 = tid" using own 2 by blast
  have run_j: "running_of ?db j = filter (\<lambda>r. (r_task_id r = j \<and> r_status r = RUN_RUNNING) \<and> \<not> ?hit r) (task_runs db)" for j
    unfolding 2(4) running_of_def using st by (simp add: filter_upd_where_drop)
  have others: "running_of ?db j = running_of db j" if "j \<noteq> tid" for j
    unfolding run_j unfolding running_of_def using own that by (intro filter_cong) auto
  have none: "running_of ?db tid = []"
  proof -
    obtain t where t: "t \<in> set (tasks db)" "t_id t = tid"
      using db_ok_task_of [OF ok(1) 2(1)] r0 by auto
    have "length (running_of db tid) = length (filter (\<lambda>r. (r_task_id r = tid \<and> r_status r = RUN_RUNNING) \<and> ?hit r) (task_runs db))
        + length (running_of ?db tid)"
      unfolding run_j unfolding running_of_def by (rule length_filter_split)
    moreover have "0 < length (filter (\<lambda>r. (r_task_id r = tid \<and> r_status r = RUN_RUNNING) \<and> ?hit r) (task_runs db))"
      using 2(1-3) r0 by (auto simp: filter_empty_conv)
    moreover have "length (running_of db tid) \<le> 1" using lease_okD(1) [OF ok(2) t(1)] t(2) by simp
    ultimately have "length (running_of ?db tid) = 0" by linarith
    then show ?thesis by simp
  qed
  show ?thesis
  proof (rule lease_okI)
    fix u assume "u \<in> set (tasks ?db)"
    then obtain u0 where u0: "u0 \<in> set (tasks db)" "u = (if t_id u0 = tid then ?g u0 else u0)"
      unfolding 2(4) by (auto dest!: in_upd_where)
    then show "length (running_of ?db (t_id u)) = (if t_state u = STATE_RUNNING then 1 else 0)"
      using none rel others lease_okD(1) [OF ok(2) u0(1)] by (cases "t_id u0 = tid") simp_all
  next
    fix u r assume u: "u \<in> set (tasks ?db)" "r \<in> set (running_of ?db (t_id u))"
    then obtain u0 where u0: "u0 \<in> set (tasks db)" "u = (if t_id u0 = tid then ?g u0 else u0)"
      unfolding 2(4) by (auto dest!: in_upd_where)
    then show "r_owner r = t_claim_owner u"
      using u(2) none others lease_okD(2) [OF ok(2) u0(1)] by (cases "t_id u0 = tid") simp_all
  next
    fix r assume "r \<in> set (task_runs ?db)" "r_status r = RUN_RUNNING"
    then show "r_finished_at r = None" using lease_okD(3) [OF ok(2)] st
      unfolding 2(4) by (auto dest!: in_upd_where split: if_splits)
  qed
qed

text \<open>Reclaiming one orphan: a row in flight is closed and its task, if running, is idle again.\<close>

lemma lease_ok_interrupt_run:
  assumes ok: "db_ok db" "lease_ok db" and r0: "r0 \<in> set (task_runs db)" "r_status r0 = RUN_RUNNING"
  shows "lease_ok (interrupt_run now r0 db)"
proof -
  let ?db = "interrupt_run now r0 db"
  let ?g = "\<lambda>t. t\<lparr>t_state := STATE_IDLE, t_claim_owner := [], t_lease_until := None,
             t_last_status := Some RUN_INTERRUPTED,
             t_consecutive_failures := t_consecutive_failures t + 1,
             t_updated_at := Some now\<rparr>"
  have only: "r = r0" if "r \<in> set (task_runs db)" "r_run_id r = r_run_id r0" for r
    using that r0(1) db_okD(2) [OF ok(1)] by (auto simp: distinct_map dest: inj_onD)
  obtain t0 where t0: "t0 \<in> set (tasks db)" "t_id t0 = r_task_id r0"
    using db_ok_task_of [OF ok(1) r0(1)] by auto
  have run_t0: "running_of db (r_task_id r0) = [r0]"
  proof -
    have "r0 \<in> set (running_of db (r_task_id r0))" using r0 by (simp add: running_of_def)
    moreover have "length (running_of db (r_task_id r0)) \<le> 1" using lease_okD(1) [OF ok(2) t0(1)] t0(2) by simp
    ultimately show ?thesis by (cases "running_of db (r_task_id r0)") auto
  qed
  have st0: "t_state t0 = STATE_RUNNING"
    using lease_okD(1) [OF ok(2) t0(1)] t0(2) run_t0 by (simp split: if_splits)
  have tasks': "tasks ?db = upd_where (\<lambda>t. t_id t = r_task_id r0) ?g (tasks db)"
    using upd_where_unique [OF db_okD(1) [OF ok(1)] t0, of "\<lambda>t. t_state t = STATE_RUNNING" ?g] st0
    by (simp add: interrupt_run_def)
  have run_j: "running_of ?db j = (if j = r_task_id r0 then [] else running_of db j)" for j
  proof -
    have "running_of ?db j = filter (\<lambda>r. (r_task_id r = j \<and> r_status r = RUN_RUNNING)
        \<and> r_run_id r \<noteq> r_run_id r0) (task_runs db)"
      by (simp add: running_of_def interrupt_run_def filter_upd_where_drop)
    also have "\<dots> = filter (\<lambda>r. r_run_id r \<noteq> r_run_id r0) (running_of db j)"
      by (simp add: running_of_def conj_commute)
    finally have eq: "running_of ?db j = filter (\<lambda>r. r_run_id r \<noteq> r_run_id r0) (running_of db j)" .
    show ?thesis
    proof (cases "j = r_task_id r0")
      case True
      then show ?thesis using eq run_t0 by simp
    next
      case False
      have "r_run_id r \<noteq> r_run_id r0" if "r \<in> set (running_of db j)" for r
        using that only [of r] False by (auto simp: running_of_def)
      then show ?thesis using eq False by simp
    qed
  qed
  show ?thesis
  proof (rule lease_okI)
    fix u assume "u \<in> set (tasks ?db)"
    then obtain u0 where u0: "u0 \<in> set (tasks db)" "u = (if t_id u0 = r_task_id r0 then ?g u0 else u0)"
      unfolding tasks' by (auto dest!: in_upd_where)
    then show "length (running_of ?db (t_id u)) = (if t_state u = STATE_RUNNING then 1 else 0)"
      using run_j lease_okD(1) [OF ok(2) u0(1)] by (cases "t_id u0 = r_task_id r0") simp_all
  next
    fix u r assume u: "u \<in> set (tasks ?db)" "r \<in> set (running_of ?db (t_id u))"
    then obtain u0 where u0: "u0 \<in> set (tasks db)" "u = (if t_id u0 = r_task_id r0 then ?g u0 else u0)"
      unfolding tasks' by (auto dest!: in_upd_where)
    then show "r_owner r = t_claim_owner u"
      using u(2) run_j lease_okD(2) [OF ok(2) u0(1)] by (cases "t_id u0 = r_task_id r0") simp_all
  next
    fix r assume "r \<in> set (task_runs ?db)" "r_status r = RUN_RUNNING"
    then show "r_finished_at r = None" using lease_okD(3) [OF ok(2)]
      by (auto simp: interrupt_run_def dest!: in_upd_where split: if_splits)
  qed
qed

text \<open>The other rows of the ledger are untouched while one orphan is closed.\<close>

lemma interrupt_run_others:
  "r \<in> set (task_runs db) \<Longrightarrow> r_run_id r \<noteq> r_run_id r0 \<Longrightarrow> r \<in> set (task_runs (interrupt_run now r0 db))"
  by (force simp: interrupt_run_def upd_where_set)

lemma lease_ok_interrupt_runs:
  assumes "db_ok db" "lease_ok db" and "set rs \<subseteq> set (task_runs db)" "distinct (map r_run_id rs)"
    and "\<And>r. r \<in> set rs \<Longrightarrow> r_status r = RUN_RUNNING"
  shows "lease_ok (fold (interrupt_run now) rs db)"
  using assms
proof (induction rs arbitrary: db)
  case Nil
  then show ?case by simp
next
  case (Cons r rs)
  have "r_run_id x \<noteq> r_run_id r" if "x \<in> set rs" for x
    using Cons.prems(4) that by (metis distinct.simps(2) imageI list.set_map list.simps(9))
  then have "set rs \<subseteq> set (task_runs (interrupt_run now r db))"
    using Cons.prems(3) by (auto intro!: interrupt_run_others)
  moreover have "lease_ok (interrupt_run now r db)" "db_ok (interrupt_run now r db)"
    using Cons.prems by (auto intro: lease_ok_interrupt_run db_ok_interrupt_run)
  ultimately show ?case using Cons.IH [of "interrupt_run now r db"] Cons.prems(4,5) by simp
qed

lemma lease_ok_reclaim:
  assumes "db_ok db" "lease_ok db"
  shows "lease_ok (fst (reclaim_orphans s now db))"
  unfolding reclaim_orphans_def Let_def fst_conv
  using assms db_okD(2) [OF assms(1)]
  by (intro lease_ok_interrupt_runs) (auto simp: is_orphan_def distinct_map_filter)

section \<open>The store as a transition system\<close>

text \<open>
  One rule per method that writes, with what every caller of it respects: a task is created
  idle, a claim opens a run of that task for that owner, a skip writes a row that is not in
  flight, a completion names the run's own task and releases it.
\<close>

inductive store_step :: "task_db \<Rightarrow> task_db \<Rightarrow> bool" where
  create: "create_task t db = Inr db' \<Longrightarrow> t_state t \<noteq> STATE_RUNNING \<Longrightarrow> store_step db db'"
| delete: "store_step db (fst (delete_task i db))"
| pause: "store_step db (fst (set_paused i p now nr due db))"
| run_now: "store_step db (fst (request_run_now i at db))"
| resched: "store_step db (reschedule i nr due now db)"
| claim: "r_task_id run = i \<Longrightarrow> r_status run = RUN_RUNNING \<Longrightarrow> r_finished_at run = None
    \<Longrightarrow> r_owner run = own \<Longrightarrow> store_step db (fst (claim_due i seen nr due run own lease now db))"
| skip: "r_task_id run = i \<Longrightarrow> r_status run \<noteq> RUN_RUNNING
    \<Longrightarrow> store_step db (fst (record_skip i seen run nr due now db))"
| complete: "(\<And>r. r \<in> set (task_runs db) \<Longrightarrow> r_run_id r = rid \<Longrightarrow> r_task_id r = i)
    \<Longrightarrow> st \<noteq> RUN_RUNNING \<Longrightarrow> rel \<noteq> STATE_RUNNING
    \<Longrightarrow> store_step db (complete_run rid i st f d de rc tc fl rel db)"
| reclaim: "store_step db (fst (reclaim_orphans sid at db))"
| notified: "store_step db (mark_notified rid db)"
| prune: "store_step db (fst (prune_runs k at db))"
| heart: "store_step db (write_heartbeat b db)"

lemma store_step_keeps:
  assumes "store_step db db'" and "db_ok db" and "lease_ok db"
  shows "db_ok db' \<and> lease_ok db'"
  using assms
proof (cases rule: store_step.cases)
  case (create t)
  then show ?thesis using assms db_ok_create_task lease_ok_create_task by blast
next
  case (delete i)
  then show ?thesis using assms by (simp add: db_ok_delete_task lease_ok_delete_task)
next
  case (pause i p now nr due)
  then show ?thesis using assms by (simp add: db_ok_set_paused lease_ok_set_paused)
next
  case (run_now i at)
  then show ?thesis using assms by (simp add: db_ok_request_run_now lease_ok_request_run_now)
next
  case (resched i nr due now)
  then show ?thesis using assms by (simp add: db_ok_reschedule lease_ok_reschedule)
next
  case (claim run i own seen nr due lease now)
  obtain res where "claim_due i seen nr due run own lease now db = (db', res)"
    using claim(1) by (metis prod.collapse)
  then show ?thesis using assms claim db_ok_claim_due lease_ok_claim_due by metis
next
  case (skip run i seen nr due now)
  obtain res where "record_skip i seen run nr due now db = (db', res)"
    using skip(1) by (metis prod.collapse)
  then show ?thesis using assms skip db_ok_record_skip lease_ok_record_skip by metis
next
  case (complete rid i st rel f d de rc tc fl)
  then show ?thesis using assms db_ok_complete_run lease_ok_complete_run by metis
next
  case (reclaim sid at)
  then show ?thesis using assms by (simp add: db_ok_reclaim lease_ok_reclaim)
next
  case (notified rid)
  then show ?thesis using assms by (simp add: db_ok_mark_notified lease_ok_mark_notified)
next
  case (prune k at)
  then show ?thesis using assms by (simp add: db_ok_prune_runs lease_ok_prune_runs)
next
  case (heart b)
  then show ?thesis using assms by (simp add: db_ok_write_heartbeat lease_ok_write_heartbeat)
qed

interpretation store: invariant_system "\<lambda>db. db = empty_db" store_step "\<lambda>db. db_ok db \<and> lease_ok db"
  by unfold_locales (simp, metis store_step_keeps)

text \<open>A task and a run to evaluate with.\<close>

definition sample_task :: task_record where
  "sample_task = \<lparr>t_id = ''tsk_1'', t_agent = ''ann'', t_name = ''digest'', t_channel_id = ''c1'',
     t_conversation_id = ''v1'', t_kind = KIND_THREAD, t_mode = MODE_TURN, t_prompt = ''go'',
     t_trigger_kind = TRIGGER_EVERY, t_trigger_spec = ''every 1h'', t_interval_s = 3600, t_cron_expr = [],
     t_timezone = [], t_anchor_at = Some 0, t_next_run_at = Some 3600, t_due_at = Some 3605,
     t_jitter_s = 5, t_state = STATE_IDLE, t_claim_owner = [], t_claim_at = None, t_lease_until = None,
     t_on_missed = ON_MISSED_RUN, t_notify = NOTIFY_FAILURES, t_deadline_s = 0, t_created_by = ''u1'',
     t_created_by_username = [], t_created_at = Some 0, t_updated_at = Some 0, t_last_run_at = None,
     t_last_status = None, t_run_count = 0, t_miss_count = 0, t_consecutive_failures = 0,
     t_watch_key = [], t_expires_at = None\<rparr>"

definition sample_run :: task_run where
  "sample_run = \<lparr>r_run_id = ''run_1'', r_task_id = ''tsk_1'', r_agent = ''ann'', r_scheduled_at = Some 3600,
     r_started_at = Some 3610, r_finished_at = None, r_status = RUN_RUNNING,
     r_trigger = TRIGGERED_SCHEDULE, r_owner = ''s1'', r_duration_ms = 0, r_detail = [], r_reply_chars = 0,
     r_tool_calls = 0, r_coalesced = 1, r_notified = 0\<rparr>"

definition sample_db :: task_db where
  "sample_db = fst (claim_due ''tsk_1'' (Some 3605) (Some 7200) (Some 7205) sample_run ''s1'' (Some 7210)
     (Some 3610) (empty_db\<lparr>tasks := [sample_task]\<rparr>))"

lemma sample_db_reachable: "reachable (\<lambda>db. db = empty_db) store_step sample_db"
proof -
  have "store_step empty_db (empty_db\<lparr>tasks := [sample_task]\<rparr>)"
    by (rule store_step.create [of sample_task]) (simp_all add: create_task_def empty_db_def sample_task_def)
  moreover have "store_step (empty_db\<lparr>tasks := [sample_task]\<rparr>) sample_db"
    unfolding sample_db_def by (rule store_step.claim) (simp_all add: sample_run_def)
  moreover have "reachable (\<lambda>db. db = empty_db) store_step empty_db"
    by (rule reachable.start) (rule refl)
  ultimately show ?thesis by (metis reachable.move)
qed

text \<open>C1. The ledger and the lease are kept by every method of the store: in every reachable
  database the declared keys are unique and every run belongs to a task, a task is \<open>running\<close>
  exactly when one run of it is in flight (never two), and that run belongs to the owner the
  task's lease names.\<close>

theorem store_ledger_and_lease:
  assumes "reachable (\<lambda>db. db = empty_db) store_step db"
  shows "db_ok db \<and> lease_ok db"
  using assms by (rule store.reachable_inv)

lemma store_ledger_and_lease_witness:
  "db_ok sample_db \<and> lease_ok sample_db \<and> task_runs sample_db = [sample_run]"
  using store_ledger_and_lease [OF sample_db_reachable]
  by (simp add: sample_db_def claim_due_def empty_db_def sample_task_def rowcount_def run_conflict_def)

section \<open>Claims exclude each other\<close>

text \<open>The arguments of a claim, and a claim as an attempt.\<close>

type_synonym claim_args = "string \<times> stamp option \<times> stamp option \<times> stamp option \<times> task_run
  \<times> string \<times> stamp option \<times> stamp option"

definition claim_attempt :: "claim_args \<Rightarrow> task_db \<Rightarrow> task_db \<times> bool" where
  "claim_attempt c db = (case c of (i, seen, nr, due, run, own, lease, now) \<Rightarrow>
     map_prod id (\<lambda>r. r \<noteq> None) (claim_due i seen nr due run own lease now db))"

definition claim_key :: "claim_args \<Rightarrow> string \<times> stamp option" where
  "claim_key c = (case c of (i, seen, _) \<Rightarrow> (i, seen))"

definition claimable :: "string \<times> stamp option \<Rightarrow> task_db \<Rightarrow> bool" where
  "claimable k db \<longleftrightarrow> (\<exists>t \<in> set (tasks db). t_id t = fst k \<and> t_state t = STATE_IDLE
     \<and> t_due_at t \<noteq> None \<and> t_due_at t = snd k)"

interpretation claims: single_winner claim_attempt claim_key claimable
proof unfold_locales
  fix c and db db' :: task_db
  assume a: "claim_attempt c db = (db', True)"
  obtain i seen nr due run own lease now where c: "c = (i, seen, nr, due, run, own, lease, now)"
    by (cases c) auto
  from a obtain res where "claim_due i seen nr due run own lease now db = (db', res)" "res \<noteq> None"
    by (auto simp: claim_attempt_def c map_prod_def split: prod.splits)
  then have "claimable (claim_key c) db \<and> \<not> claimable (claim_key c) db'"
  proof (cases rule: claim_due_cases)
    case (won t)
    then have "claimable (claim_key c) db" by (auto simp: claimable_def claim_key_def c)
    moreover have "t_state u = STATE_RUNNING \<or> \<not> (t_id u = i \<and> t_state u = STATE_IDLE \<and> t_due_at u \<noteq> None \<and> t_due_at u = seen)"
      if "u \<in> set (tasks db')" for u
      using that unfolding won(8) by (auto dest!: in_upd_where split: if_splits)
    ultimately show ?thesis unfolding claimable_def claim_key_def c by force
  qed simp
  then show "claimable (claim_key c) db" and "\<not> claimable (claim_key c) db'" by simp_all
next
  fix k c and db db' :: task_db and won
  assume n: "\<not> claimable k db" and a: "claim_attempt c db = (db', won)"
  obtain i seen nr due run own lease now where c: "c = (i, seen, nr, due, run, own, lease, now)"
    by (cases c) auto
  from a obtain res where "claim_due i seen nr due run own lease now db = (db', res)"
    by (auto simp: claim_attempt_def c map_prod_def split: prod.splits)
  then show "\<not> claimable k db'"
  proof (cases rule: claim_due_cases)
    case lost
    then show ?thesis using n by simp
  next
    case (won t)
    have "u \<in> set (tasks db)" if "u \<in> set (tasks db')" "t_state u = STATE_IDLE" for u
      using that unfolding won(8) by (auto dest!: in_upd_where split: if_splits)
    then show ?thesis using n unfolding claimable_def by blast
  qed
qed

text \<open>C2. Nothing fires twice: of any sequence of claims, by whatever schedulers and with
  whatever rows, at most one claim that names the same task and the same \<open>due_at\<close> read
  before wins.\<close>

theorem claim_due_single_winner:
  "wins claim_key k cs (snd (run_attempts claim_attempt cs db)) \<le> 1"
  by (rule claims.at_most_one_winner)

text \<open>The ledger remembers: once a run row stands for an occurrence, neither a claim
  nor a skip of that occurrence of that task goes through again, and a refused call leaves
  the database as it was.\<close>

lemma occurrence_spent:
  assumes "r \<in> set (task_runs db)" and "r_task_id r = r_task_id run"
    and "r_scheduled_at r = r_scheduled_at run"
  shows "claim_due i seen nr due run own lease now db = (db, None)
    \<and> record_skip i seen run nr due now db = (db, False)"
proof -
  have "run_conflict run db" using assms by (auto simp: run_conflict_def)
  then show ?thesis by (simp add: claim_due_def record_skip_def Let_def)
qed

lemma occurrence_spent_witness:
  "claim_due ''tsk_1'' (Some 3605) None None (sample_run\<lparr>r_run_id := ''run_2''\<rparr>) ''s2'' None None sample_db
     = (sample_db, None)"
proof -
  have "sample_run \<in> set (task_runs sample_db)"
    by (simp add: sample_db_def claim_due_def empty_db_def sample_task_def rowcount_def run_conflict_def)
  from occurrence_spent [OF this, of "sample_run\<lparr>r_run_id := ''run_2''\<rparr>"] show ?thesis
    by (simp add: sample_run_def)
qed

section \<open>Runs a dead engine left\<close>

definition interrupted :: "stamp \<Rightarrow> task_run \<Rightarrow> task_run" where
  "interrupted now r = r\<lparr>r_status := RUN_INTERRUPTED, r_finished_at := Some now,
     r_detail := ''the engine stopped while this run was in flight''\<rparr>"

definition reclaimed_task :: "stamp \<Rightarrow> task_record \<Rightarrow> task_record" where
  "reclaimed_task now t = t\<lparr>t_state := STATE_IDLE, t_claim_owner := [], t_lease_until := None,
     t_last_status := Some RUN_INTERRUPTED, t_consecutive_failures := t_consecutive_failures t + 1,
     t_updated_at := Some now\<rparr>"

lemma interrupted_keys [simp]: "r_run_id (interrupted now r) = r_run_id r"
  "r_task_id (interrupted now r) = r_task_id r" "interrupted now (interrupted now r) = interrupted now r"
  by (simp_all add: interrupted_def)

lemma reclaimed_task_keys [simp]: "t_id (reclaimed_task now t) = t_id t"
  "t_state (reclaimed_task now t) = STATE_IDLE"
  by (simp_all add: reclaimed_task_def)

lemma fold_interrupt_runs:
  "task_runs (fold (interrupt_run now) rs db) =
     map (\<lambda>r. if r_run_id r \<in> r_run_id ` set rs then interrupted now r else r) (task_runs db)"
proof (induction rs arbitrary: db)
  case Nil
  then show ?case by simp
next
  case (Cons r0 rs)
  have "task_runs (interrupt_run now r0 db) =
      map (\<lambda>r. if r_run_id r = r_run_id r0 then interrupted now r else r) (task_runs db)"
    by (simp add: interrupt_run_def upd_where_def interrupted_def)
  then show ?case by (auto simp: Cons.IH)
qed

lemma fold_interrupt_tasks:
  "tasks (fold (interrupt_run now) rs db) =
     map (\<lambda>t. if t_id t \<in> r_task_id ` set rs \<and> t_state t = STATE_RUNNING then reclaimed_task now t else t) (tasks db)"
proof (induction rs arbitrary: db)
  case Nil
  then show ?case by simp
next
  case (Cons r0 rs)
  have "tasks (interrupt_run now r0 db) =
      map (\<lambda>t. if t_id t = r_task_id r0 \<and> t_state t = STATE_RUNNING then reclaimed_task now t else t) (tasks db)"
    by (simp add: interrupt_run_def upd_where_def reclaimed_task_def)
  then show ?case by (auto simp: Cons.IH)
qed

lemma is_orphan_mem: "r \<in> set (snd (reclaim_orphans s now db)) \<longleftrightarrow> r \<in> set (task_runs db) \<and> is_orphan s now db r"
  by (auto simp: reclaim_orphans_def Let_def)

lemma reclaim_runs:
  "task_runs (fst (reclaim_orphans s now db)) =
     map (\<lambda>r. if r_run_id r \<in> r_run_id ` set (snd (reclaim_orphans s now db)) then interrupted now r else r)
       (task_runs db)"
  by (simp add: reclaim_orphans_def Let_def fold_interrupt_runs)

lemma reclaim_tasks:
  "tasks (fst (reclaim_orphans s now db)) =
     map (\<lambda>t. if t_id t \<in> r_task_id ` set (snd (reclaim_orphans s now db)) \<and> t_state t = STATE_RUNNING
          then reclaimed_task now t else t) (tasks db)"
  by (simp add: reclaim_orphans_def Let_def fold_interrupt_tasks)

lemma reclaim_runs_mem:
  assumes "r \<in> set (task_runs db)"
  shows "(if r_run_id r \<in> r_run_id ` set (snd (reclaim_orphans s now db)) then interrupted now r else r)
    \<in> set (task_runs (fst (reclaim_orphans s now db)))"
  unfolding reclaim_runs set_map by (rule imageI) (rule assms)

lemma reclaim_tasks_mem:
  assumes "t \<in> set (tasks db)"
  shows "(if t_id t \<in> r_task_id ` set (snd (reclaim_orphans s now db)) \<and> t_state t = STATE_RUNNING
      then reclaimed_task now t else t) \<in> set (tasks (fst (reclaim_orphans s now db)))"
  unfolding reclaim_tasks set_map by (rule imageI) (rule assms)

lemma in_reclaim_runs:
  assumes "u \<in> set (task_runs (fst (reclaim_orphans s now db)))"
  shows "\<exists>u0 \<in> set (task_runs db). u = (if r_run_id u0 \<in> r_run_id ` set (snd (reclaim_orphans s now db))
      then interrupted now u0 else u0)"
  using assms unfolding reclaim_runs set_map image_iff .

text \<open>What a restart finds: after \<open>reclaim_orphans\<close> by a scheduler, every run still in
  flight is its own with a lease that has not lapsed, every orphan is recorded as interrupted
  at that moment, and every task an orphan held is idle again with one more failure in a row.\<close>

lemma reclaim_orphans_spec:
  assumes ok: "db_ok db" "lease_ok db" and rc: "reclaim_orphans s now db = (db', orphans)"
  shows "(\<forall>r \<in> set (task_runs db'). r_status r = RUN_RUNNING \<longrightarrow>
            r \<in> set (task_runs db) \<and> r_owner r = s \<and> \<not> lease_expired db r now)
    \<and> (\<forall>r \<in> set orphans. interrupted now r \<in> set (task_runs db'))
    \<and> (\<forall>r \<in> set orphans. \<exists>t \<in> set (tasks db). t_id t = r_task_id r \<and> reclaimed_task now t \<in> set (tasks db'))"
proof (intro conjI ballI impI)
  have db': "db' = fst (reclaim_orphans s now db)" and orph: "orphans = snd (reclaim_orphans s now db)"
    using rc by simp_all
  fix r assume r: "r \<in> set (task_runs db')" "r_status r = RUN_RUNNING"
  then obtain r0 where r0: "r0 \<in> set (task_runs db)"
      "r = (if r_run_id r0 \<in> r_run_id ` set orphans then interrupted now r0 else r0)"
    using in_reclaim_runs [of r s now db] unfolding db' orph by blast
  have fresh: "r_run_id r0 \<notin> r_run_id ` set orphans"
  proof
    assume "r_run_id r0 \<in> r_run_id ` set orphans"
    then have "r = interrupted now r0" using r0(2) by simp
    then show False using r(2) by (simp add: interrupted_def)
  qed
  then have "r = r0" using r0(2) by simp
  have "r0 \<notin> set orphans" using fresh by (metis imageI)
  then have "\<not> is_orphan s now db r" using r0(1) \<open>r = r0\<close> unfolding orph is_orphan_mem by simp
  then show "r \<in> set (task_runs db)" "r_owner r = s" "\<not> lease_expired db r now"
    using r(2) r0(1) \<open>r = r0\<close> by (simp_all add: is_orphan_def)
next
  fix r assume "r \<in> set orphans"
  moreover from this have "r \<in> set (task_runs db)" using rc is_orphan_mem [of r s now db] by simp
  ultimately show "interrupted now r \<in> set (task_runs db')"
    using rc reclaim_runs_mem [of r db s now] by simp
next
  fix r assume orphan: "r \<in> set orphans"
  then have r: "r \<in> set (task_runs db)" "r_status r = RUN_RUNNING"
    using rc is_orphan_mem [of r s now db] by (simp_all add: is_orphan_def)
  then obtain t where t: "t \<in> set (tasks db)" "t_id t = r_task_id r" using db_ok_task_of [OF ok(1)] by blast
  have "r \<in> set (running_of db (t_id t))" using r t(2) by (simp add: running_of_def)
  then have "t_state t = STATE_RUNNING"
    using lease_okD(1) [OF ok(2) t(1)] by (cases "t_state t = STATE_RUNNING") auto
  then have "reclaimed_task now t \<in> set (tasks db')"
    using t orphan rc reclaim_tasks_mem [OF t(1), of s now] by simp
  then show "\<exists>t \<in> set (tasks db). t_id t = r_task_id r \<and> reclaimed_task now t \<in> set (tasks db')"
    using t by blast
qed

lemma reclaim_orphans_spec_witness:
  "\<exists>db'. reclaim_orphans ''s2'' 4000 sample_db = (db', [sample_run])
     \<and> interrupted 4000 sample_run \<in> set (task_runs db')"
proof -
  have "db_ok sample_db" "lease_ok sample_db"
    using sample_db_reachable store.reachable_inv by blast+
  moreover have runs: "task_runs sample_db = [sample_run]"
    by (simp add: sample_db_def claim_due_def empty_db_def sample_task_def rowcount_def run_conflict_def)
  moreover have "is_orphan ''s2'' 4000 sample_db sample_run" by (simp add: is_orphan_def sample_run_def)
  ultimately have "reclaim_orphans ''s2'' 4000 sample_db = (fst (reclaim_orphans ''s2'' 4000 sample_db), [sample_run])"
    by (simp add: reclaim_orphans_def Let_def)
  with reclaim_orphans_spec [OF \<open>db_ok sample_db\<close> \<open>lease_ok sample_db\<close> this] show ?thesis by auto
qed

text \<open>A verdict stands: a run another engine has declared interrupted cannot un-declare
  itself, whatever its own engine reports afterwards.\<close>

lemma interrupted_run_stays:
  assumes ok: "db_ok db" and orphan: "r \<in> set (snd (reclaim_orphans s now db))"
  shows "complete_run (r_run_id r) i st f d de rc tc fl rel (fst (reclaim_orphans s now db))
    = fst (reclaim_orphans s now db)"
proof -
  let ?db = "fst (reclaim_orphans s now db)"
  have "r_status u \<noteq> RUN_RUNNING" if u: "u \<in> set (task_runs ?db)" "r_run_id u = r_run_id r" for u
  proof -
    obtain u0 where u0: "u = (if r_run_id u0 \<in> r_run_id ` set (snd (reclaim_orphans s now db))
        then interrupted now u0 else u0)"
      using in_reclaim_runs [OF u(1)] by blast
    then have "r_run_id u0 = r_run_id r" using u(2) by (metis interrupted_keys(1))
    then have "u = interrupted now u0" using u0 orphan by simp
    then show ?thesis by (simp add: interrupted_def)
  qed
  then have "rowcount (\<lambda>u. r_run_id u = r_run_id r \<and> r_status u = RUN_RUNNING) (task_runs ?db) = 0"
    by (auto simp: rowcount_0_iff)
  then show ?thesis by (simp add: complete_run_def Let_def)
qed

lemma interrupted_run_stays_witness:
  "complete_run ''run_1'' ''tsk_1'' RUN_OK (Some 5000) 1 [] 2 3 False STATE_IDLE (fst (reclaim_orphans ''s2'' 4000 sample_db))
     = fst (reclaim_orphans ''s2'' 4000 sample_db)"
proof -
  have "db_ok sample_db" using sample_db_reachable store.reachable_inv by blast
  moreover have "sample_run \<in> set (snd (reclaim_orphans ''s2'' 4000 sample_db))"
    unfolding is_orphan_mem
    by (simp add: is_orphan_def sample_run_def sample_db_def claim_due_def empty_db_def sample_task_def
        rowcount_def run_conflict_def)
  ultimately show ?thesis
    using interrupted_run_stays [of sample_db sample_run "''s2''" 4000 "''tsk_1''" RUN_OK "Some 5000" 1 "[]" 2 3 False STATE_IDLE]
    by (simp add: sample_run_def)
qed

section \<open>Retention\<close>

text \<open>Pruning takes exactly what it says: a row of the ledger is deleted if and only if
  it finished before the cut and at least \<open>keep\<close> runs of its task are scheduled later; so a run
  in flight and the newest \<open>keep\<close> rows of every task always stay.\<close>

lemma prune_runs_exact:
  assumes "db_ok db" and "r \<in> set (task_runs db)"
  shows "r \<in> set (task_runs (fst (prune_runs keep before db))) \<longleftrightarrow>
    \<not> ((\<exists>f. r_finished_at r = Some f \<and> f < before) \<and> keep < run_rank (task_runs db) r)"
proof -
  have "r_run_id r \<in> set (map r_run_id (filter (\<lambda>r'. run_rank (task_runs db) r' \<le> keep) (task_runs db)))
      \<longleftrightarrow> run_rank (task_runs db) r \<le> keep"
  proof
    assume "r_run_id r \<in> set (map r_run_id (filter (\<lambda>r'. run_rank (task_runs db) r' \<le> keep) (task_runs db)))"
    then obtain r' where r': "r' \<in> set (task_runs db)" "r_run_id r' = r_run_id r" "run_rank (task_runs db) r' \<le> keep"
      by auto
    then have "r' = r" using db_okD(2) [OF assms(1)] assms(2) by (auto simp: distinct_map dest: inj_onD)
    then show "run_rank (task_runs db) r \<le> keep" using r' by simp
  qed (use assms(2) in auto)
  then show ?thesis using assms(2) by (auto simp: prune_runs_def prunable_def split: option.splits)
qed

lemma prune_runs_exact_witness:
  "sample_run \<in> set (task_runs (fst (prune_runs 0 9999 sample_db)))"
proof -
  have "db_ok sample_db" using sample_db_reachable store.reachable_inv by blast
  moreover have "sample_run \<in> set (task_runs sample_db)"
    by (simp add: sample_db_def claim_due_def empty_db_def sample_task_def rowcount_def run_conflict_def)
  ultimately show ?thesis using prune_runs_exact [of sample_db sample_run 0 9999] by (simp add: sample_run_def)
qed

end
