(* ===== verification/Scheduler.thy ===== *)
theory Scheduler
  imports TaskStore
begin

text \<open>
  The loop that fires due tasks: \<open>packages/crucible/src/crucible/scheduler/service.py\<close>, with
  \<open>scheduler/ports.py\<close> for what a watch hook answers.

  The scheduler's state is a record with the database it shares.  The operations here put the
  calls of one coroutine together with nothing in between: the decision about a task and its
  claim, a sweep of notices, the end of a run, a pass of the loop.  The theory \<open>SchedulerLoop\<close>
  takes the coroutines apart, one step per await, and shows that a pass nothing comes between is
  the \<open>run_pass\<close> of this theory.  What the outside answers (the clock, the watch hook, whether an
  announcement could be posted, how a turn ended) is an argument of the operation or, for the
  operations that ask more than once, a field of the
  configuration.  A clock reading is a \<open>datetime\<close>; a duration in floating point seconds is a
  number of microseconds.  The texts of notices and of exceptions are kept as the name of the
  template and the values put into it, the texts of run details as strings.
\<close>

section \<open>Configuration and state\<close>

text \<open>
  The report a watch's turn carries: the scheduler's own about a key and the moment the watch
  expired, or what the application said (with the scope it gave, which is passed on unread).
\<close>

datatype event_report = ExpiredReport string stamp | AppReport string

datatype watched = WatchPending | WatchDone event_report | WatchGone string

text \<open>A watch hook answers, does not answer in time, or raises.\<close>

datatype hook_answer = Answers watched | TimesOut | Raises string

text \<open>What a notice says; the name of the task stands in every one.\<close>

datatype notice_words =
    SaysRan | SaysDidNotRun string | SaysSkipped string | SaysHitLimit string
  | SaysCutShort string | SaysNotStarted string | SaysCancelled string | SaysStopped
  | SaysWatchEnded string | SaysFailed "string + run_status"

record notice =
  n_label :: string
  n_words :: notice_words
  n_paused :: "(int \<times> string) option"

datatype sched_error = TriggerRaised trigger_exn | HookTimedOut | HookRaised string | StoreFailed string

text \<open>A run in flight: the task as it was read, its run row, and what a watch found.\<close>

record worker =
  w_task :: task_record
  w_run :: task_run
  w_done :: "event_report option"
  w_started :: datetime

text \<open>
  \<open>c_watches\<close> says whether a watch hook is wired; what it answers, and whether an announcement
  is posted (\<open>c_announce\<close>), is read from here only by the operations that nothing comes between.
  The steps of \<open>SchedulerLoop\<close> take each answer as an argument.
\<close>

record sched_config =
  c_env :: time_env
  c_token :: "nat \<Rightarrow> string"
  c_watches :: "(string \<Rightarrow> string \<Rightarrow> hook_answer) option"
  c_announce :: "task_run \<Rightarrow> bool"
  c_show :: "sched_error \<Rightarrow> string"
  c_tick :: int
  c_startup_grace :: int
  c_lease :: int
  c_max_concurrent :: nat
  c_max_failures :: int
  c_keep_runs :: nat
  c_retention :: int
  c_pid :: int
  c_version :: string

record sched =
  db :: task_db
  inflight :: "worker list"
  tick_seq :: int
  last_error :: string
  last_error_at :: "stamp option"
  sched_id :: string
  sched_started_at :: datetime
  tokens :: nat
  said :: "(string \<times> notice) list"

definition MIN_SLEEP :: int where "MIN_SLEEP = 500000"
definition SUCCEEDED :: "run_status list" where "SUCCEEDED = [RUN_OK]"
definition ENDED :: "run_status list" where "ENDED = [RUN_GONE, RUN_STOPPED, RUN_NOT_ADMITTED]"
definition FLOW_REPORTED :: "run_status list" where
  "FLOW_REPORTED = [RUN_TIMEOUT, RUN_ERROR, RUN_EMPTY, RUN_STOPPED, RUN_NOT_ADMITTED]"

datatype turn_outcome = REPLIED | ACTED | EMPTY | TRUNCATED | TIMEOUT | ERROR | DUPLICATE | STOPPED | NOT_ADMITTED

fun status_by_outcome :: "turn_outcome \<Rightarrow> run_status" where
  "status_by_outcome REPLIED = RUN_OK"
| "status_by_outcome ACTED = RUN_OK"
| "status_by_outcome TRUNCATED = RUN_OK"
| "status_by_outcome EMPTY = RUN_EMPTY"
| "status_by_outcome TIMEOUT = RUN_TIMEOUT"
| "status_by_outcome ERROR = RUN_ERROR"
| "status_by_outcome DUPLICATE = RUN_ERROR"
| "status_by_outcome STOPPED = RUN_STOPPED"
| "status_by_outcome NOT_ADMITTED = RUN_NOT_ADMITTED"

definition init_sched :: "string \<Rightarrow> datetime \<Rightarrow> task_db \<Rightarrow> sched" where
  "init_sched i now d = \<lparr>db = d, inflight = [], tick_seq = 0, last_error = [], last_error_at = None,
     sched_id = i, sched_started_at = now, tokens = 0, said = []\<rparr>"

section \<open>Pure helpers\<close>

definition iso :: "datetime \<Rightarrow> stamp option" where
  "iso t = to_iso (Some t)"

text \<open>\<open>clock\<close> is what \<open>utc_now()\<close> answers when the row's anchor is unreadable.\<close>

definition trigger_of :: "datetime \<Rightarrow> task_record \<Rightarrow> trigger" where
  "trigger_of clock t =
     \<lparr>kind = t_trigger_kind t, spec = t_trigger_spec t,
      anchor_at = (case from_iso (t_anchor_at t) of Some a \<Rightarrow> a | None \<Rightarrow> clock),
      interval_s = t_interval_s t, cron_expr = t_cron_expr t, timezone = t_timezone t\<rparr>"

definition released_state :: "task_record \<Rightarrow> task_state" where
  "released_state t = (if t_next_run_at t \<noteq> None then STATE_IDLE else STATE_DONE)"

definition with_jitter :: "datetime option \<Rightarrow> int \<Rightarrow> datetime option" where
  "with_jitter m j = map_option (\<lambda>t. t + seconds j) m"

definition two_digits :: "int \<Rightarrow> string" where
  "two_digits n = (if n < 10 then ''0'' @ show_int n else show_int n)"

definition short :: "int \<Rightarrow> string" where
  "short delta =
     (let s = \<bar>delta\<bar> div second in
      if s < 60 then show_int s @ ''s''
      else if s < 3600 then show_int (s div 60) @ ''m''
      else if s < 86400 then show_int (s div 3600) @ ''h'' @ two_digits (s mod 3600 div 60) @ ''m''
      else show_int (s div 86400) @ ''d'' @ two_digits (s mod 86400 div 3600) @ ''h'')"

definition notice_for :: "task_record option \<Rightarrow> task_run \<Rightarrow> int \<Rightarrow> notice option" where
  "notice_for task run paused_at =
     (case task of None \<Rightarrow> None | Some t \<Rightarrow>
      if t_notify t = NOTIFY_NEVER then None
      else if r_status run \<in> set SUCCEEDED
      then (if t_notify t = NOTIFY_ALWAYS
            then Some \<lparr>n_label = t_name t, n_words = SaysRan, n_paused = None\<rparr> else None)
      else if t_mode t \<noteq> MODE_PROMPT \<and> r_status run \<in> set FLOW_REPORTED then None
      else Some \<lparr>n_label = t_name t,
        n_words = (case r_status run of
            RUN_MISSED \<Rightarrow> SaysDidNotRun (r_detail run)
          | RUN_OVERLAP \<Rightarrow> SaysSkipped (r_detail run)
          | RUN_DEADLINE \<Rightarrow> SaysHitLimit (r_detail run)
          | RUN_INTERRUPTED \<Rightarrow> SaysCutShort (r_detail run)
          | RUN_NO_AGENT \<Rightarrow> SaysNotStarted (r_detail run)
          | RUN_CANCELLED \<Rightarrow> SaysCancelled (r_detail run)
          | RUN_STOPPED \<Rightarrow> SaysStopped
          | RUN_GONE \<Rightarrow> SaysWatchEnded (r_detail run)
          | st \<Rightarrow> SaysFailed (if r_detail run \<noteq> [] then Inl (r_detail run) else Inr st)),
        n_paused = (if t_state t = STATE_PAUSED \<and> t_consecutive_failures t \<ge> paused_at
                    then Some (paused_at, t_id t) else None)\<rparr>)"

section \<open>Bookkeeping\<close>

definition fresh_slack :: "sched_config \<Rightarrow> int" where
  "fresh_slack c = c_tick c + second"

definition within_startup_grace :: "sched_config \<Rightarrow> datetime \<Rightarrow> sched \<Rightarrow> bool" where
  "within_startup_grace c now s \<longleftrightarrow> now - sched_started_at s < c_startup_grace c"

definition scheduled_instant :: "task_record \<Rightarrow> datetime option" where
  "scheduled_instant t = from_iso (t_next_run_at t)"

definition sleep_for :: "sched_config \<Rightarrow> datetime \<Rightarrow> datetime option \<Rightarrow> int" where
  "sleep_for c now upcoming = (case upcoming of None \<Rightarrow> c_tick c
     | Some u \<Rightarrow> min (c_tick c) (max MIN_SLEEP (u - now)))"

definition note_error :: "sched_config \<Rightarrow> datetime \<Rightarrow> sched_error \<Rightarrow> sched \<Rightarrow> sched" where
  "note_error c now e s = s\<lparr>last_error := take 200 (c_show c e), last_error_at := iso now\<rparr>"

definition sched_heartbeat :: "sched_config \<Rightarrow> datetime \<Rightarrow> sched \<Rightarrow> sched" where
  "sched_heartbeat c now s =
     (let nxt = peek_next (db s) in
      s\<lparr>db := write_heartbeat
         \<lparr>hb_scheduler_id = sched_id s, hb_pid = c_pid c, hb_version = c_version c,
          hb_started_at = iso (sched_started_at s), hb_last_tick_at = iso now,
          hb_tick_seq = tick_seq s, hb_interval_s = c_tick c,
          hb_next_wake_at = (case nxt of Some t \<Rightarrow> t_next_run_at t | None \<Rightarrow> None),
          hb_next_task_id = (case nxt of Some t \<Rightarrow> t_id t | None \<Rightarrow> []),
          hb_next_task_name = (case nxt of Some t \<Rightarrow> t_name t | None \<Rightarrow> []),
          hb_running_count = int (length (inflight s)),
          hb_tasks_total = int (length (list_tasks [] [] (db s))),
          hb_last_error = last_error s, hb_last_error_at = last_error_at s\<rparr> (db s)\<rparr>)"

definition new_run :: "sched_config \<Rightarrow> sched \<Rightarrow> task_record \<Rightarrow> datetime \<Rightarrow> run_status
    \<Rightarrow> stamp option \<Rightarrow> stamp option \<Rightarrow> run_trigger \<Rightarrow> int \<Rightarrow> string \<Rightarrow> task_run" where
  "new_run c s t scheduled status started finished trig coalesced detail =
     \<lparr>r_run_id = ''run_'' @ c_token c (tokens s), r_task_id = t_id t, r_agent = t_agent t,
      r_scheduled_at = iso scheduled, r_started_at = started, r_finished_at = finished,
      r_status = status, r_trigger = trig, r_owner = sched_id s, r_duration_ms = 0, r_detail = detail,
      r_reply_chars = 0, r_tool_calls = 0, r_coalesced = max 1 coalesced, r_notified = 0\<rparr>"

section \<open>Telling the user\<close>

definition deliver_one :: "sched_config \<Rightarrow> task_run \<Rightarrow> sched \<Rightarrow> sched" where
  "deliver_one c run s =
     (case notice_for (get_task (r_task_id run) (db s)) run (c_max_failures c) of
        None \<Rightarrow> s\<lparr>db := mark_notified (r_run_id run) (db s)\<rparr>
      | Some n \<Rightarrow>
          if c_announce c run
          then s\<lparr>said := said s @ [(r_run_id run, n)], db := mark_notified (r_run_id run) (db s)\<rparr>
          else s)"

definition deliver_notices :: "sched_config \<Rightarrow> sched \<Rightarrow> sched" where
  "deliver_notices c s = fold (deliver_one c) (unnotified_runs 20 (db s)) s"

section \<open>Running one occurrence\<close>

definition finish :: "sched_config \<Rightarrow> task_record \<Rightarrow> task_run \<Rightarrow> run_status \<Rightarrow> datetime \<Rightarrow> datetime
    \<Rightarrow> string \<Rightarrow> nat \<Rightarrow> nat \<Rightarrow> bool \<Rightarrow> sched \<Rightarrow> sched" where
  "finish c task run status started now detail reply_chars tool_calls final s =
     (let failed = status \<notin> set SUCCEEDED \<and> status \<notin> set ENDED;
          paused = failed \<and> t_consecutive_failures task + 1 \<ge> c_max_failures c;
          release = (if paused then STATE_PAUSED else if final then STATE_DONE else released_state task) in
      deliver_notices c
        (s\<lparr>db := complete_run (r_run_id run) (t_id task) status (iso now) ((now - started) div 1000)
             detail (int reply_chars) (int tool_calls) failed release (db s)\<rparr>))"

text \<open>
  What the outside answered a run: the text of a memoryless run with the number of its tool
  calls, the outcome of a turn, or a failed dispatch.
\<close>

datatype engine_answer = PromptDone string nat | TurnDone turn_outcome | DispatchFailed string

text \<open>\<open>_perform\<close>: status, detail, characters of the reply, tool calls.\<close>

definition perform :: "task_record \<Rightarrow> engine_answer \<Rightarrow> run_status \<times> string \<times> nat \<times> nat" where
  "perform task answer =
     (case answer of
        DispatchFailed why \<Rightarrow> (RUN_NO_AGENT, take 200 why, 0, 0)
      | PromptDone text calls \<Rightarrow>
          if strip text = [] then (RUN_EMPTY, ''the run produced no text'', length text, calls)
          else (RUN_OK, [], length text, calls)
      | TurnDone outcome \<Rightarrow> (status_by_outcome outcome, [], 0, 0))"

text \<open>How the wait for the work ends: an answer, the deadline, a shutdown, or a crash.\<close>

datatype run_end = Performed engine_answer | PastDeadline | ShutDown | Crashed string

definition spawn :: "task_record \<Rightarrow> task_run \<Rightarrow> event_report option \<Rightarrow> datetime \<Rightarrow> sched \<Rightarrow> sched" where
  "spawn task run found now s =
     s\<lparr>inflight := inflight s @ [\<lparr>w_task = task, w_run = run, w_done = found, w_started = now\<rparr>]\<rparr>"

definition run_verdict :: "sched_config \<Rightarrow> int \<Rightarrow> worker \<Rightarrow> run_end \<Rightarrow> run_status \<times> string \<times> nat \<times> nat" where
  "run_verdict c default_deadline w e =
     (case e of
        Performed answer \<Rightarrow> perform (w_task w) answer
      | PastDeadline \<Rightarrow> (RUN_DEADLINE, ''still running after ''
            @ show_int (if t_deadline_s (w_task w) \<noteq> 0 then t_deadline_s (w_task w) else default_deadline) @ ''s'', 0, 0)
      | ShutDown \<Rightarrow> (RUN_CANCELLED, ''the engine was shutting down'', 0, 0)
      | Crashed why \<Rightarrow> (RUN_ERROR, take 200 why, 0, 0))"

text \<open>\<open>_execute\<close> from the end of the wait, and the callback that forgets the worker.\<close>

definition end_run :: "sched_config \<Rightarrow> int \<Rightarrow> datetime \<Rightarrow> worker \<Rightarrow> run_end \<Rightarrow> sched \<Rightarrow> sched" where
  "end_run c default_deadline now w e s =
     (case run_verdict c default_deadline w e of (status, detail, chars, calls) \<Rightarrow>
        let s' = finish c (w_task w) (w_run w) status (w_started w) now detail chars calls (w_done w \<noteq> None) s in
        s'\<lparr>inflight := filter (\<lambda>v. r_run_id (w_run v) \<noteq> r_run_id (w_run w)) (inflight s')\<rparr>)"

section \<open>Deciding what to do with a due task\<close>

definition skip :: "sched_config \<Rightarrow> task_record \<Rightarrow> datetime \<Rightarrow> datetime option \<Rightarrow> datetime option \<Rightarrow> datetime
    \<Rightarrow> run_status \<Rightarrow> int \<Rightarrow> string \<Rightarrow> sched \<Rightarrow> sched" where
  "skip c task scheduled upcoming next_due now status coalesced detail s =
     (let run = new_run c s task scheduled status None (iso now) TRIGGERED_SCHEDULE coalesced detail in
      s\<lparr>db := fst (record_skip (t_id task) (t_due_at task) run (to_iso upcoming) (to_iso next_due) (iso now) (db s)),
        tokens := Suc (tokens s)\<rparr>)"

definition ask_watch :: "sched_config \<Rightarrow> task_record \<Rightarrow> datetime \<Rightarrow> sched \<Rightarrow> sched \<times> watched" where
  "ask_watch c task now s =
     (case c_watches c of
        None \<Rightarrow> (s, WatchGone ''no watch hook is wired into this engine'')
      | Some check \<Rightarrow>
          (case check (t_agent task) (t_watch_key task) of
             Answers v \<Rightarrow> (s, v)
           | TimesOut \<Rightarrow> (note_error c now HookTimedOut s, WatchPending)
           | Raises why \<Rightarrow> (note_error c now (HookRaised why) s, WatchPending)))"

definition watch_verdict :: "sched_config \<Rightarrow> task_record \<Rightarrow> datetime \<Rightarrow> sched \<Rightarrow> sched \<times> watched" where
  "watch_verdict c task now s =
     (case t_expires_at task of
        Some expires \<Rightarrow>
          if seconds expires \<le> now then (s, WatchDone (ExpiredReport (t_watch_key task) expires))
          else ask_watch c task now s
      | None \<Rightarrow> ask_watch c task now s)"

definition tick_watch :: "sched_config \<Rightarrow> task_record \<Rightarrow> datetime \<Rightarrow> datetime option \<Rightarrow> datetime option
    \<Rightarrow> datetime \<Rightarrow> sched \<Rightarrow> sched" where
  "tick_watch c task scheduled upcoming next_due now s0 =
     (case watch_verdict c task now s0 of (s, verdict) \<Rightarrow>
      if verdict = WatchPending
      then s\<lparr>db := reschedule (t_id task) (to_iso upcoming) (to_iso next_due) (iso now) (db s)\<rparr>
      else
        let run = new_run c s task scheduled RUN_RUNNING (iso now) None TRIGGERED_SCHEDULE 1 [] in
        (case claim_due (t_id task) (t_due_at task) None None run (sched_id s)
                (iso (now + c_lease c)) (iso now) (db s) of
           (d, None) \<Rightarrow> s\<lparr>tokens := Suc (tokens s)\<rparr>
         | (d, Some run) \<Rightarrow>
             let s1 = s\<lparr>db := d, tokens := Suc (tokens s)\<rparr> in
             (case verdict of
                WatchGone why \<Rightarrow> finish c task run RUN_GONE now now (take 200 why) 0 0 True s1
              | WatchDone found \<Rightarrow> spawn task run (Some found) now s1
              | WatchPending \<Rightarrow> s1)))"

text \<open>The claim that ends \<open>_dispatch\<close>, and the worker it starts when it wins.\<close>

definition fire :: "sched_config \<Rightarrow> task_record \<Rightarrow> datetime \<Rightarrow> datetime option \<Rightarrow> datetime option
    \<Rightarrow> datetime \<Rightarrow> bool \<Rightarrow> int \<Rightarrow> sched \<Rightarrow> sched" where
  "fire c task scheduled upcoming next_due now late skipped s =
     (let run = new_run c s task scheduled RUN_RUNNING (iso now) None
            (if late then TRIGGERED_CATCHUP else TRIGGERED_SCHEDULE) (skipped + 1) [] in
      (case claim_due (t_id task) (t_due_at task) (to_iso upcoming) (to_iso next_due) run
              (sched_id s) (iso (now + c_lease c)) (iso now) (db s) of
         (d, None) \<Rightarrow> s\<lparr>tokens := Suc (tokens s)\<rparr>
       | (d, Some run) \<Rightarrow> spawn task run None now (s\<lparr>db := d, tokens := Suc (tokens s)\<rparr>)))"

definition dispatch :: "sched_config \<Rightarrow> task_record \<Rightarrow> datetime \<Rightarrow> sched \<Rightarrow> sched \<times> sched_error option" where
  "dispatch c task now s =
     (case scheduled_instant task of
        None \<Rightarrow> (s, None)
      | Some scheduled \<Rightarrow>
        let trig = trigger_of now task; lateness = now - scheduled in
        (case advance_past (c_env c) trig scheduled now of
           Inl e \<Rightarrow> (s, Some (TriggerRaised e))
         | Inr (upcoming, skipped) \<Rightarrow>
           let next_due = with_jitter upcoming (t_jitter_s task) in
           if t_state task = STATE_RUNNING
           then (skip c task scheduled upcoming next_due now RUN_OVERLAP (skipped + 1)
                   (''the previous run has been going for '' @ short lateness) s, None)
           else if lateness > fresh_slack c \<and> within_startup_grace c now s then (s, None)
           else if t_mode task = MODE_WATCH
           then (tick_watch c task scheduled upcoming next_due now s, None)
           else
             let late = lateness > fresh_slack c in
             (case grace_window (c_env c) trig now of
                Inl e \<Rightarrow> (s, Some (TriggerRaised e))
              | Inr grace \<Rightarrow>
                if late \<and> t_on_missed task = ON_MISSED_SKIP \<or> lateness > grace
                then (skip c task scheduled upcoming next_due now RUN_MISSED (skipped + 1)
                   (if t_on_missed task = ON_MISSED_SKIP then ''on_missed=skip''
                    else ''late by '' @ short lateness @ '' (window '' @ short grace @ '')'') s, None)
                else (fire c task scheduled upcoming next_due now late skipped s, None))))"

section \<open>The loop\<close>

text \<open>
  A pass with nothing in between.  The loop over what is due within a tick: an exception ends the tick, the first occurrence
  still ahead ends the pass with its moment, a full engine ends it too.
\<close>

fun tick_loop :: "sched_config \<Rightarrow> datetime \<Rightarrow> task_record list \<Rightarrow> sched \<Rightarrow> sched \<times> (sched_error + datetime option)" where
  "tick_loop c now [] s = (s, Inr None)"
| "tick_loop c now (task # rest) s =
     (case from_iso (t_due_at task) of
        Some due \<Rightarrow>
          if due > now then (s, Inr (Some due))
          else if length (inflight s) \<ge> c_max_concurrent c then (s, Inr None)
          else (case dispatch c task now s of
                  (s', Some e) \<Rightarrow> (s', Inl e)
                | (s', None) \<Rightarrow> tick_loop c now rest s')
      | None \<Rightarrow>
          if length (inflight s) \<ge> c_max_concurrent c then (s, Inr None)
          else (case dispatch c task now s of
                  (s', Some e) \<Rightarrow> (s', Inl e)
                | (s', None) \<Rightarrow> tick_loop c now rest s'))"

definition tick :: "sched_config \<Rightarrow> datetime \<Rightarrow> sched \<Rightarrow> sched \<times> (sched_error + datetime option)" where
  "tick c now s0 =
     (let s = s0\<lparr>tick_seq := tick_seq s0 + 1\<rparr> in
      case tick_loop c now (due_tasks ((now + c_tick c) div second) 50 (db s)) s of
        (s1, Inl e) \<Rightarrow> (s1, Inl e)
      | (s1, Inr upcoming) \<Rightarrow> (sched_heartbeat c now (deliver_notices c s1), Inr upcoming))"

text \<open>One pass of \<open>run\<close>: a tick, what a failing tick leaves behind, and the sleep that follows.\<close>

definition run_pass :: "sched_config \<Rightarrow> datetime \<Rightarrow> sched \<Rightarrow> sched \<times> int" where
  "run_pass c now s =
     (case tick c now s of
        (s1, Inl e) \<Rightarrow> (sched_heartbeat c now (note_error c now e s1), sleep_for c now None)
      | (s1, Inr upcoming) \<Rightarrow> (s1, sleep_for c now upcoming))"

definition recover :: "sched_config \<Rightarrow> datetime \<Rightarrow> sched \<Rightarrow> sched" where
  "recover c now s =
     (let (d, orphans) = reclaim_orphans (sched_id s) (now div second) (db s) in
      s\<lparr>db := fst (prune_runs (c_keep_runs c) ((now - c_retention c) div second) d)\<rparr>)"

section \<open>What a step does to the tables\<close>

text \<open>The rows of the ledger in \<open>d'\<close> have the keys of rows in \<open>d\<close>, or are \<open>extra\<close>.\<close>

definition rows_from :: "task_db \<Rightarrow> task_run list \<Rightarrow> task_db \<Rightarrow> bool" where
  "rows_from d extra d' \<longleftrightarrow> (\<forall>r \<in> set (task_runs d'). r \<in> set extra
     \<or> (\<exists>r0 \<in> set (task_runs d). r_run_id r0 = r_run_id r \<and> r_task_id r0 = r_task_id r))"

text \<open>The tasks in \<open>d'\<close> are those in \<open>d\<close> but for the rows of one id.\<close>

definition others_kept :: "string \<Rightarrow> task_db \<Rightarrow> task_db \<Rightarrow> bool" where
  "others_kept i d d' \<longleftrightarrow> (\<forall>t \<in> set (tasks d). t_id t \<noteq> i \<longrightarrow> t \<in> set (tasks d'))"

lemma rows_from_refl [simp]: "rows_from d extra d"
  by (auto simp: rows_from_def)

lemma rows_from_trans: "rows_from d1 [] d2 \<Longrightarrow> rows_from d2 [] d3 \<Longrightarrow> rows_from d1 [] d3"
  unfolding rows_from_def by (metis empty_iff empty_set)

lemma rows_from_trans_extra:
  assumes "rows_from d1 extra d2" and "rows_from d2 [] d3" and "r \<in> set (task_runs d3)"
  shows "(\<exists>e \<in> set extra. r_run_id e = r_run_id r \<and> r_task_id e = r_task_id r)
    \<or> (\<exists>r0 \<in> set (task_runs d1). r_run_id r0 = r_run_id r \<and> r_task_id r0 = r_task_id r)"
  using assms unfolding rows_from_def by (metis empty_iff empty_set)

lemma others_kept_refl [simp]: "others_kept i d d"
  by (simp add: others_kept_def)

lemma others_kept_trans: "others_kept i d1 d2 \<Longrightarrow> others_kept i d2 d3 \<Longrightarrow> others_kept i d1 d3"
  by (simp add: others_kept_def)

lemma rows_from_upd:
  assumes "\<And>r. r_run_id (f r) = r_run_id r \<and> r_task_id (f r) = r_task_id r"
    and "task_runs d' = upd_where p f (task_runs d)"
  shows "rows_from d [] d'"
  using assms by (auto simp: rows_from_def upd_where_set)

lemma others_kept_upd:
  assumes "tasks d' = upd_where p f (tasks d)" and "\<And>t. p t \<Longrightarrow> t_id t = i"
  shows "others_kept i d d'"
  using assms by (force simp: others_kept_def upd_where_set)

lemma mark_notified_frame:
  "rows_from d [] (mark_notified r d)" "tasks (mark_notified r d) = tasks d"
  by (rule rows_from_upd [where f = "\<lambda>r. r\<lparr>r_notified := 1\<rparr>"], simp, simp add: mark_notified_def)
    (simp add: mark_notified_def)

lemma reschedule_frame:
  "task_runs (reschedule i nr due now d) = task_runs d" "others_kept i d (reschedule i nr due now d)"
  by (simp add: reschedule_def, rule others_kept_upd) (simp_all add: reschedule_def)

lemma write_heartbeat_frame [simp]:
  "task_runs (write_heartbeat b d) = task_runs d" "tasks (write_heartbeat b d) = tasks d"
  by (simp_all add: write_heartbeat_def)

lemma complete_run_frame:
  "rows_from d [] (complete_run rid i st f dur de rc tc fl rel d)"
  "others_kept i d (complete_run rid i st f dur de rc tc fl rel d)"
proof -
  let ?d = "complete_run rid i st f dur de rc tc fl rel d"
  show "rows_from d [] ?d"
  proof (cases "?d = d")
    case False
    then show ?thesis
      by (intro rows_from_upd [where f = "\<lambda>r. r\<lparr>r_status := st, r_finished_at := f, r_duration_ms := dur,
          r_detail := de, r_reply_chars := rc, r_tool_calls := tc\<rparr>"])
        (auto simp: complete_run_def Let_def split: if_splits)
  qed simp
  show "others_kept i d ?d"
  proof (cases "?d = d")
    case False
    then show ?thesis
      by (intro others_kept_upd [of _ "\<lambda>t. t_id t = i"]) (auto simp: complete_run_def Let_def split: if_splits)
  qed simp
qed

lemma claim_due_frame:
  assumes "claim_due i seen nr due run own lease now d = (d', res)"
  shows "rows_from d [run] d'" "others_kept i d d'" "res = None \<Longrightarrow> d' = d"
    "res \<noteq> None \<Longrightarrow> res = Some run"
  using assms by (cases rule: claim_due_cases; force simp: rows_from_def others_kept_def upd_where_set)+

lemma record_skip_frame:
  assumes "record_skip i seen run nr due now d = (d', res)"
  shows "rows_from d [run] d'" "others_kept i d d'"
  using assms by (cases rule: record_skip_cases; force simp: rows_from_def others_kept_def upd_where_set)+

section \<open>The invariant of the scheduler\<close>

definition run_name :: "sched_config \<Rightarrow> nat \<Rightarrow> string" where
  "run_name c k = ''run_'' @ c_token c k"

text \<open>A worker's run belongs to its task, was named by an earlier token, and no other task's
  row has its name.\<close>

definition worker_ok :: "sched_config \<Rightarrow> nat \<Rightarrow> task_db \<Rightarrow> worker \<Rightarrow> bool" where
  "worker_ok c n d w \<longleftrightarrow> r_task_id (w_run w) = t_id (w_task w)
     \<and> (\<exists>k < n. r_run_id (w_run w) = run_name c k)
     \<and> (\<forall>r \<in> set (task_runs d). r_run_id r = r_run_id (w_run w) \<longrightarrow> r_task_id r = t_id (w_task w))"

definition store_ok :: "task_db \<Rightarrow> bool" where
  "store_ok d \<longleftrightarrow> db_ok d \<and> lease_ok d"

definition sched_ok :: "sched_config \<Rightarrow> sched \<Rightarrow> bool" where
  "sched_ok c s \<longleftrightarrow> store_ok (db s) \<and> (\<forall>w \<in> set (inflight s). worker_ok c (tokens s) (db s) w)
     \<and> length (inflight s) \<le> c_max_concurrent c"

text \<open>A step that neither starts a worker nor writes a new row.\<close>

definition quiet :: "sched \<Rightarrow> sched \<Rightarrow> bool" where
  "quiet s s' \<longleftrightarrow> inflight s' = inflight s \<and> tokens s \<le> tokens s' \<and> rows_from (db s) [] (db s')
     \<and> (store_ok (db s) \<longrightarrow> store_ok (db s'))"

lemma quiet_refl [simp]: "quiet s s"
  by (simp add: quiet_def)

lemma quiet_trans: "quiet s1 s2 \<Longrightarrow> quiet s2 s3 \<Longrightarrow> quiet s1 s3"
  unfolding quiet_def by (metis order_trans rows_from_trans)

lemma worker_ok_rows:
  assumes "worker_ok c n d w" and "rows_from d [] d'" and "n \<le> n'"
  shows "worker_ok c n' d' w"
  using assms unfolding worker_ok_def rows_from_def
  by (metis empty_iff empty_set order_less_le_trans)

lemma quiet_sched_ok: "quiet s s' \<Longrightarrow> sched_ok c s \<Longrightarrow> sched_ok c s'"
  unfolding quiet_def sched_ok_def by (metis worker_ok_rows)

lemma quiet_store:
  assumes "store_step (db s) d" and "rows_from (db s) [] d" and "inflight s' = inflight s"
    and "tokens s \<le> tokens s'" and "db s' = d"
  shows "quiet s s'"
  using assms store_step_keeps [OF assms(1)] by (auto simp: quiet_def store_ok_def)

lemma quiet_note_error: "quiet s (note_error c now e s)"
  by (simp add: quiet_def note_error_def)

lemma claim_lost: "claim_due i seen nr nd run own lease now d = (d', None) \<Longrightarrow> d' = d"
  by (rule claim_due_frame(3)) simp_all

lemma sched_ok_tokens: "sched_ok c s \<Longrightarrow> sched_ok c (s\<lparr>tokens := Suc (tokens s)\<rparr>)"
  using quiet_sched_ok [of s "s\<lparr>tokens := Suc (tokens s)\<rparr>" c] by (simp add: quiet_def)

lemma watch_verdict_frame: "watch_verdict c task now s = (s', v) \<Longrightarrow> quiet s s' \<and> db s' = db s"
  by (auto simp: watch_verdict_def ask_watch_def quiet_note_error note_error_def quiet_def
      split: option.splits hook_answer.splits if_splits)

text \<open>The five things a dispatch can come to.\<close>

lemma dispatch_cases:
  assumes "dispatch c task now s = (s', e)"
  obtains (nothing) "s' = s"
  | (skipped) scheduled upcoming nd st co de where "e = None" "st = RUN_OVERLAP \<or> st = RUN_MISSED"
      "s' = skip c task scheduled upcoming nd now st co de s"
  | (watch) scheduled upcoming nd where "e = None" "s' = tick_watch c task scheduled upcoming nd now s"
  | (fired) scheduled upcoming nd late sk where "e = None" "s' = fire c task scheduled upcoming nd now late sk s"
proof (cases "scheduled_instant task")
  case None
  have "s' = s" using assms None by (simp add: dispatch_def)
  then show ?thesis by (rule nothing)
next
  case (Some sc)
  show ?thesis
  proof (cases "advance_past (c_env c) (trigger_of now task) sc now")
    case (Inl x)
    have "s' = s" using assms Some Inl by (simp add: dispatch_def Let_def)
    then show ?thesis by (rule nothing)
  next
    case (Inr p)
    obtain up sk where p: "p = (up, sk)" by (cases p)
    let ?nd = "with_jitter up (t_jitter_s task)" and ?late = "now - sc > fresh_slack c"
    note d = assms Some Inr p
    show ?thesis
    proof (cases "t_state task = STATE_RUNNING")
      case True
      show ?thesis
        by (rule skipped [where st = RUN_OVERLAP and scheduled = sc and upcoming = up and nd = ?nd
            and co = "sk + 1" and de = "''the previous run has been going for '' @ short (now - sc)"])
          (use d True in \<open>simp_all add: dispatch_def Let_def\<close>)
    next
      case idle: False
      show ?thesis
      proof (cases "?late \<and> within_startup_grace c now s")
        case True
        have "s' = s" using d idle True by (simp add: dispatch_def Let_def)
        then show ?thesis by (rule nothing)
      next
        case settled: False
        show ?thesis
        proof (cases "t_mode task = MODE_WATCH")
          case True
          show ?thesis
            by (rule watch [where scheduled = sc and upcoming = up and nd = ?nd])
              (use d idle settled True in \<open>simp_all add: dispatch_def Let_def\<close>)
        next
          case work: False
          show ?thesis
          proof (cases "grace_window (c_env c) (trigger_of now task) now")
            case (Inl x)
            have "s' = s" using d idle settled work Inl by (simp add: dispatch_def Let_def)
            then show ?thesis by (rule nothing)
          next
            case (Inr grace)
            show ?thesis
            proof (cases "?late \<and> t_on_missed task = ON_MISSED_SKIP \<or> now - sc > grace")
              case True
              show ?thesis
                by (rule skipped [where st = RUN_MISSED and scheduled = sc and upcoming = up and nd = ?nd
                    and co = "sk + 1" and de = "if t_on_missed task = ON_MISSED_SKIP then ''on_missed=skip''
                      else ''late by '' @ short (now - sc) @ '' (window '' @ short grace @ '')''"])
                  (use d idle settled work Inr True in \<open>simp_all add: dispatch_def Let_def\<close>)
            next
              case False
              show ?thesis
                by (rule fired [where scheduled = sc and upcoming = up and nd = ?nd and late = ?late and sk = sk])
                  (use d idle settled work Inr False in \<open>simp_all add: dispatch_def Let_def\<close>)
            qed
          qed
        qed
      qed
    qed
  qed
qed

text \<open>One turn of the loop: it stops, dies of an exception, or dispatches and goes on.\<close>

lemma tick_loop_Cons_cases:
  assumes "tick_loop c now (task # rest) s = (s', r)"
  obtains (stops) "s' = s" "\<exists>u. r = Inr u"
  | (raises) e where "dispatch c task now s = (s', Some e)" "r = Inl e" "length (inflight s) < c_max_concurrent c"
      "\<And>due. from_iso (t_due_at task) = Some due \<Longrightarrow> due \<le> now"
  | (goes_on) s1 where "dispatch c task now s = (s1, None)" "tick_loop c now rest s1 = (s', r)"
      "length (inflight s) < c_max_concurrent c" "\<And>due. from_iso (t_due_at task) = Some due \<Longrightarrow> due \<le> now"
proof -
  obtain s1 e where d: "dispatch c task now s = (s1, e)" by fastforce
  show ?thesis
  proof (cases "from_iso (t_due_at task)")
    case None
    then show ?thesis using assms d stops raises goes_on
      by (cases e; cases "length (inflight s) \<ge> c_max_concurrent c") auto
  next
    case (Some due)
    then show ?thesis using assms d stops raises goes_on
      by (cases e; cases "length (inflight s) \<ge> c_max_concurrent c"; cases "due > now") auto
  qed
qed

lemma run_verdict_final: "fst (run_verdict c dd w e) \<noteq> RUN_RUNNING"
proof -
  have "status_by_outcome out \<noteq> RUN_RUNNING" for out by (cases out) simp_all
  then show ?thesis by (simp add: run_verdict_def perform_def split: run_end.splits engine_answer.splits)
qed

end
