(* ===== verification/SchedulerLoop.thy ===== *)
theory SchedulerLoop
  imports Scheduler
begin

text \<open>
  The coroutines of \<open>packages/crucible/src/crucible/scheduler/service.py\<close>, one step per await:
  the loop (\<open>run\<close>, \<open>tick\<close>, \<open>_dispatch\<close>, \<open>_tick_watch\<close>, \<open>_skip\<close>), the sweep of notices it
  shares with the workers (\<open>_deliver_notices\<close>), the heartbeat and the workers (\<open>_execute\<close>,
  \<open>_finish\<close>).

  Where a coroutine stands is a value of a datatype that carries its local variables.  A step
  carries out the call the coroutine waits for and runs it on to its next await; a call whose
  answer lets the coroutine touch what the coroutines share in memory (the workers in flight) is
  carried out in one step and answered in another.  Between any two steps every other coroutine,
  and any other user of the database, may take any number of its own.  What the outside answers
  is an argument of the step: the clock, the watch hook, whether an announcement was posted, how
  the work of a run ended.  A call to the store may raise, and the loop may be cancelled at any
  await; a call already handed to the store is then taken as made before or not at all.

  The functions \<open>dispatch\<close>, \<open>finish\<close>, \<open>deliver_notices\<close>, \<open>tick\<close> and \<open>run_pass\<close> of the
  imported theory compose the same calls with nothing in between.
\<close>

section \<open>Telling the user\<close>

text \<open>Where \<open>_deliver_notices\<close> stands: before the read of what is owed, or at the first run of
  what is left of it.\<close>

datatype notice_at =
    OwedRead | OwedTask task_run "task_run list" | OwedPost task_run notice "task_run list"
  | OwedMark task_run "task_run list" | OwedDone

fun owed_next :: "task_run list \<Rightarrow> notice_at" where
  "owed_next [] = OwedDone"
| "owed_next (r # rs) = OwedTask r rs"

fun sweep_step :: "sched_config \<Rightarrow> bool \<Rightarrow> notice_at \<Rightarrow> sched \<Rightarrow> sched \<times> notice_at" where
  "sweep_step c posted OwedRead s = (s, owed_next (unnotified_runs 20 (db s)))"
| "sweep_step c posted (OwedTask r rs) s =
     (s, case notice_for (get_task (r_task_id r) (db s)) r (c_max_failures c) of
           None \<Rightarrow> OwedMark r rs | Some n \<Rightarrow> OwedPost r n rs)"
| "sweep_step c posted (OwedPost r n rs) s =
     (if posted then (s\<lparr>said := said s @ [(r_run_id r, n)]\<rparr>, OwedMark r rs) else (s, owed_next rs))"
| "sweep_step c posted (OwedMark r rs) s = (s\<lparr>db := mark_notified (r_run_id r) (db s)\<rparr>, owed_next rs)"
| "sweep_step c posted OwedDone s = (s, OwedDone)"

section \<open>The heartbeat\<close>

datatype beat_at = BeatPeek | BeatCount "task_record option" | BeatWrite heartbeat

definition beat_row :: "sched_config \<Rightarrow> datetime \<Rightarrow> task_record option \<Rightarrow> nat \<Rightarrow> sched \<Rightarrow> heartbeat" where
  "beat_row c now nxt total_tasks s =
     \<lparr>hb_scheduler_id = sched_id s, hb_pid = c_pid c, hb_version = c_version c,
      hb_started_at = iso (sched_started_at s), hb_last_tick_at = iso now,
      hb_tick_seq = tick_seq s, hb_interval_s = c_tick c,
      hb_next_wake_at = (case nxt of Some t \<Rightarrow> t_next_run_at t | None \<Rightarrow> None),
      hb_next_task_id = (case nxt of Some t \<Rightarrow> t_id t | None \<Rightarrow> []),
      hb_next_task_name = (case nxt of Some t \<Rightarrow> t_name t | None \<Rightarrow> []),
      hb_running_count = int (length (inflight s)), hb_tasks_total = int total_tasks,
      hb_last_error = last_error s, hb_last_error_at = last_error_at s\<rparr>"

fun beat_step :: "sched_config \<Rightarrow> datetime \<Rightarrow> beat_at \<Rightarrow> sched \<Rightarrow> sched \<times> beat_at option" where
  "beat_step c now BeatPeek s = (s, Some (BeatCount (peek_next (db s))))"
| "beat_step c now (BeatCount nxt) s =
     (s, Some (BeatWrite (beat_row c now nxt (length (list_tasks [] [] (db s))) s)))"
| "beat_step c now (BeatWrite row) s = (s\<lparr>db := write_heartbeat row (db s)\<rparr>, None)"

section \<open>The decision about a due task\<close>

text \<open>
  What \<open>_dispatch\<close> has decided when it comes to its first await: nothing to do, an exception, a
  row for an occurrence passed over, a question to a watch, or a claim.
\<close>

datatype plan =
    PlanNothing | PlanFails sched_error
  | PlanSkips datetime "datetime option" "datetime option" run_status int string
  | PlanAsks datetime "datetime option" "datetime option"
  | PlanFires datetime "datetime option" "datetime option" bool int

definition plan_of :: "sched_config \<Rightarrow> datetime \<Rightarrow> task_record \<Rightarrow> datetime \<Rightarrow> sched \<Rightarrow> plan" where
  "plan_of c clock task now s =
     (case scheduled_instant task of
        None \<Rightarrow> PlanNothing
      | Some scheduled \<Rightarrow>
        let trig = trigger_of clock task; lateness = now - scheduled in
        (case advance_past (c_env c) trig scheduled now of
           Inl e \<Rightarrow> PlanFails (TriggerRaised e)
         | Inr (upcoming, skipped) \<Rightarrow>
           let next_due = with_jitter upcoming (t_jitter_s task); late = lateness > fresh_slack c in
           if t_state task = STATE_RUNNING
           then PlanSkips scheduled upcoming next_due RUN_OVERLAP (skipped + 1)
                  (''the previous run has been going for '' @ short lateness)
           else if late \<and> within_startup_grace c now s then PlanNothing
           else if t_mode task = MODE_WATCH then PlanAsks scheduled upcoming next_due
           else
             (case grace_window (c_env c) trig now of
                Inl e \<Rightarrow> PlanFails (TriggerRaised e)
              | Inr grace \<Rightarrow>
                if late \<and> t_on_missed task = ON_MISSED_SKIP \<or> lateness > grace
                then PlanSkips scheduled upcoming next_due RUN_MISSED (skipped + 1)
                   (if t_on_missed task = ON_MISSED_SKIP then ''on_missed=skip''
                    else ''late by '' @ short lateness @ '' (window '' @ short grace @ '')'')
                else PlanFires scheduled upcoming next_due late skipped)))"

lemma dispatch_plan:
  "dispatch c task now s =
     (case plan_of c now task now s of
        PlanNothing \<Rightarrow> (s, None)
      | PlanFails e \<Rightarrow> (s, Some e)
      | PlanSkips sc up nd st k de \<Rightarrow> (skip c task sc up nd now st k de s, None)
      | PlanAsks sc up nd \<Rightarrow> (tick_watch c task sc up nd now s, None)
      | PlanFires sc up nd late k \<Rightarrow> (fire c task sc up nd now late k s, None))"
proof (cases "scheduled_instant task")
  case (Some sc)
  show ?thesis
  proof (cases "advance_past (c_env c) (trigger_of now task) sc now")
    case (Inr p)
    obtain up k where p: "p = (up, k)" by (cases p)
    show ?thesis using Some Inr p
      by (simp add: dispatch_def plan_of_def Let_def split: sum.split)
  qed (use Some in \<open>simp add: dispatch_def plan_of_def Let_def\<close>)
qed (simp add: dispatch_def plan_of_def)

lemma plan_skips: "plan_of c clock task now s = PlanSkips sc up nd st k de \<Longrightarrow> st = RUN_OVERLAP \<or> st = RUN_MISSED"
  by (auto simp: plan_of_def Let_def split: option.splits sum.splits prod.splits if_splits)

section \<open>The loop\<close>

text \<open>What a claim is made for: a turn of the task's own, a turn that carries what a watch
  found, or the end of a watch.\<close>

datatype claim_for = ForWork | ForReport event_report | ForGone string

text \<open>What follows a sweep of the loop: the rest of the tick, or the heartbeat that ends it.\<close>

datatype sweep_after = RestOfTick datetime "task_record list" | EndOfTick "datetime option"

text \<open>
  Where the loop stands.  A tick carries the clock it was begun with and the tasks read that are
  still to be looked at; a call to the store carries the arguments it is made with.
\<close>

datatype loop_at =
    LoopOff | Recovering | Pruning | Asleep int
  | DueRead datetime
  | Passing datetime "task_record list"
  | SkipWrite datetime "task_record list" task_record task_run "stamp option" "stamp option"
  | HookAsked datetime "task_record list" task_record datetime "datetime option" "datetime option"
  | MoveWrite datetime "task_record list" task_record "stamp option" "stamp option"
  | ClaimWrite datetime "task_record list" task_record task_run "stamp option" "stamp option" claim_for
  | ClaimDone datetime "task_record list" task_record task_run claim_for
  | EndWrite datetime "task_record list" task_record task_run string datetime
  | LoopTells sweep_after notice_at
  | LoopBeats "datetime option" beat_at
  | FailBeats beat_at

definition failing :: "sched_config \<Rightarrow> datetime \<Rightarrow> sched_error \<Rightarrow> sched \<Rightarrow> sched \<times> loop_at" where
  "failing c now e s = (note_error c now e s, FailBeats BeatPeek)"

definition told_on :: "sweep_after \<Rightarrow> notice_at \<Rightarrow> loop_at" where
  "told_on after n =
     (if n = OwedDone
      then (case after of RestOfTick t rest \<Rightarrow> Passing t rest | EndOfTick upcoming \<Rightarrow> LoopBeats upcoming BeatPeek)
      else LoopTells after n)"

text \<open>The row of a run is made, and its name drawn, when the call to the store is.\<close>

definition claim_begins :: "sched_config \<Rightarrow> datetime \<Rightarrow> task_record list \<Rightarrow> task_record \<Rightarrow> datetime
    \<Rightarrow> stamp option \<Rightarrow> stamp option \<Rightarrow> run_trigger \<Rightarrow> int \<Rightarrow> claim_for \<Rightarrow> sched \<Rightarrow> sched \<times> loop_at" where
  "claim_begins c t rest task scheduled nr due trig coalesced what s =
     (s\<lparr>tokens := Suc (tokens s)\<rparr>,
      ClaimWrite t rest task (new_run c s task scheduled RUN_RUNNING (iso t) None trig coalesced []) nr due what)"

definition watch_decided :: "sched_config \<Rightarrow> datetime \<Rightarrow> task_record list \<Rightarrow> task_record \<Rightarrow> datetime
    \<Rightarrow> datetime option \<Rightarrow> datetime option \<Rightarrow> watched \<Rightarrow> sched \<Rightarrow> sched \<times> loop_at" where
  "watch_decided c t rest task scheduled upcoming next_due verdict s =
     (case verdict of
        WatchPending \<Rightarrow> (s, MoveWrite t rest task (to_iso upcoming) (to_iso next_due))
      | WatchDone found \<Rightarrow> claim_begins c t rest task scheduled None None TRIGGERED_SCHEDULE 1 (ForReport found) s
      | WatchGone why \<Rightarrow> claim_begins c t rest task scheduled None None TRIGGERED_SCHEDULE 1 (ForGone why) s)"

text \<open>The part of \<open>_watch_verdict\<close> before the hook is asked.\<close>

definition watch_begins :: "sched_config \<Rightarrow> datetime \<Rightarrow> task_record list \<Rightarrow> task_record \<Rightarrow> datetime
    \<Rightarrow> datetime option \<Rightarrow> datetime option \<Rightarrow> sched \<Rightarrow> sched \<times> loop_at" where
  "watch_begins c t rest task scheduled upcoming next_due s =
     (if (case t_expires_at task of Some expires \<Rightarrow> seconds expires \<le> t | None \<Rightarrow> False)
      then watch_decided c t rest task scheduled upcoming next_due
             (WatchDone (ExpiredReport (t_watch_key task) (the (t_expires_at task)))) s
      else if c_watches c = None
      then watch_decided c t rest task scheduled upcoming next_due
             (WatchGone ''no watch hook is wired into this engine'') s
      else (s, HookAsked t rest task scheduled upcoming next_due))"

definition hook_answered :: "sched_config \<Rightarrow> datetime \<Rightarrow> hook_answer \<Rightarrow> sched \<Rightarrow> sched \<times> watched" where
  "hook_answered c now answer s =
     (case answer of
        Answers v \<Rightarrow> (s, v)
      | TimesOut \<Rightarrow> (note_error c now HookTimedOut s, WatchPending)
      | Raises why \<Rightarrow> (note_error c now (HookRaised why) s, WatchPending))"

definition begins :: "sched_config \<Rightarrow> datetime \<Rightarrow> datetime \<Rightarrow> task_record list \<Rightarrow> task_record \<Rightarrow> sched
    \<Rightarrow> sched \<times> loop_at" where
  "begins c now t rest task s =
     (case plan_of c now task t s of
        PlanNothing \<Rightarrow> (s, Passing t rest)
      | PlanFails e \<Rightarrow> failing c now e s
      | PlanSkips sc up nd st k de \<Rightarrow>
          (s\<lparr>tokens := Suc (tokens s)\<rparr>,
           SkipWrite t rest task (new_run c s task sc st None (iso t) TRIGGERED_SCHEDULE k de) (to_iso up) (to_iso nd))
      | PlanAsks sc up nd \<Rightarrow> watch_begins c t rest task sc up nd s
      | PlanFires sc up nd late k \<Rightarrow>
          claim_begins c t rest task sc (to_iso up) (to_iso nd)
            (if late then TRIGGERED_CATCHUP else TRIGGERED_SCHEDULE) (k + 1) ForWork s)"

text \<open>The call of \<open>_finish\<close> to the store.\<close>

definition completed :: "sched_config \<Rightarrow> task_record \<Rightarrow> task_run \<Rightarrow> run_status \<Rightarrow> datetime \<Rightarrow> datetime
    \<Rightarrow> string \<Rightarrow> nat \<Rightarrow> nat \<Rightarrow> bool \<Rightarrow> sched \<Rightarrow> sched" where
  "completed c task run status started now detail reply_chars tool_calls final s =
     (let failed = status \<notin> set SUCCEEDED \<and> status \<notin> set ENDED;
          paused = failed \<and> t_consecutive_failures task + 1 \<ge> c_max_failures c;
          release = (if paused then STATE_PAUSED else if final then STATE_DONE else released_state task) in
      s\<lparr>db := complete_run (r_run_id run) (t_id task) status (iso now) ((now - started) div 1000)
             detail (int reply_chars) (int tool_calls) failed release (db s)\<rparr>)"

lemma finish_completed:
  "finish c task run st started now de ch ca final s
     = deliver_notices c (completed c task run st started now de ch ca final s)"
  by (simp add: finish_def completed_def Let_def)

fun loop_step :: "sched_config \<Rightarrow> datetime \<Rightarrow> hook_answer \<Rightarrow> bool \<Rightarrow> loop_at \<Rightarrow> sched \<Rightarrow> sched \<times> loop_at" where
  "loop_step c now answer posted LoopOff s = (s, Recovering)"
| "loop_step c now answer posted Recovering s =
     (s\<lparr>db := fst (reclaim_orphans (sched_id s) (now div second) (db s))\<rparr>, Pruning)"
| "loop_step c now answer posted Pruning s =
     (s\<lparr>db := fst (prune_runs (c_keep_runs c) ((now - c_retention c) div second) (db s))\<rparr>, Asleep 0)"
| "loop_step c now answer posted (Asleep pause) s = (s\<lparr>tick_seq := tick_seq s + 1\<rparr>, DueRead now)"
| "loop_step c now answer posted (DueRead t) s =
     (s, Passing t (due_tasks ((t + c_tick c) div second) 50 (db s)))"
| "loop_step c now answer posted (Passing t []) s = (s, LoopTells (EndOfTick None) OwedRead)"
| "loop_step c now answer posted (Passing t (task # rest)) s =
     (if (case from_iso (t_due_at task) of Some due \<Rightarrow> due > t | None \<Rightarrow> False)
      then (s, LoopTells (EndOfTick (from_iso (t_due_at task))) OwedRead)
      else if length (inflight s) \<ge> c_max_concurrent c then (s, LoopTells (EndOfTick None) OwedRead)
      else begins c now t rest task s)"
| "loop_step c now answer posted (SkipWrite t rest task run nr due) s =
     (s\<lparr>db := fst (record_skip (t_id task) (t_due_at task) run nr due (iso t) (db s))\<rparr>, Passing t rest)"
| "loop_step c now answer posted (HookAsked t rest task sc up nd) s =
     (case hook_answered c now answer s of (s1, verdict) \<Rightarrow> watch_decided c t rest task sc up nd verdict s1)"
| "loop_step c now answer posted (MoveWrite t rest task nr due) s =
     (s\<lparr>db := reschedule (t_id task) nr due (iso t) (db s)\<rparr>, Passing t rest)"
| "loop_step c now answer posted (ClaimWrite t rest task run nr due what) s =
     (case claim_due (t_id task) (t_due_at task) nr due run (sched_id s) (iso (t + c_lease c)) (iso t) (db s) of
        (d, None) \<Rightarrow> (s\<lparr>db := d\<rparr>, Passing t rest)
      | (d, Some row) \<Rightarrow> (s\<lparr>db := d\<rparr>, ClaimDone t rest task row what))"
| "loop_step c now answer posted (ClaimDone t rest task run what) s =
     (case what of
        ForWork \<Rightarrow> (spawn task run None now s, Passing t rest)
      | ForReport found \<Rightarrow> (spawn task run (Some found) now s, Passing t rest)
      | ForGone why \<Rightarrow> (s, EndWrite t rest task run (take 200 why) now))"
| "loop_step c now answer posted (EndWrite t rest task run why at) s =
     (completed c task run RUN_GONE t at why 0 0 True s, LoopTells (RestOfTick t rest) OwedRead)"
| "loop_step c now answer posted (LoopTells after n) s =
     (case sweep_step c posted n s of (s1, n1) \<Rightarrow> (s1, told_on after n1))"
| "loop_step c now answer posted (LoopBeats upcoming b) s =
     (case beat_step c now b s of
        (s1, Some b1) \<Rightarrow> (s1, LoopBeats upcoming b1)
      | (s1, None) \<Rightarrow> (s1, Asleep (sleep_for c now upcoming)))"
| "loop_step c now answer posted (FailBeats b) s =
     (case beat_step c now b s of
        (s1, Some b1) \<Rightarrow> (s1, FailBeats b1)
      | (s1, None) \<Rightarrow> (s1, Asleep (sleep_for c now None)))"

text \<open>A call to the store that raises: in a tick it ends the tick, in the start or in the
  heartbeat after a failed tick it ends the loop; elsewhere the loop waits for no store.\<close>

fun loop_fails :: "sched_config \<Rightarrow> datetime \<Rightarrow> string \<Rightarrow> loop_at \<Rightarrow> sched \<Rightarrow> sched \<times> loop_at" where
  "loop_fails c now why Recovering s = (s, LoopOff)"
| "loop_fails c now why Pruning s = (s, LoopOff)"
| "loop_fails c now why (FailBeats b) s = (s, LoopOff)"
| "loop_fails c now why (DueRead t) s = failing c now (StoreFailed why) s"
| "loop_fails c now why (SkipWrite t rest task run nr due) s = failing c now (StoreFailed why) s"
| "loop_fails c now why (MoveWrite t rest task nr due) s = failing c now (StoreFailed why) s"
| "loop_fails c now why (ClaimWrite t rest task run nr due what) s = failing c now (StoreFailed why) s"
| "loop_fails c now why (EndWrite t rest task run de at) s = failing c now (StoreFailed why) s"
| "loop_fails c now why (LoopTells after OwedRead) s = failing c now (StoreFailed why) s"
| "loop_fails c now why (LoopTells after (OwedTask r rs)) s = failing c now (StoreFailed why) s"
| "loop_fails c now why (LoopTells after (OwedMark r rs)) s = failing c now (StoreFailed why) s"
| "loop_fails c now why (LoopBeats upcoming b) s = failing c now (StoreFailed why) s"
| "loop_fails c now why pc s = (s, pc)"

section \<open>The workers\<close>

text \<open>A worker waits for the engine, for the store to take the end of its run, or sweeps.\<close>

datatype worker_at = AtWork | Completing run_status string nat nat datetime | WorkerTells notice_at

text \<open>No place to go on from: the coroutine is over, and the callback forgets the worker.\<close>

fun worker_step :: "sched_config \<Rightarrow> int \<Rightarrow> datetime \<Rightarrow> run_end \<Rightarrow> bool \<Rightarrow> worker \<Rightarrow> worker_at \<Rightarrow> sched
    \<Rightarrow> sched \<times> worker_at option" where
  "worker_step c default_deadline now e posted w AtWork s =
     (case run_verdict c default_deadline w e of (status, detail, chars, calls) \<Rightarrow>
        (s, Some (Completing status detail chars calls now)))"
| "worker_step c default_deadline now e posted w (Completing status detail chars calls at) s =
     (completed c (w_task w) (w_run w) status (w_started w) at detail chars calls (w_done w \<noteq> None) s,
      Some (WorkerTells OwedRead))"
| "worker_step c default_deadline now e posted w (WorkerTells OwedDone) s = (s, None)"
| "worker_step c default_deadline now e posted w (WorkerTells n) s =
     (case sweep_step c posted n s of (s1, n1) \<Rightarrow> (s1, Some (WorkerTells n1)))"

definition forget_worker :: "string \<Rightarrow> sched \<Rightarrow> sched" where
  "forget_worker i s = s\<lparr>inflight := filter (\<lambda>w. r_run_id (w_run w) \<noteq> i) (inflight s)\<rparr>"

section \<open>The engine\<close>

record sched_engine =
  core :: sched
  loop_pc :: loop_at
  worker_pc :: "string \<Rightarrow> worker_at"

text \<open>
  What may happen next.  A worker dies when its store raises while the end of its run is written
  or told, or when it is cancelled before it started or while it writes and tells; a worker that
  is cancelled at its work goes on with the end \<open>ShutDown\<close>.
\<close>

datatype happening =
    LoopGoes datetime hook_answer bool | LoopFails datetime string | LoopCancelled
  | WorkerGoes string int datetime run_end bool | WorkerDies string

fun happen :: "sched_config \<Rightarrow> happening \<Rightarrow> sched_engine \<Rightarrow> sched_engine" where
  "happen c (LoopGoes now answer posted) g =
     (case loop_step c now answer posted (loop_pc g) (core g) of
        (s, pc) \<Rightarrow> g\<lparr>core := s, loop_pc := pc,
          worker_pc := (case loop_pc g of
             ClaimDone t rest task run what \<Rightarrow> (worker_pc g)(r_run_id run := AtWork)
           | _ \<Rightarrow> worker_pc g)\<rparr>)"
| "happen c (LoopFails now why) g =
     (case loop_fails c now why (loop_pc g) (core g) of (s, pc) \<Rightarrow> g\<lparr>core := s, loop_pc := pc\<rparr>)"
| "happen c LoopCancelled g = g\<lparr>loop_pc := LoopOff\<rparr>"
| "happen c (WorkerGoes i default_deadline now e posted) g =
     (case find (\<lambda>w. r_run_id (w_run w) = i) (inflight (core g)) of
        None \<Rightarrow> g
      | Some w \<Rightarrow>
          (case worker_step c default_deadline now e posted w (worker_pc g i) (core g) of
             (s, Some pc) \<Rightarrow> g\<lparr>core := s, worker_pc := (worker_pc g)(i := pc)\<rparr>
           | (s, None) \<Rightarrow> g\<lparr>core := forget_worker i s\<rparr>))"
| "happen c (WorkerDies i) g = g\<lparr>core := forget_worker i (core g)\<rparr>"

definition sched_happens :: "sched_config \<Rightarrow> happening list \<Rightarrow> sched_engine \<Rightarrow> sched_engine" where
  "sched_happens c hs g = fold (happen c) hs g"

definition new_engine :: "string \<Rightarrow> datetime \<Rightarrow> task_db \<Rightarrow> sched_engine" where
  "new_engine i now d = \<lparr>core = init_sched i now d, loop_pc = LoopOff, worker_pc = (\<lambda>_. AtWork)\<rparr>"

text \<open>The engine among other users of the database, who do not write rows under its names.\<close>

inductive engine_step :: "sched_config \<Rightarrow> sched_engine \<Rightarrow> sched_engine \<Rightarrow> bool" for c where
  own_step: "engine_step c g (happen c h g)"
| other_step: "store_step (db (core g)) d \<Longrightarrow> rows_from (db (core g)) extra d
    \<Longrightarrow> (\<And>r k. r \<in> set extra \<Longrightarrow> r_run_id r \<noteq> run_name c k)
    \<Longrightarrow> engine_step c g (g\<lparr>core := (core g)\<lparr>db := d\<rparr>\<rparr>)"

inductive_simps engine_step_iff: "engine_step c g g'"

section \<open>What every step leaves in place\<close>

text \<open>A change that starts no worker and writes no row under this engine's names.\<close>

definition calm :: "sched_config \<Rightarrow> sched \<Rightarrow> sched \<Rightarrow> bool" where
  "calm c s s' \<longleftrightarrow> set (inflight s') \<subseteq> set (inflight s) \<and> length (inflight s') \<le> length (inflight s)
     \<and> tokens s \<le> tokens s' \<and> sched_id s' = sched_id s
     \<and> (\<forall>r \<in> set (task_runs (db s')). (\<forall>k. r_run_id r \<noteq> run_name c k)
          \<or> (\<exists>r0 \<in> set (task_runs (db s)). r_run_id r0 = r_run_id r \<and> r_task_id r0 = r_task_id r))
     \<and> (store_ok (db s) \<longrightarrow> store_ok (db s'))"

lemma calm_refl [simp]: "calm c s s"
  by (auto simp: calm_def)

lemma quiet_calm: "quiet s s' \<Longrightarrow> sched_id s' = sched_id s \<Longrightarrow> calm c s s'"
  unfolding quiet_def calm_def rows_from_def by (metis empty_iff empty_set order_refl subset_refl)

definition run_named :: "sched_config \<Rightarrow> sched \<Rightarrow> task_run \<Rightarrow> bool" where
  "run_named c s run \<longleftrightarrow> (\<exists>k < tokens s. r_run_id run = run_name c k)
     \<and> (\<forall>w \<in> set (inflight s). r_run_id (w_run w) \<noteq> r_run_id run)"

definition own_rows :: "sched \<Rightarrow> task_record \<Rightarrow> task_run \<Rightarrow> bool" where
  "own_rows s task run \<longleftrightarrow> r_task_id run = t_id task
     \<and> (\<forall>r \<in> set (task_runs (db s)). r_run_id r = r_run_id run \<longrightarrow> r_task_id r = t_id task)"

abbreviation room :: "sched_config \<Rightarrow> sched \<Rightarrow> bool" where
  "room c s \<equiv> length (inflight s) < c_max_concurrent c"

text \<open>What holds of a row that is about to be written, or was just written, and of the room for
  a worker, wherever the loop stands.\<close>

fun loop_ok :: "sched_config \<Rightarrow> sched \<Rightarrow> loop_at \<Rightarrow> bool" where
  "loop_ok c s (SkipWrite t rest task run nr due) \<longleftrightarrow>
     run_named c s run \<and> r_task_id run = t_id task \<and> r_status run \<noteq> RUN_RUNNING"
| "loop_ok c s (HookAsked t rest task sc up nd) \<longleftrightarrow> room c s"
| "loop_ok c s (ClaimWrite t rest task run nr due what) \<longleftrightarrow>
     room c s \<and> run_named c s run \<and> r_task_id run = t_id task \<and> r_status run = RUN_RUNNING
     \<and> r_finished_at run = None \<and> r_owner run = sched_id s"
| "loop_ok c s (ClaimDone t rest task run what) \<longleftrightarrow> room c s \<and> run_named c s run \<and> own_rows s task run"
| "loop_ok c s (EndWrite t rest task run why at) \<longleftrightarrow> run_named c s run \<and> own_rows s task run"
| "loop_ok c s pc \<longleftrightarrow> True"

text \<open>A worker writes the end its work came to; no end leaves a run running.\<close>

definition worker_pc_ok :: "worker_at \<Rightarrow> bool" where
  "worker_pc_ok pc \<longleftrightarrow> (case pc of Completing st de ch ca at \<Rightarrow> st \<noteq> RUN_RUNNING | _ \<Rightarrow> True)"

definition engine_ok :: "sched_config \<Rightarrow> sched_engine \<Rightarrow> bool" where
  "engine_ok c g \<longleftrightarrow> sched_ok c (core g) \<and> loop_ok c (core g) (loop_pc g) \<and> (\<forall>i. worker_pc_ok (worker_pc g i))"

lemma calm_run_named: "calm c s s' \<Longrightarrow> run_named c s run \<Longrightarrow> run_named c s' run"
  by (fastforce simp: calm_def run_named_def intro: order_less_le_trans)

lemma calm_own_rows: "calm c s s' \<Longrightarrow> run_named c s run \<Longrightarrow> own_rows s task run \<Longrightarrow> own_rows s' task run"
  unfolding calm_def run_named_def own_rows_def by metis

lemma calm_worker_ok:
  assumes "calm c s s'" and "worker_ok c (tokens s) (db s) w"
  shows "worker_ok c (tokens s') (db s') w"
proof -
  obtain k where k: "k < tokens s" "r_run_id (w_run w) = run_name c k" using assms(2) by (auto simp: worker_ok_def)
  have "r_task_id r = t_id (w_task w)" if r: "r \<in> set (task_runs (db s'))" "r_run_id r = r_run_id (w_run w)" for r
    using assms r k unfolding calm_def worker_ok_def by metis
  then show ?thesis using assms k unfolding worker_ok_def calm_def by (meson order_less_le_trans)
qed

lemma calm_sched_ok:
  assumes calm: "calm c s s'" and ok: "sched_ok c s"
  shows "sched_ok c s'"
proof -
  have "worker_ok c (tokens s') (db s') w" if "w \<in> set (inflight s')" for w
  proof (rule calm_worker_ok [OF calm])
    have "w \<in> set (inflight s)" using calm that unfolding calm_def by blast
    then show "worker_ok c (tokens s) (db s) w" using ok unfolding sched_ok_def by blast
  qed
  moreover have "store_ok (db s')" and "length (inflight s') \<le> c_max_concurrent c"
    using calm ok unfolding calm_def sched_ok_def by simp_all
  ultimately show ?thesis unfolding sched_ok_def by blast
qed

lemma calm_room: "calm c s s' \<Longrightarrow> room c s \<Longrightarrow> room c s'"
  by (auto simp: calm_def)

lemma calm_sched_id: "calm c s s' \<Longrightarrow> sched_id s' = sched_id s"
  by (simp add: calm_def)

lemma calm_loop_ok: "calm c s s' \<Longrightarrow> loop_ok c s pc \<Longrightarrow> loop_ok c s' pc"
  by (cases pc) (auto intro: calm_run_named calm_own_rows calm_room simp: calm_sched_id)

lemma sched_ok_named:
  "inj (c_token c) \<Longrightarrow> sched_ok c s
    \<Longrightarrow> run_named c (s\<lparr>tokens := Suc (tokens s)\<rparr>) (new_run c s task sc st sa fa tg co de)"
  unfolding run_named_def sched_ok_def worker_ok_def
  by (auto simp: new_run_def run_name_def inj_eq)

section \<open>The sweep, the heartbeat and the workers are calm\<close>

lemma sweep_step_calm: "sweep_step c posted n s = (s', n') \<Longrightarrow> quiet s s' \<and> sched_id s' = sched_id s"
proof (cases n)
  case (OwedMark r rs)
  assume "sweep_step c posted n s = (s', n')"
  moreover have "quiet s (s\<lparr>db := mark_notified (r_run_id r) (db s)\<rparr>)"
    by (rule quiet_store [OF store_step.notified mark_notified_frame(1)]) simp_all
  ultimately show ?thesis using OwedMark by auto
qed (auto simp: quiet_def split: if_splits)

lemma beat_step_calm: "beat_step c now b s = (s', b') \<Longrightarrow> quiet s s' \<and> sched_id s' = sched_id s"
proof (cases b)
  case (BeatWrite row)
  assume "beat_step c now b s = (s', b')"
  moreover have "quiet s (s\<lparr>db := write_heartbeat row (db s)\<rparr>)"
    by (rule quiet_store [OF store_step.heart]) (auto simp: rows_from_def)
  ultimately show ?thesis using BeatWrite by auto
qed auto

lemma completed_quiet:
  assumes "own_rows s task run" and "st \<noteq> RUN_RUNNING"
  shows "quiet s (completed c task run st started at de ch ca final s)"
    and "sched_id (completed c task run st started at de ch ca final s) = sched_id s"
proof -
  show "quiet s (completed c task run st started at de ch ca final s)"
    unfolding completed_def Let_def
    by (rule quiet_store [OF store_step.complete complete_run_frame(1)])
       (use assms in \<open>simp_all add: own_rows_def released_state_def\<close>)
qed (simp add: completed_def Let_def)

lemma forget_worker_calm: "calm c s (forget_worker i s)"
  by (auto simp: calm_def forget_worker_def)

lemma worker_step_calm:
  assumes "worker_step c dd now e posted w pc s = (s', pc')"
    and "worker_ok c (tokens s) (db s) w" and "worker_pc_ok pc"
  shows "calm c s s'" and "pc' = Some p \<Longrightarrow> worker_pc_ok p"
proof -
  have own: "own_rows s (w_task w) (w_run w)" using assms(2) by (auto simp: worker_ok_def own_rows_def)
  have "calm c s s' \<and> (\<forall>p. pc' = Some p \<longrightarrow> worker_pc_ok p)"
  proof (cases pc)
    case AtWork
    then show ?thesis using assms(1) run_verdict_final [of c dd w e]
      by (auto simp: worker_pc_ok_def split: prod.splits)
  next
    case (Completing st de ch ca at)
    then show ?thesis
      using assms(1,3) completed_quiet [OF own, of st] by (auto simp: worker_pc_ok_def intro!: quiet_calm)
  next
    case (WorkerTells n)
    show ?thesis
    proof (cases "n = OwedDone")
      case False
      obtain s1 n1 where w: "sweep_step c posted n s = (s1, n1)" by fastforce
      have "worker_step c dd now e posted w (WorkerTells n) s = (s1, Some (WorkerTells n1))"
        using False w by (cases n) auto
      then show ?thesis using assms(1) WorkerTells sweep_step_calm [OF w]
        by (auto simp: worker_pc_ok_def intro!: quiet_calm)
    qed (use assms(1) WorkerTells in auto)
  qed
  then show "calm c s s'" "pc' = Some p \<Longrightarrow> worker_pc_ok p" by blast+
qed

section \<open>The steps of the loop\<close>

text \<open>Each kind of step ends well: the scheduler is sound and the loop stands well in it.\<close>

definition ends_well :: "sched_config \<Rightarrow> sched \<times> loop_at \<Rightarrow> bool" where
  "ends_well c p \<longleftrightarrow> sched_ok c (fst p) \<and> loop_ok c (fst p) (snd p)"

lemma ends_wellI [intro]: "sched_ok c s \<Longrightarrow> loop_ok c s pc \<Longrightarrow> ends_well c (s, pc)"
  by (simp add: ends_well_def)

lemma quiet_engine_ok: "quiet s s' \<Longrightarrow> sched_ok c s \<Longrightarrow> sched_ok c s'"
  by (rule quiet_sched_ok)

lemma failing_ends_well: "sched_ok c s \<Longrightarrow> ends_well c (failing c now e s)"
  unfolding failing_def using quiet_engine_ok [OF quiet_note_error] by (intro ends_wellI) auto

lemma claim_begins_ends_well:
  assumes "inj (c_token c)" and "sched_ok c s" and "room c s"
  shows "ends_well c (claim_begins c t rest task sc nr due tg co what s)"
  unfolding claim_begins_def using assms sched_ok_named sched_ok_tokens
  by (intro ends_wellI) (auto simp: new_run_def)

lemma watch_decided_ends_well:
  assumes "inj (c_token c)" and "sched_ok c s" and "room c s"
  shows "ends_well c (watch_decided c t rest task sc up nd v s)"
  using assms claim_begins_ends_well by (cases v) (auto simp: watch_decided_def)

lemma watch_begins_ends_well:
  assumes "inj (c_token c)" and "sched_ok c s" and "room c s"
  shows "ends_well c (watch_begins c t rest task sc up nd s)"
  using assms watch_decided_ends_well [OF assms] by (auto simp: watch_begins_def)

lemma begins_ends_well:
  assumes inj: "inj (c_token c)" and ok: "sched_ok c s" and room: "room c s"
  shows "ends_well c (begins c now t rest task s)"
proof (cases "plan_of c now task t s")
  case (PlanSkips sc up nd st k de)
  then have "st \<noteq> RUN_RUNNING" using plan_skips by blast
  then show ?thesis using PlanSkips sched_ok_named [OF inj ok] sched_ok_tokens [OF ok]
    by (auto simp: begins_def new_run_def)
qed (use assms failing_ends_well claim_begins_ends_well watch_begins_ends_well in \<open>auto simp: begins_def\<close>)

lemma hook_answered_frame:
  "hook_answered c now answer s = (s', v) \<Longrightarrow> quiet s s' \<and> inflight s' = inflight s"
  by (auto simp: hook_answered_def quiet_def note_error_def split: hook_answer.splits)

text \<open>A row named for this engine that no worker bears leaves every worker's rows its own.\<close>

lemma worker_ok_named:
  assumes "worker_ok c n d w" and "rows_from d [run] d'" and "r_run_id (w_run w) \<noteq> r_run_id run"
  shows "worker_ok c n d' w"
  using assms unfolding worker_ok_def rows_from_def by (metis empty_set list.simps(15) singletonD)

lemma skip_write_ok:
  assumes ok: "sched_ok c s" and run: "run_named c s run" "r_task_id run = t_id task" "r_status run \<noteq> RUN_RUNNING"
  shows "sched_ok c (s\<lparr>db := fst (record_skip (t_id task) seen run nr due now (db s))\<rparr>)"
proof -
  obtain d b where r: "record_skip (t_id task) seen run nr due now (db s) = (d, b)" by fastforce
  have "store_step (db s) d"
    using store_step.skip [of run "t_id task" "db s" seen nr due now] r run by simp
  then have "store_ok d" using ok store_step_keeps by (auto simp: sched_ok_def store_ok_def)
  moreover have "worker_ok c (tokens s) d w" if "w \<in> set (inflight s)" for w
    using worker_ok_named [OF _ record_skip_frame(1) [OF r]] ok that run(1) by (simp add: sched_ok_def run_named_def)
  ultimately show ?thesis using ok r by (simp add: sched_ok_def)
qed

lemma claim_write_ok:
  assumes ok: "sched_ok c s"
    and run: "run_named c s run" "r_task_id run = t_id task" "r_status run = RUN_RUNNING" "r_finished_at run = None"
      "r_owner run = sched_id s"
    and cl: "claim_due (t_id task) seen nr due run (sched_id s) lease now (db s) = (d, Some row)"
  shows "row = run" and "sched_ok c (s\<lparr>db := d\<rparr>)" and "own_rows (s\<lparr>db := d\<rparr>) task run"
proof -
  show "row = run" using claim_due_frame(4) [OF cl] by simp
  have "store_step (db s) d"
    using store_step.claim [of run "t_id task" "sched_id s" "db s" seen nr due lease now] cl run by simp
  then have store: "store_ok d" using ok store_step_keeps by (auto simp: sched_ok_def store_ok_def)
  moreover have "worker_ok c (tokens s) d w" if "w \<in> set (inflight s)" for w
    using worker_ok_named [OF _ claim_due_frame(1) [OF cl]] ok that run(1) by (simp add: sched_ok_def run_named_def)
  ultimately show "sched_ok c (s\<lparr>db := d\<rparr>)" using ok by (simp add: sched_ok_def)
  have "run \<in> set (task_runs d)" using cl by (cases rule: claim_due_cases) auto
  moreover have "distinct (map r_run_id (task_runs d))" using store db_okD(2) by (simp add: store_ok_def)
  ultimately have "r = run" if "r \<in> set (task_runs d)" "r_run_id r = r_run_id run" for r
    using that by (auto simp: distinct_map dest: inj_onD)
  then show "own_rows (s\<lparr>db := d\<rparr>) task run" using run(2) by (auto simp: own_rows_def)
qed

lemma spawn_ok:
  assumes ok: "sched_ok c s" and "room c s" and "run_named c s run" and "own_rows s task run"
  shows "sched_ok c (spawn task run found now s)"
proof -
  have "worker_ok c (tokens s) (db s) \<lparr>w_task = task, w_run = run, w_done = found, w_started = now\<rparr>"
    using assms(3,4) by (auto simp: worker_ok_def run_named_def own_rows_def)
  then show ?thesis using assms(1,2) by (auto simp: spawn_def sched_ok_def)
qed

lemma claim_lost_step:
  "claim_due i seen nr due run own lease now (db s) = (d, None) \<Longrightarrow> s\<lparr>db := d\<rparr> = s"
  using claim_lost by fastforce

text \<open>One step of the loop, wherever it stands.\<close>

lemma loop_step_ends_well:
  assumes inj: "inj (c_token c)" and ok: "sched_ok c s" and pc: "loop_ok c s pc"
  shows "ends_well c (loop_step c now answer posted pc s)"
proof (cases pc)
  case Recovering
  obtain d os where r: "reclaim_orphans (sched_id s) (now div second) (db s) = (d, os)" by fastforce
  have "quiet s (s\<lparr>db := d\<rparr>)"
    using r reclaim_runs [of "sched_id s" "now div second" "db s"] store_step.reclaim [of "db s" "sched_id s" "now div second"]
    by (intro quiet_store [of _ d]) (auto simp: rows_from_def)
  then show ?thesis using Recovering r quiet_engine_ok [OF _ ok] by auto
next
  case Pruning
  have "quiet s (s\<lparr>db := fst (prune_runs k at (db s))\<rparr>)" for k at
    by (rule quiet_store [OF store_step.prune]) (auto simp: rows_from_def prune_runs_def)
  then show ?thesis using Pruning quiet_engine_ok [OF _ ok] by auto
next
  case (Asleep x)
  have "quiet s (s\<lparr>tick_seq := tick_seq s + 1\<rparr>)" by (simp add: quiet_def)
  then show ?thesis using Asleep quiet_engine_ok [OF _ ok] by auto
next
  case (Passing t ts)
  then show ?thesis using ok begins_ends_well [OF inj ok] by (cases ts) auto
next
  case (SkipWrite t rest task run nr due)
  then have "sched_ok c (s\<lparr>db := fst (record_skip (t_id task) (t_due_at task) run nr due (iso t) (db s))\<rparr>)"
    using pc by (intro skip_write_ok [OF ok]) simp_all
  then show ?thesis using SkipWrite by (simp add: ends_well_def)
next
  case (HookAsked t rest task sc up nd)
  obtain s1 v where h: "hook_answered c now answer s = (s1, v)" by fastforce
  then show ?thesis
    using HookAsked pc watch_decided_ends_well [OF inj quiet_engine_ok [OF _ ok]] hook_answered_frame [OF h] by auto
next
  case (MoveWrite t rest task nr due)
  have "quiet s (s\<lparr>db := reschedule (t_id task) nr due (iso t) (db s)\<rparr>)"
    by (rule quiet_store [OF store_step.resched]) (auto simp: rows_from_def reschedule_frame)
  then show ?thesis using MoveWrite quiet_engine_ok [OF _ ok] by auto
next
  case (ClaimWrite t rest task run nr due what)
  obtain d res where cl: "claim_due (t_id task) (t_due_at task) nr due run (sched_id s) (iso (t + c_lease c)) (iso t) (db s)
      = (d, res)" by fastforce
  show ?thesis
  proof (cases res)
    case None
    then show ?thesis using ClaimWrite cl claim_lost_step [OF cl [unfolded None]] ok by auto
  next
    case (Some row)
    note won = claim_write_ok [OF ok _ _ _ _ _ cl [unfolded Some]]
    have "run_named c (s\<lparr>db := d\<rparr>) run" using pc ClaimWrite by (simp add: run_named_def)
    then show ?thesis using ClaimWrite cl Some won pc by auto
  qed
next
  case (ClaimDone t rest task run what)
  then show ?thesis using ok pc spawn_ok [OF ok] by (cases what) auto
next
  case (EndWrite t rest task run why at)
  then have "quiet s (completed c task run RUN_GONE t at why 0 0 True s)" using pc by (intro completed_quiet) auto
  then show ?thesis using EndWrite quiet_engine_ok [OF _ ok] by auto
next
  case (LoopTells after n)
  obtain s1 n1 where w: "sweep_step c posted n s = (s1, n1)" by fastforce
  have "loop_ok c s1 (told_on after n1)" by (auto simp: told_on_def split: sweep_after.split)
  then show ?thesis using LoopTells w sweep_step_calm [OF w] quiet_engine_ok [OF _ ok] by auto
next
  case (LoopBeats up b)
  obtain s1 r where w: "beat_step c now b s = (s1, r)" by fastforce
  then show ?thesis using LoopBeats beat_step_calm [OF w] quiet_engine_ok [OF _ ok] by (cases r) auto
next
  case (FailBeats b)
  obtain s1 r where w: "beat_step c now b s = (s1, r)" by fastforce
  then show ?thesis using FailBeats beat_step_calm [OF w] quiet_engine_ok [OF _ ok] by (cases r) auto
qed (use ok in auto)

lemma loop_fails_ends_well:
  "sched_ok c s \<Longrightarrow> loop_ok c s pc \<Longrightarrow> ends_well c (loop_fails c now why pc s)"
  by (cases "(c, now, why, pc, s)" rule: loop_fails.cases) (auto simp: failing_ends_well)

section \<open>The engine\<close>

lemma happen_keeps:
  assumes inj: "inj (c_token c)" and ok: "engine_ok c g"
  shows "engine_ok c (happen c h g)"
proof (cases h)
  case (LoopGoes now answer posted)
  obtain s pc where l: "loop_step c now answer posted (loop_pc g) (core g) = (s, pc)" by fastforce
  have "ends_well c (s, pc)" using loop_step_ends_well [OF inj, of "core g" "loop_pc g"] ok l
    by (metis engine_ok_def)
  then show ?thesis using LoopGoes l ok
    by (auto simp: engine_ok_def ends_well_def worker_pc_ok_def split: loop_at.splits)
next
  case (LoopFails now why)
  obtain s pc where l: "loop_fails c now why (loop_pc g) (core g) = (s, pc)" by fastforce
  have "ends_well c (s, pc)" using loop_fails_ends_well [of c "core g" "loop_pc g"] ok l
    by (metis engine_ok_def)
  then show ?thesis using LoopFails l ok by (simp add: engine_ok_def ends_well_def)
next
  case LoopCancelled
  then show ?thesis using ok by (simp add: engine_ok_def)
next
  case (WorkerGoes i dd now e posted)
  show ?thesis
  proof (cases "find (\<lambda>w. r_run_id (w_run w) = i) (inflight (core g))")
    case (Some w)
    then have w: "w \<in> set (inflight (core g))" by (auto simp: find_Some_iff)
    obtain s r where l: "worker_step c dd now e posted w (worker_pc g i) (core g) = (s, r)" by fastforce
    have "worker_ok c (tokens (core g)) (db (core g)) w" and "worker_pc_ok (worker_pc g i)"
      using ok w unfolding engine_ok_def sched_ok_def by blast+
    note well = worker_step_calm [OF l this]
    have s: "sched_ok c s" "loop_ok c s (loop_pc g)"
      using calm_sched_ok [OF well(1)] calm_loop_ok [OF well(1)] ok by (simp_all add: engine_ok_def)
    show ?thesis
    proof (cases r)
      case None
      then show ?thesis using WorkerGoes Some l s ok calm_sched_ok [OF forget_worker_calm]
          calm_loop_ok [OF forget_worker_calm] by (simp add: engine_ok_def)
    next
      case (Some p)
      then show ?thesis
        using WorkerGoes \<open>find _ _ = Some w\<close> l s ok well(2) by (simp add: engine_ok_def)
    qed
  qed (use WorkerGoes ok in simp)
next
  case (WorkerDies i)
  then show ?thesis using ok calm_sched_ok [OF forget_worker_calm] calm_loop_ok [OF forget_worker_calm]
    by (simp add: engine_ok_def)
qed

lemma engine_step_keeps:
  assumes inj: "inj (c_token c)" and st: "engine_step c g g'" and ok: "engine_ok c g"
  shows "engine_ok c g'"
  using st
proof cases
  case (own_step h)
  then show ?thesis using happen_keeps [OF inj ok] by simp
next
  case (other_step d extra)
  have "calm c (core g) ((core g)\<lparr>db := d\<rparr>)"
    using other_step(3,4) store_step_keeps [OF other_step(2)]
    unfolding calm_def rows_from_def store_ok_def by fastforce
  then show ?thesis using other_step(1) ok calm_sched_ok calm_loop_ok by (fastforce simp: engine_ok_def)
qed

lemma new_engine_ok: "store_ok d \<Longrightarrow> engine_ok c (new_engine i now d)"
  by (simp add: engine_ok_def sched_ok_def new_engine_def init_sched_def worker_pc_ok_def)

lemma happens_reachable:
  "reachable P (engine_step c) g \<Longrightarrow> reachable P (engine_step c) (sched_happens c hs g)"
proof (induction hs arbitrary: g)
  case (Cons h hs)
  have "reachable P (engine_step c) (happen c h g)"
    by (rule reachable.move [OF Cons.prems engine_step.own_step])
  then show ?case using Cons.IH by (simp add: sched_happens_def)
qed (simp add: sched_happens_def)

section \<open>An undisturbed pass\<close>

text \<open>
  The loop on its own: the clock reads the same all along, and the watch hook and the
  announcements answer what the configuration says.
\<close>

definition hook_of :: "sched_config \<Rightarrow> loop_at \<Rightarrow> hook_answer" where
  "hook_of c pc = (case pc of HookAsked t rest task sc up nd \<Rightarrow>
       (case c_watches c of Some check \<Rightarrow> check (t_agent task) (t_watch_key task) | None \<Rightarrow> TimesOut)
     | _ \<Rightarrow> TimesOut)"

definition posted_of :: "sched_config \<Rightarrow> loop_at \<Rightarrow> bool" where
  "posted_of c pc = (case pc of LoopTells after n \<Rightarrow>
       (case n of OwedPost r k rs \<Rightarrow> c_announce c r | _ \<Rightarrow> False) | _ \<Rightarrow> False)"

definition alone :: "sched_config \<Rightarrow> datetime \<Rightarrow> sched \<times> loop_at \<Rightarrow> sched \<times> loop_at" where
  "alone c now p = loop_step c now (hook_of c (snd p)) (posted_of c (snd p)) (snd p) (fst p)"

definition gets_to :: "sched_config \<Rightarrow> datetime \<Rightarrow> sched \<times> loop_at \<Rightarrow> sched \<times> loop_at \<Rightarrow> bool" where
  "gets_to c now p q \<longleftrightarrow> (\<exists>n. (alone c now ^^ n) p = q)"

lemma gets_to_refl [simp]: "gets_to c now p p"
  unfolding gets_to_def by (rule exI [of _ 0]) simp

lemma gets_to_trans: "gets_to c now p q \<Longrightarrow> gets_to c now q r \<Longrightarrow> gets_to c now p r"
  unfolding gets_to_def by (metis comp_apply funpow_add)

lemma gets_on: "gets_to c now (alone c now p) q \<Longrightarrow> gets_to c now p q"
  unfolding gets_to_def by (metis comp_apply funpow_Suc_right)

lemma gets_by: "alone c now p = p1 \<Longrightarrow> gets_to c now p1 q \<Longrightarrow> gets_to c now p q"
  using gets_on by blast

lemma two_updates: "(s :: sched)\<lparr>tokens := x, db := d\<rparr> = s\<lparr>db := d, tokens := x\<rparr>"
  by simp

text \<open>One sweep is \<open>deliver_notices\<close>, three steps of the heartbeat are \<open>sched_heartbeat\<close>.\<close>

lemma owed_alone:
  "gets_to c now (s, told_on after (owed_next rs)) (fold (deliver_one c) rs s, told_on after OwedDone)"
proof (induction rs arbitrary: s)
  case (Cons r rs)
  have at: "told_on after (OwedTask r rs) = LoopTells after (OwedTask r rs)"
    "told_on after (OwedMark r rs) = LoopTells after (OwedMark r rs)"
    "told_on after (OwedPost r n rs) = LoopTells after (OwedPost r n rs)" for n by (simp_all add: told_on_def)
  let ?q = "(fold (deliver_one c) rs (deliver_one c r s), told_on after OwedDone)"
  have mark: "gets_to c now (s1, LoopTells after (OwedMark r rs)) ?q"
    if "s1\<lparr>db := mark_notified (r_run_id r) (db s1)\<rparr> = deliver_one c r s" for s1
    by (rule gets_on) (use that Cons.IH in \<open>simp add: alone_def\<close>)
  show ?case
  proof (cases "notice_for (get_task (r_task_id r) (db s)) r (c_max_failures c)")
    case None
    then show ?thesis using mark [of s] by - (rule gets_on, simp add: alone_def at deliver_one_def [of c r s])
  next
    case (Some n)
    have "gets_to c now (s, LoopTells after (OwedPost r n rs)) ?q"
    proof (cases "c_announce c r")
      case True
      then show ?thesis using Some mark [of "s\<lparr>said := said s @ [(r_run_id r, n)]\<rparr>"]
        by - (rule gets_on, simp add: alone_def posted_of_def at deliver_one_def [of c r s])
    next
      case False
      then show ?thesis using Some Cons.IH [of s]
        by - (rule gets_on, simp add: alone_def posted_of_def at deliver_one_def [of c r s])
    qed
    then show ?thesis using Some by - (rule gets_on, simp add: alone_def at)
  qed
qed simp

lemma sweep_alone: "gets_to c now (s, LoopTells after OwedRead) (deliver_notices c s, told_on after OwedDone)"
proof -
  have "alone c now (s, LoopTells after OwedRead) = (s, told_on after (owed_next (unnotified_runs 20 (db s))))"
    by (simp add: alone_def)
  then show ?thesis unfolding deliver_notices_def by (rule gets_by) (rule owed_alone)
qed

lemma beat_alone:
  "gets_to c now (s, LoopBeats up BeatPeek) (sched_heartbeat c now s, Asleep (sleep_for c now up))"
  "gets_to c now (s, FailBeats BeatPeek) (sched_heartbeat c now s, Asleep (sleep_for c now None))"
proof -
  let ?n = "peek_next (db s)"
  let ?row = "beat_row c now ?n (length (list_tasks [] [] (db s))) s"
  have row: "s\<lparr>db := write_heartbeat ?row (db s)\<rparr> = sched_heartbeat c now s"
    by (simp add: sched_heartbeat_def beat_row_def Let_def)
  have a: "alone c now (s, LoopBeats up BeatPeek) = (s, LoopBeats up (BeatCount ?n))"
    "alone c now (s, LoopBeats up (BeatCount ?n)) = (s, LoopBeats up (BeatWrite ?row))"
    "alone c now (s, LoopBeats up (BeatWrite ?row)) = (sched_heartbeat c now s, Asleep (sleep_for c now up))"
    by (simp_all add: alone_def row)
  show "gets_to c now (s, LoopBeats up BeatPeek) (sched_heartbeat c now s, Asleep (sleep_for c now up))"
    by (rule gets_by [OF a(1)], rule gets_by [OF a(2)], rule gets_by [OF a(3)], rule gets_to_refl)
  have b: "alone c now (s, FailBeats BeatPeek) = (s, FailBeats (BeatCount ?n))"
    "alone c now (s, FailBeats (BeatCount ?n)) = (s, FailBeats (BeatWrite ?row))"
    "alone c now (s, FailBeats (BeatWrite ?row)) = (sched_heartbeat c now s, Asleep (sleep_for c now None))"
    by (simp_all add: alone_def row)
  show "gets_to c now (s, FailBeats BeatPeek) (sched_heartbeat c now s, Asleep (sleep_for c now None))"
    by (rule gets_by [OF b(1)], rule gets_by [OF b(2)], rule gets_by [OF b(3)], rule gets_to_refl)
qed

text \<open>The steps of one task are \<open>skip\<close>, \<open>fire\<close> or \<open>tick_watch\<close>.\<close>

lemma skip_alone:
  "gets_to c now (s\<lparr>tokens := Suc (tokens s)\<rparr>,
      SkipWrite now rest task (new_run c s task sc st None (iso now) TRIGGERED_SCHEDULE k de) (to_iso up) (to_iso nd))
    (skip c task sc up nd now st k de s, Passing now rest)"
  by (rule gets_on) (simp add: alone_def skip_def Let_def two_updates)

text \<open>A claim that was lost only used up a name; one that was won goes on with its row.\<close>

lemma claim_alone:
  assumes run: "run = new_run c s task sc RUN_RUNNING (iso now) None tg k []"
    and cl: "claim_due (t_id task) (t_due_at task) nr due run (sched_id s) (iso (now + c_lease c)) (iso now) (db s) = (d, res)"
  shows "res = None \<Longrightarrow> gets_to c now (claim_begins c now rest task sc nr due tg k what s)
      (s\<lparr>tokens := Suc (tokens s)\<rparr>, Passing now rest)"
    and "res = Some row \<Longrightarrow> gets_to c now (claim_begins c now rest task sc nr due tg k what s)
      (s\<lparr>db := d, tokens := Suc (tokens s)\<rparr>, ClaimDone now rest task row what)"
proof -
  let ?s = "s\<lparr>tokens := Suc (tokens s)\<rparr>"
  have b: "claim_begins c now rest task sc nr due tg k what s = (?s, ClaimWrite now rest task run nr due what)"
    by (simp add: claim_begins_def run)
  have cl': "claim_due (t_id task) (t_due_at task) nr due run (sched_id ?s) (iso (now + c_lease c)) (iso now) (db ?s) = (d, res)"
    using cl by simp
  show "gets_to c now (claim_begins c now rest task sc nr due tg k what s) (?s, Passing now rest)" if n: "res = None"
  proof -
    have "?s\<lparr>db := d\<rparr> = ?s" using claim_lost_step [of _ _ _ _ _ _ _ _ ?s d] cl' n by blast
    then have "alone c now (?s, ClaimWrite now rest task run nr due what) = (?s, Passing now rest)"
      using cl' n by (simp add: alone_def)
    then show ?thesis unfolding b by (rule gets_by) (rule gets_to_refl)
  qed
  show "gets_to c now (claim_begins c now rest task sc nr due tg k what s)
      (s\<lparr>db := d, tokens := Suc (tokens s)\<rparr>, ClaimDone now rest task row what)" if "res = Some row"
  proof -
    have "alone c now (?s, ClaimWrite now rest task run nr due what)
        = (s\<lparr>db := d, tokens := Suc (tokens s)\<rparr>, ClaimDone now rest task row what)"
      using cl' that by (simp add: alone_def two_updates)
    then show ?thesis unfolding b by (rule gets_by) (rule gets_to_refl)
  qed
qed

lemma work_alone:
  "gets_to c now (s, ClaimDone now rest task row ForWork) (spawn task row None now s, Passing now rest)"
  "gets_to c now (s, ClaimDone now rest task row (ForReport found)) (spawn task row (Some found) now s, Passing now rest)"
  by (rule gets_on, simp add: alone_def)+

lemma gone_alone:
  "gets_to c now (s, ClaimDone now rest task row (ForGone why))
     (finish c task row RUN_GONE now now (take 200 why) 0 0 True s, Passing now rest)"
proof -
  let ?s = "completed c task row RUN_GONE now now (take 200 why) 0 0 True s"
  have a: "alone c now (s, ClaimDone now rest task row (ForGone why)) = (s, EndWrite now rest task row (take 200 why) now)"
    "alone c now (s, EndWrite now rest task row (take 200 why) now) = (?s, LoopTells (RestOfTick now rest) OwedRead)"
    by (simp_all add: alone_def)
  have "gets_to c now (?s, LoopTells (RestOfTick now rest) OwedRead) (deliver_notices c ?s, Passing now rest)"
    using sweep_alone [of c now ?s "RestOfTick now rest"] by (simp add: told_on_def)
  then show ?thesis unfolding finish_completed by (intro gets_by [OF a(1)] gets_by [OF a(2)])
qed

lemma fire_alone:
  "gets_to c now (claim_begins c now rest task sc (to_iso up) (to_iso nd)
      (if late then TRIGGERED_CATCHUP else TRIGGERED_SCHEDULE) (k + 1) ForWork s)
    (fire c task sc up nd now late k s, Passing now rest)"
proof -
  define tg where "tg = (if late then TRIGGERED_CATCHUP else TRIGGERED_SCHEDULE)"
  define run where "run = new_run c s task sc RUN_RUNNING (iso now) None tg (k + 1) []"
  obtain d res where cl: "claim_due (t_id task) (t_due_at task) (to_iso up) (to_iso nd) run (sched_id s)
      (iso (now + c_lease c)) (iso now) (db s) = (d, res)" by fastforce
  note won = claim_alone [OF run_def cl, where rest = rest and what = ForWork]
  have f: "fire c task sc up nd now late k s = (case res of None \<Rightarrow> s\<lparr>tokens := Suc (tokens s)\<rparr>
      | Some row \<Rightarrow> spawn task row None now (s\<lparr>db := d, tokens := Suc (tokens s)\<rparr>))"
    using cl by (simp add: fire_def Let_def run_def tg_def split: option.split)
  show ?thesis
  proof (cases res)
    case (Some row)
    then show ?thesis using gets_to_trans [OF won(2) work_alone(1)] f by (simp add: tg_def)
  qed (use won(1) f in \<open>simp add: tg_def\<close>)
qed

definition close_watch :: "sched_config \<Rightarrow> task_record \<Rightarrow> datetime \<Rightarrow> datetime \<Rightarrow> datetime option \<Rightarrow> datetime option
    \<Rightarrow> watched \<Rightarrow> sched \<Rightarrow> sched" where
  "close_watch c task now scheduled upcoming next_due verdict s =
     (if verdict = WatchPending
      then s\<lparr>db := reschedule (t_id task) (to_iso upcoming) (to_iso next_due) (iso now) (db s)\<rparr>
      else
        let run = new_run c s task scheduled RUN_RUNNING (iso now) None TRIGGERED_SCHEDULE 1 [] in
        (case claim_due (t_id task) (t_due_at task) None None run (sched_id s)
                (iso (now + c_lease c)) (iso now) (db s) of
           (d, None) \<Rightarrow> s\<lparr>tokens := Suc (tokens s)\<rparr>
         | (d, Some run) \<Rightarrow>
             let s1 = s\<lparr>db := d, tokens := Suc (tokens s)\<rparr> in
             (case verdict of
                WatchGone why \<Rightarrow> finish c task run RUN_GONE now now (take 200 why) 0 0 True s1
              | WatchDone found \<Rightarrow> spawn task run (Some found) now s1
              | WatchPending \<Rightarrow> s1)))"

lemma tick_watch_close:
  "tick_watch c task sc up nd now s
     = (case watch_verdict c task now s of (s1, v) \<Rightarrow> close_watch c task now sc up nd v s1)"
  by (simp add: tick_watch_def close_watch_def)

lemma decided_alone:
  "gets_to c now (watch_decided c now rest task sc up nd v s)
     (close_watch c task now sc up nd v s, Passing now rest)"
proof (cases "v = WatchPending")
  case True
  then show ?thesis by - (rule gets_on, simp add: alone_def watch_decided_def close_watch_def)
next
  case False
  define run where "run = new_run c s task sc RUN_RUNNING (iso now) None TRIGGERED_SCHEDULE 1 []"
  obtain d res where cl: "claim_due (t_id task) (t_due_at task) None None run (sched_id s)
      (iso (now + c_lease c)) (iso now) (db s) = (d, res)" by fastforce
  note won = claim_alone [OF run_def cl, where rest = rest]
  let ?s = "s\<lparr>db := d, tokens := Suc (tokens s)\<rparr>"
  have f: "close_watch c task now sc up nd v s = (case res of None \<Rightarrow> s\<lparr>tokens := Suc (tokens s)\<rparr>
      | Some row \<Rightarrow> (case v of WatchGone why \<Rightarrow> finish c task row RUN_GONE now now (take 200 why) 0 0 True ?s
          | WatchDone found \<Rightarrow> spawn task row (Some found) now ?s | WatchPending \<Rightarrow> ?s))"
    using cl False by (simp add: close_watch_def Let_def run_def split: option.split)
  show ?thesis
  proof (cases res)
    case None
    then show ?thesis using won(1) f False by (cases v) (simp_all add: watch_decided_def)
  next
    case (Some row)
    show ?thesis
    proof (cases v)
      case (WatchDone found)
      show ?thesis using gets_to_trans [OF won(2) [OF Some, where what = "ForReport found"] work_alone(2)] f Some WatchDone
        by (simp add: watch_decided_def)
    next
      case (WatchGone why)
      show ?thesis using gets_to_trans [OF won(2) [OF Some, where what = "ForGone why"] gone_alone] f Some WatchGone
        by (simp add: watch_decided_def)
    qed (use False in simp)
  qed
qed

text \<open>The question to a watch, put together from its parts.\<close>

lemma watch_verdict_parts:
  "watch_verdict c task now s =
     (if (case t_expires_at task of Some expires \<Rightarrow> seconds expires \<le> now | None \<Rightarrow> False)
      then (s, WatchDone (ExpiredReport (t_watch_key task) (the (t_expires_at task))))
      else case c_watches c of None \<Rightarrow> (s, WatchGone ''no watch hook is wired into this engine'')
      | Some check \<Rightarrow> hook_answered c now (check (t_agent task) (t_watch_key task)) s)"
  by (simp add: watch_verdict_def ask_watch_def hook_answered_def split: option.split)

lemma watch_alone:
  "gets_to c now (watch_begins c now rest task sc up nd s) (tick_watch c task sc up nd now s, Passing now rest)"
proof (cases "(case t_expires_at task of Some expires \<Rightarrow> seconds expires \<le> now | None \<Rightarrow> False) \<or> c_watches c = None")
  case True
  then show ?thesis using decided_alone
    by (auto simp: watch_begins_def tick_watch_close watch_verdict_parts)
next
  case False
  then obtain check where ch: "c_watches c = Some check" by blast
  obtain s1 v where h: "hook_answered c now (check (t_agent task) (t_watch_key task)) s = (s1, v)" by fastforce
  have "alone c now (s, HookAsked now rest task sc up nd) = watch_decided c now rest task sc up nd v s1"
    using ch h by (simp add: alone_def hook_of_def)
  moreover have "tick_watch c task sc up nd now s = close_watch c task now sc up nd v s1"
    using False ch h by (simp add: tick_watch_close watch_verdict_parts)
  ultimately show ?thesis using False ch decided_alone [of c now rest task sc up nd v s1]
    by (simp add: watch_begins_def gets_by)
qed

lemma begins_alone:
  assumes "dispatch c task now s = (s', e)"
  shows "e = None \<Longrightarrow> gets_to c now (begins c now now rest task s) (s', Passing now rest)"
    and "e = Some x \<Longrightarrow> begins c now now rest task s = (note_error c now x s', FailBeats BeatPeek)"
proof -
  show "gets_to c now (begins c now now rest task s) (s', Passing now rest)" if "e = None"
  proof (cases "plan_of c now task now s")
    case (PlanFires sc up nd late k)
    then show ?thesis using assms fire_alone [of c now rest task sc up nd late k s]
      by (simp add: dispatch_plan begins_def)
  qed (use assms that skip_alone watch_alone in \<open>auto simp: dispatch_plan begins_def\<close>)
  show "begins c now now rest task s = (note_error c now x s', FailBeats BeatPeek)" if "e = Some x"
    using assms that by (auto simp: dispatch_plan begins_def failing_def split: plan.splits)
qed

lemma tick_loop_alone:
  assumes "tick_loop c now ts s = (s', r)"
  shows "r = Inr u \<Longrightarrow> gets_to c now (s, Passing now ts) (s', LoopTells (EndOfTick u) OwedRead)"
    and "r = Inl x \<Longrightarrow> gets_to c now (s, Passing now ts) (note_error c now x s', FailBeats BeatPeek)"
proof -
  let ?q = "case r of Inr u \<Rightarrow> (s', LoopTells (EndOfTick u) OwedRead) | Inl x \<Rightarrow> (note_error c now x s', FailBeats BeatPeek)"
  have "gets_to c now (s, Passing now ts) ?q" using assms
  proof (induction ts arbitrary: s)
    case Nil
    then show ?case by - (rule gets_on, auto simp: alone_def)
  next
    case (Cons task rest)
    let ?ahead = "case from_iso (t_due_at task) of Some due \<Rightarrow> due > now | None \<Rightarrow> False"
    obtain s1 e where d: "dispatch c task now s = (s1, e)" by fastforce
    show ?case
    proof (cases "?ahead \<or> length (inflight s) \<ge> c_max_concurrent c")
      case True
      then show ?thesis using Cons.prems
        by - (rule gets_on, auto simp: alone_def split: option.splits if_splits)
    next
      case False
      then have a: "alone c now (s, Passing now (task # rest)) = begins c now now rest task s"
        by (simp add: alone_def)
      have l: "tick_loop c now (task # rest) s = (case e of Some x \<Rightarrow> (s1, Inl x) | None \<Rightarrow> tick_loop c now rest s1)"
        using False d by (cases "from_iso (t_due_at task)"; cases e) simp_all
      show ?thesis
      proof (cases e)
        case None
        then have "gets_to c now (s1, Passing now rest) ?q" using Cons.IH Cons.prems l by simp
        then show ?thesis using gets_by [OF a] gets_to_trans begins_alone(1) [OF d None] by blast
      next
        case (Some x)
        then show ?thesis using gets_by [OF a] begins_alone(2) [OF d Some] Cons.prems l by simp
      qed
    qed
  qed
  then show "r = Inr u \<Longrightarrow> gets_to c now (s, Passing now ts) (s', LoopTells (EndOfTick u) OwedRead)"
    and "r = Inl x \<Longrightarrow> gets_to c now (s, Passing now ts) (note_error c now x s', FailBeats BeatPeek)" by simp_all
qed

text \<open>A pass that nothing comes between is \<open>run_pass\<close>, from one sleep to the next.\<close>

lemma run_pass_alone:
  "gets_to c now (s, Asleep pause) (fst (run_pass c now s), Asleep (snd (run_pass c now s)))"
proof -
  let ?s = "s\<lparr>tick_seq := tick_seq s + 1\<rparr>"
  let ?due = "due_tasks ((now + c_tick c) div second) 50 (db ?s)"
  obtain s1 r where l: "tick_loop c now ?due ?s = (s1, r)" by fastforce
  have a: "alone c now (s, Asleep pause) = (?s, DueRead now)"
    "alone c now (?s, DueRead now) = (?s, Passing now ?due)" by (simp_all add: alone_def)
  have "gets_to c now (?s, Passing now ?due) (fst (run_pass c now s), Asleep (snd (run_pass c now s)))"
  proof (cases r)
    case (Inl x)
    then show ?thesis using gets_to_trans [OF tick_loop_alone(2) [OF l Inl] beat_alone(2)] l
      by (simp add: run_pass_def tick_def Let_def)
  next
    case (Inr u)
    have "gets_to c now (s1, LoopTells (EndOfTick u) OwedRead) (deliver_notices c s1, LoopBeats u BeatPeek)"
      using sweep_alone [of c now s1 "EndOfTick u"] by (simp add: told_on_def)
    from gets_to_trans [OF gets_to_trans [OF tick_loop_alone(1) [OF l Inr] this] beat_alone(1)]
    show ?thesis using Inr l by (simp add: run_pass_def tick_def Let_def)
  qed
  then show ?thesis by (intro gets_by [OF a(1)] gets_by [OF a(2)])
qed

text \<open>The start and the end of a run, put together from their steps in the same way.\<close>

lemma recover_alone: "gets_to c now (s, Recovering) (recover c now s, Asleep 0)"
proof -
  let ?d = "fst (reclaim_orphans (sched_id s) (now div second) (db s))"
  have a: "alone c now (s, Recovering) = (s\<lparr>db := ?d\<rparr>, Pruning)"
    "alone c now (s\<lparr>db := ?d\<rparr>, Pruning) = (recover c now s, Asleep 0)"
    by (simp_all add: alone_def recover_def split: prod.split)
  show ?thesis by (rule gets_by [OF a(1)], rule gets_by [OF a(2)], rule gets_to_refl)
qed

lemma end_run_parts:
  "end_run c dd now w e s = (case run_verdict c dd w e of (st, de, ch, ca) \<Rightarrow>
     forget_worker (r_run_id (w_run w)) (deliver_notices c
       (completed c (w_task w) (w_run w) st (w_started w) now de ch ca (w_done w \<noteq> None) s)))"
  by (simp add: end_run_def forget_worker_def finish_completed Let_def split: prod.split)

end
