(* ===== verification/SchedulerProps.thy ===== *)
theory SchedulerProps
  imports SchedulerLoop
begin

text \<open>
  What the scheduling loop guarantees: its invariant over every interleaving of the steps of the
  loop and of the workers with other users of the database; which tasks a tick may touch; what becomes of
  a due occurrence on each branch of the decision; what a finished run leaves behind; the
  bounds of the sleep; and who is told of a run.
\<close>

section \<open>The invariant\<close>

definition engine_start :: "sched_engine \<Rightarrow> bool" where
  "engine_start g \<longleftrightarrow> (\<exists>i now d. store_ok d \<and> g = new_engine i now d)"

interpretation scheduler: invariant_system engine_start "engine_step c" "\<lambda>g. inj (c_token c) \<longrightarrow> engine_ok c g" for c
proof unfold_locales
  show "engine_start g \<Longrightarrow> inj (c_token c) \<longrightarrow> engine_ok c g" for g
    using new_engine_ok by (auto simp: engine_start_def)
  show "inj (c_token c) \<longrightarrow> engine_ok c g \<Longrightarrow> engine_step c g g' \<Longrightarrow> inj (c_token c) \<longrightarrow> engine_ok c g'" for g g'
    using engine_step_keeps by blast
qed

section \<open>What a tick may touch\<close>

lemma deliver_one_tasks [simp]: "tasks (db (deliver_one c r s)) = tasks (db s)"
  by (simp add: deliver_one_def mark_notified_frame split: option.splits)

lemma deliver_notices_tasks [simp]: "tasks (db (deliver_notices c s)) = tasks (db s)"
proof -
  have "tasks (db (fold (deliver_one c) rs s)) = tasks (db s)" for rs
    by (induction rs arbitrary: s) simp_all
  then show ?thesis by (simp add: deliver_notices_def)
qed

lemma heartbeat_tasks [simp]: "tasks (db (sched_heartbeat c now s)) = tasks (db s)"
  by (simp add: sched_heartbeat_def Let_def)

lemma others_kept_tasks: "tasks d' = tasks d1 \<Longrightarrow> others_kept i d d1 \<Longrightarrow> others_kept i d d'"
  by (simp add: others_kept_def)

lemma others_kept_finish:
  "others_kept (t_id task) (db s) (db (finish c task run st started now de ch ca fin s))"
  unfolding finish_def Let_def
  by (rule others_kept_tasks [OF deliver_notices_tasks]) (simp add: complete_run_frame)

lemma others_kept_skip:
  "others_kept (t_id task) (db s) (db (skip c task sc up nd now st co de s))"
  unfolding skip_def Let_def
  using record_skip_frame(2) [OF surjective_pairing] by simp

lemma others_kept_fire:
  "others_kept (t_id task) (db s) (db (fire c task sc up nd now late sk s))"
proof -
  obtain d res where cl: "claim_due (t_id task) (t_due_at task) (to_iso up) (to_iso nd)
      (new_run c s task sc RUN_RUNNING (iso now) None (if late then TRIGGERED_CATCHUP else TRIGGERED_SCHEDULE) (sk + 1) [])
      (sched_id s) (iso (now + c_lease c)) (iso now) (db s) = (d, res)" by fastforce
  then show ?thesis using claim_due_frame(2) [OF cl]
    by (cases res) (simp_all add: fire_def Let_def spawn_def)
qed

lemma others_kept_tick_watch:
  "others_kept (t_id task) (db s) (db (tick_watch c task sc up nd now s))"
proof -
  obtain s0 v where wv: "watch_verdict c task now s = (s0, v)" by fastforce
  then have d0: "db s0 = db s" using watch_verdict_frame by blast
  obtain d res where cl: "claim_due (t_id task) (t_due_at task) None None
      (new_run c s0 task sc RUN_RUNNING (iso now) None TRIGGERED_SCHEDULE 1 [])
      (sched_id s0) (iso (now + c_lease c)) (iso now) (db s0) = (d, res)" by fastforce
  note fr = claim_due_frame(2) [OF cl]
  show ?thesis
  proof (cases v)
    case WatchPending
    then show ?thesis using wv d0 by (simp add: tick_watch_def reschedule_frame)
  next
    case (WatchDone f)
    then show ?thesis using wv d0 cl fr
      by (cases res) (simp_all add: tick_watch_def Let_def spawn_def)
  next
    case (WatchGone why)
    show ?thesis
    proof (cases res)
      case None
      then show ?thesis using WatchGone wv d0 cl by (simp add: tick_watch_def Let_def)
    next
      case (Some run)
      let ?s1 = "s0\<lparr>db := d, tokens := Suc (tokens s0)\<rparr>"
      have "others_kept (t_id task) (db s0) (db (finish c task run RUN_GONE now now (take 200 why) 0 0 True ?s1))"
        by (rule others_kept_trans [OF fr]) (use others_kept_finish [of task ?s1] in simp)
      then show ?thesis using WatchGone wv d0 cl Some by (simp add: tick_watch_def Let_def)
    qed
  qed
qed

lemma others_kept_dispatch:
  assumes "dispatch c task now s = (s', e)"
  shows "others_kept (t_id task) (db s) (db s')"
  using assms
  by (cases rule: dispatch_cases) (simp_all add: others_kept_skip others_kept_fire others_kept_tick_watch)

lemma tick_loop_keeps:
  assumes "tick_loop c now ts s = (s', r)" and "t \<in> set (tasks (db s))"
    and "\<And>u. u \<in> set ts \<Longrightarrow> (\<And>due. from_iso (t_due_at u) = Some due \<Longrightarrow> due \<le> now) \<Longrightarrow> t_id u \<noteq> t_id t"
  shows "t \<in> set (tasks (db s'))"
  using assms
proof (induction ts arbitrary: s)
  case Nil
  then show ?case by simp
next
  case (Cons u ts)
  from Cons.prems(1) show ?case
  proof (cases rule: tick_loop_Cons_cases)
    case stops
    then show ?thesis using Cons.prems by simp
  next
    case (raises e)
    then have "t_id u \<noteq> t_id t" using Cons.prems(3) [of u] by simp
    then show ?thesis using others_kept_dispatch [OF raises(1)] Cons.prems(2)
      by (simp add: others_kept_def)
  next
    case (goes_on s1)
    then have "t_id u \<noteq> t_id t" using Cons.prems(3) [of u] by simp
    then have "t \<in> set (tasks (db s1))" using others_kept_dispatch [OF goes_on(1)] Cons.prems(2)
      by (simp add: others_kept_def)
    then show ?thesis using Cons.IH [OF goes_on(2)] Cons.prems(3) by simp
  qed
qed

lemma due_tasks_mem: "u \<in> set (due_tasks x n d) \<Longrightarrow> u \<in> set (tasks d) \<and> is_due x u"
  by (auto simp: due_tasks_def dest!: in_set_takeD)

lemma is_due_now:
  assumes "is_due x u" and "\<And>due. from_iso (t_due_at u) = Some due \<Longrightarrow> due \<le> now"
  shows "is_due (now div second) u"
proof (cases "t_due_at u")
  case (Some d)
  then have "seconds d \<le> now" using assms(2) [of "seconds d"] by (simp add: from_iso_def)
  then have "d \<le> now div second" by (simp add: seconds_def second_def)
  then show ?thesis using assms(1) Some by (simp add: is_due_def)
qed (use assms(1) in \<open>simp add: is_due_def\<close>)

text \<open>A tick acts on what is due and on nothing else: a task that is paused or finished, or
  whose moment is still ahead of the clock when the tick begins, is left as it was, although the
  read of a tick reaches one tick into the future.\<close>

lemma tick_touches_only_due:
  assumes ok: "db_ok (db s)" and t: "t \<in> set (tasks (db s))" and nd: "\<not> is_due (now div second) t"
    and tick: "tick c now s = (s', r)"
  shows "t \<in> set (tasks (db s'))"
proof -
  let ?s = "s\<lparr>tick_seq := tick_seq s + 1\<rparr>" and ?due = "due_tasks ((now + c_tick c) div second) 50 (db s)"
  obtain s1 r1 where l: "tick_loop c now ?due ?s = (s1, r1)" by fastforce
  have other: "t_id u \<noteq> t_id t"
    if u: "u \<in> set ?due" and due: "\<And>due. from_iso (t_due_at u) = Some due \<Longrightarrow> due \<le> now" for u
  proof
    assume same: "t_id u = t_id t"
    have "u \<in> set (tasks (db s))" and "is_due (now div second) u"
      using due_tasks_mem [OF u] is_due_now [OF _ due] by blast+
    moreover from this same t have "u = t" using db_okD(1) [OF ok] by (auto simp: distinct_map dest: inj_onD)
    ultimately show False using nd by simp
  qed
  have "t \<in> set (tasks (db s1))" by (rule tick_loop_keeps [OF l]) (use t other in auto)
  then show ?thesis using tick l by (cases r1) (auto simp: tick_def Let_def)
qed

section \<open>The decision about a due occurrence\<close>

text \<open>A claim of an idle task at the \<open>due_at\<close> it has, with a row that is new, wins; a skip too.\<close>

lemma one_row:
  assumes "db_ok d" and "t \<in> set (tasks d)" and "P t"
  shows "rowcount (\<lambda>u. t_id u = t_id t \<and> P u) (tasks d) = 1"
  using rowcount_unique_eq [OF db_okD(1) [OF assms(1)], of "\<lambda>u. t_id u = t_id t \<and> P u" "t_id t"] assms(2,3)
  by auto

lemma claim_due_wins:
  assumes "db_ok d" and "t \<in> set (tasks d)" and "t_state t = STATE_IDLE" and "t_due_at t \<noteq> None"
    and "\<not> run_conflict run d"
    and "claim_due (t_id t) (t_due_at t) nr due run own lease now d = (d', res)"
  shows "res = Some run" and "run \<in> set (task_runs d')"
    and "t\<lparr>t_state := STATE_RUNNING, t_claim_owner := own, t_claim_at := now, t_lease_until := lease,
           t_next_run_at := nr, t_due_at := due, t_last_run_at := now, t_run_count := t_run_count t + 1,
           t_updated_at := now\<rparr> \<in> set (tasks d')"
proof -
  have "rowcount (\<lambda>u. t_id u = t_id t \<and> t_state u = STATE_IDLE \<and> t_due_at u \<noteq> None \<and> t_due_at u = t_due_at t)
      (tasks d) = 1"
    by (rule one_row) (use assms in auto)
  then have "(d', res) = (d\<lparr>tasks := upd_where (\<lambda>u. t_id u = t_id t \<and> t_state u = STATE_IDLE
          \<and> t_due_at u \<noteq> None \<and> t_due_at u = t_due_at t) (\<lambda>u. u\<lparr>t_state := STATE_RUNNING,
          t_claim_owner := own, t_claim_at := now, t_lease_until := lease, t_next_run_at := nr,
          t_due_at := due, t_last_run_at := now, t_run_count := t_run_count u + 1,
          t_updated_at := now\<rparr>) (tasks d), task_runs := task_runs d @ [run]\<rparr>, Some run)"
    using assms(5,6) by (simp add: claim_due_def Let_def)
  then show "res = Some run" "run \<in> set (task_runs d')"
    "t\<lparr>t_state := STATE_RUNNING, t_claim_owner := own, t_claim_at := now, t_lease_until := lease,
       t_next_run_at := nr, t_due_at := due, t_last_run_at := now, t_run_count := t_run_count t + 1,
       t_updated_at := now\<rparr> \<in> set (tasks d')"
    using assms(2-4) upd_where_hit [OF assms(2), of "\<lambda>u. t_id u = t_id t \<and> t_state u = STATE_IDLE
          \<and> t_due_at u \<noteq> None \<and> t_due_at u = t_due_at t"] by simp_all
qed

lemma record_skip_wins:
  assumes "db_ok d" and "t \<in> set (tasks d)" and "t_due_at t \<noteq> None" and "\<not> run_conflict run d"
    and "record_skip (t_id t) (t_due_at t) run nr due now d = (d', res)"
  shows "run \<in> set (task_runs d')"
    and "t\<lparr>t_next_run_at := nr, t_due_at := due, t_miss_count := t_miss_count t + 1,
           t_last_status := Some (r_status run), t_updated_at := now\<rparr> \<in> set (tasks d')"
proof -
  have "rowcount (\<lambda>u. t_id u = t_id t \<and> t_due_at u \<noteq> None \<and> t_due_at u = t_due_at t) (tasks d) = 1"
    by (rule one_row) (use assms in auto)
  then have "(d', res) = (d\<lparr>tasks := upd_where (\<lambda>u. t_id u = t_id t \<and> t_due_at u \<noteq> None \<and> t_due_at u = t_due_at t)
          (\<lambda>u. u\<lparr>t_next_run_at := nr, t_due_at := due, t_miss_count := t_miss_count u + 1,
             t_last_status := Some (r_status run), t_updated_at := now\<rparr>) (tasks d),
          task_runs := task_runs d @ [run]\<rparr>, True)"
    using assms(4,5) by (simp add: record_skip_def Let_def)
  then show "run \<in> set (task_runs d')"
    "t\<lparr>t_next_run_at := nr, t_due_at := due, t_miss_count := t_miss_count t + 1,
       t_last_status := Some (r_status run), t_updated_at := now\<rparr> \<in> set (tasks d')"
    using assms(3) upd_where_hit [OF assms(2), of "\<lambda>u. t_id u = t_id t \<and> t_due_at u \<noteq> None
          \<and> t_due_at u = t_due_at t"] by simp_all
qed

lemma new_run_sel [simp]:
  "r_run_id (new_run c s t sc st sa fa tg co de) = run_name c (tokens s)"
  "r_task_id (new_run c s t sc st sa fa tg co de) = t_id t"
  "r_scheduled_at (new_run c s t sc st sa fa tg co de) = iso sc"
  "r_status (new_run c s t sc st sa fa tg co de) = st"
  "r_coalesced (new_run c s t sc st sa fa tg co de) = max 1 co"
  by (simp_all add: new_run_def run_name_def)

text \<open>The occurrence is new to the ledger, and the name of its run too.\<close>

definition occurrence_free :: "sched_config \<Rightarrow> task_record \<Rightarrow> datetime \<Rightarrow> sched \<Rightarrow> bool" where
  "occurrence_free c t sc s \<longleftrightarrow> (\<forall>r \<in> set (task_runs (db s)). r_run_id r \<noteq> run_name c (tokens s)
     \<and> \<not> (r_task_id r = t_id t \<and> r_scheduled_at r = iso sc))"

lemma occurrence_free_no_conflict:
  "occurrence_free c t sc s \<Longrightarrow> \<not> run_conflict (new_run c s t sc st sa fa tg co de) (db s)"
  by (auto simp: occurrence_free_def run_conflict_def)

text \<open>C5. A due occurrence runs.  For a task that is idle and not a watch, whose moment has come
  no more than one tick plus a second ago and within its grace window (both the next occurrence
  and the window being computable), and whose occurrence and the name drawn for its run are not in
  the ledger yet: when the loop comes to it with room for a worker and nothing else touches the
  task meanwhile, the dispatch raises nothing, starts one worker with one new run of it, and the
  task is running under this scheduler's lease with its schedule already advanced to the next
  occurrence (jitter included).\<close>

theorem due_task_starts:
  assumes ok: "db_ok (db s)" and t: "t \<in> set (tasks (db s))" "t_state t = STATE_IDLE" "t_due_at t \<noteq> None"
    and turn: "t_mode t \<noteq> MODE_WATCH" and sc: "scheduled_instant t = Some sc"
    and adv: "advance_past (c_env c) (trigger_of now t) sc now = Inr (up, sk)"
    and grace: "grace_window (c_env c) (trigger_of now t) now = Inr g"
    and punctual: "now - sc \<le> fresh_slack c" "now - sc \<le> g"
    and free: "occurrence_free c t sc s"
  shows "\<exists>s' run. dispatch c t now s = (s', None)
    \<and> inflight s' = inflight s @ [\<lparr>w_task = t, w_run = run, w_done = None, w_started = now\<rparr>]
    \<and> run \<in> set (task_runs (db s')) \<and> r_task_id run = t_id t \<and> r_scheduled_at run = iso sc
    \<and> r_status run = RUN_RUNNING \<and> r_coalesced run = max 1 (sk + 1)
    \<and> (\<exists>t' \<in> set (tasks (db s')). t_id t' = t_id t \<and> t_state t' = STATE_RUNNING
          \<and> t_claim_owner t' = sched_id s \<and> t_lease_until t' = iso (now + c_lease c)
          \<and> t_next_run_at t' = to_iso up \<and> t_due_at t' = to_iso (with_jitter up (t_jitter_s t)))"
proof -
  let ?nd = "with_jitter up (t_jitter_s t)"
  define run where "run = new_run c s t sc RUN_RUNNING (iso now) None TRIGGERED_SCHEDULE (sk + 1) []"
  obtain d res where cl: "claim_due (t_id t) (t_due_at t) (to_iso up) (to_iso ?nd) run (sched_id s)
      (iso (now + c_lease c)) (iso now) (db s) = (d, res)" by fastforce
  note won = claim_due_wins [OF ok t occurrence_free_no_conflict [OF free, of RUN_RUNNING "iso now" None
        TRIGGERED_SCHEDULE "sk + 1" "[]", folded run_def] cl]
  let ?s = "spawn t run None now (s\<lparr>db := d, tokens := Suc (tokens s)\<rparr>)"
  have "\<not> now - sc > fresh_slack c" "\<not> now - sc > g" "t_state t \<noteq> STATE_RUNNING" using punctual t by simp_all
  then have "dispatch c t now s = (fire c t sc up ?nd now False sk s, None)"
    using sc adv grace turn by (simp add: dispatch_def Let_def)
  moreover have "fire c t sc up ?nd now False sk s = ?s"
    using cl won(1) by (simp add: fire_def Let_def run_def)
  ultimately have "dispatch c t now s = (?s, None)" by simp
  moreover have "run \<in> set (task_runs (db ?s))" using won(2) by (simp add: spawn_def)
  moreover have "\<exists>t' \<in> set (tasks (db ?s)). t_id t' = t_id t \<and> t_state t' = STATE_RUNNING
          \<and> t_claim_owner t' = sched_id s \<and> t_lease_until t' = iso (now + c_lease c)
          \<and> t_next_run_at t' = to_iso up \<and> t_due_at t' = to_iso ?nd"
    by (rule bexI) (use won(3) in \<open>simp_all add: spawn_def\<close>)
  ultimately show ?thesis
    by (intro exI [of _ ?s] exI [of _ run]) (simp add: spawn_def run_def)
qed

text \<open>A task never runs twice at once: when a running task falls due again, no worker is
  started, and the only row the ledger may gain says the occurrence was skipped for overlapping.\<close>

lemma overlap_never_stacks:
  assumes "t_state t = STATE_RUNNING" and "dispatch c t now s = (s', e)"
  shows "inflight s' = inflight s
    \<and> (\<forall>r \<in> set (task_runs (db s')). r \<in> set (task_runs (db s)) \<or> r_status r = RUN_OVERLAP \<and> r_task_id r = t_id t)"
proof (cases "s' = s")
  case False
  then obtain sc up sk de where s': "s' = skip c t sc up (with_jitter up (t_jitter_s t)) now RUN_OVERLAP sk de s"
    using assms by (auto simp: dispatch_def Let_def split: option.splits sum.splits prod.splits)
  obtain d b where r: "record_skip (t_id t) (t_due_at t) (new_run c s t sc RUN_OVERLAP None (iso now) TRIGGERED_SCHEDULE sk de)
      (to_iso up) (to_iso (with_jitter up (t_jitter_s t))) (iso now) (db s) = (d, b)" by fastforce
  have "\<forall>r \<in> set (task_runs d). r \<in> set (task_runs (db s)) \<or> r_status r = RUN_OVERLAP \<and> r_task_id r = t_id t"
    using r by (cases rule: record_skip_cases) auto
  then show ?thesis using r by (simp add: s' skip_def Let_def)
qed simp

text \<open>A missed occurrence is recorded, not run: once the startup grace is over, an idle task
  whose occurrence is late and set to skip, or later than its grace window, gets one row \<open>missed\<close>
  that counts the occurrences passed over, its schedule moves on, and no worker starts.\<close>

lemma missed_occurrence_recorded:
  assumes ok: "db_ok (db s)" and t: "t \<in> set (tasks (db s))" "t_state t = STATE_IDLE" "t_due_at t \<noteq> None"
    and turn: "t_mode t \<noteq> MODE_WATCH" and sc: "scheduled_instant t = Some sc"
    and adv: "advance_past (c_env c) (trigger_of now t) sc now = Inr (up, sk)"
    and grace: "grace_window (c_env c) (trigger_of now t) now = Inr g"
    and settled: "\<not> within_startup_grace c now s"
    and late: "now - sc > fresh_slack c \<and> t_on_missed t = ON_MISSED_SKIP \<or> now - sc > g"
    and free: "occurrence_free c t sc s"
  shows "\<exists>s'. dispatch c t now s = (s', None) \<and> inflight s' = inflight s
    \<and> (\<exists>r \<in> set (task_runs (db s')). r_task_id r = t_id t \<and> r_scheduled_at r = iso sc
          \<and> r_status r = RUN_MISSED \<and> r_coalesced r = max 1 (sk + 1))
    \<and> (\<exists>t' \<in> set (tasks (db s')). t_id t' = t_id t \<and> t_state t' = STATE_IDLE \<and> t_next_run_at t' = to_iso up
          \<and> t_due_at t' = to_iso (with_jitter up (t_jitter_s t)) \<and> t_miss_count t' = t_miss_count t + 1)"
proof -
  let ?nd = "with_jitter up (t_jitter_s t)"
  define de where "de = (if t_on_missed t = ON_MISSED_SKIP then ''on_missed=skip''
      else ''late by '' @ short (now - sc) @ '' (window '' @ short g @ '')'')"
  define run where "run = new_run c s t sc RUN_MISSED None (iso now) TRIGGERED_SCHEDULE (sk + 1) de"
  obtain d b where r: "record_skip (t_id t) (t_due_at t) run (to_iso up) (to_iso ?nd) (iso now) (db s) = (d, b)"
    by fastforce
  note won = record_skip_wins [OF ok t(1,3) occurrence_free_no_conflict [OF free, of RUN_MISSED None "iso now"
        TRIGGERED_SCHEDULE "sk + 1" de, folded run_def] r]
  have d: "dispatch c t now s = (skip c t sc up ?nd now RUN_MISSED (sk + 1) de s, None)"
    unfolding de_def using late settled sc adv grace turn t by (simp add: dispatch_def Let_def)
  have s: "skip c t sc up ?nd now RUN_MISSED (sk + 1) de s = s\<lparr>db := d, tokens := Suc (tokens s)\<rparr>"
    using r by (simp add: skip_def Let_def run_def)
  let ?s = "s\<lparr>db := d, tokens := Suc (tokens s)\<rparr>"
  have "\<exists>r \<in> set (task_runs (db ?s)). r_task_id r = t_id t \<and> r_scheduled_at r = iso sc
      \<and> r_status r = RUN_MISSED \<and> r_coalesced r = max 1 (sk + 1)"
    by (rule bexI [of _ run]) (use won(1) in \<open>simp_all add: run_def\<close>)
  moreover have "\<exists>t' \<in> set (tasks (db ?s)). t_id t' = t_id t \<and> t_state t' = STATE_IDLE \<and> t_next_run_at t' = to_iso up
      \<and> t_due_at t' = to_iso ?nd \<and> t_miss_count t' = t_miss_count t + 1"
    by (rule bexI) (use won(2) t(2) in simp_all)
  ultimately show ?thesis unfolding d s by (intro exI [of _ ?s]) simp
qed

text \<open>A check that finds nothing leaves no trace but the next check: when the hook answers
  that nothing has happened yet, does not answer or raises, no run is recorded, no worker starts,
  and the watch's schedule moves to its next period.\<close>

lemma pending_watch_only_moves:
  assumes v: "watch_verdict c t now s = (s1, WatchPending)" and d: "dispatch c t now s = (s', None)"
    and w: "t_mode t = MODE_WATCH" "t_state t = STATE_IDLE" and sc: "scheduled_instant t = Some sc"
    and adv: "advance_past (c_env c) (trigger_of now t) sc now = Inr (up, sk)"
    and settled: "now - sc \<le> fresh_slack c \<or> \<not> within_startup_grace c now s"
  shows "inflight s' = inflight s \<and> task_runs (db s') = task_runs (db s)
    \<and> db s' = reschedule (t_id t) (to_iso up) (to_iso (with_jitter up (t_jitter_s t))) (iso now) (db s)"
proof -
  have "s' = tick_watch c t sc up (with_jitter up (t_jitter_s t)) now s"
    using assms by (auto simp: dispatch_def Let_def)
  then show ?thesis using v watch_verdict_frame [OF v] by (simp add: tick_watch_def quiet_def reschedule_frame)
qed

text \<open>A spent occurrence sticks: when the ledger already has a row for the moment a task is
  scheduled at (two runs asked for within one second have the same), dispatching it changes
  nothing in the database, so \<open>due_at\<close> stays where it is and every later tick meets it again.\<close>

lemma spent_occurrence_stuck:
  assumes r: "r \<in> set (task_runs (db s))" "r_task_id r = t_id t" "r_scheduled_at r = t_next_run_at t"
    and "t_mode t \<noteq> MODE_WATCH" and d: "dispatch c t now s = (s', e)"
  shows "db s' = db s \<and> inflight s' = inflight s"
proof (cases "scheduled_instant t")
  case None
  then show ?thesis using d by (simp add: dispatch_def)
next
  case (Some sc)
  then have "iso sc = t_next_run_at t" by (auto simp: scheduled_instant_def from_iso_def iso_def to_iso_def split: option.splits)
  then have con: "run_conflict (new_run c s t sc st sa fa tg co de) (db s)" for st sa fa tg co de
    using r by (auto simp: run_conflict_def)
  have sk: "db (skip c t sc up nd now st co de s) = db s \<and> inflight (skip c t sc up nd now st co de s) = inflight s"
    for up nd st co de using con by (simp add: skip_def Let_def record_skip_def)
  have fi: "db (fire c t sc up nd now late k s) = db s \<and> inflight (fire c t sc up nd now late k s) = inflight s"
    for up nd late k using con by (simp add: fire_def Let_def claim_due_def)
  show ?thesis using d Some assms(4) sk fi
    by (auto simp: dispatch_def Let_def split: sum.splits prod.splits if_splits)
qed

section \<open>What a finished run leaves\<close>

definition run_failed :: "run_status \<Rightarrow> bool" where
  "run_failed st \<longleftrightarrow> st \<notin> set SUCCEEDED \<and> st \<notin> set ENDED"

definition release_after :: "sched_config \<Rightarrow> task_record \<Rightarrow> run_status \<Rightarrow> bool \<Rightarrow> task_state" where
  "release_after c t st final =
     (if run_failed st \<and> t_consecutive_failures t + 1 \<ge> c_max_failures c then STATE_PAUSED
      else if final then STATE_DONE else released_state t)"

lemma finish_task:
  assumes ok: "db_ok (db s)" and r: "r \<in> set (task_runs (db s))" "r_run_id r = r_run_id run" "r_status r = RUN_RUNNING"
    and t: "t \<in> set (tasks (db s))" "t_id t = t_id task"
  shows "\<exists>t' \<in> set (tasks (db (finish c task run st started now de ch ca final s))).
    t_id t' = t_id t \<and> t_state t' = release_after c task st final \<and> t_claim_owner t' = []
    \<and> t_last_status t' = Some st \<and> t_next_run_at t' = t_next_run_at t
    \<and> t_consecutive_failures t' = (if run_failed st then t_consecutive_failures t + 1 else 0)"
proof -
  let ?d = "complete_run (r_run_id run) (t_id task) st (iso now) ((now - started) div 1000) de (int ch) (int ca)
    (run_failed st) (release_after c task st final) (db s)"
  define f where "f = (\<lambda>u :: task_record. u\<lparr>t_state := release_after c task st final, t_claim_owner := [],
    t_lease_until := None, t_last_status := Some st,
    t_consecutive_failures := (if run_failed st then t_consecutive_failures u + 1 else 0),
    t_updated_at := iso now\<rparr>)"
  have "tasks ?d = upd_where (\<lambda>u. t_id u = t_id task) f (tasks (db s))"
  proof -
    have "rowcount (\<lambda>u. r_run_id u = r_run_id run \<and> r_status u = RUN_RUNNING) (task_runs (db s)) = 1"
      using rowcount_unique_eq [OF db_okD(2) [OF ok], of "\<lambda>u. r_run_id u = r_run_id run \<and> r_status u = RUN_RUNNING"
          "r_run_id run"] r by blast
    then show ?thesis by (simp add: complete_run_def Let_def f_def)
  qed
  then have "f t \<in> set (tasks ?d)" using upd_where_hit [OF t(1), of "\<lambda>u. t_id u = t_id task" f] t(2) by simp
  moreover have "tasks (db (finish c task run st started now de ch ca final s)) = tasks ?d"
    by (simp add: finish_def Let_def run_failed_def release_after_def)
  ultimately show ?thesis by (intro bexI [of _ "f t"]) (simp_all add: f_def)
qed

text \<open>A task that keeps failing is paused: when a run in flight ends, its task is released with
  the outcome, the count of failures in a row goes up on a failure and back to zero on anything
  else, and the task is paused if and only if this failure makes the limit.\<close>

lemma failures_pause_the_task:
  assumes "db_ok (db s)" and "r \<in> set (task_runs (db s))" "r_run_id r = r_run_id run" "r_status r = RUN_RUNNING"
    and "t \<in> set (tasks (db s))"
  shows "\<exists>t' \<in> set (tasks (db (finish c t run st started now de ch ca final s))).
    t_id t' = t_id t \<and> t_claim_owner t' = [] \<and> t_last_status t' = Some st
    \<and> t_consecutive_failures t' = (if run_failed st then t_consecutive_failures t + 1 else 0)
    \<and> (t_state t' = STATE_PAUSED \<longleftrightarrow> run_failed st \<and> c_max_failures c \<le> t_consecutive_failures t + 1)"
proof -
  obtain t' where t': "t' \<in> set (tasks (db (finish c t run st started now de ch ca final s)))"
      "t_id t' = t_id t \<and> t_state t' = release_after c t st final \<and> t_claim_owner t' = []
        \<and> t_last_status t' = Some st \<and> t_next_run_at t' = t_next_run_at t
        \<and> t_consecutive_failures t' = (if run_failed st then t_consecutive_failures t + 1 else 0)"
    using finish_task [OF assms(1-4) assms(5) refl] by blast
  have "release_after c t st final = STATE_PAUSED \<longleftrightarrow> run_failed st \<and> c_max_failures c \<le> t_consecutive_failures t + 1"
    by (simp add: release_after_def released_state_def)
  then show ?thesis using t' by (intro bexI [of _ t']) simp_all
qed

text \<open>A one-shot is never done: the record a run ends with was read before its claim, when the
  next run was still set, so a task whose schedule has ended (no next run in the database) goes
  back to idle after a successful run, and only a watch that found its answer ends as done.\<close>

lemma one_shot_returns_to_idle:
  assumes "db_ok (db s)" and w: "w \<in> set (inflight s)" "w_done w = None"
    and "scheduled_instant (w_task w) = Some sc"
    and r: "r \<in> set (task_runs (db s))" "r_run_id r = r_run_id (w_run w)" "r_status r = RUN_RUNNING"
    and t: "t \<in> set (tasks (db s))" "t_id t = t_id (w_task w)" "t_next_run_at t = None"
    and ends: "run_verdict c dd w e = (RUN_OK, de, ch, ca)"
  shows "\<exists>t' \<in> set (tasks (db (end_run c dd now w e s))). t_id t' = t_id t \<and> t_next_run_at t' = None
    \<and> t_state t' = STATE_IDLE"
proof -
  have "t_next_run_at (w_task w) \<noteq> None" using assms(4)
    by (auto simp: scheduled_instant_def from_iso_def split: option.splits)
  then have "release_after c (w_task w) RUN_OK False = STATE_IDLE"
    by (simp add: release_after_def run_failed_def SUCCEEDED_def released_state_def)
  moreover have "tasks (db (end_run c dd now w e s)) = tasks (db (finish c (w_task w) (w_run w) RUN_OK (w_started w) now de ch ca False s))"
    using ends w(2) by (simp add: end_run_def Let_def)
  ultimately show ?thesis
    using finish_task [OF assms(1) r t(1,2), of c RUN_OK "w_started w" now de ch ca False] t(3) by (auto intro: bexI)
qed

section \<open>The sleep\<close>

text \<open>The loop sleeps to a time, not on a grid: never longer than a tick (what the liveness
  verdict is sized in), never shorter than half a second (or a tick), and when an occurrence lies
  between the two it wakes at that very moment.\<close>

lemma sleep_for_bounds:
  "min (c_tick c) MIN_SLEEP \<le> sleep_for c now upcoming \<and> sleep_for c now upcoming \<le> c_tick c
   \<and> (\<forall>u. upcoming = Some u \<and> now + MIN_SLEEP \<le> u \<and> u \<le> now + c_tick c \<longrightarrow> now + sleep_for c now upcoming = u)"
  by (auto simp: sleep_for_def split: option.splits)

section \<open>Notices\<close>

text \<open>A run needs no more telling: there is nothing to say of it, or saying it works.\<close>

definition told :: "sched_config \<Rightarrow> task_db \<Rightarrow> task_run \<Rightarrow> bool" where
  "told c d r \<longleftrightarrow> notice_for (get_task (r_task_id r) d) r (c_max_failures c) = None \<or> c_announce c r"

definition announcements :: "sched_config \<Rightarrow> task_db \<Rightarrow> task_run list \<Rightarrow> (string \<times> notice) list" where
  "announcements c d rs = concat (map (\<lambda>r. case notice_for (get_task (r_task_id r) d) r (c_max_failures c) of
     None \<Rightarrow> [] | Some n \<Rightarrow> (if c_announce c r then [(r_run_id r, n)] else [])) rs)"

lemma told_frame: "tasks d' = tasks d \<Longrightarrow> told c d' r = told c d r"
  by (simp add: told_def get_task_def)

lemma announcements_frame: "tasks d' = tasks d \<Longrightarrow> announcements c d' rs = announcements c d rs"
  by (simp add: announcements_def get_task_def)

definition mark_all :: "string set \<Rightarrow> task_run list \<Rightarrow> task_run list" where
  "mark_all ids rows = map (\<lambda>r. if r_run_id r \<in> ids then r\<lparr>r_notified := 1\<rparr> else r) rows"

lemma mark_all_empty [simp]: "mark_all {} rows = rows"
  by (simp add: mark_all_def)

lemma mark_all_Un: "mark_all ids (mark_all ids' rows) = mark_all (ids' \<union> ids) rows"
  by (simp add: mark_all_def)

lemma mark_notified_all: "task_runs (mark_notified i d) = mark_all {i} (task_runs d)"
  by (simp add: mark_all_def mark_notified_def upd_where_def)

lemma deliver_one_effect:
  "task_runs (db (deliver_one c x s)) = mark_all (if told c (db s) x then {r_run_id x} else {}) (task_runs (db s))"
  "said (deliver_one c x s) = said s @ announcements c (db s) [x]"
  by (simp_all add: deliver_one_def told_def announcements_def mark_notified_all split: option.splits)

lemma deliver_fold:
  "task_runs (db (fold (deliver_one c) xs s)) = mark_all (r_run_id ` set (filter (told c (db s)) xs)) (task_runs (db s))
   \<and> said (fold (deliver_one c) xs s) = said s @ announcements c (db s) xs"
proof (induction xs arbitrary: s)
  case Nil
  then show ?case by (simp add: announcements_def)
next
  case (Cons x xs)
  let ?s = "deliver_one c x s"
  have t: "told c (db ?s) = told c (db s)" by (rule ext, rule told_frame) simp
  have a: "announcements c (db ?s) xs = announcements c (db s) xs" by (rule announcements_frame) simp
  have "announcements c (db s) (x # xs) = announcements c (db s) [x] @ announcements c (db s) xs"
    by (simp add: announcements_def)
  then have "said (fold (deliver_one c) (x # xs) s) = said s @ announcements c (db s) (x # xs)"
    using Cons.IH [of ?s] a deliver_one_effect(2) [of c x s] by simp
  moreover have "(if told c (db s) x then {r_run_id x} else {}) \<union> r_run_id ` set (filter (told c (db s)) xs)
      = r_run_id ` set (filter (told c (db s)) (x # xs))" by simp
  then have "task_runs (db (fold (deliver_one c) (x # xs) s))
      = mark_all (r_run_id ` set (filter (told c (db s)) (x # xs))) (task_runs (db s))"
    using Cons.IH [of ?s] deliver_one_effect(1) [of c x s] unfolding t by (simp only: mark_all_Un fold_Cons o_apply)
  ultimately show ?case by blast
qed

lemma unnotified_mem: "r \<in> set (unnotified_runs n d) \<Longrightarrow> r \<in> set (task_runs d)"
  by (auto simp: unnotified_runs_def dest!: in_set_takeD)

text \<open>Telling is exact: one sweep marks, among the twenty oldest finished runs nobody was told
  about, exactly those with nothing to say or whose notice was posted, posts each notice once and
  in order, and leaves every other row of the ledger as it was; so a notice that could not be
  posted is owed still.\<close>

lemma deliver_notices_exact:
  assumes "db_ok (db s)"
  shows "task_runs (db (deliver_notices c s)) = map (\<lambda>r. if r \<in> set (unnotified_runs 20 (db s)) \<and> told c (db s) r
      then r\<lparr>r_notified := 1\<rparr> else r) (task_runs (db s))
   \<and> said (deliver_notices c s) = said s @ announcements c (db s) (unnotified_runs 20 (db s))"
proof -
  let ?due = "unnotified_runs 20 (db s)"
  have "r_run_id r \<in> r_run_id ` set (filter (told c (db s)) ?due) \<longleftrightarrow> r \<in> set ?due \<and> told c (db s) r"
    if r: "r \<in> set (task_runs (db s))" for r
  proof
    assume "r_run_id r \<in> r_run_id ` set (filter (told c (db s)) ?due)"
    then obtain x where x: "x \<in> set ?due" "told c (db s) x" "r_run_id x = r_run_id r" by auto
    then have "x = r" using r unnotified_mem db_okD(2) [OF assms] by (auto simp: distinct_map dest: inj_onD)
    then show "r \<in> set ?due \<and> told c (db s) r" using x by simp
  qed auto
  then have "mark_all (r_run_id ` set (filter (told c (db s)) ?due)) (task_runs (db s))
      = map (\<lambda>r. if r \<in> set ?due \<and> told c (db s) r then r\<lparr>r_notified := 1\<rparr> else r) (task_runs (db s))"
    unfolding mark_all_def by (intro map_cong) simp_all
  then show ?thesis using deliver_fold [of c ?due s] by (simp add: deliver_notices_def)
qed

text \<open>Twenty undeliverable notices silence the rest: when none of the twenty oldest owed notices
  can be posted, a sweep does nothing at all, so a later failure that could be told is not,
  for as long as those twenty stay undeliverable.\<close>

lemma undeliverable_notices_block:
  assumes "\<And>r. r \<in> set (unnotified_runs 20 (db s)) \<Longrightarrow> \<not> told c (db s) r"
  shows "deliver_notices c s = s"
proof -
  have "fold (deliver_one c) rs s = s" if "\<And>r. r \<in> set rs \<Longrightarrow> \<not> told c (db s) r" for rs
    using that
  proof (induction rs)
    case (Cons x rs)
    then have "\<not> told c (db s) x" by simp
    then have "deliver_one c x s = s" by (auto simp: deliver_one_def told_def split: option.splits)
    then show ?case using Cons by simp
  qed simp
  then show ?thesis using assms by (simp add: deliver_notices_def)
qed

section \<open>Every interleaving\<close>

text \<open>C4. Whatever the interleaving of the steps of the loop and of the workers (one step per await:
  a read or a write of the store, a question to a watch hook, an announcement, each answered in
  any way or raising), of cancellations, dying workers and other users of the database, provided
  the scheduler never draws the name of a run twice and the others do not write rows under its
  names: the ledger and the lease of every task hold, no task has two rows running, no more
  workers are in flight than the engine allows, and the rows under a worker's run are its own
  task's.\<close>

theorem scheduler_invariant:
  assumes "reachable engine_start (engine_step c) g" and "inj (c_token c)"
  shows "db_ok (db (core g)) \<and> lease_ok (db (core g)) \<and> length (inflight (core g)) \<le> c_max_concurrent c
    \<and> (\<forall>i \<in> t_id ` set (tasks (db (core g))). length (running_of (db (core g)) i) \<le> 1)
    \<and> (\<forall>w \<in> set (inflight (core g)). \<forall>r \<in> set (task_runs (db (core g))). r_run_id r = r_run_id (w_run w)
        \<longrightarrow> r_task_id r = t_id (w_task w))"
proof -
  have ok: "sched_ok c (core g)" using scheduler.reachable_inv [OF assms(1)] assms(2) by (simp add: engine_ok_def)
  then have "lease_ok (db (core g))" by (simp add: sched_ok_def store_ok_def)
  then have "\<forall>t \<in> set (tasks (db (core g))). length (running_of (db (core g)) (t_id t)) \<le> 1"
    by (simp add: lease_ok_def)
  then show ?thesis using ok by (auto simp: sched_ok_def store_ok_def worker_ok_def)
qed

section \<open>A pass ends\<close>



text \<open>Each task left takes at most 67 steps: a question, a claim in two, an end and its sweep.\<close>

definition pass_rank :: "task_record list \<Rightarrow> nat" where
  "pass_rank ts = 69 + 67 * length ts"



lemma pass_rank_simps [simp]: "pass_rank (t # ts) = 67 + pass_rank ts" "pass_rank [] = 69"
  by (simp_all add: pass_rank_def)

















section \<open>A scheduler to evaluate with\<close>

definition sample_cfg :: sched_config where
  "sample_cfg = \<lparr>c_env = jump_env, c_token = (\<lambda>n. replicate n CHR ''x''), c_watches = None,
     c_announce = (\<lambda>r. r_run_id r = ''run_20''), c_show = (\<lambda>_. []), c_tick = seconds 20,
     c_startup_grace = seconds 60, c_lease = seconds 3600, c_max_concurrent = 2, c_max_failures = 1,
     c_keep_runs = 50, c_retention = seconds 86400, c_pid = 1, c_version = ''1''\<rparr>"

definition sample_sched :: sched where
  "sample_sched = init_sched ''s1'' 0 (empty_db\<lparr>tasks := [sample_task]\<rparr>)"

definition held_sched :: sched where
  "held_sched = init_sched ''s1'' 0 sample_db"

lemma sample_reads [simp]:
  "tasks (db sample_sched) = [sample_task]" "task_runs (db sample_sched) = []"
  "t_state sample_task = STATE_IDLE" "t_due_at sample_task = Some 3605" "t_mode sample_task = MODE_TURN"
  "t_id sample_task = ''tsk_1''" "inflight sample_sched = []"
  "scheduled_instant sample_task = Some (seconds 3600)"
  by code_simp+

lemma sample_store_ok: "store_ok (db sample_sched)"
  by code_simp

lemma sample_store_ok' [simp]: "db_ok (db sample_sched)" "lease_ok (db sample_sched)"
  using sample_store_ok by (simp_all add: store_ok_def)

lemma held_reads [simp]:
  "db held_sched = sample_db" "inflight held_sched = []" "task_runs sample_db = [sample_run]"
  "r_run_id sample_run = ''run_1''" "r_status sample_run = RUN_RUNNING" "r_task_id sample_run = ''tsk_1''"
  "db_ok sample_db"
  by code_simp+

text \<open>
  A run of the loop and of one worker.  The loop starts, claims the sample task and sleeps; the
  worker's dispatch fails, its end is written, and while it waits for the notice to be posted the
  next pass of the loop reads the same row, which nobody was told of yet.
\<close>

definition loop_on :: "int \<Rightarrow> nat \<Rightarrow> happening list" where
  "loop_on at n = replicate n (LoopGoes (seconds at) TimesOut True)"

definition worker_on :: "int \<Rightarrow> nat \<Rightarrow> happening list" where
  "worker_on at n = replicate n (WorkerGoes (run_name sample_cfg 0) 900 (seconds at) (Performed (DispatchFailed ''gone'')) True)"

definition first_engine :: sched_engine where
  "first_engine = new_engine ''s1'' 0 (empty_db\<lparr>tasks := [sample_task]\<rparr>)"

definition crossing_sweeps :: "happening list" where
  "crossing_sweeps = loop_on 3610 13 @ worker_on 3611 4 @ loop_on 3612 5 @ worker_on 3613 1 @ loop_on 3614 1"

lemma first_engine_starts: "reachable engine_start (engine_step sample_cfg) first_engine"
proof (rule reachable.start)
  have "store_ok (empty_db\<lparr>tasks := [sample_task]\<rparr>)" by code_simp
  then show "engine_start first_engine" unfolding engine_start_def first_engine_def by blast
qed

text \<open>A notice may be posted twice: a row is marked after its notice was posted, so a sweep that
  begins while another waits for the chat reads the row again.\<close>

lemma a_notice_may_be_told_twice:
  "\<exists>g. reachable engine_start (engine_step sample_cfg) g \<and> map fst (said (core g)) = [run_name sample_cfg 0, run_name sample_cfg 0]"
proof (intro exI conjI)
  show "reachable engine_start (engine_step sample_cfg) (sched_happens sample_cfg crossing_sweeps first_engine)"
    by (rule happens_reachable [OF first_engine_starts])
  show "map fst (said (core (sched_happens sample_cfg crossing_sweeps first_engine))) = [run_name sample_cfg 0, run_name sample_cfg 0]"
    by code_simp
qed

lemma scheduler_invariant_witness:
  "length (inflight (core (sched_happens sample_cfg (loop_on 3610 9 @ worker_on 3611 1 @ loop_on 3612 1) first_engine))) \<le> 2
   \<and> map (t_id \<circ> w_task) (inflight (core (sched_happens sample_cfg (loop_on 3610 9 @ worker_on 3611 1 @ loop_on 3612 1) first_engine)))
       = [t_id sample_task]"
proof -
  let ?g = "sched_happens sample_cfg (loop_on 3610 9 @ worker_on 3611 1 @ loop_on 3612 1) first_engine"
  have "reachable engine_start (engine_step sample_cfg) ?g"
    by (rule happens_reachable [OF first_engine_starts])
  moreover have "inj (c_token sample_cfg)" by (auto simp: sample_cfg_def inj_def)
  ultimately have "length (inflight (core ?g)) \<le> c_max_concurrent sample_cfg"
    using scheduler_invariant by blast
  moreover have "map (t_id \<circ> w_task) (inflight (core ?g)) = [t_id sample_task]" by code_simp
  ultimately show ?thesis by (simp add: sample_cfg_def)
qed

lemma sleep_for_bounds_witness:
  "seconds 3610 + sleep_for sample_cfg (seconds 3610) (Some (seconds 3615)) = seconds 3615"
proof -
  have "seconds 3610 + MIN_SLEEP \<le> seconds 3615 \<and> seconds 3615 \<le> seconds 3610 + c_tick sample_cfg" by code_simp
  then show ?thesis using sleep_for_bounds [of sample_cfg "seconds 3610" "Some (seconds 3615)"] by blast
qed

lemma tick_touches_only_due_witness:
  "sample_task \<in> set (tasks (db (fst (tick sample_cfg (seconds 3600) sample_sched))))"
proof -
  obtain s' r where t: "tick sample_cfg (seconds 3600) sample_sched = (s', r)" by fastforce
  have "\<not> is_due (seconds 3600 div second) sample_task" by code_simp
  then show ?thesis using tick_touches_only_due [OF _ _ _ t, of sample_task] t by simp
qed

lemma due_task_starts_witness:
  "\<exists>s' run. dispatch sample_cfg sample_task (seconds 3610) sample_sched = (s', None)
     \<and> inflight s' = [\<lparr>w_task = sample_task, w_run = run, w_done = None, w_started = seconds 3610\<rparr>]
     \<and> r_status run = RUN_RUNNING"
proof -
  have "advance_past (c_env sample_cfg) (trigger_of (seconds 3610) sample_task) (seconds 3600) (seconds 3610)
      = Inr (Some (seconds 7200), 0)" by code_simp
  moreover have "grace_window (c_env sample_cfg) (trigger_of (seconds 3610) sample_task) (seconds 3610) = Inr (seconds 1800)"
    by code_simp
  moreover have "seconds 3610 - seconds 3600 \<le> fresh_slack sample_cfg" "seconds 3610 - seconds 3600 \<le> seconds 1800"
    by code_simp+
  moreover have "occurrence_free sample_cfg sample_task (seconds 3600) sample_sched" by (simp add: occurrence_free_def)
  ultimately show ?thesis
    using due_task_starts [of sample_sched sample_task "seconds 3600" sample_cfg "seconds 3610" "Some (seconds 7200)" 0 "seconds 1800"]
    by auto
qed

lemma overlap_never_stacks_witness:
  "inflight (fst (dispatch sample_cfg (hd (tasks sample_db)) (seconds 7210) held_sched)) = []
   \<and> map r_status (task_runs (db (fst (dispatch sample_cfg (hd (tasks sample_db)) (seconds 7210) held_sched))))
       = [RUN_RUNNING, RUN_OVERLAP]"
proof -
  obtain s' e where d: "dispatch sample_cfg (hd (tasks sample_db)) (seconds 7210) held_sched = (s', e)" by fastforce
  have "t_state (hd (tasks sample_db)) = STATE_RUNNING" by code_simp
  then have "inflight s' = []" using overlap_never_stacks [OF _ d] by simp
  moreover have "map r_status (task_runs (db (fst (dispatch sample_cfg (hd (tasks sample_db)) (seconds 7210) held_sched))))
      = [RUN_RUNNING, RUN_OVERLAP]" by code_simp
  ultimately show ?thesis using d by simp
qed

lemma missed_occurrence_recorded_witness:
  "\<exists>s'. dispatch sample_cfg sample_task (seconds 100000) sample_sched = (s', None) \<and> inflight s' = []
     \<and> (\<exists>r \<in> set (task_runs (db s')). r_status r = RUN_MISSED \<and> r_coalesced r = 27)"
proof -
  have "advance_past (c_env sample_cfg) (trigger_of (seconds 100000) sample_task) (seconds 3600) (seconds 100000)
      = Inr (Some (seconds 100800), 26)" by code_simp
  moreover have "grace_window (c_env sample_cfg) (trigger_of (seconds 100000) sample_task) (seconds 100000) = Inr (seconds 1800)"
    by code_simp
  moreover have "seconds 100000 - seconds 3600 > seconds 1800" "\<not> within_startup_grace sample_cfg (seconds 100000) sample_sched"
    by code_simp+
  moreover have "occurrence_free sample_cfg sample_task (seconds 3600) sample_sched" by (simp add: occurrence_free_def)
  ultimately show ?thesis
    using missed_occurrence_recorded [of sample_sched sample_task "seconds 3600" sample_cfg "seconds 100000"
        "Some (seconds 100800)" 26 "seconds 1800"]
    by auto
qed

definition watch_cfg :: sched_config where
  "watch_cfg = sample_cfg\<lparr>c_watches := Some (\<lambda>_ _. Answers WatchPending)\<rparr>"

definition watch_task :: task_record where
  "watch_task = sample_task\<lparr>t_mode := MODE_WATCH, t_watch_key := ''invoice''\<rparr>"

definition watch_sched :: sched where
  "watch_sched = init_sched ''s1'' 0 (empty_db\<lparr>tasks := [watch_task]\<rparr>)"

lemma pending_watch_only_moves_witness:
  "inflight (fst (dispatch watch_cfg watch_task (seconds 3610) watch_sched)) = inflight watch_sched
   \<and> map t_next_run_at (tasks (db (fst (dispatch watch_cfg watch_task (seconds 3610) watch_sched)))) = [Some 7200]"
proof -
  have n: "snd (dispatch watch_cfg watch_task (seconds 3610) watch_sched) = None" by code_simp
  obtain s' where d: "dispatch watch_cfg watch_task (seconds 3610) watch_sched = (s', None)"
    using n by (metis prod.collapse)
  have v: "watch_verdict watch_cfg watch_task (seconds 3610) watch_sched = (watch_sched, WatchPending)" by code_simp
  have "advance_past (c_env watch_cfg) (trigger_of (seconds 3610) watch_task) (seconds 3600) (seconds 3610)
      = Inr (Some (seconds 7200), 0)" by code_simp
  moreover have "scheduled_instant watch_task = Some (seconds 3600)" "t_mode watch_task = MODE_WATCH"
    "t_state watch_task = STATE_IDLE" "seconds 3610 - seconds 3600 \<le> fresh_slack watch_cfg" by code_simp+
  ultimately have "inflight s' = inflight watch_sched" using pending_watch_only_moves [OF v d] by blast
  moreover have "map t_next_run_at (tasks (db (fst (dispatch watch_cfg watch_task (seconds 3610) watch_sched)))) = [Some 7200]"
    by code_simp
  ultimately show ?thesis using d by simp
qed

text \<open>The occurrence at 3600 ran; a run asked for at that second stands in line behind its row.\<close>

definition spent_sched :: sched where
  "spent_sched = init_sched ''s1'' 0 (fst (request_run_now ''tsk_1'' 3600
     (complete_run ''run_1'' ''tsk_1'' RUN_OK (Some 3600) 1 [] 0 0 False STATE_IDLE sample_db)))"

lemma spent_occurrence_stuck_witness:
  "db (fst (dispatch sample_cfg (hd (tasks (db spent_sched))) (seconds 3601) spent_sched)) = db spent_sched
   \<and> is_due 3601 (hd (tasks (db spent_sched)))"
proof -
  let ?t = "hd (tasks (db spent_sched))" and ?r = "hd (task_runs (db spent_sched))"
  obtain s' e where d: "dispatch sample_cfg ?t (seconds 3601) spent_sched = (s', e)" by fastforce
  have "?r \<in> set (task_runs (db spent_sched))" "r_task_id ?r = t_id ?t" "r_scheduled_at ?r = t_next_run_at ?t"
    "t_mode ?t \<noteq> MODE_WATCH" by code_simp+
  from spent_occurrence_stuck [OF this d] have "db s' = db spent_sched" by blast
  moreover have "is_due 3601 ?t" by code_simp
  ultimately show ?thesis using d by simp
qed

lemma failures_pause_the_task_witness:
  "\<exists>t' \<in> set (tasks (db (finish sample_cfg (hd (tasks sample_db)) sample_run RUN_ERROR (seconds 3610) (seconds 3620)
      [] 0 0 False held_sched))). t_state t' = STATE_PAUSED \<and> t_consecutive_failures t' = 1"
proof -
  have "hd (tasks sample_db) \<in> set (tasks (db held_sched))" "t_consecutive_failures (hd (tasks sample_db)) = 0"
    "run_failed RUN_ERROR" "c_max_failures sample_cfg = 1" by code_simp+
  then show ?thesis
    using failures_pause_the_task [of held_sched sample_run sample_run "hd (tasks sample_db)" sample_cfg RUN_ERROR
        "seconds 3610" "seconds 3620" "[]" 0 0 False] by auto
qed

text \<open>A one-shot at 3600, claimed, and its worker.\<close>

definition once_task :: task_record where
  "once_task = sample_task\<lparr>t_trigger_kind := TRIGGER_AT, t_anchor_at := Some 3600\<rparr>"

definition once_sched :: sched where
  "once_sched = fst (dispatch sample_cfg once_task (seconds 3610)
     (init_sched ''s1'' 0 (empty_db\<lparr>tasks := [once_task]\<rparr>)))"

lemma one_shot_returns_to_idle_witness:
  "\<exists>t' \<in> set (tasks (db (end_run sample_cfg 60 (seconds 3700) (hd (inflight once_sched))
      (Performed (TurnDone REPLIED)) once_sched))). t_next_run_at t' = None \<and> t_state t' = STATE_IDLE"
proof -
  let ?w = "hd (inflight once_sched)" and ?r = "hd (task_runs (db once_sched))" and ?t = "hd (tasks (db once_sched))"
  have "db_ok (db once_sched)" "?w \<in> set (inflight once_sched)" "w_done ?w = None"
    "scheduled_instant (w_task ?w) = Some (seconds 3600)" "?r \<in> set (task_runs (db once_sched))"
    "r_run_id ?r = r_run_id (w_run ?w)" "r_status ?r = RUN_RUNNING" "?t \<in> set (tasks (db once_sched))"
    "t_id ?t = t_id (w_task ?w)" "t_next_run_at ?t = None"
    "run_verdict sample_cfg 60 ?w (Performed (TurnDone REPLIED)) = (RUN_OK, [], 0, 0)" by code_simp+
  from one_shot_returns_to_idle [OF this] show ?thesis by blast
qed

definition ended_sched :: sched where
  "ended_sched = held_sched\<lparr>db := complete_run ''run_1'' ''tsk_1'' RUN_DEADLINE (Some 3700) 1 [] 0 0 True STATE_IDLE sample_db\<rparr>"

lemma deliver_notices_exact_witness:
  "map r_notified (task_runs (db (deliver_notices (sample_cfg\<lparr>c_announce := \<lambda>_. True\<rparr>) ended_sched))) = [1]"
proof -
  have ok: "db_ok (db ended_sched)" by code_simp
  show ?thesis
    by (simp only: deliver_notices_exact [OF ok, THEN conjunct1]) code_simp
qed

text \<open>Twenty-one runs without an agent, of which only the last can be announced.\<close>

definition owed_run :: "nat \<Rightarrow> task_run" where
  "owed_run k = sample_run\<lparr>r_run_id := ''run_'' @ show_nat k, r_scheduled_at := Some (int k),
     r_finished_at := Some (int k), r_status := RUN_NO_AGENT\<rparr>"

definition owed_sched :: sched where
  "owed_sched = init_sched ''s1'' 0 \<lparr>tasks = [sample_task], task_runs = map owed_run [0..<21], beat = None\<rparr>"

lemma undeliverable_notices_block_witness:
  "deliver_notices sample_cfg owed_sched = owed_sched
   \<and> told sample_cfg (db owed_sched) (owed_run 20) \<and> r_notified (owed_run 20) = 0"
proof -
  have "list_all (\<lambda>r. \<not> told sample_cfg (db owed_sched) r) (unnotified_runs 20 (db owed_sched))" by code_simp
  then have "deliver_notices sample_cfg owed_sched = owed_sched"
    by (intro undeliverable_notices_block) (simp add: list_all_iff)
  moreover have "told sample_cfg (db owed_sched) (owed_run 20)" "r_notified (owed_run 20) = 0" by code_simp+
  ultimately show ?thesis by blast
qed

end
