(* ===== verification/TaskAdmin.thy ===== *)
theory TaskAdmin
  imports Scheduler
begin

text \<open>
  The write side of scheduled work, \<open>packages/crucible/src/crucible/scheduler/admin.py\<close> with the
  view of \<open>ports/tasks.py\<close>, and the scheduler's health, \<open>scheduler/health.py\<close>.

  An operation takes the database and returns it with the view of the task or what was
  raised.  From outside: \<open>a_env\<close> (the time environment of \<open>Triggers\<close>), \<open>a_now\<close> (the
  admin's clock) and \<open>a_utc_now\<close> (what \<open>utc_now()\<close> answers when a row has no anchor), the
  random hex digits of a new task's id, and the session record the store found for the turn.
  The dash of the health line (no Latin-1 character) is written \<open>-\<close>.
\<close>

section \<open>A moment, as it is shown\<close>

text \<open>
  The proleptic Gregorian date of a number of days since 1970-01-01, as \<open>datetime\<close> computes
  it, and the text of \<open>strftime("%Y-%m-%d %H:%M")\<close>.
\<close>

definition civil_date :: "int \<Rightarrow> int \<times> int \<times> int" where
  "civil_date days =
     (let z = days + 719468; era = z div 146097; doe = z mod 146097;
          yoe = (doe - doe div 1460 + doe div 36524 - doe div 146096) div 365;
          doy = doe - (365 * yoe + yoe div 4 - yoe div 100);
          mp = (5 * doy + 2) div 153;
          m = (if mp < 10 then mp + 3 else mp - 9) in
      (yoe + era * 400 + (if m \<le> 2 then 1 else 0), m, doy - (153 * mp + 2) div 5 + 1))"

definition minute_text :: "wall \<Rightarrow> string" where
  "minute_text w =
     (let s = w div second; (y, m, d) = civil_date (s div 86400); r = s mod 86400 in
      show_int y @ ''-'' @ two_digits m @ ''-'' @ two_digits d @ '' ''
      @ two_digits (r div 3600) @ '':'' @ two_digits (r mod 3600 div 60))"

section \<open>What is raised and what is shown\<close>

datatype task_error =
    NothingScheduled | NothingWatched | NeedsName | NeedsPrompt | PromptTooLong nat
  | ModeMustBe | NotifyMustBe | OnMissedMustBe | AlreadyCalled string | TooManyTasks nat nat
  | BadSchedule trigger_msg | NoNextOccurrence string | NeedsKey | CheckedTooOften
  | UntilNaive | UntilPast | RunningNow string | NoTask string

text \<open>
  \<open>Refused\<close> is the \<open>TaskError\<close> an agent is told; the others are the exceptions of a helper
  that the operation does not catch.
\<close>

datatype admin_exn =
    Refused task_error | TriggerEscapes trigger_exn | StoreRaised sql_error | ZoneNotFound string

record task_view =
  v_id :: string
  v_name :: string
  v_prompt :: string
  v_schedule :: string
  v_mode :: task_mode
  v_state :: task_state
  v_timezone :: string
  v_next_run :: string
  v_last_run :: string
  v_last_status :: "run_status option"
  v_notify :: notify_mode
  v_upcoming :: "string list"
  v_watch_key :: string
  v_until :: string

record admin =
  a_env :: time_env
  a_timezone :: string
  a_max_per_agent :: nat
  a_jitter_cap_s :: int
  a_now :: datetime
  a_utc_now :: datetime

text \<open>Where the calling turn is: what these operations read of a session record.\<close>

record turn_session =
  ts_channel_id :: string
  ts_conversation_id :: string
  ts_kind :: conv_kind
  ts_last_user_id :: string

text \<open>An aware or a naive \<open>datetime\<close>.\<close>

datatype moment_arg = Aware datetime | NaiveTime wall

definition MAX_NAME :: nat where "MAX_NAME = 40"
definition MAX_PROMPT :: nat where "MAX_PROMPT = 4000"
definition MIN_WATCH_S :: int where "MIN_WATCH_S = 15"

definition WATCH_PROMPT :: string where
  "WATCH_PROMPT = ''What this conversation was waiting for has happened: see the event, and act on it.''"

section \<open>Rendering\<close>

definition clean_name :: "string \<Rightarrow> admin_exn + string" where
  "clean_name name =
     (let cleaned = strip (take MAX_NAME (join '' '' (split_ws name))) in
      if cleaned = [] then Inl (Refused NeedsName) else Inr cleaned)"

definition local_time :: "time_env \<Rightarrow> datetime option \<Rightarrow> string \<Rightarrow> admin_exn + string" where
  "local_time env moment tz =
     (case moment of
        None \<Rightarrow> Inr []
      | Some t \<Rightarrow>
          (let zone = (if tz \<noteq> [] then tz else ''UTC'') in
           if tz \<noteq> [] \<and> \<not> zone_known env tz then Inl (ZoneNotFound tz)
           else Inr (minute_text (to_wall env zone t) @ '' ('' @ zone @ '')'')))"

fun local_times :: "time_env \<Rightarrow> datetime list \<Rightarrow> string \<Rightarrow> admin_exn + string list" where
  "local_times env [] tz = Inr []"
| "local_times env (m # ms) tz =
     (case local_time env (Some m) tz of Inl e \<Rightarrow> Inl e | Inr t \<Rightarrow>
        map_sum id (\<lambda>ts. t # ts) (local_times env ms tz))"

definition view_of :: "admin \<Rightarrow> task_record \<Rightarrow> datetime list \<Rightarrow> admin_exn + task_view" where
  "view_of a t upcoming =
     (case local_time (a_env a) (from_iso (t_next_run_at t)) (t_timezone t) of Inl e \<Rightarrow> Inl e | Inr next_run \<Rightarrow>
     (case local_time (a_env a) (from_iso (t_last_run_at t)) (t_timezone t) of Inl e \<Rightarrow> Inl e | Inr last_run \<Rightarrow>
     (case local_times (a_env a) upcoming (t_timezone t) of Inl e \<Rightarrow> Inl e | Inr ups \<Rightarrow>
     (case local_time (a_env a) (from_iso (t_expires_at t)) (t_timezone t) of Inl e \<Rightarrow> Inl e | Inr until_text \<Rightarrow>
      Inr \<lparr>v_id = t_id t, v_name = t_name t, v_prompt = t_prompt t, v_schedule = t_trigger_spec t,
        v_mode = t_mode t, v_state = t_state t,
        v_timezone = (if t_timezone t \<noteq> [] then t_timezone t else ''UTC''),
        v_next_run = next_run, v_last_run = last_run, v_last_status = t_last_status t,
        v_notify = t_notify t, v_upcoming = ups, v_watch_key = t_watch_key t,
        v_until = until_text\<rparr>))))"

section \<open>Creating\<close>

definition mode_named :: "string \<Rightarrow> task_mode option" where
  "mode_named s = (if s = ''turn'' then Some MODE_TURN else if s = ''prompt'' then Some MODE_PROMPT
     else if s = ''watch'' then Some MODE_WATCH else None)"

definition SCHEDULED_MODES :: "task_mode list" where "SCHEDULED_MODES = [MODE_TURN, MODE_PROMPT]"

definition notify_named :: "string \<Rightarrow> notify_mode option" where
  "notify_named s = (if s = ''failures'' then Some NOTIFY_FAILURES
     else if s = ''always'' then Some NOTIFY_ALWAYS else if s = ''never'' then Some NOTIFY_NEVER else None)"

definition missed_named :: "string \<Rightarrow> missed_mode option" where
  "missed_named s = (if s = ''run'' then Some ON_MISSED_RUN
     else if s = ''skip'' then Some ON_MISSED_SKIP else None)"

text \<open>The name is free and the agent is under its limit.\<close>

definition room_for :: "admin \<Rightarrow> string \<Rightarrow> string \<Rightarrow> task_db \<Rightarrow> task_error option" where
  "room_for a agent name d =
     (if find_task agent name d \<noteq> None then Some (AlreadyCalled name)
      else let existing = length (list_tasks agent [] d) in
        if existing \<ge> a_max_per_agent a then Some (TooManyTasks existing (a_max_per_agent a)) else None)"

text \<open>The row of a new task; \<open>upcoming\<close> is its first occurrence and \<open>jitter\<close> its smear.\<close>

definition new_task :: "admin \<Rightarrow> string \<Rightarrow> string \<Rightarrow> string \<Rightarrow> string \<Rightarrow> string \<Rightarrow> conv_kind \<Rightarrow> string
    \<Rightarrow> task_mode \<Rightarrow> trigger \<Rightarrow> datetime \<Rightarrow> int \<Rightarrow> missed_mode \<Rightarrow> notify_mode \<Rightarrow> string \<Rightarrow> task_record" where
  "new_task a task_id agent name channel_id conversation_id k prompt mode trig upcoming jitter
     on_missed notify created_by =
     (let stamp = to_iso (Some (a_now a)) in
      \<lparr>t_id = task_id, t_agent = agent, t_name = name, t_channel_id = channel_id,
       t_conversation_id = conversation_id, t_kind = k, t_mode = mode, t_prompt = prompt,
       t_trigger_kind = kind trig, t_trigger_spec = spec trig, t_interval_s = interval_s trig,
       t_cron_expr = cron_expr trig, t_timezone = timezone trig,
       t_anchor_at = to_iso (Some (anchor_at trig)), t_next_run_at = to_iso (Some upcoming),
       t_due_at = to_iso (with_jitter (Some upcoming) jitter), t_jitter_s = jitter,
       t_state = STATE_IDLE, t_claim_owner = [], t_claim_at = None, t_lease_until = None,
       t_on_missed = on_missed, t_notify = notify, t_deadline_s = 0, t_created_by = created_by,
       t_created_by_username = [], t_created_at = stamp, t_updated_at = stamp,
       t_last_run_at = None, t_last_status = None, t_run_count = 0, t_miss_count = 0,
       t_consecutive_failures = 0, t_watch_key = [], t_expires_at = None\<rparr>)"

text \<open>What a caller asks \<open>schedule_in\<close> for.\<close>

record task_ask =
  k_name :: string
  k_prompt :: string
  k_schedule :: string
  k_mode :: string
  k_timezone :: string
  k_notify :: string
  k_on_missed :: string

text \<open>
  \<open>schedule_in\<close> in three steps: the checks of what is asked, the trigger with its first
  occurrence, and the row.
\<close>

definition check_ask :: "admin \<Rightarrow> string \<Rightarrow> task_ask \<Rightarrow> task_db
    \<Rightarrow> admin_exn + (string \<times> string \<times> task_mode \<times> notify_mode \<times> missed_mode)" where
  "check_ask a agent ask d =
     (case clean_name (k_name ask) of Inl e \<Rightarrow> Inl e | Inr name \<Rightarrow>
     (let prompt = strip (k_prompt ask) in
      if prompt = [] then Inl (Refused NeedsPrompt)
      else if length prompt > MAX_PROMPT then Inl (Refused (PromptTooLong (length prompt)))
      else case mode_named (k_mode ask) of None \<Rightarrow> Inl (Refused ModeMustBe) | Some mode \<Rightarrow>
      if mode \<notin> set SCHEDULED_MODES then Inl (Refused ModeMustBe)
      else case notify_named (k_notify ask) of None \<Rightarrow> Inl (Refused NotifyMustBe) | Some notify \<Rightarrow>
      (case missed_named (k_on_missed ask) of None \<Rightarrow> Inl (Refused OnMissedMustBe) | Some on_missed \<Rightarrow>
      (case room_for a agent name d of Some e \<Rightarrow> Inl (Refused e)
       | None \<Rightarrow> Inr (name, prompt, mode, notify, on_missed)))))"

definition first_of :: "admin \<Rightarrow> task_ask \<Rightarrow> admin_exn + (trigger \<times> datetime)" where
  "first_of a ask =
     (let now = a_now a; zone = (if k_timezone ask \<noteq> [] then k_timezone ask else a_timezone a) in
      case parse_trigger (a_env a) (k_schedule ask) now zone of
        Inl (TriggerError m) \<Rightarrow> Inl (Refused (BadSchedule m))
      | Inl e \<Rightarrow> Inl (TriggerEscapes e)
      | Inr trig \<Rightarrow>
     (case first_run (a_env a) trig now of
        Inl e \<Rightarrow> Inl (TriggerEscapes e)
      | Inr None \<Rightarrow> Inl (Refused (NoNextOccurrence (k_schedule ask)))
      | Inr (Some upcoming) \<Rightarrow> Inr (trig, upcoming)))"

definition schedule_in :: "admin \<Rightarrow> string \<Rightarrow> string \<Rightarrow> string \<Rightarrow> string \<Rightarrow> conv_kind \<Rightarrow> task_ask \<Rightarrow> string
    \<Rightarrow> task_db \<Rightarrow> task_db \<times> (admin_exn + task_view)" where
  "schedule_in a token agent channel_id conversation_id k ask created_by d =
     (case check_ask a agent ask d of
        Inl e \<Rightarrow> (d, Inl e)
      | Inr (name, prompt, mode, notify, on_missed) \<Rightarrow>
     (case first_of a ask of
        Inl e \<Rightarrow> (d, Inl e)
      | Inr (trig, upcoming) \<Rightarrow>
     (let task_id = ''tsk_'' @ token;
          jitter = jitter_for (a_env a) task_id (if recurring trig then interval_s trig else 0)
                     (a_jitter_cap_s a);
          t = new_task a task_id agent name channel_id conversation_id k prompt mode trig upcoming
                jitter on_missed notify created_by in
      case create_task t d of
        Inl e \<Rightarrow> (d, Inl (StoreRaised e))
      | Inr d' \<Rightarrow>
     (case next_occurrences (a_env a) trig (a_now a) 3 of
        Inl e \<Rightarrow> (d', Inl (TriggerEscapes e))
      | Inr ups \<Rightarrow> (d', view_of a t ups)))))"

definition schedule :: "admin \<Rightarrow> string \<Rightarrow> string \<Rightarrow> turn_session option \<Rightarrow> task_ask
    \<Rightarrow> task_db \<Rightarrow> task_db \<times> (admin_exn + task_view)" where
  "schedule a token agent session ask d =
     (case session of
        None \<Rightarrow> (d, Inl (Refused NothingScheduled))
      | Some r \<Rightarrow> schedule_in a token agent (ts_channel_id r) (ts_conversation_id r) (ts_kind r) ask
                    (ts_last_user_id r) d)"

text \<open>What a caller asks \<open>watch_in\<close> for.\<close>

record watch_ask =
  w_name :: string
  w_key :: string
  w_every_s :: int
  w_until :: moment_arg
  w_prompt :: string

definition check_watch :: "admin \<Rightarrow> string \<Rightarrow> watch_ask \<Rightarrow> task_db
    \<Rightarrow> admin_exn + (string \<times> string \<times> string \<times> datetime)" where
  "check_watch a agent ask d =
     (case clean_name (w_name ask) of Inl e \<Rightarrow> Inl e | Inr name \<Rightarrow>
     (let watch_key = strip (w_key ask) in
      if watch_key = [] then Inl (Refused NeedsKey)
      else if w_every_s ask < MIN_WATCH_S then Inl (Refused CheckedTooOften)
      else case w_until ask of NaiveTime _ \<Rightarrow> Inl (Refused UntilNaive) | Aware until \<Rightarrow>
      if until \<le> a_now a then Inl (Refused UntilPast)
      else let prompt = (if strip (w_prompt ask) \<noteq> [] then strip (w_prompt ask) else WATCH_PROMPT) in
      if length prompt > MAX_PROMPT then Inl (Refused (PromptTooLong (length prompt)))
      else case room_for a agent name d of Some e \<Rightarrow> Inl (Refused e)
        | None \<Rightarrow> Inr (name, watch_key, prompt, until)))"

definition watch_in :: "admin \<Rightarrow> string \<Rightarrow> string \<Rightarrow> string \<Rightarrow> string \<Rightarrow> conv_kind \<Rightarrow> watch_ask \<Rightarrow> string
    \<Rightarrow> task_db \<Rightarrow> task_db \<times> (admin_exn + task_view)" where
  "watch_in a token agent channel_id conversation_id k ask created_by d =
     (case check_watch a agent ask d of
        Inl e \<Rightarrow> (d, Inl e)
      | Inr (name, watch_key, prompt, until) \<Rightarrow>
     (let trig = \<lparr>kind = TRIGGER_EVERY, spec = ''every '' @ show_int (w_every_s ask) @ ''s'',
                  anchor_at = a_now a, interval_s = w_every_s ask, cron_expr = [],
                  timezone = a_timezone a\<rparr>;
          t = (new_task a (''tsk_'' @ token) agent name channel_id conversation_id k prompt MODE_WATCH
                 trig (a_now a + seconds (w_every_s ask)) 0 ON_MISSED_RUN NOTIFY_FAILURES created_by)
               \<lparr>t_watch_key := watch_key, t_expires_at := to_iso (Some until)\<rparr> in
      case create_task t d of
        Inl e \<Rightarrow> (d, Inl (StoreRaised e))
      | Inr d' \<Rightarrow> (d', view_of a t [])))"

definition watch :: "admin \<Rightarrow> string \<Rightarrow> string \<Rightarrow> turn_session option \<Rightarrow> watch_ask
    \<Rightarrow> task_db \<Rightarrow> task_db \<times> (admin_exn + task_view)" where
  "watch a token agent session ask d =
     (case session of
        None \<Rightarrow> (d, Inl (Refused NothingWatched))
      | Some r \<Rightarrow> watch_in a token agent (ts_channel_id r) (ts_conversation_id r) (ts_kind r) ask
                    (ts_last_user_id r) d)"

section \<open>Listing and retiring\<close>

fun views_of :: "admin \<Rightarrow> task_record list \<Rightarrow> admin_exn + task_view list" where
  "views_of a [] = Inr []"
| "views_of a (t # ts) =
     (case view_of a t [] of Inl e \<Rightarrow> Inl e | Inr v \<Rightarrow> map_sum id (\<lambda>vs. v # vs) (views_of a ts))"

definition admin_list :: "admin \<Rightarrow> string \<Rightarrow> task_db \<Rightarrow> admin_exn + task_view list" where
  "admin_list a agent d = views_of a (list_tasks agent [] d)"

definition find_own :: "string \<Rightarrow> string \<Rightarrow> task_db \<Rightarrow> admin_exn + task_record" where
  "find_own agent task d =
     (case (case get_task task d of Some t \<Rightarrow> Some t | None \<Rightarrow> find_task agent task d) of
        None \<Rightarrow> Inl (Refused (NoTask task))
      | Some t \<Rightarrow> if t_agent t \<noteq> agent then Inl (Refused (NoTask task)) else Inr t)"

definition cancel :: "admin \<Rightarrow> string \<Rightarrow> string \<Rightarrow> task_db \<Rightarrow> task_db \<times> (admin_exn + task_view)" where
  "cancel a agent task d =
     (case find_own agent task d of
        Inl e \<Rightarrow> (d, Inl e)
      | Inr found \<Rightarrow> (fst (delete_task (t_id found) d), view_of a found []))"

definition admin_set_paused :: "admin \<Rightarrow> string \<Rightarrow> string \<Rightarrow> bool \<Rightarrow> task_db
    \<Rightarrow> task_db \<times> (admin_exn + task_view)" where
  "admin_set_paused a agent task paused d =
     (case find_own agent task d of Inl e \<Rightarrow> (d, Inl e) | Inr found \<Rightarrow>
     (case (if paused then Inr None else first_run (a_env a) (trigger_of (a_utc_now a) found) (a_now a)) of
        Inl e \<Rightarrow> (d, Inl (TriggerEscapes e))
      | Inr upcoming \<Rightarrow>
     (case set_paused (t_id found) paused (to_iso (Some (a_now a))) (to_iso upcoming)
             (to_iso (with_jitter upcoming (t_jitter_s found))) d of
        (d', False) \<Rightarrow> (d', Inl (Refused (RunningNow (t_name found))))
      | (d', True) \<Rightarrow>
          (d', view_of a (case get_task (t_id found) d' of Some t \<Rightarrow> t | None \<Rightarrow> found) []))))"

section \<open>Health\<close>

datatype liveness_verdict = ALIVE | STALE | ABSENT | NEVER

definition STALE_TICKS :: int where "STALE_TICKS = 3"

text \<open>\<open>f"{x:.0f}"\<close> of a duration in seconds: to the nearest second, ties to even.\<close>

definition round_seconds :: "int \<Rightarrow> int" where
  "round_seconds d =
     (let q = d div second; r = d mod second in
      if 2 * r > second \<or> 2 * r = second \<and> q mod 2 = 1 then q + 1 else q)"

definition stamp_text :: "stamp option \<Rightarrow> string" where
  "stamp_text iso_text =
     (case from_iso iso_text of Some m \<Rightarrow> minute_text m @ '' (UTC)'' | None \<Rightarrow> [])"

definition liveness :: "heartbeat option \<Rightarrow> datetime \<Rightarrow> bool \<Rightarrow> liveness_verdict \<times> string" where
  "liveness hb now enabled =
     (if \<not> enabled then (ABSENT, ''the scheduler is turned off (SCHEDULER_ENABLED=false)'')
      else case hb of
        None \<Rightarrow> (NEVER, ''no scheduler has ever ticked against this database'')
      | Some b \<Rightarrow>
      (case from_iso (hb_last_tick_at b) of
        None \<Rightarrow> (NEVER, ''unreadable last tick: '' @ [CHR 0x27, CHR 0x27])
      | Some ticked \<Rightarrow>
      (let age = now - ticked in
       if age > max (hb_interval_s b) second * STALE_TICKS
       then (STALE, ''no tick for '' @ show_int (round_seconds age) @ ''s (expected every ''
              @ show_int (round_seconds (hb_interval_s b)) @ ''s) - pid '' @ show_int (hb_pid b)
              @ '', up since '' @ stamp_text (hb_started_at b) @ '', last tick ''
              @ stamp_text (hb_last_tick_at b))
       else (ALIVE, ''tick #'' @ show_int (hb_tick_seq b) @ '' '' @ show_int (round_seconds age)
              @ ''s ago, '' @ show_int (hb_running_count b) @ '' run(s) in flight''
              @ (if hb_next_wake_at b \<noteq> None
                 then ''; next '' @ (if hb_next_task_name b \<noteq> [] then hb_next_task_name b
                                   else hb_next_task_id b)
                      @ '' at '' @ stamp_text (hb_next_wake_at b)
                 else ''; nothing scheduled'')
              @ (if hb_last_error b \<noteq> []
                 then ''; last error '' @ stamp_text (hb_last_error_at b) @ '': '' @ hb_last_error b
                 else [])))))"

definition another_scheduler :: "heartbeat \<Rightarrow> heartbeat \<Rightarrow> bool" where
  "another_scheduler first second' \<longleftrightarrow> hb_scheduler_id first \<noteq> hb_scheduler_id second'"

end
