(* ===== verification/TaskAdminProps.thy ===== *)
theory TaskAdminProps
  imports TaskAdmin SchedulerProps
begin

text \<open>
  What administration promises: an agent's operation keeps the store sound, never reaches
  another agent's tasks, changes nothing when it refuses, and writes sound rows; and what the
  health check says of the loop's passes.  The sample values at the end feed the witnesses.
\<close>

section \<open>What the operations write\<close>

text \<open>What holds of the row of a new task: it is the agent's, in bounds, and due in the future.\<close>

definition made_row :: "admin \<Rightarrow> string \<Rightarrow> task_db \<Rightarrow> task_record \<Rightarrow> bool" where
  "made_row a agent d t \<longleftrightarrow> t_agent t = agent \<and> t_state t = STATE_IDLE
     \<and> t_name t \<noteq> [] \<and> length (t_name t) \<le> MAX_NAME
     \<and> t_prompt t \<noteq> [] \<and> length (t_prompt t) \<le> MAX_PROMPT
     \<and> find_task agent (t_name t) d = None \<and> length (list_tasks agent [] d) < a_max_per_agent a
     \<and> (\<exists>up. (t_trigger_kind t = TRIGGER_CRON \<or> a_now a < up) \<and> t_next_run_at t = to_iso (Some up)
          \<and> t_due_at t = to_iso (Some (up + seconds (t_jitter_s t))))
     \<and> 0 \<le> t_jitter_s t \<and> t_jitter_s t \<le> max 0 (a_jitter_cap_s a)"

lemma length_strip: "length (strip s) \<le> length s"
  unfolding strip_def using length_dropWhile_le [of is_space s]
    length_dropWhile_le [of is_space "rev (dropWhile is_space s)"] by simp

lemma clean_name_bounds: "clean_name s = Inr n \<Longrightarrow> n \<noteq> [] \<and> length n \<le> MAX_NAME"
  using length_strip [of "take MAX_NAME (join '' '' (split_ws s))"]
  by (auto simp: clean_name_def Let_def split: if_splits)

lemma room_for_None:
  "room_for a agent name d = None
    \<Longrightarrow> find_task agent name d = None \<and> length (list_tasks agent [] d) < a_max_per_agent a"
  by (auto simp: room_for_def Let_def split: if_splits)

lemma jitter_for_cap: "0 \<le> jitter_for env i p c \<and> jitter_for env i p c \<le> max 0 c"
  using jitter_for_bounds [of env i p c] by linarith

text \<open>The first occurrence of a parsed schedule that is not a cron expression lies ahead.\<close>

lemma first_run_ahead:
  assumes "parse_trigger env raw now tz = Inr t" and "first_run env t now = Inr (Some up)"
    and "kind t \<noteq> TRIGGER_CRON"
  shows "now < up"
proof (cases "kind t")
  case TRIGGER_AT
  then show ?thesis using assms(2) by (simp add: first_run_def split: if_splits)
next
  case TRIGGER_EVERY
  have pos: "0 < interval_s t" using assms(1) TRIGGER_EVERY
    by (auto simp: parse_trigger_def Let_def MIN_INTERVAL_S_def split: if_splits sum.splits option.splits)
  obtain n k where adv: "advance_interval t (anchor_at t) now = Inr (n, k)"
    using advance_interval_idx [OF pos, of "anchor_at t" now] by blast
  then have "up = n" using assms(2) TRIGGER_EVERY by (simp add: first_run_def advance_past_def)
  then show ?thesis using advance_interval_after [OF pos adv] by simp
next
  case TRIGGER_CRON
  then show ?thesis using assms(3) by simp
qed

lemma new_task_made:
  assumes "name \<noteq> []" "length name \<le> MAX_NAME" "prompt \<noteq> []" "length prompt \<le> MAX_PROMPT"
    and "room_for a agent name d = None" and "kind trig = TRIGGER_CRON \<or> a_now a < up"
    and "0 \<le> j" "j \<le> max 0 (a_jitter_cap_s a)"
  shows "made_row a agent d (new_task a i agent name ch conv k prompt mode trig up j om nt by)"
  using assms room_for_None [OF assms(5)]
  by (auto simp: made_row_def new_task_def Let_def with_jitter_def)

lemma check_ask_ok:
  assumes "check_ask a agent ask d = Inr (name, prompt, mode, nt, om)"
  shows "name \<noteq> []" "length name \<le> MAX_NAME" "prompt \<noteq> []" "length prompt \<le> MAX_PROMPT"
    "room_for a agent name d = None" "mode \<in> set SCHEDULED_MODES"
  using assms clean_name_bounds [of "k_name ask" name]
  by (auto simp: check_ask_def Let_def split: sum.splits option.splits if_splits)

lemma first_of_ok:
  assumes "first_of a ask = Inr (trig, up)"
  shows "kind trig = TRIGGER_CRON \<or> a_now a < up"
  using assms first_run_ahead [of "a_env a" "k_schedule ask" "a_now a" _ trig up]
  by (auto simp: first_of_def Let_def split: sum.splits option.splits trigger_exn.splits)

lemma schedule_in_effect:
  assumes "schedule_in a tok agent ch conv k ask by d = (d', r)"
  obtains (refused) e where "d' = d" "r = Inl e"
  | (made) t where "create_task t d = Inr d'" "made_row a agent d t" "t_id t = ''tsk_'' @ tok"
      "t_conversation_id t = conv" "t_kind t = k" "t_channel_id t = ch"
      "(\<exists>e. r = Inl (TriggerEscapes e)) \<or> (\<exists>ups. r = view_of a t ups)"
proof (cases "check_ask a agent ask d")
  case (Inl e)
  then show ?thesis using assms by (intro refused [of e]) (simp_all add: schedule_in_def)
next
  case ask: (Inr p)
  obtain name prompt mode nt om where p: "p = (name, prompt, mode, nt, om)" by (cases p) auto
  show ?thesis
  proof (cases "first_of a ask")
    case (Inl e)
    then show ?thesis using assms ask p by (intro refused [of e]) (simp_all add: schedule_in_def)
  next
    case fst: (Inr q)
    obtain trig up where q: "q = (trig, up)" by (cases q)
    define j where "j = jitter_for (a_env a) (''tsk_'' @ tok) (if recurring trig then interval_s trig else 0)
                      (a_jitter_cap_s a)"
    define t where "t = new_task a (''tsk_'' @ tok) agent name ch conv k prompt mode trig up j om nt by"
    have t: "made_row a agent d t" unfolding t_def
      using check_ask_ok [OF ask [unfolded p]] first_of_ok [OF fst [unfolded q]]
        jitter_for_cap [of "a_env a" "''tsk_'' @ tok" "if recurring trig then interval_s trig else 0" "a_jitter_cap_s a"]
      by (intro new_task_made) (simp_all add: j_def)
    have f: "t_id t = ''tsk_'' @ tok" "t_conversation_id t = conv" "t_kind t = k" "t_channel_id t = ch"
      by (simp_all add: t_def new_task_def Let_def)
    have eq: "schedule_in a tok agent ch conv k ask by d = (case create_task t d of
        Inl e \<Rightarrow> (d, Inl (StoreRaised e))
      | Inr d' \<Rightarrow>
     (case next_occurrences (a_env a) trig (a_now a) 3 of
        Inl e \<Rightarrow> (d', Inl (TriggerEscapes e))
      | Inr ups \<Rightarrow> (d', view_of a t ups)))"
      unfolding schedule_in_def ask p sum.case prod.case fst q t_def j_def Let_def by (rule refl)
    show ?thesis
    proof (cases "create_task t d")
      case (Inl e)
      then show ?thesis using assms eq by (intro refused [of "StoreRaised e"]) simp_all
    next
      case (Inr d1)
      then have "d' = d1" and "(\<exists>e. r = Inl (TriggerEscapes e)) \<or> (\<exists>ups. r = view_of a t ups)"
        using assms eq by (auto split: sum.splits)
      then show ?thesis using made t f Inr by blast
    qed
  qed
qed

lemma check_watch_ok:
  assumes "check_watch a agent ask d = Inr (name, key, prompt, until)"
  shows "name \<noteq> []" "length name \<le> MAX_NAME" "prompt \<noteq> []" "length prompt \<le> MAX_PROMPT"
    "room_for a agent name d = None" "MIN_WATCH_S \<le> w_every_s ask" "a_now a < until" "key \<noteq> []"
  using assms clean_name_bounds [of "w_name ask" name]
  by (auto simp: check_watch_def Let_def WATCH_PROMPT_def split: sum.splits option.splits if_splits moment_arg.splits)

lemma watch_in_effect:
  assumes "watch_in a tok agent ch conv k ask by d = (d', r)"
  obtains (refused) e where "d' = d" "r = Inl e"
  | (made) t where "create_task t d = Inr d'" "made_row a agent d t" "t_id t = ''tsk_'' @ tok"
      "t_conversation_id t = conv" "t_kind t = k" "t_channel_id t = ch" "t_mode t = MODE_WATCH"
      "MIN_WATCH_S \<le> t_interval_s t" "r = view_of a t []"
proof (cases "check_watch a agent ask d")
  case (Inl e)
  then show ?thesis using assms by (intro refused [of e]) (simp_all add: watch_in_def)
next
  case ask: (Inr p)
  obtain name key prompt until where p: "p = (name, key, prompt, until)" by (cases p) auto
  define trig where "trig = \<lparr>kind = TRIGGER_EVERY, spec = ''every '' @ show_int (w_every_s ask) @ ''s'',
                  anchor_at = a_now a, interval_s = w_every_s ask, cron_expr = [], timezone = a_timezone a\<rparr>"
  define t0 where "t0 = new_task a (''tsk_'' @ tok) agent name ch conv k prompt MODE_WATCH
                 trig (a_now a + seconds (w_every_s ask)) 0 ON_MISSED_RUN NOTIFY_FAILURES by"
  define t where "t = t0\<lparr>t_watch_key := key, t_expires_at := to_iso (Some until)\<rparr>"
  have ok: "0 < seconds (w_every_s ask)"
    using check_watch_ok [OF ask [unfolded p]] by (simp add: MIN_WATCH_S_def)
  have "made_row a agent d t0" unfolding t0_def
    using check_watch_ok [OF ask [unfolded p]] ok by (intro new_task_made) simp_all
  then have t: "made_row a agent d t" by (simp add: made_row_def t_def)
  have f: "t_id t = ''tsk_'' @ tok" "t_conversation_id t = conv" "t_kind t = k" "t_channel_id t = ch"
      "t_mode t = MODE_WATCH" "MIN_WATCH_S \<le> t_interval_s t"
    using check_watch_ok [OF ask [unfolded p]] by (simp_all add: t_def t0_def trig_def new_task_def Let_def)
  have eq: "watch_in a tok agent ch conv k ask by d = (case create_task t d of
        Inl e \<Rightarrow> (d, Inl (StoreRaised e)) | Inr d' \<Rightarrow> (d', view_of a t []))"
    unfolding watch_in_def ask p sum.case prod.case t_def t0_def trig_def Let_def by (rule refl)
  show ?thesis
  proof (cases "create_task t d")
    case (Inl e)
    then show ?thesis using assms eq by (intro refused [of "StoreRaised e"]) simp_all
  next
    case (Inr d1)
    then show ?thesis using made t f assms eq by simp
  qed
qed


section \<open>Finding a task\<close>

lemma find_own_Inr:
  assumes "find_own agent task d = Inr t"
  shows "t \<in> set (tasks d)" "t_agent t = agent"
  using assms fetchone_Some [of _ "tasks d" t]
  by (auto simp: find_own_def get_task_def find_task_def split: option.splits if_splits)

lemma find_own_Inl: "find_own agent task d = Inl e \<Longrightarrow> e = Refused (NoTask task)"
  by (auto simp: find_own_def split: option.splits if_splits)

lemma get_task_in:
  assumes "db_ok d" and "t \<in> set (tasks d)"
  shows "get_task (t_id t) d = Some t"
  unfolding get_task_def
  by (rule fetchone_unique [where k = t_id and x = "t_id t"]) (use db_okD(1) [OF assms(1)] assms(2) in simp_all)

section \<open>One operation of an agent\<close>

datatype admin_op =
    OpSchedule string "turn_session option" task_ask
  | OpScheduleIn string string string conv_kind task_ask string
  | OpWatch string "turn_session option" watch_ask
  | OpWatchIn string string string conv_kind watch_ask string
  | OpCancel string
  | OpPause string bool

fun admin_do :: "admin \<Rightarrow> string \<Rightarrow> admin_op \<Rightarrow> task_db \<Rightarrow> task_db \<times> (admin_exn + task_view)" where
  "admin_do a agent (OpSchedule tok session ask) d = schedule a tok agent session ask d"
| "admin_do a agent (OpScheduleIn tok ch conv k ask by_user) d = schedule_in a tok agent ch conv k ask by_user d"
| "admin_do a agent (OpWatch tok session ask) d = watch a tok agent session ask d"
| "admin_do a agent (OpWatchIn tok ch conv k ask by_user) d = watch_in a tok agent ch conv k ask by_user d"
| "admin_do a agent (OpCancel task) d = cancel a agent task d"
| "admin_do a agent (OpPause task paused) d = admin_set_paused a agent task paused d"

text \<open>What an operation did: nothing, a new row, a deletion, or a change of one row.\<close>

lemma set_paused_none: "set_paused i p now nr due d = (d', False) \<Longrightarrow> db_ok d \<Longrightarrow> d' = d"
proof -
  assume sp: "set_paused i p now nr due d = (d', False)" and ok: "db_ok d"
  let ?hit = "\<lambda>t. t_id t = i \<and> t_state t \<noteq> STATE_RUNNING"
  have "rowcount ?hit (tasks d) \<noteq> 1" using sp by (simp add: set_paused_def Let_def)
  moreover have "rowcount ?hit (tasks d) \<le> 1" using db_okD(1) [OF ok] by (rule rowcount_unique [where x = i]) simp
  ultimately have "rowcount ?hit (tasks d) = 0" by simp
  then have "\<forall>t \<in> set (tasks d). \<not> ?hit t" by (simp add: rowcount_0_iff)
  then have "upd_where ?hit f (tasks d) = tasks d" for f unfolding upd_where_def by (intro map_idI) auto
  then show "d' = d" using sp by (simp add: set_paused_def Let_def)
qed

lemma not_refused_case:
  "m \<noteq> Inl (Refused e) \<Longrightarrow> (\<And>x. f x \<noteq> Inl (Refused e))
    \<Longrightarrow> (case m of Inl e' \<Rightarrow> Inl e' | Inr x \<Rightarrow> f x) \<noteq> Inl (Refused e)"
  by (cases m) auto

lemma admin_do_effect:
  assumes "admin_do a agent op d = (d', r)" and "db_ok d"
  obtains (nothing) "d' = d" "\<exists>e. r = Inl e"
  | (made) t where "create_task t d = Inr d'" "made_row a agent d t" "\<And>e. r \<noteq> Inl (Refused e)"
  | (deleted) t where "t \<in> set (tasks d)" "t_agent t = agent" "d' = fst (delete_task (t_id t) d)"
      "\<And>e. r \<noteq> Inl (Refused e)"
  | (paused) t p nr due where "t \<in> set (tasks d)" "t_agent t = agent"
      "d' = fst (set_paused (t_id t) p (to_iso (Some (a_now a))) nr due d)" "\<And>e. r \<noteq> Inl (Refused e)"
proof -
  note was_nothing = nothing and was_made = made
  have vt: "local_time env m tz \<noteq> Inl (Refused e)" for env m tz e
    by (simp add: local_time_def Let_def split: option.splits)
  have vts: "local_times env ms tz \<noteq> Inl (Refused e)" for env ms tz e
    by (induction ms) (auto simp: vt map_sum_def split: sum.splits)
  have v: "view_of a t ups \<noteq> Inl (Refused e)" for t ups e
    unfolding view_of_def by (intro not_refused_case vt vts) simp
  have si: thesis if "schedule_in a tok agent ch conv k ask by d = (d', r)" for tok ch conv k ask "by"
    using that
  proof (cases rule: schedule_in_effect)
    case refused
    show thesis by (rule was_nothing) (use refused in auto)
  next
    case (made t)
    show thesis by (rule was_made [of t]) (use made v v [symmetric] in auto)
  qed
  have wi: thesis if "watch_in a tok agent ch conv k ask by d = (d', r)" for tok ch conv k ask "by"
    using that
  proof (cases rule: watch_in_effect)
    case refused
    show thesis by (rule was_nothing) (use refused in auto)
  next
    case (made t)
    show thesis by (rule was_made [of t]) (use made v v [symmetric] in auto)
  qed
  show thesis
  proof (cases op)
    case (OpSchedule tok session ask)
    show ?thesis
    proof (cases session)
      case None
      show ?thesis by (rule nothing) (use assms(1) OpSchedule None in \<open>auto simp: schedule_def\<close>)
    next
      case (Some x)
      show ?thesis by (rule si) (use assms(1) OpSchedule Some in \<open>simp add: schedule_def\<close>)
    qed
  next
    case (OpScheduleIn tok ch conv k ask byu)
    then show ?thesis using assms(1) si by simp
  next
    case (OpWatch tok session ask)
    show ?thesis
    proof (cases session)
      case None
      show ?thesis by (rule nothing) (use assms(1) OpWatch None in \<open>auto simp: watch_def\<close>)
    next
      case (Some x)
      show ?thesis by (rule wi) (use assms(1) OpWatch Some in \<open>simp add: watch_def\<close>)
    qed
  next
    case (OpWatchIn tok ch conv k ask byu)
    then show ?thesis using assms(1) wi by simp
  next
    case (OpCancel task)
    show ?thesis
    proof (cases "find_own agent task d")
      case (Inl e)
      show ?thesis by (rule nothing) (use assms(1) OpCancel Inl in \<open>auto simp: cancel_def\<close>)
    next
      case (Inr t)
      show ?thesis
        by (rule deleted [of t]) (use assms(1) OpCancel Inr find_own_Inr [OF Inr] v v [symmetric] in \<open>auto simp: cancel_def\<close>)
    qed
  next
    case (OpPause task p)
    show ?thesis
    proof (cases "find_own agent task d")
      case (Inl e)
      show ?thesis by (rule nothing) (use assms(1) OpPause Inl in \<open>auto simp: admin_set_paused_def\<close>)
    next
      case own: (Inr t)
      show ?thesis
      proof (cases "if p then Inr None else first_run (a_env a) (trigger_of (a_utc_now a) t) (a_now a)")
        case (Inl e)
        show ?thesis by (rule nothing)
            (use assms(1) OpPause Inl own in \<open>auto simp: admin_set_paused_def simp del: if_split\<close>)
      next
        case (Inr up)
        obtain d1 ok where sp: "set_paused (t_id t) p (to_iso (Some (a_now a))) (to_iso up)
             (to_iso (with_jitter up (t_jitter_s t))) d = (d1, ok)" by fastforce
        have eq: "admin_do a agent op d = (d1, if ok
            then view_of a (case get_task (t_id t) d1 of Some t \<Rightarrow> t | None \<Rightarrow> t) []
            else Inl (Refused (RunningNow (t_name t))))"
          unfolding OpPause admin_do.simps admin_set_paused_def own sum.case Inr sp by (cases ok) simp_all
        show ?thesis
        proof (cases ok)
          case True
          show ?thesis
            by (rule paused [of t p "to_iso up" "to_iso (with_jitter up (t_jitter_s t))"])
              (use True assms(1) eq sp v v [symmetric] find_own_Inr [OF own] in auto)
        next
          case False
          have "d1 = d" by (rule set_paused_none [OF sp [unfolded iffD2 [OF eq_False False]] assms(2)])
          show ?thesis by (rule nothing) (use \<open>d1 = d\<close> assms(1) eq False in auto)
        qed
      qed
    qed
  qed
qed


text \<open>Administration keeps the store sound: whatever an agent asks, the keys of the tables stay
  unique, every run belongs to a task, and a task is \<open>running\<close> exactly while one run of it,
  its owner's, is in flight.\<close>

lemma admin_keeps_the_store_sound:
  assumes "db_ok d" and "lease_ok d" and "admin_do a agent op d = (d', r)"
  shows "db_ok d' \<and> lease_ok d'"
  using assms(3,1)
proof (cases rule: admin_do_effect)
  case (made t)
  then show ?thesis using assms(1,2) db_ok_create_task lease_ok_create_task [OF assms(1,2), of t d']
    by (auto simp: made_row_def)
qed (use assms(1,2) in \<open>auto intro: db_ok_delete_task lease_ok_delete_task db_ok_set_paused lease_ok_set_paused\<close>)

text \<open>A refusal changes nothing: when an operation answers with a \<open>TaskError\<close> the database
  is the one it was asked on.\<close>

lemma refusal_changes_nothing:
  assumes "db_ok d" and "admin_do a agent op d = (d', Inl (Refused e))"
  shows "d' = d"
  using assms(2,1) by (cases rule: admin_do_effect) auto

section \<open>Agents are apart\<close>

text \<open>The tasks of everybody else, and the runs of those tasks.\<close>

definition others_tasks :: "string \<Rightarrow> task_db \<Rightarrow> task_record list" where
  "others_tasks agent d = filter (\<lambda>t. t_agent t \<noteq> agent) (tasks d)"

definition others_runs :: "string \<Rightarrow> task_db \<Rightarrow> task_run list" where
  "others_runs agent d = filter (\<lambda>r. r_task_id r \<in> t_id ` set (others_tasks agent d)) (task_runs d)"

lemma own_id_not_others:
  assumes "db_ok d" and "t \<in> set (tasks d)" and "t_agent t = agent"
  shows "t_id t \<notin> t_id ` set (others_tasks agent d)"
proof
  assume "t_id t \<in> t_id ` set (others_tasks agent d)"
  then obtain t' where t': "t' \<in> set (tasks d)" "t_agent t' \<noteq> agent" "t_id t' = t_id t"
    by (auto simp: others_tasks_def)
  then have "t' = t" using get_task_in [OF assms(1,2)] get_task_in [OF assms(1) t'(1)] by simp
  then show False using t'(2) assms(3) by simp
qed

lemma others_of_set_paused:
  assumes "t_id t \<notin> t_id ` set (others_tasks agent d)"
  shows "others_tasks agent (fst (set_paused (t_id t) p now nr due d)) = others_tasks agent d"
proof -
  let ?f = "\<lambda>x. x\<lparr>t_state := if p then STATE_PAUSED else STATE_IDLE, t_next_run_at := nr,
              t_due_at := due, t_updated_at := now\<rparr>"
  have keep: "filter (\<lambda>t. t_agent t \<noteq> agent) (upd_where (\<lambda>x. t_id x = t_id t \<and> t_state x \<noteq> STATE_RUNNING) ?f ts)
      = filter (\<lambda>t. t_agent t \<noteq> agent) ts" if "\<And>x. x \<in> set ts \<Longrightarrow> t_agent x \<noteq> agent \<Longrightarrow> t_id x \<noteq> t_id t" for ts
    using that by (induction ts) auto
  have "filter (\<lambda>t. t_agent t \<noteq> agent) (upd_where (\<lambda>x. t_id x = t_id t \<and> t_state x \<noteq> STATE_RUNNING) ?f (tasks d))
      = filter (\<lambda>t. t_agent t \<noteq> agent) (tasks d)"
    by (rule keep) (use assms in \<open>auto simp: others_tasks_def image_iff\<close>)
  then show ?thesis by (simp add: others_tasks_def set_paused_def Let_def)
qed

lemma others_of_delete:
  assumes "t_id t \<notin> t_id ` set (others_tasks agent d)"
  shows "others_tasks agent (fst (delete_task (t_id t) d)) = others_tasks agent d"
    and "others_runs agent (fst (delete_task (t_id t) d)) = others_runs agent d"
proof -
  show o: "others_tasks agent (fst (delete_task (t_id t) d)) = others_tasks agent d"
    using assms by (auto simp: others_tasks_def delete_task_def del_where_def image_iff split: option.splits intro!: filter_cong)
  show "others_runs agent (fst (delete_task (t_id t) d)) = others_runs agent d"
    unfolding others_runs_def o using assms
    by (auto simp: delete_task_def del_where_def split: option.splits intro!: filter_cong)
qed

text \<open>One agent cannot touch another's schedule: no operation an agent asks for changes a task
  of any other agent or the history of such a task, however the task is named.\<close>

lemma agents_are_apart:
  assumes "db_ok d" and "admin_do a agent op d = (d', r)"
  shows "others_tasks agent d' = others_tasks agent d \<and> others_runs agent d' = others_runs agent d"
  using assms(2,1)
proof (cases rule: admin_do_effect)
  case nothing
  then show ?thesis by simp
next
  case (made t)
  then have "d' = d\<lparr>tasks := tasks d @ [t]\<rparr>" and "t_agent t = agent"
    using create_task_fresh(1) by (auto simp: made_row_def)
  then show ?thesis by (simp add: others_tasks_def others_runs_def)
next
  case (deleted t)
  then show ?thesis using own_id_not_others [OF assms(1) deleted(1,2)] others_of_delete by metis
next
  case (paused t p nr due)
  have "task_runs d' = task_runs d" using paused(3) by (simp add: set_paused_def Let_def)
  moreover have "others_tasks agent d' = others_tasks agent d"
    unfolding paused(3) by (rule others_of_set_paused [OF own_id_not_others [OF assms(1) paused(1,2)]])
  ultimately show ?thesis by (simp add: others_runs_def)
qed


section \<open>What a creation and a cancellation leave\<close>

lemma length_list_tasks_append:
  "d' = d\<lparr>tasks := tasks d @ [t]\<rparr> \<Longrightarrow> length (list_tasks (t_agent t) [] d') = Suc (length (list_tasks (t_agent t) [] d))"
  by (simp add: list_tasks_def)

lemma find_task_append:
  assumes "find_task agent name d = None" and "t_agent t = agent" and "t_name t = name"
  shows "find_task agent name (d\<lparr>tasks := tasks d @ [t]\<rparr>) = Some t"
  using assms by (auto simp: find_task_def fetchone_def split: list.splits)

text \<open>A task an agent schedules is sound: one row is added and nothing else changes; it is the
  agent's, in the conversation it was asked for, idle, its name and prompt in bounds and its name
  new; its next run lies ahead (unless cron decides), its due time is that plus a jitter between
  zero and the cap; and the agent is still within its limit of tasks.\<close>

lemma scheduled_task_is_sound:
  assumes "schedule_in a tok agent ch conv k ask creator d = (d', Inr v)"
  shows "\<exists>t. tasks d' = tasks d @ [t] \<and> task_runs d' = task_runs d \<and> made_row a agent d t
     \<and> t_channel_id t = ch \<and> t_conversation_id t = conv \<and> t_kind t = k
     \<and> find_task agent (t_name t) d' = Some t \<and> v_id v = t_id t \<and> v_name v = t_name t
     \<and> length (list_tasks agent [] d') \<le> a_max_per_agent a"
  using assms
proof (cases rule: schedule_in_effect)
  case (made t)
  then have d': "d' = d\<lparr>tasks := tasks d @ [t]\<rparr>" using create_task_fresh(1) by blast
  from made obtain ups where v: "view_of a t ups = Inr v" by auto
  then have "v_id v = t_id t \<and> v_name v = t_name t"
    by (auto simp: view_of_def split: sum.splits)
  moreover have "t_agent t = agent" "find_task agent (t_name t) d = None"
    "length (list_tasks agent [] d) < a_max_per_agent a" using made(2) by (simp_all add: made_row_def)
  ultimately show ?thesis using made d' find_task_append [of agent "t_name t" d t]
      length_list_tasks_append [OF d'] by (intro exI [of _ t]) simp
qed simp

text \<open>A cancelled task is gone: neither its id nor its name finds anything, its runs have gone
  with it, and every other task is still there.\<close>

lemma cancelled_task_is_gone:
  assumes "db_ok d" and "find_own agent task d = Inr t" and "cancel a agent task d = (d', r)"
  shows "get_task (t_id t) d' = None \<and> find_task agent (t_name t) d' = None
     \<and> filter (\<lambda>r. r_task_id r = t_id t) (task_runs d') = []
     \<and> tasks d' = filter (\<lambda>t'. t_id t' \<noteq> t_id t) (tasks d)"
proof -
  note own = find_own_Inr [OF assms(2)]
  have d': "d' = d\<lparr>task_runs := del_where (\<lambda>r. r_task_id r = t_id t) (task_runs d),
              tasks := del_where (\<lambda>t'. t_id t' = t_id t) (tasks d)\<rparr>"
    using assms(2,3) get_task_in [OF assms(1) own(1)] by (simp add: cancel_def delete_task_def)
  have "inj_on (\<lambda>t. (t_agent t, t_name t)) (set (tasks d))"
    using assms(1) by (simp add: db_ok_def distinct_map)
  then have "t' = t" if "t' \<in> set (tasks d)" "t_agent t' = agent" "t_name t' = t_name t" for t'
    using that own by (auto dest: inj_onD)
  then have "find_task agent (t_name t) d' = None"
    unfolding find_task_def d' by (auto simp: fetchone_None)
  then show ?thesis by (auto simp: d' get_task_def fetchone_None del_where_def filter_empty_conv)
qed

section \<open>Alive\<close>


lemma sched_heartbeat_beat:
  "beat (db (sched_heartbeat c now s)) \<noteq> None"
  "hb_last_tick_at (the (beat (db (sched_heartbeat c now s)))) = iso now"
  "hb_interval_s (the (beat (db (sched_heartbeat c now s)))) = c_tick c"
  by (simp_all add: sched_heartbeat_def write_heartbeat_def Let_def)

lemma run_pass_beats: "\<exists>s'. fst (run_pass c now s) = sched_heartbeat c now s'"
proof (cases "tick c now s")
  case (Pair s1 res)
  show ?thesis
  proof (cases res)
    case (Inl e)
    then show ?thesis using Pair by (auto simp: run_pass_def)
  next
    case (Inr up)
    then show ?thesis using Pair by (auto simp: run_pass_def tick_def Let_def split: prod.splits sum.splits)
  qed
qed

text \<open>The health check reads the loop's passes: after any pass of the loop the verdict is
  \<open>alive\<close> until three intervals (of at least a second) have gone by since the pass, then
  \<open>stale\<close> - a pass whose tick raised counts like any other.\<close>

lemma a_pass_reads_alive:
  "fst (liveness (read_heartbeat (db (fst (run_pass c now s)))) later True)
     = (if later - floor_s now > max (c_tick c) second * 3 then STALE else ALIVE)"
proof -
  obtain s' where s': "fst (run_pass c now s) = sched_heartbeat c now s'" using run_pass_beats by blast
  obtain b where b: "beat (db (sched_heartbeat c now s')) = Some b"
    "hb_last_tick_at b = iso now" "hb_interval_s b = c_tick c"
    using sched_heartbeat_beat [of c now s'] by auto
  then show ?thesis unfolding s'
    by (simp add: liveness_def read_heartbeat_def iso_def to_iso_def from_iso_def floor_s_def Let_def STALE_TICKS_def)
qed

text \<open>A task whose cron expression the stepper refuses: its tick raises, and the check says \<open>alive\<close>.\<close>

definition broken_sched :: sched where
  "broken_sched = init_sched ''s1'' 0 (empty_db\<lparr>tasks :=
     [sample_task\<lparr>t_trigger_kind := TRIGGER_CRON, t_cron_expr := ''x''\<rparr>]\<rparr>)"

lemma failed_tick_reads_alive:
  "snd (tick sample_cfg (seconds 3610) broken_sched) = Inl (TriggerRaised CroniterError)
   \<and> fst (liveness (read_heartbeat (db (fst (run_pass sample_cfg (seconds 3610) broken_sched))))
            (seconds 3610) True) = ALIVE"
  by code_simp

section \<open>Witnesses\<close>

definition sample_admin :: admin where
  "sample_admin = \<lparr>a_env = jump_env, a_timezone = [], a_max_per_agent = 2, a_jitter_cap_s = 30,
     a_now = seconds 100, a_utc_now = seconds 100\<rparr>"

definition sample_ask :: task_ask where
  "sample_ask = \<lparr>k_name = '' Morning   news '', k_prompt = ''sum up'', k_schedule = ''every 15m'',
     k_mode = ''turn'', k_timezone = [], k_notify = ''failures'', k_on_missed = ''run''\<rparr>"

definition two_agents :: task_db where
  "two_agents = sample_db\<lparr>tasks := tasks sample_db @ [sample_task\<lparr>t_id := ''tsk_2'', t_agent := ''bob''\<rparr>]\<rparr>"

lemma two_agents_ok: "db_ok two_agents" "lease_ok two_agents"
  by code_simp+

lemma admin_keeps_the_store_sound_witness:
  "db_ok (fst (admin_do sample_admin ''bob'' (OpCancel ''tsk_2'') two_agents))
   \<and> length (tasks (fst (admin_do sample_admin ''bob'' (OpCancel ''tsk_2'') two_agents))) = 1"
proof -
  let ?p = "admin_do sample_admin ''bob'' (OpCancel ''tsk_2'') two_agents"
  have "length (tasks (fst ?p)) = 1" by code_simp
  then show ?thesis using admin_keeps_the_store_sound [OF two_agents_ok surjective_pairing] by blast
qed

lemma refusal_changes_nothing_witness:
  "fst (admin_do sample_admin ''bob'' (OpPause ''tsk_1'' True) two_agents) = two_agents"
proof -
  have "snd (admin_do sample_admin ''bob'' (OpPause ''tsk_1'' True) two_agents) = Inl (Refused (NoTask ''tsk_1''))"
    by code_simp
  then have "admin_do sample_admin ''bob'' (OpPause ''tsk_1'' True) two_agents
      = (fst (admin_do sample_admin ''bob'' (OpPause ''tsk_1'' True) two_agents), Inl (Refused (NoTask ''tsk_1'')))"
    by (metis prod.collapse)
  then show ?thesis by (rule refusal_changes_nothing [OF two_agents_ok(1)])
qed

lemma agents_are_apart_witness:
  "others_tasks ''bob'' (fst (admin_do sample_admin ''bob'' (OpCancel ''news'') two_agents))
     = others_tasks ''bob'' two_agents \<and> others_tasks ''bob'' two_agents \<noteq> []"
proof -
  have "others_tasks ''bob'' two_agents \<noteq> []" by code_simp
  then show ?thesis using agents_are_apart [OF two_agents_ok(1)] by (metis prod.collapse)
qed

lemma sample_check:
  "check_ask sample_admin ''bob'' sample_ask empty_db
     = Inr (''Morning news'', ''sum up'', MODE_TURN, NOTIFY_FAILURES, ON_MISSED_RUN)"
proof -
  have "clean_name (k_name sample_ask) = Inr ''Morning news''" by code_simp
  moreover have "strip (k_prompt sample_ask) = ''sum up''" by code_simp
  moreover have "room_for sample_admin ''bob'' ''Morning news'' empty_db = None" by code_simp
  moreover have "mode_named (k_mode sample_ask) = Some MODE_TURN" "MODE_TURN \<in> set SCHEDULED_MODES"
    "notify_named (k_notify sample_ask) = Some NOTIFY_FAILURES"
    "missed_named (k_on_missed sample_ask) = Some ON_MISSED_RUN" by code_simp+
  ultimately show ?thesis by (simp add: check_ask_def MAX_PROMPT_def)
qed

lemma sample_first:
  "first_of sample_admin sample_ask = Inr (\<lparr>kind = TRIGGER_EVERY, spec = ''every 15m'',
     anchor_at = seconds 100, interval_s = 900, cron_expr = [], timezone = []\<rparr>, seconds 1000)"
proof -
  have "join '' '' (split_ws ''every 15m'') = ''every 15m''"
    by (simp add: split_ws.simps is_space_def)
  moreover have "every_prefix ''every 15m'' = Some ''15m''" by code_simp
  moreover have "parse_duration ''15m'' = 900"
    by (simp add: parse_duration_def strip_def is_space_def match_duration_def is_digit_def
        unit_seconds_def lower_char_def read_nat_def digit_val_def)
  moreover have "floor_s (seconds 100) = seconds 100" by (simp add: floor_s_def)
  ultimately have "parse_trigger jump_env ''every 15m'' (seconds 100) [] = Inr \<lparr>kind = TRIGGER_EVERY,
      spec = ''every 15m'', anchor_at = seconds 100, interval_s = 900, cron_expr = [], timezone = []\<rparr>"
    by (simp add: parse_trigger_def zone_of_def MIN_INTERVAL_S_def)
  then show ?thesis
    by (simp add: first_of_def sample_admin_def sample_ask_def first_run_def advance_past_def
        advance_interval_def index_of_def seconds_def second_def)
qed

lemma scheduled_task_is_sound_witness:
  "\<exists>d t. fst (schedule_in sample_admin ''1'' ''bob'' ''c1'' ''v1'' KIND_DM sample_ask ''u1'' empty_db) = d
     \<and> tasks d = [t] \<and> made_row sample_admin ''bob'' empty_db t"
proof -
  obtain d r where s: "schedule_in sample_admin ''1'' ''bob'' ''c1'' ''v1'' KIND_DM sample_ask ''u1'' empty_db = (d, r)"
    by fastforce
  then have "\<exists>v. r = Inr v"
    unfolding schedule_in_def sample_check sample_first sum.case prod.case
    by (auto simp: create_task_def empty_db_def next_occurrences_def numeral_3_eq_3 advance_past_def
        advance_interval_def index_of_def sample_admin_def Let_def view_of_def local_time_def new_task_def
        seconds_def second_def split: option.splits)
  then obtain v where r: "r = Inr v" by blast
  have "tasks empty_db = []" by (simp add: empty_db_def)
  then show ?thesis using scheduled_task_is_sound [OF s [unfolded r]] s by auto
qed

lemma cancelled_task_is_gone_witness:
  "\<exists>d r. cancel sample_admin ''bob'' ''tsk_2'' two_agents = (d, r) \<and> get_task ''tsk_2'' d = None
     \<and> get_task ''tsk_2'' two_agents \<noteq> None"
proof -
  have g: "get_task ''tsk_2'' two_agents \<noteq> None" by code_simp
  have o: "find_own ''bob'' ''tsk_2'' two_agents = Inr (sample_task\<lparr>t_id := ''tsk_2'', t_agent := ''bob''\<rparr>)"
    by code_simp
  obtain d r where c: "cancel sample_admin ''bob'' ''tsk_2'' two_agents = (d, r)" by fastforce
  have "get_task ''tsk_2'' d = None" using cancelled_task_is_gone [OF two_agents_ok(1) o c] by simp
  then show ?thesis using g c by blast
qed

section \<open>A default zone nobody checked\<close>

text \<open>
  \<open>watch_in\<close> takes the default zone as it is configured, and only showing the stored task looks
  the zone up: with an unknown zone the agent is told of an error and the watch is kept.
\<close>

definition lost_admin :: admin where
  "lost_admin = sample_admin\<lparr>a_timezone := ''Mars''\<rparr>"

definition sample_watch :: watch_ask where
  "sample_watch = \<lparr>w_name = ''build'', w_key = ''build-7'', w_every_s = 30, w_until = Aware (seconds 900),
     w_prompt = ''look''\<rparr>"

lemma watch_kept_despite_error:
  "\<exists>t. watch_in lost_admin ''1'' ''bob'' ''c1'' ''v1'' KIND_DM sample_watch ''u1'' empty_db
     = (empty_db\<lparr>tasks := [t]\<rparr>, Inl (ZoneNotFound ''Mars''))"
proof -
  have "clean_name ''build'' = Inr ''build''" "strip ''build-7'' = ''build-7''" "strip ''look'' = ''look''"
    "room_for lost_admin ''bob'' ''build'' empty_db = None" by code_simp+
  then have "check_watch lost_admin ''bob'' sample_watch empty_db = Inr (''build'', ''build-7'', ''look'', seconds 900)"
    by (simp add: check_watch_def sample_watch_def lost_admin_def sample_admin_def MAX_PROMPT_def MIN_WATCH_S_def)
  then show ?thesis
    unfolding watch_in_def
    by (simp add: create_task_def empty_db_def view_of_def local_time_def new_task_def Let_def
        lost_admin_def sample_admin_def jump_env_def from_iso_def to_iso_def)
qed

end
