(* ===== verification/Sessions.thy ===== *)
theory Sessions
  imports TaskStore
begin

text \<open>
  The session inventory: the records and the deterministic session key of
  \<open>packages/crucible/src/crucible/store/base.py\<close>, and the sessions, processed posts, pending
  widgets, pending forms and registered agents of \<open>store/sqlite/sessions.py\<close>.

  The database is a record of tables as in \<open>TaskStore\<close>.  The JSON text of the \<open>gateways\<close>
  column is the object it denotes (names with the members of their addresses, a member that is
  missing is \<open>None\<close>); text that is not such an object, which no method writes, is not modelled.
  \<open>digest\<close> is the function from a text to the first twelve hex digits of its SHA-256.
\<close>

section \<open>The session key\<close>

definition safe_id_char :: "char \<Rightarrow> bool" where
  "safe_id_char c \<longleftrightarrow> (let n = (of_char c :: nat) in
     65 \<le> n \<and> n \<le> 90 \<or> 97 \<le> n \<and> n \<le> 122 \<or> 48 \<le> n \<and> n \<le> 57 \<or> n = 45 \<or> n = 46 \<or> n = 95)"

text \<open>\<open>strip("-._")\<close>.\<close>

definition edge_char :: "char \<Rightarrow> bool" where
  "edge_char c \<longleftrightarrow> c = CHR ''-'' \<or> c = CHR ''.'' \<or> c = CHR ''_''"

definition strip_edges :: "string \<Rightarrow> string" where
  "strip_edges s = rev (dropWhile edge_char (rev (dropWhile edge_char s)))"

definition raw_session_key :: "string \<Rightarrow> string \<Rightarrow> string" where
  "raw_session_key agent conversation_id = agent @ ''--'' @ conversation_id"

definition coerced :: "string \<Rightarrow> string" where
  "coerced raw = strip_edges (map (\<lambda>c. if safe_id_char c then c else CHR ''-'') raw)"

definition derive_runtime_session_id :: "(string \<Rightarrow> string) \<Rightarrow> string \<Rightarrow> string \<Rightarrow> string" where
  "derive_runtime_session_id digest agent conversation_id =
     (let raw = raw_session_key agent conversation_id; cleaned = coerced raw in
      if cleaned = raw then cleaned
      else (if cleaned \<noteq> [] then cleaned else ''session'') @ ''-'' @ digest raw)"

section \<open>Records\<close>

record address_json =
  aj_channel_id :: "string option"
  aj_conversation_id :: "string option"
  aj_kind :: "string option"
  aj_direct :: "bool option"

record gateway_address =
  ga_channel_id :: string
  ga_conversation_id :: string
  ga_kind :: string
  ga_direct :: bool

record session_record =
  se_agent :: string
  se_channel_id :: string
  se_conversation_id :: string
  se_kind :: string
  se_runtime_session_id :: string
  se_created_at :: stamp
  se_last_active :: stamp
  se_last_user_id :: string
  se_last_engine_turn_at :: "stamp option"
  se_cut_short :: string
  se_gateways :: "(string \<times> address_json) list"
  se_last_gateway :: string

record interaction_record =
  in_interaction_id :: string
  in_token :: string
  in_agent :: string
  in_channel_id :: string
  in_conversation_id :: string
  in_kind :: string
  in_created_at :: stamp
  in_gateway :: string
  in_thread_root_id :: string

record form_record =
  fo_token :: string
  fo_agent :: string
  fo_channel_id :: string
  fo_conversation_id :: string
  fo_kind :: string
  fo_spec :: string
  fo_created_at :: stamp
  fo_post_id :: string
  fo_handler :: string
  fo_gateway :: string
  fo_thread_root_id :: string

record agent_info =
  ai_name :: string
  ai_role :: string
  ai_description :: string
  ai_username :: string
  ai_user_id :: string

record processed_post =
  pp_agent :: string
  pp_post_id :: string
  pp_seen_at :: "stamp option"

record session_db =
  sessions :: "session_record list"
  agents :: "(agent_info \<times> stamp) list"
  processed :: "processed_post list"
  interactions :: "interaction_record list"
  forms :: "form_record list"

definition no_sessions :: session_db where
  "no_sessions = \<lparr>sessions = [], agents = [], processed = [], interactions = [], forms = []\<rparr>"

section \<open>Addresses\<close>

definition or_empty :: "string option \<Rightarrow> string" where
  "or_empty s = (case s of Some x \<Rightarrow> x | None \<Rightarrow> [])"

definition gateway_addresses :: "session_record \<Rightarrow> (string \<times> gateway_address) list" where
  "gateway_addresses r =
     map (\<lambda>(name, a). (name, \<lparr>ga_channel_id = or_empty (aj_channel_id a),
        ga_conversation_id = or_empty (aj_conversation_id a), ga_kind = or_empty (aj_kind a),
        ga_direct = (case aj_direct a of Some b \<Rightarrow> b | None \<Rightarrow> aj_kind a = Some ''dm'')\<rparr>)) (se_gateways r)"

definition address_to_json :: "gateway_address \<Rightarrow> address_json" where
  "address_to_json a = \<lparr>aj_channel_id = Some (ga_channel_id a),
     aj_conversation_id = Some (ga_conversation_id a), aj_kind = Some (ga_kind a),
     aj_direct = Some (ga_direct a)\<rparr>"

text \<open>\<open>current[gateway] = value\<close> on a dict, then \<open>json.dumps(..., sort_keys=True)\<close>.\<close>

definition with_gateway_address :: "session_record \<Rightarrow> string \<Rightarrow> gateway_address
    \<Rightarrow> (string \<times> address_json) list" where
  "with_gateway_address r gateway address =
     sort_key fst ((gateway, address_to_json address)
       # filter (\<lambda>(n, _). n \<noteq> gateway)
           (map (\<lambda>(n, a). (n, address_to_json a)) (gateway_addresses r)))"

text \<open>\<open>idle_before\<close> for a row the engine wrote.\<close>

definition idle_before :: "session_record \<Rightarrow> stamp \<Rightarrow> bool" where
  "idle_before r cutoff \<longleftrightarrow> se_last_active r < cutoff"

section \<open>Sessions\<close>

definition of_conversation :: "string \<Rightarrow> string \<Rightarrow> session_record \<Rightarrow> bool" where
  "of_conversation agent conv s \<longleftrightarrow> se_agent s = agent \<and> se_conversation_id s = conv"

definition get_or_create :: "(string \<Rightarrow> string) \<Rightarrow> string \<Rightarrow> string \<Rightarrow> string \<Rightarrow> string \<Rightarrow> string \<Rightarrow> string
    \<Rightarrow> stamp \<Rightarrow> session_db \<Rightarrow> sql_error + (session_db \<times> session_record \<times> bool)" where
  "get_or_create digest agent channel_id conv k user_id gateway now d =
     (let rid = derive_runtime_session_id digest agent conv in
      case fetchone (of_conversation agent conv) (sessions d) of
        None \<Rightarrow>
          (if \<exists>s \<in> set (sessions d). se_runtime_session_id s = rid then Inl IntegrityError
           else let row = \<lparr>se_agent = agent, se_channel_id = channel_id, se_conversation_id = conv,
                  se_kind = k, se_runtime_session_id = rid, se_created_at = now, se_last_active = now,
                  se_last_user_id = user_id, se_last_engine_turn_at = None, se_cut_short = [],
                  se_gateways = [], se_last_gateway = gateway\<rparr> in
                Inr (d\<lparr>sessions := sessions d @ [row]\<rparr>, row, True))
      | Some row \<Rightarrow>
          (let f = (\<lambda>s. s\<lparr>se_last_user_id := (if user_id \<noteq> [] then user_id else se_last_user_id s),
                          se_last_gateway := (if gateway \<noteq> [] then gateway else se_last_gateway s)\<rparr>) in
           Inr (d\<lparr>sessions := upd_where (of_conversation agent conv) f (sessions d)\<rparr>, f row, False)))"

definition touch_session :: "string \<Rightarrow> string \<Rightarrow> string \<Rightarrow> bool \<Rightarrow> stamp \<Rightarrow> session_db \<Rightarrow> session_db" where
  "touch_session agent conv user_id engine_turn now d =
     d\<lparr>sessions := upd_where (of_conversation agent conv)
        (\<lambda>s. s\<lparr>se_last_active := now,
               se_last_user_id := (if user_id \<noteq> [] then user_id else se_last_user_id s),
               se_last_engine_turn_at := (if engine_turn then Some now else se_last_engine_turn_at s)\<rparr>)
        (sessions d)\<rparr>"

definition set_gateway_address :: "string \<Rightarrow> string \<Rightarrow> string \<Rightarrow> gateway_address \<Rightarrow> session_db \<Rightarrow> session_db" where
  "set_gateway_address agent conv gateway address d =
     (case fetchone (of_conversation agent conv) (sessions d) of
        None \<Rightarrow> d
      | Some row \<Rightarrow> d\<lparr>sessions := upd_where (of_conversation agent conv)
          (\<lambda>s. s\<lparr>se_gateways := with_gateway_address row gateway address\<rparr>) (sessions d)\<rparr>)"

definition set_cut_short :: "string \<Rightarrow> string \<Rightarrow> string \<Rightarrow> session_db \<Rightarrow> session_db" where
  "set_cut_short agent conv note_text d =
     d\<lparr>sessions := upd_where (of_conversation agent conv) (\<lambda>s. s\<lparr>se_cut_short := note_text\<rparr>) (sessions d)\<rparr>"

text \<open>\<open>ORDER BY ... DESC\<close>: rows that tie stay in insertion order.\<close>

definition recent_engine_turns :: "string \<Rightarrow> stamp option \<Rightarrow> session_db \<Rightarrow> session_record list" where
  "recent_engine_turns agent since d =
     rev (sort_key se_last_engine_turn_at (rev (filter (\<lambda>s. se_agent s = agent
        \<and> since \<le> se_last_engine_turn_at s \<and> se_last_engine_turn_at s \<noteq> None) (sessions d))))"

definition list_sessions :: "string option \<Rightarrow> session_db \<Rightarrow> session_record list" where
  "list_sessions agent d =
     rev (sort_key se_last_active (rev (filter (\<lambda>s. case agent of None \<Rightarrow> True | Some a \<Rightarrow> se_agent s = a)
       (sessions d))))"

definition delete_session :: "string \<Rightarrow> string \<Rightarrow> session_db \<Rightarrow> session_db \<times> session_record option" where
  "delete_session agent conv d =
     (case fetchone (of_conversation agent conv) (sessions d) of
        None \<Rightarrow> (d, None)
      | Some row \<Rightarrow> (d\<lparr>sessions := del_where (of_conversation agent conv) (sessions d)\<rparr>, Some row))"

definition get_by_runtime_session :: "string \<Rightarrow> session_db \<Rightarrow> session_record option" where
  "get_by_runtime_session rid d = fetchone (\<lambda>s. se_runtime_session_id s = rid) (sessions d)"

section \<open>Widgets and forms\<close>

definition create_interaction :: "interaction_record \<Rightarrow> session_db \<Rightarrow> sql_error + session_db" where
  "create_interaction r d =
     (if \<exists>i \<in> set (interactions d). in_interaction_id i = in_interaction_id r \<or> in_token i = in_token r
      then Inl IntegrityError
      else Inr (d\<lparr>interactions := interactions d @ [r]\<rparr>))"

definition take_interaction :: "string \<Rightarrow> session_db \<Rightarrow> session_db \<times> interaction_record option" where
  "take_interaction token d =
     (case fetchone (\<lambda>i. in_token i = token) (interactions d) of
        None \<Rightarrow> (d, None)
      | Some r \<Rightarrow> (d\<lparr>interactions := del_where (\<lambda>i. in_token i = token) (interactions d)\<rparr>, Some r))"

definition create_form :: "form_record \<Rightarrow> session_db \<Rightarrow> sql_error + session_db" where
  "create_form r d =
     (if \<exists>f \<in> set (forms d). fo_token f = fo_token r then Inl IntegrityError
      else Inr (d\<lparr>forms := forms d @ [r]\<rparr>))"

definition get_form :: "string \<Rightarrow> session_db \<Rightarrow> form_record option" where
  "get_form token d = fetchone (\<lambda>f. fo_token f = token) (forms d)"

definition delete_form :: "string \<Rightarrow> session_db \<Rightarrow> session_db" where
  "delete_form token d = d\<lparr>forms := del_where (\<lambda>f. fo_token f = token) (forms d)\<rparr>"

section \<open>Posts already seen, and the agents\<close>

definition mark_processed :: "string \<Rightarrow> string \<Rightarrow> stamp \<Rightarrow> session_db \<Rightarrow> session_db \<times> bool" where
  "mark_processed agent post_id now d =
     (if \<exists>p \<in> set (processed d). pp_agent p = agent \<and> pp_post_id p = post_id then (d, False)
      else (d\<lparr>processed := processed d @ [\<lparr>pp_agent = agent, pp_post_id = post_id, pp_seen_at = Some now\<rparr>]\<rparr>,
            True))"

definition prune_processed :: "stamp \<Rightarrow> session_db \<Rightarrow> session_db \<times> nat" where
  "prune_processed before d =
     (let old = (\<lambda>p. pp_seen_at p < Some before) in
      (d\<lparr>processed := del_where old (processed d)\<rparr>, rowcount old (processed d)))"

definition upsert_agent :: "agent_info \<Rightarrow> stamp \<Rightarrow> session_db \<Rightarrow> session_db" where
  "upsert_agent info now d =
     (if \<exists>(a, _) \<in> set (agents d). ai_name a = ai_name info
      then d\<lparr>agents := upd_where (\<lambda>(a, _). ai_name a = ai_name info) (\<lambda>_. (info, now)) (agents d)\<rparr>
      else d\<lparr>agents := agents d @ [(info, now)]\<rparr>)"

definition list_agents :: "session_db \<Rightarrow> agent_info list" where
  "list_agents d = sort_key ai_name (map fst (agents d))"

end
