(* ===== verification/SessionProps.thy ===== *)
theory SessionProps
  imports Sessions
begin

text \<open>
  What the session inventory promises: unique keys over every sequence of calls, a session key
  that is safe as a file name and keeps conversations apart, a conversation that resumes the
  session it had, and posts and widgets that are taken once.
\<close>

section \<open>The session key\<close>

lemma edge_safe: "edge_char c \<Longrightarrow> safe_id_char c"
  by (auto simp: edge_char_def safe_id_char_def)

lemma strip_edges_subset: "set (strip_edges s) \<subseteq> set s"
proof
  fix c
  assume "c \<in> set (strip_edges s)"
  then show "c \<in> set s"
    using set_dropWhileD [of c edge_char "rev (dropWhile edge_char s)"] set_dropWhileD [of c edge_char s]
    by (simp add: strip_edges_def)
qed

lemma strip_edges_hd: "strip_edges s \<noteq> [] \<Longrightarrow> \<not> edge_char (hd (strip_edges s))"
proof -
  let ?t = "dropWhile edge_char s"
  assume ne: "strip_edges s \<noteq> []"
  then have t: "?t \<noteq> []" unfolding strip_edges_def by (metis dropWhile.simps(1) rev.simps(1))
  then have h: "\<not> edge_char (hd ?t)" by (rule hd_dropWhile)
  have "strip_edges s = take (length (dropWhile edge_char (rev ?t))) ?t"
    unfolding strip_edges_def
    by (metis append_eq_conv_conj length_rev rev_append rev_rev_ident takeWhile_dropWhile_id)
  then show ?thesis using ne h by (metis hd_take take_eq_Nil bot_nat_0.not_eq_extremum)
qed

lemma coerced_safe: "c \<in> set (coerced raw) \<Longrightarrow> safe_id_char c"
  using strip_edges_subset [of "map (\<lambda>c. if safe_id_char c then c else CHR ''-'') raw"]
  by (auto simp: coerced_def safe_id_char_def split: if_splits)

text \<open>The session key is safe as a file name and as the runtime's id: it is never empty, holds
  only letters, digits, dots, underscores and dashes, and does not begin with one of the last
  three, whatever the conversation is called.\<close>

lemma session_key_is_safe:
  assumes "\<And>c. c \<in> set (digest (raw_session_key agent conv)) \<Longrightarrow> safe_id_char c"
  shows "derive_runtime_session_id digest agent conv \<noteq> []
     \<and> (\<forall>c \<in> set (derive_runtime_session_id digest agent conv). safe_id_char c)
     \<and> \<not> edge_char (hd (derive_runtime_session_id digest agent conv))"
proof (cases "coerced (raw_session_key agent conv) = raw_session_key agent conv")
  case True
  then have "derive_runtime_session_id digest agent conv = coerced (raw_session_key agent conv)"
    by (simp add: derive_runtime_session_id_def)
  moreover have "coerced (raw_session_key agent conv) \<noteq> []"
    unfolding True by (simp add: raw_session_key_def)
  ultimately show ?thesis using coerced_safe strip_edges_hd by (auto simp: coerced_def)
next
  case False
  let ?c = "coerced (raw_session_key agent conv)"
  let ?h = "if ?c \<noteq> [] then ?c else ''session''"
  have d: "derive_runtime_session_id digest agent conv = ?h @ ''-'' @ digest (raw_session_key agent conv)"
    using False by (simp add: derive_runtime_session_id_def Let_def)
  have "\<not> edge_char (hd ?h)" using strip_edges_hd by (auto simp: coerced_def edge_char_def)
  moreover have "\<forall>c \<in> set ?h. safe_id_char c" using coerced_safe by (auto simp: safe_id_char_def)
  moreover have "safe_id_char CHR ''-''" by (simp add: safe_id_char_def)
  moreover have "?h \<noteq> []" by simp
  ultimately show ?thesis unfolding d using assms by auto
qed

text \<open>
  When the keys of two texts are one: the texts are; or neither is spelled safely, and they clean
  to the same name and have the same digest; or one is spelled safely and is letter by letter the
  other's name with the other's digest.
\<close>

definition key_name :: "string \<Rightarrow> string" where
  "key_name raw = (if coerced raw \<noteq> [] then coerced raw else ''session'')"

definition keys_meet :: "(string \<Rightarrow> string) \<Rightarrow> string \<Rightarrow> string \<Rightarrow> bool" where
  "keys_meet digest r r' \<longleftrightarrow> r = r'
     \<or> coerced r \<noteq> r \<and> coerced r' \<noteq> r' \<and> key_name r = key_name r' \<and> digest r = digest r'
     \<or> coerced r = r \<and> coerced r' \<noteq> r' \<and> r = key_name r' @ ''-'' @ digest r'
     \<or> coerced r' = r' \<and> coerced r \<noteq> r \<and> r' = key_name r @ ''-'' @ digest r"

lemma derived_keys_meet:
  assumes len: "\<And>r. length (digest r) = n"
  shows "derive_runtime_session_id digest a conv = derive_runtime_session_id digest a' conv'
    \<longleftrightarrow> keys_meet digest (raw_session_key a conv) (raw_session_key a' conv')"
proof -
  define r where "r = raw_session_key a conv"
  define r' where "r' = raw_session_key a' conv'"
  have d: "derive_runtime_session_id digest a conv = (if coerced r = r then r else key_name r @ ''-'' @ digest r)"
    "derive_runtime_session_id digest a' conv' = (if coerced r' = r' then r' else key_name r' @ ''-'' @ digest r')"
    by (simp_all add: derive_runtime_session_id_def key_name_def r_def r'_def Let_def)
  have "key_name r @ ''-'' @ digest r = key_name r' @ ''-'' @ digest r' \<longleftrightarrow> key_name r = key_name r' \<and> digest r = digest r'"
    using append_eq_append_conv [of "digest r" "digest r'" "key_name r @ ''-''" "key_name r' @ ''-''"] len by simp
  then show ?thesis unfolding d keys_meet_def r_def [symmetric] r'_def [symmetric]
    by (cases "coerced r = r"; cases "coerced r' = r'") auto
qed

section \<open>Keys of the tables\<close>

definition sessions_ok :: "(string \<Rightarrow> string) \<Rightarrow> session_db \<Rightarrow> bool" where
  "sessions_ok digest d \<longleftrightarrow>
     distinct (map (\<lambda>s. (se_agent s, se_conversation_id s)) (sessions d))
   \<and> distinct (map se_runtime_session_id (sessions d))
   \<and> (\<forall>s \<in> set (sessions d). se_runtime_session_id s
        = derive_runtime_session_id digest (se_agent s) (se_conversation_id s))
   \<and> distinct (map in_interaction_id (interactions d)) \<and> distinct (map in_token (interactions d))
   \<and> distinct (map fo_token (forms d))
   \<and> distinct (map (\<lambda>p. (pp_agent p, pp_post_id p)) (processed d))
   \<and> distinct (map (\<lambda>(a, _). ai_name a) (agents d))"

text \<open>One call of any method that writes.\<close>

inductive inventory_step :: "(string \<Rightarrow> string) \<Rightarrow> session_db \<Rightarrow> session_db \<Rightarrow> bool"
  for digest :: "string \<Rightarrow> string" where
  opened: "get_or_create digest a ch conv k u g now d = Inr (d', row, fresh) \<Longrightarrow> inventory_step digest d d'"
| touched: "inventory_step digest d (touch_session a conv u e now d)"
| addressed: "inventory_step digest d (set_gateway_address a conv g addr d)"
| cut: "inventory_step digest d (set_cut_short a conv t d)"
| dropped: "inventory_step digest d (fst (delete_session a conv d))"
| widget: "create_interaction i d = Inr d' \<Longrightarrow> inventory_step digest d d'"
| clicked: "inventory_step digest d (fst (take_interaction tok d))"
| form: "create_form f d = Inr d' \<Longrightarrow> inventory_step digest d d'"
| unformed: "inventory_step digest d (delete_form tok d)"
| seen: "inventory_step digest d (fst (mark_processed a p now d))"
| pruned: "inventory_step digest d (fst (prune_processed before d))"
| enrolled: "inventory_step digest d (upsert_agent info now d)"

lemma sessions_ok_upd:
  assumes "sessions_ok digest d"
    and "\<And>s. se_agent (f s) = se_agent s \<and> se_conversation_id (f s) = se_conversation_id s
          \<and> se_runtime_session_id (f s) = se_runtime_session_id s"
  shows "sessions_ok digest (d\<lparr>sessions := upd_where p f (sessions d)\<rparr>)"
proof -
  have "map (\<lambda>s. (se_agent s, se_conversation_id s)) (upd_where p f (sessions d))
      = map (\<lambda>s. (se_agent s, se_conversation_id s)) (sessions d)"
    and "map se_runtime_session_id (upd_where p f (sessions d)) = map se_runtime_session_id (sessions d)"
    using assms(2) by (auto intro!: upd_where_keeps)
  then show ?thesis using assms by (auto simp: sessions_ok_def upd_where_set)
qed

lemma fetch_session:
  "fetchone (of_conversation a conv) (sessions d) = None
    \<longleftrightarrow> (\<forall>s \<in> set (sessions d). \<not> (se_agent s = a \<and> se_conversation_id s = conv))"
  by (simp add: fetchone_None of_conversation_def)

lemma sessions_ok_get_or_create:
  assumes "sessions_ok digest d" and "get_or_create digest a ch conv k u g now d = Inr (d', row, fresh)"
  shows "sessions_ok digest d'"
proof (cases "fetchone (of_conversation a conv) (sessions d)")
  case None
  then have d': "d' = d\<lparr>sessions := sessions d @ [row]\<rparr>"
    and key: "se_agent row = a" "se_conversation_id row = conv"
      "se_runtime_session_id row = derive_runtime_session_id digest a conv"
    and new: "\<forall>s \<in> set (sessions d). se_runtime_session_id s \<noteq> derive_runtime_session_id digest a conv"
    using assms(2) by (auto simp: get_or_create_def Let_def split: if_splits)
  have "\<forall>s \<in> set (sessions d). \<not> (se_agent s = a \<and> se_conversation_id s = conv)"
    using None by (simp add: fetch_session)
  then show ?thesis using assms(1) key new d' by (auto simp: sessions_ok_def)
next
  case (Some r)
  show ?thesis using assms Some by (auto simp: get_or_create_def Let_def intro!: sessions_ok_upd)
qed

lemma create_interaction_fresh:
  assumes "create_interaction i d = Inr d'"
  shows "d' = d\<lparr>interactions := interactions d @ [i]\<rparr>"
    "in_interaction_id i \<notin> in_interaction_id ` set (interactions d)" "in_token i \<notin> in_token ` set (interactions d)"
  using assms by (auto simp: create_interaction_def image_iff split: if_splits)

lemma inventory_step_keeps: "inventory_step digest d d' \<Longrightarrow> sessions_ok digest d \<Longrightarrow> sessions_ok digest d'"
proof (induction rule: inventory_step.induct)
  case (opened a ch conv k u g now d d' row fresh)
  then show ?case using sessions_ok_get_or_create by blast
next
  case (touched d a conv u e now)
  then show ?case unfolding touch_session_def by (intro sessions_ok_upd) simp_all
next
  case (addressed d a conv g addr)
  then show ?case
    by (cases "fetchone (of_conversation a conv) (sessions d)")
      (simp_all add: set_gateway_address_def sessions_ok_upd)
next
  case (cut d a conv t)
  then show ?case unfolding set_cut_short_def by (intro sessions_ok_upd) simp_all
next
  case (dropped d a conv)
  then show ?case by (auto simp: sessions_ok_def delete_session_def row_simps split: option.splits)
next
  case (widget i d d')
  then show ?case using create_interaction_fresh [OF widget.hyps] by (simp add: sessions_ok_def)
next
  case (clicked d tok)
  then show ?case by (auto simp: sessions_ok_def take_interaction_def row_simps split: option.splits)
next
  case (form f d d')
  then have "fo_token f \<notin> fo_token ` set (forms d)" "d' = d\<lparr>forms := forms d @ [f]\<rparr>"
    by (auto simp: create_form_def image_iff split: if_splits)
  then show ?case using form.prems by (simp add: sessions_ok_def)
next
  case (unformed d tok)
  then show ?case by (auto simp: sessions_ok_def delete_form_def row_simps)
next
  case (seen d a p now)
  then show ?case by (auto simp: sessions_ok_def mark_processed_def)
next
  case (pruned d before)
  then show ?case by (auto simp: sessions_ok_def prune_processed_def Let_def row_simps)
next
  case (enrolled d info now)
  have "map (\<lambda>(a, _). ai_name a) (upd_where (\<lambda>(a, _). ai_name a = ai_name info) (\<lambda>_. (info, now)) xs)
      = map (\<lambda>(a, _). ai_name a) xs" for xs :: "(agent_info \<times> stamp) list"
    by (rule upd_where_keeps) auto
  then show ?case using enrolled by (force simp: sessions_ok_def upsert_agent_def)
qed

interpretation inventory: invariant_system "\<lambda>d. d = no_sessions" "inventory_step digest" "sessions_ok digest" for digest
  by unfold_locales (simp add: sessions_ok_def no_sessions_def, metis inventory_step_keeps)

text \<open>The inventory's keys hold over every sequence of calls: one session per agent and
  conversation, no two with one runtime key, each runtime key the one derived from the pair (so
  a lost database resumes the same session), and unique widgets, tokens, posts and agents.\<close>

lemma inventory_keys:
  assumes "reachable (\<lambda>d. d = no_sessions) (inventory_step digest) d"
  shows "sessions_ok digest d"
  using assms by (rule inventory.reachable_inv)

text \<open>C12. No two conversations share a session.  In every inventory that calls of its methods
  can make, with a digest of fixed length: rows with one runtime key are rows of one agent and
  conversation; a conversation that is asked for either gets a row of its own, whose key no other
  row has, made new exactly when there was none, or the call raises the \<open>IntegrityError\<close> of the
  unique index; and that happens exactly to a conversation without a row whose text meets the
  text of another's row: the same text under another agent name, two texts that clean to one name
  with one digest, or a text that spells out the other's cleaned name with its digest.\<close>

theorem sessions_are_never_shared:
  assumes reach: "reachable (\<lambda>d. d = no_sessions) (inventory_step digest) d"
    and len: "\<And>r. length (digest r) = n"
  shows "(\<forall>s \<in> set (sessions d). \<forall>s' \<in> set (sessions d). se_runtime_session_id s = se_runtime_session_id s'
        \<longrightarrow> se_agent s = se_agent s' \<and> se_conversation_id s = se_conversation_id s')
    \<and> (case get_or_create digest agent ch conv k u g now d of
        Inl e \<Rightarrow> e = IntegrityError
          \<and> (\<forall>s \<in> set (sessions d). \<not> (se_agent s = agent \<and> se_conversation_id s = conv))
          \<and> (\<exists>s \<in> set (sessions d). keys_meet digest (raw_session_key (se_agent s) (se_conversation_id s)) (raw_session_key agent conv))
      | Inr (d', row, fresh) \<Rightarrow> se_agent row = agent \<and> se_conversation_id row = conv \<and> row \<in> set (sessions d')
          \<and> (\<forall>s \<in> set (sessions d'). se_runtime_session_id s = se_runtime_session_id row \<longrightarrow> s = row)
          \<and> (fresh \<longleftrightarrow> (\<forall>s \<in> set (sessions d). \<not> (se_agent s = agent \<and> se_conversation_id s = conv)))
          \<and> (fresh \<longrightarrow> (\<forall>s \<in> set (sessions d). \<not> keys_meet digest (raw_session_key (se_agent s) (se_conversation_id s)) (raw_session_key agent conv))))"
proof
  have ok: "sessions_ok digest d" using reach by (rule inventory.reachable_inv)
  have uniq: "s = s'" if "sessions_ok digest e" "s \<in> set (sessions e)" "s' \<in> set (sessions e)"
      "se_runtime_session_id s = se_runtime_session_id s'" for e s s'
    using that unfolding sessions_ok_def distinct_map by (blast dest: inj_onD)
  show "\<forall>s \<in> set (sessions d). \<forall>s' \<in> set (sessions d). se_runtime_session_id s = se_runtime_session_id s'
        \<longrightarrow> se_agent s = se_agent s' \<and> se_conversation_id s = se_conversation_id s'"
    using uniq [OF ok] by blast
  let ?rid = "derive_runtime_session_id digest agent conv"
  have meet: "se_runtime_session_id s = ?rid \<longleftrightarrow>
      keys_meet digest (raw_session_key (se_agent s) (se_conversation_id s)) (raw_session_key agent conv)"
    if "s \<in> set (sessions d)" for s
    using ok that derived_keys_meet [of digest n, OF len] by (auto simp: sessions_ok_def)
  show "case get_or_create digest agent ch conv k u g now d of
        Inl e \<Rightarrow> e = IntegrityError
          \<and> (\<forall>s \<in> set (sessions d). \<not> (se_agent s = agent \<and> se_conversation_id s = conv))
          \<and> (\<exists>s \<in> set (sessions d). keys_meet digest (raw_session_key (se_agent s) (se_conversation_id s)) (raw_session_key agent conv))
      | Inr (d', row, fresh) \<Rightarrow> se_agent row = agent \<and> se_conversation_id row = conv \<and> row \<in> set (sessions d')
          \<and> (\<forall>s \<in> set (sessions d'). se_runtime_session_id s = se_runtime_session_id row \<longrightarrow> s = row)
          \<and> (fresh \<longleftrightarrow> (\<forall>s \<in> set (sessions d). \<not> (se_agent s = agent \<and> se_conversation_id s = conv)))
          \<and> (fresh \<longrightarrow> (\<forall>s \<in> set (sessions d). \<not> keys_meet digest (raw_session_key (se_agent s) (se_conversation_id s)) (raw_session_key agent conv)))"
  proof (cases "get_or_create digest agent ch conv k u g now d")
    case (Inl e)
    then have "fetchone (of_conversation agent conv) (sessions d) = None"
      and "e = IntegrityError" and "\<exists>s \<in> set (sessions d). se_runtime_session_id s = ?rid"
      by (auto simp: get_or_create_def Let_def split: option.splits if_splits)
    then show ?thesis using Inl meet fetch_session [of agent conv d] by auto
  next
    case (Inr r)
    obtain d' row fresh where r: "r = (d', row, fresh)" by (cases r)
    have ok': "sessions_ok digest d'" using sessions_ok_get_or_create [OF ok] Inr r by blast
    note g = Inr [unfolded r]
    have mine: "se_agent row = agent \<and> se_conversation_id row = conv \<and> row \<in> set (sessions d')"
    proof (cases "fetchone (of_conversation agent conv) (sessions d)")
      case None
      then show ?thesis using g by (auto simp: get_or_create_def Let_def split: if_splits)
    next
      case (Some s)
      let ?f = "\<lambda>s. s\<lparr>se_last_user_id := (if u \<noteq> [] then u else se_last_user_id s),
               se_last_gateway := (if g \<noteq> [] then g else se_last_gateway s)\<rparr>"
      have s: "s \<in> set (sessions d)" "of_conversation agent conv s" using fetchone_Some [OF Some] by auto
      have "d' = d\<lparr>sessions := upd_where (of_conversation agent conv) ?f (sessions d)\<rparr>" "row = ?f s"
        using g Some by (simp_all add: get_or_create_def Let_def)
      then show ?thesis using upd_where_hit [OF s(1), of "of_conversation agent conv" ?f] s(2)
        by (simp add: of_conversation_def)
    qed
    have "fresh \<longleftrightarrow> fetchone (of_conversation agent conv) (sessions d) = None"
      and "fresh \<longrightarrow> (\<forall>s \<in> set (sessions d). se_runtime_session_id s \<noteq> ?rid)"
      using g by (auto simp: get_or_create_def Let_def split: option.splits if_splits)
    then show ?thesis using g mine meet uniq [OF ok'] fetch_session [of agent conv d] by auto
  qed
qed

text \<open>A conversation resumes its session: asking again for a conversation that has one gives that
  one - same key, same creation, same channel - with at most the last person and gateway
  refreshed, creates nothing, and leaves every other conversation's row as it was.\<close>

lemma conversation_resumes:
  assumes "sessions_ok digest d" and "s \<in> set (sessions d)"
    and "get_or_create digest (se_agent s) ch (se_conversation_id s) k u g now d = r"
  shows "\<exists>d' row. r = Inr (d', row, False) \<and> length (sessions d') = length (sessions d)
     \<and> row = s\<lparr>se_last_user_id := (if u \<noteq> [] then u else se_last_user_id s),
               se_last_gateway := (if g \<noteq> [] then g else se_last_gateway s)\<rparr>
     \<and> get_by_runtime_session (se_runtime_session_id s) d' = Some row
     \<and> (\<forall>s' \<in> set (sessions d). s' \<noteq> s \<longrightarrow> s' \<in> set (sessions d'))"
proof -
  let ?p = "of_conversation (se_agent s) (se_conversation_id s)"
  let ?f = "\<lambda>s. s\<lparr>se_last_user_id := (if u \<noteq> [] then u else se_last_user_id s),
               se_last_gateway := (if g \<noteq> [] then g else se_last_gateway s)\<rparr>"
  have dist: "distinct (map (\<lambda>s. (se_agent s, se_conversation_id s)) (sessions d))"
    using assms(1) by (simp add: sessions_ok_def)
  have "fetchone ?p (sessions d) = Some s"
    using dist _ assms(2) by (rule fetchone_unique [where x = "(se_agent s, se_conversation_id s)"])
      (simp_all add: of_conversation_def)
  then have r: "r = Inr (d\<lparr>sessions := upd_where ?p ?f (sessions d)\<rparr>, ?f s, False)"
    using assms(3) by (simp add: get_or_create_def Let_def)
  let ?d = "d\<lparr>sessions := upd_where ?p ?f (sessions d)\<rparr>"
  have "sessions_ok digest ?d" using assms(1) by (rule sessions_ok_upd) simp
  then have "distinct (map se_runtime_session_id (sessions ?d))" by (simp add: sessions_ok_def)
  moreover have "?f s \<in> set (sessions ?d)"
    using upd_where_hit [of s "sessions d" ?p ?f] assms(2) by (simp add: of_conversation_def)
  ultimately have found: "get_by_runtime_session (se_runtime_session_id s) ?d = Some (?f s)"
    unfolding get_by_runtime_session_def
    by (intro fetchone_unique [where k = se_runtime_session_id and x = "se_runtime_session_id s"]) simp_all
  have others: "s' \<in> set (sessions ?d)" if "s' \<in> set (sessions d)" "s' \<noteq> s" for s'
  proof -
    have "\<not> ?p s'" using dist that assms(2) unfolding of_conversation_def distinct_map inj_on_def by force
    then have "(if ?p s' then ?f s' else s') = s'" by simp
    then show ?thesis using that(1) by (force simp: upd_where_set)
  qed
  show ?thesis unfolding r
    by (rule exI [of _ ?d], rule exI [of _ "?f s"]) (use found others in simp)
qed

section \<open>Taken once\<close>

type_synonym post_seen = "string \<times> string \<times> stamp"

definition mark_attempt :: "post_seen \<Rightarrow> session_db \<Rightarrow> session_db \<times> bool" where
  "mark_attempt c d = (case c of (a, p, now) \<Rightarrow> mark_processed a p now d)"

definition post_of :: "post_seen \<Rightarrow> string \<times> string" where
  "post_of c = (case c of (a, p, _) \<Rightarrow> (a, p))"

definition unseen :: "string \<times> string \<Rightarrow> session_db \<Rightarrow> bool" where
  "unseen k d \<longleftrightarrow> (\<forall>p \<in> set (processed d). (pp_agent p, pp_post_id p) \<noteq> k)"

interpretation posts: single_winner mark_attempt post_of unseen
  by unfold_locales (auto simp: mark_attempt_def post_of_def unseen_def mark_processed_def split: prod.splits if_splits)

text \<open>A post is taken up once: however often and in whatever order its agent is handed the same
  posts, at most one call for each answers that it is new.\<close>

lemma post_handled_once:
  "wins post_of k cs (snd (run_attempts mark_attempt cs d)) \<le> 1"
  by (rule posts.at_most_one_winner)

definition pending_widget :: "session_db \<Rightarrow> string \<Rightarrow> interaction_record option" where
  "pending_widget d token = fetchone (\<lambda>i. in_token i = token) (interactions d)"

lemma fetchone_del_other: "j \<noteq> k \<Longrightarrow> fetchone (\<lambda>i. f i = j) (del_where (\<lambda>i. f i = k) rows) = fetchone (\<lambda>i. f i = j) rows"
  unfolding fetchone_def del_where_def by (simp add: filter_filter) (metis (mono_tags, lifting) filter_cong)

interpretation widgets: one_shot take_interaction pending_widget
proof unfold_locales
  show "take_interaction k s = (s', Some v) \<Longrightarrow> pending_widget s k \<noteq> None" for k s s' v
    by (auto simp: take_interaction_def pending_widget_def split: option.splits)
  show "take_interaction k s = (s', r) \<Longrightarrow> pending_widget s' k = None" for k s s' r
    by (auto simp: take_interaction_def pending_widget_def fetchone_None split: option.splits)
  show "take_interaction k s = (s', r) \<Longrightarrow> j \<noteq> k \<Longrightarrow> pending_widget s' j = pending_widget s j" for k s s' r j
    by (auto simp: take_interaction_def pending_widget_def fetchone_del_other split: option.splits)
qed

text \<open>A widget's click fires once: of any sequence of clicks at most one per token gets the
  interaction, so a replayed click finds nothing.\<close>

lemma widget_fires_once:
  "wins id token tokens (snd (run_attempts (\<lambda>k d. map_prod id (\<lambda>r. r \<noteq> None) (take_interaction k d)) tokens d)) \<le> 1"
  by (rule widgets.at_most_one_winner)

section \<open>Where two agents meet\<close>

text \<open>
  The key is unambiguous for one agent, not across agents whose names hold two dashes, which
  agent names may: the second conversation is not opened at all.
\<close>

lemma two_agents_one_key:
  "\<exists>d row. get_or_create digest ''a'' ''ch'' ''b--c'' ''dm'' [] [] now no_sessions = Inr (d, row, True)
     \<and> get_or_create digest ''a--b'' ''ch'' ''c'' ''dm'' [] [] now d = Inl IntegrityError"
proof -
  have raw: "raw_session_key ''a--b'' ''c'' = raw_session_key ''a'' ''b--c''" by code_simp
  have key: "derive_runtime_session_id digest ''a--b'' ''c'' = derive_runtime_session_id digest ''a'' ''b--c''"
    unfolding derive_runtime_session_id_def raw ..
  show ?thesis by (simp add: get_or_create_def no_sessions_def fetchone_def of_conversation_def key Let_def)
qed

section \<open>Witnesses\<close>

definition sample_digest :: "string \<Rightarrow> string" where
  "sample_digest s = map (\<lambda>c. if safe_id_char c then c else CHR ''0'') (take 12 (rev s))"

definition sample_sessions :: session_db where
  "sample_sessions = (case get_or_create sample_digest ''ann'' ''c1'' ''v1'' ''dm'' ''u1'' ''web'' 5 no_sessions of
     Inr (d, _) \<Rightarrow> d | Inl _ \<Rightarrow> no_sessions)"

lemma sample_sessions_reachable: "reachable (\<lambda>d. d = no_sessions) (inventory_step sample_digest) sample_sessions"
proof -
  obtain d row b where g: "get_or_create sample_digest ''ann'' ''c1'' ''v1'' ''dm'' ''u1'' ''web'' 5 no_sessions
      = Inr (d, row, b)"
    by (simp add: get_or_create_def no_sessions_def fetchone_def Let_def)
  have "inventory_step sample_digest no_sessions sample_sessions"
    unfolding sample_sessions_def g sum.case prod.case by (rule inventory_step.opened [OF g])
  then show ?thesis using reachable.start [of "\<lambda>d. d = no_sessions", OF refl] by (rule reachable.move [rotated])
qed

lemma session_key_is_safe_witness:
  "\<not> edge_char (hd (derive_runtime_session_id sample_digest ''ann'' ''../x''))
   \<and> derive_runtime_session_id sample_digest ''ann'' ''../x'' \<noteq> ''ann--../x''"
proof -
  have "derive_runtime_session_id sample_digest ''ann'' ''../x'' \<noteq> ''ann--../x''" by code_simp
  moreover have "safe_id_char c" if "c \<in> set (sample_digest (raw_session_key ''ann'' ''../x''))" for c
    using that by (auto simp: sample_digest_def safe_id_char_def split: if_splits)
  ultimately show ?thesis using session_key_is_safe [of sample_digest "''ann''" "''../x''"] by blast
qed

text \<open>A digest of fixed length.\<close>

definition fixed_digest :: "string \<Rightarrow> string" where
  "fixed_digest s = take 4 (sample_digest s @ ''0000'')"

definition fixed_sessions :: session_db where
  "fixed_sessions = (case get_or_create fixed_digest ''ann'' ''c1'' ''john@x'' ''dm'' ''u1'' ''web'' 5 no_sessions of
     Inr (d, _) \<Rightarrow> d | Inl _ \<Rightarrow> no_sessions)"

lemma fixed_digest_length: "length (fixed_digest s) = 4"
  by (simp add: fixed_digest_def)

lemma fixed_sessions_reachable: "reachable (\<lambda>d. d = no_sessions) (inventory_step fixed_digest) fixed_sessions"
proof -
  obtain d row b where g: "get_or_create fixed_digest ''ann'' ''c1'' ''john@x'' ''dm'' ''u1'' ''web'' 5 no_sessions
      = Inr (d, row, b)"
    by (simp add: get_or_create_def no_sessions_def fetchone_def Let_def)
  have "inventory_step fixed_digest no_sessions fixed_sessions"
    unfolding fixed_sessions_def g sum.case prod.case by (rule inventory_step.opened [OF g])
  then show ?thesis using reachable.start [of "\<lambda>d. d = no_sessions", OF refl] by (rule reachable.move [rotated])
qed

text \<open>A conversation whose id spells out another's cleaned name and digest is refused: both keys are
  one, although the digest is there so that they never are.\<close>

lemma a_key_can_be_spelled:
  "derive_runtime_session_id fixed_digest ''ann'' ''john@x'' = ''ann--john-x-x0nh''
   \<and> derive_runtime_session_id fixed_digest ''ann'' ''john-x-x0nh'' = ''ann--john-x-x0nh''
   \<and> get_or_create fixed_digest ''ann'' ''c1'' ''john-x-x0nh'' ''dm'' ''u1'' ''web'' 5 fixed_sessions = Inl IntegrityError"
proof -
  have "(case get_or_create fixed_digest ''ann'' ''c1'' ''john-x-x0nh'' ''dm'' ''u1'' ''web'' 5 fixed_sessions of
      Inl e \<Rightarrow> e = IntegrityError | Inr _ \<Rightarrow> False)" by code_simp
  moreover have "derive_runtime_session_id fixed_digest ''ann'' ''john@x'' = ''ann--john-x-x0nh''"
    "derive_runtime_session_id fixed_digest ''ann'' ''john-x-x0nh'' = ''ann--john-x-x0nh''" by code_simp+
  ultimately show ?thesis by (auto split: sum.splits)
qed

lemma sessions_are_never_shared_witness:
  "\<exists>d' row. get_or_create fixed_digest ''ann'' ''c1'' ''john-x'' ''dm'' ''u1'' ''web'' 6 fixed_sessions = Inr (d', row, True)
     \<and> se_conversation_id row = ''john-x'' \<and> length (sessions d') = 2"
proof -
  let ?g = "get_or_create fixed_digest ''ann'' ''c1'' ''john-x'' ''dm'' ''u1'' ''web'' 6 fixed_sessions"
  have "case ?g of Inl e \<Rightarrow> False | Inr (d', row, fresh) \<Rightarrow> fresh \<and> length (sessions d') = 2" by code_simp
  then obtain d' row where g: "?g = Inr (d', row, True)" and two: "length (sessions d') = 2"
    by (auto split: sum.splits)
  have "se_conversation_id row = ''john-x''"
    using sessions_are_never_shared [OF fixed_sessions_reachable fixed_digest_length, THEN conjunct2,
        of "''ann''" "''john-x''" "''c1''" "''dm''" "''u1''" "''web''" 6]
    unfolding g by simp
  then show ?thesis using g two by blast
qed

lemma inventory_keys_witness:
  "sessions_ok sample_digest sample_sessions \<and> length (sessions sample_sessions) = 1"
proof -
  have "length (sessions sample_sessions) = 1" by code_simp
  then show ?thesis using inventory_keys [OF sample_sessions_reachable] by simp
qed

lemma conversation_resumes_witness:
  "\<exists>s d row. sessions sample_sessions = [s]
     \<and> get_or_create sample_digest ''ann'' ''c9'' ''v1'' ''dm'' ''u2'' [] 9 sample_sessions = Inr (d, row, False)
     \<and> se_created_at row = 5 \<and> se_channel_id row = ''c1'' \<and> se_last_user_id row = ''u2''"
proof -
  have len: "length (sessions sample_sessions) = 1" by code_simp
  then obtain s where s: "sessions sample_sessions = [s]" by (auto simp: length_Suc_conv)
  have "hd (sessions sample_sessions) = s" by (simp add: s)
  moreover have "se_agent (hd (sessions sample_sessions)) = ''ann''" "se_conversation_id (hd (sessions sample_sessions)) = ''v1''"
    "se_created_at (hd (sessions sample_sessions)) = 5" "se_channel_id (hd (sessions sample_sessions)) = ''c1''"
    by code_simp+
  ultimately have f: "se_agent s = ''ann''" "se_conversation_id s = ''v1''" "se_created_at s = 5" "se_channel_id s = ''c1''"
    by simp_all
  have "s \<in> set (sessions sample_sessions)" by (simp add: s)
  from conversation_resumes [OF inventory_keys [OF sample_sessions_reachable] this refl,
      of "''c9''" "''dm''" "''u2''" "[]" 9]
  show ?thesis using s f by auto
qed

end
