(* ===== verification/Replicas.thy ===== *)
theory Replicas
  imports Contracts
begin

text \<open>
  Several engine processes on one store: the leases of
  \<open>packages/crucible/src/crucible/store/sqlite/leases.py\<close>, the owners of conversations of
  \<open>store/sqlite/replicas.py\<close>, the heartbeat of \<open>replica_heartbeat.py\<close>, the tagged tokens of
  \<open>ports/replica.py\<close> and the flow of \<open>flows/owned.py\<close> that runs a turn where its
  conversation lives.

  Times are instants in microseconds: the ISO texts the statements compare order as the
  instants do.  A method reads the clock before it takes the lock; \<open>now\<close> is what it read
  (\<open>acquire_lease\<close> reads it twice, for the comparison and for the end; the two readings are taken
  for one).
  What the owner a batch is forwarded to answers is an argument.
\<close>

section \<open>Leases\<close>

record lease_row =
  le_name :: string
  le_owner :: string
  le_until :: datetime

record owner_row =
  ow_agent :: string
  ow_conversation :: string
  ow_replica :: string

record shared_db =
  leases :: "lease_row list"
  owners :: "owner_row list"

definition lease_until :: "datetime \<Rightarrow> int \<Rightarrow> datetime" where
  "lease_until now ttl = now + ttl"

definition acquire_lease :: "string \<Rightarrow> string \<Rightarrow> int \<Rightarrow> datetime \<Rightarrow> shared_db \<Rightarrow> shared_db \<times> bool" where
  "acquire_lease name owner ttl now d =
     (let until = lease_until now ttl;
          hit = (\<lambda>l. le_name l = name \<and> (le_owner l = owner \<or> le_until l < now)) in
      if rowcount hit (leases d) = 1
      then (d\<lparr>leases := upd_where hit (\<lambda>l. l\<lparr>le_owner := owner, le_until := until\<rparr>) (leases d)\<rparr>, True)
      else if \<exists>l \<in> set (leases d). le_name l = name then (d, False)
      else (d\<lparr>leases := leases d @ [\<lparr>le_name = name, le_owner = owner, le_until = until\<rparr>]\<rparr>, True))"

definition release_lease :: "string \<Rightarrow> string \<Rightarrow> shared_db \<Rightarrow> shared_db" where
  "release_lease name owner d =
     d\<lparr>leases := del_where (\<lambda>l. le_name l = name \<and> le_owner l = owner) (leases d)\<rparr>"

section \<open>Replicas\<close>

definition REPLICA_LEASE_PREFIX :: string where "REPLICA_LEASE_PREFIX = ''replica:''"
definition TOKEN_TAG_SEP :: char where "TOKEN_TAG_SEP = CHR ''.''"
definition REPLICA_TTL :: int where "REPLICA_TTL = seconds 30"

record replica =
  re_id :: string
  re_url :: string

record conversation_owner =
  co_replica :: string
  co_url :: string

definition tag_token :: "string \<Rightarrow> string \<Rightarrow> string" where
  "tag_token replica token = (if replica \<noteq> [] then replica @ [TOKEN_TAG_SEP] @ token else token)"

definition replica_of :: "string \<Rightarrow> string" where
  "replica_of token =
     (if TOKEN_TAG_SEP \<in> set token then takeWhile (\<lambda>c. c \<noteq> TOKEN_TAG_SEP) token else [])"

definition live_url :: "string \<Rightarrow> datetime \<Rightarrow> shared_db \<Rightarrow> string option" where
  "live_url replica now d =
     map_option le_owner (fetchone (\<lambda>l. le_name l = REPLICA_LEASE_PREFIX @ replica \<and> now \<le> le_until l) (leases d))"

definition claim_conversation :: "string \<Rightarrow> string \<Rightarrow> string \<Rightarrow> bool \<Rightarrow> datetime \<Rightarrow> shared_db
    \<Rightarrow> shared_db \<times> conversation_owner" where
  "claim_conversation agent conversation replica take_it now d =
     (let mine = (\<lambda>w. ow_agent w = agent \<and> ow_conversation w = conversation);
          hit = (\<lambda>w. mine w \<and> (ow_replica w = replica \<or> take_it
                   \<or> \<not> (\<exists>l \<in> set (leases d). le_name l = REPLICA_LEASE_PREFIX @ ow_replica w \<and> now \<le> le_until l)));
          d' = (if rowcount hit (owners d) = 0
                then (if \<exists>w \<in> set (owners d). mine w then d
                      else d\<lparr>owners := owners d @ [\<lparr>ow_agent = agent, ow_conversation = conversation,
                                                    ow_replica = replica\<rparr>]\<rparr>)
                else d\<lparr>owners := upd_where hit (\<lambda>w. w\<lparr>ow_replica := replica\<rparr>) (owners d)\<rparr>);
          owner = (case fetchone mine (owners d') of Some w \<Rightarrow> ow_replica w | None \<Rightarrow> replica);
          url = (if owner \<noteq> replica then live_url owner now d' else None) in
      (d', \<lparr>co_replica = owner, co_url = (case url of Some u \<Rightarrow> u | None \<Rightarrow> [])\<rparr>))"

text \<open>\<open>ReplicaHeartbeat.beat\<close>, and the release when it stops.\<close>

definition replica_beat :: "replica \<Rightarrow> datetime \<Rightarrow> shared_db \<Rightarrow> shared_db \<times> bool" where
  "replica_beat r now d = acquire_lease (REPLICA_LEASE_PREFIX @ re_id r) (re_url r) REPLICA_TTL now d"

definition replica_stop :: "replica \<Rightarrow> shared_db \<Rightarrow> shared_db" where
  "replica_stop r d = release_lease (REPLICA_LEASE_PREFIX @ re_id r) (re_url r) d"

section \<open>A turn runs where its conversation lives\<close>

text \<open>
  Where the batch went.  \<open>forward\<close> is what \<open>forward_turn\<close> answers, \<open>None\<close> when it raises;
  \<open>nows\<close> are the clock readings of the (at most two) claims.
\<close>

datatype 'o served = Here | Forwarded string 'o

definition owned_handle :: "replica \<Rightarrow> string \<Rightarrow> string set \<Rightarrow> string \<Rightarrow> string \<Rightarrow> (string \<Rightarrow> 'o option)
    \<Rightarrow> datetime \<times> datetime \<Rightarrow> shared_db \<Rightarrow> shared_db \<times> 'o served" where
  "owned_handle me agent forwarded gateway conversation forward nows d =
     (let take_it = gateway \<notin> forwarded;
          (d1, owner1) = claim_conversation agent conversation (re_id me) take_it (fst nows) d;
          (d2, owner) = (if co_replica owner1 \<noteq> re_id me \<and> co_url owner1 = []
                         then claim_conversation agent conversation (re_id me) True (snd nows) d1
                         else (d1, owner1)) in
      if co_replica owner \<noteq> re_id me
      then (case forward (co_url owner) of
              Some outcome \<Rightarrow> (d2, Forwarded (co_url owner) outcome)
            | None \<Rightarrow> (fst (claim_conversation agent conversation (re_id me) True (snd nows) d2), Here))
      else (d2, Here))"

section \<open>Keys\<close>

definition shared_ok :: "shared_db \<Rightarrow> bool" where
  "shared_ok d \<longleftrightarrow> distinct (map le_name (leases d))
     \<and> distinct (map (\<lambda>w. (ow_agent w, ow_conversation w)) (owners d))"

definition nothing_shared :: shared_db where "nothing_shared = \<lparr>leases = [], owners = []\<rparr>"

lemma acquire_keeps_ok: "shared_ok d \<Longrightarrow> shared_ok (fst (acquire_lease n own ttl now d))"
proof -
  assume ok: "shared_ok d"
  have "map le_name (upd_where p (\<lambda>l. l\<lparr>le_owner := own, le_until := u\<rparr>) (leases d)) = map le_name (leases d)" for p u
    by (rule upd_where_keeps) simp
  then show ?thesis using ok by (auto simp: acquire_lease_def shared_ok_def Let_def)
qed

lemma release_keeps_ok: "shared_ok d \<Longrightarrow> shared_ok (release_lease n own d)"
  by (auto simp: release_lease_def shared_ok_def row_simps)

lemma claim_keeps_ok: "shared_ok d \<Longrightarrow> shared_ok (fst (claim_conversation a c r t now d))"
proof -
  assume ok: "shared_ok d"
  have "map (\<lambda>w. (ow_agent w, ow_conversation w)) (upd_where p (\<lambda>w. w\<lparr>ow_replica := r\<rparr>) (owners d))
      = map (\<lambda>w. (ow_agent w, ow_conversation w)) (owners d)" for p
    by (rule upd_where_keeps) simp
  then show ?thesis using ok by (auto simp: claim_conversation_def shared_ok_def Let_def)
qed

inductive shared_step :: "shared_db \<Rightarrow> shared_db \<Rightarrow> bool" where
  acquired: "shared_step d (fst (acquire_lease n own ttl now d))"
| released: "shared_step d (release_lease n own d)"
| claimed: "shared_step d (fst (claim_conversation a c r t now d))"

interpretation shared: invariant_system "\<lambda>d. d = nothing_shared" shared_step shared_ok
proof unfold_locales
  show "d = nothing_shared \<Longrightarrow> shared_ok d" for d by (simp add: nothing_shared_def shared_ok_def)
  show "shared_ok d \<Longrightarrow> shared_step d d' \<Longrightarrow> shared_ok d'" for d d'
    by (erule shared_step.cases) (auto intro: acquire_keeps_ok release_keeps_ok claim_keeps_ok)
qed

section \<open>What a lease promises\<close>

lemma lease_name_once:
  assumes "shared_ok d" and "l \<in> set (leases d)" and "l' \<in> set (leases d)" and "le_name l = le_name l'"
  shows "l = l'"
  using assms by (auto simp: shared_ok_def distinct_map dest: inj_onD)

lemma acquire_hit_iff:
  assumes "shared_ok d"
  shows "rowcount (\<lambda>l. le_name l = n \<and> P l) (leases d) = 1 \<longleftrightarrow> (\<exists>l \<in> set (leases d). le_name l = n \<and> P l)"
  using assms rowcount_unique_eq [of le_name "leases d" "\<lambda>l. le_name l = n \<and> P l" n] by (auto simp: shared_ok_def)

definition holds_until :: "string \<Rightarrow> string \<Rightarrow> datetime \<Rightarrow> shared_db \<Rightarrow> bool" where
  "holds_until name owner until d \<longleftrightarrow>
     \<lparr>le_name = name, le_owner = owner, le_until = until\<rparr> \<in> set (leases d)"

text \<open>A lease is given exactly when it is free, lapsed or already the asker's; the asker then holds
  it until its time is up and no other lease has changed; a refusal changes nothing.\<close>

lemma lease_given_exactly:
  assumes "shared_ok d" and "acquire_lease n own ttl now d = (d', won)"
  shows "won = (\<forall>l \<in> set (leases d). le_name l = n \<longrightarrow> le_owner l = own \<or> le_until l < now)
     \<and> (won \<longrightarrow> holds_until n own (now + ttl) d'
          \<and> filter (\<lambda>l. le_name l \<noteq> n) (leases d') = filter (\<lambda>l. le_name l \<noteq> n) (leases d))
     \<and> (\<not> won \<longrightarrow> d' = d)"
proof -
  let ?P = "\<lambda>l. le_owner l = own \<or> le_until l < now"
  let ?f = "\<lambda>l. l\<lparr>le_owner := own, le_until := now + ttl\<rparr>"
  show ?thesis
  proof (cases "\<exists>l \<in> set (leases d). le_name l = n")
    case True
    then obtain l where l: "l \<in> set (leases d)" "le_name l = n" by blast
    have only: "l' = l" if "l' \<in> set (leases d)" "le_name l' = n" for l'
      using lease_name_once [OF assms(1) that(1) l(1)] that l(2) by simp
    show ?thesis
    proof (cases "?P l")
      case True
      then have "rowcount (\<lambda>l. le_name l = n \<and> ?P l) (leases d) = 1"
        using acquire_hit_iff [OF assms(1), of n ?P] l by blast
      then have d': "d' = d\<lparr>leases := upd_where (\<lambda>l. le_name l = n \<and> ?P l) ?f (leases d)\<rparr>" "won"
        using assms(2) by (simp_all add: acquire_lease_def lease_until_def Let_def)
      have "?f l \<in> set (leases d')" using upd_where_hit [of l "leases d" "\<lambda>l. le_name l = n \<and> ?P l" ?f] l True d'
        by simp
      moreover have "?f l = \<lparr>le_name = n, le_owner = own, le_until = now + ttl\<rparr>" using l(2) by (cases l) simp
      ultimately have "holds_until n own (now + ttl) d'" by (simp add: holds_until_def)
      moreover have "filter (\<lambda>l. le_name l \<noteq> n) (leases d') = filter (\<lambda>l. le_name l \<noteq> n) (leases d)"
        using filter_upd_where_other [of "\<lambda>l. le_name l = n \<and> ?P l" "\<lambda>l. le_name l \<noteq> n" ?f "leases d"] d'(1)
        by simp
      ultimately show ?thesis using d'(2) True only by auto
    next
      case False
      then have "\<not> (\<exists>l' \<in> set (leases d). le_name l' = n \<and> ?P l')" using only by blast
      then have "rowcount (\<lambda>l. le_name l = n \<and> ?P l) (leases d) \<noteq> 1"
        using acquire_hit_iff [OF assms(1), of n ?P] by blast
      moreover have "\<exists>l \<in> set (leases d). le_name l = n" using l by blast
      ultimately have "d' = d \<and> \<not> won" using assms(2)
        by (simp add: acquire_lease_def Let_def split: if_splits)
      then show ?thesis using False l by blast
    qed
  next
    case False
    then have "rowcount (\<lambda>l. le_name l = n \<and> ?P l) (leases d) = 0" by (auto simp: rowcount_0_iff)
    then have "won" "d' = d\<lparr>leases := leases d @ [\<lparr>le_name = n, le_owner = own, le_until = now + ttl\<rparr>]\<rparr>"
      using assms(2) False by (auto simp: acquire_lease_def lease_until_def Let_def)
    then show ?thesis using False by (auto simp: holds_until_def)
  qed
qed

text \<open>Calls of anybody, and what it means that none of them is the holder's or too late.\<close>

datatype lease_call = Acquire string string int datetime | Release string string

fun lease_do :: "lease_call \<Rightarrow> shared_db \<Rightarrow> shared_db \<times> bool" where
  "lease_do (Acquire name owner ttl now) d = acquire_lease name owner ttl now d"
| "lease_do (Release name owner) d = (release_lease name owner d, False)"

fun by_others :: "string \<Rightarrow> string \<Rightarrow> datetime \<Rightarrow> lease_call \<Rightarrow> bool" where
  "by_others n own until (Acquire name owner ttl now) \<longleftrightarrow> (name = n \<longrightarrow> owner \<noteq> own \<and> now \<le> until)"
| "by_others n own until (Release name owner) \<longleftrightarrow> \<not> (name = n \<and> owner = own)"

fun lease_of :: "lease_call \<Rightarrow> string" where
  "lease_of (Acquire name _ _ _) = name"
| "lease_of (Release name _) = name"

lemma held_against_others:
  assumes "shared_ok d" and "holds_until n own until d" and "by_others n own until c"
    and "lease_do c d = (d', won)"
  shows "shared_ok d' \<and> holds_until n own until d' \<and> \<not> (won \<and> lease_of c = n)"
proof (cases c)
  case (Release name owner)
  then show ?thesis using assms release_keeps_ok [OF assms(1)]
    by (auto simp: holds_until_def release_lease_def)
next
  case (Acquire name owner ttl now)
  then have a: "acquire_lease name owner ttl now d = (d', won)" using assms(4) by simp
  note ex = lease_given_exactly [OF assms(1) a]
  have "shared_ok d'" using acquire_keeps_ok [OF assms(1), of name owner ttl now] a by simp
  moreover have "holds_until n own until d' \<and> \<not> won" if "name = n"
    using that ex assms(2,3) Acquire by (force simp: holds_until_def)
  moreover have "holds_until n own until d'" if "name \<noteq> n"
  proof -
    let ?l = "\<lparr>le_name = n, le_owner = own, le_until = until\<rparr>"
    have "?l \<in> set (filter (\<lambda>l. le_name l \<noteq> name) (leases d))" using assms(2) that by (simp add: holds_until_def)
    moreover have "filter (\<lambda>l. le_name l \<noteq> name) (leases d') = filter (\<lambda>l. le_name l \<noteq> name) (leases d)"
      using ex by (cases won) auto
    ultimately have "?l \<in> set (filter (\<lambda>l. le_name l \<noteq> name) (leases d'))" by (simp only:)
    then show ?thesis by (simp add: holds_until_def)
  qed
  ultimately show ?thesis using Acquire by auto
qed

text \<open>C13. One holder at a time: after a process took a lease, none of the calls others make up to the
  end of its time - in any number and order, on this lease and on others - takes that lease, and
  at the end the holder still has it.\<close>

theorem one_holder_at_a_time:
  assumes "shared_ok d" and "acquire_lease n own ttl now d = (d1, True)"
    and "\<forall>c \<in> set calls. by_others n own (now + ttl) c"
  shows "wins lease_of n calls (snd (run_attempts lease_do calls d1)) = 0
     \<and> holds_until n own (now + ttl) (fst (run_attempts lease_do calls d1))"
proof -
  have "shared_ok d1" using acquire_keeps_ok [OF assms(1), of n own ttl now] assms(2) by simp
  moreover have "holds_until n own (now + ttl) d1" using lease_given_exactly [OF assms(1,2)] by simp
  ultimately show ?thesis using assms(3)
  proof (induction calls arbitrary: d1)
    case Nil
    then show ?case by (simp add: wins_def)
  next
    case (Cons c cs)
    obtain d2 won where c: "lease_do c d1 = (d2, won)" by fastforce
    have "by_others n own (now + ttl) c" using Cons.prems by simp
    from held_against_others [OF Cons.prems(1,2) this c] Cons.IH [of d2] Cons.prems(3) c
    show ?case by (auto simp: wins_def split: prod.splits)
  qed
qed

section \<open>Who owns a conversation\<close>

abbreviation the_owner :: "string \<Rightarrow> string \<Rightarrow> string \<Rightarrow> owner_row" where
  "the_owner a c r \<equiv> \<lparr>ow_agent = a, ow_conversation = c, ow_replica = r\<rparr>"

lemma owner_row_once:
  assumes "shared_ok d" and "w \<in> set (owners d)" and "w' \<in> set (owners d)"
    and "ow_agent w = ow_agent w'" and "ow_conversation w = ow_conversation w'"
  shows "w = w'"
  using assms by (auto simp: shared_ok_def distinct_map dest: inj_onD)

lemma fetch_owner:
  assumes "shared_ok d" and "the_owner a c r \<in> set (owners d)"
  shows "fetchone (\<lambda>w. ow_agent w = a \<and> ow_conversation w = c) (owners d) = Some (the_owner a c r)"
  by (rule fetchone_unique [where k = "\<lambda>w. (ow_agent w, ow_conversation w)" and x = "(a, c)"])
    (use assms in \<open>auto simp: shared_ok_def\<close>)

text \<open>The three ways a claim ends: a first row, a row that changes hands, a row that stays.\<close>

lemma claim_new:
  assumes "\<forall>w \<in> set (owners d). \<not> (ow_agent w = a \<and> ow_conversation w = c)"
  shows "claim_conversation a c r t now d
    = (d\<lparr>owners := owners d @ [the_owner a c r]\<rparr>, \<lparr>co_replica = r, co_url = []\<rparr>)"
proof -
  have "rowcount (\<lambda>w. (ow_agent w = a \<and> ow_conversation w = c) \<and> Q w) (owners d) = 0" for Q
    using assms by (auto simp: rowcount_0_iff)
  moreover have "fetchone (\<lambda>w. ow_agent w = a \<and> ow_conversation w = c) (owners d @ [the_owner a c r])
      = Some (the_owner a c r)"
    using assms by (auto simp: fetchone_def split: list.splits)
  moreover have "\<not> (\<exists>w \<in> set (owners d). ow_agent w = a \<and> ow_conversation w = c)" using assms by blast
  ultimately show ?thesis unfolding claim_conversation_def Let_def by (simp del: bex_simps ball_simps)
qed

lemma claim_known:
  assumes "shared_ok d" and "the_owner a c r0 \<in> set (owners d)"
  shows "claim_conversation a c r t now d
    = (if r0 = r \<or> t \<or> live_url r0 now d = None
       then (d\<lparr>owners := upd_where (\<lambda>w. ow_agent w = a \<and> ow_conversation w = c) (\<lambda>w. w\<lparr>ow_replica := r\<rparr>) (owners d)\<rparr>,
             \<lparr>co_replica = r, co_url = []\<rparr>)
       else (d, \<lparr>co_replica = r0, co_url = the (live_url r0 now d)\<rparr>))"
proof -
  let ?mine = "\<lambda>w. ow_agent w = a \<and> ow_conversation w = c"
  let ?live = "\<lambda>x. \<exists>l \<in> set (leases d). le_name l = REPLICA_LEASE_PREFIX @ x \<and> now \<le> le_until l"
  let ?hit = "\<lambda>w. ?mine w \<and> (ow_replica w = r \<or> t \<or> \<not> ?live (ow_replica w))"
  let ?d = "d\<lparr>owners := upd_where ?mine (\<lambda>w. w\<lparr>ow_replica := r\<rparr>) (owners d)\<rparr>"
  have only: "w = the_owner a c r0" if "w \<in> set (owners d)" "?mine w" for w
    using owner_row_once [OF assms(1) that(1) assms(2)] that(2) by simp
  have rep: "ow_replica w = r0" if "w \<in> set (owners d)" "?mine w" for w by (simp add: only [OF that])
  have live: "live_url r0 now d = None \<longleftrightarrow> \<not> ?live r0"
    by (auto simp: live_url_def fetchone_None)
  show ?thesis
  proof (cases "r0 = r \<or> t \<or> \<not> ?live r0")
    case True
    have hit: "?hit w \<longleftrightarrow> ?mine w" if "w \<in> set (owners d)" for w using rep [OF that] True by metis
    then have u: "upd_where ?hit f (owners d) = upd_where ?mine f (owners d)" for f
      by (auto simp: upd_where_def)
    have "?hit (the_owner a c r0)" using hit [OF assms(2)] by simp
    then have "rowcount ?hit (owners d) \<noteq> 0"
      using assms(2) rowcount_0_iff [of ?hit "owners d"] by blast
    moreover have "shared_ok ?d"
    proof -
      have "map (\<lambda>w. (ow_agent w, ow_conversation w)) (upd_where ?mine (\<lambda>w. w\<lparr>ow_replica := r\<rparr>) (owners d))
          = map (\<lambda>w. (ow_agent w, ow_conversation w)) (owners d)" by (rule upd_where_keeps) simp
      then show ?thesis using assms(1) by (simp add: shared_ok_def)
    qed
    moreover have "the_owner a c r \<in> set (owners ?d)"
      using upd_where_hit [OF assms(2), of ?mine "\<lambda>w. w\<lparr>ow_replica := r\<rparr>"] by simp
    ultimately show ?thesis using fetch_owner [of ?d a c r] True live u
      by (simp add: claim_conversation_def Let_def)
  next
    case False
    then have "\<not> ?hit w" if "w \<in> set (owners d)" for w using rep [OF that] by metis
    then have "rowcount ?hit (owners d) = 0" using rowcount_0_iff [of ?hit "owners d"] by blast
    moreover have "\<exists>w \<in> set (owners d). ?mine w" using assms(2) by force
    moreover have "live_url r0 now d \<noteq> None" using False live by blast
    ultimately show ?thesis using fetch_owner [OF assms] False
      by (auto simp: claim_conversation_def Let_def)
  qed
qed

lemma owner_cases:
  obtains (new) "\<forall>w \<in> set (owners d). \<not> (ow_agent w = a \<and> ow_conversation w = c)"
  | (known) r0 where "the_owner a c r0 \<in> set (owners d)"
proof (cases "\<exists>w \<in> set (owners d). ow_agent w = a \<and> ow_conversation w = c")
  case True
  then obtain w where w: "w \<in> set (owners d)" "ow_agent w = a" "ow_conversation w = c" by blast
  then have "the_owner a c (ow_replica w) = w" by simp
  then show ?thesis using known [of "ow_replica w"] w(1) by (simp only:)
qed (use new in blast)

text \<open>A claim ends with one owner: the claimer, now written in the registry - always when it takes
  the conversation by force or the former owner's heartbeat has lapsed - or, with nothing
  changed, another replica that is alive, with the address it answers at; no other
  conversation's owner and no lease is touched.\<close>

lemma claim_names_the_owner:
  assumes "shared_ok d" and "claim_conversation a c r t now d = (d', w)"
  shows "(co_replica w = r \<and> the_owner a c r \<in> set (owners d')
       \<or> \<not> t \<and> d' = d \<and> co_replica w \<noteq> r \<and> the_owner a c (co_replica w) \<in> set (owners d)
         \<and> live_url (co_replica w) now d = Some (co_url w))
     \<and> leases d' = leases d
     \<and> filter (\<lambda>w. \<not> (ow_agent w = a \<and> ow_conversation w = c)) (owners d')
       = filter (\<lambda>w. \<not> (ow_agent w = a \<and> ow_conversation w = c)) (owners d)"
proof (cases rule: owner_cases [of d a c])
  case new
  then show ?thesis using assms(2) by (auto simp: claim_new)
next
  case (known r0)
  let ?mine = "\<lambda>w. ow_agent w = a \<and> ow_conversation w = c"
  have "filter (\<lambda>w. \<not> ?mine w) (upd_where ?mine f (owners d)) = filter (\<lambda>w. \<not> ?mine w) (owners d)"
    if "\<And>w. ?mine w \<Longrightarrow> ?mine (f w)" for f
    using that by (intro filter_upd_where_other) auto
  from this [of "\<lambda>w. w\<lparr>ow_replica := r\<rparr>"] show ?thesis
    using assms(2) claim_known [OF assms(1) known, of r t now] known
      upd_where_hit [OF known, of ?mine "\<lambda>w. w\<lparr>ow_replica := r\<rparr>"]
    by (cases "r0 = r \<or> t \<or> live_url r0 now d = None") auto
qed

text \<open>Claims of the same conversation, one after the other.\<close>

fun run_claims :: "string \<Rightarrow> string \<Rightarrow> (string \<times> datetime) list \<Rightarrow> shared_db \<Rightarrow> conversation_owner list" where
  "run_claims a c [] d = []"
| "run_claims a c ((r, now) # cs) d =
     (case claim_conversation a c r False now d of (d', w) \<Rightarrow> w # run_claims a c cs d')"

text \<open>Live replicas agree on the owner: when several replicas claim a conversation that is one
  replica's, in any order and number, and that replica's heartbeat lives throughout, every
  answer names it.\<close>

lemma live_replicas_agree:
  assumes "shared_ok d" and "the_owner a c r0 \<in> set (owners d)"
    and "\<forall>(r, now) \<in> set cs. live_url r0 now d \<noteq> None"
  shows "\<forall>w \<in> set (run_claims a c cs d). co_replica w = r0"
  using assms
proof (induction cs arbitrary: d)
  case (Cons rn cs)
  obtain r now where rn: "rn = (r, now)" by (cases rn)
  obtain d' w where cl: "claim_conversation a c r False now d = (d', w)" by fastforce
  note ex = claim_names_the_owner [OF Cons.prems(1) cl]
  have live: "live_url r0 now d \<noteq> None" using Cons.prems(3) rn by auto
  have w: "co_replica w = r0" and o: "the_owner a c r0 \<in> set (owners d')"
    using claim_known [OF Cons.prems(1,2), of r False now] cl live ex by (auto split: if_splits)
  have "shared_ok d'" using claim_keeps_ok [OF Cons.prems(1), of a c r False now] cl by simp
  moreover have "live_url x n d' = live_url x n d" for x n using ex by (simp add: live_url_def)
  ultimately show ?case using Cons.IH [of d'] o w Cons.prems(3) rn cl by auto
qed simp

text \<open>A turn runs where its conversation lives: a batch handled here leaves this replica as the
  owner in the registry, and one handed on came through a gateway that forwards, to the live
  owner the registry names, at its address.\<close>

lemma turn_runs_with_its_owner:
  assumes "shared_ok d" and "owned_handle me agent fwd gateway conv forward nows d = (d', s)"
  shows "case s of
       Here \<Rightarrow> the_owner agent conv (re_id me) \<in> set (owners d')
     | Forwarded url outcome \<Rightarrow> gateway \<in> fwd \<and> forward url = Some outcome \<and> url \<noteq> []
         \<and> (\<exists>r. r \<noteq> re_id me \<and> the_owner agent conv r \<in> set (owners d')
              \<and> live_url r (fst nows) d = Some url)"
proof -
  obtain d1 w1 where c1: "claim_conversation agent conv (re_id me) (gateway \<notin> fwd) (fst nows) d = (d1, w1)"
    by fastforce
  note ex1 = claim_names_the_owner [OF assms(1) c1]
  have ok1: "shared_ok d1" using claim_keeps_ok [OF assms(1), of agent conv "re_id me" "gateway \<notin> fwd" "fst nows"] c1
    by simp
  have forced: "co_replica w = re_id me \<and> the_owner agent conv (re_id me) \<in> set (owners d2)"
    if "claim_conversation agent conv (re_id me) True (snd nows) d1 = (d2, w)" for d2 w
    using claim_names_the_owner [OF ok1 that] by simp
  obtain d2 w2 where c2: "claim_conversation agent conv (re_id me) True (snd nows) d1 = (d2, w2)" by fastforce
  show ?thesis
  proof (cases "co_replica w1 \<noteq> re_id me \<and> co_url w1 = []")
    case True
    then have "d' = d2 \<and> s = Here" using assms(2) c1 c2 forced [OF c2] by (simp add: owned_handle_def)
    then show ?thesis using forced [OF c2] by simp
  next
    case reach: False
    show ?thesis
    proof (cases "co_replica w1 = re_id me")
      case True
      then show ?thesis using assms(2) c1 ex1 by (simp add: owned_handle_def)
    next
      case False
      then show ?thesis using assms(2) c1 c2 ex1 reach forced [OF c2]
        by (cases "forward (co_url w1)") (auto simp: owned_handle_def)
    qed
  qed
qed

text \<open>A tagged token names the replica that minted it: for a replica whose id holds no dot,
  \<open>replica_of\<close> undoes \<open>tag_token\<close>, whatever the token.\<close>

lemma tagged_token_names_its_replica:
  assumes "TOKEN_TAG_SEP \<notin> set r" and "r \<noteq> []"
  shows "replica_of (tag_token r token) = r"
proof -
  have "takeWhile (\<lambda>c. c \<noteq> TOKEN_TAG_SEP) (r @ TOKEN_TAG_SEP # token) = r"
    using assms(1) by (subst takeWhile_append2) auto
  then show ?thesis using assms by (simp add: tag_token_def replica_of_def)
qed

section \<open>Witnesses\<close>

definition sample_shared :: shared_db where
  "sample_shared = \<lparr>leases = [\<lparr>le_name = ''replica:r1'', le_owner = ''u1'', le_until = 40\<rparr>],
     owners = [the_owner ''ann'' ''v1'' ''r1'']\<rparr>"

lemma sample_shared_ok: "shared_ok sample_shared"
  by code_simp

lemma lease_given_exactly_witness:
  "\<not> snd (acquire_lease ''replica:r1'' ''u2'' 30 20 sample_shared)
   \<and> snd (acquire_lease ''replica:r1'' ''u2'' 30 41 sample_shared)"
proof -
  have "\<exists>l \<in> set (leases sample_shared). le_name l = ''replica:r1'' \<and> \<not> (le_owner l = ''u2'' \<or> le_until l < 20)"
    and "\<forall>l \<in> set (leases sample_shared). le_name l = ''replica:r1'' \<longrightarrow> le_owner l = ''u2'' \<or> le_until l < 41"
    by code_simp+
  then show ?thesis
    using lease_given_exactly [OF sample_shared_ok surjective_pairing, of "''replica:r1''" "''u2''" 30 20]
      lease_given_exactly [OF sample_shared_ok surjective_pairing, of "''replica:r1''" "''u2''" 30 41]
    by blast
qed

lemma one_holder_at_a_time_witness:
  "\<exists>d1. acquire_lease ''bot'' ''p1'' 30 10 sample_shared = (d1, True)
     \<and> holds_until ''bot'' ''p1'' 40 (fst (run_attempts lease_do
          [Acquire ''bot'' ''p2'' 30 40, Release ''bot'' ''p2'', Acquire ''job'' ''p2'' 30 45] d1))"
proof -
  have "snd (acquire_lease ''bot'' ''p1'' 30 10 sample_shared)" by code_simp
  then obtain d1 where d1: "acquire_lease ''bot'' ''p1'' 30 10 sample_shared = (d1, True)"
    by (metis prod.collapse)
  have "\<forall>c \<in> set [Acquire ''bot'' ''p2'' 30 40, Release ''bot'' ''p2'', Acquire ''job'' ''p2'' 30 45].
      by_others ''bot'' ''p1'' (10 + 30) c" by code_simp
  from one_holder_at_a_time [OF sample_shared_ok d1 this] d1 show ?thesis by simp
qed

lemma claim_names_the_owner_witness:
  "co_replica (snd (claim_conversation ''ann'' ''v1'' ''r2'' True 20 sample_shared)) = ''r2''"
  using claim_names_the_owner [OF sample_shared_ok surjective_pairing, of "''ann''" "''v1''" "''r2''" True 20]
  by simp

lemma live_replicas_agree_witness:
  "co_replica ` set (run_claims ''ann'' ''v1'' [(''r2'', 20), (''r1'', 30), (''r3'', 40)] sample_shared) \<subseteq> {''r1''}"
proof -
  have "the_owner ''ann'' ''v1'' ''r1'' \<in> set (owners sample_shared)"
    and "\<forall>(r, now) \<in> set [(''r2'', 20), (''r1'', 30), (''r3'', 40)]. live_url ''r1'' now sample_shared \<noteq> None"
    by code_simp+
  from live_replicas_agree [OF sample_shared_ok this] show ?thesis by blast
qed

lemma turn_runs_with_its_owner_witness:
  "snd (owned_handle \<lparr>re_id = ''r2'', re_url = ''u2''\<rparr> ''ann'' {''web''} ''web'' ''v1'' (\<lambda>_. Some True) (20, 21) sample_shared)
     = Forwarded ''u1'' True \<and> live_url ''r1'' 20 sample_shared = Some ''u1''"
proof -
  let ?p = "owned_handle \<lparr>re_id = ''r2'', re_url = ''u2''\<rparr> ''ann'' {''web''} ''web'' ''v1'' (\<lambda>_. Some True) (20, 21) sample_shared"
  have "snd ?p = Forwarded ''u1'' True" by code_simp
  then have "?p = (fst ?p, Forwarded ''u1'' True)" by (metis prod.collapse)
  from turn_runs_with_its_owner [OF sample_shared_ok this]
  have "\<exists>r. live_url r (fst (20, 21)) sample_shared = Some ''u1''" by auto
  moreover have "live_url ''r1'' 20 sample_shared = Some ''u1''" by code_simp
  ultimately show ?thesis using \<open>snd ?p = Forwarded ''u1'' True\<close> by blast
qed

lemma tagged_token_names_its_replica_witness:
  "replica_of (tag_token ''r1'' ''a.b'') = ''r1''"
  by (rule tagged_token_names_its_replica) code_simp+

end
