(* ===== verification/Guards.thy ===== *)
theory Guards
  imports Prelude Complex_Main
begin

text \<open>
  What bounds the turns an agent may run: the cascade guard of
  \<open>packages/crucible/src/crucible/loopguard.py\<close>, the ledger of what turns cost of
  \<open>store/sqlite/usage.py\<close>, and the budget of \<open>budget.py\<close> with the limits of
  \<open>ports/agent/spec.py\<close>.

  The monotonic clock and UTC instants are microseconds.  An amount of dollars (a float in the
  code) is an exact rational.  The sentence a person is told is kept as its template with the
  amounts put into it.  What the application's own rule answers is an argument; telemetry and
  logging are left out.
\<close>

section \<open>Cascades\<close>

record loop_guard =
  g_max_hops :: int
  g_max_turns :: nat
  g_window :: int

datatype loop_decision = Allowed | HopDepth int int | RateLimit nat int

text \<open>\<open>defaultdict(deque)\<close>: the moments of the agent-triggered turns, oldest first.\<close>

type_synonym loop_turns = "string \<Rightarrow> int list"

definition no_turns :: loop_turns where "no_turns = (\<lambda>_. [])"

definition loop_check :: "loop_guard \<Rightarrow> string \<Rightarrow> int \<Rightarrow> int \<Rightarrow> loop_turns \<Rightarrow> loop_turns \<times> loop_decision" where
  "loop_check g conv hop_depth now turns =
     (if hop_depth \<ge> g_max_hops g then (turns, HopDepth hop_depth (g_max_hops g))
      else let window = dropWhile (\<lambda>t. t < now - g_window g) (turns conv) in
        if length window \<ge> g_max_turns g
        then (turns(conv := window), RateLimit (g_max_turns g) (g_window g))
        else (turns(conv := window @ [now]), Allowed))"

section \<open>The ledger of costs\<close>

record usage_record =
  us_agent :: string
  us_user_id :: string
  us_at :: stamp
  us_input :: int
  us_output :: int
  us_cache_read :: int
  us_cache_write :: int
  us_total :: int
  us_cost_usd :: rat

record usage_sum =
  sum_total :: int
  sum_cost_usd :: rat

definition add_usage :: "usage_record \<Rightarrow> usage_record list \<Rightarrow> usage_record list" where
  "add_usage r rows = rows @ [r]"

definition usage_counts :: "string \<Rightarrow> stamp \<Rightarrow> string option \<Rightarrow> usage_record \<Rightarrow> bool" where
  "usage_counts agent since user_id r \<longleftrightarrow> us_agent r = agent \<and> since \<le> us_at r
     \<and> (case user_id of None \<Rightarrow> True | Some u \<Rightarrow> us_user_id r = u)"

definition usage_since :: "string \<Rightarrow> stamp \<Rightarrow> string option \<Rightarrow> usage_record list \<Rightarrow> usage_sum" where
  "usage_since agent since user_id rows =
     (let counted = filter (usage_counts agent since user_id) rows in
      \<lparr>sum_total = sum_list (map us_total counted), sum_cost_usd = sum_list (map us_cost_usd counted)\<rparr>)"

definition prune_usage :: "stamp \<Rightarrow> usage_record list \<Rightarrow> usage_record list \<times> nat" where
  "prune_usage before rows =
     (del_where (\<lambda>r. us_at r < before) rows, rowcount (\<lambda>r. us_at r < before) rows)"

section \<open>Budgets\<close>

record budget =
  b_tokens_per_turn :: int
  b_tokens_per_day :: int
  b_usd_per_day :: rat
  b_tokens_per_day_per_person :: int
  b_usd_per_day_per_person :: rat

definition daily :: "budget \<Rightarrow> bool" where
  "daily b \<longleftrightarrow> b_tokens_per_day b \<noteq> 0 \<or> b_usd_per_day b \<noteq> 0
     \<or> b_tokens_per_day_per_person b \<noteq> 0 \<or> b_usd_per_day_per_person b \<noteq> 0"

text \<open>The two sentences, and the unit that is counted.\<close>

datatype budget_words = AGENT_SPENT | PERSON_SPENT
datatype budget_unit = Tokens | USD

datatype 'n not_admitted =
    BudgetSpent budget_words budget_unit rat rat
  | NotAdmitted 'n

definition day_start :: "datetime \<Rightarrow> stamp" where
  "day_start now = now div seconds 86400 * 86400"

definition over :: "budget_words \<Rightarrow> budget_unit \<Rightarrow> rat \<Rightarrow> rat \<Rightarrow> 'n not_admitted option" where
  "over words unit spent limit =
     (if limit = 0 \<or> spent < limit then None else Some (BudgetSpent words unit spent limit))"

definition or_else :: "'a option \<Rightarrow> 'a option \<Rightarrow> 'a option" where
  "or_else x y = (case x of Some a \<Rightarrow> Some a | None \<Rightarrow> y)"

definition admit :: "(string \<Rightarrow> budget) \<Rightarrow> 'n option \<Rightarrow> string \<Rightarrow> string \<Rightarrow> datetime \<Rightarrow> usage_record list
    \<Rightarrow> 'n not_admitted option" where
  "admit budget_for then_answer agent user_id now rows =
     (let b = budget_for agent; since = day_start now;
          next = map_option NotAdmitted then_answer in
      if daily b
      then or_else
        (if b_tokens_per_day b \<noteq> 0 \<or> b_usd_per_day b \<noteq> 0
         then let spent = usage_since agent since None rows in
              or_else (over AGENT_SPENT Tokens (of_int (sum_total spent)) (of_int (b_tokens_per_day b)))
                      (over AGENT_SPENT USD (sum_cost_usd spent) (b_usd_per_day b))
         else None)
        (or_else
          (if user_id \<noteq> [] \<and> (b_tokens_per_day_per_person b \<noteq> 0 \<or> b_usd_per_day_per_person b \<noteq> 0)
           then let spent = usage_since agent since (Some user_id) rows in
                or_else (over PERSON_SPENT Tokens (of_int (sum_total spent)) (of_int (b_tokens_per_day_per_person b)))
                        (over PERSON_SPENT USD (sum_cost_usd spent) (b_usd_per_day_per_person b))
           else None)
          next)
      else next)"

section \<open>The guard against its log\<close>

text \<open>
  The specification of the guard: it keeps everything it allowed, and allows a turn when it is
  near enough to a person and fewer than the limit were allowed in the window before it.
\<close>

type_synonym attempt = "string \<times> int \<times> int"

definition spec_allows :: "loop_guard \<Rightarrow> (string \<times> int) list \<Rightarrow> attempt \<Rightarrow> bool" where
  "spec_allows g kept a = (case a of (conv, hop, now) \<Rightarrow>
     hop < g_max_hops g
     \<and> length (filter (\<lambda>(c, t). c = conv \<and> now - g_window g \<le> t) kept) < g_max_turns g)"

fun spec_run :: "loop_guard \<Rightarrow> attempt list \<Rightarrow> (string \<times> int) list \<Rightarrow> bool list" where
  "spec_run g [] kept = []"
| "spec_run g (a # as) kept =
     (let ok = spec_allows g kept a in
      ok # spec_run g as (if ok then kept @ [(fst a, snd (snd a))] else kept))"

fun guard_run :: "loop_guard \<Rightarrow> attempt list \<Rightarrow> loop_turns \<Rightarrow> bool list" where
  "guard_run g [] turns = []"
| "guard_run g ((conv, hop, now) # as) turns =
     (case loop_check g conv hop now turns of (turns', d) \<Rightarrow> (d = Allowed) # guard_run g as turns')"

text \<open>
  The relation between the two: at the clock's present reading, what the guard holds for a
  conversation are the latest allowed turns, ordered, and nothing still in the window is missing.
\<close>

definition log_of :: "(string \<times> int) list \<Rightarrow> string \<Rightarrow> int list" where
  "log_of kept conv = map snd (filter (\<lambda>(c, _). c = conv) kept)"

definition tracks :: "loop_guard \<Rightarrow> int \<Rightarrow> loop_turns \<Rightarrow> (string \<times> int) list \<Rightarrow> bool" where
  "tracks g clock turns kept \<longleftrightarrow> (\<forall>conv. sorted (log_of kept conv) \<and> (\<forall>t \<in> set (log_of kept conv). t \<le> clock)
     \<and> (\<exists>old. log_of kept conv = old @ turns conv \<and> (\<forall>t \<in> set old. t < clock - g_window g)))"

lemma dropWhile_sorted_filter:
  "sorted xs \<Longrightarrow> dropWhile (\<lambda>t. t < (c::int)) xs = filter (\<lambda>t. c \<le> t) xs"
proof (induction xs)
  case (Cons x xs)
  show ?case
  proof (cases "x < c")
    case False
    then have "filter (\<lambda>t. c \<le> t) xs = xs" using Cons.prems by (auto intro!: filter_True)
    then show ?thesis using False by simp
  qed (use Cons in simp)
qed simp

lemma tracks_count:
  assumes "tracks g clock turns kept" and "clock \<le> now"
  shows "dropWhile (\<lambda>t. t < now - g_window g) (turns conv)
    = filter (\<lambda>t. now - g_window g \<le> t) (log_of kept conv)"
proof -
  from assms obtain old where l: "log_of kept conv = old @ turns conv" and o: "\<forall>t \<in> set old. t < clock - g_window g"
    and s: "sorted (log_of kept conv)"
    unfolding tracks_def by blast
  have "filter (\<lambda>t. now - g_window g \<le> t) old = []" using o assms(2) by (auto simp: filter_empty_conv)
  moreover have "sorted (turns conv)" using s l by (simp add: sorted_append)
  ultimately show ?thesis by (simp add: l dropWhile_sorted_filter)
qed

lemma length_log_filter:
  "length (filter (\<lambda>(c, t). c = conv \<and> m \<le> t) kept) = length (filter (\<lambda>t. m \<le> t) (log_of kept conv))"
  by (induction kept) (auto simp: log_of_def)

lemma log_of_append: "log_of (kept @ [(c, t)]) conv = log_of kept conv @ (if c = conv then [t] else [])"
  by (auto simp: log_of_def)

lemma guard_step_tracks:
  assumes tr: "tracks g clock turns kept" and "clock \<le> now" and "0 \<le> g_window g"
    and c: "loop_check g conv hop now turns = (turns', d)"
  shows "(d = Allowed) = spec_allows g kept (conv, hop, now)
    \<and> tracks g now turns' (if d = Allowed then kept @ [(conv, now)] else kept)"
proof -
  let ?w = "dropWhile (\<lambda>t. t < now - g_window g) (turns conv)"
  note cnt = tracks_count [OF assms(1,2)]
  have ok: "(d = Allowed) = spec_allows g kept (conv, hop, now)"
    using c by (auto simp: loop_check_def spec_allows_def length_log_filter cnt Let_def split: if_splits)
  have w: "\<exists>old. log_of kept conv = old @ ?w \<and> (\<forall>t \<in> set old. t < now - g_window g)"
  proof -
    from tr obtain old where l: "log_of kept conv = old @ turns conv" and o: "\<forall>t \<in> set old. t < clock - g_window g"
      unfolding tracks_def by blast
    have "turns conv = takeWhile (\<lambda>t. t < now - g_window g) (turns conv) @ ?w" by simp
    then have "log_of kept conv = (old @ takeWhile (\<lambda>t. t < now - g_window g) (turns conv)) @ ?w"
      using l by simp
    moreover have "\<forall>t \<in> set (old @ takeWhile (\<lambda>t. t < now - g_window g) (turns conv)). t < now - g_window g"
      using o assms(2) by (auto dest: set_takeWhileD)
    ultimately show ?thesis by blast
  qed
  have other: "sorted (log_of kept c') \<and> (\<forall>t \<in> set (log_of kept c'). t \<le> now)
      \<and> (\<exists>old. log_of kept c' = old @ turns c' \<and> (\<forall>t \<in> set old. t < now - g_window g))" for c'
  proof -
    from tr obtain old where "log_of kept c' = old @ turns c'" "\<forall>t \<in> set old. t < clock - g_window g"
      unfolding tracks_def by blast
    moreover from this(2) have "\<forall>t \<in> set old. t < now - g_window g" using assms(2) by auto
    ultimately show ?thesis using tr assms(2) unfolding tracks_def by (meson order_trans)
  qed
  have "tracks g now turns' (if d = Allowed then kept @ [(conv, now)] else kept)"
  proof (cases d)
    case Allowed
    then have t': "turns' = turns(conv := ?w @ [now])" using c by (auto simp: loop_check_def Let_def split: if_splits)
    show ?thesis unfolding tracks_def
    proof (intro allI)
      fix c'
      show "sorted (log_of (if d = Allowed then kept @ [(conv, now)] else kept) c')
        \<and> (\<forall>t \<in> set (log_of (if d = Allowed then kept @ [(conv, now)] else kept) c'). t \<le> now)
        \<and> (\<exists>old. log_of (if d = Allowed then kept @ [(conv, now)] else kept) c' = old @ turns' c'
             \<and> (\<forall>t \<in> set old. t < now - g_window g))"
      proof (cases "c' = conv")
        case True
        then show ?thesis using other [of conv] w Allowed
          by (auto simp: log_of_append t' sorted_append)
      next
        case False
        then show ?thesis using other [of c'] Allowed by (auto simp: log_of_append t')
      qed
    qed
  next
    case (HopDepth a b)
    then have "turns' = turns" using c by (auto simp: loop_check_def Let_def split: if_splits)
    then show ?thesis using other HopDepth by (simp add: tracks_def)
  next
    case (RateLimit a b)
    then have "turns' = turns(conv := ?w)" using c by (auto simp: loop_check_def Let_def split: if_splits)
    then show ?thesis using other w RateLimit by (simp add: tracks_def)
  qed
  with ok show ?thesis by blast
qed

text \<open>C14. The guard answers as its full log would: over any sequence of checks with a clock that does not
  run backwards, dropping old moments from the window changes no decision - each turn is allowed
  exactly when its hop depth is under the cap and fewer than the limit of the conversation's
  turns were allowed within the window before it.\<close>

theorem guard_equals_its_log:
  assumes "0 \<le> g_window g" and "sorted (map (\<lambda>(_, _, now). now) attempts)"
  shows "guard_run g attempts no_turns = spec_run g attempts []"
proof -
  have "guard_run g as turns = spec_run g as kept"
    if "tracks g clock turns kept" and "sorted (map (\<lambda>(_, _, now). now) as)"
      and "\<forall>(_, _, now) \<in> set as. clock \<le> now" for as turns kept clock
    using that
  proof (induction as arbitrary: turns kept clock)
    case (Cons a as)
    obtain conv hop now where a: "a = (conv, hop, now)" by (cases a)
    obtain turns' d where c: "loop_check g conv hop now turns = (turns', d)" by fastforce
    have "clock \<le> now" using Cons.prems(3) a by auto
    note st = guard_step_tracks [OF Cons.prems(1) this assms(1) c]
    have "sorted (map (\<lambda>(_, _, now). now) as)" "\<forall>(_, _, n) \<in> set as. now \<le> n"
      using Cons.prems(2) a by auto
    from Cons.IH [OF conjunct2 [OF st] this] show ?case
      using a c st by (simp add: Let_def)
  qed simp
  moreover have "tracks g clock no_turns []" for clock by (simp add: tracks_def no_turns_def log_of_def)
  moreover have "\<forall>(_, _, now) \<in> set attempts. snd (snd (hd attempts)) \<le> now"
    using assms(2) by (cases attempts) auto
  ultimately show ?thesis using assms(2) by blast
qed

text \<open>No burst gets through: in any stretch of time as long as the guard's window, the
  conversation has at most the configured number of agent-triggered turns, however the checks
  are spread and whatever the other conversations do.\<close>

lemma window_holds_at_most:
  assumes "0 \<le> g_window g" and "sorted (map (\<lambda>(_, _, now). now) attempts)"
  shows "length (filter (\<lambda>((c, _, t), ok). ok \<and> c = conv \<and> m \<le> t \<and> t \<le> m + g_window g)
           (zip attempts (guard_run g attempts no_turns))) \<le> g_max_turns g"
proof -
  define inside where "inside = (\<lambda>(c, t). c = conv \<and> m \<le> t \<and> t \<le> m + g_window g)"
  define seen :: "attempt \<times> bool \<Rightarrow> bool" where "seen = (\<lambda>((c, _, t), ok). ok \<and> inside (c, t))"
  have seen: "seen ((c, hop, t), ok) \<longleftrightarrow> ok \<and> inside (c, t)" for c hop t ok by (simp add: seen_def)
  have count: "length (filter inside kept)
      \<le> length (filter (\<lambda>(c, x). c = conv \<and> t - g_window g \<le> x) kept)" if "t \<le> m + g_window g" for kept t
    using that by (induction kept) (auto simp: inside_def)
  have "length (filter inside kept) \<le> g_max_turns g \<Longrightarrow>
      length (filter inside kept) + length (filter seen (zip as (spec_run g as kept))) \<le> g_max_turns g" for as kept
  proof (induction as arbitrary: kept)
    case (Cons a as)
    obtain c hop t where a: "a = (c, hop, t)" by (cases a)
    show ?case
    proof (cases "spec_allows g kept a \<and> inside (c, t)")
      case True
      then have "length (filter inside kept) < g_max_turns g"
        using count [of t kept] by (auto simp: a spec_allows_def inside_def)
      then have "length (filter inside (kept @ [(c, t)])) \<le> g_max_turns g" using True by simp
      from Cons.IH [OF this] show ?thesis using True by (simp add: a Let_def seen)
    next
      case False
      show ?thesis
      proof (cases "spec_allows g kept a")
        case True
        then have out: "\<not> inside (c, t)" using False by blast
        then have "length (filter inside (kept @ [(c, t)])) \<le> g_max_turns g" using Cons.prems by simp
        from Cons.IH [OF this] show ?thesis using out True by (simp add: a Let_def seen)
      next
        case False
        then show ?thesis using Cons.IH [OF Cons.prems] by (simp add: a seen)
      qed
    qed
  qed simp
  from this [of "[]" attempts] show ?thesis using guard_equals_its_log [OF assms]
    by (simp add: seen_def inside_def)
qed

section \<open>Budgets\<close>

text \<open>What one rule leaves to be spent.\<close>

definition under_limit :: "rat \<Rightarrow> rat \<Rightarrow> bool" where
  "under_limit spent limit \<longleftrightarrow> limit = 0 \<or> spent < limit"

lemma over_None: "over w u spent limit = None \<longleftrightarrow> under_limit spent limit"
  by (auto simp: over_def under_limit_def)

lemma or_else_None: "or_else x y = None \<longleftrightarrow> x = None \<and> y = None"
  by (simp add: or_else_def split: option.splits)

text \<open>A turn is admitted exactly within the budget: when the day's tokens and dollars of the agent,
  and of the person if there is one, are each under the limit set (or no limit is), and the
  application's own rule, asked last, admits it.\<close>

lemma admitted_exactly_within_budget:
  fixes rows :: "usage_record list" and b :: budget and agent :: string and now :: datetime
  defines "spent \<equiv> \<lambda>u. usage_since agent (day_start now) u rows"
  assumes "b = budget_for agent"
  shows "admit budget_for then_answer agent user now rows = None \<longleftrightarrow>
       under_limit (of_int (sum_total (spent None))) (of_int (b_tokens_per_day b))
     \<and> under_limit (sum_cost_usd (spent None)) (b_usd_per_day b)
     \<and> (user \<noteq> [] \<longrightarrow> under_limit (of_int (sum_total (spent (Some user)))) (of_int (b_tokens_per_day_per_person b))
          \<and> under_limit (sum_cost_usd (spent (Some user))) (b_usd_per_day_per_person b))
     \<and> then_answer = None"
proof -
  have z: "under_limit x 0" for x by (simp add: under_limit_def)
  have if_None: "(if c then x else None) = None \<longleftrightarrow> (c \<longrightarrow> x = None)" for c and x :: "'n not_admitted option"
    by simp
  show ?thesis
    unfolding admit_def Let_def assms(2) [symmetric] spent_def
    by (cases "daily b") (auto simp: over_None or_else_None if_None daily_def z)
qed

section \<open>What a day can cost\<close>

text \<open>Turns of one agent and one day, each asking for admission and, admitted, entering its cost.\<close>

fun spend_day :: "(string \<Rightarrow> budget) \<Rightarrow> string \<Rightarrow> (datetime \<times> usage_record) list \<Rightarrow> usage_record list
    \<Rightarrow> usage_record list" where
  "spend_day budget_for agent [] rows = rows"
| "spend_day budget_for agent ((now, r) # turns) rows =
     spend_day budget_for agent turns
       (if admit budget_for (None :: unit option) agent (us_user_id r) now rows = None then add_usage r rows else rows)"

lemma usage_since_add:
  "sum_total (usage_since agent since u (add_usage r rows))
    = sum_total (usage_since agent since u rows) + (if usage_counts agent since u r then us_total r else 0)"
  by (simp add: usage_since_def add_usage_def Let_def)

text \<open>C0. A budget is overrun by one turn at most: turns asked one after the other on a day can take
  the agent's tokens past the limit only by less than what a single turn costs.\<close>

theorem overrun_is_one_turn:
  assumes "0 < b_tokens_per_day (budget_for agent)"
    and "\<forall>(now, r) \<in> set turns. day_start now = since \<and> us_total r \<le> most" and "0 \<le> most"
    and "sum_total (usage_since agent since None rows) < b_tokens_per_day (budget_for agent) + most"
  shows "sum_total (usage_since agent since None (spend_day budget_for agent turns rows))
    < b_tokens_per_day (budget_for agent) + most"
  using assms(2,4)
proof (induction turns arbitrary: rows)
  case (Cons t turns)
  obtain now r where t: "t = (now, r)" by (cases t)
  have r: "day_start now = since" "us_total r \<le> most" using Cons.prems(1) t by auto
  let ?adm = "admit budget_for (None :: unit option) agent (us_user_id r) now rows = None"
  have "sum_total (usage_since agent since None (add_usage r rows)) < b_tokens_per_day (budget_for agent) + most" if ?adm
  proof -
    have "under_limit (of_int (sum_total (usage_since agent (day_start now) None rows))) (of_int (b_tokens_per_day (budget_for agent)))"
      using that admitted_exactly_within_budget [OF refl] by blast
    then have "sum_total (usage_since agent since None rows) < b_tokens_per_day (budget_for agent)"
      using assms(1) r(1) by (simp add: under_limit_def)
    then show ?thesis using r(2) assms(3) by (simp add: usage_since_add)
  qed
  then show ?case using Cons t by simp
qed simp

text \<open>Pruning the ledger before the day begins changes no sum of the day.\<close>

lemma prune_keeps_the_day:
  "before \<le> since \<Longrightarrow> usage_since agent since u (fst (prune_usage before rows)) = usage_since agent since u rows"
proof -
  assume "before \<le> since"
  then have "usage_counts agent since u r \<Longrightarrow> \<not> us_at r < before" for r by (auto simp: usage_counts_def)
  then have "filter (usage_counts agent since u) (del_where (\<lambda>r. us_at r < before) rows)
      = filter (usage_counts agent since u) rows"
    unfolding del_where_def filter_filter by (metis (no_types, lifting) filter_cong)
  then show ?thesis by (simp add: usage_since_def prune_usage_def)
qed

section \<open>Witnesses\<close>

definition sample_guard :: loop_guard where
  "sample_guard = \<lparr>g_max_hops = 4, g_max_turns = 2, g_window = 60\<rparr>"

definition sample_attempts :: "attempt list" where
  "sample_attempts = [(''v'', 1, 0), (''v'', 9, 5), (''v'', 1, 10), (''v'', 1, 50), (''v'', 2, 61)]"

lemma guard_equals_its_log_witness:
  "guard_run sample_guard sample_attempts no_turns = spec_run sample_guard sample_attempts []
   \<and> spec_run sample_guard sample_attempts [] = [True, False, True, False, True]"
proof -
  have "spec_run sample_guard sample_attempts [] = [True, False, True, False, True]" by code_simp
  then show ?thesis using guard_equals_its_log [of sample_guard sample_attempts]
    by (simp add: sample_guard_def sample_attempts_def)
qed

lemma window_holds_at_most_witness:
  "length (filter (\<lambda>((c, _, t), ok). ok \<and> c = ''v'' \<and> 5 \<le> t \<and> t \<le> 65)
     (zip sample_attempts (guard_run sample_guard sample_attempts no_turns))) \<le> 2"
  using window_holds_at_most [of sample_guard sample_attempts "''v''" 5]
  by (simp add: sample_guard_def sample_attempts_def)

definition sample_budget :: budget where
  "sample_budget = \<lparr>b_tokens_per_turn = 0, b_tokens_per_day = 100, b_usd_per_day = 0,
     b_tokens_per_day_per_person = 60, b_usd_per_day_per_person = 0\<rparr>"

definition sample_usage :: usage_record where
  "sample_usage = \<lparr>us_agent = ''ann'', us_user_id = ''u1'', us_at = 5, us_input = 0, us_output = 0,
     us_cache_read = 0, us_cache_write = 0, us_total = 70, us_cost_usd = 0\<rparr>"

lemma admitted_exactly_within_budget_witness:
  "admit (\<lambda>_. sample_budget) (None :: unit option) ''ann'' ''u1'' 7 [sample_usage] \<noteq> None
   \<and> admit (\<lambda>_. sample_budget) (None :: unit option) ''ann'' ''u2'' 7 [sample_usage] = None"
  using admitted_exactly_within_budget [of sample_budget "\<lambda>_. sample_budget" "''ann''" "None :: unit option" "''u1''" 7 "[sample_usage]"]
    admitted_exactly_within_budget [of sample_budget "\<lambda>_. sample_budget" "''ann''" "None :: unit option" "''u2''" 7 "[sample_usage]"]
  by (simp add: sample_budget_def sample_usage_def under_limit_def usage_since_def usage_counts_def day_start_def seconds_def second_def)

lemma overrun_is_one_turn_witness:
  "sum_total (usage_since ''ann'' 0 None (spend_day (\<lambda>_. sample_budget) ''ann''
     [(1, sample_usage), (2, sample_usage\<lparr>us_user_id := ''u2''\<rparr>), (3, sample_usage\<lparr>us_user_id := ''u3''\<rparr>)] [])) < 170"
  using overrun_is_one_turn [of "\<lambda>_. sample_budget" "''ann''"
      "[(1, sample_usage), (2, sample_usage\<lparr>us_user_id := ''u2''\<rparr>), (3, sample_usage\<lparr>us_user_id := ''u3''\<rparr>)]" 0 70 "[]"]
  by (simp add: sample_budget_def sample_usage_def usage_since_def day_start_def seconds_def second_def del: spend_day.simps)

end
