(* ===== verification/Turns.thy ===== *)
theory Turns
  imports Contracts
begin

text \<open>
  How messages become turns: the coalescer of
  \<open>packages/crucible/src/crucible/flows/coalescer.py\<close>, which merges what piles up in a
  conversation while its turn runs, and the registry of running turns of \<open>turns.py\<close>.

  Everything a coroutine does between two awaits is one step.  A worker cancelled before its first
  step, when the process goes down, is left as it is.  A message is its id, the key of
  its conversation (what \<open>ConversationKey.key\<close> answers for it) and whether the engine made
  it; what the flow answers for a batch is an argument of the step that ends the turn.
\<close>

section \<open>The coalescer\<close>

record message =
  m_id :: string
  m_conversation :: string
  m_synthetic :: bool

text \<open>A conversation's worker: none, made but not yet run, or waiting for its turn to end.\<close>

datatype worker_task = NoWorker | Starting | InTurn "message list"

datatype 'o waiter_end = Told 'o | Abandoned

text \<open>
  \<open>tracked i = Some b\<close>: a future is registered for message \<open>i\<close>, and \<open>b\<close> says it is not
  done.  \<open>handed\<close> are the batches given to the flow, \<open>ends\<close> what became of futures and
  \<open>arrived\<close> the messages \<open>on_arrival\<close> was told of, in order.
\<close>

record 'o coalescer =
  queue :: "string \<Rightarrow> message list"
  workers :: "string \<Rightarrow> worker_task"
  tracked :: "string \<Rightarrow> bool option"
  handed :: "(string \<times> message list) list"
  ends :: "(string \<times> 'o waiter_end) list"
  arrived :: "message list"

definition idle_coalescer :: "'o coalescer" where
  "idle_coalescer = \<lparr>queue = (\<lambda>_. []), workers = (\<lambda>_. NoWorker), tracked = (\<lambda>_. None), handed = [],
     ends = [], arrived = []\<rparr>"

definition submit :: "message \<Rightarrow> 'o coalescer \<Rightarrow> 'o coalescer" where
  "submit m s =
     (let conv = m_conversation m in
      s\<lparr>arrived := (if m_synthetic m then arrived s else arrived s @ [m]),
        queue := (queue s)(conv := queue s conv @ [m]),
        workers := (if workers s conv = NoWorker then (workers s)(conv := Starting) else workers s)\<rparr>)"

definition submit_tracked :: "message \<Rightarrow> 'o coalescer \<Rightarrow> 'o coalescer" where
  "submit_tracked m s = submit m (s\<lparr>tracked := (tracked s)(m_id m := Some True)\<rparr>)"

text \<open>The future of one message is popped and, unless it is done, ended.\<close>

definition end_waiter :: "'o waiter_end \<Rightarrow> message \<Rightarrow> 'o coalescer \<Rightarrow> 'o coalescer" where
  "end_waiter e m s =
     s\<lparr>tracked := (tracked s)(m_id m := None),
       ends := (if tracked s (m_id m) = Some True then ends s @ [(m_id m, e)] else ends s)\<rparr>"

definition settle :: "message list \<Rightarrow> 'o \<Rightarrow> 'o coalescer \<Rightarrow> 'o coalescer" where
  "settle batch outcome s = fold (end_waiter (Told outcome)) batch s"

definition abandon_batch :: "message list \<Rightarrow> 'o coalescer \<Rightarrow> 'o coalescer" where
  "abandon_batch batch s = fold (end_waiter Abandoned) batch s"

text \<open>The head of \<open>while self._pending.get(conv)\<close>: the next batch, or the worker's end.\<close>

definition next_batch :: "string \<Rightarrow> 'o coalescer \<Rightarrow> 'o coalescer" where
  "next_batch conv s =
     (if queue s conv \<noteq> []
      then s\<lparr>queue := (queue s)(conv := []), workers := (workers s)(conv := InTurn (queue s conv)),
             handed := handed s @ [(conv, queue s conv)]\<rparr>
      else abandon_batch (queue s conv) (s\<lparr>workers := (workers s)(conv := NoWorker)\<rparr>))"

text \<open>\<open>FlowEnds conv (Some o)\<close>: the flow returned \<open>o\<close>; \<open>None\<close>: it raised, and \<open>err\<close> is the outcome
  \<open>ERROR\<close> the worker settles with.  \<open>GivesUp i\<close>: whoever waits for message \<open>i\<close> cancels its future.\<close>

datatype 'o co_event =
    Submits message | SubmitsTracked message | WorkerRuns string | FlowEnds string "'o option"
  | WorkerCancelled string | GivesUp string

fun co_do :: "'o \<Rightarrow> 'o co_event \<Rightarrow> 'o coalescer \<Rightarrow> 'o coalescer" where
  "co_do err (Submits m) s = submit m s"
| "co_do err (SubmitsTracked m) s = submit_tracked m s"
| "co_do err (WorkerRuns conv) s =
     (case workers s conv of Starting \<Rightarrow> next_batch conv s | _ \<Rightarrow> s)"
| "co_do err (FlowEnds conv answer) s =
     (case workers s conv of
        InTurn batch \<Rightarrow> next_batch conv (settle batch (case answer of Some out \<Rightarrow> out | None \<Rightarrow> err) s)
      | _ \<Rightarrow> s)"
| "co_do err (WorkerCancelled conv) s =
     (case workers s conv of
        InTurn batch \<Rightarrow> (let s1 = (abandon_batch batch s)\<lparr>workers := (workers s)(conv := NoWorker)\<rparr> in
                        abandon_batch (queue s1 conv) s1)
      | _ \<Rightarrow> s)"
| "co_do err (GivesUp i) s =
     (if tracked s i = Some True then s\<lparr>tracked := (tracked s)(i := Some False)\<rparr> else s)"

definition co_run :: "'o \<Rightarrow> 'o co_event list \<Rightarrow> 'o coalescer" where
  "co_run err events = fold (co_do err) events idle_coalescer"

section \<open>Running turns\<close>

text \<open>
  A binding is the tuple \<open>bind\<close> makes: its scope, place and events (one value here), and
  which tuple it is.
\<close>

record 'b binding =
  bd_what :: 'b
  bd_token :: nat

record 'b registry =
  by_session :: "string \<Rightarrow> 'b binding option"
  bindings :: nat

definition empty_registry :: "'b registry" where
  "empty_registry = \<lparr>by_session = (\<lambda>_. None), bindings = 0\<rparr>"

definition current_turn :: "string \<Rightarrow> 'b registry \<Rightarrow> 'b option" where
  "current_turn session r = map_option bd_what (by_session r session)"

definition turn_token :: "string \<Rightarrow> 'b registry \<Rightarrow> nat option" where
  "turn_token session r = map_option bd_token (by_session r session)"

text \<open>Entering \<open>bind\<close> answers what was bound before; leaving it puts that back.\<close>

definition bind_enter :: "string \<Rightarrow> 'b \<Rightarrow> 'b registry \<Rightarrow> 'b registry \<times> 'b binding option" where
  "bind_enter session what r =
     (\<lparr>by_session = (by_session r)(session := Some \<lparr>bd_what = what, bd_token = bindings r\<rparr>),
       bindings = Suc (bindings r)\<rparr>, by_session r session)"

definition bind_exit :: "string \<Rightarrow> 'b binding option \<Rightarrow> 'b registry \<Rightarrow> 'b registry" where
  "bind_exit session previous r =
     (case previous of
        None \<Rightarrow> r\<lparr>by_session := (by_session r)(session := None)\<rparr>
      | Some b \<Rightarrow> r\<lparr>by_session := (by_session r)(session := Some b)\<rparr>)"

section \<open>What the futures' bookkeeping keeps\<close>

lemma end_waiter_frame [simp]:
  "queue (end_waiter e m s) = queue s" "workers (end_waiter e m s) = workers s"
  "handed (end_waiter e m s) = handed s" "arrived (end_waiter e m s) = arrived s"
  by (simp_all add: end_waiter_def)

lemma fold_end_frame [simp]:
  "queue (fold (end_waiter e) ms s) = queue s" "workers (fold (end_waiter e) ms s) = workers s"
  "handed (fold (end_waiter e) ms s) = handed s" "arrived (fold (end_waiter e) ms s) = arrived s"
  by (induction ms arbitrary: s) simp_all

lemma fold_end_tracked:
  "tracked (fold (end_waiter e) ms s) i = (if i \<in> m_id ` set ms then None else tracked s i)"
  by (induction ms arbitrary: s) (auto simp: end_waiter_def)

lemmas settle_frame [simp] = fold_end_frame [where e = "Told out" for out, folded settle_def]
lemmas abandon_frame [simp] = fold_end_frame [where e = Abandoned, folded abandon_batch_def]
lemmas settle_tracked = fold_end_tracked [where e = "Told out" for out, folded settle_def]
lemmas abandon_tracked = fold_end_tracked [where e = Abandoned, folded abandon_batch_def]

lemma abandon_Nil [simp]: "abandon_batch [] s = s"
  by (simp add: abandon_batch_def)

lemma next_batch_handed:
  "concat (map snd (filter (\<lambda>(c, _). c = conv) (handed (next_batch conv' s)))) @ queue (next_batch conv' s) conv
    = concat (map snd (filter (\<lambda>(c, _). c = conv) (handed s))) @ queue s conv"
  by (auto simp: next_batch_def)

section \<open>Nothing is lost, doubled or reordered\<close>

fun submitted :: "'o co_event \<Rightarrow> message list" where
  "submitted (Submits m) = [m]"
| "submitted (SubmitsTracked m) = [m]"
| "submitted _ = []"

text \<open>The abstract coalescer: per conversation, what was submitted, and how much of it the flow got.\<close>

definition flow_got :: "'o coalescer \<Rightarrow> string \<Rightarrow> message list" where
  "flow_got s conv = concat (map snd (filter (\<lambda>(c, _). c = conv) (handed s)))"

lemma co_do_stream:
  "flow_got (co_do err e s) conv @ queue (co_do err e s) conv
    = (flow_got s conv @ queue s conv) @ filter (\<lambda>m. m_conversation m = conv) (submitted e)"
proof (cases e)
  case (FlowEnds c answer)
  then show ?thesis
    using next_batch_handed [of conv c "settle b (case answer of Some out \<Rightarrow> out | None \<Rightarrow> err) s" for b]
    by (cases "workers s c") (auto simp: flow_got_def)
next
  case (WorkerRuns c)
  then show ?thesis using next_batch_handed [of conv c s]
    by (cases "workers s c") (auto simp: flow_got_def)
next
  case (WorkerCancelled c)
  then show ?thesis by (cases "workers s c") (auto simp: flow_got_def Let_def)
qed (auto simp: flow_got_def submit_def submit_tracked_def Let_def)

text \<open>C15. The coalescer is a queue per conversation: over any events - submissions, turns that end,
  fail or are cancelled, waiters that give up - what the flow was handed of a conversation,
  followed by what still waits, is exactly what was submitted to it, in order: no message is
  lost, doubled, reordered or mixed into another conversation.\<close>

theorem coalescer_is_a_queue:
  "flow_got (co_run err events) conv @ queue (co_run err events) conv
    = filter (\<lambda>m. m_conversation m = conv) (concat (map submitted events))"
proof -
  have "flow_got (fold (co_do err) es s) conv @ queue (fold (co_do err) es s) conv
      = (flow_got s conv @ queue s conv) @ filter (\<lambda>m. m_conversation m = conv) (concat (map submitted es))" for es s
    by (induction es arbitrary: s) (simp_all add: co_do_stream [unfolded append_assoc])
  from this [of events idle_coalescer] show ?thesis
    by (simp add: co_run_def idle_coalescer_def flow_got_def)
qed

section \<open>Nobody waits for ever\<close>

definition in_hand :: "worker_task \<Rightarrow> message list" where
  "in_hand w = (case w of InTurn batch \<Rightarrow> batch | _ \<Rightarrow> [])"

text \<open>
  The invariant: what waits in a conversation has a worker, and a future that is registered
  belongs to a message that waits or is being answered in a conversation with a worker.
\<close>

definition co_ok :: "'o coalescer \<Rightarrow> bool" where
  "co_ok s \<longleftrightarrow> (\<forall>conv. queue s conv \<noteq> [] \<longrightarrow> workers s conv \<noteq> NoWorker)
     \<and> (\<forall>i. tracked s i \<noteq> None \<longrightarrow> (\<exists>conv. workers s conv \<noteq> NoWorker
            \<and> i \<in> m_id ` (set (queue s conv) \<union> set (in_hand (workers s conv)))))"

fun no_shutdown :: "'o co_event \<Rightarrow> bool" where
  "no_shutdown (WorkerCancelled _) = False"
| "no_shutdown _ = True"

lemma co_okD:
  assumes "co_ok s"
  shows "queue s conv \<noteq> [] \<Longrightarrow> workers s conv \<noteq> NoWorker"
    and "tracked s i \<noteq> None \<Longrightarrow> \<exists>conv. workers s conv \<noteq> NoWorker
            \<and> i \<in> m_id ` (set (queue s conv) \<union> set (in_hand (workers s conv)))"
  using assms by (auto simp: co_ok_def)

text \<open>Message \<open>i\<close> waits or is being answered in \<open>conv\<close>.\<close>

definition held_in :: "'o coalescer \<Rightarrow> string \<Rightarrow> string \<Rightarrow> bool" where
  "held_in s conv i \<longleftrightarrow> workers s conv \<noteq> NoWorker
     \<and> i \<in> m_id ` (set (queue s conv) \<union> set (in_hand (workers s conv)))"

lemma co_ok_iff:
  "co_ok s \<longleftrightarrow> (\<forall>conv. queue s conv \<noteq> [] \<longrightarrow> workers s conv \<noteq> NoWorker)
     \<and> (\<forall>i. tracked s i \<noteq> None \<longrightarrow> (\<exists>conv. held_in s conv i))"
  by (simp add: co_ok_def held_in_def)

lemma held_in_submit: "held_in s conv i \<Longrightarrow> held_in (submit m s) conv i"
  by (auto simp: held_in_def submit_def Let_def)

lemma held_in_submitted: "held_in (submit m s) (m_conversation m) (m_id m)"
  by (simp add: held_in_def submit_def Let_def)

lemma co_ok_submit:
  assumes "\<forall>conv. queue s conv \<noteq> [] \<longrightarrow> workers s conv \<noteq> NoWorker"
    and "\<forall>i. tracked s i \<noteq> None \<longrightarrow> i = m_id m \<or> (\<exists>conv. held_in s conv i)"
  shows "co_ok (submit m s)"
proof -
  have "tracked (submit m s) = tracked s" by (simp add: submit_def Let_def)
  then have "\<forall>i. tracked (submit m s) i \<noteq> None \<longrightarrow> (\<exists>conv. held_in (submit m s) conv i)"
    using assms(2) held_in_submit held_in_submitted by metis
  moreover have "\<forall>conv. queue (submit m s) conv \<noteq> [] \<longrightarrow> workers (submit m s) conv \<noteq> NoWorker"
    using assms(1) by (auto simp: submit_def Let_def)
  ultimately show ?thesis by (simp add: co_ok_iff)
qed

lemma co_ok_next:
  assumes "\<forall>c. queue s c \<noteq> [] \<longrightarrow> workers s c \<noteq> NoWorker"
    and "\<forall>i. tracked s i \<noteq> None \<longrightarrow> i \<in> m_id ` set (queue s conv) \<or> (\<exists>c. c \<noteq> conv \<and> held_in s c i)"
  shows "co_ok (next_batch conv s)"
proof (cases "queue s conv = []")
  case True
  then have n: "next_batch conv s = s\<lparr>workers := (workers s)(conv := NoWorker)\<rparr>" by (simp add: next_batch_def)
  have "held_in (next_batch conv s) c i" if "c \<noteq> conv" "held_in s c i" for c i
    using that by (simp add: n held_in_def)
  moreover have "\<forall>c. queue (next_batch conv s) c \<noteq> [] \<longrightarrow> workers (next_batch conv s) c \<noteq> NoWorker"
    using assms(1) True by (simp add: n)
  moreover have "tracked (next_batch conv s) = tracked s" by (simp add: n)
  ultimately show ?thesis using assms(2) True unfolding co_ok_iff by force
next
  case False
  let ?n = "next_batch conv s"
  have n: "?n = s\<lparr>queue := (queue s)(conv := []), workers := (workers s)(conv := InTurn (queue s conv)),
             handed := handed s @ [(conv, queue s conv)]\<rparr>" using False by (simp add: next_batch_def)
  have "held_in ?n c i" if "c \<noteq> conv" "held_in s c i" for c i
    using that by (simp add: n held_in_def)
  moreover have "held_in ?n conv i" if "i \<in> m_id ` set (queue s conv)" for i
    using that by (simp add: n held_in_def in_hand_def)
  moreover have "\<forall>c. queue ?n c \<noteq> [] \<longrightarrow> workers ?n c \<noteq> NoWorker"
    using assms(1) by (simp add: n)
  moreover have "tracked ?n = tracked s" by (simp add: n)
  ultimately show ?thesis using assms(2) unfolding co_ok_iff by metis
qed

lemma held_elsewhere:
  assumes "held_in s c i" and "i \<notin> m_id ` set (in_hand (workers s conv))"
  shows "i \<in> m_id ` set (queue s conv) \<or> (\<exists>c. c \<noteq> conv \<and> held_in s c i)"
  using assms by (cases "c = conv") (auto simp: held_in_def)

lemma co_do_keeps_ok:
  assumes ok: "co_ok s" and "no_shutdown e"
  shows "co_ok (co_do err e s)"
proof (cases e)
  case (Submits m)
  have "co_ok (submit m s)" by (rule co_ok_submit) (use ok in \<open>auto simp: co_ok_iff\<close>)
  then show ?thesis using Submits by simp
next
  case (SubmitsTracked m)
  have "held_in (s\<lparr>tracked := t\<rparr>) c i = held_in s c i" for t c i by (simp add: held_in_def)
  then have "co_ok (submit m (s\<lparr>tracked := (tracked s)(m_id m := Some True)\<rparr>))"
    by (intro co_ok_submit) (use ok in \<open>auto simp: co_ok_iff\<close>)
  then show ?thesis using SubmitsTracked by (simp add: submit_tracked_def)
next
  case (WorkerRuns conv)
  show ?thesis
  proof (cases "workers s conv")
    case Starting
    have "i \<in> m_id ` set (queue s conv) \<or> (\<exists>c. c \<noteq> conv \<and> held_in s c i)" if t: "tracked s i \<noteq> None" for i
    proof -
      obtain c where "held_in s c i" using ok t by (auto simp: co_ok_iff)
      then show ?thesis by (rule held_elsewhere) (simp add: in_hand_def Starting)
    qed
    then have "co_ok (next_batch conv s)" using ok
      by (intro co_ok_next) (auto simp: co_ok_iff)
    then show ?thesis using WorkerRuns Starting by simp
  qed (use ok WorkerRuns in simp_all)
next
  case (FlowEnds conv answer)
  show ?thesis
  proof (cases "workers s conv")
    case (InTurn batch)
    define s1 where "s1 = settle batch (case answer of Some out \<Rightarrow> out | None \<Rightarrow> err) s"
    have h: "held_in s1 c i = held_in s c i" for c i by (simp add: s1_def held_in_def)
    have "i \<in> m_id ` set (queue s1 conv) \<or> (\<exists>c. c \<noteq> conv \<and> held_in s1 c i)" if "tracked s1 i \<noteq> None" for i
    proof -
      have t: "i \<notin> m_id ` set batch" "tracked s i \<noteq> None"
        using that by (auto simp: s1_def settle_tracked split: if_splits)
      then obtain c where "held_in s c i" using ok by (auto simp: co_ok_iff)
      then show ?thesis using held_elsewhere [of s c i conv] t InTurn by (simp add: h in_hand_def) (simp add: s1_def)
    qed
    then have "co_ok (next_batch conv s1)" using ok
      by (intro co_ok_next) (auto simp: co_ok_iff s1_def)
    then show ?thesis using FlowEnds InTurn by (simp add: s1_def)
  qed (use ok FlowEnds in simp_all)
next
  case (GivesUp i)
  have "held_in (s\<lparr>tracked := t\<rparr>) c j = held_in s c j" for t c j by (simp add: held_in_def)
  then show ?thesis using ok GivesUp by (auto simp: co_ok_iff)
next
  case (WorkerCancelled conv)
  then show ?thesis using assms(2) by simp
qed

text \<open>C16. Nobody waits for ever: while the engine is not shutting down, a conversation with messages
  waiting has a worker, and every future handed out is either ended or belongs to a message that
  waits or is being answered in a conversation whose worker will come to it.\<close>

theorem every_waiter_has_a_turn_coming:
  assumes "list_all no_shutdown events"
  shows "(queue (co_run err events) conv \<noteq> [] \<longrightarrow> workers (co_run err events) conv \<noteq> NoWorker)
     \<and> (tracked (co_run err events) i \<noteq> None \<longrightarrow> (\<exists>c. held_in (co_run err events) c i))"
proof -
  have "co_ok (fold (co_do err) es s)" if "co_ok s" "list_all no_shutdown es" for es s
    using that by (induction es arbitrary: s) (simp_all add: co_do_keeps_ok)
  moreover have "co_ok (idle_coalescer :: 'a coalescer)" by (simp add: co_ok_def idle_coalescer_def)
  ultimately show ?thesis using assms by (simp add: co_run_def co_ok_iff)
qed

section \<open>One turn for a burst\<close>

lemma end_waiters_tell:
  assumes "tracked s i = Some True" and "i \<in> m_id ` set ms"
  shows "(i, e) \<in> set (ends (fold (end_waiter e) ms s))"
  using assms
proof (induction ms arbitrary: s)
  case (Cons m ms)
  have mono: "(i, e) \<in> set (ends s') \<Longrightarrow> (i, e) \<in> set (ends (fold (end_waiter e) ms s'))" for s'
    by (induction ms arbitrary: s') (auto simp: end_waiter_def)
  show ?case
  proof (cases "m_id m = i")
    case True
    then have "(i, e) \<in> set (ends (end_waiter e m s))" using Cons.prems by (simp add: end_waiter_def)
    then show ?thesis using mono by simp
  next
    case False
    then have "tracked (end_waiter e m s) i = Some True" "i \<in> m_id ` set ms"
      using Cons.prems by (auto simp: end_waiter_def)
    then show ?thesis using Cons.IH by simp
  qed
qed simp

text \<open>A burst becomes one turn: whatever piled up in a conversation while its turn ran is, when
  that turn ends, handed to the flow as one batch; everybody waiting on the ended turn is told
  its one outcome, and everybody waiting on the burst is told the outcome of the next turn, after
  which the conversation is at rest.\<close>

lemma burst_is_one_turn:
  assumes "workers s conv = InTurn batch" and "queue s conv = burst" and "burst \<noteq> []"
    and "s1 = co_do err (FlowEnds conv (Some out1)) s"
    and "s2 = co_do err (FlowEnds conv (Some out2)) s1"
  shows "handed s1 = handed s @ [(conv, burst)] \<and> handed s2 = handed s1
     \<and> workers s2 conv = NoWorker \<and> queue s2 conv = []
     \<and> (i \<in> m_id ` set batch \<and> tracked s i = Some True \<longrightarrow> (i, Told out1) \<in> set (ends s1))
     \<and> (i \<in> m_id ` set burst \<and> i \<notin> m_id ` set batch \<and> tracked s i = Some True \<longrightarrow> (i, Told out2) \<in> set (ends s2))"
proof -
  have s1: "s1 = (let t = settle batch out1 s in
      t\<lparr>queue := (queue s)(conv := []), workers := (workers s)(conv := InTurn burst), handed := handed s @ [(conv, burst)]\<rparr>)"
    using assms(1-4) by (simp add: next_batch_def Let_def)
  then have w: "workers s1 conv = InTurn burst" "queue s1 conv = []" by (simp_all add: Let_def)
  then have s2: "s2 = (settle burst out2 s1)\<lparr>workers := (workers s1)(conv := NoWorker)\<rparr>"
    using assms(5) by (simp add: next_batch_def)
  have "(i, Told out1) \<in> set (ends s1)" if "i \<in> m_id ` set batch" "tracked s i = Some True"
    using end_waiters_tell [OF that(2,1), of "Told out1"] by (simp add: s1 settle_def Let_def)
  moreover have "(i, Told out2) \<in> set (ends s2)"
    if "i \<in> m_id ` set burst" "i \<notin> m_id ` set batch" "tracked s i = Some True"
  proof -
    have "tracked s1 i = Some True" using that(2,3) by (simp add: s1 settle_tracked Let_def)
    from end_waiters_tell [OF this that(1), of "Told out2"] show ?thesis by (simp add: s2 settle_def)
  qed
  ultimately show ?thesis using w by (simp add: s1 s2 Let_def)
qed

section \<open>The registry\<close>

text \<open>What runs inside a \<open>bind\<close>: other sessions' and the same session's turns, properly nested.\<close>

inductive nested :: "'b registry \<Rightarrow> 'b registry \<Rightarrow> bool" where
  none: "nested r r"
| one: "nested r r1 \<Longrightarrow> bind_enter session what r1 = (r2, previous) \<Longrightarrow> nested r2 r3
    \<Longrightarrow> nested r (bind_exit session previous r3)"

lemma bind_exit_restores:
  "bind_enter session what r = (r', previous) \<Longrightarrow> by_session r3 = by_session r'
    \<Longrightarrow> by_session (bind_exit session previous r3) = by_session r"
  by (auto simp: bind_enter_def bind_exit_def split: option.splits)

text \<open>C0. Nested turns leave the registry as they found it: after any properly nested sequence of
  bindings every session's current turn is the one it was before.\<close>

theorem nested_turns_restore:
  assumes "nested r r'"
  shows "current_turn session r' = current_turn session r \<and> turn_token session r' = turn_token session r"
proof -
  have "by_session r' = by_session r" using assms
    by (induction rule: nested.induct) (auto dest: bind_exit_restores)
  then show ?thesis by (simp add: current_turn_def turn_token_def)
qed

text \<open>C0. Turns that overlap without nesting do not: when a second turn starts on a session while the
  first is still finishing and the first ends first, the second loses its binding while it runs,
  and the first's is back after both have ended.\<close>

theorem overlapping_turns_leave_a_stale_one:
  assumes "by_session r session = None"
    and "bind_enter session first r = (r1, previous1)" and "bind_enter session other r1 = (r2, previous2)"
  shows "current_turn session (bind_exit session previous1 r2) = None
     \<and> current_turn session (bind_exit session previous2 (bind_exit session previous1 r2)) = Some first"
  using assms by (auto simp: bind_enter_def bind_exit_def current_turn_def)

section \<open>Witnesses\<close>

definition msg :: "string \<Rightarrow> string \<Rightarrow> message" where
  "msg i conv = \<lparr>m_id = i, m_conversation = conv, m_synthetic = False\<rparr>"

definition sample_events :: "nat co_event list" where
  "sample_events = [SubmitsTracked (msg ''1'' ''v''), WorkerRuns ''v'', Submits (msg ''2'' ''v''),
     SubmitsTracked (msg ''3'' ''v''), Submits (msg ''4'' ''w'')]"

lemma every_waiter_has_a_turn_coming_witness:
  "\<exists>c. held_in (co_run 0 sample_events) c ''3''"
proof -
  have "list_all no_shutdown sample_events" "tracked (co_run 0 sample_events) ''3'' \<noteq> None" by code_simp+
  then show ?thesis
    using every_waiter_has_a_turn_coming [of sample_events 0 "''v''" "''3''"] by simp
qed

lemma burst_is_one_turn_witness:
  "(''3'', Told 6) \<in> set (ends (co_do (0::nat) (FlowEnds ''v'' (Some 6))
     (co_do 0 (FlowEnds ''v'' (Some 5)) (co_run 0 sample_events))))"
proof -
  have w: "workers (co_run (0::nat) sample_events) ''v'' = InTurn [msg ''1'' ''v'']"
    and q: "queue (co_run (0::nat) sample_events) ''v'' = [msg ''2'' ''v'', msg ''3'' ''v'']"
    and t: "tracked (co_run (0::nat) sample_events) ''3'' = Some True" by code_simp+
  have "''3'' \<in> m_id ` set [msg ''2'' ''v'', msg ''3'' ''v'']" "''3'' \<notin> m_id ` set [msg ''1'' ''v'']"
    by (simp_all add: msg_def)
  then show ?thesis
    using burst_is_one_turn [OF w q _ refl refl, of 0 5 6 "''3''"] t by blast
qed

lemma nested_turns_restore_witness:
  "\<exists>r'. nested empty_registry r' \<and> current_turn ''s'' r' = (None :: nat option) \<and> bindings r' = 1"
proof -
  obtain r1 p where e: "bind_enter ''s'' (7 :: nat) empty_registry = (r1, p)" by fastforce
  have n: "nested empty_registry (bind_exit ''s'' p r1)"
    by (rule nested.one [OF nested.none e nested.none])
  have "bindings (bind_exit ''s'' p r1) = 1"
    using e by (auto simp: bind_enter_def bind_exit_def empty_registry_def)
  then show ?thesis using nested_turns_restore [OF n, of "''s''"] n
    by (auto simp: current_turn_def empty_registry_def)
qed

lemma overlapping_turns_leave_a_stale_one_witness:
  "\<exists>r. current_turn ''s'' r = Some (0 :: nat)"
proof -
  obtain r1 p1 where e1: "bind_enter ''s'' (0 :: nat) empty_registry = (r1, p1)" by fastforce
  obtain r2 p2 where e2: "bind_enter ''s'' (3 :: nat) r1 = (r2, p2)" by fastforce
  have "by_session empty_registry ''s'' = None" by (simp add: empty_registry_def)
  from overlapping_turns_leave_a_stale_one [OF this e1 e2] show ?thesis by blast
qed

end
