(* ===== verification/ChatCards.thy ===== *)
theory ChatCards
  imports Prelude
begin

text \<open>
  The messages with controls that the engine posts (\<open>packages/crucible/src/crucible/ports/chat/types.py\<close>),
  how they travel through the store as JSON (\<open>ports/chat/interactions.py\<close>), and the two stores of
  cards a conversation holds outside a turn (\<open>store/sqlite/cards.py\<close> and \<open>InMemoryHeldCards\<close> of
  \<open>gateways/http/turns.py\<close>).

  A JSON text is the value it denotes: \<open>json.dumps\<close> and \<open>json.loads\<close> are inverse on the values
  the engine writes.  The answer \<open>None\<close> of a reader is an exception of the code (a missing key),
  or a member of another JSON type, which no writer produces.
\<close>

section \<open>Controls, cards and forms\<close>

record choice =
  ch_label :: string
  ch_value :: string

datatype json =
    JNull | JBool bool | JInt int | JStr string | JList "json list" | JObj "(string \<times> json) list"

definition ACTION_BUTTON :: string where "ACTION_BUTTON = ''button''"
definition ACTION_SELECT :: string where "ACTION_SELECT = ''select''"

record control =
  c_id :: string
  c_label :: string
  c_value :: string
  c_style :: string
  c_context :: "(string \<times> json) list"
  c_kind :: string
  c_options :: "choice list"
  c_data :: string

record preview_row =
  row_label :: string
  row_value :: string
  row_before :: string
  row_passage :: bool

text \<open>An icon is a name for it.\<close>

definition DEFAULT_ICON :: string where "DEFAULT_ICON = ''gear''"

record approval_request =
  q_agent :: string
  q_headline :: string
  q_icon :: string
  q_title :: string
  q_tool :: string
  q_display_name :: string
  q_fields :: "preview_row list"
  q_block_label :: string
  q_block :: string
  q_block_language :: string
  q_danger :: bool
  q_expires_at :: string
  q_verdict :: string
  q_grant_s :: int

record form_field =
  ff_name :: string
  ff_label :: string
  ff_type :: string
  ff_options :: "string list"
  ff_optional :: bool
  ff_placeholder :: string
  ff_help_text :: string
  ff_value :: string

record form =
  fm_title :: string
  fm_fields :: "form_field list"
  fm_intro :: string
  fm_submit_label :: string
  fm_open_label :: string

section \<open>Reading JSON\<close>

text \<open>\<open>d[key]\<close>, \<open>d.get(key, default)\<close> and the members of a list, with their types.\<close>

fun members :: "json \<Rightarrow> (string \<times> json) list option" where
  "members (JObj ms) = Some ms"
| "members _ = None"

fun as_str :: "json \<Rightarrow> string option" where
  "as_str (JStr s) = Some s"
| "as_str _ = None"

fun as_bool :: "json \<Rightarrow> bool option" where
  "as_bool (JBool b) = Some b"
| "as_bool _ = None"

fun as_int :: "json \<Rightarrow> int option" where
  "as_int (JInt n) = Some n"
| "as_int _ = None"

fun as_list :: "json \<Rightarrow> json list option" where
  "as_list (JList js) = Some js"
| "as_list _ = None"

definition must :: "(json \<Rightarrow> 'a option) \<Rightarrow> string \<Rightarrow> (string \<times> json) list \<Rightarrow> 'a option" where
  "must read key ms = Option.bind (map_of ms key) read"

definition may :: "(json \<Rightarrow> 'a option) \<Rightarrow> 'a \<Rightarrow> string \<Rightarrow> (string \<times> json) list \<Rightarrow> 'a option" where
  "may read dflt key ms = (case map_of ms key of None \<Rightarrow> Some dflt | Some j \<Rightarrow> read j)"

text \<open>Reading every element of a list, in order; the first that cannot be read ends it.\<close>

fun all_of :: "('a \<Rightarrow> 'b option) \<Rightarrow> 'a list \<Rightarrow> 'b list option" where
  "all_of f [] = Some []"
| "all_of f (x # xs) = (case f x of None \<Rightarrow> None | Some y \<Rightarrow> map_option ((#) y) (all_of f xs))"

lemma all_of_map: "(\<And>x. x \<in> set xs \<Longrightarrow> f (g x) = Some (h x)) \<Longrightarrow> all_of f (map g xs) = Some (map h xs)"
  by (induction xs) auto

section \<open>Writing and reading\<close>

definition choice_to_json :: "choice \<Rightarrow> json" where
  "choice_to_json c = JObj [(''label'', JStr (ch_label c)), (''value'', JStr (ch_value c))]"

definition choice_from_json :: "json \<Rightarrow> choice option" where
  "choice_from_json j = Option.bind (members j) (\<lambda>d.
     Option.bind (must as_str ''label'' d) (\<lambda>l.
     Option.bind (must as_str ''value'' d) (\<lambda>v. Some \<lparr>ch_label = l, ch_value = v\<rparr>)))"

definition actions_to_json :: "control list \<Rightarrow> json" where
  "actions_to_json cs = JList (map (\<lambda>a. JObj
     [(''id'', JStr (c_id a)), (''label'', JStr (c_label a)), (''value'', JStr (c_value a)),
      (''style'', JStr (c_style a)), (''context'', JObj (c_context a)), (''kind'', JStr (c_kind a)),
      (''options'', JList (map choice_to_json (c_options a)))]) cs)"

text \<open>\<open>a.get("context") or {}\<close>: null, too, is no context.\<close>

fun context_of :: "json \<Rightarrow> (string \<times> json) list option" where
  "context_of JNull = Some []"
| "context_of (JObj ms) = Some ms"
| "context_of _ = None"

definition action_from_json :: "json \<Rightarrow> control option" where
  "action_from_json j = Option.bind (members j) (\<lambda>d.
     Option.bind (must as_str ''id'' d) (\<lambda>i.
     Option.bind (must as_str ''label'' d) (\<lambda>l.
     Option.bind (may as_str [] ''value'' d) (\<lambda>v.
     Option.bind (may as_str [] ''style'' d) (\<lambda>st.
     Option.bind (may context_of [] ''context'' d) (\<lambda>cx.
     Option.bind (may as_str ACTION_BUTTON ''kind'' d) (\<lambda>k.
     Option.bind (Option.bind (may as_list [] ''options'' d) (all_of choice_from_json)) (\<lambda>os.
       Some \<lparr>c_id = i, c_label = l, c_value = v, c_style = st, c_context = cx, c_kind = k,
             c_options = os, c_data = []\<rparr>))))))))"

definition actions_from_json :: "json \<Rightarrow> control list option" where
  "actions_from_json j = Option.bind (as_list j) (all_of action_from_json)"

definition row_to_json :: "preview_row \<Rightarrow> json" where
  "row_to_json r = JObj [(''label'', JStr (row_label r)), (''value'', JStr (row_value r)),
     (''before'', JStr (row_before r)), (''passage'', JBool (row_passage r))]"

definition row_from_json :: "json \<Rightarrow> preview_row option" where
  "row_from_json j = Option.bind (members j) (\<lambda>f.
     Option.bind (must as_str ''label'' f) (\<lambda>l.
     Option.bind (must as_str ''value'' f) (\<lambda>v.
     Option.bind (may as_str [] ''before'' f) (\<lambda>b.
     Option.bind (may as_bool False ''passage'' f) (\<lambda>p.
       Some \<lparr>row_label = l, row_value = v, row_before = b, row_passage = p\<rparr>)))))"

definition approval_card_to_json :: "approval_request \<Rightarrow> json" where
  "approval_card_to_json c = JObj
     [(''agent'', JStr (q_agent c)), (''headline'', JStr (q_headline c)), (''icon'', JStr (q_icon c)),
      (''title'', JStr (q_title c)), (''tool'', JStr (q_tool c)),
      (''fields'', JList (map row_to_json (q_fields c))),
      (''block_label'', JStr (q_block_label c)), (''block'', JStr (q_block c)),
      (''danger'', JBool (q_danger c)), (''expires_at'', JStr (q_expires_at c)),
      (''verdict'', JStr (q_verdict c)), (''grant_s'', JInt (q_grant_s c))]"

definition approval_card_from_json :: "json \<Rightarrow> approval_request option" where
  "approval_card_from_json j = Option.bind (members j) (\<lambda>d.
     Option.bind (must as_str ''agent'' d) (\<lambda>ag.
     Option.bind (must as_str ''headline'' d) (\<lambda>hl.
     Option.bind (may as_str DEFAULT_ICON ''icon'' d) (\<lambda>ic.
     Option.bind (may as_str [] ''title'' d) (\<lambda>ti.
     Option.bind (may as_str [] ''tool'' d) (\<lambda>tl.
     Option.bind (Option.bind (may as_list [] ''fields'' d) (all_of row_from_json)) (\<lambda>fs.
     Option.bind (may as_str [] ''block_label'' d) (\<lambda>bl.
     Option.bind (may as_str [] ''block'' d) (\<lambda>bk.
     Option.bind (may as_bool False ''danger'' d) (\<lambda>dg.
     Option.bind (may as_str [] ''expires_at'' d) (\<lambda>ex.
     Option.bind (may as_str [] ''verdict'' d) (\<lambda>vd.
     Option.bind (may as_int 0 ''grant_s'' d) (\<lambda>gs.
       Some \<lparr>q_agent = ag, q_headline = hl, q_icon = ic, q_title = ti, q_tool = tl, q_display_name = [],
             q_fields = fs, q_block_label = bl, q_block = bk, q_block_language = [], q_danger = dg,
             q_expires_at = ex, q_verdict = vd, q_grant_s = gs\<rparr>)))))))))))))"

definition form_to_json :: "form \<Rightarrow> json" where
  "form_to_json f = JObj
     [(''title'', JStr (fm_title f)), (''intro'', JStr (fm_intro f)),
      (''submit_label'', JStr (fm_submit_label f)), (''open_label'', JStr (fm_open_label f)),
      (''fields'', JList (map (\<lambda>x. JObj
         [(''name'', JStr (ff_name x)), (''label'', JStr (ff_label x)), (''type'', JStr (ff_type x)),
          (''options'', JList (map JStr (ff_options x))), (''optional'', JBool (ff_optional x)),
          (''placeholder'', JStr (ff_placeholder x)), (''help_text'', JStr (ff_help_text x))]) (fm_fields f)))]"

definition field_from_json :: "json \<Rightarrow> form_field option" where
  "field_from_json j = Option.bind (members j) (\<lambda>f.
     Option.bind (must as_str ''name'' f) (\<lambda>n.
     Option.bind (must as_str ''label'' f) (\<lambda>l.
     Option.bind (may as_str ''text'' ''type'' f) (\<lambda>ty.
     Option.bind (Option.bind (may as_list [] ''options'' f) (all_of as_str)) (\<lambda>os.
     Option.bind (may as_bool False ''optional'' f) (\<lambda>op.
     Option.bind (may as_str [] ''placeholder'' f) (\<lambda>ph.
     Option.bind (may as_str [] ''help_text'' f) (\<lambda>ht.
       Some \<lparr>ff_name = n, ff_label = l, ff_type = ty, ff_options = os, ff_optional = op,
             ff_placeholder = ph, ff_help_text = ht, ff_value = []\<rparr>))))))))"

definition form_from_json :: "json \<Rightarrow> form option" where
  "form_from_json j = Option.bind (members j) (\<lambda>d.
     Option.bind (must as_str ''title'' d) (\<lambda>t.
     Option.bind (may as_str [] ''intro'' d) (\<lambda>i.
     Option.bind (may as_str ''Submit'' ''submit_label'' d) (\<lambda>sl.
     Option.bind (may as_str [] ''open_label'' d) (\<lambda>ol.
     Option.bind (Option.bind (must as_list ''fields'' d) (all_of field_from_json)) (\<lambda>fs.
       Some \<lparr>fm_title = t, fm_fields = fs, fm_intro = i, fm_submit_label = sl, fm_open_label = ol\<rparr>))))))"

section \<open>What comes back\<close>

lemmas json_read = must_def may_def

lemma choice_round_trip [simp]: "choice_from_json (choice_to_json c) = Some c"
  by (simp add: choice_from_json_def choice_to_json_def json_read)

lemma row_round_trip [simp]: "row_from_json (row_to_json r) = Some r"
  by (simp add: row_from_json_def row_to_json_def json_read)

lemma all_of_id: "(\<And>x. f (g x) = Some x) \<Longrightarrow> all_of f (map g xs) = Some xs"
  using all_of_map [of xs f g "\<lambda>x. x"] by simp

lemma actions_kept:
  "actions_from_json (actions_to_json cs) = Some (map (\<lambda>a. a\<lparr>c_data := []\<rparr>) cs)"
  unfolding actions_from_json_def actions_to_json_def as_list.simps Option.bind.simps
  by (rule all_of_map) (simp add: action_from_json_def json_read all_of_id)

lemma card_kept:
  "approval_card_from_json (approval_card_to_json q) = Some (q\<lparr>q_display_name := [], q_block_language := []\<rparr>)"
  by (simp add: approval_card_from_json_def approval_card_to_json_def json_read all_of_id)

lemma form_kept:
  "form_from_json (form_to_json f) = Some (f\<lparr>fm_fields := map (\<lambda>x. x\<lparr>ff_value := []\<rparr>) (fm_fields f)\<rparr>)"
proof -
  have "all_of field_from_json (map (\<lambda>x. JObj
         [(''name'', JStr (ff_name x)), (''label'', JStr (ff_label x)), (''type'', JStr (ff_type x)),
          (''options'', JList (map JStr (ff_options x))), (''optional'', JBool (ff_optional x)),
          (''placeholder'', JStr (ff_placeholder x)), (''help_text'', JStr (ff_help_text x))]) (fm_fields f))
      = Some (map (\<lambda>x. x\<lparr>ff_value := []\<rparr>) (fm_fields f))"
    by (rule all_of_map) (simp add: field_from_json_def json_read all_of_id)
  then show ?thesis by (simp add: form_from_json_def form_to_json_def json_read)
qed

text \<open>What a stored card keeps: reading back the JSON of a card's controls gives every control
  without its application data, reading back a card gives it without the display name of its tool
  and the language of its block, and reading back a form gives it without the values its fields
  start with; everything else survives.\<close>

lemma what_the_store_keeps:
  "actions_from_json (actions_to_json cs) = Some (map (\<lambda>a. a\<lparr>c_data := []\<rparr>) cs)
   \<and> approval_card_from_json (approval_card_to_json q) = Some (q\<lparr>q_display_name := [], q_block_language := []\<rparr>)
   \<and> form_from_json (form_to_json f)
       = Some (f\<lparr>fm_fields := map (\<lambda>x. x\<lparr>ff_value := []\<rparr>) (fm_fields f)\<rparr>)"
  using actions_kept card_kept form_kept by blast

text \<open>So the statements that a card is kept whole, and its controls with every field, are not kept:
  a tool is shown by its id where the card named it for people, and a field that starts with what
  it edits opens empty.\<close>

lemma stored_card_loses_name:
  "q_display_name q \<noteq> [] \<Longrightarrow> approval_card_from_json (approval_card_to_json q) \<noteq> Some q"
  by (cases q) (simp add: card_kept)

lemma stored_form_loses_values:
  assumes "x \<in> set (fm_fields f)" and "ff_value x \<noteq> []"
  shows "form_from_json (form_to_json f) \<noteq> Some f"
proof
  assume "form_from_json (form_to_json f) = Some f"
  then have "f\<lparr>fm_fields := map (\<lambda>x. x\<lparr>ff_value := []\<rparr>) (fm_fields f)\<rparr> = f" by (simp add: form_kept)
  from arg_cong [OF this, of fm_fields]
  have "map (\<lambda>x. x\<lparr>ff_value := []\<rparr>) (fm_fields f) = fm_fields f" by simp
  then have "x \<in> set (map (\<lambda>x. x\<lparr>ff_value := []\<rparr>) (fm_fields f))" using assms(1) by simp
  then show False using assms(2) by auto
qed

section \<open>Cards held outside a turn\<close>

record held_card =
  h_gateway :: string
  h_conversation :: string
  h_post_id :: string
  h_agent :: string
  h_card :: json
  h_actions :: json
  h_held_at :: stamp

text \<open>The table, under its primary key \<open>post_id\<close>.\<close>

definition hold_card :: "held_card \<Rightarrow> held_card list \<Rightarrow> held_card list" where
  "hold_card r rows =
     (if \<exists>r' \<in> set rows. h_post_id r' = h_post_id r
      then upd_where (\<lambda>r'. h_post_id r' = h_post_id r) (\<lambda>r'. r'\<lparr>h_card := h_card r, h_actions := h_actions r\<rparr>) rows
      else rows @ [r])"

definition held_cards :: "string \<Rightarrow> string \<Rightarrow> held_card list \<Rightarrow> held_card list" where
  "held_cards gateway conversation rows =
     sort_key h_held_at (sort_key h_post_id
       (filter (\<lambda>r. h_gateway r = gateway \<and> h_conversation r = conversation) rows))"

definition held_card_of :: "string \<Rightarrow> held_card list \<Rightarrow> held_card option" where
  "held_card_of post_id rows = fetchone (\<lambda>r. h_post_id r = post_id) rows"

definition release_card :: "string \<Rightarrow> held_card list \<Rightarrow> held_card list" where
  "release_card post_id rows = del_where (\<lambda>r. h_post_id r = post_id) rows"

text \<open>\<open>InMemoryHeldCards\<close>: a dict in the order of its insertions; assigning a key it has keeps its place.\<close>

definition mem_hold_card :: "held_card \<Rightarrow> held_card list \<Rightarrow> held_card list" where
  "mem_hold_card r cards =
     (if \<exists>r' \<in> set cards. h_post_id r' = h_post_id r
      then map (\<lambda>r'. if h_post_id r' = h_post_id r then r else r') cards else cards @ [r])"

definition mem_held_cards :: "string \<Rightarrow> string \<Rightarrow> held_card list \<Rightarrow> held_card list" where
  "mem_held_cards gateway conversation cards =
     filter (\<lambda>c. h_gateway c = gateway \<and> h_conversation c = conversation) cards"

definition mem_held_card :: "string \<Rightarrow> held_card list \<Rightarrow> held_card option" where
  "mem_held_card post_id cards = fetchone (\<lambda>c. h_post_id c = post_id) cards"

definition mem_release_card :: "string \<Rightarrow> held_card list \<Rightarrow> held_card list" where
  "mem_release_card post_id cards = del_where (\<lambda>c. h_post_id c = post_id) cards"

section \<open>One store like the other\<close>

datatype held_op = Holds held_card | Releases string

fun held_do :: "held_op \<Rightarrow> held_card list \<Rightarrow> held_card list" where
  "held_do (Holds r) rows = hold_card r rows"
| "held_do (Releases p) rows = release_card p rows"

fun mem_do :: "held_op \<Rightarrow> held_card list \<Rightarrow> held_card list" where
  "mem_do (Holds r) cards = mem_hold_card r cards"
| "mem_do (Releases p) cards = mem_release_card p cards"

text \<open>
  How the gateway calls them: a post is held for one conversation, a later moment each time, and
  rewritten for the same one.
\<close>

definition shown :: "held_card \<Rightarrow> string \<times> string \<times> string \<times> string \<times> json \<times> json" where
  "shown c = (h_gateway c, h_conversation c, h_post_id c, h_agent c, h_card c, h_actions c)"

fun held_orderly :: "held_op list \<Rightarrow> held_card list \<Rightarrow> bool" where
  "held_orderly [] rows = True"
| "held_orderly (Releases p # ops) rows = held_orderly ops (release_card p rows)"
| "held_orderly (Holds r # ops) rows =
     ((if \<exists>r' \<in> set rows. h_post_id r' = h_post_id r
       then list_all (\<lambda>r'. h_post_id r' \<noteq> h_post_id r \<or> h_gateway r' = h_gateway r \<and> h_conversation r' = h_conversation r
             \<and> h_agent r' = h_agent r) rows
       else list_all (\<lambda>r'. h_held_at r' < h_held_at r) rows) \<and> held_orderly ops (hold_card r rows))"

lemma shown_simps:
  "shown a = shown b \<longleftrightarrow> h_gateway a = h_gateway b \<and> h_conversation a = h_conversation b
     \<and> h_post_id a = h_post_id b \<and> h_agent a = h_agent b \<and> h_card a = h_card b \<and> h_actions a = h_actions b"
  by (auto simp: shown_def)

text \<open>The stores agree when they show the same cards in the same places and the table is in the order of its times.\<close>

definition stores_agree :: "held_card list \<Rightarrow> held_card list \<Rightarrow> bool" where
  "stores_agree rows cards \<longleftrightarrow> map shown rows = map shown cards \<and> sorted_wrt (<) (map h_held_at rows)"

lemma agree_posts: "map shown rows = map shown cards \<Longrightarrow> map h_post_id rows = map h_post_id cards"
proof -
  assume "map shown rows = map shown cards"
  then have "map (\<lambda>(g, c, p, a, x, y). p) (map shown rows) = map (\<lambda>(g, c, p, a, x, y). p) (map shown cards)" by simp
  then show ?thesis by (simp add: shown_def comp_def)
qed

lemma agree_known:
  "map h_post_id rows = map h_post_id cards
    \<Longrightarrow> (\<exists>r \<in> set rows. h_post_id r = p) \<longleftrightarrow> (\<exists>r \<in> set cards. h_post_id r = p)"
proof -
  assume "map h_post_id rows = map h_post_id cards"
  then have "h_post_id ` set rows = h_post_id ` set cards" by (metis list.set_map)
  then have "p \<in> h_post_id ` set rows \<longleftrightarrow> p \<in> h_post_id ` set cards" by simp
  then show ?thesis unfolding image_iff by metis
qed

lemma agree_filter:
  assumes "map shown rows = map shown cards" and "\<And>a b. shown a = shown b \<Longrightarrow> P a = P b"
  shows "map shown (filter P rows) = map shown (filter P cards)"
  using assms(1)
proof (induction rows arbitrary: cards)
  case (Cons r rows)
  then obtain c cs where "cards = c # cs" "shown r = shown c" "map shown rows = map shown cs" by auto
  then show ?case using Cons.IH [of cs] assms(2) [of r c] by simp
qed simp

lemma agree_rewrite:
  assumes "map shown rows = map shown cards"
    and "list_all (\<lambda>r'. h_post_id r' \<noteq> h_post_id r \<or> h_gateway r' = h_gateway r
           \<and> h_conversation r' = h_conversation r \<and> h_agent r' = h_agent r) rows"
  shows "map shown (upd_where (\<lambda>r'. h_post_id r' = h_post_id r) (\<lambda>r'. r'\<lparr>h_card := h_card r, h_actions := h_actions r\<rparr>) rows)
    = map shown (map (\<lambda>r'. if h_post_id r' = h_post_id r then r else r') cards)"
  using assms
proof (induction rows arbitrary: cards)
  case (Cons x rows)
  then obtain c cs where c: "cards = c # cs" "shown x = shown c" "map shown rows = map shown cs" by auto
  have "h_post_id x = h_post_id c" using c(2) by (simp add: shown_simps)
  then show ?case using Cons.IH [OF c(3)] Cons.prems(2) c(1,2) by (auto simp: shown_simps)
qed simp

lemma sorted_wrt_del:
  "sorted_wrt (<) (map h_held_at rows) \<Longrightarrow> sorted_wrt (<) (map h_held_at (del_where p rows))"
  by (induction rows) (auto simp: del_where_def)

lemma held_do_agrees:
  assumes "stores_agree rows cards" and "held_orderly (e # ops) rows"
  shows "stores_agree (held_do e rows) (mem_do e cards)"
proof (cases e)
  case (Releases p)
  have "map shown (del_where (\<lambda>r. h_post_id r = p) rows) = map shown (del_where (\<lambda>r. h_post_id r = p) cards)"
    unfolding del_where_def using assms(1) by (intro agree_filter) (auto simp: stores_agree_def shown_simps)
  moreover have "sorted_wrt (<) (map h_held_at (del_where (\<lambda>r. h_post_id r = p) rows))"
    by (rule sorted_wrt_del) (use assms(1) in \<open>simp add: stores_agree_def\<close>)
  ultimately show ?thesis using Releases
    by (simp add: stores_agree_def release_card_def mem_release_card_def)
next
  case (Holds r)
  have sh: "map shown rows = map shown cards" and so: "sorted_wrt (<) (map h_held_at rows)"
    using assms(1) by (simp_all add: stores_agree_def)
  have known: "(\<exists>r' \<in> set rows. h_post_id r' = h_post_id r) \<longleftrightarrow> (\<exists>r' \<in> set cards. h_post_id r' = h_post_id r)"
    by (rule agree_known [OF agree_posts [OF sh]])
  show ?thesis
  proof (cases "\<exists>r' \<in> set rows. h_post_id r' = h_post_id r")
    case True
    then have cond: "list_all (\<lambda>r'. h_post_id r' \<noteq> h_post_id r \<or> h_gateway r' = h_gateway r
           \<and> h_conversation r' = h_conversation r \<and> h_agent r' = h_agent r) rows"
      using assms(2) Holds by simp
    have "map h_held_at (upd_where (\<lambda>r'. h_post_id r' = h_post_id r)
        (\<lambda>r'. r'\<lparr>h_card := h_card r, h_actions := h_actions r\<rparr>) rows) = map h_held_at rows"
      by (rule upd_where_keeps) simp
    then show ?thesis using agree_rewrite [OF sh cond] so True known Holds
      by (simp add: stores_agree_def hold_card_def mem_hold_card_def)
  next
    case False
    then have "list_all (\<lambda>r'. h_held_at r' < h_held_at r) rows" using assms(2) Holds by simp
    then show ?thesis using sh so False known Holds
      by (auto simp: stores_agree_def hold_card_def mem_hold_card_def sorted_wrt_append list_all_iff)
  qed
qed

lemma agree_reads:
  assumes "stores_agree rows cards"
  shows "map shown (held_cards gw conv rows) = map shown (mem_held_cards gw conv cards)"
proof -
  let ?P = "\<lambda>r. h_gateway r = gw \<and> h_conversation r = conv"
  have so: "sorted_wrt (<) (map h_held_at (filter ?P rows))"
    using assms sorted_wrt_del [of rows "\<lambda>r. \<not> ?P r"] by (simp add: stores_agree_def del_where_def)
  have "sort_key h_held_at (sort_key h_post_id (filter ?P rows)) = filter ?P rows"
  proof (rule map_sorted_distinct_set_unique)
    have "inj_on h_held_at (set (filter ?P rows))"
      using so strict_sorted_iff [of "map h_held_at (filter ?P rows)"] by (simp add: distinct_map)
    then show "inj_on h_held_at (set (sort_key h_held_at (sort_key h_post_id (filter ?P rows))) \<union> set (filter ?P rows))"
      by simp
    show "sorted (map h_held_at (filter ?P rows))" "distinct (map h_held_at (filter ?P rows))"
      using so strict_sorted_iff [of "map h_held_at (filter ?P rows)"] by simp_all
    then show "distinct (map h_held_at (sort_key h_held_at (sort_key h_post_id (filter ?P rows))))"
      by (simp add: distinct_map)
  qed simp_all
  then show ?thesis using assms agree_filter [of rows cards ?P]
    by (simp add: held_cards_def mem_held_cards_def stores_agree_def shown_simps)
qed

text \<open>The store of one process and the store every replica shares are one: over any sequence of
  holding, rewriting and releasing cards as the gateway does it, a conversation is shown the same
  cards, controls and order by either, oldest first.\<close>

lemma held_stores_agree:
  assumes "held_orderly ops []"
  shows "map shown (held_cards gateway conversation (fold held_do ops []))
       = map shown (mem_held_cards gateway conversation (fold mem_do ops []))"
proof -
  have "stores_agree (fold held_do ops rows) (fold mem_do ops cards)"
    if "held_orderly ops rows" "stores_agree rows cards" for rows cards
    using that
  proof (induction ops arbitrary: rows cards)
    case (Cons e ops)
    have "held_orderly ops (held_do e rows)" using Cons.prems(1) by (cases e) simp_all
    then show ?case using Cons.IH held_do_agrees [OF Cons.prems(2,1)] by simp
  qed simp
  then show ?thesis using assms by (intro agree_reads) (simp add: stores_agree_def)
qed

definition sample_held :: "string \<Rightarrow> string \<Rightarrow> stamp \<Rightarrow> held_card" where
  "sample_held p body at = \<lparr>h_gateway = ''http'', h_conversation = ''web:1'', h_post_id = p, h_agent = ''helper'',
     h_card = JStr body, h_actions = JList [], h_held_at = at\<rparr>"

definition sample_held_ops :: "held_op list" where
  "sample_held_ops = [Holds (sample_held ''b'' ''first'' 10), Holds (sample_held ''a'' ''second'' 20),
     Holds (sample_held ''b'' ''again'' 30), Holds (sample_held ''c'' ''third'' 40), Releases ''c'']"

lemma held_stores_agree_witness:
  "map h_post_id (held_cards ''http'' ''web:1'' (fold held_do sample_held_ops [])) = [''b'', ''a'']
   \<and> map shown (held_cards ''http'' ''web:1'' (fold held_do sample_held_ops []))
     = map shown (mem_held_cards ''http'' ''web:1'' (fold mem_do sample_held_ops []))"
proof
  show "map h_post_id (held_cards ''http'' ''web:1'' (fold held_do sample_held_ops [])) = [''b'', ''a'']" by code_simp
  have "held_orderly sample_held_ops []" by code_simp
  then show "map shown (held_cards ''http'' ''web:1'' (fold held_do sample_held_ops []))
     = map shown (mem_held_cards ''http'' ''web:1'' (fold mem_do sample_held_ops []))"
    by (rule held_stores_agree)
qed

end
