(* ===== verification/Approvals.thy ===== *)
theory Approvals
  imports Prelude Contracts
begin

text \<open>
  Asking a human: the requests waiting for an answer (\<open>crucible/approvals/pending.py\<close>), the
  controls a card offers and how their values are read back (\<open>crucible/approvals/controls.py\<close>),
  the dialogs a turn blocks on (\<open>crucible/interactions/pending_ui.py\<close>), and the windows and the
  ledger an answer lands in (\<open>crucible/store/sqlite/approvals.py\<close>).

  A registry is a map from tokens to entries.  A future is what it holds: nothing yet, an answer,
  or a cancellation, of which the code reads whether it is done; an answer that is set is also
  what the operation returns.
\<close>

section \<open>Answers\<close>

record approval =
  allowed :: bool
  grant_s :: int
  approver :: string
  timed_out :: bool

definition APPROVAL_KEY :: string where "APPROVAL_KEY = ''approval''"
definition ANSWER_ONCE :: string where "ANSWER_ONCE = ''once''"
definition ANSWER_DENY :: string where "ANSWER_DENY = ''deny''"
definition ANSWER_GRANT_PREFIX :: string where "ANSWER_GRANT_PREFIX = ''grant:''"

text \<open>
  \<open>int(text)\<close> of Python: white space around, a sign, digits with single underscores between
  them, at most 4300 of them; anything else raises.
\<close>

fun digit_run :: "string \<Rightarrow> string option" where
  "digit_run [] = None"
| "digit_run [c] = (if is_digit c then Some [c] else None)"
| "digit_run (c # d # ds) =
     (if \<not> is_digit c then None
      else if d = CHR ''_'' then map_option ((#) c) (digit_run ds)
      else map_option ((#) c) (digit_run (d # ds)))"

definition unsigned_int :: "string \<Rightarrow> int option" where
  "unsigned_int s = (case digit_run s of None \<Rightarrow> None
     | Some ds \<Rightarrow> if int (length ds) \<le> 4300 then Some (int (read_nat ds)) else None)"

definition py_int :: "string \<Rightarrow> int option" where
  "py_int s = (case strip s of
      [] \<Rightarrow> None
    | c # cs \<Rightarrow> if c = CHR ''-'' then map_option uminus (unsigned_int cs)
                else if c = CHR ''+'' then unsigned_int cs
                else unsigned_int (c # cs))"

definition starts_with :: "string \<Rightarrow> string \<Rightarrow> bool" where
  "starts_with p s \<longleftrightarrow> take (length p) s = p"

text \<open>What a click says; anything not understood is a refusal.\<close>

definition decide :: "string \<Rightarrow> string \<Rightarrow> approval" where
  "decide value user =
     (let refusal = \<lparr>allowed = False, grant_s = 0, approver = user, timed_out = False\<rparr> in
      if value = ANSWER_ONCE then refusal\<lparr>allowed := True\<rparr>
      else if starts_with ANSWER_GRANT_PREFIX value then
        (case py_int (drop (length ANSWER_GRANT_PREFIX) value) of
           None \<Rightarrow> refusal
         | Some n \<Rightarrow> refusal\<lparr>allowed := n > 0, grant_s := max n 0\<rparr>)
      else refusal)"

section \<open>Requests waiting\<close>

datatype approval_outcome = RESOLVED | NOT_MINE | NOT_ALLOWED

record pending =
  p_done :: bool
  p_kind :: string
  p_principal :: string
  p_scopes :: "string list"
  p_approvers :: "string set"

type_synonym approvals = "string \<rightharpoonup> pending"

definition register :: "string \<Rightarrow> string \<Rightarrow> string \<Rightarrow> string list \<Rightarrow> string set \<Rightarrow> approvals \<Rightarrow> approvals" where
  "register token k who scopes approvers reg =
     reg(token \<mapsto> \<lparr>p_done = False, p_kind = k, p_principal = who, p_scopes = scopes, p_approvers = approvers\<rparr>)"

definition discard :: "string \<Rightarrow> approvals \<Rightarrow> approvals" where
  "discard token reg = reg(token := None)"

definition is_pending :: "string \<Rightarrow> approvals \<Rightarrow> bool" where
  "is_pending token reg \<longleftrightarrow> reg token \<noteq> None"

text \<open>The caller that waited was cancelled: its future is done, the entry stays.\<close>

definition abandon :: "string \<Rightarrow> approvals \<Rightarrow> approvals" where
  "abandon token reg = (case reg token of None \<Rightarrow> reg | Some e \<Rightarrow> reg(token \<mapsto> e\<lparr>p_done := True\<rparr>))"

definition may_answer :: "string \<Rightarrow> string \<Rightarrow> approvals \<Rightarrow> bool" where
  "may_answer token user reg =
     (case reg token of None \<Rightarrow> False | Some e \<Rightarrow> p_approvers e = {} \<or> user \<in> p_approvers e)"

text \<open>The outcome of a click, with the answer it sets when it is accepted.\<close>

definition resolve :: "string \<Rightarrow> string \<Rightarrow> string \<Rightarrow> approvals \<Rightarrow> approvals \<times> approval_outcome \<times> approval option" where
  "resolve token value user reg =
     (case reg token of
        None \<Rightarrow> (reg, NOT_MINE, None)
      | Some e \<Rightarrow>
          if p_approvers e \<noteq> {} \<and> user \<notin> p_approvers e then (reg, NOT_ALLOWED, None)
          else if p_done e then (reg(token := None), NOT_MINE, None)
          else (reg(token := None), RESOLVED, Some (decide value user)))"

section \<open>The controls of a card\<close>

definition GRANT_LADDER :: "int list" where "GRANT_LADDER = [60, 300, 900, 3600]"

definition windows :: "int list \<Rightarrow> int \<Rightarrow> int list" where
  "windows ladder ceiling_s = (if ceiling_s \<le> 0 then [] else filter (\<lambda>n. n \<le> ceiling_s) ladder)"

definition humanize :: "int \<Rightarrow> string" where
  "humanize n =
     (if n mod 3600 = 0 \<and> n \<ge> 3600
      then (let h = n div 3600 in show_int h @ (if h = 1 then '' hour'' else '' hours''))
      else if n mod 60 = 0 \<and> n \<ge> 60 then show_int (n div 60) @ '' min''
      else show_int n @ ''s'')"

datatype action =
    ActionButton (ac_id: string) (ac_label: string) (ac_value: string) (ac_style: string) (ac_token: string)
  | ActionSelect (ac_id: string) (ac_label: string) (ac_options: "(string \<times> string) list") (ac_token: string)

text \<open>The ellipsis of the select's placeholder is written with three dots.\<close>

definition approval_actions :: "string \<Rightarrow> int list \<Rightarrow> action list" where
  "approval_actions token offers =
     [ActionButton ''once'' ''Allow once'' ANSWER_ONCE ''primary'' token]
     @ (if offers = [] then []
        else [ActionSelect ''grant'' ''Allow for...''
               (map (\<lambda>n. (humanize n, ANSWER_GRANT_PREFIX @ show_int n)) offers) token])
     @ [ActionButton ''deny'' ''Deny'' ANSWER_DENY ''danger'' token]"

text \<open>Every value a control of the card can send back.\<close>

fun action_values :: "action \<Rightarrow> string list" where
  "action_values (ActionButton i l v st tk) = [v]"
| "action_values (ActionSelect i l os tk) = map snd os"

datatype verdict_kind = VERDICT_ALLOWED_ONCE | VERDICT_ALLOWED_FOR | VERDICT_DENIED | VERDICT_EXPIRED

definition verdict_of :: "approval \<Rightarrow> verdict_kind \<times> string" where
  "verdict_of a =
     (if \<not> allowed a then (VERDICT_DENIED, ''Denied'')
      else if grant_s a > 0 then (VERDICT_ALLOWED_FOR, ''Allowed for '' @ humanize (grant_s a))
      else (VERDICT_ALLOWED_ONCE, ''Allowed once''))"

section \<open>Dialogs a turn blocks on\<close>

datatype ui_outcome = Confirmed bool | Chosen string | UiCancelled

record ui_pending =
  u_done :: bool
  u_method :: string
  u_agent :: string
  u_conversation :: string

type_synonym ui_requests = "string \<rightharpoonup> ui_pending"

definition CONFIRM_YES :: string where "CONFIRM_YES = ''Allow''"
definition CONFIRM_NO :: string where "CONFIRM_NO = ''Block''"

definition ui_register :: "string \<Rightarrow> string \<Rightarrow> string \<Rightarrow> string \<Rightarrow> ui_requests \<Rightarrow> ui_requests" where
  "ui_register token m ag conv reg =
     reg(token \<mapsto> \<lparr>u_done = False, u_method = m, u_agent = ag, u_conversation = conv\<rparr>)"

definition ui_discard :: "string \<Rightarrow> ui_requests \<Rightarrow> ui_requests" where
  "ui_discard token reg = reg(token := None)"

definition ui_resolve :: "string \<Rightarrow> string \<Rightarrow> ui_requests \<Rightarrow> ui_requests \<times> ui_outcome option" where
  "ui_resolve token value reg =
     (case reg token of
        None \<Rightarrow> (reg(token := None), None)
      | Some p \<Rightarrow> (reg(token := None),
          if u_done p then None
          else Some (if u_method p = ''confirm'' then Confirmed (value = CONFIRM_YES) else Chosen value)))"

text \<open>The tokens in the order of their insertion are \<open>order\<close>; the outcomes set are answered.\<close>

definition ui_cancel_for_conversation :: "string list \<Rightarrow> string \<Rightarrow> string \<Rightarrow> ui_requests
    \<Rightarrow> ui_requests \<times> (string \<times> ui_outcome) list \<times> nat" where
  "ui_cancel_for_conversation order ag conv reg =
     (let hit = filter (\<lambda>tk. case reg tk of None \<Rightarrow> False
                  | Some p \<Rightarrow> u_agent p = ag \<and> u_conversation p = conv) order in
      (fold (\<lambda>tk r. r(tk := None)) hit reg,
       map (\<lambda>tk. (tk, UiCancelled)) (filter (\<lambda>tk. case reg tk of None \<Rightarrow> False | Some p \<Rightarrow> \<not> u_done p) hit),
       length hit))"

section \<open>Windows and the ledger\<close>

record approval_grant =
  ag_id :: string
  ag_kind :: string
  ag_principal :: string
  ag_scope :: string
  ag_granted_by :: string
  ag_granted_at :: stamp
  ag_expires_at :: stamp
  ag_revoked_at :: "stamp option"

record approval_audit =
  au_id :: string
  au_at :: stamp
  au_kind :: string
  au_principal :: string
  au_scope :: string
  au_reason :: string
  au_detail :: string
  au_decision :: string
  au_approver :: string
  au_grant_id :: string
  au_request_id :: string
  au_duration_ms :: int

record approval_db =
  grants :: "approval_grant list"
  audit :: "approval_audit list"

text \<open>The primary key: a second row of the same id raises.\<close>

definition create_grant :: "approval_grant \<Rightarrow> approval_db \<Rightarrow> approval_db option" where
  "create_grant g db = (if \<exists>g' \<in> set (grants db). ag_id g' = ag_id g then None
     else Some (db\<lparr>grants := grants db @ [g]\<rparr>))"

definition is_live :: "stamp \<Rightarrow> approval_grant \<Rightarrow> bool" where
  "is_live now g \<longleftrightarrow> ag_revoked_at g = None \<and> ag_expires_at g > now"

definition live_grant :: "string \<Rightarrow> string \<Rightarrow> string \<Rightarrow> stamp \<Rightarrow> approval_db \<Rightarrow> approval_grant option" where
  "live_grant k who scope now db =
     (case sort_key (\<lambda>g. - ag_expires_at g) (filter (\<lambda>g. ag_kind g = k \<and> ag_principal g = who
         \<and> ag_scope g = scope \<and> is_live now g) (grants db)) of
        [] \<Rightarrow> None | g # _ \<Rightarrow> Some g)"

definition list_grants :: "stamp \<Rightarrow> string \<Rightarrow> bool \<Rightarrow> approval_db \<Rightarrow> approval_grant list" where
  "list_grants now k include_dead db =
     rev (sort_key ag_granted_at (sort_key ag_id
       (filter (\<lambda>g. (k = [] \<or> ag_kind g = k) \<and> (include_dead \<or> is_live now g)) (grants db))))"

definition revoke_grant :: "string \<Rightarrow> stamp \<Rightarrow> approval_db \<Rightarrow> approval_db \<times> bool" where
  "revoke_grant gid now db =
     (let hit = (\<lambda>g. ag_id g = gid \<and> ag_revoked_at g = None) in
      (db\<lparr>grants := upd_where hit (\<lambda>g. g\<lparr>ag_revoked_at := Some now\<rparr>) (grants db)\<rparr>,
       rowcount hit (grants db) = 1))"

definition revoke_scope :: "string \<Rightarrow> string \<Rightarrow> stamp \<Rightarrow> approval_db \<Rightarrow> approval_db \<times> nat" where
  "revoke_scope k scope now db =
     (let hit = (\<lambda>g. ag_kind g = k \<and> ag_scope g = scope \<and> ag_revoked_at g = None) in
      (db\<lparr>grants := upd_where hit (\<lambda>g. g\<lparr>ag_revoked_at := Some now\<rparr>) (grants db)\<rparr>,
       rowcount hit (grants db)))"

definition record_decision :: "approval_audit \<Rightarrow> approval_db \<Rightarrow> approval_db option" where
  "record_decision r db = (if \<exists>r' \<in> set (audit db). au_id r' = au_id r then None
     else Some (db\<lparr>audit := audit db @ [r]\<rparr>))"

definition list_audit :: "nat \<Rightarrow> string \<Rightarrow> string \<Rightarrow> string \<Rightarrow> approval_db \<Rightarrow> approval_audit list" where
  "list_audit limit k who scope db =
     take limit (rev (sort_key au_at
       (filter (\<lambda>r. (k = [] \<or> au_kind r = k) \<and> (who = [] \<or> au_principal r = who)
          \<and> (scope = [] \<or> au_scope r = scope)) (audit db))))"

section \<open>A request is answered once, by someone it was put to\<close>

type_synonym click = "string \<times> string \<times> string"

text \<open>A click on a card: the token, the value and the user, and whether it was accepted.\<close>

definition click_attempt :: "click \<Rightarrow> approvals \<Rightarrow> approvals \<times> bool" where
  "click_attempt k reg = (case k of (token, value, user) \<Rightarrow>
     (case resolve token value user reg of (reg', out, _) \<Rightarrow> (reg', out = RESOLVED)))"

definition answerable :: "string \<Rightarrow> approvals \<Rightarrow> bool" where
  "answerable token reg \<longleftrightarrow> (case reg token of None \<Rightarrow> False | Some e \<Rightarrow> \<not> p_done e)"

lemma resolve_cases:
  assumes "resolve token value user reg = (reg', out, ans)"
  obtains (unknown) "reg token = None" "reg' = reg" "out = NOT_MINE" "ans = None"
  | (stranger) e where "reg token = Some e" "p_approvers e \<noteq> {}" "user \<notin> p_approvers e"
      "reg' = reg" "out = NOT_ALLOWED" "ans = None"
  | (over) e where "reg token = Some e" "p_done e" "reg' = reg(token := None)" "out = NOT_MINE" "ans = None"
  | (answered) e where "reg token = Some e" "p_approvers e = {} \<or> user \<in> p_approvers e" "\<not> p_done e"
      "reg' = reg(token := None)" "out = RESOLVED" "ans = Some (decide value user)"
  using assms by (auto simp: resolve_def split: option.splits if_splits)

interpretation clicks: single_winner click_attempt fst answerable
proof unfold_locales
  fix c s s'
  assume a: "click_attempt c s = (s', True)"
  obtain tk v u where c: "c = (tk, v, u)" by (cases c)
  obtain ans where r: "resolve tk v u s = (s', RESOLVED, ans)"
    using a by (auto simp: click_attempt_def c split: prod.splits)
  then show "answerable (fst c) s" "\<not> answerable (fst c) s'"
    by (auto simp: c answerable_def elim: resolve_cases)
next
  fix k s c s' won
  assume n: "\<not> answerable k s" and a: "click_attempt c s = (s', won)"
  obtain tk v u where c: "c = (tk, v, u)" by (cases c)
  obtain out ans where "resolve tk v u s = (s', out, ans)"
    using a by (auto simp: click_attempt_def c split: prod.splits)
  then show "\<not> answerable k s'"
    using n by (cases rule: resolve_cases) (auto simp: answerable_def)
qed

text \<open>A request is answered once: of any sequence of clicks on any cards, by anyone, at most
  one click on a given request is accepted.\<close>

lemma one_answer_per_request:
  "wins fst token ks (snd (run_attempts click_attempt ks reg)) \<le> 1"
  by (rule clicks.at_most_one_winner)

text \<open>A dialog is taken by the click that resolves it; whatever it finds, the token is gone.\<close>

definition ui_answer :: "string \<Rightarrow> ui_requests \<Rightarrow> string \<Rightarrow> ui_outcome option" where
  "ui_answer v reg token = (case reg token of None \<Rightarrow> None
     | Some p \<Rightarrow> if u_done p then None
         else Some (if u_method p = ''confirm'' then Confirmed (v = CONFIRM_YES) else Chosen v))"

interpretation dialogs: one_shot "\<lambda>token reg. ui_resolve token v reg" "ui_answer v" for v
  by unfold_locales (auto simp: ui_resolve_def ui_answer_def split: option.splits if_splits)

lemma dialog_resolved_once:
  "ui_resolve token v reg = (reg1, r1) \<Longrightarrow> ui_resolve token v reg1 = (reg2, r2) \<Longrightarrow> r2 = None"
  by (rule dialogs.taken_twice)

section \<open>What a control says is what is understood\<close>

lemma digit_run_digits: "ds \<noteq> [] \<Longrightarrow> (\<And>c. c \<in> set ds \<Longrightarrow> is_digit c) \<Longrightarrow> digit_run ds = Some ds"
proof (induction ds rule: digit_run.induct)
  case (3 c d ds)
  have "is_digit d" by (rule "3.prems") simp
  then have "d \<noteq> CHR ''_''" by (auto simp: is_digit_def)
  then show ?case using 3 by simp
qed simp_all

lemma py_int_show:
  assumes "0 \<le> n" and "n < 10 ^ k" and "0 < k" and "k \<le> 4300"
  shows "py_int (show_int n) = Some n"
proof -
  let ?s = "show_nat (nat n)"
  have "nat n < 10 ^ k" using assms(1,2) by (simp add: nat_less_iff)
  then have len: "int (length ?s) \<le> 4300" using length_show_nat [of "nat n" k] assms(3,4) by simp
  have digits: "\<And>c. c \<in> set ?s \<Longrightarrow> is_digit c" by (rule show_nat_digits)
  then have "strip ?s = ?s" using strip_no_space [of ?s] digit_not_space by blast
  moreover obtain c cs where s: "?s = c # cs" using show_nat_nonempty by (cases ?s) auto
  moreover have "is_digit c" using digits [of c] by (simp add: s)
  then have "c \<noteq> CHR ''-''" "c \<noteq> CHR ''+''" by (auto simp: is_digit_def)
  moreover have "unsigned_int ?s = Some n"
    using digit_run_digits [of ?s, OF show_nat_nonempty digits] len assms(1)
    by (simp add: unsigned_int_def read_show_nat)
  ultimately show ?thesis using assms(1) by (simp add: py_int_def show_int_def)
qed

lemma ladder_decodes:
  assumes "n \<in> set GRANT_LADDER"
  shows "decide (ANSWER_GRANT_PREFIX @ show_int n) u = \<lparr>allowed = True, grant_s = n, approver = u, timed_out = False\<rparr>"
proof -
  have "0 < n" "n < 10 ^ 4" using assms by (auto simp: GRANT_LADDER_def)
  then have "py_int (show_int n) = Some n" by (intro py_int_show [where k = 4]) simp_all
  then show ?thesis using \<open>0 < n\<close>
    by (simp add: decide_def ANSWER_GRANT_PREFIX_def ANSWER_ONCE_def starts_with_def)
qed

lemma windows_mem: "n \<in> set (windows ladder c) \<longleftrightarrow> n \<in> set ladder \<and> n \<le> c \<and> 0 < c"
  by (auto simp: windows_def)

text \<open>A card offers what it will honour: of the values its controls can send back, with the
  windows a ceiling allows, exactly the deny is a refusal, and every other is a yes of the person
  who clicked, for this call only or for a window on the ladder within the ceiling.\<close>

lemma card_values_decode:
  assumes "a \<in> set (approval_actions token (windows GRANT_LADDER ceiling_s))" and "v \<in> set (action_values a)"
  shows "approver (decide v user) = user
    \<and> (allowed (decide v user) \<longleftrightarrow> v \<noteq> ANSWER_DENY)
    \<and> (grant_s (decide v user) = 0
       \<or> grant_s (decide v user) \<in> set GRANT_LADDER \<and> grant_s (decide v user) \<le> ceiling_s)"
proof -
  have plain: "decide ANSWER_ONCE user = \<lparr>allowed = True, grant_s = 0, approver = user, timed_out = False\<rparr>"
    "decide ANSWER_DENY user = \<lparr>allowed = False, grant_s = 0, approver = user, timed_out = False\<rparr>"
    "ANSWER_ONCE \<noteq> ANSWER_DENY"
    by (simp_all add: decide_def ANSWER_ONCE_def ANSWER_DENY_def ANSWER_GRANT_PREFIX_def starts_with_def)
  have grant: "ANSWER_GRANT_PREFIX @ show_int n \<noteq> ANSWER_DENY" for n
    by (simp add: ANSWER_GRANT_PREFIX_def ANSWER_DENY_def)
  consider "v = ANSWER_ONCE" | "v = ANSWER_DENY"
    | n where "n \<in> set (windows GRANT_LADDER ceiling_s)" "v = ANSWER_GRANT_PREFIX @ show_int n"
    using assms by (auto simp: approval_actions_def split: if_splits)
  then show ?thesis
  proof cases
    case 3
    then show ?thesis using ladder_decodes [of n user] grant by (simp add: windows_mem)
  qed (simp_all add: plain)
qed

lemma card_values_decode_witness:
  "allowed (decide (ANSWER_GRANT_PREFIX @ show_int 900) ''ann'')
   \<and> grant_s (decide (ANSWER_GRANT_PREFIX @ show_int 900) ''ann'') \<in> {0, 60, 300, 900}"
proof -
  let ?a = "approval_actions ''tk'' (windows GRANT_LADDER 1000) ! 1" and ?v = "ANSWER_GRANT_PREFIX @ show_int 900"
  have "?a \<in> set (approval_actions ''tk'' (windows GRANT_LADDER 1000))" "?v \<in> set (action_values ?a)"
    by (simp_all add: approval_actions_def windows_def GRANT_LADDER_def)
  from card_values_decode [OF this, of "''ann''"] show ?thesis
    by (auto simp: ANSWER_DENY_def ANSWER_GRANT_PREFIX_def GRANT_LADDER_def)
qed

section \<open>Windows\<close>

lemma live_grant_Some:
  assumes "live_grant k who scope now db = Some g"
  shows "g \<in> set (grants db) \<and> ag_kind g = k \<and> ag_principal g = who \<and> ag_scope g = scope \<and> is_live now g"
proof -
  let ?hits = "filter (\<lambda>g. ag_kind g = k \<and> ag_principal g = who \<and> ag_scope g = scope \<and> is_live now g) (grants db)"
  obtain rest where e: "sort_key (\<lambda>g. - ag_expires_at g) ?hits = g # rest"
    using assms unfolding live_grant_def by (auto split: list.splits)
  have "g \<in> set (sort_key (\<lambda>g. - ag_expires_at g) ?hits)" unfolding e by simp
  then show ?thesis by simp
qed

lemma live_grant_None:
  "live_grant k who scope now db = None \<longleftrightarrow>
     (\<forall>g \<in> set (grants db). \<not> (ag_kind g = k \<and> ag_principal g = who \<and> ag_scope g = scope \<and> is_live now g))"
proof -
  have "live_grant k who scope now db = None \<longleftrightarrow> sort_key (\<lambda>g. - ag_expires_at g) (filter (\<lambda>g. ag_kind g = k
      \<and> ag_principal g = who \<and> ag_scope g = scope \<and> is_live now g) (grants db)) = []"
    unfolding live_grant_def by (auto split: list.splits)
  also have "\<dots> \<longleftrightarrow> set (sort_key (\<lambda>g. - ag_expires_at g) (filter (\<lambda>g. ag_kind g = k
      \<and> ag_principal g = who \<and> ag_scope g = scope \<and> is_live now g) (grants db))) = {}"
    by (simp only: set_empty)
  also have "\<dots> \<longleftrightarrow> (\<forall>g \<in> set (grants db). \<not> (ag_kind g = k \<and> ag_principal g = who \<and> ag_scope g = scope \<and> is_live now g))"
    by auto
  finally show ?thesis .
qed

text \<open>Closing a scope closes it for everyone at once: after \<open>revoke_scope\<close> no window of that kind
  over that scope is live for any principal at any moment, and every other window is untouched.\<close>

lemma revoke_scope_closes:
  assumes "revoke_scope k scope now db = (db', n)"
  shows "live_grant k who scope later db' = None
    \<and> (k' \<noteq> k \<or> scope' \<noteq> scope \<longrightarrow> live_grant k' who scope' later db' = live_grant k' who scope' later db)"
proof -
  let ?hit = "\<lambda>g. ag_kind g = k \<and> ag_scope g = scope \<and> ag_revoked_at g = None"
  let ?f = "\<lambda>g :: approval_grant. g\<lparr>ag_revoked_at := Some now\<rparr>"
  have g: "grants db' = upd_where ?hit ?f (grants db)" using assms by (auto simp: revoke_scope_def Let_def)
  have "\<forall>u \<in> set (grants db'). \<not> (ag_kind u = k \<and> ag_principal u = who \<and> ag_scope u = scope \<and> is_live later u)"
    unfolding g by (auto simp: is_live_def dest!: in_upd_where split: if_splits)
  moreover have "filter (\<lambda>g. ag_kind g = k' \<and> ag_principal g = who \<and> ag_scope g = scope' \<and> is_live later g) (grants db')
      = filter (\<lambda>g. ag_kind g = k' \<and> ag_principal g = who \<and> ag_scope g = scope' \<and> is_live later g) (grants db)"
    if "k' \<noteq> k \<or> scope' \<noteq> scope"
    unfolding g using that by (intro filter_upd_where_other) auto
  ultimately show ?thesis unfolding live_grant_None by (simp add: live_grant_def)
qed

definition sample_grants :: approval_db where
  "sample_grants = \<lparr>grants = [\<lparr>ag_id = ''gr_1'', ag_kind = ''secret'', ag_principal = ''ann'', ag_scope = ''github'',
     ag_granted_by = ''U1'', ag_granted_at = 10, ag_expires_at = 900, ag_revoked_at = None\<rparr>], audit = []\<rparr>"

lemma revoke_scope_closes_witness:
  "live_grant ''secret'' ''ann'' ''github'' 20 sample_grants \<noteq> None
   \<and> live_grant ''secret'' ''ann'' ''github'' 40 (fst (revoke_scope ''secret'' ''github'' 30 sample_grants)) = None"
proof -
  obtain db' n where r: "revoke_scope ''secret'' ''github'' 30 sample_grants = (db', n)" by fastforce
  have "live_grant ''secret'' ''ann'' ''github'' 40 db' = None" using revoke_scope_closes [OF r] by blast
  moreover have "live_grant ''secret'' ''ann'' ''github'' 20 sample_grants \<noteq> None" by code_simp
  ultimately show ?thesis using r by simp
qed

end
