(* ===== verification/AutoRules.thy ===== *)
theory AutoRules
  imports Prelude
begin

text \<open>
  The commands that may take a secret without a human: \<open>packages/ward/src/ward/autorules.py\<close>, with
  what it uses of Python's library: \<open>shlex.split\<close> and \<open>shlex.quote\<close> (POSIX mode, no comments),
  \<open>json.dumps\<close> and \<open>json.loads\<close> of a list of strings, and \<open>str.splitlines\<close>.

  Characters are the first 256 code points; a JSON escape of another one is not read.  The texts
  of errors are kept as the name of their template and the rule put into them.
\<close>

section \<open>Shell words\<close>

abbreviation SQUOTE :: char where "SQUOTE \<equiv> CHR 0x27"
abbreviation DQUOTE :: char where "DQUOTE \<equiv> CHR 0x22"
abbreviation BACKSLASH :: char where "BACKSLASH \<equiv> CHR 0x5C"

definition sh_space :: "char \<Rightarrow> bool" where
  "sh_space c \<longleftrightarrow> c = CHR '' '' \<or> c = CHR 0x09 \<or> c = CHR 0x0D \<or> c = CHR 0x0A"

definition sh_quote :: "char \<Rightarrow> bool" where
  "sh_quote c \<longleftrightarrow> c = SQUOTE \<or> c = DQUOTE"

text \<open>
  The states of \<open>shlex.read_token\<close>: between words, in a word, inside a quote, and after an
  escape, with the quote it goes back to.
\<close>

datatype sx_mode = Blank | InWord | InQuote char | Escaped "char option"

text \<open>The token so far and whether it has had a quote; \<open>None\<close> is a \<open>ValueError\<close>.\<close>

fun sx :: "sx_mode \<Rightarrow> string \<Rightarrow> bool \<Rightarrow> string \<Rightarrow> string list option" where
  "sx Blank tok q [] = Some []"
| "sx Blank tok q (c # cs) =
     (if sh_space c then sx Blank [] False cs
      else if c = BACKSLASH then sx (Escaped None) tok q cs
      else if sh_quote c then sx (InQuote c) tok q cs
      else sx InWord [c] q cs)"
| "sx InWord tok q [] = Some (if tok \<noteq> [] \<or> q then [tok] else [])"
| "sx InWord tok q (c # cs) =
     (if sh_space c
      then (if tok \<noteq> [] \<or> q then map_option ((#) tok) (sx Blank [] False cs) else sx Blank tok q cs)
      else if sh_quote c then sx (InQuote c) tok q cs
      else if c = BACKSLASH then sx (Escaped None) tok q cs
      else sx InWord (tok @ [c]) q cs)"
| "sx (InQuote k) tok q [] = None"
| "sx (InQuote k) tok q (c # cs) =
     (if c = k then sx InWord tok True cs
      else if k = DQUOTE \<and> c = BACKSLASH then sx (Escaped (Some k)) tok True cs
      else sx (InQuote k) (tok @ [c]) True cs)"
| "sx (Escaped b) tok q [] = None"
| "sx (Escaped b) tok q (c # cs) =
     (case b of
        None \<Rightarrow> sx InWord (tok @ [c]) q cs
      | Some k \<Rightarrow> sx (InQuote k) (tok @ (if c \<noteq> BACKSLASH \<and> c \<noteq> k then [BACKSLASH, c] else [c])) q cs)"

definition shlex_split :: "string \<Rightarrow> string list option" where
  "shlex_split s = sx Blank [] False s"

definition sh_safe :: "char \<Rightarrow> bool" where
  "sh_safe c \<longleftrightarrow> (let n = (of_char c :: nat) in
     is_digit c \<or> 65 \<le> n \<and> n \<le> 90 \<or> 97 \<le> n \<and> n \<le> 122) \<or> c \<in> set ''_@%+=:,./-''"

definition shlex_quote :: "string \<Rightarrow> string" where
  "shlex_quote s =
     (if s = [] then [SQUOTE, SQUOTE]
      else if list_all sh_safe s then s
      else [SQUOTE] @ concat (map (\<lambda>c. if c = SQUOTE then [SQUOTE, DQUOTE, SQUOTE, DQUOTE, SQUOTE] else [c]) s) @ [SQUOTE])"

section \<open>JSON lists of strings\<close>

definition hex_digit :: "nat \<Rightarrow> char" where
  "hex_digit n = (if n < 10 then char_of (48 + n) else char_of (87 + n))"

definition hex_val :: "char \<Rightarrow> nat option" where
  "hex_val c = (let n = (of_char c :: nat) in
     if 48 \<le> n \<and> n \<le> 57 then Some (n - 48)
     else if 97 \<le> n \<and> n \<le> 102 then Some (n - 87)
     else if 65 \<le> n \<and> n \<le> 70 then Some (n - 55) else None)"

definition js_escape :: "char \<Rightarrow> string" where
  "js_escape c =
     (let n = (of_char c :: nat) in
      if c = DQUOTE then [BACKSLASH, DQUOTE]
      else if c = BACKSLASH then [BACKSLASH, BACKSLASH]
      else if n = 10 then [BACKSLASH, CHR ''n'']
      else if n = 13 then [BACKSLASH, CHR ''r'']
      else if n = 9 then [BACKSLASH, CHR ''t'']
      else if n = 12 then [BACKSLASH, CHR ''f'']
      else if n = 8 then [BACKSLASH, CHR ''b'']
      else if 32 \<le> n \<and> n \<le> 126 then [c]
      else [BACKSLASH, CHR ''u'', CHR ''0'', CHR ''0'', hex_digit (n div 16), hex_digit (n mod 16)])"

definition js_string :: "string \<Rightarrow> string" where
  "js_string s = DQUOTE # concat (map js_escape s) @ [DQUOTE]"

definition json_dumps :: "string list \<Rightarrow> string" where
  "json_dumps xs = ''['' @ join '', '' (map js_string xs) @ '']''"

definition js_unescape :: "char \<Rightarrow> char option" where
  "js_unescape e =
     (if e = DQUOTE then Some DQUOTE
      else if e = BACKSLASH then Some BACKSLASH
      else if e = CHR ''/'' then Some (CHR ''/'')
      else if e = CHR ''b'' then Some (CHR 0x08)
      else if e = CHR ''f'' then Some (CHR 0x0C)
      else if e = CHR ''n'' then Some (CHR 0x0A)
      else if e = CHR ''r'' then Some (CHR 0x0D)
      else if e = CHR ''t'' then Some (CHR 0x09) else None)"

definition hex4 :: "char \<Rightarrow> char \<Rightarrow> char \<Rightarrow> char \<Rightarrow> nat option" where
  "hex4 a b c d = (case (hex_val a, hex_val b, hex_val c, hex_val d) of
     (Some w, Some x, Some y, Some z) \<Rightarrow> Some (((w * 16 + x) * 16 + y) * 16 + z) | _ \<Rightarrow> None)"

text \<open>A string after its opening quote, and what follows its closing one.\<close>

fun js_chars :: "string \<Rightarrow> (string \<times> string) option" where
  "js_chars [] = None"
| "js_chars (c # cs) =
     (if c = DQUOTE then Some ([], cs)
      else if c = BACKSLASH then
        (case cs of [] \<Rightarrow> None
         | e # es \<Rightarrow>
             if e = CHR ''u'' then
               (case es of
                  h1 # h2 # h3 # h4 # rest \<Rightarrow>
                    (case hex4 h1 h2 h3 h4 of None \<Rightarrow> None
                     | Some n \<Rightarrow> if n < 256 then map_option (apfst ((#) (char_of n))) (js_chars rest) else None)
                | _ \<Rightarrow> None)
             else (case js_unescape e of None \<Rightarrow> None
                   | Some d \<Rightarrow> map_option (apfst ((#) d)) (js_chars es)))
      else if (of_char c :: nat) < 32 then None
      else map_option (apfst ((#) c)) (js_chars cs))"

definition js_space :: "char \<Rightarrow> bool" where
  "js_space c \<longleftrightarrow> c = CHR '' '' \<or> c = CHR 0x09 \<or> c = CHR 0x0D \<or> c = CHR 0x0A"

lemma js_chars_shorter: "js_chars s = Some (t, r) \<Longrightarrow> length r < length s"
proof (induction s arbitrary: t r rule: js_chars.induct)
  case (2 c cs)
  show ?case
  proof (cases "c = DQUOTE \<or> c \<noteq> BACKSLASH")
    case True
    then show ?thesis using "2.prems" "2.IH"(3) by (fastforce split: if_splits)
  next
    case False
    then obtain e es where cs: "cs = e # es" using "2.prems" by (cases cs) auto
    show ?thesis
    proof (cases "e = CHR ''u''")
      case True
      then obtain h1 h2 h3 h4 rest where es: "es = h1 # h2 # h3 # h4 # rest"
        using "2.prems" False cs by (auto split: list.splits)
      then obtain n where n: "hex4 h1 h2 h3 h4 = Some n" "n < 256"
        using "2.prems" False cs True by (auto split: option.splits if_splits)
      then obtain t' where "js_chars rest = Some (t', r)" using "2.prems" False cs es True by auto
      then have "length r < length rest" using "2.IH"(1) [of e es] False cs True es n by fastforce
      then show ?thesis by (simp add: cs es)
    next
      case not_u: False
      then obtain d where d: "js_unescape e = Some d" using "2.prems" False cs by (auto split: option.splits)
      then obtain t' where "js_chars es = Some (t', r)" using "2.prems" False cs not_u by auto
      then have "length r < length es" using "2.IH"(2) [of e es] False cs not_u d by fastforce
      then show ?thesis by (simp add: cs)
    qed
  qed
qed simp

text \<open>The items of a list from the first on, up to the closing bracket and the end of the text.\<close>

function js_items :: "string \<Rightarrow> string list option" where
  "js_items s = (case dropWhile js_space s of
      [] \<Rightarrow> None
    | c # cs \<Rightarrow>
        if c \<noteq> DQUOTE then None
        else (case js_chars cs of None \<Rightarrow> None
              | Some (x, r) \<Rightarrow>
                  (case dropWhile js_space r of
                     [] \<Rightarrow> None
                   | d # ds \<Rightarrow>
                       if d = CHR '','' then map_option ((#) x) (js_items ds)
                       else if d = CHR '']'' \<and> list_all js_space ds then Some [x] else None)))"
  by pat_completeness auto
termination
proof (relation "measure length")
  fix s c cs p x r d ds
  assume s: "dropWhile js_space s = c # cs" and p: "js_chars cs = Some p" "(x, r) = p"
    and r: "dropWhile js_space r = d # ds"
  have "length cs < length s" using length_dropWhile_le [of js_space s] s by simp
  moreover have "length r < length cs" using p js_chars_shorter by blast
  moreover have "length ds < length r" using length_dropWhile_le [of js_space r] r by simp
  ultimately show "(ds, s) \<in> measure length" by simp
qed simp

declare js_items.simps [simp del]

text \<open>\<open>json.loads\<close> of a text that holds a non-empty list of strings; \<open>None\<close> for every other text.\<close>

definition json_str_list :: "string \<Rightarrow> string list option" where
  "json_str_list s = (case dropWhile js_space s of
      c # cs \<Rightarrow> if c = CHR ''['' then js_items cs else None | [] \<Rightarrow> None)"

section \<open>Lines\<close>

definition line_break :: "char \<Rightarrow> bool" where
  "line_break c \<longleftrightarrow> (let n = (of_char c :: nat) in
     10 \<le> n \<and> n \<le> 13 \<or> 28 \<le> n \<and> n \<le> 30 \<or> n = 133)"

text \<open>\<open>str.splitlines\<close>: a break ends a line, a carriage return takes a newline with it.\<close>

fun split_lines :: "string \<Rightarrow> string \<Rightarrow> string list" where
  "split_lines acc [] = (if acc = [] then [] else [acc])"
| "split_lines acc [c] = (if line_break c then [acc] else [acc @ [c]])"
| "split_lines acc (c # d # cs) =
     (if c = CHR 0x0D \<and> d = CHR 0x0A then acc # split_lines [] cs
      else if line_break c then acc # split_lines [] (d # cs)
      else split_lines (acc @ [c]) (d # cs))"

section \<open>Rules\<close>

type_synonym rule = "string list"

definition ANY_REST :: string where "ANY_REST = ''*''"

datatype rule_error = CannotRead string | EmptyRule | MatchesEverything | InnerWildcard string

definition parse_rule :: "string \<Rightarrow> rule_error + rule" where
  "parse_rule text =
     (case shlex_split text of
        None \<Rightarrow> Inl (CannotRead text)
      | Some argv \<Rightarrow>
          if argv = [] then Inl EmptyRule
          else if argv = [ANY_REST] then Inl MatchesEverything
          else if ANY_REST \<in> set (butlast argv) then Inl (InnerWildcard text)
          else Inr argv)"

definition rule_matches :: "rule \<Rightarrow> string list \<Rightarrow> bool" where
  "rule_matches rule command =
     (if rule = [] then False
      else if last rule = ANY_REST then take (length (butlast rule)) command = butlast rule
      else command = rule)"

definition unparse :: "rule \<Rightarrow> string" where
  "unparse rule = join '' '' (map (\<lambda>part. if part = ANY_REST then part else shlex_quote part) rule)"

fun matching :: "rule list \<Rightarrow> string list \<Rightarrow> string" where
  "matching [] command = []"
| "matching (r # rules) command = (if rule_matches r command then unparse r else matching rules command)"

definition encode :: "rule list \<Rightarrow> string" where
  "encode rules = join [CHR 0x0A] (map json_dumps rules)"

definition decode_line :: "string \<Rightarrow> rule option" where
  "decode_line line = (let l = strip line in if l = [] then None else json_str_list l)"

definition decode :: "string \<Rightarrow> rule list" where
  "decode stored = List.map_filter decode_line (split_lines [] stored)"

section \<open>A rule reads back as it was written\<close>

lemma sh_safe_plain: "sh_safe c \<Longrightarrow> \<not> sh_space c \<and> \<not> sh_quote c \<and> c \<noteq> BACKSLASH"
  by (auto simp: sh_safe_def sh_space_def sh_quote_def is_digit_def)

lemma sx_word_safe: "list_all sh_safe s \<Longrightarrow> sx InWord tok q (s @ rest) = sx InWord (tok @ s) q rest"
  by (induction s arbitrary: tok) (auto dest: sh_safe_plain)

lemma sx_in_quote:
  "sx (InQuote SQUOTE) tok q (concat (map (\<lambda>c. if c = SQUOTE then [SQUOTE, DQUOTE, SQUOTE, DQUOTE, SQUOTE] else [c]) s)
      @ SQUOTE # rest) = sx InWord (tok @ s) True rest"
proof (induction s arbitrary: tok q)
  case Nil
  then show ?case by simp
next
  case (Cons c s)
  show ?case
  proof (cases "c = SQUOTE")
    case True
    then show ?thesis using Cons.IH [of "tok @ [SQUOTE]" True] by (simp add: sh_quote_def sh_space_def)
  qed (simp add: Cons.IH)
qed

text \<open>A quoted word at the start of the text is read as the word.\<close>

lemma sx_quoted_word:
  "\<exists>q. (s \<noteq> [] \<or> q) \<and> sx Blank [] False (shlex_quote s @ rest) = sx InWord s q rest"
proof (cases "s \<noteq> [] \<and> list_all sh_safe s")
  case True
  then obtain c cs where s: "s = c # cs" "sh_safe c" "list_all sh_safe cs" by (cases s) auto
  have "sx Blank [] False (s @ rest) = sx InWord [c] False (cs @ rest)"
    using sh_safe_plain [OF s(2)] by (simp add: s(1))
  also have "\<dots> = sx InWord s False rest" using sx_word_safe [OF s(3), of "[c]"] by (simp add: s(1))
  finally show ?thesis using True by (auto simp: shlex_quote_def)
next
  case False
  then show ?thesis
    using sx_in_quote [of "[]" False s rest]
    by (intro exI [of _ True], cases "s = []") (simp_all add: shlex_quote_def sh_quote_def sh_space_def)
qed

text \<open>A word as \<open>unparse\<close> writes it.\<close>

definition written :: "string \<Rightarrow> string" where
  "written part = (if part = ANY_REST then part else shlex_quote part)"

lemma sx_written: "\<exists>q. (s \<noteq> [] \<or> q) \<and> sx Blank [] False (written s @ rest) = sx InWord s q rest"
proof (cases "s = ANY_REST")
  case True
  then show ?thesis by (auto simp: written_def ANY_REST_def sh_space_def sh_quote_def)
next
  case False
  then show ?thesis using sx_quoted_word [of s rest] by (simp add: written_def)
qed

lemma sx_unparse: "sx Blank [] False (join '' '' (map written ps)) = Some ps"
proof (induction ps)
  case Nil
  then show ?case by simp
next
  case (Cons p ps)
  show ?case
  proof (cases ps)
    case Nil
    then show ?thesis using sx_written [of p "[]"] by auto
  next
    case (Cons p' ps')
    obtain q where q: "p \<noteq> [] \<or> q" "sx Blank [] False (written p @ '' '' @ join '' '' (map written ps))
        = sx InWord p q ('' '' @ join '' '' (map written ps))"
      using sx_written by blast
    have "join '' '' (map written (p # ps)) = written p @ '' '' @ join '' '' (map written ps)"
      by (simp add: Cons)
    then show ?thesis using q Cons.IH by (simp add: sh_space_def)
  qed
qed

lemma unparse_written: "unparse rule = join '' '' (map written rule)"
  by (simp add: unparse_def written_def cong: map_cong)

text \<open>C10. What the ledger and the notice quote is the rule itself: a rule that can be stored reads
  back, from the text it is written out as, as the same rule, whatever its words hold.\<close>

theorem parse_unparse:
  assumes "rule \<noteq> []" and "rule \<noteq> [ANY_REST]" and "ANY_REST \<notin> set (butlast rule)"
  shows "parse_rule (unparse rule) = Inr rule"
  using assms sx_unparse [of rule] by (simp add: parse_rule_def shlex_split_def unparse_written)

lemma parse_unparse_witness:
  "parse_rule (unparse [''run'', ''it is'', ''--x='', [], ''*'']) = Inr [''run'', ''it is'', ''--x='', [], ''*'']"
  by (rule parse_unparse) (simp_all add: ANY_REST_def)

text \<open>What parsing accepts is a rule: never empty, never the bare wildcard, no wildcard inside.\<close>

lemma parse_rule_sound:
  "parse_rule text = Inr rule \<Longrightarrow> rule \<noteq> [] \<and> rule \<noteq> [ANY_REST] \<and> ANY_REST \<notin> set (butlast rule)"
  by (auto simp: parse_rule_def split: option.splits if_splits)

section \<open>What a rule covers\<close>

lemma unparse_nonempty:
  assumes "rule \<noteq> []"
  shows "unparse rule \<noteq> []"
proof -
  obtain p ps where r: "rule = p # ps" using assms by (cases rule) auto
  have "written p \<noteq> []" by (simp add: written_def shlex_quote_def ANY_REST_def)
  then show ?thesis by (cases ps) (simp_all add: unparse_written r)
qed

lemma rule_matches_iff:
  "rule_matches r command \<longleftrightarrow> r \<noteq> [] \<and>
     (if last r = ANY_REST then \<exists>args. command = butlast r @ args else command = r)"
proof -
  have "take (length h) command = h \<longleftrightarrow> (\<exists>args. command = h @ args)" for h
    by (metis append_take_drop_id append_eq_conv_conj)
  from this [of "butlast r"] show ?thesis unfolding rule_matches_def by simp
qed

lemma rule_matches_nonempty: "rule_matches r command \<Longrightarrow> r \<noteq> []"
  by (auto simp: rule_matches_def)

lemma matching_text:
  "matching rules command = (case filter (\<lambda>r. rule_matches r command) rules of [] \<Rightarrow> [] | r # _ \<Rightarrow> unparse r)"
  by (induction rules) auto

text \<open>A rule binds the whole command: a command is covered by some rule of a policy if and only
  if it is one of the rules word for word, or begins with the words before a final wildcard; and
  the text answered is that of the first rule that covers it.\<close>

lemma matching_iff:
  "(matching rules command \<noteq> [] \<longleftrightarrow> (\<exists>rule \<in> set rules. rule \<noteq> [] \<and>
      (if last rule = ANY_REST then \<exists>args. command = butlast rule @ args else command = rule)))
   \<and> matching rules command = (case filter (\<lambda>r. rule_matches r command) rules of [] \<Rightarrow> [] | r # _ \<Rightarrow> unparse r)"
proof -
  have "matching rules command = (case filter (\<lambda>r. rule_matches r command) rules of [] \<Rightarrow> [] | r # _ \<Rightarrow> unparse r)"
    by (induction rules) auto
  moreover have "matching rules command \<noteq> [] \<longleftrightarrow> (\<exists>r \<in> set rules. rule_matches r command)"
    by (induction rules) (auto dest: rule_matches_nonempty unparse_nonempty)
  ultimately show ?thesis unfolding rule_matches_iff by blast
qed

section \<open>What is stored reads back\<close>

lemma hex_val_digit: "n < 16 \<Longrightarrow> hex_val (hex_digit n) = Some n"
  by (simp add: hex_val_def hex_digit_def Let_def)

lemma js_chars_escape: "js_chars (js_escape c @ x) = map_option (apfst ((#) c)) (js_chars x)"
proof -
  let ?n = "of_char c :: nat"
  have n: "?n < 256" by (rule nat_of_char_less_256)
  have again: "char_of ?n = c" by simp
  have codes: "(of_char (CHR 0x0A) :: nat) = 10" "(of_char (CHR 0x0D) :: nat) = 13" "(of_char (CHR 0x09) :: nat) = 9"
    "(of_char (CHR 0x0C) :: nat) = 12" "(of_char (CHR 0x08) :: nat) = 8" by simp_all
  have lit: "?n = 10 \<longleftrightarrow> c = CHR 0x0A" "?n = 13 \<longleftrightarrow> c = CHR 0x0D" "?n = 9 \<longleftrightarrow> c = CHR 0x09"
    "?n = 12 \<longleftrightarrow> c = CHR 0x0C" "?n = 8 \<longleftrightarrow> c = CHR 0x08"
    using codes by (metis of_char_eq_iff)+
  consider "c = DQUOTE" | "c = BACKSLASH" | "c = CHR 0x0A" | "c = CHR 0x0D" | "c = CHR 0x09" | "c = CHR 0x0C" | "c = CHR 0x08"
    | (plain) "c \<noteq> DQUOTE" "c \<noteq> BACKSLASH" "32 \<le> ?n" "?n \<le> 126"
    | (hex) "c \<noteq> DQUOTE" "c \<noteq> BACKSLASH" "\<not> (32 \<le> ?n \<and> ?n \<le> 126)" "?n \<notin> {8, 9, 10, 12, 13}"
    unfolding lit [symmetric] by fastforce
  then show ?thesis
  proof cases
    case plain
    then show ?thesis by (simp add: js_escape_def Let_def)
  next
    case hex
    have "hex4 (CHR ''0'') (CHR ''0'') (hex_digit (?n div 16)) (hex_digit (?n mod 16)) = Some ?n"
    proof -
      have "hex_val (CHR ''0'') = Some 0" by (simp add: hex_val_def)
      moreover have "?n div 16 < 16" "?n mod 16 < 16" using n by (simp_all add: less_mult_imp_div_less)
      ultimately show ?thesis by (simp add: hex4_def hex_val_digit)
    qed
    then show ?thesis using hex n again by (auto simp: js_escape_def Let_def)
  qed (simp_all add: js_escape_def js_unescape_def Let_def)
qed

lemma js_chars_string: "js_chars (concat (map js_escape s) @ DQUOTE # rest) = Some (s, rest)"
  by (induction s) (simp_all add: js_chars_escape)

lemma js_escape_printable: "d \<in> set (js_escape c) \<Longrightarrow> 32 \<le> (of_char d :: nat) \<and> (of_char d :: nat) \<le> 126"
proof -
  have "32 \<le> (of_char (hex_digit n) :: nat) \<and> (of_char (hex_digit n) :: nat) \<le> 126" if "n < 16" for n
    using that by (simp add: hex_digit_def)
  moreover have "(of_char c :: nat) div 16 < 16" "(of_char c :: nat) mod 16 < 16"
    using nat_of_char_less_256 [of c] by (simp_all add: less_mult_imp_div_less)
  moreover assume "d \<in> set (js_escape c)"
  ultimately show ?thesis by (auto simp: js_escape_def Let_def split: if_splits)
qed

lemma printable_no_break: "32 \<le> (of_char d :: nat) \<and> (of_char d :: nat) \<le> 126 \<Longrightarrow> \<not> line_break d"
  by (auto simp: line_break_def Let_def)

lemma json_dumps_no_break:
  assumes "d \<in> set (json_dumps xs)"
  shows "\<not> line_break d"
proof -
  have str: "32 \<le> (of_char d :: nat) \<and> (of_char d :: nat) \<le> 126" if "d \<in> set (js_string s)" for s
    using that js_escape_printable by (auto simp: js_string_def)
  have "32 \<le> (of_char d :: nat) \<and> (of_char d :: nat) \<le> 126" if "d \<in> set (join '', '' (map js_string xs))"
    using that
  proof (induction xs rule: induct_list012)
    case (2 x)
    then show ?case using str by simp
  next
    case (3 x y zs)
    then show ?case using str [of x] by auto
  qed simp
  then have "32 \<le> (of_char d :: nat) \<and> (of_char d :: nat) \<le> 126"
    using assms by (auto simp: json_dumps_def)
  then show ?thesis by (rule printable_no_break)
qed

lemma js_items_dumped: "xs \<noteq> [] \<Longrightarrow> js_items (join '', '' (map js_string xs) @ '']'') = Some xs"
proof (induction xs rule: induct_list012)
  case (2 x)
  show ?case
    by (subst js_items.simps) (simp add: js_string_def js_space_def js_chars_string)
next
  case (3 x y zs)
  let ?rest = "join '', '' (map js_string (y # zs)) @ '']''"
  have sp: "js_items (CHR '' '' # ?rest) = js_items ?rest"
    by (subst (1 2) js_items.simps) (simp add: js_space_def)
  have "join '', '' (map js_string (x # y # zs)) @ '']'' = DQUOTE # concat (map js_escape x) @ DQUOTE # CHR '','' # CHR '' '' # ?rest"
    by (simp add: js_string_def)
  then have "js_items (join '', '' (map js_string (x # y # zs)) @ '']'') = map_option ((#) x) (js_items (CHR '' '' # ?rest))"
    by (subst js_items.simps) (simp add: js_space_def js_chars_string)
  then show ?case using sp 3 by simp
qed simp

lemma decode_line_dumped:
  assumes "xs \<noteq> []"
  shows "decode_line (json_dumps xs) = Some xs"
proof -
  let ?body = "join '', '' (map js_string xs)"
  have "strip (json_dumps xs) = json_dumps xs"
    by (simp add: strip_def json_dumps_def is_space_def)
  moreover have "json_str_list (json_dumps xs) = Some xs"
    using js_items_dumped [OF assms] by (simp add: json_str_list_def json_dumps_def js_space_def)
  ultimately show ?thesis by (simp add: decode_line_def json_dumps_def)
qed

lemma split_lines_end: "(\<And>c. c \<in> set l \<Longrightarrow> \<not> line_break c) \<Longrightarrow> acc @ l \<noteq> [] \<Longrightarrow> split_lines acc l = [acc @ l]"
proof (induction acc l rule: split_lines.induct)
  case (3 acc c d cs)
  then have "\<not> line_break c" by simp
  moreover from this have "c \<noteq> CHR 0x0D" by (auto simp: line_break_def)
  ultimately show ?case using 3 by simp
qed simp_all

lemma split_lines_next:
  "(\<And>c. c \<in> set l \<Longrightarrow> \<not> line_break c) \<Longrightarrow> rest \<noteq> [] \<Longrightarrow>
     split_lines acc (l @ CHR 0x0A # rest) = (acc @ l) # split_lines [] rest"
proof (induction l arbitrary: acc)
  case Nil
  then obtain d ds where "rest = d # ds" by (cases rest) auto
  then show ?case by (simp add: line_break_def)
next
  case (Cons c l)
  then have c: "\<not> line_break c" by simp
  then have "c \<noteq> CHR 0x0D" by (auto simp: line_break_def)
  moreover obtain d ds where "l @ CHR 0x0A # rest = d # ds" by (cases l) auto
  ultimately have "split_lines acc ((c # l) @ CHR 0x0A # rest) = split_lines (acc @ [c]) (l @ CHR 0x0A # rest)"
    using c by simp
  then show ?case using Cons by simp
qed

text \<open>A stored rule survives the store: whatever the words of a policy's rules hold (quotes,
  newlines, any character), decoding what was encoded gives back the same rules in the same order.\<close>

lemma decode_encode:
  assumes "[] \<notin> set rules"
  shows "decode (encode rules) = rules"
proof -
  have "split_lines [] (join [CHR 0x0A] (map json_dumps rules)) = map json_dumps rules"
    using assms
  proof (induction rules rule: induct_list012)
    case (2 r)
    then show ?case using split_lines_end [of "json_dumps r" "[]"] json_dumps_no_break
      by (simp add: json_dumps_def)
  next
    case (3 r r' rs)
    let ?rest = "join [CHR 0x0A] (map json_dumps (r' # rs))"
    have "?rest \<noteq> []" by (cases rs) (simp_all add: json_dumps_def)
    then have "split_lines [] (json_dumps r @ CHR 0x0A # ?rest) = json_dumps r # split_lines [] ?rest"
      using split_lines_next [of "json_dumps r" ?rest "[]"] json_dumps_no_break by simp
    then show ?case using 3 by simp
  qed simp
  moreover have "List.map_filter decode_line (map json_dumps rules) = rules"
    using assms by (induction rules) (auto simp: List.map_filter_def decode_line_dumped)
  ultimately show ?thesis by (simp add: decode_def encode_def)
qed

lemma decode_encode_witness:
  "decode (encode [[''a b'', [DQUOTE, CHR 0x0A, CHR 0x85]], [''*'']]) = [[''a b'', [DQUOTE, CHR 0x0A, CHR 0x85]], [''*'']]"
  by (rule decode_encode) simp

lemma matching_iff_witness:
  "matching [[''ls''], [''git'', ''push'', ''*'']] [''git'', ''push'', ''-f''] \<noteq> []"
proof -
  have "\<exists>rule \<in> set [[''ls''], [''git'', ''push'', ''*'']]. rule \<noteq> [] \<and>
      (if last rule = ANY_REST then \<exists>args. [''git'', ''push'', ''-f''] = butlast rule @ args else [''git'', ''push'', ''-f''] = rule)"
    by (simp add: ANY_REST_def)
  then show ?thesis using matching_iff [of "[[''ls''], [''git'', ''push'', ''*'']]" "[''git'', ''push'', ''-f'']"] by blast
qed

end
