(* ===== verification/Containment.thy ===== *)
theory Containment
  imports AutoRules
begin

text \<open>
  Text written by whoever is asking, drawn for a human or quoted into a prompt:
  \<open>packages/crucible/src/crucible/containment.py\<close>.

  Characters are the first 256 code points, with their Unicode categories written out.  The
  ellipsis, U+2026, is not among them; it is added only after the structural characters are gone,
  and is written with one of those, U+0085.  The fullwidth bracket is not among them either.
\<close>

section \<open>Structural characters\<close>

abbreviation LF :: char where "LF \<equiv> CHR 0x0A"
abbreviation CR :: char where "CR \<equiv> CHR 0x0D"
abbreviation TAB :: char where "TAB \<equiv> CHR 0x09"
abbreviation TICK :: char where "TICK \<equiv> CHR 0x60"

definition FIELD_LIMIT :: nat where "FIELD_LIMIT = 200"
definition PASSAGE_LIMIT :: nat where "PASSAGE_LIMIT = 8000"
definition COMMAND_LIMIT :: nat where "COMMAND_LIMIT = 600"
definition ELLIPSIS :: char where "ELLIPSIS = CHR 0x85"

text \<open>Categories Cc and Cf (Zl and Zp have no character here), and Zs.\<close>

definition structural :: "char \<Rightarrow> bool" where
  "structural c \<longleftrightarrow> (let n = (of_char c :: nat) in n < 32 \<or> 127 \<le> n \<and> n \<le> 159 \<or> n = 173)"

definition space_separator :: "char \<Rightarrow> bool" where
  "space_separator c \<longleftrightarrow> (let n = (of_char c :: nat) in n = 32 \<or> n = 160)"

definition inert :: "string \<Rightarrow> string" where
  "inert text = filter (\<lambda>c. \<not> structural c) text"

text \<open>\<open>replace\<close> of the pair first, of the single carriage return then.\<close>

fun crlf :: "string \<Rightarrow> string" where
  "crlf (c # d # cs) = (if c = CR \<and> d = LF then LF # crlf cs else c # crlf (d # cs))"
| "crlf cs = cs"

definition inert_keep_lines :: "string \<Rightarrow> string" where
  "inert_keep_lines text =
     map (\<lambda>c. if space_separator c then CHR '' '' else c)
       (filter (\<lambda>c. c = LF \<or> c = TAB \<or> \<not> structural c)
          (map (\<lambda>c. if c = CR then LF else c) (crlf text)))"

section \<open>Quoting into a prompt\<close>

text \<open>\<open>re.sub\<close> of a bracket behind the blanks at the start of a line; the flag says whether only
  blanks have been seen since the line started.\<close>

fun escape_markers :: "bool \<Rightarrow> string \<Rightarrow> string" where
  "escape_markers start [] = []"
| "escape_markers start (c # cs) =
     (if c = LF then c # escape_markers True cs
      else if start \<and> (c = CHR '' '' \<or> c = TAB) then c # escape_markers True cs
      else if start \<and> c = CHR ''['' then BACKSLASH # c # escape_markers False cs
      else c # escape_markers False cs)"

definition quoted :: "bool \<Rightarrow> string \<Rightarrow> string" where
  "quoted inline text = escape_markers (\<not> inline) (inert_keep_lines text)"

definition speaker_char :: "char \<Rightarrow> bool" where
  "speaker_char c \<longleftrightarrow> (let n = (of_char c :: nat) in
     is_digit c \<or> 65 \<le> n \<and> n \<le> 90 \<or> 97 \<le> n \<and> n \<le> 122) \<or> c \<in> set ''._@+-''"

definition speaker :: "string \<Rightarrow> nat \<Rightarrow> string" where
  "speaker name limit = take limit (map (\<lambda>c. if speaker_char c then c else CHR ''_'') (inert name))"

section \<open>Backticks\<close>

definition spaced_run :: "nat \<Rightarrow> string" where
  "spaced_run n = (if n \<ge> 3 then join '' '' (replicate n [TICK]) else replicate n TICK)"

text \<open>Every run of three or more is spaced; the number is how long the run so far is.\<close>

fun defuse_from :: "nat \<Rightarrow> string \<Rightarrow> string" where
  "defuse_from n [] = spaced_run n"
| "defuse_from n (c # cs) = (if c = TICK then defuse_from (Suc n) cs else spaced_run n @ c # defuse_from 0 cs)"

definition defuse :: "string \<Rightarrow> string" where
  "defuse text = defuse_from 0 text"

text \<open>The loop of \<open>_fence\<close>: the run it is in and the longest seen.\<close>

fun longest_run :: "nat \<Rightarrow> nat \<Rightarrow> string \<Rightarrow> nat" where
  "longest_run run longest [] = longest"
| "longest_run run longest (c # cs) =
     (let run' = (if c = TICK then run + 1 else 0) in longest_run run' (max longest run') cs)"

definition fence :: "string \<Rightarrow> nat \<Rightarrow> string" where
  "fence content minimum = replicate (max minimum (longest_run 0 0 content + 1)) TICK"

section \<open>What is drawn\<close>

definition rstrip :: "string \<Rightarrow> string" where
  "rstrip s = rev (dropWhile is_space (rev s))"

definition one_line :: "nat \<Rightarrow> string \<Rightarrow> string" where
  "one_line limit text =
     (let collapsed = defuse (join '' '' (split_ws (inert_keep_lines text))) in
      if length collapsed > limit then rstrip (take (limit - 1) collapsed) @ [ELLIPSIS] else collapsed)"

definition passage :: "nat \<Rightarrow> string \<Rightarrow> string" where
  "passage limit text =
     (let t = strip (defuse (inert_keep_lines text)) in
      if length t > limit
      then rstrip (take limit t) @ [LF, ELLIPSIS] @ '' cut at '' @ show_nat limit @ '' of ''
             @ show_nat (length t) @ '' chars''
      else t)"

definition code_span :: "string \<Rightarrow> string" where
  "code_span text =
     (let t = one_line FIELD_LIMIT text in
      if t = [] then []
      else let f = fence t 1; pad = (if hd t = TICK \<or> last t = TICK then '' '' else []) in
           f @ pad @ t @ pad @ f)"

definition code_block :: "string \<Rightarrow> string" where
  "code_block text = (let t = defuse (inert text); f = fence t 3 in f @ [LF] @ t @ [LF] @ f)"

definition preformatted :: "string \<Rightarrow> string \<Rightarrow> string" where
  "preformatted lang text =
     (let t = defuse (inert_keep_lines text); f = fence t 3 in f @ lang @ [LF] @ t @ [LF] @ f)"

definition command_line :: "nat \<Rightarrow> string list \<Rightarrow> string" where
  "command_line limit argv =
     (let rendered = join '' '' (map (\<lambda>part. shlex_quote (inert part)) argv) in
      if length rendered > limit then rstrip (take (limit - 1) rendered) @ [ELLIPSIS] else rendered)"

section \<open>Runs of backticks\<close>

text \<open>A text has a run of \<open>k\<close> backticks somewhere.\<close>

definition has_run :: "nat \<Rightarrow> string \<Rightarrow> bool" where
  "has_run k s \<longleftrightarrow> (\<exists>a b. s = a @ replicate k TICK @ b)"

lemma has_run_mono: "has_run k s \<Longrightarrow> j \<le> k \<Longrightarrow> has_run j s"
proof -
  assume "has_run k s" "j \<le> k"
  then obtain a b where "s = a @ replicate k TICK @ b" "k = j + (k - j)" by (auto simp: has_run_def)
  then have "s = a @ replicate j TICK @ (replicate (k - j) TICK @ b)" by (metis append_assoc replicate_add)
  then show ?thesis unfolding has_run_def by blast
qed

lemma has_run_infix: "has_run k s \<Longrightarrow> has_run k (x @ s @ y)"
  unfolding has_run_def by (metis append_assoc)

lemma has_run_replicate: "has_run k (replicate n TICK) \<longleftrightarrow> k \<le> n"
proof
  assume "has_run k (replicate n TICK)"
  then obtain a b where "replicate n TICK = a @ replicate k TICK @ b" by (auto simp: has_run_def)
  then have "n = length (a @ replicate k TICK @ b)" by (metis length_replicate)
  then show "k \<le> n" by simp
next
  assume "k \<le> n"
  then have "replicate n TICK = [] @ replicate k TICK @ replicate (n - k) TICK"
    by (simp flip: replicate_add)
  then show "has_run k (replicate n TICK)" unfolding has_run_def by blast
qed

text \<open>A character that is no backtick separates the runs.\<close>

lemma has_run_sep:
  assumes "c \<noteq> TICK" and "0 < k"
  shows "has_run k (x @ c # y) \<longleftrightarrow> has_run k x \<or> has_run k y"
proof
  assume "has_run k (x @ c # y)"
  then obtain a b where e: "x @ c # y = a @ replicate k TICK @ b" by (auto simp: has_run_def)
  then consider u where "x = a @ u" "u @ c # y = replicate k TICK @ b"
    | u where "a = x @ u" "c # y = u @ replicate k TICK @ b"
    by (auto simp: append_eq_append_conv2)
  then show "has_run k x \<or> has_run k y"
  proof cases
    case 1
    consider v where "u = replicate k TICK @ v" | v where "replicate k TICK = u @ v" "c # y = v @ b"
      using 1(2) by (metis append_eq_append_conv2)
    then show ?thesis
    proof cases
      case 1
      then show ?thesis using \<open>x = a @ u\<close> unfolding has_run_def by blast
    next
      case 2
      show ?thesis
      proof (cases v)
        case Nil
        then have "x = a @ replicate k TICK @ []" using \<open>x = a @ u\<close> 2 by simp
        then show ?thesis unfolding has_run_def by blast
      next
        case (Cons d v')
        then have "c \<in> set (replicate k TICK)" using 2 by simp
        then show ?thesis using assms by (auto split: if_splits)
      qed
    qed
  next
    case 2
    show ?thesis
    proof (cases u)
      case Nil
      then show ?thesis using 2 assms by (cases k) auto
    next
      case (Cons d u')
      then have "y = u' @ replicate k TICK @ b" using 2 by simp
      then show ?thesis unfolding has_run_def by blast
    qed
  qed
next
  assume "has_run k x \<or> has_run k y"
  then show "has_run k (x @ c # y)"
    using has_run_infix [of k x "[]" "c # y"] has_run_infix [of k y "x @ [c]" "[]"] by auto
qed

lemma longest_run_iff: "r \<le> m \<Longrightarrow> 0 < k \<Longrightarrow> k \<le> longest_run r m s \<longleftrightarrow> k \<le> m \<or> has_run k (replicate r TICK @ s)"
proof (induction s arbitrary: r m)
  case Nil
  then show ?case by (auto simp: has_run_replicate)
next
  case (Cons c s)
  show ?case
  proof (cases "c = TICK")
    case True
    have "replicate r TICK @ TICK # s = replicate (Suc r) TICK @ s"
      by (simp add: replicate_app_Cons_same)
    moreover have "has_run k (replicate (Suc r) TICK @ s)" if "k \<le> Suc r"
      using that has_run_infix [of k "replicate (Suc r) TICK" "[]" s] has_run_replicate [of k "Suc r"] by simp
    moreover have "k \<le> longest_run (Suc r) (max m (Suc r)) s \<longleftrightarrow> k \<le> max m (Suc r) \<or> has_run k (replicate (Suc r) TICK @ s)"
      by (rule Cons.IH) (use Cons.prems in simp_all)
    moreover have "longest_run r m (c # s) = longest_run (Suc r) (max m (Suc r)) s" using True by simp
    ultimately show ?thesis unfolding True le_max_iff_disj by metis
  next
    case False
    then show ?thesis using Cons.IH [of 0 "max m 0"] Cons.prems has_run_sep [OF False, of k "replicate r TICK" s]
      by (auto simp: Let_def has_run_replicate)
  qed
qed

lemma longest_run_bound: "0 < k \<Longrightarrow> longest_run 0 0 s < k \<longleftrightarrow> \<not> has_run k s"
  using longest_run_iff [of 0 0 k s] by auto

lemma spaced_run_short: "\<not> has_run 3 (spaced_run n)"
proof (cases "n \<ge> 3")
  case True
  have "\<not> has_run 3 (join '' '' (replicate m [TICK]))" for m
  proof (induction m rule: induct_nat_012)
    case (ge2 m)
    have "join '' '' (replicate (Suc (Suc m)) [TICK]) = [TICK] @ CHR '' '' # join '' '' (replicate (Suc m) [TICK])" by simp
    then show ?case using ge2 has_run_sep [of "CHR '' ''" 3 "[TICK]"] has_run_replicate [of 3 1] by simp
  qed (use has_run_replicate [of 3 0] has_run_replicate [of 3 1] in simp_all)
  then show ?thesis using True by (simp add: spaced_run_def)
next
  case False
  then show ?thesis by (simp add: spaced_run_def has_run_replicate)
qed

lemma defuse_no_run: "\<not> has_run 3 (defuse s)"
proof -
  have "\<not> has_run 3 (defuse_from n s)" for n
    by (induction s arbitrary: n) (auto simp: has_run_sep spaced_run_short)
  then show ?thesis by (simp add: defuse_def)
qed

section \<open>What a caller's text cannot do\<close>

lemma set_defuse: "c \<in> set (defuse s) \<Longrightarrow> c \<in> set s \<or> c = CHR '' '' \<or> c = TICK"
proof -
  have run: "set (spaced_run n) \<subseteq> {CHR '' '', TICK}" for n
  proof -
    have "set (join '' '' (replicate m [TICK])) \<subseteq> {CHR '' '', TICK}" for m
      by (induction m rule: induct_nat_012) auto
    then show ?thesis by (auto simp: spaced_run_def)
  qed
  have "set (defuse_from n s) \<subseteq> set s \<union> {CHR '' '', TICK}" for n
  proof (induction s arbitrary: n)
    case Nil
    then show ?case using run by simp
  next
    case (Cons d s)
    then show ?case using run [of n] by (cases "d = TICK") fastforce+
  qed
  then show "c \<in> set (defuse s) \<Longrightarrow> c \<in> set s \<or> c = CHR '' '' \<or> c = TICK" by (auto simp: defuse_def)
qed

lemma set_split_ws: "w \<in> set (split_ws s) \<Longrightarrow> c \<in> set w \<Longrightarrow> c \<in> set s \<and> \<not> is_space c"
proof (induction s arbitrary: w rule: split_ws.induct)
  case (1 s)
  show ?case
  proof (cases "dropWhile is_space s")
    case Nil
    then have "split_ws s = []" by (subst split_ws.simps) (simp only: Nil list.case)
    then show ?thesis using "1.prems" by simp
  next
    case (Cons d ds)
    have d: "\<not> is_space d" using hd_dropWhile [of is_space s] Cons by simp
    have sub: "set (d # ds) \<subseteq> set s" using Cons by (metis set_dropWhileD subsetI)
    have "w = d # takeWhile (\<lambda>x. \<not> is_space x) ds \<or> w \<in> set (split_ws (dropWhile (\<lambda>x. \<not> is_space x) ds))"
      using "1.prems"(1) Cons by (subst (asm) split_ws.simps) simp
    then show ?thesis
    proof
      assume "w = d # takeWhile (\<lambda>x. \<not> is_space x) ds"
      then show ?thesis using "1.prems"(2) d sub by (auto dest: set_takeWhileD)
    next
      assume "w \<in> set (split_ws (dropWhile (\<lambda>x. \<not> is_space x) ds))"
      then have "c \<in> set (dropWhile (\<lambda>x. \<not> is_space x) ds) \<and> \<not> is_space c"
        using "1.IH" [OF Cons] "1.prems"(2) by blast
      then show ?thesis using sub by (auto dest: set_dropWhileD)
    qed
  qed
qed

lemma set_join: "c \<in> set (join sep ws) \<Longrightarrow> c \<in> set sep \<or> (\<exists>w \<in> set ws. c \<in> set w)"
  by (induction sep ws rule: join.induct) auto

lemma set_rstrip: "c \<in> set (rstrip s) \<Longrightarrow> c \<in> set s"
  by (auto simp: rstrip_def dest: set_dropWhileD)

lemma set_inert_keep_lines:
  assumes "c \<in> set (inert_keep_lines text)"
  shows "c = LF \<or> c = TAB \<or> \<not> structural c"
proof -
  have "\<exists>d. (d = LF \<or> d = TAB \<or> \<not> structural d) \<and> c = (if space_separator d then CHR '' '' else d)"
    using assms unfolding inert_keep_lines_def set_map set_filter by blast
  moreover have "\<not> structural (CHR '' '')" by (simp add: structural_def)
  ultimately show ?thesis by (metis (full_types))
qed

lemma collapsed_chars:
  assumes "c \<in> set (defuse (join '' '' (split_ws (inert_keep_lines text))))"
  shows "\<not> structural c"
proof -
  have plain: "\<not> structural (CHR '' '')" "\<not> structural TICK" by (simp_all add: structural_def)
  have sp: "is_space LF" "is_space TAB" by (simp_all add: is_space_def)
  consider "c = CHR '' '' \<or> c = TICK" | "c \<in> set (join '' '' (split_ws (inert_keep_lines text)))"
    using set_defuse [OF assms] by blast
  then show ?thesis
  proof cases
    case 1
    then show ?thesis using plain by blast
  next
    case 2
    then have "c = CHR '' '' \<or> c \<in> set (inert_keep_lines text) \<and> \<not> is_space c"
      using set_join [OF 2] set_split_ws by auto
    then show ?thesis using plain sp set_inert_keep_lines by blast
  qed
qed

lemma rstrip_prefix: "\<exists>t. s = rstrip s @ t"
proof -
  have "rev s = takeWhile is_space (rev s) @ dropWhile is_space (rev s)" by simp
  then have "s = rev (dropWhile is_space (rev s)) @ rev (takeWhile is_space (rev s))"
    by (metis rev_append rev_rev_ident)
  then show ?thesis unfolding rstrip_def by blast
qed

lemma has_run_rstrip_take: "has_run k (rstrip (take n s)) \<Longrightarrow> has_run k s"
proof -
  assume "has_run k (rstrip (take n s))"
  moreover obtain t where "take n s = rstrip (take n s) @ t" using rstrip_prefix by blast
  ultimately have "has_run k (take n s)" using has_run_infix [of k _ "[]" t] by (metis append_Nil)
  then show ?thesis using has_run_infix [of k "take n s" "[]" "drop n s"] by simp
qed

lemma ELLIPSIS_not_TICK [simp]: "ELLIPSIS \<noteq> TICK" "ELLIPSIS \<noteq> LF"
  by (simp_all add: ELLIPSIS_def)

lemma one_line_facts:
  assumes "0 < limit"
  shows "length (one_line limit text) \<le> limit" "\<not> has_run 3 (one_line limit text)"
    "c \<in> set (one_line limit text) \<Longrightarrow> c = ELLIPSIS \<or> \<not> structural c"
proof -
  let ?s = "defuse (join '' '' (split_ws (inert_keep_lines text)))"
  have len: "length (rstrip xs) \<le> length xs" for xs using length_dropWhile_le [of is_space "rev xs"]
    by (simp add: rstrip_def)
  show "length (one_line limit text) \<le> limit"
    using len [of "take (limit - 1) ?s"] assms by (auto simp: one_line_def Let_def)
  have cut: "\<not> has_run 3 (rstrip (take (limit - 1) ?s) @ [ELLIPSIS])"
    using has_run_sep [of ELLIPSIS 3 "rstrip (take (limit - 1) ?s)" "[]"] has_run_rstrip_take [of 3 "limit - 1" ?s]
      defuse_no_run has_run_replicate [of 3 0] by auto
  show "\<not> has_run 3 (one_line limit text)" using cut defuse_no_run by (simp add: one_line_def Let_def)
  show "c \<in> set (one_line limit text) \<Longrightarrow> c = ELLIPSIS \<or> \<not> structural c"
    using collapsed_chars by (auto simp: one_line_def Let_def split: if_splits dest!: set_rstrip in_set_takeD)
qed

lemma fence_longer: "\<not> has_run (length (fence t m)) t"
proof -
  have "longest_run 0 0 t < length (fence t m)" by (simp add: fence_def)
  moreover from this have "0 < length (fence t m)" by (rule le_less_trans [OF le0])
  ultimately show ?thesis using longest_run_bound [of "length (fence t m)" t] by blast
qed

text \<open>C11. A value on a card cannot leave its code span: what is drawn for any text is nothing, or a run
  of backticks, a body on one line that begins and ends with something else and holds no run as
  long, and the same run again; so no text of a caller's closes the span, opens a line or
  reorders what follows.\<close>

theorem code_span_contained:
  assumes "code_span text \<noteq> []"
  shows "\<exists>k body. code_span text = replicate k TICK @ body @ replicate k TICK \<and> 0 < k
    \<and> \<not> has_run k body \<and> hd body \<noteq> TICK \<and> last body \<noteq> TICK
    \<and> (\<forall>c \<in> set body. c = ELLIPSIS \<or> \<not> structural c)"
proof -
  let ?t = "one_line FIELD_LIMIT text"
  let ?k = "length (fence ?t 1)" and ?pad = "if hd ?t = TICK \<or> last ?t = TICK then '' '' else []"
  have t: "?t \<noteq> []" using assms by (auto simp: code_span_def Let_def)
  have k: "0 < ?k" "fence ?t 1 = replicate ?k TICK" by (simp_all add: fence_def)
  have "\<not> has_run ?k ?t" by (rule fence_longer)
  then have run: "\<not> has_run ?k (?pad @ ?t @ ?pad)"
    using has_run_sep [of "CHR '' ''" ?k "[]" "?t @ '' ''"] has_run_sep [of "CHR '' ''" ?k ?t "[]"] k(1)
      has_run_replicate [of ?k 0] by auto
  have ends: "hd (?pad @ ?t @ ?pad) \<noteq> TICK" "last (?pad @ ?t @ ?pad) \<noteq> TICK" using t by auto
  have chars: "\<forall>c \<in> set (?pad @ ?t @ ?pad). c = ELLIPSIS \<or> \<not> structural c"
    using one_line_facts(3) [of FIELD_LIMIT _ "text"] by (auto simp: FIELD_LIMIT_def structural_def)
  have "code_span text = replicate ?k TICK @ (?pad @ ?t @ ?pad) @ replicate ?k TICK"
    using t k(2) by (simp add: code_span_def Let_def)
  then show ?thesis using k(1) run ends chars by blast
qed

lemma code_span_contained_witness:
  "\<exists>k body. code_span ''rm `x` ```'' = replicate k TICK @ body @ replicate k TICK \<and> 0 < k \<and> \<not> has_run k body"
proof -
  have "code_span ''rm `x` ```'' \<noteq> []" by code_simp
  from code_span_contained [OF this] show ?thesis by blast
qed

text \<open>A block cannot be closed from within: a preformatted text is three backticks, its lines, and
  three backticks, and no three backticks stand next to each other between them.\<close>

lemma preformatted_contained:
  "\<exists>body. preformatted lang text = replicate 3 TICK @ lang @ [LF] @ body @ [LF] @ replicate 3 TICK
    \<and> \<not> has_run 3 body \<and> (\<forall>c \<in> set body. c = LF \<or> c = TAB \<or> \<not> structural c)"
proof -
  let ?t = "defuse (inert_keep_lines text)"
  have "longest_run 0 0 ?t < 3" using longest_run_bound [of 3 ?t] defuse_no_run by simp
  then have "fence ?t 3 = replicate 3 TICK" by (simp add: fence_def)
  moreover have "\<forall>c \<in> set ?t. c = LF \<or> c = TAB \<or> \<not> structural c"
    using set_defuse set_inert_keep_lines by (fastforce simp: structural_def)
  ultimately show ?thesis using defuse_no_run by (auto simp: preformatted_def Let_def)
qed

abbreviation blank :: "char \<Rightarrow> bool" where "blank c \<equiv> c = CHR '' '' \<or> c = TAB"

lemma escape_markers_starts:
  "(st \<longrightarrow> dropWhile blank (escape_markers st s) \<noteq> CHR ''['' # rest)
   \<and> (\<forall>a b. escape_markers st s = a @ LF # b \<longrightarrow> dropWhile blank b \<noteq> CHR ''['' # rest)"
proof (induction st s rule: escape_markers.induct)
  case (1 st)
  then show ?case by simp
next
  case (2 st c cs)
  show ?case
  proof (cases "c = LF")
    case True
    then show ?thesis using "2.IH"(1) by (auto simp: Cons_eq_append_conv)
  next
    case not_lf: False
    show ?thesis
    proof (cases "st \<and> (c = CHR '' '' \<or> c = TAB)")
      case True
      then show ?thesis using "2.IH"(2) not_lf by (auto simp: Cons_eq_append_conv)
    next
      case not_blank: False
      show ?thesis
      proof (cases "st \<and> c = CHR ''[''")
        case True
        then show ?thesis using "2.IH"(3) not_lf not_blank by (auto simp: Cons_eq_append_conv)
      next
        case False
        then show ?thesis using "2.IH"(4) not_lf not_blank by (auto simp: Cons_eq_append_conv)
      qed
    qed
  qed
qed

text \<open>A quoted message cannot pose as the prompt: no line of it (no line after the first, when it
  starts in the middle of one) begins, behind any blanks, with the bracket the prompt's own lines
  begin with, and it holds no line break but the newline.\<close>

lemma quoted_contained:
  assumes "quoted inline text = a @ b" and "if a = [] then \<not> inline else last a = LF"
  shows "dropWhile blank b \<noteq> CHR ''['' # rest \<and> (\<forall>c \<in> set b. c = LF \<or> c = TAB \<or> \<not> structural c)"
proof -
  have "dropWhile blank b \<noteq> CHR ''['' # rest"
  proof (cases "a = []")
    case True
    then show ?thesis using assms escape_markers_starts [of True "inert_keep_lines text" rest] by (simp add: quoted_def)
  next
    case False
    then have "a = butlast a @ [LF]" using assms(2) by (metis append_butlast_last_id)
    then have "escape_markers (\<not> inline) (inert_keep_lines text) = butlast a @ LF # b"
      using assms(1) by (metis append.assoc append_Cons append_Nil quoted_def)
    then show ?thesis using escape_markers_starts [of "\<not> inline" "inert_keep_lines text" rest] by blast
  qed
  moreover have "c \<in> set s \<or> c = BACKSLASH" if "c \<in> set (escape_markers st s)" for c st s
    using that by (induction st s rule: escape_markers.induct) (auto split: if_splits)
  then have "\<forall>c \<in> set (quoted inline text). c = LF \<or> c = TAB \<or> \<not> structural c"
    using set_inert_keep_lines unfolding quoted_def by (fastforce simp: structural_def)
  ultimately show ?thesis using assms(1) by simp
qed

lemma quoted_contained_witness:
  "quoted False [CHR ''['', CHR ''x'', CR, LF, TAB, CHR ''[''] =
     [BACKSLASH, CHR ''['', CHR ''x'', LF] @ [TAB, BACKSLASH, CHR ''['']
   \<and> dropWhile blank [TAB, BACKSLASH, CHR ''[''] \<noteq> [CHR ''['']"
proof -
  have q: "quoted False [CHR ''['', CHR ''x'', CR, LF, TAB, CHR ''[''] =
     [BACKSLASH, CHR ''['', CHR ''x'', LF] @ [TAB, BACKSLASH, CHR ''['']" by code_simp
  from quoted_contained [OF this, of "[]"] q show ?thesis by simp
qed

text \<open>The command on a card is the command: a shell reading the line that is shown (when it is short
  enough to be shown whole) finds the arguments as they were declared, word by word, but for
  the structural characters that are never shown.\<close>

lemma command_line_reads_back:
  assumes "length (command_line limit argv) \<le> limit" and "ELLIPSIS \<notin> set (command_line limit argv)"
  shows "shlex_split (command_line limit argv) = Some (map inert argv)"
proof -
  have words: "sx Blank [] False (join '' '' (map shlex_quote ps)) = Some ps" for ps
  proof (induction ps)
    case (Cons p ps)
    show ?case
    proof (cases ps)
      case Nil
      then show ?thesis using sx_quoted_word [of p "[]"] by auto
    next
      case (Cons p' ps')
      obtain q where q: "p \<noteq> [] \<or> q" "sx Blank [] False (shlex_quote p @ '' '' @ join '' '' (map shlex_quote ps))
          = sx InWord p q ('' '' @ join '' '' (map shlex_quote ps))"
        using sx_quoted_word by blast
      have "join '' '' (map shlex_quote (p # ps)) = shlex_quote p @ '' '' @ join '' '' (map shlex_quote ps)"
        by (simp add: Cons)
      then show ?thesis using q \<open>sx Blank [] False (join '' '' (map shlex_quote ps)) = Some ps\<close>
        by (simp add: sh_space_def)
    qed
  qed simp
  have "command_line limit argv = join '' '' (map (\<lambda>part. shlex_quote (inert part)) argv)"
    using assms(2) by (auto simp: command_line_def Let_def split: if_splits)
  then show ?thesis using words [of "map inert argv"] by (simp add: shlex_split_def comp_def)
qed

lemma command_line_reads_back_witness:
  "shlex_split (command_line COMMAND_LIMIT [''sh'', ''-c'', ''echo $TOKEN'']) = Some [''sh'', ''-c'', ''echo $TOKEN'']"
proof -
  have "length (command_line COMMAND_LIMIT [''sh'', ''-c'', ''echo $TOKEN'']) \<le> COMMAND_LIMIT"
    "ELLIPSIS \<notin> set (command_line COMMAND_LIMIT [''sh'', ''-c'', ''echo $TOKEN''])"
    by (simp_all add: command_line_def inert_def shlex_quote_def sh_safe_def is_digit_def structural_def
        COMMAND_LIMIT_def ELLIPSIS_def)
  from command_line_reads_back [OF this] show ?thesis by (simp add: inert_def structural_def)
qed

lemma preformatted_contained_witness:
  "\<exists>body. preformatted ''sh'' (replicate 5 TICK) = replicate 3 TICK @ ''sh'' @ [LF] @ body @ [LF] @ replicate 3 TICK
     \<and> \<not> has_run 3 body"
  using preformatted_contained [of "''sh''" "replicate 5 TICK"] by blast

end
