(* ===== verification/ToolGate.thy ===== *)
theory ToolGate
  imports Sessions Replicas Approvals ChatCards Containment
begin

text \<open>
  The question in front of a tool call: \<open>packages/crucible/src/crucible/interactions/toolgate.py\<close>,
  with where it is posted (\<open>conversation_ref\<close> and \<open>turn_ref\<close> of \<open>interactions/service.py\<close>).

  Several calls run against one registry of questions and one ledger of windows; what a call does
  between two awaits is one step.  The session found for it, the turn's place, what posting
  answered, the clocks and the random ids are arguments of the steps.  Telemetry, logging and the
  courtesy of \<open>set_waiting\<close> are left out; the last is a step of its own only in that a call can
  be cancelled there.
\<close>

section \<open>Where to post\<close>

record turn_place =
  pl_gateway :: string
  pl_thread_root_id :: string

record conversation_ref =
  r_channel_id :: string
  r_conversation_id :: string
  r_message_id :: string
  r_thread_root_id :: string

definition KIND_THREAD :: string where "KIND_THREAD = ''thread''"

definition conversation_ref :: "session_record \<Rightarrow> string \<Rightarrow> conversation_ref" where
  "conversation_ref r gateway =
     (let address = (if gateway \<noteq> [] then map_of (gateway_addresses r) gateway else None);
          channel = (case address of Some a \<Rightarrow> ga_channel_id a | None \<Rightarrow> se_channel_id r);
          conv = (case address of Some a \<Rightarrow> ga_conversation_id a | None \<Rightarrow> se_conversation_id r);
          kind = (case address of Some a \<Rightarrow> ga_kind a | None \<Rightarrow> se_kind r) in
      \<lparr>r_channel_id = channel, r_conversation_id = conv, r_message_id = conv,
       r_thread_root_id = (if kind = KIND_THREAD then conv else [])\<rparr>)"

definition turn_ref :: "session_record \<Rightarrow> string \<Rightarrow> turn_place option \<Rightarrow> conversation_ref" where
  "turn_ref r gateway place =
     (let ref = conversation_ref r gateway in
      case place of None \<Rightarrow> ref
      | Some p \<Rightarrow>
          if pl_gateway p \<noteq> gateway \<or> r_thread_root_id ref \<noteq> [] \<or> pl_thread_root_id p = [] then ref
          else ref\<lparr>r_message_id := pl_thread_root_id p, r_thread_root_id := pl_thread_root_id p\<rparr>)"

section \<open>The card\<close>

record call_preview =
  pv_title :: string
  pv_rows :: "preview_row list"
  pv_danger :: bool
  pv_block_label :: string
  pv_block :: string
  pv_block_language :: string

definition ARGUMENTS_LIMIT :: nat where "ARGUMENTS_LIMIT = 2000"

text \<open>\<open>rendered\<close> is the JSON text of the arguments, or what \<open>str\<close> made of them.\<close>

definition arguments :: "string \<Rightarrow> string" where
  "arguments rendered =
     (if length rendered > ARGUMENTS_LIMIT then take (ARGUMENTS_LIMIT - 1) rendered @ [ELLIPSIS] else rendered)"

definition named :: "string \<Rightarrow> string \<Rightarrow> string" where
  "named tool display_name =
     (if display_name \<noteq> [] then [CHR 0xAB] @ display_name @ [CHR 0xBB] else tool)"

definition tool_scope :: "string \<Rightarrow> string \<Rightarrow> string" where
  "tool_scope tool runtime_session_id = tool @ ''@'' @ runtime_session_id"

text \<open>\<open>args = None\<close> is a call without arguments.\<close>

definition question_card :: "string \<Rightarrow> string \<Rightarrow> string option \<Rightarrow> call_preview option \<Rightarrow> string \<Rightarrow> string
    \<Rightarrow> approval_request" where
  "question_card agent tool args preview display_name expires_at =
     (case preview of
        None \<Rightarrow>
          \<lparr>q_agent = agent, q_headline = ''wants to run '' @ named tool display_name @ ''.'', q_icon = DEFAULT_ICON,
           q_title = [], q_tool = tool, q_display_name = display_name, q_fields = [],
           q_block_label = (if args \<noteq> None then ''Arguments'' else []),
           q_block = (case args of Some a \<Rightarrow> arguments a | None \<Rightarrow> []),
           q_block_language = (if args \<noteq> None then ''json'' else []),
           q_danger = False, q_expires_at = expires_at, q_verdict = [], q_grant_s = 0\<rparr>
      | Some p \<Rightarrow>
          \<lparr>q_agent = agent, q_headline = ''wants to run '' @ named tool display_name @ ''.'',
           q_icon = (if pv_danger p then ''warning'' else DEFAULT_ICON), q_title = pv_title p, q_tool = tool,
           q_display_name = display_name, q_fields = pv_rows p, q_block_label = pv_block_label p,
           q_block = pv_block p, q_block_language = pv_block_language p, q_danger = pv_danger p,
           q_expires_at = expires_at, q_verdict = [], q_grant_s = 0\<rparr>)"

definition closed :: "approval_request \<Rightarrow> string \<Rightarrow> string \<Rightarrow> int \<Rightarrow> approval_request" where
  "closed crd headline verdict grant =
     crd\<lparr>q_headline := headline, q_verdict := verdict, q_grant_s := grant, q_expires_at := []\<rparr>"

section \<open>Calls\<close>

record gate_config =
  gc_max_grant :: int
  gc_approvers :: "string set"
  gc_replica :: string
  gc_person :: "string \<Rightarrow> string \<Rightarrow> string"
  gc_poster :: "string \<Rightarrow> string \<Rightarrow> bool"

text \<open>The arguments of \<open>confirm\<close>, with what it draws at random: the id of the request and the token.\<close>

record gate_call =
  ca_agent :: string
  ca_tool :: string
  ca_args :: "string option"
  ca_session :: string
  ca_preview :: "call_preview option"
  ca_display_name :: string
  ca_grantable :: bool
  ca_request :: string
  ca_random :: string
  ca_started :: int

definition gate_token :: "gate_config \<Rightarrow> gate_call \<Rightarrow> string" where
  "gate_token cfg k = tag_token (gc_replica cfg) (ca_random k)"

definition call_scope :: "gate_call \<Rightarrow> string" where
  "call_scope k = tool_scope (ca_tool k) (ca_session k)"

datatype tool_decision =
    Reused_grant | Approved_once | Approved_grant | Was_denied | Timed_out | No_approver_found | Was_abandoned

fun tool_decision_text :: "tool_decision \<Rightarrow> string" where
  "tool_decision_text Reused_grant = ''reused_grant''"
| "tool_decision_text Approved_once = ''approved_once''"
| "tool_decision_text Approved_grant = ''approved_grant''"
| "tool_decision_text Was_denied = ''denied''"
| "tool_decision_text Timed_out = ''timeout''"
| "tool_decision_text No_approver_found = ''no_approver''"
| "tool_decision_text Was_abandoned = ''abandoned''"

text \<open>How \<open>confirm\<close> ends: one of its outcomes, cancelled, or raising what a statement raised.\<close>

datatype confirm_end = ALLOWED | DENIED | UNANSWERED | NO_APPROVER | CANCELLED | FAILED

text \<open>What a closed question goes on with: the answer, or the cancellation to raise again.\<close>

datatype ended = Answered approval | Withdrawn

datatype phase =
    Looking
  | Asking
  | Posting approval_request "(string \<times> conversation_ref) list" "(string \<times> string) list"
  | Waiting approval_request "(string \<times> string) list"
  | Closing approval_request "(string \<times> string) list" ended
  | Opening approval
  | Recording tool_decision string string confirm_end
  | Over confirm_end

definition KIND_TOOL :: string where "KIND_TOOL = ''tool''"

datatype gate_touch =
    PostsQuestion string conversation_ref approval_request "action list"
  | RewritesQuestion string string approval_request
  | FeedsAwaiting string string

record gate =
  g_waiting :: approvals
  g_answers :: "string \<rightharpoonup> approval"
  g_ledger :: approval_db
  g_calls :: "nat \<Rightarrow> (gate_call \<times> phase) option"
  g_touched :: "gate_touch list"
  g_asked :: "string \<rightharpoonup> string set"
  g_clicked :: "(string \<times> string \<times> string) list"

text \<open>
  The last two are kept for the statements: whom a token was put to, and the clicks accepted
  (token, value, person).
\<close>

definition quiet_gate :: gate where
  "quiet_gate = \<lparr>g_waiting = Map.empty, g_answers = Map.empty, g_ledger = \<lparr>grants = [], audit = []\<rparr>,
     g_calls = (\<lambda>_. None), g_touched = [], g_asked = Map.empty, g_clicked = []\<rparr>"

definition goes :: "nat \<Rightarrow> gate_call \<Rightarrow> phase \<Rightarrow> gate \<Rightarrow> gate" where
  "goes c k ph s = s\<lparr>g_calls := (g_calls s)(c := Some (k, ph))\<rparr>"

section \<open>The steps of a call\<close>

text \<open>\<open>confirm\<close> up to its first await after the lookup.\<close>

definition look_up :: "nat \<Rightarrow> gate_call \<Rightarrow> stamp \<Rightarrow> gate \<Rightarrow> gate" where
  "look_up c k now s =
     (case (if ca_grantable k then live_grant KIND_TOOL (ca_agent k) (call_scope k) now (g_ledger s) else None) of
        Some g \<Rightarrow> goes c k (Recording Reused_grant [] (ag_id g) ALLOWED) s
      | None \<Rightarrow> goes c k Asking s)"

text \<open>The gateways the question goes to, where the agent has somebody to post.\<close>

definition gate_posters :: "gate_config \<Rightarrow> string \<Rightarrow> session_record option \<Rightarrow> string list" where
  "gate_posters cfg agent record = (case record of None \<Rightarrow> []
     | Some r \<Rightarrow> filter (gc_poster cfg agent)
         (case sort (map fst (gateway_addresses r)) of [] \<Rightarrow> [se_last_gateway r] | gs \<Rightarrow> gs))"

definition who_may_answer :: "gate_config \<Rightarrow> session_record \<Rightarrow> string \<Rightarrow> string set" where
  "who_may_answer cfg r behalf_of =
     (let person_gateway = (if behalf_of \<noteq> [] then behalf_of else se_last_gateway r) in
      if gc_approvers cfg \<noteq> {} then gc_approvers cfg
      else if se_last_user_id r \<noteq> [] then {gc_person cfg person_gateway (se_last_user_id r)} else {})"

text \<open>\<open>_ask\<close> up to the first post; \<open>behalf_of\<close> is the gateway the turn's scope names, if any,
  and \<open>expires\<close> the text of the moment the timeout ends.\<close>

definition ask_start :: "gate_config \<Rightarrow> nat \<Rightarrow> gate_call \<Rightarrow> session_record option \<Rightarrow> turn_place option \<Rightarrow> string
    \<Rightarrow> string \<Rightarrow> gate \<Rightarrow> gate" where
  "ask_start cfg c k record place behalf_of expires s =
     (let posters = gate_posters cfg (ca_agent k) record in
      case record of None \<Rightarrow> goes c k (Recording No_approver_found [] [] NO_APPROVER) s
      | Some r \<Rightarrow>
        if posters = [] then goes c k (Recording No_approver_found [] [] NO_APPROVER) s
        else
          let token = gate_token cfg k; who = who_may_answer cfg r behalf_of in
          goes c k
            (Posting (question_card (ca_agent k) (ca_tool k) (ca_args k) (ca_preview k) (ca_display_name k) expires)
               (map (\<lambda>g. (g, turn_ref r g place)) posters) [])
            (s\<lparr>g_waiting := register token KIND_TOOL (ca_agent k) [ca_tool k] who (g_waiting s),
               g_asked := (g_asked s)(token \<mapsto> who)\<rparr>))"

definition gate_touches :: "gate_touch \<Rightarrow> gate \<Rightarrow> gate" where
  "gate_touches t s = s\<lparr>g_touched := g_touched s @ [t]\<rparr>"

text \<open>One turn of the loop over the posters: \<open>answer\<close> is the post's id, \<open>None\<close> that posting raised.\<close>

definition post_next :: "gate_config \<Rightarrow> nat \<Rightarrow> gate_call \<Rightarrow> approval_request \<Rightarrow> (string \<times> conversation_ref) list
    \<Rightarrow> (string \<times> string) list \<Rightarrow> string option \<Rightarrow> gate \<Rightarrow> gate" where
  "post_next cfg c k crd posters copies answer s =
     (case posters of [] \<Rightarrow> s
      | (g, ref) # rest \<Rightarrow>
        let actions = approval_actions (gate_token cfg k)
              (if ca_grantable k then windows GRANT_LADDER (gc_max_grant cfg) else []);
            copies' = (case answer of Some p \<Rightarrow> copies @ [(g, p)] | None \<Rightarrow> copies);
            s1 = gate_touches (PostsQuestion g ref crd actions) s in
        if rest \<noteq> [] then goes c k (Posting crd rest copies') s1
        else if copies' = []
        then goes c k (Recording No_approver_found [] [] NO_APPROVER)
               (s1\<lparr>g_waiting := discard (gate_token cfg k) (g_waiting s1)\<rparr>)
        else goes c k (Posting crd [] copies') (gate_touches (FeedsAwaiting (ca_session k) (ca_tool k)) s1))"

definition EXPIRED_WORDS :: "string \<Rightarrow> string" where
  "EXPIRED_WORDS tool = ''nobody answered in time, so '' @ tool @ '' was refused.''"

definition ABANDONED_WORDS :: "string \<Rightarrow> string" where
  "ABANDONED_WORDS tool = tool @ '' was withdrawn before anyone answered.''"

fun verdict_text :: "verdict_kind \<Rightarrow> string" where
  "verdict_text VERDICT_ALLOWED_ONCE = ''allowed_once''"
| "verdict_text VERDICT_ALLOWED_FOR = ''allowed_for''"
| "verdict_text VERDICT_DENIED = ''denied''"
| "verdict_text VERDICT_EXPIRED = ''expired''"

text \<open>The three ends of the wait.\<close>

definition wait_timed_out :: "gate_config \<Rightarrow> nat \<Rightarrow> gate_call \<Rightarrow> approval_request \<Rightarrow> (string \<times> string) list \<Rightarrow> gate \<Rightarrow> gate" where
  "wait_timed_out cfg c k crd copies s =
     goes c k (Closing (closed crd (EXPIRED_WORDS (named (ca_tool k) (ca_display_name k))) ''expired'' 0) copies
                 (Answered \<lparr>allowed = False, grant_s = 0, approver = [], timed_out = True\<rparr>))
       (s\<lparr>g_waiting := discard (gate_token cfg k) (g_waiting s)\<rparr>)"

definition wait_cancelled :: "gate_config \<Rightarrow> nat \<Rightarrow> gate_call \<Rightarrow> approval_request \<Rightarrow> (string \<times> string) list \<Rightarrow> gate \<Rightarrow> gate" where
  "wait_cancelled cfg c k crd copies s =
     goes c k (Closing (closed crd (ABANDONED_WORDS (named (ca_tool k) (ca_display_name k))) ''withdrawn'' 0) copies Withdrawn)
       (s\<lparr>g_waiting := discard (gate_token cfg k) (g_waiting s)\<rparr>)"

definition wait_answered :: "nat \<Rightarrow> gate_call \<Rightarrow> approval_request \<Rightarrow> (string \<times> string) list \<Rightarrow> approval \<Rightarrow> gate \<Rightarrow> gate" where
  "wait_answered c k crd copies a s =
     (case verdict_of a of (v, words) \<Rightarrow>
        goes c k (Closing (closed crd (words @ '': '' @ named (ca_tool k) (ca_display_name k) @ ''.'')
                     (verdict_text v) (grant_s a)) copies (Answered a)) s)"

text \<open>What \<open>confirm\<close> does with the answer of \<open>_ask\<close>.\<close>

definition after_ask :: "nat \<Rightarrow> gate_call \<Rightarrow> ended \<Rightarrow> gate \<Rightarrow> gate" where
  "after_ask c k e s =
     (case e of
        Withdrawn \<Rightarrow> goes c k (Recording Was_abandoned [] [] CANCELLED) s
      | Answered a \<Rightarrow>
          if \<not> allowed a
          then goes c k (Recording (if timed_out a then Timed_out else Was_denied) (approver a) []
                           (if timed_out a then UNANSWERED else DENIED)) s
          else if grant_s a > 0 then goes c k (Opening a) s
          else goes c k (Recording Approved_once (approver a) [] ALLOWED) s)"

text \<open>\<open>_rewrite_all\<close>, one copy a step, whatever rewriting answers; a copy without a post id is skipped.\<close>

definition close_next :: "nat \<Rightarrow> gate_call \<Rightarrow> approval_request \<Rightarrow> (string \<times> string) list \<Rightarrow> ended \<Rightarrow> gate \<Rightarrow> gate" where
  "close_next c k crd copies e s =
     (case copies of [] \<Rightarrow> after_ask c k e s
      | (g, p) # rest \<Rightarrow>
          goes c k (Closing crd rest e) (if p = [] then s else gate_touches (RewritesQuestion g p crd) s))"

definition gate_window :: "gate_config \<Rightarrow> gate_call \<Rightarrow> approval \<Rightarrow> string \<Rightarrow> stamp \<Rightarrow> approval_grant" where
  "gate_window cfg k a gid now =
     \<lparr>ag_id = gid, ag_kind = KIND_TOOL, ag_principal = ca_agent k, ag_scope = call_scope k,
      ag_granted_by = approver a, ag_granted_at = now,
      ag_expires_at = now + min (grant_s a) (gc_max_grant cfg), ag_revoked_at = None\<rparr>"

definition open_tool_window :: "gate_config \<Rightarrow> nat \<Rightarrow> gate_call \<Rightarrow> approval \<Rightarrow> string \<Rightarrow> stamp \<Rightarrow> gate \<Rightarrow> gate" where
  "open_tool_window cfg c k a gid now s =
     (case create_grant (gate_window cfg k a gid now) (g_ledger s) of
        None \<Rightarrow> goes c k (Over FAILED) s
      | Some l \<Rightarrow> goes c k (Recording Approved_grant (approver a) gid ALLOWED) (s\<lparr>g_ledger := l\<rparr>))"

definition gate_row :: "gate_call \<Rightarrow> tool_decision \<Rightarrow> string \<Rightarrow> string \<Rightarrow> string \<Rightarrow> stamp \<Rightarrow> int \<Rightarrow> approval_audit" where
  "gate_row k d who gid aid now elapsed =
     \<lparr>au_id = aid, au_at = now, au_kind = KIND_TOOL, au_principal = ca_agent k, au_scope = call_scope k,
      au_reason = [], au_detail = arguments (case ca_args k of Some a \<Rightarrow> a | None \<Rightarrow> ''{}''),
      au_decision = tool_decision_text d, au_approver = who, au_grant_id = gid, au_request_id = ca_request k,
      au_duration_ms = elapsed\<rparr>"

definition record_end :: "nat \<Rightarrow> gate_call \<Rightarrow> tool_decision \<Rightarrow> string \<Rightarrow> string \<Rightarrow> confirm_end \<Rightarrow> string \<Rightarrow> stamp \<Rightarrow> int
    \<Rightarrow> gate \<Rightarrow> gate" where
  "record_end c k d who gid e aid now elapsed s =
     (case record_decision (gate_row k d who gid aid now elapsed) (g_ledger s) of
        None \<Rightarrow> goes c k (Over FAILED) s
      | Some l \<Rightarrow> goes c k (Over e) (s\<lparr>g_ledger := l\<rparr>))"

text \<open>
  A cancellation lands in the await the call is in.  While the question is being posted it leaves
  through the loop, past everything that would discard the token.
\<close>

definition cancel_call :: "gate_config \<Rightarrow> nat \<Rightarrow> gate_call \<Rightarrow> phase \<Rightarrow> gate \<Rightarrow> gate" where
  "cancel_call cfg c k ph s =
     (case ph of
        Looking \<Rightarrow> goes c k (Over CANCELLED) s
      | Asking \<Rightarrow> goes c k (Recording Was_abandoned [] [] CANCELLED) s
      | Posting crd posters copies \<Rightarrow> goes c k (Recording Was_abandoned [] [] CANCELLED) s
      | Waiting crd copies \<Rightarrow> wait_cancelled cfg c k crd copies s
      | Closing crd copies e \<Rightarrow> goes c k (Recording Was_abandoned [] [] CANCELLED) s
      | Opening a \<Rightarrow> goes c k (Over CANCELLED) s
      | Recording d who gid e \<Rightarrow> goes c k (Over CANCELLED) s
      | Over e \<Rightarrow> s)"

section \<open>The gate\<close>

datatype gate_event =
    Confirms nat gate_call
  | LooksUp nat stamp
  | StartsAsking nat "session_record option" "turn_place option" string string
  | PostsNext nat "string option"
  | StartsWaiting nat
  | WaitAnswered nat
  | WaitTimesOut nat
  | ClosesNext nat
  | OpensWindow nat string stamp
  | Records nat string stamp int
  | IsCancelled nat
  | ClickArrives string string string string
  | WindowRevoked string stamp

text \<open>\<open>resolve_approval\<close>: the clicker as a person.\<close>

definition click_arrives :: "gate_config \<Rightarrow> string \<Rightarrow> string \<Rightarrow> string \<Rightarrow> string \<Rightarrow> gate \<Rightarrow> gate" where
  "click_arrives cfg token value gateway user s =
     (let person = gc_person cfg gateway user in
      case resolve token value person (g_waiting s) of
        (reg, out, ans) \<Rightarrow>
          (case ans of
             None \<Rightarrow> s\<lparr>g_waiting := reg\<rparr>
           | Some a \<Rightarrow> s\<lparr>g_waiting := reg, g_answers := (g_answers s)(token \<mapsto> a),
                           g_clicked := g_clicked s @ [(token, value, person)]\<rparr>))"

text \<open>Ids drawn at random are new.\<close>

definition fresh_call :: "gate_call \<Rightarrow> gate \<Rightarrow> bool" where
  "fresh_call k s \<longleftrightarrow> (\<forall>c. case g_calls s c of None \<Rightarrow> True
     | Some (k', _) \<Rightarrow> ca_random k' \<noteq> ca_random k \<and> ca_request k' \<noteq> ca_request k)"

fun gate_do :: "gate_config \<Rightarrow> gate_event \<Rightarrow> gate \<Rightarrow> gate" where
  "gate_do cfg (Confirms c k) s = (if g_calls s c = None then goes c k Looking s else s)"
| "gate_do cfg (LooksUp c now) s =
     (case g_calls s c of Some (k, Looking) \<Rightarrow> look_up c k now s | _ \<Rightarrow> s)"
| "gate_do cfg (StartsAsking c record place behalf_of expires) s =
     (case g_calls s c of Some (k, Asking) \<Rightarrow> ask_start cfg c k record place behalf_of expires s | _ \<Rightarrow> s)"
| "gate_do cfg (PostsNext c answer) s =
     (case g_calls s c of Some (k, Posting crd posters copies) \<Rightarrow> post_next cfg c k crd posters copies answer s | _ \<Rightarrow> s)"
| "gate_do cfg (StartsWaiting c) s =
     (case g_calls s c of Some (k, Posting crd [] copies) \<Rightarrow> goes c k (Waiting crd copies) s | _ \<Rightarrow> s)"
| "gate_do cfg (WaitAnswered c) s =
     (case g_calls s c of Some (k, Waiting crd copies) \<Rightarrow>
        (case g_answers s (gate_token cfg k) of Some a \<Rightarrow> wait_answered c k crd copies a s | None \<Rightarrow> s) | _ \<Rightarrow> s)"
| "gate_do cfg (WaitTimesOut c) s =
     (case g_calls s c of Some (k, Waiting crd copies) \<Rightarrow>
        (if g_answers s (gate_token cfg k) = None then wait_timed_out cfg c k crd copies s else s) | _ \<Rightarrow> s)"
| "gate_do cfg (ClosesNext c) s =
     (case g_calls s c of Some (k, Closing crd copies e) \<Rightarrow> close_next c k crd copies e s | _ \<Rightarrow> s)"
| "gate_do cfg (OpensWindow c gid now) s =
     (case g_calls s c of Some (k, Opening a) \<Rightarrow> open_tool_window cfg c k a gid now s | _ \<Rightarrow> s)"
| "gate_do cfg (Records c aid now elapsed) s =
     (case g_calls s c of Some (k, Recording d who gid e) \<Rightarrow> record_end c k d who gid e aid now elapsed s | _ \<Rightarrow> s)"
| "gate_do cfg (IsCancelled c) s =
     (case g_calls s c of Some (k, ph) \<Rightarrow> cancel_call cfg c k ph s | None \<Rightarrow> s)"
| "gate_do cfg (ClickArrives token value gateway user) s = click_arrives cfg token value gateway user s"
| "gate_do cfg (WindowRevoked gid now) s = s\<lparr>g_ledger := fst (revoke_grant gid now (g_ledger s))\<rparr>"

inductive gate_step :: "gate_config \<Rightarrow> gate \<Rightarrow> gate \<Rightarrow> bool" for cfg where
  confirm: "fresh_call k s \<Longrightarrow> gate_step cfg s (gate_do cfg (Confirms c k) s)"
| other: "(\<And>c k. e \<noteq> Confirms c k) \<Longrightarrow> gate_step cfg s (gate_do cfg e s)"

end
