(* ===== verification/ToolGateProps.thy ===== *)
theory ToolGateProps
  imports ToolGate
begin

text \<open>
  What the question in front of a tool call guarantees: nothing runs that a person asked about it
  did not allow, on this call or for a window of this conversation; every verdict is in the ledger
  once; and where a question stays open although its call is over.
\<close>

section \<open>What a call rests on\<close>

definition call_ids :: "gate \<Rightarrow> nat \<Rightarrow> gate_call option" where
  "call_ids s c = map_option fst (g_calls s c)"

text \<open>Somebody the question of \<open>k\<close> was put to said yes, with the answer \<open>a\<close>.\<close>

definition said_yes :: "gate_config \<Rightarrow> gate \<Rightarrow> gate_call \<Rightarrow> approval \<Rightarrow> bool" where
  "said_yes cfg s k a \<longleftrightarrow> allowed a \<and> (\<exists>v p. (gate_token cfg k, v, p) \<in> set (g_clicked s) \<and> a = decide v p)"

text \<open>The window the answer \<open>a\<close> to the question of \<open>k\<close> opens.\<close>

definition window_of :: "gate_config \<Rightarrow> gate_call \<Rightarrow> approval \<Rightarrow> approval_grant \<Rightarrow> bool" where
  "window_of cfg k a g \<longleftrightarrow> ag_kind g = KIND_TOOL \<and> ag_principal g = ca_agent k \<and> ag_scope g = call_scope k
     \<and> ag_granted_by g = approver a \<and> ag_expires_at g = ag_granted_at g + min (grant_s a) (gc_max_grant cfg)"

definition window_backed :: "gate_config \<Rightarrow> gate \<Rightarrow> approval_grant \<Rightarrow> bool" where
  "window_backed cfg s g \<longleftrightarrow> (\<exists>c k a. call_ids s c = Some k \<and> said_yes cfg s k a \<and> 0 < grant_s a \<and> window_of cfg k a g)"

text \<open>The call may run: a yes to its own question, or a window in the ledger that a yes to another
  call's question about the same tool in the same conversation opened.\<close>

definition backed :: "gate_config \<Rightarrow> gate \<Rightarrow> gate_call \<Rightarrow> bool" where
  "backed cfg s k \<longleftrightarrow> (\<exists>a. said_yes cfg s k a)
     \<or> ca_grantable k \<and> (\<exists>g \<in> set (grants (g_ledger s)). ag_principal g = ca_agent k \<and> ag_scope g = call_scope k
          \<and> window_backed cfg s g)"

fun phase_backed :: "gate_config \<Rightarrow> gate \<Rightarrow> gate_call \<Rightarrow> phase \<Rightarrow> bool" where
  "phase_backed cfg s k (Closing q copies (Answered a)) = (allowed a \<longrightarrow> said_yes cfg s k a)"
| "phase_backed cfg s k (Opening a) = (said_yes cfg s k a \<and> 0 < grant_s a)"
| "phase_backed cfg s k (Recording d who gid e) = (e = ALLOWED \<longrightarrow> backed cfg s k)"
| "phase_backed cfg s k (Over e) = (e = ALLOWED \<longrightarrow> backed cfg s k)"
| "phase_backed cfg s k _ = True"

fun before_asking :: "phase \<Rightarrow> bool" where
  "before_asking Looking = True"
| "before_asking Asking = True"
| "before_asking _ = False"

text \<open>A question of a call in such a phase may still be found by a click.\<close>

fun may_be_open :: "phase \<Rightarrow> bool" where
  "may_be_open (Posting q ps cs) = True"
| "may_be_open (Waiting q cs) = True"
| "may_be_open (Recording d who gid e) = (e = CANCELLED)"
| "may_be_open (Over e) = (e = CANCELLED \<or> e = FAILED)"
| "may_be_open _ = False"

definition questions_ok :: "gate \<Rightarrow> bool" where
  "questions_ok s \<longleftrightarrow>
     (\<forall>tok e. g_waiting s tok = Some e \<longrightarrow> g_asked s tok = Some (p_approvers e))
   \<and> (\<forall>tok a. g_answers s tok = Some a \<longrightarrow>
        g_waiting s tok = None \<and> (\<exists>v p. (tok, v, p) \<in> set (g_clicked s) \<and> a = decide v p))
   \<and> (\<forall>tok v p. (tok, v, p) \<in> set (g_clicked s) \<longrightarrow> (\<exists>who. g_asked s tok = Some who \<and> (who = {} \<or> p \<in> who)))"

definition calls_ok :: "gate_config \<Rightarrow> gate \<Rightarrow> bool" where
  "calls_ok cfg s \<longleftrightarrow>
     (\<forall>c k ph. g_calls s c = Some (k, ph) \<longrightarrow>
        phase_backed cfg s k ph \<and> (before_asking ph \<longrightarrow> g_asked s (gate_token cfg k) = None))
   \<and> (\<forall>c k c' k'. call_ids s c = Some k \<longrightarrow> call_ids s c' = Some k' \<longrightarrow> c \<noteq> c' \<longrightarrow> ca_random k \<noteq> ca_random k')
   \<and> (\<forall>tok. g_asked s tok \<noteq> None \<longrightarrow> (\<exists>c k. call_ids s c = Some k \<and> gate_token cfg k = tok))
   \<and> (\<forall>tok. g_waiting s tok \<noteq> None \<longrightarrow>
        (\<exists>c k ph. g_calls s c = Some (k, ph) \<and> gate_token cfg k = tok \<and> may_be_open ph))"

definition windows_ok :: "gate_config \<Rightarrow> gate \<Rightarrow> bool" where
  "windows_ok cfg s \<longleftrightarrow> (\<forall>g \<in> set (grants (g_ledger s)). window_backed cfg s g)"

definition gate_ok :: "gate_config \<Rightarrow> gate \<Rightarrow> bool" where
  "gate_ok cfg s \<longleftrightarrow> questions_ok s \<and> calls_ok cfg s \<and> windows_ok cfg s"

lemma gate_okD:
  assumes "gate_ok cfg s"
  shows "g_waiting s tok = Some e \<Longrightarrow> g_asked s tok = Some (p_approvers e)"
    and "g_answers s tok = Some a \<Longrightarrow> g_waiting s tok = None"
    and "g_answers s tok = Some a \<Longrightarrow> \<exists>v p. (tok, v, p) \<in> set (g_clicked s) \<and> a = decide v p"
    and "(tok, v, p) \<in> set (g_clicked s) \<Longrightarrow> \<exists>who. g_asked s tok = Some who \<and> (who = {} \<or> p \<in> who)"
    and "g_calls s c = Some (k, ph) \<Longrightarrow> phase_backed cfg s k ph"
    and "g_calls s c = Some (k, ph) \<Longrightarrow> before_asking ph \<Longrightarrow> g_asked s (gate_token cfg k) = None"
    and "call_ids s c = Some k \<Longrightarrow> call_ids s c' = Some k' \<Longrightarrow> c \<noteq> c' \<Longrightarrow> ca_random k \<noteq> ca_random k'"
    and "g_asked s tok \<noteq> None \<Longrightarrow> \<exists>c k. call_ids s c = Some k \<and> gate_token cfg k = tok"
    and "g_waiting s tok \<noteq> None
      \<Longrightarrow> \<exists>c k ph. g_calls s c = Some (k, ph) \<and> gate_token cfg k = tok \<and> may_be_open ph"
    and "g \<in> set (grants (g_ledger s)) \<Longrightarrow> window_backed cfg s g"
  using assms unfolding gate_ok_def questions_ok_def calls_ok_def windows_ok_def by blast+

lemma token_eq [simp]: "gate_token cfg k = gate_token cfg k' \<longleftrightarrow> ca_random k = ca_random k'"
  by (simp add: gate_token_def tag_token_def)

section \<open>What grows\<close>

lemma said_yes_mono: "said_yes cfg s k a \<Longrightarrow> set (g_clicked s) \<subseteq> set (g_clicked s') \<Longrightarrow> said_yes cfg s' k a"
  by (auto simp: said_yes_def)

lemma map_leD: "m \<subseteq>\<^sub>m m' \<Longrightarrow> m x = Some y \<Longrightarrow> m' x = Some y"
  by (force simp: map_le_def)

text \<open>A window stays in the ledger; it may be revoked.\<close>

definition windows_stay :: "gate \<Rightarrow> gate \<Rightarrow> bool" where
  "windows_stay s s' \<longleftrightarrow> (\<forall>g \<in> set (grants (g_ledger s)). \<exists>x. g\<lparr>ag_revoked_at := x\<rparr> \<in> set (grants (g_ledger s')))"

lemma windows_stay_subset: "set (grants (g_ledger s)) \<subseteq> set (grants (g_ledger s')) \<Longrightarrow> windows_stay s s'"
proof -
  have "g\<lparr>ag_revoked_at := ag_revoked_at g\<rparr> = g" for g :: approval_grant by simp
  then show "set (grants (g_ledger s)) \<subseteq> set (grants (g_ledger s')) \<Longrightarrow> windows_stay s s'"
    unfolding windows_stay_def by (metis subsetD)
qed

lemma window_backed_revoked [simp]: "window_backed cfg s (g\<lparr>ag_revoked_at := x\<rparr>) = window_backed cfg s g"
  by (simp add: window_backed_def window_of_def)

lemma window_backed_mono:
  assumes "window_backed cfg s g" and "call_ids s \<subseteq>\<^sub>m call_ids s'" and "set (g_clicked s) \<subseteq> set (g_clicked s')"
  shows "window_backed cfg s' g"
  using assms said_yes_mono [OF _ assms(3)] unfolding window_backed_def by (metis map_leD)

lemma backed_mono:
  assumes b: "backed cfg s k" and le: "call_ids s \<subseteq>\<^sub>m call_ids s'" and cl: "set (g_clicked s) \<subseteq> set (g_clicked s')"
    and stay: "windows_stay s s'"
  shows "backed cfg s' k"
proof (cases "\<exists>a. said_yes cfg s k a")
  case True
  then show ?thesis using said_yes_mono [OF _ cl] unfolding backed_def by blast
next
  case False
  then obtain g where g: "ca_grantable k" "g \<in> set (grants (g_ledger s))" "ag_principal g = ca_agent k"
      "ag_scope g = call_scope k" "window_backed cfg s g" using b unfolding backed_def by blast
  then obtain x where x: "g\<lparr>ag_revoked_at := x\<rparr> \<in> set (grants (g_ledger s'))" using stay unfolding windows_stay_def by blast
  have "window_backed cfg s' (g\<lparr>ag_revoked_at := x\<rparr>)" using window_backed_mono [OF g(5) le cl] by simp
  then show ?thesis using g(1,3,4) x unfolding backed_def by (intro disjI2 conjI bexI [OF _ x]) simp_all
qed

lemma phase_backed_mono:
  assumes "phase_backed cfg s k ph" and "call_ids s \<subseteq>\<^sub>m call_ids s'" and "set (g_clicked s) \<subseteq> set (g_clicked s')"
    and "windows_stay s s'"
  shows "phase_backed cfg s' k ph"
  using assms(1) backed_mono [OF _ assms(2-4)] said_yes_mono [OF _ assms(3)]
  by (cases "(cfg, s, k, ph)" rule: phase_backed.cases) auto

lemma goes_simps [simp]:
  "g_waiting (goes c k ph s) = g_waiting s" "g_answers (goes c k ph s) = g_answers s"
  "g_ledger (goes c k ph s) = g_ledger s" "g_asked (goes c k ph s) = g_asked s"
  "g_clicked (goes c k ph s) = g_clicked s" "g_calls (goes c k ph s) = (g_calls s)(c := Some (k, ph))"
  by (simp_all add: goes_def)

lemma ids_goes [simp]: "call_ids s c = Some k \<Longrightarrow> call_ids (goes c k ph s) = call_ids s"
  by (auto simp: call_ids_def)

lemma ids_of: "g_calls s c = Some (k, ph) \<Longrightarrow> call_ids s c = Some k"
  by (simp add: call_ids_def)

section \<open>One step\<close>

text \<open>
  The general step of a call: the registry of questions only loses entries, the ledger only gets
  windows that are backed, and the new phase is.
\<close>

lemma step_keeps_ok:
  assumes ok: "gate_ok cfg s" and at: "g_calls s c = Some (k, ph0)"
    and same: "g_calls s' = g_calls s" "g_answers s' = g_answers s" "g_asked s' = g_asked s" "g_clicked s' = g_clicked s"
    and fewer: "g_waiting s' \<subseteq>\<^sub>m g_waiting s"
    and backing: "\<And>g. g \<in> set (grants (g_ledger s')) \<Longrightarrow> window_backed cfg s g"
    and kept: "set (grants (g_ledger s)) \<subseteq> set (grants (g_ledger s'))"
    and ph: "phase_backed cfg s k ph" "before_asking ph \<Longrightarrow> before_asking ph0"
    and open0: "may_be_open ph0 \<Longrightarrow> may_be_open ph \<or> g_waiting s' (gate_token cfg k) = None"
  shows "gate_ok cfg (goes c k ph s')"
proof -
  let ?s = "goes c k ph s'"
  have ids: "call_ids ?s = call_ids s" using at same(1) by (auto simp: call_ids_def)
  then have le: "call_ids s \<subseteq>\<^sub>m call_ids ?s" by simp
  have cl: "set (g_clicked s) \<subseteq> set (g_clicked ?s)" by (simp add: same)
  have stay: "windows_stay s ?s" using kept by (intro windows_stay_subset) simp
  have wait: "g_waiting s tok = Some e" if "g_waiting s' tok = Some e" for tok e
    using that fewer by (auto simp: map_le_def dom_def)
  have none: "g_waiting s' tok = None" if "g_waiting s tok = None" for tok
    using wait [of tok] that by (cases "g_waiting s' tok") auto
  have "questions_ok ?s"
    unfolding questions_ok_def goes_simps same
  proof (intro conjI allI impI)
    fix tok e assume "g_waiting s' tok = Some e"
    then show "g_asked s tok = Some (p_approvers e)" by (intro gate_okD(1) [OF ok] wait)
  next
    fix tok a assume a: "g_answers s tok = Some a"
    then show "g_waiting s' tok = None" by (intro none gate_okD(2) [OF ok])
    show "\<exists>v p. (tok, v, p) \<in> set (g_clicked s) \<and> a = decide v p" by (rule gate_okD(3) [OF ok a])
  next
    fix tok v p assume "(tok, v, p) \<in> set (g_clicked s)"
    then show "\<exists>who. g_asked s tok = Some who \<and> (who = {} \<or> p \<in> who)" by (rule gate_okD(4) [OF ok])
  qed
  moreover have "calls_ok cfg ?s"
  proof -
    have 1: "phase_backed cfg ?s k1 ph1 \<and> (before_asking ph1 \<longrightarrow> g_asked ?s (gate_token cfg k1) = None)"
      if "g_calls ?s c1 = Some (k1, ph1)" for c1 k1 ph1
    proof (cases "c1 = c")
      case True
      then have "k1 = k" "ph1 = ph" using that by auto
      then show ?thesis using phase_backed_mono [OF ph(1) le cl stay] gate_okD(6) [OF ok at] ph(2) same by simp
    next
      case False
      then have "g_calls s c1 = Some (k1, ph1)" using that same by simp
      then show ?thesis using phase_backed_mono [OF gate_okD(5) [OF ok] le cl stay] gate_okD(6) [OF ok] same by simp
    qed
    have 2: "\<exists>c1 k1 ph1. g_calls ?s c1 = Some (k1, ph1) \<and> gate_token cfg k1 = tok \<and> may_be_open ph1"
      if w: "g_waiting ?s tok \<noteq> None" for tok
    proof -
      obtain e where e: "g_waiting s' tok = Some e" using w by auto
      then obtain c1 k1 ph1 where c1: "g_calls s c1 = Some (k1, ph1)" "gate_token cfg k1 = tok" "may_be_open ph1"
        using gate_okD(9) [OF ok, of tok] wait by fastforce
      show ?thesis
      proof (cases "c1 = c")
        case True
        then have "k1 = k" "ph1 = ph0" using c1(1) at by auto
        then have "may_be_open ph" using open0 c1 e by auto
        then show ?thesis using \<open>k1 = k\<close> c1(2) by (intro exI [of _ c] exI [of _ k]) simp
      next
        case False
        then show ?thesis using c1 same by (intro exI [of _ c1] exI [of _ k1] exI [of _ ph1]) simp
      qed
    qed
    show ?thesis unfolding calls_ok_def ids
      using 1 2 gate_okD(7) [OF ok] gate_okD(8) [OF ok] by (simp add: same)
  qed
  moreover have "windows_ok cfg ?s"
    unfolding windows_ok_def using backing window_backed_mono [OF _ le cl] by simp
  ultimately show ?thesis by (simp add: gate_ok_def)
qed

lemma live_window_backs:
  assumes ok: "gate_ok cfg s" and g: "live_grant KIND_TOOL (ca_agent k) (call_scope k) now (g_ledger s) = Some g"
    and "ca_grantable k"
  shows "backed cfg s k"
proof -
  have m: "g \<in> set (grants (g_ledger s))" "ag_principal g = ca_agent k" "ag_scope g = call_scope k"
    using live_grant_Some [OF g] by simp_all
  from gate_okD(10) [OF ok m(1)] show ?thesis using assms(3) m unfolding backed_def by blast
qed

lemma map_le_discard: "discard tok m \<subseteq>\<^sub>m m"
  by (simp add: discard_def map_le_def)

lemma look_up_ok:
  assumes ok: "gate_ok cfg s" and at: "g_calls s c = Some (k, Looking)"
  shows "gate_ok cfg (look_up c k now s)"
proof (cases "if ca_grantable k then live_grant KIND_TOOL (ca_agent k) (call_scope k) now (g_ledger s) else None")
  case None
  then show ?thesis unfolding look_up_def
    using step_keeps_ok [OF ok at refl refl refl refl _ gate_okD(10) [OF ok], of Asking] by simp
next
  case (Some g)
  then have "ca_grantable k" "live_grant KIND_TOOL (ca_agent k) (call_scope k) now (g_ledger s) = Some g"
    by (simp_all split: if_splits)
  then have "backed cfg s k" using live_window_backs [OF ok] by blast
  then show ?thesis unfolding look_up_def Some option.case
    using step_keeps_ok [OF ok at refl refl refl refl _ gate_okD(10) [OF ok], of "Recording Reused_grant [] (ag_id g) ALLOWED"]
    by simp
qed

lemma ask_start_ok:
  assumes ok: "gate_ok cfg s" and at: "g_calls s c = Some (k, Asking)"
  shows "gate_ok cfg (ask_start cfg c k record place behalf expires s)"
proof -
  let ?none = "goes c k (Recording No_approver_found [] [] NO_APPROVER) s"
  have none: "gate_ok cfg ?none"
    by (rule step_keeps_ok [OF ok at refl refl refl refl _ gate_okD(10) [OF ok]]) simp_all
  have unasked: "g_asked s (gate_token cfg k) = None" using gate_okD(6) [OF ok at] by simp
  have "gate_ok cfg (goes c k (Posting q ps []) (s\<lparr>g_waiting := register (gate_token cfg k) KIND_TOOL (ca_agent k) sc who (g_waiting s),
      g_asked := (g_asked s)(gate_token cfg k \<mapsto> who)\<rparr>))" (is "gate_ok cfg ?s") for q ps sc who
  proof -
    have ids: "call_ids ?s = call_ids s" using at by (auto simp: call_ids_def)
    then have le: "call_ids s \<subseteq>\<^sub>m call_ids ?s" by simp
    have cl: "set (g_clicked s) \<subseteq> set (g_clicked ?s)" by simp
    have stay: "windows_stay s ?s" by (rule windows_stay_subset) simp
    have unclicked: "(gate_token cfg k, v, p) \<notin> set (g_clicked s)" for v p
      using gate_okD(4) [OF ok] unasked by fastforce
    then have unanswered: "g_answers s (gate_token cfg k) = None"
      using gate_okD(3) [OF ok, of "gate_token cfg k"] by (cases "g_answers s (gate_token cfg k)") auto
    have "questions_ok ?s"
      unfolding questions_ok_def
    proof (intro conjI allI impI)
      fix tok e assume "g_waiting ?s tok = Some e"
      then show "g_asked ?s tok = Some (p_approvers e)"
        using gate_okD(1) [OF ok, of tok e] by (auto simp: register_def split: if_splits)
    next
      fix tok a assume a: "g_answers ?s tok = Some a"
      then have "g_answers s tok = Some a" "tok \<noteq> gate_token cfg k" using unanswered by auto
      then show "g_waiting ?s tok = None" "\<exists>v p. (tok, v, p) \<in> set (g_clicked ?s) \<and> a = decide v p"
        using gate_okD(2,3) [OF ok] by (simp_all add: register_def)
    next
      fix tok v p assume "(tok, v, p) \<in> set (g_clicked ?s)"
      then have "(tok, v, p) \<in> set (g_clicked s)" "tok \<noteq> gate_token cfg k" using unclicked by auto
      then show "\<exists>who. g_asked ?s tok = Some who \<and> (who = {} \<or> p \<in> who)" using gate_okD(4) [OF ok] by simp
    qed
    moreover have "calls_ok cfg ?s"
    proof -
      have 1: "phase_backed cfg ?s k1 ph1 \<and> (before_asking ph1 \<longrightarrow> g_asked ?s (gate_token cfg k1) = None)"
        if c1: "g_calls ?s c1 = Some (k1, ph1)" for c1 k1 ph1
      proof (cases "c1 = c")
        case False
        then have c1: "g_calls s c1 = Some (k1, ph1)" using c1 by simp
        have "ca_random k1 \<noteq> ca_random k" using gate_okD(7) [OF ok ids_of [OF c1] ids_of [OF at] False] .
        then show ?thesis using phase_backed_mono [OF gate_okD(5) [OF ok c1] le cl stay] gate_okD(6) [OF ok c1] by simp
      qed (use c1 in auto)
      have 2: "\<exists>c1 k1 ph1. g_calls ?s c1 = Some (k1, ph1) \<and> gate_token cfg k1 = tok \<and> may_be_open ph1"
        if w: "g_waiting ?s tok \<noteq> None" for tok
      proof (cases "tok = gate_token cfg k")
        case True
        then show ?thesis by (intro exI [of _ c] exI [of _ k]) simp
      next
        case False
        then have "g_waiting s tok \<noteq> None" using w by (simp add: register_def)
        then obtain c1 k1 ph1 where c1: "g_calls s c1 = Some (k1, ph1)" "gate_token cfg k1 = tok" "may_be_open ph1"
          using gate_okD(9) [OF ok] by blast
        then have "c1 \<noteq> c" using at by auto
        then show ?thesis using c1 by (intro exI [of _ c1] exI [of _ k1] exI [of _ ph1]) simp
      qed
      have 3: "\<exists>c1 k1. call_ids s c1 = Some k1 \<and> gate_token cfg k1 = tok" if "g_asked ?s tok \<noteq> None" for tok
        using that gate_okD(8) [OF ok, of tok] ids_of [OF at] by (cases "tok = gate_token cfg k") auto
      show ?thesis unfolding calls_ok_def ids using 1 2 3 gate_okD(7) [OF ok] by simp
    qed
    moreover have "windows_ok cfg ?s"
      unfolding windows_ok_def using gate_okD(10) [OF ok] window_backed_mono [OF _ le cl] by simp
    ultimately show ?thesis by (simp add: gate_ok_def)
  qed
  then show ?thesis using none by (simp add: ask_start_def Let_def split: option.split)
qed

lemma goes_touches [simp]:
  "g_waiting (gate_touches t s) = g_waiting s" "g_answers (gate_touches t s) = g_answers s"
  "g_ledger (gate_touches t s) = g_ledger s" "g_asked (gate_touches t s) = g_asked s"
  "g_clicked (gate_touches t s) = g_clicked s" "g_calls (gate_touches t s) = g_calls s"
  by (simp_all add: gate_touches_def)

lemma post_next_ok:
  assumes ok: "gate_ok cfg s" and at: "g_calls s c = Some (k, Posting q ps cs)"
  shows "gate_ok cfg (post_next cfg c k q ps cs answer s)"
proof (cases ps)
  case (Cons p rest)
  obtain g ref where p: "p = (g, ref)" by (cases p)
  define cs' where "cs' = (case answer of Some i \<Rightarrow> cs @ [(g, i)] | None \<Rightarrow> cs)"
  define s1 where "s1 = gate_touches (PostsQuestion g ref q (approval_actions (gate_token cfg k)
      (if ca_grantable k then windows GRANT_LADDER (gc_max_grant cfg) else []))) s"
  have e: "post_next cfg c k q ps cs answer s =
     (if rest \<noteq> [] then goes c k (Posting q rest cs') s1
      else if cs' = []
      then goes c k (Recording No_approver_found [] [] NO_APPROVER)
               (s1\<lparr>g_waiting := discard (gate_token cfg k) (g_waiting s1)\<rparr>)
      else goes c k (Posting q [] cs') (gate_touches (FeedsAwaiting (ca_session k) (ca_tool k)) s1))"
    by (simp add: post_next_def Cons p cs'_def s1_def Let_def)
  have "gate_ok cfg (goes c k (Posting q rest cs') s1)"
    by (rule step_keeps_ok [OF ok at]) (simp_all add: s1_def gate_okD(10) [OF ok])
  moreover have "gate_ok cfg (goes c k (Recording No_approver_found [] [] NO_APPROVER)
               (s1\<lparr>g_waiting := discard (gate_token cfg k) (g_waiting s1)\<rparr>))"
    by (rule step_keeps_ok [OF ok at]) (simp_all add: s1_def gate_okD(10) [OF ok] map_le_discard, simp add: discard_def)
  moreover have "gate_ok cfg (goes c k (Posting q [] cs') (gate_touches (FeedsAwaiting (ca_session k) (ca_tool k)) s1))"
    by (rule step_keeps_ok [OF ok at]) (simp_all add: s1_def gate_okD(10) [OF ok])
  ultimately show ?thesis unfolding e by simp
qed (use ok in \<open>simp add: post_next_def\<close>)

lemma wait_ends_ok:
  assumes ok: "gate_ok cfg s" and at: "g_calls s c = Some (k, Waiting q cs)"
  shows "gate_ok cfg (wait_timed_out cfg c k q cs s)" and "gate_ok cfg (wait_cancelled cfg c k q cs s)"
    and "g_answers s (gate_token cfg k) = Some a \<Longrightarrow> gate_ok cfg (wait_answered c k q cs a s)"
proof -
  show "gate_ok cfg (wait_timed_out cfg c k q cs s)" unfolding wait_timed_out_def
    by (rule step_keeps_ok [OF ok at]) (simp_all add: gate_okD(10) [OF ok] map_le_discard, simp add: discard_def)
  show "gate_ok cfg (wait_cancelled cfg c k q cs s)" unfolding wait_cancelled_def
    by (rule step_keeps_ok [OF ok at]) (simp_all add: gate_okD(10) [OF ok] map_le_discard, simp add: discard_def)
  assume a: "g_answers s (gate_token cfg k) = Some a"
  have y: "allowed a \<longrightarrow> said_yes cfg s k a" using gate_okD(3) [OF ok a] by (auto simp: said_yes_def)
  obtain v w where "verdict_of a = (v, w)" by fastforce
  then show "gate_ok cfg (wait_answered c k q cs a s)"
    unfolding wait_answered_def using y gate_okD(2) [OF ok a]
    by simp (rule step_keeps_ok [OF ok at], simp_all add: gate_okD(10) [OF ok])
qed

lemma close_next_ok:
  assumes ok: "gate_ok cfg s" and at: "g_calls s c = Some (k, Closing q cs e)"
  shows "gate_ok cfg (close_next c k q cs e s)"
proof (cases cs)
  case Nil
  have pb: "phase_backed cfg s k (Closing q cs e)" by (rule gate_okD(5) [OF ok at])
  show ?thesis
  proof (cases e)
    case (Answered a)
    then have "allowed a \<longrightarrow> said_yes cfg s k a" using pb by simp
    then have "allowed a \<longrightarrow> backed cfg s k" by (auto simp: backed_def)
    then show ?thesis using \<open>allowed a \<longrightarrow> said_yes cfg s k a\<close>
      by (auto simp: close_next_def Nil after_ask_def Answered gate_okD(10) [OF ok] intro!: step_keeps_ok [OF ok at])
  next
    case Withdrawn
    then show ?thesis
      by (auto simp: close_next_def Nil after_ask_def gate_okD(10) [OF ok] intro!: step_keeps_ok [OF ok at])
  qed
next
  case (Cons p rest)
  obtain g i where p: "p = (g, i)" by (cases p)
  have pb: "phase_backed cfg s k (Closing q rest e)" using gate_okD(5) [OF ok at] by (cases e) simp_all
  show ?thesis unfolding close_next_def Cons p list.case prod.case
    by (rule step_keeps_ok [OF ok at]) (auto simp: gate_okD(10) [OF ok] pb split: if_splits)
qed

lemma open_window_ok:
  assumes ok: "gate_ok cfg s" and at: "g_calls s c = Some (k, Opening a)"
  shows "gate_ok cfg (open_tool_window cfg c k a gid now s)"
proof (cases "create_grant (gate_window cfg k a gid now) (g_ledger s)")
  case None
  then show ?thesis unfolding open_tool_window_def None option.case
    by (auto simp: gate_okD(10) [OF ok] intro!: step_keeps_ok [OF ok at])
next
  case (Some l)
  have y: "said_yes cfg s k a" "0 < grant_s a" using gate_okD(5) [OF ok at] by simp_all
  have l: "grants l = grants (g_ledger s) @ [gate_window cfg k a gid now]"
    using Some by (auto simp: create_grant_def split: if_splits)
  have w: "window_backed cfg s (gate_window cfg k a gid now)"
    using y ids_of [OF at] unfolding window_backed_def gate_window_def
    by (intro exI [of _ c] exI [of _ k] exI [of _ a]) (simp add: window_of_def)
  have "backed cfg s k" using y(1) by (auto simp: backed_def)
  then show ?thesis unfolding open_tool_window_def Some option.case
    using w by (auto simp: l gate_okD(10) [OF ok] intro!: step_keeps_ok [OF ok at])
qed

lemma record_end_ok:
  assumes ok: "gate_ok cfg s" and at: "g_calls s c = Some (k, Recording d who gid e)"
  shows "gate_ok cfg (record_end c k d who gid e aid now elapsed s)"
proof (cases "record_decision (gate_row k d who gid aid now elapsed) (g_ledger s)")
  case None
  then show ?thesis unfolding record_end_def None option.case
    by (auto simp: gate_okD(10) [OF ok] intro!: step_keeps_ok [OF ok at])
next
  case (Some l)
  then have "grants l = grants (g_ledger s)" by (auto simp: record_decision_def split: if_splits)
  moreover have "phase_backed cfg s k (Over e)" using gate_okD(5) [OF ok at] by simp
  ultimately show ?thesis unfolding record_end_def Some option.case
    by (auto simp: gate_okD(10) [OF ok] intro!: step_keeps_ok [OF ok at])
qed

lemma cancel_ok:
  assumes ok: "gate_ok cfg s" and at: "g_calls s c = Some (k, ph)"
  shows "gate_ok cfg (cancel_call cfg c k ph s)"
proof (cases ph)
  case (Waiting q cs)
  then show ?thesis using wait_ends_ok(2) [OF ok] at by (simp add: cancel_call_def)
next
  case (Over e)
  then show ?thesis using ok by (simp add: cancel_call_def)
qed (use at in \<open>auto simp: cancel_call_def gate_okD(10) [OF ok] intro!: step_keeps_ok [OF ok]\<close>)

lemma confirm_ok:
  assumes ok: "gate_ok cfg s" and new: "g_calls s c = None" and fresh: "fresh_call k s"
  shows "gate_ok cfg (goes c k Looking s)"
proof -
  let ?s = "goes c k Looking s"
  have ids: "call_ids ?s = (call_ids s)(c \<mapsto> k)" by (auto simp: call_ids_def)
  have "call_ids s c = None" using new by (simp add: call_ids_def)
  then have le: "call_ids s \<subseteq>\<^sub>m call_ids ?s" by (auto simp: ids map_le_def)
  have cl: "set (g_clicked s) \<subseteq> set (g_clicked ?s)" by simp
  have stay: "windows_stay s ?s" by (rule windows_stay_subset) simp
  have other: "ca_random k' \<noteq> ca_random k" if "call_ids s c' = Some k'" for c' k'
    using fresh [unfolded fresh_call_def, rule_format, of c'] that by (auto simp: call_ids_def)
  have unasked: "g_asked s (gate_token cfg k) = None"
    using gate_okD(8) [OF ok, of "gate_token cfg k"] other by fastforce
  have "questions_ok ?s" using ok by (simp add: gate_ok_def questions_ok_def)
  moreover have "calls_ok cfg ?s"
  proof -
    have 1: "phase_backed cfg ?s k1 ph1 \<and> (before_asking ph1 \<longrightarrow> g_asked ?s (gate_token cfg k1) = None)"
      if "g_calls ?s c1 = Some (k1, ph1)" for c1 k1 ph1
      using that unasked phase_backed_mono [OF gate_okD(5) [OF ok] le cl stay] gate_okD(6) [OF ok]
      by (cases "c1 = c") auto
    have 2: "\<exists>c1 k1 ph1. g_calls ?s c1 = Some (k1, ph1) \<and> gate_token cfg k1 = tok \<and> may_be_open ph1"
      if w: "g_waiting ?s tok \<noteq> None" for tok
    proof -
      have "g_waiting s tok \<noteq> None" using w by simp
      then obtain c1 k1 ph1 where c1: "g_calls s c1 = Some (k1, ph1)" "gate_token cfg k1 = tok" "may_be_open ph1"
        using gate_okD(9) [OF ok] by blast
      then have "c1 \<noteq> c" using new by auto
      then show ?thesis using c1 by (intro exI [of _ c1] exI [of _ k1] exI [of _ ph1]) simp
    qed
    have 3: "\<exists>c1 k1. call_ids ?s c1 = Some k1 \<and> gate_token cfg k1 = tok" if "g_asked ?s tok \<noteq> None" for tok
    proof -
      obtain c1 k1 where "call_ids s c1 = Some k1" "gate_token cfg k1 = tok"
        using gate_okD(8) [OF ok, of tok] \<open>g_asked ?s tok \<noteq> None\<close> by auto
      then show ?thesis using map_leD [OF le] by blast
    qed
    have 4: "ca_random k1 \<noteq> ca_random k2"
      if "call_ids ?s c1 = Some k1" "call_ids ?s c2 = Some k2" "c1 \<noteq> c2" for c1 c2 k1 k2
      using that gate_okD(7) [OF ok, of c1 k1 c2 k2] other [of c1 k1] other [of c2 k2] unfolding ids
      by (auto split: if_splits)
    show ?thesis unfolding calls_ok_def using 1 2 3 4 by blast
  qed
  moreover have "windows_ok cfg ?s"
    unfolding windows_ok_def using gate_okD(10) [OF ok] window_backed_mono [OF _ le cl] by simp
  ultimately show ?thesis by (simp add: gate_ok_def)
qed

lemma click_ok:
  assumes ok: "gate_ok cfg s"
  shows "gate_ok cfg (click_arrives cfg token value gateway user s)"
proof -
  define p where "p = gc_person cfg gateway user"
  obtain reg out ans where r: "resolve token value p (g_waiting s) = (reg, out, ans)" by (cases "resolve token value p (g_waiting s)")
  let ?s = "click_arrives cfg token value gateway user s"
  have e: "?s = (case ans of None \<Rightarrow> s\<lparr>g_waiting := reg\<rparr>
     | Some a \<Rightarrow> s\<lparr>g_waiting := reg, g_answers := (g_answers s)(token \<mapsto> a), g_clicked := g_clicked s @ [(token, value, p)]\<rparr>)"
    using r by (simp add: click_arrives_def p_def [symmetric])
  have same: "g_calls ?s = g_calls s" "g_asked ?s = g_asked s" "g_ledger ?s = g_ledger s"
    by (auto simp: e split: option.split)
  then have ids: "call_ids ?s = call_ids s" by (auto simp: call_ids_def)
  then have le: "call_ids s \<subseteq>\<^sub>m call_ids ?s" by simp
  have cl: "set (g_clicked s) \<subseteq> set (g_clicked ?s)" by (auto simp: e split: option.split)
  have stay: "windows_stay s ?s" by (rule windows_stay_subset) (simp add: same)
  have wait: "g_waiting ?s = reg" by (simp add: e split: option.split)
  have fewer: "g_waiting s tok = Some x" if "reg tok = Some x" for tok x
    using r that by (cases rule: resolve_cases) (auto split: if_splits)
  have "questions_ok ?s"
    unfolding questions_ok_def wait same
  proof (intro conjI allI impI)
    fix tok x assume "reg tok = Some x"
    then show "g_asked s tok = Some (p_approvers x)" by (intro gate_okD(1) [OF ok] fewer)
  next
    fix tok a assume a: "g_answers ?s tok = Some a"
    show "reg tok = None"
    proof (cases "g_answers s tok = Some a")
      case True
      then show ?thesis using gate_okD(2) [OF ok] fewer [of tok] by (cases "reg tok") auto
    next
      case False
      then have "tok = token" "ans \<noteq> None" using a by (auto simp: e split: option.splits if_splits)
      with r show ?thesis by (cases rule: resolve_cases) auto
    qed
    show "\<exists>v q. (tok, v, q) \<in> set (g_clicked ?s) \<and> a = decide v q"
    proof (cases "g_answers s tok = Some a")
      case True
      then show ?thesis using gate_okD(3) [OF ok] cl by blast
    next
      case False
      then have t: "tok = token" "ans = Some a" using a by (auto simp: e split: option.splits if_splits)
      from r t have "a = decide value p" by (cases rule: resolve_cases) auto
      then show ?thesis using t by (auto simp: e)
    qed
  next
    fix tok v q assume c: "(tok, v, q) \<in> set (g_clicked ?s)"
    show "\<exists>who. g_asked s tok = Some who \<and> (who = {} \<or> q \<in> who)"
    proof (cases "(tok, v, q) \<in> set (g_clicked s)")
      case True
      then show ?thesis by (rule gate_okD(4) [OF ok])
    next
      case False
      then have t: "tok = token" "q = p" "ans \<noteq> None" using c by (auto simp: e split: option.splits)
      from r t obtain x where "g_waiting s token = Some x" "p_approvers x = {} \<or> p \<in> p_approvers x"
        by (cases rule: resolve_cases) auto
      then show ?thesis using gate_okD(1) [OF ok] t by blast
    qed
  qed
  moreover have "calls_ok cfg ?s"
    unfolding calls_ok_def ids wait same
  proof (intro conjI allI impI)
    fix c k ph assume at: "g_calls s c = Some (k, ph)"
    show "phase_backed cfg ?s k ph" by (rule phase_backed_mono [OF gate_okD(5) [OF ok at] le cl stay])
    show "before_asking ph \<Longrightarrow> g_asked s (gate_token cfg k) = None" by (rule gate_okD(6) [OF ok at])
  next
    fix c k c' k' assume "call_ids s c = Some k" "call_ids s c' = Some k'" "c \<noteq> c'"
    then show "ca_random k \<noteq> ca_random k'" by (rule gate_okD(7) [OF ok])
  next
    fix tok assume "g_asked s tok \<noteq> None"
    then show "\<exists>c k. call_ids s c = Some k \<and> gate_token cfg k = tok" by (rule gate_okD(8) [OF ok])
  next
    fix tok assume "reg tok \<noteq> None"
    then have "g_waiting s tok \<noteq> None" using fewer by fastforce
    then show "\<exists>c k ph. g_calls s c = Some (k, ph) \<and> gate_token cfg k = tok \<and> may_be_open ph"
      by (rule gate_okD(9) [OF ok])
  qed
  moreover have "windows_ok cfg ?s"
    unfolding windows_ok_def same using gate_okD(10) [OF ok] window_backed_mono [OF _ le cl] by blast
  ultimately show ?thesis by (simp add: gate_ok_def)
qed

lemma revoked_ok:
  assumes ok: "gate_ok cfg s"
  shows "gate_ok cfg (s\<lparr>g_ledger := fst (revoke_grant gid now (g_ledger s))\<rparr>)" (is "gate_ok cfg ?s")
proof -
  have ids: "call_ids ?s = call_ids s" by (auto simp: call_ids_def)
  then have le: "call_ids s \<subseteq>\<^sub>m call_ids ?s" by simp
  have cl: "set (g_clicked s) \<subseteq> set (g_clicked ?s)" by simp
  have stay: "windows_stay s ?s" unfolding windows_stay_def
  proof (rule ballI)
    fix g assume g: "g \<in> set (grants (g_ledger s))"
    let ?hit = "\<lambda>g. ag_id g = gid \<and> ag_revoked_at g = None"
    have "(if ?hit g then g\<lparr>ag_revoked_at := Some now\<rparr> else g) \<in> set (grants (g_ledger ?s))"
      using g by (simp add: revoke_grant_def Let_def upd_where_set)
    moreover have "g\<lparr>ag_revoked_at := ag_revoked_at g\<rparr> = g" by simp
    ultimately show "\<exists>x. g\<lparr>ag_revoked_at := x\<rparr> \<in> set (grants (g_ledger ?s))" by metis
  qed
  have "window_backed cfg ?s g" if g: "g \<in> set (grants (g_ledger ?s))" for g
  proof -
    obtain g0 where "g0 \<in> set (grants (g_ledger s))" "g = g0 \<or> g = g0\<lparr>ag_revoked_at := Some now\<rparr>"
      using g by (auto simp: revoke_grant_def Let_def dest!: in_upd_where split: if_splits)
    then have "window_backed cfg s g" using gate_okD(10) [OF ok] by auto
    then show ?thesis by (rule window_backed_mono [OF _ le cl])
  qed
  moreover have "questions_ok ?s" using ok by (simp add: gate_ok_def questions_ok_def)
  moreover have "calls_ok cfg ?s"
    using ok phase_backed_mono [OF _ le cl stay] by (simp add: gate_ok_def calls_ok_def ids)
  ultimately show ?thesis by (simp add: gate_ok_def windows_ok_def)
qed

lemma gate_step_ok:
  assumes "gate_step cfg s s'" and ok: "gate_ok cfg s"
  shows "gate_ok cfg s'"
  using assms(1)
proof cases
  case (confirm k c)
  then show ?thesis using confirm_ok [OF ok] ok by simp
next
  case (other e)
  show ?thesis
  proof (cases e)
    case (Confirms c k)
    then show ?thesis using other(2) by blast
  next
    case (WaitTimesOut c)
    then show ?thesis using other(1) ok wait_ends_ok(1) [OF ok] by (auto split: option.splits phase.splits)
  next
    case (StartsWaiting c)
    have "gate_ok cfg (goes c k (Waiting q cs) s)" if "g_calls s c = Some (k, Posting q [] cs)" for k q cs
      by (rule step_keeps_ok [OF ok that]) (simp_all add: gate_okD(10) [OF ok])
    then show ?thesis using other(1) ok StartsWaiting by (auto split: option.splits phase.splits list.splits)
  qed (use other(1) ok look_up_ok [OF ok] ask_start_ok [OF ok] post_next_ok [OF ok] wait_ends_ok [OF ok] close_next_ok [OF ok]
        open_window_ok [OF ok] record_end_ok [OF ok] cancel_ok [OF ok] click_ok [OF ok] revoked_ok [OF ok]
      in \<open>auto split: option.splits phase.splits\<close>)
qed

interpretation gates: invariant_system "\<lambda>s. s = quiet_gate" "gate_step cfg" "gate_ok cfg" for cfg
proof unfold_locales
  show "gate_ok cfg s" if "s = quiet_gate" for s
    by (auto simp: that quiet_gate_def gate_ok_def questions_ok_def calls_ok_def windows_ok_def call_ids_def)
qed (rule gate_step_ok)

abbreviation gate_reachable :: "gate_config \<Rightarrow> gate \<Rightarrow> bool" where
  "gate_reachable cfg \<equiv> reachable (\<lambda>s. s = quiet_gate) (gate_step cfg)"

section \<open>Authority\<close>

text \<open>A window's scope names one tool and one conversation: the derived session keys have no at sign.\<close>

lemma at_sign_splits:
  "CHR ''@'' \<notin> set s \<Longrightarrow> CHR ''@'' \<notin> set s' \<Longrightarrow> tool_scope t s = tool_scope t' s' \<Longrightarrow> t = t' \<and> s = s'"
proof -
  assume a: "CHR ''@'' \<notin> set s" "CHR ''@'' \<notin> set s'" "tool_scope t s = tool_scope t' s'"
  have r: "takeWhile (\<lambda>c. c \<noteq> CHR ''@'') (rev (tool_scope t x)) = rev x" if "CHR ''@'' \<notin> set x" for t x
    using that by (auto simp: tool_scope_def takeWhile_tail)
  have "rev s = rev s'" using r [OF a(1), of t] r [OF a(2), of t'] a(3) by simp
  then show ?thesis using a(3) by (simp add: tool_scope_def)
qed

text \<open>C17. No gated tool runs without a yes.  Behind every call that was allowed stands a call of
  this gate, its question put to the named approvers, or to whoever the turn answers, or, when
  nobody is named, to anybody, and a click on that question, by one it was put to, that said yes.
  Either it is the very call, or the tool admits windows, the other call was of the same agent
  with the same scope (which for session keys, that have no at sign, is the same tool in the same
  conversation), and the ledger has the window that answer opened, for this agent and this scope.
  And a call is let through on a window only if that window, for its agent and scope, is in the
  ledger unrevoked and has not run out when it is looked up.\<close>

theorem nothing_runs_unasked:
  assumes "gate_reachable cfg s"
  shows "(\<forall>c k. g_calls s c = Some (k, Over ALLOWED) \<longrightarrow>
      (\<exists>c' k' ph v p who. g_calls s c' = Some (k', ph)
         \<and> g_asked s (gate_token cfg k') = Some who \<and> (who = {} \<or> p \<in> who)
         \<and> (gate_token cfg k', v, p) \<in> set (g_clicked s) \<and> allowed (decide v p)
         \<and> (c' = c \<or> ca_grantable k \<and> 0 < grant_s (decide v p)
              \<and> ca_agent k' = ca_agent k \<and> call_scope k' = call_scope k
              \<and> (CHR ''@'' \<notin> set (ca_session k) \<and> CHR ''@'' \<notin> set (ca_session k')
                   \<longrightarrow> ca_tool k' = ca_tool k \<and> ca_session k' = ca_session k)
              \<and> (\<exists>g \<in> set (grants (g_ledger s)). ag_kind g = KIND_TOOL \<and> ag_principal g = ca_agent k
                   \<and> ag_scope g = call_scope k \<and> ag_granted_by g = p
                   \<and> ag_expires_at g = ag_granted_at g + min (grant_s (decide v p)) (gc_max_grant cfg)))))
    \<and> (\<forall>c k now d who gid. g_calls s c = Some (k, Looking)
         \<and> g_calls (gate_do cfg (LooksUp c now) s) c = Some (k, Recording d who gid ALLOWED) \<longrightarrow>
      ca_grantable k \<and> (\<exists>g \<in> set (grants (g_ledger s)). ag_id g = gid \<and> ag_kind g = KIND_TOOL
         \<and> ag_principal g = ca_agent k \<and> ag_scope g = call_scope k \<and> ag_revoked_at g = None \<and> now < ag_expires_at g))"
proof (intro conjI allI impI)
  have ok: "gate_ok cfg s" by (rule gates.reachable_inv [OF assms])
  have asked: "\<exists>who. g_asked s (gate_token cfg k) = Some who \<and> (who = {} \<or> p \<in> who)"
    if "(gate_token cfg k, v, p) \<in> set (g_clicked s)" for k v p
    by (rule gate_okD(4) [OF ok that])
  have by_whom: "approver (decide v p) = p" for v p by (simp add: decide_def Let_def split: option.split)
  fix c k assume at: "g_calls s c = Some (k, Over ALLOWED)"
  show "\<exists>c' k' ph v p who. g_calls s c' = Some (k', ph)
         \<and> g_asked s (gate_token cfg k') = Some who \<and> (who = {} \<or> p \<in> who)
         \<and> (gate_token cfg k', v, p) \<in> set (g_clicked s) \<and> allowed (decide v p)
         \<and> (c' = c \<or> ca_grantable k \<and> 0 < grant_s (decide v p)
              \<and> ca_agent k' = ca_agent k \<and> call_scope k' = call_scope k
              \<and> (CHR ''@'' \<notin> set (ca_session k) \<and> CHR ''@'' \<notin> set (ca_session k')
                   \<longrightarrow> ca_tool k' = ca_tool k \<and> ca_session k' = ca_session k)
              \<and> (\<exists>g \<in> set (grants (g_ledger s)). ag_kind g = KIND_TOOL \<and> ag_principal g = ca_agent k
                   \<and> ag_scope g = call_scope k \<and> ag_granted_by g = p
                   \<and> ag_expires_at g = ag_granted_at g + min (grant_s (decide v p)) (gc_max_grant cfg)))"
  proof (cases "\<exists>a. said_yes cfg s k a")
    case True
    then obtain v p where "(gate_token cfg k, v, p) \<in> set (g_clicked s)" "allowed (decide v p)"
      unfolding said_yes_def by blast
    then show ?thesis using at asked by blast
  next
    case False
    then obtain g where g: "ca_grantable k" "g \<in> set (grants (g_ledger s))" "ag_principal g = ca_agent k"
        "ag_scope g = call_scope k" "window_backed cfg s g"
      using gate_okD(5) [OF ok at] by (auto simp: backed_def)
    then obtain c' k' a where k': "call_ids s c' = Some k'" "said_yes cfg s k' a" "0 < grant_s a" "window_of cfg k' a g"
      unfolding window_backed_def by blast
    then obtain v p where v: "(gate_token cfg k', v, p) \<in> set (g_clicked s)" "a = decide v p" "allowed a"
      unfolding said_yes_def by blast
    obtain who where who: "g_asked s (gate_token cfg k') = Some who" "who = {} \<or> p \<in> who" using asked [OF v(1)] by blast
    obtain ph where ph: "g_calls s c' = Some (k', ph)" using k'(1) by (auto simp: call_ids_def)
    have same: "ca_agent k' = ca_agent k" "call_scope k' = call_scope k" using k'(4) g(3,4) by (simp_all add: window_of_def)
    have there: "CHR ''@'' \<notin> set (ca_session k) \<and> CHR ''@'' \<notin> set (ca_session k')
        \<longrightarrow> ca_tool k' = ca_tool k \<and> ca_session k' = ca_session k"
      using at_sign_splits [of "ca_session k'" "ca_session k" "ca_tool k'" "ca_tool k"] same(2)
      by (auto simp: call_scope_def)
    have "ag_kind g = KIND_TOOL" "ag_granted_by g = p"
        "ag_expires_at g = ag_granted_at g + min (grant_s (decide v p)) (gc_max_grant cfg)"
      using k'(4) v(2) by_whom by (simp_all add: window_of_def)
    then show ?thesis using ph who v k'(3) g same there by blast
  qed
next
  fix c k now d who gid
  assume l: "g_calls s c = Some (k, Looking) \<and> g_calls (gate_do cfg (LooksUp c now) s) c = Some (k, Recording d who gid ALLOWED)"
  let ?w = "if ca_grantable k then live_grant KIND_TOOL (ca_agent k) (call_scope k) now (g_ledger s) else None"
  obtain g where g: "?w = Some g" "ag_id g = gid" using l by (auto simp: look_up_def split: option.splits)
  then show "ca_grantable k" by (auto split: if_splits)
  have "live_grant KIND_TOOL (ca_agent k) (call_scope k) now (g_ledger s) = Some g" using g(1) by (auto split: if_splits)
  from live_grant_Some [OF this] show "\<exists>g \<in> set (grants (g_ledger s)). ag_id g = gid \<and> ag_kind g = KIND_TOOL
         \<and> ag_principal g = ca_agent k \<and> ag_scope g = call_scope k \<and> ag_revoked_at g = None \<and> now < ag_expires_at g"
    using g(2) by (auto simp: is_live_def)
qed

text \<open>A window is given, and bounded: every window in the ledger was given by a person its
  question was put to, for the agent, the tool and the conversation it asked about, and ends no
  later than the deployment's longest.\<close>

lemma tool_windows_are_given:
  assumes "gate_reachable cfg s" and "g \<in> set (grants (g_ledger s))"
  shows "ag_expires_at g \<le> ag_granted_at g + gc_max_grant cfg
     \<and> (\<exists>c k ph v who. g_calls s c = Some (k, ph) \<and> ag_principal g = ca_agent k \<and> ag_scope g = call_scope k
          \<and> g_asked s (gate_token cfg k) = Some who \<and> (who = {} \<or> ag_granted_by g \<in> who)
          \<and> (gate_token cfg k, v, ag_granted_by g) \<in> set (g_clicked s) \<and> 0 < grant_s (decide v (ag_granted_by g)))"
proof -
  have ok: "gate_ok cfg s" by (rule gates.reachable_inv [OF assms(1)])
  obtain c k a where b: "call_ids s c = Some k" "said_yes cfg s k a" "0 < grant_s a"
    "ag_principal g = ca_agent k" "ag_scope g = call_scope k" "ag_granted_by g = approver a"
    "ag_expires_at g = ag_granted_at g + min (grant_s a) (gc_max_grant cfg)"
    using gate_okD(10) [OF ok assms(2)] unfolding window_backed_def window_of_def by blast
  obtain v p where v: "(gate_token cfg k, v, p) \<in> set (g_clicked s)" "a = decide v p"
    using b(2) unfolding said_yes_def by blast
  have "approver a = p" by (simp add: v(2) decide_def Let_def split: option.split)
  moreover obtain who where "g_asked s (gate_token cfg k) = Some who" "who = {} \<or> p \<in> who"
    using gate_okD(4) [OF ok v(1)] by blast
  moreover obtain ph where "g_calls s c = Some (k, ph)" using b(1) by (auto simp: call_ids_def)
  ultimately show ?thesis using b v by (intro conjI) (simp, metis)
qed

lemma derived_key_chars:
  "c \<in> set (derive_runtime_session_id digest agent conv) \<Longrightarrow>
     safe_id_char c \<or> c \<in> set (digest (raw_session_key agent conv))"
proof -
  have "safe_id_char c" if "c \<in> set (coerced raw)" for c raw
  proof -
    have "set (strip_edges xs) \<subseteq> set xs" for xs
      by (auto simp: strip_edges_def dest!: set_dropWhileD)
    then have "c \<in> (\<lambda>c. if safe_id_char c then c else CHR ''-'') ` set raw" using that by (fastforce simp: coerced_def)
    then show ?thesis by (auto simp: safe_id_char_def Let_def split: if_splits)
  qed
  moreover have "safe_id_char CHR ''-''" "\<forall>c \<in> set ''session''. safe_id_char c" by (auto simp: safe_id_char_def)
  moreover assume "c \<in> set (derive_runtime_session_id digest agent conv)"
  ultimately show ?thesis
  proof (cases "coerced (raw_session_key agent conv) = raw_session_key agent conv")
    case True
    then have "c \<in> set (coerced (raw_session_key agent conv))"
      using \<open>c \<in> set (derive_runtime_session_id digest agent conv)\<close>
      by (simp add: derive_runtime_session_id_def)
    then show ?thesis using \<open>\<And>c raw. c \<in> set (coerced raw) \<Longrightarrow> safe_id_char c\<close> by blast
  qed (auto simp: derive_runtime_session_id_def Let_def split: if_splits)
qed

lemma window_of_one_conversation:
  assumes "CHR ''@'' \<notin> set (digest (raw_session_key a1 v1))" and "CHR ''@'' \<notin> set (digest (raw_session_key a2 v2))"
    and "tool_scope t1 (derive_runtime_session_id digest a1 v1) = tool_scope t2 (derive_runtime_session_id digest a2 v2)"
  shows "t1 = t2 \<and> derive_runtime_session_id digest a1 v1 = derive_runtime_session_id digest a2 v2"
proof (rule at_sign_splits [OF _ _ assms(3)])
  have "\<not> safe_id_char CHR ''@''" by (simp add: safe_id_char_def)
  then show "CHR ''@'' \<notin> set (derive_runtime_session_id digest a1 v1)"
    "CHR ''@'' \<notin> set (derive_runtime_session_id digest a2 v2)"
    using derived_key_chars assms(1,2) by blast+
qed

section \<open>A closed question stays closed\<close>

text \<open>An answered, expired or refused question is over: once a call has one of the outcomes of
  \<open>confirm\<close>, its token is in no registry, and whatever anybody clicks on a copy of its card
  changes nothing.\<close>

lemma ended_question_is_gone:
  assumes "gate_reachable cfg s" and "g_calls s c = Some (k, Over e)"
    and "e = ALLOWED \<or> e = DENIED \<or> e = UNANSWERED \<or> e = NO_APPROVER"
  shows "click_arrives cfg (gate_token cfg k) v gateway user s = s"
proof -
  have ok: "gate_ok cfg s" by (rule gates.reachable_inv [OF assms(1)])
  have "g_waiting s (gate_token cfg k) = None"
  proof (rule ccontr)
    assume "g_waiting s (gate_token cfg k) \<noteq> None"
    then obtain c1 k1 ph1 where c1: "g_calls s c1 = Some (k1, ph1)" "gate_token cfg k1 = gate_token cfg k" "may_be_open ph1"
      using gate_okD(9) [OF ok] by blast
    then have "c1 = c" using gate_okD(7) [OF ok ids_of [OF c1(1)] ids_of [OF assms(2)]] by auto
    then show False using c1 assms(2,3) by auto
  qed
  then show ?thesis by (simp add: click_arrives_def resolve_def)
qed

text \<open>
  Not so when the turn is cancelled while the copies are being posted: the cancellation passes the
  loop, nothing discards the token and no posted copy is rewritten, so the card stays up and a
  click on it is accepted although nothing waits.
\<close>

lemma cancelled_while_posting:
  assumes "g_calls s c = Some (k, Posting q ps cs)" and "g_waiting s (gate_token cfg k) = Some e"
  shows "g_waiting (gate_do cfg (IsCancelled c) s) (gate_token cfg k) = Some e
     \<and> g_touched (gate_do cfg (IsCancelled c) s) = g_touched s"
  using assms by (simp add: cancel_call_def goes_def)

text \<open>
  And a tool that is to be asked about every time honours no window but still opens one, when the
  answer names it: the answer's length is not checked against what the card offered.
\<close>

lemma ungrantable_opens_window:
  assumes "g_calls s c = Some (k, Opening a)" and "\<not> ca_grantable k"
    and "gid \<notin> ag_id ` set (grants (g_ledger s))"
  shows "gate_window cfg k a gid now \<in> set (grants (g_ledger (gate_do cfg (OpensWindow c gid now) s)))"
  using assms by (auto simp: open_tool_window_def create_grant_def gate_window_def)

section \<open>The ledger\<close>

fun decision_end :: "tool_decision \<Rightarrow> confirm_end" where
  "decision_end Reused_grant = ALLOWED"
| "decision_end Approved_once = ALLOWED"
| "decision_end Approved_grant = ALLOWED"
| "decision_end Was_denied = DENIED"
| "decision_end Timed_out = UNANSWERED"
| "decision_end No_approver_found = NO_APPROVER"
| "decision_end Was_abandoned = CANCELLED"

definition rows_about :: "gate_call \<Rightarrow> gate \<Rightarrow> approval_audit list" where
  "rows_about k s = filter (\<lambda>r. au_request_id r = ca_request k) (audit (g_ledger s))"

text \<open>A row that says how a call ended: of its agent and scope, with a decision that ends so.\<close>

definition tells :: "approval_audit \<Rightarrow> gate_call \<Rightarrow> confirm_end \<Rightarrow> bool" where
  "tells r k e \<longleftrightarrow> au_principal r = ca_agent k \<and> au_scope r = call_scope k
     \<and> (\<exists>d. au_decision r = tool_decision_text d \<and> decision_end d = e)"

fun phase_told :: "gate \<Rightarrow> gate_call \<Rightarrow> phase \<Rightarrow> bool" where
  "phase_told s k (Recording d who gid e) = (decision_end d = e \<and> rows_about k s = [])"
| "phase_told s k (Over e) =
     (if e = CANCELLED \<or> e = FAILED then True else \<exists>r. rows_about k s = [r] \<and> tells r k e)"
| "phase_told s k _ = (rows_about k s = [])"

definition rows_ok :: "gate \<Rightarrow> bool" where
  "rows_ok s \<longleftrightarrow> (\<forall>c k ph. g_calls s c = Some (k, ph) \<longrightarrow> phase_told s k ph)
     \<and> (\<forall>c k c' k'. call_ids s c = Some k \<longrightarrow> call_ids s c' = Some k' \<longrightarrow> c \<noteq> c' \<longrightarrow> ca_request k \<noteq> ca_request k')
     \<and> (\<forall>r \<in> set (audit (g_ledger s)). \<exists>c k. call_ids s c = Some k \<and> ca_request k = au_request_id r)"

lemma rows_okD:
  assumes "rows_ok s"
  shows "g_calls s c = Some (k, ph) \<Longrightarrow> phase_told s k ph"
    and "call_ids s c = Some k \<Longrightarrow> call_ids s c' = Some k' \<Longrightarrow> c \<noteq> c' \<Longrightarrow> ca_request k \<noteq> ca_request k'"
    and "r \<in> set (audit (g_ledger s)) \<Longrightarrow> \<exists>c k. call_ids s c = Some k \<and> ca_request k = au_request_id r"
  using assms unfolding rows_ok_def by blast+

lemma phase_told_same:
  "audit (g_ledger s') = audit (g_ledger s) \<Longrightarrow> phase_told s' k ph = phase_told s k ph"
  by (cases "(s, k, ph)" rule: phase_told.cases) (simp_all add: rows_about_def)

text \<open>A step of a call that leaves the ledger's rows alone.\<close>

lemma step_keeps_rows:
  assumes ok: "rows_ok s" and at: "g_calls s c = Some (k, ph0)" and same: "g_calls s' = g_calls s"
    and audit: "audit (g_ledger s') = audit (g_ledger s)" and told: "phase_told s k ph"
  shows "rows_ok (goes c k ph s')"
proof -
  have ids: "call_ids (goes c k ph s') = call_ids s" using at same by (auto simp: call_ids_def)
  have "phase_told (goes c k ph s') k1 ph1" if "g_calls (goes c k ph s') c1 = Some (k1, ph1)" for c1 k1 ph1
    using that told rows_okD(1) [OF ok, of c1] phase_told_same [of "goes c k ph s'" s] audit
    by (cases "c1 = c") (auto simp: same)
  then show ?thesis using rows_okD(2,3) [OF ok] unfolding rows_ok_def ids by (simp add: audit)
qed

lemma record_keeps_rows:
  assumes ok: "rows_ok s" and at: "g_calls s c = Some (k, Recording d who gid e)"
    and l: "record_decision (gate_row k d who gid aid now elapsed) (g_ledger s) = Some l"
  shows "rows_ok (goes c k (Over e) (s\<lparr>g_ledger := l\<rparr>))" (is "rows_ok ?s")
proof -
  let ?row = "gate_row k d who gid aid now elapsed"
  have told: "decision_end d = e" "rows_about k s = []" using rows_okD(1) [OF ok at] by simp_all
  have audit: "audit l = audit (g_ledger s) @ [?row]"
    using l by (auto simp: record_decision_def split: if_splits)
  have ids: "call_ids ?s = call_ids s" using at by (auto simp: call_ids_def)
  have "phase_told ?s k1 ph1" if c1: "g_calls ?s c1 = Some (k1, ph1)" for c1 k1 ph1
  proof (cases "c1 = c")
    case True
    then have e: "k1 = k" "ph1 = Over e" using c1 by auto
    have "rows_about k ?s = [?row]" using told(2) by (simp add: rows_about_def audit gate_row_def)
    moreover have "tells ?row k e" using told(1) by (auto simp: tells_def gate_row_def)
    ultimately show ?thesis by (simp add: e)
  next
    case False
    then have "g_calls s c1 = Some (k1, ph1)" using c1 by simp
    moreover have "ca_request k1 \<noteq> ca_request k"
      using rows_okD(2) [OF ok ids_of [OF calculation] ids_of [OF at] False] .
    then have "rows_about k1 ?s = rows_about k1 s" by (simp add: rows_about_def audit gate_row_def)
    ultimately show ?thesis using rows_okD(1) [OF ok, of c1 k1 ph1]
      by (cases "(s, k1, ph1)" rule: phase_told.cases) simp_all
  qed
  moreover have "\<exists>c k. call_ids s c = Some k \<and> ca_request k = au_request_id r" if "r \<in> set (audit (g_ledger ?s))" for r
    proof (cases "r = ?row")
    case True
    then show ?thesis using ids_of [OF at] by (intro exI [of _ c] exI [of _ k]) (simp add: gate_row_def)
  next
    case False
    then have "r \<in> set (audit (g_ledger s))" using \<open>r \<in> set (audit (g_ledger ?s))\<close> audit by simp
    then show ?thesis by (rule rows_okD(3) [OF ok])
  qed
  ultimately show ?thesis using rows_okD(2) [OF ok] unfolding rows_ok_def ids by blast
qed

lemma confirm_keeps_rows:
  assumes ok: "rows_ok s" and new: "g_calls s c = None" and fresh: "fresh_call k s"
  shows "rows_ok (goes c k Looking s)"
proof -
  let ?s = "goes c k Looking s"
  have ids: "call_ids ?s = (call_ids s)(c \<mapsto> k)" by (auto simp: call_ids_def)
  have other: "ca_request k' \<noteq> ca_request k" if "call_ids s c' = Some k'" for c' k'
    using fresh [unfolded fresh_call_def, rule_format, of c'] that by (auto simp: call_ids_def)
  have none: "rows_about k s = []"
    using rows_okD(3) [OF ok] other unfolding rows_about_def filter_empty_conv by metis
  have "phase_told ?s k1 ph1" if "g_calls ?s c1 = Some (k1, ph1)" for c1 k1 ph1
    using that none rows_okD(1) [OF ok, of c1] phase_told_same [of ?s s] by (cases "c1 = c") (auto simp: rows_about_def)
  moreover have "ca_request k1 \<noteq> ca_request k2"
    if "call_ids ?s c1 = Some k1" "call_ids ?s c2 = Some k2" "c1 \<noteq> c2" for c1 c2 k1 k2
    using that rows_okD(2) [OF ok, of c1 k1 c2 k2] other [of c1 k1] other [of c2 k2] unfolding ids
    by (auto split: if_splits)
  moreover have "\<exists>c' k'. call_ids ?s c' = Some k' \<and> ca_request k' = au_request_id r" if "r \<in> set (audit (g_ledger s))" for r
  proof -
    obtain c' k' where "call_ids s c' = Some k'" "ca_request k' = au_request_id r"
      using rows_okD(3) [OF ok \<open>r \<in> set (audit (g_ledger s))\<close>] by blast
    moreover have "c' \<noteq> c" using calculation(1) new by (auto simp: call_ids_def)
    ultimately show ?thesis unfolding ids by (intro exI [of _ c'] exI [of _ k']) simp
  qed
  ultimately show ?thesis unfolding rows_ok_def goes_simps by blast
qed

text \<open>A change of the registry, the clicks or the windows alone.\<close>

lemma rows_ok_frame:
  assumes "rows_ok s" and "g_calls s' = g_calls s" and "audit (g_ledger s') = audit (g_ledger s)"
  shows "rows_ok s'"
proof -
  have "call_ids s' = call_ids s" using assms(2) by (auto simp: call_ids_def)
  then show ?thesis using assms phase_told_same [OF assms(3)] by (simp add: rows_ok_def)
qed

lemma cancel_keeps_rows:
  assumes ok: "rows_ok s" and at: "g_calls s c = Some (k, ph)"
  shows "rows_ok (cancel_call cfg c k ph s)"
proof (cases ph)
  case (Over e)
  then show ?thesis using ok by (simp add: cancel_call_def)
qed (use rows_okD(1) [OF ok at] in \<open>auto simp: cancel_call_def wait_cancelled_def intro!: step_keeps_rows [OF ok at]\<close>)

lemma event_keeps_rows:
  assumes ok: "rows_ok s" and "\<And>c k. e \<noteq> Confirms c k"
  shows "rows_ok (gate_do cfg e s)"
proof (cases e)
  case (Confirms c k)
  then show ?thesis using assms(2) by blast
next
  case (LooksUp c now)
  have "rows_ok (look_up c k now s)" if at: "g_calls s c = Some (k, Looking)" for k
    using rows_okD(1) [OF ok at]
    by (auto simp: look_up_def intro!: step_keeps_rows [OF ok at] split: option.split)
  then show ?thesis using ok LooksUp by (auto split: option.splits phase.splits)
next
  case (StartsAsking c r pl b ex)
  have "rows_ok (ask_start cfg c k r pl b ex s)" if at: "g_calls s c = Some (k, Asking)" for k
    using rows_okD(1) [OF ok at]
    by (auto simp: ask_start_def Let_def intro!: step_keeps_rows [OF ok at] split: option.split)
  then show ?thesis using ok StartsAsking by (auto split: option.splits phase.splits)
next
  case (PostsNext c answer)
  have "rows_ok (post_next cfg c k q ps cs answer s)" if at: "g_calls s c = Some (k, Posting q ps cs)" for k q ps cs
    using rows_okD(1) [OF ok at] ok
    by (auto simp: post_next_def Let_def intro!: step_keeps_rows [OF ok at] split: list.split)
  then show ?thesis using ok PostsNext by (auto split: option.splits phase.splits)
next
  case (StartsWaiting c)
  have "rows_ok (goes c k (Waiting q cs) s)" if at: "g_calls s c = Some (k, Posting q [] cs)" for k q cs
    using rows_okD(1) [OF ok at] by (auto intro!: step_keeps_rows [OF ok at])
  then show ?thesis using ok StartsWaiting by (auto split: option.splits phase.splits list.splits)
next
  case (WaitAnswered c)
  have "rows_ok (wait_answered c k q cs a s)" if at: "g_calls s c = Some (k, Waiting q cs)" for k q cs a
    using rows_okD(1) [OF ok at]
    by (auto simp: wait_answered_def intro!: step_keeps_rows [OF ok at] split: prod.split)
  then show ?thesis using ok WaitAnswered by (auto split: option.splits phase.splits)
next
  case (WaitTimesOut c)
  have "rows_ok (wait_timed_out cfg c k q cs s)" if at: "g_calls s c = Some (k, Waiting q cs)" for k q cs
    using rows_okD(1) [OF ok at] by (auto simp: wait_timed_out_def intro!: step_keeps_rows [OF ok at])
  then show ?thesis using ok WaitTimesOut by (auto split: option.splits phase.splits)
next
  case (ClosesNext c)
  have "rows_ok (close_next c k q cs x s)" if at: "g_calls s c = Some (k, Closing q cs x)" for k q cs x
    using rows_okD(1) [OF ok at]
    by (auto simp: close_next_def after_ask_def intro!: step_keeps_rows [OF ok at] split: list.split ended.split)
  then show ?thesis using ok ClosesNext by (auto split: option.splits phase.splits)
next
  case (OpensWindow c gid now)
  have "rows_ok (open_tool_window cfg c k a gid now s)" if at: "g_calls s c = Some (k, Opening a)" for k a
    using rows_okD(1) [OF ok at]
    by (auto simp: open_tool_window_def create_grant_def intro!: step_keeps_rows [OF ok at] split: option.split)
  then show ?thesis using ok OpensWindow by (auto split: option.splits phase.splits)
next
  case (Records c aid now el)
  have "rows_ok (record_end c k d who gid x aid now el s)" if at: "g_calls s c = Some (k, Recording d who gid x)" for k d who gid x
    using record_keeps_rows [OF ok at] step_keeps_rows [OF ok at refl refl, of "Over FAILED"]
    by (simp add: record_end_def split: option.split)
  then show ?thesis using ok Records by (auto split: option.splits phase.splits)
next
  case (IsCancelled c)
  then show ?thesis using ok cancel_keeps_rows [OF ok] by (auto split: option.splits)
next
  case (ClickArrives t v g u)
  have "rows_ok (click_arrives cfg t v g u s)"
    by (rule rows_ok_frame [OF ok]) (simp_all add: click_arrives_def Let_def split: prod.split option.split)
  then show ?thesis using ClickArrives by simp
next
  case (WindowRevoked gid now)
  then show ?thesis using rows_ok_frame [OF ok] by (simp add: revoke_grant_def Let_def)
qed

interpretation told: invariant_system "\<lambda>s. s = quiet_gate" "gate_step cfg" rows_ok for cfg
proof unfold_locales
  show "rows_ok s" if "s = quiet_gate" for s by (simp add: that quiet_gate_def rows_ok_def call_ids_def)
  fix s s' assume ok: "rows_ok s" and "gate_step cfg s s'"
  from this(2) show "rows_ok s'"
  proof cases
    case (confirm k c)
    then show ?thesis using ok confirm_keeps_rows by simp
  qed (simp add: event_keeps_rows [OF ok])
qed

text \<open>C18. Every verdict is in the ledger once: a call that ended with an outcome of \<open>confirm\<close> has
  exactly one row under its request id, of its agent and scope, with a decision that says how it
  ended.\<close>

theorem every_verdict_recorded_once:
  assumes "gate_reachable cfg s" and "g_calls s c = Some (k, Over e)"
    and "e = ALLOWED \<or> e = DENIED \<or> e = UNANSWERED \<or> e = NO_APPROVER"
  shows "\<exists>r. filter (\<lambda>r. au_request_id r = ca_request k) (audit (g_ledger s)) = [r] \<and> tells r k e"
  using rows_okD(1) [OF told.reachable_inv [OF assms(1)] assms(2)] assms(3) by (auto simp: rows_about_def)

section \<open>Witnesses\<close>

definition sample_gate_config :: gate_config where
  "sample_gate_config = \<lparr>gc_max_grant = 900, gc_approvers = {}, gc_replica = ''r1'',
     gc_person = (\<lambda>gateway user. user), gc_poster = (\<lambda>agent gateway. True)\<rparr>"

definition sample_gate_call :: gate_call where
  "sample_gate_call = \<lparr>ca_agent = ''helper'', ca_tool = ''bash'', ca_args = Some ''{}'', ca_session = ''helper--c1'',
     ca_preview = None, ca_display_name = [], ca_grantable = True, ca_request = ''rq_1'', ca_random = ''t1'', ca_started = 0\<rparr>"

definition sample_session :: session_record where
  "sample_session = \<lparr>se_agent = ''helper'', se_channel_id = ''D1'', se_conversation_id = ''c1'', se_kind = ''dm'',
     se_runtime_session_id = ''helper--c1'', se_created_at = 0, se_last_active = 0, se_last_user_id = ''ann'',
     se_last_engine_turn_at = None, se_cut_short = [], se_gateways = [], se_last_gateway = ''slack''\<rparr>"

definition sample_gate_events :: "gate_event list" where
  "sample_gate_events = [LooksUp 0 10, StartsAsking 0 (Some sample_session) None [] ''later'', PostsNext 0 (Some ''p1''),
     StartsWaiting 0, ClickArrives ''r1.t1'' ''grant:300'' ''slack'' ''bob'',
     ClickArrives ''r1.t1'' ''grant:300'' ''slack'' ''ann'', WaitAnswered 0, ClosesNext 0, ClosesNext 0,
     OpensWindow 0 ''gr_1'' 20, Records 0 ''au_1'' 20 5]"

definition sample_gate :: gate where
  "sample_gate = fold (gate_do sample_gate_config) sample_gate_events
     (gate_do sample_gate_config (Confirms 0 sample_gate_call) quiet_gate)"

lemma sample_gate_reachable: "gate_reachable sample_gate_config sample_gate"
proof -
  have "fresh_call sample_gate_call quiet_gate" by (simp add: fresh_call_def quiet_gate_def)
  then have step: "gate_step sample_gate_config quiet_gate (gate_do sample_gate_config (Confirms 0 sample_gate_call) quiet_gate)"
    by (rule gate_step.confirm)
  have "gate_reachable sample_gate_config quiet_gate" by (rule reachable.start) simp
  from reachable.move [OF this step]
  have start: "gate_reachable sample_gate_config (gate_do sample_gate_config (Confirms 0 sample_gate_call) quiet_gate)" .
  have "gate_reachable sample_gate_config (fold (gate_do sample_gate_config) es s)"
    if "gate_reachable sample_gate_config s" "list_all (\<lambda>e. \<forall>c k. e \<noteq> Confirms c k) es" for es s
    using that
  proof (induction es arbitrary: s)
    case (Cons e es)
    have "gate_reachable sample_gate_config (gate_do sample_gate_config e s)"
      by (rule reachable.move [OF Cons.prems(1) gate_step.other]) (use Cons.prems(2) in simp)
    then show ?case using Cons by simp
  qed simp
  moreover have "list_all (\<lambda>e. \<forall>c k. e \<noteq> Confirms c k) sample_gate_events" by (simp add: sample_gate_events_def)
  ultimately show ?thesis unfolding sample_gate_def using start by blast
qed

lemma sample_gate_over: "g_calls sample_gate 0 = Some (sample_gate_call, Over ALLOWED)"
  by code_simp

lemma nothing_runs_unasked_witness:
  "\<exists>c' k' ph tok v p. g_calls sample_gate c' = Some (k', ph) \<and> (tok, v, p) \<in> set (g_clicked sample_gate) \<and> allowed (decide v p)"
  using nothing_runs_unasked [OF sample_gate_reachable] sample_gate_over by blast

lemma tool_windows_are_given_witness:
  "map ag_expires_at (grants (g_ledger sample_gate)) = [320] \<and> (320 :: int) \<le> 20 + 900"
proof -
  have "map (\<lambda>g. (ag_expires_at g, ag_granted_at g)) (grants (g_ledger sample_gate)) = [(320, 20)]" by code_simp
  then obtain g where g: "grants (g_ledger sample_gate) = [g]" "ag_expires_at g = 320" "ag_granted_at g = 20"
    by (cases "grants (g_ledger sample_gate)") auto
  then show ?thesis using tool_windows_are_given [OF sample_gate_reachable, of g] by (simp add: sample_gate_config_def)
qed

lemma ended_question_is_gone_witness:
  "click_arrives sample_gate_config ''r1.t1'' ''once'' ''slack'' ''ann'' sample_gate = sample_gate"
  using ended_question_is_gone [OF sample_gate_reachable sample_gate_over, of "''once''" "''slack''" "''ann''"]
  by (simp add: gate_token_def tag_token_def TOKEN_TAG_SEP_def sample_gate_config_def sample_gate_call_def)

lemma every_verdict_recorded_once_witness:
  "\<exists>r. filter (\<lambda>r. au_request_id r = ''rq_1'') (audit (g_ledger sample_gate)) = [r]"
  using every_verdict_recorded_once [OF sample_gate_reachable sample_gate_over]
  by (auto simp: sample_gate_call_def)

text \<open>A turn cancelled while its question is being posted leaves a card a click is accepted on.\<close>

definition sample_cancelled :: gate where
  "sample_cancelled = fold (gate_do sample_gate_config)
     [LooksUp 0 10, StartsAsking 0 (Some sample_session) None [] ''later'', PostsNext 0 (Some ''p1''),
      IsCancelled 0, Records 0 ''au_1'' 20 5]
     (gate_do sample_gate_config (Confirms 0 sample_gate_call) quiet_gate)"

lemma cancelled_question_still_clicked:
  "map_option snd (g_calls sample_cancelled 0) = Some (Over CANCELLED)
   \<and> fst (snd (resolve ''r1.t1'' ''once'' ''ann'' (g_waiting sample_cancelled))) = RESOLVED
   \<and> filter (\<lambda>t. case t of RewritesQuestion g p q \<Rightarrow> True | _ \<Rightarrow> False) (g_touched sample_cancelled) = []"
  by code_simp

end
