(* ===== verification/TurnJournal.thy ===== *)
theory TurnJournal
  imports Scheduler ChatCards "HOL-Library.AList"
begin

text \<open>
  What a turn's view is drawn from: the calls of a turn and their record
  (\<open>packages/crucible/src/crucible/ports/traces.py\<close>, the events of \<open>ports/agent/events.py\<close> and the
  table of \<open>store/sqlite/traces.py\<close>), and the journal a polling client reads
  (\<open>gateways/http/journal.py\<close>).

  The JSON text of a call's arguments is an argument of its event; durations and loop times are
  integers of microseconds; a dict is an association list in the order of its insertions.
\<close>

section \<open>The calls of a turn\<close>

datatype run_event =
    ToolStarted string string string string
  | ToolFinished string string bool int
  | TextProgress string
  | CallAwaiting string
  | OtherEvent

definition ARGS_STORED_MAX :: nat where "ARGS_STORED_MAX = 8000"

datatype call_state = CALL_OK | CALL_FAILED | CALL_UNFINISHED

record call =
  cl_index :: nat
  cl_call_id :: string
  cl_tool :: string
  cl_args :: string
  cl_cut :: nat
  cl_state :: call_state
  cl_duration :: int
  cl_caption :: string
  cl_remark :: string

record turn_calls =
  tc_calls :: "call list"
  tc_open :: "(string \<times> nat) list"
  tc_awaiting :: "nat option"
  tc_remark :: string

definition no_calls :: turn_calls where
  "no_calls = \<lparr>tc_calls = [], tc_open = [], tc_awaiting = None, tc_remark = []\<rparr>"

definition latest_word :: "turn_calls \<Rightarrow> string" where
  "latest_word tc =
     (if tc_remark tc \<noteq> [] then tc_remark tc
      else if tc_calls tc = [] \<or> tc_open tc = [] then []
      else let newest = last (tc_calls tc) in
           if cl_caption newest \<noteq> [] then cl_caption newest else cl_remark newest)"

definition awaiting_call :: "turn_calls \<Rightarrow> call option" where
  "awaiting_call tc = map_option (\<lambda>i. tc_calls tc ! i) (tc_awaiting tc)"

definition call_running :: "turn_calls \<Rightarrow> bool" where
  "call_running tc \<longleftrightarrow> tc_open tc \<noteq> []"

definition failed_calls :: "turn_calls \<Rightarrow> nat" where
  "failed_calls tc = length (filter (\<lambda>c. cl_state c = CALL_FAILED) (tc_calls tc))"

fun calls_on_event :: "run_event \<Rightarrow> turn_calls \<Rightarrow> turn_calls \<times> bool" where
  "calls_on_event (ToolStarted call_id tool args caption) tc =
     (let i = length (tc_calls tc);
          c = \<lparr>cl_index = i, cl_call_id = call_id, cl_tool = tool, cl_args = take ARGS_STORED_MAX args,
               cl_cut = (if length args > ARGS_STORED_MAX then length args else 0),
               cl_state = CALL_UNFINISHED, cl_duration = 0, cl_caption = caption, cl_remark = tc_remark tc\<rparr> in
      (tc\<lparr>tc_remark := [], tc_calls := tc_calls tc @ [c], tc_open := AList.update call_id i (tc_open tc)\<rparr>, True))"
| "calls_on_event (TextProgress txt) tc =
     (let tc1 = (if strip txt \<noteq> [] then tc\<lparr>tc_remark := strip txt\<rparr> else tc) in (tc1, tc_calls tc1 \<noteq> []))"
| "calls_on_event (ToolFinished call_id tool is_error duration) tc =
     (case map_of (tc_open tc) call_id of
        None \<Rightarrow> (tc, False)
      | Some i \<Rightarrow>
          (tc\<lparr>tc_open := AList.delete call_id (tc_open tc),
              tc_calls := (tc_calls tc)[i := (tc_calls tc ! i)
                 \<lparr>cl_state := (if is_error then CALL_FAILED else CALL_OK), cl_duration := duration\<rparr>],
              tc_awaiting := (if tc_awaiting tc = Some i then None else tc_awaiting tc)\<rparr>, True))"
| "calls_on_event (CallAwaiting tool) tc =
     (case filter (\<lambda>i. cl_tool (tc_calls tc ! i) = tool) (map snd (tc_open tc)) of
        [] \<Rightarrow> (tc, False)
      | i # rest \<Rightarrow> (tc\<lparr>tc_awaiting := Some (last (i # rest))\<rparr>, True))"
| "calls_on_event OtherEvent tc = (tc, False)"

section \<open>The record of the calls\<close>

fun call_state_text :: "call_state \<Rightarrow> string" where
  "call_state_text CALL_OK = ''ok''"
| "call_state_text CALL_FAILED = ''failed''"
| "call_state_text CALL_UNFINISHED = ''unfinished''"

definition call_state_of :: "string \<Rightarrow> call_state option" where
  "call_state_of s = (if s = ''ok'' then Some CALL_OK else if s = ''failed'' then Some CALL_FAILED
     else if s = ''unfinished'' then Some CALL_UNFINISHED else None)"

definition CALL_FIELDS :: "string list" where
  "CALL_FIELDS = [''index'', ''call_id'', ''tool'', ''args'', ''cut'', ''state'', ''duration_s'', ''caption'', ''remark'']"

definition call_to_json :: "call \<Rightarrow> json" where
  "call_to_json c = JObj (zip CALL_FIELDS
     [JInt (int (cl_index c)), JStr (cl_call_id c), JStr (cl_tool c), JStr (cl_args c), JInt (int (cl_cut c)),
      JStr (call_state_text (cl_state c)), JInt (cl_duration c), JStr (cl_caption c), JStr (cl_remark c)])"

definition encode_calls :: "call list \<Rightarrow> json" where
  "encode_calls cs = JList (map call_to_json cs)"

definition as_nat :: "json \<Rightarrow> nat option" where
  "as_nat j = Option.bind (as_int j) (\<lambda>n. if 0 \<le> n then Some (nat n) else None)"

text \<open>\<open>Call(**item)\<close>: a member that is no field raises, as a missing one without default does.\<close>

definition call_from_json :: "json \<Rightarrow> call option" where
  "call_from_json j = Option.bind (members j) (\<lambda>d.
     if \<not> fst ` set d \<subseteq> set CALL_FIELDS then None
     else Option.bind (must as_nat ''index'' d) (\<lambda>i.
     Option.bind (must as_str ''call_id'' d) (\<lambda>ci.
     Option.bind (must as_str ''tool'' d) (\<lambda>tl.
     Option.bind (may as_str ''{}'' ''args'' d) (\<lambda>ar.
     Option.bind (may as_nat 0 ''cut'' d) (\<lambda>cu.
     Option.bind (may (\<lambda>j. Option.bind (as_str j) call_state_of) CALL_UNFINISHED ''state'' d) (\<lambda>st.
     Option.bind (may as_int 0 ''duration_s'' d) (\<lambda>du.
     Option.bind (may as_str [] ''caption'' d) (\<lambda>ca.
     Option.bind (may as_str [] ''remark'' d) (\<lambda>re.
       Some \<lparr>cl_index = i, cl_call_id = ci, cl_tool = tl, cl_args = ar, cl_cut = cu, cl_state = st,
             cl_duration = du, cl_caption = ca, cl_remark = re\<rparr>))))))))))"

definition decode_calls :: "json \<Rightarrow> call list" where
  "decode_calls j = (case Option.bind (as_list j) (all_of call_from_json) of Some cs \<Rightarrow> cs | None \<Rightarrow> [])"

record trace_record =
  tr_token :: string
  tr_agent :: string
  tr_conversation_id :: string
  tr_created_at :: stamp
  tr_finished_at :: stamp
  tr_calls :: json
  tr_channel_id :: string
  tr_kind :: string
  tr_post_id :: string
  tr_owner :: string

text \<open>The table, under its primary key.\<close>

definition create_trace :: "trace_record \<Rightarrow> trace_record list \<Rightarrow> trace_record list option" where
  "create_trace r rows = (if \<exists>r' \<in> set rows. tr_token r' = tr_token r then None else Some (rows @ [r]))"

definition get_trace :: "string \<Rightarrow> trace_record list \<Rightarrow> trace_record option" where
  "get_trace token rows = fetchone (\<lambda>r. tr_token r = token) rows"

definition prune_traces :: "stamp \<Rightarrow> trace_record list \<Rightarrow> trace_record list \<times> nat" where
  "prune_traces before rows =
     (del_where (\<lambda>r. tr_finished_at r < before) rows, rowcount (\<lambda>r. tr_finished_at r < before) rows)"

section \<open>The journal\<close>

datatype turn_status = STATUS_RUNNING | STATUS_AWAITING_INPUT | STATUS_DONE | STATUS_FAILED

record step =
  st_id :: string
  st_title :: string
  st_state :: string
  st_note :: string

record screen_card =
  sc_text :: string
  sc_actions :: "control list"
  sc_accent :: string
  sc_steps :: "step list"

text \<open>An event's type with its payload.\<close>

datatype turn_payload =
    EV_TURN_STARTED string
  | EV_TOOL_STARTED string string string
  | EV_TOOL_FINISHED string string bool
  | EV_PROGRESS string
  | EV_TOOL_AWAITING string string string
  | EV_MESSAGE string string
  | EV_NOTICE string string "(string \<times> string) option"
  | EV_ACTIONS string string "control list"
  | EV_CONFIRMATION string approval_request "control list"
  | EV_CONFIRMATION_UPDATED string approval_request "control list"
  | EV_ACTIONS_RETIRED string string
  | EV_CARDS string "screen_card list"
  | EV_FILE string string string string
  | EV_TURN_FINISHED turn_outcome int nat nat string

record turn_event =
  ev_seq :: nat
  ev_at :: stamp
  ev_what :: turn_payload

text \<open>\<open>j_changed\<close> counts the replacements of the event a waiter holds.\<close>

record journal =
  j_status :: turn_status
  j_finished_at :: "int option"
  j_events :: "turn_event list"
  j_changed :: nat

definition new_journal :: journal where
  "new_journal = \<lparr>j_status = STATUS_RUNNING, j_finished_at = None, j_events = [], j_changed = 0\<rparr>"

definition cursor :: "journal \<Rightarrow> nat" where
  "cursor j = (if j_events j = [] then 0 else ev_seq (last (j_events j)))"

definition finished :: "journal \<Rightarrow> bool" where
  "finished j \<longleftrightarrow> j_finished_at j \<noteq> None"

definition wake :: "journal \<Rightarrow> journal" where
  "wake j = j\<lparr>j_changed := Suc (j_changed j)\<rparr>"

definition emit :: "stamp \<Rightarrow> turn_payload \<Rightarrow> journal \<Rightarrow> journal" where
  "emit at what j = wake (j\<lparr>j_events := j_events j @ [\<lparr>ev_seq = cursor j + 1, ev_at = at, ev_what = what\<rparr>]\<rparr>)"

definition set_status :: "turn_status \<Rightarrow> journal \<Rightarrow> journal" where
  "set_status st j = (if \<not> finished j then wake (j\<lparr>j_status := st\<rparr>) else j)"

definition finish_journal :: "turn_status \<Rightarrow> int \<Rightarrow> journal \<Rightarrow> journal" where
  "finish_journal st now j = wake (j\<lparr>j_status := st, j_finished_at := Some now\<rparr>)"

definition since :: "nat \<Rightarrow> journal \<Rightarrow> turn_event list" where
  "since after j = filter (\<lambda>e. ev_seq e > after) (j_events j)"

text \<open>
  \<open>wait\<close>: what is there already is answered; otherwise the poll sleeps, holding the event that is
  current, and when it is set answers \<open>since after\<close>; when the time is up before, nothing.
\<close>

datatype poll_state = PollAnswers "turn_event list" | PollSleeps nat

definition poll_starts :: "nat \<Rightarrow> int \<Rightarrow> journal \<Rightarrow> poll_state" where
  "poll_starts after max_wait j =
     (let found = since after j in
      if found \<noteq> [] \<or> max_wait \<le> 0 \<or> finished j then PollAnswers found else PollSleeps (j_changed j))"

definition poll_woken :: "nat \<Rightarrow> journal \<Rightarrow> bool" where
  "poll_woken held j \<longleftrightarrow> held \<noteq> j_changed j"

definition poll_ends :: "nat \<Rightarrow> nat \<Rightarrow> journal \<Rightarrow> turn_event list" where
  "poll_ends after held j = (if poll_woken held j then since after j else [])"

section \<open>What a record keeps\<close>

lemma as_nat_int [simp]: "as_nat (JInt (int n)) = Some n"
  by (simp add: as_nat_def)

lemma call_state_round [simp]: "call_state_of (call_state_text st) = Some st"
  by (cases st) (simp_all add: call_state_of_def)

lemma call_round_trip: "call_from_json (call_to_json c) = Some c"
  by (simp add: call_from_json_def call_to_json_def CALL_FIELDS_def json_read)

lemma calls_round_trip: "decode_calls (encode_calls cs) = cs"
  by (simp add: decode_calls_def encode_calls_def all_of_id call_round_trip)

section \<open>The calls follow the events\<close>

text \<open>What became of one call, read from the events alone.\<close>

fun story_step :: "string \<Rightarrow> run_event \<Rightarrow> call_state option \<Rightarrow> call_state option" where
  "story_step k (ToolStarted call_id tool args caption) st = (if call_id = k then Some CALL_UNFINISHED else st)"
| "story_step k (ToolFinished call_id tool is_error duration) st =
     (if call_id = k \<and> st = Some CALL_UNFINISHED then Some (if is_error then CALL_FAILED else CALL_OK) else st)"
| "story_step k _ st = st"

definition call_story :: "string \<Rightarrow> run_event list \<Rightarrow> call_state option" where
  "call_story k es = fold (story_step k) es None"

definition started_calls :: "run_event list \<Rightarrow> string list" where
  "started_calls es = concat (map (\<lambda>e. case e of ToolStarted k t a c \<Rightarrow> [k] | _ \<Rightarrow> []) es)"

definition collect_calls :: "run_event list \<Rightarrow> turn_calls" where
  "collect_calls es = fold (\<lambda>e tc. fst (calls_on_event e tc)) es no_calls"

lemma story_snoc: "call_story k (es @ [e]) = story_step k e (call_story k es)"
  by (simp add: call_story_def)

lemma started_snoc: "started_calls (es @ [e]) = started_calls es @ (case e of ToolStarted k t a c \<Rightarrow> [k] | _ \<Rightarrow> [])"
  by (simp add: started_calls_def)

lemma collect_snoc: "collect_calls (es @ [e]) = fst (calls_on_event e (collect_calls es))"
  by (simp add: collect_calls_def)

lemma story_unstarted: "k \<notin> set (started_calls es) \<Longrightarrow> call_story k es = None"
proof (induction es rule: rev_induct)
  case (snoc e es)
  then have "call_story k es = None" by (simp add: started_snoc)
  then show ?case using snoc.prems by (cases e) (auto simp: story_snoc started_snoc)
qed (simp add: call_story_def)

text \<open>
  The bookkeeping agrees with the events: the calls are the started ones, in order, each in the
  state of its story; the open ones are the unfinished ones, under their id.
\<close>

definition follows :: "run_event list \<Rightarrow> turn_calls \<Rightarrow> bool" where
  "follows es tc \<longleftrightarrow> map cl_call_id (tc_calls tc) = started_calls es
     \<and> map cl_index (tc_calls tc) = [0..<length (tc_calls tc)]
     \<and> (\<forall>i < length (tc_calls tc). Some (cl_state (tc_calls tc ! i)) = call_story (started_calls es ! i) es)
     \<and> (\<forall>k i. map_of (tc_open tc) k = Some i \<longleftrightarrow>
          i < length (tc_calls tc) \<and> started_calls es ! i = k \<and> cl_state (tc_calls tc ! i) = CALL_UNFINISHED)
     \<and> distinct (map fst (tc_open tc))
     \<and> (\<forall>i. tc_awaiting tc = Some i \<longrightarrow> i < length (tc_calls tc) \<and> cl_state (tc_calls tc ! i) = CALL_UNFINISHED)"

lemma followsD:
  assumes "follows es tc"
  shows "map cl_call_id (tc_calls tc) = started_calls es" "map cl_index (tc_calls tc) = [0..<length (tc_calls tc)]"
    and "i < length (tc_calls tc) \<Longrightarrow> Some (cl_state (tc_calls tc ! i)) = call_story (started_calls es ! i) es"
    and "map_of (tc_open tc) k = Some i \<longleftrightarrow>
          i < length (tc_calls tc) \<and> started_calls es ! i = k \<and> cl_state (tc_calls tc ! i) = CALL_UNFINISHED"
    and "distinct (map fst (tc_open tc))"
    and "tc_awaiting tc = Some i \<Longrightarrow> i < length (tc_calls tc) \<and> cl_state (tc_calls tc ! i) = CALL_UNFINISHED"
    and "length (started_calls es) = length (tc_calls tc)"
proof -
  show "length (started_calls es) = length (tc_calls tc)"
    using assms unfolding follows_def by (metis length_map)
qed (use assms in \<open>unfold follows_def, blast+\<close>)

lemma follows_started:
  assumes f: "follows es tc" and new: "k \<notin> set (started_calls es)"
  shows "follows (es @ [ToolStarted k tool args caption]) (fst (calls_on_event (ToolStarted k tool args caption) tc))"
    (is "follows ?es ?tc")
proof -
  note [simp] = followsD(7) [OF f]
  have st: "started_calls ?es = started_calls es @ [k]" by (simp add: started_snoc)
  have other: "call_story (started_calls es ! i) ?es = call_story (started_calls es ! i) es" if "i < length (tc_calls tc)" for i
    using that new by (auto simp: story_snoc in_set_conv_nth)
  have old: "map_of (tc_open tc) k = None"
    using followsD(4) [OF f, of k] new by (cases "map_of (tc_open tc) k") (auto simp: in_set_conv_nth)
  have "map_of (tc_open ?tc) x = Some i \<longleftrightarrow> i < length (tc_calls ?tc) \<and> started_calls ?es ! i = x
          \<and> cl_state (tc_calls ?tc ! i) = CALL_UNFINISHED" for x i
    using followsD(4) [OF f, of x i] old new
    by (auto simp: AList.update_conv' st nth_append less_Suc_eq Let_def in_set_conv_nth split: if_splits)
  moreover have "distinct (map fst (tc_open ?tc))"
    by (simp add: Let_def AList.distinct_update followsD(5) [OF f])
  moreover have "Some (cl_state (tc_calls ?tc ! i)) = call_story (started_calls ?es ! i) ?es" if "i < length (tc_calls ?tc)" for i
  proof (cases "i < length (tc_calls tc)")
    case True
    then show ?thesis using followsD(3) [OF f, of i] other [of i] by (simp add: st nth_append Let_def)
  next
    case False
    then have "i = length (tc_calls tc)" using that by (simp add: Let_def)
    moreover have "call_story k ?es = Some CALL_UNFINISHED" by (simp add: story_snoc)
    ultimately show ?thesis by (simp add: st nth_append Let_def)
  qed
  moreover have "tc_awaiting ?tc = Some i \<longrightarrow> i < length (tc_calls ?tc) \<and> cl_state (tc_calls ?tc ! i) = CALL_UNFINISHED" for i
    using followsD(6) [OF f, of i] by (auto simp: Let_def nth_append)
  ultimately show ?thesis unfolding follows_def using followsD(1,2) [OF f] by (simp add: st Let_def)
qed

lemma map_update_same: "f y = f (xs ! i) \<Longrightarrow> map f (xs[i := y]) = map f xs"
  by (metis list_update_id map_update)

lemma follows_finished:
  assumes f: "follows es tc" and d: "distinct (started_calls es)"
  shows "follows (es @ [ToolFinished k tool err dur]) (fst (calls_on_event (ToolFinished k tool err dur) tc))"
    (is "follows ?es ?tc")
proof (cases "map_of (tc_open tc) k")
  case None
  have "call_story x ?es = call_story x es" if "x \<in> set (started_calls es)" for x
  proof (cases "x = k \<and> call_story x es = Some CALL_UNFINISHED")
    case True
    then have "k \<in> set (started_calls es)" using that by simp
    then obtain i where i: "i < length (tc_calls tc)" "started_calls es ! i = k"
      using followsD(7) [OF f] by (auto simp: in_set_conv_nth)
    then have "cl_state (tc_calls tc ! i) = CALL_UNFINISHED" using followsD(3) [OF f i(1)] True i(2) by auto
    then show ?thesis using followsD(4) [OF f, of k i] i None by simp
  qed (auto simp: story_snoc)
  then show ?thesis using f followsD(7) [OF f]
    by (simp add: follows_def None started_snoc)
next
  case (Some i)
  then have i: "i < length (tc_calls tc)" "started_calls es ! i = k" "cl_state (tc_calls tc ! i) = CALL_UNFINISHED"
    using followsD(4) [OF f, of k i] by simp_all
  note [simp] = followsD(7) [OF f]
  have st: "started_calls ?es = started_calls es" by (simp add: started_snoc)
  define new where "new = (if err then CALL_FAILED else CALL_OK)"
  have new: "new \<noteq> CALL_UNFINISHED" by (simp add: new_def)
  define tc' where "tc' = ?tc"
  have tc: "tc_calls tc' = (tc_calls tc)[i := (tc_calls tc ! i)\<lparr>cl_state := new, cl_duration := dur\<rparr>]"
    "tc_open tc' = AList.delete k (tc_open tc)" "tc_awaiting tc' = (if tc_awaiting tc = Some i then None else tc_awaiting tc)"
    by (simp_all add: tc'_def Some new_def)
  have same: "started_calls es ! j = k \<longleftrightarrow> j = i" if "j < length (tc_calls tc)" for j
    using that i(1,2) d nth_eq_iff_index_eq [OF d, of j i] by auto
  have "call_story k es = Some CALL_UNFINISHED" using followsD(3) [OF f i(1)] i by simp
  then have sk: "call_story k ?es = Some new" by (simp add: story_snoc new_def)
  have so: "call_story x ?es = call_story x es" if "x \<noteq> k" for x using that by (simp add: story_snoc)
  have "Some (cl_state (tc_calls tc' ! j)) = call_story (started_calls ?es ! j) ?es" if "j < length (tc_calls tc')" for j
    using that followsD(3) [OF f, of j] sk so same [of j] i by (cases "j = i") (simp_all add: st tc)
  moreover have "map_of (tc_open tc') x = Some j \<longleftrightarrow> j < length (tc_calls tc') \<and> started_calls ?es ! j = x
          \<and> cl_state (tc_calls tc' ! j) = CALL_UNFINISHED" for x j
    using followsD(4) [OF f, of x j] same [of j] new i(1)
    by (auto simp: st tc AList.delete_conv' nth_list_update split: if_splits)
  moreover have "distinct (map fst (tc_open tc'))" unfolding tc by (rule AList.distinct_delete [OF followsD(5) [OF f]])
  moreover have "tc_awaiting tc' = Some j \<longrightarrow> j < length (tc_calls tc') \<and> cl_state (tc_calls tc' ! j) = CALL_UNFINISHED" for j
    using followsD(6) [OF f, of j] by (auto simp: tc nth_list_update)
  moreover have "map cl_call_id (tc_calls tc') = started_calls es" "map cl_index (tc_calls tc') = [0..<length (tc_calls tc')]"
    using followsD(1,2) [OF f] by (simp_all add: tc map_update_same)
  ultimately show ?thesis unfolding tc'_def [symmetric] follows_def st by blast
qed

lemma follows_quiet:
  assumes f: "follows es tc" and "\<And>k. story_step k e = (\<lambda>st. st)" and "started_calls (es @ [e]) = started_calls es"
    and "tc_calls tc' = tc_calls tc" "tc_open tc' = tc_open tc"
    and "\<And>i. tc_awaiting tc' = Some i \<Longrightarrow> i < length (tc_calls tc) \<and> cl_state (tc_calls tc ! i) = CALL_UNFINISHED"
  shows "follows (es @ [e]) tc'"
  using assms by (simp add: follows_def story_snoc)

lemma collect_follows: "distinct (started_calls es) \<Longrightarrow> follows es (collect_calls es)"
proof (induction es rule: rev_induct)
  case Nil
  then show ?case by (simp add: follows_def collect_calls_def started_calls_def no_calls_def)
next
  case (snoc e es)
  let ?tc = "collect_calls es"
  have d: "distinct (started_calls es)" using snoc.prems by (simp add: started_snoc)
  have f: "follows es ?tc" by (rule snoc.IH [OF d])
  show ?case unfolding collect_snoc
  proof (cases e)
    case (ToolStarted k t a c)
    then have "k \<notin> set (started_calls es)" using snoc.prems by (simp add: started_snoc)
    then show "follows (es @ [e]) (fst (calls_on_event e ?tc))" unfolding ToolStarted by (rule follows_started [OF f])
  next
    case (ToolFinished k t err dur)
    show "follows (es @ [e]) (fst (calls_on_event e ?tc))" unfolding ToolFinished by (rule follows_finished [OF f d])
  next
    case (TextProgress words)
    show "follows (es @ [e]) (fst (calls_on_event e ?tc))"
      by (rule follows_quiet [OF f]) (use followsD(6) [OF f] in \<open>auto simp: TextProgress started_snoc Let_def split: if_splits\<close>)
  next
    case (CallAwaiting tool)
    have "i < length (tc_calls ?tc) \<and> cl_state (tc_calls ?tc ! i) = CALL_UNFINISHED"
      if open_i: "i \<in> snd ` set (tc_open ?tc)" for i
    proof -
      obtain k where "(k, i) \<in> set (tc_open ?tc)" using open_i by auto
      then have "map_of (tc_open ?tc) k = Some i" using followsD(5) [OF f] by (simp add: map_of_is_SomeI)
      then show ?thesis using followsD(4) [OF f] by blast
    qed
    moreover have "last xs \<in> snd ` set (tc_open ?tc)" if "filter P (map snd (tc_open ?tc)) = xs" "xs \<noteq> []" for P xs
    proof -
      have "last xs \<in> set (filter P (map snd (tc_open ?tc)))" using that last_in_set [of xs] by simp
      then show ?thesis by auto
    qed
    ultimately have hit: "last (i # rest) < length (tc_calls ?tc)
        \<and> cl_state (tc_calls ?tc ! last (i # rest)) = CALL_UNFINISHED"
      if "filter P (map snd (tc_open ?tc)) = i # rest" for P i rest
      using that by blast
    show "follows (es @ [e]) (fst (calls_on_event e ?tc))"
    proof (cases "filter (\<lambda>i. cl_tool (tc_calls ?tc ! i) = tool) (map snd (tc_open ?tc))")
      case Nil
      then show ?thesis
        by (intro follows_quiet [OF f]) (use followsD(6) [OF f] in \<open>auto simp: CallAwaiting started_snoc\<close>)
    next
      case (Cons i rest)
      have "fst (calls_on_event e ?tc) = ?tc\<lparr>tc_awaiting := Some (last (i # rest))\<rparr>"
        unfolding CallAwaiting calls_on_event.simps Cons by simp
      then show ?thesis
        by (intro follows_quiet [OF f]) (use hit [OF Cons] in \<open>auto simp: CallAwaiting started_snoc\<close>)
    qed
  next
    case OtherEvent
    show "follows (es @ [e]) (fst (calls_on_event e ?tc))"
      by (rule follows_quiet [OF f]) (use followsD(6) [OF f] in \<open>auto simp: OtherEvent started_snoc\<close>)
  qed
qed

text \<open>The calls of a turn are what its events say, and a record of them is read back as it was:
  when the runtime names every call differently, they are the started ones in order, each finished
  exactly when its end was reported and failed when that end was an error, the call put to the
  person is one still running, and a call runs while one is unfinished.\<close>

lemma calls_tell_the_events:
  assumes "distinct (started_calls es)"
  shows "map (\<lambda>c. (cl_call_id c, Some (cl_state c))) (decode_calls (encode_calls (tc_calls (collect_calls es))))
           = map (\<lambda>k. (k, call_story k es)) (started_calls es)
     \<and> (call_running (collect_calls es) \<longleftrightarrow> Some CALL_UNFINISHED \<in> (\<lambda>k. call_story k es) ` set (started_calls es))
     \<and> failed_calls (collect_calls es)
           = length (filter (\<lambda>k. call_story k es = Some CALL_FAILED) (started_calls es))"
proof -
  let ?tc = "collect_calls es"
  have f: "follows es ?tc" by (rule collect_follows [OF assms])
  have eq: "map (\<lambda>c. (cl_call_id c, Some (cl_state c))) (tc_calls ?tc) = map (\<lambda>k. (k, call_story k es)) (started_calls es)"
  proof (rule nth_equalityI)
    fix i assume "i < length (map (\<lambda>c. (cl_call_id c, Some (cl_state c))) (tc_calls ?tc))"
    then have i: "i < length (tc_calls ?tc)" by simp
    have "cl_call_id (tc_calls ?tc ! i) = started_calls es ! i" using followsD(1) [OF f] i by (metis nth_map)
    then show "map (\<lambda>c. (cl_call_id c, Some (cl_state c))) (tc_calls ?tc) ! i = map (\<lambda>k. (k, call_story k es)) (started_calls es) ! i"
      using i followsD(3) [OF f i] followsD(7) [OF f] by simp
  qed (simp add: followsD(7) [OF f])
  have "filter (\<lambda>x. snd x = Some CALL_FAILED) (map (\<lambda>c. (cl_call_id c, Some (cl_state c))) (tc_calls ?tc))
      = filter (\<lambda>x. snd x = Some CALL_FAILED) (map (\<lambda>k. (k, call_story k es)) (started_calls es))" by (simp add: eq)
  then have "length (filter (\<lambda>c. cl_state c = CALL_FAILED) (tc_calls ?tc))
      = length (filter (\<lambda>k. call_story k es = Some CALL_FAILED) (started_calls es))"
    by (auto simp: filter_map comp_def dest: arg_cong [of _ _ length])
  moreover have "call_running ?tc \<longleftrightarrow> Some CALL_UNFINISHED \<in> (\<lambda>k. call_story k es) ` set (started_calls es)"
  proof
    assume "call_running ?tc"
    then obtain k i rest where "tc_open ?tc = (k, i) # rest"
      by (cases "tc_open ?tc") (auto simp: call_running_def)
    then have "map_of (tc_open ?tc) k = Some i" by simp
    then have i: "i < length (tc_calls ?tc)" "cl_state (tc_calls ?tc ! i) = CALL_UNFINISHED"
      using followsD(4) [OF f] by blast+
    have "call_story (started_calls es ! i) es = Some CALL_UNFINISHED" using followsD(3) [OF f i(1)] i(2) by simp
    moreover have "started_calls es ! i \<in> set (started_calls es)" using i(1) followsD(7) [OF f] by simp
    ultimately show "Some CALL_UNFINISHED \<in> (\<lambda>k. call_story k es) ` set (started_calls es)" by force
  next
    assume "Some CALL_UNFINISHED \<in> (\<lambda>k. call_story k es) ` set (started_calls es)"
    then obtain i where i: "i < length (tc_calls ?tc)" "call_story (started_calls es ! i) es = Some CALL_UNFINISHED"
      using followsD(7) [OF f] by (auto simp: in_set_conv_nth)
    then have "map_of (tc_open ?tc) (started_calls es ! i) = Some i"
      using followsD(3) [OF f i(1)] followsD(4) [OF f, of _ i] by simp
    then show "call_running ?tc" by (auto simp: call_running_def)
  qed
  ultimately show ?thesis by (simp add: eq calls_round_trip failed_calls_def)
qed

definition sample_run_events :: "run_event list" where
  "sample_run_events = [TextProgress ''looking'', ToolStarted ''a'' ''read'' ''{}'' [], ToolStarted ''b'' ''bash'' ''{}'' [],
     CallAwaiting ''bash'', ToolFinished ''a'' ''read'' True 5, ToolFinished ''x'' ''y'' False 5]"

lemma calls_tell_the_events_witness:
  "call_running (collect_calls sample_run_events) \<and> failed_calls (collect_calls sample_run_events) = 1"
proof -
  have "distinct (started_calls sample_run_events)" by code_simp
  from calls_tell_the_events [OF this] show ?thesis
    by (simp add: sample_run_events_def started_calls_def call_story_def)
qed

end
