(* ===== verification/HttpTurns.thy ===== *)
theory HttpTurns
  imports Contracts TurnJournal
begin

text \<open>
  The turns in flight on the HTTP gateway: \<open>packages/crucible/src/crucible/gateways/http/turns.py\<close>,
  and what an agent posts into them, \<open>gateways/http/client.py\<close>.

  A turn is an object the tables share; the tables hold ids, and \<open>ht_turns\<close> the object behind
  each, also when a sweep has forgotten the id.  Times of the loop, moments of the clock and random
  ids are arguments; where the code awaits the store of held cards between reading and writing, the
  two are operations of their own.
\<close>

section \<open>State\<close>

definition STARTED_BY_CALLER :: string where "STARTED_BY_CALLER = ''caller''"
definition STARTED_BY_ENGINE :: string where "STARTED_BY_ENGINE = ''engine''"
definition GATEWAY_HTTP :: string where "GATEWAY_HTTP = ''http''"

record turn =
  t_agent :: string
  t_conversation :: string
  t_owner :: string
  t_client_message_id :: string
  t_journal :: journal
  t_started_by :: string
  t_runtime_session_id :: string
  t_posted :: "string \<rightharpoonup> control list"
  t_blocking :: "string set"
  t_calls :: turn_calls
  t_trace_token :: string
  t_started_at :: int

record http_config =
  hc_retention :: int
  hc_remembered :: nat
  hc_traces :: bool

record http_turns =
  ht_turns :: "string \<rightharpoonup> turn"
  ht_by_id :: "string list"
  ht_active :: "(string \<times> string) list"
  ht_by_message :: "((string \<times> string) \<times> string) list"
  ht_idle :: bool
  ht_cards :: "held_card list"
  ht_traces :: "trace_record list"

definition no_turns_yet :: http_turns where
  "no_turns_yet = \<lparr>ht_turns = Map.empty, ht_by_id = [], ht_active = [], ht_by_message = [], ht_idle = True,
     ht_cards = [], ht_traces = []\<rparr>"

definition get_turn :: "http_turns \<Rightarrow> string \<Rightarrow> turn option" where
  "get_turn s turn_id = (if turn_id \<in> set (ht_by_id s) then ht_turns s turn_id else None)"

definition active_turn :: "http_turns \<Rightarrow> string \<Rightarrow> string option" where
  "active_turn s conv = map_of (ht_active s) conv"

definition known_turn :: "http_turns \<Rightarrow> string \<Rightarrow> string \<Rightarrow> string option" where
  "known_turn s conv message =
     (case map_of (ht_by_message s) (conv, message) of None \<Rightarrow> None
      | Some i \<Rightarrow> if i \<in> set (ht_by_id s) then Some i else None)"

definition active_count :: "http_turns \<Rightarrow> nat" where
  "active_count s = length (ht_active s)"

text \<open>A change of the object \<open>i\<close>, and one of its journal.\<close>

definition at_turn :: "string \<Rightarrow> (turn \<Rightarrow> turn) \<Rightarrow> http_turns \<Rightarrow> http_turns" where
  "at_turn i f s = s\<lparr>ht_turns := (ht_turns s)(i := map_option f (ht_turns s i))\<rparr>"

definition tells_journal :: "stamp \<Rightarrow> turn_payload \<Rightarrow> turn \<Rightarrow> turn" where
  "tells_journal at what t = t\<lparr>t_journal := emit at what (t_journal t)\<rparr>"

definition set_turn_status :: "turn_status \<Rightarrow> turn \<Rightarrow> turn" where
  "set_turn_status st t = t\<lparr>t_journal := set_status st (t_journal t)\<rparr>"

section \<open>Starting and ending\<close>

datatype start_answer = Created string | Known string | TurnInProgress string

definition new_turn :: "string \<Rightarrow> string \<Rightarrow> string \<Rightarrow> string \<Rightarrow> string \<Rightarrow> int \<Rightarrow> stamp \<Rightarrow> turn" where
  "new_turn agent conv owner message started_by now at =
     tells_journal at (EV_TURN_STARTED started_by)
     \<lparr>t_agent = agent, t_conversation = conv, t_owner = owner, t_client_message_id = message,
      t_journal = new_journal, t_started_by = started_by, t_runtime_session_id = [], t_posted = Map.empty,
      t_blocking = {}, t_calls = no_calls, t_trace_token = [], t_started_at = now\<rparr>"

definition start_turn :: "http_config \<Rightarrow> string \<Rightarrow> string \<Rightarrow> string \<Rightarrow> string \<Rightarrow> string \<Rightarrow> string \<Rightarrow> int \<Rightarrow> stamp
    \<Rightarrow> http_turns \<Rightarrow> http_turns \<times> start_answer" where
  "start_turn cfg agent conv owner message started_by i now at s =
     (case known_turn s conv message of
        Some k \<Rightarrow> (s, Known k)
      | None \<Rightarrow>
        (case active_turn s conv of
           Some r \<Rightarrow> (s, TurnInProgress r)
         | None \<Rightarrow>
             (let messages = AList.update (conv, message) i (ht_by_message s) in
              (s\<lparr>ht_turns := (ht_turns s)(i \<mapsto> new_turn agent conv owner message started_by now at),
                 ht_by_id := ht_by_id s @ [i],
                 ht_active := AList.update conv i (ht_active s), ht_idle := False,
                 ht_by_message := drop (length messages - hc_remembered cfg) messages\<rparr>, Created i))))"

fun failed_outcome :: "turn_outcome \<Rightarrow> bool" where
  "failed_outcome TIMEOUT = True"
| "failed_outcome ERROR = True"
| "failed_outcome _ = False"

text \<open>\<open>round(took, 1)\<close>, in tenths of a second, ties to the even one.\<close>

definition tenths :: "int \<Rightarrow> int" where
  "tenths micros =
     (let q = micros div 100000; r = micros mod 100000 in
      if r > 50000 \<or> r = 50000 \<and> q mod 2 = 1 then q + 1 else q)"

definition end_turn :: "turn_outcome \<Rightarrow> int \<Rightarrow> stamp \<Rightarrow> turn \<Rightarrow> turn" where
  "end_turn outcome now at t =
     (let t1 = t\<lparr>t_posted := Map.empty, t_blocking := {}\<rparr>;
          took = (if t_started_at t1 \<noteq> 0 then now - t_started_at t1 else 0);
          t2 = tells_journal at (EV_TURN_FINISHED outcome (tenths took) (length (tc_calls (t_calls t1)))
                 (failed_calls (t_calls t1)) (t_trace_token t1)) t1 in
      t2\<lparr>t_journal := finish_journal (if failed_outcome outcome then STATUS_FAILED else STATUS_DONE) now (t_journal t2)\<rparr>)"

definition finish_turn :: "string \<Rightarrow> turn_outcome \<Rightarrow> int \<Rightarrow> stamp \<Rightarrow> http_turns \<Rightarrow> http_turns" where
  "finish_turn i outcome now at s =
     (case ht_turns s i of None \<Rightarrow> s
      | Some t \<Rightarrow>
        let s1 = at_turn i (end_turn outcome now at) s;
            running = (if active_turn s1 (t_conversation t) = Some i
                       then AList.delete (t_conversation t) (ht_active s1) else ht_active s1) in
        s1\<lparr>ht_active := running, ht_idle := (if running = [] then True else ht_idle s1)\<rparr>)"

definition abandon_turn :: "string \<Rightarrow> int \<Rightarrow> stamp \<Rightarrow> http_turns \<Rightarrow> http_turns" where
  "abandon_turn i now at s = finish_turn i ERROR now at s"

definition stale :: "http_config \<Rightarrow> int \<Rightarrow> http_turns \<Rightarrow> string \<Rightarrow> bool" where
  "stale cfg now s i =
     (case ht_turns s i of None \<Rightarrow> False
      | Some t \<Rightarrow> (case j_finished_at (t_journal t) of None \<Rightarrow> False | Some f \<Rightarrow> now - f > hc_retention cfg))"

definition sweep :: "http_config \<Rightarrow> int \<Rightarrow> http_turns \<Rightarrow> http_turns \<times> nat" where
  "sweep cfg now s =
     (s\<lparr>ht_by_id := filter (\<lambda>i. \<not> stale cfg now s i) (ht_by_id s)\<rparr>,
      length (filter (stale cfg now s) (ht_by_id s)))"

section \<open>The runtime's events\<close>

definition begin_trace :: "string \<Rightarrow> string \<Rightarrow> http_turns \<Rightarrow> http_turns \<times> string option" where
  "begin_trace conv session s =
     (case active_turn s conv of
        None \<Rightarrow> (s, None)
      | Some i \<Rightarrow> (at_turn i (\<lambda>t. t\<lparr>t_runtime_session_id := session\<rparr>) s, Some i))"

definition event_of_run :: "stamp \<Rightarrow> run_event \<Rightarrow> turn \<Rightarrow> turn" where
  "event_of_run at e t =
     (case calls_on_event e (t_calls t) of (tc, changed) \<Rightarrow>
        let t1 = t\<lparr>t_calls := tc\<rparr> in
        case e of
          ToolStarted k tool args caption \<Rightarrow> tells_journal at (EV_TOOL_STARTED k tool caption) t1
        | TextProgress w \<Rightarrow> tells_journal at (EV_PROGRESS w) t1
        | ToolFinished k tool err d \<Rightarrow> tells_journal at (EV_TOOL_FINISHED k tool (\<not> err)) t1
        | CallAwaiting tool \<Rightarrow>
            (case awaiting_call tc of
               Some c \<Rightarrow> if changed then tells_journal at (EV_TOOL_AWAITING (cl_call_id c) (cl_tool c) (cl_caption c)) t1 else t1
             | None \<Rightarrow> t1)
        | OtherEvent \<Rightarrow> t1)"

definition trace_event :: "string option \<Rightarrow> stamp \<Rightarrow> run_event \<Rightarrow> http_turns \<Rightarrow> http_turns" where
  "trace_event turn at e s = (case turn of None \<Rightarrow> s | Some i \<Rightarrow> at_turn i (event_of_run at e) s)"

text \<open>\<open>end\<close> of the tracer: the calls are written under a new token, or writing raised.\<close>

definition trace_end :: "http_config \<Rightarrow> string option \<Rightarrow> string \<Rightarrow> stamp \<Rightarrow> stamp \<Rightarrow> http_turns \<Rightarrow> http_turns" where
  "trace_end cfg turn token created at s =
     (case turn of None \<Rightarrow> s
      | Some i \<Rightarrow>
        (case ht_turns s i of None \<Rightarrow> s
         | Some t \<Rightarrow>
           if \<not> hc_traces cfg \<or> tc_calls (t_calls t) = [] then s
           else
             (case create_trace \<lparr>tr_token = token, tr_agent = t_agent t, tr_conversation_id = t_conversation t,
                     tr_created_at = created, tr_finished_at = at, tr_calls = encode_calls (tc_calls (t_calls t)),
                     tr_channel_id = [], tr_kind = [], tr_post_id = [], tr_owner = t_owner t\<rparr> (ht_traces s) of
                None \<Rightarrow> s
              | Some rows \<Rightarrow> at_turn i (\<lambda>t. t\<lparr>t_trace_token := token\<rparr>) (s\<lparr>ht_traces := rows\<rparr>))))"

definition trace_of :: "http_config \<Rightarrow> string \<Rightarrow> http_turns \<Rightarrow> trace_record option" where
  "trace_of cfg token s = (if hc_traces cfg then get_trace token (ht_traces s) else None)"

section \<open>What an agent posts\<close>

text \<open>An operation on the turn running in a conversation; without one it is dropped.\<close>

definition in_turn :: "string \<Rightarrow> (turn \<Rightarrow> turn) \<Rightarrow> http_turns \<Rightarrow> http_turns" where
  "in_turn conv f s = (case active_turn s conv of None \<Rightarrow> s | Some i \<Rightarrow> at_turn i f s)"

definition post_reply :: "string \<Rightarrow> string \<Rightarrow> string \<Rightarrow> stamp \<Rightarrow> http_turns \<Rightarrow> http_turns" where
  "post_reply conv message_id words at s = in_turn conv (tells_journal at (EV_MESSAGE message_id words)) s"

definition post_notice :: "string \<Rightarrow> string \<Rightarrow> string \<Rightarrow> stamp \<Rightarrow> http_turns \<Rightarrow> http_turns" where
  "post_notice conv words code at s = in_turn conv (tells_journal at (EV_NOTICE code words None)) s"

definition post_private_notice :: "string \<Rightarrow> string \<Rightarrow> string \<Rightarrow> string \<Rightarrow> string \<Rightarrow> stamp \<Rightarrow> http_turns \<Rightarrow> http_turns" where
  "post_private_notice conv words code link label at s =
     in_turn conv (tells_journal at (EV_NOTICE code words (if link \<noteq> [] then Some (link, label) else None))) s"

text \<open>Files as name, type and the base64 text of their data; the text goes with the first.\<close>

fun tell_files :: "stamp \<Rightarrow> (string \<times> string \<times> string) list \<Rightarrow> string \<Rightarrow> turn \<Rightarrow> turn" where
  "tell_files at [] words t = t"
| "tell_files at ((n, m, d) # fs) words t = tell_files at fs [] (tells_journal at (EV_FILE n m d words) t)"

definition post_files :: "string \<Rightarrow> (string \<times> string \<times> string) list \<Rightarrow> string \<Rightarrow> stamp \<Rightarrow> http_turns \<Rightarrow> http_turns" where
  "post_files conv files words at s = in_turn conv (tell_files at files words) s"

definition ask_in :: "string \<Rightarrow> string \<Rightarrow> control list \<Rightarrow> stamp \<Rightarrow> turn \<Rightarrow> turn" where
  "ask_in post words actions at t =
     set_turn_status STATUS_AWAITING_INPUT (tells_journal at (EV_ACTIONS post words actions)
       (t\<lparr>t_posted := (t_posted t)(post \<mapsto> actions), t_blocking := insert post (t_blocking t)\<rparr>))"

definition post_actions :: "string \<Rightarrow> string \<Rightarrow> string \<Rightarrow> control list \<Rightarrow> stamp \<Rightarrow> http_turns \<Rightarrow> http_turns" where
  "post_actions conv post words actions at s = in_turn conv (ask_in post words actions at) s"

text \<open>What a card with these controls means for the turn.\<close>

definition settle_card :: "string \<Rightarrow> control list \<Rightarrow> turn \<Rightarrow> turn" where
  "settle_card post answers t =
     (let t1 = t\<lparr>t_posted := (t_posted t)(post \<mapsto> answers)\<rparr> in
      if answers \<noteq> []
      then set_turn_status STATUS_AWAITING_INPUT (t1\<lparr>t_blocking := insert post (t_blocking t1)\<rparr>)
      else let t2 = t1\<lparr>t_blocking := t_blocking t1 - {post}\<rparr> in
           if t_blocking t2 = {} then set_turn_status STATUS_RUNNING t2 else t2)"

definition held_of :: "string \<Rightarrow> string \<Rightarrow> string \<Rightarrow> approval_request \<Rightarrow> control list \<Rightarrow> stamp \<Rightarrow> held_card" where
  "held_of conv post agent q actions at =
     \<lparr>h_gateway = GATEWAY_HTTP, h_conversation = conv, h_post_id = post, h_agent = agent,
      h_card = approval_card_to_json q, h_actions = actions_to_json actions, h_held_at = at\<rparr>"

definition hold :: "string \<Rightarrow> string \<Rightarrow> string \<Rightarrow> approval_request \<Rightarrow> control list \<Rightarrow> stamp \<Rightarrow> http_turns \<Rightarrow> http_turns" where
  "hold conv post agent q actions at s = s\<lparr>ht_cards := hold_card (held_of conv post agent q actions at) (ht_cards s)\<rparr>"

definition release :: "string \<Rightarrow> http_turns \<Rightarrow> http_turns" where
  "release post s = s\<lparr>ht_cards := release_card post (ht_cards s)\<rparr>"

definition held_by :: "string \<Rightarrow> http_turns \<Rightarrow> held_card list" where
  "held_by conv s = held_cards GATEWAY_HTTP conv (ht_cards s)"

definition held :: "string \<Rightarrow> http_turns \<Rightarrow> held_card option" where
  "held post s = held_card_of post (ht_cards s)"

definition post_confirmation :: "string \<Rightarrow> string \<Rightarrow> string \<Rightarrow> approval_request \<Rightarrow> control list \<Rightarrow> stamp
    \<Rightarrow> http_turns \<Rightarrow> http_turns" where
  "post_confirmation agent conv post q actions at s =
     (case active_turn s conv of
        None \<Rightarrow> hold conv post agent q actions at s
      | Some i \<Rightarrow> at_turn i (\<lambda>t. settle_card post actions (tells_journal at (EV_CONFIRMATION post q actions) t)) s)"

text \<open>The running turn that knows a post.\<close>

definition turn_of_post :: "string \<Rightarrow> http_turns \<Rightarrow> string option" where
  "turn_of_post post s =
     (case filter (\<lambda>i. case ht_turns s i of None \<Rightarrow> False | Some t \<Rightarrow> t_posted t post \<noteq> None) (map snd (ht_active s)) of
        [] \<Rightarrow> None | i # rest \<Rightarrow> Some i)"

text \<open>Rewriting a card of a turn; outside one, the held card is read first (\<open>False\<close> says so).\<close>

definition update_confirmation :: "string \<Rightarrow> approval_request \<Rightarrow> control list \<Rightarrow> stamp \<Rightarrow> http_turns \<Rightarrow> http_turns \<times> bool" where
  "update_confirmation post q answers at s =
     (case turn_of_post post s of
        None \<Rightarrow> (s, False)
      | Some i \<Rightarrow>
          (at_turn i (\<lambda>t. settle_card post answers (tells_journal at (EV_CONFIRMATION_UPDATED post q answers) t)) s, True))"

definition update_held :: "held_card option \<Rightarrow> string \<Rightarrow> string \<Rightarrow> approval_request \<Rightarrow> control list \<Rightarrow> stamp
    \<Rightarrow> http_turns \<Rightarrow> http_turns" where
  "update_held found agent post q answers at s =
     (case found of None \<Rightarrow> s
      | Some h \<Rightarrow> if answers \<noteq> [] then hold (h_conversation h) post agent q answers at s else release post s)"

text \<open>Taking a post's controls away, as \<open>retract\<close> here and \<open>_retire\<close> of the hub do.\<close>

definition retire :: "string \<Rightarrow> string \<Rightarrow> stamp \<Rightarrow> turn \<Rightarrow> turn" where
  "retire post words at t =
     (let t1 = tells_journal at (EV_ACTIONS_RETIRED post words)
                 (t\<lparr>t_posted := (t_posted t)(post := None), t_blocking := t_blocking t - {post}\<rparr>) in
      if t_blocking t1 = {} then set_turn_status STATUS_RUNNING t1 else t1)"

definition retract :: "string \<Rightarrow> string \<Rightarrow> stamp \<Rightarrow> http_turns \<Rightarrow> http_turns" where
  "retract post words at s =
     (case turn_of_post post s of None \<Rightarrow> release post s | Some i \<Rightarrow> at_turn i (retire post words at) s)"

definition delete_post :: "string \<Rightarrow> stamp \<Rightarrow> http_turns \<Rightarrow> http_turns" where
  "delete_post post at s = retract post [] at s"

definition cards_in :: "string \<Rightarrow> screen_card list \<Rightarrow> stamp \<Rightarrow> turn \<Rightarrow> turn" where
  "cards_in post cards at t =
     tells_journal at (EV_CARDS post cards) (t\<lparr>t_posted := (t_posted t)(post \<mapsto> concat (map sc_actions cards))\<rparr>)"

definition post_cards :: "string \<Rightarrow> string \<Rightarrow> screen_card list \<Rightarrow> stamp \<Rightarrow> http_turns \<Rightarrow> http_turns" where
  "post_cards conv post cards at s = in_turn conv (cards_in post cards at) s"

definition update_cards :: "string \<Rightarrow> screen_card list \<Rightarrow> stamp \<Rightarrow> http_turns \<Rightarrow> http_turns" where
  "update_cards post cards at s =
     (case turn_of_post post s of None \<Rightarrow> s | Some i \<Rightarrow> at_turn i (cards_in post cards at) s)"

end
