(* ===== verification/HttpHub.thy ===== *)
theory HttpHub
  imports HttpTurns Approvals
begin

text \<open>
  The request/turn API: the handlers of \<open>packages/crucible/src/crucible/gateways/http/hub.py\<close> with
  the callers of \<open>gateways/http/auth.py\<close>.

  A handler is what it does between two awaits: one that awaits the attachment store, the
  dispatcher or the store of held cards in its middle is a function for each part.  What those
  answer, whether a request's files are well-formed, the clocks and the random ids are arguments.
  A refusal is the status, the code and the id of a running turn it carries; its sentence, the
  routes, the readiness probes and aiohttp's envelope are left out.
\<close>

section \<open>Callers\<close>

record caller =
  cr_realm :: string
  cr_user_id :: string
  cr_username :: string
  cr_agents :: "string list option"

definition owner :: "caller \<Rightarrow> string" where
  "owner c = cr_realm c @ ''/'' @ cr_user_id c"

text \<open>The callers by token: the last entry with the token presented is the caller.\<close>

definition find_by_secret :: "(string \<times> 'a) list \<Rightarrow> string \<Rightarrow> 'a option" where
  "find_by_secret entries presented = fold (\<lambda>(secret, v) found. if secret = presented then Some v else found) entries None"

definition removeprefix :: "string \<Rightarrow> string \<Rightarrow> string" where
  "removeprefix p s = (if starts_with p s then drop (length p) s else s)"

text \<open>The entries are \<open>(token, (name, allowlist))\<close> of the callers that have a token.\<close>

definition authenticate :: "(string \<times> string \<times> string list option) list \<Rightarrow> string \<Rightarrow> string \<Rightarrow> string \<Rightarrow> caller option" where
  "authenticate callers authorization user_header username_header =
     (case find_by_secret (filter (\<lambda>(t, _). t \<noteq> []) callers) (strip (removeprefix ''Bearer '' authorization)) of
        None \<Rightarrow> None
      | Some (realm, allow) \<Rightarrow>
        let user = (if strip user_header \<noteq> [] then strip user_header else ''user'') in
        Some \<lparr>cr_realm = realm, cr_user_id = user,
              cr_username = (if strip username_header \<noteq> [] then strip username_header else user), cr_agents = allow\<rparr>)"

definition SEP :: string where "SEP = '':''"

definition conversation_key :: "caller \<Rightarrow> string \<Rightarrow> string" where
  "conversation_key c conversation_id = cr_realm c @ SEP @ conversation_id"

section \<open>The hub\<close>

datatype refusal = Refusal nat string "string option"

record hub_config =
  hu_turns :: http_config
  hu_agents :: "string list"
  hu_max_wait :: int
  hu_dispatcher :: bool
  hu_stoppable :: "string \<Rightarrow> bool"
  hu_control :: bool

record hub =
  hb_turns :: http_turns
  hb_draining :: bool

definition refuse_agent :: "hub_config \<Rightarrow> string \<Rightarrow> caller \<Rightarrow> refusal option" where
  "refuse_agent cfg agent c =
     (if agent \<notin> set (hu_agents cfg) \<or> (case cr_agents c of None \<Rightarrow> False | Some as \<Rightarrow> agent \<notin> set as)
      then Some (Refusal 403 ''forbidden'' None) else None)"

definition owned_turn :: "http_turns \<Rightarrow> string \<Rightarrow> caller \<Rightarrow> turn option" where
  "owned_turn s i c = (case get_turn s i of None \<Rightarrow> None | Some t \<Rightarrow> if t_owner t = owner c then Some t else None)"

definition swept :: "hub_config \<Rightarrow> int \<Rightarrow> hub \<Rightarrow> hub" where
  "swept cfg now h = h\<lparr>hb_turns := fst (sweep (hu_turns cfg) now (hb_turns h))\<rparr>"

definition drain :: "hub \<Rightarrow> hub" where
  "drain h = h\<lparr>hb_draining := True\<rparr>"

section \<open>A message\<close>

definition client_id_char :: "char \<Rightarrow> bool" where
  "client_id_char ch \<longleftrightarrow> (let n = (of_char ch :: nat) in
     65 \<le> n \<and> n \<le> 90 \<or> 97 \<le> n \<and> n \<le> 122 \<or> 48 \<le> n \<and> n \<le> 57 \<or> ch \<in> set ''_.:-'')"

text \<open>The pattern ends in a dollar sign, which also matches before a last newline.\<close>

definition client_id_matches :: "string \<Rightarrow> bool" where
  "client_id_matches s =
     (let body = (if s \<noteq> [] \<and> last s = CHR 10 then butlast s else s) in
      1 \<le> length body \<and> length body \<le> 128 \<and> list_all client_id_char body)"

definition MAX_TEXT :: nat where "MAX_TEXT = 32000"

text \<open>A request's body: the message id, the text when it is one, and whether its files are malformed or there are any.\<close>

record message_body =
  mb_client_message_id :: string
  mb_text :: "string option"
  mb_files_problem :: bool
  mb_files :: bool

definition is_new_here :: "hub \<Rightarrow> string \<Rightarrow> string \<Rightarrow> bool" where
  "is_new_here h conv message \<longleftrightarrow> known_turn (hb_turns h) conv message = None"

text \<open>Up to where the files are saved.\<close>

definition message_checks :: "hub_config \<Rightarrow> caller \<Rightarrow> string \<Rightarrow> string \<Rightarrow> message_body \<Rightarrow> int \<Rightarrow> hub \<Rightarrow> hub \<times> refusal option" where
  "message_checks cfg c agent conversation_id b now h =
     (let conv = conversation_key c conversation_id; mid = mb_client_message_id b in
      case refuse_agent cfg agent c of Some r \<Rightarrow> (h, Some r)
      | None \<Rightarrow>
      if \<not> client_id_matches mid then (h, Some (Refusal 422 ''validation'' None))
      else if hb_draining h \<and> is_new_here h conv mid then (h, Some (Refusal 503 ''draining'' None))
      else
        (case mb_text b of None \<Rightarrow> (h, Some (Refusal 422 ''validation'' None))
         | Some words \<Rightarrow>
           if length words > MAX_TEXT then (h, Some (Refusal 422 ''validation'' None))
           else if mb_files_problem b then (h, Some (Refusal 422 ''validation'' None))
           else if strip words = [] \<and> \<not> mb_files b then (h, Some (Refusal 422 ''validation'' None))
           else
             let h1 = swept cfg now h in
             (case active_turn (hb_turns h1) conv of
                Some i \<Rightarrow>
                  (case ht_turns (hb_turns h1) i of
                     Some t \<Rightarrow> if t_client_message_id t \<noteq> mid
                             then (h1, Some (Refusal 409 ''turn_in_progress'' (Some i))) else (h1, None)
                   | None \<Rightarrow> (h1, None))
              | None \<Rightarrow> (h1, None))))"

datatype message_answer = Accepted string | Repeated string | RefusedMessage refusal

text \<open>From there to the submission.\<close>

definition message_starts :: "hub_config \<Rightarrow> caller \<Rightarrow> string \<Rightarrow> string \<Rightarrow> string \<Rightarrow> string \<Rightarrow> int \<Rightarrow> stamp \<Rightarrow> hub
    \<Rightarrow> hub \<times> message_answer" where
  "message_starts cfg c agent conversation_id mid turn_id now at h =
     (let conv = conversation_key c conversation_id in
      if hb_draining h \<and> is_new_here h conv mid then (h, RefusedMessage (Refusal 503 ''draining'' None))
      else
        (case start_turn (hu_turns cfg) agent conv (owner c) mid STARTED_BY_CALLER turn_id now at (hb_turns h) of
           (s, TurnInProgress i) \<Rightarrow> (h\<lparr>hb_turns := s\<rparr>, RefusedMessage (Refusal 409 ''turn_in_progress'' (Some i)))
         | (s, Known i) \<Rightarrow> (h\<lparr>hb_turns := s\<rparr>, Repeated i)
         | (s, Created i) \<Rightarrow> (h\<lparr>hb_turns := s\<rparr>, Accepted i)))"

datatype engine_turn_answer = EngineTurn string | NotOnGateway | ShuttingDown | ConversationBusy | AlreadyStarted

text \<open>\<open>run_turn\<close>, for a turn the engine starts: the realm is what stands before the first colon.\<close>

definition engine_turn_starts :: "hub_config \<Rightarrow> string \<Rightarrow> string \<Rightarrow> string \<Rightarrow> string \<Rightarrow> string \<Rightarrow> int \<Rightarrow> stamp \<Rightarrow> hub
    \<Rightarrow> hub \<times> engine_turn_answer" where
  "engine_turn_starts cfg agent conv user_id message_id turn_id now at h =
     (if agent \<notin> set (hu_agents cfg) then (h, NotOnGateway)
      else if hb_draining h then (h, ShuttingDown)
      else
        let realm = takeWhile (\<lambda>ch. ch \<noteq> CHR '':'') conv; h1 = swept cfg now h in
        (case start_turn (hu_turns cfg) agent conv (realm @ ''/'' @ user_id) message_id STARTED_BY_ENGINE turn_id now at
                (hb_turns h1) of
           (s, TurnInProgress i) \<Rightarrow> (h1\<lparr>hb_turns := s\<rparr>, ConversationBusy)
         | (s, Known i) \<Rightarrow> (h1\<lparr>hb_turns := s\<rparr>, AlreadyStarted)
         | (s, Created i) \<Rightarrow> (h1\<lparr>hb_turns := s\<rparr>, EngineTurn i)))"

text \<open>\<open>_settle\<close>: how the submitted turn ended; \<open>None\<close> is a cancelled wait.\<close>

definition settle_turn :: "string \<Rightarrow> turn_outcome option \<Rightarrow> int \<Rightarrow> stamp \<Rightarrow> hub \<Rightarrow> hub" where
  "settle_turn i outcome now at h =
     h\<lparr>hb_turns := (case outcome of None \<Rightarrow> abandon_turn i now at (hb_turns h)
        | Some out \<Rightarrow> finish_turn i out now at (hb_turns h))\<rparr>"

section \<open>Reading\<close>

record events_answer =
  ea_status :: turn_status
  ea_events :: "turn_event list"
  ea_cursor :: nat

definition after_of :: "string \<Rightarrow> nat option" where
  "after_of raw = (case py_int raw of None \<Rightarrow> None | Some n \<Rightarrow> Some (nat (max 0 n)))"

definition answer_events :: "nat \<Rightarrow> turn_event list \<Rightarrow> turn \<Rightarrow> events_answer" where
  "answer_events after found t =
     \<lparr>ea_status = j_status (t_journal t), ea_events = found,
      ea_cursor = (if found \<noteq> [] then ev_seq (last found) else after)\<rparr>"

text \<open>A poll is answered at once or sleeps; \<open>wait\<close> is the number the query gives, when it is one.\<close>

definition events_start :: "hub_config \<Rightarrow> caller \<Rightarrow> string \<Rightarrow> string \<Rightarrow> int option \<Rightarrow> int \<Rightarrow> hub
    \<Rightarrow> hub \<times> (refusal + (nat \<times> poll_state))" where
  "events_start cfg c i raw_after wait now h =
     (let h1 = swept cfg now h in
      case owned_turn (hb_turns h1) i c of
        None \<Rightarrow> (h1, Inl (Refusal 404 ''not_found'' None))
      | Some t \<Rightarrow>
        (case after_of raw_after of None \<Rightarrow> (h1, Inl (Refusal 422 ''validation'' None))
         | Some after \<Rightarrow>
           (case wait of None \<Rightarrow> (h1, Inl (Refusal 422 ''validation'' None))
            | Some w \<Rightarrow> (h1, Inr (after, poll_starts after (max 0 (min w (hu_max_wait cfg))) (t_journal t))))))"

definition read_trace :: "hub_config \<Rightarrow> caller \<Rightarrow> string \<Rightarrow> hub \<Rightarrow> refusal + (trace_record \<times> call list)" where
  "read_trace cfg c token h =
     (case trace_of (hu_turns cfg) token (hb_turns h) of
        None \<Rightarrow> Inl (Refusal 404 ''not_found'' None)
      | Some r \<Rightarrow>
        if tr_owner r \<noteq> owner c then Inl (Refusal 404 ''not_found'' None)
        else Inr (r\<lparr>tr_conversation_id := removeprefix (cr_realm c @ SEP) (tr_conversation_id r)\<rparr>, decode_calls (tr_calls r)))"

text \<open>The turn of the caller's that runs in a conversation: its id, status and cursor.\<close>

definition own_active :: "caller \<Rightarrow> string \<Rightarrow> http_turns \<Rightarrow> (string \<times> turn_status \<times> nat) option" where
  "own_active c key s =
     (case active_turn s key of None \<Rightarrow> None
      | Some i \<Rightarrow>
        (case ht_turns s i of None \<Rightarrow> None
         | Some t \<Rightarrow> if t_owner t = owner c then Some (i, j_status (t_journal t), cursor (t_journal t)) else None))"

text \<open>The approval tokens in the contexts of controls, as \<open>str(...)\<close> of what is there; only texts are ever put there.\<close>

fun str_of :: "json \<Rightarrow> string" where
  "str_of (JStr s) = s"
| "str_of JNull = []"
| "str_of _ = ''?''"

definition context_str :: "string \<Rightarrow> control \<Rightarrow> string" where
  "context_str key a = (case map_of (c_context a) key of None \<Rightarrow> [] | Some j \<Rightarrow> str_of j)"

definition approval_tokens :: "control list \<Rightarrow> string list" where
  "approval_tokens actions = filter (\<lambda>t. t \<noteq> []) (map (context_str APPROVAL_KEY) actions)"

text \<open>\<open>permits\<close> is what the dispatcher says of a token and a user.\<close>

definition caller_may_answer :: "hub_config \<Rightarrow> (string \<Rightarrow> string \<Rightarrow> bool) \<Rightarrow> control list \<Rightarrow> caller \<Rightarrow> bool" where
  "caller_may_answer cfg permits actions c \<longleftrightarrow>
     hu_dispatcher cfg \<and> list_ex (\<lambda>t. permits t (cr_user_id c)) (approval_tokens actions)"

text \<open>One held card: let go when its question is over, shown when the caller may answer it, and an
  unreadable one raises.\<close>

fun pending_cards :: "hub_config \<Rightarrow> (string \<Rightarrow> bool) \<Rightarrow> (string \<Rightarrow> string \<Rightarrow> bool) \<Rightarrow> caller \<Rightarrow> held_card list \<Rightarrow> http_turns
    \<Rightarrow> (http_turns \<times> (string \<times> approval_request \<times> control list) list) option" where
  "pending_cards cfg expired permits c [] s = Some (s, [])"
| "pending_cards cfg expired permits c (x # xs) s =
     (case approval_card_from_json (h_card x) of None \<Rightarrow> None
      | Some q \<Rightarrow>
        if expired (q_expires_at q) then pending_cards cfg expired permits c xs (release (h_post_id x) s)
        else
          (case actions_from_json (h_actions x) of None \<Rightarrow> None
           | Some actions \<Rightarrow>
             map_option (\<lambda>(s', shown). (s', if caller_may_answer cfg permits actions c
                then (h_post_id x, q, actions) # shown else shown))
               (pending_cards cfg expired permits c xs s)))"

definition get_conversation :: "hub_config \<Rightarrow> (string \<Rightarrow> bool) \<Rightarrow> (string \<Rightarrow> string \<Rightarrow> bool) \<Rightarrow> caller \<Rightarrow> string \<Rightarrow> string
    \<Rightarrow> int \<Rightarrow> hub \<Rightarrow> (hub \<times> (refusal + ((string \<times> turn_status \<times> nat) option
                    \<times> (string \<times> approval_request \<times> control list) list))) option" where
  "get_conversation cfg expired permits c agent conversation_id now h =
     (case refuse_agent cfg agent c of Some r \<Rightarrow> Some (h, Inl r)
      | None \<Rightarrow>
        let h1 = swept cfg now h; key = conversation_key c conversation_id in
        map_option (\<lambda>(s, shown). (h1\<lparr>hb_turns := s\<rparr>, Inr (own_active c key (hb_turns h1), shown)))
          (pending_cards cfg expired permits c (held_by key (hb_turns h1)) (hb_turns h1)))"

section \<open>Answering and cancelling\<close>

text \<open>What a click asks the dispatcher for.\<close>

datatype click_plan =
    ResolvesApproval string string
  | RedrawsScreen string string
  | ResolvesPending string string string

definition SCREEN_KEY :: string where "SCREEN_KEY = ''screen''"
definition STATE_KEY :: string where "STATE_KEY = ''state''"

definition button_or :: "control \<Rightarrow> string \<Rightarrow> string" where
  "button_or a given = (if c_kind a = ACTION_BUTTON then c_value a else given)"

text \<open>A click on a control of a turn, up to the dispatcher.\<close>

definition turn_action :: "hub_config \<Rightarrow> caller \<Rightarrow> string \<Rightarrow> string \<Rightarrow> string \<Rightarrow> string \<Rightarrow> hub \<Rightarrow> refusal + click_plan" where
  "turn_action cfg c i post_id action_id given h =
     (case owned_turn (hb_turns h) i c of None \<Rightarrow> Inl (Refusal 404 ''not_found'' None)
      | Some t \<Rightarrow>
      if \<not> hu_dispatcher cfg then Inl (Refusal 404 ''not_found'' None)
      else
        let posted = (case t_posted t post_id of Some as \<Rightarrow> as | None \<Rightarrow> []) in
        (case filter (\<lambda>a. c_id a = action_id) posted of [] \<Rightarrow> Inl (Refusal 404 ''not_found'' None)
         | a # _ \<Rightarrow>
           if c_kind a \<noteq> ACTION_BUTTON \<and> c_options a \<noteq> [] \<and> given \<notin> ch_value ` set (c_options a)
           then Inl (Refusal 422 ''validation'' None)
           else
             let v = button_or a given in
             if context_str APPROVAL_KEY a \<noteq> [] then Inr (ResolvesApproval (context_str APPROVAL_KEY a) v)
             else if context_str SCREEN_KEY a \<noteq> [] then Inr (RedrawsScreen (context_str STATE_KEY a) v)
             else if context_str ''form'' a \<noteq> [] then Inl (Refusal 409 ''not_available'' None)
             else Inr (ResolvesPending (context_str ''token'' a) v (c_label a))))"

definition retired_words :: string where "retired_words = ''These controls are no longer active.''"

text \<open>After the dispatcher: the outcome of an approval, or whether a pending request was resolved.\<close>

definition approval_clicked :: "string \<Rightarrow> string \<Rightarrow> approval_outcome \<Rightarrow> stamp \<Rightarrow> hub \<Rightarrow> hub" where
  "approval_clicked i post_id outcome at h =
     (if outcome = NOT_MINE then h\<lparr>hb_turns := at_turn i (retire post_id retired_words at) (hb_turns h)\<rparr> else h)"

definition pending_clicked :: "string \<Rightarrow> string \<Rightarrow> string \<Rightarrow> string \<Rightarrow> bool \<Rightarrow> stamp \<Rightarrow> hub \<Rightarrow> hub \<times> refusal option" where
  "pending_clicked i post_id v label resolved at h =
     (if \<not> resolved
      then (h\<lparr>hb_turns := at_turn i (retire post_id retired_words at) (hb_turns h)\<rparr>, Some (Refusal 404 ''not_found'' None))
      else (h\<lparr>hb_turns := at_turn i (retire post_id
               (if v \<noteq> [] then ''You chose: '' @ (if label \<noteq> [] then label else v) else ''Answered.'') at) (hb_turns h)\<rparr>, None))"

text \<open>A click on a card the conversation holds; \<open>found\<close> is what the store had under the post id.\<close>

definition conversation_action :: "hub_config \<Rightarrow> caller \<Rightarrow> string \<Rightarrow> string \<Rightarrow> string \<Rightarrow> string \<Rightarrow> held_card option
    \<Rightarrow> (refusal + (string \<times> string)) option" where
  "conversation_action cfg c agent conversation_id action_id given found =
     (case refuse_agent cfg agent c of Some r \<Rightarrow> Some (Inl r)
      | None \<Rightarrow>
      if \<not> hu_dispatcher cfg then Some (Inl (Refusal 404 ''not_found'' None))
      else
        let key = conversation_key c conversation_id in
        map_option (\<lambda>actions.
          case filter (\<lambda>a. c_id a = action_id) actions of [] \<Rightarrow> Inl (Refusal 404 ''not_found'' None)
          | a # _ \<Rightarrow>
            if context_str APPROVAL_KEY a = [] then Inl (Refusal 409 ''not_available'' None)
            else Inr (context_str APPROVAL_KEY a, button_or a given))
          (case found of None \<Rightarrow> Some []
           | Some x \<Rightarrow> if h_conversation x = key then actions_from_json (h_actions x) else Some []))"

definition held_clicked :: "string \<Rightarrow> approval_outcome \<Rightarrow> hub \<Rightarrow> hub" where
  "held_clicked post_id outcome h = (if outcome = NOT_MINE then h\<lparr>hb_turns := release post_id (hb_turns h)\<rparr> else h)"

datatype cancel_plan = StopsSink string string | CancelsSession string string

definition cancel_turn :: "hub_config \<Rightarrow> caller \<Rightarrow> string \<Rightarrow> string \<Rightarrow> hub \<Rightarrow> refusal + cancel_plan" where
  "cancel_turn cfg c agent conversation_id h =
     (case refuse_agent cfg agent c of Some r \<Rightarrow> Inl r
      | None \<Rightarrow>
        let key = conversation_key c conversation_id in
        (case active_turn (hb_turns h) key of None \<Rightarrow> Inl (Refusal 404 ''not_found'' None)
         | Some i \<Rightarrow>
           (case ht_turns (hb_turns h) i of None \<Rightarrow> Inl (Refusal 404 ''not_found'' None)
            | Some t \<Rightarrow>
              if t_owner t \<noteq> owner c then Inl (Refusal 404 ''not_found'' None)
              else if hu_stoppable cfg agent then Inr (StopsSink i key)
              else if hu_control cfg \<and> t_runtime_session_id t \<noteq> [] then Inr (CancelsSession i (t_runtime_session_id t))
              else Inl (Refusal 409 ''not_cancellable'' None))))"

text \<open>Conversations the engine started a turn in: only the caller's own.\<close>

record engine_started =
  es_conversation_id :: string
  es_user_id :: string
  es_at :: stamp

definition list_conversations :: "caller \<Rightarrow> engine_started list \<Rightarrow> (string \<times> stamp) list" where
  "list_conversations c found =
     map (\<lambda>x. (removeprefix (cr_realm c @ SEP) (es_conversation_id x), es_at x))
       (filter (\<lambda>x. starts_with (cr_realm c @ SEP) (es_conversation_id x) \<and> es_user_id x = cr_user_id c) found)"

end
