(* ===== verification/HttpProps.thy ===== *)
theory HttpProps
  imports HttpHub
begin

text \<open>
  What a polling client may rely on: one running turn per conversation, a status that says whether
  the turn waits on the person, events read once and in order, no poll that sleeps past news, and
  clicks that answer only with what the card showed.
\<close>

section \<open>Journals grow\<close>

definition seqs_ok :: "journal \<Rightarrow> bool" where
  "seqs_ok j \<longleftrightarrow> map ev_seq (j_events j) = [1..<Suc (length (j_events j))]"

text \<open>Only at the end, and never without waking who waits.\<close>

definition journal_le :: "journal \<Rightarrow> journal \<Rightarrow> bool" where
  "journal_le j j' \<longleftrightarrow> (\<exists>es. j_events j' = j_events j @ es) \<and> j_changed j \<le> j_changed j'
     \<and> (j_changed j' = j_changed j \<longrightarrow> j' = j)"

lemma journal_le_refl [simp]: "journal_le j j"
  by (simp add: journal_le_def)

lemma journal_le_trans: "journal_le a b \<Longrightarrow> journal_le b c \<Longrightarrow> journal_le a c"
  unfolding journal_le_def by (metis append.assoc le_antisym le_trans)

lemma cursor_length: "seqs_ok j \<Longrightarrow> cursor j = length (j_events j)"
proof (cases "j_events j" rule: rev_cases)
  case (snoc es e)
  assume "seqs_ok j"
  then have "map ev_seq (es @ [e]) ! length es = [1..<Suc (Suc (length es))] ! length es"
    by (simp add: seqs_ok_def snoc)
  then have "ev_seq e = Suc (length es)" by (simp add: nth_append del: upt_Suc)
  then show ?thesis by (simp add: cursor_def snoc)
qed (simp add: cursor_def)

lemma emit_le: "journal_le j (emit at what j)"
  by (simp add: journal_le_def emit_def wake_def)

lemma emit_seqs: "seqs_ok j \<Longrightarrow> seqs_ok (emit at what j)"
  using cursor_length [of j] by (simp add: seqs_ok_def emit_def wake_def)

lemma set_status_le: "journal_le j (set_status st j)"
  by (simp add: journal_le_def set_status_def wake_def)

lemma finish_le: "journal_le j (finish_journal st now j)"
  by (simp add: journal_le_def finish_journal_def wake_def)

lemma journal_simps [simp]:
  "j_finished_at (emit at what j) = j_finished_at j" "j_status (emit at what j) = j_status j"
  "j_finished_at (set_status st j) = j_finished_at j" "seqs_ok (set_status st j) = seqs_ok j"
  "seqs_ok (finish_journal st now j) = seqs_ok j"
  "j_status (set_status st j) = (if finished j then j_status j else st)"
  "j_finished_at (finish_journal st now j) = Some now" "j_status (finish_journal st now j) = st"
  "finished (emit at what j) = finished j" "finished (set_status st j) = finished j"
  by (simp_all add: emit_def set_status_def finish_journal_def wake_def finished_def seqs_ok_def)

section \<open>One turn\<close>

definition turn_ok :: "turn \<Rightarrow> bool" where
  "turn_ok t \<longleftrightarrow> seqs_ok (t_journal t)
     \<and> (if finished (t_journal t)
        then t_blocking t = {} \<and> (j_status (t_journal t) = STATUS_DONE \<or> j_status (t_journal t) = STATUS_FAILED)
        else j_status (t_journal t) = (if t_blocking t = {} then STATUS_RUNNING else STATUS_AWAITING_INPUT))"

text \<open>What an operation on a turn that goes on may do to it.\<close>

definition tame :: "turn \<Rightarrow> turn \<Rightarrow> bool" where
  "tame t t' \<longleftrightarrow> turn_ok t' \<and> t_conversation t' = t_conversation t \<and> t_owner t' = t_owner t
     \<and> finished (t_journal t') = finished (t_journal t) \<and> journal_le (t_journal t) (t_journal t')"

lemma tame_refl: "turn_ok t \<Longrightarrow> tame t t"
  by (simp add: tame_def)

lemma tame_trans: "tame a b \<Longrightarrow> tame b c \<Longrightarrow> tame a c"
  using journal_le_trans by (auto simp: tame_def)

lemma tells_tame: "turn_ok t \<Longrightarrow> tame t (tells_journal at what t)"
  by (auto simp: tame_def turn_ok_def tells_journal_def emit_le emit_seqs)

lemma files_tame: "turn_ok t \<Longrightarrow> tame t (tell_files at fs w t)"
proof (induction fs arbitrary: w t)
  case (Cons f fs)
  obtain n m d where f: "f = (n, m, d)" by (cases f)
  have "tame t (tells_journal at (EV_FILE n m d w) t)" by (rule tells_tame [OF Cons.prems])
  moreover from this have "tame (tells_journal at (EV_FILE n m d w) t) (tell_files at fs [] (tells_journal at (EV_FILE n m d w) t))"
    by (intro Cons.IH) (simp add: tame_def)
  ultimately show ?case unfolding f tell_files.simps by (rule tame_trans)
qed (simp add: tame_refl)

lemma event_tame:
  assumes ok: "turn_ok t"
  shows "tame t (event_of_run at e t)"
proof -
  have quiet: "tame t (t\<lparr>t_calls := tc\<rparr>)" for tc
    using ok by (simp add: turn_ok_def tame_def)
  then have loud: "tame t (tells_journal at what (t\<lparr>t_calls := tc\<rparr>))" for what tc
    by (rule tame_trans [OF _ tells_tame]) (use quiet in \<open>simp add: tame_def\<close>)
  obtain tc changed where c: "calls_on_event e (t_calls t) = (tc, changed)" by fastforce
  show ?thesis
    by (cases e) (use c quiet loud in \<open>simp_all add: event_of_run_def Let_def split: option.split\<close>)
qed

lemma ask_tame: "turn_ok t \<Longrightarrow> \<not> finished (t_journal t) \<Longrightarrow> tame t (ask_in p w as at t)"
  by (auto simp: tame_def turn_ok_def ask_in_def tells_journal_def set_turn_status_def emit_seqs
      intro: journal_le_trans [OF emit_le set_status_le])

lemma settle_tame: "turn_ok t \<Longrightarrow> \<not> finished (t_journal t) \<Longrightarrow> tame t (settle_card p as t)"
  by (auto simp: tame_def turn_ok_def settle_card_def Let_def set_turn_status_def set_status_le)

lemma retire_tame: "turn_ok t \<Longrightarrow> tame t (retire p w at t)"
  by (auto simp: tame_def turn_ok_def retire_def Let_def tells_journal_def set_turn_status_def emit_seqs emit_le
      intro: journal_le_trans [OF emit_le set_status_le])

lemma cards_tame: "turn_ok t \<Longrightarrow> tame t (cards_in p cs at t)"
  by (auto simp: tame_def turn_ok_def cards_in_def tells_journal_def emit_seqs emit_le)

section \<open>The turns\<close>

inductive http_step :: "http_config \<Rightarrow> http_turns \<Rightarrow> http_turns \<Rightarrow> bool" for cfg where
  starts: "ht_turns s i = None \<Longrightarrow> http_step cfg s (fst (start_turn cfg agent conv own m by i now at s))"
| ends: "ht_turns s i = Some t \<Longrightarrow> \<not> finished (t_journal t) \<Longrightarrow> http_step cfg s (finish_turn i outcome now at s)"
| sweeps: "http_step cfg s (fst (sweep cfg now s))"
| begins: "http_step cfg s (fst (begin_trace conv session s))"
| runs: "http_step cfg s (trace_event trn at e s)"
| traced: "http_step cfg s (trace_end cfg trn token created at s)"
| replies: "http_step cfg s (post_reply conv mid w at s)"
| notices: "http_step cfg s (post_notice conv w code at s)"
| whispers: "http_step cfg s (post_private_notice conv w code link label at s)"
| files: "http_step cfg s (post_files conv fs w at s)"
| asks: "http_step cfg s (post_actions conv p w as at s)"
| confirms: "http_step cfg s (post_confirmation agent conv p q as at s)"
| rewords: "http_step cfg s (fst (update_confirmation p q as at s))"
| rewords_held: "http_step cfg s (update_held found agent p q as at s)"
| retracts: "http_step cfg s (retract p w at s)"
| draws: "http_step cfg s (post_cards conv p cs at s)"
| redraws: "http_step cfg s (update_cards p cs at s)"
| retires: "http_step cfg s (at_turn i (retire p w at) s)"
| lets_go: "http_step cfg s (release p s)"

definition http_ok :: "http_turns \<Rightarrow> bool" where
  "http_ok s \<longleftrightarrow> (\<forall>i t. ht_turns s i = Some t \<longrightarrow> turn_ok t)
     \<and> distinct (map fst (ht_active s))
     \<and> (\<forall>conv i. (conv, i) \<in> set (ht_active s) \<longleftrightarrow>
          (\<exists>t. ht_turns s i = Some t \<and> t_conversation t = conv \<and> \<not> finished (t_journal t)))
     \<and> (ht_idle s \<longleftrightarrow> ht_active s = [])"

lemma http_okD:
  assumes "http_ok s"
  shows "ht_turns s i = Some t \<Longrightarrow> turn_ok t" and "distinct (map fst (ht_active s))"
    and "(conv, i) \<in> set (ht_active s) \<longleftrightarrow>
          (\<exists>t. ht_turns s i = Some t \<and> t_conversation t = conv \<and> \<not> finished (t_journal t))"
    and "ht_idle s \<longleftrightarrow> ht_active s = []"
  using assms unfolding http_ok_def by blast+

text \<open>A step: the invariant is kept, and every turn there was keeps its owner and its events.\<close>

definition goes_on :: "http_turns \<Rightarrow> http_turns \<Rightarrow> bool" where
  "goes_on s s' \<longleftrightarrow> http_ok s' \<and> (\<forall>i t. ht_turns s i = Some t \<longrightarrow>
     (\<exists>t'. ht_turns s' i = Some t' \<and> t_owner t' = t_owner t \<and> journal_le (t_journal t) (t_journal t')))"

lemma goes_on_refl: "http_ok s \<Longrightarrow> goes_on s s"
  by (simp add: goes_on_def)

lemma goes_on_same:
  "http_ok s \<Longrightarrow> ht_turns s' = ht_turns s \<Longrightarrow> ht_active s' = ht_active s \<Longrightarrow> ht_idle s' = ht_idle s \<Longrightarrow> goes_on s s'"
  by (simp add: goes_on_def http_ok_def)

lemma at_turn_goes_on:
  assumes ok: "http_ok s" and f: "\<And>t. ht_turns s i = Some t \<Longrightarrow> tame t (f t)"
  shows "goes_on s (at_turn i f s)"
proof -
  have t': "ht_turns (at_turn i f s) j = (if j = i then map_option f (ht_turns s i) else ht_turns s j)" for j
    by (simp add: at_turn_def)
  have "turn_ok t" if "ht_turns (at_turn i f s) j = Some t" for j t
    using that f http_okD(1) [OF ok] by (auto simp: t' tame_def split: if_splits)
  moreover have "(conv, j) \<in> set (ht_active s) \<longleftrightarrow> (\<exists>t. ht_turns (at_turn i f s) j = Some t
      \<and> t_conversation t = conv \<and> \<not> finished (t_journal t))" for conv j
    using http_okD(3) [OF ok, of conv j] f by (auto simp: t' tame_def)
  ultimately have "http_ok (at_turn i f s)"
    using http_okD(2,4) [OF ok] unfolding http_ok_def by (simp add: at_turn_def)
  then show ?thesis using f unfolding goes_on_def t' by (auto simp: tame_def)
qed

lemma active_unfinished:
  assumes ok: "http_ok s" and "active_turn s conv = Some i" and "ht_turns s i = Some t"
  shows "\<not> finished (t_journal t)"
  using http_okD(3) [OF ok, of conv i] map_of_SomeD [OF assms(2) [unfolded active_turn_def]] assms(3) by auto

lemma posted_unfinished:
  assumes ok: "http_ok s" and "turn_of_post p s = Some i" and "ht_turns s i = Some t"
  shows "\<not> finished (t_journal t)"
proof -
  have "i \<in> set (filter (\<lambda>i. case ht_turns s i of None \<Rightarrow> False | Some t \<Rightarrow> t_posted t p \<noteq> None) (map snd (ht_active s)))"
    using assms(2) unfolding turn_of_post_def by (cases "filter (\<lambda>i. case ht_turns s i of None \<Rightarrow> False
      | Some t \<Rightarrow> t_posted t p \<noteq> None) (map snd (ht_active s))") auto
  then have "i \<in> set (map snd (ht_active s))" by simp
  then show ?thesis using http_okD(3) [OF ok] assms(3) by force
qed

lemma in_turn_goes_on:
  assumes ok: "http_ok s" and f: "\<And>t. turn_ok t \<Longrightarrow> \<not> finished (t_journal t) \<Longrightarrow> tame t (f t)"
  shows "goes_on s (in_turn conv f s)"
proof (cases "active_turn s conv")
  case (Some i)
  have "goes_on s (at_turn i f s)"
    by (rule at_turn_goes_on [OF ok]) (use f http_okD(1) [OF ok] active_unfinished [OF ok Some] in blast)
  then show ?thesis by (simp add: in_turn_def Some)
qed (simp add: in_turn_def goes_on_refl [OF ok])

lemma on_post_goes_on:
  assumes ok: "http_ok s" and f: "\<And>t. turn_ok t \<Longrightarrow> \<not> finished (t_journal t) \<Longrightarrow> tame t (f t)"
    and "turn_of_post p s = Some i"
  shows "goes_on s (at_turn i f s)"
  by (rule at_turn_goes_on [OF ok]) (use f http_okD(1) [OF ok] posted_unfinished [OF ok assms(3)] in blast)


lemma new_turn_ok: "turn_ok (new_turn agent conv own m by now at)"
  by (simp add: turn_ok_def new_turn_def tells_journal_def new_journal_def emit_def wake_def seqs_ok_def
      finished_def cursor_def)

lemma new_turn_simps [simp]:
  "t_conversation (new_turn agent conv own m by now at) = conv" "t_owner (new_turn agent conv own m by now at) = own"
  "finished (t_journal (new_turn agent conv own m by now at)) = False"
  by (simp_all add: new_turn_def tells_journal_def new_journal_def finished_def emit_def wake_def)

lemma update_adds: "k \<notin> fst ` set al \<Longrightarrow> AList.update k v al = al @ [(k, v)]"
  by (induction al) auto

lemma start_goes_on:
  assumes ok: "http_ok s" and fresh: "ht_turns s i = None"
  shows "goes_on s (fst (start_turn cfg agent conv own m by i now at s))"
proof (cases "known_turn s conv m = None \<and> active_turn s conv = None")
  case True
  let ?s = "fst (start_turn cfg agent conv own m by i now at s)"
  have t: "ht_turns ?s = (ht_turns s)(i \<mapsto> new_turn agent conv own m by now at)"
    and a: "ht_active ?s = AList.update conv i (ht_active s)" and d: "ht_idle ?s = False"
    using True by (simp_all add: start_turn_def Let_def)
  have new: "conv \<notin> fst ` set (ht_active s)"
    using True by (simp add: active_turn_def map_of_eq_None_iff)
  then have a': "ht_active ?s = ht_active s @ [(conv, i)]" unfolding a by (rule update_adds)
  have "turn_ok x" if "ht_turns ?s j = Some x" for j x
    using that http_okD(1) [OF ok] new_turn_ok by (auto simp: t split: if_splits)
  moreover have "(c, j) \<in> set (ht_active ?s) \<longleftrightarrow>
      (\<exists>x. ht_turns ?s j = Some x \<and> t_conversation x = c \<and> \<not> finished (t_journal x))" for c j
    using http_okD(3) [OF ok, of c j] fresh by (auto simp: t a')
  ultimately have "http_ok ?s"
    using http_okD(2) [OF ok] new unfolding http_ok_def d by (simp add: a')
  then show ?thesis using fresh unfolding goes_on_def t by auto
next
  case False
  then have "fst (start_turn cfg agent conv own m by i now at s) = s"
    by (auto simp: start_turn_def split: option.split)
  then show ?thesis by (simp add: goes_on_refl [OF ok])
qed

lemma end_turn_facts:
  "turn_ok t \<Longrightarrow> turn_ok (end_turn out now at t)" "finished (t_journal (end_turn out now at t))"
  "t_conversation (end_turn out now at t) = t_conversation t" "t_owner (end_turn out now at t) = t_owner t"
  "journal_le (t_journal t) (t_journal (end_turn out now at t))"
  by (auto simp: end_turn_def turn_ok_def Let_def tells_journal_def finished_def emit_seqs
      intro: journal_le_trans [OF emit_le finish_le])

lemma finish_goes_on:
  assumes ok: "http_ok s" and t: "ht_turns s i = Some t" and running: "\<not> finished (t_journal t)"
  shows "goes_on s (finish_turn i outcome now at s)"
proof -
  let ?s = "finish_turn i outcome now at s"
  have mine: "(t_conversation t, i) \<in> set (ht_active s)" using http_okD(3) [OF ok] t running by blast
  have "active_turn s (t_conversation t) = Some i"
    unfolding active_turn_def by (rule map_of_is_SomeI [OF http_okD(2) [OF ok] mine])
  then have ts: "ht_turns ?s = (ht_turns s)(i \<mapsto> end_turn outcome now at t)"
    and a: "ht_active ?s = AList.delete (t_conversation t) (ht_active s)"
    and d: "ht_idle ?s \<longleftrightarrow> ht_active ?s = [] \<or> ht_idle s"
    by (auto simp: finish_turn_def at_turn_def active_turn_def t Let_def)
  have busy: "\<not> ht_idle s" using mine http_okD(4) [OF ok] by auto
  have only: "j = i" if "(t_conversation t, j) \<in> set (ht_active s)" for j
    using that mine http_okD(2) [OF ok] by (metis eq_key_imp_eq_value)
  have del: "(c, j) \<in> set (ht_active ?s) \<longleftrightarrow> (c, j) \<in> set (ht_active s) \<and> c \<noteq> t_conversation t" for c j
    by (auto simp: a AList.delete_eq)
  have "turn_ok x" if "ht_turns ?s j = Some x" for j x
    using that http_okD(1) [OF ok] end_turn_facts(1) t by (auto simp: ts split: if_splits)
  moreover have "(c, j) \<in> set (ht_active ?s) \<longleftrightarrow>
      (\<exists>x. ht_turns ?s j = Some x \<and> t_conversation x = c \<and> \<not> finished (t_journal x))" for c j
    using http_okD(3) [OF ok, of c j] only [of j] t by (auto simp: ts del end_turn_facts(2))
  moreover have "distinct (map fst (ht_active ?s))" unfolding a by (rule AList.distinct_delete [OF http_okD(2) [OF ok]])
  ultimately have "http_ok ?s" using d busy unfolding http_ok_def by blast
  then show ?thesis using t end_turn_facts(4,5) unfolding goes_on_def ts by auto
qed

lemma hold_same [simp]:
  "ht_turns (hold c p g q as at s) = ht_turns s" "ht_active (hold c p g q as at s) = ht_active s"
  "ht_idle (hold c p g q as at s) = ht_idle s" "ht_turns (release p s) = ht_turns s"
  "ht_active (release p s) = ht_active s" "ht_idle (release p s) = ht_idle s"
  by (simp_all add: hold_def release_def)

lemma same_tame: "turn_ok t \<Longrightarrow> tame t (t\<lparr>t_trace_token := k\<rparr>)" "turn_ok t \<Longrightarrow> tame t (t\<lparr>t_runtime_session_id := k\<rparr>)"
  by (simp_all add: tame_def turn_ok_def)

lemma tell_settle_tame:
  "turn_ok t \<Longrightarrow> \<not> finished (t_journal t) \<Longrightarrow> tame t (settle_card p as (tells_journal at what t))"
  by (rule tame_trans [OF tells_tame settle_tame]) (use tells_tame [of t at what] in \<open>simp_all add: tame_def\<close>)

lemma traced_goes_on:
  assumes ok: "http_ok s"
  shows "goes_on s (trace_end cfg trn token created at s)"
proof -
  have "goes_on s (at_turn i (\<lambda>t. t\<lparr>t_trace_token := token\<rparr>) (s\<lparr>ht_traces := rows\<rparr>))" for i rows
  proof -
    have "http_ok (s\<lparr>ht_traces := rows\<rparr>)" using ok by (simp add: http_ok_def)
    then have "goes_on (s\<lparr>ht_traces := rows\<rparr>) (at_turn i (\<lambda>t. t\<lparr>t_trace_token := token\<rparr>) (s\<lparr>ht_traces := rows\<rparr>))"
      by (rule at_turn_goes_on) (use http_okD(1) [OF ok] same_tame in auto)
    then show ?thesis by (simp add: goes_on_def)
  qed
  then show ?thesis using goes_on_refl [OF ok] unfolding trace_end_def by (simp split: option.split)
qed

lemma http_step_goes_on:
  assumes ok: "http_ok s" and step: "http_step cfg s s'"
  shows "goes_on s s'"
  using step
proof cases
  case (starts i agent conv own m who now at)
  then show ?thesis using start_goes_on [OF ok] by simp
next
  case (ends i t outcome now at)
  then show ?thesis using finish_goes_on [OF ok] by simp
next
  case (sweeps now)
  then show ?thesis by (auto intro: goes_on_same [OF ok] simp: sweep_def)
next
  case (begins conv session)
  have "goes_on s (at_turn i (\<lambda>t. t\<lparr>t_runtime_session_id := session\<rparr>) s)" for i
    by (rule at_turn_goes_on [OF ok]) (use http_okD(1) [OF ok] same_tame in blast)
  then show ?thesis unfolding begins begin_trace_def
    using goes_on_refl [OF ok] by (simp split: option.split)
next
  case (runs trn at e)
  have "goes_on s (at_turn i (event_of_run at e) s)" for i
    by (rule at_turn_goes_on [OF ok]) (use http_okD(1) [OF ok] event_tame in blast)
  then show ?thesis unfolding runs trace_event_def
    using goes_on_refl [OF ok] by (simp split: option.split)
next
  case (traced trn token created at)
  then show ?thesis using traced_goes_on [OF ok] by simp
next
  case (replies conv mid w at)
  then show ?thesis by (simp add: post_reply_def in_turn_goes_on [OF ok] tells_tame)
next
  case (notices conv w code at)
  then show ?thesis by (simp add: post_notice_def in_turn_goes_on [OF ok] tells_tame)
next
  case (whispers conv w code link label at)
  then show ?thesis by (simp add: post_private_notice_def in_turn_goes_on [OF ok] tells_tame)
next
  case (files conv fs w at)
  then show ?thesis by (simp add: post_files_def in_turn_goes_on [OF ok] files_tame)
next
  case (asks conv p w as at)
  then show ?thesis by (simp add: post_actions_def in_turn_goes_on [OF ok] ask_tame)
next
  case (confirms agent conv p q as at)
  have "goes_on s (hold conv p agent q as at s)" by (rule goes_on_same [OF ok]) simp_all
  moreover have "goes_on s (at_turn i (\<lambda>t. settle_card p as (tells_journal at (EV_CONFIRMATION p q as) t)) s)"
    if "active_turn s conv = Some i" for i
    using in_turn_goes_on [OF ok tell_settle_tame, where conv = conv] that by (simp add: in_turn_def)
  ultimately show ?thesis unfolding confirms post_confirmation_def by (simp split: option.split)
next
  case (rewords p q as at)
  have "goes_on s (at_turn i (\<lambda>t. settle_card p as (tells_journal at (EV_CONFIRMATION_UPDATED p q as) t)) s)"
    if "turn_of_post p s = Some i" for i
    by (rule on_post_goes_on [OF ok tell_settle_tame that])
  then show ?thesis unfolding rewords update_confirmation_def
    using goes_on_refl [OF ok] by (simp split: option.split)
next
  case (rewords_held found agent p q as at)
  then show ?thesis using goes_on_refl [OF ok]
    by (auto simp: update_held_def intro: goes_on_same [OF ok] split: option.split)
next
  case (retracts p w at)
  have "goes_on s (at_turn i (retire p w at) s)" if "turn_of_post p s = Some i" for i
    by (rule on_post_goes_on [OF ok retire_tame that])
  moreover have "goes_on s (release p s)" by (rule goes_on_same [OF ok]) simp_all
  ultimately show ?thesis unfolding retracts retract_def by (simp split: option.split)
next
  case (draws conv p cs at)
  then show ?thesis by (simp add: post_cards_def in_turn_goes_on [OF ok] cards_tame)
next
  case (redraws p cs at)
  have "goes_on s (at_turn i (cards_in p cs at) s)" if "turn_of_post p s = Some i" for i
    by (rule on_post_goes_on [OF ok cards_tame that])
  then show ?thesis unfolding redraws update_cards_def
    using goes_on_refl [OF ok] by (simp split: option.split)
next
  case (retires i p w at)
  then show ?thesis using at_turn_goes_on [OF ok, of i "retire p w at"] http_okD(1) [OF ok] retire_tame by blast
next
  case (lets_go p)
  then show ?thesis by (auto intro: goes_on_same [OF ok])
qed

interpretation http: invariant_system "\<lambda>s. s = no_turns_yet" "http_step cfg" http_ok
proof unfold_locales
  show "http_ok s" if "s = no_turns_yet" for s using that by (simp add: http_ok_def no_turns_yet_def)
  show "http_ok s'" if "http_ok s" "http_step cfg s s'" for s s'
    using http_step_goes_on [OF that] by (simp add: goes_on_def)
qed

lemma goes_on_trans:
  assumes "goes_on a b" and "goes_on b c"
  shows "goes_on a c"
proof -
  have "\<exists>t'. ht_turns c i = Some t' \<and> t_owner t' = t_owner t \<and> journal_le (t_journal t) (t_journal t')"
    if "ht_turns a i = Some t" for i t
  proof -
    obtain t1 where 1: "ht_turns b i = Some t1" "t_owner t1 = t_owner t" "journal_le (t_journal t) (t_journal t1)"
      using assms(1) \<open>ht_turns a i = Some t\<close> unfolding goes_on_def by blast
    moreover obtain t2 where "ht_turns c i = Some t2" "t_owner t2 = t_owner t1" "journal_le (t_journal t1) (t_journal t2)"
      using assms(2) 1(1) unfolding goes_on_def by blast
    ultimately show ?thesis using journal_le_trans by auto
  qed
  then show ?thesis using assms(2) by (simp add: goes_on_def)
qed

lemma run_goes_on:
  assumes "http_ok s" and "(http_step cfg)\<^sup>*\<^sup>* s s'"
  shows "goes_on s s'"
  using assms(2)
proof (induction rule: rtranclp_induct)
  case base
  show ?case by (rule goes_on_refl [OF assms(1)])
next
  case (step y z)
  have "http_ok y" using step.IH by (simp add: goes_on_def)
  from goes_on_trans [OF step.IH http_step_goes_on [OF this step.hyps(2)]] show ?case .
qed

section \<open>One running turn, and what its status says\<close>

text \<open>In every state of the gateway a turn that has not finished is the one turn running in its
  conversation; its status says it awaits the person exactly while a card of it blocks; a finished
  one is done or failed, blocks nothing and runs nowhere; and the drain may end exactly when none is
  unfinished.\<close>

lemma status_tells_the_turn:
  assumes "reachable (\<lambda>s. s = no_turns_yet) (http_step cfg) s" and "ht_turns s i = Some t"
  shows "(active_turn s (t_conversation t) = Some i \<longleftrightarrow> \<not> finished (t_journal t))
     \<and> j_status (t_journal t) \<in> (if finished (t_journal t) then {STATUS_DONE, STATUS_FAILED}
          else if t_blocking t = {} then {STATUS_RUNNING} else {STATUS_AWAITING_INPUT})
     \<and> (finished (t_journal t) \<longrightarrow> t_blocking t = {})
     \<and> (ht_idle s \<longleftrightarrow> (\<forall>j u. ht_turns s j = Some u \<longrightarrow> finished (t_journal u)))"
proof (intro conjI)
  have ok: "http_ok s" by (rule http.reachable_inv [OF assms(1)])
  have one: "active_turn s c = Some j \<longleftrightarrow> (c, j) \<in> set (ht_active s)" for c j
    unfolding active_turn_def using map_of_SomeD map_of_is_SomeI [OF http_okD(2) [OF ok]] by metis
  show "active_turn s (t_conversation t) = Some i \<longleftrightarrow> \<not> finished (t_journal t)"
    using http_okD(3) [OF ok, of "t_conversation t" i] assms(2) by (simp add: one)
  have "turn_ok t" using http_okD(1) [OF ok assms(2)] .
  then show "j_status (t_journal t) \<in> (if finished (t_journal t) then {STATUS_DONE, STATUS_FAILED}
          else if t_blocking t = {} then {STATUS_RUNNING} else {STATUS_AWAITING_INPUT})"
    and "finished (t_journal t) \<longrightarrow> t_blocking t = {}"
    by (auto simp: turn_ok_def split: if_splits)
  have "ht_active s = [] \<longleftrightarrow> (\<forall>c j. (c, j) \<notin> set (ht_active s))" by (cases "ht_active s") auto
  then show "ht_idle s \<longleftrightarrow> (\<forall>j u. ht_turns s j = Some u \<longrightarrow> finished (t_journal u))"
    unfolding http_okD(4) [OF ok] using http_okD(3) [OF ok] by metis
qed

definition sample_http_config :: http_config where
  "sample_http_config = \<lparr>hc_retention = 300, hc_remembered = 100, hc_traces = True\<rparr>"

definition sample_started :: http_turns where
  "sample_started = fst (start_turn sample_http_config ''aide'' ''app:c'' ''app/u'' ''m1'' STARTED_BY_CALLER ''t1'' 5 0 no_turns_yet)"

definition sample_asking :: http_turns where
  "sample_asking = post_actions ''app:c'' ''p1'' ''which?'' [] 0 sample_started"

lemma sample_reachable: "reachable (\<lambda>s. s = no_turns_yet) (http_step sample_http_config) sample_started"
proof -
  have "reachable (\<lambda>s. s = no_turns_yet) (http_step sample_http_config) no_turns_yet" by (rule reachable.start) simp
  then show ?thesis unfolding sample_started_def
    by (rule reachable.move) (rule http_step.starts, simp add: no_turns_yet_def)
qed

lemma sample_asks: "http_step sample_http_config sample_started sample_asking"
  unfolding sample_asking_def by (rule http_step.asks)

lemmas sample_http = sample_asking_def sample_started_def no_turns_yet_def start_turn_def known_turn_def
  active_turn_def post_actions_def in_turn_def at_turn_def ask_in_def set_turn_status_def tells_journal_def
  new_turn_def new_journal_def emit_def set_status_def finished_def wake_def cursor_def Let_def
  STARTED_BY_CALLER_def sample_http_config_def

lemma status_tells_the_turn_witness:
  "\<exists>t. ht_turns sample_asking ''t1'' = Some t \<and> active_turn sample_asking (t_conversation t) = Some ''t1''
     \<and> j_status (t_journal t) = STATUS_AWAITING_INPUT \<and> \<not> ht_idle sample_asking"
proof -
  obtain t where t: "ht_turns sample_asking ''t1'' = Some t" "t_blocking t = {''p1''}" "\<not> finished (t_journal t)"
    by (simp add: sample_http)
  from status_tells_the_turn [OF reachable.move [OF sample_reachable sample_asks] t(1)] t show ?thesis by auto
qed

section \<open>Polling\<close>

text \<open>A client that polls one turn in the states \<open>ss\<close>, each time from the cursor it was answered.\<close>

fun polled :: "string \<Rightarrow> nat \<Rightarrow> http_turns list \<Rightarrow> turn_event list" where
  "polled i after [] = []"
| "polled i after (s # ss) =
     (case ht_turns s i of None \<Rightarrow> []
      | Some t \<Rightarrow>
        let found = since after (t_journal t) in found @ polled i (ea_cursor (answer_events after found t)) ss)"

lemma seqs_nth: "seqs_ok j \<Longrightarrow> k < length (j_events j) \<Longrightarrow> ev_seq (j_events j ! k) = Suc k"
  by (metis seqs_ok_def nth_map nth_upt length_map length_upt plus_1_eq_Suc diff_Suc_1 add.commute less_diff_conv)

lemma since_drop:
  assumes "seqs_ok j"
  shows "since n j = drop n (j_events j)"
proof -
  have le: "ev_seq e \<le> n" if "e \<in> set (take n (j_events j))" for e
    using that seqs_nth [OF assms] by (auto simp: in_set_conv_nth)
  have gt: "ev_seq e > n" if "e \<in> set (drop n (j_events j))" for e
    using that seqs_nth [OF assms] by (auto simp: in_set_conv_nth)
  have "filter (\<lambda>e. ev_seq e > n) (take n (j_events j)) = []" using le by (auto simp: filter_empty_conv not_less)
  moreover have "filter (\<lambda>e. ev_seq e > n) (drop n (j_events j)) = drop n (j_events j)" using gt by simp
  ultimately show ?thesis unfolding since_def by (metis append_take_drop_id append_Nil filter_append)
qed

lemma next_cursor:
  assumes "seqs_ok j" and "n \<le> length (j_events j)"
  shows "(if since n j \<noteq> [] then ev_seq (last (since n j)) else n) = length (j_events j)"
proof (cases "n = length (j_events j)")
  case False
  then have "since n j \<noteq> []" "last (since n j) = last (j_events j)" "j_events j \<noteq> []"
    using assms by (auto simp: since_drop)
  then show ?thesis using cursor_length [OF assms(1)] by (simp add: cursor_def)
qed (simp add: since_drop [OF assms(1)])

lemma polled_from:
  assumes "http_ok s" and "ht_turns s i = Some t" and "n \<le> length (j_events (t_journal t))"
    and "successively (http_step cfg)\<^sup>*\<^sup>* (s # ss)"
  shows "\<exists>t'. ht_turns (last (s # ss)) i = Some t' \<and> seqs_ok (t_journal t')
     \<and> (\<exists>es. j_events (t_journal t') = j_events (t_journal t) @ es)
     \<and> polled i n (s # ss) = drop n (j_events (t_journal t'))"
  using assms
proof (induction ss arbitrary: s t n)
  case Nil
  then show ?case using http_okD(1) [OF Nil.prems(1,2)] by (simp add: Let_def turn_ok_def since_drop)
next
  case (Cons s' ss)
  have q: "seqs_ok (t_journal t)" using http_okD(1) [OF Cons.prems(1,2)] by (simp add: turn_ok_def)
  have run: "(http_step cfg)\<^sup>*\<^sup>* s s'" "successively (http_step cfg)\<^sup>*\<^sup>* (s' # ss)" using Cons.prems(4) by simp_all
  have "goes_on s s'" by (rule run_goes_on [OF Cons.prems(1) run(1)])
  then obtain t' es where t': "http_ok s'" "ht_turns s' i = Some t'" "j_events (t_journal t') = j_events (t_journal t) @ es"
    using Cons.prems(2) unfolding goes_on_def journal_le_def by blast
  let ?n = "length (j_events (t_journal t))"
  obtain u fs where u: "ht_turns (last (s' # ss)) i = Some u" "seqs_ok (t_journal u)"
    "j_events (t_journal u) = j_events (t_journal t') @ fs" "polled i ?n (s' # ss) = drop ?n (j_events (t_journal u))"
    using Cons.IH [OF t'(1,2) _ run(2), of ?n] t'(3) by auto
  have "ea_cursor (answer_events n (since n (t_journal t)) t) = ?n"
    using next_cursor [OF q Cons.prems(3)] by (simp add: answer_events_def)
  then have "polled i n (s # s' # ss) = drop n (j_events (t_journal t)) @ drop ?n (j_events (t_journal u))"
    using u(4) Cons.prems(2) by (simp add: Let_def since_drop [OF q] del: polled.simps(2) add: polled.simps(2) [of i n s])
  then show ?case using u(1,2,3) t'(3) Cons.prems(3) by simp
qed

text \<open>A client that reads a turn from the start, each poll from the cursor the last one
  answered, at any states of a run of the gateway, has after its last poll read every event of the
  turn exactly once and in order, numbered from one without a gap.\<close>

lemma polled_once_in_order:
  assumes "reachable (\<lambda>s. s = no_turns_yet) (http_step cfg) s" and "ht_turns s i = Some t"
    and "successively (http_step cfg)\<^sup>*\<^sup>* (s # ss)"
  shows "\<exists>t'. ht_turns (last (s # ss)) i = Some t' \<and> polled i 0 (s # ss) = j_events (t_journal t')
     \<and> map ev_seq (polled i 0 (s # ss)) = [1..<Suc (length (j_events (t_journal t')))]"
proof -
  have "http_ok s" by (rule http.reachable_inv [OF assms(1)])
  from polled_from [OF this assms(2) _ assms(3), of 0] show ?thesis
    by (auto simp: seqs_ok_def)
qed

lemma polled_once_in_order_witness:
  "map ev_what (polled ''t1'' 0 [sample_started, sample_asking])
     = [EV_TURN_STARTED STARTED_BY_CALLER, EV_ACTIONS ''p1'' ''which?'' []]"
proof -
  obtain t where t: "ht_turns sample_started ''t1'' = Some t" by (simp add: sample_http)
  have "successively (http_step sample_http_config)\<^sup>*\<^sup>* [sample_started, sample_asking]"
    using sample_asks by auto
  from polled_once_in_order [OF sample_reachable t this]
  obtain t' where "ht_turns sample_asking ''t1'' = Some t'"
    "polled ''t1'' 0 [sample_started, sample_asking] = j_events (t_journal t')" by auto
  then show ?thesis by (auto simp: sample_http)
qed

text \<open>C19. No poll sleeps past news: one that went to sleep in a state of the gateway and ends in a
  later one answers every event after its cursor at that moment, and when nothing woke it the
  journal is still what it was: no event, no new status, not finished.\<close>

theorem no_lost_wakeup:
  assumes "reachable (\<lambda>s. s = no_turns_yet) (http_step cfg) s" and "ht_turns s i = Some t"
    and "poll_starts after w (t_journal t) = PollSleeps g"
    and "(http_step cfg)\<^sup>*\<^sup>* s s'" and "ht_turns s' i = Some t'"
  shows "poll_ends after g (t_journal t') = since after (t_journal t')
     \<and> (poll_woken g (t_journal t') \<or> t_journal t' = t_journal t)"
proof -
  have "http_ok s" by (rule http.reachable_inv [OF assms(1)])
  from run_goes_on [OF this assms(4)] assms(2,5) have le: "journal_le (t_journal t) (t_journal t')"
    unfolding goes_on_def by fastforce
  have g: "g = j_changed (t_journal t)" and none: "since after (t_journal t) = []"
    using assms(3) by (auto simp: poll_starts_def Let_def split: if_splits)
  have "poll_woken g (t_journal t') \<or> t_journal t' = t_journal t"
    using le unfolding journal_le_def g poll_woken_def by auto
  then show ?thesis using none by (auto simp: poll_ends_def)
qed

lemma no_lost_wakeup_witness:
  "\<exists>t t' g. ht_turns sample_started ''t1'' = Some t \<and> ht_turns sample_asking ''t1'' = Some t'
     \<and> poll_starts 1 20 (t_journal t) = PollSleeps g \<and> poll_ends 1 g (t_journal t') = since 1 (t_journal t')"
proof -
  obtain t where t: "ht_turns sample_started ''t1'' = Some t" "poll_starts 1 20 (t_journal t) = PollSleeps 1"
    by (simp add: sample_http poll_starts_def since_def)
  obtain t' where t': "ht_turns sample_asking ''t1'' = Some t'" by (simp add: sample_http)
  have "(http_step sample_http_config)\<^sup>*\<^sup>* sample_started sample_asking" using sample_asks by auto
  from no_lost_wakeup [OF sample_reachable t this t'] t t' show ?thesis by blast
qed

section \<open>Who is answered, and with what\<close>

text \<open>What a click may carry on: the value of a button, or a choice of a select that lists any.\<close>

definition offers :: "control \<Rightarrow> string \<Rightarrow> bool" where
  "offers a v \<longleftrightarrow> (if c_kind a = ACTION_BUTTON then v = c_value a
     else c_options a = [] \<or> v \<in> ch_value ` set (c_options a))"

fun plan_value :: "click_plan \<Rightarrow> string" where
  "plan_value (ResolvesApproval k v) = v"
| "plan_value (RedrawsScreen k v) = v"
| "plan_value (ResolvesPending k v l) = v"

text \<open>A click on a turn's card is carried on only for the owner of a turn the gateway still
  knows, only for a control the card shows, and only with a value that control offers.\<close>

lemma click_is_offered:
  assumes "turn_action cfg c i post_id action_id given h = Inr plan"
  shows "\<exists>t posted a. get_turn (hb_turns h) i = Some t \<and> t_owner t = owner c \<and> t_posted t post_id = Some posted
     \<and> a \<in> set posted \<and> c_id a = action_id \<and> offers a (plan_value plan)"
proof -
  obtain t where t: "owned_turn (hb_turns h) i c = Some t"
    using assms by (cases "owned_turn (hb_turns h) i c") (auto simp: turn_action_def)
  define posted where "posted = (case t_posted t post_id of Some as \<Rightarrow> as | None \<Rightarrow> [])"
  obtain a rest where a: "filter (\<lambda>a. c_id a = action_id) posted = a # rest"
    using assms t by (cases "filter (\<lambda>a. c_id a = action_id) posted")
      (auto simp: turn_action_def posted_def Let_def split: if_splits)
  have "a \<in> set (filter (\<lambda>a. c_id a = action_id) posted)" unfolding a by simp
  then have in_posted: "a \<in> set posted" "c_id a = action_id" by simp_all
  then have p: "t_posted t post_id = Some posted" by (cases "t_posted t post_id") (auto simp: posted_def)
  have own: "get_turn (hb_turns h) i = Some t" "t_owner t = owner c"
    using t by (auto simp: owned_turn_def split: option.splits if_splits)
  have "plan_value plan = button_or a given \<and> \<not> (c_kind a \<noteq> ACTION_BUTTON \<and> c_options a \<noteq> [] \<and> given \<notin> ch_value ` set (c_options a))"
    using assms t a p unfolding turn_action_def Let_def by (auto split: if_splits)
  then have "offers a (plan_value plan)" by (auto simp: offers_def button_or_def)
  then show ?thesis using own p in_posted by blast
qed

definition sample_select :: control where
  "sample_select = \<lparr>c_id = ''pick'', c_label = ''Pick'', c_value = [], c_style = [], c_context = [(''approval'', JStr ''tok'')],
     c_kind = ''select'', c_options = [\<lparr>ch_label = ''One'', ch_value = ''1''\<rparr>], c_data = []\<rparr>"

definition sample_hub_config :: hub_config where
  "sample_hub_config = \<lparr>hu_turns = sample_http_config, hu_agents = [''aide''], hu_max_wait = 25, hu_dispatcher = True,
     hu_stoppable = (\<lambda>i. False), hu_control = True\<rparr>"

definition sample_caller :: caller where
  "sample_caller = \<lparr>cr_realm = ''app'', cr_user_id = ''u'', cr_username = ''Una'', cr_agents = None\<rparr>"

definition sample_hub :: hub where
  "sample_hub = \<lparr>hb_turns = post_actions ''app:c'' ''p1'' ''which?'' [sample_select] 0 sample_started, hb_draining = False\<rparr>"

lemma sample_click: "turn_action sample_hub_config sample_caller ''t1'' ''p1'' ''pick'' ''1'' sample_hub
     = Inr (ResolvesApproval ''tok'' ''1'')"
  by code_simp

lemma click_is_offered_witness:
  "\<exists>t posted a. get_turn (hb_turns sample_hub) ''t1'' = Some t \<and> t_posted t ''p1'' = Some posted
     \<and> a \<in> set posted \<and> c_id a = ''pick'' \<and> offers a ''1''"
  using click_is_offered [OF sample_click] by auto

text \<open>Not so outside a turn: the value of a select is taken as the caller sent it.\<close>

definition sample_held_select :: held_card where
  "sample_held_select = \<lparr>h_gateway = GATEWAY_HTTP, h_conversation = ''app:c'', h_post_id = ''p1'', h_agent = ''aide'',
     h_card = JNull, h_actions = actions_to_json [sample_select], h_held_at = 0\<rparr>"

lemma held_select_unchecked:
  "conversation_action sample_hub_config sample_caller ''aide'' ''c'' ''pick'' ''anything'' (Some sample_held_select)
      = Some (Inr (''tok'', ''anything''))
   \<and> actions_from_json (h_actions sample_held_select) = Some [sample_select] \<and> \<not> offers sample_select ''anything''"
proof -
  have read: "actions_from_json (h_actions sample_held_select) = Some [sample_select]"
    by (simp add: sample_held_select_def actions_kept sample_select_def)
  have key: "h_conversation sample_held_select = conversation_key sample_caller ''c''"
    by (simp add: sample_held_select_def conversation_key_def sample_caller_def SEP_def)
  have reach: "refuse_agent sample_hub_config ''aide'' sample_caller = None" "hu_dispatcher sample_hub_config"
    by (simp_all add: refuse_agent_def sample_hub_config_def sample_caller_def)
  have "c_id sample_select = ''pick''" "context_str APPROVAL_KEY sample_select = ''tok''"
    "button_or sample_select ''anything'' = ''anything''" "\<not> offers sample_select ''anything''"
    by (simp_all add: sample_select_def context_str_def APPROVAL_KEY_def button_or_def offers_def ACTION_BUTTON_def)
  then show ?thesis by (simp add: conversation_action_def read reach key)
qed

lemma takeWhile_upto: "ch \<notin> set r \<Longrightarrow> takeWhile (\<lambda>x. x \<noteq> ch) (r @ ch # u) = r"
  by (induction r) auto

lemma owner_names_one:
  assumes "CHR ''/'' \<notin> set (cr_realm c)" and "CHR ''/'' \<notin> set (cr_realm c')" and "owner c = owner c'"
  shows "cr_realm c = cr_realm c' \<and> cr_user_id c = cr_user_id c'"
proof -
  have "takeWhile (\<lambda>ch. ch \<noteq> CHR ''/'') (owner x) = cr_realm x" if "CHR ''/'' \<notin> set (cr_realm x)" for x
    using that takeWhile_upto [of "CHR ''/''" "cr_realm x"] by (simp add: owner_def)
  then have "cr_realm c = cr_realm c'" using assms by metis
  then show ?thesis using assms(3) by (simp add: owner_def)
qed

text \<open>A turn belongs to the person it was started for: its events, its record, a click on its
  cards and its cancellation are answered to a caller of the same realm and user only.  Every other
  caller is refused.  A realm holds no slash.\<close>

lemma turns_are_their_owners:
  assumes "CHR ''/'' \<notin> set (cr_realm c)" and "CHR ''/'' \<notin> set (cr_realm c')"
    and "ht_turns (hb_turns h) i = Some t" and "t_owner t = owner c"
    and "(cr_realm c', cr_user_id c') \<noteq> (cr_realm c, cr_user_id c)"
  shows "snd (events_start cfg c' i raw w now h) = Inl (Refusal 404 ''not_found'' None)
     \<and> turn_action cfg c' i post_id action_id given h = Inl (Refusal 404 ''not_found'' None)
     \<and> (\<forall>agent conversation_id k. cancel_turn cfg c' agent conversation_id h \<noteq> Inr (StopsSink i k)
          \<and> cancel_turn cfg c' agent conversation_id h \<noteq> Inr (CancelsSession i k))
     \<and> (\<forall>token r. trace_of (hu_turns cfg) token (hb_turns h) = Some r \<and> tr_owner r = t_owner t
          \<longrightarrow> read_trace cfg c' token h = Inl (Refusal 404 ''not_found'' None))"
proof (intro conjI allI impI)
  have other: "t_owner t \<noteq> owner c'" using owner_names_one [OF assms(1,2)] assms(4,5) by auto
  have turns: "ht_turns (fst (sweep (hu_turns cfg) now (hb_turns h))) = ht_turns (hb_turns h)"
    by (simp add: sweep_def)
  have none: "owned_turn s i c' = None" if "ht_turns s = ht_turns (hb_turns h)" for s
    using that assms(3) other by (simp add: owned_turn_def get_turn_def)
  show "snd (events_start cfg c' i raw w now h) = Inl (Refusal 404 ''not_found'' None)"
    by (simp add: events_start_def swept_def Let_def none turns)
  show "turn_action cfg c' i post_id action_id given h = Inl (Refusal 404 ''not_found'' None)"
    by (simp add: turn_action_def none)
  fix agent conversation_id k
  show "cancel_turn cfg c' agent conversation_id h \<noteq> Inr (StopsSink i k)"
    and "cancel_turn cfg c' agent conversation_id h \<noteq> Inr (CancelsSession i k)"
    using assms(3) other by (auto simp: cancel_turn_def Let_def split: option.split)
next
  fix token r
  assume "trace_of (hu_turns cfg) token (hb_turns h) = Some r \<and> tr_owner r = t_owner t"
  moreover have "t_owner t \<noteq> owner c'" using owner_names_one [OF assms(1,2)] assms(4,5) by auto
  ultimately show "read_trace cfg c' token h = Inl (Refusal 404 ''not_found'' None)" by (simp add: read_trace_def)
qed

definition sample_stranger :: caller where
  "sample_stranger = \<lparr>cr_realm = ''app'', cr_user_id = ''v'', cr_username = ''Vic'', cr_agents = None\<rparr>"

lemma turns_are_their_owners_witness:
  "turn_action sample_hub_config sample_stranger ''t1'' ''p1'' ''pick'' ''1'' sample_hub = Inl (Refusal 404 ''not_found'' None)
   \<and> turn_action sample_hub_config sample_caller ''t1'' ''p1'' ''pick'' ''1'' sample_hub = Inr (ResolvesApproval ''tok'' ''1'')"
proof -
  obtain t where t: "ht_turns (hb_turns sample_hub) ''t1'' = Some t" "t_owner t = owner sample_caller"
    by (simp add: sample_hub_def sample_http owner_def sample_caller_def)
  have "CHR ''/'' \<notin> set (cr_realm sample_caller)" "CHR ''/'' \<notin> set (cr_realm sample_stranger)"
    "(cr_realm sample_stranger, cr_user_id sample_stranger) \<noteq> (cr_realm sample_caller, cr_user_id sample_caller)"
    by (simp_all add: sample_caller_def sample_stranger_def)
  from turns_are_their_owners [OF this(1,2) t this(3)] sample_click show ?thesis by blast
qed

end
