(* ===== verification/Messages.thy ===== *)
theory Messages
  imports ToolGate "HOL-Library.FSet"
begin

text \<open>
  A message as the engine carries it (\<open>ports/chat/types.py\<close>, \<open>ports/turn.py\<close>) and as one replica
  hands it to another: \<open>packages/crucible/src/crucible/gateways/http/internal.py\<close>.

  A byte is a character below 256 and a file's bytes a string of them.  What the disk holds under an
  attachment's path is an argument.  A moment's ISO text is the moment.  A field of the wire of a type
  \<open>message_to_wire\<close> never writes, which \<open>str\<close>, \<open>int\<close> or \<open>bool\<close> would turn into something, is
  outside the model: reading it answers \<open>None\<close>, as the missing keys do that raise.
\<close>

section \<open>Base64\<close>

definition b64_char :: "nat \<Rightarrow> char" where
  "b64_char k = (if k < 26 then char_of (65 + k) else if k < 52 then char_of (71 + k)
     else if k < 62 then char_of (k - 4) else if k = 62 then CHR ''+'' else CHR ''/'')"

definition b64_val :: "char \<Rightarrow> nat option" where
  "b64_val c = (let n = of_char c in
     if 65 \<le> n \<and> n \<le> 90 then Some (n - 65) else if 97 \<le> n \<and> n \<le> 122 then Some (n - 71)
     else if 48 \<le> n \<and> n \<le> 57 then Some (n + 4) else if c = CHR ''+'' then Some 62
     else if c = CHR ''/'' then Some 63 else None)"

definition PAD :: char where "PAD = CHR ''=''"

fun b64encode :: "string \<Rightarrow> string" where
  "b64encode [] = []"
| "b64encode [a] = (let n = of_char a * 16 in [b64_char (n div 64), b64_char (n mod 64), PAD, PAD])"
| "b64encode [a, b] = (let n = (of_char a * 256 + of_char b) * 4 in
     [b64_char (n div 4096), b64_char (n div 64 mod 64), b64_char (n mod 64), PAD])"
| "b64encode (a # b # c # rest) = (let n = (of_char a * 256 + of_char b) * 256 + of_char c in
     [b64_char (n div 262144), b64_char (n div 4096 mod 64), b64_char (n div 64 mod 64), b64_char (n mod 64)]
       @ b64encode rest)"

text \<open>The digits of the alphabet, then the bytes of every full group and of what is left over.\<close>

fun b64_digits :: "string \<Rightarrow> nat list option" where
  "b64_digits [] = Some []"
| "b64_digits (c # cs) = (case b64_val c of None \<Rightarrow> None | Some d \<Rightarrow> map_option ((#) d) (b64_digits cs))"

fun b64_bytes :: "nat list \<Rightarrow> string" where
  "b64_bytes (a # b # c # d # rest) = (let n = ((a * 64 + b) * 64 + c) * 64 + d in
     [char_of (n div 65536), char_of (n div 256 mod 256), char_of (n mod 256)] @ b64_bytes rest)"
| "b64_bytes [a, b, c] = (let n = ((a * 64 + b) * 64 + c) div 4 in [char_of (n div 256), char_of (n mod 256)])"
| "b64_bytes [a, b] = [char_of ((a * 64 + b) div 16)]"
| "b64_bytes _ = []"

text \<open>\<open>b64decode(s, validate=True)\<close>: padding only at the end and as much as the last group wants.\<close>

definition b64decode :: "string \<Rightarrow> string option" where
  "b64decode s =
     (let data = takeWhile (\<lambda>c. c \<noteq> PAD) s; pads = dropWhile (\<lambda>c. c \<noteq> PAD) s in
      case b64_digits data of None \<Rightarrow> None
      | Some ds \<Rightarrow>
        if \<not> list_all (\<lambda>c. c = PAD) pads \<or> ds = [] \<and> pads \<noteq> [] then None
        else if length ds mod 4 = 0 \<or> length ds mod 4 = 2 \<and> length pads = 2 \<or> length ds mod 4 = 3 \<and> length pads = 1
        then Some (b64_bytes ds) else None)"

lemma of_char_less: "(of_char c :: nat) < 256"
  by (metis of_char_mod_256 mod_less_divisor zero_less_numeral)

lemma of_char_le: "(of_char c :: nat) \<le> 255"
  using of_char_less [of c] by linarith

lemma byte_split: "z < 256 \<Longrightarrow> (x * 256 + z) div 256 = x" "z < 256 \<Longrightarrow> (x * 256 + z) mod 256 = z" for x z :: nat
  by simp_all

lemma byte_bounds:
  "(of_char a * 256 + of_char b :: nat) \<le> 65535" "((of_char a * 256 + of_char b) * 256 + of_char c :: nat) \<le> 16777215"
proof -
  show two: "(of_char a * 256 + of_char b :: nat) \<le> 65535" using of_char_le [of a] of_char_le [of b] by simp
  have "n * 256 + m \<le> 16777215" if "n \<le> 65535" "m \<le> 255" for n m :: nat using that by simp
  from this [OF two of_char_le [of c]] show "((of_char a * 256 + of_char b) * 256 + of_char c :: nat) \<le> 16777215" .
qed

lemma of_char_small: "n < 256 \<Longrightarrow> (of_char (char_of n :: char) :: nat) = n"
  by simp

lemma b64_val_char:
  assumes "k < 64"
  shows "b64_val (b64_char k) = Some k"
proof -
  consider "k < 26" | "26 \<le> k" "k < 52" | "52 \<le> k" "k < 62" | "k = 62" | "k = 63" using assms by linarith
  then show ?thesis
    by cases (auto simp: b64_val_def b64_char_def Let_def of_char_small)
qed

lemma b64_char_pad:
  assumes "k < 64"
  shows "b64_char k \<noteq> PAD"
proof
  assume "b64_char k = PAD"
  then have "b64_val (b64_char k) = None" by (simp add: PAD_def b64_val_def Let_def)
  then show False using b64_val_char [OF assms] by simp
qed

text \<open>What an encoding is made of: digits of the alphabet, then padding.\<close>

fun b64_ds :: "string \<Rightarrow> nat list" where
  "b64_ds [] = []"
| "b64_ds [a] = (let n = of_char a * 16 in [n div 64, n mod 64])"
| "b64_ds [a, b] = (let n = (of_char a * 256 + of_char b) * 4 in [n div 4096, n div 64 mod 64, n mod 64])"
| "b64_ds (a # b # c # rest) = (let n = (of_char a * 256 + of_char b) * 256 + of_char c in
     [n div 262144, n div 4096 mod 64, n div 64 mod 64, n mod 64] @ b64_ds rest)"

definition b64_pads :: "string \<Rightarrow> nat" where
  "b64_pads s = (3 - length s mod 3) mod 3"

lemma b64_pads_simps [simp]: "b64_pads [] = 0" "b64_pads [a] = 2" "b64_pads [a, b] = 1" "b64_pads (a # b # c # s) = b64_pads s"
  by (simp_all add: b64_pads_def)

lemma encode_parts: "b64encode s = map b64_char (b64_ds s) @ replicate (b64_pads s) PAD"
  by (induction s rule: b64encode.induct)
    (simp_all only: b64encode.simps b64_ds.simps b64_pads_simps Let_def list.map append.simps map_append
      append_assoc numeral_2_eq_2 One_nat_def replicate.simps)

lemma ds_small: "list_all (\<lambda>d. d < 64) (b64_ds s)"
proof (induction s rule: b64_ds.induct)
  case (2 a)
  have "(of_char a :: nat) * 16 div 64 < 64" using of_char_less [of a] by (intro less_mult_imp_div_less) linarith
  then show ?case by (simp add: Let_def)
next
  case (3 a b)
  have "((of_char a :: nat) * 256 + of_char b) * 4 div 4096 < 64"
  proof (rule less_mult_imp_div_less)
    have "m * 4 < 64 * 4096" if "m \<le> 65535" for m :: nat using that by simp
    from this [OF byte_bounds(1)] show "((of_char a :: nat) * 256 + of_char b) * 4 < 64 * 4096" .
  qed
  then show ?case by (simp add: Let_def)
next
  case (4 a b c rest)
  have "(((of_char a :: nat) * 256 + of_char b) * 256 + of_char c) div 262144 < 64"
    using byte_bounds(2) [of a b c] by (intro less_mult_imp_div_less) linarith
  then show ?case using 4 by (simp add: Let_def)
qed simp

lemma ds_length: "length (b64_ds s) mod 4 = (if length s mod 3 = 0 then 0 else length s mod 3 + 1)"
  by (induction s rule: b64_ds.induct) (simp_all add: Let_def)

lemma join_digits:
  "m div 4096 * 64 + m div 64 mod 64 = m div 64" "m div 262144 * 64 + m div 4096 mod 64 = m div 4096"
  "m div 64 * 64 + m mod 64 = m" for m :: nat
proof -
  have split64: "k div 64 * 64 + k mod 64 = k" for k :: nat by (rule div_mult_mod_eq)
  show "m div 64 * 64 + m mod 64 = m" by (rule split64)
  show "m div 4096 * 64 + m div 64 mod 64 = m div 64" using split64 [of "m div 64"] by (simp add: div_mult2_eq [symmetric])
  show "m div 262144 * 64 + m div 4096 mod 64 = m div 4096" using split64 [of "m div 4096"] by (simp add: div_mult2_eq [symmetric])
qed

lemma char_of_of_char: "(of_char c :: nat) = n \<Longrightarrow> char_of n = c"
  by auto

lemma bytes_ds: "b64_bytes (b64_ds s) = s"
proof (induction s rule: b64_ds.induct)
  case (2 a)
  let ?x = "of_char a :: nat"
  have "(?x * 16 div 64 * 64 + ?x * 16 mod 64) div 16 = ?x" unfolding join_digits by simp
  then show ?case by (simp only: b64_ds.simps b64_bytes.simps Let_def) simp
next
  case (3 a b)
  let ?x = "of_char a :: nat" and ?y = "of_char b :: nat"
  let ?n = "(?x * 256 + ?y) * 4"
  have "((?n div 4096 * 64 + ?n div 64 mod 64) * 64 + ?n mod 64) div 4 = ?x * 256 + ?y"
    unfolding join_digits by simp
  moreover have "char_of (?x * 256 + ?y) = b"
    by (rule char_of_eq_iff [THEN iffD2]) (simp add: take_bit_eq_mod of_char_less)
  ultimately show ?case using of_char_less [of b] by (simp add: Let_def)
next
  case (4 a b c rest)
  let ?x = "of_char a :: nat" and ?y = "of_char b :: nat" and ?z = "of_char c :: nat"
  let ?n = "(?x * 256 + ?y) * 256 + ?z"
  have join: "((?n div 262144 * 64 + ?n div 4096 mod 64) * 64 + ?n div 64 mod 64) * 64 + ?n mod 64 = ?n"
    unfolding join_digits by (rule refl)
  moreover have low: "?n div 256 = ?x * 256 + ?y" "?n mod 256 = ?z" by (rule byte_split [OF of_char_less])+
  moreover have "?n div 256 mod 256 = ?y" "?n div 256 div 256 = ?x" unfolding low by (rule byte_split [OF of_char_less])+
  then have "?n div 65536 = ?x" "?n div 256 mod 256 = ?y" by (simp_all only: div_mult2_eq [symmetric]) simp
  with low have bytes: "char_of (?n div 65536) = a" "char_of (?n div 256 mod 256) = b" "char_of (?n mod 256) = c" by simp_all
  show ?case using 4 by (simp only: b64_ds.simps b64_bytes.simps Let_def append.simps join bytes)
qed simp

lemma digits_chars: "list_all (\<lambda>d. d < 64) ds \<Longrightarrow> b64_digits (map b64_char ds) = Some ds"
  by (induction ds) (simp_all add: b64_val_char)

lemma b64_round_trip: "b64decode (b64encode s) = Some s"
proof -
  have np: "list_all (\<lambda>c. c \<noteq> PAD) (map b64_char (b64_ds s))"
    using ds_small [of s] b64_char_pad by (auto simp: list_all_iff)
  then have t: "takeWhile (\<lambda>c. c \<noteq> PAD) (b64encode s) = map b64_char (b64_ds s)"
    and d: "dropWhile (\<lambda>c. c \<noteq> PAD) (b64encode s) = replicate (b64_pads s) PAD"
    unfolding encode_parts by (auto simp: list_all_iff takeWhile_append dropWhile_append)
  have "b64_ds s = [] \<Longrightarrow> b64_pads s = 0" by (cases s rule: b64_ds.cases) (simp_all add: b64_pads_def Let_def)
  moreover have "length s mod 3 = 0 \<or> length s mod 3 = 1 \<or> length s mod 3 = 2" by presburger
  ultimately show ?thesis unfolding b64decode_def t d
    using digits_chars [OF ds_small] bytes_ds ds_length [of s]
    by (auto simp: Let_def list_all_iff b64_pads_def)
qed

section \<open>Messages\<close>

record attachment =
  at_name :: string
  at_path :: string
  at_mime :: string
  at_size :: nat

record quoted_message =
  qm_author :: string
  qm_text :: string

record reported_event =
  er_source :: string
  er_text :: string
  er_label :: string

record click_data =
  ck_action_id :: string
  ck_data :: string
  ck_interaction_id :: string

record turn_scope =
  ts_turn_id :: string
  ts_secrets :: "(string \<times> string) list"
  ts_attributes :: "(string \<times> string) list"
  ts_flags :: "string fset"

text \<open>\<open>im_raw\<close> is the platform's payload when JSON can carry it.\<close>

record incoming =
  im_ref :: conversation_ref
  im_text :: string
  im_user_id :: string
  im_username :: string
  im_timestamp :: "stamp option"
  im_kind :: string
  im_is_dm :: bool
  im_mentioned :: bool
  im_is_from_bot :: bool
  im_gateway :: string
  im_hop_depth :: int
  im_attachments :: "attachment list"
  im_synthetic :: bool
  im_turn :: "turn_scope option"
  im_quoted :: "quoted_message option"
  im_click :: "click_data option"
  im_engine_started :: bool
  im_event :: "reported_event option"
  im_raw :: "(string \<times> json) list option"

definition incoming_message :: "conversation_ref \<Rightarrow> string \<Rightarrow> string \<Rightarrow> incoming" where
  "incoming_message ref words user =
     \<lparr>im_ref = ref, im_text = words, im_user_id = user, im_username = [], im_timestamp = None,
      im_kind = KIND_THREAD, im_is_dm = False, im_mentioned = False, im_is_from_bot = False, im_gateway = [],
      im_hop_depth = 0, im_attachments = [], im_synthetic = False, im_turn = None, im_quoted = None,
      im_click = None, im_engine_started = False, im_event = None, im_raw = Some []\<rparr>"

section \<open>On the wire\<close>

definition or_null :: "('a \<Rightarrow> json) \<Rightarrow> 'a option \<Rightarrow> json" where
  "or_null f x = (case x of None \<Rightarrow> JNull | Some y \<Rightarrow> f y)"

definition ref_to_wire :: "conversation_ref \<Rightarrow> json" where
  "ref_to_wire r = JObj [(''channel_id'', JStr (r_channel_id r)), (''conversation_id'', JStr (r_conversation_id r)),
     (''message_id'', JStr (r_message_id r)), (''thread_root_id'', JStr (r_thread_root_id r))]"

definition turn_to_wire :: "turn_scope \<Rightarrow> json" where
  "turn_to_wire t = JObj [(''turn_id'', JStr (ts_turn_id t)),
     (''attributes'', JObj (map (\<lambda>(k, v). (k, JStr v)) (ts_attributes t))),
     (''flags'', JList (map JStr (sorted_list_of_fset (ts_flags t))))]"

definition quoted_to_wire :: "quoted_message \<Rightarrow> json" where
  "quoted_to_wire q = JObj [(''author'', JStr (qm_author q)), (''text'', JStr (qm_text q))]"

definition event_to_wire :: "reported_event \<Rightarrow> json" where
  "event_to_wire e = JObj [(''source'', JStr (er_source e)), (''text'', JStr (er_text e))]"

definition files_to_wire :: "(string \<Rightarrow> string option) \<Rightarrow> attachment list \<Rightarrow> json" where
  "files_to_wire disk as = JList (concat (map (\<lambda>a.
     case disk (at_path a) of None \<Rightarrow> []
     | Some data \<Rightarrow> [JObj [(''name'', JStr (at_name a)), (''mime'', JStr (at_mime a)),
                          (''data'', JStr (b64encode data))]]) as))"

definition message_to_wire :: "(string \<Rightarrow> string option) \<Rightarrow> incoming \<Rightarrow> json" where
  "message_to_wire disk m = JObj
     [(''ref'', ref_to_wire (im_ref m)), (''text'', JStr (im_text m)), (''user_id'', JStr (im_user_id m)),
      (''username'', JStr (im_username m)), (''timestamp'', or_null JInt (im_timestamp m)),
      (''kind'', JStr (im_kind m)), (''is_dm'', JBool (im_is_dm m)), (''mentioned'', JBool (im_mentioned m)),
      (''is_from_bot'', JBool (im_is_from_bot m)), (''gateway'', JStr (im_gateway m)),
      (''hop_depth'', JInt (im_hop_depth m)), (''attachments'', files_to_wire disk (im_attachments m)),
      (''synthetic'', JBool (im_synthetic m)), (''turn'', or_null turn_to_wire (im_turn m)),
      (''quoted'', or_null quoted_to_wire (im_quoted m)), (''engine_started'', JBool (im_engine_started m)),
      (''event'', or_null event_to_wire (im_event m)),
      (''raw'', JObj (case im_raw m of None \<Rightarrow> [] | Some d \<Rightarrow> d))]"

definition given_or :: "'a \<Rightarrow> 'a option \<Rightarrow> 'a" where
  "given_or dflt x = (case x of None \<Rightarrow> dflt | Some y \<Rightarrow> y)"

text \<open>\<open>data.get(key)\<close> with a reader for what is there and is not null.\<close>

fun not_null :: "(json \<Rightarrow> 'a option) \<Rightarrow> json \<Rightarrow> 'a option option" where
  "not_null f JNull = Some None"
| "not_null f j = map_option Some (f j)"

definition ref_from_wire :: "json \<Rightarrow> conversation_ref option" where
  "ref_from_wire j = Option.bind (members j) (\<lambda>d.
     Option.bind (must as_str ''channel_id'' d) (\<lambda>ch.
     Option.bind (must as_str ''conversation_id'' d) (\<lambda>cv.
     Option.bind (must as_str ''message_id'' d) (\<lambda>mi.
     Option.bind (may as_str [] ''thread_root_id'' d) (\<lambda>tr.
       Some \<lparr>r_channel_id = ch, r_conversation_id = cv, r_message_id = mi, r_thread_root_id = tr\<rparr>)))))"

definition pair_from_wire :: "string \<times> json \<Rightarrow> (string \<times> string) option" where
  "pair_from_wire p = map_option (Pair (fst p)) (as_str (snd p))"

definition turn_from_wire :: "json \<Rightarrow> turn_scope option" where
  "turn_from_wire j = Option.bind (members j) (\<lambda>d.
     Option.bind (must as_str ''turn_id'' d) (\<lambda>ti.
     Option.bind (may (\<lambda>j. Option.bind (members j) (all_of pair_from_wire)) [] ''attributes'' d) (\<lambda>ats.
     Option.bind (may (\<lambda>j. Option.bind (as_list j) (all_of as_str)) [] ''flags'' d) (\<lambda>fl.
       Some \<lparr>ts_turn_id = ti, ts_secrets = [], ts_attributes = ats, ts_flags = fset_of_list fl\<rparr>))))"

definition quoted_from_wire :: "json \<Rightarrow> quoted_message option" where
  "quoted_from_wire j = Option.bind (members j) (\<lambda>d.
     Option.bind (must as_str ''author'' d) (\<lambda>a.
     Option.bind (must as_str ''text'' d) (\<lambda>w. Some \<lparr>qm_author = a, qm_text = w\<rparr>)))"

definition event_from_wire :: "json \<Rightarrow> reported_event option" where
  "event_from_wire j = Option.bind (members j) (\<lambda>d.
     Option.bind (must as_str ''source'' d) (\<lambda>so.
     Option.bind (must as_str ''text'' d) (\<lambda>w. Some \<lparr>er_source = so, er_text = w, er_label = []\<rparr>)))"

definition message_from_wire :: "json \<Rightarrow> attachment list \<Rightarrow> incoming option" where
  "message_from_wire j files = Option.bind (members j) (\<lambda>d.
     Option.bind (must ref_from_wire ''ref'' d) (\<lambda>ref.
     Option.bind (may as_str [] ''text'' d) (\<lambda>words.
     Option.bind (may as_str [] ''user_id'' d) (\<lambda>user.
     Option.bind (may as_str [] ''username'' d) (\<lambda>uname.
     Option.bind (may (not_null as_int) None ''timestamp'' d) (\<lambda>stmp.
     Option.bind (may as_str [] ''kind'' d) (\<lambda>knd.
     Option.bind (may as_bool False ''is_dm'' d) (\<lambda>dm.
     Option.bind (may as_bool False ''mentioned'' d) (\<lambda>ment.
     Option.bind (may as_bool False ''is_from_bot'' d) (\<lambda>bot.
     Option.bind (may as_str [] ''gateway'' d) (\<lambda>gw.
     Option.bind (may as_int 0 ''hop_depth'' d) (\<lambda>hops.
     Option.bind (may as_bool False ''synthetic'' d) (\<lambda>syn.
     Option.bind (may (not_null turn_from_wire) None ''turn'' d) (\<lambda>trn.
     Option.bind (may (not_null quoted_from_wire) None ''quoted'' d) (\<lambda>quo.
     Option.bind (may as_bool False ''engine_started'' d) (\<lambda>eng.
     Option.bind (may (not_null event_from_wire) None ''event'' d) (\<lambda>evt.
     Option.bind (may (not_null members) None ''raw'' d) (\<lambda>raw.
       Some \<lparr>im_ref = ref, im_text = words, im_user_id = user, im_username = uname, im_timestamp = stmp,
         im_kind = knd, im_is_dm = dm, im_mentioned = ment, im_is_from_bot = bot, im_gateway = gw,
         im_hop_depth = hops, im_attachments = files, im_synthetic = syn, im_turn = trn, im_quoted = quo,
         im_click = None, im_engine_started = eng, im_event = evt, im_raw = Some (given_or [] raw)\<rparr>))))))))))))))))))"

record incoming_file =
  if_name :: string
  if_data :: string
  if_mime :: string
  if_key :: string

definition file_from_wire :: "json \<Rightarrow> incoming_file list option" where
  "file_from_wire j = Option.bind (members j) (\<lambda>f.
     Option.bind (may as_str [] ''data'' f) (\<lambda>txt.
       case b64decode txt of None \<Rightarrow> Some []
       | Some data \<Rightarrow>
         Option.bind (may as_str ''file'' ''name'' f) (\<lambda>nm.
         Option.bind (may as_str [] ''mime'' f) (\<lambda>mi.
           Some [\<lparr>if_name = nm, if_data = data, if_mime = mi, if_key = []\<rparr>]))))"

definition wire_files :: "json \<Rightarrow> incoming_file list option" where
  "wire_files j = Option.bind (members j) (\<lambda>d.
     Option.bind (may (not_null as_list) None ''attachments'' d) (\<lambda>fs.
       map_option concat (all_of file_from_wire (given_or [] fs))))"

section \<open>What arrives\<close>

lemma not_null_obj: "(\<And>y. f (g y) = Some (h y)) \<Longrightarrow> (\<And>y. g y \<noteq> JNull) \<Longrightarrow> not_null f (or_null g x) = Some (map_option h x)"
proof (cases x)
  case (Some y)
  assume f: "\<And>y. f (g y) = Some (h y)" and "\<And>y. g y \<noteq> JNull"
  then have "not_null f (g y) = map_option Some (f (g y))" by (cases "g y") (metis not_null.simps)+
  then show ?thesis by (simp add: Some or_null_def f)
qed (simp add: or_null_def)

lemma ref_round: "ref_from_wire (ref_to_wire r) = Some r"
  by (simp add: ref_from_wire_def ref_to_wire_def json_read)

lemma turn_round: "turn_from_wire (turn_to_wire t) = Some (t\<lparr>ts_secrets := []\<rparr>)"
proof -
  have "all_of pair_from_wire (map (\<lambda>(k, v). (k, JStr v)) xs) = Some xs" for xs
    by (rule all_of_id) (auto simp: pair_from_wire_def)
  moreover have "all_of as_str (map JStr xs) = Some xs" for xs by (rule all_of_id) simp
  ultimately show ?thesis by (simp add: turn_from_wire_def turn_to_wire_def json_read)
qed

lemma quoted_round: "quoted_from_wire (quoted_to_wire q) = Some q"
  by (simp add: quoted_from_wire_def quoted_to_wire_def json_read)

lemma event_round: "event_from_wire (event_to_wire e) = Some (e\<lparr>er_label := []\<rparr>)"
  by (simp add: event_from_wire_def event_to_wire_def json_read)

lemma null_rounds:
  "not_null as_int (or_null JInt x) = Some x"
  "not_null turn_from_wire (or_null turn_to_wire t) = Some (map_option (\<lambda>t. t\<lparr>ts_secrets := []\<rparr>) t)"
  "not_null quoted_from_wire (or_null quoted_to_wire q) = Some q"
  "not_null event_from_wire (or_null event_to_wire e) = Some (map_option (\<lambda>e. e\<lparr>er_label := []\<rparr>) e)"
  using not_null_obj [of as_int JInt "\<lambda>x. x" x] not_null_obj [of turn_from_wire turn_to_wire _ t, OF turn_round]
    not_null_obj [of quoted_from_wire quoted_to_wire "\<lambda>x. x" q, OF quoted_round] not_null_obj [of event_from_wire event_to_wire _ e, OF event_round]
  by (simp_all add: turn_to_wire_def quoted_to_wire_def event_to_wire_def option.map_ident)

definition carried :: "incoming \<Rightarrow> attachment list \<Rightarrow> incoming" where
  "carried m files = m\<lparr>im_attachments := files, im_click := None,
     im_turn := map_option (\<lambda>t. t\<lparr>ts_secrets := []\<rparr>) (im_turn m),
     im_event := map_option (\<lambda>e. e\<lparr>er_label := []\<rparr>) (im_event m), im_raw := Some (given_or [] (im_raw m))\<rparr>"

lemma files_round:
  "all_of file_from_wire (concat (map (\<lambda>a. case disk (at_path a) of None \<Rightarrow> []
     | Some data \<Rightarrow> [JObj [(''name'', JStr (at_name a)), (''mime'', JStr (at_mime a)), (''data'', JStr (b64encode data))]]) as))
   = Some (map (\<lambda>(a, data). [\<lparr>if_name = at_name a, if_data = data, if_mime = at_mime a, if_key = []\<rparr>])
       (concat (map (\<lambda>a. case disk (at_path a) of None \<Rightarrow> [] | Some data \<Rightarrow> [(a, data)]) as)))"
  by (induction as) (auto simp: file_from_wire_def json_read b64_round_trip split: option.split)

lemma message_arrives: "message_from_wire (message_to_wire disk m) files = Some (carried m files)"
  unfolding message_from_wire_def message_to_wire_def members.simps Option.bind.simps
  by (simp add: json_read null_rounds ref_round carried_def given_or_def)

text \<open>A message handed to another replica arrives as it was, but for what it leaves behind: the
  secrets of its turn, the control that was clicked, the heading of its event and a payload JSON
  cannot carry; its files arrive with their bytes, but for those the disk no longer has.\<close>

lemma message_crosses_replicas:
  "message_from_wire (message_to_wire disk m) files = Some (carried m files)
   \<and> wire_files (message_to_wire disk m)
       = Some (map (\<lambda>(a, data). \<lparr>if_name = at_name a, if_data = data, if_mime = at_mime a, if_key = []\<rparr>)
           (concat (map (\<lambda>a. case disk (at_path a) of None \<Rightarrow> [] | Some data \<Rightarrow> [(a, data)]) (im_attachments m))))"
proof
  show "message_from_wire (message_to_wire disk m) files = Some (carried m files)" by (rule message_arrives)
  have "concat (map (\<lambda>(a, data). [f a data]) xs) = map (\<lambda>(a, data). f a data) xs" for f :: "attachment \<Rightarrow> string \<Rightarrow> incoming_file" and xs
    by (induction xs) auto
  then show "wire_files (message_to_wire disk m)
       = Some (map (\<lambda>(a, data). \<lparr>if_name = at_name a, if_data = data, if_mime = at_mime a, if_key = []\<rparr>)
           (concat (map (\<lambda>a. case disk (at_path a) of None \<Rightarrow> [] | Some data \<Rightarrow> [(a, data)]) (im_attachments m))))"
    unfolding wire_files_def message_to_wire_def members.simps Option.bind.simps files_to_wire_def
    by (simp add: json_read given_or_def files_round)
qed

text \<open>So an application does not learn which control of a widget was clicked, when the click comes
  back through a replica that does not own the conversation.\<close>

lemma click_left_behind:
  "im_click m \<noteq> None \<Longrightarrow> map_option im_click (message_from_wire (message_to_wire disk m) files) = Some None"
  by (simp add: message_arrives carried_def)

end
