(* ===== verification/Clicks.thy ===== *)
theory Clicks
  imports Messages Replicas
begin

text \<open>
  Clicks that answer a question somebody waits on, on whichever replica they arrive:
  \<open>resolve_approval\<close>, \<open>may_answer\<close>, \<open>resolve_pending\<close> and \<open>_forward\<close> of
  \<open>packages/crucible/src/crucible/interactions/dispatcher.py\<close> with the routes
  \<open>/v1/internal/clicks\<close> and \<open>/v1/internal/may-answer\<close> of \<open>gateways/http/internal.py\<close>.

  The engines are processes, each at the address its hub listens on, over one store.  A click that is
  forwarded is the same call on the process at that address; nobody there is a call that raises.
  \<open>hops\<close> bounds how often one click is handed on: \<open>None\<close> says it still travels.  Nothing else
  happens while it does: a question that ends meanwhile is the other order of the two.
\<close>

section \<open>Processes\<close>

record engine =
  en_replica :: string
  en_approvals :: approvals
  en_ui :: ui_requests

text \<open>\<open>cs_answers\<close> and \<open>cs_picks\<close> are the answers that were set, \<open>cs_minted\<close> the tokens drawn.\<close>

record cluster =
  cs_at :: "string \<rightharpoonup> engine"
  cs_shared :: shared_db
  cs_answers :: "(string \<times> approval) list"
  cs_picks :: "(string \<times> ui_outcome) list"
  cs_minted :: "string set"

definition at_engine :: "string \<Rightarrow> (engine \<Rightarrow> engine) \<Rightarrow> cluster \<Rightarrow> cluster" where
  "at_engine url f c = c\<lparr>cs_at := (cs_at c)(url := map_option f (cs_at c url))\<rparr>"

text \<open>Where a token is forwarded to: the live replica that minted it, when that is another and has an address.\<close>

definition forward_url :: "engine \<Rightarrow> string \<Rightarrow> datetime \<Rightarrow> shared_db \<Rightarrow> string option" where
  "forward_url e token now d =
     (let minted_by = replica_of token in
      if minted_by = [] \<or> minted_by = en_replica e then None
      else case live_url minted_by now d of None \<Rightarrow> None | Some url \<Rightarrow> if url = [] then None else Some url)"

section \<open>A click\<close>

definition resolve_here :: "string \<Rightarrow> string \<Rightarrow> string \<Rightarrow> string \<Rightarrow> engine \<Rightarrow> cluster \<Rightarrow> cluster \<times> approval_outcome" where
  "resolve_here token v who url e c =
     (case resolve token v who (en_approvals e) of
        (reg, outcome, answer) \<Rightarrow>
          ((at_engine url (\<lambda>e. e\<lparr>en_approvals := reg\<rparr>) c)\<lparr>cs_answers := cs_answers c @
              (case answer of None \<Rightarrow> [] | Some a \<Rightarrow> [(token, a)])\<rparr>, outcome))"

text \<open>\<open>person\<close> is the application's answer who a platform id is.\<close>

fun resolve_approval :: "nat \<Rightarrow> (string \<Rightarrow> string \<Rightarrow> string) \<Rightarrow> datetime \<Rightarrow> string \<Rightarrow> string \<Rightarrow> string \<Rightarrow> string \<Rightarrow> string
    \<Rightarrow> cluster \<Rightarrow> (cluster \<times> approval_outcome) option" where
  "resolve_approval 0 person now url token v user gateway c = None"
| "resolve_approval (Suc hops) person now url token v user gateway c =
     (case cs_at c url of
        None \<Rightarrow> Some (c, NOT_MINE)
      | Some e \<Rightarrow>
        if token = [] then Some (c, NOT_MINE)
        else (case resolve_here token v (person gateway user) url e c of
            (c1, outcome) \<Rightarrow>
              if outcome \<noteq> NOT_MINE then Some (c1, outcome)
              else (case forward_url e token now (cs_shared c1) of
                  None \<Rightarrow> Some (c1, NOT_MINE)
                | Some other \<Rightarrow> resolve_approval hops person now other token v user gateway c1)))"

fun may_answer_at :: "nat \<Rightarrow> (string \<Rightarrow> string \<Rightarrow> string) \<Rightarrow> datetime \<Rightarrow> string \<Rightarrow> string \<Rightarrow> string \<Rightarrow> string \<Rightarrow> cluster
    \<Rightarrow> bool option" where
  "may_answer_at 0 person now url token user gateway c = None"
| "may_answer_at (Suc hops) person now url token user gateway c =
     (case cs_at c url of
        None \<Rightarrow> Some False
      | Some e \<Rightarrow>
        if token = [] then Some False
        else if may_answer token (person gateway user) (en_approvals e) then Some True
        else (case forward_url e token now (cs_shared c) of
            None \<Rightarrow> Some False
          | Some other \<Rightarrow> may_answer_at hops person now other token user gateway c))"

definition pick_here :: "string \<Rightarrow> string \<Rightarrow> string \<Rightarrow> engine \<Rightarrow> cluster \<Rightarrow> cluster \<times> bool" where
  "pick_here token v url e c =
     (case ui_resolve token v (en_ui e) of
        (reg, outcome) \<Rightarrow>
          ((at_engine url (\<lambda>e. e\<lparr>en_ui := reg\<rparr>) c)\<lparr>cs_picks := cs_picks c @
              (case outcome of None \<Rightarrow> [] | Some u \<Rightarrow> [(token, u)])\<rparr>, outcome \<noteq> None))"

fun resolve_pending :: "nat \<Rightarrow> datetime \<Rightarrow> string \<Rightarrow> string \<Rightarrow> string \<Rightarrow> cluster \<Rightarrow> (cluster \<times> bool) option" where
  "resolve_pending 0 now url token v c = None"
| "resolve_pending (Suc hops) now url token v c =
     (case cs_at c url of
        None \<Rightarrow> Some (c, False)
      | Some e \<Rightarrow>
        if token = [] then Some (c, False)
        else (case pick_here token v url e c of
            (c1, resolved) \<Rightarrow>
              if resolved then Some (c1, True)
              else (case forward_url e token now (cs_shared c1) of
                  None \<Rightarrow> Some (c1, False)
                | Some other \<Rightarrow> resolve_pending hops now other token v c1)))"

section \<open>What else happens to questions\<close>

text \<open>A question is asked under a fresh tagged token, given up, or its waiter goes.\<close>

inductive cluster_step :: "(string \<Rightarrow> string \<Rightarrow> string) \<Rightarrow> cluster \<Rightarrow> cluster \<Rightarrow> bool" for person where
  asks: "cs_at c url = Some e \<Longrightarrow> tag_token (en_replica e) t \<notin> cs_minted c \<Longrightarrow>
     cluster_step person c ((at_engine url (\<lambda>e. e\<lparr>en_approvals := register (tag_token (en_replica e) t) k w scopes approvers (en_approvals e)\<rparr>) c)
       \<lparr>cs_minted := insert (tag_token (en_replica e) t) (cs_minted c)\<rparr>)"
| drops: "cluster_step person c (at_engine url (\<lambda>e. e\<lparr>en_approvals := discard token (en_approvals e)\<rparr>) c)"
| leaves: "cluster_step person c (at_engine url (\<lambda>e. e\<lparr>en_approvals := abandon token (en_approvals e)\<rparr>) c)"
| clicks: "resolve_approval hops person now url token v user gateway c = Some (c', outcome) \<Longrightarrow> cluster_step person c c'"
| picks: "resolve_pending hops now url token v c = Some (c', won) \<Longrightarrow> cluster_step person c c'"
| store: "cluster_step person c (c\<lparr>cs_shared := d\<rparr>)"
| starts: "cs_at c url = None \<Longrightarrow> cluster_step person c (c\<lparr>cs_at := (cs_at c)(url \<mapsto>
     \<lparr>en_replica = r, en_approvals = Map.empty, en_ui = Map.empty\<rparr>)\<rparr>)"
| dies: "cluster_step person c (c\<lparr>cs_at := (cs_at c)(url := None)\<rparr>)"

definition no_engines :: "shared_db \<Rightarrow> cluster" where
  "no_engines d = \<lparr>cs_at = Map.empty, cs_shared = d, cs_answers = [], cs_picks = [], cs_minted = {}\<rparr>"

definition registered_at :: "cluster \<Rightarrow> string \<Rightarrow> string \<Rightarrow> bool" where
  "registered_at c url token \<longleftrightarrow> (\<exists>e. cs_at c url = Some e \<and> en_approvals e token \<noteq> None)"

text \<open>A token is registered with one process, was drawn, and is not answered any more; each has one answer.\<close>

definition cluster_ok :: "cluster \<Rightarrow> bool" where
  "cluster_ok c \<longleftrightarrow> distinct (map fst (cs_answers c)) \<and> fst ` set (cs_answers c) \<subseteq> cs_minted c
     \<and> (\<forall>url token. registered_at c url token \<longrightarrow> token \<in> cs_minted c \<and> token \<notin> fst ` set (cs_answers c))
     \<and> (\<forall>url url' token. registered_at c url token \<and> registered_at c url' token \<longrightarrow> url = url')"

lemma cluster_okD:
  assumes "cluster_ok c"
  shows "distinct (map fst (cs_answers c))" and "fst ` set (cs_answers c) \<subseteq> cs_minted c"
    and "registered_at c url token \<Longrightarrow> token \<in> cs_minted c"
    and "registered_at c url token \<Longrightarrow> token \<notin> fst ` set (cs_answers c)"
    and "registered_at c url token \<Longrightarrow> registered_at c url' token \<Longrightarrow> url = url'"
  using assms unfolding cluster_ok_def by blast+

text \<open>Fewer registrations and no new answers.\<close>

lemma ok_shrinks:
  assumes "cluster_ok c" and "cs_answers c' = cs_answers c" and "cs_minted c' = cs_minted c"
    and "\<And>url token. registered_at c' url token \<Longrightarrow> registered_at c url token"
  shows "cluster_ok c'"
  using assms unfolding cluster_ok_def by metis

lemma registered_at_engine:
  "registered_at (at_engine url f c) u token \<longleftrightarrow>
     (if u = url then \<exists>e. cs_at c url = Some e \<and> en_approvals (f e) token \<noteq> None else registered_at c u token)"
  by (auto simp: registered_at_def at_engine_def)

lemma registered_frame [simp]:
  "registered_at (c\<lparr>cs_answers := x\<rparr>) = registered_at c" "registered_at (c\<lparr>cs_picks := y\<rparr>) = registered_at c"
  "registered_at (c\<lparr>cs_minted := z\<rparr>) = registered_at c" "registered_at (c\<lparr>cs_shared := d\<rparr>) = registered_at c"
  by (simp_all add: registered_at_def fun_eq_iff)

lemma at_engine_frame [simp]:
  "cs_answers (at_engine url f c) = cs_answers c" "cs_minted (at_engine url f c) = cs_minted c"
  "cs_picks (at_engine url f c) = cs_picks c" "cs_shared (at_engine url f c) = cs_shared c"
  by (simp_all add: at_engine_def)

lemma resolve_here_ok:
  assumes ok: "cluster_ok c" and e: "cs_at c url = Some e"
    and r: "resolve_here token v who url e c = (c', outcome)"
  shows "cluster_ok c'"
proof -
  obtain reg out answer where res: "resolve token v who (en_approvals e) = (reg, out, answer)"
    by (metis prod_cases3)
  let ?c = "at_engine url (\<lambda>e. e\<lparr>en_approvals := reg\<rparr>) c"
  have c': "c' = ?c\<lparr>cs_answers := cs_answers c @ (case answer of None \<Rightarrow> [] | Some a \<Rightarrow> [(token, a)])\<rparr>"
    using r by (simp add: resolve_here_def res)
  have sub: "en_approvals e k \<noteq> None" if "reg k \<noteq> None" for k
    using res that by (auto simp: resolve_def split: option.splits if_splits)
  have fewer: "registered_at c u k" if "registered_at ?c u k" for u k
    using that sub e by (auto simp: registered_at_def at_engine_def split: if_splits)
  show ?thesis
  proof (cases answer)
    case None
    have "cluster_ok ?c" by (rule ok_shrinks [OF ok _ _ fewer]) simp_all
    then show ?thesis by (simp add: c' None cluster_ok_def)
  next
    case (Some a)
    then have here: "registered_at c url token" and gone: "reg token = None"
      using res e by (auto simp: resolve_def registered_at_def split: option.splits if_splits)
    from here have fresh: "token \<in> cs_minted c" "token \<notin> fst ` set (cs_answers c)" using cluster_okD(3,4) [OF ok here] by simp_all
    have not_now: "\<not> registered_at ?c u token" for u
    proof
      assume reg': "registered_at ?c u token"
      then have "u = url" using cluster_okD(5) [OF ok fewer [OF reg'] here] by simp
      then show False using reg' gone by (auto simp: registered_at_engine)
    qed
    have ans: "cs_answers c' = cs_answers c @ [(token, a)]" and mint: "cs_minted c' = cs_minted c"
      and reg': "registered_at c' = registered_at ?c" by (simp_all add: c' Some)
    show ?thesis unfolding cluster_ok_def ans mint reg'
    proof (intro conjI allI impI)
      show "distinct (map fst (cs_answers c @ [(token, a)]))" using cluster_okD(1) [OF ok] fresh by simp
      show "fst ` set (cs_answers c @ [(token, a)]) \<subseteq> cs_minted c" using cluster_okD(2) [OF ok] fresh by simp
      fix u k assume "registered_at ?c u k"
      then have "registered_at c u k" "k \<noteq> token" using fewer not_now by blast+
      then show "k \<in> cs_minted c" "k \<notin> fst ` set (cs_answers c @ [(token, a)])" using cluster_okD(3,4) [OF ok] by auto
    next
      fix u u' k assume "registered_at ?c u k \<and> registered_at ?c u' k"
      then show "u = u'" using fewer cluster_okD(5) [OF ok] by blast
    qed
  qed
qed

lemma resolve_approval_ok:
  "cluster_ok c \<Longrightarrow> resolve_approval hops person now url token v user gateway c = Some (c', outcome) \<Longrightarrow> cluster_ok c'"
proof (induction hops arbitrary: url c)
  case (Suc hops)
  show ?case
  proof (cases "cs_at c url")
    case (Some e)
    obtain c1 out where here: "resolve_here token v (person gateway user) url e c = (c1, out)" by fastforce
    have "cluster_ok c1" by (rule resolve_here_ok [OF Suc.prems(1) Some here])
    then show ?thesis
      using Suc.prems Suc.IH [of c1] by (auto simp: Some here split: if_splits option.splits)
  qed (use Suc.prems in auto)
qed simp

lemma pick_here_frame:
  assumes "cs_at c url = Some e" and "pick_here token v url e c = (c', won)"
  shows "cs_answers c' = cs_answers c \<and> cs_minted c' = cs_minted c \<and> registered_at c' = registered_at c"
  using assms by (auto simp: pick_here_def at_engine_def registered_at_def fun_eq_iff split: prod.splits if_splits)

lemma resolve_pending_frame:
  "resolve_pending hops now url token v c = Some (c', won) \<Longrightarrow>
     cs_answers c' = cs_answers c \<and> cs_minted c' = cs_minted c \<and> registered_at c' = registered_at c"
proof (induction hops arbitrary: url c)
  case (Suc hops)
  show ?case
  proof (cases "cs_at c url")
    case (Some e)
    obtain c1 w where here: "pick_here token v url e c = (c1, w)" by fastforce
    show ?thesis
      using Suc.prems Suc.IH [of _ c1] pick_here_frame [OF Some here]
      by (auto simp: Some here split: if_splits option.splits)
  qed (use Suc.prems in auto)
qed simp

lemma cluster_step_ok:
  assumes ok: "cluster_ok c" and step: "cluster_step person c c'"
  shows "cluster_ok c'"
  using step
proof cases
  case (asks url e t k w scopes approvers)
  let ?t = "tag_token (en_replica e) t"
  have none: "\<not> registered_at c u ?t" for u using ok asks(3) by (auto simp: cluster_ok_def)
  have "registered_at c' u x \<longleftrightarrow> registered_at c u x \<or> u = url \<and> x = ?t" for u x
    using asks(2) by (auto simp: asks(1) registered_at_def at_engine_def register_def)
  moreover have "cs_answers c' = cs_answers c" "cs_minted c' = insert ?t (cs_minted c)" by (simp_all add: asks(1))
  ultimately show ?thesis using ok asks(3) none unfolding cluster_ok_def by (metis insert_iff subset_insertI2 subsetD)
next
  case (drops url token)
  show ?thesis by (rule ok_shrinks [OF ok]) (auto simp: drops at_engine_def discard_def registered_at_def split: if_splits)
next
  case (leaves url token)
  show ?thesis
    by (rule ok_shrinks [OF ok]) (auto simp: leaves at_engine_def abandon_def registered_at_def split: if_splits option.splits)
next
  case (clicks hops now url token v user gateway outcome)
  show ?thesis by (rule resolve_approval_ok [OF ok clicks])
next
  case (picks hops now url token v won)
  show ?thesis by (rule ok_shrinks [OF ok]) (use resolve_pending_frame [OF picks] in simp_all)
next
  case (store d)
  show ?thesis by (rule ok_shrinks [OF ok]) (simp_all add: store)
next
  case (starts url r)
  show ?thesis by (rule ok_shrinks [OF ok]) (auto simp: starts registered_at_def split: if_splits)
next
  case (dies url)
  show ?thesis by (rule ok_shrinks [OF ok]) (auto simp: dies registered_at_def split: if_splits)
qed

interpretation questions: invariant_system "\<lambda>c. c = no_engines d" "cluster_step person" cluster_ok
proof unfold_locales
  show "cluster_ok c" if "c = no_engines d" for c using that by (simp add: cluster_ok_def no_engines_def registered_at_def)
  show "cluster_ok c'" if "cluster_ok c" "cluster_step person c c'" for c c' by (rule cluster_step_ok [OF that])
qed

text \<open>A question has one answer: over all replicas, restarts, forwarded and repeated clicks, no
  token is answered twice, and what was answered is registered nowhere any more.\<close>

lemma answered_once_in_the_cluster:
  assumes "reachable (\<lambda>c. c = no_engines d) (cluster_step person) c"
  shows "distinct (map fst (cs_answers c)) \<and> (\<forall>url token. registered_at c url token \<longrightarrow> token \<notin> fst ` set (cs_answers c))"
  using cluster_okD(1,4) [OF questions.reachable_inv [OF assms]] by blast

definition sample_asked :: cluster where
  "sample_asked = (at_engine ''http://a'' (\<lambda>e. e\<lparr>en_approvals := register (tag_token (en_replica e) ''t'') ''tool'' ''aide'' [] {''una''} (en_approvals e)\<rparr>)
     ((no_engines nothing_shared)\<lparr>cs_at := [''http://a'' \<mapsto> \<lparr>en_replica = ''r1'', en_approvals = Map.empty, en_ui = Map.empty\<rparr>]\<rparr>))
     \<lparr>cs_minted := {tag_token ''r1'' ''t''}\<rparr>"

lemma answered_once_in_the_cluster_witness:
  "\<exists>c. map fst (cs_answers c) = [''r1.t''] \<and> distinct (map fst (cs_answers c)) \<and> \<not> registered_at c ''http://a'' ''r1.t''"
proof -
  let ?step = "cluster_step (\<lambda>g u. u)" and ?init = "\<lambda>c. c = no_engines nothing_shared"
  let ?c1 = "(no_engines nothing_shared)\<lparr>cs_at := [''http://a'' \<mapsto> \<lparr>en_replica = ''r1'', en_approvals = Map.empty, en_ui = Map.empty\<rparr>]\<rparr>"
  have "reachable ?init ?step ?c1"
    using reachable.move [OF reachable.start [of ?init "no_engines nothing_shared"], of ?step]
      cluster_step.starts [of "no_engines nothing_shared" "''http://a''" "\<lambda>g u. u" "''r1''"]
    by (simp add: no_engines_def)
  then have asked: "reachable ?init ?step sample_asked"
    unfolding sample_asked_def
    by (rule reachable.move) (use cluster_step.asks [of ?c1 "''http://a''" _ "''t''" "\<lambda>g u. u" "''tool''" "''aide''" "[]" "{''una''}"]
      in \<open>simp add: no_engines_def at_engine_def\<close>)
  have "tag_token ''r1'' ''t'' = ''r1.t''" by code_simp
  then obtain c out where c: "resolve_approval (Suc 0) (\<lambda>g u. u) 0 ''http://a'' ''r1.t'' ''once'' ''una'' [] sample_asked = Some (c, out)"
    "map fst (cs_answers c) = [''r1.t'']"
    by (simp add: sample_asked_def at_engine_def no_engines_def register_def resolve_here_def resolve_def)
  have "reachable ?init ?step c" by (rule reachable.move [OF asked cluster_step.clicks [OF c(1)]])
  note once = answered_once_in_the_cluster [OF this]
  have "''r1.t'' \<in> set (map fst (cs_answers c))" unfolding c(2) by simp
  then have "\<not> registered_at c ''http://a'' ''r1.t''" using once unfolding set_map by blast
  then show ?thesis by (intro exI [of _ c] conjI c(2) conjunct1 [OF once])
qed

section \<open>Where a click lands does not matter\<close>

lemma at_engine_same: "cs_at c url = Some e \<Longrightarrow> f e = e \<Longrightarrow> at_engine url f c = c"
  by (simp add: at_engine_def fun_upd_idem)

lemma resolve_elsewhere:
  assumes "cs_at c url = Some e" and "en_approvals e token = None"
  shows "resolve_here token v who url e c = (c, NOT_MINE)"
  using assms at_engine_same [OF assms(1)] by (simp add: resolve_here_def resolve_def)

lemma pick_elsewhere:
  assumes "cs_at c url = Some e" and "en_ui e token = None"
  shows "pick_here token v url e c = (c, False)"
proof -
  have "(en_ui e)(token := None) = en_ui e" using assms(2) by (simp add: fun_upd_idem)
  then show ?thesis using at_engine_same [OF assms(1)] by (simp add: pick_here_def ui_resolve_def assms(2))
qed

lemma own_token_stays: "en_replica e = replica_of token \<Longrightarrow> forward_url e token now d = None"
  by (simp add: forward_url_def)

text \<open>A click that arrives on a replica that did not ask the question does what it would do on the
  one that did, as long as that one is alive at its address: the same answer is set, the same is said
  of it, and the same people may answer.\<close>

lemma click_finds_its_question:
  assumes "cs_at c url = Some e" and "en_approvals e token = None" and "en_ui e token = None"
    and "replica_of token \<noteq> []" and "en_replica e \<noteq> replica_of token"
    and "live_url (replica_of token) now (cs_shared c) = Some url'" and "url' \<noteq> []"
    and "cs_at c url' = Some e'" and "en_replica e' = replica_of token"
  shows "resolve_approval (Suc (Suc n)) person now url token v user gateway c
           = Some (resolve_here token v (person gateway user) url' e' c)
     \<and> resolve_pending (Suc (Suc n)) now url token v c = Some (pick_here token v url' e' c)
     \<and> may_answer_at (Suc (Suc n)) person now url token user gateway c
           = Some (may_answer token (person gateway user) (en_approvals e'))"
proof -
  have tok: "token \<noteq> []" using assms(4) by (auto simp: replica_of_def)
  have fwd: "forward_url e token now (cs_shared c) = Some url'"
    using assms(4-7) by (auto simp: forward_url_def)
  have own: "forward_url e' token now d = None" for d by (rule own_token_stays [OF assms(9)])
  have not_e: "\<not> may_answer token who (en_approvals e)" for who by (simp add: may_answer_def assms(2))
  obtain c1 out where r: "resolve_here token v (person gateway user) url' e' c = (c1, out)" by fastforce
  obtain c2 won where k: "pick_here token v url' e' c = (c2, won)" by fastforce
  show ?thesis
    by (simp add: assms(1,8) tok fwd own not_e resolve_elsewhere [OF assms(1,2)] pick_elsewhere [OF assms(1,3)] r k)
qed

definition sample_cluster :: cluster where
  "sample_cluster =
     \<lparr>cs_at = [''http://a'' \<mapsto> \<lparr>en_replica = ''r1'', en_approvals = [''r1.t'' \<mapsto> \<lparr>p_done = False, p_kind = ''tool'',
          p_principal = ''aide'', p_scopes = [], p_approvers = {''una''}\<rparr>], en_ui = Map.empty\<rparr>,
        ''http://b'' \<mapsto> \<lparr>en_replica = ''r2'', en_approvals = Map.empty, en_ui = Map.empty\<rparr>],
      cs_shared = \<lparr>leases = [\<lparr>le_name = REPLICA_LEASE_PREFIX @ ''r1'', le_owner = ''http://a'', le_until = 30\<rparr>], owners = []\<rparr>,
      cs_answers = [], cs_picks = [], cs_minted = {''r1.t''}\<rparr>"

lemma click_finds_its_question_witness:
  "map_option snd (resolve_approval 2 (\<lambda>g u. u) 5 ''http://b'' ''r1.t'' ''once'' ''una'' ''slack'' sample_cluster) = Some RESOLVED
   \<and> map_option snd (resolve_approval 2 (\<lambda>g u. u) 5 ''http://b'' ''r1.t'' ''once'' ''vic'' ''slack'' sample_cluster) = Some NOT_ALLOWED"
proof -
  obtain e e' where e: "cs_at sample_cluster ''http://b'' = Some e" "en_replica e = ''r2''" "en_approvals e ''r1.t'' = None"
      "en_ui e ''r1.t'' = None"
    and e': "cs_at sample_cluster ''http://a'' = Some e'" "en_replica e' = ''r1''"
      "en_approvals e' ''r1.t'' = Some \<lparr>p_done = False, p_kind = ''tool'', p_principal = ''aide'', p_scopes = [], p_approvers = {''una''}\<rparr>"
    by (simp add: sample_cluster_def)
  have r: "replica_of ''r1.t'' = ''r1''" by code_simp
  have l: "live_url (replica_of ''r1.t'') 5 (cs_shared sample_cluster) = Some ''http://a''"
    unfolding r by (simp add: sample_cluster_def live_url_def fetchone_def)
  have click: "map_option snd (resolve_approval (Suc (Suc 0)) (\<lambda>g u. u) 5 ''http://b'' ''r1.t'' ''once'' u ''slack'' sample_cluster)
     = Some (snd (resolve_here ''r1.t'' ''once'' u ''http://a'' e' sample_cluster))" for u
    using click_finds_its_question [OF e(1,3,4) _ _ l _ e'(1), of 0 "\<lambda>g u. u" "''once''" u "''slack''"] r e(2) e'(2)
    by (simp del: resolve_approval.simps)
  have "snd (resolve_here ''r1.t'' ''once'' ''una'' ''http://a'' e' sample_cluster) = RESOLVED"
    "snd (resolve_here ''r1.t'' ''once'' ''vic'' ''http://a'' e' sample_cluster) = NOT_ALLOWED"
    by (simp_all add: resolve_here_def resolve_def e'(3))
  then show ?thesis unfolding numeral_2_eq_2 click by simp
qed

section \<open>A replica restarted at its address\<close>

text \<open>Replica ids are drawn anew when a process starts, addresses are configured.  Until the lease of the
  process that was there before runs out, the one started at its address is told by the registry that
  the old one is alive at that address, and hands its clicks and turns on to itself.\<close>

lemma restarted_replica_chases_itself:
  assumes "cs_at c url = Some e" and "en_approvals e token = None" and "url \<noteq> []"
    and "replica_of token \<noteq> []" and "en_replica e \<noteq> replica_of token"
    and "live_url (replica_of token) now (cs_shared c) = Some url"
  shows "resolve_approval hops person now url token v user gateway c = None"
proof (induction hops)
  case (Suc hops)
  have "token \<noteq> []" using assms(4) by (auto simp: replica_of_def)
  moreover have "forward_url e token now (cs_shared c) = Some url" using assms(3-6) by (auto simp: forward_url_def)
  ultimately show ?case using Suc.IH by (simp add: assms(1) resolve_elsewhere [OF assms(1,2)])
qed simp

lemma restarted_replica_forwards_to_itself:
  assumes "w \<in> set (owners d)" and "ow_agent w = agent" and "ow_conversation w = conv" and "ow_replica w = old"
    and "shared_ok d" and "old \<noteq> re_id me" and "gateway \<in> forwarded"
    and "live_url old (fst nows) d = Some (re_url me)" and "re_url me \<noteq> []" and "forward (re_url me) = Some outcome"
  shows "snd (owned_handle me agent forwarded gateway conv forward nows d) = Forwarded (re_url me) outcome"
proof -
  let ?mine = "\<lambda>w. ow_agent w = agent \<and> ow_conversation w = conv"
  have only: "w' = w" if "w' \<in> set (owners d)" "?mine w'" for w'
    using assms(1-3,5) that unfolding shared_ok_def by (auto simp: distinct_map inj_on_def)
  have alive: "\<exists>l \<in> set (leases d). le_name l = REPLICA_LEASE_PREFIX @ old \<and> fst nows \<le> le_until l"
    using assms(8) fetchone_Some unfolding live_url_def by fastforce
  have one: "fetchone ?mine (owners d) = Some w"
  proof (cases "fetchone ?mine (owners d)")
    case None
    then show ?thesis using assms(1-3) unfolding fetchone_None by blast
  next
    case (Some w')
    then show ?thesis using fetchone_Some [OF Some] only by simp
  qed
  have none: "rowcount (\<lambda>w. ?mine w \<and> (ow_replica w = re_id me \<or> False
      \<or> \<not> (\<exists>l \<in> set (leases d). le_name l = REPLICA_LEASE_PREFIX @ ow_replica w \<and> fst nows \<le> le_until l))) (owners d) = 0"
    unfolding rowcount_0_iff using only alive assms(4,6) by blast
  have "claim_conversation agent conv (re_id me) False (fst nows) d = (d, \<lparr>co_replica = old, co_url = re_url me\<rparr>)"
    unfolding claim_conversation_def Let_def none using assms(1-4,6,8) one by auto
  then show ?thesis using assms(6,7,9,10) by (simp add: owned_handle_def)
qed

end
