(* ===== verification/Widgets.thy ===== *)
theory Widgets
  imports Clicks HttpHub SessionProps "HOL-Library.AList"
begin

text \<open>
  Clicks, forms and commands that become turns, and the screens the engine answers itself: the rest of
  \<open>packages/crucible/src/crucible/interactions/dispatcher.py\<close>, with \<open>labels.py\<close>, \<open>screens.py\<close>,
  \<open>presence.py\<close> and the service of \<open>service.py\<close> that posts widgets, forms and screens.

  A chat client is named by its agent and gateway.  What a chat answers about users and channels, what
  a screen draws and whom it admits, random ids and the clock are arguments; a lookup that raises
  answers nothing.  Where no value was given the code writes an em dash, here a hyphen; the emoji of the
  engine's own wordings are left out.
\<close>

section \<open>Who is reached how\<close>

text \<open>An agent's gateways and which of them is the default.\<close>

record agent_sink =
  sk_gateways :: "string list"
  sk_default :: string

definition chat_for :: "agent_sink \<Rightarrow> string \<Rightarrow> string" where
  "chat_for k gateway = (if gateway \<in> set (sk_gateways k) then gateway else sk_default k)"

record chat_names =
  cn_user :: "string \<Rightarrow> string option"
  cn_channel :: "string \<Rightarrow> string option"

record feeding =
  fd_sinks :: "string \<rightharpoonup> agent_sink"
  fd_names :: "string \<Rightarrow> string \<Rightarrow> chat_names"
  fd_handlers :: "string set"

text \<open>What was submitted to an agent's sink, through which gateway's client; the forms given to handlers;
  the buttons struck off.\<close>

record 'v fed =
  ws_db :: session_db
  ws_fed :: "(string \<times> string \<times> incoming) list"
  ws_handled :: "(form_record \<times> (string \<times> 'v) list \<times> string) list"
  ws_retired :: "(string \<times> string \<times> string) list"

section \<open>Names for ids\<close>

definition USER_FIELD_TYPES :: "string set" where "USER_FIELD_TYPES = {''user'', ''users''}"
definition CHANNEL_FIELD_TYPES :: "string set" where "CHANNEL_FIELD_TYPES = {''channel'', ''channels''}"
definition STATIC_FIELD_TYPES :: "string set" where "STATIC_FIELD_TYPES = {''label''}"

definition name_user :: "chat_names \<Rightarrow> string \<Rightarrow> string" where
  "name_user n i = (case cn_user n i of None \<Rightarrow> i
     | Some u \<Rightarrow> if u = [] then i else ''@'' @ u @ '' ('' @ i @ '')'')"

definition name_channel :: "chat_names \<Rightarrow> string \<Rightarrow> string" where
  "name_channel n i = (case cn_channel n i of None \<Rightarrow> i
     | Some u \<Rightarrow> if u = [] then i else ''~'' @ u @ '' ('' @ i @ '')'')"

definition each_named :: "(string \<Rightarrow> string) \<Rightarrow> string \<Rightarrow> string" where
  "each_named f v = join '', '' (map f (filter (\<lambda>p. p \<noteq> []) (map strip (split_on (CHR '','') [] v))))"

definition humanize_pick :: "chat_names \<Rightarrow> string \<Rightarrow> string \<Rightarrow> string" where
  "humanize_pick n v field_type =
     (if v = [] then v
      else if field_type \<in> USER_FIELD_TYPES then each_named (name_user n) v
      else if field_type \<in> CHANNEL_FIELD_TYPES then each_named (name_channel n) v
      else v)"

section \<open>A click on a widget\<close>

datatype action_result = FED | UNKNOWN | UNAVAILABLE

definition resumed_ref :: "string \<Rightarrow> string \<Rightarrow> string \<Rightarrow> string \<Rightarrow> string \<Rightarrow> conversation_ref" where
  "resumed_ref channel conv message_id knd thread_root =
     \<lparr>r_channel_id = channel, r_conversation_id = conv, r_message_id = message_id,
      r_thread_root_id = (if thread_root \<noteq> [] then thread_root else if knd = ToolGate.KIND_THREAD then conv else [])\<rparr>"

definition click_message :: "interaction_record \<Rightarrow> string \<Rightarrow> string \<Rightarrow> string \<Rightarrow> string \<Rightarrow> incoming" where
  "click_message r v user action_id data =
     (incoming_message (resumed_ref (in_channel_id r) (in_conversation_id r) (''interact-'' @ in_interaction_id r)
         (in_kind r) (in_thread_root_id r)) v user)
       \<lparr>im_kind := in_kind r, im_synthetic := True, im_gateway := in_gateway r,
        im_click := Some \<lparr>ck_action_id = action_id, ck_data = data, ck_interaction_id = in_interaction_id r\<rparr>\<rparr>"

record widget_click =
  wc_token :: string
  wc_value :: string
  wc_user :: string
  wc_pick :: string
  wc_action_id :: string
  wc_data :: string

definition consume_action :: "feeding \<Rightarrow> widget_click \<Rightarrow> 'v fed \<Rightarrow> 'v fed \<times> action_result" where
  "consume_action cfg k s =
     (if wc_token k = [] then (s, UNKNOWN)
      else (case take_interaction (wc_token k) (ws_db s) of
          (d1, None) \<Rightarrow> (s\<lparr>ws_db := d1\<rparr>, UNKNOWN)
        | (d1, Some r) \<Rightarrow>
          (case fd_sinks cfg (in_agent r) of
             None \<Rightarrow> (s\<lparr>ws_db := d1\<rparr>, UNAVAILABLE)
           | Some sink \<Rightarrow>
             let chat = chat_for sink (in_gateway r);
                 v = (if wc_pick k \<noteq> [] then humanize_pick (fd_names cfg (in_agent r) chat) (wc_value k) (wc_pick k)
                      else wc_value k) in
             (s\<lparr>ws_db := d1, ws_fed := ws_fed s @ [(in_agent r, chat,
                 click_message r v (wc_user k) (wc_action_id k) (wc_data k))]\<rparr>, FED))))"

section \<open>A command\<close>

record command_call =
  cc_agent :: string
  cc_channel_id :: string
  cc_conversation_id :: string
  cc_kind :: string
  cc_text :: string
  cc_user_id :: string
  cc_username :: string
  cc_quoted :: "quoted_message option"
  cc_gateway :: string
  cc_thread_root_id :: string

definition invoke_command :: "feeding \<Rightarrow> string \<Rightarrow> command_call \<Rightarrow> 'v fed \<Rightarrow> 'v fed \<times> action_result" where
  "invoke_command cfg drawn k s =
     (case fd_sinks cfg (cc_agent k) of
        None \<Rightarrow> (s, UNAVAILABLE)
      | Some sink \<Rightarrow>
          (s\<lparr>ws_fed := ws_fed s @ [(cc_agent k, chat_for sink (cc_gateway k),
              (incoming_message (resumed_ref (cc_channel_id k) (cc_conversation_id k) (''cmd-'' @ drawn)
                  (cc_kind k) (cc_thread_root_id k)) (cc_text k) (cc_user_id k))
                \<lparr>im_username := cc_username k, im_kind := cc_kind k, im_mentioned := True, im_synthetic := True,
                 im_quoted := cc_quoted k, im_gateway := cc_gateway k\<rparr>)]\<rparr>, FED))"

section \<open>A form\<close>

text \<open>What a platform submits for a field.\<close>

datatype field_value = GivenText string | GivenBool bool | GivenNothing

definition field_text :: "chat_names \<Rightarrow> string \<Rightarrow> field_value option \<Rightarrow> string" where
  "field_text n field_type v =
     (let txt = (case v of Some (GivenText t) \<Rightarrow> (if t = [] then [] else humanize_pick n t field_type)
               | Some (GivenBool b) \<Rightarrow> humanize_pick n (if b then ''yes'' else ''no'') field_type | _ \<Rightarrow> []) in
      if txt = [] then ''-'' else txt)"

definition render_submission :: "chat_names \<Rightarrow> form \<Rightarrow> (string \<times> field_value) list \<Rightarrow> string" where
  "render_submission n f submission =
     join [CHR 10] ((''[form: '' @ fm_title f @ '']'')
       # map (\<lambda>x. ''- '' @ ff_label x @ '': '' @ field_text n (ff_type x) (map_of submission (ff_name x)))
           (filter (\<lambda>x. ff_type x \<notin> STATIC_FIELD_TYPES) (fm_fields f)))"

definition FORM_SUBMITTED :: string where "FORM_SUBMITTED = ''Submitted.''"

definition form_message :: "form_record \<Rightarrow> string \<Rightarrow> string \<Rightarrow> incoming" where
  "form_message r words user =
     (incoming_message (resumed_ref (fo_channel_id r) (fo_conversation_id r) (''form-'' @ take 12 (fo_token r))
         (fo_kind r) (fo_thread_root_id r)) words user)
       \<lparr>im_kind := fo_kind r, im_gateway := fo_gateway r, im_synthetic := True\<rparr>"

text \<open>A submission awaits the store twice: the form is read, and, unless it was cancelled, deleted; what
  follows changes the store no more.  \<open>specs\<close> reads the form a record's text stands for, which raises
  when there is none.\<close>

definition form_read :: "string \<Rightarrow> bool \<Rightarrow> session_db \<Rightarrow> form_record option" where
  "form_read token cancelled d =
     (if token = [] then None
      else case get_form token d of None \<Rightarrow> None | Some r \<Rightarrow> if cancelled then None else Some r)"

definition form_deleted :: "form_record \<Rightarrow> 'v fed \<Rightarrow> 'v fed" where
  "form_deleted r s = s\<lparr>ws_db := delete_form (fo_token r) (ws_db s)\<rparr>"

definition form_taken :: "feeding \<Rightarrow> (string \<Rightarrow> form option) \<Rightarrow> (form_record \<Rightarrow> bool) \<Rightarrow> form_record
    \<Rightarrow> (string \<times> field_value) list \<Rightarrow> string \<Rightarrow> field_value fed \<Rightarrow> field_value fed \<times> bool option" where
  "form_taken cfg specs handles r submission user s =
     (if fo_handler r \<noteq> [] then
        (if fo_handler r \<notin> fd_handlers cfg \<or> \<not> handles r then (s, Some False)
         else (s\<lparr>ws_handled := ws_handled s @ [(r, submission, user)]\<rparr>, Some True))
      else (case fd_sinks cfg (fo_agent r) of
          None \<Rightarrow> (s, Some False)
        | Some sink \<Rightarrow>
          let chat = chat_for sink (fo_gateway r) in
          (case specs (fo_spec r) of
             None \<Rightarrow> (s, None)
           | Some f \<Rightarrow>
             (s\<lparr>ws_fed := ws_fed s @ [(fo_agent r, chat,
                  form_message r (render_submission (fd_names cfg (fo_agent r) chat) f submission) user)],
                ws_retired := (if fo_post_id r = [] then ws_retired s else ws_retired s @ [(fo_agent r, chat, fo_post_id r)])\<rparr>,
              Some True))))"

text \<open>The form a click on its button opens; a text that stands for no form, which raises, opens none here.\<close>

definition load_form :: "(string \<Rightarrow> form option) \<Rightarrow> string \<Rightarrow> session_db \<Rightarrow> (string \<times> form) option" where
  "load_form specs token d =
     (if token = [] then None
      else case get_form token d of None \<Rightarrow> None | Some r \<Rightarrow> map_option (Pair (fo_agent r)) (specs (fo_spec r)))"

text \<open>With nothing between the two.\<close>

definition submit_form :: "feeding \<Rightarrow> (string \<Rightarrow> form option) \<Rightarrow> (form_record \<Rightarrow> bool) \<Rightarrow> string
    \<Rightarrow> (string \<times> field_value) list \<Rightarrow> bool \<Rightarrow> string \<Rightarrow> field_value fed \<Rightarrow> field_value fed \<times> bool option" where
  "submit_form cfg specs handles token submission cancelled user s =
     (case form_read token cancelled (ws_db s) of
        None \<Rightarrow> (s, Some False)
      | Some r \<Rightarrow> form_taken cfg specs handles r submission user (form_deleted r s))"

section \<open>Screens\<close>

record screen_state =
  ss_screen :: string
  ss_agent :: string
  ss_data :: "(string \<times> json) list"
  ss_post_id :: string

definition with_data :: "string \<Rightarrow> json \<Rightarrow> screen_state \<Rightarrow> screen_state" where
  "with_data key v st = st\<lparr>ss_data := AList.update key v (ss_data st)\<rparr>"

definition encode_state :: "screen_state \<Rightarrow> json" where
  "encode_state st = JObj [(''n'', JStr (ss_screen st)), (''a'', JStr (ss_agent st)), (''d'', JObj (ss_data st))]"

text \<open>A name that is no text, which \<open>str\<close> would turn into one, is outside the model.\<close>

definition decode_state :: "json \<Rightarrow> screen_state option" where
  "decode_state j = Option.bind (members j) (\<lambda>d.
     Option.bind (must as_str ''n'' d) (\<lambda>n.
     Option.bind (may (not_null as_str) None ''a'' d) (\<lambda>a.
     Option.bind (may (not_null members) None ''d'' d) (\<lambda>x.
       Some \<lparr>ss_screen = n, ss_agent = given_or [] a, ss_data = given_or [] x, ss_post_id = []\<rparr>))))"

record view =
  vw_cards :: "screen_card list"
  vw_private_note :: string

text \<open>A screen of the application; \<open>sn_admits\<close> answers a reason to refuse, and not every screen has one.\<close>

record screen =
  sn_command :: string
  sn_listed :: bool
  sn_direct_only :: bool
  sn_admits :: "(string \<Rightarrow> conversation_ref option \<Rightarrow> string) option"
  sn_render :: "screen_state \<Rightarrow> string \<Rightarrow> view"

definition DIRECT_ONLY_TEXT :: string where "DIRECT_ONLY_TEXT = ''This opens only in a direct message with me.''"
definition DM_KIND :: string where "DM_KIND = ''dm''"

definition refusal_of :: "screen \<Rightarrow> string \<Rightarrow> conversation_ref option \<Rightarrow> string option \<Rightarrow> string" where
  "refusal_of sc user ref knd =
     (if (case knd of None \<Rightarrow> False | Some k \<Rightarrow> k \<noteq> DM_KIND) \<and> sn_direct_only sc then DIRECT_ONLY_TEXT
      else case sn_admits sc of None \<Rightarrow> [] | Some admits \<Rightarrow> admits user ref)"

type_synonym screens = "(string \<times> screen) list"

definition register_screen :: "screen \<Rightarrow> screens \<Rightarrow> screens" where
  "register_screen sc reg = AList.update (sn_command sc) sc reg"

definition lstrip_slash :: "string \<Rightarrow> string" where
  "lstrip_slash s = dropWhile (\<lambda>c. c = CHR ''/'') s"

definition get_screen :: "string \<Rightarrow> screens \<Rightarrow> screen option" where
  "get_screen name reg = map_of reg (lower (strip (lstrip_slash name)))"

definition handles_screen :: "string \<Rightarrow> screens \<Rightarrow> bool" where
  "handles_screen name reg \<longleftrightarrow> get_screen name reg \<noteq> None"

definition screen_names :: "screens \<Rightarrow> string list" where
  "screen_names reg = sort (map fst (filter (\<lambda>(n, sc). sn_listed sc) reg))"

definition screen_action :: "screen_state \<Rightarrow> string \<Rightarrow> string \<Rightarrow> string \<Rightarrow> string \<Rightarrow> string \<Rightarrow> choice list \<Rightarrow> control" where
  "screen_action st i label v style knd options =
     \<lparr>c_id = i, c_label = label, c_value = v, c_style = style,
      c_context = [(SCREEN_KEY, JStr (ss_screen st)), (STATE_KEY, encode_state st)], c_kind = knd,
      c_options = options, c_data = []\<rparr>"

definition state_from_context :: "(string \<times> json) list \<Rightarrow> screen_state option" where
  "state_from_context ctx =
     (case map_of ctx SCREEN_KEY of None \<Rightarrow> None
      | Some j \<Rightarrow> if j = JNull \<or> j = JStr [] then None else Option.bind (map_of ctx STATE_KEY) decode_state)"

text \<open>What was posted for a screen and where, and what was redrawn.\<close>

record shown_views =
  sh_posted :: "(string \<times> string \<times> conversation_ref \<times> screen_card list) list"
  sh_redrawn :: "(string \<times> string \<times> string \<times> screen_card list) list"

definition post_first_view :: "screen \<Rightarrow> string \<Rightarrow> string \<Rightarrow> conversation_ref \<Rightarrow> string \<Rightarrow> (string \<times> json) list \<Rightarrow> shown_views \<Rightarrow> shown_views" where
  "post_first_view sc agent gateway ref user data s =
     (let v = sn_render sc \<lparr>ss_screen = sn_command sc, ss_agent = agent, ss_data = data, ss_post_id = []\<rparr> user in
      s\<lparr>sh_posted := sh_posted s @ [(agent, gateway, ref, vw_cards v)]\<rparr>)"

datatype turn_stop = STOPPED | NOTHING_RUNNING | CANNOT_STOP

fun stop_answer :: "turn_stop \<Rightarrow> string" where
  "stop_answer STOPPED = ''Stopping.''"
| "stop_answer NOTHING_RUNNING = ''Nothing is running here right now.''"
| "stop_answer CANNOT_STOP = ''This agent cannot be stopped here.''"

text \<open>\<open>stops\<close>: whether an agent's sink can stop a turn, and then whether one ran.\<close>

definition stop_turn :: "feeding \<Rightarrow> (string \<Rightarrow> bool option) \<Rightarrow> string \<Rightarrow> turn_stop" where
  "stop_turn cfg stops agent =
     (case fd_sinks cfg agent of None \<Rightarrow> CANNOT_STOP
      | Some sink \<Rightarrow> (case stops agent of None \<Rightarrow> CANNOT_STOP
          | Some was \<Rightarrow> if was then STOPPED else NOTHING_RUNNING))"

datatype screen_opened = NotOwned | Owned string

record screen_call =
  sl_agent :: string
  sl_command :: string
  sl_channel_id :: string
  sl_conversation_id :: string
  sl_kind :: string
  sl_user_id :: string

definition open_screen :: "feeding \<Rightarrow> string \<Rightarrow> (string \<Rightarrow> bool option) \<Rightarrow> screens \<Rightarrow> screen_call \<Rightarrow> shown_views \<Rightarrow> shown_views \<times> screen_opened" where
  "open_screen cfg stop_command stops reg k s =
     (if stop_command \<noteq> [] \<and> lstrip_slash (sl_command k) = stop_command
      then (s, Owned (stop_answer (stop_turn cfg stops (sl_agent k))))
      else (case (get_screen (sl_command k) reg, fd_sinks cfg (sl_agent k)) of
          (Some sc, Some sink) \<Rightarrow>
            let ref = \<lparr>r_channel_id = sl_channel_id k, r_conversation_id = sl_conversation_id k,
                       r_message_id = sl_conversation_id k,
                       r_thread_root_id = (if sl_kind k = ToolGate.KIND_THREAD then sl_conversation_id k else [])\<rparr>;
                denial = refusal_of sc (sl_user_id k) (Some ref) (Some (sl_kind k)) in
            if denial \<noteq> [] then (s, Owned denial)
            else (post_first_view sc (sl_agent k) (chat_for sink []) ref (sl_user_id k) [] s, Owned [])
        | _ \<Rightarrow> (s, NotOwned)))"

definition redraw_screen :: "feeding \<Rightarrow> screens \<Rightarrow> json \<Rightarrow> string \<Rightarrow> string \<Rightarrow> string \<Rightarrow> shown_views \<Rightarrow> shown_views \<times> string option" where
  "redraw_screen cfg reg state_raw v post_id user s =
     (case decode_state state_raw of None \<Rightarrow> (s, None)
      | Some st \<Rightarrow>
        (case (get_screen (ss_screen st) reg, fd_sinks cfg (ss_agent st)) of
           (Some sc, Some sink) \<Rightarrow>
             if post_id = [] then (s, None)
             else if refusal_of sc user None None \<noteq> [] then (s, None)
             else
               let st1 = st\<lparr>ss_post_id := post_id\<rparr>;
                   st2 = (if v \<noteq> [] then with_data ''value'' (JStr v) st1 else st1);
                   w = sn_render sc st2 user in
               (s\<lparr>sh_redrawn := sh_redrawn s @ [(ss_agent st, chat_for sink [], post_id, vw_cards w)]\<rparr>,
                Some (vw_private_note w))
         | _ \<Rightarrow> (s, None)))"

section \<open>What a turn posts\<close>

definition ASK_USERS :: string where "ASK_USERS = ''users''"
definition ASK_CHANNELS :: string where "ASK_CHANNELS = ''channels''"
definition ASK_SELECT :: string where "ASK_SELECT = ''select''"
definition ACTION_USER_SELECT :: string where "ACTION_USER_SELECT = ''user_select''"
definition ACTION_CHANNEL_SELECT :: string where "ACTION_CHANNEL_SELECT = ''channel_select''"

definition plain_control :: "string \<Rightarrow> string \<Rightarrow> (string \<times> json) list \<Rightarrow> control" where
  "plain_control i label ctx = \<lparr>c_id = i, c_label = label, c_value = [], c_style = [], c_context = ctx,
     c_kind = ACTION_BUTTON, c_options = [], c_data = []\<rparr>"

definition ask_controls :: "string \<Rightarrow> string \<Rightarrow> string list \<Rightarrow> string \<Rightarrow> control list" where
  "ask_controls interaction_id token options style =
     (let ctx = [(''interaction_id'', JStr interaction_id), (''token'', JStr token)] in
      if style = ASK_USERS
      then [(plain_control ''sel'' ''Select a person'' (ctx @ [(''pick'', JStr ''user'')]))\<lparr>c_kind := ACTION_USER_SELECT\<rparr>]
      else if style = ASK_CHANNELS
      then [(plain_control ''sel'' ''Select a channel'' (ctx @ [(''pick'', JStr ''channel'')]))\<lparr>c_kind := ACTION_CHANNEL_SELECT\<rparr>]
      else if style = ASK_SELECT
      then [(plain_control ''sel'' ''Select an option'' ctx)
              \<lparr>c_kind := ACTION_SELECT, c_options := map (\<lambda>x. \<lparr>ch_label = x, ch_value = x\<rparr>) options\<rparr>]
      else map (\<lambda>(i, x). (plain_control (''opt'' @ show_nat i) x ctx)\<lparr>c_value := x\<rparr>) (enumerate 0 options))"

type_synonym asked = "(string \<times> string \<times> conversation_ref \<times> string \<times> control list) list"

text \<open>A raise of the store is \<open>None\<close>.  A form is registered after its button is posted, under its post id.\<close>

definition ask_widget :: "feeding \<Rightarrow> turn_place option \<Rightarrow> string \<Rightarrow> string \<Rightarrow> stamp \<Rightarrow> string \<Rightarrow> string \<Rightarrow> string
    \<Rightarrow> string list \<Rightarrow> string \<Rightarrow> session_db \<times> asked \<Rightarrow> (session_db \<times> asked) \<times> bool option" where
  "ask_widget cfg place interaction_id token now agent session_id prompt options style s =
     (case (get_by_runtime_session session_id (fst s), fd_sinks cfg agent) of
        (Some r, Some sink) \<Rightarrow>
          let ref = turn_ref r (se_last_gateway r) place in
          (case create_interaction \<lparr>in_interaction_id = interaction_id, in_token = token, in_agent = agent,
               in_channel_id = se_channel_id r, in_conversation_id = se_conversation_id r, in_kind = se_kind r,
               in_created_at = now, in_gateway = se_last_gateway r, in_thread_root_id = r_thread_root_id ref\<rparr> (fst s) of
             Inl err \<Rightarrow> (s, None)
           | Inr d1 \<Rightarrow> ((d1, snd s @ [(agent, chat_for sink (se_last_gateway r), ref, prompt,
                          ask_controls interaction_id token options style)]), Some True))
      | _ \<Rightarrow> (s, Some False))"

definition open_form :: "feeding \<Rightarrow> turn_place option \<Rightarrow> string \<Rightarrow> stamp \<Rightarrow> string \<Rightarrow> string \<Rightarrow> form \<Rightarrow> string \<Rightarrow> string
    \<Rightarrow> session_db \<times> asked \<Rightarrow> (session_db \<times> asked) \<times> bool option" where
  "open_form cfg place token now agent session_id f spec_text post_id s =
     (case (get_by_runtime_session session_id (fst s), fd_sinks cfg agent) of
        (Some r, Some sink) \<Rightarrow>
          let ref = turn_ref r (se_last_gateway r) place;
              posted = snd s @ [(agent, chat_for sink (se_last_gateway r), ref,
                (if fm_intro f \<noteq> [] then fm_intro f else fm_title f),
                [plain_control ''openform'' (if fm_open_label f \<noteq> [] then fm_open_label f else ''Fill in...'')
                   [(''form'', JStr token)]])] in
          (case create_form \<lparr>fo_token = token, fo_agent = agent, fo_channel_id = se_channel_id r,
               fo_conversation_id = se_conversation_id r, fo_kind = se_kind r, fo_spec = spec_text, fo_created_at = now,
               fo_post_id = post_id, fo_handler = [], fo_gateway = se_last_gateway r,
               fo_thread_root_id = r_thread_root_id ref\<rparr> (fst s) of
             Inl err \<Rightarrow> ((fst s, posted), None)
           | Inr d1 \<Rightarrow> ((d1, posted), Some True))
      | _ \<Rightarrow> (s, Some False))"

definition open_screen_in_turn :: "feeding \<Rightarrow> screens \<Rightarrow> session_db \<Rightarrow> string \<Rightarrow> string \<Rightarrow> string \<Rightarrow> string
    \<Rightarrow> (string \<times> json) list \<Rightarrow> shown_views \<Rightarrow> shown_views \<times> bool" where
  "open_screen_in_turn cfg reg d agent session_id name user data s =
     (case (get_screen name reg, get_by_runtime_session session_id d, fd_sinks cfg agent) of
        (Some sc, Some r, Some sink) \<Rightarrow>
          let ref = conversation_ref r (se_last_gateway r) in
          if refusal_of sc user (Some ref) (Some (se_kind r)) \<noteq> [] then (s, False)
          else (post_first_view sc agent (chat_for sink (se_last_gateway r)) ref user data s, True)
      | _ \<Rightarrow> (s, False))"

section \<open>One turn per widget\<close>

definition click_feeds :: "feeding \<Rightarrow> widget_click \<Rightarrow> 'v fed \<Rightarrow> 'v fed \<times> bool" where
  "click_feeds cfg k s = (case consume_action cfg k s of (s', r) \<Rightarrow> (s', r = FED))"

definition widget_waits :: "string \<Rightarrow> 'v fed \<Rightarrow> bool" where
  "widget_waits token s \<longleftrightarrow> pending_widget (ws_db s) token \<noteq> None"

lemma consume_cases:
  assumes "consume_action cfg k s = (s', r)"
  shows "r = UNKNOWN \<and> ws_fed s' = ws_fed s
     \<or> (\<exists>d1 x. take_interaction (wc_token k) (ws_db s) = (d1, Some x) \<and> ws_db s' = d1
          \<and> (r = UNAVAILABLE \<and> ws_fed s' = ws_fed s \<or> r = FED \<and> (\<exists>m. ws_fed s' = ws_fed s @ [m])))"
  using assms by (auto simp: consume_action_def Let_def split: if_splits prod.splits option.splits)

lemma consume_takes: "consume_action cfg k s = (s', r) \<Longrightarrow> ws_db s' = ws_db s \<or> (\<exists>x. take_interaction (wc_token k) (ws_db s) = (ws_db s', x))"
  by (auto simp: consume_action_def Let_def split: if_splits prod.splits option.splits)

interpretation fed_clicks: single_winner "click_feeds cfg" wc_token widget_waits for cfg
proof unfold_locales
  fix k s s'
  assume c: "click_feeds cfg k s = (s', True)"
  then have "consume_action cfg k s = (s', FED)" by (auto simp: click_feeds_def split: prod.splits)
  from consume_cases [OF this] obtain x where t: "take_interaction (wc_token k) (ws_db s) = (ws_db s', Some x)" by auto
  show "widget_waits (wc_token k) s" unfolding widget_waits_def by (rule widgets.take_answers [OF t])
  show "\<not> widget_waits (wc_token k) s'" unfolding widget_waits_def using widgets.take_removes [OF t] by simp
next
  fix token s k s' won
  assume none: "\<not> widget_waits token s" and "click_feeds cfg k s = (s', won)"
  then obtain r where "consume_action cfg k s = (s', r)" by (auto simp: click_feeds_def split: prod.splits)
  from consume_takes [OF this] show "\<not> widget_waits token s'"
    using none widgets.take_removes widgets.take_frame unfolding widget_waits_def by metis
qed

lemma run_feeds:
  "length (ws_fed (fst (run_attempts (click_feeds cfg) ks s)))
     = length (ws_fed s) + length (filter id (snd (run_attempts (click_feeds cfg) ks s)))"
proof (induction ks arbitrary: s)
  case (Cons k ks)
  obtain s1 r where c: "consume_action cfg k s = (s1, r)" by fastforce
  then have one: "length (ws_fed s1) = length (ws_fed s) + (if r = FED then 1 else 0)"
    using consume_cases [OF c] by auto
  show ?case using Cons.IH [of s1] one by (auto simp: click_feeds_def c split: prod.split)
qed simp

text \<open>A widget starts one turn: of any sequence of clicks, on any widgets, at most one per token is
  fed to an agent, and the clicks that are not feed nothing.\<close>

lemma widget_starts_one_turn:
  "wins wc_token token ks (snd (run_attempts (click_feeds cfg) ks s)) \<le> 1
   \<and> length (ws_fed (fst (run_attempts (click_feeds cfg) ks s)))
       = length (ws_fed s) + length (filter id (snd (run_attempts (click_feeds cfg) ks s)))"
  by (intro conjI fed_clicks.at_most_one_winner run_feeds)

section \<open>A click comes back to where the widget was\<close>

text \<open>A widget posted for a turn and then clicked reaches the agent that posted it, through the
  gateway it was posted on, as a message of the same conversation in the thread the widget is in, with
  the value and the control that were clicked.\<close>

lemma click_resumes_where_asked:
  assumes "ask_widget cfg place interaction_id token now agent session_id prompt options style s = ((d1, posted), Some True)"
    and "ws_db w = d1" and "token \<noteq> []" and "wc_token k = token" and "wc_pick k = []"
  shows "\<exists>r sink m w'. get_by_runtime_session session_id (fst s) = Some r \<and> fd_sinks cfg agent = Some sink
     \<and> consume_action cfg k w = (w', FED) \<and> ws_fed w' = ws_fed w @ [(agent, chat_for sink (se_last_gateway r), m)]
     \<and> fst (last posted) = agent \<and> fst (snd (last posted)) = chat_for sink (se_last_gateway r)
     \<and> r_channel_id (im_ref m) = se_channel_id r \<and> r_conversation_id (im_ref m) = se_conversation_id r
     \<and> (let root = r_thread_root_id (turn_ref r (se_last_gateway r) place) in
        r_thread_root_id (im_ref m) = (if root \<noteq> [] then root
          else if se_kind r = ToolGate.KIND_THREAD then se_conversation_id r else []))
     \<and> im_text m = wc_value k \<and> im_user_id m = wc_user k \<and> im_gateway m = se_last_gateway r
     \<and> map_option ck_action_id (im_click m) = Some (wc_action_id k) \<and> map_option ck_data (im_click m) = Some (wc_data k)"
proof -
  obtain r sink where r: "get_by_runtime_session session_id (fst s) = Some r" and k: "fd_sinks cfg agent = Some sink"
    using assms(1) by (auto simp: ask_widget_def split: option.splits)
  let ?row = "\<lparr>in_interaction_id = interaction_id, in_token = token, in_agent = agent,
     in_channel_id = se_channel_id r, in_conversation_id = se_conversation_id r, in_kind = se_kind r,
     in_created_at = now, in_gateway = se_last_gateway r,
     in_thread_root_id = r_thread_root_id (turn_ref r (se_last_gateway r) place)\<rparr>"
  have c: "create_interaction ?row (fst s) = Inr d1"
    and p: "fst (last posted) = agent" "fst (snd (last posted)) = chat_for sink (se_last_gateway r)"
    using assms(1) by (auto simp: ask_widget_def r k Let_def split: sum.splits)
  have fresh: "\<forall>i \<in> set (interactions (fst s)). in_token i \<noteq> token" and d1: "interactions d1 = interactions (fst s) @ [?row]"
    using c by (auto simp: create_interaction_def split: if_splits)
  have "fetchone (\<lambda>i. in_token i = token) (interactions d1) = Some ?row"
    using fresh unfolding d1 fetchone_def by (auto simp: filter_empty_conv)
  then obtain d2 where t: "take_interaction token (ws_db w) = (d2, Some ?row)"
    by (simp add: take_interaction_def assms(2))
  show ?thesis
    using assms(3-5) p
    by (intro exI [of _ r] exI [of _ sink]) (simp add: r k consume_action_def t Let_def click_message_def
        incoming_message_def resumed_ref_def)
qed

section \<open>A form goes to one place\<close>

text \<open>A form's values go to one place, once: a submission hands them to the handler the form names
  or to the conversation, never both and never to the conversation when a handler is named; the next
  submission of the same form finds none; a cancelled one changes nothing and leaves the form waiting.\<close>

lemma form_goes_to_one_place:
  assumes "submit_form cfg specs handles token submission cancelled user s = (s', taken)"
  shows "(cancelled \<longrightarrow> s' = s \<and> taken = Some False)
     \<and> (taken = Some True \<longrightarrow>
          (\<exists>r. get_form token (ws_db s) = Some r
            \<and> (if fo_handler r \<noteq> [] then ws_handled s' = ws_handled s @ [(r, submission, user)] \<and> ws_fed s' = ws_fed s
               else ws_handled s' = ws_handled s \<and> (\<exists>g m. ws_fed s' = ws_fed s @ [(fo_agent r, g, m)]))))
     \<and> (taken \<noteq> Some True \<longrightarrow> ws_handled s' = ws_handled s \<and> ws_fed s' = ws_fed s)
     \<and> (\<not> cancelled \<longrightarrow> (\<forall>again. ws_db again = ws_db s' \<longrightarrow>
          submit_form cfg specs handles token submission' cancelled' user' again = (again, Some False)))"
proof (cases "form_read token cancelled (ws_db s)")
  case None
  then have same: "s' = s" "taken = Some False" using assms by (simp_all add: submit_form_def)
  have "form_read token cancelled' (ws_db s) = None" if "\<not> cancelled"
    using None that by (auto simp: form_read_def split: option.splits if_splits)
  then show ?thesis using same by (simp add: submit_form_def)
next
  case (Some r)
  then have r: "get_form token (ws_db s) = Some r" "\<not> cancelled" "token \<noteq> []"
    by (auto simp: form_read_def split: option.splits if_splits)
  then have tok: "fo_token r = token" using fetchone_Some by (fastforce simp: get_form_def)
  have taken: "form_taken cfg specs handles r submission user (form_deleted r s) = (s', taken)"
    using assms Some by (simp add: submit_form_def)
  then have what: "ws_db s' = delete_form token (ws_db s)"
    "taken = Some True \<longrightarrow> (if fo_handler r \<noteq> [] then ws_handled s' = ws_handled s @ [(r, submission, user)] \<and> ws_fed s' = ws_fed s
               else ws_handled s' = ws_handled s \<and> (\<exists>g m. ws_fed s' = ws_fed s @ [(fo_agent r, g, m)]))"
    "taken \<noteq> Some True \<longrightarrow> ws_handled s' = ws_handled s \<and> ws_fed s' = ws_fed s"
    using tok by (auto simp: form_taken_def form_deleted_def Let_def split: if_splits option.splits)
  have "get_form token (delete_form token (ws_db s)) = None"
    by (simp add: get_form_def delete_form_def fetchone_None)
  then have "form_read token cancelled' (ws_db s') = None" unfolding what(1) by (simp add: form_read_def)
  then show ?thesis using what r by (simp add: submit_form_def)
qed

text \<open>Two submissions that both read the form before either deletes it are both taken.\<close>

lemma two_submissions_both_taken:
  assumes "form_read token False (ws_db s) = Some r" and "fo_handler r = []" and "fd_sinks cfg (fo_agent r) = Some sink"
    and "specs (fo_spec r) = Some f"
  shows "\<exists>s1 s2. form_taken cfg specs handles r v1 u1 (form_deleted r (form_deleted r s)) = (s1, Some True)
     \<and> form_taken cfg specs handles r v2 u2 s1 = (s2, Some True) \<and> length (ws_fed s2) = length (ws_fed s) + 2"
  using assms by (simp add: form_taken_def form_deleted_def Let_def)

section \<open>Who sees a screen\<close>

lemma state_round_trip: "decode_state (encode_state st) = Some (st\<lparr>ss_post_id := []\<rparr>)"
  by (simp add: decode_state_def encode_state_def json_read given_or_def)

lemma control_carries_its_state:
  "ss_screen st \<noteq> [] \<Longrightarrow> state_from_context (c_context (screen_action st i l v sty knd opts)) = Some (st\<lparr>ss_post_id := []\<rparr>)"
  by (simp add: state_from_context_def screen_action_def SCREEN_KEY_def STATE_KEY_def state_round_trip)

definition admitted :: "screen \<Rightarrow> string \<Rightarrow> conversation_ref option \<Rightarrow> bool" where
  "admitted sc user ref \<longleftrightarrow> (case sn_admits sc of None \<Rightarrow> True | Some admits \<Rightarrow> admits user ref = [])"

lemma refusal_admits:
  "refusal_of sc user ref knd = [] \<longleftrightarrow> admitted sc user ref \<and> (\<forall>k. knd = Some k \<and> sn_direct_only sc \<longrightarrow> k = DM_KIND)"
  by (auto simp: refusal_of_def admitted_def DIRECT_ONLY_TEXT_def split: option.splits)

text \<open>A screen is drawn only for whom it admits: opened by a command or by a turn, only a registered
  screen that admits the person in that conversation is posted there, and one that shows a person's own
  things only in a direct message; a click redraws it only for a person it admits.  A refusal draws
  nothing.\<close>

lemma screens_show_only_the_admitted:
  "(fst (open_screen cfg stop_command stops reg k s) \<noteq> s \<longrightarrow>
      (\<exists>sc ref. get_screen (sl_command k) reg = Some sc \<and> admitted sc (sl_user_id k) (Some ref)
         \<and> r_conversation_id ref = sl_conversation_id k \<and> (sn_direct_only sc \<longrightarrow> sl_kind k = DM_KIND)))
   \<and> (fst (open_screen_in_turn cfg reg d agent session_id name user data s) \<noteq> s \<longrightarrow>
      (\<exists>sc r. get_screen name reg = Some sc \<and> get_by_runtime_session session_id d = Some r
         \<and> admitted sc user (Some (conversation_ref r (se_last_gateway r))) \<and> (sn_direct_only sc \<longrightarrow> se_kind r = DM_KIND)))
   \<and> (fst (redraw_screen cfg reg state_raw v post_id user s) \<noteq> s \<longrightarrow>
      (\<exists>sc st. decode_state state_raw = Some st \<and> get_screen (ss_screen st) reg = Some sc \<and> admitted sc user None))"
proof (intro conjI impI)
  assume ch: "fst (open_screen cfg stop_command stops reg k s) \<noteq> s"
  then obtain sc sink where sc: "get_screen (sl_command k) reg = Some sc" "fd_sinks cfg (sl_agent k) = Some sink"
    by (auto simp: open_screen_def split: if_splits option.splits)
  define ref where "ref = \<lparr>r_channel_id = sl_channel_id k, r_conversation_id = sl_conversation_id k,
     r_message_id = sl_conversation_id k,
     r_thread_root_id = (if sl_kind k = ToolGate.KIND_THREAD then sl_conversation_id k else [])\<rparr>"
  have "refusal_of sc (sl_user_id k) (Some ref) (Some (sl_kind k)) = []"
    using ch unfolding open_screen_def sc ref_def by (auto simp: Let_def split: if_splits)
  then show "\<exists>sc ref. get_screen (sl_command k) reg = Some sc \<and> admitted sc (sl_user_id k) (Some ref)
         \<and> r_conversation_id ref = sl_conversation_id k \<and> (sn_direct_only sc \<longrightarrow> sl_kind k = DM_KIND)"
    by (intro exI [of _ sc] exI [of _ ref]) (simp add: sc refusal_admits ref_def)
next
  assume ch: "fst (open_screen_in_turn cfg reg d agent session_id name user data s) \<noteq> s"
  then obtain sc r sink where sc: "get_screen name reg = Some sc" "get_by_runtime_session session_id d = Some r"
      "fd_sinks cfg agent = Some sink"
    by (auto simp: open_screen_in_turn_def split: option.splits)
  have "refusal_of sc user (Some (conversation_ref r (se_last_gateway r))) (Some (se_kind r)) = []"
    using ch unfolding open_screen_in_turn_def sc by (auto simp: Let_def split: if_splits)
  then show "\<exists>sc r. get_screen name reg = Some sc \<and> get_by_runtime_session session_id d = Some r
         \<and> admitted sc user (Some (conversation_ref r (se_last_gateway r))) \<and> (sn_direct_only sc \<longrightarrow> se_kind r = DM_KIND)"
    by (intro exI [of _ sc] exI [of _ r]) (simp add: sc refusal_admits)
next
  assume ch: "fst (redraw_screen cfg reg state_raw v post_id user s) \<noteq> s"
  then obtain st where st: "decode_state state_raw = Some st" by (auto simp: redraw_screen_def split: option.splits)
  then obtain sc sink where sc: "get_screen (ss_screen st) reg = Some sc" "fd_sinks cfg (ss_agent st) = Some sink"
    using ch by (auto simp: redraw_screen_def split: option.splits)
  have "refusal_of sc user None None = []"
    using ch unfolding redraw_screen_def st by (auto simp: sc Let_def split: if_splits)
  then show "\<exists>sc st. decode_state state_raw = Some st \<and> get_screen (ss_screen st) reg = Some sc \<and> admitted sc user None"
    using st sc by (simp add: refusal_admits)
qed

text \<open>A screen is posted through the default gateway's client, whichever gateway the command came
  through, and a screen whose word is not in lower case is never reached.\<close>

lemma screen_on_the_default_gateway:
  assumes "sh_posted (fst (open_screen cfg stop_command stops reg k s)) = sh_posted s @ [(agent, gateway, ref, cards)]"
    and "fd_sinks cfg (sl_agent k) = Some sink"
  shows "gateway = chat_for sink []"
  using assms by (auto simp: open_screen_def post_first_view_def Let_def split: if_splits option.splits)

lemma mixed_case_screen_is_lost:
  "sn_command sc = ''Skills'' \<Longrightarrow> get_screen ''Skills'' (register_screen sc []) = None"
proof -
  assume "sn_command sc = ''Skills''"
  moreover have "lower (strip (lstrip_slash ''Skills'')) = ''skills''" by code_simp
  ultimately show ?thesis by (simp add: get_screen_def register_screen_def)
qed

section \<open>An instance\<close>

definition sample_feeding :: feeding where
  "sample_feeding = \<lparr>fd_sinks = [''aide'' \<mapsto> \<lparr>sk_gateways = [''slack'', ''web''], sk_default = ''slack''\<rparr>],
     fd_names = (\<lambda>a g. \<lparr>cn_user = (\<lambda>i. None), cn_channel = (\<lambda>i. None)\<rparr>), fd_handlers = {}\<rparr>"

definition sample_talk :: session_record where
  "sample_talk = \<lparr>se_agent = ''aide'', se_channel_id = ''c1'', se_conversation_id = ''v1'', se_kind = ''thread'',
     se_runtime_session_id = ''s1'', se_created_at = 0, se_last_active = 0, se_last_user_id = ''una'',
     se_last_engine_turn_at = None, se_cut_short = [], se_gateways = [], se_last_gateway = ''web''\<rparr>"

definition sample_click_on :: "string \<Rightarrow> widget_click" where
  "sample_click_on token = \<lparr>wc_token = token, wc_value = ''yes'', wc_user = ''una'', wc_pick = [], wc_action_id = ''opt0'', wc_data = ''7''\<rparr>"

definition sample_fed :: "session_db \<Rightarrow> field_value fed" where
  "sample_fed d = \<lparr>ws_db = d, ws_fed = [], ws_handled = [], ws_retired = []\<rparr>"

lemma click_resumes_where_asked_witness:
  "\<exists>d1 posted m w'. ask_widget sample_feeding None ''i1'' ''tok'' 0 ''aide'' ''s1'' ''Sure?'' [''yes''] ''buttons''
       (no_sessions\<lparr>sessions := [sample_talk]\<rparr>, []) = ((d1, posted), Some True)
     \<and> consume_action sample_feeding (sample_click_on ''tok'') (sample_fed d1) = (w', FED)
     \<and> ws_fed w' = [(''aide'', ''web'', m)] \<and> r_thread_root_id (im_ref m) = ''v1'' \<and> im_text m = ''yes''"
proof -
  obtain d1 posted where a: "ask_widget sample_feeding None ''i1'' ''tok'' 0 ''aide'' ''s1'' ''Sure?'' [''yes''] ''buttons''
       (no_sessions\<lparr>sessions := [sample_talk]\<rparr>, []) = ((d1, posted), Some True)"
    by (simp add: ask_widget_def sample_feeding_def no_sessions_def get_by_runtime_session_def fetchone_def
        sample_talk_def create_interaction_def Let_def)
  have "ws_db (sample_fed d1) = d1" "(''tok'' :: string) \<noteq> []" "wc_token (sample_click_on ''tok'') = ''tok''"
    "wc_pick (sample_click_on ''tok'') = []" by (simp_all add: sample_fed_def sample_click_on_def)
  from click_resumes_where_asked [OF a this] obtain r sink m w' where
    "get_by_runtime_session ''s1'' (no_sessions\<lparr>sessions := [sample_talk]\<rparr>) = Some r" "fd_sinks sample_feeding ''aide'' = Some sink"
    "consume_action sample_feeding (sample_click_on ''tok'') (sample_fed d1) = (w', FED)"
    "ws_fed w' = ws_fed (sample_fed d1) @ [(''aide'', chat_for sink (se_last_gateway r), m)]"
    "let root = r_thread_root_id (turn_ref r (se_last_gateway r) None) in
        r_thread_root_id (im_ref m) = (if root \<noteq> [] then root
          else if se_kind r = ToolGate.KIND_THREAD then se_conversation_id r else [])"
    "im_text m = wc_value (sample_click_on ''tok'')"
    by auto
  moreover from this(1) have "r = sample_talk"
    by (simp add: get_by_runtime_session_def fetchone_def no_sessions_def sample_talk_def)
  moreover have "sink = \<lparr>sk_gateways = [''slack'', ''web''], sk_default = ''slack''\<rparr>"
    using \<open>fd_sinks sample_feeding ''aide'' = Some sink\<close> by (simp add: sample_feeding_def)
  ultimately show ?thesis
    using a by (auto simp: chat_for_def sample_talk_def sample_fed_def sample_click_on_def turn_ref_def conversation_ref_def
        gateway_addresses_def ToolGate.KIND_THREAD_def Let_def split: if_splits)
qed

definition sample_form_row :: form_record where
  "sample_form_row = \<lparr>fo_token = ''f1'', fo_agent = ''aide'', fo_channel_id = ''c1'', fo_conversation_id = ''v1'',
     fo_kind = ''thread'', fo_spec = [], fo_created_at = 0, fo_post_id = ''p1'', fo_handler = [], fo_gateway = ''web'',
     fo_thread_root_id = []\<rparr>"

definition sample_form_spec :: form where
  "sample_form_spec = \<lparr>fm_title = ''Leave'', fm_fields = [], fm_intro = [], fm_submit_label = [], fm_open_label = []\<rparr>"

lemma form_goes_to_one_place_witness:
  "\<exists>s' g m. submit_form sample_feeding (\<lambda>t. Some sample_form_spec) (\<lambda>r. True) ''f1'' [] False ''una''
       (sample_fed (no_sessions\<lparr>forms := [sample_form_row]\<rparr>)) = (s', Some True)
     \<and> ws_fed s' = [(''aide'', g, m)]
     \<and> submit_form sample_feeding (\<lambda>t. Some sample_form_spec) (\<lambda>r. True) ''f1'' [] False ''una'' s' = (s', Some False)"
proof -
  let ?s = "sample_fed (no_sessions\<lparr>forms := [sample_form_row]\<rparr>)"
  obtain s' where t: "submit_form sample_feeding (\<lambda>t. Some sample_form_spec) (\<lambda>r. True) ''f1'' [] False ''una'' ?s = (s', Some True)"
    by (simp add: submit_form_def form_read_def get_form_def fetchone_def sample_fed_def no_sessions_def sample_form_row_def
        form_taken_def form_deleted_def sample_feeding_def Let_def)
  note once = form_goes_to_one_place [OF t, of "[]" False "''una''"]
  then obtain r where r: "get_form ''f1'' (ws_db ?s) = Some r"
    "if fo_handler r \<noteq> [] then ws_handled s' = ws_handled ?s @ [(r, [], ''una'')] \<and> ws_fed s' = ws_fed ?s
               else ws_handled s' = ws_handled ?s \<and> (\<exists>g m. ws_fed s' = ws_fed ?s @ [(fo_agent r, g, m)])" by auto
  then have "r = sample_form_row" by (simp add: get_form_def fetchone_def sample_fed_def no_sessions_def sample_form_row_def)
  then have "\<exists>g m. ws_fed s' = [(''aide'', g, m)]" using r(2) by (simp add: sample_form_row_def sample_fed_def)
  then show ?thesis using t once by blast
qed

definition sample_screen :: screen where
  "sample_screen = \<lparr>sn_command = ''mine'', sn_listed = True, sn_direct_only = True,
     sn_admits = Some (\<lambda>u ref. if u = ''una'' then [] else ''no''), sn_render = (\<lambda>st u. \<lparr>vw_cards = [], vw_private_note = []\<rparr>)\<rparr>"

definition sample_screen_call :: "string \<Rightarrow> string \<Rightarrow> screen_call" where
  "sample_screen_call user knd = \<lparr>sl_agent = ''aide'', sl_command = ''/Mine'', sl_channel_id = ''c1'', sl_conversation_id = ''v1'',
     sl_kind = knd, sl_user_id = user\<rparr>"

definition nothing_shown :: shown_views where "nothing_shown = \<lparr>sh_posted = [], sh_redrawn = []\<rparr>"

lemma sample_screen_found: "get_screen ''/Mine'' (register_screen sample_screen []) = Some sample_screen"
proof -
  have "lower (strip (lstrip_slash ''/Mine'')) = ''mine''" by code_simp
  then show ?thesis by (simp add: get_screen_def register_screen_def sample_screen_def)
qed

lemma screens_show_only_the_admitted_witness:
  "fst (open_screen sample_feeding [] (\<lambda>a. None) (register_screen sample_screen []) (sample_screen_call ''una'' ''dm'') nothing_shown) \<noteq> nothing_shown
   \<and> fst (open_screen sample_feeding [] (\<lambda>a. None) (register_screen sample_screen []) (sample_screen_call ''una'' ''thread'') nothing_shown) = nothing_shown
   \<and> fst (open_screen sample_feeding [] (\<lambda>a. None) (register_screen sample_screen []) (sample_screen_call ''vic'' ''dm'') nothing_shown) = nothing_shown"
proof (intro conjI)
  let ?reg = "register_screen sample_screen []"
  have found: "get_screen (sl_command (sample_screen_call u kd)) ?reg = Some sample_screen" for u kd
    by (simp add: sample_screen_call_def sample_screen_found)
  have facts: "sn_direct_only sample_screen" "sl_kind (sample_screen_call u kd) = kd" "''thread'' \<noteq> DM_KIND"
    "sl_user_id (sample_screen_call u kd) = u" "\<not> admitted sample_screen ''vic'' ref" for u kd ref
    by (simp_all add: sample_screen_def sample_screen_call_def DM_KIND_def admitted_def)
  show "fst (open_screen sample_feeding [] (\<lambda>a. None) ?reg (sample_screen_call ''una'' ''dm'') nothing_shown) \<noteq> nothing_shown"
  proof -
    let ?k = "sample_screen_call ''una'' ''dm''"
    have f: "get_screen (sl_command ?k) ?reg = Some sample_screen" by (simp add: sample_screen_call_def sample_screen_found)
    obtain sink where k: "fd_sinks sample_feeding (sl_agent ?k) = Some sink" by (simp add: sample_feeding_def sample_screen_call_def)
    have "refusal_of sample_screen (sl_user_id ?k) (Some ref) (Some (sl_kind ?k)) = []" for ref
      by (simp add: refusal_of_def sample_screen_def sample_screen_call_def DM_KIND_def)
    then show ?thesis by (simp add: open_screen_def f k Let_def post_first_view_def nothing_shown_def)
  qed
  show "fst (open_screen sample_feeding [] (\<lambda>a. None) ?reg (sample_screen_call ''una'' ''thread'') nothing_shown) = nothing_shown"
    using conjunct1 [OF screens_show_only_the_admitted [of sample_feeding "[]" "\<lambda>a. None" ?reg "sample_screen_call ''una'' ''thread''" nothing_shown]]
    unfolding found by (auto simp: facts)
  show "fst (open_screen sample_feeding [] (\<lambda>a. None) ?reg (sample_screen_call ''vic'' ''dm'') nothing_shown) = nothing_shown"
    using conjunct1 [OF screens_show_only_the_admitted [of sample_feeding "[]" "\<lambda>a. None" ?reg "sample_screen_call ''vic'' ''dm''" nothing_shown]]
    unfolding found by (auto simp: facts)
qed

end
