(* ===== verification/Attachments.thy ===== *)
theory Attachments
  imports Sessions Messages "HOL-Library.AList" "HOL-Library.Product_Lexorder"
begin

text \<open>
  Files that arrive with messages: \<open>packages/crucible/src/crucible/attachments.py\<close> and the sweep of
  \<open>attachment_retention.py\<close>.

  A file is named by its agent's directory, its conversation's and its path in that one; the disk is
  a list of files in the order a directory is read.  Agents write there too.  A record of what arrived
  is the list of its lines.  The digest, the moments of writing and the keys drawn from the clock are
  arguments.  Modes, links in the place of directories, directories that cannot be opened or
  removed and a disk that refuses to write are left out; a file that cannot be unlinked is an argument.
\<close>

section \<open>Names\<close>

definition MAX_FILE_NAME :: nat where "MAX_FILE_NAME = 80"
definition DIGEST_CHARS :: nat where "DIGEST_CHARS = 12"
definition FALLBACK_NAME :: string where "FALLBACK_NAME = ''file''"

definition safe_char :: "char \<Rightarrow> bool" where
  "safe_char ch \<longleftrightarrow> (let n = (of_char ch :: nat) in
     65 \<le> n \<and> n \<le> 90 \<or> 97 \<le> n \<and> n \<le> 122 \<or> 48 \<le> n \<and> n \<le> 57 \<or> ch \<in> set ''._- '')"

text \<open>Every run of other characters becomes one underscore.\<close>

fun cleaned_name :: "bool \<Rightarrow> string \<Rightarrow> string" where
  "cleaned_name inside [] = []"
| "cleaned_name inside (ch # cs) =
     (if safe_char ch then ch # cleaned_name False cs
      else if inside then cleaned_name True cs else CHR ''_'' # cleaned_name True cs)"

definition edge_of_name :: "char \<Rightarrow> bool" where
  "edge_of_name ch \<longleftrightarrow> ch \<in> set ''._ ''"

definition strip_by :: "(char \<Rightarrow> bool) \<Rightarrow> string \<Rightarrow> string" where
  "strip_by p s = rev (dropWhile p (rev (dropWhile p s)))"

text \<open>\<open>Path(name).name\<close>: the last part that is neither empty nor a single dot.\<close>

definition path_name :: "string \<Rightarrow> string" where
  "path_name s = (case filter (\<lambda>p. p \<noteq> [] \<and> p \<noteq> ''.'') (split_on (CHR ''/'') [] s) of [] \<Rightarrow> [] | ps \<Rightarrow> last ps)"

definition from_windows :: "string \<Rightarrow> string" where
  "from_windows s = map (\<lambda>ch. if ch = char_of (92 :: nat) then CHR ''/'' else ch) s"

text \<open>\<open>rpartition(''.'')\<close> of a name with a dot in it: what is before the last and after it.\<close>

definition extension :: "string \<Rightarrow> string" where
  "extension s = rev (takeWhile (\<lambda>ch. ch \<noteq> CHR ''.'') (rev s))"

definition stem :: "string \<Rightarrow> string" where
  "stem s = take (length s - length (extension s) - 1) s"

definition safe_name :: "string \<Rightarrow> string" where
  "safe_name name =
     (let base = strip (path_name (from_windows name)); cleaned = strip_by edge_of_name (cleaned_name False base) in
      if cleaned = [] then FALLBACK_NAME
      else if length cleaned \<le> MAX_FILE_NAME then cleaned
      else if CHR ''.'' \<in> set cleaned \<and> length (extension cleaned) \<le> 8
      then take (MAX_FILE_NAME - length (extension cleaned) - 1) (stem cleaned) @ ''.'' @ extension cleaned
      else take MAX_FILE_NAME cleaned)"

definition conversation_dir :: "(string \<Rightarrow> string) \<Rightarrow> string \<Rightarrow> string" where
  "conversation_dir digest conversation_id =
     (let raw = (if conversation_id = [] then ''misc'' else conversation_id); cleaned = safe_name raw in
      if cleaned = raw then cleaned
      else take (MAX_FILE_NAME - DIGEST_CHARS - 1) cleaned @ ''-'' @ take DIGEST_CHARS (digest raw))"

section \<open>The disk and the record\<close>

record stored_file =
  sf_bytes :: string
  sf_mtime :: int
  sf_regular :: bool

type_synonym dir = "string \<times> string"
type_synonym path = "dir \<times> string"

record received_file =
  rv_path :: path
  rv_name :: string
  rv_mime :: string
  rv_size :: nat
  rv_sha256 :: string
  rv_received_at :: stamp

record attachments =
  as_disk :: "(path \<times> stored_file) list"
  as_records :: "dir \<Rightarrow> received_file list"

record attachment_config =
  ac_max_bytes :: nat
  ac_conversation_max_bytes :: nat
  ac_digest :: "string \<Rightarrow> string"

definition dir_of :: "attachment_config \<Rightarrow> string \<Rightarrow> string \<Rightarrow> dir" where
  "dir_of cfg agent conversation_id = (safe_name agent, conversation_dir (ac_digest cfg) conversation_id)"

definition file_at :: "attachments \<Rightarrow> path \<Rightarrow> stored_file option" where
  "file_at s p = map_of (as_disk s) p"

definition put_file :: "path \<Rightarrow> stored_file \<Rightarrow> attachments \<Rightarrow> attachments" where
  "put_file p f s = s\<lparr>as_disk := AList.update p f (as_disk s)\<rparr>"

definition unlink :: "path \<Rightarrow> attachments \<Rightarrow> attachments" where
  "unlink p s = s\<lparr>as_disk := AList.delete p (as_disk s)\<rparr>"

text \<open>
  A line is the JSON of a file with its characters as they are.  JSON escapes the control characters
  below a blank, but not \<open>U+0085\<close> (nor the separators above 255), at which \<open>splitlines\<close> ends a line:
  neither half is JSON, and both are skipped.
\<close>

definition NEL :: char where "NEL = char_of (133 :: nat)"

definition whole_line :: "received_file \<Rightarrow> bool" where
  "whole_line r \<longleftrightarrow> NEL \<notin> set (rv_name r) \<and> NEL \<notin> set (rv_mime r)"

definition read_record :: "dir \<Rightarrow> attachments \<Rightarrow> received_file list" where
  "read_record d s = filter whole_line (as_records s d)"

definition set_record :: "dir \<Rightarrow> received_file list \<Rightarrow> attachments \<Rightarrow> attachments" where
  "set_record d rs s = s\<lparr>as_records := (as_records s)(d := rs)\<rparr>"

definition record_arrived :: "dir \<Rightarrow> received_file list \<Rightarrow> attachments \<Rightarrow> attachments" where
  "record_arrived d arrived s =
     set_record d (as_records s d @ filter (\<lambda>r. rv_path r \<notin> rv_path ` set (read_record d s)) arrived) s"

definition compact_record :: "dir \<Rightarrow> path set \<Rightarrow> attachments \<Rightarrow> attachments" where
  "compact_record d gone s =
     (let records = read_record d s; staying = filter (\<lambda>r. rv_path r \<notin> gone) records in
      if length staying = length records then s else set_record d staying s)"

section \<open>Making room\<close>

definition files_in :: "dir \<Rightarrow> attachments \<Rightarrow> (path \<times> stored_file) list" where
  "files_in d s = filter (\<lambda>(p, f). fst p = d \<and> sf_regular f) (as_disk s)"

definition bytes_held :: "(path \<times> stored_file) list \<Rightarrow> nat" where
  "bytes_held fs = sum_list (map (\<lambda>(p, f). length (sf_bytes f)) fs)"

text \<open>What goes, in the order of the list, until what is held fits.\<close>

fun evictions :: "(path \<Rightarrow> bool) \<Rightarrow> nat \<Rightarrow> nat \<Rightarrow> (path \<times> stored_file) list \<Rightarrow> path list" where
  "evictions stuck cap held [] = []"
| "evictions stuck cap held ((p, f) # fs) =
     (if held \<le> cap then []
      else if stuck p then evictions stuck cap held fs
      else p # evictions stuck cap (held - length (sf_bytes f)) fs)"

definition make_room :: "attachment_config \<Rightarrow> (path \<Rightarrow> bool) \<Rightarrow> path \<Rightarrow> attachments \<Rightarrow> attachments \<times> path list" where
  "make_room cfg stuck kept s =
     (let others = filter (\<lambda>(p, f). p \<noteq> kept) (files_in (fst kept) s);
          held = bytes_held others + (case file_at s kept of None \<Rightarrow> 0 | Some f \<Rightarrow> length (sf_bytes f));
          evicted = evictions stuck (ac_conversation_max_bytes cfg) held
            (sort_key (\<lambda>(p, f). (sf_mtime f, path_name (snd p))) others) in
      ((if evicted = [] then s else compact_record (fst kept) (set evicted) (fold unlink evicted s)), evicted))"

section \<open>Saving\<close>

definition write_file :: "path \<Rightarrow> string \<Rightarrow> int \<Rightarrow> attachments \<Rightarrow> attachments" where
  "write_file p data now s =
     (case file_at s p of
        Some f \<Rightarrow> if length (sf_bytes f) = length data then s
                  else put_file p \<lparr>sf_bytes = data, sf_mtime = now, sf_regular = True\<rparr> s
      | None \<Rightarrow> put_file p \<lparr>sf_bytes = data, sf_mtime = now, sf_regular = True\<rparr> s)"

definition saved_path :: "attachment_config \<Rightarrow> string \<Rightarrow> string \<Rightarrow> string \<Rightarrow> string \<Rightarrow> path" where
  "saved_path cfg agent conversation_id key name =
     (dir_of cfg agent conversation_id, safe_name key @ ''-'' @ safe_name name)"

text \<open>\<open>key\<close> is the platform's id of the file, or the moment's text when it has none.\<close>

definition save_file :: "attachment_config \<Rightarrow> (path \<Rightarrow> bool) \<Rightarrow> string \<Rightarrow> string \<Rightarrow> string \<Rightarrow> string \<Rightarrow> string \<Rightarrow> int
    \<Rightarrow> attachments \<Rightarrow> attachments \<times> (string \<times> path \<times> nat) option" where
  "save_file cfg stuck agent conversation_id name data key now s =
     (if length data > ac_max_bytes cfg then (s, None)
      else
        let p = saved_path cfg agent conversation_id key name; s1 = write_file p data now s;
            s2 = (if ac_conversation_max_bytes cfg > 0 then fst (make_room cfg stuck p s1) else s1);
            nm = path_name (from_windows name) in
        (s2, Some ((if nm = [] then snd p else nm), p, length data)))"

text \<open>The files of one message, each with the key it is saved under; those that are too large are skipped.\<close>

fun save_each :: "attachment_config \<Rightarrow> (path \<Rightarrow> bool) \<Rightarrow> string \<Rightarrow> string \<Rightarrow> int \<Rightarrow> (incoming_file \<times> string) list
    \<Rightarrow> attachments \<Rightarrow> attachments \<times> (incoming_file \<times> string \<times> path) list" where
  "save_each cfg stuck agent conversation_id now [] s = (s, [])"
| "save_each cfg stuck agent conversation_id now ((f, key) # fs) s =
     (case save_file cfg stuck agent conversation_id (if_name f) (if_data f) key now s of
        (s1, None) \<Rightarrow> save_each cfg stuck agent conversation_id now fs s1
      | (s1, Some (nm, p, n)) \<Rightarrow>
          map_prod id ((#) (f, nm, p)) (save_each cfg stuck agent conversation_id now fs s1))"

definition received_of :: "(string \<Rightarrow> string) \<Rightarrow> stamp \<Rightarrow> incoming_file \<times> string \<times> path \<Rightarrow> received_file" where
  "received_of sha at x = (case x of (f, nm, p) \<Rightarrow>
     \<lparr>rv_path = p, rv_name = nm, rv_mime = if_mime f, rv_size = length (if_data f), rv_sha256 = sha (if_data f),
      rv_received_at = at\<rparr>)"

definition save_many :: "attachment_config \<Rightarrow> (string \<Rightarrow> string) \<Rightarrow> (path \<Rightarrow> bool) \<Rightarrow> string \<Rightarrow> string \<Rightarrow> int \<Rightarrow> stamp
    \<Rightarrow> (incoming_file \<times> string) list \<Rightarrow> attachments \<Rightarrow> attachments \<times> (string \<times> path \<times> string \<times> nat) list" where
  "save_many cfg sha stuck agent conversation_id now at files s =
     (case save_each cfg stuck agent conversation_id now files s of
        (s1, kept) \<Rightarrow>
          ((if kept = [] then s1
            else record_arrived (dir_of cfg agent conversation_id) (map (received_of sha at) kept) s1),
           map (\<lambda>(f, nm, p). (nm, p, if_mime f, length (if_data f))) kept))"

section \<open>Reading what arrived\<close>

datatype read_error = ReceivedFileGone | ReceivedFileChanged

definition read_checked :: "(string \<Rightarrow> string) \<Rightarrow> received_file \<Rightarrow> attachments \<Rightarrow> read_error + string" where
  "read_checked sha r s =
     (case file_at s (rv_path r) of
        None \<Rightarrow> Inl ReceivedFileGone
      | Some f \<Rightarrow>
        if \<not> sf_regular f \<or> length (sf_bytes f) \<noteq> rv_size r then Inl ReceivedFileChanged
        else if sha (sf_bytes f) \<noteq> rv_sha256 r then Inl ReceivedFileChanged else Inr (sf_bytes f))"

definition read_received :: "(string \<Rightarrow> string) \<Rightarrow> dir \<Rightarrow> received_file \<Rightarrow> attachments \<Rightarrow> read_error + string" where
  "read_received sha d r s =
     (if rv_path r \<notin> rv_path ` set (read_record d s) then Inl ReceivedFileChanged else read_checked sha r s)"

section \<open>Moving and forgetting\<close>

definition move_file :: "path \<Rightarrow> path \<Rightarrow> attachments \<Rightarrow> attachments" where
  "move_file p q s =
     (case file_at s p of None \<Rightarrow> s
      | Some f \<Rightarrow>
        (case file_at s q of
           Some g \<Rightarrow> if length (sf_bytes g) = length (sf_bytes f) then unlink p s else unlink p (put_file q f s)
         | None \<Rightarrow> unlink p (put_file q f s)))"

definition move_record :: "dir \<Rightarrow> dir \<Rightarrow> path \<Rightarrow> path \<Rightarrow> attachments \<Rightarrow> attachments" where
  "move_record d e old new s =
     (let records = read_record d s; moving = filter (\<lambda>r. rv_path r = old) records in
      if moving = [] then s
      else record_arrived e (map (\<lambda>r. r\<lparr>rv_path := new\<rparr>) moving)
             (set_record d (filter (\<lambda>r. rv_path r \<noteq> old) records) s))"

text \<open>The attachment under the conversation as the flow keys it; a file that is not there cannot be
  moved, one of another agent is not ours to move.\<close>

definition adopt :: "attachment_config \<Rightarrow> string \<Rightarrow> string \<Rightarrow> path \<Rightarrow> attachments \<Rightarrow> attachments \<times> path" where
  "adopt cfg agent conversation_id p s =
     (let d = dir_of cfg agent conversation_id; q = (d, path_name (snd p)) in
      if fst p = d \<or> fst (fst p) \<noteq> fst d \<or> file_at s p = None then (s, p)
      else (move_record (fst p) d p q (move_file p q s), q))"

definition forget_dir :: "dir \<Rightarrow> attachments \<Rightarrow> attachments \<times> nat" where
  "forget_dir d s =
     (set_record d [] (s\<lparr>as_disk := filter (\<lambda>(p, f). fst p \<noteq> d) (as_disk s)\<rparr>), length (files_in d s))"

definition forget :: "attachment_config \<Rightarrow> string \<Rightarrow> string \<Rightarrow> attachments \<Rightarrow> attachments \<times> nat" where
  "forget cfg agent conversation_id s = forget_dir (dir_of cfg agent conversation_id) s"

text \<open>
  One pass over the directories that hold files, agents whose directory starts with a dot left out.
  \<open>touched\<close> is when a directory or anything in it was last written; of two conversations with one
  directory the later record speaks for it.
\<close>

definition conversation_dirs :: "attachments \<Rightarrow> dir list" where
  "conversation_dirs s = filter (\<lambda>d. fst d = [] \<or> hd (fst d) \<noteq> CHR ''.'') (dedup (map (fst \<circ> fst) (as_disk s)))"

definition known_dir :: "attachment_config \<Rightarrow> session_record list \<Rightarrow> dir \<Rightarrow> session_record option" where
  "known_dir cfg rows d =
     (case filter (\<lambda>r. dir_of cfg (se_agent r) (se_conversation_id r) = d) rows of [] \<Rightarrow> None | rs \<Rightarrow> Some (last rs))"

definition to_sweep :: "attachment_config \<Rightarrow> session_record list \<Rightarrow> (dir \<Rightarrow> int) \<Rightarrow> stamp \<Rightarrow> dir \<Rightarrow> bool" where
  "to_sweep cfg rows touched cutoff d =
     (case known_dir cfg rows d of Some r \<Rightarrow> idle_before r cutoff | None \<Rightarrow> touched d < cutoff)"

definition sweep_attachments :: "attachment_config \<Rightarrow> int \<Rightarrow> int \<Rightarrow> session_record list \<Rightarrow> (dir \<Rightarrow> int) \<Rightarrow> stamp
    \<Rightarrow> attachments \<Rightarrow> attachments" where
  "sweep_attachments cfg days day rows touched now s =
     (if days \<le> 0 then s
      else fold (\<lambda>d s. fst (forget_dir d s)) (filter (to_sweep cfg rows touched (now - days * day)) (conversation_dirs s)) s)"

section \<open>Names stay inside\<close>

lemma cleaned_safe: "list_all safe_char (cleaned_name b s)"
  by (induction b s rule: cleaned_name.induct) (auto simp: safe_char_def)

lemma strip_by_set: "set (strip_by p s) \<subseteq> set s"
proof
  fix x assume "x \<in> set (strip_by p s)"
  then have "x \<in> set (dropWhile p (rev (dropWhile p s)))" by (simp add: strip_by_def)
  then have "x \<in> set (dropWhile p s)" using set_dropWhileD by fastforce
  then show "x \<in> set s" by (rule set_dropWhileD)
qed

lemma strip_by_first: "strip_by p s \<noteq> [] \<Longrightarrow> \<not> p (hd (strip_by p s))"
proof -
  assume ne: "strip_by p s \<noteq> []"
  let ?t = "dropWhile p s"
  have t: "?t = strip_by p s @ rev (takeWhile p (rev ?t))"
    unfolding strip_by_def rev_append [symmetric] takeWhile_dropWhile_id by simp
  have "hd (strip_by p s @ rev (takeWhile p (rev ?t))) = hd (strip_by p s)" using ne by simp
  then have "hd ?t = hd (strip_by p s)" unfolding t [symmetric] .
  moreover have "?t \<noteq> []" using ne unfolding strip_by_def by (cases "?t") simp_all
  ultimately show ?thesis using hd_dropWhile [of p s] by simp
qed

definition good_name :: "string \<Rightarrow> bool" where
  "good_name s \<longleftrightarrow> s \<noteq> [] \<and> length s \<le> MAX_FILE_NAME \<and> list_all safe_char s \<and> \<not> edge_of_name (hd s)"

lemma good_take: "list_all safe_char s \<Longrightarrow> s \<noteq> [] \<Longrightarrow> \<not> edge_of_name (hd s) \<Longrightarrow> 0 < n \<Longrightarrow> n \<le> MAX_FILE_NAME \<Longrightarrow> good_name (take n s)"
  by (auto simp: good_name_def hd_take dest: in_set_takeD simp: list_all_iff)

lemma extension_split: "CHR ''.'' \<in> set s \<Longrightarrow> s = stem s @ ''.'' @ extension s"
proof -
  assume dot: "CHR ''.'' \<in> set s"
  let ?p = "\<lambda>ch. ch \<noteq> CHR ''.''"
  have ne: "dropWhile ?p (rev s) \<noteq> []" using dot by (auto simp: dropWhile_eq_Nil_conv)
  then have "hd (dropWhile ?p (rev s)) = CHR ''.''" using hd_dropWhile [OF ne] by simp
  then have r: "rev s = takeWhile ?p (rev s) @ CHR ''.'' # tl (dropWhile ?p (rev s))"
    using ne by (metis list.collapse takeWhile_dropWhile_id)
  have whole: "s = rev (tl (dropWhile ?p (rev s))) @ ''.'' @ extension s"
    unfolding extension_def using arg_cong [OF r, of rev] by simp
  then have "length s = length (rev (tl (dropWhile ?p (rev s)))) + 1 + length (extension s)"
    by (metis One_nat_def append_Cons append_Nil length_Cons length_append list.size(3) group_cancel.add1)
  then have "stem s = rev (tl (dropWhile ?p (rev s)))" unfolding stem_def using whole
    by (metis add.commute add_diff_cancel_left' append_eq_conv_conj diff_diff_left add.assoc)
  then show ?thesis using whole by simp
qed

lemma safe_name_good: "good_name (safe_name name)"
proof -
  define cleaned where "cleaned = strip_by edge_of_name (cleaned_name False (strip (path_name (from_windows name))))"
  have safe: "list_all safe_char cleaned"
    using cleaned_safe strip_by_set unfolding cleaned_def list_all_iff by blast
  have first: "\<not> edge_of_name (hd cleaned)" if "cleaned \<noteq> []" using that strip_by_first unfolding cleaned_def by blast
  have name: "safe_name name = (if cleaned = [] then FALLBACK_NAME else if length cleaned \<le> MAX_FILE_NAME then cleaned
      else if CHR ''.'' \<in> set cleaned \<and> length (extension cleaned) \<le> 8
      then take (MAX_FILE_NAME - length (extension cleaned) - 1) (stem cleaned) @ ''.'' @ extension cleaned
      else take MAX_FILE_NAME cleaned)"
    by (simp add: safe_name_def cleaned_def Let_def)
  consider "cleaned = []" | "cleaned \<noteq> []" "length cleaned \<le> MAX_FILE_NAME"
    | "length cleaned > MAX_FILE_NAME" "CHR ''.'' \<in> set cleaned" "length (extension cleaned) \<le> 8"
    | "length cleaned > MAX_FILE_NAME" "\<not> (CHR ''.'' \<in> set cleaned \<and> length (extension cleaned) \<le> 8)" by fastforce
  then show ?thesis
  proof cases
    case 1
    have "good_name FALLBACK_NAME" by (simp add: good_name_def FALLBACK_NAME_def MAX_FILE_NAME_def safe_char_def edge_of_name_def)
    then show ?thesis by (simp add: name 1)
  next
    case 2
    then show ?thesis using safe first by (simp add: name good_name_def)
  next
    case 3
    have c: "cleaned = stem cleaned @ ''.'' @ extension cleaned" by (rule extension_split [OF 3(2)])
    have "length cleaned = length (stem cleaned) + 1 + length (extension cleaned)" using arg_cong [OF c, of length] by simp
    then have long: "length (stem cleaned) > 70" using 3 by (simp add: MAX_FILE_NAME_def)
    have parts: "list_all safe_char (stem cleaned)" "list_all safe_char (extension cleaned)"
      using safe by (subst (asm) c, simp)+
    have h: "hd (stem cleaned) = hd cleaned" unfolding stem_def
      by (rule hd_take) (use long in \<open>simp add: stem_def\<close>)
    have ne: "cleaned \<noteq> []" "stem cleaned \<noteq> []" using 3(2) long by auto
    have "good_name (take (MAX_FILE_NAME - length (extension cleaned) - 1) (stem cleaned))"
      using good_take [OF parts(1) ne(2)] first [OF ne(1)] h 3(3) by (simp add: MAX_FILE_NAME_def)
    then show ?thesis using 3 parts(2) ne by (auto simp: name good_name_def safe_char_def MAX_FILE_NAME_def)
  next
    case 4
    then have "safe_name name = take MAX_FILE_NAME cleaned" "cleaned \<noteq> []" by (auto simp: name)
    then show ?thesis using good_take [OF safe, of MAX_FILE_NAME] first by (simp add: MAX_FILE_NAME_def)
  qed
qed

definition hex_digest :: "(string \<Rightarrow> string) \<Rightarrow> bool" where
  "hex_digest digest \<longleftrightarrow> (\<forall>s. length (digest s) = 64 \<and> list_all (\<lambda>c. c \<in> set ''0123456789abcdef'') (digest s))"

lemma hex_digestD:
  assumes "hex_digest digest" and "ch \<in> set (digest s)"
  shows "safe_char ch" and "\<not> edge_of_name ch"
proof -
  have "list_all (\<lambda>c. safe_char c \<and> \<not> edge_of_name c) ''0123456789abcdef''" by code_simp
  moreover have "ch \<in> set ''0123456789abcdef''" using assms unfolding hex_digest_def list_all_iff by blast
  ultimately have "safe_char ch \<and> \<not> edge_of_name ch" unfolding list_all_iff by blast
  then show "safe_char ch" "\<not> edge_of_name ch" by simp_all
qed

lemma conversation_dir_good:
  assumes "hex_digest digest"
  shows "good_name (conversation_dir digest conv)"
proof -
  define raw where "raw = (if conv = [] then ''misc'' else conv)"
  let ?c = "safe_name raw" and ?d = "take DIGEST_CHARS (digest raw)"
  have c: "good_name ?c" by (rule safe_name_good)
  have "list_all safe_char (digest raw)"
    using hex_digestD(1) [OF assms] unfolding list_all_iff by blast
  then have d: "list_all safe_char ?d" by (auto simp: list_all_iff dest: in_set_takeD)
  have t: "good_name (take (MAX_FILE_NAME - DIGEST_CHARS - 1) ?c)"
    using c by (intro good_take) (auto simp: good_name_def MAX_FILE_NAME_def DIGEST_CHARS_def)
  then have "good_name (take (MAX_FILE_NAME - DIGEST_CHARS - 1) ?c @ ''-'' @ ?d)"
    using d by (auto simp: good_name_def MAX_FILE_NAME_def DIGEST_CHARS_def safe_char_def)
  then show ?thesis using c by (cases "?c = raw") (simp_all add: conversation_dir_def raw_def [symmetric] Let_def)
qed

text \<open>C20. Whatever a stranger calls a file, a conversation or an agent, the file is saved under the
  store's root in the agent's directory and the conversation's: each part of its path is a name of at
  most 80 characters without a separator that does not start with a dot, the last of at most 161.\<close>

theorem saved_inside:
  assumes "hex_digest (ac_digest cfg)"
  shows "good_name (fst (fst (saved_path cfg agent conv key name))) \<and> good_name (snd (fst (saved_path cfg agent conv key name)))
     \<and> list_all safe_char (snd (saved_path cfg agent conv key name)) \<and> length (snd (saved_path cfg agent conv key name)) \<le> 161
     \<and> hd (snd (saved_path cfg agent conv key name)) \<noteq> CHR ''.'' \<and> \<not> safe_char (CHR ''/'')"
proof -
  have k: "good_name (safe_name key)" and n: "good_name (safe_name name)" by (rule safe_name_good)+
  have "length (safe_name key) + length (safe_name name) \<le> 160" using k n by (simp add: good_name_def MAX_FILE_NAME_def)
  moreover have "safe_name key \<noteq> []" "list_all safe_char (safe_name key)" "list_all safe_char (safe_name name)"
    "hd (safe_name key) \<noteq> CHR ''.''" using k n by (simp_all add: good_name_def edge_of_name_def)
  ultimately show ?thesis
    using safe_name_good [of agent] conversation_dir_good [OF assms, of conv]
    by (simp add: saved_path_def dir_of_def safe_char_def)
qed

definition zero_digest :: "string \<Rightarrow> string" where "zero_digest s = replicate 64 (CHR ''0'')"

definition sample_attachment_config :: attachment_config where
  "sample_attachment_config = \<lparr>ac_max_bytes = 10, ac_conversation_max_bytes = 6, ac_digest = zero_digest\<rparr>"

lemma saved_inside_witness:
  "good_name (fst (fst (saved_path sample_attachment_config ''..'' ''a/b'' ''k'' ''../../etc/passwd'')))"
proof -
  have "hex_digest (ac_digest sample_attachment_config)"
    by (auto simp: hex_digest_def sample_attachment_config_def zero_digest_def list_all_iff)
  from saved_inside [OF this] show ?thesis by blast
qed

section \<open>Whose directory\<close>

lemma strip_by_same: "s \<noteq> [] \<Longrightarrow> \<not> p (hd s) \<Longrightarrow> \<not> p (last s) \<Longrightarrow> strip_by p s = s"
proof -
  assume s: "s \<noteq> []" "\<not> p (hd s)" "\<not> p (last s)"
  then have "dropWhile p s = s" "dropWhile p (rev s) = rev s" by (cases s, simp_all) (metis dropWhile_eq_self_iff hd_rev)
  then show ?thesis by (simp add: strip_by_def)
qed

lemma cleaned_same: "list_all safe_char s \<Longrightarrow> cleaned_name b s = s"
  by (induction s arbitrary: b) auto

lemma split_on_plain: "sep \<notin> set s \<Longrightarrow> split_on sep acc s = [acc @ s]"
  by (induction s arbitrary: acc) auto

lemma safe_name_same:
  assumes "good_name s" and "\<not> edge_of_name (last s)"
  shows "safe_name s = s"
proof -
  have s: "s \<noteq> []" "list_all safe_char s" "length s \<le> MAX_FILE_NAME" "\<not> edge_of_name (hd s)" using assms(1) by (simp_all add: good_name_def)
  have "\<not> safe_char (CHR ''/'')" "\<not> safe_char (char_of (92 :: nat))" by code_simp+
  then have no: "CHR ''/'' \<notin> set s" "char_of (92 :: nat) \<notin> set s" using s(2) unfolding list_all_iff by blast+
  then have w: "from_windows s = s" unfolding from_windows_def by (induction s) auto
  have dot: "s \<noteq> ''.''" using s(4) by (auto simp: edge_of_name_def)
  have p: "path_name s = s" using s(1) dot by (simp add: path_name_def split_on_plain [OF no(1)])
  have sp: "\<not> is_space (hd s)" "\<not> is_space (last s)"
  proof -
    have "\<not> is_space ch" if "safe_char ch" "ch \<noteq> CHR '' ''" for ch
      using that by (auto simp: safe_char_def is_space_def Let_def)
    moreover have "hd s \<noteq> CHR '' ''" "last s \<noteq> CHR '' ''" using s(4) assms(2) by (auto simp: edge_of_name_def)
    ultimately show "\<not> is_space (hd s)" "\<not> is_space (last s)" using s(1,2) by (auto simp: list_all_iff)
  qed
  have "strip s = s" using strip_by_same [OF s(1) sp] by (simp add: strip_by_def strip_def)
  then show ?thesis
    using s by (simp add: safe_name_def w p cleaned_same strip_by_same [OF s(1) s(4) assms(2)] Let_def)
qed

text \<open>Two conversations whose ids need cleaning have directories of their own when their digests differ;
  but the id spelled like such a directory has that very directory.\<close>

lemma dirty_ids_apart:
  assumes "safe_name a \<noteq> a" and "safe_name b \<noteq> b" and "a \<noteq> []" and "b \<noteq> []" and "hex_digest digest"
    and "take DIGEST_CHARS (digest a) \<noteq> take DIGEST_CHARS (digest b)"
  shows "conversation_dir digest a \<noteq> conversation_dir digest b"
proof
  assume eq: "conversation_dir digest a = conversation_dir digest b"
  have last: "rev (take DIGEST_CHARS (rev (conversation_dir digest x))) = take DIGEST_CHARS (digest x)"
    if "safe_name x \<noteq> x" "x \<noteq> []" for x
  proof -
    have "length (take DIGEST_CHARS (digest x)) = DIGEST_CHARS" using assms(5) by (simp add: hex_digest_def DIGEST_CHARS_def)
    then show ?thesis using that by (simp add: conversation_dir_def Let_def)
  qed
  show False using last [OF assms(1,3)] last [OF assms(2,4)] assms(6) eq by simp
qed

lemma directory_of_another:
  assumes "hex_digest digest" and "conv \<noteq> []" and "safe_name conv \<noteq> conv"
  shows "conversation_dir digest (conversation_dir digest conv) = conversation_dir digest conv \<and> conversation_dir digest conv \<noteq> conv"
proof -
  let ?d = "conversation_dir digest conv"
  have good: "good_name ?d" by (rule conversation_dir_good [OF assms(1)])
  have "last ?d \<in> set (digest conv)"
  proof -
    have "length (digest conv) = 64" using assms(1) by (simp add: hex_digest_def)
    then have "take DIGEST_CHARS (digest conv) \<noteq> []" by (auto simp: DIGEST_CHARS_def)
    then have "last ?d = last (take DIGEST_CHARS (digest conv))" using assms(2,3) by (simp add: conversation_dir_def Let_def)
    then show ?thesis using \<open>take DIGEST_CHARS (digest conv) \<noteq> []\<close> by (metis in_set_takeD last_in_set)
  qed
  then have "\<not> edge_of_name (last ?d)" by (rule hex_digestD(2) [OF assms(1)])
  then have same: "safe_name ?d = ?d" by (rule safe_name_same [OF good])
  moreover have "?d \<noteq> []" using good by (simp add: good_name_def)
  ultimately show ?thesis using assms(3) by (auto simp: conversation_dir_def [of digest ?d] Let_def)
qed

section \<open>Room is made by the oldest\<close>

lemma file_unlinked [simp]: "file_at (unlink p s) q = (if q = p then None else file_at s q)"
  by (simp add: file_at_def unlink_def AList.delete_conv')

lemma record_frame [simp]:
  "file_at (set_record d rs s) = file_at s" "as_disk (set_record d rs s) = as_disk s"
  "file_at (compact_record d gone s) = file_at s" "as_records (unlink p s) = as_records s"
  by (simp_all add: file_at_def set_record_def compact_record_def unlink_def Let_def fun_eq_iff)

lemma files_unlinked [simp]:
  "file_at (fold unlink ps s) q = (if q \<in> set ps then None else file_at s q)" "as_records (fold unlink ps s) = as_records s"
  by (induction ps arbitrary: s) auto

definition age_key :: "path \<times> stored_file \<Rightarrow> int \<times> string" where
  "age_key x = (case x of (p, f) \<Rightarrow> (sf_mtime f, path_name (snd p)))"

lemma evictions_spec:
  assumes "distinct (map fst fs)" and "held = kept + bytes_held fs"
  shows "set (evictions stuck cap held fs) \<subseteq> {p \<in> fst ` set fs. \<not> stuck p}"
    and "kept + bytes_held (filter (\<lambda>(p, f). p \<notin> set (evictions stuck cap held fs)) fs) \<le> cap
       \<or> set (evictions stuck cap held fs) = {p \<in> fst ` set fs. \<not> stuck p}"
    and "\<exists>pre post. fs = pre @ post \<and> set (evictions stuck cap held fs) = {p \<in> fst ` set pre. \<not> stuck p}"
    and "held \<le> cap \<Longrightarrow> evictions stuck cap held fs = []"
  using assms
proof (induction stuck cap held fs arbitrary: kept rule: evictions.induct)
  case (2 stuck cap held p f fs)
  {
    case 1
    then show ?case using "2.IH"(1) [of "kept + length (sf_bytes f)"] "2.IH"(5) [of kept]
      by (auto simp: bytes_held_def)
  next
    case 2
    show ?case
    proof (cases "held \<le> cap \<or> stuck p")
      case True
      have same: "filter (\<lambda>(q, g). q \<notin> set (evictions stuck cap held ((p, f) # fs))) ((p, f) # fs) = (p, f) # fs" if "held \<le> cap"
        using that by (simp add: case_prod_beta)
      show ?thesis
      proof (cases "held \<le> cap")
        case True
        show ?thesis unfolding same [OF True] using 2(2) True by simp
      next
        case False
        then have st: "stuck p" "\<not> held \<le> cap" using True by simp_all
        have "p \<notin> set (evictions stuck cap held fs)"
          using "2.IH"(1) [OF st(2,1), of "kept + length (sf_bytes f)"] 2 st by (auto simp: bytes_held_def)
        then show ?thesis
          using "2.IH"(2) [OF st(2,1), of "kept + length (sf_bytes f)"] 2 st by (auto simp: bytes_held_def)
      qed
    next
      case False
      then have st: "\<not> stuck p" "\<not> held \<le> cap" by simp_all
      have h: "held - length (sf_bytes f) = kept + bytes_held fs" using 2(2) by (simp add: bytes_held_def)
      have "filter (\<lambda>(q, g). q \<notin> set (evictions stuck cap held ((p, f) # fs))) ((p, f) # fs)
          = filter (\<lambda>(q, g). q \<notin> set (evictions stuck cap (held - length (sf_bytes f)) fs)) fs"
        using st 2(1) by (auto intro!: filter_cong simp: image_iff)
      then show ?thesis using "2.IH"(6) [OF st(2,1) _ h] 2(1) st by auto
    qed
  next
    case 3
    show ?case
    proof (cases "held \<le> cap")
      case True
      then show ?thesis by (intro exI [of _ "[]"] exI [of _ "(p, f) # fs"]) simp
    next
      case False
      show ?thesis
      proof (cases "stuck p")
        case True
        obtain pre post where "fs = pre @ post" "set (evictions stuck cap held fs) = {q \<in> fst ` set pre. \<not> stuck q}"
          using "2.IH"(3) [OF False True, of "kept + length (sf_bytes f)"] 3 by (auto simp: bytes_held_def)
        then show ?thesis using False True by (intro exI [of _ "(p, f) # pre"] exI [of _ post]) auto
      next
        case f: False
        have h: "held - length (sf_bytes f) = kept + bytes_held fs" using 3(2) by (simp add: bytes_held_def)
        obtain pre post where "fs = pre @ post"
          "set (evictions stuck cap (held - length (sf_bytes f)) fs) = {q \<in> fst ` set pre. \<not> stuck q}"
          using "2.IH"(7) [OF False f _ h] 3(1) by auto
        then show ?thesis using False f by (intro exI [of _ "(p, f) # pre"] exI [of _ post]) auto
      qed
    qed
  next
    case 4
    then show ?case by simp
  }
qed (simp_all add: bytes_held_def)

lemma bytes_insort: "bytes_held (insort_key k x xs) = bytes_held (x # xs)"
  by (induction xs) (auto simp: bytes_held_def)

lemma bytes_sorted: "bytes_held (sort_key k xs) = bytes_held xs"
proof (induction xs)
  case (Cons x xs)
  then show ?case using bytes_insort [of k x "sort_key k xs"] by (auto simp: bytes_held_def)
qed simp

lemma compacted: "\<forall>r \<in> set (read_record d (compact_record d gone s)). rv_path r \<notin> gone"
proof (cases "length (filter (\<lambda>r. rv_path r \<notin> gone) (read_record d s)) = length (read_record d s)")
  case True
  then have "compact_record d gone s = s" by (simp add: compact_record_def Let_def)
  moreover have "\<forall>r \<in> set (read_record d s). rv_path r \<notin> gone"
    using True length_filter_less by (metis (mono_tags, lifting) less_irrefl)
  ultimately show ?thesis by simp
next
  case False
  then show ?thesis by (simp add: compact_record_def Let_def read_record_def set_record_def)
qed

text \<open>Past a conversation's cap the oldest of its files go, and no more than must: the file just saved
  and every other conversation's stay, what goes is older (by time, then name) than what could have gone
  and stays, afterwards the conversation fits its cap or nothing that can go is left, nothing goes when
  it fitted, and the record names none of what went.\<close>

lemma oldest_make_room:
  assumes "make_room cfg stuck kept s = (s', evicted)" and "distinct (map fst (as_disk s))"
  shows "(\<forall>q. q \<notin> set evicted \<longrightarrow> file_at s' q = file_at s q)
     \<and> (\<forall>p \<in> set evicted. fst p = fst kept \<and> p \<noteq> kept \<and> \<not> stuck p \<and> file_at s' p = None)
     \<and> (\<forall>x \<in> set (files_in (fst kept) s). \<forall>y \<in> set (files_in (fst kept) s).
          fst x \<in> set evicted \<and> fst y \<notin> set evicted \<and> fst y \<noteq> kept \<and> \<not> stuck (fst y) \<longrightarrow> age_key x \<le> age_key y)
     \<and> ((case file_at s kept of None \<Rightarrow> 0 | Some f \<Rightarrow> length (sf_bytes f))
          + bytes_held (filter (\<lambda>(p, f). p \<noteq> kept \<and> p \<notin> set evicted) (files_in (fst kept) s)) \<le> ac_conversation_max_bytes cfg
        \<or> (\<forall>x \<in> set (files_in (fst kept) s). fst x \<noteq> kept \<and> \<not> stuck (fst x) \<longrightarrow> fst x \<in> set evicted))
     \<and> (evicted \<noteq> [] \<longrightarrow> (\<forall>r \<in> set (read_record (fst kept) s'). rv_path r \<notin> set evicted))"
proof -
  define others where "others = filter (\<lambda>(p, f). p \<noteq> kept) (files_in (fst kept) s)"
  define old where "old = sort_key age_key others"
  define mine where "mine = (case file_at s kept of None \<Rightarrow> 0 | Some f \<Rightarrow> length (sf_bytes f))"
  let ?cap = "ac_conversation_max_bytes cfg"
  have key: "(\<lambda>(p, f). (sf_mtime f, path_name (snd p))) = age_key" by (auto simp: age_key_def)
  have ev: "evicted = evictions stuck ?cap (bytes_held others + mine) old"
    and s': "s' = (if evicted = [] then s else compact_record (fst kept) (set evicted) (fold unlink evicted s))"
    using assms(1) unfolding make_room_def Let_def key others_def [symmetric] old_def [symmetric] mine_def [symmetric] by auto
  have held: "bytes_held old = bytes_held others"
    unfolding old_def by (rule bytes_sorted)
  have "distinct (map fst others)"
    using assms(2) unfolding others_def files_in_def by (simp add: distinct_map_filter)
  then have dist: "distinct (map fst old)"
    by (simp add: old_def distinct_map)
  have set_old: "set old = {x \<in> set (files_in (fst kept) s). fst x \<noteq> kept}" by (auto simp: old_def others_def)
  have in_dir: "fst (fst x) = fst kept" if "x \<in> set (files_in (fst kept) s)" for x using that by (auto simp: files_in_def)
  note spec = evictions_spec [OF dist, where held = "bytes_held others + mine" and kept = mine and stuck = stuck and cap = ?cap, folded ev]
  have sum: "bytes_held others + mine = mine + bytes_held old" by (simp add: held)
  have gone: "p \<in> set evicted \<Longrightarrow> fst p = fst kept \<and> p \<noteq> kept \<and> \<not> stuck p" for p
    using spec(1) [OF sum] set_old in_dir by auto
  have at: "file_at s' q = (if q \<in> set evicted then None else file_at s q)" for q by (simp add: s')
  show ?thesis
  proof (intro conjI)
    show "\<forall>q. q \<notin> set evicted \<longrightarrow> file_at s' q = file_at s q" by (simp add: at)
    show "\<forall>p \<in> set evicted. fst p = fst kept \<and> p \<noteq> kept \<and> \<not> stuck p \<and> file_at s' p = None" using gone by (simp add: at)
    show "\<forall>x \<in> set (files_in (fst kept) s). \<forall>y \<in> set (files_in (fst kept) s).
          fst x \<in> set evicted \<and> fst y \<notin> set evicted \<and> fst y \<noteq> kept \<and> \<not> stuck (fst y) \<longrightarrow> age_key x \<le> age_key y"
    proof (intro ballI impI)
      fix x y assume x: "x \<in> set (files_in (fst kept) s)" and y: "y \<in> set (files_in (fst kept) s)"
        and g: "fst x \<in> set evicted \<and> fst y \<notin> set evicted \<and> fst y \<noteq> kept \<and> \<not> stuck (fst y)"
      obtain pre post where pp: "old = pre @ post" "set evicted = {p \<in> fst ` set pre. \<not> stuck p}" using spec(3) [OF sum] by blast
      have "fst x \<noteq> kept" using g gone by blast
      then have "x \<in> set old" "y \<in> set old" unfolding set_old using x y g by simp_all
      moreover have "y \<notin> set pre" using g pp(2) by auto
      moreover have "x \<in> set pre"
      proof -
        obtain z where z: "z \<in> set pre" "fst z = fst x" using g pp(2) by auto
        have "inj_on fst (set old)" using dist by (simp add: distinct_map)
        moreover have "z \<in> set old" using z(1) pp(1) by simp
        ultimately have "z = x" using \<open>x \<in> set old\<close> z(2) by (blast dest: inj_onD)
        then show ?thesis using z by simp
      qed
      ultimately have "x \<in> set pre" "y \<in> set post" using pp(1) by auto
      moreover have "sorted (map age_key (pre @ post))" using pp(1) unfolding old_def by (metis sorted_sort_key)
      ultimately show "age_key x \<le> age_key y" by (auto simp: sorted_append)
    qed
    have "filter (\<lambda>(p, f). p \<noteq> kept \<and> p \<notin> set evicted) (files_in (fst kept) s) = filter (\<lambda>(p, f). p \<notin> set evicted) others"
      by (auto simp: others_def intro: filter_cong)
    moreover have "bytes_held (filter (\<lambda>(p, f). p \<notin> set evicted) others) = bytes_held (filter (\<lambda>(p, f). p \<notin> set evicted) old)"
      unfolding old_def filter_sort bytes_sorted by (rule refl)
    ultimately show "(case file_at s kept of None \<Rightarrow> 0 | Some f \<Rightarrow> length (sf_bytes f))
          + bytes_held (filter (\<lambda>(p, f). p \<noteq> kept \<and> p \<notin> set evicted) (files_in (fst kept) s)) \<le> ?cap
        \<or> (\<forall>x \<in> set (files_in (fst kept) s). fst x \<noteq> kept \<and> \<not> stuck (fst x) \<longrightarrow> fst x \<in> set evicted)"
      using spec(2) [OF sum] set_old unfolding mine_def by auto
    show "evicted \<noteq> [] \<longrightarrow> (\<forall>r \<in> set (read_record (fst kept) s'). rv_path r \<notin> set evicted)"
      by (simp add: s' compacted)
  qed
qed


definition two_files :: attachments where
  "two_files = \<lparr>as_disk = [((( ''a'', ''c''), ''1''), \<lparr>sf_bytes = ''xxxx'', sf_mtime = 1, sf_regular = True\<rparr>),
       (((''a'', ''c''), ''2''), \<lparr>sf_bytes = ''yyyy'', sf_mtime = 2, sf_regular = True\<rparr>)], as_records = (\<lambda>_. [])\<rparr>"

lemma oldest_make_room_witness:
  "snd (make_room (sample_attachment_config\<lparr>ac_conversation_max_bytes := 5\<rparr>) (\<lambda>_. False) ((''a'', ''c''), ''2'') two_files)
     = [((''a'', ''c''), ''1'')]
   \<and> file_at (fst (make_room (sample_attachment_config\<lparr>ac_conversation_max_bytes := 5\<rparr>) (\<lambda>_. False) ((''a'', ''c''), ''2'') two_files))
       ((''a'', ''c''), ''2'') = file_at two_files ((''a'', ''c''), ''2'')"
  using oldest_make_room [of "sample_attachment_config\<lparr>ac_conversation_max_bytes := 5\<rparr>" "\<lambda>_. False" "((''a'', ''c''), ''2'')" two_files
      "fst (make_room (sample_attachment_config\<lparr>ac_conversation_max_bytes := 5\<rparr>) (\<lambda>_. False) ((''a'', ''c''), ''2'') two_files)"
      "[((''a'', ''c''), ''1'')]"]
  by (simp add: make_room_def files_in_def file_at_def two_files_def bytes_held_def path_name_def Let_def sample_attachment_config_def prod_eq_iff)

section \<open>What is read is what arrived\<close>

lemma put_record [simp]: "as_records (put_file p f s) = as_records s"
  by (simp add: put_file_def)

lemma write_record [simp]: "as_records (write_file p data now s) = as_records s"
  by (auto simp: write_file_def split: option.splits)

lemma make_room_record: "set (as_records (fst (make_room cfg stuck p s)) d) \<subseteq> set (as_records s d)"
proof -
  have "set (as_records (compact_record e gone t) d) \<subseteq> set (as_records t d)" for e gone t
    by (auto simp: compact_record_def Let_def set_record_def read_record_def)
  then have "set (as_records (compact_record e gone (fold unlink ps s)) d) \<subseteq> set (as_records s d)" for e gone ps
    using files_unlinked(2) [of ps s] by fastforce
  then show ?thesis unfolding make_room_def Let_def fst_conv by (auto split: if_splits)
qed

lemma save_file_record: "set (as_records (fst (save_file cfg stuck agent conv name data key now s)) d) \<subseteq> set (as_records s d)"
  unfolding save_file_def Let_def using make_room_record by (auto dest: subsetD [OF make_room_record])

lemma save_file_path:
  "snd (save_file cfg stuck agent conv name data key now s) = Some (nm, p, n) \<Longrightarrow> p = saved_path cfg agent conv key name \<and> n = length data"
  by (auto simp: save_file_def Let_def split: if_splits)

lemma save_each_spec:
  "save_each cfg stuck agent conv now files s = (s', kept) \<Longrightarrow>
     set (as_records s' d) \<subseteq> set (as_records s d)
     \<and> (\<forall>(f, nm, p) \<in> set kept. \<exists>key. (f, key) \<in> set files \<and> p = saved_path cfg agent conv key (if_name f))"
proof (induction cfg stuck agent conv now files s arbitrary: s' kept rule: save_each.induct)
  case (2 cfg stuck agent conv now f key fs s)
  obtain s1 o1 where sv: "save_file cfg stuck agent conv (if_name f) (if_data f) key now s = (s1, o1)" by force
  have r: "set (as_records s1 d) \<subseteq> set (as_records s d)" using save_file_record [of cfg stuck agent conv "if_name f" "if_data f" key now s d] sv by simp
  show ?case
  proof (cases o1)
    case None
    have "save_each cfg stuck agent conv now fs s1 = (s', kept)" using "2.prems" sv None by simp
    then show ?thesis using "2.IH"(1) [OF sv [symmetric, unfolded None] refl] r by fastforce
  next
    case (Some x)
    obtain nm p n where x: "x = (nm, p, n)" by (cases x)
    obtain kept' where k: "save_each cfg stuck agent conv now fs s1 = (s', kept')" "kept = (f, nm, p) # kept'"
      using "2.prems" sv Some x by (cases "save_each cfg stuck agent conv now fs s1") auto
    have p: "p = saved_path cfg agent conv key (if_name f)" using save_file_path [of cfg stuck agent conv "if_name f" "if_data f" key now s nm p n] sv Some x by simp
    have ih: "set (as_records s' d) \<subseteq> set (as_records s1 d)
        \<and> (\<forall>(f, nm, p) \<in> set kept'. \<exists>key. (f, key) \<in> set fs \<and> p = saved_path cfg agent conv key (if_name f))"
      using "2.IH"(2) [OF sv [symmetric, unfolded Some x] refl refl refl k(1)] .
    show ?thesis using ih r p k(2) by fastforce
  qed
qed auto

text \<open>What a tool reads as a file that arrived is what arrived: whatever the agent has since done to
  the disk, a line the store recorded with a message gives bytes only of the length and the digest of a file
  of that message, from that message's own conversation and under its key; otherwise it is refused.\<close>

lemma only_what_arrived_is_read:
  assumes "save_many cfg sha stuck agent conv now at files s = (s', saved)"
    and "r \<in> set (as_records s' d)" and "r \<notin> set (as_records s d)"
    and "read_received sha d r later = Inr data"
  shows "d = dir_of cfg agent conv \<and> rv_received_at r = at
    \<and> (\<exists>(f, key) \<in> set files. rv_path r = saved_path cfg agent conv key (if_name f)
        \<and> length data = length (if_data f) \<and> sha data = sha (if_data f))"
proof -
  obtain s1 kept where k: "save_each cfg stuck agent conv now files s = (s1, kept)" by force
  note spec = save_each_spec [OF k]
  have "r \<notin> set (as_records s1 d)" using spec assms(3) by blast
  moreover have "s' = (if kept = [] then s1 else record_arrived (dir_of cfg agent conv) (map (received_of sha at) kept) s1)"
    using assms(1) k by (simp add: save_many_def)
  ultimately have dir: "d = dir_of cfg agent conv" and "r \<in> received_of sha at ` set kept"
    using assms(2) by (auto simp: record_arrived_def set_record_def split: if_splits)
  then obtain f nm p where r: "(f, nm, p) \<in> set kept" "r = received_of sha at (f, nm, p)" by auto
  obtain key where key: "(f, key) \<in> set files" "p = saved_path cfg agent conv key (if_name f)" using spec r(1) by blast
  have "length data = rv_size r" "sha data = rv_sha256 r"
    using assms(4) by (auto simp: read_received_def read_checked_def split: if_splits option.splits)
  then have "length data = length (if_data f)" "sha data = sha (if_data f)" "rv_path r = p" "rv_received_at r = at"
    using r(2) by (simp_all add: received_of_def)
  then show ?thesis using dir key by blast
qed

definition no_files :: attachments where "no_files = \<lparr>as_disk = [], as_records = (\<lambda>_. [])\<rparr>"

definition note_file :: incoming_file where
  "note_file = \<lparr>if_name = ''n'', if_data = ''hi'', if_mime = ''t'', if_key = ''k''\<rparr>"

lemma safe_name_short: "safe_name [c] = [c]" if "safe_char c" "\<not> edge_of_name c" "c \<noteq> CHR ''/''" for c
  using that by (intro safe_name_same) (simp_all add: good_name_def MAX_FILE_NAME_def edge_of_name_def)

lemma note_names: "safe_name ''a'' = ''a''" "safe_name ''c'' = ''c''" "safe_name ''k'' = ''k''" "safe_name ''n'' = ''n''"
  by (rule safe_name_short; simp add: safe_char_def edge_of_name_def)+

definition note_line :: received_file where
  "note_line = \<lparr>rv_path = ((''a'', ''c''), ''k-n''), rv_name = ''n'', rv_mime = ''t'', rv_size = 2, rv_sha256 = ''hi'', rv_received_at = 1\<rparr>"

lemma a_note_is:
  "save_many sample_attachment_config id (\<lambda>_. False) ''a'' ''c'' 1 1 [(note_file, ''k'')] no_files
     = (\<lparr>as_disk = [(((''a'', ''c''), ''k-n''), \<lparr>sf_bytes = ''hi'', sf_mtime = 1, sf_regular = True\<rparr>)],
         as_records = (\<lambda>_. [])((''a'', ''c'') := [note_line])\<rparr>, [(''n'', ((''a'', ''c''), ''k-n''), ''t'', 2)])"
  by (simp add: save_many_def save_file_def Let_def sample_attachment_config_def note_file_def no_files_def saved_path_def dir_of_def
      note_names conversation_dir_def write_file_def file_at_def put_file_def make_room_def files_in_def bytes_held_def
      path_name_def from_windows_def char_of_def numeral_2_eq_2 record_arrived_def read_record_def set_record_def received_of_def note_line_def)

lemma only_what_arrived_is_read_witness:
  "\<exists>(f, key) \<in> set [(note_file, ''k'')]. rv_path note_line = saved_path sample_attachment_config ''a'' ''c'' key (if_name f)"
proof -
  have "read_received id (''a'', ''c'') note_line
      (fst (save_many sample_attachment_config id (\<lambda>_. False) ''a'' ''c'' 1 1 [(note_file, ''k'')] no_files)) = Inr ''hi''"
    unfolding a_note_is by (simp add: read_received_def read_record_def whole_line_def note_line_def NEL_def char_of_def read_checked_def file_at_def)
  then show ?thesis
    using only_what_arrived_is_read [OF a_note_is, of note_line "(''a'', ''c'')"] unfolding a_note_is
    by (auto simp: no_files_def)
qed

section \<open>Sweeping\<close>

lemma forgotten: "file_at (fst (forget_dir d s)) p = (if fst p = d then None else file_at s p)"
proof (cases "fst p = d")
  case False
  then have "map_of (filter (\<lambda>(p, f). fst p \<noteq> d) xs) p = map_of xs p" for xs :: "(path \<times> stored_file) list"
    by (induction xs) auto
  then show ?thesis using False by (simp add: file_at_def forget_dir_def set_record_def)
qed (auto simp: file_at_def forget_dir_def set_record_def map_of_eq_None_iff)

lemma forgotten_record: "as_records (fst (forget_dir d s)) e = (if e = d then [] else as_records s e)"
  by (simp add: forget_dir_def set_record_def)

lemma forgotten_all:
  "file_at (fold (\<lambda>d s. fst (forget_dir d s)) ds s) p = (if fst p \<in> set ds then None else file_at s p)"
  "as_records (fold (\<lambda>d s. fst (forget_dir d s)) ds s) e = (if e \<in> set ds then [] else as_records s e)"
  by (induction ds arbitrary: s) (auto simp: forgotten forgotten_record)

lemma to_sweep_of:
  "to_sweep cfg rows touched cutoff d
     \<longleftrightarrow> (case known_dir cfg rows d of Some r \<Rightarrow> se_last_active r < cutoff | None \<Rightarrow> touched d < cutoff)"
  by (cases "known_dir cfg rows d") (simp_all add: to_sweep_def idle_before_def)

text \<open>C0. A sweep forgets whole conversations, and those only that have been left alone: a file goes
  exactly when sweeping is on and the session last recorded for its directory was idle at the cutoff or,
  where no session is known, nothing there has been written since; what arrived is forgotten with it.\<close>

theorem sweep_takes_the_idle:
  "file_at (sweep_attachments cfg days day rows touched now s) p =
     (if 0 < days \<and> fst p \<in> set (conversation_dirs s)
         \<and> (case known_dir cfg rows (fst p) of Some r \<Rightarrow> se_last_active r < now - days * day | None \<Rightarrow> touched (fst p) < now - days * day)
      then None else file_at s p)
   \<and> as_records (sweep_attachments cfg days day rows touched now s) d =
     (if 0 < days \<and> d \<in> set (conversation_dirs s)
         \<and> (case known_dir cfg rows d of Some r \<Rightarrow> se_last_active r < now - days * day | None \<Rightarrow> touched d < now - days * day)
      then [] else as_records s d)"
  unfolding sweep_attachments_def by (simp add: forgotten_all flip: to_sweep_of)

section \<open>What goes wrong\<close>

text \<open>A file whose name or type has the character \<open>U+0085\<close> is never read back.\<close>

lemma next_line_never_read: "NEL \<in> set (rv_name r) \<Longrightarrow> as_records s d = [r] \<Longrightarrow> read_received sha d r s = Inl ReceivedFileChanged"
  by (simp add: read_received_def read_record_def whole_line_def)

text \<open>A file adopted into a conversation makes no room: it may hold more than its cap.\<close>

lemma adopted_past_the_cap:
  assumes "fst p \<noteq> dir_of cfg agent conv" and "fst (fst p) = safe_name agent" and "file_at s p = Some f" and "sf_regular f"
    and "file_at s (dir_of cfg agent conv, path_name (snd p)) = None"
  shows "(((dir_of cfg agent conv, path_name (snd p)), f) \<in> set (files_in (dir_of cfg agent conv) (fst (adopt cfg agent conv p s))))
    \<and> (\<forall>x \<in> set (files_in (dir_of cfg agent conv) s). x \<in> set (files_in (dir_of cfg agent conv) (fst (adopt cfg agent conv p s))))"
proof -
  let ?d = "dir_of cfg agent conv" let ?q = "(?d, path_name (snd p))"
  have disk: "as_disk (fst (adopt cfg agent conv p s)) = AList.delete p (AList.update ?q f (as_disk s))"
    using assms by (simp add: adopt_def Let_def dir_of_def move_file_def move_record_def record_arrived_def set_record_def
        unlink_def put_file_def)
  have upd: "set (AList.update k v xs) \<supseteq> {x \<in> set xs. fst x \<noteq> k} \<union> {(k, v)}" for k v and xs :: "(path \<times> stored_file) list"
    by (induction xs) auto
  have del: "set (AList.delete k xs) = {x \<in> set xs. fst x \<noteq> k}" for k and xs :: "(path \<times> stored_file) list"
    by (auto simp: AList.delete_eq)
  have fresh: "fst x \<noteq> ?q" if "x \<in> set (as_disk s)" for x
    using that assms(5) unfolding file_at_def map_of_eq_None_iff by (metis image_eqI)
  have new: "set (AList.delete p (AList.update ?q f (as_disk s))) \<supseteq> {x \<in> set (as_disk s). fst (fst x) = ?d} \<union> {(?q, f)}"
  proof
    fix x assume x: "x \<in> {x \<in> set (as_disk s). fst (fst x) = ?d} \<union> {(?q, f)}"
    then have "x \<in> set (AList.update ?q f (as_disk s))" using x upd [of "as_disk s" ?q f] fresh by blast
    moreover have "fst (fst x) = ?d" using x by (cases x) auto
    then have "fst x \<noteq> p" using assms(1) by metis
    ultimately show "x \<in> set (AList.delete p (AList.update ?q f (as_disk s)))" by (simp add: del)
  qed
  have member: "x \<in> set (files_in ?d t) \<longleftrightarrow> x \<in> set (as_disk t) \<and> fst (fst x) = ?d \<and> sf_regular (snd x)" for x t
    by (cases x) (auto simp: files_in_def)
  have "x \<in> set (AList.delete p (AList.update ?q f (as_disk s)))" if "x \<in> set (as_disk s)" "fst (fst x) = ?d" for x
    by (rule subsetD [OF new]) (simp add: that)
  moreover have "(?q, f) \<in> set (AList.delete p (AList.update ?q f (as_disk s)))"
    by (rule subsetD [OF new]) simp
  ultimately show ?thesis using assms(4) unfolding member disk by (simp add: files_in_def split_beta)
qed

end
