(* ===== verification/AgentFlow.thy ===== *)
theory AgentFlow
  imports Prompts TurnJournal Scheduler
begin

text \<open>
  One turn of an agent: \<open>packages/crucible/src/crucible/flows/agent_flow.py\<close>, \<open>flows/admission.py\<close>, what
  \<open>ports/entitlement.py\<close> makes of several answers and the notices of \<open>ports/agent/errors.py\<close>.

  A turn is opened (\<open>open_turn\<close>), prepared (\<open>prepare_turn\<close>), ended by what the runtime returns or raises
  (\<open>end_of_turn\<close>) and closed (\<open>close_turn\<close>); between those a person may stop it, in two parts since the runtime
  is waited for.  What is posted is a list.  The runtime, its memory, the rules of the application and the
  platform are arguments; the usage of a turn and its telemetry are left out, as is a platform that refuses a post.
\<close>

section \<open>What goes wrong and what is said of it\<close>

datatype agent_error =
    AgentError string | AgentTimeout string | AgentOverBudget string | AgentStalled string | AgentBusy string
  | AgentUnavailable string

fun error_text :: "agent_error \<Rightarrow> string" where
  "error_text (AgentError t) = t" | "error_text (AgentTimeout t) = t" | "error_text (AgentOverBudget t) = t"
| "error_text (AgentStalled t) = t" | "error_text (AgentBusy t) = t" | "error_text (AgentUnavailable t) = t"

text \<open>\<open>isinstance(error, AgentTimeout)\<close>.\<close>

fun is_timeout :: "agent_error \<Rightarrow> bool" where
  "is_timeout (AgentError t) = False" | "is_timeout (AgentUnavailable t) = False" | "is_timeout _ = True"

text \<open>Regular expressions without repetition: what may stand at a place, with the character before it.\<close>

fun found :: "(char option \<Rightarrow> string \<Rightarrow> bool) \<Rightarrow> char option \<Rightarrow> string \<Rightarrow> bool" where
  "found p before [] = p before []"
| "found p before (c # cs) = (p before (c # cs) \<or> found p (Some c) cs)"

definition says :: "string \<Rightarrow> string \<Rightarrow> bool" where
  "says w s = found (\<lambda>_ rest. starts_with w rest) None (lower s)"

definition wordy :: "char \<Rightarrow> bool" where
  "wordy c \<longleftrightarrow> speaker_char c \<and> c \<notin> set ''.@+-'' \<or> c = CHR ''_''"

definition ends_word :: "string \<Rightarrow> bool" where
  "ends_word rest \<longleftrightarrow> rest = [] \<or> \<not> wordy (hd rest)"

text \<open>\<open>\b429\b\<close>\<close>

definition says_number :: "string \<Rightarrow> string \<Rightarrow> bool" where
  "says_number w s = found (\<lambda>before rest. (case before of None \<Rightarrow> True | Some c \<Rightarrow> \<not> wordy c)
      \<and> starts_with w rest \<and> ends_word (drop (length w) rest)) None s"

text \<open>\<open>rate.?limit\<close> and \<open>context[_ ]length\<close>, \<open>invalid[_ ]api\<close>, \<open>gateway time-?out\<close>.\<close>

definition says_apart :: "string \<Rightarrow> (char \<Rightarrow> bool) \<Rightarrow> string \<Rightarrow> string \<Rightarrow> bool" where
  "says_apart a between b s = found (\<lambda>_ rest. starts_with a rest
      \<and> (case drop (length a) rest of [] \<Rightarrow> False | c # cs \<Rightarrow> between c \<and> starts_with b cs)) None (lower s)"

definition QUOTA :: "string \<Rightarrow> bool" where
  "QUOTA s \<longleftrightarrow> says ''usage limit'' s \<or> says ''quota'' s \<or> says ''ratelimit'' s \<or> says_apart ''rate'' (\<lambda>c. c \<noteq> LF) ''limit'' s
     \<or> says ''too many requests'' s \<or> says_number ''429'' s \<or> says ''insufficient_quota'' s \<or> says ''credit balance'' s \<or> says ''billing'' s"

definition CREDENTIALS :: "string \<Rightarrow> bool" where
  "CREDENTIALS s \<longleftrightarrow> says ''no api key'' s \<or> says ''api key'' s \<or> says ''unauthor'' s \<or> says_number ''401'' s
     \<or> says ''authentication'' s \<or> says_apart ''invalid'' (\<lambda>c. c = CHR ''_'' \<or> c = CHR '' '') ''api'' s
     \<or> says ''not logged in'' s \<or> says ''/login'' s \<or> says ''expired token'' s"

definition CONTEXT :: "string \<Rightarrow> bool" where
  "CONTEXT s \<longleftrightarrow> says_apart ''context'' (\<lambda>c. c = CHR ''_'' \<or> c = CHR '' '') ''length'' s \<or> says ''maximum context'' s
     \<or> says ''context window'' s \<or> says ''too many tokens'' s \<or> says ''prompt is too long'' s"

text \<open>\<open>(?:^|:\s*)5\d\d\b\<close>\<close>

definition five_hundred :: "string \<Rightarrow> bool" where
  "five_hundred rest \<longleftrightarrow> (case rest of a # b # c # cs \<Rightarrow> a = CHR ''5'' \<and> is_digit b \<and> is_digit c \<and> ends_word cs | _ \<Rightarrow> False)"

definition MODEL_UNAVAILABLE :: "string \<Rightarrow> bool" where
  "MODEL_UNAVAILABLE s \<longleftrightarrow> five_hundred s
     \<or> found (\<lambda>_ rest. case rest of c # cs \<Rightarrow> c = CHR '':'' \<and> five_hundred (dropWhile is_space cs) | [] \<Rightarrow> False) None s
     \<or> says ''service unavailable'' s \<or> says ''bad gateway'' s \<or> says ''gateway timeout'' s \<or> says ''gateway time-out'' s
     \<or> says ''overloaded'' s \<or> says ''internal server error'' s \<or> says ''connection error'' s \<or> says ''request timed out'' s
     \<or> says ''fetch failed'' s \<or> says ''socket hang up'' s \<or> says ''econnrefused'' s \<or> says ''econnreset'' s
     \<or> says ''etimedout'' s \<or> says ''enotfound'' s \<or> says ''eai_again'' s"

definition NOTICE_STOPPED :: string where "NOTICE_STOPPED = ''stopped''"
definition NOTICE_EMPTY_ANSWER :: string where "NOTICE_EMPTY_ANSWER = ''empty_answer''"
definition NOTICE_TRUNCATED :: string where "NOTICE_TRUNCATED = ''truncated''"

definition TURN_END_NOTICES :: "string set" where
  "TURN_END_NOTICES = {''runtime_unavailable'', ''busy'', ''quota'', ''credentials'', ''context'', ''timeout'', ''stalled'',
     ''over_budget'', ''model_unavailable'', ''agent_error'', NOTICE_STOPPED, NOTICE_EMPTY_ANSWER, NOTICE_TRUNCATED}"

text \<open>The code; each has one sentence, which is left out.\<close>

definition error_notice :: "agent_error \<Rightarrow> string" where
  "error_notice e =
     (let t = error_text e in
      case e of AgentUnavailable _ \<Rightarrow> ''runtime_unavailable''
      | AgentBusy _ \<Rightarrow> ''busy''
      | _ \<Rightarrow>
        if QUOTA t then ''quota'' else if CREDENTIALS t then ''credentials'' else if CONTEXT t then ''context''
        else if MODEL_UNAVAILABLE t then ''model_unavailable''
        else (case e of AgentOverBudget _ \<Rightarrow> ''over_budget'' | AgentStalled _ \<Rightarrow> ''stalled''
              | AgentTimeout _ \<Rightarrow> ''timeout'' | _ \<Rightarrow> ''agent_error''))"

section \<open>Calls of a turn that was cut short\<close>

record turn_log =
  tl_calls :: "(string \<times> string \<times> string) list"
  tl_open :: "string \<rightharpoonup> nat"

definition empty_log :: turn_log where "empty_log = \<lparr>tl_calls = [], tl_open = Map.empty\<rparr>"

fun log_record :: "run_event \<Rightarrow> turn_log \<Rightarrow> turn_log" where
  "log_record (ToolStarted call_id tool args caption) l =
     l\<lparr>tl_open := (tl_open l)(call_id \<mapsto> length (tl_calls l)), tl_calls := tl_calls l @ [(tool, caption, ''running'')]\<rparr>"
| "log_record (ToolFinished call_id tool is_error duration) l =
     (case tl_open l call_id of None \<Rightarrow> l
      | Some i \<Rightarrow> (case tl_calls l ! i of (t, c, _) \<Rightarrow>
          l\<lparr>tl_open := (tl_open l)(call_id := None),
            tl_calls := (tl_calls l)[i := (t, c, if is_error then ''failed'' else ''ok'')]\<rparr>))"
| "log_record _ l = l"

definition call_name :: "string \<times> string \<times> string \<Rightarrow> string" where
  "call_name x = (case x of (tool, caption, state) \<Rightarrow>
     (let n = (if caption \<noteq> [] then tool @ '' ('' @ caption @ '')'' else tool) in
      if state = ''failed'' then n @ '', failed'' else n))"

definition cut_short_note :: "agent_error \<Rightarrow> turn_log \<Rightarrow> string" where
  "cut_short_note e l =
     (let why = (case e of AgentStalled _ \<Rightarrow> ''the model stopped responding'' | _ \<Rightarrow> ''it ran past its time limit'');
          done_calls = map call_name (filter (\<lambda>(_, _, st). st \<noteq> ''running'') (tl_calls l));
          running = map call_name (filter (\<lambda>(_, _, st). st = ''running'') (tl_calls l)) in
      join '' ''
        ([''The turn before this one was stopped by the engine: '' @ why @ ''.'']
         @ (if tl_calls l = [] then [''It had called no tool.''] else [])
         @ (if done_calls = [] then [] else [''Tool calls that finished, whose results you saw: '' @ join '', '' done_calls @ ''.''])
         @ (if running = [] then []
            else [''Still running when it was stopped, so you never saw a result: '' @ join '', '' running
                  @ ''. Such a call may have taken effect anyway '' @ [CHR 0x97] @ '' check before doing it again.''])))"

definition STOPPED_NOTE :: string where
  "STOPPED_NOTE = ''The turn before this one was stopped by the person before it finished. What it did up to then stands; what it was about to do did not happen.''"

section \<open>What several people may do together\<close>

record entitlement =
  en_tools :: "string list option"
  en_instructions :: string
  en_deferred :: "string list option"

definition shared_entitlement :: "entitlement list \<Rightarrow> entitlement" where
  "shared_entitlement es =
     \<lparr>en_tools = (case List.map_filter en_tools es of [] \<Rightarrow> None
         | first # others \<Rightarrow> Some (filter (\<lambda>t. \<forall>r \<in> set others. t \<in> set r) (dedup first))),
      en_instructions = (if es \<noteq> [] \<and> (\<forall>e \<in> set es. en_instructions e = en_instructions (hd es)) then en_instructions (hd es) else []),
      en_deferred = (if \<exists>e \<in> set es. en_deferred e \<noteq> None \<and> en_deferred e \<noteq> Some []
         then Some (dedup (concat (List.map_filter en_deferred es))) else None)\<rparr>"

text \<open>A dictionary made of the messages from the newest: its keys in that order, each with the oldest message.\<close>

definition first_by_author :: "incoming list \<Rightarrow> incoming list" where
  "first_by_author msgs =
     map (\<lambda>u. last (filter (\<lambda>m. im_user_id m = u) (rev msgs))) (dedup (map im_user_id (rev msgs)))"

definition turn_entitlement :: "(incoming \<Rightarrow> entitlement) \<Rightarrow> incoming list \<Rightarrow> entitlement" where
  "turn_entitlement asked msgs =
     (case map asked (first_by_author msgs) of [a] \<Rightarrow> a | answers \<Rightarrow> shared_entitlement answers)"

section \<open>Opening a turn\<close>

record refused =
  rf_text :: string
  rf_link :: string
  rf_label :: string
  rf_code :: string

datatype said =
    Reply conversation_ref string int
  | Notice conversation_ref string string
  | Privately conversation_ref string refused
  | Reacts conversation_ref bool
  | Busy conversation_ref bool

text \<open>\<open>fc_private\<close> says to whom the client can speak alone, \<open>fc_view\<close> that the platform has a view of the
  conversation, \<open>fc_control\<close> that the runtime can be asked and told; \<open>fc_adopt\<close> is the keeper of files.\<close>

record flow_config =
  fc_agent :: string
  fc_key :: "incoming \<Rightarrow> string"
  fc_admit :: "incoming \<Rightarrow> refused option"
  fc_private :: "string \<Rightarrow> bool"
  fc_view :: bool
  fc_control :: bool
  fc_adopt :: "string \<Rightarrow> attachment \<Rightarrow> attachment"
  fc_posting_tools :: "string list"
  fc_flag_notices :: "(string \<times> string) list"

definition admit_by_gateway :: "(string \<rightharpoonup> (incoming \<Rightarrow> refused option)) \<Rightarrow> incoming \<Rightarrow> refused option" where
  "admit_by_gateway rules m = (case rules (im_gateway m) of None \<Rightarrow> None | Some rule \<Rightarrow> rule m)"

record agent_result =
  ar_text :: string
  ar_tool_calls :: "string list"
  ar_truncated :: bool

record turn_facts =
  tf_session :: string
  tf_stopped :: bool

record flow =
  fl_next :: nat
  fl_facts :: "nat \<rightharpoonup> turn_facts"
  fl_active :: "string \<rightharpoonup> nat"
  fl_active_at :: "(string \<times> string) \<rightharpoonup> nat"

record turn_in_flight =
  ot_facts :: nat
  ot_key :: string
  ot_fresh :: "incoming list"
  ot_record :: session_record
  ot_created :: bool
  ot_addresses :: "(string \<times> string) list"

abbreviation ot_anchor :: "turn_in_flight \<Rightarrow> incoming" where "ot_anchor t \<equiv> last (ot_fresh t)"

text \<open>The messages not seen before, marked as seen.\<close>

fun fresh_of :: "string \<Rightarrow> stamp \<Rightarrow> incoming list \<Rightarrow> session_db \<Rightarrow> session_db \<times> incoming list" where
  "fresh_of agent now [] d = (d, [])"
| "fresh_of agent now (m # ms) d =
     (case mark_processed agent (r_message_id (im_ref m)) now d of (d1, new) \<Rightarrow>
      (case fresh_of agent now ms d1 of (d2, fresh) \<Rightarrow> (d2, if new then m # fresh else fresh)))"

definition direct :: "incoming \<Rightarrow> bool" where
  "direct m \<longleftrightarrow> im_is_dm m \<or> im_kind m = ''dm''"

definition adopt_all :: "(string \<Rightarrow> attachment \<Rightarrow> attachment) \<Rightarrow> string \<Rightarrow> incoming \<Rightarrow> incoming" where
  "adopt_all adopting key m = m\<lparr>im_attachments := map (adopting key) (im_attachments m)\<rparr>"

text \<open>How the conversation is addressed on the gateway of the message, when that changed.\<close>

definition keep_address :: "string \<Rightarrow> string \<Rightarrow> incoming \<Rightarrow> session_record \<Rightarrow> session_db \<Rightarrow> session_db \<times> session_record" where
  "keep_address agent key anchor r d =
     (if im_gateway anchor = [] then (d, r)
      else
        let prior = map_of (gateway_addresses r) (im_gateway anchor);
            address = \<lparr>ga_channel_id = r_channel_id (im_ref anchor), ga_conversation_id = r_conversation_id (im_ref anchor),
              ga_kind = im_kind anchor,
              ga_direct = (case prior of Some p \<Rightarrow> if im_synthetic anchor then ga_direct p else direct anchor | None \<Rightarrow> direct anchor)\<rparr> in
        if prior = Some address then (d, r)
        else (set_gateway_address agent key (im_gateway anchor) address d,
              r\<lparr>se_gateways := with_gateway_address r (im_gateway anchor) address\<rparr>))"

definition newest_by_author :: "incoming list \<Rightarrow> incoming list" where
  "newest_by_author msgs = map (\<lambda>u. last (filter (\<lambda>m. im_user_id m = u) msgs)) (dedup (map im_user_id msgs))"

definition tell_not_admitted :: "flow_config \<Rightarrow> incoming \<Rightarrow> refused \<Rightarrow> said" where
  "tell_not_admitted cfg m v =
     (if im_user_id m \<noteq> [] \<and> fc_private cfg (im_user_id m) then Privately (im_ref m) (im_user_id m) v
      else Notice (im_ref m) (rf_text v) (rf_code v))"

definition refusals :: "flow_config \<Rightarrow> incoming list \<Rightarrow> (incoming \<times> refused) list" where
  "refusals cfg msgs = List.map_filter (\<lambda>m. map_option (Pair m) (fc_admit cfg m)) (newest_by_author msgs)"

definition turn_names :: "incoming \<Rightarrow> (string \<times> string) list" where
  "turn_names anchor =
     map (Pair (im_gateway anchor)) (filter (\<lambda>n. n \<noteq> [])
       ([r_conversation_id (im_ref anchor), r_thread_root_id (im_ref anchor), r_message_id (im_ref anchor)]
        @ (if direct anchor then [r_channel_id (im_ref anchor)] else [])))"

datatype opened = Over turn_outcome string | Opens turn_in_flight

definition open_turn :: "flow_config \<Rightarrow> (string \<Rightarrow> string) \<Rightarrow> stamp \<Rightarrow> incoming list \<Rightarrow> session_db \<times> flow
    \<Rightarrow> sql_error + ((session_db \<times> flow) \<times> said list \<times> opened)" where
  "open_turn cfg digest now msgs s =
     (case s of (d, fl) \<Rightarrow>
      case fresh_of (fc_agent cfg) now msgs d of (d1, seen) \<Rightarrow>
      if seen = [] then Inr ((d1, fl), [], Over DUPLICATE [])
      else
        let key = fc_key cfg (last seen); fresh = map (adopt_all (fc_adopt cfg) key) seen; anchor = last fresh in
        case get_or_create digest (fc_agent cfg) (r_channel_id (im_ref anchor)) key (im_kind anchor) (im_user_id anchor)
               (im_gateway anchor) now d1 of
          Inl e \<Rightarrow> Inl e
        | Inr (d2, r, created) \<Rightarrow>
            (case keep_address (fc_agent cfg) key anchor r d2 of (d3, r3) \<Rightarrow>
             case refusals cfg fresh of
               (m, v) # others \<Rightarrow>
                 Inr ((d3, fl), map (\<lambda>(m, v). tell_not_admitted cfg m v) ((m, v) # others), Over NOT_ADMITTED (rf_code v))
             | [] \<Rightarrow>
                 let i = fl_next fl; names = turn_names anchor in
                 Inr ((d3, fl\<lparr>fl_next := i + 1, fl_facts := (fl_facts fl)(i \<mapsto> \<lparr>tf_session = se_runtime_session_id r3, tf_stopped = False\<rparr>),
                    fl_active := (fl_active fl)(key \<mapsto> i),
                    fl_active_at := (\<lambda>a. if a \<in> set names \<and> fl_active_at fl a = None then Some i else fl_active_at fl a)\<rparr>), [],
                   Opens \<lparr>ot_facts = i, ot_key = key, ot_fresh = fresh, ot_record = r3, ot_created = created, ot_addresses = names\<rparr>)))"

section \<open>Running it\<close>

text \<open>
  \<open>has_memory\<close> and \<open>memory_at\<close> are what the runtime says of its memory.  The note about the turn before is
  taken off the row that the anchor's own id names.
\<close>

definition prepare_turn :: "flow_config \<Rightarrow> written_in \<Rightarrow> bool \<Rightarrow> stamp option \<Rightarrow> turn_in_flight \<Rightarrow> session_db
    \<Rightarrow> session_db \<times> string \<times> said list" where
  "prepare_turn cfg w has_memory memory_at t d =
     (let anchor = ot_anchor t; r = ot_record t;
          first_turn = (ot_created t \<or> fc_control cfg \<and> \<not> has_memory);
          since = (if first_turn then None else Some (se_last_active r));
          known = (if fc_control cfg \<and> \<not> first_turn then memory_at else None);
          stale = (case (since, known) of (Some a, Some b) \<Rightarrow> b < a | _ \<Rightarrow> False);
          prompt = render_prompt w (ot_fresh t) first_turn (if stale then known else since) (se_cut_short r) (if stale then known else None);
          d1 = (if se_cut_short r = [] then d else set_cut_short (fc_agent cfg) (r_conversation_id (im_ref anchor)) [] d) in
      (d1, prompt, (if im_synthetic anchor then [] else [Reacts (im_ref anchor) True])
                     @ (if fc_view cfg then [Busy (im_ref anchor) True] else [])))"

definition put_down :: "flow_config \<Rightarrow> incoming \<Rightarrow> said list" where
  "put_down cfg anchor = (if im_synthetic anchor then [] else [Reacts (im_ref anchor) False])
     @ (if fc_view cfg then [Busy (im_ref anchor) False] else [])"

definition end_stopped :: "flow_config \<Rightarrow> incoming \<Rightarrow> string \<Rightarrow> session_db \<Rightarrow> session_db \<times> said list" where
  "end_stopped cfg anchor words d =
     (set_cut_short (fc_agent cfg) (r_conversation_id (im_ref anchor)) STOPPED_NOTE d,
      (if words = [] then [] else [Reply (im_ref anchor) words 0]) @ [Notice (im_ref anchor) [] NOTICE_STOPPED])"

definition deepest :: "incoming list \<Rightarrow> int" where
  "deepest msgs = Max (im_hop_depth ` set msgs)"

text \<open>The notice's sentence is left out: its code is what tells.\<close>

definition end_answered :: "flow_config \<Rightarrow> turn_in_flight \<Rightarrow> agent_result \<Rightarrow> said list \<times> turn_outcome \<times> string" where
  "end_answered cfg t res =
     (let anchor = ot_anchor t; ref = im_ref anchor in
      if ar_text res \<noteq> [] then
        (if ar_truncated res
         then ([Reply ref (ar_text res) (deepest (ot_fresh t) + 1), Notice ref [] NOTICE_TRUNCATED], TRUNCATED, NOTICE_TRUNCATED)
         else ([Reply ref (ar_text res) (deepest (ot_fresh t) + 1)], REPLIED, []))
      else if ar_truncated res then ([Notice ref [] NOTICE_TRUNCATED], TRUNCATED, NOTICE_TRUNCATED)
      else if \<exists>c \<in> set (ar_tool_calls res). c \<in> set (fc_posting_tools cfg) then ([], ACTED, [])
      else ([Notice ref [] NOTICE_EMPTY_ANSWER], EMPTY, NOTICE_EMPTY_ANSWER))"

text \<open>\<open>stopped\<close> is what the turn's facts say when its end is dealt with.\<close>

definition end_of_turn :: "flow_config \<Rightarrow> stamp \<Rightarrow> turn_in_flight \<Rightarrow> bool \<Rightarrow> turn_log \<Rightarrow> agent_error + agent_result \<Rightarrow> session_db
    \<Rightarrow> session_db \<times> said list \<times> turn_outcome \<times> string" where
  "end_of_turn cfg now t stopped log how d =
     (let anchor = ot_anchor t; ref = im_ref anchor; agent = fc_agent cfg in
      case how of
        Inl (AgentBusy why) \<Rightarrow> (d, Notice ref [] ''busy'' # put_down cfg anchor, TIMEOUT, ''busy'')
      | Inl e \<Rightarrow>
          if stopped then (case end_stopped cfg anchor [] d of (d1, ps) \<Rightarrow> (d1, ps @ put_down cfg anchor, STOPPED, NOTICE_STOPPED))
          else if is_timeout e
          then (set_cut_short agent (r_conversation_id ref) (cut_short_note e log) d,
                Notice ref [] (error_notice e) # put_down cfg anchor, TIMEOUT, error_notice e)
          else (d, Notice ref [] (error_notice e) # put_down cfg anchor, ERROR, error_notice e)
      | Inr res \<Rightarrow>
          let d1 = touch_session agent (se_conversation_id (ot_record t)) [] (im_engine_started anchor) now d in
          if stopped then (case end_stopped cfg anchor (ar_text res) d1 of (d2, ps) \<Rightarrow> (d2, put_down cfg anchor @ ps, STOPPED, NOTICE_STOPPED))
          else (case end_answered cfg t res of (ps, outcome, code) \<Rightarrow> (d1, put_down cfg anchor @ ps, outcome, code)))"

definition close_turn :: "flow_config \<Rightarrow> turn_in_flight \<Rightarrow> flow \<Rightarrow> flow \<times> said list" where
  "close_turn cfg t fl =
     (fl\<lparr>fl_active := (fl_active fl)(ot_key t := None),
         fl_active_at := (\<lambda>a. if a \<in> set (ot_addresses t) \<and> fl_active_at fl a = Some (ot_facts t) then None else fl_active_at fl a)\<rparr>,
      (case im_turn (ot_anchor t) of None \<Rightarrow> []
       | Some scope \<Rightarrow> map (\<lambda>flag. Notice (im_ref (ot_anchor t))
           (case map_of (fc_flag_notices cfg) flag of Some words \<Rightarrow> words | None \<Rightarrow> flag) flag) (sorted_list_of_fset (ts_flags scope))))"

section \<open>Stopping it\<close>

definition find_turn :: "string \<Rightarrow> string \<Rightarrow> flow \<Rightarrow> nat option" where
  "find_turn conv gateway fl =
     (case fl_active fl conv of Some i \<Rightarrow> Some i
      | None \<Rightarrow> if gateway \<noteq> [] then fl_active_at fl (gateway, conv) else None)"

text \<open>The turn whose session the runtime is told to interrupt, and what is noted once it has answered.\<close>

definition stop_asked :: "flow_config \<Rightarrow> string \<Rightarrow> string \<Rightarrow> flow \<Rightarrow> nat option" where
  "stop_asked cfg conv gateway fl =
     (case find_turn conv gateway fl of None \<Rightarrow> None
      | Some i \<Rightarrow> if \<not> fc_control cfg \<or> map_option tf_session (fl_facts fl i) \<in> {None, Some []} then None else Some i)"

definition stop_told :: "nat \<Rightarrow> bool \<Rightarrow> flow \<Rightarrow> flow \<times> bool" where
  "stop_told i cancelled fl =
     (fl\<lparr>fl_facts := (fl_facts fl)(i := map_option (\<lambda>f. f\<lparr>tf_stopped := cancelled\<rparr>) (fl_facts fl i))\<rparr>, cancelled)"

end
