(* ===== verification/AgentFlowProps.thy ===== *)
theory AgentFlowProps
  imports ToolGateProps AgentFlow
begin

text \<open>
  What a turn owes the people in it: that every end is told once, that a turn somebody stopped ends as
  stopped, that a stop finds the turn it means and no other, and that several people together may do only
  what each of them may.
\<close>

section \<open>Every end is told\<close>

fun is_notice :: "said \<Rightarrow> bool" where
  "is_notice (Notice ref words code) = True" | "is_notice _ = False"

fun is_reply :: "said \<Rightarrow> bool" where
  "is_reply (Reply ref words hop) = True" | "is_reply _ = False"

definition notices_of :: "said list \<Rightarrow> said list" where "notices_of ps = filter is_notice ps"
definition replies_of :: "said list \<Rightarrow> said list" where "replies_of ps = filter is_reply ps"

lemma put_down_quiet [simp]: "notices_of (put_down cfg a) = []" "replies_of (put_down cfg a) = []"
  by (simp_all add: put_down_def notices_of_def replies_of_def)

lemma of_append [simp]:
  "notices_of (ps @ qs) = notices_of ps @ notices_of qs" "replies_of (ps @ qs) = replies_of ps @ replies_of qs"
  "notices_of (p # ps) = (if is_notice p then p # notices_of ps else notices_of ps)"
  "replies_of (p # ps) = (if is_reply p then p # replies_of ps else replies_of ps)"
  "notices_of [] = []" "replies_of [] = []"
  by (simp_all add: notices_of_def replies_of_def)

lemma engine_notices [simp]: "''busy'' \<in> TURN_END_NOTICES" "NOTICE_STOPPED \<in> TURN_END_NOTICES" "NOTICE_TRUNCATED \<in> TURN_END_NOTICES"
  "NOTICE_EMPTY_ANSWER \<in> TURN_END_NOTICES"
  by (simp_all add: TURN_END_NOTICES_def)

lemma notice_ends [simp]: "error_notice e \<in> TURN_END_NOTICES"
  by (cases e) (simp_all add: error_notice_def TURN_END_NOTICES_def Let_def)

fun told_end :: "turn_outcome \<Rightarrow> bool" where
  "told_end REPLIED = False" | "told_end ACTED = False" | "told_end _ = True"

lemma answered_told:
  assumes "end_answered cfg t res = (ps, outcome, code)"
  shows "if told_end outcome then notices_of ps = [Notice (im_ref (ot_anchor t)) [] code] \<and> code \<in> TURN_END_NOTICES
     else notices_of ps = [] \<and> code = []"
    and "outcome \<in> {REPLIED, ACTED, EMPTY, TRUNCATED}"
    and "if ar_text res = [] then replies_of ps = [] \<and> outcome \<noteq> REPLIED
       else \<exists>hop. replies_of ps = [Reply (im_ref (ot_anchor t)) (ar_text res) hop]"
  using assms by (auto simp: end_answered_def Let_def split: if_split_asm)

text \<open>C23. Every end of a turn is told, once, where the turn answers: a turn that replied posted exactly its text,
  one in which a posting tool spoke posted nothing more, and any other ended with one notice, whose code is
  the one the turn is reported with and is one of the engine's own; text is posted only as the model gave it.\<close>

theorem every_end_is_told_once:
  assumes "end_of_turn cfg now t stopped log how d = (d', ps, outcome, code)"
  shows "(if told_end outcome then notices_of ps = [Notice (im_ref (ot_anchor t)) [] code] \<and> code \<in> TURN_END_NOTICES
          else notices_of ps = [] \<and> code = [])
    \<and> (case how of Inl e \<Rightarrow> replies_of ps = [] \<and> outcome \<in> {TIMEOUT, ERROR, STOPPED}
       | Inr res \<Rightarrow> outcome \<in> {REPLIED, ACTED, EMPTY, TRUNCATED, STOPPED}
           \<and> (if ar_text res = [] then replies_of ps = [] \<and> outcome \<noteq> REPLIED
              else \<exists>hop. replies_of ps = [Reply (im_ref (ot_anchor t)) (ar_text res) hop]))"
proof (cases how)
  case (Inl e)
  show ?thesis
  proof (cases e)
    case (AgentBusy why)
    then show ?thesis using assms unfolding Inl by (auto simp: end_of_turn_def Let_def)
  qed (use assms in \<open>auto simp: Inl end_of_turn_def end_stopped_def Let_def split: if_splits\<close>)
next
  case (Inr res)
  show ?thesis
  proof (cases stopped)
    case True
    then have "outcome = STOPPED" "code = NOTICE_STOPPED"
      and "ps = put_down cfg (ot_anchor t) @ (if ar_text res = [] then [] else [Reply (im_ref (ot_anchor t)) (ar_text res) 0])
          @ [Notice (im_ref (ot_anchor t)) [] NOTICE_STOPPED]"
      using assms by (simp_all add: Inr end_of_turn_def end_stopped_def Let_def)
    then show ?thesis by (simp add: Inr)
  next
    case False
    obtain qs where e: "end_answered cfg t res = (qs, outcome, code)" and ps: "ps = put_down cfg (ot_anchor t) @ qs"
      using assms False by (auto simp: Inr end_of_turn_def Let_def split: prod.splits)
    show ?thesis unfolding Inr ps using answered_told [OF e] by (cases outcome) (simp_all split: if_splits)
  qed
qed

lemma cut_short_noted: "s \<in> set (sessions (set_cut_short a c n e)) \<Longrightarrow> of_conversation a c s \<Longrightarrow> se_cut_short s = n"
proof -
  assume "s \<in> set (sessions (set_cut_short a c n e))" and c: "of_conversation a c s"
  then obtain r where "s = (if of_conversation a c r then r\<lparr>se_cut_short := n\<rparr> else r)"
    using in_upd_where by (fastforce simp: set_cut_short_def)
  then show "se_cut_short s = n" using c by (cases "of_conversation a c r") simp_all
qed

text \<open>A turn somebody stopped ends as stopped, however the runtime words its end: what it had said is posted,
  then the notice, and the conversation its message names has a note that it did not finish.  (Where the
  engine was full nothing ran and that is said instead.)\<close>

lemma a_stopped_turn_ends_stopped:
  assumes "\<forall>why. how \<noteq> Inl (AgentBusy why)"
    and "end_of_turn cfg now t True log how d = (d', ps, outcome, code)"
  shows "outcome = STOPPED \<and> code = NOTICE_STOPPED
    \<and> (\<forall>s \<in> set (sessions d'). of_conversation (fc_agent cfg) (r_conversation_id (im_ref (ot_anchor t))) s \<longrightarrow> se_cut_short s = STOPPED_NOTE)"
proof -
  have "outcome = STOPPED \<and> code = NOTICE_STOPPED
    \<and> (\<exists>e. d' = set_cut_short (fc_agent cfg) (r_conversation_id (im_ref (ot_anchor t))) STOPPED_NOTE e)"
  proof (cases how)
    case (Inl e)
    then have "\<not> (\<exists>why. e = AgentBusy why)" using assms(1) by blast
    then have "end_of_turn cfg now t True log how d = (fst (end_stopped cfg (ot_anchor t) [] d),
        snd (end_stopped cfg (ot_anchor t) [] d) @ put_down cfg (ot_anchor t), STOPPED, NOTICE_STOPPED)"
      unfolding Inl by (cases e) (simp_all add: end_of_turn_def Let_def split_beta)
    then show ?thesis using assms(2) by (auto simp: end_stopped_def)
  next
    case (Inr res)
    then show ?thesis using assms(2) by (auto simp: end_of_turn_def end_stopped_def Let_def)
  qed
  then show ?thesis using cut_short_noted by metis
qed

section \<open>Turns in flight\<close>

text \<open>
  The turns of one flow: opened by messages (one at a time per conversation, as the coalescer hands them
  over), stopped, closed.
\<close>

record flights =
  ff_flow :: flow
  ff_open :: "nat \<rightharpoonup> turn_in_flight"

inductive flight_step :: "flow_config \<Rightarrow> flights \<Rightarrow> flights \<Rightarrow> bool" for cfg where
  opens: "open_turn cfg digest now msgs (d, ff_flow s) = Inr ((d', fl'), ps, Opens t) \<Longrightarrow> fl_active (ff_flow s) (ot_key t) = None
    \<Longrightarrow> flight_step cfg s (s\<lparr>ff_flow := fl', ff_open := (ff_open s)(ot_facts t \<mapsto> t)\<rparr>)"
| stops: "stop_asked cfg conv gateway earlier = Some i
    \<Longrightarrow> flight_step cfg s (s\<lparr>ff_flow := fst (stop_told i cancelled (ff_flow s))\<rparr>)"
| closes: "ff_open s i = Some t \<Longrightarrow> flight_step cfg s (s\<lparr>ff_flow := fst (close_turn cfg t (ff_flow s)), ff_open := (ff_open s)(i := None)\<rparr>)"

definition on_ground :: "flights \<Rightarrow> bool" where
  "on_ground s \<longleftrightarrow> s = \<lparr>ff_flow = \<lparr>fl_next = 0, fl_facts = Map.empty, fl_active = Map.empty, fl_active_at = Map.empty\<rparr>, ff_open = Map.empty\<rparr>"

definition flights_ok :: "flights \<Rightarrow> bool" where
  "flights_ok s \<longleftrightarrow>
     (\<forall>i t. ff_open s i = Some t \<longrightarrow> ot_facts t = i \<and> i < fl_next (ff_flow s) \<and> fl_active (ff_flow s) (ot_key t) = Some i
        \<and> map_option tf_session (fl_facts (ff_flow s) i) = Some (se_runtime_session_id (ot_record t)))
     \<and> (\<forall>k i. fl_active (ff_flow s) k = Some i \<longrightarrow> (\<exists>t. ff_open s i = Some t \<and> ot_key t = k))
     \<and> (\<forall>a i. fl_active_at (ff_flow s) a = Some i \<longrightarrow> (\<exists>t. ff_open s i = Some t \<and> a \<in> set (ot_addresses t)))"

lemma flights_okD:
  assumes "flights_ok s"
  shows "ff_open s i = Some t \<Longrightarrow> ot_facts t = i \<and> i < fl_next (ff_flow s) \<and> fl_active (ff_flow s) (ot_key t) = Some i
        \<and> map_option tf_session (fl_facts (ff_flow s) i) = Some (se_runtime_session_id (ot_record t))"
    and "fl_active (ff_flow s) k = Some i \<Longrightarrow> \<exists>t. ff_open s i = Some t \<and> ot_key t = k"
    and "fl_active_at (ff_flow s) a = Some i \<Longrightarrow> \<exists>t. ff_open s i = Some t \<and> a \<in> set (ot_addresses t)"
  using assms unfolding flights_ok_def by blast+

lemma open_turn_opens:
  assumes "open_turn cfg digest now msgs (d, fl) = Inr ((d', fl'), ps, Opens t)"
  shows "ot_facts t = fl_next fl" and "fl_next fl' = fl_next fl + 1"
    and "fl_facts fl' = (fl_facts fl)(fl_next fl \<mapsto> \<lparr>tf_session = se_runtime_session_id (ot_record t), tf_stopped = False\<rparr>)"
    and "fl_active fl' = (fl_active fl)(ot_key t \<mapsto> fl_next fl)"
    and "fl_active_at fl' = (\<lambda>a. if a \<in> set (ot_addresses t) \<and> fl_active_at fl a = None then Some (fl_next fl) else fl_active_at fl a)"
    and "ps = []" and "ot_addresses t = turn_names (ot_anchor t)" and "ot_key t = fc_key cfg (last (snd (fresh_of (fc_agent cfg) now msgs d)))"
    and "refusals cfg (ot_fresh t) = []"
  using assms
  by (auto simp: open_turn_def Let_def split: prod.splits if_splits sum.splits list.splits)

lemma flight_step_ok: "flights_ok s \<Longrightarrow> flight_step cfg s s' \<Longrightarrow> flights_ok s'"
proof (erule flight_step.cases)
  fix digest now msgs d sa d' fl' ps t
  assume ok: "flights_ok s" and s: "s = sa" "s' = sa\<lparr>ff_flow := fl', ff_open := (ff_open sa)(ot_facts t \<mapsto> t)\<rparr>"
    and o: "open_turn cfg digest now msgs (d, ff_flow sa) = Inr ((d', fl'), ps, Opens t)" and free: "fl_active (ff_flow sa) (ot_key t) = None"
  note f = open_turn_opens [OF o]
  have fresh: "ff_open sa (fl_next (ff_flow sa)) = None" using flights_okD(1) [OF ok] s by (metis less_irrefl not_None_eq)
  show "flights_ok s'" unfolding flights_ok_def s(2)
  proof (intro conjI allI impI)
    fix i u assume "ff_open (sa\<lparr>ff_flow := fl', ff_open := (ff_open sa)(ot_facts t \<mapsto> t)\<rparr>) i = Some u"
    then show "ot_facts u = i" and "i < fl_next (ff_flow (sa\<lparr>ff_flow := fl', ff_open := (ff_open sa)(ot_facts t \<mapsto> t)\<rparr>))"
      and "fl_active (ff_flow (sa\<lparr>ff_flow := fl', ff_open := (ff_open sa)(ot_facts t \<mapsto> t)\<rparr>)) (ot_key u) = Some i"
      and "map_option tf_session (fl_facts (ff_flow (sa\<lparr>ff_flow := fl', ff_open := (ff_open sa)(ot_facts t \<mapsto> t)\<rparr>)) i)
        = Some (se_runtime_session_id (ot_record u))"
      using flights_okD(1) [OF ok, of i u] free fresh f s(1) by (auto split: if_splits)
  next
    fix k i assume "fl_active (ff_flow (sa\<lparr>ff_flow := fl', ff_open := (ff_open sa)(ot_facts t \<mapsto> t)\<rparr>)) k = Some i"
    then show "\<exists>u. ff_open (sa\<lparr>ff_flow := fl', ff_open := (ff_open sa)(ot_facts t \<mapsto> t)\<rparr>) i = Some u \<and> ot_key u = k"
      using flights_okD(2) [OF ok, of k i] fresh f s(1) by (auto split: if_splits)
  next
    fix a i assume "fl_active_at (ff_flow (sa\<lparr>ff_flow := fl', ff_open := (ff_open sa)(ot_facts t \<mapsto> t)\<rparr>)) a = Some i"
    then show "\<exists>u. ff_open (sa\<lparr>ff_flow := fl', ff_open := (ff_open sa)(ot_facts t \<mapsto> t)\<rparr>) i = Some u \<and> a \<in> set (ot_addresses u)"
      using flights_okD(3) [OF ok, of a i] fresh f s(1) by (auto split: if_splits)
  qed
next
  fix conv gateway earlier i sa cancelled
  assume ok: "flights_ok s" and s: "s = sa" "s' = sa\<lparr>ff_flow := fst (stop_told i cancelled (ff_flow sa))\<rparr>"
  have "map_option tf_session (fl_facts (fst (stop_told i cancelled fl)) j) = map_option tf_session (fl_facts fl j)" for fl j
    by (cases "fl_facts fl j") (auto simp: stop_told_def option.map_comp o_def)
  moreover have "fl_active (fst (stop_told i cancelled fl)) = fl_active fl" "fl_active_at (fst (stop_told i cancelled fl)) = fl_active_at fl"
    "fl_next (fst (stop_told i cancelled fl)) = fl_next fl" for fl by (simp_all add: stop_told_def)
  moreover have "ff_open s' = ff_open s" "ff_flow s' = fst (stop_told i cancelled (ff_flow s))" using s by simp_all
  ultimately show "flights_ok s'" using ok unfolding flights_ok_def by presburger
next
  fix sa i t assume ok: "flights_ok s" and s: "s = sa" "s' = sa\<lparr>ff_flow := fst (close_turn cfg t (ff_flow sa)), ff_open := (ff_open sa)(i := None)\<rparr>"
    and t: "ff_open sa i = Some t"
  have t: "ff_open s i = Some t" using s t by simp
  note k = flights_okD(1) [OF ok t]
  have o: "ff_open s' = (ff_open s)(i := None)" and a: "fl_active (ff_flow s') = (fl_active (ff_flow s))(ot_key t := None)"
    and at: "fl_active_at (ff_flow s') = (\<lambda>a. if a \<in> set (ot_addresses t) \<and> fl_active_at (ff_flow s) a = Some i then None else fl_active_at (ff_flow s) a)"
    and n: "fl_next (ff_flow s') = fl_next (ff_flow s)" "fl_facts (ff_flow s') = fl_facts (ff_flow s)"
    using k by (simp_all add: close_turn_def s(2) flip: s(1))
  show "flights_ok s'" unfolding flights_ok_def
  proof (intro conjI allI impI)
    fix j u assume "ff_open s' j = Some u"
    then have j: "j \<noteq> i" "ff_open s j = Some u" using o by (auto split: if_splits)
    note u = flights_okD(1) [OF ok j(2)]
    then have "ot_key u \<noteq> ot_key t" using k j(1) by auto
    then show "ot_facts u = j" "j < fl_next (ff_flow s')" "fl_active (ff_flow s') (ot_key u) = Some j"
      "map_option tf_session (fl_facts (ff_flow s') j) = Some (se_runtime_session_id (ot_record u))"
      using u a n by simp_all
  next
    fix k' j assume "fl_active (ff_flow s') k' = Some j"
    then have kj: "k' \<noteq> ot_key t" "fl_active (ff_flow s) k' = Some j" using a by (auto split: if_splits)
    obtain u where "ff_open s j = Some u" "ot_key u = k'" using flights_okD(2) [OF ok kj(2)] by blast
    then show "\<exists>u. ff_open s' j = Some u \<and> ot_key u = k'" using o kj(1) t by (cases "j = i") auto
  next
    fix b j assume "fl_active_at (ff_flow s') b = Some j"
    then have bj: "\<not> (b \<in> set (ot_addresses t) \<and> j = i)" "fl_active_at (ff_flow s) b = Some j" using at by (auto split: if_splits)
    obtain u where "ff_open s j = Some u" "b \<in> set (ot_addresses u)" using flights_okD(3) [OF ok bj(2)] by blast
    then show "\<exists>u. ff_open s' j = Some u \<and> b \<in> set (ot_addresses u)" using o bj(1) t by (cases "j = i") auto
  qed
qed

interpretation flights: invariant_system on_ground "flight_step cfg" flights_ok for cfg
proof
  show "on_ground s \<Longrightarrow> flights_ok s" for s by (simp add: on_ground_def flights_ok_def)
qed (rule flight_step_ok)


text \<open>C24. A stop finds the turn it means and no other: by its key it finds exactly the turn running in the
  conversation, and by a platform's name only a turn whose own message carried that name on that gateway; the session
  interrupted is that turn's.\<close>

theorem a_stop_finds_its_turn:
  assumes "reachable on_ground (flight_step cfg) s" and "fc_control cfg"
    and "\<forall>t \<in> ran (ff_open s). se_runtime_session_id (ot_record t) \<noteq> []"
  shows "(\<forall>i t gateway. ff_open s i = Some t \<longrightarrow> stop_asked cfg (ot_key t) gateway (ff_flow s) = Some i)
    \<and> (\<forall>conv gateway i. stop_asked cfg conv gateway (ff_flow s) = Some i \<longrightarrow>
        (\<exists>t. ff_open s i = Some t \<and> (ot_key t = conv \<or> (gateway, conv) \<in> set (ot_addresses t))
          \<and> map_option tf_session (fl_facts (ff_flow s) i) = Some (se_runtime_session_id (ot_record t))))"
proof -
  have ok: "flights_ok s" by (rule flights.reachable_inv [OF assms(1)])
  show ?thesis
  proof (intro conjI allI impI)
    fix i t gateway assume t: "ff_open s i = Some t"
    then have "se_runtime_session_id (ot_record t) \<noteq> []" using assms(3) by (auto simp: ran_def)
    then show "stop_asked cfg (ot_key t) gateway (ff_flow s) = Some i"
      using flights_okD(1) [OF ok t] assms(2) by (auto simp: stop_asked_def find_turn_def)
  next
    fix conv gateway i assume "stop_asked cfg conv gateway (ff_flow s) = Some i"
    then have "fl_active (ff_flow s) conv = Some i \<or> fl_active_at (ff_flow s) (gateway, conv) = Some i"
      by (auto simp: stop_asked_def find_turn_def split: option.splits if_splits)
    then obtain t where t: "ff_open s i = Some t" "ot_key t = conv \<or> (gateway, conv) \<in> set (ot_addresses t)"
      using flights_okD(2,3) [OF ok] by blast
    then show "\<exists>t. ff_open s i = Some t \<and> (ot_key t = conv \<or> (gateway, conv) \<in> set (ot_addresses t))
        \<and> map_option tf_session (fl_facts (ff_flow s) i) = Some (se_runtime_session_id (ot_record t))"
      using flights_okD(1) [OF ok t(1)] by blast
  qed
qed


section \<open>Several people in one turn\<close>

lemma map_filter_in: "y \<in> set (List.map_filter f xs) \<longleftrightarrow> (\<exists>x \<in> set xs. f x = Some y)"
  by (induction xs) (auto simp: List.map_filter_simps split: option.splits)

lemma answers_for_all:
  assumes "m \<in> set msgs"
  shows "\<exists>m' \<in> set msgs. im_user_id m' = im_user_id m \<and> asked m' \<in> set (map asked (first_by_author msgs))"
proof -
  let ?mine = "filter (\<lambda>m'. im_user_id m' = im_user_id m) (rev msgs)"
  have "?mine \<noteq> []" using assms by (auto simp: filter_empty_conv)
  then have "last ?mine \<in> set ?mine" by (rule last_in_set)
  then have "last ?mine \<in> set msgs" "im_user_id (last ?mine) = im_user_id m" by auto
  moreover have "last ?mine \<in> set (first_by_author msgs)" using assms by (auto simp: first_by_author_def)
  ultimately show ?thesis by (intro bexI [of _ "last ?mine"]) auto
qed

text \<open>A turn over several people's messages may do what each of them may and no more: each author is asked
  about with a message of theirs, a tool the turn may use is one each answer that restricts allows, with no restriction
  only when nobody is restricted, what the application says of one person is said only when it says the
  same of all, and what is deferred for one is for all.\<close>

lemma together_only_what_each_may:
  shows "(\<forall>m \<in> set msgs. \<exists>m' \<in> set msgs. im_user_id m' = im_user_id m
      \<and> (\<forall>ts. en_tools (asked m') = Some ts \<longrightarrow> (\<exists>us. en_tools (turn_entitlement asked msgs) = Some us \<and> set us \<subseteq> set ts))
      \<and> (en_instructions (turn_entitlement asked msgs) \<noteq> [] \<longrightarrow> en_instructions (asked m') = en_instructions (turn_entitlement asked msgs))
      \<and> (\<forall>ns. en_deferred (asked m') = Some ns \<longrightarrow> ns \<noteq> [] \<longrightarrow>
            (\<exists>us. en_deferred (turn_entitlement asked msgs) = Some us \<and> set ns \<subseteq> set us)))"
proof
  fix m assume "m \<in> set msgs"
  then obtain m' where m': "m' \<in> set msgs" "im_user_id m' = im_user_id m" "asked m' \<in> set (map asked (first_by_author msgs))"
    using answers_for_all by blast
  let ?as = "map asked (first_by_author msgs)"
  have shared: "(\<forall>ts. en_tools a = Some ts \<longrightarrow> (\<exists>us. en_tools (shared_entitlement as) = Some us \<and> set us \<subseteq> set ts))
      \<and> (en_instructions (shared_entitlement as) \<noteq> [] \<longrightarrow> en_instructions a = en_instructions (shared_entitlement as))
      \<and> (\<forall>ns. en_deferred a = Some ns \<longrightarrow> ns \<noteq> [] \<longrightarrow> (\<exists>us. en_deferred (shared_entitlement as) = Some us \<and> set ns \<subseteq> set us))"
    if "a \<in> set as" for a as
  proof (intro conjI allI impI)
    fix ts assume "en_tools a = Some ts"
    then have "ts \<in> set (List.map_filter en_tools as)" using that by (auto simp: map_filter_in)
    then obtain first others where f: "List.map_filter en_tools as = first # others" "ts \<in> set (first # others)"
      by (cases "List.map_filter en_tools as") auto
    show "\<exists>us. en_tools (shared_entitlement as) = Some us \<and> set us \<subseteq> set ts"
      using f(2) by (auto simp: shared_entitlement_def f(1))
  next
    assume "en_instructions (shared_entitlement as) \<noteq> []"
    moreover have "en_instructions (shared_entitlement as) =
        (if as \<noteq> [] \<and> (\<forall>e \<in> set as. en_instructions e = en_instructions (hd as)) then en_instructions (hd as) else [])"
      by (simp only: shared_entitlement_def entitlement.select_convs)
    ultimately show "en_instructions a = en_instructions (shared_entitlement as)" using that by (metis (no_types, lifting))
  next
    fix ns assume "en_deferred a = Some ns" "ns \<noteq> []"
    then have "\<exists>e \<in> set as. en_deferred e \<noteq> None \<and> en_deferred e \<noteq> Some []" using that by (intro bexI [of _ a]) simp_all
    then have "en_deferred (shared_entitlement as) = Some (dedup (concat (List.map_filter en_deferred as)))"
      by (simp only: shared_entitlement_def entitlement.select_convs if_True)
    moreover have "ns \<in> set (List.map_filter en_deferred as)" using that \<open>en_deferred a = Some ns\<close> by (simp only: map_filter_in) blast
    ultimately show "\<exists>us. en_deferred (shared_entitlement as) = Some us \<and> set ns \<subseteq> set us" by auto
  qed
  consider "turn_entitlement asked msgs = asked m'" | "turn_entitlement asked msgs = shared_entitlement ?as"
  proof (cases "\<exists>b. ?as = [b]")
    case True
    then have "length ?as = 1" by (elim exE) (simp only: list.size)
    then have b: "?as = [hd ?as]" by (cases ?as) simp_all
    then have "asked m' = hd ?as" using m'(3) by (metis empty_iff empty_set set_ConsD)
    moreover have "turn_entitlement asked msgs = hd ?as" unfolding turn_entitlement_def by (subst b) simp
    ultimately show ?thesis using that(1) by simp
  next
    case False
    then show ?thesis using that(2) by (auto simp: turn_entitlement_def split: list.splits)
  qed
  then show "\<exists>m' \<in> set msgs. im_user_id m' = im_user_id m
      \<and> (\<forall>ts. en_tools (asked m') = Some ts \<longrightarrow> (\<exists>us. en_tools (turn_entitlement asked msgs) = Some us \<and> set us \<subseteq> set ts))
      \<and> (en_instructions (turn_entitlement asked msgs) \<noteq> [] \<longrightarrow> en_instructions (asked m') = en_instructions (turn_entitlement asked msgs))
      \<and> (\<forall>ns. en_deferred (asked m') = Some ns \<longrightarrow> ns \<noteq> [] \<longrightarrow>
            (\<exists>us. en_deferred (turn_entitlement asked msgs) = Some us \<and> set ns \<subseteq> set us))"
  proof cases
    case 1
    then show ?thesis using m' by (intro bexI [of _ m']) auto
  next
    case 2
    show ?thesis using m'(1,2) shared [OF m'(3)] unfolding 2 by (intro bexI [of _ m']) blast+
  qed
qed

section \<open>What goes wrong\<close>

text \<open>
  Where the application keys conversations, the note that a turn was cut short is written to the row of the
  platform's id: the conversation's own row does not get it.
\<close>

lemma keyed_note_is_lost:
  assumes "r_conversation_id (im_ref (ot_anchor t)) \<noteq> key"
    and "end_of_turn cfg now t False log (Inl (AgentTimeout why)) d = (d', ps, outcome, code)"
  shows "outcome = TIMEOUT \<and> (\<forall>s \<in> set (sessions d'). of_conversation (fc_agent cfg) key s \<longrightarrow> s \<in> set (sessions d))"
proof -
  have "sessions d' = upd_where (of_conversation (fc_agent cfg) (r_conversation_id (im_ref (ot_anchor t))))
      (\<lambda>s. s\<lparr>se_cut_short := cut_short_note (AgentTimeout why) log\<rparr>) (sessions d)" and "outcome = TIMEOUT"
    using assms(2) by (auto simp: end_of_turn_def Let_def set_cut_short_def)
  then show ?thesis using assms(1) by (auto simp: of_conversation_def dest!: in_upd_where)
qed

text \<open>A stop whose answer is still under way when the turn's failure is dealt with: the turn ends as a failure.\<close>

lemma stop_overtaken_by_its_effect:
  assumes "end_of_turn cfg now t False log (Inl (AgentError why)) d = (d', ps, outcome, code)"
  shows "outcome = ERROR \<and> code = error_notice (AgentError why) \<and> d' = d"
  using assms by (auto simp: end_of_turn_def Let_def)

text \<open>A second stop that finds nothing left to interrupt takes back what the first noted.\<close>

lemma second_stop_takes_it_back:
  assumes "fl_facts fl i = Some f"
  shows "map_option tf_stopped (fl_facts (fst (stop_told i False (fst (stop_told i True fl)))) i) = Some False"
  using assms by (simp add: stop_told_def)

text \<open>Of two turns with a name in common the later cannot be stopped by it once the earlier is over.\<close>

lemma shared_name_is_lost:
  assumes "open_turn cfg digest now msgs (d, fl) = Inr ((d', fl'), ps, Opens t)"
    and "a \<in> set (ot_addresses t)" and "fl_active_at fl a = Some j" and "a \<in> set (ot_addresses u)" and "ot_facts u = j"
    and "fl_active fl' (snd a) = None" and "snd a \<noteq> ot_key u"
  shows "find_turn (snd a) (fst a) (fst (close_turn cfg u fl')) = None"
  using assms open_turn_opens(4,5) [OF assms(1)] by (simp add: find_turn_def close_turn_def)


section \<open>Witnesses\<close>

definition sample_flow_config :: flow_config where
  "sample_flow_config = \<lparr>fc_agent = ''helper'', fc_key = (\<lambda>m. r_conversation_id (im_ref m)), fc_admit = (\<lambda>_. None),
     fc_private = (\<lambda>_. True), fc_view = False, fc_control = True, fc_adopt = (\<lambda>_ a. a), fc_posting_tools = [''post''],
     fc_flag_notices = []\<rparr>"

definition sample_open_turn :: turn_in_flight where
  "sample_open_turn = \<lparr>ot_facts = 0, ot_key = ''c'', ot_fresh = [posing], ot_record = sample_session, ot_created = True,
     ot_addresses = turn_names posing\<rparr>"

lemma every_end_is_told_once_witness:
  "notices_of (fst (snd (end_of_turn sample_flow_config 1 sample_open_turn False empty_log (Inl (AgentStalled ''x'')) no_sessions)))
     = [Notice (im_ref posing) [] ''stalled'']"
proof -
  have code: "error_notice (AgentStalled ''x'') = ''stalled''" by code_simp
  obtain d' ps where e: "end_of_turn sample_flow_config 1 sample_open_turn False empty_log (Inl (AgentStalled ''x'')) no_sessions
      = (d', ps, TIMEOUT, ''stalled'')"
    using code by (simp add: end_of_turn_def sample_open_turn_def Let_def)
  show ?thesis using every_end_is_told_once [OF e] unfolding e by (simp add: sample_open_turn_def)
qed

lemma a_stopped_turn_ends_stopped_witness:
  "fst (snd (snd (end_of_turn sample_flow_config 1 sample_open_turn True empty_log (Inl (AgentError ''aborted'')) no_sessions))) = STOPPED"
proof -
  obtain d' ps outcome code where e: "end_of_turn sample_flow_config 1 sample_open_turn True empty_log (Inl (AgentError ''aborted'')) no_sessions
      = (d', ps, outcome, code)" by (metis surj_pair)
  show ?thesis using a_stopped_turn_ends_stopped [OF _ e] unfolding e by simp
qed

definition sample_opening :: "sql_error + ((session_db \<times> flow) \<times> said list \<times> opened)" where
  "sample_opening = open_turn sample_flow_config (\<lambda>_. replicate 64 (CHR ''0'')) 1 [posing]
     (no_sessions, \<lparr>fl_next = 0, fl_facts = Map.empty, fl_active = Map.empty, fl_active_at = Map.empty\<rparr>)"

lemma sample_opening_opens:
  "case sample_opening of Inr ((d, fl), ps, Opens t) \<Rightarrow> se_runtime_session_id (ot_record t) \<noteq> [] \<and> ot_key t = ''c'' \<and> ot_facts t = 0
   | _ \<Rightarrow> False"
  by code_simp

lemma a_stop_finds_its_turn_witness:
  "\<exists>s t. reachable on_ground (flight_step sample_flow_config) s \<and> ff_open s 0 = Some t \<and> ot_key t = ''c''
     \<and> stop_asked sample_flow_config ''c'' ''slack'' (ff_flow s) = Some 0"
proof -
  let ?ground = "\<lparr>ff_flow = \<lparr>fl_next = 0, fl_facts = Map.empty, fl_active = Map.empty, fl_active_at = Map.empty\<rparr>, ff_open = Map.empty\<rparr>"
  obtain d fl ps t where o: "sample_opening = Inr ((d, fl), ps, Opens t)"
    and t: "se_runtime_session_id (ot_record t) \<noteq> []" "ot_key t = ''c''" "ot_facts t = 0"
    using sample_opening_opens by (auto split: sum.splits prod.splits opened.splits)
  let ?s = "?ground\<lparr>ff_flow := fl, ff_open := (ff_open ?ground)(ot_facts t \<mapsto> t)\<rparr>"
  have "reachable on_ground (flight_step sample_flow_config) ?ground" by (rule reachable.start) (simp only: on_ground_def)
  moreover have "open_turn sample_flow_config (\<lambda>_. replicate 64 (CHR ''0'')) 1 [posing] (no_sessions, ff_flow ?ground) = Inr ((d, fl), ps, Opens t)"
    using o by (simp add: sample_opening_def)
  from flight_step.opens [OF this] have "flight_step sample_flow_config ?ground ?s" by simp
  ultimately have r: "reachable on_ground (flight_step sample_flow_config) ?s" by (rule reachable.move)
  have "stop_asked sample_flow_config (ot_key t) ''slack'' (ff_flow ?s) = Some 0"
  proof -
    have "fc_control sample_flow_config" by (simp add: sample_flow_config_def)
    moreover have "\<forall>u \<in> ran (ff_open ?s). se_runtime_session_id (ot_record u) \<noteq> []" using t(1) by simp
    moreover have "ff_open ?s 0 = Some t" using t(3) by simp
    ultimately show ?thesis using a_stop_finds_its_turn [OF r] by blast
  qed
  then show ?thesis using r t by (intro exI [of _ ?s] exI [of _ t]) simp
qed

definition may_read :: "incoming \<Rightarrow> entitlement" where
  "may_read m = \<lparr>en_tools = Some [''read''], en_instructions = [], en_deferred = None\<rparr>"

lemma together_only_what_each_may_witness:
  "\<exists>us. en_tools (turn_entitlement may_read [posing]) = Some us \<and> set us \<subseteq> {''read''}"
proof -
  have "\<exists>m' \<in> set [posing]. \<forall>ts. en_tools (may_read m') = Some ts
      \<longrightarrow> (\<exists>us. en_tools (turn_entitlement may_read [posing]) = Some us \<and> set us \<subseteq> set ts)"
    using together_only_what_each_may [of "[posing]" may_read] by (meson list.set_intros(1))
  moreover have "en_tools (may_read m) = Some [''read'']" for m by (simp add: may_read_def)
  ultimately show ?thesis by auto
qed

end
