(* ===== verification/Delegations.thy ===== *)
theory Delegations
  imports Attachments AgentFlow
begin

text \<open>
  Tasks one agent hands another: \<open>packages/crucible/src/crucible/interactions/delegation.py\<close>,
  \<open>store/sqlite/delegations.py\<close>, \<open>ports/delegation.py\<close>, \<open>gateways/delegation.py\<close> and the part of the tool
  \<open>delegate\<close> of \<open>builtin_tools.py\<close> that shows the files and hands on what it showed.

  Records of a task keep their JSON fields as the lists they encode.  What a path resolves to and what is
  there, the media type guessed from a name, the digest, random ids and the asked agent's turn are arguments.
  Every part of the service that another may run in between of is a definition of its own.
\<close>

section \<open>The record of a task\<close>

datatype delegation_end = DELEGATION_ANSWERED | DELEGATION_FAILED | DELEGATION_TIMED_OUT | DELEGATION_CANCELLED
datatype delegation_status = DELEGATION_RUNNING | Ended delegation_end

record delegation_record =
  dg_id :: string
  dg_agent :: string
  dg_to :: string
  dg_channel_id :: string
  dg_conversation_id :: string
  dg_kind :: string
  dg_gateway :: string
  dg_task :: string
  dg_user_id :: string
  dg_status :: delegation_status
  dg_started_at :: stamp
  dg_files :: "(string \<times> string) list"
  dg_attributes :: "(string \<times> string) list"
  dg_finished_at :: "stamp option"
  dg_answer :: string
  dg_notice :: string
  dg_delivered_at :: "stamp option"
  dg_to_conversation_id :: string
  dg_trusted :: bool
  dg_replica :: string

definition with_id :: "string \<Rightarrow> delegation_record \<Rightarrow> bool" where
  "with_id i r \<longleftrightarrow> dg_id r = i"

definition save_delegation :: "delegation_record \<Rightarrow> delegation_record list \<Rightarrow> delegation_record list" where
  "save_delegation r rows = del_where (with_id (dg_id r)) rows @ [r]"

text \<open>\<open>UPDATE ... WHERE id = ? AND status = 'running'\<close>, and whether it hit a row.\<close>

definition end_delegation :: "delegation_record \<Rightarrow> delegation_record list \<Rightarrow> delegation_record list \<times> bool" where
  "end_delegation r rows =
     (let hit = (\<lambda>x. with_id (dg_id r) x \<and> dg_status x = DELEGATION_RUNNING) in
      (upd_where hit (\<lambda>_. r) rows, rowcount hit rows = 1))"

definition get_delegation :: "string \<Rightarrow> delegation_record list \<Rightarrow> delegation_record option" where
  "get_delegation i rows = fetchone (with_id i) rows"

definition running_delegations :: "delegation_record list \<Rightarrow> delegation_record list" where
  "running_delegations rows = sort_key (\<lambda>r. (dg_started_at r, dg_id r)) (filter (\<lambda>r. dg_status r = DELEGATION_RUNNING) rows)"

definition delegated_conversation_key :: "string \<Rightarrow> string" where
  "delegated_conversation_key task_id = ''delegated:'' @ task_id"

definition per_conversation_key :: "(string \<Rightarrow> string) \<Rightarrow> string \<Rightarrow> string \<Rightarrow> string" where
  "per_conversation_key sha asker conv =
     delegated_conversation_key (asker @ ''-'' @ take 16 (sha (asker @ [CHR 0x00] @ conv)))"

section \<open>Files handed on\<close>

record file_system =
  fs_resolve :: "string \<Rightarrow> string"
  fs_content :: "string \<Rightarrow> string option"

record trusted_agent =
  ta_secrets :: "string list"
  ta_connections :: bool
  ta_context :: string

record delegation_config =
  dc_agents :: "string list"
  dc_takes :: "string \<Rightarrow> bool"
  dc_roots :: "(string \<Rightarrow> string list) option"
  dc_saver :: attachment_config
  dc_max_file_bytes :: nat
  dc_mime :: "string \<Rightarrow> string"
  dc_per_conversation :: "string \<Rightarrow> bool"
  dc_trust :: "string \<Rightarrow> string \<Rightarrow> trusted_agent option"
  dc_sha :: "string \<Rightarrow> string"

datatype delegation_error =
    NoAgentNamed string | ThatIsYou | Unresolved | CannotTake string | StillOnATask string | FilesTurnedOff | TooManyFiles
  | OutsideDirectories string | NoSuchFile string | OverLimit string nat | FileChanged string | NotTrusted string
  | NotTakenHere string | FileNotRead string

definition MAX_FILES_PER_TASK :: nat where "MAX_FILES_PER_TASK = 5"
definition FILE_PREVIEW_MAX :: nat where "FILE_PREVIEW_MAX = 6000"
definition CONTEXT_MAX :: int where "CONTEXT_MAX = 6000"

definition relative_to :: "string \<Rightarrow> string \<Rightarrow> bool" where
  "relative_to root p \<longleftrightarrow> p = root \<or> starts_with (root @ ''/'') p"

definition checked_file :: "delegation_config \<Rightarrow> string \<Rightarrow> file_system \<Rightarrow> string list \<Rightarrow> string \<Rightarrow> delegation_error + attachment" where
  "checked_file cfg agent fs roots p =
     (let resolved = fs_resolve fs p in
      if \<not> (\<exists>root \<in> set roots. relative_to root resolved) then Inl (OutsideDirectories p)
      else case fs_content fs resolved of
        None \<Rightarrow> Inl (NoSuchFile p)
      | Some data \<Rightarrow>
          if dc_max_file_bytes cfg \<noteq> 0 \<and> length data > dc_max_file_bytes cfg then Inl (OverLimit (path_name resolved) (length data))
          else Inr \<lparr>at_name = path_name resolved, at_path = resolved, at_mime = dc_mime cfg (path_name resolved), at_size = length data\<rparr>)"

fun each_checked :: "('a \<Rightarrow> 'e + 'b) \<Rightarrow> 'a list \<Rightarrow> 'e + 'b list" where
  "each_checked f [] = Inr []"
| "each_checked f (x # xs) = (case f x of Inl e \<Rightarrow> Inl e | Inr y \<Rightarrow> (case each_checked f xs of Inl e \<Rightarrow> Inl e | Inr ys \<Rightarrow> Inr (y # ys)))"

definition sources :: "delegation_config \<Rightarrow> string \<Rightarrow> file_system \<Rightarrow> string list \<Rightarrow> delegation_error + attachment list" where
  "sources cfg agent fs paths =
     (if paths = [] then Inr []
      else case dc_roots cfg of
        None \<Rightarrow> Inl FilesTurnedOff
      | Some roots \<Rightarrow> if length paths > MAX_FILES_PER_TASK then Inl TooManyFiles
                      else each_checked (checked_file cfg agent fs (roots agent)) paths)"

text \<open>A file as the card shows it; text is what decodes and holds no NUL (\<open>decodes\<close> is UTF-8's answer).\<close>

record file_preview =
  fp_name :: string
  fp_size :: nat
  fp_text :: "string option"
  fp_truncated :: bool
  fp_digest :: string

definition preview :: "delegation_config \<Rightarrow> (string \<Rightarrow> string option) \<Rightarrow> file_system \<Rightarrow> attachment \<Rightarrow> delegation_error + file_preview" where
  "preview cfg decodes fs a =
     (case fs_content fs (at_path a) of
        None \<Rightarrow> Inl (FileNotRead (at_path a))
      | Some data \<Rightarrow>
          let digest = dc_sha cfg data; nothing = \<lparr>fp_name = at_name a, fp_size = at_size a, fp_text = None, fp_truncated = False, fp_digest = digest\<rparr> in
          case decodes data of
            None \<Rightarrow> Inr nothing
          | Some words \<Rightarrow>
              if CHR 0x00 \<in> set words then Inr nothing
              else Inr \<lparr>fp_name = at_name a, fp_size = at_size a, fp_text = Some (take FILE_PREVIEW_MAX words),
                        fp_truncated = length words > FILE_PREVIEW_MAX, fp_digest = digest\<rparr>)"

definition preview_files :: "delegation_config \<Rightarrow> (string \<Rightarrow> string option) \<Rightarrow> string \<Rightarrow> file_system \<Rightarrow> string list
    \<Rightarrow> delegation_error + file_preview list" where
  "preview_files cfg decodes agent fs paths =
     (case sources cfg agent fs paths of Inl e \<Rightarrow> Inl e | Inr as \<Rightarrow> each_checked (preview cfg decodes fs) as)"

text \<open>What the card showed, by the paths as they were given.\<close>

definition previewed :: "string list \<Rightarrow> file_preview list \<Rightarrow> string \<rightharpoonup> string" where
  "previewed paths previews = map_of (rev (zip paths (map fp_digest previews)))"

text \<open>The copies, made one after another; \<open>path_text\<close> is how the store's paths are spelled.\<close>

fun snapshot :: "delegation_config \<Rightarrow> (path \<Rightarrow> string) \<Rightarrow> (path \<Rightarrow> bool) \<Rightarrow> int \<Rightarrow> string \<Rightarrow> string \<Rightarrow> string \<Rightarrow> file_system \<Rightarrow> (string \<rightharpoonup> string)
    \<Rightarrow> nat \<Rightarrow> attachment list \<Rightarrow> attachments \<Rightarrow> attachments \<times> (delegation_error + (attachment list \<times> (string \<times> string) list))" where
  "snapshot cfg path_text stuck now to key task_id fs digests i [] s = (s, Inr ([], []))"
| "snapshot cfg path_text stuck now to key task_id fs digests i (a # as) s =
     (case fs_content fs (at_path a) of
        None \<Rightarrow> (s, Inl (FileNotRead (at_path a)))
      | Some data \<Rightarrow>
          let digest = dc_sha cfg data in
          if (case digests (at_path a) of None \<Rightarrow> False | Some d \<Rightarrow> d \<noteq> [] \<and> d \<noteq> digest) then (s, Inl (FileChanged (at_name a)))
          else case save_file (dc_saver cfg) stuck to key (at_name a) data (task_id @ ''-'' @ show_nat i) now s of
            (s1, None) \<Rightarrow> (s1, Inl (OverLimit (at_name a) (length data)))
          | (s1, Some (nm, p, n)) \<Rightarrow>
              (case snapshot cfg path_text stuck now to key task_id fs digests (i + 1) as s1 of
                 (s2, Inl e) \<Rightarrow> (s2, Inl e)
               | (s2, Inr (copies, digested)) \<Rightarrow>
                   (s2, Inr (\<lparr>at_name = at_name a, at_path = path_text p, at_mime = at_mime a, at_size = length data\<rparr> # copies,
                             (at_name a, digest) # digested))))"

section \<open>What the asked agent is given\<close>

definition dict_over :: "(string \<times> string) list \<Rightarrow> (string \<times> string) list \<Rightarrow> (string \<times> string) list" where
  "dict_over base upon = fold (\<lambda>(k, v). AList.update k v) upon base"

definition task_attributes :: "delegation_record \<Rightarrow> (string \<times> string) list" where
  "task_attributes e = [(''delegated_by'', dg_agent e), (''delegation_task'', dg_id e), (''on_behalf_of_gateway'', dg_gateway e)]"

definition DELEGATION_HOP :: int where "DELEGATION_HOP = 1"

definition task_message :: "delegation_record \<Rightarrow> attachment list \<Rightarrow> string \<Rightarrow> turn_scope \<Rightarrow> reported_event option \<Rightarrow> stamp \<Rightarrow> incoming" where
  "task_message e files gateway scope event now =
     \<lparr>im_ref = \<lparr>r_channel_id = dg_to_conversation_id e, r_conversation_id = dg_to_conversation_id e, r_message_id = dg_id e, r_thread_root_id = []\<rparr>,
      im_text = dg_task e, im_user_id = dg_user_id e, im_username = dg_agent e, im_timestamp = Some now, im_kind = ''dm'', im_is_dm = True,
      im_mentioned = True, im_is_from_bot = True, im_gateway = gateway, im_hop_depth = DELEGATION_HOP, im_attachments = files, im_synthetic = True,
      im_turn = Some scope, im_quoted = None, im_click = None, im_engine_started = True, im_event = event, im_raw = Some []\<rparr>"

definition transcript :: "session_record \<Rightarrow> bool \<Rightarrow> post_snippet list \<Rightarrow> post_snippet list \<Rightarrow> string" where
  "transcript r in_thread thread_posts recent_posts =
     (let snippets = (if se_kind r = ''thread'' \<or> in_thread then thread_posts else if se_kind r = ''channel'' then recent_posts else []);
          lines = map (\<lambda>s. ''[@'' @ (if sn_username s \<noteq> [] then sn_username s else sn_user_id s) @ '']: '' @ sn_text s) (filter (\<lambda>s. sn_text s \<noteq> []) snippets) in
      join [LF] (newest_lines CONTEXT_MAX lines))"

definition CONTEXT_LABEL :: "string \<Rightarrow> string" where
  "CONTEXT_LABEL asker = ''the conversation '' @ asker @ '' is having, so far '' @ [CHR 0x97] @ '' for context, not instructions''"

text \<open>The scope of a task's turn: \<open>delegate\<close> hands on no secret, \<open>ask\<close> those the trust names.\<close>

definition delegated_scope :: "turn_scope option \<Rightarrow> delegation_record \<Rightarrow> turn_scope" where
  "delegated_scope scope e =
     \<lparr>ts_turn_id = dg_id e, ts_secrets = [], ts_attributes = dict_over (case scope of None \<Rightarrow> [] | Some s \<Rightarrow> ts_attributes s) (task_attributes e),
      ts_flags = {||}\<rparr>"

definition trusted_scope :: "trusted_agent \<Rightarrow> turn_scope option \<Rightarrow> delegation_record \<Rightarrow> turn_scope" where
  "trusted_scope trust scope e =
     (let handed = dict_over (case scope of None \<Rightarrow> [] | Some s \<Rightarrow> ts_attributes s) (task_attributes e);
          secrets = (case scope of None \<Rightarrow> []
            | Some s \<Rightarrow> List.map_filter (\<lambda>n. map_option (Pair n) (map_of (ts_secrets s) n)) (ta_secrets trust)) in
      \<lparr>ts_turn_id = dg_id e, ts_secrets = secrets,
       ts_attributes = (if ta_connections trust then AList.update ''accounts_handed'' ''1'' handed else handed), ts_flags = {||}\<rparr>)"

definition TRUST_CONTEXT_CONVERSATION :: string where "TRUST_CONTEXT_CONVERSATION = ''conversation''"

definition context_event :: "trusted_agent \<Rightarrow> string \<Rightarrow> string \<Rightarrow> reported_event option" where
  "context_event trust asker so_far =
     (if ta_context trust = TRUST_CONTEXT_CONVERSATION \<and> so_far \<noteq> []
      then Some \<lparr>er_source = asker, er_text = so_far, er_label = CONTEXT_LABEL asker\<rparr> else None)"

definition new_entry :: "string \<Rightarrow> string \<Rightarrow> string \<Rightarrow> session_record \<Rightarrow> string \<Rightarrow> stamp \<Rightarrow> (string \<times> string) list \<Rightarrow> turn_scope option \<Rightarrow> string \<Rightarrow> bool
    \<Rightarrow> string \<Rightarrow> delegation_record" where
  "new_entry task_id agent to r task now digested scope key trusted replica =
     \<lparr>dg_id = task_id, dg_agent = agent, dg_to = to, dg_channel_id = se_channel_id r, dg_conversation_id = se_conversation_id r, dg_kind = se_kind r,
      dg_gateway = se_last_gateway r, dg_task = task, dg_user_id = se_last_user_id r, dg_status = DELEGATION_RUNNING, dg_started_at = now,
      dg_files = digested, dg_attributes = (case scope of None \<Rightarrow> [] | Some s \<Rightarrow> ts_attributes s), dg_finished_at = None, dg_answer = [], dg_notice = [],
      dg_delivered_at = None, dg_to_conversation_id = key, dg_trusted = trusted, dg_replica = replica\<rparr>"

definition task_conversation :: "delegation_config \<Rightarrow> string \<Rightarrow> string \<Rightarrow> session_record \<Rightarrow> string" where
  "task_conversation cfg to task_id asker =
     (if dc_per_conversation cfg to then per_conversation_key (dc_sha cfg) (se_agent asker) (se_conversation_id asker)
      else delegated_conversation_key task_id)"

definition resolve_asked :: "delegation_config \<Rightarrow> string \<Rightarrow> string \<Rightarrow> string \<Rightarrow> session_db \<Rightarrow> delegation_error + session_record" where
  "resolve_asked cfg agent rid to d =
     (if to \<notin> set (dc_agents cfg) then Inl (NoAgentNamed to)
      else if to = agent then Inl ThatIsYou
      else case get_by_runtime_session rid d of
        None \<Rightarrow> Inl Unresolved
      | Some r \<Rightarrow> if dc_takes cfg to then Inr r else Inl (CannotTake to))"

text \<open>\<open>delegate\<close> and \<open>ask\<close> up to the copies of the files: whom it goes to, what goes and where.\<close>

definition handed_on :: "delegation_config \<Rightarrow> string \<Rightarrow> string \<Rightarrow> string \<Rightarrow> string list \<Rightarrow> string \<Rightarrow> string set \<Rightarrow> file_system \<Rightarrow> session_db
    \<Rightarrow> delegation_error + (session_record \<times> string \<times> attachment list)" where
  "handed_on cfg agent rid to paths task_id busy fs d =
     (case resolve_asked cfg agent rid to d of Inl e \<Rightarrow> Inl e
      | Inr r \<Rightarrow> (case sources cfg agent fs paths of Inl e \<Rightarrow> Inl e
        | Inr as \<Rightarrow> let key = task_conversation cfg to task_id r in
                    if key \<in> busy then Inl (StillOnATask to) else Inr (r, key, as)))"

definition handed_on_trusted :: "delegation_config \<Rightarrow> bool \<Rightarrow> (string \<Rightarrow> string \<Rightarrow> bool) \<Rightarrow> string \<Rightarrow> string \<Rightarrow> string \<Rightarrow> string list \<Rightarrow> string \<Rightarrow> string set \<Rightarrow> file_system \<Rightarrow> session_db
    \<Rightarrow> delegation_error + (trusted_agent \<times> session_record \<times> string \<times> attachment list)" where
  "handed_on_trusted cfg available posters agent rid to paths task_id busy fs d =
     (case dc_trust cfg agent to of
        None \<Rightarrow> Inl (NotTrusted to)
      | Some trust \<Rightarrow>
          if \<not> available then Inl (NotTakenHere to)
          else case resolve_asked cfg agent rid to d of Inl e \<Rightarrow> Inl e
            | Inr r \<Rightarrow> (case sources cfg agent fs paths of Inl e \<Rightarrow> Inl e
              | Inr as \<Rightarrow> let key = task_conversation cfg to task_id r in
                          if \<not> posters agent (se_last_gateway r) then Inl Unresolved
                          else if key \<in> busy then Inl (StillOnATask to) else Inr (trust, r, key, as)))"

text \<open>\<open>forget\<close>: the agents asked from a conversation that keep it, whose memory of it goes.\<close>

definition forgotten :: "delegation_config \<Rightarrow> (string \<Rightarrow> string) \<Rightarrow> string \<Rightarrow> string \<Rightarrow> session_db \<Rightarrow> string list" where
  "forgotten cfg digest asker conv d =
     filter (\<lambda>a. dc_per_conversation cfg a
       \<and> get_by_runtime_session (derive_runtime_session_id digest a (per_conversation_key (dc_sha cfg) asker conv)) d \<noteq> None) (dc_agents cfg)"

section \<open>The chat of a task's turn\<close>

record task_chat =
  tk_replies :: "string list"
  tk_files :: "string list"
  tk_notice :: string

definition empty_task_chat :: task_chat where
  "empty_task_chat = \<lparr>tk_replies = [], tk_files = [], tk_notice = []\<rparr>"

definition ANSWER_MAX :: nat where "ANSWER_MAX = 20000"

datatype task_post = PostsReply string | PostsNotice string | PostsFiles string "string list"

fun task_posts :: "task_post \<Rightarrow> task_chat \<Rightarrow> task_chat" where
  "task_posts (PostsReply words) c = c\<lparr>tk_replies := tk_replies c @ [words]\<rparr>"
| "task_posts (PostsNotice code) c = (if code \<in> TURN_END_NOTICES \<or> tk_notice c = [] then c\<lparr>tk_notice := code\<rparr> else c)"
| "task_posts (PostsFiles words names) c =
     c\<lparr>tk_replies := (if words = [] then tk_replies c else tk_replies c @ [words]), tk_files := tk_files c @ names\<rparr>"

definition task_answer :: "task_chat \<Rightarrow> string" where
  "task_answer c = take ANSWER_MAX (join [LF, LF] (tk_replies c
     @ (if tk_files c = [] then [] else [''Files the agent produced (kept in its own conversation): '' @ join '', '' (tk_files c)])))"

text \<open>
  The trusted door's client.  A poster is one of the asker's clients, here by a number; what posting to it gives,
  and whether it raises, is its own.  \<open>update_confirmation\<close> goes on past a copy that fails, \<open>retract\<close> and
  \<open>delete_post\<close> leave the loop at it; the copies are forgotten first.
\<close>

datatype posted = PostedAs string | PostRaises

record trusted_link =
  tl_to :: string
  tl_poster :: nat
  tl_elsewhere :: "nat list"

record trusted_chat =
  tc_chat :: task_chat
  tc_posted :: "string \<rightharpoonup> (nat \<times> string) list"
  tc_waiting :: "string \<rightharpoonup> nat"

fun card_copies :: "(nat \<Rightarrow> posted) \<Rightarrow> nat list \<Rightarrow> (nat \<times> string) list" where
  "card_copies post [] = []"
| "card_copies post (p # ps) =
     (case post p of PostedAs i \<Rightarrow> (if i = [] then card_copies post ps else (p, i) # card_copies post ps) | PostRaises \<Rightarrow> card_copies post ps)"

datatype card_posted = CardNobody | CardFailed | CardPosted string

definition trusted_confirmation :: "trusted_link option \<Rightarrow> (nat \<Rightarrow> posted) \<Rightarrow> trusted_chat \<Rightarrow> trusted_chat \<times> card_posted" where
  "trusted_confirmation link post c =
     (case link of
        None \<Rightarrow> (c, CardNobody)
      | Some l \<Rightarrow>
          let where_to = tl_poster l # tl_elsewhere l in
          case card_copies post where_to of
            [] \<Rightarrow> (c, if \<exists>p \<in> set where_to. post p = PostRaises then CardFailed else CardPosted [])
          | (p, i) # rest \<Rightarrow> (c\<lparr>tc_posted := (tc_posted c)(i \<mapsto> (p, i) # rest)\<rparr>, CardPosted i))"

definition rewritten_copies :: "string \<Rightarrow> trusted_chat \<Rightarrow> (nat \<times> string) list" where
  "rewritten_copies i c = (case tc_posted c i of None \<Rightarrow> [] | Some copies \<Rightarrow> copies)"

fun until_raises :: "(nat \<Rightarrow> bool) \<Rightarrow> (nat \<times> string) list \<Rightarrow> (nat \<times> string) list" where
  "until_raises raises [] = []"
| "until_raises raises ((p, i) # rest) = (if raises p then [] else (p, i) # until_raises raises rest)"

definition take_back :: "(nat \<Rightarrow> bool) \<Rightarrow> string \<Rightarrow> trusted_chat \<Rightarrow> trusted_chat \<times> (nat \<times> string) list" where
  "take_back raises i c = (c\<lparr>tc_posted := (tc_posted c)(i := None)\<rparr>, until_raises raises (rewritten_copies i c))"

text \<open>\<open>post_notice\<close>: kept as by any task's client; a notice that is not the turn's end also goes to the person.\<close>

definition trusted_notice :: "trusted_link option \<Rightarrow> string \<Rightarrow> trusted_chat \<Rightarrow> trusted_chat \<times> nat option" where
  "trusted_notice link code c =
     (c\<lparr>tc_chat := task_posts (PostsNotice code) (tc_chat c)\<rparr>,
      if code \<in> TURN_END_NOTICES then None else map_option tl_poster link)"

text \<open>\<open>set_waiting\<close>: where the wait is shown and taken back (\<open>views\<close> says which clients can show one).\<close>

definition trusted_waiting :: "trusted_link option \<Rightarrow> (nat \<Rightarrow> bool) \<Rightarrow> string \<Rightarrow> bool \<Rightarrow> trusted_chat \<Rightarrow> trusted_chat \<times> (nat \<times> bool) option" where
  "trusted_waiting link views conv waiting c =
     (if \<not> waiting then (c\<lparr>tc_waiting := (tc_waiting c)(conv := None)\<rparr>, map_option (\<lambda>p. (p, False)) (tc_waiting c conv))
      else case link of
        Some l \<Rightarrow> if views (tl_poster l) then (c\<lparr>tc_waiting := (tc_waiting c)(conv \<mapsto> tl_poster l)\<rparr>, Some (tl_poster l, True)) else (c, None)
      | None \<Rightarrow> (c, None))"

section \<open>How a task ends\<close>

fun end_by_outcome :: "turn_outcome \<Rightarrow> delegation_end" where
  "end_by_outcome REPLIED = DELEGATION_ANSWERED" | "end_by_outcome ACTED = DELEGATION_ANSWERED" | "end_by_outcome EMPTY = DELEGATION_ANSWERED"
| "end_by_outcome TRUNCATED = DELEGATION_ANSWERED" | "end_by_outcome TIMEOUT = DELEGATION_TIMED_OUT"
| "end_by_outcome STOPPED = DELEGATION_CANCELLED" | "end_by_outcome _ = DELEGATION_FAILED"

definition ended_record :: "delegation_record \<Rightarrow> turn_outcome \<Rightarrow> task_chat \<Rightarrow> stamp \<Rightarrow> delegation_record" where
  "ended_record e outcome c now =
     e\<lparr>dg_status := Ended (end_by_outcome outcome), dg_finished_at := Some now, dg_answer := task_answer c, dg_notice := tk_notice c\<rparr>"

definition called_off :: "delegation_record \<Rightarrow> string \<Rightarrow> stamp \<Rightarrow> delegation_record" where
  "called_off e notice now = e\<lparr>dg_status := Ended DELEGATION_CANCELLED, dg_finished_at := Some now, dg_notice := (if notice = [] then dg_notice e else notice)\<rparr>"

definition lost_record :: "delegation_record \<Rightarrow> stamp \<Rightarrow> delegation_record" where
  "lost_record e now = e\<lparr>dg_status := Ended DELEGATION_FAILED, dg_finished_at := Some now, dg_notice := ''engine_restarted''\<rparr>"

text \<open>The task of an id as the conversation that handed it on may see it.\<close>

definition own_task :: "string \<Rightarrow> string \<Rightarrow> string \<Rightarrow> session_db \<Rightarrow> delegation_record list \<Rightarrow> delegation_record option" where
  "own_task agent rid task_id d rows =
     (case (get_delegation task_id rows, get_by_runtime_session rid d) of
        (Some e, Some r) \<Rightarrow> if dg_agent e = agent \<and> dg_conversation_id e = se_conversation_id r then Some e else None
      | _ \<Rightarrow> None)"

definition lost :: "string \<Rightarrow> (string \<Rightarrow> bool) option \<Rightarrow> delegation_record \<Rightarrow> bool" where
  "lost replica live e \<longleftrightarrow> dg_replica e = [] \<or> dg_replica e = replica \<or> (case live of None \<Rightarrow> True | Some f \<Rightarrow> \<not> f (dg_replica e))"

text \<open>The engine's turn that tells the asker.\<close>

record turn_request =
  tq_agent :: string
  tq_channel_id :: string
  tq_conversation_id :: string
  tq_kind :: string
  tq_text :: string
  tq_message_id :: string
  tq_user_id :: string
  tq_username :: string
  tq_event :: reported_event
  tq_scope :: turn_scope

definition verb_of :: "delegation_status \<Rightarrow> string" where
  "verb_of st = (case st of Ended DELEGATION_ANSWERED \<Rightarrow> ''finished'' | Ended DELEGATION_FAILED \<Rightarrow> ''failed at''
     | Ended DELEGATION_TIMED_OUT \<Rightarrow> ''ran out of time on'' | _ \<Rightarrow> ''ended'')"

definition status_text :: "delegation_status \<Rightarrow> string" where
  "status_text st = (case st of DELEGATION_RUNNING \<Rightarrow> ''running'' | Ended DELEGATION_ANSWERED \<Rightarrow> ''answered'' | Ended DELEGATION_FAILED \<Rightarrow> ''failed''
     | Ended DELEGATION_TIMED_OUT \<Rightarrow> ''timed_out'' | Ended DELEGATION_CANCELLED \<Rightarrow> ''cancelled'')"

definition answer_request :: "delegation_record \<Rightarrow> turn_request" where
  "answer_request e =
     \<lparr>tq_agent = dg_agent e, tq_channel_id = dg_channel_id e, tq_conversation_id = dg_conversation_id e, tq_kind = dg_kind e,
      tq_text = dg_to e @ '' '' @ verb_of (dg_status e) @ '' task '' @ dg_id e
        @ (if dg_notice e = [] then [] else '' ('' @ map (\<lambda>c. if c = CHR ''_'' then CHR '' '' else c) (dg_notice e) @ '')''),
      tq_message_id = dg_id e @ ''-answer'', tq_user_id = dg_user_id e, tq_username = dg_to e,
      tq_event = \<lparr>er_source = dg_to e @ '' (agent)'',
        er_text = (if dg_answer e \<noteq> [] then dg_answer e
                   else ''(no answer: the turn ended with '' @ (if dg_notice e \<noteq> [] then dg_notice e else status_text (dg_status e)) @ '')''),
        er_label = []\<rparr>,
      tq_scope = \<lparr>ts_turn_id = dg_id e @ ''-answer'', ts_secrets = [],
        ts_attributes = AList.update ''delegation_task'' (dg_id e) (dg_attributes e), ts_flags = {||}\<rparr>\<rparr>"

section \<open>Tasks in flight\<close>

text \<open>
  The coroutines \<open>_run\<close> and \<open>_answer\<close> of every replica over the one store.  A task is checked, saved, its turn
  runs and is over, its end is written; each of these stands between two awaits of the code, so another
  operation may come in between.  \<open>tw_asked\<close> is every task handed on, \<open>tw_seen\<close> holds the rows someone has read and not yet acted on (the
  \<open>entry\<close> of \<open>cancel\<close>, the loops of \<open>forget\<close> and \<open>recover\<close>), \<open>tw_closed\<close> the calls of \<open>end_delegation\<close> that hit,
  \<open>tw_told\<close> the tasks whose answer a turn of the asker's took.
\<close>

datatype task_phase = TaskChecked | TaskSaved | TaskTurn | TaskOver turn_outcome task_chat

record handed_run =
  tr_entry :: delegation_record
  tr_phase :: task_phase

datatype closing = ClosedByTurn | ClosedByWatch | ClosedByAsker | ClosedByLoss

record task_world =
  tw_asked :: "string \<rightharpoonup> delegation_record"
  tw_rows :: "delegation_record list"
  tw_runs :: "string \<rightharpoonup> handed_run"
  tw_busy :: "(string \<times> string) set"
  tw_links :: "(string \<times> string) set"
  tw_ends :: "(string \<times> string) set"
  tw_seen :: "(string \<times> delegation_record) list"
  tw_answering :: "(string \<times> delegation_record) list"
  tw_closed :: "(string \<times> closing) list"
  tw_told :: "delegation_record list"

definition no_tasks :: task_world where
  "no_tasks = \<lparr>tw_asked = Map.empty, tw_rows = [], tw_runs = Map.empty, tw_busy = {}, tw_links = {}, tw_ends = {}, tw_seen = [], tw_answering = [],
     tw_closed = [], tw_told = []\<rparr>"

definition place_of :: "delegation_record \<Rightarrow> string \<times> string" where
  "place_of e = (dg_replica e, dg_to_conversation_id e)"

definition end_of :: "delegation_record \<Rightarrow> string \<times> string" where
  "end_of e = (dg_replica e, dg_id e)"

text \<open>A record but for what came of the task: what \<open>delegate\<close> and \<open>ask\<close> write down.\<close>

definition task_of :: "delegation_record \<Rightarrow> delegation_record" where
  "task_of e = e\<lparr>dg_status := DELEGATION_RUNNING, dg_finished_at := None, dg_answer := [], dg_notice := [], dg_delivered_at := None\<rparr>"

definition closes :: "closing \<Rightarrow> delegation_record \<Rightarrow> task_world \<Rightarrow> task_world \<times> bool" where
  "closes c r w =
     (case end_delegation r (tw_rows w) of (rows, won) \<Rightarrow>
        (w\<lparr>tw_rows := rows, tw_closed := tw_closed w @ (if won then [(dg_id r, c)] else [])\<rparr>, won))"

definition task_goes :: "delegation_record \<Rightarrow> task_world \<Rightarrow> task_world" where
  "task_goes e w =
     (if tw_asked w (dg_id e) \<noteq> None \<or> place_of e \<in> tw_busy w \<or> task_of e \<noteq> e then w
      else w\<lparr>tw_asked := (tw_asked w)(dg_id e \<mapsto> e), tw_runs := (tw_runs w)(dg_id e \<mapsto> \<lparr>tr_entry = e, tr_phase = TaskChecked\<rparr>)\<rparr>)"

text \<open>With the record come the link and the future; the transcript \<open>ask\<close> may read in between is nobody else's.\<close>

definition task_saves :: "delegation_record \<Rightarrow> task_world \<Rightarrow> task_world" where
  "task_saves e w =
     w\<lparr>tw_rows := save_delegation e (tw_rows w), tw_runs := (tw_runs w)(dg_id e \<mapsto> \<lparr>tr_entry = e, tr_phase = TaskSaved\<rparr>),
       tw_links := (if dg_trusted e then insert (place_of e) (tw_links w) else tw_links w),
       tw_ends := (if dg_trusted e then insert (end_of e) (tw_ends w) else tw_ends w)\<rparr>"

definition task_starts :: "delegation_record \<Rightarrow> task_world \<Rightarrow> task_world" where
  "task_starts e w = w\<lparr>tw_busy := insert (place_of e) (tw_busy w), tw_runs := (tw_runs w)(dg_id e \<mapsto> \<lparr>tr_entry = e, tr_phase = TaskTurn\<rparr>)\<rparr>"

definition task_over :: "turn_outcome \<Rightarrow> task_chat \<Rightarrow> delegation_record \<Rightarrow> task_world \<Rightarrow> task_world" where
  "task_over outcome c e w =
     w\<lparr>tw_busy := tw_busy w - {place_of e}, tw_links := (if dg_trusted e then tw_links w - {place_of e} else tw_links w),
       tw_runs := (tw_runs w)(dg_id e \<mapsto> \<lparr>tr_entry = e, tr_phase = TaskOver outcome c\<rparr>)\<rparr>"

definition task_ends :: "stamp \<Rightarrow> turn_outcome \<Rightarrow> task_chat \<Rightarrow> delegation_record \<Rightarrow> task_world \<Rightarrow> task_world" where
  "task_ends now outcome c e w =
     (let done = ended_record e outcome c now in
      case closes ClosedByTurn done w of (w1, hit) \<Rightarrow>
        w1\<lparr>tw_ends := tw_ends w1 - {end_of e}, tw_runs := (tw_runs w1)(dg_id e := None),
           tw_answering := tw_answering w1 @ (if hit \<and> \<not> dg_trusted e then [(dg_replica e, done)] else [])\<rparr>)"

definition asker_turn_ended :: "stamp \<Rightarrow> delegation_record \<Rightarrow> task_world \<Rightarrow> task_world" where
  "asker_turn_ended now e w = fst (closes ClosedByWatch (called_off e ''asker_turn_ended'' now) w)"

definition recover_one :: "string \<Rightarrow> (string \<Rightarrow> bool) option \<Rightarrow> stamp \<Rightarrow> delegation_record \<Rightarrow> task_world \<Rightarrow> task_world" where
  "recover_one replica live now e w =
     (if \<not> lost replica live e then w
      else case closes ClosedByLoss (lost_record e now) w of (w1, hit) \<Rightarrow>
        if hit \<and> \<not> dg_trusted e then w1\<lparr>tw_answering := tw_answering w1 @ [(replica, lost_record e now)]\<rparr> else w1)"

definition answer_told :: "string \<Rightarrow> stamp \<Rightarrow> delegation_record \<Rightarrow> task_world \<Rightarrow> task_world" where
  "answer_told replica now e w =
     w\<lparr>tw_rows := save_delegation (e\<lparr>dg_delivered_at := Some now\<rparr>) (tw_rows w), tw_answering := removeAll (replica, e) (tw_answering w),
       tw_told := tw_told w @ [e]\<rparr>"

definition answer_not_told :: "string \<Rightarrow> delegation_record \<Rightarrow> task_world \<Rightarrow> task_world" where
  "answer_not_told replica e w =
     w\<lparr>tw_rows := save_delegation (e\<lparr>dg_notice := (if dg_notice e = [] then ''undelivered'' else dg_notice e)\<rparr>) (tw_rows w),
       tw_answering := removeAll (replica, e) (tw_answering w)\<rparr>"

definition answer_raises :: "string \<Rightarrow> delegation_record \<Rightarrow> task_world \<Rightarrow> task_world" where
  "answer_raises replica e w = w\<lparr>tw_answering := removeAll (replica, e) (tw_answering w)\<rparr>"

definition replica_dies :: "string \<Rightarrow> task_world \<Rightarrow> task_world" where
  "replica_dies replica w =
     w\<lparr>tw_runs := (\<lambda>i. case tw_runs w i of Some r \<Rightarrow> if dg_replica (tr_entry r) = replica then None else Some r | None \<Rightarrow> None),
       tw_busy := {p \<in> tw_busy w. fst p \<noteq> replica}, tw_links := {p \<in> tw_links w. fst p \<noteq> replica}, tw_ends := {p \<in> tw_ends w. fst p \<noteq> replica},
       tw_seen := filter (\<lambda>p. fst p \<noteq> replica) (tw_seen w), tw_answering := filter (\<lambda>p. fst p \<noteq> replica) (tw_answering w)\<rparr>"

datatype task_op =
    TaskGoes delegation_record | TaskSaves string | TaskStarts string | TaskTurnEnds string turn_outcome task_chat | TaskEnds string stamp
  | AskerTurnGone string stamp | TaskRead string string | CallsOff string delegation_record string stamp
  | Recovers string "(string \<Rightarrow> bool) option" delegation_record stamp
  | AnswerTold string delegation_record stamp | AnswerRefused string delegation_record | AnswerRaised string delegation_record
  | ReplicaDies string

fun task_do :: "task_op \<Rightarrow> task_world \<Rightarrow> task_world" where
  "task_do (TaskGoes e) w = task_goes e w"
| "task_do (TaskSaves i) w =
     (case tw_runs w i of Some r \<Rightarrow> if tr_phase r = TaskChecked then task_saves (tr_entry r) w else w | None \<Rightarrow> w)"
| "task_do (TaskStarts i) w =
     (case tw_runs w i of Some r \<Rightarrow> if tr_phase r = TaskSaved then task_starts (tr_entry r) w else w | None \<Rightarrow> w)"
| "task_do (TaskTurnEnds i outcome c) w =
     (case tw_runs w i of Some r \<Rightarrow> if tr_phase r = TaskTurn then task_over outcome c (tr_entry r) w else w | None \<Rightarrow> w)"
| "task_do (TaskEnds i now) w =
     (case tw_runs w i of Some r \<Rightarrow> (case tr_phase r of TaskOver outcome c \<Rightarrow> task_ends now outcome c (tr_entry r) w | _ \<Rightarrow> w) | None \<Rightarrow> w)"
| "task_do (AskerTurnGone i now) w =
     (case tw_runs w i of
        Some r \<Rightarrow> if tr_phase r = TaskTurn \<and> dg_trusted (tr_entry r) then asker_turn_ended now (tr_entry r) w else w
      | None \<Rightarrow> w)"
| "task_do (TaskRead replica i) w =
     (case get_delegation i (tw_rows w) of Some e \<Rightarrow> w\<lparr>tw_seen := (replica, e) # tw_seen w\<rparr> | None \<Rightarrow> w)"
| "task_do (CallsOff replica e notice now) w =
     (if (replica, e) \<in> set (tw_seen w) then fst (closes ClosedByAsker (called_off e notice now) w) else w)"
| "task_do (Recovers replica live e now) w =
     (if (replica, e) \<in> set (tw_seen w) \<and> dg_status e = DELEGATION_RUNNING then recover_one replica live now e w else w)"
| "task_do (AnswerTold replica e now) w = (if (replica, e) \<in> set (tw_answering w) then answer_told replica now e w else w)"
| "task_do (AnswerRefused replica e) w = (if (replica, e) \<in> set (tw_answering w) then answer_not_told replica e w else w)"
| "task_do (AnswerRaised replica e) w = (if (replica, e) \<in> set (tw_answering w) then answer_raises replica e w else w)"
| "task_do (ReplicaDies replica) w = replica_dies replica w"

definition task_step :: "task_world \<Rightarrow> task_world \<Rightarrow> bool" where
  "task_step w w' \<longleftrightarrow> (\<exists>op. w' = task_do op w)"

text \<open>The same where every agent keeps a conversation per task.\<close>

definition apart :: "task_op \<Rightarrow> bool" where
  "apart op = (case op of TaskGoes e \<Rightarrow> dg_to_conversation_id e = delegated_conversation_key (dg_id e) | _ \<Rightarrow> True)"

definition apart_step :: "task_world \<Rightarrow> task_world \<Rightarrow> bool" where
  "apart_step w w' \<longleftrightarrow> (\<exists>op. apart op \<and> w' = task_do op w)"

text \<open>\<open>_run\<close> when the store cannot take the end: the coroutine is gone, the future of \<open>_ends\<close> as it was.\<close>

definition end_not_written :: "string \<Rightarrow> task_world \<Rightarrow> task_world" where
  "end_not_written i w = w\<lparr>tw_runs := (tw_runs w)(i := None)\<rparr>"

end
