(* ===== verification/DelegationProps.thy ===== *)
theory DelegationProps
  imports Delegations
begin

text \<open>
  What holds of the tasks agents hand one another: one end and at most one answer for each, whoever comes first;
  nothing of a task but its outcome ever changes; what leaves the asker is what was shown and what the trust
  names; and where a task is seen only from the conversation it was handed on from.
\<close>

section \<open>The table\<close>

lemma get_save: "get_delegation j (save_delegation r rows) = (if j = dg_id r then Some r else get_delegation j rows)"
proof -
  have "filter (with_id j) (del_where (with_id (dg_id r)) rows) = (if j = dg_id r then [] else filter (with_id j) rows)"
    by (induction rows) (auto simp: del_where_def with_id_def [abs_def])
  then show ?thesis by (simp add: get_delegation_def save_delegation_def fetchone_def with_id_def)
qed

lemma distinct_save: "distinct (map dg_id rows) \<Longrightarrow> distinct (map dg_id (save_delegation r rows))"
  by (auto simp: save_delegation_def with_id_def row_simps)

lemma get_id: "get_delegation i rows = Some e \<Longrightarrow> dg_id e = i \<and> e \<in> set rows"
  by (auto simp: get_delegation_def with_id_def dest: fetchone_Some)

lemma get_of_row: "distinct (map dg_id rows) \<Longrightarrow> e \<in> set rows \<Longrightarrow> get_delegation (dg_id e) rows = Some e"
  unfolding get_delegation_def by (rule fetchone_unique [where k = dg_id and x = "dg_id e"]) (auto simp: with_id_def)

lemma end_hits:
  assumes "distinct (map dg_id rows)" and "end_delegation r rows = (rows', hit)"
  shows "hit \<longleftrightarrow> (\<exists>e. get_delegation (dg_id r) rows = Some e \<and> dg_status e = DELEGATION_RUNNING)"
    and "distinct (map dg_id rows')"
    and "get_delegation j rows' = (if hit \<and> j = dg_id r then Some r else get_delegation j rows)"
proof -
  let ?p = "\<lambda>x. with_id (dg_id r) x \<and> dg_status x = DELEGATION_RUNNING"
  have rows': "rows' = upd_where ?p (\<lambda>_. r) rows" and hit: "hit \<longleftrightarrow> rowcount ?p rows = 1"
    using assms(2) by (auto simp: end_delegation_def Let_def)
  have one: "rowcount ?p rows = 1 \<longleftrightarrow> (\<exists>x \<in> set rows. ?p x)"
    by (rule rowcount_unique_eq [OF assms(1), of _ "dg_id r"]) (auto simp: with_id_def)
  show running: "hit \<longleftrightarrow> (\<exists>e. get_delegation (dg_id r) rows = Some e \<and> dg_status e = DELEGATION_RUNNING)"
    unfolding hit one using get_of_row [OF assms(1)] get_id by (metis with_id_def)
  show d: "distinct (map dg_id rows')"
    unfolding rows' using assms(1) by (subst upd_where_keeps) (auto simp: with_id_def)
  show "get_delegation j rows' = (if hit \<and> j = dg_id r then Some r else get_delegation j rows)"
  proof (cases "j = dg_id r \<and> hit")
    case True
    then obtain x where "x \<in> set rows" "?p x" using hit one by blast
    then have "r \<in> set rows'" unfolding rows' by (auto dest: upd_where_hit [of _ _ ?p])
    then show ?thesis using True get_of_row [OF d] by auto
  next
    case False
    show ?thesis
    proof (cases "j = dg_id r")
      case True
      then have "\<forall>x \<in> set rows. \<not> ?p x" using False hit one by auto
      then have "rows' = rows" unfolding rows' unfolding upd_where_def by (intro map_idI) auto
      then show ?thesis using True False by simp
    next
      case other: False
      have "filter (with_id j) rows' = filter (with_id j) rows"
        unfolding rows' using other by (intro filter_upd_where_other) (auto simp: with_id_def)
      then show ?thesis using other by (simp add: get_delegation_def fetchone_def)
    qed
  qed
qed

text \<open>Whoever comes second finds the task gone: the contract of what can be taken once.  Every caller writes an end.\<close>

definition end_attempt :: "delegation_record \<times> delegation_end \<Rightarrow> delegation_record list \<Rightarrow> delegation_record list \<times> bool" where
  "end_attempt c rows = (case c of (r, how) \<Rightarrow> end_delegation (r\<lparr>dg_status := Ended how\<rparr>) rows)"

definition running_in :: "string \<Rightarrow> delegation_record list \<Rightarrow> bool" where
  "running_in i rows \<longleftrightarrow> (\<exists>e \<in> set rows. with_id i e \<and> dg_status e = DELEGATION_RUNNING)"

lemma after_an_end:
  assumes "end_attempt c rows = (rows', hit)" and "running_in i rows'"
  shows "i \<noteq> dg_id (fst c) \<and> running_in i rows"
proof -
  obtain r how where c: "c = (r, how)" by (cases c)
  let ?p = "\<lambda>x. with_id (dg_id r) x \<and> dg_status x = DELEGATION_RUNNING"
  have "rows' = upd_where ?p (\<lambda>_. r\<lparr>dg_status := Ended how\<rparr>) rows"
    using assms(1) unfolding c by (simp add: end_attempt_def end_delegation_def Let_def)
  then obtain e r0 where "r0 \<in> set rows" "e = (if ?p r0 then r\<lparr>dg_status := Ended how\<rparr> else r0)" "with_id i e" "dg_status e = DELEGATION_RUNNING"
    using assms(2) by (auto simp: running_in_def dest!: in_upd_where)
  then show ?thesis unfolding c running_in_def with_id_def by (cases "?p r0") (auto simp: with_id_def)
qed

interpretation task_ends: single_winner end_attempt "\<lambda>c. dg_id (fst c)" running_in
proof unfold_locales
  fix c rows rows' assume a: "end_attempt c rows = (rows', True)"
  then show "running_in (dg_id (fst c)) rows"
    by (auto simp: end_attempt_def end_delegation_def Let_def running_in_def with_id_def split: prod.splits dest!: rowcount_1_ex [unfolded One_nat_def])
  show "\<not> running_in (dg_id (fst c)) rows'" using after_an_end [OF a] by blast
next
  fix i rows c rows' hit assume "\<not> running_in i rows" and "end_attempt c rows = (rows', hit)"
  then show "\<not> running_in i rows'" using after_an_end by blast
qed

section \<open>Tasks in flight\<close>

definition row_of :: "string \<Rightarrow> task_world \<Rightarrow> delegation_record option" where
  "row_of i w = get_delegation i (tw_rows w)"

text \<open>What a row keeps of the end that was written: what is added afterwards is whether the answer arrived.\<close>

definition end_part :: "delegation_record \<Rightarrow> delegation_record" where
  "end_part e = e\<lparr>dg_notice := [], dg_delivered_at := None\<rparr>"

definition rows_true :: "task_world \<Rightarrow> bool" where
  "rows_true w \<longleftrightarrow> distinct (map dg_id (tw_rows w))
     \<and> (\<forall>i e. tw_asked w i = Some e \<longrightarrow> dg_id e = i \<and> task_of e = e)
     \<and> (\<forall>i e. row_of i w = Some e \<longrightarrow> tw_asked w i = Some (task_of e))
     \<and> (\<forall>i e. row_of i w = Some e \<longrightarrow> (dg_status e = DELEGATION_RUNNING \<longleftrightarrow> i \<notin> fst ` set (tw_closed w)))
     \<and> (\<forall>i \<in> fst ` set (tw_closed w). row_of i w \<noteq> None)
     \<and> distinct (map fst (tw_closed w))"

definition runs_true :: "task_world \<Rightarrow> bool" where
  "runs_true w \<longleftrightarrow> (\<forall>i r. tw_runs w i = Some r \<longrightarrow> tw_asked w i = Some (tr_entry r) \<and> (tr_phase r = TaskChecked \<longleftrightarrow> row_of i w = None))
     \<and> (\<forall>(rep, e) \<in> set (tw_seen w). tw_asked w (dg_id e) = Some (task_of e))
     \<and> (\<forall>(rep, i) \<in> tw_ends w. \<exists>r. tw_runs w i = Some r \<and> dg_replica (tr_entry r) = rep \<and> tr_phase r \<noteq> TaskChecked)"

definition settled :: "task_world \<Rightarrow> delegation_record \<Rightarrow> bool" where
  "settled w e \<longleftrightarrow> \<not> dg_trusted e \<and> dg_status e \<noteq> DELEGATION_RUNNING
     \<and> (\<exists>row. row_of (dg_id e) w = Some row \<and> end_part row = end_part e)
     \<and> ((dg_id e, ClosedByTurn) \<in> set (tw_closed w) \<or> (dg_id e, ClosedByLoss) \<in> set (tw_closed w))"

definition answers_true :: "task_world \<Rightarrow> bool" where
  "answers_true w \<longleftrightarrow> distinct (map (dg_id \<circ> snd) (tw_answering w) @ map dg_id (tw_told w))
     \<and> (\<forall>e \<in> snd ` set (tw_answering w) \<union> set (tw_told w). settled w e)"

definition tasks_ok :: "task_world \<Rightarrow> bool" where
  "tasks_ok w \<longleftrightarrow> rows_true w \<and> runs_true w \<and> answers_true w"

named_theorems task_simps

lemma task_of_same [simp]:
  "dg_id (task_of e) = dg_id e" "dg_status (task_of e) = DELEGATION_RUNNING" "dg_trusted (task_of e) = dg_trusted e"
  "dg_replica (task_of e) = dg_replica e" "task_of (task_of e) = task_of e"
  "task_of (called_off e n now) = task_of e" "task_of (lost_record e now) = task_of e" "task_of (ended_record e out c now) = task_of e"
  "dg_id (called_off e n now) = dg_id e" "dg_id (lost_record e now) = dg_id e" "dg_id (ended_record e out c now) = dg_id e"
  "dg_status (called_off e n now) \<noteq> DELEGATION_RUNNING" "dg_status (lost_record e now) \<noteq> DELEGATION_RUNNING"
  "dg_status (ended_record e out c now) \<noteq> DELEGATION_RUNNING"
  "dg_trusted (lost_record e now) = dg_trusted e" "dg_trusted (ended_record e out c now) = dg_trusted e"
  "task_of (e\<lparr>dg_notice := n\<rparr>) = task_of e" "task_of (e\<lparr>dg_delivered_at := d\<rparr>) = task_of e"
  by (simp_all add: task_of_def called_off_def lost_record_def ended_record_def)

lemma moved_distinct:
  assumes d: "distinct (map f xs @ map g ys)" and x: "x \<in> set xs" and fg: "f x = g y" and ts: "ts = [] \<or> ts = [y]"
  shows "distinct (map f (removeAll x xs) @ map g (ys @ ts))"
proof -
  have i: "inj_on f (set xs)" using d by (simp add: distinct_map)
  have "\<forall>z \<in> set xs. f z = g y \<longrightarrow> z = x" using i x fg by (metis inj_onD)
  moreover have "distinct (map f (removeAll x xs))" using d by (simp add: removeAll_filter_not_eq distinct_map_filter)
  moreover have "f ` set xs \<inter> g ` set ys = {}" "distinct (map g ys)" using d by auto
  moreover have "\<forall>z \<in> set ys. g z \<noteq> g y" using calculation(3) x fg by (metis disjoint_iff image_eqI)
  ultimately show ?thesis using ts fg by auto
qed

lemma task_of_end: "task_of (end_part e) = task_of e"
  by (simp add: task_of_def end_part_def)

lemma end_part_keeps: "dg_status (end_part e) = dg_status e" "dg_answer (end_part e) = dg_answer e"
  by (simp_all add: end_part_def)

lemma settled_closed: "settled w e \<Longrightarrow> dg_id e \<in> fst ` set (tw_closed w)"
  by (auto simp: settled_def intro: rev_image_eqI)

lemma closes_only:
  assumes "closes c r w = (w', hit)"
  shows "tw_asked w' = tw_asked w" "tw_runs w' = tw_runs w" "tw_busy w' = tw_busy w" "tw_links w' = tw_links w" "tw_ends w' = tw_ends w"
    "tw_seen w' = tw_seen w" "tw_answering w' = tw_answering w" "tw_told w' = tw_told w"
    "tw_closed w' = tw_closed w @ (if hit then [(dg_id r, c)] else [])"
  using assms by (auto simp: closes_def split: prod.splits)

lemma closes_rows:
  assumes "rows_true w" and "closes c r w = (w', hit)"
  shows "hit \<longleftrightarrow> (\<exists>e. row_of (dg_id r) w = Some e \<and> dg_status e = DELEGATION_RUNNING)"
    and "distinct (map dg_id (tw_rows w'))"
    and "row_of j w' = (if hit \<and> j = dg_id r then Some r else row_of j w)"
proof -
  have d: "distinct (map dg_id (tw_rows w))" using assms(1) by (simp add: rows_true_def)
  obtain rows' where e: "end_delegation r (tw_rows w) = (rows', hit)" and w': "tw_rows w' = rows'"
    using assms(2) by (auto simp: closes_def split: prod.splits)
  note h = end_hits [OF d e]
  show "hit \<longleftrightarrow> (\<exists>e. row_of (dg_id r) w = Some e \<and> dg_status e = DELEGATION_RUNNING)" using h(1) by (simp add: row_of_def)
  show "distinct (map dg_id (tw_rows w'))" using h(2) w' by simp
  show "row_of j w' = (if hit \<and> j = dg_id r then Some r else row_of j w)" using h(3) w' by (simp add: row_of_def)
qed

text \<open>A call that ends a task keeps everything, and when it hits no answer of the task was on its way.\<close>

lemma closes_ok:
  assumes ok: "tasks_ok w" and asked: "tw_asked w (dg_id r) = Some (task_of r)" and st: "dg_status r \<noteq> DELEGATION_RUNNING"
    and c: "closes c r w = (w', hit)"
  shows "tasks_ok w'"
    and "hit \<Longrightarrow> row_of (dg_id r) w' = Some r \<and> (dg_id r, c) \<in> set (tw_closed w')
      \<and> dg_id r \<notin> set (map (dg_id \<circ> snd) (tw_answering w') @ map dg_id (tw_told w'))"
proof -
  have rows: "rows_true w" and runs: "runs_true w" and ans: "answers_true w" using ok by (auto simp: tasks_ok_def)
  note h = closes_rows [OF rows c] and same = closes_only [OF c]
  have new: "dg_id r \<notin> fst ` set (tw_closed w)" if hit using h(1) that rows unfolding rows_true_def by blast
  then have pairs: "hit \<Longrightarrow> \<forall>b. (dg_id r, b) \<notin> set (tw_closed w)" by (metis fst_conv image_eqI)
  have kept: "row_of i w' = None \<longleftrightarrow> row_of i w = None" for i using h(1) h(3) [of i] by auto
  have "rows_true w'"
    unfolding rows_true_def same(1,9) h(3)
    using rows asked st h(2) new pairs by (cases hit) (auto simp: rows_true_def)
  moreover have "runs_true w'" using runs unfolding runs_true_def same(1,2,5,6) kept .
  moreover have set': "settled w' e" if "settled w e" for e
  proof -
    have "\<not> (hit \<and> dg_id e = dg_id r)" using new settled_closed [OF that] by metis
    then show ?thesis using that unfolding settled_def same(9) h(3) by auto
  qed
  then have "answers_true w'" using ans unfolding answers_true_def same(7,8) by blast
  ultimately show "tasks_ok w'" by (simp add: tasks_ok_def)
  assume hit: hit
  have "dg_id e \<noteq> dg_id r" if "e \<in> snd ` set (tw_answering w) \<union> set (tw_told w)" for e
    using ans that new [OF hit] settled_closed [of w e] unfolding answers_true_def by metis
  then have "dg_id r \<notin> set (map (dg_id \<circ> snd) (tw_answering w) @ map dg_id (tw_told w))" by fastforce
  then show "row_of (dg_id r) w' = Some r \<and> (dg_id r, c) \<in> set (tw_closed w')
      \<and> dg_id r \<notin> set (map (dg_id \<circ> snd) (tw_answering w') @ map dg_id (tw_told w'))"
    using hit h(3) [of "dg_id r"] unfolding same(7,8,9) by simp
qed

text \<open>A row written once its end is: what is added is whether the answer arrived.\<close>

lemma told_ok:
  assumes ok: "tasks_ok w" and a: "(rep, e) \<in> set (tw_answering w)" and e': "end_part e' = end_part e" "dg_id e' = dg_id e" "dg_status e' = dg_status e"
    "task_of e' = task_of e" and more_told: "ts = [] \<or> ts = [e]"
  shows "tasks_ok (w\<lparr>tw_rows := save_delegation e' (tw_rows w), tw_answering := removeAll (rep, e) (tw_answering w), tw_told := tw_told w @ ts\<rparr>)"
    (is "tasks_ok ?w")
proof -
  have rows: "rows_true w" and runs: "runs_true w" and ans: "answers_true w" using ok by (auto simp: tasks_ok_def)
  have se: "settled w e" using ans a by (force simp: answers_true_def)
  then obtain row where row: "row_of (dg_id e) w = Some row" "end_part row = end_part e" and st: "dg_status e \<noteq> DELEGATION_RUNNING"
    by (auto simp: settled_def)
  have same: "task_of row = task_of e" using row(2) task_of_end by metis
  have strow: "dg_status row = dg_status e" using row(2) by (cases row; cases e) (simp add: end_part_def)
  have r: "row_of i ?w = (if i = dg_id e then Some e' else row_of i w)" for i by (simp add: row_of_def get_save e'(2))
  have kept: "row_of i ?w = None \<longleftrightarrow> row_of i w = None" for i using row(1) r by auto
  have "rows_true ?w"
    using rows row(1) same unfolding rows_true_def r by (auto simp: e' distinct_save st settled_closed [OF se])
  moreover have "runs_true ?w" using runs unfolding runs_true_def kept by simp
  moreover have "answers_true ?w"
  proof -
    have s: "settled ?w x" if "settled w x" for x
      using that row e'(1) unfolding settled_def r by (auto simp: row_of_def)
    have d: "distinct (map (dg_id \<circ> snd) (tw_answering w) @ map dg_id (tw_told w))" using ans by (simp add: answers_true_def)
    then have "distinct (map (dg_id \<circ> snd) (removeAll (rep, e) (tw_answering w)) @ map dg_id (tw_told w @ ts))"
      by (rule moved_distinct) (use a more_told in auto)
    moreover have "\<forall>x \<in> snd ` set (tw_answering ?w) \<union> set (tw_told ?w). settled w x"
      using ans a more_told by (force simp: answers_true_def)
    ultimately show ?thesis unfolding answers_true_def using s by simp
  qed
  ultimately show ?thesis by (simp add: tasks_ok_def)
qed

text \<open>A coroutine moves on; the rest of the world of tasks is as it was.\<close>

lemma run_moves:
  assumes ok: "tasks_ok w" and run: "tw_runs w i = Some r" and ph: "tr_phase r \<noteq> TaskChecked" "ph' \<noteq> TaskChecked"
  shows "tasks_ok (w\<lparr>tw_busy := b, tw_links := l, tw_runs := (tw_runs w)(i \<mapsto> \<lparr>tr_entry = tr_entry r, tr_phase = ph'\<rparr>)\<rparr>)"
  using assms unfolding tasks_ok_def rows_true_def runs_true_def answers_true_def settled_def row_of_def
  by (auto split: if_splits)

lemma goes_ok: "tasks_ok w \<Longrightarrow> tasks_ok (task_goes e w)"
proof (cases "tw_asked w (dg_id e) \<noteq> None \<or> place_of e \<in> tw_busy w \<or> task_of e \<noteq> e")
  case False
  assume ok: "tasks_ok w"
  then have none: "row_of (dg_id e) w = None" using False by (cases "row_of (dg_id e) w") (auto simp: tasks_ok_def rows_true_def)
  have seen: "dg_id x \<noteq> dg_id e" if "(rep, x) \<in> set (tw_seen w)" for rep x
    using ok that False by (auto simp: tasks_ok_def runs_true_def)
  have ends: "i \<noteq> dg_id e" if "(rep, i) \<in> tw_ends w" for rep i
    using ok that False by (fastforce simp: tasks_ok_def runs_true_def)
  have "rows_true (task_goes e w)" using ok False none
    by (auto simp: task_goes_def tasks_ok_def rows_true_def row_of_def)
  moreover have "runs_true (task_goes e w)"
  proof -
    let ?w = "w\<lparr>tw_asked := (tw_asked w)(dg_id e \<mapsto> e), tw_runs := (tw_runs w)(dg_id e \<mapsto> \<lparr>tr_entry = e, tr_phase = TaskChecked\<rparr>)\<rparr>"
    have row: "row_of i ?w = row_of i w" for i by (simp add: row_of_def)
    have "runs_true ?w"
      unfolding runs_true_def row
    proof (intro conjI allI impI ballI)
      fix i r assume "tw_runs ?w i = Some r"
      then show "tw_asked ?w i = Some (tr_entry r)" and "tr_phase r = TaskChecked \<longleftrightarrow> row_of i w = None"
        using ok none by (auto simp: tasks_ok_def runs_true_def split: if_splits)
    next
      fix x assume "x \<in> set (tw_seen ?w)"
      then show "case x of (rep, y) \<Rightarrow> tw_asked ?w (dg_id y) = Some (task_of y)"
        using ok seen by (auto simp: tasks_ok_def runs_true_def)
    next
      fix x assume x: "x \<in> tw_ends ?w"
      obtain rep i where p: "x = (rep, i)" by (cases x)
      then have "i \<noteq> dg_id e" using x ends by simp
      then show "case x of (rep, i) \<Rightarrow> \<exists>r. tw_runs ?w i = Some r \<and> dg_replica (tr_entry r) = rep \<and> tr_phase r \<noteq> TaskChecked"
        using ok x unfolding p tasks_ok_def runs_true_def by fastforce
    qed
    then show ?thesis using False by (auto simp: task_goes_def)
  qed
  moreover have "answers_true (task_goes e w)" using ok False
    by (auto simp: task_goes_def tasks_ok_def answers_true_def settled_def row_of_def)
  ultimately show ?thesis by (simp add: tasks_ok_def)
qed (simp add: task_goes_def)

lemma saves_ok:
  assumes ok: "tasks_ok w" and run: "tw_runs w i = Some r" and ph: "tr_phase r = TaskChecked"
  shows "tasks_ok (task_saves (tr_entry r) w)"
proof -
  let ?e = "tr_entry r" and ?w = "task_saves (tr_entry r) w"
  have asked: "tw_asked w i = Some ?e" and none: "row_of i w = None" using ok run ph by (auto simp: tasks_ok_def runs_true_def)
  have e: "dg_id ?e = i" "task_of ?e = ?e" using ok asked by (auto simp: tasks_ok_def rows_true_def)
  then have st: "dg_status ?e = DELEGATION_RUNNING" by (metis task_of_same(2))
  have fresh: "i \<notin> fst ` set (tw_closed w)" using ok none by (auto simp: tasks_ok_def rows_true_def)
  have r: "row_of j ?w = (if j = i then Some ?e else row_of j w)" for j by (simp add: row_of_def get_save task_saves_def e)
  have "rows_true ?w"
    using ok asked e st fresh unfolding tasks_ok_def rows_true_def r by (auto simp: task_saves_def distinct_save)
  moreover have "runs_true ?w"
    using ok asked e run ph unfolding tasks_ok_def runs_true_def r by (auto simp: task_saves_def end_of_def)
  moreover have "answers_true ?w"
  proof -
    have "settled ?w x" if "settled w x" for x
      using that none unfolding settled_def r by (auto simp: task_saves_def)
    then show ?thesis using ok unfolding tasks_ok_def answers_true_def by (auto simp: task_saves_def)
  qed
  ultimately show ?thesis by (simp add: tasks_ok_def)
qed

lemma answering_ok:
  assumes ok: "tasks_ok w" and e: "\<not> dg_trusted e" "dg_status e \<noteq> DELEGATION_RUNNING" "row_of (dg_id e) w = Some e"
    and c: "(dg_id e, ClosedByTurn) \<in> set (tw_closed w) \<or> (dg_id e, ClosedByLoss) \<in> set (tw_closed w)"
    and new: "dg_id e \<notin> set (map (dg_id \<circ> snd) (tw_answering w) @ map dg_id (tw_told w))"
  shows "tasks_ok (w\<lparr>tw_answering := tw_answering w @ [(rep, e)]\<rparr>)"
  using assms unfolding tasks_ok_def rows_true_def runs_true_def answers_true_def settled_def row_of_def by auto

lemma run_gone:
  assumes "tasks_ok w" and "\<And>r. tw_runs w i = Some r \<Longrightarrow> dg_replica (tr_entry r) = rep"
  shows "tasks_ok (w\<lparr>tw_ends := tw_ends w - {(rep, i)}, tw_runs := (tw_runs w)(i := None)\<rparr>)"
  using assms unfolding tasks_ok_def rows_true_def runs_true_def answers_true_def settled_def row_of_def
  by (auto split: if_splits)

lemma ends_ok:
  assumes ok: "tasks_ok w" and run: "tw_runs w i = Some r" and ph: "tr_phase r = TaskOver out c"
  shows "tasks_ok (task_ends now out c (tr_entry r) w)"
proof -
  let ?e = "tr_entry r" let ?d = "ended_record (tr_entry r) out c now"
  obtain w1 hit where cl: "closes ClosedByTurn ?d w = (w1, hit)" by fastforce
  have asked: "tw_asked w i = Some ?e" using ok run by (auto simp: tasks_ok_def runs_true_def)
  have e: "dg_id ?e = i" "task_of ?e = ?e" using ok asked by (auto simp: tasks_ok_def rows_true_def)
  have d: "tw_asked w (dg_id ?d) = Some (task_of ?d)" "dg_status ?d \<noteq> DELEGATION_RUNNING" using asked e by simp_all
  note ok1 = closes_ok [OF ok d cl]
  let ?w2 = "w1\<lparr>tw_ends := tw_ends w1 - {end_of ?e}, tw_runs := (tw_runs w1)(dg_id ?e := None)\<rparr>"
  have ok2: "tasks_ok ?w2" unfolding end_of_def e
    by (rule run_gone [OF ok1(1)]) (use run closes_only(2) [OF cl] in simp)
  show ?thesis
  proof (cases "hit \<and> \<not> dg_trusted ?e")
    case True
    have "tasks_ok (?w2\<lparr>tw_answering := tw_answering ?w2 @ [(dg_replica ?e, ?d)]\<rparr>)"
      by (rule answering_ok [OF ok2]) (use True ok1(2) in \<open>auto simp: row_of_def\<close>)
    then show ?thesis using True by (simp add: task_ends_def cl Let_def)
  next
    case False
    then show ?thesis using ok2 by (auto simp: task_ends_def cl Let_def)
  qed
qed

lemma recovers_ok:
  assumes ok: "tasks_ok w" and seen: "tw_asked w (dg_id e) = Some (task_of e)"
  shows "tasks_ok (recover_one replica live now e w)"
proof (cases "lost replica live e")
  case True
  let ?d = "lost_record e now"
  obtain w1 hit where cl: "closes ClosedByLoss ?d w = (w1, hit)" by fastforce
  have d: "tw_asked w (dg_id ?d) = Some (task_of ?d)" "dg_status ?d \<noteq> DELEGATION_RUNNING" using seen by simp_all
  note ok1 = closes_ok [OF ok d cl]
  show ?thesis
  proof (cases "hit \<and> \<not> dg_trusted e")
    case hit: True
    have "tasks_ok (w1\<lparr>tw_answering := tw_answering w1 @ [(replica, ?d)]\<rparr>)"
      by (rule answering_ok [OF ok1(1)]) (use hit ok1(2) in auto)
    then show ?thesis using hit True by (simp add: recover_one_def cl)
  next
    case False
    then show ?thesis using ok1(1) True by (auto simp: recover_one_def cl)
  qed
qed (simp add: recover_one_def ok)

lemma fewer_answers:
  assumes "tasks_ok w" and "distinct (map (dg_id \<circ> snd) as @ map dg_id (tw_told w))" and "set as \<subseteq> set (tw_answering w)"
  shows "tasks_ok (w\<lparr>tw_answering := as\<rparr>)"
proof -
  have "rows_true (w\<lparr>tw_answering := as\<rparr>) = rows_true w" by (simp add: rows_true_def row_of_def)
  moreover have "runs_true (w\<lparr>tw_answering := as\<rparr>) = runs_true w" by (simp add: runs_true_def row_of_def)
  moreover have "settled (w\<lparr>tw_answering := as\<rparr>) = settled w" by (simp add: settled_def [abs_def] row_of_def)
  moreover have "\<forall>e \<in> snd ` set as \<union> set (tw_told w). settled w e" using assms(1,3) unfolding tasks_ok_def answers_true_def by blast
  ultimately show ?thesis using assms(1,2) unfolding tasks_ok_def answers_true_def by simp
qed

lemma dies_ok: "tasks_ok w \<Longrightarrow> tasks_ok (replica_dies rep w)"
proof -
  assume ok: "tasks_ok w"
  let ?w = "replica_dies rep w"
  have row: "row_of i ?w = row_of i w" for i by (simp add: row_of_def replica_dies_def)
  have same: "tw_asked ?w = tw_asked w" "tw_rows ?w = tw_rows w" "tw_closed ?w = tw_closed w" "tw_told ?w = tw_told w"
    by (simp_all add: replica_dies_def)
  have run: "tw_runs ?w i = Some r \<longleftrightarrow> tw_runs w i = Some r \<and> dg_replica (tr_entry r) \<noteq> rep" for i r
    by (auto simp: replica_dies_def split: option.splits)
  have seen: "set (tw_seen ?w) \<subseteq> set (tw_seen w)" by (auto simp: replica_dies_def)
  have less: "(p, i) \<in> tw_ends ?w \<longleftrightarrow> (p, i) \<in> tw_ends w \<and> p \<noteq> rep" for p i
    by (auto simp: replica_dies_def)
  have "runs_true ?w"
    unfolding runs_true_def
  proof (intro conjI allI impI ballI)
    fix i r assume "tw_runs ?w i = Some r"
    then show "tw_asked ?w i = Some (tr_entry r)" and "tr_phase r = TaskChecked \<longleftrightarrow> row_of i ?w = None"
      using ok by (simp_all add: run row same tasks_ok_def runs_true_def)
  next
    fix x assume "x \<in> set (tw_seen ?w)"
    then show "case x of (p, e) \<Rightarrow> tw_asked ?w (dg_id e) = Some (task_of e)"
      using ok seen unfolding same tasks_ok_def runs_true_def by blast
  next
    fix x assume x: "x \<in> tw_ends ?w"
    then obtain p i where p: "x = (p, i)" "(p, i) \<in> tw_ends w" "p \<noteq> rep" by (cases x) (auto simp: less)
    then show "case x of (p, i) \<Rightarrow> \<exists>r. tw_runs ?w i = Some r \<and> dg_replica (tr_entry r) = p \<and> tr_phase r \<noteq> TaskChecked"
      using ok unfolding run tasks_ok_def runs_true_def p by fastforce
  qed
  moreover have "rows_true ?w" using ok unfolding tasks_ok_def rows_true_def row same by simp
  moreover have "answers_true ?w"
  proof -
    have "distinct (map (dg_id \<circ> snd) (tw_answering ?w) @ map dg_id (tw_told ?w))"
      using ok unfolding tasks_ok_def answers_true_def by (auto simp: replica_dies_def distinct_map_filter)
    moreover have "snd ` set (tw_answering ?w) \<subseteq> snd ` set (tw_answering w)" by (auto simp: replica_dies_def)
    ultimately show ?thesis using ok unfolding tasks_ok_def answers_true_def settled_def row same by blast
  qed
  ultimately show ?thesis by (simp add: tasks_ok_def)
qed

lemma seen_asked: "tasks_ok w \<Longrightarrow> (rep, e) \<in> set (tw_seen w) \<Longrightarrow> tw_asked w (dg_id e) = Some (task_of e)"
  by (auto simp: tasks_ok_def runs_true_def)

lemma task_do_ok: "tasks_ok w \<Longrightarrow> tasks_ok (task_do op w)"
proof (cases op)
  fix e assume ok: "tasks_ok w" and op: "op = TaskGoes e"
  then show ?thesis using goes_ok by simp
next
  fix i assume ok: "tasks_ok w" and op: "op = TaskSaves i"
  then show ?thesis using saves_ok [OF ok, of i] by (auto split: option.splits)
next
  fix i assume ok: "tasks_ok w" and op: "op = TaskStarts i"
  show ?thesis
  proof (cases "\<exists>r. tw_runs w i = Some r \<and> tr_phase r = TaskSaved")
    case True
    then obtain r where r: "tw_runs w i = Some r" "tr_phase r = TaskSaved" by blast
    then have "dg_id (tr_entry r) = i" using ok by (auto simp: tasks_ok_def runs_true_def rows_true_def)
    then show ?thesis using run_moves [OF ok r(1), where ph' = TaskTurn and l = "tw_links w"] r by (simp add: op task_starts_def)
  qed (use ok op in \<open>auto split: option.splits\<close>)
next
  fix i out c assume ok: "tasks_ok w" and op: "op = TaskTurnEnds i out c"
  show ?thesis
  proof (cases "\<exists>r. tw_runs w i = Some r \<and> tr_phase r = TaskTurn")
    case True
    then obtain r where r: "tw_runs w i = Some r" "tr_phase r = TaskTurn" by blast
    then have "dg_id (tr_entry r) = i" using ok by (auto simp: tasks_ok_def runs_true_def rows_true_def)
    then show ?thesis using run_moves [OF ok r(1), where ph' = "TaskOver out c"] r by (simp add: op task_over_def)
  qed (use ok op in \<open>auto split: option.splits\<close>)
next
  fix i now assume ok: "tasks_ok w" and op: "op = TaskEnds i now"
  then show ?thesis using ends_ok [OF ok, of i] by (auto split: option.splits task_phase.splits)
next
  fix i now assume ok: "tasks_ok w" and op: "op = AskerTurnGone i now"
  show ?thesis
  proof (cases "tw_runs w i")
    case (Some r)
    then have a: "tw_asked w i = Some (tr_entry r)" using ok by (auto simp: tasks_ok_def runs_true_def)
    then have "dg_id (tr_entry r) = i" "task_of (tr_entry r) = tr_entry r" using ok by (auto simp: tasks_ok_def rows_true_def)
    then show ?thesis using a Some closes_ok(1) [OF ok, of "called_off (tr_entry r) ''asker_turn_ended'' now" ClosedByWatch]
      by (cases "closes ClosedByWatch (called_off (tr_entry r) ''asker_turn_ended'' now) w") (auto simp: op ok asker_turn_ended_def)
  qed (simp add: op ok)
next
  fix rep i assume ok: "tasks_ok w" and op: "op = TaskRead rep i"
  show ?thesis
  proof (cases "get_delegation i (tw_rows w)")
    case (Some e)
    then have "tw_asked w (dg_id e) = Some (task_of e)" using ok get_id [OF Some] by (auto simp: tasks_ok_def rows_true_def row_of_def)
    then show ?thesis using ok Some unfolding op tasks_ok_def rows_true_def runs_true_def answers_true_def settled_def row_of_def by simp
  qed (simp add: op ok)
next
  fix rep e n now assume ok: "tasks_ok w" and op: "op = CallsOff rep e n now"
  show ?thesis using ok seen_asked [OF ok, of rep e] closes_ok(1) [OF ok, of "called_off e n now" ClosedByAsker]
    by (cases "closes ClosedByAsker (called_off e n now) w") (auto simp: op)
next
  fix rep live e now assume ok: "tasks_ok w" and op: "op = Recovers rep live e now"
  then show ?thesis using recovers_ok [OF ok seen_asked [OF ok, of rep e]] by simp
next
  fix rep e now assume ok: "tasks_ok w" and op: "op = AnswerTold rep e now"
  then show ?thesis using told_ok [OF ok, of rep e "e\<lparr>dg_delivered_at := Some now\<rparr>" "[e]"] by (simp add: answer_told_def end_part_def)
next
  fix rep e assume ok: "tasks_ok w" and op: "op = AnswerRefused rep e"
  then show ?thesis using told_ok [OF ok, of rep e "e\<lparr>dg_notice := (if dg_notice e = [] then ''undelivered'' else dg_notice e)\<rparr>" "[]"]
    by (simp add: answer_not_told_def end_part_def)
next
  fix rep e assume ok: "tasks_ok w" and op: "op = AnswerRaised rep e"
  show ?thesis
  proof (cases "(rep, e) \<in> set (tw_answering w)")
    case True
    have "distinct (map (dg_id \<circ> snd) (removeAll (rep, e) (tw_answering w)) @ map dg_id (tw_told w))"
      using ok unfolding tasks_ok_def answers_true_def by (auto simp: removeAll_filter_not_eq distinct_map_filter)
    then show ?thesis using fewer_answers [OF ok] True by (simp add: op answer_raises_def)
  qed (simp add: op ok)
next
  fix rep assume ok: "tasks_ok w" and op: "op = ReplicaDies rep"
  then show ?thesis using dies_ok by simp
qed

lemma no_tasks_ok: "tasks_ok no_tasks"
  by (simp add: no_tasks_def tasks_ok_def rows_true_def runs_true_def answers_true_def row_of_def get_delegation_def fetchone_def)

interpretation tasks: invariant_system "\<lambda>w. w = no_tasks" task_step tasks_ok
  by unfold_locales (auto simp: no_tasks_ok task_step_def task_do_ok)

text \<open>C25. A task ends once and its asker is told at most once, over every order in which its turn, the asker that
  calls it off, the restarts and recoveries of replicas and the retried answers come: what is told is the end that
  was written, never one the asker called off, never a trusted task's, and nothing of the task itself has changed.\<close>

theorem a_task_is_answered_once:
  assumes "reachable (\<lambda>w. w = no_tasks) task_step w"
  shows "distinct (map fst (tw_closed w)) \<and> distinct (map dg_id (tw_told w))
    \<and> (\<forall>e \<in> set (tw_told w). \<not> dg_trusted e \<and> (dg_id e, ClosedByAsker) \<notin> set (tw_closed w)
        \<and> (\<exists>row. get_delegation (dg_id e) (tw_rows w) = Some row \<and> dg_status row = dg_status e \<and> dg_answer row = dg_answer e
            \<and> tw_asked w (dg_id e) = Some (task_of row)))"
proof -
  have ok: "tasks_ok w" using tasks.reachable_inv [OF assms] .
  have d: "distinct (map fst (tw_closed w))" using ok by (simp add: tasks_ok_def rows_true_def)
  have "\<not> dg_trusted e \<and> (dg_id e, ClosedByAsker) \<notin> set (tw_closed w)
      \<and> (\<exists>row. get_delegation (dg_id e) (tw_rows w) = Some row \<and> dg_status row = dg_status e \<and> dg_answer row = dg_answer e
          \<and> tw_asked w (dg_id e) = Some (task_of row))" if e: "e \<in> set (tw_told w)" for e
  proof -
    have s: "settled w e" using ok e by (simp add: tasks_ok_def answers_true_def)
    then obtain row where row: "row_of (dg_id e) w = Some row" "end_part row = end_part e" by (auto simp: settled_def)
    have same: "dg_status row = dg_status e" "dg_answer row = dg_answer e"
      using row(2) by (metis end_part_keeps(1), metis end_part_keeps(2))
    have "tw_asked w (dg_id e) = Some (task_of row)" using ok row(1) by (simp add: tasks_ok_def rows_true_def)
    moreover have "(dg_id e, ClosedByAsker) \<notin> set (tw_closed w)"
      using s eq_key_imp_eq_value [OF d] by (auto simp: settled_def)
    ultimately show ?thesis using s row(1) same by (auto simp: settled_def row_of_def)
  qed
  then show ?thesis using d ok by (simp add: tasks_ok_def answers_true_def)
qed

text \<open>C26. A turn that awaits the answer to a trusted task is woken: whatever state it is reached in, the task's own
  coroutine is still there, and once its turn is over the end is written and the awaited future set.  The steps here are
  those of a store that does not raise: when writing the end does, the future is never set
  (\<open>awaiting_outlives_a_failing_store\<close>).\<close>

theorem an_awaited_answer_comes:
  assumes "reachable (\<lambda>w. w = no_tasks) task_step w" and "(rep, i) \<in> tw_ends w"
  shows "let w' = fold task_do [TaskStarts i, TaskTurnEnds i outcome c, TaskEnds i now] w in
      (rep, i) \<notin> tw_ends w' \<and> (\<exists>row. get_delegation i (tw_rows w') = Some row \<and> dg_status row \<noteq> DELEGATION_RUNNING)"
proof -
  have ok: "tasks_ok w" using tasks.reachable_inv [OF assms(1)] .
  obtain r where r: "tw_runs w i = Some r" "dg_replica (tr_entry r) = rep" "tr_phase r \<noteq> TaskChecked"
    using ok assms(2) by (auto simp: tasks_ok_def runs_true_def)
  have e: "dg_id (tr_entry r) = i" using ok r(1) by (auto simp: tasks_ok_def runs_true_def rows_true_def)
  obtain out ch where over: "tr_phase r = TaskOver out ch \<or> tr_phase r \<in> {TaskSaved, TaskTurn} \<and> out = outcome \<and> ch = c"
    using r(3) by (cases "tr_phase r") auto
  define w2 where "w2 = fold task_do [TaskStarts i, TaskTurnEnds i outcome c] w"
  have w2: "tw_runs w2 i = Some \<lparr>tr_entry = tr_entry r, tr_phase = TaskOver out ch\<rparr>"
    using over r(1) e by (cases r) (auto simp: w2_def task_starts_def task_over_def)
  have ok2: "tasks_ok w2" unfolding w2_def by (simp only: fold.simps comp_apply id_apply task_do_ok ok)
  define w3 where "w3 = task_do (TaskEnds i now) w2"
  have w3: "w3 = task_ends now out ch (tr_entry r) w2" by (simp add: w3_def w2)
  let ?d = "ended_record (tr_entry r) out ch now"
  obtain w' hit where cl: "closes ClosedByTurn ?d w2 = (w', hit)" by fastforce
  have "row_of i w2 \<noteq> None" using ok2 w2 by (fastforce simp: tasks_ok_def runs_true_def)
  then obtain row where row: "row_of i w2 = Some row" by blast
  have rows: "rows_true w2" using ok2 by (simp add: tasks_ok_def)
  have "\<exists>row'. row_of i w' = Some row' \<and> dg_status row' \<noteq> DELEGATION_RUNNING"
    using closes_rows(1) [OF rows cl] closes_rows(3) [OF rows cl, of i] row e by (cases hit) auto
  then have "(rep, i) \<notin> tw_ends w3 \<and> (\<exists>row. get_delegation i (tw_rows w3) = Some row \<and> dg_status row \<noteq> DELEGATION_RUNNING)"
    unfolding w3 task_ends_def cl Let_def using e r(2) by (simp add: end_of_def row_of_def)
  then show ?thesis unfolding w3_def w2_def by (auto simp: Let_def)
qed

definition sample_handed :: "string \<Rightarrow> bool \<Rightarrow> delegation_record" where
  "sample_handed i trusted =
     \<lparr>dg_id = i, dg_agent = ''a'', dg_to = ''b'', dg_channel_id = ''c'', dg_conversation_id = ''v'', dg_kind = ''thread'', dg_gateway = ''slack'',
      dg_task = ''do'', dg_user_id = ''u'', dg_status = DELEGATION_RUNNING, dg_started_at = 1, dg_files = [], dg_attributes = [], dg_finished_at = None,
      dg_answer = [], dg_notice = [], dg_delivered_at = None, dg_to_conversation_id = delegated_conversation_key i, dg_trusted = trusted,
      dg_replica = ''r''\<rparr>"

lemma does_reachable: "reachable init task_step w \<Longrightarrow> reachable init task_step (fold task_do ops w)"
proof (induction ops arbitrary: w)
  case (Cons op ops)
  have "task_step w (task_do op w)" unfolding task_step_def by blast
  then show ?case using Cons.IH [OF reachable.move [OF Cons.prems]] by simp
qed simp

lemmas race_simps = no_tasks_def task_goes_def task_saves_def task_starts_def task_over_def task_ends_def recover_one_def answer_told_def
  closes_def end_delegation_def save_delegation_def get_delegation_def fetchone_def del_where_def with_id_def rowcount_def Let_def
  sample_handed_def task_of_def ended_record_def called_off_def lost_record_def lost_def place_of_def end_of_def task_answer_def ANSWER_MAX_def

text \<open>A task that answers while its replica is taken for dead: one end, one answer.\<close>

definition sample_race :: task_world where
  "sample_race = fold task_do [TaskGoes (sample_handed ''1'' False), TaskSaves ''1'', TaskStarts ''1'', TaskRead ''s'' ''1'',
     TaskTurnEnds ''1'' REPLIED \<lparr>tk_replies = [''done''], tk_files = [], tk_notice = []\<rparr>, TaskEnds ''1'' 5,
     Recovers ''s'' (Some (\<lambda>_. False)) (sample_handed ''1'' False) 6,
     AnswerTold ''r'' (ended_record (sample_handed ''1'' False) REPLIED \<lparr>tk_replies = [''done''], tk_files = [], tk_notice = []\<rparr> 5) 7] no_tasks"

lemma a_task_is_answered_once_witness:
  "distinct (map fst (tw_closed sample_race)) \<and> tw_closed sample_race = [(''1'', ClosedByTurn)]
   \<and> map dg_answer (tw_told sample_race) = [''done'']"
proof -
  have "reachable (\<lambda>w. w = no_tasks) task_step sample_race"
    unfolding sample_race_def by (rule does_reachable) (simp add: reachable.start)
  moreover have "tw_closed sample_race = [(''1'', ClosedByTurn)] \<and> map dg_answer (tw_told sample_race) = [''done'']"
    by (simp add: sample_race_def race_simps)
  ultimately show ?thesis using a_task_is_answered_once [of sample_race] by blast
qed

definition sample_awaited :: task_world where
  "sample_awaited = fold task_do [TaskGoes (sample_handed ''1'' True), TaskSaves ''1''] no_tasks"

lemma an_awaited_answer_comes_witness:
  "let w' = fold task_do [TaskStarts ''1'', TaskTurnEnds ''1'' TIMEOUT empty_task_chat, TaskEnds ''1'' 9] sample_awaited in
     (''r'', ''1'') \<notin> tw_ends w' \<and> (\<exists>row. get_delegation ''1'' (tw_rows w') = Some row \<and> dg_status row \<noteq> DELEGATION_RUNNING)"
proof (rule an_awaited_answer_comes)
  show "reachable (\<lambda>w. w = no_tasks) task_step sample_awaited"
    unfolding sample_awaited_def by (rule does_reachable) (simp add: reachable.start)
  show "(''r'', ''1'') \<in> tw_ends sample_awaited"
    by (simp add: sample_awaited_def no_tasks_def task_goes_def task_saves_def sample_handed_def task_of_def end_of_def)
qed

section \<open>One task at a time in a conversation\<close>

definition places :: "(handed_run \<Rightarrow> bool) \<Rightarrow> (string \<rightharpoonup> handed_run) \<Rightarrow> (string \<times> string) set" where
  "places P runs = {place_of (tr_entry r) |i r. runs i = Some r \<and> P r}"

definition keyed_apart :: "(string \<rightharpoonup> handed_run) \<Rightarrow> bool" where
  "keyed_apart runs \<longleftrightarrow> (\<forall>i r. runs i = Some r \<longrightarrow> dg_to_conversation_id (tr_entry r) = delegated_conversation_key i)"

lemma places_moved:
  assumes "keyed_apart runs" and "dg_to_conversation_id e = delegated_conversation_key i" and "runs i = None \<or> (\<exists>ph. runs i = Some \<lparr>tr_entry = e, tr_phase = ph\<rparr>)"
  shows "places P (runs(i \<mapsto> \<lparr>tr_entry = e, tr_phase = ph'\<rparr>))
    = (if P \<lparr>tr_entry = e, tr_phase = ph'\<rparr> then insert (place_of e) (places P runs) else places P runs - {place_of e})"
    and "places P (runs(i := None)) = places P runs - {place_of e}"
proof -
  have other: "place_of (tr_entry r) = place_of e \<Longrightarrow> j = i" if "runs j = Some r" for j r
    using assms(1,2) that by (auto simp: keyed_apart_def place_of_def delegated_conversation_key_def)
  have own: "tr_entry r = e" if "runs i = Some r" for r using assms(3) that by auto
  have split: "places P runs - {place_of e} = {place_of (tr_entry r) |j r. runs j = Some r \<and> P r \<and> j \<noteq> i}"
  proof (rule set_eqI, rule iffI)
    fix p assume "p \<in> places P runs - {place_of e}"
    then obtain j r where "p = place_of (tr_entry r)" "runs j = Some r" "P r" "p \<noteq> place_of e" by (auto simp: places_def)
    then show "p \<in> {place_of (tr_entry r) |j r. runs j = Some r \<and> P r \<and> j \<noteq> i}" using own by blast
  next
    fix p assume "p \<in> {place_of (tr_entry r) |j r. runs j = Some r \<and> P r \<and> j \<noteq> i}"
    then show "p \<in> places P runs - {place_of e}" using other by (auto simp: places_def)
  qed
  show "places P (runs(i := None)) = places P runs - {place_of e}"
    unfolding split unfolding places_def by auto
  have "places P (runs(i \<mapsto> \<lparr>tr_entry = e, tr_phase = ph'\<rparr>))
      = {place_of (tr_entry r) |j r. runs j = Some r \<and> P r \<and> j \<noteq> i} \<union> (if P \<lparr>tr_entry = e, tr_phase = ph'\<rparr> then {place_of e} else {})"
    unfolding places_def by (auto split: if_splits)
  then show "places P (runs(i \<mapsto> \<lparr>tr_entry = e, tr_phase = ph'\<rparr>))
    = (if P \<lparr>tr_entry = e, tr_phase = ph'\<rparr> then insert (place_of e) (places P runs) else places P runs - {place_of e})"
    unfolding split [symmetric] by auto
qed

definition turn_runs :: "handed_run \<Rightarrow> bool" where
  "turn_runs r \<longleftrightarrow> tr_phase r = TaskTurn"

definition with_link :: "handed_run \<Rightarrow> bool" where
  "with_link r \<longleftrightarrow> dg_trusted (tr_entry r) \<and> (tr_phase r = TaskSaved \<or> tr_phase r = TaskTurn)"

definition apart_ok :: "task_world \<Rightarrow> bool" where
  "apart_ok w \<longleftrightarrow> tasks_ok w \<and> keyed_apart (tw_runs w) \<and> tw_busy w = places turn_runs (tw_runs w) \<and> tw_links w = places with_link (tw_runs w)"

lemma run_is_keyed: "apart_ok w \<Longrightarrow> tw_runs w i = Some r \<Longrightarrow> dg_id (tr_entry r) = i \<and> dg_to_conversation_id (tr_entry r) = delegated_conversation_key i"
  by (auto simp: apart_ok_def tasks_ok_def runs_true_def rows_true_def keyed_apart_def)

lemma keyed_moved: "keyed_apart runs \<Longrightarrow> dg_to_conversation_id e = delegated_conversation_key i \<Longrightarrow> keyed_apart (runs(i \<mapsto> \<lparr>tr_entry = e, tr_phase = ph\<rparr>))"
  "keyed_apart runs \<Longrightarrow> keyed_apart (runs(i := None))"
  by (auto simp: keyed_apart_def)

lemma apart_keeps:
  assumes "apart_ok w" and "tasks_ok w'" and "tw_runs w' = tw_runs w" and "tw_busy w' = tw_busy w" and "tw_links w' = tw_links w"
  shows "apart_ok w'"
  using assms by (simp add: apart_ok_def)

lemma places_fewer: "places P (\<lambda>i. case runs i of Some r \<Rightarrow> if dg_replica (tr_entry r) = rep then None else Some r | None \<Rightarrow> None)
    = {p \<in> places P runs. fst p \<noteq> rep}"
  unfolding places_def place_of_def by (auto split: option.splits if_splits)

lemma apart_goes:
  assumes ok: "apart_ok w" and key: "dg_to_conversation_id e = delegated_conversation_key (dg_id e)"
  shows "apart_ok (task_goes e w)"
proof (cases "tw_asked w (dg_id e) \<noteq> None \<or> place_of e \<in> tw_busy w \<or> task_of e \<noteq> e")
  case False
  have ka: "keyed_apart (tw_runs w)" and t: "tasks_ok w" using ok by (auto simp: apart_ok_def)
  have none: "tw_runs w (dg_id e) = None" using t False by (cases "tw_runs w (dg_id e)") (auto simp: tasks_ok_def runs_true_def)
  have out: "place_of e \<notin> places P (tw_runs w)" for P
    using ka none key by (auto simp: places_def keyed_apart_def place_of_def delegated_conversation_key_def)
  have "tasks_ok (task_goes e w)" using goes_ok [OF t] .
  then show ?thesis using ok False out places_moved(1) [OF ka key disjI1 [OF none], where ph' = TaskChecked] keyed_moved(1) [OF ka key]
    by (auto simp: apart_ok_def task_goes_def turn_runs_def with_link_def)
qed (use ok in \<open>auto simp: task_goes_def\<close>)

lemma apart_do: "apart_ok w \<Longrightarrow> apart op \<Longrightarrow> apart_ok (task_do op w)"
proof -
  assume ok: "apart_ok w" and ap: "apart op"
  have ka: "keyed_apart (tw_runs w)" and t: "tasks_ok w" using ok by (auto simp: apart_ok_def)
  have busy: "tw_busy w = places turn_runs (tw_runs w)" and links: "tw_links w = places with_link (tw_runs w)" using ok by (auto simp: apart_ok_def)
  have t': "tasks_ok (task_do op w)" using task_do_ok [OF t] .
  note keeps = apart_keeps [OF ok t']
  have moved: "apart_ok (task_do op w)"
    if r: "tw_runs w i = Some r" and runs: "tw_runs (task_do op w) = (tw_runs w)(i \<mapsto> \<lparr>tr_entry = tr_entry r, tr_phase = ph\<rparr>)"
      and b: "tw_busy (task_do op w) = (if ph = TaskTurn then insert (place_of (tr_entry r)) (tw_busy w) else tw_busy w - {place_of (tr_entry r)})"
      and l: "tw_links (task_do op w) = (if with_link \<lparr>tr_entry = tr_entry r, tr_phase = ph\<rparr> then insert (place_of (tr_entry r)) (tw_links w)
        else tw_links w - {place_of (tr_entry r)})" for i r ph
  proof -
    note e = run_is_keyed [OF ok r]
    have own: "tw_runs w i = None \<or> (\<exists>ph. tw_runs w i = Some \<lparr>tr_entry = tr_entry r, tr_phase = ph\<rparr>)"
      using r by (cases r) auto
    note pm = places_moved(1) [OF ka conjunct2 [OF e] own, where ph' = ph]
    show ?thesis unfolding apart_ok_def runs b l busy links pm using t' keyed_moved(1) [OF ka conjunct2 [OF e]] by (auto simp: turn_runs_def)
  qed
  have at: "place_of (tr_entry r) \<in> places P (tw_runs w) \<longleftrightarrow> P r" if r: "tw_runs w i = Some r" for i r P
  proof -
    have "j = i" if "tw_runs w j = Some x" "place_of (tr_entry x) = place_of (tr_entry r)" for j x
      using that r ka by (auto simp: keyed_apart_def place_of_def delegated_conversation_key_def)
    then have "P x" if "tw_runs w j = Some x" "place_of (tr_entry r) = place_of (tr_entry x)" "P r" for j x using that r by (metis option.inject)
    moreover have "P r" if "tw_runs w j = Some x" "place_of (tr_entry r) = place_of (tr_entry x)" "P x" for j x
      using that r \<open>\<And>j x. tw_runs w j = Some x \<Longrightarrow> place_of (tr_entry x) = place_of (tr_entry r) \<Longrightarrow> j = i\<close> by (metis option.inject)
    ultimately show ?thesis using r unfolding places_def by blast
  qed
  then have linked: "place_of (tr_entry r) \<in> tw_links w \<longleftrightarrow> with_link r" "place_of (tr_entry r) \<in> tw_busy w \<longleftrightarrow> turn_runs r"
    if "tw_runs w i = Some r" for i r using that unfolding links busy by blast+
  show "apart_ok (task_do op w)"
  proof (cases op)
    case (TaskGoes e)
    then show ?thesis using apart_goes [OF ok] ap by (simp add: apart_def)
  next
    case (TaskSaves i)
    show ?thesis
    proof (cases "\<exists>r. tw_runs w i = Some r \<and> tr_phase r = TaskChecked")
      case True
      then obtain r where r: "tw_runs w i = Some r" "tr_phase r = TaskChecked" by blast
      note e = run_is_keyed [OF ok r(1)]
      show ?thesis using moved [OF r(1), of TaskSaved] linked [OF r(1)] r e
        by (auto simp: TaskSaves task_saves_def with_link_def turn_runs_def)
    qed (use ok TaskSaves in \<open>auto split: option.splits\<close>)
  next
    case (TaskStarts i)
    show ?thesis
    proof (cases "\<exists>r. tw_runs w i = Some r \<and> tr_phase r = TaskSaved")
      case True
      then obtain r where r: "tw_runs w i = Some r" "tr_phase r = TaskSaved" by blast
      note e = run_is_keyed [OF ok r(1)]
      show ?thesis using moved [OF r(1), of TaskTurn] linked [OF r(1)] r e
        by (auto simp: TaskStarts task_starts_def with_link_def turn_runs_def insert_absorb)
    qed (use ok TaskStarts in \<open>auto split: option.splits\<close>)
  next
    case (TaskTurnEnds i out c)
    show ?thesis
    proof (cases "\<exists>r. tw_runs w i = Some r \<and> tr_phase r = TaskTurn")
      case True
      then obtain r where r: "tw_runs w i = Some r" "tr_phase r = TaskTurn" by blast
      note e = run_is_keyed [OF ok r(1)]
      show ?thesis using moved [OF r(1), of "TaskOver out c"] linked [OF r(1)] r e
        by (auto simp: TaskTurnEnds task_over_def with_link_def turn_runs_def)
    qed (use ok TaskTurnEnds in \<open>auto split: option.splits\<close>)
  next
    case (TaskEnds i now)
    show ?thesis
    proof (cases "\<exists>r out c. tw_runs w i = Some r \<and> tr_phase r = TaskOver out c")
      case True
      then obtain r out c where r: "tw_runs w i = Some r" "tr_phase r = TaskOver out c" by blast
      note e = run_is_keyed [OF ok r(1)]
      have own: "tw_runs w i = None \<or> (\<exists>ph. tw_runs w i = Some \<lparr>tr_entry = tr_entry r, tr_phase = ph\<rparr>)"
        using r by (cases r) auto
      obtain w1 hit where cl: "closes ClosedByTurn (ended_record (tr_entry r) out c now) w = (w1, hit)" by fastforce
      have w': "tw_runs (task_do op w) = (tw_runs w)(i := None)" "tw_busy (task_do op w) = tw_busy w" "tw_links (task_do op w) = tw_links w"
        using r e closes_only [OF cl] by (simp_all add: TaskEnds task_ends_def cl Let_def)
      have "places P ((tw_runs w)(i := None)) = places P (tw_runs w)" if "place_of (tr_entry r) \<notin> places P (tw_runs w)" for P
        using places_moved(2) [OF ka conjunct2 [OF e] own, of P] that by simp
      then show ?thesis unfolding apart_ok_def w' busy links
        using t' keyed_moved(2) [OF ka] linked [OF r(1)] r(2) unfolding busy links by (auto simp: with_link_def turn_runs_def)
    qed (use ok TaskEnds in \<open>auto split: option.splits task_phase.splits\<close>)
  next
    case (AskerTurnGone i now)
    show ?thesis
      by (rule keeps; cases "tw_runs w i"; simp add: AskerTurnGone asker_turn_ended_def)
        (auto simp: closes_only [OF prod.collapse [symmetric]])
  next
    case (CallsOff rep e n now)
    show ?thesis by (rule keeps; auto simp: CallsOff closes_only [OF prod.collapse [symmetric]])
  next
    case (Recovers rep live e now)
    obtain w1 hit where cl: "closes ClosedByLoss (lost_record e now) w = (w1, hit)" by fastforce
    show ?thesis by (rule keeps; simp add: Recovers recover_one_def cl closes_only [OF cl])
  next
    case (ReplicaDies rep)
    show ?thesis unfolding apart_ok_def
      using t' ka by (auto simp: ReplicaDies replica_dies_def places_fewer busy links keyed_apart_def split: option.splits if_splits)
  qed (rule keeps; auto simp: answer_told_def answer_not_told_def answer_raises_def split: option.splits)+
qed

interpretation apart: invariant_system "\<lambda>w. w = no_tasks" apart_step apart_ok
proof unfold_locales
  show "w = no_tasks \<Longrightarrow> apart_ok w" for w
    using no_tasks_ok by (simp add: apart_ok_def) (simp add: no_tasks_def keyed_apart_def places_def)
qed (auto simp: apart_step_def apart_do)

text \<open>Where agents keep a conversation per task, a conversation counts as busy exactly while a task's turn runs in
  it, one task to a conversation, and a trusted task's place to ask the person is there exactly from its record's
  being written until its turn is over.\<close>

lemma a_conversation_has_one_task:
  assumes "reachable (\<lambda>w. w = no_tasks) apart_step w" and "tw_runs w i = Some r"
  shows "(place_of (tr_entry r) \<in> tw_busy w \<longleftrightarrow> tr_phase r = TaskTurn)
    \<and> (place_of (tr_entry r) \<in> tw_links w \<longleftrightarrow> dg_trusted (tr_entry r) \<and> tr_phase r \<in> {TaskSaved, TaskTurn})
    \<and> (\<forall>j x. tw_runs w j = Some x \<and> place_of (tr_entry x) = place_of (tr_entry r) \<longrightarrow> j = i)"
proof -
  have ok: "apart_ok w" using apart.reachable_inv [OF assms(1)] .
  have one: "j = i" if "tw_runs w j = Some x" "place_of (tr_entry x) = place_of (tr_entry r)" for j x
    using that assms(2) ok by (auto simp: apart_ok_def keyed_apart_def place_of_def delegated_conversation_key_def)
  then have "place_of (tr_entry r) \<in> places P (tw_runs w) \<longleftrightarrow> P r" for P
    using assms(2) unfolding places_def by (smt (verit) mem_Collect_eq option.inject)
  then show ?thesis using ok one unfolding apart_ok_def with_link_def turn_runs_def by auto
qed

definition sample_two :: task_world where
  "sample_two = fold task_do [TaskGoes (sample_handed ''1'' True), TaskGoes (sample_handed ''2'' False), TaskSaves ''1'', TaskSaves ''2'',
     TaskStarts ''2''] no_tasks"

lemma apart_reachable: "reachable init apart_step w \<Longrightarrow> list_all apart ops \<Longrightarrow> reachable init apart_step (fold task_do ops w)"
proof (induction ops arbitrary: w)
  case (Cons op ops)
  have "apart_step w (task_do op w)" using Cons.prems(2) unfolding apart_step_def by auto
  then show ?case using Cons.IH [OF reachable.move [OF Cons.prems(1)]] Cons.prems(2) by simp
qed simp

lemma a_conversation_has_one_task_witness:
  "place_of (sample_handed ''2'' False) \<in> tw_busy sample_two \<and> place_of (sample_handed ''1'' True) \<notin> tw_busy sample_two
   \<and> place_of (sample_handed ''1'' True) \<in> tw_links sample_two"
proof -
  have r: "reachable (\<lambda>w. w = no_tasks) apart_step sample_two"
    unfolding sample_two_def by (rule apart_reachable) (simp_all add: reachable.start apart_def sample_handed_def)
  have runs: "tw_runs sample_two ''1'' = Some \<lparr>tr_entry = sample_handed ''1'' True, tr_phase = TaskSaved\<rparr>"
    "tw_runs sample_two ''2'' = Some \<lparr>tr_entry = sample_handed ''2'' False, tr_phase = TaskTurn\<rparr>"
    by (simp_all add: sample_two_def race_simps delegated_conversation_key_def)
  show ?thesis
    using a_conversation_has_one_task [OF r runs(1)] a_conversation_has_one_task [OF r runs(2)]
    by (simp add: sample_handed_def)
qed

text \<open>
  Where an agent keeps one conversation per asking conversation, \<open>_require_free\<close> looks before the copies and the
  record are awaited and the conversation is marked only when the turn starts: two tasks handed on together both
  pass, and the first to be over frees the conversation, and releases the link, of the one still running.
\<close>

definition handed_together :: "string \<Rightarrow> delegation_record" where
  "handed_together i = (sample_handed i True)\<lparr>dg_to_conversation_id := ''delegated:a-k''\<rparr>"

lemma two_tasks_in_one_conversation:
  fixes c :: task_chat
  defines "w \<equiv> fold task_do [TaskGoes (handed_together ''1''), TaskGoes (handed_together ''2''), TaskSaves ''1'', TaskSaves ''2'',
      TaskStarts ''1'', TaskStarts ''2'', TaskTurnEnds ''1'' REPLIED c] no_tasks"
  shows "map_option tr_phase (tw_runs w ''2'') = Some TaskTurn \<and> place_of (handed_together ''2'') \<notin> tw_busy w
    \<and> place_of (handed_together ''2'') \<notin> tw_links w"
  unfolding w_def by (simp add: race_simps handed_together_def)

text \<open>A task called off between its record and its turn's start is stopped nowhere: the turn runs to its end.\<close>

lemma called_off_but_runs:
  fixes c :: task_chat
  defines "w \<equiv> fold task_do [TaskGoes (sample_handed ''1'' False), TaskSaves ''1'', TaskRead ''r'' ''1'', CallsOff ''r'' (sample_handed ''1'' False) [] 5,
      TaskStarts ''1''] no_tasks"
  shows "map_option dg_status (get_delegation ''1'' (tw_rows w)) = Some (Ended DELEGATION_CANCELLED)
    \<and> map_option tr_phase (tw_runs w ''1'') = Some TaskTurn"
  unfolding w_def by (simp add: race_simps)

text \<open>And a store that cannot take the end leaves whoever awaits it waiting: nothing is left that would set it.\<close>

lemma awaiting_outlives_a_failing_store:
  assumes "(rep, i) \<in> tw_ends w"
  shows "(rep, i) \<in> tw_ends (end_not_written i w) \<and> tw_runs (end_not_written i w) i = None"
  using assms by (simp add: end_not_written_def)

section \<open>What leaves the asker\<close>

lemma each_checked_Inr: "each_checked f xs = Inr ys \<Longrightarrow> length ys = length xs \<and> (\<forall>n < length xs. f (xs ! n) = Inr (ys ! n))"
proof (induction xs arbitrary: ys)
  case (Cons x xs)
  then obtain y zs where "f x = Inr y" "each_checked f xs = Inr zs" "ys = y # zs" by (auto split: sum.splits)
  then show ?case using Cons.IH [of zs] by (auto simp: nth_Cons split: nat.splits)
qed simp

lemma checked_file_inside:
  "checked_file cfg agent fs roots p = Inr a \<Longrightarrow> at_path a = fs_resolve fs p \<and> (\<exists>root \<in> set roots. relative_to root (at_path a))"
  by (auto simp: checked_file_def Let_def split: if_splits option.splits)

text \<open>Every copy is inside a directory the asker may hand from, and within the size.\<close>

lemma sources_inside:
  assumes "sources cfg agent fs paths = Inr as" and "n < length paths"
  shows "length as = length paths \<and> at_path (as ! n) = fs_resolve fs (paths ! n)
    \<and> (\<exists>roots. dc_roots cfg = Some roots \<and> (\<exists>root \<in> set (roots agent). relative_to root (at_path (as ! n))))"
proof -
  obtain roots where r: "dc_roots cfg = Some roots" "each_checked (checked_file cfg agent fs (roots agent)) paths = Inr as"
    using assms by (auto simp: sources_def split: if_splits option.splits)
  then show ?thesis using each_checked_Inr [OF r(2)] assms(2) checked_file_inside [of cfg agent fs "roots agent" "paths ! n" "as ! n"] by auto
qed

lemma snapshot_digests:
  assumes "snapshot cfg pt stuck now to key task_id fs digests i as s = (s', Inr (copies, digested))"
  shows "length copies = length as \<and> length digested = length as
    \<and> (\<forall>n < length as. \<exists>data. fs_content fs (at_path (as ! n)) = Some data \<and> digested ! n = (at_name (as ! n), dc_sha cfg data)
        \<and> (\<forall>d. digests (at_path (as ! n)) = Some d \<and> d \<noteq> [] \<longrightarrow> dc_sha cfg data = d))"
  using assms
proof (induction as arbitrary: i s copies digested)
  case (Cons a as)
  obtain data where data: "fs_content fs (at_path a) = Some data" using Cons.prems by (auto split: option.splits)
  let ?sv = "save_file (dc_saver cfg) stuck to key (at_name a) data (task_id @ ''-'' @ show_nat i) now s"
  have ok: "\<not> (case digests (at_path a) of None \<Rightarrow> False | Some d \<Rightarrow> d \<noteq> [] \<and> d \<noteq> dc_sha cfg data)"
    using Cons.prems data by (auto simp: Let_def split: if_splits)
  obtain s1 nm p n where sv: "?sv = (s1, Some (nm, p, n))"
    using Cons.prems data ok by (cases ?sv) (auto simp: Let_def split: option.splits prod.splits)
  obtain cs ds where rest: "snapshot cfg pt stuck now to key task_id fs digests (i + 1) as s1 = (s', Inr (cs, ds))"
      and cd: "copies = \<lparr>at_name = at_name a, at_path = pt p, at_mime = at_mime a, at_size = length data\<rparr> # cs"
        "digested = (at_name a, dc_sha cfg data) # ds"
    using Cons.prems data ok sv by (auto simp: Let_def split: prod.splits sum.splits)
  show ?case using Cons.IH [OF rest] data ok unfolding cd by (auto simp: nth_Cons split: nat.splits)
qed simp

lemma preview_digest:
  "preview cfg decodes fs a = Inr p \<Longrightarrow> \<exists>data. fs_content fs (at_path a) = Some data \<and> fp_digest p = dc_sha cfg data"
  by (auto simp: preview_def Let_def split: option.splits if_splits)

lemma previewed_digests:
  assumes p: "preview_files cfg decodes agent fs paths = Inr previews" and n: "n < length paths"
  shows "length previews = length paths
    \<and> (\<exists>data. fs_content fs (fs_resolve fs (paths ! n)) = Some data \<and> fp_digest (previews ! n) = dc_sha cfg data
        \<and> previewed paths previews (paths ! n) = Some (dc_sha cfg data))"
proof -
  obtain as where as: "sources cfg agent fs paths = Inr as" and each: "each_checked (preview cfg decodes fs) as = Inr previews"
    using p by (auto simp: preview_files_def split: sum.splits)
  have len: "length as = length paths" "length previews = length paths"
    using sources_inside [OF as n] each_checked_Inr [OF each] by auto
  have shown: "\<exists>data. fs_content fs (fs_resolve fs (paths ! m)) = Some data \<and> fp_digest (previews ! m) = dc_sha cfg data"
    if "m < length paths" for m
    using preview_digest [of cfg decodes fs "as ! m" "previews ! m"] each_checked_Inr [OF each] sources_inside [OF as that] len that by auto
  obtain data where data: "fs_content fs (fs_resolve fs (paths ! n)) = Some data" "fp_digest (previews ! n) = dc_sha cfg data"
    using shown [OF n] by blast
  have "(paths ! n, fp_digest (previews ! n)) \<in> set (rev (zip paths (map fp_digest previews)))"
    using n len by (auto simp: set_zip)
  then obtain d where d: "previewed paths previews (paths ! n) = Some d"
    unfolding previewed_def by (metis map_of_eq_None_iff fst_conv image_eqI not_None_eq)
  then have "(paths ! n, d) \<in> set (zip paths (map fp_digest previews))"
    unfolding previewed_def using map_of_SomeD by fastforce
  then obtain m where "m < length paths" "paths ! m = paths ! n" "d = fp_digest (previews ! m)" using len by (auto simp: set_zip)
  then have "d = dc_sha cfg data" using shown [of m] data by auto
  then show ?thesis using data d len by blast
qed

text \<open>What the asked agent is handed is what the person read: when the paths are spelled as they resolve, every
  file that goes has the content the card was made from, whatever was written to it in between, or none goes.\<close>

lemma files_are_as_shown:
  assumes shown: "preview_files cfg decodes agent fs paths = Inr previews"
    and spelled: "\<And>p. p \<in> set paths \<Longrightarrow> fs_resolve fs p = p \<and> fs_resolve fs' p = p"
    and goes: "sources cfg agent fs' paths = Inr as"
      "snapshot cfg path_text stuck now to key task_id fs' (previewed paths previews) 0 as s = (s', Inr (copies, digested))"
    and hash: "\<And>d. dc_sha cfg d \<noteq> []"
  shows "length copies = length paths
    \<and> (\<forall>n < length paths. \<exists>read sent. fs_content fs (paths ! n) = Some read \<and> fs_content fs' (paths ! n) = Some sent
        \<and> dc_sha cfg sent = dc_sha cfg read \<and> snd (digested ! n) = dc_sha cfg read)"
proof -
  note sn = snapshot_digests [OF goes(2)]
  have len: "length as = length paths"
  proof (cases "paths = []")
    case True
    then show ?thesis using goes(1) by (simp add: sources_def)
  next
    case False
    then show ?thesis using sources_inside [OF goes(1), of 0] by simp
  qed
  have "\<exists>read sent. fs_content fs (paths ! n) = Some read \<and> fs_content fs' (paths ! n) = Some sent
      \<and> dc_sha cfg sent = dc_sha cfg read \<and> snd (digested ! n) = dc_sha cfg read" if n: "n < length paths" for n
  proof -
    have res: "fs_resolve fs (paths ! n) = paths ! n" "fs_resolve fs' (paths ! n) = paths ! n" using spelled n by auto
    then have at: "at_path (as ! n) = paths ! n" using sources_inside [OF goes(1) n] by simp
    obtain sent where sent: "fs_content fs' (paths ! n) = Some sent" "digested ! n = (at_name (as ! n), dc_sha cfg sent)"
      "\<And>d. previewed paths previews (paths ! n) = Some d \<Longrightarrow> d \<noteq> [] \<Longrightarrow> dc_sha cfg sent = d"
      using sn n len at by metis
    obtain read where "fs_content fs (paths ! n) = Some read" "previewed paths previews (paths ! n) = Some (dc_sha cfg read)"
      using previewed_digests [OF shown n] res by auto
    then show ?thesis using sent hash by auto
  qed
  then show ?thesis using sn len by auto
qed

definition sample_delegation :: delegation_config where
  "sample_delegation =
     \<lparr>dc_agents = [''a'', ''b''], dc_takes = (\<lambda>_. True), dc_roots = Some (\<lambda>_. [''/w'']),
      dc_saver = \<lparr>ac_max_bytes = 10, ac_conversation_max_bytes = 0, ac_digest = (\<lambda>s. s)\<rparr>, dc_max_file_bytes = 10,
      dc_mime = (\<lambda>_. []), dc_per_conversation = (\<lambda>_. False),
      dc_trust = (\<lambda>_ _. Some \<lparr>ta_secrets = [''k''], ta_connections = False, ta_context = []\<rparr>), dc_sha = (\<lambda>d. ''s'' @ d)\<rparr>"

text \<open>One file, and the name it is given by where that is not the file's own.\<close>

definition one_file :: "string \<Rightarrow> file_system" where
  "one_file words = \<lparr>fs_resolve = (\<lambda>p. if p = ''/w/x/../f'' then ''/w/f'' else p), fs_content = [''/w/f'' \<mapsto> words]\<rparr>"

lemmas hand_simps = preview_files_def sources_def MAX_FILES_PER_TASK_def checked_file_def relative_to_def starts_with_def one_file_def
  sample_delegation_def path_name_def preview_def Let_def FILE_PREVIEW_MAX_def previewed_def save_file_def saved_path_def

lemma shown_before: "preview_files sample_delegation Some ''a'' (one_file ''ok'') [q] =
    Inr [\<lparr>fp_name = ''f'', fp_size = 2, fp_text = Some ''ok'', fp_truncated = False, fp_digest = ''sok''\<rparr>]"
  if "q = ''/w/f'' \<or> q = ''/w/x/../f''"
  using that by (auto simp: hand_simps)

lemma files_after: "sources sample_delegation ''a'' (one_file w) [q] =
    Inr [\<lparr>at_name = ''f'', at_path = ''/w/f'', at_mime = [], at_size = length w\<rparr>]"
  if "(q = ''/w/f'' \<or> q = ''/w/x/../f'') \<and> length w \<le> 10"
  using that by (auto simp: hand_simps)

definition handed_copy :: "string \<Rightarrow> string \<Rightarrow> attachments \<times> (delegation_error + (attachment list \<times> (string \<times> string) list))" where
  "handed_copy q w = snapshot sample_delegation snd (\<lambda>_. False) 1 ''b'' ''k'' ''t'' (one_file w) [q \<mapsto> ''sok''] 0
     [\<lparr>at_name = ''f'', at_path = ''/w/f'', at_mime = [], at_size = length w\<rparr>] \<lparr>as_disk = [], as_records = (\<lambda>_. [])\<rparr>"

lemma files_are_as_shown_witness:
  "\<exists>copies digested. snd (handed_copy ''/w/f'' ''ok'') = Inr (copies, digested) \<and> length copies = 1 \<and> snd (digested ! 0) = ''sok''"
proof -
  let ?p = "[\<lparr>fp_name = ''f'', fp_size = 2, fp_text = Some ''ok'', fp_truncated = False, fp_digest = ''sok''\<rparr>]"
  have card: "[''/w/f'' \<mapsto> ''sok''] = previewed [''/w/f''] ?p" by (simp add: previewed_def)
  obtain s' copies digested where h: "handed_copy ''/w/f'' ''ok'' = (s', Inr (copies, digested))"
    by (simp add: handed_copy_def hand_simps)
  have "length copies = length [''/w/f''] \<and> (\<forall>n < length [''/w/f'']. \<exists>read sent. fs_content (one_file ''ok'') ([''/w/f''] ! n) = Some read
      \<and> fs_content (one_file ''ok'') ([''/w/f''] ! n) = Some sent \<and> dc_sha sample_delegation sent = dc_sha sample_delegation read
      \<and> snd (digested ! n) = dc_sha sample_delegation read)"
    by (rule files_are_as_shown [OF shown_before _ files_after h [unfolded handed_copy_def card]])
      (auto simp: one_file_def sample_delegation_def)
  then show ?thesis using h by (auto simp: one_file_def sample_delegation_def)
qed

text \<open>
  The card's digests are kept by the paths as the agent wrote them, the copy looks them up by the paths as they
  resolve: a file named by another spelling goes with whatever is in it by then.
\<close>

lemma respelled_path_unchecked:
  "map_sum id (map fp_text) (preview_files sample_delegation Some ''a'' (one_file ''ok'') [''/w/x/../f'']) = Inr [Some ''ok'']
   \<and> map_sum id snd (snd (handed_copy ''/w/x/../f'' ''evil'')) = Inr [(''f'', ''sevil'')]
   \<and> snd (handed_copy ''/w/f'' ''evil'') = Inl (FileChanged ''f'')"
  by (simp add: shown_before handed_copy_def) (simp add: hand_simps)

lemma dict_over_get: "map_of (dict_over base upon) k = (case map_of (rev upon) k of Some v \<Rightarrow> Some v | None \<Rightarrow> map_of base k)"
proof (induction upon arbitrary: base)
  case (Cons x xs)
  obtain a b where x: "x = (a, b)" by (cases x)
  show ?case using Cons.IH [of "AList.update a b base"]
    by (auto simp: dict_over_def x map_add_def update_conv' split: option.splits)
qed (simp add: dict_over_def)

lemma task_attributes_get:
  "map_of (rev (task_attributes e)) k = (if k = ''delegated_by'' then Some (dg_agent e) else if k = ''delegation_task'' then Some (dg_id e)
     else if k = ''on_behalf_of_gateway'' then Some (dg_gateway e) else None)"
  by (simp add: task_attributes_def)

text \<open>Of the person's secrets a task is handed none, a trusted one those its trust names, as the asker's turn
  held them; and whatever the asker's turn carried, the task's turn says truly which agent asked, on which task and
  through which gateway, and holds the person's accounts only if the trust, or the asker's own turn, does.\<close>

lemma a_task_carries_what_it_may:
  assumes "(n, v) \<in> set (ts_secrets (trusted_scope trust scope e))"
  shows "n \<in> set (ta_secrets trust) \<and> (\<exists>s. scope = Some s \<and> map_of (ts_secrets s) n = Some v)
    \<and> ts_secrets (delegated_scope scope e) = []
    \<and> (\<forall>sc \<in> {delegated_scope scope e, trusted_scope trust scope e}.
        map_of (ts_attributes sc) ''delegated_by'' = Some (dg_agent e) \<and> map_of (ts_attributes sc) ''delegation_task'' = Some (dg_id e)
        \<and> map_of (ts_attributes sc) ''on_behalf_of_gateway'' = Some (dg_gateway e))
    \<and> (map_of (ts_attributes (trusted_scope trust scope e)) ''accounts_handed'' \<noteq> None \<longrightarrow>
        ta_connections trust \<or> (\<exists>s. scope = Some s \<and> map_of (ts_attributes s) ''accounts_handed'' \<noteq> None))"
proof -
  have "n \<in> set (ta_secrets trust) \<and> (\<exists>s. scope = Some s \<and> map_of (ts_secrets s) n = Some v)"
    using assms by (auto simp: trusted_scope_def Let_def List.map_filter_def split: option.splits)
  then show ?thesis
    by (auto simp: delegated_scope_def trusted_scope_def Let_def dict_over_get task_attributes_get update_conv' split: option.splits)
qed

lemma a_task_carries_what_it_may_witness:
  "''k'' \<in> set (ta_secrets \<lparr>ta_secrets = [''k''], ta_connections = False, ta_context = []\<rparr>)"
proof -
  let ?t = "\<lparr>ta_secrets = [''k''], ta_connections = False, ta_context = []\<rparr>"
  let ?s = "\<lparr>ts_turn_id = ''t'', ts_secrets = [(''k'', ''v''), (''other'', ''w'')], ts_attributes = [(''delegated_by'', ''me'')], ts_flags = {||}\<rparr>"
  have "(''k'', ''v'') \<in> set (ts_secrets (trusted_scope ?t (Some ?s) (sample_handed ''1'' True)))"
    by (simp add: trusted_scope_def Let_def List.map_filter_def)
  then show ?thesis using a_task_carries_what_it_may [of "''k''" "''v''" ?t "Some ?s" "sample_handed ''1'' True"] by simp
qed

section \<open>What the asker reads of a task's turn\<close>

definition notice_codes :: "task_post list \<Rightarrow> string list" where
  "notice_codes ps = List.map_filter (\<lambda>p. case p of PostsNotice c \<Rightarrow> Some c | _ \<Rightarrow> None) ps"

definition told_notice :: "string list \<Rightarrow> string" where
  "told_notice codes =
     (let ends = filter (\<lambda>c. c \<in> TURN_END_NOTICES) codes; others = filter (\<lambda>c. c \<noteq> []) codes in
      if ends \<noteq> [] then last ends else if others \<noteq> [] then hd others else [])"

lemma told_notice_snoc: "told_notice (codes @ [c]) = (if c \<in> TURN_END_NOTICES \<or> told_notice codes = [] then c else told_notice codes)"
proof -
  have no: "[] \<notin> TURN_END_NOTICES" by (simp add: TURN_END_NOTICES_def NOTICE_STOPPED_def NOTICE_EMPTY_ANSWER_def NOTICE_TRUNCATED_def)
  have "last (filter P codes) \<noteq> []" if "filter P codes \<noteq> []" "\<not> P []" for P
    using last_in_set [OF that(1)] that(2) by auto
  moreover have "hd (filter P codes) \<noteq> []" if "filter P codes \<noteq> []" "\<not> P []" for P
    using hd_in_set [OF that(1)] that(2) by auto
  ultimately show ?thesis using no by (auto simp: told_notice_def Let_def)
qed

text \<open>The asker reads of a task's turn at most the agreed length of what it said, and as its notice how the turn
  ended: the last notice of an end, which no other note displaces, and the first of the others where none came.\<close>

lemma the_asker_reads_the_end:
  "length (task_answer (fold task_posts ps empty_task_chat)) \<le> ANSWER_MAX
   \<and> tk_notice (fold task_posts ps empty_task_chat) = told_notice (notice_codes ps)"
proof (induction ps rule: rev_induct)
  case (snoc p ps)
  then show ?case
    by (cases p) (auto simp: notice_codes_def List.map_filter_def told_notice_snoc task_answer_def)
qed (simp add: empty_task_chat_def notice_codes_def told_notice_def List.map_filter_def task_answer_def)

text \<open>A card of a trusted task that was copied is taken back everywhere only while every client answers.\<close>

lemma retract_stops_at_the_first_failure:
  defines "l \<equiv> \<lparr>tl_to = ''b'', tl_poster = 0, tl_elsewhere = [1]\<rparr>"
  defines "c \<equiv> \<lparr>tc_chat = empty_task_chat, tc_posted = Map.empty, tc_waiting = Map.empty\<rparr>"
  defines "posted \<equiv> trusted_confirmation (Some l) (\<lambda>p. PostedAs (if p = 0 then ''x'' else ''y'')) c"
  shows "snd posted = CardPosted ''x'' \<and> rewritten_copies ''x'' (fst posted) = [(0, ''x''), (1, ''y'')]
    \<and> snd (take_back (\<lambda>p. p = 0) ''x'' (fst posted)) = [] \<and> rewritten_copies ''x'' (fst (take_back (\<lambda>p. p = 0) ''x'' (fst posted))) = []"
  by (simp add: posted_def c_def l_def trusted_confirmation_def Let_def rewritten_copies_def take_back_def)

text \<open>Where a card reached anybody, every copy that was made is one a rewrite goes to.\<close>

lemma every_copy_is_rewritten:
  assumes "trusted_confirmation (Some l) post c = (c', CardPosted i)" and "i \<noteq> []"
  shows "set (rewritten_copies i c') = {(p, j). p \<in> set (tl_poster l # tl_elsewhere l) \<and> post p = PostedAs j \<and> j \<noteq> []}"
proof -
  have copies: "set (card_copies post ps) = {(p, j). p \<in> set ps \<and> post p = PostedAs j \<and> j \<noteq> []}" for ps
    by (induction ps) (auto split: posted.splits)
  obtain p rest where c: "card_copies post (tl_poster l # tl_elsewhere l) = (p, i) # rest" "c' = c\<lparr>tc_posted := (tc_posted c)(i \<mapsto> (p, i) # rest)\<rparr>"
    using assms unfolding trusted_confirmation_def Let_def by (auto simp del: card_copies.simps split: list.splits if_splits)
  have "rewritten_copies i c' = card_copies post (tl_poster l # tl_elsewhere l)" unfolding c by (simp add: rewritten_copies_def del: card_copies.simps)
  then show ?thesis using copies [of "tl_poster l # tl_elsewhere l"] by (simp only:)
qed

end
