(* ===== verification/Ward.thy ===== *)
theory Ward
  imports Approvals Containment
begin

text \<open>
  The secret broker: how a secret is named (\<open>packages/wardline/src/wardline/wire.py\<close>), its policy
  (\<open>packages/ward/src/ward/store.py\<close>, \<open>policy.py\<close>, \<open>decisions.py\<close>), who is trusted
  (\<open>approvers.py\<close>), the request and what a caller may learn (\<open>ports.py\<close>), and the decision
  itself (\<open>broker.py\<close>).

  The outside answers through a record: the backend's status and its reads, whether a card could
  be posted, the clicks that came before the question expired, the clock readings.  What the
  broker asks of the outside is kept in order in \<open>touched\<close>.  Identifiers are drawn from a
  stream of tokens.  A result of \<open>None\<close> is an exception of the database (a primary key taken).
\<close>

section \<open>References\<close>

definition SCHEMES :: "string list" where "SCHEMES = [''vault://'', ''secret://'']"
definition DEFAULT_FIELD :: string where "DEFAULT_FIELD = ''value''"

datatype wire_word = WIRE_REFUSED | WIRE_UNAVAILABLE
datatype approval_mode = APPROVAL_ALWAYS | APPROVAL_NEVER

datatype secret_ref = SecretRef (ref_name: string) (ref_field: string)

datatype ref_error = NotAReference string | MalformedName string | MalformedField string

definition lower_digit :: "char \<Rightarrow> bool" where
  "lower_digit c \<longleftrightarrow> is_digit c \<or> (97 \<le> (of_char c :: nat) \<and> (of_char c :: nat) \<le> 122)"

definition word_char :: "char \<Rightarrow> bool" where
  "word_char c \<longleftrightarrow> lower_digit c \<or> (65 \<le> (of_char c :: nat) \<and> (of_char c :: nat) \<le> 90)"

text \<open>A \<open>$\<close> of a regular expression matches at the end and before a final newline.\<close>

definition at_end :: "(string \<Rightarrow> bool) \<Rightarrow> string \<Rightarrow> bool" where
  "at_end p s \<longleftrightarrow> p s \<or> s \<noteq> [] \<and> last s = LF \<and> p (butlast s)"

definition name_body :: "string \<Rightarrow> bool" where
  "name_body s = (case s of [] \<Rightarrow> False
     | c # cs \<Rightarrow> lower_digit c \<and> list_all (\<lambda>d. lower_digit d \<or> d \<in> set ''._-'') cs \<and> length cs \<le> 63)"

definition field_body :: "string \<Rightarrow> bool" where
  "field_body s \<longleftrightarrow> s \<noteq> [] \<and> length s \<le> 64 \<and> list_all (\<lambda>d. word_char d \<or> d \<in> set ''._-'') s"

definition name_match :: "string \<Rightarrow> bool" where "name_match = at_end name_body"
definition field_match :: "string \<Rightarrow> bool" where "field_match = at_end field_body"

text \<open>\<open>str.partition\<close>: before the separator, whether it was there, after it.\<close>

definition partition_at :: "char \<Rightarrow> string \<Rightarrow> string \<times> bool \<times> string" where
  "partition_at sep s = (let before = takeWhile (\<lambda>c. c \<noteq> sep) s; rest = dropWhile (\<lambda>c. c \<noteq> sep) s in
     (before, rest \<noteq> [], tl rest))"

definition parse_ref :: "string \<Rightarrow> ref_error + secret_ref" where
  "parse_ref raw =
     (let text = strip raw in
      case filter (\<lambda>scheme. starts_with scheme text) SCHEMES of
        [] \<Rightarrow> Inl (NotAReference raw)
      | scheme # _ \<Rightarrow>
          (case partition_at (CHR ''#'') (drop (length scheme) text) of
             (name, sep, rest) \<Rightarrow>
               let field = (if sep then rest else DEFAULT_FIELD) in
               if \<not> name_match name then Inl (MalformedName name)
               else if \<not> field_match field then Inl (MalformedField field)
               else Inr (SecretRef name field)))"

definition show_ref :: "secret_ref \<Rightarrow> string" where
  "show_ref r = ''vault://'' @ ref_name r @ (if ref_field r \<noteq> DEFAULT_FIELD then ''#'' @ ref_field r else [])"

section \<open>Decisions\<close>

definition KIND_SECRET :: string where "KIND_SECRET = ''secret''"
definition KIND_OPERATOR :: string where "KIND_OPERATOR = ''operator''"

datatype decision =
    DECISION_APPROVED_ONCE | DECISION_APPROVED_GRANT | DECISION_REUSED_GRANT | DECISION_DENIED
  | DECISION_TIMEOUT | DECISION_NO_APPROVER | DECISION_AUTO | DECISION_AUTO_COMMAND
  | DECISION_NO_POLICY | DECISION_NOT_PERMITTED | DECISION_NOT_REACHED | DECISION_LOCKED
  | DECISION_SEALED | DECISION_BACKEND_ERROR

fun decision_text :: "decision \<Rightarrow> string" where
  "decision_text DECISION_APPROVED_ONCE = ''approved_once''"
| "decision_text DECISION_APPROVED_GRANT = ''approved_grant''"
| "decision_text DECISION_REUSED_GRANT = ''reused_grant''"
| "decision_text DECISION_DENIED = ''denied''"
| "decision_text DECISION_TIMEOUT = ''timeout''"
| "decision_text DECISION_NO_APPROVER = ''no_approver''"
| "decision_text DECISION_AUTO = ''auto''"
| "decision_text DECISION_AUTO_COMMAND = ''auto_command''"
| "decision_text DECISION_NO_POLICY = ''no_policy''"
| "decision_text DECISION_NOT_PERMITTED = ''not_permitted''"
| "decision_text DECISION_NOT_REACHED = ''not_reached''"
| "decision_text DECISION_LOCKED = ''locked''"
| "decision_text DECISION_SEALED = ''sealed''"
| "decision_text DECISION_BACKEND_ERROR = ''backend_error''"

definition UNAVAILABLE_DECISIONS :: "decision list" where
  "UNAVAILABLE_DECISIONS = [DECISION_LOCKED, DECISION_SEALED, DECISION_BACKEND_ERROR]"

definition wire_status :: "decision \<Rightarrow> wire_word" where
  "wire_status d = (if d \<in> set UNAVAILABLE_DECISIONS then WIRE_UNAVAILABLE else WIRE_REFUSED)"

section \<open>Policies\<close>

record secret_policy =
  sp_name :: string
  sp_approval :: approval_mode
  sp_max_grant_s :: int
  sp_subjects :: string
  sp_description :: string
  sp_created_at :: stamp
  sp_updated_at :: stamp
  sp_auto_commands :: string

definition allows :: "secret_policy \<Rightarrow> string \<Rightarrow> bool" where
  "allows p agent \<longleftrightarrow> agent \<in> set (map strip (filter (\<lambda>s. strip s \<noteq> []) (split_on (CHR '','') [] (sp_subjects p))))"

definition policy_rules :: "secret_policy \<Rightarrow> rule list" where
  "policy_rules p = decode (sp_auto_commands p)"

definition get_policy :: "string \<Rightarrow> secret_policy list \<Rightarrow> secret_policy option" where
  "get_policy name ps = fetchone (\<lambda>p. sp_name p = name) ps"

definition list_policies :: "secret_policy list \<Rightarrow> secret_policy list" where
  "list_policies ps = sort_key sp_name ps"

text \<open>The upsert on the name keeps \<open>created_at\<close>.\<close>

definition put_policy :: "secret_policy \<Rightarrow> secret_policy list \<Rightarrow> secret_policy list" where
  "put_policy p ps =
     (if \<exists>q \<in> set ps. sp_name q = sp_name p
      then upd_where (\<lambda>q. sp_name q = sp_name p) (\<lambda>q. p\<lparr>sp_created_at := sp_created_at q\<rparr>) ps
      else ps @ [p])"

definition delete_policy :: "string \<Rightarrow> secret_policy list \<Rightarrow> secret_policy list \<times> bool" where
  "delete_policy name ps =
     (del_where (\<lambda>p. sp_name p = name) ps, rowcount (\<lambda>p. sp_name p = name) ps = 1)"

datatype outcome = ASK | ALLOW | REFUSE

record verdict =
  v_outcome :: outcome
  v_decision :: "decision option"
  v_rule :: string

definition evaluate :: "secret_policy option \<Rightarrow> string \<Rightarrow> string list \<Rightarrow> verdict" where
  "evaluate policy agent command =
     (case policy of
        None \<Rightarrow> \<lparr>v_outcome = REFUSE, v_decision = Some DECISION_NO_POLICY, v_rule = []\<rparr>
      | Some p \<Rightarrow>
          if \<not> allows p agent
          then \<lparr>v_outcome = REFUSE, v_decision = Some DECISION_NOT_PERMITTED, v_rule = []\<rparr>
          else if sp_approval p = APPROVAL_NEVER
          then \<lparr>v_outcome = ALLOW, v_decision = Some DECISION_AUTO, v_rule = []\<rparr>
          else
            let rule = (if command \<noteq> [] then matching (policy_rules p) command else []) in
            if rule \<noteq> []
            then \<lparr>v_outcome = ALLOW, v_decision = Some DECISION_AUTO_COMMAND, v_rule = rule\<rparr>
            else \<lparr>v_outcome = ASK, v_decision = None, v_rule = []\<rparr>)"

definition window_ceiling :: "secret_policy option \<Rightarrow> int \<Rightarrow> int" where
  "window_ceiling policy deployment_s =
     (case policy of None \<Rightarrow> 0
      | Some p \<Rightarrow> if deployment_s > 0 then min (sp_max_grant_s p) deployment_s else sp_max_grant_s p)"

section \<open>Approvers\<close>

text \<open>\<open>directory\<close> answers the id of a username; \<open>None\<close> when no directory is wired or it does not
  know the name.\<close>

definition approver_entries :: "string \<Rightarrow> string list" where
  "approver_entries configured =
     map (\<lambda>e. dropWhile (\<lambda>c. c = CHR ''@'') (strip e)) (filter (\<lambda>e. strip e \<noteq> []) (split_on (CHR '','') [] configured))"

definition approver_ids :: "(string \<Rightarrow> string option) \<Rightarrow> string \<Rightarrow> string set option \<Rightarrow> string set" where
  "approver_ids directory configured cached =
     (case cached of Some ids \<Rightarrow> ids
      | None \<Rightarrow> set (map (\<lambda>e. case directory e of None \<Rightarrow> e | Some known \<Rightarrow> if known = [] then e else known)
          (approver_entries configured)))"

definition approver_allows :: "(string \<Rightarrow> string option) \<Rightarrow> string \<Rightarrow> string set option \<Rightarrow> string \<Rightarrow> bool" where
  "approver_allows directory configured cached user \<longleftrightarrow>
     user \<noteq> [] \<and> user \<in> approver_ids directory configured cached"

section \<open>Requests\<close>

record backend_status =
  reachable_now :: bool
  sealed :: bool
  authenticated :: bool

definition usable :: "backend_status \<Rightarrow> bool" where
  "usable st \<longleftrightarrow> reachable_now st \<and> \<not> sealed st \<and> authenticated st"

record lease_request =
  lr_agent :: string
  lr_bindings :: "(string \<times> secret_ref) list"
  lr_reason :: string
  lr_command :: "string list"

definition names :: "lease_request \<Rightarrow> string list" where
  "names q = dedup (map (ref_name \<circ> snd) (lr_bindings q))"

definition references :: "lease_request \<Rightarrow> string list" where
  "references q = dedup (map (show_ref \<circ> snd) (lr_bindings q))"

record lease_result =
  granted :: bool
  result_decision :: decision
  result_values :: "string \<rightharpoonup> string"

end
