(* ===== verification/Broker.thy ===== *)
theory Broker
  imports Ward
begin

text \<open>
  The decision between an agent asking for a secret and getting one:
  \<open>packages/ward/src/ward/broker.py\<close>, with the cards of \<open>card.py\<close>.

  A request is one step here, from its arrival to its answer: policies, windows and the registry are as they were but for
  what the request does itself.  \<open>LeaseWait\<close> cuts it where it waits for a person, and says what is then still true.

  Icons are left out, dashes and apostrophes outside the first 256 code points are written with
  ASCII ones, and a card's expiry is the stamp it is rendered from.
\<close>

section \<open>Cards\<close>

record card =
  cd_agent :: string
  cd_headline :: string
  cd_fields :: "(string \<times> string) list"
  cd_block :: string
  cd_verdict :: "verdict_kind option"
  cd_grant_s :: int
  cd_expires_at :: "stamp option"

definition secret_label :: "string list \<Rightarrow> string" where
  "secret_label refs = (if length refs = 1 then ''Secret'' else ''Secrets'')"

definition approval_card :: "string \<Rightarrow> string list \<Rightarrow> string \<Rightarrow> string list \<Rightarrow> stamp \<Rightarrow> card" where
  "approval_card agent refs reason command expires =
     \<lparr>cd_agent = agent, cd_headline = ''is asking for a secret.'',
      cd_fields = [(secret_label refs, join '', '' refs), (''Reason'', reason)],
      cd_block = command_line COMMAND_LIMIT command, cd_verdict = None, cd_grant_s = 0,
      cd_expires_at = Some expires\<rparr>"

definition verdict_card :: "string \<Rightarrow> string \<Rightarrow> string list \<Rightarrow> string list \<Rightarrow> verdict_kind \<Rightarrow> int \<Rightarrow> card" where
  "verdict_card words agent refs command v n =
     \<lparr>cd_agent = agent, cd_headline = words @ ''.'',
      cd_fields = [(secret_label refs, join '', '' refs)],
      cd_block = command_line COMMAND_LIMIT command, cd_verdict = Some v, cd_grant_s = n,
      cd_expires_at = None\<rparr>"

definition notice_card :: "string \<Rightarrow> string list \<Rightarrow> string list \<Rightarrow> string list \<Rightarrow> int \<Rightarrow> card" where
  "notice_card agent refs command rules repeats =
     \<lparr>cd_agent = agent, cd_headline = ''took a secret automatically.'',
      cd_fields = [(secret_label refs, join '', '' refs),
                   (if length rules = 1 then ''Rule'' else ''Rules'', join '', '' rules)]
        @ (if repeats > 1 then [(''Times'', show_int repeats @ '' so far'')] else []),
      cd_block = command_line COMMAND_LIMIT command, cd_verdict = None, cd_grant_s = 0,
      cd_expires_at = None\<rparr>"

section \<open>State\<close>

text \<open>What the broker does to the outside, in order.\<close>

datatype touch =
    AsksStatus
  | PostsCard string card "action list"
  | RewritesCard string card
  | ReadsSecret secret_ref

record folded =
  f_post_id :: string
  f_repeats :: int
  f_until :: int

record broker_config =
  bc_token :: "nat \<Rightarrow> string"
  bc_channel :: string
  bc_approvers :: string
  bc_directory :: "string \<Rightarrow> string option"
  bc_timeout_s :: int
  bc_max_grant_s :: int
  bc_fold :: int

record broker =
  policies :: "secret_policy list"
  ledger :: approval_db
  waiting :: approvals
  notices :: "string \<times> string list \<rightharpoonup> folded"
  resolved :: "string set option"
  drawn :: nat
  touched :: "touch list"

text \<open>
  What the outside answers one request: the backend's status, whether the agent has a poster, how
  it opens a direct conversation, the id of the post (or that posting raised), the clicks until
  the question expires, the reads (a failed one says whether the store was sealed), and clocks.
\<close>

record world =
  wd_status :: backend_status
  wd_poster :: bool
  wd_direct :: "(string \<Rightarrow> string) option"
  wd_post :: "string option"
  wd_clicks :: "click list"
  wd_read :: "secret_ref \<Rightarrow> bool + string"
  wd_asked_at :: stamp
  wd_answered_at :: stamp
  wd_elapsed_ms :: int
  wd_monotonic :: int

definition touch :: "touch \<Rightarrow> broker \<Rightarrow> broker" where
  "touch e b = b\<lparr>touched := touched b @ [e]\<rparr>"

definition MAX_REASON :: nat where "MAX_REASON = 200"

section \<open>Asking\<close>

definition approval_conversation :: "broker_config \<Rightarrow> world \<Rightarrow> string set \<Rightarrow> string" where
  "approval_conversation c w ids =
     (if bc_channel c \<noteq> [] then bc_channel c
      else case wd_direct w of
        None \<Rightarrow> []
      | Some open_direct \<Rightarrow>
          (case filter (\<lambda>ch. ch \<noteq> []) (map open_direct (sorted_list_of_set ids)) of [] \<Rightarrow> [] | ch # _ \<Rightarrow> ch))"

text \<open>The wait: clicks are routed by the registry until one answers this request.\<close>

fun await_answer :: "string \<Rightarrow> click list \<Rightarrow> approvals \<Rightarrow> approvals \<times> approval option" where
  "await_answer token [] reg = (reg, None)"
| "await_answer token ((tk, v, u) # ks) reg =
     (case resolve tk v u reg of
        (reg', out, ans) \<Rightarrow> if tk = token \<and> out = RESOLVED then (reg', ans) else await_answer token ks reg')"

definition answered_card :: "lease_request \<Rightarrow> approval option \<Rightarrow> card" where
  "answered_card q answer =
     (case answer of
        None \<Rightarrow> verdict_card ''Nobody answered in time, so the request was refused''
                  (lr_agent q) (references q) (lr_command q) VERDICT_EXPIRED 0
      | Some a \<Rightarrow> (case verdict_of a of (v, words) \<Rightarrow>
                    verdict_card words (lr_agent q) (references q) (lr_command q) v (grant_s a)))"

definition rewrite :: "string \<Rightarrow> card \<Rightarrow> broker \<Rightarrow> broker" where
  "rewrite post cd b = (if post = [] then b else touch (RewritesCard post cd) b)"

definition broker_ids :: "broker_config \<Rightarrow> broker \<Rightarrow> string set" where
  "broker_ids c b = approver_ids (bc_directory c) (bc_approvers c) (resolved b)"

text \<open>The wait in front of a posted card.\<close>

definition await_card :: "string \<Rightarrow> string \<Rightarrow> world \<Rightarrow> lease_request \<Rightarrow> broker \<Rightarrow> broker \<times> approval" where
  "await_card token post w q b =
     (case await_answer token (wd_clicks w) (waiting b) of
        (reg, None) \<Rightarrow> (rewrite post (answered_card q None) (b\<lparr>waiting := discard token reg\<rparr>),
                        \<lparr>allowed = False, grant_s = 0, approver = [], timed_out = True\<rparr>)
      | (reg, Some a) \<Rightarrow> (rewrite post (answered_card q (Some a)) (b\<lparr>waiting := reg\<rparr>), a))"

definition ask :: "broker_config \<Rightarrow> world \<Rightarrow> lease_request \<Rightarrow> int \<Rightarrow> broker \<Rightarrow> broker \<times> approval option" where
  "ask c w q ceiling_s b0 =
     (let ids = broker_ids c b0; b = b0\<lparr>resolved := Some ids\<rparr> in
      if ids = {} \<or> \<not> wd_poster w then (b, None)
      else let channel = approval_conversation c w ids in
      if channel = [] then (b, None)
      else
        let token = bc_token c (drawn b);
            b1 = b\<lparr>waiting := register token KIND_SECRET (lr_agent q) (names q) ids (waiting b),
                   drawn := Suc (drawn b)\<rparr>;
            b2 = touch (PostsCard channel
                   (approval_card (lr_agent q) (references q) (take MAX_REASON (lr_reason q)) (lr_command q)
                      (wd_asked_at w + bc_timeout_s c))
                   (approval_actions token (windows GRANT_LADDER ceiling_s))) b1 in
        (case wd_post w of
           None \<Rightarrow> (b2\<lparr>waiting := discard token (waiting b2)\<rparr>, None)
         | Some post \<Rightarrow> apsnd Some (await_card token post w q b2)))"

section \<open>The ledger\<close>

definition audit_row :: "world \<Rightarrow> lease_request \<Rightarrow> string \<Rightarrow> string \<Rightarrow> string \<Rightarrow> decision option \<Rightarrow> string \<Rightarrow> string
    \<Rightarrow> string \<Rightarrow> approval_audit" where
  "audit_row w q rid token name d who gid rule =
     \<lparr>au_id = ''au_'' @ token, au_at = wd_answered_at w, au_kind = KIND_SECRET, au_principal = lr_agent q,
      au_scope = name,
      au_reason = (if rule \<noteq> [] then ''rule: '' @ rule @ '' - '' @ take MAX_REASON (lr_reason q)
                   else take MAX_REASON (lr_reason q)),
      au_detail = command_line COMMAND_LIMIT (lr_command q),
      au_decision = (case d of None \<Rightarrow> [] | Some d \<Rightarrow> decision_text d), au_approver = who, au_grant_id = gid,
      au_request_id = rid, au_duration_ms = wd_elapsed_ms w\<rparr>"

fun record_each :: "broker_config \<Rightarrow> (string \<Rightarrow> string \<Rightarrow> approval_audit) \<Rightarrow> string list \<Rightarrow> broker \<Rightarrow> broker option" where
  "record_each c row [] b = Some b"
| "record_each c row (n # ns) b =
     (case record_decision (row (bc_token c (drawn b)) n) (ledger b) of
        None \<Rightarrow> None
      | Some l \<Rightarrow> record_each c row ns (b\<lparr>ledger := l, drawn := Suc (drawn b)\<rparr>))"

definition refused_as :: "(string \<Rightarrow> verdict) \<Rightarrow> decision \<Rightarrow> string \<Rightarrow> decision option" where
  "refused_as vs governing n =
     (if v_outcome (vs n) = REFUSE then v_decision (vs n)
      else if governing = DECISION_NO_POLICY \<or> governing = DECISION_NOT_PERMITTED then Some DECISION_NOT_REACHED
      else Some governing)"

definition refuse :: "broker_config \<Rightarrow> world \<Rightarrow> lease_request \<Rightarrow> (string \<Rightarrow> verdict) \<Rightarrow> decision \<Rightarrow> string
    \<Rightarrow> string \<Rightarrow> (string \<Rightarrow> string) \<Rightarrow> broker \<Rightarrow> (broker \<times> lease_result) option" where
  "refuse c w q vs governing rid who gids b =
     map_option (\<lambda>b'. (b', \<lparr>granted = False, result_decision = governing, result_values = Map.empty\<rparr>))
       (record_each c (\<lambda>tok n. audit_row w q rid tok n (refused_as vs governing n) who (gids n) []) (names q) b)"

definition unusable :: "backend_status \<Rightarrow> decision" where
  "unusable st = (if \<not> reachable_now st then DECISION_BACKEND_ERROR
     else if sealed st then DECISION_SEALED else DECISION_LOCKED)"

definition SUMMARY_ORDER :: "decision list" where
  "SUMMARY_ORDER = [DECISION_APPROVED_ONCE, DECISION_APPROVED_GRANT, DECISION_REUSED_GRANT,
     DECISION_AUTO_COMMAND, DECISION_AUTO]"

definition summarize :: "decision option list \<Rightarrow> decision" where
  "summarize ds = (case filter (\<lambda>d. Some d \<in> set ds) SUMMARY_ORDER of [] \<Rightarrow> DECISION_AUTO | d # _ \<Rightarrow> d)"

section \<open>Windows\<close>

definition open_window :: "broker_config \<Rightarrow> world \<Rightarrow> string \<Rightarrow> string \<Rightarrow> approval \<Rightarrow> broker \<Rightarrow> (broker \<times> string) option" where
  "open_window c w agent name answer b =
     (let n = min (grant_s answer) (window_ceiling (get_policy name (policies b)) (bc_max_grant_s c));
          g = \<lparr>ag_id = ''gr_'' @ bc_token c (drawn b), ag_kind = KIND_SECRET, ag_principal = agent,
               ag_scope = name, ag_granted_by = approver answer, ag_granted_at = wd_answered_at w,
               ag_expires_at = wd_answered_at w + n, ag_revoked_at = None\<rparr> in
      map_option (\<lambda>l. (b\<lparr>ledger := l, drawn := Suc (drawn b)\<rparr>, ag_id g)) (create_grant g (ledger b)))"

text \<open>The loop over what a human answered: the decisions and the grants of the names.\<close>

fun open_each :: "broker_config \<Rightarrow> world \<Rightarrow> string \<Rightarrow> approval \<Rightarrow> string list \<Rightarrow> string list \<Rightarrow> broker
    \<Rightarrow> (string \<Rightarrow> decision option) \<Rightarrow> (string \<Rightarrow> string)
    \<Rightarrow> (broker \<times> (string \<Rightarrow> decision option) \<times> (string \<Rightarrow> string)) option" where
  "open_each c w agent answer uncovered [] b ds gids = Some (b, ds, gids)"
| "open_each c w agent answer uncovered (n # ns) b ds gids =
     (if grant_s answer > 0 \<and> n \<in> set uncovered
      then (case open_window c w agent n answer b of
              None \<Rightarrow> None
            | Some (b', gid) \<Rightarrow> open_each c w agent answer uncovered ns b'
                (ds(n := Some DECISION_APPROVED_GRANT)) (gids(n := gid)))
      else open_each c w agent answer uncovered ns b (ds(n := Some DECISION_APPROVED_ONCE)) gids)"

section \<open>Telling somebody\<close>

definition notify :: "broker_config \<Rightarrow> world \<Rightarrow> lease_request \<Rightarrow> (string \<Rightarrow> verdict) \<Rightarrow> broker \<Rightarrow> broker" where
  "notify c w q vs b0 =
     (let rules = sort (dedup (filter (\<lambda>r. r \<noteq> []) (map (\<lambda>n. v_rule (vs n)) (names q)))) in
      if rules = [] then b0
      else
        let ids = broker_ids c b0; b = b0\<lparr>resolved := Some ids\<rparr> in
        if ids = {} \<or> \<not> wd_poster w then b
        else let channel = approval_conversation c w ids in
        if channel = [] then b
        else
          let key = (lr_agent q, names q); now = wd_monotonic w;
              folding = (case notices b key of Some f \<Rightarrow> now < f_until f | None \<Rightarrow> False) in
          (case notices b key of
             Some f \<Rightarrow>
               if folding
               then (let cd = notice_card (lr_agent q) (references q) (lr_command q) rules (f_repeats f + 1);
                         b' = touch (RewritesCard (f_post_id f) cd) b in
                     if wd_post w = None then b'
                     else b'\<lparr>notices := (notices b')(key \<mapsto> f\<lparr>f_repeats := f_repeats f + 1\<rparr>)\<rparr>)
               else (let cd = notice_card (lr_agent q) (references q) (lr_command q) rules 1;
                         b' = touch (PostsCard channel cd []) b in
                     (case wd_post w of None \<Rightarrow> b'
                      | Some post \<Rightarrow> b'\<lparr>notices := (notices b')(key \<mapsto>
                          \<lparr>f_post_id = post, f_repeats = 1, f_until = now + bc_fold c\<rparr>)\<rparr>))
           | None \<Rightarrow>
               (let cd = notice_card (lr_agent q) (references q) (lr_command q) rules 1;
                    b' = touch (PostsCard channel cd []) b in
                (case wd_post w of None \<Rightarrow> b'
                 | Some post \<Rightarrow> b'\<lparr>notices := (notices b')(key \<mapsto>
                     \<lparr>f_post_id = post, f_repeats = 1, f_until = now + bc_fold c\<rparr>)\<rparr>))))"

section \<open>The decision\<close>

fun read_all :: "world \<Rightarrow> (string \<times> secret_ref) list \<Rightarrow> (string \<rightharpoonup> string) \<Rightarrow> broker
    \<Rightarrow> broker \<times> (bool + (string \<rightharpoonup> string))" where
  "read_all w [] vals b = (b, Inr vals)"
| "read_all w ((env, r) # bs) vals b =
     (case wd_read w r of
        Inl was_sealed \<Rightarrow> (touch (ReadsSecret r) b, Inl was_sealed)
      | Inr v \<Rightarrow> read_all w bs (vals(env \<mapsto> v)) (touch (ReadsSecret r) b))"

text \<open>Reading the values, the rows of a success, and the notice when nobody was asked.\<close>

definition serve :: "broker_config \<Rightarrow> world \<Rightarrow> lease_request \<Rightarrow> (string \<Rightarrow> verdict) \<Rightarrow> string \<Rightarrow> bool \<Rightarrow> string
    \<Rightarrow> (string \<Rightarrow> decision option) \<Rightarrow> (string \<Rightarrow> string) \<Rightarrow> broker \<Rightarrow> (broker \<times> lease_result) option" where
  "serve c w q vs rid asked who ds gids b =
     (case read_all w (lr_bindings q) Map.empty b of
        (b1, Inl was_sealed) \<Rightarrow>
          refuse c w q vs (if was_sealed then DECISION_SEALED else DECISION_BACKEND_ERROR) rid who gids b1
      | (b1, Inr vals) \<Rightarrow>
          (case record_each c (\<lambda>tok n. audit_row w q rid tok n (ds n) who (gids n) (v_rule (vs n))) (names q) b1 of
             None \<Rightarrow> None
           | Some b2 \<Rightarrow> Some (if asked then b2 else notify c w q vs b2,
               \<lparr>granted = True, result_decision = summarize (map ds (names q)), result_values = vals\<rparr>)))"

definition lease :: "broker_config \<Rightarrow> world \<Rightarrow> lease_request \<Rightarrow> broker \<Rightarrow> (broker \<times> lease_result) option" where
  "lease c w q b0 =
     (let rid = ''rq_'' @ bc_token c (drawn b0);
          b = b0\<lparr>drawn := Suc (drawn b0)\<rparr>;
          ns = names q;
          vs = (\<lambda>n. evaluate (get_policy n (policies b)) (lr_agent q) (lr_command q)) in
      case filter (\<lambda>n. v_outcome (vs n) = REFUSE) ns of
        n # _ \<Rightarrow> (case v_decision (vs n) of
                    Some d \<Rightarrow> refuse c w q vs d rid [] (\<lambda>_. []) b
                  | None \<Rightarrow> None)
      | [] \<Rightarrow>
        let b = touch AsksStatus b in
        if \<not> usable (wd_status w) then refuse c w q vs (unusable (wd_status w)) rid [] (\<lambda>_. []) b
        else
          let asking = filter (\<lambda>n. v_outcome (vs n) = ASK) ns;
              covered = (\<lambda>n. if n \<in> set asking
                             then live_grant KIND_SECRET (lr_agent q) n (wd_asked_at w) (ledger b) else None);
              uncovered = filter (\<lambda>n. covered n = None) asking;
              ds = (\<lambda>n. if covered n \<noteq> None then Some DECISION_REUSED_GRANT else v_decision (vs n));
              gids = (\<lambda>n. case covered n of Some g \<Rightarrow> ag_id g | None \<Rightarrow> []) in
          if uncovered = [] then serve c w q vs rid False [] ds gids b
          else
            let longest = Min (set (map (\<lambda>n. window_ceiling (get_policy n (policies b)) (bc_max_grant_s c)) uncovered)) in
            (case ask c w q longest b of
               (b1, None) \<Rightarrow> refuse c w q vs DECISION_NO_APPROVER rid [] (\<lambda>_. []) b1
             | (b1, Some answer) \<Rightarrow>
                 if \<not> allowed answer
                 then refuse c w q vs (if timed_out answer then DECISION_TIMEOUT else DECISION_DENIED) rid
                        (approver answer) (\<lambda>_. []) b1
                 else
                   (case open_each c w (lr_agent q) answer uncovered
                           (filter (\<lambda>n. v_rule (vs n) \<noteq> [] \<or> n \<in> set uncovered) ns) b1 ds gids of
                      None \<Rightarrow> None
                    | Some (b2, ds', gids') \<Rightarrow> serve c w q vs rid True (approver answer) ds' gids' b2)))"

end
