(* ===== verification/BrokerProps.thy ===== *)
theory BrokerProps
  imports Broker
begin

text \<open>
  What the broker guarantees: who a value may go to and on whose word, that a request is served
  whole or not at all, what a refused caller can learn, what the ledger says, how long a window
  stays open, and that every request is answered.
\<close>

section \<open>Frames\<close>

lemma record_decision_Some: "record_decision r l = Some l' \<Longrightarrow> audit l' = audit l @ [r] \<and> grants l' = grants l"
  by (auto simp: record_decision_def split: if_splits)

lemma create_grant_Some: "create_grant g l = Some l' \<Longrightarrow> grants l' = grants l @ [g] \<and> audit l' = audit l"
  by (auto simp: create_grant_def split: if_splits)

text \<open>Recording the rows of a request: one per name, in order, and nothing else.\<close>

lemma record_each_Some:
  assumes "record_each c row ns b = Some b'"
  shows "audit (ledger b') = audit (ledger b) @ map (\<lambda>i. row (bc_token c (drawn b + i)) (ns ! i)) [0..<length ns]
    \<and> grants (ledger b') = grants (ledger b) \<and> touched b' = touched b \<and> policies b' = policies b
    \<and> drawn b' = drawn b + length ns"
  using assms
proof (induction ns arbitrary: b)
  case Nil
  then show ?case by simp
next
  case (Cons n ns)
  obtain l where l: "record_decision (row (bc_token c (drawn b)) n) (ledger b) = Some l"
    and rest: "record_each c row ns (b\<lparr>ledger := l, drawn := Suc (drawn b)\<rparr>) = Some b'"
    using Cons.prems by (auto split: option.splits)
  have shift: "map (\<lambda>i. row (bc_token c (drawn b + i)) ((n # ns) ! i)) [0..<length (n # ns)]
      = row (bc_token c (drawn b)) n # map (\<lambda>i. row (bc_token c (Suc (drawn b) + i)) (ns ! i)) [0..<length ns]"
    by (simp only: length_Cons map_upt_Suc) simp
  show ?case using Cons.IH [OF rest] record_decision_Some [OF l] unfolding shift by simp
qed

lemma refuse_Some:
  assumes "refuse c w q vs g rid who gids b = Some (b', r)"
  shows "\<not> granted r \<and> result_decision r = g \<and> result_values r = Map.empty
    \<and> grants (ledger b') = grants (ledger b) \<and> touched b' = touched b
    \<and> audit (ledger b') = audit (ledger b) @ map (\<lambda>i. audit_row w q rid (bc_token c (drawn b + i)) (names q ! i)
          (refused_as vs g (names q ! i)) who (gids (names q ! i)) []) [0..<length (names q)]"
proof -
  have rec: "record_each c (\<lambda>tok n. audit_row w q rid tok n (refused_as vs g n) who (gids n) []) (names q) b = Some b'"
    and r: "r = \<lparr>granted = False, result_decision = g, result_values = Map.empty\<rparr>"
    using assms by (auto simp: refuse_def)
  show ?thesis using record_each_Some [OF rec] r by simp
qed

lemma rewrite_frame [simp]: "ledger (rewrite p cd b) = ledger b" "policies (rewrite p cd b) = policies b"
  by (simp_all add: rewrite_def touch_def)

lemma touch_frame [simp]: "ledger (touch e b) = ledger b" "policies (touch e b) = policies b" "drawn (touch e b) = drawn b"
    "touched (touch e b) = touched b @ [e]"
  by (simp_all add: touch_def)

lemma rewrite_drawn [simp]: "drawn (rewrite p cd b) = drawn b"
  by (simp add: rewrite_def)

lemma await_card_frame: "await_card tok post w q b = (b', a) \<Longrightarrow> ledger b' = ledger b \<and> policies b' = policies b \<and> drawn b' = drawn b"
  by (auto simp: await_card_def split: prod.splits option.splits)

lemma ask_frame:
  assumes "ask c w q n b = (b', ans)"
  shows "ledger b' = ledger b \<and> policies b' = policies b \<and> drawn b \<le> drawn b'"
  using assms await_card_frame
  by (auto simp: ask_def Let_def apsnd_def map_prod_def split: if_splits option.splits prod.splits)

lemma read_all_frame:
  "read_all w bs vals b = (b', res) \<Longrightarrow> ledger b' = ledger b \<and> policies b' = policies b \<and> drawn b' = drawn b"
  by (induction bs arbitrary: vals b) (auto split: sum.splits)

lemma notify_frame: "ledger (notify c w q vs b) = ledger b"
  by (simp add: notify_def Let_def split: option.splits)

text \<open>Reading succeeds only as a whole, and each value is what the backend answered for its reference.\<close>

lemma read_all_Inr:
  assumes "read_all w bs vals b = (b', Inr out)"
  shows "dom out = dom vals \<union> fst ` set bs \<and> (\<forall>e v. out e = Some v \<longrightarrow> vals e = Some v \<or> (\<exists>r. (e, r) \<in> set bs \<and> wd_read w r = Inr v))"
  using assms
proof (induction bs arbitrary: vals b)
  case Nil
  then show ?case by simp
next
  case (Cons x bs)
  obtain e r where x: "x = (e, r)" by (cases x)
  obtain v where v: "wd_read w r = Inr v" and rest: "read_all w bs (vals(e \<mapsto> v)) (touch (ReadsSecret r) b) = (b', Inr out)"
    using Cons.prems x by (auto split: sum.splits)
  note ih = Cons.IH [OF rest]
  have "dom out = dom vals \<union> fst ` set (x # bs)" using ih x by auto
  moreover have "vals k = Some u \<or> (\<exists>r. (k, r) \<in> set (x # bs) \<and> wd_read w r = Inr u)" if "out k = Some u" for k u
  proof -
    have "(vals(e \<mapsto> v)) k = Some u \<or> (\<exists>r. (k, r) \<in> set bs \<and> wd_read w r = Inr u)" using ih that by blast
    then show ?thesis using x v by (cases "k = e") auto
  qed
  ultimately show ?case by blast
qed

section \<open>The ways a request can go\<close>

definition lease_verdict :: "lease_request \<Rightarrow> broker \<Rightarrow> string \<Rightarrow> verdict" where
  "lease_verdict q b n = evaluate (get_policy n (policies b)) (lr_agent q) (lr_command q)"

definition lease_covered :: "world \<Rightarrow> lease_request \<Rightarrow> broker \<Rightarrow> string \<Rightarrow> approval_grant option" where
  "lease_covered w q b n = (if n \<in> set (names q) \<and> v_outcome (lease_verdict q b n) = ASK
     then live_grant KIND_SECRET (lr_agent q) n (wd_asked_at w) (ledger b) else None)"

definition lease_uncovered :: "world \<Rightarrow> lease_request \<Rightarrow> broker \<Rightarrow> string list" where
  "lease_uncovered w q b =
     filter (\<lambda>n. v_outcome (lease_verdict q b n) = ASK \<and> lease_covered w q b n = None) (names q)"

definition lease_decisions :: "world \<Rightarrow> lease_request \<Rightarrow> broker \<Rightarrow> string \<Rightarrow> decision option" where
  "lease_decisions w q b n = (if lease_covered w q b n \<noteq> None then Some DECISION_REUSED_GRANT
     else v_decision (lease_verdict q b n))"

definition lease_gids :: "world \<Rightarrow> lease_request \<Rightarrow> broker \<Rightarrow> string \<Rightarrow> string" where
  "lease_gids w q b n = (case lease_covered w q b n of Some g \<Rightarrow> ag_id g | None \<Rightarrow> [])"

definition lease_longest :: "broker_config \<Rightarrow> world \<Rightarrow> lease_request \<Rightarrow> broker \<Rightarrow> int" where
  "lease_longest c w q b = Min (set (map (\<lambda>n. window_ceiling (get_policy n (policies b)) (bc_max_grant_s c)) (lease_uncovered w q b)))"

definition lease_answered :: "world \<Rightarrow> lease_request \<Rightarrow> broker \<Rightarrow> string list" where
  "lease_answered w q b = filter (\<lambda>n. v_rule (lease_verdict q b n) \<noteq> [] \<or> n \<in> set (lease_uncovered w q b)) (names q)"

definition lease_id :: "broker_config \<Rightarrow> broker \<Rightarrow> string" where
  "lease_id c b = ''rq_'' @ bc_token c (drawn b)"

definition begun :: "broker \<Rightarrow> broker" where "begun b = b\<lparr>drawn := Suc (drawn b)\<rparr>"
definition checked :: "broker \<Rightarrow> broker" where "checked b = touch AsksStatus (begun b)"

lemma begun_frame [simp]: "ledger (begun b) = ledger b" "policies (begun b) = policies b" "touched (begun b) = touched b"
    "drawn (begun b) = Suc (drawn b)" "waiting (begun b) = waiting b" "resolved (begun b) = resolved b"
  by (simp_all add: begun_def)

lemma checked_frame [simp]: "ledger (checked b) = ledger b" "policies (checked b) = policies b"
    "drawn (checked b) = Suc (drawn b)" "waiting (checked b) = waiting b" "resolved (checked b) = resolved b"
  by (simp_all add: checked_def touch_def)

lemma lease_unfolded:
  "lease c w q b =
     (case filter (\<lambda>n. v_outcome (lease_verdict q b n) = REFUSE) (names q) of
        n # _ \<Rightarrow> (case v_decision (lease_verdict q b n) of
                    Some d \<Rightarrow> refuse c w q (lease_verdict q b) d (lease_id c b) [] (\<lambda>_. []) (begun b) | None \<Rightarrow> None)
      | [] \<Rightarrow>
        if \<not> usable (wd_status w)
        then refuse c w q (lease_verdict q b) (unusable (wd_status w)) (lease_id c b) [] (\<lambda>_. []) (checked b)
        else if lease_uncovered w q b = []
        then serve c w q (lease_verdict q b) (lease_id c b) False [] (lease_decisions w q b) (lease_gids w q b) (checked b)
        else
          (case ask c w q (lease_longest c w q b) (checked b) of
             (b1, None) \<Rightarrow> refuse c w q (lease_verdict q b) DECISION_NO_APPROVER (lease_id c b) [] (\<lambda>_. []) b1
           | (b1, Some answer) \<Rightarrow>
               if \<not> allowed answer
               then refuse c w q (lease_verdict q b) (if timed_out answer then DECISION_TIMEOUT else DECISION_DENIED)
                      (lease_id c b) (approver answer) (\<lambda>_. []) b1
               else
                 (case open_each c w (lr_agent q) answer (lease_uncovered w q b) (lease_answered w q b) b1
                         (lease_decisions w q b) (lease_gids w q b) of
                    None \<Rightarrow> None
                  | Some (b2, ds', gids') \<Rightarrow>
                      serve c w q (lease_verdict q b) (lease_id c b) True (approver answer) ds' gids' b2)))"
proof -
  have v: "lease_verdict q b = (\<lambda>n. evaluate (get_policy n (policies b)) (lr_agent q) (lr_command q))"
    by (simp add: lease_verdict_def fun_eq_iff)
  have cov: "lease_covered w q b = (\<lambda>n. if n \<in> set (filter (\<lambda>n. v_outcome (lease_verdict q b n) = ASK) (names q))
      then live_grant KIND_SECRET (lr_agent q) n (wd_asked_at w) (ledger b) else None)"
    by (simp add: lease_covered_def fun_eq_iff)
  have unc: "lease_uncovered w q b = filter (\<lambda>n. lease_covered w q b n = None)
      (filter (\<lambda>n. v_outcome (lease_verdict q b n) = ASK) (names q))"
    unfolding lease_uncovered_def filter_filter by (rule filter_cong) auto
  have ds: "lease_decisions w q b = (\<lambda>n. if lease_covered w q b n \<noteq> None then Some DECISION_REUSED_GRANT
      else v_decision (lease_verdict q b n))"
    by (simp add: lease_decisions_def fun_eq_iff)
  have gids: "lease_gids w q b = (\<lambda>n. case lease_covered w q b n of Some g \<Rightarrow> ag_id g | None \<Rightarrow> [])"
    by (simp add: lease_gids_def fun_eq_iff)
  have fr: "policies (b\<lparr>drawn := k\<rparr>) = policies b" "ledger (touch e (b\<lparr>drawn := k\<rparr>)) = ledger b"
    "policies (touch e (b\<lparr>drawn := k\<rparr>)) = policies b" for e k by simp_all
  show ?thesis
    unfolding lease_def Let_def lease_longest_def lease_answered_def lease_id_def checked_def begun_def ds gids unc cov v fr
    by (rule refl)
qed

section \<open>The word of a human\<close>

lemma resolve_other: "resolve tk v u reg = (reg', out, ans) \<Longrightarrow> token \<noteq> tk \<Longrightarrow> reg' token = reg token"
  by (auto simp: resolve_def split: option.splits if_splits)

lemma await_answer_Some:
  assumes "await_answer token ks reg = (reg', Some a)"
  shows "\<exists>e v u. reg token = Some e \<and> (token, v, u) \<in> set ks \<and> a = decide v u \<and> (p_approvers e = {} \<or> u \<in> p_approvers e)"
  using assms
proof (induction ks arbitrary: reg)
  case Nil
  then show ?case by simp
next
  case (Cons k ks)
  obtain tk v u where k: "k = (tk, v, u)" by (cases k)
  obtain reg1 out ans where r: "resolve tk v u reg = (reg1, out, ans)" by (metis prod_cases3)
  show ?case
  proof (cases "tk = token \<and> out = RESOLVED")
    case True
    then have "ans = Some a" using Cons.prems k r by simp
    with r show ?thesis using True k by (cases rule: resolve_cases) auto
  next
    case False
    then have "await_answer token ks reg1 = (reg', Some a)" using Cons.prems k r by auto
    then obtain e v' u' where ih: "reg1 token = Some e" "(token, v', u') \<in> set ks" "a = decide v' u'"
        "p_approvers e = {} \<or> u' \<in> p_approvers e" using Cons.IH by blast
    have "reg token = Some e"
    proof (cases "tk = token")
      case True
      with r show ?thesis using False ih(1) by (cases rule: resolve_cases) auto
    next
      case other: False
      then show ?thesis using resolve_other [OF r, of token] ih(1) by simp
    qed
    then show ?thesis using ih by auto
  qed
qed

text \<open>An answer that allows comes from a click of an approver on this very card.\<close>

lemma ask_allowed:
  assumes "ask c w q n b = (b', Some a)" and "allowed a"
  shows "\<exists>v u. (bc_token c (drawn b), v, u) \<in> set (wd_clicks w) \<and> u \<in> broker_ids c b \<and> a = decide v u"
proof -
  let ?ids = "broker_ids c b" and ?tk = "bc_token c (drawn b)"
  have ids: "?ids \<noteq> {}" using assms(1) by (auto simp: ask_def Let_def)
  define b2 where "b2 = touch (PostsCard (approval_conversation c w ?ids)
      (approval_card (lr_agent q) (references q) (take MAX_REASON (lr_reason q)) (lr_command q) (wd_asked_at w + bc_timeout_s c))
      (approval_actions ?tk (windows GRANT_LADDER n)))
      (b\<lparr>resolved := Some ?ids, waiting := register ?tk KIND_SECRET (lr_agent q) (names q) ?ids (waiting b),
         drawn := Suc (drawn b)\<rparr>)"
  obtain post where "await_card ?tk post w q b2 = (b', a)"
    using assms(1) by (auto simp: ask_def Let_def b2_def apsnd_def map_prod_def split: if_splits option.splits prod.splits)
  moreover have b2: "waiting b2 = register ?tk KIND_SECRET (lr_agent q) (names q) ?ids (waiting b)"
    by (simp add: b2_def touch_def)
  ultimately obtain reg where "await_answer ?tk (wd_clicks w) (waiting b2) = (reg, Some a)"
    using assms(2) by (auto simp: await_card_def split: prod.splits option.splits)
  from await_answer_Some [OF this] obtain e v u where e: "waiting b2 ?tk = Some e" "(?tk, v, u) \<in> set (wd_clicks w)"
      "a = decide v u" "p_approvers e = {} \<or> u \<in> p_approvers e" by blast
  have "p_approvers e = ?ids" using e(1) b2 by (auto simp: register_def)
  then show ?thesis using e ids by blast
qed

section \<open>What a policy says\<close>

lemma evaluate_cases:
  obtains (refused) d where "v_outcome (evaluate p agent cmd) = REFUSE" "v_decision (evaluate p agent cmd) = Some d"
      "d = DECISION_NO_POLICY \<or> d = DECISION_NOT_PERMITTED" "\<not> (\<exists>q. p = Some q \<and> allows q agent)"
  | (auto) q where "p = Some q" "allows q agent" "v_outcome (evaluate p agent cmd) = ALLOW"
      "sp_approval q = APPROVAL_NEVER" "v_decision (evaluate p agent cmd) = Some DECISION_AUTO"
  | (rule) q where "p = Some q" "allows q agent" "v_outcome (evaluate p agent cmd) = ALLOW" "cmd \<noteq> []"
      "matching (policy_rules q) cmd \<noteq> []" "v_decision (evaluate p agent cmd) = Some DECISION_AUTO_COMMAND"
  | (asks) q where "p = Some q" "allows q agent" "v_outcome (evaluate p agent cmd) = ASK"
      "v_decision (evaluate p agent cmd) = None" "v_rule (evaluate p agent cmd) = []"
proof (cases p)
  case None
  then show ?thesis by (intro refused [of DECISION_NO_POLICY]) (simp_all add: evaluate_def)
next
  case (Some q)
  show ?thesis
  proof (cases "allows q agent")
    case False
    then show ?thesis using Some by (intro refused [of DECISION_NOT_PERMITTED]) (simp_all add: evaluate_def)
  next
    case may: True
    show ?thesis
    proof (cases "sp_approval q = APPROVAL_NEVER")
      case True
      then show ?thesis using Some may by (intro auto [of q]) (simp_all add: evaluate_def)
    next
      case False
      show ?thesis
      proof (cases "cmd \<noteq> [] \<and> matching (policy_rules q) cmd \<noteq> []")
        case True
        then show ?thesis using Some may False by (intro rule [of q]) (simp_all add: evaluate_def)
      next
        case none: False
        then have "(if cmd \<noteq> [] then matching (policy_rules q) cmd else []) = []" by auto
        then have "evaluate p agent cmd = \<lparr>v_outcome = ASK, v_decision = None, v_rule = []\<rparr>"
          using Some may False unfolding evaluate_def Let_def by simp
        then show ?thesis using Some may by (intro asks [of q]) simp_all
      qed
    qed
  qed
qed

section \<open>Opening windows\<close>

lemma open_window_Some:
  assumes "open_window c w agent n a b = Some (b', gid)"
  shows "policies b' = policies b \<and> audit (ledger b') = audit (ledger b) \<and> drawn b' = Suc (drawn b)
    \<and> touched b' = touched b
    \<and> grants (ledger b') = grants (ledger b) @ [\<lparr>ag_id = ''gr_'' @ bc_token c (drawn b), ag_kind = KIND_SECRET,
        ag_principal = agent, ag_scope = n, ag_granted_by = approver a, ag_granted_at = wd_answered_at w,
        ag_expires_at = wd_answered_at w + min (grant_s a) (window_ceiling (get_policy n (policies b)) (bc_max_grant_s c)),
        ag_revoked_at = None\<rparr>]"
  using assms by (auto simp: open_window_def Let_def dest!: create_grant_Some)

definition window_ok :: "broker_config \<Rightarrow> world \<Rightarrow> broker \<Rightarrow> string \<Rightarrow> approval \<Rightarrow> string list \<Rightarrow> approval_grant \<Rightarrow> bool" where
  "window_ok c w b agent a uncovered g \<longleftrightarrow> ag_kind g = KIND_SECRET \<and> ag_principal g = agent \<and> ag_scope g \<in> set uncovered
     \<and> ag_granted_by g = approver a \<and> ag_granted_at g = wd_answered_at w \<and> 0 < grant_s a
     \<and> ag_expires_at g \<le> wd_answered_at w + grant_s a
     \<and> ag_expires_at g \<le> wd_answered_at w + window_ceiling (get_policy (ag_scope g) (policies b)) (bc_max_grant_s c)"

lemma open_each_Some:
  assumes "open_each c w agent a uncovered ns b ds gids = Some (b', ds', gids')"
  shows "policies b' = policies b \<and> audit (ledger b') = audit (ledger b) \<and> touched b' = touched b \<and> drawn b \<le> drawn b'
    \<and> (\<exists>new. grants (ledger b') = grants (ledger b) @ new \<and> (\<forall>g \<in> set new. window_ok c w b agent a uncovered g))
    \<and> (\<forall>n. ds' n = (if n \<in> set ns then ds' n else ds n))
    \<and> (\<forall>n \<in> set ns. ds' n = Some DECISION_APPROVED_ONCE \<or> ds' n = Some DECISION_APPROVED_GRANT)"
  using assms
proof (induction ns arbitrary: b ds gids)
  case Nil
  then show ?case by simp
next
  case (Cons n ns)
  show ?case
  proof (cases "grant_s a > 0 \<and> n \<in> set uncovered")
    case True
    obtain b1 gid where o: "open_window c w agent n a b = Some (b1, gid)"
      and rest: "open_each c w agent a uncovered ns b1 (ds(n := Some DECISION_APPROVED_GRANT)) (gids(n := gid)) = Some (b', ds', gids')"
      using Cons.prems True by (auto split: option.splits prod.splits)
    note ow = open_window_Some [OF o]
    from Cons.IH [OF rest] obtain new where new: "grants (ledger b') = grants (ledger b1) @ new"
        "\<forall>g \<in> set new. window_ok c w b1 agent a uncovered g" by blast
    let ?g = "\<lparr>ag_id = ''gr_'' @ bc_token c (drawn b), ag_kind = KIND_SECRET,
        ag_principal = agent, ag_scope = n, ag_granted_by = approver a, ag_granted_at = wd_answered_at w,
        ag_expires_at = wd_answered_at w + min (grant_s a) (window_ceiling (get_policy n (policies b)) (bc_max_grant_s c)),
        ag_revoked_at = None\<rparr>"
    have g: "window_ok c w b agent a uncovered ?g" using True by (simp add: window_ok_def)
    have "\<exists>new. grants (ledger b') = grants (ledger b) @ new \<and> (\<forall>g \<in> set new. window_ok c w b agent a uncovered g)"
      by (rule exI [of _ "?g # new"]) (use new g ow in \<open>simp add: window_ok_def\<close>)
    then show ?thesis using Cons.IH [OF rest] ow by (auto split: if_splits)
  next
    case False
    then have rest: "open_each c w agent a uncovered ns b (ds(n := Some DECISION_APPROVED_ONCE)) gids = Some (b', ds', gids')"
      using Cons.prems by auto
    show ?thesis using Cons.IH [OF rest] by (auto split: if_splits)
  qed
qed

section \<open>Serving\<close>

lemma serve_Some:
  assumes "serve c w q vs rid asked who ds gids b = Some (b', r)"
  obtains (read_failed) b1 g where "\<not> granted r" "result_values r = Map.empty" "result_decision r = g"
      "g = DECISION_SEALED \<or> g = DECISION_BACKEND_ERROR" "ledger b1 = ledger b"
      "refuse c w q vs g rid who gids b1 = Some (b', r)"
  | (served) b1 vals where "read_all w (lr_bindings q) Map.empty b = (b1, Inr vals)"
      "r = \<lparr>granted = True, result_decision = summarize (map ds (names q)), result_values = vals\<rparr>"
      "grants (ledger b') = grants (ledger b)"
      "audit (ledger b') = audit (ledger b) @ map (\<lambda>i. audit_row w q rid (bc_token c (drawn b + i)) (names q ! i)
          (ds (names q ! i)) who (gids (names q ! i)) (v_rule (vs (names q ! i)))) [0..<length (names q)]"
proof -
  obtain b1 res where rd: "read_all w (lr_bindings q) Map.empty b = (b1, res)" by fastforce
  note fr = read_all_frame [OF rd]
  show ?thesis
  proof (cases res)
    case (Inl sl)
    let ?g = "if sl then DECISION_SEALED else DECISION_BACKEND_ERROR"
    have rf: "refuse c w q vs ?g rid who gids b1 = Some (b', r)" using assms rd Inl by (simp add: serve_def)
    then show ?thesis using refuse_Some [OF rf] fr by (intro read_failed [of ?g b1]) auto
  next
    case (Inr vals)
    obtain b2 where rec: "record_each c (\<lambda>tok n. audit_row w q rid tok n (ds n) who (gids n) (v_rule (vs n))) (names q) b1 = Some b2"
        and b': "b' = (if asked then b2 else notify c w q vs b2)"
        and r: "r = \<lparr>granted = True, result_decision = summarize (map ds (names q)), result_values = vals\<rparr>"
      using assms rd Inr by (auto simp: serve_def split: option.splits)
    have "ledger b' = ledger b2" using b' notify_frame by simp
    then show ?thesis using record_each_Some [OF rec] fr rd Inr r by (intro served [of b1 vals]) simp_all
  qed
qed

section \<open>Every way a request can end\<close>

lemma lease_cases:
  assumes "lease c w q b = Some (b', r)"
  obtains (policy) n d where "n \<in> set (names q)" "v_outcome (lease_verdict q b n) = REFUSE"
      "v_decision (lease_verdict q b n) = Some d"
      "refuse c w q (lease_verdict q b) d (lease_id c b) [] (\<lambda>_. []) (begun b) = Some (b', r)"
  | (unserved) g who b1 where "\<forall>n \<in> set (names q). v_outcome (lease_verdict q b n) \<noteq> REFUSE"
      "ledger b1 = ledger b"
      "g \<in> {DECISION_BACKEND_ERROR, DECISION_SEALED, DECISION_LOCKED, DECISION_NO_APPROVER, DECISION_TIMEOUT, DECISION_DENIED}"
      "refuse c w q (lease_verdict q b) g (lease_id c b) who (\<lambda>_. []) b1 = Some (b', r)"
  | (quiet) "\<forall>n \<in> set (names q). v_outcome (lease_verdict q b n) \<noteq> REFUSE" "usable (wd_status w)"
      "lease_uncovered w q b = []"
      "serve c w q (lease_verdict q b) (lease_id c b) False [] (lease_decisions w q b) (lease_gids w q b) (checked b) = Some (b', r)"
  | (answered) a b1 b2 ds gids where "\<forall>n \<in> set (names q). v_outcome (lease_verdict q b n) \<noteq> REFUSE" "usable (wd_status w)"
      "ask c w q (lease_longest c w q b) (checked b) = (b1, Some a)" "allowed a"
      "open_each c w (lr_agent q) a (lease_uncovered w q b) (lease_answered w q b) b1
         (lease_decisions w q b) (lease_gids w q b) = Some (b2, ds, gids)"
      "serve c w q (lease_verdict q b) (lease_id c b) True (approver a) ds gids b2 = Some (b', r)"
proof (cases "filter (\<lambda>n. v_outcome (lease_verdict q b n) = REFUSE) (names q)")
  case (Cons n ns)
  have "n \<in> set (filter (\<lambda>n. v_outcome (lease_verdict q b n) = REFUSE) (names q))" unfolding Cons by simp
  then have n: "n \<in> set (names q)" "v_outcome (lease_verdict q b n) = REFUSE" by simp_all
  obtain d where d: "v_decision (lease_verdict q b n) = Some d"
      "refuse c w q (lease_verdict q b) d (lease_id c b) [] (\<lambda>_. []) (begun b) = Some (b', r)"
    using assms Cons unfolding lease_unfolded by (auto split: option.splits)
  show ?thesis by (rule policy [OF n d])
next
  case Nil
  then have all: "\<forall>n \<in> set (names q). v_outcome (lease_verdict q b n) \<noteq> REFUSE" by (simp add: filter_empty_conv)
  note L = assms [unfolded lease_unfolded Nil list.case]
  show ?thesis
  proof (cases "usable (wd_status w)")
    case False
    have "unusable (wd_status w) \<in> {DECISION_BACKEND_ERROR, DECISION_SEALED, DECISION_LOCKED}" by (simp add: unusable_def)
    then show ?thesis using L False all by (intro unserved [of "checked b" "unusable (wd_status w)" "[]"]) auto
  next
    case up: True
    show ?thesis
    proof (cases "lease_uncovered w q b = []")
      case True
      then show ?thesis using L up all by (intro quiet) simp_all
    next
      case False
      obtain b1 ans where ak: "ask c w q (lease_longest c w q b) (checked b) = (b1, ans)" by fastforce
      have led: "ledger b1 = ledger b" using ask_frame [OF ak] by simp
      show ?thesis
      proof (cases ans)
        case None
        then show ?thesis using L up False all ak led by (intro unserved [of b1 DECISION_NO_APPROVER "[]"]) auto
      next
        case (Some a)
        show ?thesis
        proof (cases "allowed a")
          case no: False
          then show ?thesis using L up False all ak led Some
            by (intro unserved [of b1 "if timed_out a then DECISION_TIMEOUT else DECISION_DENIED" "approver a"]) auto
        next
          case True
          then obtain b2 ds gids where "open_each c w (lr_agent q) a (lease_uncovered w q b) (lease_answered w q b) b1
              (lease_decisions w q b) (lease_gids w q b) = Some (b2, ds, gids)"
              "serve c w q (lease_verdict q b) (lease_id c b) True (approver a) ds gids b2 = Some (b', r)"
            using L up False ak Some by (auto split: option.splits prod.splits)
          then show ?thesis using answered [OF all up _ True] ak Some by blast
        qed
      qed
    qed
  qed
qed

section \<open>Whose word a value goes out on\<close>

text \<open>Why a secret may be read: its policy says nobody need be asked, or a rule of it covers the
  command, or a window opened earlier is live, or a human allowed this request.\<close>

definition authorised :: "broker_config \<Rightarrow> world \<Rightarrow> lease_request \<Rightarrow> broker \<Rightarrow> string \<Rightarrow> bool" where
  "authorised c w q b n \<longleftrightarrow>
     (\<exists>p. get_policy n (policies b) = Some p \<and> allows p (lr_agent q)
        \<and> (sp_approval p = APPROVAL_NEVER
           \<or> lr_command q \<noteq> [] \<and> (\<exists>rule \<in> set (policy_rules p). rule_matches rule (lr_command q))
           \<or> (\<exists>g \<in> set (grants (ledger b)). ag_kind g = KIND_SECRET \<and> ag_principal g = lr_agent q \<and> ag_scope g = n
                \<and> is_live (wd_asked_at w) g)
           \<or> (\<exists>v u. (bc_token c (Suc (drawn b)), v, u) \<in> set (wd_clicks w) \<and> u \<in> broker_ids c b \<and> allowed (decide v u))))"

lemma authorised_unless_uncovered:
  assumes "n \<in> set (names q)" and "v_outcome (lease_verdict q b n) \<noteq> REFUSE" and "n \<notin> set (lease_uncovered w q b)"
  shows "authorised c w q b n"
proof (cases rule: evaluate_cases [of "get_policy n (policies b)" "lr_agent q" "lr_command q"])
  case (refused d)
  then show ?thesis using assms(2) by (simp add: lease_verdict_def)
next
  case (auto p)
  then show ?thesis by (auto simp: authorised_def)
next
  case (rule p)
  then have "\<exists>r \<in> set (policy_rules p). rule_matches r (lr_command q)"
  proof -
    have "filter (\<lambda>r. rule_matches r (lr_command q)) (policy_rules p) \<noteq> []"
      using rule(5) matching_text [of "policy_rules p" "lr_command q"] by auto
    then show ?thesis by (auto simp: filter_empty_conv)
  qed
  then show ?thesis using rule by (auto simp: authorised_def)
next
  case (asks p)
  then have "lease_covered w q b n \<noteq> None" using assms by (simp add: lease_uncovered_def lease_verdict_def)
  then obtain g where "live_grant KIND_SECRET (lr_agent q) n (wd_asked_at w) (ledger b) = Some g"
    by (auto simp: lease_covered_def split: if_splits)
  then show ?thesis using live_grant_Some asks by (fastforce simp: authorised_def)
qed

text \<open>C6. No value without authority: when a request is granted, the store was usable, every secret
  it names has a policy that lists the agent and was authorised (by its policy, a rule, a live
  window, or an approver's click on the card of this request), and the values are exactly what
  the backend answered for the references asked for, one for every variable.\<close>

theorem values_only_with_authority:
  assumes "lease c w q b = Some (b', r)" and "granted r"
  shows "usable (wd_status w) \<and> (\<forall>n \<in> set (names q). authorised c w q b n)
    \<and> dom (result_values r) = fst ` set (lr_bindings q)
    \<and> (\<forall>e v. result_values r e = Some v \<longrightarrow> (\<exists>ref. (e, ref) \<in> set (lr_bindings q) \<and> wd_read w ref = Inr v))"
  using assms(1)
proof (cases rule: lease_cases)
  case (policy n d)
  then show ?thesis using refuse_Some assms(2) by blast
next
  case (unserved g who b1)
  then show ?thesis using refuse_Some assms(2) by blast
next
  case quiet
  from quiet(4) show ?thesis
  proof (cases rule: serve_Some)
    case (read_failed b1 g)
    then show ?thesis using assms(2) by simp
  next
    case (served b1 vals)
    then show ?thesis using read_all_Inr [OF served(1)] quiet(1-3) authorised_unless_uncovered [of _ q b w c] by simp
  qed
next
  case (answered a b1 b2 ds gids)
  obtain v u where click: "(bc_token c (Suc (drawn b)), v, u) \<in> set (wd_clicks w)" "u \<in> broker_ids c (checked b)" "a = decide v u"
    using ask_allowed [OF answered(3,4)] by auto
  have "broker_ids c (checked b) = broker_ids c b" by (simp add: broker_ids_def)
  then have human: "\<exists>v u. (bc_token c (Suc (drawn b)), v, u) \<in> set (wd_clicks w) \<and> u \<in> broker_ids c b \<and> allowed (decide v u)"
    using click answered(4) by blast
  have auth: "authorised c w q b n" if n: "n \<in> set (names q)" for n
  proof (cases "n \<in> set (lease_uncovered w q b)")
    case True
    then have "v_outcome (evaluate (get_policy n (policies b)) (lr_agent q) (lr_command q)) = ASK"
      by (simp add: lease_uncovered_def lease_verdict_def)
    then have "\<exists>p. get_policy n (policies b) = Some p \<and> allows p (lr_agent q)"
      by (cases rule: evaluate_cases [of "get_policy n (policies b)" "lr_agent q" "lr_command q"]) auto
    then show ?thesis using human by (auto simp: authorised_def)
  next
    case False
    then show ?thesis using authorised_unless_uncovered n answered(1) by blast
  qed
  from answered(6) show ?thesis
  proof (cases rule: serve_Some)
    case (read_failed b1 g)
    then show ?thesis using assms(2) by simp
  next
    case (served b1 vals)
    then show ?thesis using read_all_Inr [OF served(1)] answered(2) auth by simp
  qed
qed

section \<open>What a refused caller learns\<close>

lemma verdict_refusal:
  "v_outcome (lease_verdict q b n) = REFUSE \<Longrightarrow> v_decision (lease_verdict q b n) = Some d
     \<Longrightarrow> d = DECISION_NO_POLICY \<or> d = DECISION_NOT_PERMITTED"
  unfolding lease_verdict_def
  by (cases rule: evaluate_cases [of "get_policy n (policies b)" "lr_agent q" "lr_command q"]) auto

text \<open>Refusals tell nothing: a request that names a secret without a policy, or one whose policy
  does not list the agent, gets the same answer in both cases (the one word \<open>refused\<close>, no value),
  and the store, the humans and every other secret are not touched on the way; and any request
  that is not granted carries no value.\<close>

lemma refusals_tell_nothing:
  assumes "lease c w q b = Some (b', r)"
  shows "(\<not> granted r \<longrightarrow> result_values r = Map.empty)
    \<and> ((\<exists>n \<in> set (names q). \<not> (\<exists>p. get_policy n (policies b) = Some p \<and> allows p (lr_agent q))) \<longrightarrow>
        \<not> granted r \<and> wire_status (result_decision r) = WIRE_REFUSED \<and> touched b' = touched b
        \<and> waiting b' = waiting b)"
proof -
  have some: "\<exists>n \<in> set (names q). v_outcome (lease_verdict q b n) = REFUSE"
    if "\<exists>n \<in> set (names q). \<not> (\<exists>p. get_policy n (policies b) = Some p \<and> allows p (lr_agent q))"
  proof -
    from that obtain n where n: "n \<in> set (names q)" "\<not> (\<exists>p. get_policy n (policies b) = Some p \<and> allows p (lr_agent q))"
      by (rule bexE)
    have "v_outcome (lease_verdict q b n) = REFUSE" unfolding lease_verdict_def
      by (cases rule: evaluate_cases [of "get_policy n (policies b)" "lr_agent q" "lr_command q"]) (use n in auto)
    then show ?thesis using n by blast
  qed
  from assms show ?thesis
  proof (cases rule: lease_cases)
    case (policy n d)
    have "wire_status d = WIRE_REFUSED"
      using verdict_refusal [OF policy(2,3)] by (auto simp: wire_status_def UNAVAILABLE_DECISIONS_def)
    moreover have "waiting b' = waiting b"
    proof -
      have "waiting b2 = waiting b1" if "record_each c row ns b1 = Some b2" for row ns b1 b2
        using that by (induction ns arbitrary: b1) (auto split: option.splits)
      then show ?thesis using policy(4) by (auto simp: refuse_def)
    qed
    ultimately show ?thesis using refuse_Some [OF policy(4)] by simp
  next
    case (unserved g who b1)
    then show ?thesis using refuse_Some [OF unserved(4)] some by blast
  next
    case quiet
    from quiet(4) show ?thesis using quiet(1) some by (cases rule: serve_Some) auto
  next
    case (answered a b1 b2 ds gids)
    from answered(6) show ?thesis using answered(1) some by (cases rule: serve_Some) auto
  qed
qed

section \<open>What the ledger says\<close>

definition granting :: "decision list" where
  "granting = [DECISION_APPROVED_ONCE, DECISION_APPROVED_GRANT, DECISION_REUSED_GRANT, DECISION_AUTO, DECISION_AUTO_COMMAND]"

definition granting_row :: "approval_audit \<Rightarrow> bool" where
  "granting_row r \<longleftrightarrow> au_decision r \<in> set (map decision_text granting)"

lemma audit_row_sel [simp]:
  "au_scope (audit_row w q rid tok n d who gid rule) = n" "au_principal (audit_row w q rid tok n d who gid rule) = lr_agent q"
  "au_request_id (audit_row w q rid tok n d who gid rule) = rid" "au_kind (audit_row w q rid tok n d who gid rule) = KIND_SECRET"
  "au_decision (audit_row w q rid tok n d who gid rule) = (case d of None \<Rightarrow> [] | Some d \<Rightarrow> decision_text d)"
  by (simp_all add: audit_row_def)

lemma granting_text: "decision_text d \<in> set (map decision_text granting) \<longleftrightarrow> d \<in> set granting"
  by (cases d) (simp_all add: granting_def)

text \<open>The rows of one request.\<close>

definition rows_of :: "broker_config \<Rightarrow> lease_request \<Rightarrow> broker \<Rightarrow> bool \<Rightarrow> approval_audit list \<Rightarrow> bool" where
  "rows_of c q b ok rows \<longleftrightarrow> map au_scope rows = names q
     \<and> (\<forall>r \<in> set rows. au_kind r = KIND_SECRET \<and> au_principal r = lr_agent q \<and> au_request_id r = lease_id c b
          \<and> (granting_row r \<longleftrightarrow> ok))"

lemma rows_ofI:
  assumes "\<And>n. n \<in> set (names q) \<Longrightarrow> (\<exists>d. dec n = Some d \<and> (d \<in> set granting \<longleftrightarrow> ok))"
  shows "rows_of c q b ok (map (\<lambda>i. audit_row w q (lease_id c b) (tok i) (names q ! i) (dec (names q ! i)) who
    (gids (names q ! i)) (rl (names q ! i))) [0..<length (names q)])"
proof -
  have "map (\<lambda>i. names q ! i) [0..<length (names q)] = names q" by (rule map_nth)
  moreover have "granting_row (audit_row w q (lease_id c b) (tok i) (names q ! i) (dec (names q ! i)) who
      (gids (names q ! i)) (rl (names q ! i))) \<longleftrightarrow> ok" if "i < length (names q)" for i
  proof -
    have "names q ! i \<in> set (names q)" using that by (rule nth_mem)
    from assms [OF this] obtain d where "dec (names q ! i) = Some d" "d \<in> set granting \<longleftrightarrow> ok" by blast
    then show ?thesis unfolding granting_row_def audit_row_sel by (simp only: option.case granting_text)
  qed
  ultimately show ?thesis by (auto simp: rows_of_def comp_def)
qed

lemma refused_as_not_granting:
  assumes "\<forall>n \<in> set (names q). v_outcome (lease_verdict q b n) = REFUSE \<longrightarrow>
      (\<exists>d. v_decision (lease_verdict q b n) = Some d)" and "g \<notin> set granting" and "n \<in> set (names q)"
  shows "\<exists>d. refused_as (lease_verdict q b) g n = Some d \<and> d \<notin> set granting"
proof (cases "v_outcome (lease_verdict q b n) = REFUSE")
  case True
  then obtain d where d: "v_decision (lease_verdict q b n) = Some d" using assms by blast
  then have "d = DECISION_NO_POLICY \<or> d = DECISION_NOT_PERMITTED" using verdict_refusal True by blast
  then show ?thesis using True d by (auto simp: refused_as_def granting_def)
next
  case False
  then show ?thesis using assms(2) by (auto simp: refused_as_def granting_def)
qed

lemma lease_verdict_decided:
  "v_outcome (lease_verdict q b n) = REFUSE \<Longrightarrow> \<exists>d. v_decision (lease_verdict q b n) = Some d"
  unfolding lease_verdict_def
  by (cases rule: evaluate_cases [of "get_policy n (policies b)" "lr_agent q" "lr_command q"]) auto

lemma refused_rows:
  assumes "refuse c w q (lease_verdict q b) g (lease_id c b) who gids b1 = Some (b', r)" and "g \<notin> set granting"
    and "audit (ledger b1) = audit (ledger b)"
  shows "\<exists>rows. audit (ledger b') = audit (ledger b) @ rows \<and> rows_of c q b (granted r) rows"
proof -
  let ?rows = "map (\<lambda>i. audit_row w q (lease_id c b) (bc_token c (drawn b1 + i)) (names q ! i)
          (refused_as (lease_verdict q b) g (names q ! i)) who (gids (names q ! i)) []) [0..<length (names q)]"
  note rf = refuse_Some [OF assms(1)]
  have ex: "\<exists>d. refused_as (lease_verdict q b) g n = Some d \<and> (d \<in> set granting \<longleftrightarrow> False)" if "n \<in> set (names q)" for n
    using refused_as_not_granting [OF _ assms(2) that] lease_verdict_decided by blast
  have "rows_of c q b False ?rows"
    by (rule rows_ofI [where rl = "\<lambda>_. []" and dec = "refused_as (lease_verdict q b) g"]) (rule ex)
  then show ?thesis using rf assms(3) by (intro exI [of _ ?rows]) simp
qed

text \<open>Without a refusal, a name that needs no answer has a granting decision.\<close>

lemma lease_decisions_granting:
  assumes "n \<in> set (names q)" and "v_outcome (lease_verdict q b n) \<noteq> REFUSE" and "n \<notin> set (lease_uncovered w q b)"
  shows "\<exists>d. lease_decisions w q b n = Some d \<and> d \<in> set granting"
proof (cases rule: evaluate_cases [of "get_policy n (policies b)" "lr_agent q" "lr_command q"])
  case (refused d)
  then show ?thesis using assms(2) by (simp add: lease_verdict_def)
next
  case (auto p)
  then show ?thesis by (simp add: lease_decisions_def lease_verdict_def granting_def)
next
  case (rule p)
  then show ?thesis by (simp add: lease_decisions_def lease_verdict_def granting_def)
next
  case (asks p)
  then have "lease_covered w q b n \<noteq> None" using assms by (simp add: lease_uncovered_def lease_verdict_def)
  then show ?thesis by (simp add: lease_decisions_def granting_def)
qed

lemma answered_decisions_granting:
  assumes "open_each c w (lr_agent q) a (lease_uncovered w q b) (lease_answered w q b) b1
         (lease_decisions w q b) (lease_gids w q b) = Some (b2, ds, gids)"
    and "n \<in> set (names q)" and "v_outcome (lease_verdict q b n) \<noteq> REFUSE"
  shows "\<exists>d. ds n = Some d \<and> d \<in> set granting"
proof (cases "n \<in> set (lease_answered w q b)")
  case True
  then have "ds n = Some DECISION_APPROVED_ONCE \<or> ds n = Some DECISION_APPROVED_GRANT"
    using open_each_Some [OF assms(1)] by blast
  then show ?thesis by (auto simp: granting_def)
next
  case False
  then have "ds n = lease_decisions w q b n" using open_each_Some [OF assms(1)] by metis
  moreover have "n \<notin> set (lease_uncovered w q b)" using False assms(2) by (auto simp: lease_answered_def)
  ultimately show ?thesis using lease_decisions_granting assms(2,3) by metis
qed

lemma served_rows:
  assumes "serve c w q (lease_verdict q b) (lease_id c b) asked who ds gids b1 = Some (b', r)"
    and "\<And>n. n \<in> set (names q) \<Longrightarrow> \<exists>d. ds n = Some d \<and> d \<in> set granting"
    and "audit (ledger b1) = audit (ledger b)"
  shows "\<exists>rows. audit (ledger b') = audit (ledger b) @ rows \<and> rows_of c q b (granted r) rows"
  using assms(1)
proof (cases rule: serve_Some)
  case (read_failed b2 g)
  then have "g \<notin> set granting" by (auto simp: granting_def)
  then show ?thesis using refused_rows [OF read_failed(6)] read_failed(5) assms(3) by simp
next
  case (served b2 vals)
  let ?rows = "map (\<lambda>i. audit_row w q (lease_id c b) (bc_token c (drawn b1 + i)) (names q ! i)
          (ds (names q ! i)) who (gids (names q ! i)) (v_rule (lease_verdict q b (names q ! i)))) [0..<length (names q)]"
  have "rows_of c q b True ?rows"
    by (rule rows_ofI [where rl = "\<lambda>n. v_rule (lease_verdict q b n)" and dec = ds]) (use assms(2) in simp)
  then show ?thesis using served assms(3) by (intro exI [of _ ?rows]) simp
qed

text \<open>C7. The ledger has every request: a request that returns leaves exactly one new row for each
  distinct secret it names, in the order they were named and under one request id, with the
  agent's name; each of them is a granting decision if the request was granted, and none of them
  if it was not.  No earlier row is changed.\<close>

theorem ledger_has_every_request:
  assumes "lease c w q b = Some (b', r)"
  shows "\<exists>rows. audit (ledger b') = audit (ledger b) @ rows \<and> rows_of c q b (granted r) rows"
  using assms
proof (cases rule: lease_cases)
  case (policy n d)
  have "d \<notin> set granting" using verdict_refusal [OF policy(2,3)] by (auto simp: granting_def)
  then show ?thesis using refused_rows [OF policy(4)] by simp
next
  case (unserved g who b1)
  then have "g \<notin> set granting" by (auto simp: granting_def)
  then show ?thesis using refused_rows [OF unserved(4)] unserved(2) by simp
next
  case quiet
  then show ?thesis using served_rows [OF quiet(4)] lease_decisions_granting [of _ q b w] by simp
next
  case (answered a b1 b2 ds gids)
  have "audit (ledger b2) = audit (ledger b)"
    using open_each_Some [OF answered(5)] ask_frame [OF answered(3)] by simp
  then show ?thesis using served_rows [OF answered(6)] answered_decisions_granting [OF answered(5)] answered(1) by blast
qed

section \<open>How long a window stays open\<close>

text \<open>C8. A window is never more than was allowed: a request opens windows only when an approver's click
  on its card gave a duration, each for this agent and one secret it named and was asked about,
  and none outlives the time the approver gave, the secret's own ceiling, or the deployment's.\<close>

theorem windows_bounded:
  assumes "lease c w q b = Some (b', r)"
  shows "\<exists>new. grants (ledger b') = grants (ledger b) @ new
    \<and> (\<forall>g \<in> set new. ag_kind g = KIND_SECRET \<and> ag_principal g = lr_agent q \<and> ag_scope g \<in> set (names q)
        \<and> ag_granted_at g = wd_answered_at w
        \<and> (\<exists>v. (bc_token c (Suc (drawn b)), v, ag_granted_by g) \<in> set (wd_clicks w) \<and> ag_granted_by g \<in> broker_ids c b
             \<and> ag_expires_at g \<le> wd_answered_at w + grant_s (decide v (ag_granted_by g)))
        \<and> (\<exists>p. get_policy (ag_scope g) (policies b) = Some p \<and> ag_expires_at g \<le> wd_answered_at w + sp_max_grant_s p)
        \<and> (0 < bc_max_grant_s c \<longrightarrow> ag_expires_at g \<le> wd_answered_at w + bc_max_grant_s c))"
proof -
  have none: ?thesis if "grants (ledger b') = grants (ledger b)" using that by (intro exI [of _ "[]"]) simp
  from assms show ?thesis
  proof (cases rule: lease_cases)
    case (policy n d)
    then show ?thesis using refuse_Some [OF policy(4)] none by simp
  next
    case (unserved g who b1)
    then show ?thesis using refuse_Some [OF unserved(4)] none by simp
  next
    case quiet
    from quiet(4) show ?thesis
    proof (cases rule: serve_Some)
      case (read_failed b1 g)
      then show ?thesis using refuse_Some [OF read_failed(6)] none by simp
    qed (use none in simp)
  next
    case (answered a b1 b2 ds gids)
    obtain v u where click: "(bc_token c (Suc (drawn b)), v, u) \<in> set (wd_clicks w)" "u \<in> broker_ids c (checked b)" "a = decide v u"
      using ask_allowed [OF answered(3,4)] by auto
    have ids: "broker_ids c (checked b) = broker_ids c b" by (simp add: broker_ids_def)
    have who: "approver a = u"
    proof -
      have "approver (decide v u) = u" by (simp add: decide_def Let_def split: option.splits)
      then show ?thesis using click(3) by simp
    qed
    obtain new where new: "grants (ledger b2) = grants (ledger b1) @ new"
        "\<forall>g \<in> set new. window_ok c w b1 (lr_agent q) a (lease_uncovered w q b) g"
      using open_each_Some [OF answered(5)] by blast
    have pol: "policies b1 = policies b" "ledger b1 = ledger b" using ask_frame [OF answered(3)] by simp_all
    have fin: "grants (ledger b') = grants (ledger b2)"
      using answered(6)
    proof (cases rule: serve_Some)
      case (read_failed b3 g)
      then show ?thesis using refuse_Some [OF read_failed(6)] by simp
    qed simp
    have "\<exists>p. get_policy (ag_scope g) (policies b) = Some p" if g: "g \<in> set new" for g
    proof -
      have "ag_scope g \<in> set (lease_uncovered w q b)" using new(2) g by (simp add: window_ok_def)
      then have "v_outcome (evaluate (get_policy (ag_scope g) (policies b)) (lr_agent q) (lr_command q)) = ASK"
        by (simp add: lease_uncovered_def lease_verdict_def)
      then show ?thesis
        by (cases rule: evaluate_cases [of "get_policy (ag_scope g) (policies b)" "lr_agent q" "lr_command q"]) auto
    qed
    then have "\<forall>g \<in> set new. ag_kind g = KIND_SECRET \<and> ag_principal g = lr_agent q \<and> ag_scope g \<in> set (names q)
        \<and> ag_granted_at g = wd_answered_at w
        \<and> (\<exists>v. (bc_token c (Suc (drawn b)), v, ag_granted_by g) \<in> set (wd_clicks w) \<and> ag_granted_by g \<in> broker_ids c b
             \<and> ag_expires_at g \<le> wd_answered_at w + grant_s (decide v (ag_granted_by g)))
        \<and> (\<exists>p. get_policy (ag_scope g) (policies b) = Some p \<and> ag_expires_at g \<le> wd_answered_at w + sp_max_grant_s p)
        \<and> (0 < bc_max_grant_s c \<longrightarrow> ag_expires_at g \<le> wd_answered_at w + bc_max_grant_s c)"
      using new(2) click ids who pol
      by (fastforce simp: window_ok_def window_ceiling_def lease_uncovered_def split: if_splits)
    then show ?thesis using new(1) fin pol by (intro exI [of _ new]) simp
  qed
qed

section \<open>Every request is answered\<close>

text \<open>No row has the name a later token would give.\<close>

definition ids_free :: "broker_config \<Rightarrow> broker \<Rightarrow> bool" where
  "ids_free c b \<longleftrightarrow> (\<forall>j \<ge> drawn b. (\<forall>r \<in> set (audit (ledger b)). au_id r \<noteq> ''au_'' @ bc_token c j)
     \<and> (\<forall>g \<in> set (grants (ledger b)). ag_id g \<noteq> ''gr_'' @ bc_token c j))"

lemma ids_free_frame: "ids_free c b \<Longrightarrow> ledger b' = ledger b \<Longrightarrow> drawn b \<le> drawn b' \<Longrightarrow> ids_free c b'"
  by (simp add: ids_free_def)

lemma record_each_returns:
  assumes inj: "inj (bc_token c)" and "ids_free c b" and row: "\<And>tok n. au_id (row tok n) = ''au_'' @ tok"
  shows "\<exists>b'. record_each c row ns b = Some b' \<and> ids_free c b'"
  using assms(2)
proof (induction ns arbitrary: b)
  case Nil
  then show ?case by simp
next
  case (Cons n ns)
  let ?r = "row (bc_token c (drawn b)) n"
  have "\<forall>r \<in> set (audit (ledger b)). au_id r \<noteq> au_id ?r" using Cons.prems row by (simp add: ids_free_def)
  then have rec: "record_decision ?r (ledger b) = Some ((ledger b)\<lparr>audit := audit (ledger b) @ [?r]\<rparr>)"
    by (auto simp: record_decision_def)
  let ?b = "b\<lparr>ledger := (ledger b)\<lparr>audit := audit (ledger b) @ [?r]\<rparr>, drawn := Suc (drawn b)\<rparr>"
  have "bc_token c (drawn b) \<noteq> bc_token c j" if "Suc (drawn b) \<le> j" for j
    using inj that by (auto dest: injD)
  then have "ids_free c ?b" using Cons.prems row by (auto simp: ids_free_def)
  then show ?case using Cons.IH [of ?b] rec by simp
qed

lemma refuse_returns:
  assumes "inj (bc_token c)" and "ids_free c b"
  shows "\<exists>b' r. refuse c w q vs g rid who gids b = Some (b', r) \<and> ids_free c b'"
proof -
  obtain b' where "record_each c (\<lambda>tok n. audit_row w q rid tok n (refused_as vs g n) who (gids n) []) (names q) b = Some b'"
      "ids_free c b'"
    using record_each_returns [OF assms, of "\<lambda>tok n. audit_row w q rid tok n (refused_as vs g n) who (gids n) []"]
    by (auto simp: audit_row_def)
  then show ?thesis by (simp add: refuse_def)
qed

lemma serve_returns:
  assumes inj: "inj (bc_token c)" and free: "ids_free c b"
  shows "\<exists>b' r. serve c w q vs rid asked who ds gids b = Some (b', r) \<and> ids_free c b'"
proof -
  obtain b1 res where rd: "read_all w (lr_bindings q) Map.empty b = (b1, res)" by fastforce
  have free1: "ids_free c b1" using ids_free_frame [OF free] read_all_frame [OF rd] by simp
  show ?thesis
  proof (cases res)
    case (Inl x)
    then show ?thesis using refuse_returns [OF inj free1] rd by (simp add: serve_def)
  next
    case (Inr vals)
    let ?row = "\<lambda>tok n. audit_row w q rid tok n (ds n) who (gids n) (v_rule (vs n))"
    obtain b2 where b2: "record_each c ?row (names q) b1 = Some b2" "ids_free c b2"
      using record_each_returns [OF inj free1, of ?row] by (auto simp: audit_row_def)
    have "drawn (notify c w q vs b2) = drawn b2" by (simp add: notify_def Let_def split: option.splits)
    then have "ids_free c (notify c w q vs b2)" using ids_free_frame [OF b2(2)] notify_frame by simp
    then show ?thesis using b2 rd Inr by (simp add: serve_def)
  qed
qed

lemma open_each_returns:
  assumes inj: "inj (bc_token c)" and "ids_free c b"
  shows "\<exists>b' ds' gids'. open_each c w agent a unc ns b ds gids = Some (b', ds', gids') \<and> ids_free c b'"
  using assms(2)
proof (induction ns arbitrary: b ds gids)
  case Nil
  then show ?case by simp
next
  case (Cons n ns)
  show ?case
  proof (cases "grant_s a > 0 \<and> n \<in> set unc")
    case True
    have "\<forall>g \<in> set (grants (ledger b)). ag_id g \<noteq> ''gr_'' @ bc_token c (drawn b)" using Cons.prems by (simp add: ids_free_def)
    then obtain b1 gid where o: "open_window c w agent n a b = Some (b1, gid)"
      by (auto simp: open_window_def Let_def create_grant_def)
    have "bc_token c (drawn b) \<noteq> bc_token c j" if "Suc (drawn b) \<le> j" for j
      using inj that by (auto dest: injD)
    then have "ids_free c b1" using Cons.prems open_window_Some [OF o] by (auto simp: ids_free_def)
    then show ?thesis using Cons.IH [of b1] True o by simp
  next
    case False
    then show ?thesis using Cons.IH [OF Cons.prems] by auto
  qed
qed

text \<open>The ledger refuses a row only for a key it has.  With tokens that are never drawn twice, and
  none of those to come in the ledger yet, a request meets no such key on any of its paths and
  leaves the next one as well off, whatever the policies, the clicks and the backend are.\<close>

lemma every_request_answered:
  assumes inj: "inj (bc_token c)" and free: "ids_free c b"
  shows "\<exists>b' r. lease c w q b = Some (b', r) \<and> ids_free c b'"
proof (cases "filter (\<lambda>n. v_outcome (lease_verdict q b n) = REFUSE) (names q)")
  case (Cons n ns)
  have "n \<in> set (filter (\<lambda>n. v_outcome (lease_verdict q b n) = REFUSE) (names q))" unfolding Cons by simp
  then have "v_outcome (lease_verdict q b n) = REFUSE" by simp
  then obtain d where d: "v_decision (lease_verdict q b n) = Some d" using lease_verdict_decided by blast
  have "ids_free c (begun b)" using ids_free_frame [OF free] by simp
  then show ?thesis using refuse_returns [OF inj] Cons d unfolding lease_unfolded by simp
next
  case Nil
  have free1: "ids_free c (checked b)" using ids_free_frame [OF free] by simp
  obtain b1 ans where ak: "ask c w q (lease_longest c w q b) (checked b) = (b1, ans)" by fastforce
  have free2: "ids_free c b1" using ids_free_frame [OF free1] ask_frame [OF ak] by simp
  show ?thesis
  proof (cases ans)
    case None
    then show ?thesis using refuse_returns [OF inj free1] refuse_returns [OF inj free2] serve_returns [OF inj free1] ak
      unfolding lease_unfolded Nil by simp
  next
    case (Some a)
    obtain b2 ds gids where o: "open_each c w (lr_agent q) a (lease_uncovered w q b) (lease_answered w q b) b1
        (lease_decisions w q b) (lease_gids w q b) = Some (b2, ds, gids)" "ids_free c b2"
      using open_each_returns [OF inj free2] by blast
    show ?thesis using refuse_returns [OF inj free1] refuse_returns [OF inj free2] serve_returns [OF inj free1]
        serve_returns [OF inj o(2)] ak Some o(1)
      unfolding lease_unfolded Nil by simp
  qed
qed

section \<open>References\<close>

lemma strip_edges:
  assumes "s \<noteq> []" and "\<not> is_space (hd s)" and "\<not> is_space (last s)"
  shows "strip s = s"
proof -
  obtain c cs where s: "s = c # cs" "\<not> is_space c" using assms(1,2) by (cases s) auto
  then have "dropWhile is_space s = s" by simp
  moreover obtain d ds where r: "rev s = d # ds" "\<not> is_space d" using assms(1,3) by (cases "rev s") (auto simp: last_rev hd_rev [symmetric] rev_swap)
  then have "dropWhile is_space (rev s) = rev s" by simp
  ultimately show ?thesis by (simp add: strip_def)
qed

lemma word_char_plain: "word_char c \<or> c \<in> set ''._-'' \<Longrightarrow> \<not> is_space c \<and> c \<noteq> CHR ''#'' \<and> c \<noteq> LF"
  by (auto simp: word_char_def lower_digit_def is_digit_def is_space_def Let_def)

lemma name_body_chars: "name_body n \<Longrightarrow> c \<in> set n \<Longrightarrow> word_char c \<or> c \<in> set ''._-''"
  by (cases n) (auto simp: name_body_def word_char_def list_all_iff)

lemma field_body_chars: "field_body f \<Longrightarrow> c \<in> set f \<Longrightarrow> word_char c \<or> c \<in> set ''._-''"
  by (auto simp: field_body_def list_all_iff)

lemma partition_at_sep: "sep \<notin> set n \<Longrightarrow> partition_at sep (n @ sep # f) = (n, True, f)"
  by (simp add: partition_at_def Let_def takeWhile_append2 dropWhile_append2 cong: takeWhile_cong) (auto simp: takeWhile_append dropWhile_append)

lemma partition_at_none: "sep \<notin> set n \<Longrightarrow> partition_at sep n = (n, False, [])"
  by (simp add: partition_at_def Let_def) (metis (mono_tags, lifting) dropWhile_eq_Nil_conv takeWhile_eq_all_conv list.sel(2))

lemma parse_ref_written:
  assumes name: "\<And>c. c \<in> set n \<Longrightarrow> c \<noteq> CHR ''#''" "name_match n" and f: "field_body f"
  shows "parse_ref (''vault://'' @ n @ CHR ''#'' # f) = Inr (SecretRef n f)"
proof -
  let ?t = "''vault://'' @ n @ CHR ''#'' # f"
  have "f \<noteq> []" using f by (simp add: field_body_def)
  then have "last ?t \<in> set f" by simp
  then have "strip ?t = ?t" using word_char_plain field_body_chars [OF f] by (intro strip_edges) (auto simp: is_space_def)
  moreover have "partition_at (CHR ''#'') (n @ CHR ''#'' # f) = (n, True, f)" using name(1) by (intro partition_at_sep) blast
  moreover have "field_match f" using f by (simp add: field_match_def at_end_def)
  ultimately show ?thesis using name(2) by (simp add: parse_ref_def SCHEMES_def starts_with_def Let_def)
qed

text \<open>A reference reads back: what a well-formed reference is written as, in a card or an argument,
  is parsed to the same name and field.\<close>

lemma reference_roundtrip:
  assumes n: "name_body n" and f: "field_body f"
  shows "parse_ref (show_ref (SecretRef n f)) = Inr (SecretRef n f)"
proof -
  have plain: "\<And>c. c \<in> set n \<Longrightarrow> c \<noteq> CHR ''#'' \<and> \<not> is_space c" using word_char_plain name_body_chars [OF n] by blast
  have nm: "name_match n" using n by (simp add: name_match_def at_end_def)
  show ?thesis
  proof (cases "f = DEFAULT_FIELD")
    case False
    then show ?thesis using parse_ref_written [of n f] plain nm f by (simp add: show_ref_def)
  next
    case True
    let ?t = "''vault://'' @ n"
    have "n \<noteq> []" using n by (auto simp: name_body_def)
    then have "last ?t \<in> set n" by simp
    then have "strip ?t = ?t" using plain by (intro strip_edges) (auto simp: is_space_def)
    moreover have "partition_at (CHR ''#'') n = (n, False, [])" using plain by (intro partition_at_none) blast
    moreover have "field_match DEFAULT_FIELD" using f True by (simp add: field_match_def at_end_def)
    ultimately show ?thesis using nm True by (simp add: parse_ref_def show_ref_def SCHEMES_def starts_with_def Let_def)
  qed
qed

lemma reference_roundtrip_witness: "parse_ref (show_ref (SecretRef ''smtp'' ''password'')) = Inr (SecretRef ''smtp'' ''password'')"
  by (rule reference_roundtrip) code_simp+

text \<open>A name may end in a newline: the pattern a name is checked with ends in a dollar sign, which
  also matches before a final newline, so behind every well-formed name a newline is accepted as
  part of it.\<close>

lemma newline_name_accepted:
  assumes "name_body n" and "field_body f"
  shows "parse_ref (''vault://'' @ (n @ [LF]) @ CHR ''#'' # f) = Inr (SecretRef (n @ [LF]) f) \<and> \<not> name_body (n @ [LF])"
proof
  have "name_match (n @ [LF])" using assms(1) by (simp add: name_match_def at_end_def)
  moreover have "c \<noteq> CHR ''#''" if "c \<in> set (n @ [LF])" for c
    using that word_char_plain name_body_chars [OF assms(1)] by auto
  ultimately show "parse_ref (''vault://'' @ (n @ [LF]) @ CHR ''#'' # f) = Inr (SecretRef (n @ [LF]) f)"
    using assms(2) by (intro parse_ref_written) auto
  show "\<not> name_body (n @ [LF])"
  proof
    assume "name_body (n @ [LF])"
    then have "word_char LF \<or> LF \<in> set ''._-''" by (rule name_body_chars) simp
    then show False using word_char_plain by blast
  qed
qed

lemma newline_name_accepted_witness:
  "parse_ref (''vault://'' @ (''smtp'' @ [LF]) @ CHR ''#'' # ''password'') = Inr (SecretRef (''smtp'' @ [LF]) ''password'')"
  using newline_name_accepted [of "''smtp''" "''password''"]
  by (simp add: name_body_def field_body_def lower_digit_def word_char_def is_digit_def)

section \<open>A broker to evaluate with\<close>

definition sample_bc :: broker_config where
  "sample_bc = \<lparr>bc_token = (\<lambda>n. replicate n CHR ''x''), bc_channel = ''ops'', bc_approvers = ''@ann, bob'',
     bc_directory = (\<lambda>e. if e = ''ann'' then Some ''U1'' else None), bc_timeout_s = 120, bc_max_grant_s = 3600, bc_fold = 900\<rparr>"

definition sample_policy :: "string \<Rightarrow> string \<Rightarrow> secret_policy" where
  "sample_policy n rules = \<lparr>sp_name = n, sp_approval = APPROVAL_ALWAYS, sp_max_grant_s = 600, sp_subjects = ''helper, scout'',
     sp_description = [], sp_created_at = 0, sp_updated_at = 0, sp_auto_commands = rules\<rparr>"

definition sample_broker :: broker where
  "sample_broker = \<lparr>policies = [sample_policy ''github'' [], sample_policy ''smtp'' (encode [[''mail'', ''*'']])],
     ledger = \<lparr>grants = [], audit = []\<rparr>, waiting = Map.empty, notices = Map.empty, resolved = None, drawn = 0, touched = []\<rparr>"

definition sample_request :: "string \<Rightarrow> lease_request" where
  "sample_request agent = \<lparr>lr_agent = agent, lr_bindings = [(''GH'', SecretRef ''github'' ''value''), (''PW'', SecretRef ''smtp'' ''password'')],
     lr_reason = ''release'', lr_command = [''mail'', ''-s'', ''done'']\<rparr>"

definition sample_world :: world where
  "sample_world = \<lparr>wd_status = \<lparr>reachable_now = True, sealed = False, authenticated = True\<rparr>, wd_poster = True, wd_direct = None,
     wd_post = Some ''p1'', wd_clicks = [(''x'', ''deny'', ''U9''), (''x'', ''grant:900'', ''U1'')],
     wd_read = (\<lambda>r. Inr (ref_name r)), wd_asked_at = 100, wd_answered_at = 110, wd_elapsed_ms = 5, wd_monotonic = 7\<rparr>"

lemma sample_ids: "inj (bc_token sample_bc)" "ids_free sample_bc sample_broker"
  by (auto simp: sample_bc_def inj_def ids_free_def sample_broker_def)

definition sample_lease :: "string \<Rightarrow> (broker \<times> lease_result) option" where
  "sample_lease agent = lease sample_bc sample_world (sample_request agent) sample_broker"

lemma sample_lease_values:
  "map_option (\<lambda>(b, r). (granted r, result_decision r, map (result_values r) [''GH'', ''PW''],
      map (\<lambda>g. (ag_scope g, ag_expires_at g, ag_granted_by g)) (grants (ledger b)),
      map au_decision (audit (ledger b)))) (sample_lease ''helper'')
    = Some (True, DECISION_APPROVED_ONCE, [Some ''github'', Some ''smtp''], [(''github'', 710, ''U1'')],
        [''approved_grant'', ''approved_once''])"
  by code_simp

lemma sample_lease_refused:
  "map_option (\<lambda>(b, r). (granted r, result_decision r, touched b, map au_decision (audit (ledger b)))) (sample_lease ''intruder'')
    = Some (False, DECISION_NOT_PERMITTED, [], [''not_permitted'', ''not_permitted''])"
  by code_simp

lemma sample_served:
  obtains b' r where "lease sample_bc sample_world (sample_request ''helper'') sample_broker = Some (b', r)" "granted r"
    "map au_decision (audit (ledger b')) = [''approved_grant'', ''approved_once'']"
    "map ag_scope (grants (ledger b')) = [''github'']"
proof -
  obtain b' r where l: "lease sample_bc sample_world (sample_request ''helper'') sample_broker = Some (b', r)"
    using sample_lease_values by (cases "sample_lease ''helper''") (auto simp: sample_lease_def)
  have "map (\<lambda>g. (ag_scope g, ag_expires_at g, ag_granted_by g)) (grants (ledger b')) = [(''github'', 710, ''U1'')]"
    and v: "granted r" "map au_decision (audit (ledger b')) = [''approved_grant'', ''approved_once'']"
    using sample_lease_values l by (simp_all add: sample_lease_def)
  then have "map fst (map (\<lambda>g. (ag_scope g, ag_expires_at g, ag_granted_by g)) (grants (ledger b'))) = [''github'']"
    by (simp only: list.map fst_conv)
  then show ?thesis using l v by (intro that) (simp_all add: comp_def)
qed

lemma values_only_with_authority_witness:
  "authorised sample_bc sample_world (sample_request ''helper'') sample_broker ''github''"
proof -
  obtain b' r where "lease sample_bc sample_world (sample_request ''helper'') sample_broker = Some (b', r)" "granted r"
    using sample_served by blast
  note values_only_with_authority [OF this]
  moreover have "''github'' \<in> set (names (sample_request ''helper''))" by code_simp
  ultimately show ?thesis by blast
qed

lemma refusals_tell_nothing_witness:
  "\<exists>b' r. lease sample_bc sample_world (sample_request ''intruder'') sample_broker = Some (b', r)
     \<and> wire_status (result_decision r) = WIRE_REFUSED \<and> touched b' = []"
proof -
  obtain b' r where l: "lease sample_bc sample_world (sample_request ''intruder'') sample_broker = Some (b', r)"
    using sample_lease_refused by (cases "sample_lease ''intruder''") (auto simp: sample_lease_def)
  have "''github'' \<in> set (names (sample_request ''intruder''))" by code_simp
  moreover have "case get_policy ''github'' (policies sample_broker) of None \<Rightarrow> True | Some p \<Rightarrow> \<not> allows p (lr_agent (sample_request ''intruder''))"
    by code_simp
  then have "\<not> (\<exists>p. get_policy ''github'' (policies sample_broker) = Some p \<and> allows p (lr_agent (sample_request ''intruder'')))"
    by auto
  ultimately have "wire_status (result_decision r) = WIRE_REFUSED \<and> touched b' = touched sample_broker"
    using refusals_tell_nothing [OF l] by blast
  then show ?thesis using l by (auto simp: sample_broker_def)
qed

lemma ledger_has_every_request_witness:
  "\<exists>b' r rows. lease sample_bc sample_world (sample_request ''helper'') sample_broker = Some (b', r)
     \<and> audit (ledger b') = rows \<and> map au_scope rows = [''github'', ''smtp'']"
proof -
  obtain b' r where l: "lease sample_bc sample_world (sample_request ''helper'') sample_broker = Some (b', r)"
    using sample_served by blast
  have "audit (ledger sample_broker) = []" "names (sample_request ''helper'') = [''github'', ''smtp'']" by code_simp+
  then show ?thesis using ledger_has_every_request [OF l] l by (auto simp: rows_of_def)
qed

lemma windows_bounded_witness:
  "\<exists>b' r g. lease sample_bc sample_world (sample_request ''helper'') sample_broker = Some (b', r)
     \<and> g \<in> set (grants (ledger b')) \<and> ag_scope g = ''github'' \<and> ag_expires_at g \<le> 110 + 600"
proof -
  obtain b' r where l: "lease sample_bc sample_world (sample_request ''helper'') sample_broker = Some (b', r)"
      "map ag_scope (grants (ledger b')) = [''github'']"
    using sample_served by metis
  then obtain g where g: "grants (ledger b') = [g]" "ag_scope g = ''github''" by (auto simp: map_eq_Cons_conv)
  have none: "grants (ledger sample_broker) = []" by code_simp
  obtain new where "grants (ledger b') = [] @ new"
      "\<forall>g \<in> set new. \<exists>p. get_policy (ag_scope g) (policies sample_broker) = Some p
        \<and> ag_expires_at g \<le> wd_answered_at sample_world + sp_max_grant_s p"
    using windows_bounded [OF l(1)] unfolding none by blast
  then obtain p where p: "get_policy ''github'' (policies sample_broker) = Some p"
      "ag_expires_at g \<le> wd_answered_at sample_world + sp_max_grant_s p" using g by auto
  have "map_option sp_max_grant_s (get_policy ''github'' (policies sample_broker)) = Some 600" by code_simp
  then have "sp_max_grant_s p = 600" using p(1) by simp
  moreover have "wd_answered_at sample_world = 110" by (simp add: sample_world_def)
  ultimately show ?thesis using l(1) g p(2) by (intro exI [of _ b'] exI [of _ r] exI [of _ g]) simp
qed

lemma every_request_answered_witness:
  "\<exists>b' r. lease sample_bc sample_world (sample_request ''scout'') sample_broker = Some (b', r) \<and> ids_free sample_bc b'"
  by (rule every_request_answered [OF sample_ids])

end
