(* ===== verification/Vault.thy ===== *)
theory Vault
  imports Ward
begin

text \<open>
  The adapter to HashiCorp Vault, \<open>packages/ward/src/ward/vault.py\<close>.  Vault itself is an argument: a function
  from everything it was asked so far to its reply, \<open>None\<close> when it cannot be reached.  A reply holds the parts of
  the documented bodies the adapter reads.  What was sent, with the token it carried, and what came back is kept
  in \<open>vb_log\<close>, oldest first.  An operation is one step with all the calls it awaits: two operations do not mix their calls
  here, which in the code they may, as nothing locks them against each other.
\<close>

section \<open>Asking Vault\<close>

datatype vault_verb =
    SealStatus | Unseal string | Login string string
  | ReadData string | WriteData string "(string \<times> string) list" | DeleteMeta string | ListMeta
  | InitVault | MountKv | PutAcl "(string \<times> string list) list" | EnableApprole | PutRole | ReadRoleId | MintSecretId | ListAccessors
  | DestroyAccessor string | RevokeSelf

record vault_request =
  vq_token :: string
  vq_verb :: vault_verb

record vault_reply =
  vr_code :: nat
  vr_errors :: "string list"
  vr_sealed :: "bool option"
  vr_initialized :: bool
  vr_client_token :: string
  vr_fields :: "(string \<times> string) list"
  vr_keys :: "string list"
  vr_root_token :: string
  vr_role_id :: string
  vr_secret_id :: string
  vr_accessor :: string

type_synonym vault_log = "(vault_request \<times> vault_reply option) list"
type_synonym vault_server = "vault_log \<Rightarrow> vault_request \<Rightarrow> vault_reply option"

record vault_backend =
  vb_mount :: string
  vb_role_id :: string
  vb_token :: string
  vb_secret_id :: string
  vb_log :: vault_log

definition vault_role :: "vault_backend \<Rightarrow> string" where
  "vault_role b = vb_mount b @ ''-broker''"

datatype vault_error =
    VaultUnreachable | NoCredential | VaultFailed nat "string list" | UnsealRefused nat "string list" | StillSealed | NoToken
  | NoSuchSecret string | NoField string string | AlreadyInitialized | InitIncomplete | EmptySecretId | EmptyApprole

text \<open>Whether an error carries \<open>sealed=True\<close>.\<close>

definition says_sealed :: "vault_error \<Rightarrow> bool" where
  "says_sealed e = (case e of UnsealRefused _ _ \<Rightarrow> True | StillSealed \<Rightarrow> True | _ \<Rightarrow> False)"

type_synonym 'a vault_io = "vault_backend \<Rightarrow> vault_backend \<times> (vault_error + 'a)"

definition gives :: "'a \<Rightarrow> 'a vault_io" where
  "gives x b = (b, Inr x)"

definition fails :: "vault_error \<Rightarrow> 'a vault_io" where
  "fails e b = (b, Inl e)"

definition and_then :: "'a vault_io \<Rightarrow> ('a \<Rightarrow> 'b vault_io) \<Rightarrow> 'b vault_io" where
  "and_then m f b = (case m b of (b1, Inl e) \<Rightarrow> (b1, Inl e) | (b1, Inr x) \<Rightarrow> f x b1)"

definition vault_call :: "vault_server \<Rightarrow> string \<Rightarrow> vault_verb \<Rightarrow> vault_reply vault_io" where
  "vault_call srv token verb b =
     (let q = \<lparr>vq_token = (if token \<noteq> [] then token else vb_token b), vq_verb = verb\<rparr>; r = srv (vb_log b) q;
          b1 = b\<lparr>vb_log := vb_log b @ [(q, r)]\<rparr> in
      case r of None \<Rightarrow> (b1, Inl VaultUnreachable) | Some reply \<Rightarrow> (b1, Inr reply))"

definition refused_reply :: "vault_reply \<Rightarrow> vault_error" where
  "refused_reply r = VaultFailed (vr_code r) (vr_errors r)"

section \<open>State\<close>

definition vault_status :: "vault_server \<Rightarrow> backend_status vault_io" where
  "vault_status srv b =
     (case vault_call srv [] SealStatus b of
        (b1, Inl e) \<Rightarrow> (b1, Inr \<lparr>reachable_now = False, sealed = True, authenticated = False\<rparr>)
      | (b1, Inr r) \<Rightarrow>
          if vr_code r \<noteq> 200 then (b1, Inr \<lparr>reachable_now = False, sealed = True, authenticated = False\<rparr>)
          else (b1, Inr \<lparr>reachable_now = True, sealed = (case vr_sealed r of None \<Rightarrow> True | Some s \<Rightarrow> s) \<or> \<not> vr_initialized r,
                         authenticated = vb_token b1 \<noteq> []\<rparr>))"

text \<open>\<open>_login\<close>: the token sent is \<open>-\<close>, never the one held.\<close>

definition vault_login :: "vault_server \<Rightarrow> unit vault_io" where
  "vault_login srv b =
     (if vb_role_id b = [] \<or> vb_secret_id b = [] then (b, Inl NoCredential)
      else case vault_call srv ''-'' (Login (vb_role_id b) (vb_secret_id b)) b of
        (b1, Inl e) \<Rightarrow> (b1, Inl e)
      | (b1, Inr r) \<Rightarrow>
          if vr_code r \<noteq> 200 then (b1\<lparr>vb_token := []\<rparr>, Inl (refused_reply r))
          else let b2 = b1\<lparr>vb_token := vr_client_token r\<rparr> in
               if vr_client_token r = [] then (b2, Inl NoToken) else (b2, Inr ()))"

record unlock_material =
  um_unseal_key :: string
  um_auth_secret :: string

definition unseal_with :: "vault_server \<Rightarrow> string \<Rightarrow> unit vault_io" where
  "unseal_with srv key =
     and_then (vault_call srv [] (Unseal key)) (\<lambda>r.
       if vr_code r \<noteq> 200 then fails (UnsealRefused (vr_code r) (vr_errors r))
       else if (case vr_sealed r of None \<Rightarrow> True | Some s \<Rightarrow> s) then fails StillSealed
       else gives ())"

definition take_secret_id :: "string \<Rightarrow> unit vault_io" where
  "take_secret_id s b = (b\<lparr>vb_secret_id := s\<rparr>, Inr ())"

definition vault_unlock :: "vault_server \<Rightarrow> unlock_material \<Rightarrow> backend_status vault_io" where
  "vault_unlock srv m =
     and_then (vault_status srv) (\<lambda>st.
       if \<not> reachable_now st then gives st
       else and_then (if sealed st \<and> um_unseal_key m \<noteq> [] then unseal_with srv (um_unseal_key m) else gives ()) (\<lambda>_.
            and_then (if um_auth_secret m \<noteq> [] then and_then (take_secret_id (um_auth_secret m)) (\<lambda>_. vault_login srv) else gives ()) (\<lambda>_.
              vault_status srv)))"

section \<open>Values\<close>

text \<open>\<open>_kv\<close>: a reply of 403 is a token that ran out, once.\<close>

definition kv :: "vault_server \<Rightarrow> vault_verb \<Rightarrow> vault_reply vault_io" where
  "kv srv verb b =
     (if vb_token b = [] then (b, Inl NoCredential)
      else and_then (vault_call srv [] verb) (\<lambda>r.
        if vr_code r = 403 then and_then (vault_login srv) (\<lambda>_. vault_call srv [] verb) else gives r) b)"

definition vault_read :: "vault_server \<Rightarrow> secret_ref \<Rightarrow> string vault_io" where
  "vault_read srv ref =
     and_then (kv srv (ReadData (ref_name ref))) (\<lambda>r.
       if vr_code r = 404 then fails (NoSuchSecret (ref_name ref))
       else if vr_code r \<noteq> 200 then fails (refused_reply r)
       else case map_of (vr_fields r) (ref_field ref) of
         None \<Rightarrow> fails (NoField (ref_name ref) (ref_field ref)) | Some v \<Rightarrow> gives v)"

definition vault_write :: "vault_server \<Rightarrow> string \<Rightarrow> (string \<times> string) list \<Rightarrow> unit vault_io" where
  "vault_write srv name values =
     and_then (kv srv (WriteData name values)) (\<lambda>r. if vr_code r \<notin> {200, 204} then fails (refused_reply r) else gives ())"

definition vault_delete :: "vault_server \<Rightarrow> string \<Rightarrow> unit vault_io" where
  "vault_delete srv name =
     and_then (kv srv (DeleteMeta name)) (\<lambda>r. if vr_code r \<notin> {200, 204} then fails (refused_reply r) else gives ())"

definition ends_with_slash :: "string \<Rightarrow> bool" where
  "ends_with_slash s \<longleftrightarrow> s \<noteq> [] \<and> last s = CHR ''/''"

definition vault_names :: "vault_server \<Rightarrow> string list vault_io" where
  "vault_names srv =
     and_then (kv srv ListMeta) (\<lambda>r.
       if vr_code r = 404 then gives []
       else if vr_code r \<noteq> 200 then fails (refused_reply r)
       else gives (sort (filter (\<lambda>k. \<not> ends_with_slash k) (vr_keys r))))"

section \<open>Setting up\<close>

definition broker_policy :: "string \<Rightarrow> string \<Rightarrow> (string \<times> string list) list" where
  "broker_policy mount role =
     [(mount @ ''/data/*'', [''create'', ''read'', ''update'', ''delete'']),
      (mount @ ''/metadata/*'', [''list'', ''read'', ''delete'']),
      (mount @ ''/metadata'', [''list'']),
      (''auth/approle/role/'' @ role @ ''/secret-id'', [''create'', ''update'']),
      (''auth/approle/role/'' @ role @ ''/secret-id-accessor/lookup'', [''create'', ''update'']),
      (''auth/approle/role/'' @ role @ ''/secret-id-accessor/destroy'', [''create'', ''update'']),
      (''auth/approle/role/'' @ role @ ''/secret-id'', [''list''])]"

definition expects :: "nat set \<Rightarrow> vault_reply vault_io \<Rightarrow> vault_reply vault_io" where
  "expects codes m = and_then m (\<lambda>r. if vr_code r \<notin> codes then fails (refused_reply r) else gives r)"

definition provision :: "vault_server \<Rightarrow> string \<Rightarrow> (string \<times> string) vault_io" where
  "provision srv root b0 =
     and_then (expects {200, 204, 400} (vault_call srv root MountKv)) (\<lambda>_.
     and_then (expects {200, 204} (vault_call srv root (PutAcl (broker_policy (vb_mount b0) (vault_role b0))))) (\<lambda>_.
     and_then (expects {200, 204, 400} (vault_call srv root EnableApprole)) (\<lambda>_.
     and_then (expects {200, 204} (vault_call srv root PutRole)) (\<lambda>_.
     and_then (expects {200} (vault_call srv root ReadRoleId)) (\<lambda>r1.
     and_then (expects {200} (vault_call srv root MintSecretId)) (\<lambda>r2.
       if vr_role_id r1 = [] \<or> vr_secret_id r2 = [] then fails EmptyApprole else gives (vr_role_id r1, vr_secret_id r2))))))) b0"

record vault_bootstrap =
  bs_unseal_key :: string
  bs_role_id :: string
  bs_secret_id :: string

definition take_role :: "string \<times> string \<Rightarrow> unit vault_io" where
  "take_role p b = (b\<lparr>vb_role_id := fst p, vb_secret_id := snd p\<rparr>, Inr ())"

definition bootstrap :: "vault_server \<Rightarrow> vault_bootstrap vault_io" where
  "bootstrap srv =
     and_then (expects {200} (vault_call srv [] SealStatus)) (\<lambda>r.
     if vr_initialized r then fails AlreadyInitialized
     else and_then (expects {200} (vault_call srv [] InitVault)) (\<lambda>r1.
     if vr_keys r1 = [] \<or> vr_root_token r1 = [] then fails InitIncomplete
     else and_then (vault_unlock srv \<lparr>um_unseal_key = hd (vr_keys r1), um_auth_secret = []\<rparr>) (\<lambda>_.
     and_then (provision srv (vr_root_token r1)) (\<lambda>p.
     and_then (take_role p) (\<lambda>_.
     and_then (vault_login srv) (\<lambda>_.
     and_then (vault_call srv (vr_root_token r1) RevokeSelf) (\<lambda>_.
       gives \<lparr>bs_unseal_key = hd (vr_keys r1), bs_role_id = fst p, bs_secret_id = snd p\<rparr>)))))))"

text \<open>The replies to the destructions are not looked at; one that cannot be reached ends the loop.\<close>

fun destroy_others :: "vault_server \<Rightarrow> string \<Rightarrow> string list \<Rightarrow> unit vault_io" where
  "destroy_others srv keep [] = gives ()"
| "destroy_others srv keep (a # as) =
     (if a = keep then destroy_others srv keep as
      else and_then (vault_call srv [] (DestroyAccessor a)) (\<lambda>_. destroy_others srv keep as))"

definition rotate :: "vault_server \<Rightarrow> string vault_io" where
  "rotate srv b0 =
     and_then (if vb_token b0 = [] then vault_login srv else gives ()) (\<lambda>_.
     and_then (kv srv MintSecretId) (\<lambda>r.
     if vr_code r \<noteq> 200 then fails (refused_reply r)
     else if vr_secret_id r = [] then fails EmptySecretId
     else and_then (kv srv ListAccessors) (\<lambda>r1.
     and_then (destroy_others srv (vr_accessor r) (vr_keys r1)) (\<lambda>_.
     and_then (take_secret_id (vr_secret_id r)) (\<lambda>_. gives (vr_secret_id r)))))) b0"

definition vault_close :: "unit vault_io" where
  "vault_close b = (b\<lparr>vb_token := [], vb_secret_id := []\<rparr>, Inr ())"

section \<open>Waiting for the store\<close>

text \<open>Clock readings are \<open>now\<close> and then one per turn of the loop; whether \<open>on_wait\<close> was called comes along.\<close>

fun wait_for_store :: "vault_server \<Rightarrow> int \<Rightarrow> int list \<Rightarrow> bool \<Rightarrow> vault_backend \<Rightarrow> (vault_backend \<times> bool \<times> bool) option" where
  "wait_for_store srv deadline [] announced b =
     (case vault_status srv b of (b1, Inr st) \<Rightarrow> if reachable_now st then Some (b1, True, announced) else None | (b1, Inl _) \<Rightarrow> None)"
| "wait_for_store srv deadline (now # later) announced b =
     (case vault_status srv b of
        (b1, Inr st) \<Rightarrow>
          if reachable_now st then Some (b1, True, announced)
          else if now \<ge> deadline then Some (b1, False, announced)
          else wait_for_store srv deadline later True b1
      | (b1, Inl _) \<Rightarrow> None)"

section \<open>What is sent\<close>

definition is_login :: "vault_verb \<Rightarrow> bool" where
  "is_login v = (case v of Login _ _ \<Rightarrow> True | _ \<Rightarrow> False)"

definition given_token :: "vault_log \<Rightarrow> string \<Rightarrow> bool" where
  "given_token log t \<longleftrightarrow> (\<exists>(q, r) \<in> set log. is_login (vq_verb q) \<and> (\<exists>reply. r = Some reply \<and> vr_code reply = 200 \<and> vr_client_token reply = t))"

definition log_ok :: "vault_log \<Rightarrow> bool" where
  "log_ok log \<longleftrightarrow> (\<forall>n < length log. let q = fst (log ! n) in
     if is_login (vq_verb q) then vq_token q = ''-'' else vq_token q = [] \<or> given_token (take n log) (vq_token q))"

definition vault_ok :: "vault_backend \<Rightarrow> bool" where
  "vault_ok b \<longleftrightarrow> (vb_token b = [] \<or> given_token (vb_log b) (vb_token b)) \<and> log_ok (vb_log b)"

definition keeps :: "'a vault_io \<Rightarrow> bool" where
  "keeps m \<longleftrightarrow> (\<forall>b. vault_ok b \<longrightarrow> vault_ok (fst (m b)))"

named_theorems keeps_intros

lemma keeps_gives [keeps_intros]: "keeps (gives x)"
  by (simp add: keeps_def gives_def)

lemma keeps_fails [keeps_intros]: "keeps (fails e)"
  by (simp add: keeps_def fails_def)

lemma keeps_and_then [keeps_intros]: "keeps m \<Longrightarrow> (\<And>x. keeps (f x)) \<Longrightarrow> keeps (and_then m f)"
  by (auto simp: keeps_def and_then_def split: prod.splits sum.splits)

lemma keeps_if [keeps_intros]: "keeps m \<Longrightarrow> keeps m' \<Longrightarrow> keeps (if c then m else m')"
  by simp

lemma keeps_at: "(\<And>b0. keeps (m b0)) \<Longrightarrow> keeps (\<lambda>b. m b b)"
  by (simp add: keeps_def)

lemma keeps_secret_id [keeps_intros]: "keeps (take_secret_id s)"
  by (simp add: keeps_def take_secret_id_def vault_ok_def)

lemma given_token_more: "given_token log t \<Longrightarrow> given_token (log @ more_log) t"
  by (auto simp: given_token_def)

lemma log_ok_snoc:
  "log_ok log \<Longrightarrow> if is_login (vq_verb q) then vq_token q = ''-'' else vq_token q = [] \<or> given_token log (vq_token q) \<Longrightarrow> log_ok (log @ [(q, r)])"
  by (auto simp: log_ok_def nth_append less_Suc_eq Let_def)

lemma logged_ok:
  assumes ok: "vault_ok b" and q: "if is_login (vq_verb q) then vq_token q = ''-'' else vq_token q = [] \<or> given_token (vb_log b) (vq_token q)"
  shows "vault_ok (b\<lparr>vb_log := vb_log b @ [(q, r)]\<rparr>)"
  using ok log_ok_snoc [OF _ q] by (auto simp: vault_ok_def given_token_more)

lemma vault_call_cases:
  "\<exists>r. vault_call srv t v b = (b\<lparr>vb_log := vb_log b @ [(\<lparr>vq_token = (if t \<noteq> [] then t else vb_token b), vq_verb = v\<rparr>, r)]\<rparr>,
      case r of None \<Rightarrow> Inl VaultUnreachable | Some reply \<Rightarrow> Inr reply)"
  unfolding vault_call_def Let_def by (cases "srv (vb_log b) \<lparr>vq_token = (if t \<noteq> [] then t else vb_token b), vq_verb = v\<rparr>") auto

lemma keeps_call [keeps_intros]: "\<not> is_login v \<Longrightarrow> keeps (vault_call srv [] v)"
  unfolding keeps_def
proof (intro allI impI)
  fix b assume v: "\<not> is_login v" and ok: "vault_ok b"
  obtain r where "vault_call srv [] v b = (b\<lparr>vb_log := vb_log b @ [(\<lparr>vq_token = vb_token b, vq_verb = v\<rparr>, r)]\<rparr>,
      case r of None \<Rightarrow> Inl VaultUnreachable | Some reply \<Rightarrow> Inr reply)"
    using vault_call_cases [of srv "[]" v b] by auto
  then show "vault_ok (fst (vault_call srv [] v b))" using logged_ok [OF ok] v ok by (simp add: vault_ok_def)
qed

lemma keeps_login [keeps_intros]: "keeps (vault_login srv)"
  unfolding keeps_def
proof (intro allI impI)
  fix b assume ok: "vault_ok b"
  let ?q = "\<lparr>vq_token = ''-'', vq_verb = Login (vb_role_id b) (vb_secret_id b)\<rparr>"
  obtain r where c: "vault_call srv ''-'' (Login (vb_role_id b) (vb_secret_id b)) b = (b\<lparr>vb_log := vb_log b @ [(?q, r)]\<rparr>,
      case r of None \<Rightarrow> Inl VaultUnreachable | Some reply \<Rightarrow> Inr reply)"
    using vault_call_cases [of srv "''-''" "Login (vb_role_id b) (vb_secret_id b)" b] by auto
  have l: "vault_ok (b\<lparr>vb_log := vb_log b @ [(?q, r)]\<rparr>)" by (rule logged_ok [OF ok]) (simp add: is_login_def)
  have cleared: "vault_ok (b\<lparr>vb_log := vb_log b @ [(?q, r)], vb_token := []\<rparr>)" using l by (simp add: vault_ok_def)
  have taken: "vault_ok (b\<lparr>vb_log := vb_log b @ [(?q, Some reply)], vb_token := vr_client_token reply\<rparr>)"
    if "r = Some reply" "vr_code reply = 200" for reply
    using l that by (auto simp: vault_ok_def given_token_def is_login_def)
  show "vault_ok (fst (vault_login srv b))"
    using ok l cleared taken by (cases r) (auto simp: vault_login_def c Let_def)
qed

lemma keeps_status [keeps_intros]: "keeps (vault_status srv)"
proof -
  have "fst (vault_status srv b) = fst (vault_call srv [] SealStatus b)" for b
    by (auto simp: vault_status_def split: prod.splits sum.splits)
  then show ?thesis using keeps_call [of SealStatus srv] by (simp add: keeps_def is_login_def)
qed

lemma keeps_unlock [keeps_intros]: "keeps (vault_unlock srv m)"
  unfolding vault_unlock_def unseal_with_def by (intro keeps_intros) (auto simp: is_login_def intro!: keeps_intros)

lemma keeps_kv [keeps_intros]: "\<not> is_login v \<Longrightarrow> keeps (kv srv v)"
proof -
  assume v: "\<not> is_login v"
  have "keeps (and_then (vault_call srv [] v) (\<lambda>r. if vr_code r = 403 then and_then (vault_login srv) (\<lambda>_. vault_call srv [] v) else gives r))"
    using v by (intro keeps_intros) auto
  then show ?thesis by (auto simp: keeps_def kv_def)
qed

lemma keeps_destroy [keeps_intros]: "keeps (destroy_others srv keep as)"
  by (induction as) (auto simp: is_login_def intro!: keeps_intros)

lemma keeps_rotate: "keeps (rotate srv)"
proof -
  have body: "keeps (and_then (if t = [] then vault_login srv else gives ()) (\<lambda>_.
     and_then (kv srv MintSecretId) (\<lambda>r.
     if vr_code r \<noteq> 200 then fails (refused_reply r)
     else if vr_secret_id r = [] then fails EmptySecretId
     else and_then (kv srv ListAccessors) (\<lambda>r1.
     and_then (destroy_others srv (vr_accessor r) (vr_keys r1)) (\<lambda>_.
     and_then (take_secret_id (vr_secret_id r)) (\<lambda>_. gives (vr_secret_id r)))))))" for t :: string
    by (intro keeps_intros) (auto simp: is_login_def)
  show ?thesis unfolding keeps_def rotate_def using body unfolding keeps_def by blast
qed

lemma keeps_read: "keeps (vault_read srv ref)"
proof -
  have "keeps (case map_of fs f of None \<Rightarrow> fails e | Some v \<Rightarrow> gives v)" for fs :: "(string \<times> string) list" and f e
    by (cases "map_of fs f") (auto intro: keeps_intros)
  then show ?thesis unfolding vault_read_def by (intro keeps_intros) (auto simp: is_login_def intro!: keeps_intros)
qed

lemma keeps_write: "keeps (vault_write srv name values)"
  unfolding vault_write_def by (intro keeps_intros) (auto simp: is_login_def)

lemma keeps_delete: "keeps (vault_delete srv name)"
  unfolding vault_delete_def by (intro keeps_intros) (auto simp: is_login_def)

lemma keeps_names: "keeps (vault_names srv)"
  unfolding vault_names_def by (intro keeps_intros) (auto simp: is_login_def)

lemma keeps_close: "keeps vault_close"
  by (simp add: keeps_def vault_close_def vault_ok_def)

section \<open>Theorems\<close>

datatype vault_op =
    AsksState | Unlocks unlock_material | Reads secret_ref | Writes string "(string \<times> string) list" | Removes string | Names | Rotates | Closes

fun vault_do :: "vault_server \<Rightarrow> vault_op \<Rightarrow> vault_backend \<Rightarrow> vault_backend" where
  "vault_do srv AsksState b = fst (vault_status srv b)"
| "vault_do srv (Unlocks m) b = fst (vault_unlock srv m b)"
| "vault_do srv (Reads ref) b = fst (vault_read srv ref b)"
| "vault_do srv (Writes name values) b = fst (vault_write srv name values b)"
| "vault_do srv (Removes name) b = fst (vault_delete srv name b)"
| "vault_do srv Names b = fst (vault_names srv b)"
| "vault_do srv Rotates b = fst (rotate srv b)"
| "vault_do srv Closes b = fst (vault_close b)"

definition new_backend :: "string \<Rightarrow> string \<Rightarrow> vault_backend" where
  "new_backend mount role_id = \<lparr>vb_mount = mount, vb_role_id = role_id, vb_token = [], vb_secret_id = [], vb_log = []\<rparr>"

lemma vault_do_ok: "vault_ok b \<Longrightarrow> vault_ok (vault_do srv op b)"
  using keeps_status keeps_unlock keeps_read keeps_write keeps_delete keeps_names keeps_rotate keeps_close
  unfolding keeps_def by (cases op) auto

lemma vault_dos_ok: "vault_ok b \<Longrightarrow> vault_ok (fold (vault_do srv) ops b)"
  by (induction ops arbitrary: b) (auto simp: vault_do_ok)

text \<open>C30. Whatever Vault answers and in whatever order the broker is used, a request carries no token but one an
  earlier login was answered with, and a login carries none that is held.  (Setting Vault up, with its root token, is
  \<open>bootstrap\<close>.)\<close>

theorem only_given_tokens_are_sent:
  assumes "b = fold (vault_do srv) ops (new_backend mount role_id)" and "n < length (vb_log b)" and "q = fst (vb_log b ! n)"
  shows "if is_login (vq_verb q) then vq_token q = ''-''
    else vq_token q = [] \<or> (\<exists>m < n. is_login (vq_verb (fst (vb_log b ! m)))
      \<and> (\<exists>reply. snd (vb_log b ! m) = Some reply \<and> vr_code reply = 200 \<and> vr_client_token reply = vq_token q))"
proof -
  have "vault_ok (new_backend mount role_id)" by (simp add: vault_ok_def log_ok_def new_backend_def)
  then have l: "log_ok (vb_log b)" using vault_dos_ok assms(1) by (simp add: vault_ok_def)
  have given: "\<exists>m < n. is_login (vq_verb (fst (vb_log b ! m)))
      \<and> (\<exists>reply. snd (vb_log b ! m) = Some reply \<and> vr_code reply = 200 \<and> vr_client_token reply = vq_token q)"
    if "given_token (take n (vb_log b)) (vq_token q)"
    using that assms(2) by (fastforce simp: given_token_def in_set_conv_nth)
  show ?thesis using l assms(2,3) given unfolding log_ok_def Let_def by (auto split: if_splits)
qed

definition sample_vault :: vault_server where
  "sample_vault log q =
     (let ok = \<lparr>vr_code = 200, vr_errors = [], vr_sealed = Some False, vr_initialized = True, vr_client_token = ''tok'', vr_fields = [(''value'', ''x'')],
                vr_keys = [''old'', ''new''], vr_root_token = [], vr_role_id = [], vr_secret_id = ''s2'', vr_accessor = ''new''\<rparr> in
      case vq_verb q of Login r s \<Rightarrow> Some (if s = ''bad'' then ok\<lparr>vr_code := 400\<rparr> else ok) | _ \<Rightarrow> Some ok)"

lemmas vault_simps = and_then_def gives_def fails_def vault_call_def vault_status_def vault_unlock_def unseal_with_def take_secret_id_def vault_login_def
  kv_def vault_read_def rotate_def vault_close_def refused_reply_def new_backend_def sample_vault_def Let_def

definition sample_vault_session :: vault_backend where
  "sample_vault_session = fold (vault_do sample_vault) [Unlocks \<lparr>um_unseal_key = [], um_auth_secret = ''s''\<rparr>, Reads (SecretRef ''n'' ''value'')] (new_backend ''m'' ''r'')"

lemma sample_vault_session_log: "map fst (vb_log sample_vault_session) = map (\<lambda>(t, v). \<lparr>vq_token = t, vq_verb = v\<rparr>)
    [([], SealStatus), (''-'', Login ''r'' ''s''), (''tok'', SealStatus), (''tok'', ReadData ''n'')]"
  by (simp add: sample_vault_session_def vault_simps)

lemma only_given_tokens_are_sent_witness:
  "length (vb_log sample_vault_session) = 4 \<and> vq_token (fst (vb_log sample_vault_session ! 3)) = ''tok'' \<and> (\<exists>m < 3. is_login (vq_verb (fst (vb_log sample_vault_session ! m))))"
proof -
  have n: "length (vb_log sample_vault_session) = 4" using arg_cong [OF sample_vault_session_log, of length] by simp
  then have q: "fst (vb_log sample_vault_session ! 3) = \<lparr>vq_token = ''tok'', vq_verb = ReadData ''n''\<rparr>"
    using arg_cong [OF sample_vault_session_log, of "\<lambda>xs. xs ! 3"] by simp
  have "\<exists>m < 3. is_login (vq_verb (fst (vb_log sample_vault_session ! m)))"
    using only_given_tokens_are_sent [OF sample_vault_session_def, of 3, OF _ refl] n unfolding q by (auto simp: is_login_def)
  then show ?thesis using n q by simp
qed

text \<open>A value that is read is Vault's own answer to the last request, and at most three were sent.\<close>

lemma read_is_vaults_answer:
  assumes "vault_read srv ref b = (b', Inr v)"
  shows "\<exists>q r. vb_log b' \<noteq> [] \<and> last (vb_log b') = (q, Some r) \<and> vq_verb q = ReadData (ref_name ref) \<and> vr_code r = 200
    \<and> map_of (vr_fields r) (ref_field ref) = Some v \<and> length (vb_log b') \<le> length (vb_log b) + 3"
proof -
  obtain r where k: "kv srv (ReadData (ref_name ref)) b = (b', Inr r)" "vr_code r = 200" "map_of (vr_fields r) (ref_field ref) = Some v"
    using assms by (auto simp: vault_read_def and_then_def fails_def gives_def split: prod.splits sum.splits if_splits option.splits)
  obtain b1 r1 where c: "vault_call srv [] (ReadData (ref_name ref)) b = (b1, Inr r1)"
    using k(1) by (auto simp: kv_def and_then_def fails_def split: prod.splits sum.splits if_splits)
  then have b1: "length (vb_log b1) = length (vb_log b) + 1" "\<exists>q. last (vb_log b1) = (q, Some r1) \<and> vq_verb q = ReadData (ref_name ref)" "vb_log b1 \<noteq> []"
    by (auto simp: vault_call_def Let_def split: option.splits)
  show ?thesis
  proof (cases "vr_code r1 = 403")
    case False
    then have "b' = b1 \<and> r = r1" using k(1) c by (auto simp: kv_def and_then_def gives_def split: if_splits)
    then show ?thesis using b1 k by auto
  next
    case True
    then obtain b2 where l: "vault_login srv b1 = (b2, Inr ())" and c2: "vault_call srv [] (ReadData (ref_name ref)) b2 = (b', Inr r)"
      using k(1) c by (auto simp: kv_def and_then_def fails_def split: prod.splits sum.splits if_splits)
    have "length (vb_log b2) = length (vb_log b1) + 1"
      using l by (auto simp: vault_login_def vault_call_def Let_def split: option.splits if_splits)
    moreover have "length (vb_log b') = length (vb_log b2) + 1 \<and> (\<exists>q. last (vb_log b') = (q, Some r) \<and> vq_verb q = ReadData (ref_name ref)) \<and> vb_log b' \<noteq> []"
      using c2 by (auto simp: vault_call_def Let_def split: option.splits)
    ultimately show ?thesis using b1 k by auto
  qed
qed

text \<open>
  A credential that is refused has already taken the place of the one that worked, and the refusal drops the token:
  a broker that was serving is locked by an unlock with a mistyped credential.
\<close>

lemma mistyped_credential_locks:
  defines "working \<equiv> vault_do sample_vault (Unlocks \<lparr>um_unseal_key = [], um_auth_secret = ''s''\<rparr>) (new_backend ''m'' ''r'')"
  defines "after \<equiv> vault_do sample_vault (Unlocks \<lparr>um_unseal_key = [], um_auth_secret = ''bad''\<rparr>) working"
  shows "vb_token working = ''tok'' \<and> snd (vault_read sample_vault (SecretRef ''n'' ''value'') working) = Inr ''x''
    \<and> vb_token after = [] \<and> vb_secret_id after = ''bad'' \<and> snd (vault_read sample_vault (SecretRef ''n'' ''value'') after) = Inl NoCredential"
  unfolding working_def after_def by (simp add: vault_simps)

text \<open>And a rotation that cannot list the accessors reports the new credential with the old one still good.\<close>

definition unlisting_vault :: vault_server where
  "unlisting_vault log q =
     (case vq_verb q of ListAccessors \<Rightarrow> map_option (\<lambda>r. r\<lparr>vr_code := 500, vr_keys := []\<rparr>) (sample_vault log q) | _ \<Rightarrow> sample_vault log q)"

lemma rotation_may_destroy_nothing:
  defines "working \<equiv> vault_do sample_vault (Unlocks \<lparr>um_unseal_key = [], um_auth_secret = ''s''\<rparr>) (new_backend ''m'' ''r'')"
  shows "snd (rotate unlisting_vault working) = Inr ''s2''
    \<and> (\<forall>(q, r) \<in> set (vb_log (fst (rotate unlisting_vault working))). case vq_verb q of DestroyAccessor _ \<Rightarrow> False | _ \<Rightarrow> True)"
  unfolding working_def by (simp add: vault_simps unlisting_vault_def)

end
