(* ===== verification/Operator.thy ===== *)
theory Operator
  imports Vault Broker
begin

text \<open>
  The operator's half of the broker: what can be done (\<open>packages/ward/src/ward/operations.py\<close>), the door that tells
  callers apart by their certificate (\<open>server.py\<close>), and the surface in chat (\<open>chatops.py\<close>).

  An approval a policy is written with is read as the broker reads it: \<open>never\<close>, or else always.  What an operator does
  is one step, with the calls of Vault and of the store it awaits in it; \<open>LeaseWait\<close> takes the removal of a secret
  apart.  Texts told to a person are the cases they say; the certificate's common name comes from the TLS layer.
\<close>

section \<open>What an operator can do\<close>

record ward_desk =
  wk_vault :: vault_backend
  wk_policies :: "secret_policy list"
  wk_ledger :: approval_db
  wk_pending :: "string \<rightharpoonup> string"
  wk_drawn :: nat

record desk_config =
  dk_server :: vault_server
  dk_allows :: "string \<Rightarrow> bool"
  dk_token :: "nat \<Rightarrow> string"

datatype desk_error = BackendSaid vault_error | RuleSaid rule_error | LedgerSaid

definition with_vault :: "'a vault_io \<Rightarrow> ward_desk \<Rightarrow> ward_desk \<times> (desk_error + 'a)" where
  "with_vault m k = (case m (wk_vault k) of (v, r) \<Rightarrow> (k\<lparr>wk_vault := v\<rparr>, map_sum BackendSaid id r))"

record secret_entry =
  en_name :: string
  en_stored :: bool
  en_policy :: "secret_policy option"

definition list_secrets :: "desk_config \<Rightarrow> ward_desk \<Rightarrow> ward_desk \<times> (desk_error + secret_entry list)" where
  "list_secrets cfg k =
     (case with_vault (vault_names (dk_server cfg)) k of
        (k1, Inl e) \<Rightarrow> (k1, Inl e)
      | (k1, Inr stored) \<Rightarrow>
          (k1, Inr (map (\<lambda>n. \<lparr>en_name = n, en_stored = n \<in> set stored, en_policy = get_policy n (wk_policies k1)\<rparr>)
            (sort (dedup (stored @ map sp_name (wk_policies k1)))))))"

definition put_secret :: "desk_config \<Rightarrow> string \<Rightarrow> (string \<times> string) list \<Rightarrow> ward_desk \<Rightarrow> ward_desk \<times> (desk_error + string list)" where
  "put_secret cfg name vals k =
     (case with_vault (vault_write (dk_server cfg) name vals) k of (k1, Inl e) \<Rightarrow> (k1, Inl e) | (k1, Inr _) \<Rightarrow> (k1, Inr (sort (map fst vals))))"

definition delete_secret :: "desk_config \<Rightarrow> stamp \<Rightarrow> string \<Rightarrow> ward_desk \<Rightarrow> ward_desk \<times> (desk_error + nat)" where
  "delete_secret cfg now name k =
     (case with_vault (vault_delete (dk_server cfg) name) k of
        (k1, Inl e) \<Rightarrow> (k1, Inl e)
      | (k1, Inr _) \<Rightarrow>
          let ps = fst (delete_policy name (wk_policies k1)) in
          (case revoke_scope KIND_SECRET name now (wk_ledger k1) of
             (l, closed) \<Rightarrow> (k1\<lparr>wk_policies := ps, wk_ledger := l\<rparr>, Inr closed)))"

definition rotate_credential :: "desk_config \<Rightarrow> ward_desk \<Rightarrow> ward_desk \<times> (desk_error + string)" where
  "rotate_credential cfg k = with_vault (rotate (dk_server cfg)) k"

record policy_body =
  pb_approval :: string
  pb_max_grant_s :: int
  pb_subjects :: string
  pb_description :: string
  pb_auto_commands :: "string list option"

fun parse_rules :: "string list \<Rightarrow> rule_error + rule list" where
  "parse_rules [] = Inr []"
| "parse_rules (l # ls) =
     (if strip l = [] then parse_rules ls
      else case parse_rule l of Inl e \<Rightarrow> Inl e | Inr r \<Rightarrow> (case parse_rules ls of Inl e \<Rightarrow> Inl e | Inr rs \<Rightarrow> Inr (r # rs)))"

definition approval_of :: "string \<Rightarrow> approval_mode" where
  "approval_of text = (if text = ''never'' then APPROVAL_NEVER else APPROVAL_ALWAYS)"

definition approval_text :: "approval_mode \<Rightarrow> string" where
  "approval_text m = (case m of APPROVAL_NEVER \<Rightarrow> ''never'' | APPROVAL_ALWAYS \<Rightarrow> ''always'')"

definition operator_put_policy :: "stamp \<Rightarrow> string \<Rightarrow> policy_body \<Rightarrow> ward_desk \<Rightarrow> ward_desk \<times> (desk_error + secret_policy)" where
  "operator_put_policy now name body k =
     (let existing = get_policy name (wk_policies k) in
      case (case pb_auto_commands body of Some lines \<Rightarrow> parse_rules lines
            | None \<Rightarrow> Inr (case existing of Some p \<Rightarrow> policy_rules p | None \<Rightarrow> [])) of
        Inl e \<Rightarrow> (k, Inl (RuleSaid e))
      | Inr rules \<Rightarrow>
          let p = \<lparr>sp_name = name, sp_approval = approval_of (pb_approval body), sp_max_grant_s = pb_max_grant_s body, sp_subjects = pb_subjects body,
                   sp_description = pb_description body, sp_created_at = (case existing of Some q \<Rightarrow> sp_created_at q | None \<Rightarrow> now),
                   sp_updated_at = now, sp_auto_commands = encode rules\<rparr> in
          (k\<lparr>wk_policies := put_policy p (wk_policies k)\<rparr>, Inr p))"

definition operator_revoke :: "stamp \<Rightarrow> string \<Rightarrow> ward_desk \<Rightarrow> ward_desk \<times> bool" where
  "operator_revoke now gid k = (case revoke_grant gid now (wk_ledger k) of (l, closed) \<Rightarrow> (k\<lparr>wk_ledger := l\<rparr>, closed))"

section \<open>The door\<close>

definition OPERATOR_CN :: string where "OPERATOR_CN = ''operator''"
definition MAX_SECRETS_PER_REQUEST :: nat where "MAX_SECRETS_PER_REQUEST = 5"

datatype lease_body_error = NotAnObject | NoBindings | BadBinding | BadEnvName string | BadRef ref_error | TooManySecrets

text \<open>\<open>str.isidentifier\<close>, over ASCII.\<close>

definition is_identifier :: "string \<Rightarrow> bool" where
  "is_identifier s = (case s of [] \<Rightarrow> False | c # cs \<Rightarrow> (word_char c \<or> c = CHR ''_'') \<and> \<not> is_digit c \<and> list_all (\<lambda>d. word_char d \<or> d = CHR ''_'') cs)"

fun parse_bindings :: "(string \<times> string) list \<Rightarrow> lease_body_error + (string \<times> secret_ref) list" where
  "parse_bindings [] = Inr []"
| "parse_bindings ((env, ref) # bs) =
     (if \<not> is_identifier env then Inl (BadEnvName env)
      else case parse_ref ref of Inl e \<Rightarrow> Inl (BadRef e)
        | Inr r \<Rightarrow> (case parse_bindings bs of Inl e \<Rightarrow> Inl e | Inr rest \<Rightarrow> Inr ((env, r) # rest)))"

record lease_body =
  lb_bindings :: "(string \<times> string) list"
  lb_reason :: string
  lb_command :: "string list"

definition lease_request_of :: "string \<Rightarrow> lease_body \<Rightarrow> lease_body_error + lease_request" where
  "lease_request_of agent body =
     (if lb_bindings body = [] then Inl NoBindings
      else case parse_bindings (lb_bindings body) of
        Inl e \<Rightarrow> Inl e
      | Inr bs \<Rightarrow>
          if length (dedup (map (ref_name \<circ> snd) bs)) > MAX_SECRETS_PER_REQUEST then Inl TooManySecrets
          else Inr \<lparr>lr_agent = agent, lr_bindings = bs, lr_reason = lb_reason body, lr_command = lb_command body\<rparr>)"

datatype ward_route =
    RLease lease_body | RStatus | RUnlock unlock_material | RCert string | RSecrets | RPutSecret string "(string \<times> string) list" | RDeleteSecret string
  | RPolicies | RPutPolicy string policy_body | RGrants bool | RRevoke string | RAudit "int option" string string string | RRotate | RCa

datatype ward_answer =
    NotFound | NotAnAgent | BadLease lease_body_error | ToBroker lease_request | Reserved | Certificate string | NoMaterial | Refuses desk_error
  | Done | State backend_status | Closed bool | ClosedMany nat | NewCredential string | Entries "secret_entry list" | Policies "secret_policy list"
  | Windows "approval_grant list" | Rows "approval_audit list" | EmptyFields | Fails

definition operate :: "string \<Rightarrow> (ward_desk \<Rightarrow> ward_desk \<times> ward_answer) \<Rightarrow> ward_desk \<Rightarrow> ward_desk \<times> ward_answer" where
  "operate caller work k = (if caller \<noteq> OPERATOR_CN then (k, NotFound) else work k)"

definition answered_with :: "('a \<Rightarrow> ward_answer) \<Rightarrow> ward_desk \<times> (desk_error + 'a) \<Rightarrow> ward_desk \<times> ward_answer" where
  "answered_with f r = (case r of (k, Inl e) \<Rightarrow> (k, Refuses e) | (k, Inr x) \<Rightarrow> (k, f x))"

text \<open>\<open>_list_audit\<close>: the limit goes to the store's query as it is, where a negative one is none.  A limit that is not a
  number raises before the certificate is looked at: the server answers that it failed.\<close>

definition audit_page :: "int \<Rightarrow> string \<Rightarrow> string \<Rightarrow> string \<Rightarrow> approval_db \<Rightarrow> approval_audit list" where
  "audit_page limit kind who scope db = list_audit (if limit < 0 then length (audit db) else nat limit) kind who scope db"

fun door :: "desk_config \<Rightarrow> stamp \<Rightarrow> string \<Rightarrow> ward_route \<Rightarrow> ward_desk \<Rightarrow> ward_desk \<times> ward_answer" where
  "door cfg now caller (RLease body) k =
     (if caller = [] \<or> caller = OPERATOR_CN then (k, NotAnAgent)
      else case lease_request_of caller body of Inl e \<Rightarrow> (k, BadLease e) | Inr q \<Rightarrow> (k, ToBroker q))"
| "door cfg now caller RStatus k = operate caller (\<lambda>k. answered_with State (with_vault (vault_status (dk_server cfg)) k)) k"
| "door cfg now caller (RUnlock m) k =
     operate caller (\<lambda>k. if um_unseal_key m = [] \<and> um_auth_secret m = [] then (k, NoMaterial)
       else answered_with State (with_vault (vault_unlock (dk_server cfg) m) k)) k"
| "door cfg now caller (RCert name) k = operate caller (\<lambda>k. (k, if name = OPERATOR_CN then Reserved else Certificate name)) k"
| "door cfg now caller RSecrets k = operate caller (\<lambda>k. answered_with Entries (list_secrets cfg k)) k"
| "door cfg now caller (RPutSecret name vals) k =
     (if vals = [] then (k, EmptyFields) else operate caller (\<lambda>k. answered_with (\<lambda>_. Done) (put_secret cfg name vals k)) k)"
| "door cfg now caller (RDeleteSecret name) k = operate caller (\<lambda>k. answered_with ClosedMany (delete_secret cfg now name k)) k"
| "door cfg now caller RPolicies k = operate caller (\<lambda>k. (k, Policies (list_policies (wk_policies k)))) k"
| "door cfg now caller (RPutPolicy name body) k = operate caller (\<lambda>k. answered_with (\<lambda>_. Done) (operator_put_policy now name body k)) k"
| "door cfg now caller (RGrants include_dead) k = operate caller (\<lambda>k. (k, Windows (list_grants now KIND_SECRET include_dead (wk_ledger k)))) k"
| "door cfg now caller (RRevoke gid) k = operate caller (\<lambda>k. map_prod id Closed (operator_revoke now gid k)) k"
| "door cfg now caller (RAudit limit kind agent secret) k =
     (case limit of
        None \<Rightarrow> (k, Fails)
      | Some n \<Rightarrow> operate caller (\<lambda>k. (k, Rows (audit_page (min n 500) kind agent secret (wk_ledger k)))) k)"
| "door cfg now caller RRotate k = operate caller (\<lambda>k. answered_with NewCredential (rotate_credential cfg k)) k"
| "door cfg now caller RCa k = (k, Done)"

section \<open>The surface in chat\<close>

datatype ward_view = ViewMenu | ViewSecrets | ViewWindows | ViewLedger

text \<open>\<open>admits\<close>: a card is posted only for an operator, and only in the operator's own direct channel.\<close>

datatype admission = Admitted | NotYours | DmOnly

definition ward_admits :: "desk_config \<Rightarrow> (string \<Rightarrow> string option) \<Rightarrow> string \<Rightarrow> string option \<Rightarrow> admission" where
  "ward_admits cfg open_direct user channel =
     (if \<not> dk_allows cfg user then NotYours
      else case channel of
        None \<Rightarrow> Admitted
      | Some ch \<Rightarrow> (case open_direct user of Some direct \<Rightarrow> if direct \<noteq> [] \<and> direct = ch then Admitted else DmOnly | None \<Rightarrow> DmOnly))"

text \<open>A button that opens a modal: its token is registered with what the modal is for.\<close>

fun offer_forms :: "desk_config \<Rightarrow> string list \<Rightarrow> ward_desk \<Rightarrow> ward_desk" where
  "offer_forms cfg [] k = k"
| "offer_forms cfg (verb # verbs) k =
     offer_forms cfg verbs (k\<lparr>wk_pending := (wk_pending k)(dk_token cfg (wk_drawn k) \<mapsto> verb), wk_drawn := Suc (wk_drawn k)\<rparr>)"

definition menu_verbs :: "backend_status \<Rightarrow> string list" where
  "menu_verbs st = (if usable st then [] else ''unlock'' # (if sealed st then [''unseal''] else [])) @ [''store'']"

definition VIEW_LIMIT :: nat where "VIEW_LIMIT = 10"

definition policy_verbs :: "secret_entry list \<Rightarrow> string list" where
  "policy_verbs es = map (\<lambda>e. ''policy:'' @ en_name e) (take VIEW_LIMIT es)"

definition operator_row :: "string \<Rightarrow> stamp \<Rightarrow> string \<Rightarrow> string \<Rightarrow> string \<Rightarrow> approval_audit" where
  "operator_row i now user verb scope =
     \<lparr>au_id = ''op_'' @ i, au_at = now, au_kind = KIND_OPERATOR, au_principal = user, au_scope = scope, au_reason = ''from chat'', au_detail = verb,
      au_decision = verb, au_approver = user, au_grant_id = [], au_request_id = [], au_duration_ms = 0\<rparr>"

definition record_operator :: "desk_config \<Rightarrow> stamp \<Rightarrow> string \<Rightarrow> string \<Rightarrow> string \<Rightarrow> ward_desk \<Rightarrow> ward_desk \<times> (desk_error + unit)" where
  "record_operator cfg now user verb scope k =
     (case record_decision (operator_row (dk_token cfg (wk_drawn k)) now user verb scope) (wk_ledger k) of
        None \<Rightarrow> (k\<lparr>wk_drawn := Suc (wk_drawn k)\<rparr>, Inl LedgerSaid)
      | Some l \<Rightarrow> (k\<lparr>wk_ledger := l, wk_drawn := Suc (wk_drawn k)\<rparr>, Inr ()))"

datatype ward_card = MenuCard backend_status | SecretsCard "secret_entry list" | WindowsCard "approval_grant list" | LedgerCard "approval_audit list" | Unavailable

definition ward_render :: "desk_config \<Rightarrow> stamp \<Rightarrow> ward_view \<Rightarrow> string \<Rightarrow> string \<Rightarrow> ward_desk \<Rightarrow> ward_desk \<times> (desk_error + ward_card)" where
  "ward_render cfg now view closing user k =
     (case view of
        ViewMenu \<Rightarrow>
          (case with_vault (vault_status (dk_server cfg)) k of
             (k1, Inl e) \<Rightarrow> (k1, Inl e) | (k1, Inr st) \<Rightarrow> (offer_forms cfg (menu_verbs st) k1, Inr (MenuCard st)))
      | ViewSecrets \<Rightarrow>
          (case list_secrets cfg k of
             (k1, Inl e) \<Rightarrow> (k1, Inr Unavailable)
           | (k1, Inr es) \<Rightarrow> (offer_forms cfg (policy_verbs es) k1, Inr (SecretsCard (take VIEW_LIMIT es))))
      | ViewWindows \<Rightarrow>
          (case (if closing = [] then (k, Inr ())
                 else record_operator cfg now user ''revoke'' closing (fst (operator_revoke now closing k))) of
             (k1, Inl e) \<Rightarrow> (k1, Inl e)
           | (k1, Inr _) \<Rightarrow> (k1, Inr (WindowsCard (take VIEW_LIMIT (list_grants now KIND_SECRET False (wk_ledger k1))))))
      | ViewLedger \<Rightarrow> (k, Inr (LedgerCard (list_audit VIEW_LIMIT [] [] [] (wk_ledger k)))))"

section \<open>The modals\<close>

type_synonym submitted_values = "string \<rightharpoonup> string"

definition value_of :: "submitted_values \<Rightarrow> string \<Rightarrow> string" where
  "value_of vals f = (case vals f of None \<Rightarrow> [] | Some v \<Rightarrow> v)"

definition seconds_of :: "string \<Rightarrow> int \<Rightarrow> int" where
  "seconds_of chosen current =
     (let c = strip chosen in
      if c = [] then current
      else if c = ''none'' then 0
      else case filter (\<lambda>n. humanize n = c) GRANT_LADDER of n # _ \<Rightarrow> n | [] \<Rightarrow> current)"

datatype policy_change = SubjectsChange string string | ApprovalChange approval_mode approval_mode | WindowChange int int | RulesChange nat "string list"

definition policy_diff :: "secret_policy \<Rightarrow> secret_policy \<Rightarrow> string list \<Rightarrow> string list \<Rightarrow> policy_change list" where
  "policy_diff old new was_rules rules =
     (if sp_subjects new \<noteq> sp_subjects old then [SubjectsChange (sp_subjects old) (sp_subjects new)] else [])
     @ (if sp_approval new \<noteq> sp_approval old then [ApprovalChange (sp_approval old) (sp_approval new)] else [])
     @ (if sp_max_grant_s new \<noteq> sp_max_grant_s old then [WindowChange (sp_max_grant_s old) (sp_max_grant_s new)] else [])
     @ (if rules \<noteq> was_rules then [RulesChange (length was_rules) rules] else [])"

text \<open>The arrow is written \<open>->\<close>.\<close>

definition change_text :: "policy_change \<Rightarrow> string" where
  "change_text c =
     (case c of
        SubjectsChange a b \<Rightarrow> ''subjects '' @ (if a = [] then ''(nobody)'' else a) @ '' -> '' @ b
      | ApprovalChange a b \<Rightarrow> ''approval '' @ approval_text a @ '' -> '' @ approval_text b
      | WindowChange a b \<Rightarrow> ''window '' @ show_int a @ ''s -> '' @ show_int b @ ''s''
      | RulesChange n rs \<Rightarrow> ''rules '' @ show_nat n @ '' -> '' @ show_nat (length rs) @ '': '' @ (if rs = [] then ''none'' else join ''; '' rs))"

definition policy_scope :: "string \<Rightarrow> bool \<Rightarrow> policy_change list \<Rightarrow> string" where
  "policy_scope name creating changes =
     name @ '': '' @ (if creating then ''created, '' else []) @ (if changes = [] then ''no change'' else join '', '' (map change_text changes))"

datatype form_said =
    FormNotOpen | NotAnOperator | NothingFilled | StillNotUsable backend_status | StoreOpen bool | NeedsBoth | SecretStored string bool | NeedsAgent string
  | PolicyRefused rule_error | PolicySaved string bool "policy_change list" | UnknownForm | SaidBackend vault_error

definition the_new_policy :: "string \<Rightarrow> secret_policy" where
  "the_new_policy name = \<lparr>sp_name = name, sp_approval = APPROVAL_ALWAYS, sp_max_grant_s = 0, sp_subjects = [], sp_description = [], sp_created_at = 0,
     sp_updated_at = 0, sp_auto_commands = []\<rparr>"

definition form_lines :: "string \<Rightarrow> string list" where
  "form_lines text = filter (\<lambda>l. l \<noteq> []) (map strip (split_lines [] text))"

definition or_kept :: "string \<Rightarrow> string \<Rightarrow> string" where
  "or_kept given kept = (if given = [] then kept else given)"

text \<open>What a policy's form asks for, field by field; an empty one leaves what is there.\<close>

definition edited_body :: "secret_policy \<Rightarrow> submitted_values \<Rightarrow> policy_body" where
  "edited_body cur vals =
     (let text = strip (value_of vals ''auto_commands'') in
      \<lparr>pb_approval = or_kept (strip (value_of vals ''approval'')) (approval_text (sp_approval cur)),
       pb_max_grant_s = seconds_of (value_of vals ''max_grant'') (sp_max_grant_s cur),
       pb_subjects = or_kept (strip (value_of vals ''subjects'')) (sp_subjects cur),
       pb_description = sp_description cur,
       pb_auto_commands = Some (if text \<noteq> [] then form_lines text else map unparse (policy_rules cur))\<rparr>)"

definition policy_form :: "desk_config \<Rightarrow> stamp \<Rightarrow> string \<Rightarrow> submitted_values \<Rightarrow> string \<Rightarrow> ward_desk \<Rightarrow> ward_desk \<times> (desk_error + form_said)" where
  "policy_form cfg now name vals user k =
     (let found = get_policy name (wk_policies k); cur = (case found of Some p \<Rightarrow> p | None \<Rightarrow> the_new_policy name); body = edited_body cur vals in
      if pb_subjects body = [] \<and> found = None then (k, Inr (NeedsAgent name))
      else case operator_put_policy now name body k of
        (k1, Inl (RuleSaid e)) \<Rightarrow> (k1, Inr (PolicyRefused e))
      | (k1, Inl e) \<Rightarrow> (k1, Inl e)
      | (k1, Inr p) \<Rightarrow>
          let changes = policy_diff cur p (map unparse (policy_rules cur)) (case pb_auto_commands body of Some ls \<Rightarrow> ls | None \<Rightarrow> []) in
          (case record_operator cfg now user ''policy'' (policy_scope name (found = None) changes) k1 of
             (k2, Inl e) \<Rightarrow> (k2, Inl e) | (k2, Inr _) \<Rightarrow> (k2, Inr (PolicySaved name (found = None) changes))))"

definition open_store_form :: "desk_config \<Rightarrow> stamp \<Rightarrow> string \<Rightarrow> submitted_values \<Rightarrow> string \<Rightarrow> ward_desk \<Rightarrow> ward_desk \<times> (desk_error + form_said)" where
  "open_store_form cfg now verb vals user k =
     (let m = \<lparr>um_unseal_key = strip (value_of vals ''unseal_key''), um_auth_secret = strip (value_of vals ''secret_id'')\<rparr> in
      if um_unseal_key m = [] \<and> um_auth_secret m = [] then (k, Inr NothingFilled)
      else case with_vault (vault_unlock (dk_server cfg) m) k of
        (k1, Inl e) \<Rightarrow> (k1, Inl e)
      | (k1, Inr st) \<Rightarrow>
          (case record_operator cfg now user verb ''store'' k1 of
             (k2, Inl e) \<Rightarrow> (k2, Inl e)
           | (k2, Inr _) \<Rightarrow> (k2, Inr (if \<not> usable st then StillNotUsable st else StoreOpen (um_unseal_key m \<noteq> [])))))"

definition store_form :: "desk_config \<Rightarrow> stamp \<Rightarrow> submitted_values \<Rightarrow> string \<Rightarrow> ward_desk \<Rightarrow> ward_desk \<times> (desk_error + form_said)" where
  "store_form cfg now vals user k =
     (let name = strip (value_of vals ''name''); v = value_of vals ''value'' in
      if name = [] \<or> v = [] then (k, Inr NeedsBoth)
      else case put_secret cfg name [(''value'', v)] k of
        (k1, Inl e) \<Rightarrow> (k1, Inl e)
      | (k1, Inr _) \<Rightarrow>
          (case record_operator cfg now user ''set'' name k1 of
             (k2, Inl e) \<Rightarrow> (k2, Inl e) | (k2, Inr _) \<Rightarrow> (k2, Inr (SecretStored name (get_policy name (wk_policies k2) \<noteq> None)))))"

definition perform_form :: "desk_config \<Rightarrow> stamp \<Rightarrow> string \<Rightarrow> submitted_values \<Rightarrow> string \<Rightarrow> ward_desk \<Rightarrow> ward_desk \<times> (desk_error + form_said)" where
  "perform_form cfg now verb vals user k =
     (if verb = ''unlock'' \<or> verb = ''unseal'' then open_store_form cfg now verb vals user k
      else if verb = ''store'' then store_form cfg now vals user k
      else if starts_with ''policy:'' verb then policy_form cfg now (drop 7 verb) vals user k
      else (k, Inr UnknownForm))"

text \<open>\<open>handle\<close>: what is said goes to the person who submitted; what else is raised goes to the dispatcher's log.\<close>

definition handle_form :: "desk_config \<Rightarrow> stamp \<Rightarrow> string \<Rightarrow> submitted_values \<Rightarrow> string \<Rightarrow> ward_desk \<Rightarrow> ward_desk \<times> (string \<times> form_said) option" where
  "handle_form cfg now token vals user k =
     (case wk_pending k token of
        None \<Rightarrow> (k, Some (user, FormNotOpen))
      | Some verb \<Rightarrow>
          let k1 = k\<lparr>wk_pending := (wk_pending k)(token := None)\<rparr> in
          if verb = [] then (k1, Some (user, FormNotOpen))
          else if \<not> dk_allows cfg user then (k1, Some (user, NotAnOperator))
          else case perform_form cfg now verb vals user k1 of
            (k2, Inr said) \<Rightarrow> (k2, Some (user, said))
          | (k2, Inl (BackendSaid e)) \<Rightarrow> (k2, Some (user, SaidBackend e))
          | (k2, Inl _) \<Rightarrow> (k2, None))"

text \<open>A policy's form as the operator opens it: the fields and what they start on.\<close>

definition shown_values :: "secret_policy \<Rightarrow> submitted_values" where
  "shown_values p =
     [''subjects'' \<mapsto> sp_subjects p, ''approval'' \<mapsto> approval_text (sp_approval p),
      ''max_grant'' \<mapsto> (if sp_max_grant_s p \<noteq> 0 then humanize (sp_max_grant_s p) else ''none''),
      ''auto_commands'' \<mapsto> join [LF] (map unparse (policy_rules p))]"

end
