(* ===== verification/OperatorProps.thy ===== *)
theory OperatorProps
  imports Operator BrokerProps
begin

text \<open>
  What holds of the operator's half: an agent's certificate reaches the broker and nothing else; a form acts once
  and only for an operator; a policy's form edits that policy alone, and as it is shown not even that; a secret
  that is removed is out of reach of everyone.
\<close>

section \<open>The door\<close>

lemma parse_bindings_names: "parse_bindings bs = Inr rs \<Longrightarrow> map fst rs = map fst bs \<and> (\<forall>(env, r) \<in> set rs. name_match (ref_name r) \<and> field_match (ref_field r))"
proof (induction bs arbitrary: rs)
  case (Cons b bs)
  obtain env ref where b: "b = (env, ref)" by (cases b)
  then obtain r rest where r: "parse_ref ref = Inr r" "parse_bindings bs = Inr rest" "rs = (env, r) # rest"
    using Cons.prems by (auto split: if_splits sum.splits)
  have "name_match (ref_name r) \<and> field_match (ref_field r)"
    using r(1) by (auto simp: parse_ref_def Let_def split: list.splits prod.splits if_splits)
  then show ?case using Cons.IH [OF r(2)] r b by auto
qed simp

text \<open>A page of the ledger holds at most five hundred rows, unless its limit is negative: then it holds all of them.\<close>

lemma a_page_is_bounded: "door cfg now caller (RAudit (Some n) kind agent secret) k = (k', Rows rs) \<Longrightarrow> 0 \<le> n \<Longrightarrow> length rs \<le> 500"
  by (auto simp: operate_def audit_page_def list_audit_def split: if_splits)

lemma a_negative_page_has_no_bound:
  assumes "n < 0"
  shows "door cfg now OPERATOR_CN (RAudit (Some n) [] [] []) k = (k, Rows (rev (sort_key au_at (audit (wk_ledger k)))))"
  using assms by (simp add: operate_def audit_page_def list_audit_def)

text \<open>C27. A caller whose certificate is not the operator's changes nothing and is shown nothing, whatever it asks: an
  agent's request goes to the broker under the name of its certificate, for at most five secrets with well-formed
  names, and no certificate in the operator's name is ever issued.\<close>

theorem agents_reach_only_the_broker:
  assumes "caller \<noteq> OPERATOR_CN" and "door cfg now caller route k = (k', answer)"
  shows "k' = k \<and> (answer \<in> {NotFound, NotAnAgent, EmptyFields, Fails, Done} \<or> (\<exists>e. answer = BadLease e)
    \<or> (\<exists>q. answer = ToBroker q \<and> lr_agent q = caller \<and> caller \<noteq> [] \<and> length (names q) \<le> 5
          \<and> (\<forall>n \<in> set (names q). name_match n)))
    \<and> (\<forall>who work. snd (door cfg now who work k) \<noteq> Certificate OPERATOR_CN)"
proof -
  have issued: "snd (door cfg now who work k) \<noteq> Certificate OPERATOR_CN" for who work
    by (cases work) (auto simp: operate_def answered_with_def split: prod.splits sum.splits option.splits)
  have lease: "lr_agent q = caller \<and> length (names q) \<le> 5 \<and> (\<forall>n \<in> set (names q). name_match n)"
    if q: "lease_request_of caller body = Inr q" for body q
  proof -
    obtain bs where bs: "parse_bindings (lb_bindings body) = Inr bs" "\<not> length (dedup (map (ref_name \<circ> snd) bs)) > MAX_SECRETS_PER_REQUEST"
      "q = \<lparr>lr_agent = caller, lr_bindings = bs, lr_reason = lb_reason body, lr_command = lb_command body\<rparr>"
      using q by (auto simp: lease_request_of_def split: if_splits sum.splits)
    then show ?thesis using parse_bindings_names [OF bs(1)] by (auto simp: names_def MAX_SECRETS_PER_REQUEST_def)
  qed
  have "k' = k \<and> (answer \<in> {NotFound, NotAnAgent, EmptyFields, Fails, Done} \<or> (\<exists>e. answer = BadLease e)
      \<or> (\<exists>q. answer = ToBroker q \<and> lr_agent q = caller \<and> caller \<noteq> [] \<and> length (names q) \<le> 5 \<and> (\<forall>n \<in> set (names q). name_match n)))"
    using assms lease by (cases route) (auto simp: operate_def split: if_splits sum.splits option.splits)
  then show ?thesis using issued by blast
qed

definition sample_desk :: ward_desk where
  "sample_desk = \<lparr>wk_vault = new_backend ''m'' ''r'', wk_policies = [], wk_ledger = \<lparr>grants = [], audit = []\<rparr>, wk_pending = [''t'' \<mapsto> ''unlock''], wk_drawn = 0\<rparr>"

definition sample_desk_config :: desk_config where
  "sample_desk_config = \<lparr>dk_server = sample_vault, dk_allows = (\<lambda>u. u = ''op''), dk_token = (\<lambda>n. replicate n (CHR ''i''))\<rparr>"

lemma agents_reach_only_the_broker_witness:
  "''ann'' \<noteq> OPERATOR_CN \<and> door sample_desk_config 5 ''ann'' RRotate sample_desk = (sample_desk, NotFound)"
  using agents_reach_only_the_broker [of "''ann''" sample_desk_config 5 RRotate sample_desk]
  by (simp add: OPERATOR_CN_def operate_def)

section \<open>Forms\<close>

lemma with_vault_frame: "with_vault m k = (k', r) \<Longrightarrow> wk_pending k' = wk_pending k \<and> wk_policies k' = wk_policies k \<and> wk_ledger k' = wk_ledger k"
  by (auto simp: with_vault_def split: prod.splits)

lemma record_operator_frame: "record_operator cfg now user verb scope k = (k', r) \<Longrightarrow> wk_pending k' = wk_pending k \<and> wk_policies k' = wk_policies k
    \<and> wk_vault k' = wk_vault k \<and> grants (wk_ledger k') = grants (wk_ledger k)"
  by (auto simp: record_operator_def record_decision_def split: option.splits if_splits)

lemma operator_put_policy_frame: "operator_put_policy now name body k = (k', r) \<Longrightarrow> wk_pending k' = wk_pending k \<and> wk_vault k' = wk_vault k \<and> wk_ledger k' = wk_ledger k"
  by (auto simp: operator_put_policy_def Let_def split: sum.splits)

lemma perform_form_pending: "perform_form cfg now verb vals user k = (k', r) \<Longrightarrow> wk_pending k' = wk_pending k"
  by (auto simp: perform_form_def open_store_form_def store_form_def put_secret_def policy_form_def Let_def
      split: if_splits prod.splits sum.splits desk_error.splits
      dest!: with_vault_frame record_operator_frame operator_put_policy_frame)

text \<open>A modal's token is taken by whoever submits first.\<close>

definition form_attempt :: "desk_config \<Rightarrow> stamp \<times> string \<times> submitted_values \<times> string \<Rightarrow> ward_desk \<Rightarrow> ward_desk \<times> bool" where
  "form_attempt cfg c k = (case c of (now, token, vals, user) \<Rightarrow>
     case handle_form cfg now token vals user k of (k', said) \<Rightarrow> (k', said \<noteq> Some (user, FormNotOpen) \<and> said \<noteq> Some (user, NotAnOperator)))"

definition form_waits :: "string \<Rightarrow> ward_desk \<Rightarrow> bool" where
  "form_waits token k \<longleftrightarrow> wk_pending k token \<noteq> None"

lemma pending_none: "wk_pending k token = None \<Longrightarrow> k\<lparr>wk_pending := (wk_pending k)(token := None)\<rparr> = k"
  by (simp add: fun_upd_idem)

lemma handled:
  assumes "handle_form cfg now token vals user k = (k', said)"
  shows "wk_pending k' = (wk_pending k)(token := None)"
    and "k' = k\<lparr>wk_pending := (wk_pending k)(token := None)\<rparr> \<or> dk_allows cfg user \<and> wk_pending k token \<noteq> None"
    and "wk_pending k token = None \<Longrightarrow> said = Some (user, FormNotOpen)"
    and "\<And>who what. said = Some (who, what) \<Longrightarrow> who = user"
  using assms pending_none [of k token]
  by (auto simp: handle_form_def Let_def split: option.splits if_splits prod.splits sum.splits desk_error.splits dest!: perform_form_pending)

interpretation operator_forms: single_winner "form_attempt cfg" "\<lambda>c. fst (snd c)" form_waits for cfg
proof unfold_locales
  fix c k k' assume a: "form_attempt cfg c k = (k', True)"
  obtain now token vals user where c: "c = (now, token, vals, user)" by (cases c) auto
  obtain said where h: "handle_form cfg now token vals user k = (k', said)" "said \<noteq> Some (user, FormNotOpen)"
    using a by (auto simp: c form_attempt_def split: prod.splits)
  show "form_waits (fst (snd c)) k" using handled(3) [OF h(1)] h(2) by (auto simp: c form_waits_def)
  show "\<not> form_waits (fst (snd c)) k'" using handled(1) [OF h(1)] by (simp add: c form_waits_def)
next
  fix token k c k' won assume n: "\<not> form_waits token k" and a: "form_attempt cfg c k = (k', won)"
  obtain now tk vals user where c: "c = (now, tk, vals, user)" by (cases c) auto
  obtain said where h: "handle_form cfg now tk vals user k = (k', said)" using a by (auto simp: c form_attempt_def split: prod.splits)
  show "\<not> form_waits token k'" using handled(1) [OF h] n by (auto simp: form_waits_def)
qed

text \<open>Of all submissions of one modal at most one acts, and it acts only for an operator: any other leaves the
  store, the policies and the ledger as they were, and is answered to whoever sent it alone.\<close>

lemma a_form_acts_once_for_an_operator:
  shows "wins (\<lambda>c. fst (snd c)) token cs (snd (run_attempts (form_attempt cfg) cs k)) \<le> 1
    \<and> (handle_form cfg now tk vals user k = (k', said) \<longrightarrow>
        (wk_vault k' = wk_vault k \<and> wk_policies k' = wk_policies k \<and> wk_ledger k' = wk_ledger k \<or> dk_allows cfg user \<and> wk_pending k tk \<noteq> None)
        \<and> (\<forall>who what. said = Some (who, what) \<longrightarrow> who = user))"
  using operator_forms.at_most_one_winner [of token cs cfg k] handled [of cfg now tk vals user k k' said] by auto

definition sample_forms :: "(stamp \<times> string \<times> (string \<Rightarrow> string option) \<times> string) list" where
  "sample_forms = [(1, ''t'', Map.empty, ''eve'')]"

lemma a_form_acts_once_for_an_operator_witness:
  "wins (\<lambda>c. fst (snd c)) ''t'' sample_forms (snd (run_attempts (form_attempt sample_desk_config) sample_forms sample_desk)) \<le> 1
   \<and> wk_ledger (fst (handle_form sample_desk_config 1 ''t'' Map.empty ''eve'' sample_desk)) = wk_ledger sample_desk"
proof -
  obtain k' said where h: "handle_form sample_desk_config 1 ''t'' Map.empty ''eve'' sample_desk = (k', said)" by fastforce
  note th = a_form_acts_once_for_an_operator [of "''t''" sample_forms sample_desk_config sample_desk 1 "''t''" Map.empty "''eve''" k' said]
  have "wk_ledger k' = wk_ledger sample_desk" using conjunct2 [OF th] h by (auto simp: sample_desk_config_def)
  then show ?thesis unfolding h fst_conv by (intro conjI conjunct1 [OF th])
qed

section \<open>Policies\<close>

lemma put_policy_get:
  assumes "distinct (map sp_name ps)"
  shows "get_policy n (put_policy p ps)
    = (if n = sp_name p then Some (case get_policy n ps of Some q \<Rightarrow> p\<lparr>sp_created_at := sp_created_at q\<rparr> | None \<Rightarrow> p) else get_policy n ps)"
proof (cases "\<exists>q \<in> set ps. sp_name q = sp_name p")
  case False
  then have "get_policy (sp_name p) ps = None" by (auto simp: get_policy_def fetchone_None)
  moreover have "filter (\<lambda>x. sp_name x = sp_name p) ps = []" using False by (auto simp: filter_empty_conv)
  ultimately show ?thesis using False by (auto simp: put_policy_def get_policy_def fetchone_def)
next
  case True
  let ?f = "\<lambda>q. p\<lparr>sp_created_at := sp_created_at q\<rparr>"
  let ?rows = "upd_where (\<lambda>q. sp_name q = sp_name p) ?f ps"
  have put: "put_policy p ps = ?rows" using True by (simp add: put_policy_def)
  have d: "distinct (map sp_name ?rows)" using assms by (subst upd_where_keeps) auto
  obtain q where q: "q \<in> set ps" "sp_name q = sp_name p" using True by blast
  then have get: "get_policy (sp_name p) ps = Some q"
    unfolding get_policy_def by (intro fetchone_unique [OF assms]) auto
  show ?thesis
  proof (cases "n = sp_name p")
    case n: True
    have "?f q \<in> set ?rows" using upd_where_hit [of q ps "\<lambda>q. sp_name q = sp_name p" ?f] q by simp
    then have "get_policy n ?rows = Some (?f q)"
      unfolding get_policy_def by (intro fetchone_unique [OF d]) (auto simp: n)
    then show ?thesis using get n by (simp add: put)
  next
    case False
    have "filter (\<lambda>x. sp_name x = n) ?rows = filter (\<lambda>x. sp_name x = n) ps"
      using False by (intro filter_upd_where_other) auto
    then show ?thesis using False by (simp add: put get_policy_def fetchone_def)
  qed
qed

lemma delete_policy_get: "get_policy n (fst (delete_policy name ps)) = (if n = name then None else get_policy n ps)"
proof -
  have "filter (\<lambda>p. sp_name p = n) (del_where (\<lambda>p. sp_name p = name) ps) = (if n = name then [] else filter (\<lambda>p. sp_name p = n) ps)"
    by (induction ps) (auto simp: del_where_def)
  then show ?thesis by (simp add: delete_policy_def get_policy_def fetchone_def)
qed

text \<open>C28. A secret an operator has removed is out of everyone's reach at once: it has no policy, every request for it
  is refused, no window over it is live for any agent at any moment; and no other secret's policy or window is
  touched.  This is the state in which the removal returns: its three awaits are one step of the model, so nothing is
  put in between.\<close>

theorem a_removed_secret_is_unreachable:
  assumes "delete_secret cfg now name k = (k', Inr closed)"
  shows "evaluate (get_policy name (wk_policies k')) agent command = \<lparr>v_outcome = REFUSE, v_decision = Some DECISION_NO_POLICY, v_rule = []\<rparr>
    \<and> live_grant KIND_SECRET agent name later (wk_ledger k') = None
    \<and> (other \<noteq> name \<longrightarrow> get_policy other (wk_policies k') = get_policy other (wk_policies k)
        \<and> live_grant KIND_SECRET agent other later (wk_ledger k') = live_grant KIND_SECRET agent other later (wk_ledger k))
    \<and> audit (wk_ledger k') = audit (wk_ledger k)"
proof -
  obtain k1 u where v: "with_vault (vault_delete (dk_server cfg) name) k = (k1, Inr u)"
    and k': "k' = k1\<lparr>wk_policies := fst (delete_policy name (wk_policies k1)), wk_ledger := fst (revoke_scope KIND_SECRET name now (wk_ledger k1))\<rparr>"
    using assms by (auto simp: delete_secret_def Let_def split: prod.splits sum.splits)
  have same: "wk_policies k1 = wk_policies k" "wk_ledger k1 = wk_ledger k" using with_vault_frame [OF v] by auto
  obtain l n where r: "revoke_scope KIND_SECRET name now (wk_ledger k) = (l, n)" by fastforce
  have "audit l = audit (wk_ledger k)" using r by (auto simp: revoke_scope_def Let_def)
  then show ?thesis using revoke_scope_closes [OF r] unfolding k' same r by (simp add: delete_policy_get evaluate_def)
qed

lemma a_removed_secret_is_unreachable_witness:
  defines "k \<equiv> sample_desk\<lparr>wk_vault := sample_vault_session, wk_ledger := sample_grants\<rparr>"
  shows "live_grant KIND_SECRET ''ann'' ''github'' 20 (wk_ledger k) \<noteq> None
    \<and> live_grant KIND_SECRET ''ann'' ''github'' 40 (wk_ledger (fst (delete_secret sample_desk_config 30 ''github'' k))) = None"
proof -
  obtain k' n where d: "delete_secret sample_desk_config 30 ''github'' k = (k', Inr n)"
    by (simp add: k_def delete_secret_def with_vault_def vault_delete_def sample_desk_config_def sample_vault_session_def vault_simps)
      (auto simp: revoke_scope_def Let_def)
  have "live_grant KIND_SECRET ''ann'' ''github'' 20 sample_grants \<noteq> None" unfolding KIND_SECRET_def by code_simp
  then show ?thesis using a_removed_secret_is_unreachable [OF d] d by (simp add: k_def)
qed

text \<open>A policy's form edits that one policy: every other policy, every window and the store stay as they are, the
  first policy of a secret is the strictest its fields allow, an existing one keeps its description, its date and
  what was left empty, and one new row of the ledger says whose edit it was.\<close>

lemma a_policy_form_edits_one_policy:
  assumes d: "distinct (map sp_name (wk_policies k))" and f: "policy_form cfg now name vals user k = (k', Inr (PolicySaved n creating changes))"
  shows "n = name \<and> (creating \<longleftrightarrow> get_policy name (wk_policies k) = None)
    \<and> (\<forall>other. other \<noteq> name \<longrightarrow> get_policy other (wk_policies k') = get_policy other (wk_policies k))
    \<and> (\<exists>p. get_policy name (wk_policies k') = Some p
        \<and> (creating \<longrightarrow> sp_subjects p \<noteq> [])
        \<and> (\<forall>q. get_policy name (wk_policies k) = Some q \<longrightarrow> sp_description p = sp_description q \<and> sp_created_at p = sp_created_at q
            \<and> sp_subjects p = or_kept (strip (value_of vals ''subjects'')) (sp_subjects q)
            \<and> (strip (value_of vals ''approval'') = [] \<longrightarrow> sp_approval p = sp_approval q)
            \<and> (strip (value_of vals ''max_grant'') = [] \<longrightarrow> sp_max_grant_s p = sp_max_grant_s q))
        \<and> (creating \<longrightarrow> (strip (value_of vals ''approval'') = [] \<longrightarrow> sp_approval p = APPROVAL_ALWAYS)
            \<and> (strip (value_of vals ''max_grant'') = [] \<longrightarrow> sp_max_grant_s p = 0)
            \<and> (strip (value_of vals ''auto_commands'') = [] \<longrightarrow> policy_rules p = [])))
    \<and> wk_vault k' = wk_vault k \<and> grants (wk_ledger k') = grants (wk_ledger k)
    \<and> (\<exists>row. audit (wk_ledger k') = audit (wk_ledger k) @ [row] \<and> au_principal row = user \<and> au_detail row = ''policy'')"
proof -
  define cur where "cur = (case get_policy name (wk_policies k) of Some q \<Rightarrow> q | None \<Rightarrow> the_new_policy name)"
  define body where "body = edited_body cur vals"
  have ask: "\<not> (pb_subjects body = [] \<and> get_policy name (wk_policies k) = None)"
    using f unfolding policy_form_def Let_def cur_def [symmetric] body_def [symmetric] by (auto split: if_splits)
  obtain k1 p where put: "operator_put_policy now name body k = (k1, Inr p)"
    using f ask unfolding policy_form_def Let_def cur_def [symmetric] body_def [symmetric]
    by (cases "operator_put_policy now name body k") (auto split: sum.splits desk_error.splits)
  obtain scope where rec: "record_operator cfg now user ''policy'' scope k1 = (k', Inr ())" "n = name" "creating \<longleftrightarrow> get_policy name (wk_policies k) = None"
    using f ask put unfolding policy_form_def Let_def cur_def [symmetric] body_def [symmetric]
    by (auto split: prod.splits sum.splits)
  obtain lines where lines: "pb_auto_commands body = Some lines" by (simp add: body_def edited_body_def Let_def)
  obtain rules where rules: "parse_rules lines = Inr rules"
    and p: "p = \<lparr>sp_name = name, sp_approval = approval_of (pb_approval body), sp_max_grant_s = pb_max_grant_s body, sp_subjects = pb_subjects body,
        sp_description = pb_description body, sp_created_at = (case get_policy name (wk_policies k) of Some q \<Rightarrow> sp_created_at q | None \<Rightarrow> now),
        sp_updated_at = now, sp_auto_commands = encode rules\<rparr>"
    and k1: "k1 = k\<lparr>wk_policies := put_policy p (wk_policies k)\<rparr>"
    using put lines by (auto simp: operator_put_policy_def Let_def split: sum.splits)
  note frame = record_operator_frame [OF rec(1)]
  have get: "get_policy m (wk_policies k') = (if m = name then Some p else get_policy m (wk_policies k))" for m
    using put_policy_get [OF d, of m p] frame by (auto simp: k1 p split: option.splits)
  have mode: "approval_of (approval_text a) = a" for a by (cases a) (simp_all add: approval_of_def approval_text_def)
  have none: "seconds_of t c = c" if "strip t = []" for t c using that by (simp add: seconds_of_def Let_def)
  have norules: "policy_rules p = []" if "creating" "strip (value_of vals ''auto_commands'') = []"
  proof -
    have "policy_rules (the_new_policy name) = []" by (simp add: policy_rules_def the_new_policy_def decode_def List.map_filter_def)
    then have "lines = []" using that rec(3) lines by (simp add: body_def edited_body_def Let_def cur_def)
    then have "rules = []" using rules by simp
    then show ?thesis by (simp add: p policy_rules_def encode_def decode_def List.map_filter_def)
  qed
  have row: "\<exists>row. audit (wk_ledger k') = audit (wk_ledger k) @ [row] \<and> au_principal row = user \<and> au_detail row = ''policy''"
    using rec(1) k1 by (auto simp: record_operator_def record_decision_def operator_row_def split: option.splits if_splits)
  have named: "creating \<Longrightarrow> sp_subjects p \<noteq> []" using ask rec(3) by (simp add: p)
  have kept: "sp_description p = sp_description q \<and> sp_created_at p = sp_created_at q
      \<and> sp_subjects p = or_kept (strip (value_of vals ''subjects'')) (sp_subjects q)
      \<and> (strip (value_of vals ''approval'') = [] \<longrightarrow> sp_approval p = sp_approval q)
      \<and> (strip (value_of vals ''max_grant'') = [] \<longrightarrow> sp_max_grant_s p = sp_max_grant_s q)"
    if "get_policy name (wk_policies k) = Some q" for q
    using that by (simp add: p body_def edited_body_def cur_def Let_def or_kept_def mode none)
  have fresh: "(strip (value_of vals ''approval'') = [] \<longrightarrow> sp_approval p = APPROVAL_ALWAYS) \<and> (strip (value_of vals ''max_grant'') = [] \<longrightarrow> sp_max_grant_s p = 0)"
    if "creating"
    using that rec(3) by (simp add: p body_def edited_body_def cur_def Let_def or_kept_def mode none the_new_policy_def)
  have got: "get_policy name (wk_policies k') = Some p" using get by simp
  have others: "\<forall>other. other \<noteq> name \<longrightarrow> get_policy other (wk_policies k') = get_policy other (wk_policies k)" using get by simp
  have rest: "wk_vault k' = wk_vault k" "grants (wk_ledger k') = grants (wk_ledger k)" using frame k1 by simp_all
  have new: "creating \<longrightarrow> (strip (value_of vals ''approval'') = [] \<longrightarrow> sp_approval p = APPROVAL_ALWAYS)
      \<and> (strip (value_of vals ''max_grant'') = [] \<longrightarrow> sp_max_grant_s p = 0)
      \<and> (strip (value_of vals ''auto_commands'') = [] \<longrightarrow> policy_rules p = [])"
    by (intro impI conjI) (use fresh norules in simp_all)
  show ?thesis
    by (intro conjI exI [of _ p] allI impI rec(2,3) got named row rest new)
      (use others kept in simp_all)
qed

lemma a_policy_form_edits_one_policy_witness:
  "\<exists>k'. policy_form sample_desk_config 9 ''db'' [''subjects'' \<mapsto> '' ann ''] ''op'' sample_desk
      = (k', Inr (PolicySaved ''db'' True [SubjectsChange [] ''ann'']))
    \<and> wk_vault k' = wk_vault sample_desk"
proof -
  have s: "strip '' ann '' = ''ann''" by (simp add: strip_def is_space_def)
  obtain k' where f: "policy_form sample_desk_config 9 ''db'' [''subjects'' \<mapsto> '' ann ''] ''op'' sample_desk
      = (k', Inr (PolicySaved ''db'' True [SubjectsChange [] ''ann'']))"
    by (simp add: policy_form_def Let_def sample_desk_def get_policy_def fetchone_def edited_body_def the_new_policy_def value_of_def s
        strip_Nil_iff or_kept_def operator_put_policy_def policy_rules_def decode_def List.map_filter_def encode_def approval_text_def approval_of_def
        seconds_of_def policy_diff_def record_operator_def record_decision_def operator_row_def sample_desk_config_def)
  show ?thesis
    using a_policy_form_edits_one_policy [OF _ f] f by (simp add: sample_desk_def)
qed

section \<open>A form submitted as it was shown\<close>

lemma show_nat_inj: "show_nat n = show_nat m \<Longrightarrow> n = m"
  by (metis read_show_nat)

lemma show_int_inj: "show_int a = show_int b \<Longrightarrow> a = b"
proof -
  assume e: "show_int a = show_int b"
  have digit: "show_nat n \<noteq> CHR ''-'' # t" for n t
    using show_nat_digits [of "CHR ''-''" n] by (auto simp: is_digit_def)
  show "a = b"
    using e digit show_nat_inj [of "nat a" "nat b"] show_nat_inj [of "nat (- a)" "nat (- b)"]
    by (auto simp: show_int_def split: if_splits) (metis digit)+
qed

lemma humanize_ends: "last (humanize g) \<in> {CHR ''r'', CHR ''s'', CHR ''n''}" "humanize g \<noteq> []"
  by (simp_all add: humanize_def Let_def)

lemma humanize_starts: "\<not> is_space (hd (humanize g))"
proof -
  have "\<not> is_space c" if "c \<in> set (show_int i)" for c i
    using that by (auto simp: show_int_def is_digit_def is_space_def Let_def split: if_splits dest!: show_nat_digits)
  moreover have ne: "show_int i \<noteq> []" for i by (simp add: show_int_def)
  ultimately have "\<not> is_space (hd (show_int i))" for i using hd_in_set by blast
  then show ?thesis using ne by (simp add: humanize_def Let_def)
qed

lemma strip_id: "s \<noteq> [] \<Longrightarrow> \<not> is_space (hd s) \<Longrightarrow> \<not> is_space (last s) \<Longrightarrow> strip s = s"
proof -
  assume s: "s \<noteq> []" "\<not> is_space (hd s)" "\<not> is_space (last s)"
  have "dropWhile is_space s = s" using s by (simp add: dropWhile_eq_self_iff)
  moreover have "dropWhile is_space (rev s) = rev s" using s by (simp add: dropWhile_eq_self_iff hd_rev)
  ultimately show ?thesis by (simp add: strip_def)
qed

lemma strip_humanize: "strip (humanize g) = humanize g"
  using humanize_ends [of g] humanize_starts [of g] by (intro strip_id) (auto simp: is_space_def)

lemma humanize_cases:
  obtains (hour) "g = 3600" "humanize g = show_int 1 @ '' hour''"
    | (hours) "humanize g = show_int (g div 3600) @ '' hours''"
    | (minutes) "g = 60 * (g div 60)" "humanize g = show_int (g div 60) @ '' min''"
    | (seconds) "humanize g = show_int g @ ''s''"
proof -
  have one: "g = 3600" if "g mod 3600 = 0" "g div 3600 = 1" using that div_mult_mod_eq [of g 3600] by simp
  have sixty: "g = 60 * (g div 60)" if "g mod 60 = 0" using that mult_div_mod_eq [of 60 g] by simp
  show ?thesis
  proof (cases "g mod 3600 = 0 \<and> g \<ge> 3600")
    case True
    then have "humanize g = show_int (g div 3600) @ (if g div 3600 = 1 then '' hour'' else '' hours'')"
      by (simp only: humanize_def Let_def if_True simp_thms)
    then show ?thesis using True hour hours one by (cases "g div 3600 = 1") (simp_all only: if_True if_False simp_thms)
  next
    case False
    then have h: "humanize g = (if g mod 60 = 0 \<and> g \<ge> 60 then show_int (g div 60) @ '' min'' else show_int g @ ''s'')"
      by (simp only: humanize_def Let_def if_False simp_thms)
    show ?thesis
    proof (cases "g mod 60 = 0 \<and> g \<ge> 60")
      case True
      then show ?thesis using minutes [OF sixty] h by (simp only: if_True simp_thms)
    next
      case False
      then show ?thesis using seconds h by (simp only: if_False simp_thms)
    qed
  qed
qed

lemma ends_apart:
  "x @ '' min'' \<noteq> y @ ''s''" "x @ '' min'' \<noteq> y @ '' hour''" "x @ '' min'' \<noteq> y @ '' hours''" "x @ '' hour'' \<noteq> y @ ''s''"
  "x @ '' hour'' \<noteq> y @ '' hours''"
  by (auto dest!: arg_cong [where f = rev])

lemma humanize_ladder:
  assumes "n \<in> set GRANT_LADDER" and h: "humanize n = humanize g"
  shows "g = n"
proof -
  have minutes: "g = 60 * m" if "humanize g = show_int m @ '' min''" for m
    using that ends_apart by (cases g rule: humanize_cases) (auto dest: show_int_inj)
  have hour: "g = 3600" if "humanize g = show_int 1 @ '' hour''"
    using that ends_apart ends_apart [symmetric] by (cases g rule: humanize_cases) auto
  consider "n = 60" | "n = 300" | "n = 900" | "n = 3600" using assms(1) by (auto simp: GRANT_LADDER_def)
  then show ?thesis
  proof cases
    case 1
    then show ?thesis using minutes [of 1] h by (simp add: humanize_def [of 60])
  next
    case 2
    then show ?thesis using minutes [of 5] h by (simp add: humanize_def [of 300])
  next
    case 3
    then show ?thesis using minutes [of 15] h by (simp add: humanize_def [of 900])
  next
    case 4
    then show ?thesis using hour h by (simp add: humanize_def [of 3600])
  qed
qed

lemma seconds_of_shown: "seconds_of (if g \<noteq> 0 then humanize g else ''none'') g = g"
proof (cases "g = 0")
  case True
  have "strip ''none'' = ''none''" by (intro strip_no_space) (auto simp: is_space_def)
  then show ?thesis using True by (simp add: seconds_of_def)
next
  case False
  have h: "humanize g \<noteq> ''none''" using humanize_ends(1) [of g] by auto
  have "(case filter (\<lambda>n. humanize n = humanize g) GRANT_LADDER of n # _ \<Rightarrow> n | [] \<Rightarrow> g) = g"
  proof (cases "filter (\<lambda>n. humanize n = humanize g) GRANT_LADDER")
    case (Cons n ns)
    then have "n \<in> set GRANT_LADDER \<and> humanize n = humanize g" using filter_set [of "\<lambda>n. humanize n = humanize g" GRANT_LADDER] by auto
    then show ?thesis using Cons humanize_ladder [of n g] by simp
  qed simp
  then show ?thesis using False h humanize_ends(2) [of g] by (simp add: seconds_of_def Let_def strip_humanize)
qed

text \<open>A rule none of whose words breaks a line is written on one.\<close>

definition unbroken :: "rule \<Rightarrow> bool" where
  "unbroken r \<longleftrightarrow> (\<forall>w \<in> set r. \<forall>c \<in> set w. \<not> line_break c)"

definition storable :: "rule \<Rightarrow> bool" where
  "storable r \<longleftrightarrow> r \<noteq> [] \<and> r \<noteq> [ANY_REST] \<and> ANY_REST \<notin> set (butlast r)"

lemma written_chars: "c \<in> set (written w) \<Longrightarrow> c \<in> set w \<or> c = CHR 0x27 \<or> c = DQUOTE"
  by (auto simp: written_def shlex_quote_def split: if_splits)

lemma unparse_chars: "c \<in> set (unparse r) \<Longrightarrow> c = CHR '' '' \<or> c = CHR 0x27 \<or> c = DQUOTE \<or> (\<exists>w \<in> set r. c \<in> set w)"
proof -
  have "c \<in> set (join '' '' ws) \<Longrightarrow> c = CHR '' '' \<or> (\<exists>w \<in> set ws. c \<in> set w)" for ws :: "string list"
    by (induction ws rule: induct_list012) auto
  then show "c \<in> set (unparse r) \<Longrightarrow> ?thesis" using written_chars by (fastforce simp: unparse_written)
qed

lemma unparse_unbroken: "unbroken r \<Longrightarrow> c \<in> set (unparse r) \<Longrightarrow> \<not> line_break c"
  using unparse_chars [of c r] by (auto simp: unbroken_def line_break_def)

lemma written_ends: "written w \<noteq> [] \<and> \<not> is_space (hd (written w)) \<and> \<not> is_space (last (written w))"
proof -
  have safe: "\<not> is_space c" if "sh_safe c" for c using that by (auto simp: sh_safe_def is_space_def is_digit_def Let_def)
  have marks: "\<not> is_space SQUOTE" "\<not> is_space (CHR ''*'')" by (simp_all add: is_space_def)
  consider "w = ANY_REST" | "w = []" "w \<noteq> ANY_REST" | "w \<noteq> []" "w \<noteq> ANY_REST" "list_all sh_safe w" | "w \<noteq> []" "w \<noteq> ANY_REST" "\<not> list_all sh_safe w" by blast
  then show ?thesis
  proof cases
    case 3
    then have "sh_safe (hd w)" "sh_safe (last w)" by (auto simp: list_all_iff)
    then show ?thesis using 3 safe by (simp add: written_def shlex_quote_def)
  qed (use marks in \<open>simp_all add: written_def shlex_quote_def ANY_REST_def\<close>)
qed

lemma strip_join_ends:
  assumes "ws \<noteq> []" and "\<And>w. w \<in> set ws \<Longrightarrow> w \<noteq> [] \<and> \<not> is_space (hd w) \<and> \<not> is_space (last w)"
  shows "join sep ws \<noteq> [] \<and> \<not> is_space (hd (join sep ws)) \<and> \<not> is_space (last (join sep ws))"
  using assms by (induction ws rule: induct_list012) auto

lemma unparse_ends: "r \<noteq> [] \<Longrightarrow> unparse r \<noteq> [] \<and> \<not> is_space (hd (unparse r)) \<and> \<not> is_space (last (unparse r))"
  unfolding unparse_written by (rule strip_join_ends) (auto simp: written_ends)

lemma split_lines_join:
  assumes "\<And>l c. l \<in> set ls \<Longrightarrow> c \<in> set l \<Longrightarrow> \<not> line_break c" and "[] \<notin> set ls"
  shows "split_lines [] (join [LF] ls) = ls"
  using assms
proof (induction ls rule: induct_list012)
  case (2 l)
  then show ?case using split_lines_end [of l "[]"] by simp
next
  case (3 l l' ls)
  have "join [LF] (l' # ls) \<noteq> []" using 3(4) by (cases ls) auto
  moreover have "split_lines [] (join [LF] (l' # ls)) = l' # ls" using 3(3,4) by (intro 3(2)) auto
  moreover have "\<not> line_break c" if "c \<in> set l" for c using 3(3) [of l c] that by simp
  ultimately show ?case using split_lines_next [of l "join [LF] (l' # ls)" "[]"] by simp
qed simp

lemma form_lines_of_rules:
  assumes "rules \<noteq> []" and "\<And>r. r \<in> set rules \<Longrightarrow> storable r \<and> unbroken r"
  defines "text \<equiv> join [LF] (map unparse rules)"
  shows "strip text = text \<and> text \<noteq> [] \<and> form_lines text = map unparse rules"
proof -
  have ends: "l \<noteq> [] \<and> \<not> is_space (hd l) \<and> \<not> is_space (last l)" if "l \<in> set (map unparse rules)" for l
    using that assms(2) unparse_ends by (auto simp: storable_def)
  have t: "text \<noteq> [] \<and> \<not> is_space (hd text) \<and> \<not> is_space (last text)"
    unfolding text_def using assms(1) ends by (intro strip_join_ends) auto
  have split: "split_lines [] text = map unparse rules"
    unfolding text_def
  proof (rule split_lines_join)
    show "[] \<notin> set (map unparse rules)" using ends by blast
  qed (use assms(2) unparse_unbroken in auto)
  have "map strip (map unparse rules) = map unparse rules" using ends strip_id by (intro map_idI) blast
  moreover have "filter (\<lambda>l. l \<noteq> []) (map unparse rules) = map unparse rules" using ends by (auto simp: filter_id_conv)
  ultimately have "form_lines text = map unparse rules" using split by (simp only: form_lines_def)
  then show ?thesis using t strip_id by simp
qed

lemma parse_rules_unparse: "(\<And>r. r \<in> set rules \<Longrightarrow> storable r) \<Longrightarrow> parse_rules (map unparse rules) = Inr rules"
proof (induction rules)
  case (Cons r rs)
  then have "storable r" by simp
  moreover from this have "strip (unparse r) = unparse r" "unparse r \<noteq> []" using unparse_ends [of r] strip_id by (auto simp: storable_def)
  ultimately show ?case using Cons by (simp add: storable_def parse_rule_def shlex_split_def unparse_written sx_unparse)
qed simp

text \<open>C29. A policy's form submitted exactly as it was shown changes nothing of the policy but the date and the spelling
  of its stored rules: every field reads back as it was written out, the rules with their quoting included, so nothing is
  said to have changed and the ledger says so.  This holds of a policy the table has once, whose subjects have no blanks
  around them and whose rules the engine could have stored, none with a line break in a word: a rule with one is put out
  over two lines of the form, and is refused or changed when it comes back (\<open>broken_rule_is_refused\<close>).\<close>

theorem a_form_as_shown_changes_nothing:
  assumes p: "get_policy name (wk_policies k) = Some p" and d: "distinct (map sp_name (wk_policies k))"
    and subjects: "strip (sp_subjects p) = sp_subjects p" and rules: "\<forall>r \<in> set (policy_rules p). storable r \<and> unbroken r"
    and f: "policy_form cfg now name (shown_values p) user k = (k', r)"
  shows "get_policy name (wk_policies k') = Some (p\<lparr>sp_updated_at := now, sp_auto_commands := encode (policy_rules p)\<rparr>)
    \<and> (\<forall>q. get_policy name (wk_policies k') = Some q \<longrightarrow> policy_rules q = policy_rules p)
    \<and> (\<forall>said. r = Inr said \<longrightarrow> said = PolicySaved name False []
        \<and> (\<exists>row. audit (wk_ledger k') = audit (wk_ledger k) @ [row] \<and> au_scope row = name @ '': no change''))"
proof -
  let ?rules = "policy_rules p" and ?p = "p\<lparr>sp_updated_at := now, sp_auto_commands := encode (policy_rules p)\<rparr>"
  have named: "sp_name p = name" using p by (auto simp: get_policy_def fetchone_def split: list.splits dest!: filter_eq_ConsD)
  have mode: "approval_of (approval_text a) = a" "strip (approval_text a) = approval_text a" "approval_text a \<noteq> []" for a
    subgoal by (cases a) (simp_all add: approval_of_def approval_text_def)
    subgoal by (intro strip_no_space) (auto simp: approval_text_def is_space_def split: approval_mode.splits)
    subgoal by (cases a) (simp_all add: approval_text_def)
    done
  have vals: "value_of (shown_values p) ''subjects'' = sp_subjects p" "value_of (shown_values p) ''approval'' = approval_text (sp_approval p)"
    "value_of (shown_values p) ''max_grant'' = (if sp_max_grant_s p \<noteq> 0 then humanize (sp_max_grant_s p) else ''none'')"
    "value_of (shown_values p) ''auto_commands'' = join [LF] (map unparse ?rules)"
    by (simp_all add: value_of_def shown_values_def)
  have lines: "(if strip (join [LF] (map unparse ?rules)) \<noteq> [] then form_lines (strip (join [LF] (map unparse ?rules))) else map unparse ?rules) = map unparse ?rules"
  proof (cases "?rules = []")
    case True
    then show ?thesis by (simp add: strip_def)
  next
    case False
    then show ?thesis using form_lines_of_rules [of ?rules] rules by simp
  qed
  have body: "edited_body p (shown_values p) = \<lparr>pb_approval = approval_text (sp_approval p), pb_max_grant_s = sp_max_grant_s p, pb_subjects = sp_subjects p,
      pb_description = sp_description p, pb_auto_commands = Some (map unparse ?rules)\<rparr>"
    using lines seconds_of_shown by (simp add: edited_body_def Let_def vals or_kept_def mode subjects)
  have shape: "\<lparr>sp_name = name, sp_approval = sp_approval p, sp_max_grant_s = sp_max_grant_s p, sp_subjects = sp_subjects p, sp_description = sp_description p,
      sp_created_at = sp_created_at p, sp_updated_at = now, sp_auto_commands = encode ?rules\<rparr> = ?p"
    using named by (cases p) simp
  have put: "operator_put_policy now name (edited_body p (shown_values p)) k = (k\<lparr>wk_policies := put_policy ?p (wk_policies k)\<rparr>, Inr ?p)"
    using parse_rules_unparse [of ?rules] rules by (simp add: operator_put_policy_def body p Let_def mode shape)
  have rereads: "decode (encode ?rules) = ?rules" using rules by (intro decode_encode) (auto simp: storable_def)
  have diff: "policy_diff p ?p (map unparse ?rules) (map unparse ?rules) = []" by (simp add: policy_diff_def)
  have form: "(k', r) = (case record_operator cfg now user ''policy'' (policy_scope name False []) (k\<lparr>wk_policies := put_policy ?p (wk_policies k)\<rparr>) of
      (k2, Inl e) \<Rightarrow> (k2, Inl e) | (k2, Inr _) \<Rightarrow> (k2, Inr (PolicySaved name False [])))"
    using f diff by (simp add: policy_form_def Let_def p put [unfolded body] body)
  have same: "wk_policies k' = put_policy ?p (wk_policies k)" using form by (auto split: prod.splits sum.splits dest!: record_operator_frame)
  have "get_policy name (wk_policies k') = Some ?p" using put_policy_get [OF d, of name ?p] p named by (simp add: same)
  moreover have "policy_rules ?p = ?rules" using rereads by (simp add: policy_rules_def)
  moreover have "\<exists>row. audit (wk_ledger k') = audit (wk_ledger k) @ [row] \<and> au_scope row = name @ '': no change''" if "r = Inr said" for said
    using form that by (auto simp: record_operator_def record_decision_def operator_row_def policy_scope_def split: option.splits if_splits)
  moreover have "said = PolicySaved name False []" if "r = Inr said" for said
    using form that by (auto split: prod.splits sum.splits)
  ultimately show ?thesis by auto
qed

definition shown_policy :: secret_policy where
  "shown_policy = \<lparr>sp_name = ''db'', sp_approval = APPROVAL_NEVER, sp_max_grant_s = 900, sp_subjects = ''ann, bob'', sp_description = [], sp_created_at = 1,
     sp_updated_at = 2, sp_auto_commands = encode [[''run'', ''a b'', ''*'']]\<rparr>"

lemma shown_policy_rules: "policy_rules shown_policy = [[''run'', ''a b'', ''*'']]"
  by (simp add: policy_rules_def shown_policy_def decode_encode)

lemma a_form_as_shown_changes_nothing_witness:
  "get_policy ''db'' (wk_policies (fst (policy_form sample_desk_config 9 ''db'' (shown_values shown_policy) ''op'' (sample_desk\<lparr>wk_policies := [shown_policy]\<rparr>))))
    = Some (shown_policy\<lparr>sp_updated_at := 9\<rparr>)"
proof -
  let ?k = "sample_desk\<lparr>wk_policies := [shown_policy]\<rparr>"
  obtain k' r where f: "policy_form sample_desk_config 9 ''db'' (shown_values shown_policy) ''op'' ?k = (k', r)" by fastforce
  have p: "get_policy ''db'' (wk_policies ?k) = Some shown_policy" by (simp add: get_policy_def fetchone_def shown_policy_def)
  have s: "strip (sp_subjects shown_policy) = sp_subjects shown_policy" by (intro strip_id) (simp_all add: shown_policy_def is_space_def)
  have "storable [''run'', ''a b'', ''*'']" "unbroken [''run'', ''a b'', ''*'']" by (simp_all add: storable_def unbroken_def ANY_REST_def line_break_def)
  then have r: "\<forall>r \<in> set (policy_rules shown_policy). storable r \<and> unbroken r" by (simp add: shown_policy_rules)
  show ?thesis using a_form_as_shown_changes_nothing [OF p _ s r f] f by (simp add: shown_policy_rules) (simp add: shown_policy_def)
qed

text \<open>A rule whose word breaks a line is written on two lines of the form, so saving any other field of that policy
  from chat is refused, or saves other rules than it has.\<close>

lemma broken_rule_is_refused:
  "parse_rules (form_lines (join [LF] (map unparse [[''run'', [CHR ''a'', LF, CHR ''b'']]]))) = Inl (CannotRead ([CHR ''r'', CHR ''u'', CHR ''n'', CHR '' '', SQUOTE, CHR ''a'']))"
  by code_simp

text \<open>An unlock that fails can lock a broker that was serving, and the ledger has no row of it.\<close>

lemma failed_unlock_is_unrecorded:
  "open_store_form cfg now verb vals user k = (k', Inl (BackendSaid e)) \<Longrightarrow> wk_ledger k' = wk_ledger k"
  by (auto simp: open_store_form_def Let_def record_operator_def split: if_splits prod.splits sum.splits option.splits dest!: with_vault_frame)

lemma lockout_from_chat:
  defines "working \<equiv> sample_desk\<lparr>wk_vault := vault_do sample_vault (Unlocks \<lparr>um_unseal_key = [], um_auth_secret = ''s''\<rparr>) (new_backend ''m'' ''r'')\<rparr>"
  defines "after \<equiv> fst (open_store_form sample_desk_config 9 ''unlock'' [''secret_id'' \<mapsto> ''bad''] ''op'' working)"
  shows "vb_token (wk_vault working) = ''tok'' \<and> vb_token (wk_vault after) = [] \<and> audit (wk_ledger after) = audit (wk_ledger working)"
proof -
  have s: "strip ''bad'' = ''bad''" by (intro strip_no_space) (auto simp: is_space_def)
  show ?thesis unfolding after_def working_def
    by (simp add: open_store_form_def value_of_def s strip_def [of "[]"] with_vault_def sample_desk_config_def sample_desk_def vault_simps)
qed

end
