(* ===== verification/LeaseWait.thy ===== *)
theory LeaseWait
  imports OperatorProps BrokerProps
begin

text \<open>
  A request for secrets with its long wait made a step of its own (\<open>packages/ward/src/ward/broker.py\<close>, \<open>lease\<close> and
  \<open>_ask\<close>).  \<open>Broker.lease\<close> runs one request to its end with nothing else in between; here it stops where it waits for
  a person, minutes at most, and goes on from whatever the broker is by then: other requests served, policies changed,
  secrets removed.  What it read before the wait (the policies, which windows were open) it keeps, as the code does.
  \<open>lease_alone\<close> says that the two agree when nothing happens meanwhile.
\<close>

section \<open>The two halves of a request\<close>

record lease_wait =
  wt_request :: lease_request
  wt_id :: string
  wt_policies :: "secret_policy list"
  wt_uncovered :: "string list"
  wt_decisions :: "string \<Rightarrow> decision option"
  wt_grants :: "string \<Rightarrow> string"
  wt_token :: string
  wt_post :: string

datatype lease_begun = LeaseOver "(broker \<times> lease_result) option" | LeaseWaits lease_wait broker

definition puts_question :: "broker_config \<Rightarrow> world \<Rightarrow> lease_request \<Rightarrow> int \<Rightarrow> broker \<Rightarrow> broker \<times> (string \<times> string) option" where
  "puts_question c w q ceiling_s b0 =
     (let ids = broker_ids c b0; b = b0\<lparr>resolved := Some ids\<rparr> in
      if ids = {} \<or> \<not> wd_poster w then (b, None)
      else let channel = approval_conversation c w ids in
      if channel = [] then (b, None)
      else
        let token = bc_token c (drawn b);
            b1 = b\<lparr>waiting := register token KIND_SECRET (lr_agent q) (names q) ids (waiting b), drawn := Suc (drawn b)\<rparr>;
            b2 = touch (PostsCard channel
                   (approval_card (lr_agent q) (references q) (take MAX_REASON (lr_reason q)) (lr_command q) (wd_asked_at w + bc_timeout_s c))
                   (approval_actions token (windows GRANT_LADDER ceiling_s))) b1 in
        (case wd_post w of
           None \<Rightarrow> (b2\<lparr>waiting := discard token (waiting b2)\<rparr>, None)
         | Some post \<Rightarrow> (b2, Some (token, post))))"

definition verdicts_on :: "secret_policy list \<Rightarrow> lease_request \<Rightarrow> string \<Rightarrow> verdict" where
  "verdicts_on ps q n = evaluate (get_policy n ps) (lr_agent q) (lr_command q)"

definition lease_begins :: "broker_config \<Rightarrow> world \<Rightarrow> lease_request \<Rightarrow> broker \<Rightarrow> lease_begun" where
  "lease_begins c w q b0 =
     (let rid = ''rq_'' @ bc_token c (drawn b0);
          b = b0\<lparr>drawn := Suc (drawn b0)\<rparr>;
          ns = names q;
          vs = verdicts_on (policies b0) q in
      case filter (\<lambda>n. v_outcome (vs n) = REFUSE) ns of
        n # _ \<Rightarrow> LeaseOver (case v_decision (vs n) of Some d \<Rightarrow> refuse c w q vs d rid [] (\<lambda>_. []) b | None \<Rightarrow> None)
      | [] \<Rightarrow>
        let b = touch AsksStatus b in
        if \<not> usable (wd_status w) then LeaseOver (refuse c w q vs (unusable (wd_status w)) rid [] (\<lambda>_. []) b)
        else
          let asking = filter (\<lambda>n. v_outcome (vs n) = ASK) ns;
              covered = (\<lambda>n. if n \<in> set asking then live_grant KIND_SECRET (lr_agent q) n (wd_asked_at w) (ledger b) else None);
              uncovered = filter (\<lambda>n. covered n = None) asking;
              ds = (\<lambda>n. if covered n \<noteq> None then Some DECISION_REUSED_GRANT else v_decision (vs n));
              gids = (\<lambda>n. case covered n of Some g \<Rightarrow> ag_id g | None \<Rightarrow> []) in
          if uncovered = [] then LeaseOver (serve c w q vs rid False [] ds gids b)
          else
            let longest = Min (set (map (\<lambda>n. window_ceiling (get_policy n (policies b)) (bc_max_grant_s c)) uncovered)) in
            (case puts_question c w q longest b of
               (b1, None) \<Rightarrow> LeaseOver (refuse c w q vs DECISION_NO_APPROVER rid [] (\<lambda>_. []) b1)
             | (b1, Some (token, post)) \<Rightarrow>
                 LeaseWaits \<lparr>wt_request = q, wt_id = rid, wt_policies = policies b0, wt_uncovered = uncovered, wt_decisions = ds, wt_grants = gids,
                        wt_token = token, wt_post = post\<rparr> b1))"

text \<open>The wait is over: the registry gave an answer (and forgot the token), or time ran out.\<close>

definition wait_over :: "lease_wait \<Rightarrow> approval option \<Rightarrow> broker \<Rightarrow> broker \<times> approval" where
  "wait_over t answer b =
     (case answer of
        None \<Rightarrow> (rewrite (wt_post t) (answered_card (wt_request t) None) (b\<lparr>waiting := discard (wt_token t) (waiting b)\<rparr>),
                 \<lparr>allowed = False, grant_s = 0, approver = [], timed_out = True\<rparr>)
      | Some a \<Rightarrow> (rewrite (wt_post t) (answered_card (wt_request t) (Some a)) b, a))"

text \<open>The windows are cut to the policies read before the wait.\<close>

definition opens_windows :: "broker_config \<Rightarrow> world \<Rightarrow> lease_wait \<Rightarrow> approval \<Rightarrow> broker
    \<Rightarrow> (broker \<times> (string \<Rightarrow> decision option) \<times> (string \<Rightarrow> string)) option" where
  "opens_windows c w t a b =
     map_option (\<lambda>(b', r). (b'\<lparr>policies := policies b\<rparr>, r))
       (open_each c w (lr_agent (wt_request t)) a (wt_uncovered t)
          (filter (\<lambda>n. v_rule (verdicts_on (wt_policies t) (wt_request t) n) \<noteq> [] \<or> n \<in> set (wt_uncovered t)) (names (wt_request t)))
          (b\<lparr>policies := wt_policies t\<rparr>) (wt_decisions t) (wt_grants t))"

definition lease_goes_on :: "broker_config \<Rightarrow> world \<Rightarrow> lease_wait \<Rightarrow> approval option \<Rightarrow> broker \<Rightarrow> (broker \<times> lease_result) option" where
  "lease_goes_on c w t answer b =
     (let q = wt_request t; vs = verdicts_on (wt_policies t) q in
      case wait_over t answer b of
        (b1, a) \<Rightarrow>
          if \<not> allowed a
          then refuse c w q vs (if timed_out a then DECISION_TIMEOUT else DECISION_DENIED) (wt_id t) (approver a) (\<lambda>_. []) b1
          else (case opens_windows c w t a b1 of
                  None \<Rightarrow> None
                | Some (b2, ds, gids) \<Rightarrow> serve c w q vs (wt_id t) True (approver a) ds gids b2))"

section \<open>Alone, the halves are the request\<close>

lemma ask_parts:
  "ask c w q n b =
     (case puts_question c w q n b of
        (b1, None) \<Rightarrow> (b1, None)
      | (b1, Some (token, post)) \<Rightarrow> apsnd Some (await_card token post w q b1))"
  by (auto simp: ask_def puts_question_def Let_def split: option.splits)

lemma puts_question_policies: "puts_question c w q n b = (b1, r) \<Longrightarrow> policies b1 = policies b"
  by (auto simp: puts_question_def Let_def split: if_splits option.splits)

lemma await_card_over:
  "await_answer (wt_token t) (wd_clicks w) (waiting b) = (reg, a) \<Longrightarrow>
     await_card (wt_token t) (wt_post t) w (wt_request t) b = wait_over t a (b\<lparr>waiting := reg\<rparr>)"
  by (simp add: await_card_def wait_over_def split: option.splits)

lemma wait_over_policies: "wait_over t a b = (b1, x) \<Longrightarrow> policies b1 = policies b"
  by (auto simp: wait_over_def split: option.splits)

lemma opens_windows_unchanged:
  assumes "policies b = wt_policies t"
  shows "opens_windows c w t a b =
     open_each c w (lr_agent (wt_request t)) a (wt_uncovered t)
          (filter (\<lambda>n. v_rule (verdicts_on (wt_policies t) (wt_request t) n) \<noteq> [] \<or> n \<in> set (wt_uncovered t)) (names (wt_request t)))
          b (wt_decisions t) (wt_grants t)"
proof -
  have same: "b\<lparr>policies := wt_policies t\<rparr> = b" using assms by simp
  have restored: "b'\<lparr>policies := policies b\<rparr> = b'" if "open_each c w ag a u ns b ds gids = Some (b', ds', gids')" for ag u ns ds gids b' ds' gids'
    using open_each_Some [OF that] by simp
  show ?thesis unfolding opens_windows_def same by (auto simp: restored map_option_case split: option.splits)
qed

definition wait_of :: "broker_config \<Rightarrow> world \<Rightarrow> lease_request \<Rightarrow> broker \<Rightarrow> string \<Rightarrow> string \<Rightarrow> lease_wait" where
  "wait_of c w q b token post =
     \<lparr>wt_request = q, wt_id = lease_id c b, wt_policies = policies b, wt_uncovered = lease_uncovered w q b,
      wt_decisions = lease_decisions w q b, wt_grants = lease_gids w q b, wt_token = token, wt_post = post\<rparr>"

lemma wait_of_sel [simp]:
  "wt_request (wait_of c w q b token post) = q" "wt_id (wait_of c w q b token post) = lease_id c b"
  "wt_policies (wait_of c w q b token post) = policies b" "wt_uncovered (wait_of c w q b token post) = lease_uncovered w q b"
  "wt_decisions (wait_of c w q b token post) = lease_decisions w q b" "wt_grants (wait_of c w q b token post) = lease_gids w q b"
  "wt_token (wait_of c w q b token post) = token" "wt_post (wait_of c w q b token post) = post"
  by (simp_all add: wait_of_def)

lemma verdicts_lease: "verdicts_on (policies b) q = lease_verdict q b"
  by (simp add: verdicts_on_def lease_verdict_def fun_eq_iff)

lemma lease_begins_unfolded:
  "lease_begins c w q b =
     (case filter (\<lambda>n. v_outcome (lease_verdict q b n) = REFUSE) (names q) of
        n # _ \<Rightarrow> LeaseOver (case v_decision (lease_verdict q b n) of
                    Some d \<Rightarrow> refuse c w q (lease_verdict q b) d (lease_id c b) [] (\<lambda>_. []) (begun b) | None \<Rightarrow> None)
      | [] \<Rightarrow>
        if \<not> usable (wd_status w)
        then LeaseOver (refuse c w q (lease_verdict q b) (unusable (wd_status w)) (lease_id c b) [] (\<lambda>_. []) (checked b))
        else if lease_uncovered w q b = []
        then LeaseOver (serve c w q (lease_verdict q b) (lease_id c b) False [] (lease_decisions w q b) (lease_gids w q b) (checked b))
        else
          (case puts_question c w q (lease_longest c w q b) (checked b) of
             (b1, None) \<Rightarrow> LeaseOver (refuse c w q (lease_verdict q b) DECISION_NO_APPROVER (lease_id c b) [] (\<lambda>_. []) b1)
           | (b1, Some (token, post)) \<Rightarrow> LeaseWaits (wait_of c w q b token post) b1))"
proof -
  have cov: "lease_covered w q b = (\<lambda>n. if n \<in> set (filter (\<lambda>n. v_outcome (lease_verdict q b n) = ASK) (names q))
      then live_grant KIND_SECRET (lr_agent q) n (wd_asked_at w) (ledger b) else None)"
    by (simp add: lease_covered_def fun_eq_iff)
  have unc: "lease_uncovered w q b = filter (\<lambda>n. lease_covered w q b n = None)
      (filter (\<lambda>n. v_outcome (lease_verdict q b n) = ASK) (names q))"
    unfolding lease_uncovered_def filter_filter by (rule filter_cong) auto
  have ds: "lease_decisions w q b = (\<lambda>n. if lease_covered w q b n \<noteq> None then Some DECISION_REUSED_GRANT
      else v_decision (lease_verdict q b n))"
    by (simp add: lease_decisions_def fun_eq_iff)
  have gids: "lease_gids w q b = (\<lambda>n. case lease_covered w q b n of Some g \<Rightarrow> ag_id g | None \<Rightarrow> [])"
    by (simp add: lease_gids_def fun_eq_iff)
  have fr: "policies (b\<lparr>drawn := k\<rparr>) = policies b" "ledger (touch e (b\<lparr>drawn := k\<rparr>)) = ledger b"
    "policies (touch e (b\<lparr>drawn := k\<rparr>)) = policies b" for e k by simp_all
  show ?thesis
    unfolding lease_begins_def Let_def wait_of_def lease_longest_def lease_id_def checked_def begun_def ds gids unc cov verdicts_lease fr
    by (rule refl)
qed

text \<open>What the first half leaves behind for the second.\<close>

lemma lease_begins_waits:
  assumes "lease_begins c w q b = LeaseWaits t b1"
  shows "\<exists>token post. t = wait_of c w q b token post \<and> policies b1 = policies b \<and> usable (wd_status w) \<and> lease_uncovered w q b \<noteq> []
    \<and> filter (\<lambda>n. v_outcome (lease_verdict q b n) = REFUSE) (names q) = []
    \<and> puts_question c w q (lease_longest c w q b) (checked b) = (b1, Some (token, post))"
  using assms puts_question_policies [of c w q "lease_longest c w q b" "checked b"]
  by (auto simp: lease_begins_unfolded split: list.splits if_splits prod.splits option.splits)

lemma lease_alone:
  "lease c w q b =
     (case lease_begins c w q b of
        LeaseOver r \<Rightarrow> r
      | LeaseWaits t b1 \<Rightarrow> (case await_answer (wt_token t) (wd_clicks w) (waiting b1) of
          (reg, a) \<Rightarrow> lease_goes_on c w t a (b1\<lparr>waiting := reg\<rparr>)))"
proof (cases "lease_begins c w q b")
  case (LeaseOver r)
  then show ?thesis
    by (auto simp: lease_unfolded lease_begins_unfolded ask_parts split: list.splits if_splits prod.splits option.splits)
next
  case (LeaseWaits t b1)
  then obtain token post where t: "t = wait_of c w q b token post" and p: "policies b1 = policies b"
    and on: "usable (wd_status w)" "lease_uncovered w q b \<noteq> []" "filter (\<lambda>n. v_outcome (lease_verdict q b n) = REFUSE) (names q) = []"
    and put: "puts_question c w q (lease_longest c w q b) (checked b) = (b1, Some (token, post))"
    using lease_begins_waits [OF LeaseWaits] by blast
  obtain reg a where r: "await_answer (wt_token t) (wd_clicks w) (waiting b1) = (reg, a)" by fastforce
  obtain b2 x where o: "wait_over t a (b1\<lparr>waiting := reg\<rparr>) = (b2, x)" by fastforce
  have ask: "ask c w q (lease_longest c w q b) (checked b) = (b2, Some x)"
    using await_card_over [OF r] o by (simp add: ask_parts put t)
  have p2: "policies b2 = wt_policies t" using wait_over_policies [OF o] p by (simp add: t)
  have "lease c w q b = lease_goes_on c w t a (b1\<lparr>waiting := reg\<rparr>)"
    unfolding lease_unfolded lease_goes_on_def o Let_def ask prod.case opens_windows_unchanged [OF p2]
    using on by (simp add: t verdicts_lease lease_answered_def split: option.splits prod.splits)
  then show ?thesis using LeaseWaits r by simp
qed

section \<open>Whatever happens meanwhile\<close>

lemma wait_over_ledger: "wait_over t a b = (b1, x) \<Longrightarrow> ledger b1 = ledger b \<and> (allowed x \<longrightarrow> a = Some x)"
  by (auto simp: wait_over_def split: option.splits)

lemma opens_windows_Some:
  assumes "opens_windows c w t x b = Some (b2, ds, gids)"
  shows "audit (ledger b2) = audit (ledger b) \<and> (\<exists>new. grants (ledger b2) = grants (ledger b) @ new
    \<and> (\<forall>g \<in> set new. window_ok c w (b\<lparr>policies := wt_policies t\<rparr>) (lr_agent (wt_request t)) x (wt_uncovered t) g))"
  using assms by (auto simp: opens_windows_def dest!: open_each_Some)

text \<open>The second half serves nothing without a yes, opens windows only over what the question named and only as wide as the
  policies read before it allow, and writes one row for each secret of the request, whatever the broker has become.\<close>

lemma lease_goes_on_Some:
  assumes g: "lease_goes_on c w t a b = Some (b', r)"
  shows "(granted r \<longrightarrow> (\<exists>x. a = Some x \<and> allowed x))
    \<and> (\<exists>rows. audit (ledger b') = audit (ledger b) @ rows \<and> length rows = length (names (wt_request t)))
    \<and> (\<exists>new. grants (ledger b') = grants (ledger b) @ new
        \<and> (\<forall>g \<in> set new. \<exists>x. a = Some x \<and> allowed x
            \<and> window_ok c w (b\<lparr>policies := wt_policies t\<rparr>) (lr_agent (wt_request t)) x (wt_uncovered t) g))"
proof -
  obtain b1 x where o: "wait_over t a b = (b1, x)" by fastforce
  note l = wait_over_ledger [OF o]
  show ?thesis
  proof (cases "allowed x")
    case False
    then show ?thesis using g l by (auto simp: lease_goes_on_def o Let_def dest!: refuse_Some)
  next
    case True
    then obtain b2 ds gids where w2: "opens_windows c w t x b1 = Some (b2, ds, gids)"
      and s: "serve c w (wt_request t) (verdicts_on (wt_policies t) (wt_request t)) (wt_id t) True (approver x) ds gids b2 = Some (b', r)"
      using g by (auto simp: lease_goes_on_def o Let_def split: option.splits)
    have same: "window_ok c w (b1\<lparr>policies := ps\<rparr>) ag x u g = window_ok c w (b\<lparr>policies := ps\<rparr>) ag x u g" for ps ag u g
      by (simp add: window_ok_def)
    have "\<exists>rows. audit (ledger b') = audit (ledger b2) @ rows \<and> length rows = length (names (wt_request t))"
      and "grants (ledger b') = grants (ledger b2)"
      using s by (auto elim!: serve_Some dest!: refuse_Some)
    then show ?thesis using opens_windows_Some [OF w2] l True by (auto simp: same)
  qed
qed

section \<open>A secret removed during the wait\<close>

text \<open>The operator's desk works on the same tables.\<close>

definition with_desk :: "(ward_desk \<Rightarrow> ward_desk \<times> 'a) \<Rightarrow> vault_backend \<Rightarrow> broker \<Rightarrow> broker" where
  "with_desk f v b =
     (let k = fst (f \<lparr>wk_vault = v, wk_policies = policies b, wk_ledger = ledger b, wk_pending = Map.empty, wk_drawn = 0\<rparr>) in
      b\<lparr>policies := wk_policies k, ledger := wk_ledger k\<rparr>)"

definition yes_for_a_while :: approval where
  "yes_for_a_while = \<lparr>allowed = True, grant_s = 900, approver = ''U1'', timed_out = False\<rparr>"

definition gone_world :: world where
  "gone_world = sample_world\<lparr>wd_read := (\<lambda>_. Inl False)\<rparr>"

text \<open>\<open>delete_secret\<close> awaits Vault, the policies and the windows in this order; \<open>OperatorProps\<close> takes the three for one step.
  Whatever others do between them: once the policy is gone a request begun is refused, and after the last step no window
  over the secret is live.\<close>

definition removes_policy :: "string \<Rightarrow> ward_desk \<Rightarrow> ward_desk" where
  "removes_policy name k = k\<lparr>wk_policies := fst (delete_policy name (wk_policies k))\<rparr>"

definition closes_windows :: "stamp \<Rightarrow> string \<Rightarrow> ward_desk \<Rightarrow> ward_desk \<times> nat" where
  "closes_windows now name k = (case revoke_scope KIND_SECRET name now (wk_ledger k) of (l, n) \<Rightarrow> (k\<lparr>wk_ledger := l\<rparr>, n))"

lemma removal_parts:
  "delete_secret cfg now name k =
     (case with_vault (vault_delete (dk_server cfg) name) k of
        (k1, Inl e) \<Rightarrow> (k1, Inl e)
      | (k1, Inr _) \<Rightarrow> apsnd Inr (closes_windows now name (removes_policy name k1)))"
  by (auto simp: delete_secret_def removes_policy_def closes_windows_def Let_def split: prod.splits sum.splits)

lemma removed_policy_refuses:
  "evaluate (get_policy name (wk_policies (removes_policy name k))) agent command = \<lparr>v_outcome = REFUSE, v_decision = Some DECISION_NO_POLICY, v_rule = []\<rparr>"
  by (simp add: removes_policy_def delete_policy_get evaluate_def)

lemma closed_windows_dead: "live_grant KIND_SECRET agent name later (wk_ledger (fst (closes_windows now name k))) = None"
proof -
  obtain l n where r: "revoke_scope KIND_SECRET name now (wk_ledger k) = (l, n)" by fastforce
  show ?thesis using revoke_scope_closes [OF r] by (simp add: closes_windows_def r)
qed

text \<open>A request waits for a person, the operator removes the secret, the person says yes: the read fails and nothing is
  served, but the window is open, over a secret without a policy; once the secret is put back the agent has it unasked.\<close>

definition removed_meanwhile :: "(broker \<times> lease_result) option" where
  "removed_meanwhile =
     (case lease_begins sample_bc gone_world (sample_request ''helper'') sample_broker of
        LeaseOver r \<Rightarrow> r
      | LeaseWaits t b \<Rightarrow>
          lease_goes_on sample_bc gone_world t (Some yes_for_a_while)
            (with_desk (delete_secret sample_desk_config 105 ''github'') sample_vault_session (b\<lparr>waiting := Map.empty\<rparr>)))"

lemma a_removal_during_the_wait:
  "map_option (\<lambda>(b, r). (granted r, get_policy ''github'' (policies b) = None, map_option ag_expires_at (live_grant KIND_SECRET ''helper'' ''github'' 200 (ledger b))))
     removed_meanwhile = Some (False, True, Some 710)"
  by code_simp

end
