(* ===== verification/Connections.thy ===== *)
theory Connections
  imports Contracts
begin

text \<open>
  People's accounts at providers: \<open>packages/crucible/src/crucible/connections/service.py\<close> and
  \<open>store/sqlite/connections.py\<close>.

  Sealing and the digest of a state are arguments, as are what a provider and the application answer and every random
  id.  A provider's parse of its own answers (\<open>oauth2.py\<close>) and telemetry are left out; what else is kept of an account
  is the JSON text it is kept as.  A coroutine's place between two awaits is its phase, and every part that runs from one await to the
  next is a definition of its own: any other coroutine, of this process or another, may run in between.  An await
  that raises, or is cancelled, is the step \<open>raised\<close>.
\<close>

section \<open>The store\<close>

record connection_record =
  cn_owner :: string
  cn_provider :: string
  cn_access_sealed :: string
  cn_refresh_sealed :: string
  cn_expires_at :: "stamp option"
  cn_account_id :: string
  cn_account_username :: string
  cn_account_name :: string
  cn_account_email :: string
  cn_scope :: string
  cn_connect_id :: string
  cn_version :: nat
  cn_connected_at :: "stamp option"
  cn_account_extra :: string

record connection_row =
  cr_record :: connection_record
  cr_lease_until :: "stamp option"

record connection_link =
  lk_state_digest :: string
  lk_owner :: string
  lk_provider :: string
  lk_verifier_sealed :: string
  lk_expires_at :: stamp
  lk_return_to :: string

definition of_pair :: "string \<Rightarrow> string \<Rightarrow> connection_row \<Rightarrow> bool" where
  "of_pair owner provider x \<longleftrightarrow> cn_owner (cr_record x) = owner \<and> cn_provider (cr_record x) = provider"

definition of_credential :: "string \<Rightarrow> string \<Rightarrow> string \<Rightarrow> nat \<Rightarrow> connection_row \<Rightarrow> bool" where
  "of_credential owner provider connect_id version x \<longleftrightarrow>
     of_pair owner provider x \<and> cn_connect_id (cr_record x) = connect_id \<and> cn_version (cr_record x) = version"

definition get_connection :: "string \<Rightarrow> string \<Rightarrow> connection_row list \<Rightarrow> connection_record option" where
  "get_connection owner provider rows = map_option cr_record (fetchone (of_pair owner provider) rows)"

definition list_connections :: "string \<Rightarrow> connection_row list \<Rightarrow> connection_record list" where
  "list_connections owner rows = sort_key cn_provider (filter (\<lambda>r. cn_owner r = owner) (map cr_record rows))"

definition save_connection :: "connection_record \<Rightarrow> connection_row list \<Rightarrow> connection_row list" where
  "save_connection r rows = del_where (of_pair (cn_owner r) (cn_provider r)) rows @ [\<lparr>cr_record = r, cr_lease_until = None\<rparr>]"

text \<open>No lease is the empty string, which sorts before every timestamp.\<close>

definition lapsed :: "stamp \<Rightarrow> stamp option \<Rightarrow> bool" where
  "lapsed now lease = (case lease of None \<Rightarrow> True | Some u \<Rightarrow> u \<le> now)"

definition claim_refresh :: "string \<Rightarrow> string \<Rightarrow> string \<Rightarrow> nat \<Rightarrow> stamp \<Rightarrow> stamp \<Rightarrow> connection_row list \<Rightarrow> connection_row list \<times> bool" where
  "claim_refresh owner provider connect_id version now until rows =
     (let hit = (\<lambda>x. of_credential owner provider connect_id version x \<and> lapsed now (cr_lease_until x)) in
      (upd_where hit (cr_lease_until_update (\<lambda>_. Some until)) rows, rowcount hit rows = 1))"

definition release_refresh :: "string \<Rightarrow> string \<Rightarrow> string \<Rightarrow> nat \<Rightarrow> connection_row list \<Rightarrow> connection_row list" where
  "release_refresh owner provider connect_id version rows =
     upd_where (of_credential owner provider connect_id version) (cr_lease_until_update (\<lambda>_. None)) rows"

definition replace_connection :: "connection_record \<Rightarrow> nat \<Rightarrow> connection_row list \<Rightarrow> connection_row list \<times> bool" where
  "replace_connection r expected_version rows =
     (let hit = of_credential (cn_owner r) (cn_provider r) (cn_connect_id r) expected_version in
      (upd_where hit (\<lambda>_. \<lparr>cr_record = r, cr_lease_until = None\<rparr>) rows, rowcount hit rows = 1))"

definition move_connection :: "string \<Rightarrow> string \<Rightarrow> string \<Rightarrow> connection_row list \<Rightarrow> connection_row list \<times> bool" where
  "move_connection owner provider to rows =
     (if fetchone (of_pair to provider) rows \<noteq> None then (rows, False)
      else (upd_where (of_pair owner provider) (cr_record_update (cn_owner_update (\<lambda>_. to))) rows, rowcount (of_pair owner provider) rows = 1))"

definition delete_connection :: "string \<Rightarrow> string \<Rightarrow> string \<Rightarrow> nat \<Rightarrow> connection_row list \<Rightarrow> connection_row list \<times> bool" where
  "delete_connection owner provider connect_id version rows =
     (let hit = of_credential owner provider connect_id version in (del_where hit rows, rowcount hit rows = 1))"

definition put_link :: "stamp \<Rightarrow> connection_link \<Rightarrow> connection_link list \<Rightarrow> connection_link list" where
  "put_link now l links = del_where (\<lambda>x. lk_expires_at x \<le> now) links @ [l]"

definition take_link :: "string \<Rightarrow> connection_link list \<Rightarrow> connection_link list \<times> connection_link option" where
  "take_link digest links =
     (case fetchone (\<lambda>x. lk_state_digest x = digest) links of
        None \<Rightarrow> (links, None) | Some l \<Rightarrow> (del_where (\<lambda>x. lk_state_digest x = digest) links, Some l))"

section \<open>The service\<close>

record provider_account =
  pa_id :: string
  pa_username :: string
  pa_name :: string
  pa_email :: string
  pa_extra :: string

record oauth_tokens =
  tk_access :: string
  tk_refresh :: string
  tk_expires_in :: "int option"
  tk_scope :: string

record token_grant =
  tg_provider :: string
  tg_token :: string
  tg_account :: provider_account
  tg_connect_id :: string
  tg_version :: nat

record connections_config =
  cc_providers :: "string set"
  cc_seal :: "string \<Rightarrow> string"
  cc_open :: "string \<Rightarrow> string option"
  cc_digest :: "string \<Rightarrow> string"
  cc_link_ttl :: int
  cc_skew :: int
  cc_lease :: int
  cc_polls :: nat
  cc_process :: "nat \<Rightarrow> nat"

datatype link_refusal = LINK_EXPIRED | LINK_FOREIGN | LINK_DENIED | LINK_REJECTED | ACCOUNT_REFUSED
datatype connection_event = EVENT_CONNECT_START | EVENT_CONNECT | EVENT_REFRESH | EVENT_FORGET | EVENT_DISCONNECT | EVENT_MOVE
datatype connection_result = RESULT_OK | RESULT_UNAVAILABLE | RESULT_REJECTED | RESULT_NOT_CONNECTED | RESULT_REVOKE_FAILED | Refusal link_refusal

text \<open>What an operation ends with.\<close>

datatype connection_end =
    Connected string provider_account string string | Refused link_refusal | Given token_grant | NotConnected | Unavailable | Raises
  | Disconnected provider_account bool | NothingToEnd | Forgotten

text \<open>What a revoke, once answered, goes on to.\<close>

datatype after_revoke =
    ThenRefused connection_link | ThenFails connection_link | ThenRaises | ThenForgotten string token_grant | ThenDisconnected connection_record
  | ThenReloads string string
  | ThenConnected connection_link string provider_account

datatype connection_phase =
    Away | Exchanging connection_link string | Identifying connection_link oauth_tokens | Finding connection_link oauth_tokens provider_account string
  | Saving connection_link oauth_tokens provider_account string "connection_record option"
  | Revoking after_revoke
  | Queued string string | Loading string string nat | Claiming connection_record nat | Waiting connection_record nat nat | Rotating connection_record
  | Writing connection_record oauth_tokens | Overtaken connection_record oauth_tokens | Turned connection_record
  | Unreadable connection_record bool | Ending connection_record bool | Reloading string string
  | Forgetting string token_grant "connection_record option" | Seeking string string nat | Removing connection_record nat
  | Releasing connection_record

record connections_world =
  cw_now :: int
  cw_rows :: "connection_row list"
  cw_links :: "connection_link list"
  cw_at :: "nat \<Rightarrow> connection_phase"
  cw_locked :: "nat \<times> string \<times> string \<Rightarrow> bool"
  cw_revoked :: "(string \<times> string) list"
  cw_events :: "(connection_event \<times> connection_result \<times> string \<times> string) list"
  cw_ends :: "(nat \<times> connection_end) list"

definition iso_second :: "int \<Rightarrow> stamp" where "iso_second m = m div 1000000"
definition instant :: "stamp \<Rightarrow> int" where "instant s = s * 1000000"
definition seconds_on :: "int \<Rightarrow> int \<Rightarrow> stamp" where "seconds_on now s = iso_second (now + instant s)"

definition account_of :: "connection_record \<Rightarrow> provider_account" where
  "account_of r = \<lparr>pa_id = cn_account_id r, pa_username = cn_account_username r, pa_name = cn_account_name r, pa_email = cn_account_email r,
     pa_extra = cn_account_extra r\<rparr>"

definition same_credential :: "connection_record \<Rightarrow> connection_record \<Rightarrow> bool" where
  "same_credential r s \<longleftrightarrow> cn_connect_id r = cn_connect_id s \<and> cn_version r = cn_version s"

definition token_fresh :: "connections_config \<Rightarrow> int \<Rightarrow> connection_record \<Rightarrow> bool" where
  "token_fresh cfg now r = (case cn_expires_at r of None \<Rightarrow> True | Some e \<Rightarrow> instant e - now > instant (cc_skew cfg))"

definition record_of :: "connections_config \<Rightarrow> int \<Rightarrow> string \<Rightarrow> string \<Rightarrow> string \<Rightarrow> oauth_tokens \<Rightarrow> provider_account \<Rightarrow> connection_record" where
  "record_of cfg now connect_id owner provider t a =
     \<lparr>cn_owner = owner, cn_provider = provider, cn_access_sealed = cc_seal cfg (tk_access t),
      cn_refresh_sealed = (if tk_refresh t \<noteq> [] then cc_seal cfg (tk_refresh t) else []),
      cn_expires_at = map_option (seconds_on now) (tk_expires_in t),
      cn_account_id = pa_id a, cn_account_username = pa_username a, cn_account_name = pa_name a, cn_account_email = pa_email a,
      cn_scope = tk_scope t, cn_connect_id = connect_id, cn_version = 0, cn_connected_at = Some (iso_second now), cn_account_extra = pa_extra a\<rparr>"

definition rotated :: "connections_config \<Rightarrow> int \<Rightarrow> connection_record \<Rightarrow> oauth_tokens \<Rightarrow> connection_record" where
  "rotated cfg now r t =
     r\<lparr>cn_access_sealed := cc_seal cfg (tk_access t),
       cn_refresh_sealed := (if tk_refresh t \<noteq> [] then cc_seal cfg (tk_refresh t) else cn_refresh_sealed r),
       cn_expires_at := map_option (seconds_on now) (tk_expires_in t),
       cn_scope := (if tk_scope t \<noteq> [] then tk_scope t else cn_scope r),
       cn_version := Suc (cn_version r)\<rparr>"

definition grant_of :: "connection_record \<Rightarrow> string \<Rightarrow> token_grant" where
  "grant_of r access = \<lparr>tg_provider = cn_provider r, tg_token = access, tg_account = account_of r, tg_connect_id = cn_connect_id r, tg_version = cn_version r\<rparr>"

text \<open>\<open>_revoke_tokens\<close> and \<open>_revoke_stored\<close>: the token a provider is asked to end, when it can be asked.\<close>

definition token_to_revoke :: "oauth_tokens \<Rightarrow> string" where
  "token_to_revoke t = (if tk_refresh t \<noteq> [] then tk_refresh t else tk_access t)"

definition stored_to_revoke :: "connections_config \<Rightarrow> connection_record \<Rightarrow> string option" where
  "stored_to_revoke cfg r =
     (let sealed = (if cn_refresh_sealed r \<noteq> [] then cn_refresh_sealed r else cn_access_sealed r);
          token = (if sealed \<noteq> [] then cc_open cfg sealed else None) in
      if cn_provider r \<notin> cc_providers cfg then None else token)"

section \<open>Between two awaits\<close>

definition at_phase :: "nat \<Rightarrow> connection_phase \<Rightarrow> connections_world \<Rightarrow> connections_world" where
  "at_phase i p w = w\<lparr>cw_at := (cw_at w)(i := p)\<rparr>"

definition noted :: "connection_event \<Rightarrow> connection_result \<Rightarrow> string \<Rightarrow> string \<Rightarrow> connections_world \<Rightarrow> connections_world" where
  "noted e r owner provider w = w\<lparr>cw_events := cw_events w @ [(e, r, owner, provider)]\<rparr>"

definition asked_to_end :: "string \<Rightarrow> string \<Rightarrow> connections_world \<Rightarrow> connections_world" where
  "asked_to_end provider token w = w\<lparr>cw_revoked := cw_revoked w @ [(provider, token)]\<rparr>"

text \<open>The lock of a connection is held from where it is taken until the refresh is over.\<close>

fun lock_of :: "connection_phase \<Rightarrow> (string \<times> string) option" where
  "lock_of (Loading o1 p n) = Some (o1, p)"
| "lock_of (Claiming r n) = Some (cn_owner r, cn_provider r)"
| "lock_of (Waiting r n m) = Some (cn_owner r, cn_provider r)"
| "lock_of (Rotating r) = Some (cn_owner r, cn_provider r)"
| "lock_of (Writing r t) = Some (cn_owner r, cn_provider r)"
| "lock_of (Overtaken r t) = Some (cn_owner r, cn_provider r)"
| "lock_of (Turned r) = Some (cn_owner r, cn_provider r)"
| "lock_of (Unreadable r locked) = (if locked then Some (cn_owner r, cn_provider r) else None)"
| "lock_of (Ending r rejected) = Some (cn_owner r, cn_provider r)"
| "lock_of (Reloading o1 p) = Some (o1, p)"
| "lock_of (Releasing r) = Some (cn_owner r, cn_provider r)"
| "lock_of (Revoking (ThenReloads o1 p)) = Some (o1, p)"
| "lock_of ph = None"

definition ends_with :: "connections_config \<Rightarrow> nat \<Rightarrow> connection_end \<Rightarrow> connections_world \<Rightarrow> connections_world" where
  "ends_with cfg i e w =
     (let w1 = at_phase i Away (w\<lparr>cw_ends := cw_ends w @ [(i, e)]\<rparr>) in
      case lock_of (cw_at w i) of None \<Rightarrow> w1 | Some (o1, p) \<Rightarrow> w1\<lparr>cw_locked := (cw_locked w1)((cc_process cfg i, o1, p) := False)\<rparr>)"

definition ends_noted :: "connections_config \<Rightarrow> nat \<Rightarrow> connection_event \<Rightarrow> connection_result \<Rightarrow> string \<Rightarrow> string \<Rightarrow> connection_end \<Rightarrow> connections_world \<Rightarrow> connections_world" where
  "ends_noted cfg i e r owner provider end w = ends_with cfg i end (noted e r owner provider w)"

subsection \<open>Connecting\<close>

definition begin_connect :: "connections_config \<Rightarrow> string \<Rightarrow> string \<Rightarrow> string \<Rightarrow> string \<Rightarrow> string \<Rightarrow> connections_world \<Rightarrow> connections_world" where
  "begin_connect cfg state verifier owner provider return_to w =
     (if provider \<notin> cc_providers cfg then w
      else noted EVENT_CONNECT_START RESULT_OK owner provider
        (w\<lparr>cw_links := put_link (iso_second (cw_now w))
             \<lparr>lk_state_digest = cc_digest cfg state, lk_owner = owner, lk_provider = provider, lk_verifier_sealed = cc_seal cfg verifier,
              lk_expires_at = seconds_on (cw_now w) (cc_link_ttl cfg), lk_return_to = return_to\<rparr> (cw_links w)\<rparr>))"

definition refuse_link :: "connections_config \<Rightarrow> string \<Rightarrow> connections_world \<Rightarrow> connections_world" where
  "refuse_link cfg state w =
     (case take_link (cc_digest cfg state) (cw_links w) of
        (links, None) \<Rightarrow> w\<lparr>cw_links := links\<rparr>
      | (links, Some l) \<Rightarrow> noted EVENT_CONNECT (Refusal LINK_DENIED) (lk_owner l) (lk_provider l) (w\<lparr>cw_links := links\<rparr>))"

definition finish_goes :: "connections_config \<Rightarrow> nat \<Rightarrow> string \<Rightarrow> string option \<Rightarrow> connections_world \<Rightarrow> connections_world" where
  "finish_goes cfg i state owner w =
     (case take_link (cc_digest cfg state) (cw_links w) of (links, found) \<Rightarrow>
      let w1 = w\<lparr>cw_links := links\<rparr> in
      case found of
        None \<Rightarrow> ends_noted cfg i EVENT_CONNECT (Refusal LINK_EXPIRED) (case owner of None \<Rightarrow> [] | Some x \<Rightarrow> x) [] (Refused LINK_EXPIRED) w1
      | Some l \<Rightarrow>
          if instant (lk_expires_at l) \<le> cw_now w
          then ends_noted cfg i EVENT_CONNECT (Refusal LINK_EXPIRED) (case owner of None \<Rightarrow> [] | Some x \<Rightarrow> x) [] (Refused LINK_EXPIRED) w1
          else if owner \<noteq> None \<and> owner \<noteq> Some (lk_owner l)
          then ends_noted cfg i EVENT_CONNECT (Refusal LINK_FOREIGN) (lk_owner l) (lk_provider l) (Refused LINK_FOREIGN) w1
          else case (lk_provider l \<in> cc_providers cfg, cc_open cfg (lk_verifier_sealed l)) of
            (True, Some verifier) \<Rightarrow> at_phase i (Exchanging l verifier) w1
          | _ \<Rightarrow> ends_noted cfg i EVENT_CONNECT (Refusal LINK_EXPIRED) (lk_owner l) (lk_provider l) (Refused LINK_EXPIRED) w1)"

text \<open>The token endpoint: a pair, or a refusal of the code.\<close>

definition exchanged :: "connections_config \<Rightarrow> nat \<Rightarrow> oauth_tokens option \<Rightarrow> connections_world \<Rightarrow> connections_world" where
  "exchanged cfg i answer w =
     (case cw_at w i of
        Exchanging l verifier \<Rightarrow>
          (case answer of
             None \<Rightarrow> ends_noted cfg i EVENT_CONNECT (Refusal LINK_REJECTED) (lk_owner l) (lk_provider l) (Refused LINK_REJECTED) w
           | Some t \<Rightarrow> at_phase i (Identifying l t) w)
      | _ \<Rightarrow> w)"

text \<open>The account, the application's refusal, and whom it is saved for (empty: whom it was started for).\<close>

definition identified :: "nat \<Rightarrow> provider_account \<Rightarrow> bool \<Rightarrow> string \<Rightarrow> connections_world \<Rightarrow> connections_world" where
  "identified i account refusal saved_for w =
     (case cw_at w i of
        Identifying l t \<Rightarrow>
          if refusal
          then at_phase i (Revoking (ThenRefused l)) (asked_to_end (lk_provider l) (token_to_revoke t) w)
          else at_phase i (Finding l t account (if saved_for = [] then lk_owner l else saved_for)) w
      | _ \<Rightarrow> w)"

definition looked_up :: "nat \<Rightarrow> connections_world \<Rightarrow> connections_world" where
  "looked_up i w =
     (case cw_at w i of
        Finding l t account owner \<Rightarrow> at_phase i (Saving l t account owner (get_connection owner (lk_provider l) (cw_rows w))) w
      | _ \<Rightarrow> w)"

definition connect_ends :: "connections_config \<Rightarrow> nat \<Rightarrow> connection_link \<Rightarrow> string \<Rightarrow> provider_account \<Rightarrow> connections_world \<Rightarrow> connections_world" where
  "connect_ends cfg i l owner account w =
     ends_noted cfg i EVENT_CONNECT RESULT_OK owner (lk_provider l) (Connected owner account (lk_return_to l) (lk_owner l)) w"

definition connect_saved :: "connections_config \<Rightarrow> nat \<Rightarrow> string \<Rightarrow> connections_world \<Rightarrow> connections_world" where
  "connect_saved cfg i connect_id w =
     (case cw_at w i of
        Saving l t account owner previous \<Rightarrow>
          let w1 = w\<lparr>cw_rows := save_connection (record_of cfg (cw_now w) connect_id owner (lk_provider l) t account) (cw_rows w)\<rparr> in
          (case previous of
             None \<Rightarrow> connect_ends cfg i l owner account w1
           | Some old \<Rightarrow>
               (case stored_to_revoke cfg old of
                  None \<Rightarrow> connect_ends cfg i l owner account w1
                | Some token \<Rightarrow> at_phase i (Revoking (ThenConnected l owner account)) (asked_to_end (cn_provider old) token w1)))
      | _ \<Rightarrow> w)"

subsection \<open>A grant and its refresh\<close>

definition gives_grant :: "connections_config \<Rightarrow> nat \<Rightarrow> connection_record \<Rightarrow> connections_world \<Rightarrow> connections_world" where
  "gives_grant cfg i r w = ends_with cfg i (Given (grant_of r (case cc_open cfg (cn_access_sealed r) of None \<Rightarrow> [] | Some t \<Rightarrow> t))) w"

text \<open>\<open>_load\<close>, and what follows a record that is there and opens.\<close>

definition loaded :: "connections_config \<Rightarrow> nat \<Rightarrow> string \<Rightarrow> string \<Rightarrow> bool \<Rightarrow> (connection_record \<Rightarrow> connections_world \<Rightarrow> connections_world) \<Rightarrow> connections_world \<Rightarrow> connections_world" where
  "loaded cfg i owner provider locked go_on w =
     (case get_connection owner provider (cw_rows w) of
        None \<Rightarrow> ends_with cfg i NotConnected w
      | Some r \<Rightarrow> if cc_open cfg (cn_access_sealed r) = None then at_phase i (Unreadable r locked) w else go_on r w)"

definition grant_goes :: "connections_config \<Rightarrow> nat \<Rightarrow> string \<Rightarrow> string \<Rightarrow> connections_world \<Rightarrow> connections_world" where
  "grant_goes cfg i owner provider w =
     loaded cfg i owner provider False (\<lambda>r. if token_fresh cfg (cw_now w) r then gives_grant cfg i r else at_phase i (Queued owner provider)) w"

definition takes_lock :: "connections_config \<Rightarrow> nat \<Rightarrow> connections_world \<Rightarrow> connections_world" where
  "takes_lock cfg i w =
     (case cw_at w i of
        Queued owner provider \<Rightarrow>
          let k = (cc_process cfg i, owner, provider) in
          if cw_locked w k then w else at_phase i (Loading owner provider 2) (w\<lparr>cw_locked := (cw_locked w)(k := True)\<rparr>)
      | _ \<Rightarrow> w)"

definition loads :: "connections_config \<Rightarrow> nat \<Rightarrow> connections_world \<Rightarrow> connections_world" where
  "loads cfg i w =
     (case cw_at w i of
        Loading owner provider 0 \<Rightarrow> ends_with cfg i Unavailable w
      | Loading owner provider (Suc n) \<Rightarrow>
          loaded cfg i owner provider True (\<lambda>r. if token_fresh cfg (cw_now w) r then gives_grant cfg i r else at_phase i (Claiming r n)) w
      | _ \<Rightarrow> w)"

definition claims :: "connections_config \<Rightarrow> nat \<Rightarrow> connections_world \<Rightarrow> connections_world" where
  "claims cfg i w =
     (case cw_at w i of
        Claiming r n \<Rightarrow>
          let until = seconds_on (cw_now w) (cc_lease cfg) in
          (case claim_refresh (cn_owner r) (cn_provider r) (cn_connect_id r) (cn_version r) (iso_second (cw_now w)) until (cw_rows w) of
             (rows, won) \<Rightarrow>
               let w1 = w\<lparr>cw_rows := rows\<rparr> in
               if \<not> won then at_phase i (Waiting r n (cc_polls cfg)) w1
               else if cn_provider r \<notin> cc_providers cfg then ends_with cfg i Unavailable w1
               else case (if cn_refresh_sealed r = [] then None else cc_open cfg (cn_refresh_sealed r)) of
                 Some (c # cs) \<Rightarrow> at_phase i (Rotating r) w1
               | _ \<Rightarrow> at_phase i (Ending r False) w1)
      | _ \<Rightarrow> w)"

definition waits :: "nat \<Rightarrow> connections_world \<Rightarrow> connections_world" where
  "waits i w =
     (case cw_at w i of
        Waiting r n 0 \<Rightarrow> at_phase i (Loading (cn_owner r) (cn_provider r) n) w
      | Waiting r n (Suc m) \<Rightarrow>
          (case get_connection (cn_owner r) (cn_provider r) (cw_rows w) of
             None \<Rightarrow> at_phase i (Loading (cn_owner r) (cn_provider r) n) w
           | Some latest \<Rightarrow>
               if \<not> same_credential latest r then at_phase i (Loading (cn_owner r) (cn_provider r) n) w else at_phase i (Waiting r n m) w)
      | _ \<Rightarrow> w)"

definition refreshed :: "nat \<Rightarrow> oauth_tokens option \<Rightarrow> connections_world \<Rightarrow> connections_world" where
  "refreshed i answer w =
     (case cw_at w i of
        Rotating r \<Rightarrow> (case answer of None \<Rightarrow> at_phase i (Turned r) w | Some t \<Rightarrow> at_phase i (Writing r t) w)
      | _ \<Rightarrow> w)"

definition turned_down :: "connections_config \<Rightarrow> nat \<Rightarrow> connections_world \<Rightarrow> connections_world" where
  "turned_down cfg i w =
     (case cw_at w i of
        Turned r \<Rightarrow>
          (case get_connection (cn_owner r) (cn_provider r) (cw_rows w) of
             None \<Rightarrow> at_phase i (Ending r True) w
           | Some latest \<Rightarrow> if \<not> same_credential latest r then gives_grant cfg i latest w else at_phase i (Ending r True) w)
      | _ \<Rightarrow> w)"

definition writes :: "connections_config \<Rightarrow> nat \<Rightarrow> connections_world \<Rightarrow> connections_world" where
  "writes cfg i w =
     (case cw_at w i of
        Writing r t \<Rightarrow>
          let fresh = rotated cfg (cw_now w) r t in
          (case replace_connection fresh (cn_version r) (cw_rows w) of
             (rows, True) \<Rightarrow> gives_grant cfg i fresh (noted EVENT_REFRESH RESULT_OK (cn_owner r) (cn_provider r) (w\<lparr>cw_rows := rows\<rparr>))
           | (rows, False) \<Rightarrow> at_phase i (Overtaken r t) (w\<lparr>cw_rows := rows\<rparr>))
      | _ \<Rightarrow> w)"

definition overtaken :: "nat \<Rightarrow> connections_world \<Rightarrow> connections_world" where
  "overtaken i w =
     (case cw_at w i of
        Overtaken r t \<Rightarrow>
          let drop_pair = at_phase i (Revoking (ThenReloads (cn_owner r) (cn_provider r))) (asked_to_end (cn_provider r) (token_to_revoke t) w) in
          (case get_connection (cn_owner r) (cn_provider r) (cw_rows w) of
             None \<Rightarrow> drop_pair
           | Some latest \<Rightarrow> if cn_connect_id latest \<noteq> cn_connect_id r then drop_pair else at_phase i (Reloading (cn_owner r) (cn_provider r)) w)
      | _ \<Rightarrow> w)"

definition reloads :: "connections_config \<Rightarrow> nat \<Rightarrow> connections_world \<Rightarrow> connections_world" where
  "reloads cfg i w =
     (case cw_at w i of
        Reloading owner provider \<Rightarrow> loaded cfg i owner provider True (gives_grant cfg i) w
      | _ \<Rightarrow> w)"

text \<open>A record is deleted that does not open, has nothing to refresh with, or was turned down.\<close>

definition drops_record :: "connections_config \<Rightarrow> nat \<Rightarrow> connections_world \<Rightarrow> connections_world" where
  "drops_record cfg i w =
     (let gone = (\<lambda>r. w\<lparr>cw_rows := fst (delete_connection (cn_owner r) (cn_provider r) (cn_connect_id r) (cn_version r) (cw_rows w))\<rparr>) in
      case cw_at w i of
        Unreadable r locked \<Rightarrow> ends_with cfg i NotConnected (gone r)
      | Ending r rejected \<Rightarrow>
          ends_noted cfg i EVENT_REFRESH (if rejected then RESULT_REJECTED else RESULT_NOT_CONNECTED) (cn_owner r) (cn_provider r) NotConnected (gone r)
      | _ \<Rightarrow> w)"

subsection \<open>Ending a connection\<close>

definition forget_goes :: "nat \<Rightarrow> string \<Rightarrow> token_grant \<Rightarrow> connections_world \<Rightarrow> connections_world" where
  "forget_goes i owner g w = at_phase i (Forgetting owner g (get_connection owner (tg_provider g) (cw_rows w))) w"

definition forget_deletes :: "connections_config \<Rightarrow> nat \<Rightarrow> connections_world \<Rightarrow> connections_world" where
  "forget_deletes cfg i w =
     (case cw_at w i of
        Forgetting owner g found \<Rightarrow>
          (case delete_connection owner (tg_provider g) (tg_connect_id g) (tg_version g) (cw_rows w) of
             (rows, deleted) \<Rightarrow>
               let w1 = w\<lparr>cw_rows := rows\<rparr> in
               (case (deleted, found) of
                  (True, Some r) \<Rightarrow>
                    if cn_connect_id r = tg_connect_id g \<and> cn_version r = tg_version g
                    then (case stored_to_revoke cfg r of
                            None \<Rightarrow> ends_noted cfg i EVENT_FORGET RESULT_OK owner (tg_provider g) Forgotten w1
                          | Some token \<Rightarrow> at_phase i (Revoking (ThenForgotten owner g)) (asked_to_end (cn_provider r) token w1))
                    else ends_noted cfg i EVENT_FORGET RESULT_OK owner (tg_provider g) Forgotten w1
                | (True, None) \<Rightarrow> ends_noted cfg i EVENT_FORGET RESULT_OK owner (tg_provider g) Forgotten w1
                | (False, _) \<Rightarrow> ends_noted cfg i EVENT_FORGET RESULT_NOT_CONNECTED owner (tg_provider g) Forgotten w1))
      | _ \<Rightarrow> w)"

definition moves :: "string \<Rightarrow> string \<Rightarrow> string \<Rightarrow> connections_world \<Rightarrow> connections_world" where
  "moves owner provider to w =
     (case move_connection owner provider to (cw_rows w) of
        (rows, moved) \<Rightarrow> noted EVENT_MOVE (if moved then RESULT_OK else RESULT_NOT_CONNECTED) owner provider (w\<lparr>cw_rows := rows\<rparr>))"

definition disconnect_goes :: "nat \<Rightarrow> string \<Rightarrow> string \<Rightarrow> connections_world \<Rightarrow> connections_world" where
  "disconnect_goes i owner provider w = at_phase i (Seeking owner provider 3) w"

definition seeks :: "connections_config \<Rightarrow> nat \<Rightarrow> connections_world \<Rightarrow> connections_world" where
  "seeks cfg i w =
     (case cw_at w i of
        Seeking owner provider 0 \<Rightarrow> ends_with cfg i Unavailable w
      | Seeking owner provider (Suc n) \<Rightarrow>
          (case get_connection owner provider (cw_rows w) of
             None \<Rightarrow> ends_noted cfg i EVENT_DISCONNECT RESULT_NOT_CONNECTED owner provider NothingToEnd w
           | Some r \<Rightarrow> at_phase i (Removing r n) w)
      | _ \<Rightarrow> w)"

definition removes :: "connections_config \<Rightarrow> nat \<Rightarrow> connections_world \<Rightarrow> connections_world" where
  "removes cfg i w =
     (case cw_at w i of
        Removing r n \<Rightarrow>
          (case delete_connection (cn_owner r) (cn_provider r) (cn_connect_id r) (cn_version r) (cw_rows w) of
             (rows, False) \<Rightarrow> at_phase i (Seeking (cn_owner r) (cn_provider r) n) (w\<lparr>cw_rows := rows\<rparr>)
           | (rows, True) \<Rightarrow>
               let w1 = w\<lparr>cw_rows := rows\<rparr> in
               (case stored_to_revoke cfg r of
                  None \<Rightarrow> ends_noted cfg i EVENT_DISCONNECT RESULT_REVOKE_FAILED (cn_owner r) (cn_provider r) (Disconnected (account_of r) False) w1
                | Some token \<Rightarrow> at_phase i (Revoking (ThenDisconnected r)) (asked_to_end (cn_provider r) token w1)))
      | _ \<Rightarrow> w)"

text \<open>A provider's answer to a revoke; one that raises counts as no confirmation.\<close>

definition revoke_answered :: "connections_config \<Rightarrow> nat \<Rightarrow> bool \<Rightarrow> connections_world \<Rightarrow> connections_world" where
  "revoke_answered cfg i confirmed w =
     (case cw_at w i of
        Revoking after \<Rightarrow>
          (case after of
             ThenRefused l \<Rightarrow> ends_noted cfg i EVENT_CONNECT (Refusal ACCOUNT_REFUSED) (lk_owner l) (lk_provider l) (Refused ACCOUNT_REFUSED) w
           | ThenFails l \<Rightarrow> ends_noted cfg i EVENT_CONNECT RESULT_UNAVAILABLE (lk_owner l) (lk_provider l) Raises w
           | ThenForgotten owner g \<Rightarrow> ends_noted cfg i EVENT_FORGET RESULT_OK owner (tg_provider g) Forgotten w
           | ThenRaises \<Rightarrow> ends_with cfg i Raises w
           | ThenDisconnected r \<Rightarrow>
               ends_noted cfg i EVENT_DISCONNECT (if confirmed then RESULT_OK else RESULT_REVOKE_FAILED) (cn_owner r) (cn_provider r)
                 (Disconnected (account_of r) confirmed) w
           | ThenReloads owner provider \<Rightarrow> at_phase i (Reloading owner provider) w
           | ThenConnected l owner account \<Rightarrow> connect_ends cfg i l owner account w)
      | _ \<Rightarrow> w)"

subsection \<open>Failures\<close>

text \<open>
  The await of a coroutine raises: the provider could not be asked (\<open>provider_down\<close>), the store failed before writing,
  or the coroutine was cancelled.  Of what a connect was issued only the look-up of the previous connection drops
  without a revoke.
\<close>

definition raised :: "connections_config \<Rightarrow> nat \<Rightarrow> bool \<Rightarrow> connections_world \<Rightarrow> connections_world" where
  "raised cfg i provider_down w =
     (case cw_at w i of
        Away \<Rightarrow> w
      | Exchanging l verifier \<Rightarrow>
          ends_with cfg i Raises (if provider_down then noted EVENT_CONNECT RESULT_UNAVAILABLE (lk_owner l) (lk_provider l) w else w)
      | Identifying l t \<Rightarrow>
          at_phase i (Revoking (ThenFails l)) (asked_to_end (lk_provider l) (token_to_revoke t) w)
      | Saving l t account owner previous \<Rightarrow> at_phase i (Revoking ThenRaises) (asked_to_end (lk_provider l) (token_to_revoke t) w)
      | Rotating r \<Rightarrow> at_phase i (Releasing r) w
      | Releasing r \<Rightarrow> ends_noted cfg i EVENT_REFRESH RESULT_UNAVAILABLE (cn_owner r) (cn_provider r) Raises w
      | _ \<Rightarrow> ends_with cfg i Raises w)"

definition releases :: "connections_config \<Rightarrow> nat \<Rightarrow> connections_world \<Rightarrow> connections_world" where
  "releases cfg i w =
     (case cw_at w i of
        Releasing r \<Rightarrow>
          ends_noted cfg i EVENT_REFRESH RESULT_UNAVAILABLE (cn_owner r) (cn_provider r) Raises
            (w\<lparr>cw_rows := release_refresh (cn_owner r) (cn_provider r) (cn_connect_id r) (cn_version r) (cw_rows w)\<rparr>)
      | _ \<Rightarrow> w)"

section \<open>What may happen\<close>

datatype connection_op =
    Ticks int | Begins string string string string string | Declines string | Moves string string string
  | Finishes nat string "string option" | Asks nat string string | Forgets nat string token_grant | Disconnects nat string string
  | Exchanged nat "oauth_tokens option" | Identified nat provider_account bool string | LookedUp nat | Saved nat string
  | TakesLock nat | Loads nat | Claims nat | Waits nat | Refreshed nat "oauth_tokens option" | TurnedDown nat | Writes nat | LooksAgain nat | Reloads nat
  | DropsRecord nat | ForgetDeletes nat | Seeks nat | Removes nat | RevokeAnswered nat bool | Releases nat | Raised nat bool

definition starts :: "nat \<Rightarrow> (connections_world \<Rightarrow> connections_world) \<Rightarrow> connections_world \<Rightarrow> connections_world" where
  "starts i f w = (if cw_at w i = Away then f w else w)"

fun connections_do :: "connections_config \<Rightarrow> connection_op \<Rightarrow> connections_world \<Rightarrow> connections_world" where
  "connections_do cfg (Ticks t) w = w\<lparr>cw_now := max t (cw_now w)\<rparr>"
| "connections_do cfg (Begins state verifier owner provider return_to) w = begin_connect cfg state verifier owner provider return_to w"
| "connections_do cfg (Declines state) w = refuse_link cfg state w"
| "connections_do cfg (Moves owner provider to) w = moves owner provider to w"
| "connections_do cfg (Finishes i state owner) w = starts i (finish_goes cfg i state owner) w"
| "connections_do cfg (Asks i owner provider) w = starts i (grant_goes cfg i owner provider) w"
| "connections_do cfg (Forgets i owner g) w = starts i (forget_goes i owner g) w"
| "connections_do cfg (Disconnects i owner provider) w = starts i (disconnect_goes i owner provider) w"
| "connections_do cfg (Exchanged i answer) w = exchanged cfg i answer w"
| "connections_do cfg (Identified i account refusal saved_for) w = identified i account refusal saved_for w"
| "connections_do cfg (LookedUp i) w = looked_up i w"
| "connections_do cfg (Saved i connect_id) w = connect_saved cfg i connect_id w"
| "connections_do cfg (TakesLock i) w = takes_lock cfg i w"
| "connections_do cfg (Loads i) w = loads cfg i w"
| "connections_do cfg (Claims i) w = claims cfg i w"
| "connections_do cfg (Waits i) w = waits i w"
| "connections_do cfg (Refreshed i answer) w = refreshed i answer w"
| "connections_do cfg (TurnedDown i) w = turned_down cfg i w"
| "connections_do cfg (Writes i) w = writes cfg i w"
| "connections_do cfg (LooksAgain i) w = overtaken i w"
| "connections_do cfg (Reloads i) w = reloads cfg i w"
| "connections_do cfg (DropsRecord i) w = drops_record cfg i w"
| "connections_do cfg (ForgetDeletes i) w = forget_deletes cfg i w"
| "connections_do cfg (Seeks i) w = seeks cfg i w"
| "connections_do cfg (Removes i) w = removes cfg i w"
| "connections_do cfg (RevokeAnswered i confirmed) w = revoke_answered cfg i confirmed w"
| "connections_do cfg (Releases i) w = releases cfg i w"
| "connections_do cfg (Raised i provider_down) w = raised cfg i provider_down w"

definition no_connections :: "int \<Rightarrow> connections_world" where
  "no_connections now = \<lparr>cw_now = now, cw_rows = [], cw_links = [], cw_at = (\<lambda>_. Away), cw_locked = (\<lambda>_. False), cw_revoked = [], cw_events = [], cw_ends = []\<rparr>"

end
