(* ===== verification/ConnectionProps.thy ===== *)
theory ConnectionProps
  imports Connections
begin

text \<open>
  What holds of connections however the coroutines of every process interleave: which records an operation may end
  or replace, that one credential is refreshed once at a time while leases cover their refreshes, what becomes of the
  tokens a connect was issued, that a grant is its person's, and that every operation ends.
\<close>

section \<open>What a step changes\<close>

named_theorems conn_simps

lemma at_phase_simps [conn_simps]:
  "cw_rows (at_phase i p w) = cw_rows w" "cw_links (at_phase i p w) = cw_links w" "cw_now (at_phase i p w) = cw_now w"
  "cw_at (at_phase i p w) = (cw_at w)(i := p)" "cw_revoked (at_phase i p w) = cw_revoked w" "cw_ends (at_phase i p w) = cw_ends w"
  "cw_locked (at_phase i p w) = cw_locked w"
  by (simp_all add: at_phase_def)

lemma noted_simps [conn_simps]:
  "cw_rows (noted e r a p w) = cw_rows w" "cw_links (noted e r a p w) = cw_links w" "cw_now (noted e r a p w) = cw_now w"
  "cw_at (noted e r a p w) = cw_at w" "cw_revoked (noted e r a p w) = cw_revoked w" "cw_ends (noted e r a p w) = cw_ends w"
  "cw_locked (noted e r a p w) = cw_locked w"
  by (simp_all add: noted_def)

lemma asked_simps [conn_simps]:
  "cw_rows (asked_to_end p t w) = cw_rows w" "cw_links (asked_to_end p t w) = cw_links w" "cw_now (asked_to_end p t w) = cw_now w"
  "cw_at (asked_to_end p t w) = cw_at w" "cw_revoked (asked_to_end p t w) = cw_revoked w @ [(p, t)]" "cw_ends (asked_to_end p t w) = cw_ends w"
  "cw_locked (asked_to_end p t w) = cw_locked w"
  by (simp_all add: asked_to_end_def)

lemma ends_simps [conn_simps]:
  "cw_rows (ends_with cfg i e w) = cw_rows w" "cw_links (ends_with cfg i e w) = cw_links w" "cw_now (ends_with cfg i e w) = cw_now w"
  "cw_at (ends_with cfg i e w) = (cw_at w)(i := Away)" "cw_revoked (ends_with cfg i e w) = cw_revoked w"
  "cw_ends (ends_with cfg i e w) = cw_ends w @ [(i, e)]"
  by (auto simp: ends_with_def Let_def conn_simps split: option.splits)

lemma ends_noted_simps [conn_simps]:
  "cw_rows (ends_noted cfg i e r a p end w) = cw_rows w" "cw_links (ends_noted cfg i e r a p end w) = cw_links w"
  "cw_now (ends_noted cfg i e r a p end w) = cw_now w" "cw_at (ends_noted cfg i e r a p end w) = (cw_at w)(i := Away)"
  "cw_revoked (ends_noted cfg i e r a p end w) = cw_revoked w" "cw_ends (ends_noted cfg i e r a p end w) = cw_ends w @ [(i, end)]"
  by (simp_all add: ends_noted_def conn_simps)

lemma gives_simps [conn_simps]:
  "cw_rows (gives_grant cfg i r w) = cw_rows w" "cw_links (gives_grant cfg i r w) = cw_links w" "cw_now (gives_grant cfg i r w) = cw_now w"
  "cw_at (gives_grant cfg i r w) = (cw_at w)(i := Away)" "cw_revoked (gives_grant cfg i r w) = cw_revoked w"
  "cw_ends (gives_grant cfg i r w)
    = cw_ends w @ [(i, Given (grant_of r (case cc_open cfg (cn_access_sealed r) of None \<Rightarrow> [] | Some t \<Rightarrow> t)))]"
  by (simp_all add: gives_grant_def conn_simps)

lemma connect_ends_simps [conn_simps]:
  "cw_rows (connect_ends cfg i l owner a w) = cw_rows w" "cw_links (connect_ends cfg i l owner a w) = cw_links w" "cw_now (connect_ends cfg i l owner a w) = cw_now w"
  "cw_at (connect_ends cfg i l owner a w) = (cw_at w)(i := Away)" "cw_revoked (connect_ends cfg i l owner a w) = cw_revoked w"
  "cw_ends (connect_ends cfg i l owner a w) = cw_ends w @ [(i, Connected owner a (lk_return_to l) (lk_owner l))]"
  by (simp_all add: connect_ends_def conn_simps)

lemmas step_defs = begin_connect_def refuse_link_def finish_goes_def exchanged_def identified_def looked_up_def connect_saved_def loaded_def grant_goes_def
  takes_lock_def loads_def claims_def waits_def refreshed_def turned_down_def writes_def overtaken_def reloads_def drops_record_def forget_goes_def
  forget_deletes_def moves_def disconnect_goes_def seeks_def removes_def revoke_answered_def raised_def releases_def starts_def Let_def

lemmas step_splits = option.splits prod.splits if_splits connection_phase.splits bool.splits nat.splits after_revoke.splits list.splits

text \<open>The record a coroutine has read and acts on.\<close>

fun record_in_hand :: "connection_phase \<Rightarrow> connection_record option" where
  "record_in_hand (Claiming r n) = Some r"
| "record_in_hand (Waiting r n m) = Some r"
| "record_in_hand (Rotating r) = Some r"
| "record_in_hand (Writing r t) = Some r"
| "record_in_hand (Overtaken r t) = Some r"
| "record_in_hand (Turned r) = Some r"
| "record_in_hand (Unreadable r locked) = Some r"
| "record_in_hand (Ending r rejected) = Some r"
| "record_in_hand (Removing r n) = Some r"
| "record_in_hand (Releasing r) = Some r"
| "record_in_hand ph = None"

text \<open>The credential a coroutine would delete or replace.\<close>

fun acts_on :: "connection_phase \<Rightarrow> (string \<times> string \<times> string \<times> nat) option" where
  "acts_on (Forgetting owner g found) = Some (owner, tg_provider g, tg_connect_id g, tg_version g)"
| "acts_on ph = map_option (\<lambda>r. (cn_owner r, cn_provider r, cn_connect_id r, cn_version r)) (record_in_hand ph)"

datatype row_change = Kept | SavedFor string connection_record | ClaimedFor nat connection_record | ReleasedFor nat connection_record
  | Replaced nat connection_record oauth_tokens | MovedTo string string string | DeletedBy nat string string string nat

definition changed_rows :: "connections_config \<Rightarrow> int \<Rightarrow> row_change \<Rightarrow> connection_row list \<Rightarrow> connection_row list" where
  "changed_rows cfg now c rows =
     (case c of
        Kept \<Rightarrow> rows
      | SavedFor connect_id r \<Rightarrow> save_connection r rows
      | ClaimedFor i r \<Rightarrow> fst (claim_refresh (cn_owner r) (cn_provider r) (cn_connect_id r) (cn_version r) (iso_second now) (seconds_on now (cc_lease cfg)) rows)
      | ReleasedFor i r \<Rightarrow> release_refresh (cn_owner r) (cn_provider r) (cn_connect_id r) (cn_version r) rows
      | Replaced i r t \<Rightarrow> fst (replace_connection (rotated cfg now r t) (cn_version r) rows)
      | MovedTo owner provider to \<Rightarrow> fst (move_connection owner provider to rows)
      | DeletedBy i owner provider connect_id version \<Rightarrow> fst (delete_connection owner provider connect_id version rows))"

definition change_of :: "connections_config \<Rightarrow> connection_op \<Rightarrow> connections_world \<Rightarrow> row_change" where
  "change_of cfg op w =
     (case op of
        Moves owner provider to \<Rightarrow> MovedTo owner provider to
      | Saved i connect_id \<Rightarrow>
          (case cw_at w i of
             Saving l t account owner previous \<Rightarrow> SavedFor connect_id (record_of cfg (cw_now w) connect_id owner (lk_provider l) t account)
           | _ \<Rightarrow> Kept)
      | Claims i \<Rightarrow> (case cw_at w i of Claiming r n \<Rightarrow> ClaimedFor i r | _ \<Rightarrow> Kept)
      | Releases i \<Rightarrow> (case cw_at w i of Releasing r \<Rightarrow> ReleasedFor i r | _ \<Rightarrow> Kept)
      | Writes i \<Rightarrow> (case cw_at w i of Writing r t \<Rightarrow> Replaced i r t | _ \<Rightarrow> Kept)
      | DropsRecord i \<Rightarrow>
          (case cw_at w i of
             Unreadable r locked \<Rightarrow> DeletedBy i (cn_owner r) (cn_provider r) (cn_connect_id r) (cn_version r)
           | Ending r rejected \<Rightarrow> DeletedBy i (cn_owner r) (cn_provider r) (cn_connect_id r) (cn_version r)
           | _ \<Rightarrow> Kept)
      | ForgetDeletes i \<Rightarrow>
          (case cw_at w i of Forgetting owner g found \<Rightarrow> DeletedBy i owner (tg_provider g) (tg_connect_id g) (tg_version g) | _ \<Rightarrow> Kept)
      | Removes i \<Rightarrow> (case cw_at w i of Removing r n \<Rightarrow> DeletedBy i (cn_owner r) (cn_provider r) (cn_connect_id r) (cn_version r) | _ \<Rightarrow> Kept)
      | _ \<Rightarrow> Kept)"

lemma rows_change: "cw_rows (connections_do cfg op w) = changed_rows cfg (cw_now w) (change_of cfg op w) (cw_rows w)"
  by (cases op) (auto simp: step_defs conn_simps change_of_def changed_rows_def rotated_def split: step_splits)

abbreviation pair_of :: "connection_row \<Rightarrow> string \<times> string" where
  "pair_of x \<equiv> (cn_owner (cr_record x), cn_provider (cr_record x))"

lemma of_pair_iff: "of_pair owner provider x \<longleftrightarrow> pair_of x = (owner, provider)"
  by (auto simp: of_pair_def)

lemma rotated_simps [conn_simps]:
  "cn_owner (rotated cfg now r t) = cn_owner r" "cn_provider (rotated cfg now r t) = cn_provider r" "cn_connect_id (rotated cfg now r t) = cn_connect_id r"
  "cn_version (rotated cfg now r t) = Suc (cn_version r)"
  by (simp_all add: rotated_def)

lemma upd_where_record:
  "(\<And>x. cr_record (f x) = cr_record x) \<Longrightarrow> x \<in> set rows \<Longrightarrow> \<exists>y \<in> set (upd_where q f rows). cr_record y = cr_record x"
  by (intro bexI [of _ "if q x then f x else x"]) (auto simp: upd_where_def)

lemma renamed_keys:
  assumes "distinct (map k rows)" and "b \<notin> k ` set rows" and q: "\<And>x. q x \<longleftrightarrow> k x = a" and f: "\<And>x. k x = a \<Longrightarrow> k (f x) = b"
  shows "distinct (map k (upd_where q f rows))"
proof -
  have "distinct (map k (upd_where q f rows)) \<and> k ` set (upd_where q f rows) \<subseteq> insert b (k ` set rows - {a})"
    using assms(1,2)
  proof (induction rows)
    case (Cons x rows)
    then have IH: "distinct (map k (upd_where q f rows))" "k ` set (upd_where q f rows) \<subseteq> insert b (k ` set rows - {a})" by auto
    show ?case
    proof (cases "k x = a")
      case True
      then have "upd_where q f rows = rows" using Cons.prems q by (auto simp: upd_where_def image_iff intro!: map_idI)
      moreover have "q x" using True q by simp
      ultimately have e: "upd_where q f (x # rows) = f x # rows" by simp
      show ?thesis unfolding e using Cons.prems True f [OF True] by auto
    next
      case False
      then have "\<not> q x" using q by simp
      then have e: "upd_where q f (x # rows) = x # upd_where q f rows" by simp
      show ?thesis unfolding e using Cons.prems IH False by auto
    qed
  qed simp
  then show ?thesis ..
qed

lemma rows_keyed:
  assumes "distinct (map pair_of rows)"
  shows "distinct (map pair_of (changed_rows cfg now c rows))"
proof -
  have upd: "map pair_of (upd_where q f rows) = map pair_of rows" if "\<And>x. x \<in> set rows \<Longrightarrow> q x \<Longrightarrow> pair_of (f x) = pair_of x" for q f
    using that by (rule upd_where_keeps)
  show ?thesis
  proof (cases c)
    case (SavedFor i r)
    have "distinct (map pair_of (del_where (of_pair (cn_owner r) (cn_provider r)) rows))" using assms by (rule distinct_del_where)
    then show ?thesis using SavedFor by (auto simp: changed_rows_def save_connection_def of_pair_def)
  next
    case (ClaimedFor i r)
    then show ?thesis using assms by (simp add: changed_rows_def claim_refresh_def Let_def upd)
  next
    case (ReleasedFor i r)
    then show ?thesis using assms by (simp add: changed_rows_def release_refresh_def upd)
  next
    case (Replaced i r t)
    have "map pair_of (upd_where (of_credential (cn_owner r) (cn_provider r) (cn_connect_id r) (cn_version r))
        (\<lambda>_. \<lparr>cr_record = rotated cfg now r t, cr_lease_until = None\<rparr>) rows) = map pair_of rows"
      by (rule upd) (auto simp: of_credential_def of_pair_def conn_simps)
    then show ?thesis using assms Replaced by (simp add: changed_rows_def replace_connection_def Let_def conn_simps)
  next
    case (MovedTo owner provider to)
    show ?thesis
    proof (cases "fetchone (of_pair to provider) rows")
      case (Some x)
      then show ?thesis using assms MovedTo by (simp add: changed_rows_def move_connection_def)
    next
      case None
      let ?f = "cr_record_update (cn_owner_update (\<lambda>_. to))"
      have free: "(to, provider) \<notin> pair_of ` set rows" using None by (auto simp: fetchone_None of_pair_def)
      have "distinct (map pair_of (upd_where (of_pair owner provider) ?f rows))"
        by (rule renamed_keys [OF assms free, where a = "(owner, provider)"]) (simp_all add: of_pair_iff)
      then show ?thesis using MovedTo None by (simp add: changed_rows_def move_connection_def)
    qed
  next
    case (DeletedBy i owner provider cid v)
    then show ?thesis using assms by (simp add: changed_rows_def delete_connection_def Let_def distinct_del_where)
  qed (use assms in \<open>simp add: changed_rows_def\<close>)
qed

lemma get_row: "distinct (map pair_of rows) \<Longrightarrow> get_connection owner provider rows = Some r \<longleftrightarrow> (\<exists>x \<in> set rows. pair_of x = (owner, provider) \<and> cr_record x = r)"
proof
  assume d: "distinct (map pair_of rows)" and "\<exists>x \<in> set rows. pair_of x = (owner, provider) \<and> cr_record x = r"
  then obtain x where x: "x \<in> set rows" "pair_of x = (owner, provider)" "cr_record x = r" by blast
  have "fetchone (of_pair owner provider) rows = Some x"
    by (rule fetchone_unique [OF d, where x = "(owner, provider)"]) (use x in \<open>auto simp: of_pair_def\<close>)
  then show "get_connection owner provider rows = Some r" using x by (simp add: get_connection_def)
next
  assume "get_connection owner provider rows = Some r"
  then obtain x where "fetchone (of_pair owner provider) rows = Some x" "cr_record x = r" by (auto simp: get_connection_def)
  then show "\<exists>x \<in> set rows. pair_of x = (owner, provider) \<and> cr_record x = r"
    using fetchone_Some [of "of_pair owner provider" rows x] by (auto simp: of_pair_def)
qed

lemma get_none: "get_connection owner provider rows = None \<longleftrightarrow> (\<forall>x \<in> set rows. pair_of x \<noteq> (owner, provider))"
  by (auto simp: get_connection_def fetchone_None of_pair_def)

text \<open>What becomes of the record of a pair.\<close>

lemma get_changed:
  assumes d: "distinct (map pair_of rows)" and r: "get_connection owner provider rows = Some r"
    and got_is: "got = get_connection owner provider (changed_rows cfg now c rows)"
  shows "got = Some r
    \<or> (\<exists>i s. c = SavedFor i s \<and> cn_owner s = owner \<and> cn_provider s = provider \<and> got = Some s)
    \<or> (\<exists>to. c = MovedTo owner provider to)
    \<or> (\<exists>i s t. c = Replaced i s t \<and> cn_owner s = owner \<and> cn_provider s = provider \<and> same_credential s r \<and> got = Some (rotated cfg now s t))
    \<or> (\<exists>i. c = DeletedBy i owner provider (cn_connect_id r) (cn_version r) \<and> got = None)"
proof -
  obtain x where x: "x \<in> set rows" "pair_of x = (owner, provider)" "cr_record x = r" using r get_row [OF d] by blast
  have d': "distinct (map pair_of (changed_rows cfg now c rows))" using d by (rule rows_keyed)
  have got: "got = Some s" if "y \<in> set (changed_rows cfg now c rows)" "pair_of y = (owner, provider)" "cr_record y = s" for y s
    unfolding got_is using get_row [OF d', of owner provider s] that by blast
  have only: "y = x" if "y \<in> set rows" "pair_of y = (owner, provider)" for y
    using d x that by (metis (mono_tags, lifting) distinct_map inj_onD)
  show ?thesis
  proof (cases c)
    case Kept
    then show ?thesis using r by (simp add: got_is changed_rows_def)
  next
    case (SavedFor i s)
    show ?thesis
    proof (cases "(cn_owner s, cn_provider s) = (owner, provider)")
      case True
      then have "got = Some s" by (intro got [of "\<lparr>cr_record = s, cr_lease_until = None\<rparr>"]) (auto simp: SavedFor changed_rows_def save_connection_def)
      then show ?thesis using SavedFor True by blast
    next
      case False
      then have "x \<in> set (changed_rows cfg now c rows)" using x by (auto simp: SavedFor changed_rows_def save_connection_def of_pair_def)
      then show ?thesis using got x by blast
    qed
  next
    case (ClaimedFor i s)
    have "\<exists>y \<in> set (changed_rows cfg now c rows). cr_record y = cr_record x"
      unfolding ClaimedFor changed_rows_def using x(1) by (simp add: claim_refresh_def Let_def upd_where_record)
    then show ?thesis using got x by (metis fst_conv)
  next
    case (ReleasedFor i s)
    have "\<exists>y \<in> set (changed_rows cfg now c rows). cr_record y = cr_record x"
      unfolding ReleasedFor changed_rows_def using x(1) by (simp add: release_refresh_def Let_def upd_where_record)
    then show ?thesis using got x by (metis fst_conv)
  next
    case (Replaced i s t)
    let ?hit = "of_credential (cn_owner s) (cn_provider s) (cn_connect_id s) (cn_version s)"
    have rows': "changed_rows cfg now c rows = upd_where ?hit (\<lambda>_. \<lparr>cr_record = rotated cfg now s t, cr_lease_until = None\<rparr>) rows"
      by (simp add: Replaced changed_rows_def replace_connection_def Let_def rotated_def)
    show ?thesis
    proof (cases "?hit x")
      case True
      then have "\<lparr>cr_record = rotated cfg now s t, cr_lease_until = None\<rparr> \<in> set (changed_rows cfg now c rows)"
        unfolding rows' using upd_where_hit [of x rows ?hit "\<lambda>_. \<lparr>cr_record = rotated cfg now s t, cr_lease_until = None\<rparr>"] x(1) True by simp
      moreover have "cn_owner s = owner" "cn_provider s = provider" "same_credential s r"
        using True x by (auto simp: of_credential_def of_pair_def same_credential_def)
      ultimately show ?thesis using got Replaced by (auto simp: rotated_def)
    next
      case False
      then have "x \<in> set (changed_rows cfg now c rows)" unfolding rows' using x(1) by (force simp: upd_where_def)
      then show ?thesis using got x by blast
    qed
  next
    case (MovedTo o1 p1 to)
    show ?thesis
    proof (cases "o1 = owner \<and> p1 = provider")
      case False
      then have "x \<in> set (changed_rows cfg now c rows)" using x by (force simp: MovedTo changed_rows_def move_connection_def upd_where_def of_pair_def)
      then show ?thesis using got x by blast
    qed (use MovedTo in blast)
  next
    case (DeletedBy i o1 p1 cid v)
    show ?thesis
    proof (cases "of_credential o1 p1 cid v x")
      case True
      then have e: "o1 = owner" "p1 = provider" "cid = cn_connect_id r" "v = cn_version r" using x by (auto simp: of_credential_def of_pair_def)
      have "got = None" unfolding got_is get_none using only True
        by (auto simp: DeletedBy changed_rows_def delete_connection_def Let_def)
      then show ?thesis using DeletedBy e by blast
    next
      case False
      then have "x \<in> set (changed_rows cfg now c rows)" using x by (simp add: DeletedBy changed_rows_def delete_connection_def Let_def)
      then show ?thesis using got x by blast
    qed
  qed
qed

section \<open>Which records an operation may end\<close>

text \<open>The row a step deletes or replaces is one a coroutine read and acts on.\<close>

lemma change_replaced: "change_of cfg op w = Replaced i r t \<Longrightarrow> op = Writes i \<and> cw_at w i = Writing r t"
  by (cases op) (auto simp: change_of_def split: connection_phase.splits)

lemma change_claimed: "change_of cfg op w = ClaimedFor i r \<Longrightarrow> op = Claims i \<and> (\<exists>n. cw_at w i = Claiming r n)"
  by (cases op) (auto simp: change_of_def split: connection_phase.splits)

lemma change_released: "change_of cfg op w = ReleasedFor i r \<Longrightarrow> op = Releases i \<and> cw_at w i = Releasing r"
  by (cases op) (auto simp: change_of_def split: connection_phase.splits)

lemma change_deleted: "change_of cfg op w = DeletedBy i owner provider cid v \<Longrightarrow> acts_on (cw_at w i) = Some (owner, provider, cid, v)"
  by (cases op) (auto simp: change_of_def split: connection_phase.splits)

lemma change_saved: "change_of cfg op w = SavedFor cid r \<Longrightarrow> \<exists>i l t a previous. op = Saved i cid \<and> cw_at w i = Saving l t a (cn_owner r) previous
    \<and> cn_provider r = lk_provider l \<and> cn_connect_id r = cid \<and> cn_version r = 0 \<and> cn_access_sealed r = cc_seal cfg (tk_access t)"
  by (cases op) (auto simp: change_of_def record_of_def split: connection_phase.splits)

lemma change_moved: "change_of cfg op w = MovedTo owner provider to \<Longrightarrow> op = Moves owner provider to"
  by (cases op) (auto simp: change_of_def split: connection_phase.splits)

text \<open>Whose step an operation is.\<close>

fun mover :: "connection_op \<Rightarrow> nat option" where
  "mover (Ticks t) = None" | "mover (Begins a b c d e) = None" | "mover (Declines a) = None" | "mover (Moves a b c) = None"
| "mover (Finishes i a b) = Some i" | "mover (Asks i a b) = Some i" | "mover (Forgets i a g) = Some i" | "mover (Disconnects i a b) = Some i"
| "mover (Exchanged i a) = Some i" | "mover (Identified i a b c) = Some i" | "mover (LookedUp i) = Some i" | "mover (Saved i a) = Some i"
| "mover (TakesLock i) = Some i" | "mover (Loads i) = Some i" | "mover (Claims i) = Some i" | "mover (Waits i) = Some i" | "mover (Refreshed i a) = Some i"
| "mover (TurnedDown i) = Some i" | "mover (Writes i) = Some i" | "mover (LooksAgain i) = Some i" | "mover (Reloads i) = Some i"
| "mover (DropsRecord i) = Some i" | "mover (ForgetDeletes i) = Some i" | "mover (Seeks i) = Some i" | "mover (Removes i) = Some i"
| "mover (RevokeAnswered i a) = Some i" | "mover (Releases i) = Some i" | "mover (Raised i a) = Some i"

lemma others_stay: "mover op \<noteq> Some j \<Longrightarrow> cw_at (connections_do cfg op w) j = cw_at w j"
  by (cases op) (auto simp: step_defs conn_simps split: step_splits)

text \<open>C32. A connection outlives every operation that began before it: whatever any coroutine of any process does in one
  step, the record of a person's pair stays as it is unless a connect for that pair is saved, it is moved, or a
  coroutine that read exactly this credential ends it or writes its refreshed successor, which keeps the account, the connect and
  its date.\<close>

theorem only_what_was_read_is_ended:
  assumes d: "distinct (map pair_of (cw_rows w))" and r: "get_connection owner provider (cw_rows w) = Some r"
    and got: "got = get_connection owner provider (cw_rows (connections_do cfg op w))"
  shows "got = Some r
    \<or> (\<exists>i cid l t a previous. op = Saved i cid \<and> cw_at w i = Saving l t a owner previous \<and> lk_provider l = provider)
    \<or> (\<exists>to. op = Moves owner provider to)
    \<or> (\<exists>i. acts_on (cw_at w i) = Some (owner, provider, cn_connect_id r, cn_version r)
        \<and> (got = None \<or> (\<exists>s. got = Some s \<and> cn_connect_id s = cn_connect_id r \<and> cn_version s = Suc (cn_version r))))"
  using get_changed [OF d r got [unfolded rows_change]]
proof (elim disjE exE conjE)
  fix i s assume c: "change_of cfg op w = SavedFor i s" "cn_owner s = owner" "cn_provider s = provider"
  obtain k l t a previous where "op = Saved k i" "cw_at w k = Saving l t a owner previous" "lk_provider l = provider"
    using change_saved [OF c(1)] c(2,3) by auto
  then show ?thesis by blast
next
  fix to assume m: "change_of cfg op w = MovedTo owner provider to"
  then show ?thesis using change_moved [OF m] by blast
next
  fix i s t assume c: "change_of cfg op w = Replaced i s t" "cn_owner s = owner" "cn_provider s = provider" "same_credential s r"
    and g: "got = Some (rotated cfg (cw_now w) s t)"
  have "acts_on (cw_at w i) = Some (owner, provider, cn_connect_id r, cn_version r)"
    using change_replaced [OF c(1)] c by (simp add: same_credential_def)
  moreover have "cn_connect_id (rotated cfg (cw_now w) s t) = cn_connect_id r \<and> cn_version (rotated cfg (cw_now w) s t) = Suc (cn_version r)"
    using c(4) by (simp add: conn_simps same_credential_def)
  ultimately show ?thesis using g by blast
next
  fix i assume c: "change_of cfg op w = DeletedBy i owner provider (cn_connect_id r) (cn_version r)" "got = None"
  then show ?thesis using change_deleted [OF c(1)] by blast
qed simp

section \<open>What becomes of the tokens of a connect\<close>

fun issued :: "connection_phase \<Rightarrow> (connection_link \<times> oauth_tokens) option" where
  "issued (Identifying l t) = Some (l, t)"
| "issued (Finding l t a owner) = Some (l, t)"
| "issued (Saving l t a owner previous) = Some (l, t)"
| "issued ph = None"

text \<open>C33. No step of a connect drops the tokens it was issued.  In any step, by whomever, of a state in which a
  connect holds issued tokens: it still holds them; or they are now stored for the provider of the link, the access
  token sealed and the refresh token sealed where there is one, with no lease; or the step asked the provider to end
  them.  One step is excepted, the failing look-up of the connection they replace.  This speaks of each step of the
  connect, not of what later becomes of a stored pair: that one may be replaced by a connect which finishes in between,
  and is then not ended.\<close>

theorem issued_tokens_are_stored_or_ended:
  assumes i: "issued (cw_at w i) = Some (l, t)" and w': "w' = connections_do cfg op w"
    and lookup: "\<forall>a owner down. op = Raised i down \<longrightarrow> cw_at w i \<noteq> Finding l t a owner"
  shows "issued (cw_at w' i) = Some (l, t)
    \<or> (\<exists>x \<in> set (cw_rows w'). cn_provider (cr_record x) = lk_provider l \<and> cn_access_sealed (cr_record x) = cc_seal cfg (tk_access t)
         \<and> cn_refresh_sealed (cr_record x) = (if tk_refresh t \<noteq> [] then cc_seal cfg (tk_refresh t) else []) \<and> cr_lease_until x = None)
    \<or> cw_revoked w' = cw_revoked w @ [(lk_provider l, token_to_revoke t)]"
proof (cases "mover op = Some i")
  case False
  then show ?thesis using i others_stay [of op i cfg w] by (simp add: w')
next
  case True
  have saved: "\<lparr>cr_record = r, cr_lease_until = None\<rparr> \<in> set (save_connection r rows)" for r rows by (simp add: save_connection_def)
  consider (identifying) "cw_at w i = Identifying l t" | (finding) a owner where "cw_at w i = Finding l t a owner"
    | (saving) a owner previous where "cw_at w i = Saving l t a owner previous"
    using i by (cases "cw_at w i") auto
  then show ?thesis
  proof cases
    case identifying
    then show ?thesis using True by (cases op) (auto simp: w' step_defs conn_simps split: step_splits)
  next
    case finding
    then show ?thesis using True lookup by (cases op) (auto simp: w' step_defs conn_simps split: step_splits)
  next
    case saving
    then show ?thesis using True saved
      by (cases op) (auto simp: w' step_defs conn_simps record_of_def intro!: bexI [OF _ saved] split: step_splits)
  qed
qed

section \<open>One refresh at a time\<close>

text \<open>A coroutine that is refreshing a credential: from the claim of its lease until the outcome is written.\<close>

fun refreshing :: "connection_phase \<Rightarrow> connection_record option" where
  "refreshing (Rotating r) = Some r"
| "refreshing (Writing r t) = Some r"
| "refreshing (Turned r) = Some r"
| "refreshing (Releasing r) = Some r"
| "refreshing ph = None"

text \<open>
  What the exclusion rests on: the random id of a connect is none in use, and while a coroutine is refreshing, the
  clock does not pass the lease of the record it refreshes.
\<close>

definition in_use :: "string \<Rightarrow> connections_world \<Rightarrow> bool" where
  "in_use cid w \<longleftrightarrow> (\<exists>x \<in> set (cw_rows w). cn_connect_id (cr_record x) = cid) \<or> (\<exists>j r. record_in_hand (cw_at w j) = Some r \<and> cn_connect_id r = cid)"

definition covered :: "stamp \<Rightarrow> connections_world \<Rightarrow> bool" where
  "covered now w \<longleftrightarrow> (\<forall>j r. refreshing (cw_at w j) = Some r \<longrightarrow>
     (\<forall>x \<in> set (cw_rows w). same_credential (cr_record x) r \<longrightarrow> \<not> lapsed now (cr_lease_until x)))"

definition orderly :: "connection_op \<Rightarrow> connections_world \<Rightarrow> bool" where
  "orderly op w \<longleftrightarrow> (\<forall>i cid. op = Saved i cid \<longrightarrow> \<not> in_use cid w) \<and> (\<forall>t. op = Ticks t \<longrightarrow> covered (iso_second (max t (cw_now w))) w)"

fun orderly_run :: "connections_config \<Rightarrow> connection_op list \<Rightarrow> connections_world \<Rightarrow> bool" where
  "orderly_run cfg [] w \<longleftrightarrow> True"
| "orderly_run cfg (op # ops) w \<longleftrightarrow> orderly op w \<and> orderly_run cfg ops (connections_do cfg op w)"

definition connections_ok :: "connections_world \<Rightarrow> bool" where
  "connections_ok w \<longleftrightarrow>
     distinct (map pair_of (cw_rows w)) \<and> distinct (map (\<lambda>x. cn_connect_id (cr_record x)) (cw_rows w))
     \<and> (\<forall>j r. record_in_hand (cw_at w j) = Some r \<longrightarrow>
          (\<forall>x \<in> set (cw_rows w). cn_connect_id (cr_record x) = cn_connect_id r \<longrightarrow> cn_version r \<le> cn_version (cr_record x)))
     \<and> covered (iso_second (cw_now w)) w
     \<and> (\<forall>i j r s. refreshing (cw_at w i) = Some r \<longrightarrow> refreshing (cw_at w j) = Some s \<longrightarrow> same_credential r s \<longrightarrow> i = j)"

lemma refreshing_read: "refreshing ph = Some r \<Longrightarrow> record_in_hand ph = Some r"
  by (cases ph) auto

lemma get_in: "get_connection owner provider rows = Some r \<Longrightarrow> \<exists>x \<in> set rows. cr_record x = r"
  using fetchone_Some by (fastforce simp: get_connection_def)

text \<open>Where a coroutine's record comes from: it had it, or it reads it from a row in this step, which then changes none.\<close>

lemma records_read:
  assumes "record_in_hand (cw_at (connections_do cfg op w) i) = Some r"
  shows "record_in_hand (cw_at w i) = Some r \<or> change_of cfg op w = Kept \<and> (\<exists>x \<in> set (cw_rows w). cr_record x = r)"
proof (cases "mover op = Some i")
  case False
  then show ?thesis using assms others_stay [of op i cfg w] by simp
next
  case True
  then show ?thesis using assms
    by (cases op) (auto simp: step_defs conn_simps change_of_def dest!: get_in split: step_splits)
qed

lemma refreshing_from:
  assumes "refreshing (cw_at (connections_do cfg op w) i) = Some r"
  shows "refreshing (cw_at w i) = Some r \<or> op = Claims i \<and> (\<exists>n. cw_at w i = Claiming r n)
    \<and> snd (claim_refresh (cn_owner r) (cn_provider r) (cn_connect_id r) (cn_version r) (iso_second (cw_now w)) (seconds_on (cw_now w) (cc_lease cfg)) (cw_rows w))"
proof (cases "mover op = Some i")
  case False
  then show ?thesis using assms others_stay [of op i cfg w] by simp
next
  case True
  then show ?thesis using assms by (cases op) (auto simp: step_defs conn_simps split: step_splits)
qed

lemma clock_change: "cw_now (connections_do cfg op w) = (case op of Ticks t \<Rightarrow> max t (cw_now w) | _ \<Rightarrow> cw_now w)"
  by (cases op) (auto simp: step_defs conn_simps split: step_splits)

lemma claimed_row:
  assumes "snd (claim_refresh owner provider cid v now until rows)"
  shows "\<exists>x \<in> set rows. of_credential owner provider cid v x \<and> lapsed now (cr_lease_until x)"
  using assms rowcount_1_ex by (fastforce simp: claim_refresh_def Let_def)

text \<open>Where a row of the changed table comes from.\<close>

definition changed_row :: "connections_config \<Rightarrow> int \<Rightarrow> row_change \<Rightarrow> connection_row \<Rightarrow> connection_row" where
  "changed_row cfg now c x =
     (case c of
        ClaimedFor i r \<Rightarrow>
          if of_credential (cn_owner r) (cn_provider r) (cn_connect_id r) (cn_version r) x \<and> lapsed (iso_second now) (cr_lease_until x)
          then x\<lparr>cr_lease_until := Some (seconds_on now (cc_lease cfg))\<rparr> else x
      | ReleasedFor i r \<Rightarrow> if of_credential (cn_owner r) (cn_provider r) (cn_connect_id r) (cn_version r) x then x\<lparr>cr_lease_until := None\<rparr> else x
      | Replaced i r t \<Rightarrow>
          if of_credential (cn_owner r) (cn_provider r) (cn_connect_id r) (cn_version r) x then \<lparr>cr_record = rotated cfg now r t, cr_lease_until = None\<rparr> else x
      | _ \<Rightarrow> x)"

lemma row_from:
  assumes "x \<in> set (changed_rows cfg now c rows)"
  shows "(\<exists>i r. c = SavedFor i r \<and> x = \<lparr>cr_record = r, cr_lease_until = None\<rparr>)
    \<or> (\<exists>x0 \<in> set rows. x = changed_row cfg now c x0
        \<or> (\<exists>owner provider to. c = MovedTo owner provider to \<and> x = cr_record_update (cn_owner_update (\<lambda>_. to)) x0))"
proof (cases c)
  case (ClaimedFor i r)
  have "\<exists>x0 \<in> set rows. x = changed_row cfg now c x0"
    using assms in_upd_where by (fastforce simp: ClaimedFor changed_rows_def claim_refresh_def Let_def changed_row_def)
  then show ?thesis by blast
next
  case (ReleasedFor i r)
  have "\<exists>x0 \<in> set rows. x = changed_row cfg now c x0"
    using assms in_upd_where by (fastforce simp: ReleasedFor changed_rows_def release_refresh_def changed_row_def)
  then show ?thesis by blast
next
  case (Replaced i r t)
  have "\<exists>x0 \<in> set rows. x = changed_row cfg now c x0"
    using assms in_upd_where by (fastforce simp: Replaced changed_rows_def replace_connection_def Let_def changed_row_def conn_simps)
  then show ?thesis by blast
next
  case (MovedTo owner provider to)
  have "\<exists>x0 \<in> set rows. x = changed_row cfg now c x0 \<or> x = cr_record_update (cn_owner_update (\<lambda>_. to)) x0"
    using assms by (fastforce simp: MovedTo changed_rows_def move_connection_def changed_row_def dest!: in_upd_where split: if_splits)
  then show ?thesis using MovedTo by blast
next
  case (SavedFor i r)
  then show ?thesis using assms by (auto simp: changed_rows_def save_connection_def changed_row_def)
next
  case (DeletedBy i owner provider cid v)
  then show ?thesis using assms by (auto simp: changed_rows_def delete_connection_def Let_def changed_row_def)
qed (use assms in \<open>auto simp: changed_rows_def changed_row_def\<close>)

lemma changed_row_credential:
  "cn_connect_id (cr_record (changed_row cfg now c x)) = cn_connect_id (cr_record x)"
  "cn_version (cr_record x) \<le> cn_version (cr_record (changed_row cfg now c x))"
  by (auto simp: changed_row_def of_credential_def conn_simps split: row_change.splits)

lemma connects_keyed:
  assumes "distinct (map (\<lambda>x. cn_connect_id (cr_record x)) rows)" and "\<And>i r x. c = SavedFor i r \<Longrightarrow> x \<in> set rows \<Longrightarrow> cn_connect_id (cr_record x) \<noteq> cn_connect_id r"
  shows "distinct (map (\<lambda>x. cn_connect_id (cr_record x)) (changed_rows cfg now c rows))"
proof (cases c)
  case (SavedFor i r)
  have "cn_connect_id (cr_record x) \<noteq> cn_connect_id r" if "x \<in> set rows" for x using assms(2) [OF SavedFor that] .
  then show ?thesis using SavedFor assms(1) by (fastforce simp: changed_rows_def save_connection_def distinct_del_where)
next
  case (ClaimedFor i r)
  then show ?thesis using assms(1) by (simp add: changed_rows_def claim_refresh_def Let_def upd_where_keeps)
next
  case (ReleasedFor i r)
  then show ?thesis using assms(1) by (simp add: changed_rows_def release_refresh_def upd_where_keeps)
next
  case (Replaced i r t)
  have "map (\<lambda>x. cn_connect_id (cr_record x)) (upd_where (of_credential (cn_owner r) (cn_provider r) (cn_connect_id r) (cn_version r))
      (\<lambda>_. \<lparr>cr_record = rotated cfg now r t, cr_lease_until = None\<rparr>) rows) = map (\<lambda>x. cn_connect_id (cr_record x)) rows"
    by (rule upd_where_keeps) (auto simp: of_credential_def conn_simps)
  then show ?thesis using assms(1) Replaced by (simp add: changed_rows_def replace_connection_def Let_def conn_simps)
next
  case (MovedTo owner provider to)
  then show ?thesis using assms(1) by (auto simp: changed_rows_def move_connection_def upd_where_keeps)
next
  case (DeletedBy i owner provider cid v)
  then show ?thesis using assms(1) by (simp add: changed_rows_def delete_connection_def Let_def distinct_del_where)
qed (use assms in \<open>simp add: changed_rows_def\<close>)

lemma orderly_saves:
  assumes "orderly op w" and "change_of cfg op w = SavedFor i r"
  shows "\<not> in_use (cn_connect_id r) w"
  using change_saved [OF assms(2)] assms(1) by (auto simp: orderly_def)

lemma reads_are_not_newer:
  assumes ok: "connections_ok w" and o: "orderly op w" and read: "record_in_hand (cw_at (connections_do cfg op w) j) = Some r"
    and x: "x \<in> set (cw_rows (connections_do cfg op w))" and same: "cn_connect_id (cr_record x) = cn_connect_id r"
  shows "cn_version r \<le> cn_version (cr_record x)"
proof -
  have bound: "cn_version r \<le> cn_version (cr_record x0)" if "x0 \<in> set (cw_rows w)" "cn_connect_id (cr_record x0) = cn_connect_id r" "record_in_hand (cw_at w j) = Some r" for x0
    using ok that unfolding connections_ok_def by blast
  have keyed: "distinct (map (\<lambda>x. cn_connect_id (cr_record x)) (cw_rows w))" using ok by (simp add: connections_ok_def)
  from records_read [OF read] show ?thesis
  proof
    assume old: "record_in_hand (cw_at w j) = Some r"
    from row_from [OF x [unfolded rows_change]] show ?thesis
    proof (elim disjE exE bexE conjE)
      fix i s assume c: "change_of cfg op w = SavedFor i s" "x = \<lparr>cr_record = s, cr_lease_until = None\<rparr>"
      then have "in_use (cn_connect_id s) w" using old same by (auto simp: in_use_def)
      then show ?thesis using orderly_saves [OF o c(1)] by blast
    next
      fix x0 assume x0: "x0 \<in> set (cw_rows w)" "x = changed_row cfg (cw_now w) (change_of cfg op w) x0"
      then have "cn_version r \<le> cn_version (cr_record x0)" using bound old same by (simp add: changed_row_credential)
      then show ?thesis using x0(2) changed_row_credential(2) le_trans by blast
    next
      fix x0 to assume "x0 \<in> set (cw_rows w)" "x = cr_record_update (cn_owner_update (\<lambda>_. to)) x0"
      then show ?thesis using bound [of x0] old same by simp
    qed
  next
    assume "change_of cfg op w = Kept \<and> (\<exists>y \<in> set (cw_rows w). cr_record y = r)"
    then obtain y where y: "y \<in> set (cw_rows w)" "cr_record y = r" and "cw_rows (connections_do cfg op w) = cw_rows w"
      by (auto simp: rows_change changed_rows_def)
    then have "x = y" using keyed x same by (auto simp: distinct_map inj_on_def)
    then show ?thesis using y by simp
  qed
qed

lemma stays_covered:
  assumes ok: "connections_ok w" and o: "orderly op w" and lease: "0 < cc_lease cfg"
  shows "covered (iso_second (cw_now (connections_do cfg op w))) (connections_do cfg op w)"
  unfolding covered_def
proof (intro allI impI ballI)
  fix j r x
  assume j: "refreshing (cw_at (connections_do cfg op w) j) = Some r" and x: "x \<in> set (cw_rows (connections_do cfg op w))"
    and same: "same_credential (cr_record x) r"
  let ?now = "cw_now (connections_do cfg op w)"
  have keyed: "distinct (map (\<lambda>x. cn_connect_id (cr_record x)) (cw_rows w))" using ok by (simp add: connections_ok_def)
  have unlapsed: "\<not> lapsed (iso_second ?now) (cr_lease_until x0)" if "refreshing (cw_at w j) = Some r" "x0 \<in> set (cw_rows w)" "same_credential (cr_record x0) r" for x0
  proof -
    have "covered (iso_second ?now) w" using ok o unfolding clock_change by (auto simp: connections_ok_def orderly_def split: connection_op.splits)
    then show ?thesis using that unfolding covered_def by blast
  qed
  from refreshing_from [OF j] show "\<not> lapsed (iso_second ?now) (cr_lease_until x)"
  proof
    assume old: "refreshing (cw_at w j) = Some r"
    from row_from [OF x [unfolded rows_change]] show ?thesis
    proof (elim disjE exE bexE conjE)
      fix i s assume c: "change_of cfg op w = SavedFor i s" "x = \<lparr>cr_record = s, cr_lease_until = None\<rparr>"
      then have "in_use (cn_connect_id s) w" using refreshing_read [OF old] same by (auto simp: in_use_def same_credential_def)
      then show ?thesis using orderly_saves [OF o c(1)] by blast
    next
      fix x0 to assume "x0 \<in> set (cw_rows w)" "x = cr_record_update (cn_owner_update (\<lambda>_. to)) x0"
      then show ?thesis using unlapsed [OF old, of x0] same by (simp add: same_credential_def)
    next
      fix x0 assume x0: "x0 \<in> set (cw_rows w)" "x = changed_row cfg (cw_now w) (change_of cfg op w) x0"
      have now: "?now = cw_now w" if "change_of cfg op w \<noteq> Kept" using that unfolding clock_change by (auto simp: change_of_def split: connection_op.splits)
      show ?thesis
      proof (cases "x = x0")
        case True
        then show ?thesis using unlapsed [OF old x0(1)] same by simp
      next
        case False
        then consider (claim) i s where "change_of cfg op w = ClaimedFor i s" "lapsed (iso_second (cw_now w)) (cr_lease_until x0)" "cr_record x = cr_record x0"
          | (release) i s where "change_of cfg op w = ReleasedFor i s" "same_credential (cr_record x0) s" "cr_record x = cr_record x0"
          | (replace) i s t where "change_of cfg op w = Replaced i s t" "cn_version (cr_record x) = Suc (cn_version s)" "same_credential (cr_record x0) s"
              "cn_connect_id (cr_record x) = cn_connect_id (cr_record x0)"
          using x0(2) by (auto simp: changed_row_def of_credential_def same_credential_def conn_simps split: row_change.splits if_splits)
        then show ?thesis
        proof cases
          case claim
          then have "same_credential (cr_record x0) r" using same by simp
          then show ?thesis using unlapsed [OF old x0(1)] now claim(1,2) by simp
        next
          case release
          note r = change_released [OF release(1)]
          have "same_credential s r" using release(2,3) same by (simp add: same_credential_def)
          then have "i = j" using ok old r by (fastforce simp: connections_ok_def)
          then have "refreshing (cw_at (connections_do cfg op w) j) = None" using r by (simp add: step_defs conn_simps)
          then show ?thesis using j by simp
        next
          case replace
          have "cn_version r \<le> cn_version (cr_record x0)"
            using ok refreshing_read [OF old] x0(1) same replace(4) by (auto simp: connections_ok_def same_credential_def)
          then show ?thesis using replace same by (simp add: same_credential_def)
        qed
      qed
    qed
  next
    assume new: "op = Claims j \<and> (\<exists>n. cw_at w j = Claiming r n)
      \<and> snd (claim_refresh (cn_owner r) (cn_provider r) (cn_connect_id r) (cn_version r) (iso_second (cw_now w)) (seconds_on (cw_now w) (cc_lease cfg)) (cw_rows w))"
    then obtain x1 where x1: "x1 \<in> set (cw_rows w)" "of_credential (cn_owner r) (cn_provider r) (cn_connect_id r) (cn_version r) x1" "lapsed (iso_second (cw_now w)) (cr_lease_until x1)"
      using claimed_row by blast
    have c: "change_of cfg op w = ClaimedFor j r" using new by (auto simp: change_of_def)
    obtain x0 where x0: "x0 \<in> set (cw_rows w)" "x = changed_row cfg (cw_now w) (change_of cfg op w) x0"
      using row_from [OF x [unfolded rows_change]] c by auto
    have "cn_connect_id (cr_record x0) = cn_connect_id (cr_record x1)" using x1(2) same x0(2) by (auto simp: same_credential_def of_credential_def changed_row_credential)
    then have "x0 = x1" using keyed x0(1) x1(1) by (auto simp: distinct_map inj_on_def)
    then have "cr_lease_until x = Some (seconds_on (cw_now w) (cc_lease cfg))" using x0(2) x1 c by (simp add: changed_row_def)
    moreover have "?now = cw_now w" unfolding clock_change using new by simp
    moreover have "iso_second (cw_now w) < seconds_on (cw_now w) (cc_lease cfg)" using lease by (simp add: seconds_on_def iso_second_def instant_def)
    ultimately show ?thesis by (simp add: lapsed_def)
  qed
qed

lemma stays_exclusive:
  assumes ok: "connections_ok w" and i: "refreshing (cw_at (connections_do cfg op w) i) = Some r"
    and j: "refreshing (cw_at (connections_do cfg op w) j) = Some s" and same: "same_credential r s"
  shows "i = j"
proof -
  have claim: "k = l" if l: "refreshing (cw_at w l) = Some q" "same_credential q p" "op = Claims k"
    and won: "snd (claim_refresh (cn_owner p) (cn_provider p) (cn_connect_id p) (cn_version p) (iso_second (cw_now w)) (seconds_on (cw_now w) (cc_lease cfg)) (cw_rows w))" for k l p q
  proof -
    obtain x where x: "x \<in> set (cw_rows w)" "of_credential (cn_owner p) (cn_provider p) (cn_connect_id p) (cn_version p) x" "lapsed (iso_second (cw_now w)) (cr_lease_until x)"
      using claimed_row [OF won] by blast
    then have "same_credential (cr_record x) q" using l(2) by (simp add: of_credential_def same_credential_def)
    then have False using ok l(1) x unfolding connections_ok_def covered_def by blast
    then show ?thesis ..
  qed
  have sym: "same_credential s r" using same by (simp add: same_credential_def)
  consider "refreshing (cw_at w i) = Some r" "refreshing (cw_at w j) = Some s" | "op = Claims i" "op = Claims j"
    | "op = Claims i" "refreshing (cw_at w j) = Some s" | "op = Claims j" "refreshing (cw_at w i) = Some r"
    using refreshing_from [OF i] refreshing_from [OF j] by blast
  then show ?thesis
  proof cases
    case 1
    then show ?thesis using ok same unfolding connections_ok_def by blast
  next
    case 2
    then show ?thesis by simp
  next
    case 3
    show ?thesis
    proof (cases "refreshing (cw_at w i) = Some r")
      case True
      then show ?thesis using 3 ok same unfolding connections_ok_def by blast
    next
      case False
      then show ?thesis using refreshing_from [OF i] claim [OF 3(2) sym 3(1)] by blast
    qed
  next
    case 4
    show ?thesis
    proof (cases "refreshing (cw_at w j) = Some s")
      case True
      then show ?thesis using 4 ok same unfolding connections_ok_def by blast
    next
      case False
      then show ?thesis using refreshing_from [OF j] claim [OF 4(2) same 4(1)] by blast
    qed
  qed
qed

lemma connections_ok_step:
  assumes ok: "connections_ok w" and o: "orderly op w" and lease: "0 < cc_lease cfg"
  shows "connections_ok (connections_do cfg op w)"
proof -
  let ?w = "connections_do cfg op w"
  have "distinct (map pair_of (cw_rows ?w))" using ok unfolding rows_change connections_ok_def by (blast intro: rows_keyed)
  moreover have "distinct (map (\<lambda>x. cn_connect_id (cr_record x)) (cw_rows ?w))"
    unfolding rows_change
  proof (rule connects_keyed)
    show "distinct (map (\<lambda>x. cn_connect_id (cr_record x)) (cw_rows w))" using ok by (simp add: connections_ok_def)
    show "cn_connect_id (cr_record x) \<noteq> cn_connect_id r" if "change_of cfg op w = SavedFor i r" "x \<in> set (cw_rows w)" for i r x
      using orderly_saves [OF o that(1)] that(2) by (auto simp: in_use_def)
  qed
  moreover have "\<forall>j r. record_in_hand (cw_at ?w j) = Some r \<longrightarrow> (\<forall>x \<in> set (cw_rows ?w). cn_connect_id (cr_record x) = cn_connect_id r \<longrightarrow> cn_version r \<le> cn_version (cr_record x))"
    using reads_are_not_newer [OF ok o] by blast
  moreover have "\<forall>i j r s. refreshing (cw_at ?w i) = Some r \<longrightarrow> refreshing (cw_at ?w j) = Some s \<longrightarrow> same_credential r s \<longrightarrow> i = j"
    using stays_exclusive [OF ok] by blast
  ultimately show ?thesis using stays_covered [OF ok o lease] unfolding connections_ok_def by blast
qed

lemma connections_ok_run: "connections_ok w \<Longrightarrow> 0 < cc_lease cfg \<Longrightarrow> orderly_run cfg ops w \<Longrightarrow> connections_ok (fold (connections_do cfg) ops w)"
  by (induction ops arbitrary: w) (auto intro: connections_ok_step)

lemma no_connections_ok: "connections_ok (no_connections now)"
  by (simp add: connections_ok_def no_connections_def covered_def)

text \<open>C31. However the coroutines of all processes interleave, connects, moves, refreshes, disconnects and failures among them,
  at most one is refreshing a credential at a time, so a refresh token that is good once is sent by one only; and what
  it was answered is written, unless the connection was ended, replaced or moved meanwhile.\<close>

theorem one_refresh_at_a_time:
  assumes lease: "0 < cc_lease cfg" and run: "orderly_run cfg ops (no_connections start)" and w: "w = fold (connections_do cfg) ops (no_connections start)"
  shows "(refreshing (cw_at w i) = Some r \<and> refreshing (cw_at w j) = Some s \<and> same_credential r s \<longrightarrow> i = j)
    \<and> (cw_at w i = Writing r t \<and> (\<exists>x \<in> set (cw_rows w). of_pair (cn_owner r) (cn_provider r) x \<and> same_credential (cr_record x) r)
        \<longrightarrow> get_connection (cn_owner r) (cn_provider r) (cw_rows (connections_do cfg (Writes i) w)) = Some (rotated cfg (cw_now w) r t))"
proof -
  have ok: "connections_ok w" unfolding w using no_connections_ok lease run by (rule connections_ok_run)
  have "get_connection (cn_owner r) (cn_provider r) (cw_rows (connections_do cfg (Writes i) w)) = Some (rotated cfg (cw_now w) r t)"
    if i: "cw_at w i = Writing r t" and x: "x \<in> set (cw_rows w)" "of_pair (cn_owner r) (cn_provider r) x" "same_credential (cr_record x) r" for x
  proof -
    have d: "distinct (map pair_of (cw_rows w))" using ok by (simp add: connections_ok_def)
    have c: "change_of cfg (Writes i) w = Replaced i r t" using i by (simp add: change_of_def)
    have "\<lparr>cr_record = rotated cfg (cw_now w) r t, cr_lease_until = None\<rparr> \<in> set (cw_rows (connections_do cfg (Writes i) w))"
      unfolding rows_change c changed_rows_def
      using upd_where_hit [of x "cw_rows w" "of_credential (cn_owner r) (cn_provider r) (cn_connect_id r) (cn_version r)"
          "\<lambda>_. \<lparr>cr_record = rotated cfg (cw_now w) r t, cr_lease_until = None\<rparr>"] x
      by (simp add: replace_connection_def Let_def conn_simps of_credential_def same_credential_def)
    moreover have "distinct (map pair_of (cw_rows (connections_do cfg (Writes i) w)))" unfolding rows_change by (rule rows_keyed [OF d])
    ultimately show ?thesis by (subst get_row) (force simp: conn_simps)+
  qed
  then show ?thesis using ok unfolding connections_ok_def by blast
qed

section \<open>Whose a grant is\<close>

text \<open>Whose token a coroutine was asked for.\<close>

fun asked_for :: "connection_phase \<Rightarrow> (string \<times> string) option" where
  "asked_for (Queued owner provider) = Some (owner, provider)"
| "asked_for (Removing r n) = None"
| "asked_for (Unreadable r locked) = None"
| "asked_for ph = lock_of ph"

lemma get_pair: "get_connection owner provider rows = Some r \<Longrightarrow> cn_owner r = owner \<and> cn_provider r = provider"
  using fetchone_Some by (fastforce simp: get_connection_def of_pair_def)

lemma get_replaced:
  assumes d: "distinct (map pair_of rows)" and won: "snd (replace_connection (rotated cfg now r t) (cn_version r) rows)"
  shows "get_connection (cn_owner r) (cn_provider r) (fst (replace_connection (rotated cfg now r t) (cn_version r) rows)) = Some (rotated cfg now r t)"
proof -
  obtain x where x: "x \<in> set rows" "of_credential (cn_owner r) (cn_provider r) (cn_connect_id r) (cn_version r) x"
    using won rowcount_1_ex by (fastforce simp: replace_connection_def Let_def conn_simps)
  have d': "distinct (map pair_of (changed_rows cfg now (Replaced 0 r t) rows))" using d by (rule rows_keyed)
  have "\<lparr>cr_record = rotated cfg now r t, cr_lease_until = None\<rparr> \<in> set (fst (replace_connection (rotated cfg now r t) (cn_version r) rows))"
    using upd_where_hit [of x rows "of_credential (cn_owner r) (cn_provider r) (cn_connect_id r) (cn_version r)"
        "\<lambda>_. \<lparr>cr_record = rotated cfg now r t, cr_lease_until = None\<rparr>"] x
    by (simp add: replace_connection_def Let_def conn_simps)
  then show ?thesis using d' by (subst get_row) (force simp: conn_simps changed_rows_def)+
qed

text \<open>A token is given only to the coroutine of the person it is of: what it is given is, at that very moment, the record kept
  for the pair it asked for, with the token sealed in it; and through all its waiting that pair stays the one it asked for.\<close>

lemma a_grant_is_its_persons:
  assumes d: "distinct (map pair_of (cw_rows w))" and w': "w' = connections_do cfg op w"
  shows "(cw_ends w' = cw_ends w @ [(i, Given g)] \<longrightarrow>
      (\<exists>owner provider r. (op = Asks i owner provider \<or> asked_for (cw_at w i) = Some (owner, provider))
        \<and> get_connection owner provider (cw_rows w') = Some r
        \<and> g = grant_of r (case cc_open cfg (cn_access_sealed r) of None \<Rightarrow> [] | Some t \<Rightarrow> t)))
    \<and> (asked_for (cw_at w' i) = Some (owner, provider) \<longrightarrow> op = Asks i owner provider \<or> asked_for (cw_at w i) = Some (owner, provider))"
proof (intro conjI impI)
  assume e: "cw_ends w' = cw_ends w @ [(i, Given g)]"
  show "\<exists>owner provider r. (op = Asks i owner provider \<or> asked_for (cw_at w i) = Some (owner, provider))
      \<and> get_connection owner provider (cw_rows w') = Some r
      \<and> g = grant_of r (case cc_open cfg (cn_access_sealed r) of None \<Rightarrow> [] | Some t \<Rightarrow> t)"
  proof (cases "op = Writes i")
    case True
    obtain r t where at: "cw_at w i = Writing r t"
      using e True by (cases "cw_at w i") (auto simp: w' step_defs)
    obtain rows won where rep: "replace_connection (rotated cfg (cw_now w) r t) (cn_version r) (cw_rows w) = (rows, won)" by fastforce
    have won: won using e True at rep by (cases won) (auto simp: w' step_defs conn_simps)
    then have "cw_rows w' = rows \<and> g = grant_of (rotated cfg (cw_now w) r t)
        (case cc_open cfg (cn_access_sealed (rotated cfg (cw_now w) r t)) of None \<Rightarrow> [] | Some t \<Rightarrow> t)"
      using e True at rep by (simp add: w' step_defs conn_simps)
    moreover have "get_connection (cn_owner r) (cn_provider r) rows = Some (rotated cfg (cw_now w) r t)"
      using get_replaced [OF d, of cfg "cw_now w" r t] rep won by simp
    ultimately show ?thesis using at by auto
  next
    case False
    then show ?thesis using e by (cases op) (auto simp: w' step_defs conn_simps split: step_splits)
  qed
next
  assume a: "asked_for (cw_at w' i) = Some (owner, provider)"
  show "op = Asks i owner provider \<or> asked_for (cw_at w i) = Some (owner, provider)"
  proof (cases "mover op = Some i")
    case True
    then show ?thesis using a
      by (cases op; cases "cw_at w i") (auto simp: w' step_defs conn_simps dest!: get_pair split: step_splits)
  next
    case False
    then show ?thesis using a others_stay [of op i cfg w] by (simp add: w')
  qed
qed

section \<open>Every operation ends\<close>

fun loading_rank :: "connections_config \<Rightarrow> nat \<Rightarrow> nat" where
  "loading_rank cfg 0 = 8"
| "loading_rank cfg (Suc n) = loading_rank cfg n + cc_polls cfg + 10"

fun rank :: "connections_config \<Rightarrow> connection_phase \<Rightarrow> nat" where
  "rank cfg Away = 0"
| "rank cfg (Exchanging l v) = 6"
| "rank cfg (Identifying l t) = 5"
| "rank cfg (Finding l t a owner) = 4"
| "rank cfg (Saving l t a owner previous) = 3"
| "rank cfg (Revoking (ThenReloads owner provider)) = 3"
| "rank cfg (Revoking after) = 1"
| "rank cfg (Queued owner provider) = Suc (loading_rank cfg 2)"
| "rank cfg (Loading owner provider n) = loading_rank cfg n"
| "rank cfg (Claiming r n) = loading_rank cfg n + cc_polls cfg + 2"
| "rank cfg (Waiting r n m) = loading_rank cfg n + m + 1"
| "rank cfg (Rotating r) = 6"
| "rank cfg (Writing r t) = 5"
| "rank cfg (Overtaken r t) = 4"
| "rank cfg (Turned r) = 2"
| "rank cfg (Unreadable r locked) = 1"
| "rank cfg (Ending r rejected) = 1"
| "rank cfg (Reloading owner provider) = 2"
| "rank cfg (Forgetting owner g found) = 2"
| "rank cfg (Seeking owner provider n) = 2 + 2 * n"
| "rank cfg (Removing r n) = 3 + 2 * n"
| "rank cfg (Releasing r) = 1"

lemma loading_rank_pos: "8 \<le> loading_rank cfg n"
  by (induction n) auto

lemma rank_simps:
  "k < 8 \<Longrightarrow> k < loading_rank cfg n" "k < 8 \<Longrightarrow> k < Suc (loading_rank cfg n + m)" "k < 8 \<Longrightarrow> k < Suc (Suc (loading_rank cfg n + m))"
  "0 < rank cfg (Revoking a)" "loading_rank cfg 2 = loading_rank cfg (Suc (Suc 0))"
proof -
  show "k < 8 \<Longrightarrow> k < loading_rank cfg n" "k < 8 \<Longrightarrow> k < Suc (loading_rank cfg n + m)" "k < 8 \<Longrightarrow> k < Suc (Suc (loading_rank cfg n + m))"
    using loading_rank_pos [of cfg n] by linarith+
  show "0 < rank cfg (Revoking a)" by (cases a) simp_all
  show "loading_rank cfg 2 = loading_rank cfg (Suc (Suc 0))" by (simp only: numeral_2_eq_2)
qed

lemma rank_falls:
  assumes "cw_at w i \<noteq> Away" and "cw_at (connections_do cfg op w) i \<noteq> cw_at w i"
  shows "rank cfg (cw_at (connections_do cfg op w) i) < rank cfg (cw_at w i)"
proof (cases "mover op = Some i")
  case False
  then show ?thesis using assms others_stay [of op i cfg w] by simp
next
  case True
  then show ?thesis using assms
    by (cases op) (auto simp: step_defs conn_simps rank_simps split: step_splits)
qed

text \<open>A lock that is held is held by a coroutine of that process, at work on that connection.\<close>

definition locks_held :: "connections_config \<Rightarrow> connections_world \<Rightarrow> bool" where
  "locks_held cfg w \<longleftrightarrow> (\<forall>k. cw_locked w k \<longrightarrow> (\<exists>i. cc_process cfg i = fst k \<and> lock_of (cw_at w i) = Some (snd k)))"

lemma locked_simps:
  "cw_locked (ends_with cfg i e w)
    = (case lock_of (cw_at w i) of None \<Rightarrow> cw_locked w | Some (o1, p) \<Rightarrow> (cw_locked w)((cc_process cfg i, o1, p) := False))"
  "cw_locked (ends_noted cfg i ev r a p end w) = cw_locked (ends_with cfg i end w)"
  "cw_locked (connect_ends cfg i l owner account w) = cw_locked (ends_with cfg i Raises w)"
  "cw_locked (gives_grant cfg i rec w) = cw_locked (ends_with cfg i Raises w)"
  by (auto simp: ends_with_def ends_noted_def gives_grant_def connect_ends_def Let_def conn_simps split: option.splits)

lemma locked_step:
  assumes "cw_locked (connections_do cfg op w) k" and "mover op = Some i"
  shows "cc_process cfg i = fst k \<and> lock_of (cw_at (connections_do cfg op w) i) = Some (snd k)
    \<or> cw_locked w k \<and> (cc_process cfg i \<noteq> fst k \<or> lock_of (cw_at w i) \<noteq> Some (snd k))"
  using assms by (cases op; cases "cw_at w i") (auto simp: step_defs conn_simps locked_simps dest: get_pair split: step_splits)

lemma locked_still: "mover op = None \<Longrightarrow> cw_locked (connections_do cfg op w) = cw_locked w"
  by (cases op) (auto simp: step_defs conn_simps split: step_splits)

lemma locks_held_step: "locks_held cfg w \<Longrightarrow> locks_held cfg (connections_do cfg op w)"
  unfolding locks_held_def
proof (intro allI impI)
  fix k assume h: "\<forall>k. cw_locked w k \<longrightarrow> (\<exists>i. cc_process cfg i = fst k \<and> lock_of (cw_at w i) = Some (snd k))" and k: "cw_locked (connections_do cfg op w) k"
  show "\<exists>i. cc_process cfg i = fst k \<and> lock_of (cw_at (connections_do cfg op w) i) = Some (snd k)"
  proof (cases "mover op")
    case None
    then have "cw_at (connections_do cfg op w) j = cw_at w j" for j by (intro others_stay) simp
    moreover have "cw_locked w k" using k locked_still [OF None] by simp
    ultimately show ?thesis using h by (cases k) simp
  next
    case (Some i)
    from locked_step [OF k Some] show ?thesis
    proof
      assume "cw_locked w k \<and> (cc_process cfg i \<noteq> fst k \<or> lock_of (cw_at w i) \<noteq> Some (snd k))"
      then obtain j where j: "cc_process cfg j = fst k" "lock_of (cw_at w j) = Some (snd k)" "j \<noteq> i" using h by blast
      then show ?thesis using others_stay [of op j cfg w] Some by auto
    qed blast
  qed
qed

lemma locks_held_run: "locks_held cfg (fold (connections_do cfg) ops (no_connections start))"
proof -
  have "locks_held cfg w \<Longrightarrow> locks_held cfg (fold (connections_do cfg) ops w)" for w
    by (induction ops arbitrary: w) (auto intro: locks_held_step)
  moreover have "locks_held cfg (no_connections start)" by (simp add: locks_held_def no_connections_def)
  ultimately show ?thesis .
qed

text \<open>The step a coroutine waits for.\<close>

fun next_op :: "nat \<Rightarrow> connection_phase \<Rightarrow> connection_op" where
  "next_op i Away = Ticks 0"
| "next_op i (Exchanging l v) = Exchanged i None"
| "next_op i (Identifying l t) = Identified i \<lparr>pa_id = [], pa_username = [], pa_name = [], pa_email = [], pa_extra = []\<rparr> True []"
| "next_op i (Finding l t a owner) = LookedUp i"
| "next_op i (Saving l t a owner previous) = Saved i []"
| "next_op i (Revoking after) = RevokeAnswered i True"
| "next_op i (Queued owner provider) = TakesLock i"
| "next_op i (Loading owner provider n) = Loads i"
| "next_op i (Claiming r n) = Claims i"
| "next_op i (Waiting r n m) = Waits i"
| "next_op i (Rotating r) = Refreshed i None"
| "next_op i (Writing r t) = Writes i"
| "next_op i (Overtaken r t) = LooksAgain i"
| "next_op i (Turned r) = TurnedDown i"
| "next_op i (Unreadable r locked) = DropsRecord i"
| "next_op i (Ending r rejected) = DropsRecord i"
| "next_op i (Reloading owner provider) = Reloads i"
| "next_op i (Forgetting owner g found) = ForgetDeletes i"
| "next_op i (Seeking owner provider n) = Seeks i"
| "next_op i (Removing r n) = Removes i"
| "next_op i (Releasing r) = Releases i"

lemma next_op_moves:
  assumes "cw_at w i \<noteq> Away" and "\<And>owner provider. cw_at w i = Queued owner provider \<Longrightarrow> \<not> cw_locked w (cc_process cfg i, owner, provider)"
  shows "mover (next_op i (cw_at w i)) = Some i \<and> cw_at (connections_do cfg (next_op i (cw_at w i)) w) i \<noteq> cw_at w i"
  using assms by (cases "cw_at w i") (auto simp: step_defs conn_simps split: step_splits)

text \<open>C34. Nothing waits for ever: every step of an operation brings it nearer its end, by a measure that starts below a bound, and one that
  has begun can take its next step, or waits for the lock of a coroutine of its process that can take its own.\<close>

theorem every_operation_ends:
  assumes w: "w = fold (connections_do cfg) ops (no_connections start)" and i: "cw_at w i \<noteq> Away"
  shows "(cw_at (connections_do cfg op w) i \<noteq> cw_at w i \<longrightarrow> rank cfg (cw_at (connections_do cfg op w) i) < rank cfg (cw_at w i))
    \<and> (\<exists>j. (j = i \<or> (\<exists>owner provider. cw_at w i = Queued owner provider \<and> lock_of (cw_at w j) = Some (owner, provider) \<and> cc_process cfg j = cc_process cfg i))
        \<and> rank cfg (cw_at (connections_do cfg (next_op j (cw_at w j)) w) j) < rank cfg (cw_at w j))"
proof -
  have goes: "rank cfg (cw_at (connections_do cfg (next_op j (cw_at w j)) w) j) < rank cfg (cw_at w j)"
    if "cw_at w j \<noteq> Away" "\<And>owner provider. cw_at w j = Queued owner provider \<Longrightarrow> \<not> cw_locked w (cc_process cfg j, owner, provider)" for j
    using next_op_moves [OF that] that(1) by (intro rank_falls) auto
  show ?thesis
  proof (cases "\<exists>owner provider. cw_at w i = Queued owner provider \<and> cw_locked w (cc_process cfg i, owner, provider)")
    case True
    then obtain owner provider where q: "cw_at w i = Queued owner provider" "cw_locked w (cc_process cfg i, owner, provider)" by blast
    then obtain j where j: "cc_process cfg j = cc_process cfg i" "lock_of (cw_at w j) = Some (owner, provider)"
      using locks_held_run [of cfg ops start] w by (fastforce simp: locks_held_def)
    then have "rank cfg (cw_at (connections_do cfg (next_op j (cw_at w j)) w) j) < rank cfg (cw_at w j)" by (intro goes) auto
    then show ?thesis using q j rank_falls [OF i] by blast
  next
    case False
    then have "rank cfg (cw_at (connections_do cfg (next_op i (cw_at w i)) w) i) < rank cfg (cw_at w i)" using i by (intro goes) auto
    then show ?thesis using rank_falls [OF i] by blast
  qed
qed

section \<open>A link is finished once\<close>

definition finish_attempt :: "connections_config \<Rightarrow> nat \<times> string \<times> string option \<Rightarrow> connections_world \<Rightarrow> connections_world \<times> bool" where
  "finish_attempt cfg c w = (case c of (i, state, owner) \<Rightarrow> (finish_goes cfg i state owner w, snd (take_link (cc_digest cfg state) (cw_links w)) \<noteq> None))"

definition link_waits :: "connections_config \<Rightarrow> string \<Rightarrow> connections_world \<Rightarrow> bool" where
  "link_waits cfg state w \<longleftrightarrow> (\<exists>l \<in> set (cw_links w). lk_state_digest l = cc_digest cfg state)"

lemma take_link_facts:
  "take_link d links = (rest, found) \<Longrightarrow> set rest = {l \<in> set links. lk_state_digest l \<noteq> d}
    \<and> (case found of None \<Rightarrow> \<forall>l \<in> set links. lk_state_digest l \<noteq> d | Some l \<Rightarrow> l \<in> set links \<and> lk_state_digest l = d)"
  by (auto simp: take_link_def fetchone_None split: option.splits dest!: fetchone_Some)

lemma finish_links: "set (cw_links (finish_goes cfg i state owner w)) = {l \<in> set (cw_links w). lk_state_digest l \<noteq> cc_digest cfg state}"
  using take_link_facts [of "cc_digest cfg state" "cw_links w"] by (auto simp: finish_goes_def Let_def conn_simps split: prod.splits option.splits bool.splits)

interpretation links: single_winner "finish_attempt cfg" "\<lambda>c. fst (snd c)" "link_waits cfg" for cfg
proof unfold_locales
  fix c w w' assume a: "finish_attempt cfg c w = (w', True)"
  then show "link_waits cfg (fst (snd c)) w"
  proof -
    obtain i state owner where c: "c = (i, state, owner)" by (cases c)
    obtain rest found where t: "take_link (cc_digest cfg state) (cw_links w) = (rest, found)" by fastforce
    then obtain l where "found = Some l" using a by (auto simp: finish_attempt_def c)
    then show ?thesis using take_link_facts [OF t] by (auto simp: link_waits_def c)
  qed
  show "\<not> link_waits cfg (fst (snd c)) w'" using a finish_links by (auto simp: finish_attempt_def link_waits_def split: prod.splits)
next
  fix state c w w' won assume "\<not> link_waits cfg state w" "finish_attempt cfg c w = (w', won)"
  then show "\<not> link_waits cfg state w'" using finish_links by (auto simp: finish_attempt_def link_waits_def split: prod.splits)
qed

text \<open>Of all who come back with one state at most one finishes its connect; it goes to the provider only before the link's time is over, only
  for the person it was started for where the application knows who came back, and with the verifier kept for it.\<close>

lemma a_link_connects_once:
  shows "wins (\<lambda>c. fst (snd c)) state cs (snd (run_attempts (finish_attempt cfg) cs w)) \<le> 1
    \<and> (cw_at w i = Away \<and> cw_at (finish_goes cfg i state owner w) i = Exchanging l v \<longrightarrow>
        l \<in> set (cw_links w) \<and> lk_state_digest l = cc_digest cfg state \<and> cw_now w < instant (lk_expires_at l)
        \<and> (owner = None \<or> owner = Some (lk_owner l)) \<and> cc_open cfg (lk_verifier_sealed l) = Some v
        \<and> \<not> link_waits cfg state (finish_goes cfg i state owner w))"
proof -
  have "l \<in> set (cw_links w) \<and> lk_state_digest l = cc_digest cfg state \<and> cw_now w < instant (lk_expires_at l)
        \<and> (owner = None \<or> owner = Some (lk_owner l)) \<and> cc_open cfg (lk_verifier_sealed l) = Some v"
    if "cw_at w i = Away" "cw_at (finish_goes cfg i state owner w) i = Exchanging l v"
    using that take_link_facts [of "cc_digest cfg state" "cw_links w"]
    by (auto simp: finish_goes_def Let_def conn_simps split: prod.splits option.splits bool.splits if_splits)
  then show ?thesis using links.at_most_one_winner [of state cs cfg w] finish_links by (auto simp: link_waits_def)
qed

section \<open>Instances\<close>

definition sample_connections :: connections_config where
  "sample_connections = \<lparr>cc_providers = {''gl''}, cc_seal = (\<lambda>s. CHR ''#'' # s), cc_open = (\<lambda>s. case s of [] \<Rightarrow> None | c # cs \<Rightarrow> Some cs), cc_digest = id,
     cc_link_ttl = 600, cc_skew = 60, cc_lease = 45, cc_polls = 90, cc_process = id\<rparr>"

definition tokens_of :: "string \<Rightarrow> oauth_tokens" where
  "tokens_of s = \<lparr>tk_access = ''a'' @ s, tk_refresh = ''r'' @ s, tk_expires_in = Some 30, tk_scope = []\<rparr>"

definition sample_account :: provider_account where
  "sample_account = \<lparr>pa_id = ''1'', pa_username = ''ann'', pa_name = [], pa_email = [], pa_extra = []\<rparr>"

definition sample_old_grant :: token_grant where
  "sample_old_grant = \<lparr>tg_provider = ''gl'', tg_token = ''a0'', tg_account = sample_account, tg_connect_id = ''c0'', tg_version = 0\<rparr>"

definition connects :: "nat \<Rightarrow> string \<Rightarrow> connection_op list" where
  "connects i s = [Begins s ''v'' ''u'' ''gl'' [], Finishes i s None, Exchanged i (Some (tokens_of s)), Identified i sample_account False [], LookedUp i]"

definition refreshes :: "nat \<Rightarrow> connection_op list" where
  "refreshes i = [Asks i ''u'' ''gl'', TakesLock i, Loads i, Claims i]"

definition after :: "connections_config \<Rightarrow> connection_op list \<Rightarrow> connections_world" where
  "after cfg ops = fold (connections_do cfg) ops (no_connections 0)"

definition sample_link :: connection_link where
  "sample_link = \<lparr>lk_state_digest = ''1'', lk_owner = ''u'', lk_provider = ''gl'', lk_verifier_sealed = ''#v'', lk_expires_at = 600, lk_return_to = []\<rparr>"

lemmas sample_connection_defs = sample_connections_def tokens_of_def sample_account_def sample_old_grant_def connects_def refreshes_def after_def no_connections_def

text \<open>A 401 of an old grant, answered after the person has connected again.\<close>

lemma only_what_was_read_is_ended_witness:
  fixes w :: connections_world
  defines "w \<equiv> after sample_connections (connects 0 ''1'' @ [Saved 0 ''c1'', Forgets 2 ''u'' sample_old_grant])"
  shows "get_connection ''u'' ''gl'' (cw_rows (connections_do sample_connections (ForgetDeletes 2) w)) = get_connection ''u'' ''gl'' (cw_rows w)
    \<and> get_connection ''u'' ''gl'' (cw_rows w) \<noteq> None"
proof -
  obtain r where r: "get_connection ''u'' ''gl'' (cw_rows w) = Some r" "cn_connect_id r = ''c1''" "distinct (map pair_of (cw_rows w))"
    and at: "cw_at w = (\<lambda>_. Away)(0 := Away, 2 := Forgetting ''u'' sample_old_grant (get_connection ''u'' ''gl'' (cw_rows w)))"
    unfolding w_def by (simp add: sample_connection_defs step_defs conn_simps put_link_def take_link_def fetchone_def del_where_def save_connection_def get_connection_def
        of_pair_def record_of_def seconds_on_def iso_second_def instant_def)
  have none: "acts_on (cw_at w i) \<noteq> Some (''u'', ''gl'', cn_connect_id r, cn_version r)" for i by (simp add: at r sample_old_grant_def)
  show ?thesis using only_what_was_read_is_ended [OF r(3,1) refl, of sample_connections "ForgetDeletes 2"] none r(1) by auto
qed

lemma issued_tokens_are_stored_or_ended_witness:
  fixes w :: connections_world
  defines "w \<equiv> after sample_connections (connects 0 ''1'')"
  shows "(''gl'', ''r1'') \<in> set (cw_revoked (connections_do sample_connections (Raised 0 True) w))"
proof -
  have i: "issued (cw_at w 0) = Some (sample_link, tokens_of ''1'')" unfolding w_def by code_simp
  have over: "issued (cw_at (connections_do sample_connections (Raised 0 True) w) 0) = None \<and> cw_rows (connections_do sample_connections (Raised 0 True) w) = []"
    unfolding w_def by code_simp
  have "cw_at w 0 = Saving sample_link (tokens_of ''1'') sample_account ''u'' None" unfolding w_def by code_simp
  then show ?thesis
    using issued_tokens_are_stored_or_ended [OF i refl, of "Raised 0 True" sample_connections] over
    by (auto simp: sample_link_def token_to_revoke_def tokens_of_def)
qed

lemma every_operation_ends_witness:
  "\<exists>j. rank sample_connections (cw_at (connections_do sample_connections (next_op j (cw_at (after sample_connections (connects 0 ''1'')) j))
      (after sample_connections (connects 0 ''1''))) j) < rank sample_connections (cw_at (after sample_connections (connects 0 ''1'')) j)"
proof -
  have "cw_at (after sample_connections (connects 0 ''1'')) 0 \<noteq> Away" by code_simp
  then show ?thesis using every_operation_ends [of "after sample_connections (connects 0 ''1'')" sample_connections "connects 0 ''1''" 0 0 "Ticks 0"]
    by (auto simp: after_def)
qed

lemma a_grant_is_its_persons_witness:
  fixes w :: connections_world
  defines "w \<equiv> after (sample_connections\<lparr>cc_skew := 0\<rparr>) (connects 0 ''1'' @ [Saved 0 ''c1''])"
  defines "w' \<equiv> connections_do (sample_connections\<lparr>cc_skew := 0\<rparr>) (Asks 1 ''u'' ''gl'') w"
  shows "\<exists>g r. cw_ends w' = cw_ends w @ [(1, Given g)] \<and> tg_token g = ''a1'' \<and> get_connection ''u'' ''gl'' (cw_rows w') = Some r \<and> cn_connect_id r = tg_connect_id g"
proof -
  define g where "g = \<lparr>tg_provider = ''gl'', tg_token = ''a1'', tg_account = sample_account, tg_connect_id = ''c1'', tg_version = 0\<rparr>"
  have e: "cw_ends w' = cw_ends w @ [(1, Given g)]" unfolding w'_def w_def g_def by code_simp
  have d: "distinct (map pair_of (cw_rows w))" unfolding w_def by code_simp
  have away: "cw_at w 1 = Away" unfolding w_def by code_simp
  have "tg_token g = ''a1''" by (simp add: g_def)
  moreover obtain r where "get_connection ''u'' ''gl'' (cw_rows w') = Some r" "cn_connect_id r = tg_connect_id g"
    using a_grant_is_its_persons [OF d w'_def [THEN meta_eq_to_obj_eq], of 1 g "''u''" "''gl''"] e(1) away by (auto simp: grant_of_def)
  ultimately show ?thesis using e by blast
qed

lemma others_stay_run: "(\<And>op. op \<in> set ops \<Longrightarrow> mover op \<noteq> Some j) \<Longrightarrow> cw_at (fold (connections_do cfg) ops w) j = cw_at w j"
  by (induction ops arbitrary: w) (simp_all add: others_stay)

lemma orderly_run_append: "orderly_run cfg (ops @ ops') w \<longleftrightarrow> orderly_run cfg ops w \<and> orderly_run cfg ops' (fold (connections_do cfg) ops w)"
  by (induction ops arbitrary: w) auto

lemma orderly_run_plain: "(\<And>op. op \<in> set ops \<Longrightarrow> (\<forall>i cid. op \<noteq> Saved i cid) \<and> (\<forall>t. op \<noteq> Ticks t)) \<Longrightarrow> orderly_run cfg ops w"
  by (induction ops arbitrary: w) (auto simp: orderly_def)

lemma one_refresh_at_a_time_witness:
  fixes w :: connections_world
  defines "w \<equiv> after sample_connections (connects 0 ''1'' @ Saved 0 ''c1'' # refreshes 1 @ [Refreshed 1 (Some (tokens_of ''2''))])"
  shows "map_option cn_version (get_connection ''u'' ''gl'' (cw_rows w)) = Some 0
    \<and> map_option cn_version (get_connection ''u'' ''gl'' (cw_rows (connections_do sample_connections (Writes 1) w))) = Some 1"
proof -
  let ?ops = "connects 0 ''1'' @ Saved 0 ''c1'' # refreshes 1 @ [Refreshed 1 (Some (tokens_of ''2''))]"
  let ?w5 = "fold (connections_do sample_connections) (connects 0 ''1'') (no_connections 0)"
  have away: "cw_at ?w5 j = Away" if "j \<noteq> 0" for j
  proof -
    have "cw_at ?w5 j = cw_at (no_connections 0) j" using that by (intro others_stay_run) (auto simp: connects_def)
    moreover have "cw_at (no_connections 0) j = Away" by (simp add: no_connections_def)
    ultimately show ?thesis by (simp only:)
  qed
  have "record_in_hand (cw_at ?w5 0) = None" "cw_rows ?w5 = []" by code_simp+
  moreover have "record_in_hand (cw_at ?w5 j) = None" if "j \<noteq> 0" for j using away [OF that] by simp
  ultimately have "\<not> in_use ''c1'' ?w5" unfolding in_use_def by (metis empty_iff empty_set option.distinct(1))
  then have "orderly (Saved 0 ''c1'') ?w5" by (auto simp: orderly_def)
  moreover have "orderly_run sample_connections (connects 0 ''1'') (no_connections 0)" by (rule orderly_run_plain) (auto simp: connects_def)
  moreover have "orderly_run sample_connections (refreshes 1 @ [Refreshed 1 (Some (tokens_of ''2''))]) u" for u
    by (rule orderly_run_plain) (auto simp: refreshes_def)
  ultimately have run: "orderly_run sample_connections ?ops (no_connections 0)" by (simp add: orderly_run_append)
  define r where "r = record_of sample_connections 0 ''c1'' ''u'' ''gl'' (tokens_of ''1'') sample_account"
  have at: "cw_at w 1 = Writing r (tokens_of ''2'')" unfolding w_def r_def by code_simp
  have there: "\<exists>x \<in> set (cw_rows w). of_pair (cn_owner r) (cn_provider r) x \<and> same_credential (cr_record x) r"
    unfolding w_def r_def by code_simp
  have v: "map_option cn_version (get_connection ''u'' ''gl'' (cw_rows w)) = Some 0" unfolding w_def by code_simp
  have lease: "0 < cc_lease sample_connections" by (simp add: sample_connections_def)
  have "get_connection (cn_owner r) (cn_provider r) (cw_rows (connections_do sample_connections (Writes 1) w)) = Some (rotated sample_connections (cw_now w) r (tokens_of ''2''))"
    using one_refresh_at_a_time [OF lease run, of w 1 r 1 r "tokens_of ''2''"] at there by (simp add: w_def after_def)
  then show ?thesis using v by (simp add: r_def record_of_def rotated_def)
qed

section \<open>What the code does besides\<close>

text \<open>A connection moved while it is being refreshed: the new pair is ended at the provider, the record is left with
  the refresh token that has been used.\<close>

lemma moved_while_refreshing:
  "let w = after sample_connections (connects 0 ''1'' @ Saved 0 ''c1'' # refreshes 1 @ [Refreshed 1 (Some (tokens_of ''2'')), Moves ''u'' ''gl'' ''x'', Writes 1, LooksAgain 1])
   in map_option cn_refresh_sealed (get_connection ''x'' ''gl'' (cw_rows w)) = Some ''#r1'' \<and> cw_revoked w = [(''gl'', ''r2'')]"
  by code_simp

text \<open>Two connects of one person that finish together: the pair of the first is replaced, and nobody ends it.\<close>

lemma replaced_pair_is_not_ended:
  "let w = after sample_connections (connects 0 ''1'' @ connects 1 ''2'' @ [Saved 0 ''c1'', Saved 1 ''c2''])
   in map_option cn_refresh_sealed (get_connection ''u'' ''gl'' (cw_rows w)) = Some ''#r2'' \<and> cw_revoked w = [] \<and> cw_at w 0 = Away \<and> cw_at w 1 = Away"
  by code_simp

text \<open>The look-up of what a connect replaces fails: its pair is neither stored nor ended.\<close>

lemma failed_look_up_drops_the_pair:
  "let w = after sample_connections (take 4 (connects 0 ''1'') @ [Raised 0 True]) in cw_rows w = [] \<and> cw_revoked w = [] \<and> cw_at w 0 = Away"
  by code_simp

text \<open>A refresh that fails after its lease has run out ends the lease of whoever has it now, and a third may refresh beside them.\<close>

lemma late_failure_ends_anothers_lease:
  "let w = after sample_connections (connects 0 ''1'' @ Saved 0 ''c1'' # refreshes 1 @ Ticks 46000000 # refreshes 2 @ [Raised 1 True, Releases 1] @ refreshes 3)
   in cw_at w 2 = cw_at w 3 \<and> refreshing (cw_at w 2) \<noteq> None \<and> cw_now w = 46000000"
  by code_simp

text \<open>A refresh that is turned down because the person has connected again, in a process that has not the key the new record is sealed with,
  gives a grant with no token, where a record that does not open is otherwise no connection.\<close>

lemma unreadable_grant_is_empty:
  "let cfg = sample_connections\<lparr>cc_open := (\<lambda>s. if s = ''#a2'' then None else cc_open sample_connections s)\<rparr>;
       w = after cfg (connects 0 ''1'' @ Saved 0 ''c1'' # refreshes 1 @ connects 2 ''2'' @ [Saved 2 ''c2'', Refreshed 1 None, TurnedDown 1])
   in (case last (cw_ends w) of (i, Given g) \<Rightarrow> i = 1 \<and> tg_token g = [] \<and> tg_connect_id g = ''c2'' | _ \<Rightarrow> False)"
  by code_simp

end
