(* ===== verification/PiPool.thy ===== *)
theory PiPool
  imports Approvals "HOL-Library.Product_Lexorder"
begin

text \<open>
  The runtime's processes, their slots and their proofs: \<open>packages/crucible/src/crucible/runtimes/pi/runtime.py\<close> and
  \<open>packages/crucible/src/crucible/tools/proofs.py\<close>.

  A coroutine of the runtime (a turn, the reaper, a reload, a cancellation, a reset) is at a phase, the place of the
  await it stands at; every part from one await to the next is a definition, and any other coroutine may run between
  two.  What starts and stops a process, how a prompt ends, and a profile's digest are inputs.  The order in which a
  semaphore or a lock serves its queue is left open: whoever finds it free takes it.
\<close>

section \<open>The pool\<close>

record managed =
  mg_key :: string
  mg_agent :: string
  mg_created_at :: int
  mg_fingerprint :: string
  mg_last_used :: int
  mg_busy :: bool
  mg_proof :: nat

text \<open>What a turn asks for; no key is a run without memory.\<close>

record turn_ask =
  ta_key :: "string option"
  ta_agent :: string
  ta_fingerprint :: string

text \<open>A session taken out of the pool keeps its permits until its process is closed: the phases that close one hold it.\<close>

datatype pool_phase =
    Idle
  | AwaitsTurn turn_ask | ClosesOld turn_ask managed | AwaitsAgentSlot turn_ask | RoomForAgent turn_ask managed
  | AwaitsSlot turn_ask | RoomForAll turn_ask managed | Spawns turn_ask nat | Prompts turn_ask | ClosesBroken turn_ask managed
  | ClosesOneshot turn_ask
  | SweepCloses managed "string list"
  | Cancels string bool | CancelCloses managed string bool | AwaitsReset string | ResetCloses string managed

text \<open>
  \<open>pl_locked\<close> is the conversations' locks, \<open>pl_proofs\<close> the book of \<open>SessionProofBook\<close> (a proof is a number no other has),
  \<open>pl_memory\<close> the conversations with memory on disk, which a prompt writes and only a reset removes, and \<open>pl_left\<close>, kept
  for the statements only, the agents of the processes whose close was cut short: told to end, and nobody waits for it.
\<close>

record pool =
  pl_sessions :: "managed list"
  pl_free :: nat
  pl_agent_free :: "string \<Rightarrow> nat"
  pl_locked :: "string \<Rightarrow> bool"
  pl_waiting :: nat
  pl_now :: int
  pl_proofs :: "string \<Rightarrow> nat option"
  pl_next_proof :: nat
  pl_memory :: "string \<Rightarrow> bool"
  pl_at :: "pool_phase list"
  pl_left :: "string list"

record pool_config =
  pc_capacity :: nat
  pc_per_agent :: nat
  pc_evict :: bool
  pc_idle_ttl :: int

definition bounded :: "pool_config \<Rightarrow> bool" where
  "bounded cfg \<longleftrightarrow> pc_per_agent cfg > 0"

definition with_key :: "string \<Rightarrow> managed \<Rightarrow> bool" where
  "with_key k m \<longleftrightarrow> mg_key m = k"

definition session_of :: "string \<Rightarrow> pool \<Rightarrow> managed option" where
  "session_of k p = fetchone (with_key k) (pl_sessions p)"

definition goes_to :: "nat \<Rightarrow> pool_phase \<Rightarrow> pool \<Rightarrow> pool" where
  "goes_to i ph p = p\<lparr>pl_at := (pl_at p)[i := ph]\<rparr>"

text \<open>\<open>SessionProofBook\<close>: a fresh proof for a session, the old one gone with it; none; and whether one is the current one.\<close>

definition issue_proof :: "string \<Rightarrow> pool \<Rightarrow> pool" where
  "issue_proof k p = p\<lparr>pl_proofs := (pl_proofs p)(k \<mapsto> pl_next_proof p), pl_next_proof := Suc (pl_next_proof p)\<rparr>"

definition revoke_proof :: "string \<Rightarrow> pool \<Rightarrow> pool" where
  "revoke_proof k p = p\<lparr>pl_proofs := (pl_proofs p)(k := None)\<rparr>"

definition verify_proof :: "string \<Rightarrow> nat \<Rightarrow> pool \<Rightarrow> bool" where
  "verify_proof k s p \<longleftrightarrow> pl_proofs p k = Some s"

text \<open>\<open>_drop_session\<close> up to its await: the session leaves the pool and its proof the book.\<close>

definition take_out :: "string \<Rightarrow> pool \<Rightarrow> pool" where
  "take_out k p = revoke_proof k (p\<lparr>pl_sessions := del_where (with_key k) (pl_sessions p)\<rparr>)"

definition unlock :: "turn_ask \<Rightarrow> pool \<Rightarrow> pool" where
  "unlock a p = (case ta_key a of None \<Rightarrow> p | Some k \<Rightarrow> p\<lparr>pl_locked := (pl_locked p)(k := False)\<rparr>)"

definition release_permits :: "pool_config \<Rightarrow> string \<Rightarrow> pool \<Rightarrow> pool" where
  "release_permits cfg agent p =
     (let p1 = p\<lparr>pl_free := Suc (pl_free p)\<rparr> in
      if bounded cfg then p1\<lparr>pl_agent_free := (pl_agent_free p)(agent := Suc (pl_agent_free p agent))\<rparr> else p1)"

text \<open>\<open>_close_session\<close> after its await: the proof of the conversation is revoked once more, and the permits are given back.\<close>

definition process_closed :: "pool_config \<Rightarrow> managed \<Rightarrow> pool \<Rightarrow> pool" where
  "process_closed cfg m p = release_permits cfg (mg_agent m) (revoke_proof (mg_key m) p)"

definition last_seen :: "managed \<Rightarrow> int" where
  "last_seen m = (if mg_last_used m \<noteq> 0 then mg_last_used m else mg_created_at m)"

text \<open>\<open>_make_room\<close>: the session longest unused that has no turn and no turn about to start, by time and then by key.\<close>

definition evictable :: "string option \<Rightarrow> pool \<Rightarrow> managed list" where
  "evictable agent p =
     filter (\<lambda>m. (case agent of None \<Rightarrow> True | Some a \<Rightarrow> mg_agent m = a) \<and> \<not> mg_busy m \<and> \<not> pl_locked p (mg_key m)) (pl_sessions p)"

definition room_victim :: "pool_config \<Rightarrow> string option \<Rightarrow> pool \<Rightarrow> managed option" where
  "room_victim cfg agent p =
     (if \<not> pc_evict cfg then None
      else case sort_key (\<lambda>m. (last_seen m, mg_key m)) (evictable agent p) of [] \<Rightarrow> None | m # ms \<Rightarrow> Some m)"

definition stale_keys :: "pool_config \<Rightarrow> pool \<Rightarrow> string list" where
  "stale_keys cfg p = map mg_key (filter (\<lambda>m. \<not> mg_busy m \<and> last_seen m < pl_now p - pc_idle_ttl cfg) (pl_sessions p))"

definition reload_keys :: "string \<Rightarrow> pool \<Rightarrow> string list" where
  "reload_keys agent p = map mg_key (filter (\<lambda>m. starts_with (agent @ ''--'') (mg_key m) \<and> \<not> mg_busy m) (pl_sessions p))"

text \<open>\<open>Semaphore.locked\<close>: no permit is free, or someone already queues for one.\<close>

definition agent_slots_taken :: "string \<Rightarrow> pool \<Rightarrow> bool" where
  "agent_slots_taken agent p \<longleftrightarrow>
     pl_agent_free p agent = 0 \<or> (\<exists>ph \<in> set (pl_at p). case ph of AwaitsAgentSlot a \<Rightarrow> ta_agent a = agent | _ \<Rightarrow> False)"

definition slots_taken :: "pool \<Rightarrow> bool" where
  "slots_taken p \<longleftrightarrow> pl_free p = 0 \<or> (\<exists>ph \<in> set (pl_at p). case ph of AwaitsSlot a \<Rightarrow> True | _ \<Rightarrow> False)"

section \<open>A turn\<close>

definition ends_turn :: "nat \<Rightarrow> turn_ask \<Rightarrow> pool \<Rightarrow> pool" where
  "ends_turn i a p = goes_to i Idle (unlock a p)"

text \<open>\<open>_acquire\<close>: the agent's own permit first, then one of all; before it waits for either, a session is taken out to make room.\<close>

definition awaits_all :: "pool_config \<Rightarrow> nat \<Rightarrow> turn_ask \<Rightarrow> pool \<Rightarrow> pool" where
  "awaits_all cfg i a p =
     (if \<not> slots_taken p then goes_to i (AwaitsSlot a) p
      else case room_victim cfg None p of None \<Rightarrow> goes_to i (AwaitsSlot a) p | Some m \<Rightarrow> goes_to i (RoomForAll a m) (take_out (mg_key m) p))"

definition acquires :: "pool_config \<Rightarrow> nat \<Rightarrow> turn_ask \<Rightarrow> pool \<Rightarrow> pool" where
  "acquires cfg i a p =
     (let p1 = p\<lparr>pl_waiting := Suc (pl_waiting p)\<rparr> in
      if \<not> bounded cfg then awaits_all cfg i a p1
      else if \<not> agent_slots_taken (ta_agent a) p then goes_to i (AwaitsAgentSlot a) p1
      else case room_victim cfg (Some (ta_agent a)) p1 of
        None \<Rightarrow> goes_to i (AwaitsAgentSlot a) p1 | Some m \<Rightarrow> goes_to i (RoomForAgent a m) (take_out (mg_key m) p1))"

definition got_agent_slot :: "pool_config \<Rightarrow> nat \<Rightarrow> turn_ask \<Rightarrow> pool \<Rightarrow> pool" where
  "got_agent_slot cfg i a p =
     (if pl_agent_free p (ta_agent a) = 0 then p
      else awaits_all cfg i a (p\<lparr>pl_agent_free := (pl_agent_free p)(ta_agent a := pl_agent_free p (ta_agent a) - 1)\<rparr>))"

text \<open>With both permits the process is started; \<open>_spawn_session\<close> has the proof issued before its first await.\<close>

definition got_slot :: "nat \<Rightarrow> turn_ask \<Rightarrow> pool \<Rightarrow> pool" where
  "got_slot i a p =
     (if pl_free p = 0 then p
      else let p1 = p\<lparr>pl_free := pl_free p - 1, pl_waiting := pl_waiting p - 1\<rparr> in
        goes_to i (Spawns a (pl_next_proof p))
          (case ta_key a of None \<Rightarrow> p1\<lparr>pl_next_proof := Suc (pl_next_proof p)\<rparr> | Some k \<Rightarrow> issue_proof k p1))"

definition prompts :: "nat \<Rightarrow> turn_ask \<Rightarrow> pool \<Rightarrow> pool" where
  "prompts i a p =
     (case ta_key a of
        None \<Rightarrow> goes_to i (Prompts a) p
      | Some k \<Rightarrow>
          goes_to i (Prompts a)
            (p\<lparr>pl_sessions := upd_where (with_key k) (mg_busy_update (\<lambda>_. True)) (pl_sessions p), pl_memory := (pl_memory p)(k := True)\<rparr>))"

text \<open>\<open>run_stateful\<close> and \<open>run_stateless\<close> are called; with the conversation's lock, a process of another profile is closed first.\<close>

definition turn_comes :: "pool_config \<Rightarrow> nat \<Rightarrow> turn_ask \<Rightarrow> pool \<Rightarrow> pool" where
  "turn_comes cfg i a p = (case ta_key a of None \<Rightarrow> acquires cfg i a p | Some k \<Rightarrow> goes_to i (AwaitsTurn a) p)"

definition turn_begins :: "pool_config \<Rightarrow> nat \<Rightarrow> turn_ask \<Rightarrow> string \<Rightarrow> pool \<Rightarrow> pool" where
  "turn_begins cfg i a k p =
     (if pl_locked p k then p
      else let p1 = p\<lparr>pl_locked := (pl_locked p)(k := True)\<rparr> in
        case session_of k p of
          None \<Rightarrow> acquires cfg i a p1
        | Some m \<Rightarrow>
            if mg_fingerprint m \<noteq> ta_fingerprint a then goes_to i (ClosesOld a m) (take_out k p1)
            else prompts i a p1)"

definition new_managed :: "string \<Rightarrow> turn_ask \<Rightarrow> nat \<Rightarrow> pool \<Rightarrow> managed" where
  "new_managed k a s p =
     \<lparr>mg_key = k, mg_agent = ta_agent a, mg_created_at = pl_now p, mg_fingerprint = ta_fingerprint a, mg_last_used = 0, mg_busy = False,
      mg_proof = s\<rparr>"

definition process_started :: "nat \<Rightarrow> turn_ask \<Rightarrow> nat \<Rightarrow> pool \<Rightarrow> pool" where
  "process_started i a s p =
     (case ta_key a of
        None \<Rightarrow> prompts i a p
      | Some k \<Rightarrow> prompts i a (p\<lparr>pl_sessions := del_where (with_key k) (pl_sessions p) @ [new_managed k a s p]\<rparr>))"

datatype prompt_end = Answered | Broke | OtherError

text \<open>A prompt ends: answered; with a timeout or an error of the process, which drops the session; or with anything else.\<close>

definition prompt_ends :: "nat \<Rightarrow> turn_ask \<Rightarrow> prompt_end \<Rightarrow> pool \<Rightarrow> pool" where
  "prompt_ends i a how p =
     (case ta_key a of
        None \<Rightarrow> goes_to i (ClosesOneshot a) p
      | Some k \<Rightarrow>
          let p1 = p\<lparr>pl_sessions := upd_where (with_key k) (mg_busy_update (\<lambda>_. False)) (pl_sessions p)\<rparr> in
          (case how of
             Answered \<Rightarrow> ends_turn i a (p1\<lparr>pl_sessions := upd_where (with_key k) (mg_last_used_update (\<lambda>_. pl_now p)) (pl_sessions p1)\<rparr>)
           | OtherError \<Rightarrow> ends_turn i a p1
           | Broke \<Rightarrow>
               (case session_of k p1 of
                  None \<Rightarrow> ends_turn i a p1 | Some m \<Rightarrow> goes_to i (ClosesBroken a m) (take_out k p1))))"

section \<open>Sweeps, cancellations and resets\<close>

text \<open>A sweep, of the reaper, of a reload or of the shutdown, drops the sessions it listed one after the other.\<close>

fun sweep_goes :: "nat \<Rightarrow> string list \<Rightarrow> pool \<Rightarrow> pool" where
  "sweep_goes i [] p = goes_to i Idle p"
| "sweep_goes i (k # ks) p =
     (case session_of k p of None \<Rightarrow> sweep_goes i ks p | Some m \<Rightarrow> goes_to i (SweepCloses m ks) (take_out k p))"

text \<open>\<open>cancel\<close>, by itself or as the first thing of a \<open>reset\<close>: a turn that does not end in its grace loses its session.\<close>

definition after_cancel :: "nat \<Rightarrow> string \<Rightarrow> bool \<Rightarrow> pool \<Rightarrow> pool" where
  "after_cancel i k reset p = goes_to i (if reset then AwaitsReset k else Idle) p"

definition cancel_comes :: "nat \<Rightarrow> string \<Rightarrow> bool \<Rightarrow> pool \<Rightarrow> pool" where
  "cancel_comes i k reset p =
     (case session_of k p of
        None \<Rightarrow> after_cancel i k reset p
      | Some m \<Rightarrow> if mg_busy m then goes_to i (Cancels k reset) p else after_cancel i k reset p)"

definition cancel_ends :: "nat \<Rightarrow> string \<Rightarrow> bool \<Rightarrow> bool \<Rightarrow> pool \<Rightarrow> pool" where
  "cancel_ends i k reset ended p =
     (if ended then after_cancel i k reset p
      else case session_of k p of None \<Rightarrow> after_cancel i k reset p | Some m \<Rightarrow> goes_to i (CancelCloses m k reset) (take_out k p))"

definition forget_memory :: "string \<Rightarrow> pool \<Rightarrow> pool" where
  "forget_memory k p = p\<lparr>pl_memory := (pl_memory p)(k := False)\<rparr>"

text \<open>\<open>reset\<close> with the conversation's lock: what runs for it is closed, then its memory is deleted.\<close>

definition reset_begins :: "nat \<Rightarrow> string \<Rightarrow> pool \<Rightarrow> pool" where
  "reset_begins i k p =
     (if pl_locked p k then p
      else case session_of k p of
        None \<Rightarrow> goes_to i Idle (forget_memory k p)
      | Some m \<Rightarrow> goes_to i (ResetCloses k m) (take_out k (p\<lparr>pl_locked := (pl_locked p)(k := True)\<rparr>)))"

definition frees_lock :: "string \<Rightarrow> pool \<Rightarrow> pool" where
  "frees_lock k p = p\<lparr>pl_locked := (pl_locked p)(k := False)\<rparr>"

definition reset_ends :: "nat \<Rightarrow> string \<Rightarrow> pool \<Rightarrow> pool" where
  "reset_ends i k p = goes_to i Idle (frees_lock k (forget_memory k p))"

section \<open>Steps\<close>

datatype pool_op =
    PoolTicks int | TurnComes nat turn_ask | Reaps nat | Reloads nat string | Shuts nat | CancelComes nat string | ResetComes nat string
  | Proceeds nat | TimesOut nat | SpawnFails nat | PromptEnds nat prompt_end | CancelEnds nat bool | Abandoned nat

text \<open>The await a coroutine stands at is over: the lock is free, a process is closed, a permit is there, a process has started.\<close>

definition proceeds :: "pool_config \<Rightarrow> nat \<Rightarrow> pool \<Rightarrow> pool" where
  "proceeds cfg i p =
     (case pl_at p ! i of
        AwaitsTurn a \<Rightarrow> (case ta_key a of None \<Rightarrow> p | Some k \<Rightarrow> turn_begins cfg i a k p)
      | ClosesOld a m \<Rightarrow> acquires cfg i a (process_closed cfg m p)
      | RoomForAgent a m \<Rightarrow> goes_to i (AwaitsAgentSlot a) (process_closed cfg m p)
      | AwaitsAgentSlot a \<Rightarrow> got_agent_slot cfg i a p
      | RoomForAll a m \<Rightarrow> goes_to i (AwaitsSlot a) (process_closed cfg m p)
      | AwaitsSlot a \<Rightarrow> got_slot i a p
      | Spawns a s \<Rightarrow> process_started i a s p
      | ClosesBroken a m \<Rightarrow> ends_turn i a (process_closed cfg m p)
      | ClosesOneshot a \<Rightarrow> goes_to i Idle (release_permits cfg (ta_agent a) p)
      | SweepCloses m ks \<Rightarrow> sweep_goes i ks (process_closed cfg m p)
      | CancelCloses m k r \<Rightarrow> after_cancel i k r (process_closed cfg m p)
      | AwaitsReset k \<Rightarrow> reset_begins i k p
      | ResetCloses k m \<Rightarrow> reset_ends i k (process_closed cfg m p)
      | _ \<Rightarrow> p)"

text \<open>The wait for a slot is over its time: what was taken is given back.\<close>

definition gives_up_waiting :: "pool \<Rightarrow> pool" where
  "gives_up_waiting p = p\<lparr>pl_waiting := pl_waiting p - 1\<rparr>"

definition times_out :: "pool_config \<Rightarrow> nat \<Rightarrow> pool \<Rightarrow> pool" where
  "times_out cfg i p =
     (case pl_at p ! i of
        AwaitsAgentSlot a \<Rightarrow> ends_turn i a (gives_up_waiting p)
      | AwaitsSlot a \<Rightarrow>
          ends_turn i a (gives_up_waiting
            (if bounded cfg then p\<lparr>pl_agent_free := (pl_agent_free p)(ta_agent a := Suc (pl_agent_free p (ta_agent a)))\<rparr> else p))
      | _ \<Rightarrow> p)"

definition spawn_fails :: "pool_config \<Rightarrow> nat \<Rightarrow> pool \<Rightarrow> pool" where
  "spawn_fails cfg i p = (case pl_at p ! i of Spawns a s \<Rightarrow> ends_turn i a (release_permits cfg (ta_agent a) p) | _ \<Rightarrow> p)"

text \<open>
  The coroutine is cancelled where it stands, which is no \<open>TimeoutError\<close> and no \<open>Exception\<close>: a wait for the slot of all keeps the
  agent's permit it took, and a process that was being started keeps both.  A process being closed gives its permits back all the same,
  although it was only told to end: \<open>aclose\<close> is cancelled in its wait, before it would kill, and the process may live on.
\<close>

definition stops_waiting :: "pool_config \<Rightarrow> nat \<Rightarrow> pool \<Rightarrow> pool" where
  "stops_waiting cfg i p =
     (case pl_at p ! i of
        ClosesOld a m \<Rightarrow> ends_turn i a (process_closed cfg m p)
      | RoomForAgent a m \<Rightarrow> ends_turn i a (process_closed cfg m (gives_up_waiting p))
      | AwaitsAgentSlot a \<Rightarrow> ends_turn i a (gives_up_waiting p)
      | RoomForAll a m \<Rightarrow> ends_turn i a (process_closed cfg m (gives_up_waiting p))
      | AwaitsSlot a \<Rightarrow> ends_turn i a (gives_up_waiting p)
      | Spawns a s \<Rightarrow> ends_turn i a p
      | Prompts a \<Rightarrow> prompt_ends i a OtherError p
      | ClosesBroken a m \<Rightarrow> ends_turn i a (process_closed cfg m p)
      | ClosesOneshot a \<Rightarrow> goes_to i Idle (release_permits cfg (ta_agent a) p)
      | SweepCloses m ks \<Rightarrow> goes_to i Idle (process_closed cfg m p)
      | CancelCloses m k r \<Rightarrow> goes_to i Idle (process_closed cfg m p)
      | ResetCloses k m \<Rightarrow> goes_to i Idle (frees_lock k (process_closed cfg m p))
      | _ \<Rightarrow> goes_to i Idle p)"

definition closing_of :: "pool_phase \<Rightarrow> string option" where
  "closing_of ph =
     (case ph of
        ClosesOld a m \<Rightarrow> Some (mg_agent m)
      | RoomForAgent a m \<Rightarrow> Some (mg_agent m)
      | RoomForAll a m \<Rightarrow> Some (mg_agent m)
      | ClosesBroken a m \<Rightarrow> Some (mg_agent m)
      | ClosesOneshot a \<Rightarrow> Some (ta_agent a)
      | SweepCloses m ks \<Rightarrow> Some (mg_agent m)
      | CancelCloses m k r \<Rightarrow> Some (mg_agent m)
      | ResetCloses k m \<Rightarrow> Some (mg_agent m)
      | _ \<Rightarrow> None)"

definition leaves_process :: "string option \<Rightarrow> pool \<Rightarrow> pool" where
  "leaves_process agent p = (case agent of None \<Rightarrow> p | Some g \<Rightarrow> p\<lparr>pl_left := pl_left p @ [g]\<rparr>)"

definition abandoned :: "pool_config \<Rightarrow> nat \<Rightarrow> pool \<Rightarrow> pool" where
  "abandoned cfg i p = leaves_process (closing_of (pl_at p ! i)) (stops_waiting cfg i p)"

definition if_idle :: "nat \<Rightarrow> (pool \<Rightarrow> pool) \<Rightarrow> pool \<Rightarrow> pool" where
  "if_idle i f p = (if i < length (pl_at p) \<and> pl_at p ! i = Idle then f p else p)"

definition if_there :: "nat \<Rightarrow> (pool \<Rightarrow> pool) \<Rightarrow> pool \<Rightarrow> pool" where
  "if_there i f p = (if i < length (pl_at p) then f p else p)"

fun pool_do :: "pool_config \<Rightarrow> pool_op \<Rightarrow> pool \<Rightarrow> pool" where
  "pool_do cfg (PoolTicks t) p = p\<lparr>pl_now := max t (pl_now p)\<rparr>"
| "pool_do cfg (TurnComes i a) p = if_idle i (turn_comes cfg i a) p"
| "pool_do cfg (Reaps i) p = if_idle i (sweep_goes i (stale_keys cfg p)) p"
| "pool_do cfg (Reloads i agent) p = if_idle i (sweep_goes i (reload_keys agent p)) p"
| "pool_do cfg (Shuts i) p = if_idle i (sweep_goes i (map mg_key (pl_sessions p))) p"
| "pool_do cfg (CancelComes i k) p = if_idle i (cancel_comes i k False) p"
| "pool_do cfg (ResetComes i k) p = if_idle i (cancel_comes i k True) p"
| "pool_do cfg (Proceeds i) p = if_there i (proceeds cfg i) p"
| "pool_do cfg (TimesOut i) p = if_there i (times_out cfg i) p"
| "pool_do cfg (SpawnFails i) p = if_there i (spawn_fails cfg i) p"
| "pool_do cfg (PromptEnds i how) p = if_there i (\<lambda>p. case pl_at p ! i of Prompts a \<Rightarrow> prompt_ends i a how p | _ \<Rightarrow> p) p"
| "pool_do cfg (CancelEnds i ended) p = if_there i (\<lambda>p. case pl_at p ! i of Cancels k r \<Rightarrow> cancel_ends i k r ended p | _ \<Rightarrow> p) p"
| "pool_do cfg (Abandoned i) p = if_there i (abandoned cfg i) p"

definition pool_run :: "pool_config \<Rightarrow> pool_op list \<Rightarrow> pool \<Rightarrow> pool" where
  "pool_run cfg ops p = fold (pool_do cfg) ops p"

definition new_pool :: "pool_config \<Rightarrow> nat \<Rightarrow> pool" where
  "new_pool cfg n = \<lparr>pl_sessions = [], pl_free = pc_capacity cfg, pl_agent_free = (\<lambda>_. pc_per_agent cfg), pl_locked = (\<lambda>_. False), pl_waiting = 0,
     pl_now = 0, pl_proofs = Map.empty, pl_next_proof = 0, pl_memory = (\<lambda>_. False), pl_at = replicate n Idle, pl_left = []\<rparr>"

text \<open>\<open>stats\<close>: the sessions alive, those with a turn, the bound, and the turns that queue for a slot.\<close>

record runtime_stats =
  rs_alive :: nat
  rs_busy :: nat
  rs_capacity :: nat
  rs_waiting :: nat

definition pool_stats :: "pool_config \<Rightarrow> pool \<Rightarrow> runtime_stats" where
  "pool_stats cfg p =
     \<lparr>rs_alive = length (pl_sessions p), rs_busy = length (filter mg_busy (pl_sessions p)), rs_capacity = pc_capacity cfg, rs_waiting = pl_waiting p\<rparr>"

definition has_memory :: "bool \<Rightarrow> string \<Rightarrow> pool \<Rightarrow> bool" where
  "has_memory readable k p \<longleftrightarrow> session_of k p \<noteq> None \<or> \<not> readable \<or> pl_memory p k"

end
