(* ===== verification/PiPoolProps.thy ===== *)
theory PiPoolProps
  imports PiPool
begin

text \<open>
  What the pool of processes keeps: a conversation has one turn at a time and that turn its own process; there are
  never more processes than slots, of all and of each agent, and every slot comes back; a proof dies with its process.
\<close>

section \<open>Who holds what\<close>

text \<open>The conversation a phase has the lock of, and the one it prompts on.\<close>

fun locks :: "pool_phase \<Rightarrow> string option" where
  "locks (ClosesOld a m) = ta_key a"
| "locks (AwaitsAgentSlot a) = ta_key a"
| "locks (RoomForAgent a m) = ta_key a"
| "locks (AwaitsSlot a) = ta_key a"
| "locks (RoomForAll a m) = ta_key a"
| "locks (Spawns a s) = ta_key a"
| "locks (Prompts a) = ta_key a"
| "locks (ClosesBroken a m) = ta_key a"
| "locks (ResetCloses k m) = Some k"
| "locks _ = None"

fun prompts_as :: "pool_phase \<Rightarrow> (string \<times> string) option" where
  "prompts_as (Prompts a) = map_option (\<lambda>k. (k, ta_fingerprint a)) (ta_key a)"
| "prompts_as _ = None"

lemma prompts_as_locks: "prompts_as ph = Some (k, f) \<Longrightarrow> locks ph = Some k"
  by (cases ph) auto

definition keys :: "managed list \<Rightarrow> string set" where
  "keys ms = set (map mg_key ms)"

lemma keys_simps [simp]:
  "keys [] = {}" "keys (ms @ [m]) = insert (mg_key m) (keys ms)" "keys (del_where (with_key k) ms) = keys ms - {k}"
  by (auto simp: keys_def with_key_def)

lemma keys_upd [simp]: "(\<And>m. mg_key (f m) = mg_key m) \<Longrightarrow> keys (upd_where P f ms) = keys ms"
  by (simp add: keys_def upd_where_keeps del: set_map)

lemma in_upd_key:
  "m \<in> set (upd_where (with_key k) g S) \<Longrightarrow> (\<And>m. mg_key (g m) = mg_key m)
    \<Longrightarrow> \<exists>m0 \<in> set S. mg_key m0 = mg_key m \<and> m = (if mg_key m = k then g m0 else m0)"
  by (drule in_upd_where) (auto simp: with_key_def split: if_splits)

lemma session_of_None: "session_of k p = None \<longleftrightarrow> k \<notin> keys (pl_sessions p)"
  by (auto simp: session_of_def fetchone_None with_key_def keys_def)

lemma session_of_Some: "session_of k p = Some m \<Longrightarrow> m \<in> set (pl_sessions p) \<and> mg_key m = k"
  by (auto simp: session_of_def with_key_def dest: fetchone_Some)

definition locks_ok :: "(string \<Rightarrow> bool) \<Rightarrow> pool_phase list \<Rightarrow> bool" where
  "locks_ok L ps \<longleftrightarrow>
     (\<forall>i j k. i < length ps \<and> j < length ps \<and> locks (ps ! i) = Some k \<and> locks (ps ! j) = Some k \<longrightarrow> i = j)
     \<and> (\<forall>k. L k \<longleftrightarrow> (\<exists>i < length ps. locks (ps ! i) = Some k))"

definition prompts_ok :: "managed list \<Rightarrow> pool_phase list \<Rightarrow> bool" where
  "prompts_ok S ps \<longleftrightarrow>
     distinct (map mg_key S)
     \<and> (\<forall>i k. i < length ps \<and> locks (ps ! i) = Some k \<and> prompts_as (ps ! i) = None \<longrightarrow> k \<notin> keys S)
     \<and> (\<forall>i k f. i < length ps \<and> prompts_as (ps ! i) = Some (k, f) \<longrightarrow> (\<forall>m \<in> set S. mg_key m = k \<longrightarrow> mg_busy m \<and> mg_fingerprint m = f))
     \<and> (\<forall>m \<in> set S. mg_busy m \<longrightarrow> (\<exists>i < length ps. \<exists>f. prompts_as (ps ! i) = Some (mg_key m, f)))"

definition pool_ok :: "pool \<Rightarrow> bool" where
  "pool_ok p \<longleftrightarrow> locks_ok (pl_locked p) (pl_at p) \<and> prompts_ok (pl_sessions p) (pl_at p)"

lemma leaves_process_reads [simp]:
  "pl_sessions (leaves_process x p) = pl_sessions p" "pl_free (leaves_process x p) = pl_free p"
  "pl_agent_free (leaves_process x p) = pl_agent_free p" "pl_locked (leaves_process x p) = pl_locked p"
  "pl_waiting (leaves_process x p) = pl_waiting p" "pl_now (leaves_process x p) = pl_now p"
  "pl_proofs (leaves_process x p) = pl_proofs p" "pl_next_proof (leaves_process x p) = pl_next_proof p"
  "pl_memory (leaves_process x p) = pl_memory p" "pl_at (leaves_process x p) = pl_at p"
  by (simp_all add: leaves_process_def split: option.split)

lemma leaves_process_ok [simp]: "pool_ok (leaves_process x p) = pool_ok p"
  by (simp add: pool_ok_def)

lemma nth_upd: "j < length xs \<Longrightarrow> xs[i := x] ! j = (if j = i then x else xs ! j)"
  by (cases "i = j") auto

text \<open>The locks: a phase that keeps its lock, one that takes it, one that gives it back.\<close>

lemma locks_one: "locks_ok L ps \<Longrightarrow> i < length ps \<Longrightarrow> j < length ps \<Longrightarrow> locks (ps ! i) = Some k \<Longrightarrow> locks (ps ! j) = Some k \<Longrightarrow> i = j"
  unfolding locks_ok_def by blast

lemma locks_held: "locks_ok L ps \<Longrightarrow> L k \<longleftrightarrow> (\<exists>i < length ps. locks (ps ! i) = Some k)"
  unfolding locks_ok_def by blast

lemma locks_okI:
  assumes "\<And>i j k. i < length ps \<Longrightarrow> j < length ps \<Longrightarrow> locks (ps ! i) = Some k \<Longrightarrow> locks (ps ! j) = Some k \<Longrightarrow> i = j"
    and "\<And>k. L k \<longleftrightarrow> (\<exists>i < length ps. locks (ps ! i) = Some k)"
  shows "locks_ok L ps"
  using assms unfolding locks_ok_def by blast

lemma locks_ok_same: "locks_ok L ps \<Longrightarrow> locks x = locks (ps ! i) \<Longrightarrow> locks_ok L (ps[i := x])"
proof -
  assume ok: "locks_ok L ps" and x: "locks x = locks (ps ! i)"
  have "locks (ps[i := x] ! j) = locks (ps ! j)" if "j < length ps" for j using x that by (simp add: nth_upd)
  then show ?thesis using locks_one [OF ok] locks_held [OF ok] by (intro locks_okI) auto
qed

lemma locks_ok_take:
  assumes ok: "locks_ok L ps" and i: "i < length ps" and at: "locks (ps ! i) = None" and x: "locks x = Some k" and "\<not> L k"
  shows "locks_ok (L(k := True)) (ps[i := x])"
proof (rule locks_okI)
  have free: "locks (ps ! j) \<noteq> Some k" if "j < length ps" for j using locks_held [OF ok] assms(5) that by blast
  show "i' = j'" if "i' < length (ps[i := x])" "j' < length (ps[i := x])" "locks (ps[i := x] ! i') = Some k'" "locks (ps[i := x] ! j') = Some k'" for i' j' k'
    using that free x locks_one [OF ok, of i' j'] by (auto simp: nth_upd split: if_splits)
  show "(L(k := True)) k' \<longleftrightarrow> (\<exists>j < length (ps[i := x]). locks (ps[i := x] ! j) = Some k')" for k'
  proof (cases "k' = k")
    case True
    then show ?thesis using i x by (auto intro!: exI [of _ i])
  next
    case False
    have "(\<exists>j < length ps. locks (ps ! j) = Some k') \<longleftrightarrow> (\<exists>j < length ps. locks (ps[i := x] ! j) = Some k')"
      using at x False by (intro ex_cong1) (auto simp: nth_upd split: if_splits)
    then show ?thesis using False locks_held [OF ok] by simp
  qed
qed

lemma locks_ok_give:
  assumes ok: "locks_ok L ps" and i: "i < length ps" and at: "locks (ps ! i) = Some k" and x: "locks x = None"
  shows "locks_ok (L(k := False)) (ps[i := x])"
proof (rule locks_okI)
  show "i' = j'" if "i' < length (ps[i := x])" "j' < length (ps[i := x])" "locks (ps[i := x] ! i') = Some k'" "locks (ps[i := x] ! j') = Some k'" for i' j' k'
    using that x locks_one [OF ok, of i' j'] by (auto simp: nth_upd split: if_splits)
  show "(L(k := False)) k' \<longleftrightarrow> (\<exists>j < length (ps[i := x]). locks (ps[i := x] ! j) = Some k')" for k'
  proof (cases "k' = k")
    case True
    then show ?thesis using locks_one [OF ok _ i _ at] x by (auto simp: nth_upd)
  next
    case False
    have "(\<exists>j < length ps. locks (ps ! j) = Some k') \<longleftrightarrow> (\<exists>j < length ps. locks (ps[i := x] ! j) = Some k')"
      using at x False by (intro ex_cong1) (auto simp: nth_upd split: if_splits)
    then show ?thesis using False locks_held [OF ok] by simp
  qed
qed

text \<open>The sessions: one taken out, a phase that has nothing to do with a prompt, a prompt that begins, one that is over.\<close>

lemma prompts_ok_distinct: "prompts_ok S ps \<Longrightarrow> distinct (map mg_key S)"
  unfolding prompts_ok_def by blast

lemma starts_alone: "prompts_ok S ps \<Longrightarrow> i < length ps \<Longrightarrow> locks (ps ! i) = Some k \<Longrightarrow> prompts_as (ps ! i) = None \<Longrightarrow> k \<notin> keys S"
  unfolding prompts_ok_def by blast

lemma prompts_own:
  "prompts_ok S ps \<Longrightarrow> i < length ps \<Longrightarrow> prompts_as (ps ! i) = Some (mg_key m, f) \<Longrightarrow> m \<in> set S \<Longrightarrow> mg_busy m \<and> mg_fingerprint m = f"
  unfolding prompts_ok_def by blast

lemma busy_has_prompt: "prompts_ok S ps \<Longrightarrow> m \<in> set S \<Longrightarrow> mg_busy m \<Longrightarrow> \<exists>j < length ps. \<exists>f. prompts_as (ps ! j) = Some (mg_key m, f)"
  unfolding prompts_ok_def by blast

lemma prompts_okI:
  assumes "distinct (map mg_key S)"
    and "\<And>i k. i < length ps \<Longrightarrow> locks (ps ! i) = Some k \<Longrightarrow> prompts_as (ps ! i) = None \<Longrightarrow> k \<notin> keys S"
    and "\<And>i f m. i < length ps \<Longrightarrow> prompts_as (ps ! i) = Some (mg_key m, f) \<Longrightarrow> m \<in> set S \<Longrightarrow> mg_busy m \<and> mg_fingerprint m = f"
    and "\<And>m. m \<in> set S \<Longrightarrow> mg_busy m \<Longrightarrow> \<exists>j < length ps. \<exists>f. prompts_as (ps ! j) = Some (mg_key m, f)"
  shows "prompts_ok S ps"
  unfolding prompts_ok_def by (intro conjI allI ballI impI) (use assms in auto)

lemma prompts_ok_out: "prompts_ok S ps \<Longrightarrow> prompts_ok (del_where (with_key k) S) ps"
  unfolding prompts_ok_def by (auto simp: distinct_del_where)

lemma prompts_ok_move:
  assumes ok: "prompts_ok S ps" and at: "prompts_as (ps ! i) = None" "prompts_as x = None" and new: "\<And>k. locks x = Some k \<Longrightarrow> k \<notin> keys S"
  shows "prompts_ok S (ps[i := x])"
proof (rule prompts_okI)
  show "distinct (map mg_key S)" by (rule prompts_ok_distinct [OF ok])
  show "k \<notin> keys S" if "j < length (ps[i := x])" "locks (ps[i := x] ! j) = Some k" "prompts_as (ps[i := x] ! j) = None" for j k
    using that new starts_alone [OF ok, of j k] by (auto simp: nth_upd split: if_splits)
  show "mg_busy m \<and> mg_fingerprint m = f" if "j < length (ps[i := x])" "prompts_as (ps[i := x] ! j) = Some (mg_key m, f)" "m \<in> set S" for j f m
    using that at prompts_own [OF ok, of j m f] by (auto simp: nth_upd split: if_splits)
  show "\<exists>j < length (ps[i := x]). \<exists>f. prompts_as (ps[i := x] ! j) = Some (mg_key m, f)" if m: "m \<in> set S" "mg_busy m" for m
  proof -
    from busy_has_prompt [OF ok m] obtain j f where "j < length ps" "prompts_as (ps ! j) = Some (mg_key m, f)" by blast
    with at(1) show ?thesis by (intro exI [of _ j]) (auto simp: nth_upd)
  qed
qed

text \<open>A prompt begins on a session of the turn's own profile; no other phase has that conversation's lock.\<close>

lemma prompts_ok_begin:
  assumes ok: "prompts_ok S ps" and i: "i < length ps" and at: "prompts_as (ps ! i) = None" and x: "prompts_as x = Some (k, f)"
    and alone: "\<And>j. j < length ps \<Longrightarrow> j \<noteq> i \<Longrightarrow> locks (ps ! j) \<noteq> Some k"
    and fp: "\<And>m. m \<in> set S \<Longrightarrow> mg_key m = k \<Longrightarrow> mg_fingerprint m = f"
  shows "prompts_ok (upd_where (with_key k) (mg_busy_update (\<lambda>_. True)) S) (ps[i := x])" (is "prompts_ok ?S _")
proof (rule prompts_okI)
  have others: "prompts_as (ps ! j) \<noteq> Some (k, f')" if "j < length ps" "j \<noteq> i" for j f' using alone [OF that] prompts_as_locks by blast
  have new: "mg_busy m \<and> mg_fingerprint m = f" if "m \<in> set ?S" "mg_key m = k" for m
  proof -
    from in_upd_key [OF that(1)] that(2) obtain m0 where m0: "m0 \<in> set S" "mg_key m0 = k" "m = mg_busy_update (\<lambda>_. True) m0" by auto
    from fp [OF m0(1,2)] show ?thesis unfolding m0(3) by simp
  qed
  have old: "m \<in> set S" if "m \<in> set ?S" "mg_key m \<noteq> k" for m
    using in_upd_key [OF that(1)] that(2) by auto
  show "distinct (map mg_key ?S)" using prompts_ok_distinct [OF ok] by (simp add: upd_where_keeps)
  show "k' \<notin> keys ?S" if "j < length (ps[i := x])" "locks (ps[i := x] ! j) = Some k'" "prompts_as (ps[i := x] ! j) = None" for j k'
    using that x starts_alone [OF ok, of j k'] by (auto simp: nth_upd split: if_splits)
  show "mg_busy m \<and> mg_fingerprint m = f'" if h: "j < length (ps[i := x])" "prompts_as (ps[i := x] ! j) = Some (mg_key m, f')" "m \<in> set ?S" for j f' m
  proof (cases "j = i")
    case True
    then show ?thesis using h x new i by simp
  next
    case False
    then have "prompts_as (ps ! j) = Some (mg_key m, f')" and "j < length ps" using h by (auto simp: nth_upd)
    moreover from this have "mg_key m \<noteq> k" using others False by metis
    ultimately show ?thesis using prompts_own [OF ok] old h(3) by blast
  qed
  show "\<exists>j < length (ps[i := x]). \<exists>f. prompts_as (ps[i := x] ! j) = Some (mg_key m, f)" if m: "m \<in> set ?S" "mg_busy m" for m
  proof (cases "mg_key m = k")
    case True
    then show ?thesis using i x by (auto intro!: exI [of _ i])
  next
    case False
    from busy_has_prompt [OF ok old [OF m(1) False] m(2)] obtain j f where "j < length ps" "prompts_as (ps ! j) = Some (mg_key m, f)" by blast
    with at show ?thesis by (intro exI [of _ j]) (auto simp: nth_upd)
  qed
qed

text \<open>A prompt is over: its session is no longer busy, whatever else is written of it.\<close>

lemma prompts_ok_over:
  assumes ok: "prompts_ok S ps" and at: "prompts_as (ps ! i) = Some (k, f)" and x: "locks x = None"
    and g: "\<And>m. mg_key (g m) = mg_key m \<and> \<not> mg_busy (g m)"
    and alone: "\<And>j. j < length ps \<Longrightarrow> j \<noteq> i \<Longrightarrow> locks (ps ! j) \<noteq> Some k"
  shows "prompts_ok (upd_where (with_key k) g S) (ps[i := x])" (is "prompts_ok ?S _")
proof (rule prompts_okI)
  have x': "prompts_as x = None" using x prompts_as_locks by (cases "prompts_as x") auto
  have old: "m \<in> set S" if "m \<in> set ?S" "mg_key m \<noteq> k" for m
    using in_upd_key [OF that(1)] that(2) g by auto
  have hit: "\<not> mg_busy m" if "m \<in> set ?S" "mg_key m = k" for m
  proof -
    from in_upd_key [OF that(1)] that(2) g obtain m0 where "m = g m0" by auto
    with g show ?thesis by simp
  qed
  have others: "prompts_as (ps ! j) \<noteq> Some (k, f')" if "j < length ps" "j \<noteq> i" for j f' using alone [OF that] prompts_as_locks by blast
  show "distinct (map mg_key ?S)" using prompts_ok_distinct [OF ok] g by (simp add: upd_where_keeps)
  show "k' \<notin> keys ?S" if "j < length (ps[i := x])" "locks (ps[i := x] ! j) = Some k'" "prompts_as (ps[i := x] ! j) = None" for j k'
    using that x g starts_alone [OF ok, of j k'] by (auto simp: nth_upd split: if_splits)
  show "mg_busy m \<and> mg_fingerprint m = f'" if h: "j < length (ps[i := x])" "prompts_as (ps[i := x] ! j) = Some (mg_key m, f')" "m \<in> set ?S" for j f' m
  proof -
    have j: "j \<noteq> i" "j < length ps" "prompts_as (ps ! j) = Some (mg_key m, f')" using h x' by (auto simp: nth_upd split: if_splits)
    then have "mg_key m \<noteq> k" using others by metis
    then show ?thesis using prompts_own [OF ok j(2,3)] old h(3) by blast
  qed
  show "\<exists>j < length (ps[i := x]). \<exists>f. prompts_as (ps[i := x] ! j) = Some (mg_key m, f)" if m: "m \<in> set ?S" "mg_busy m" for m
  proof -
    have "mg_key m \<noteq> k" using hit m by blast
    with busy_has_prompt [OF ok old [OF m(1)] m(2)] obtain j f' where j: "j < length ps" "prompts_as (ps ! j) = Some (mg_key m, f')" by blast
    with \<open>mg_key m \<noteq> k\<close> at have "j \<noteq> i" by auto
    with j show ?thesis by (intro exI [of _ j]) (auto simp: nth_upd)
  qed
qed

text \<open>What the bookkeeping of permits, proofs and memory leaves alone.\<close>

lemma pool_frame [simp]:
  "pl_sessions (goes_to i x p) = pl_sessions p" "pl_locked (goes_to i x p) = pl_locked p" "pl_at (goes_to i x p) = (pl_at p)[i := x]"
  "pl_sessions (release_permits cfg g p) = pl_sessions p" "pl_locked (release_permits cfg g p) = pl_locked p" "pl_at (release_permits cfg g p) = pl_at p"
  "pl_sessions (process_closed cfg m p) = pl_sessions p" "pl_locked (process_closed cfg m p) = pl_locked p" "pl_at (process_closed cfg m p) = pl_at p"
  "pl_sessions (gives_up_waiting p) = pl_sessions p" "pl_locked (gives_up_waiting p) = pl_locked p" "pl_at (gives_up_waiting p) = pl_at p"
  "pl_sessions (issue_proof k p) = pl_sessions p" "pl_locked (issue_proof k p) = pl_locked p" "pl_at (issue_proof k p) = pl_at p"
  "pl_sessions (forget_memory k p) = pl_sessions p" "pl_locked (forget_memory k p) = pl_locked p" "pl_at (forget_memory k p) = pl_at p"
  "pl_sessions (frees_lock k p) = pl_sessions p" "pl_locked (frees_lock k p) = (pl_locked p)(k := False)" "pl_at (frees_lock k p) = pl_at p"
  "pl_sessions (take_out k p) = del_where (with_key k) (pl_sessions p)" "pl_locked (take_out k p) = pl_locked p" "pl_at (take_out k p) = pl_at p"
  by (simp_all add: goes_to_def release_permits_def process_closed_def revoke_proof_def gives_up_waiting_def issue_proof_def forget_memory_def
      frees_lock_def take_out_def Let_def)

text \<open>A coroutine goes from one phase to another that does not prompt; at most a session is taken out.\<close>

definition pool_moves :: "nat \<Rightarrow> string option \<Rightarrow> pool \<Rightarrow> pool \<Rightarrow> bool" where
  "pool_moves i l p p' \<longleftrightarrow>
     (\<exists>x. pl_at p' = (pl_at p)[i := x] \<and> locks x = l \<and> prompts_as x = None) \<and> pl_locked p' = pl_locked p
     \<and> (pl_sessions p' = pl_sessions p \<or> (\<exists>k. pl_sessions p' = del_where (with_key k) (pl_sessions p)))"

lemma moves_goes: "locks x = l \<Longrightarrow> prompts_as x = None \<Longrightarrow> pool_moves i l p (goes_to i x p)"
  unfolding pool_moves_def by auto

lemma moves_out: "locks x = l \<Longrightarrow> prompts_as x = None \<Longrightarrow> pool_moves i l p (goes_to i x (take_out k p))"
  unfolding pool_moves_def by auto

lemma moves_via: "pool_moves i l q p' \<Longrightarrow> pl_at q = pl_at p \<Longrightarrow> pl_locked q = pl_locked p \<Longrightarrow> pl_sessions q = pl_sessions p \<Longrightarrow> pool_moves i l p p'"
  unfolding pool_moves_def by auto

lemma awaits_all_moves: "pool_moves i (ta_key a) p (awaits_all cfg i a p)"
  unfolding awaits_all_def by (auto intro!: moves_goes moves_out split: option.splits)

lemma acquires_moves: "pool_moves i (ta_key a) p (acquires cfg i a p)"
proof -
  let ?p1 = "p\<lparr>pl_waiting := Suc (pl_waiting p)\<rparr>"
  have "pool_moves i (ta_key a) ?p1 (acquires cfg i a p)"
    unfolding acquires_def Let_def by (auto intro!: moves_goes moves_out awaits_all_moves split: option.splits)
  then show ?thesis by (rule moves_via) auto
qed

lemma sweep_moves: "pool_moves i None p (sweep_goes i ks p)"
  by (induction i ks p rule: sweep_goes.induct) (auto intro!: moves_goes moves_out split: option.splits)

lemma after_cancel_moves: "pool_moves i None p (after_cancel i k r p)"
  unfolding after_cancel_def by (auto intro!: moves_goes)

lemma cancel_comes_moves: "pool_moves i None p (cancel_comes i k r p)"
  unfolding cancel_comes_def by (auto intro!: moves_goes after_cancel_moves split: option.splits)

lemma cancel_ends_moves: "pool_moves i None p (cancel_ends i k r e p)"
  unfolding cancel_ends_def by (auto intro!: moves_out after_cancel_moves split: option.splits)

lemma keys_move: "pool_moves i l p p' \<Longrightarrow> keys (pl_sessions p') \<subseteq> keys (pl_sessions p)"
  unfolding pool_moves_def by auto

lemma prompts_ok_fewer:
  "pool_moves i l p p' \<Longrightarrow> prompts_ok (pl_sessions p) ps \<Longrightarrow> prompts_ok (pl_sessions p') ps"
  unfolding pool_moves_def using prompts_ok_out by auto

lemma moves_ok:
  assumes mv: "pool_moves i (locks (pl_at p ! i)) p p'" and ok: "pool_ok p" and i: "i < length (pl_at p)" and at: "prompts_as (pl_at p ! i) = None"
  shows "pool_ok p'"
proof -
  from mv obtain x where x: "pl_at p' = (pl_at p)[i := x]" "locks x = locks (pl_at p ! i)" "prompts_as x = None" and L: "pl_locked p' = pl_locked p"
    unfolding pool_moves_def by blast
  have ok': "prompts_ok (pl_sessions p') (pl_at p)" using ok prompts_ok_fewer [OF mv] unfolding pool_ok_def by blast
  have "prompts_ok (pl_sessions p') ((pl_at p)[i := x])"
    by (rule prompts_ok_move [OF ok' at x(3)]) (use starts_alone [OF ok' i _ at] x(2) in auto)
  then show ?thesis using ok locks_ok_same [OF _ x(2)] unfolding pool_ok_def x L by blast
qed

lemma moves_unlocked_ok:
  "pool_moves i None p p' \<Longrightarrow> pool_ok p \<Longrightarrow> i < length (pl_at p) \<Longrightarrow> locks (pl_at p ! i) = None \<Longrightarrow> pool_ok p'"
  using moves_ok [of i p p'] prompts_as_locks by (cases "prompts_as (pl_at p ! i)") auto

lemma moves_take_ok:
  assumes mv: "pool_moves i (Some k) (p\<lparr>pl_locked := (pl_locked p)(k := True)\<rparr>) p'" and ok: "pool_ok p" and i: "i < length (pl_at p)"
    and at: "locks (pl_at p ! i) = None" and free: "\<not> pl_locked p k" and new: "k \<notin> keys (pl_sessions p')"
  shows "pool_ok p'"
proof -
  from mv obtain x where x: "pl_at p' = (pl_at p)[i := x]" "locks x = Some k" "prompts_as x = None" and L: "pl_locked p' = (pl_locked p)(k := True)"
    unfolding pool_moves_def by auto
  have at': "prompts_as (pl_at p ! i) = None" using at prompts_as_locks by (cases "prompts_as (pl_at p ! i)") auto
  have ok': "prompts_ok (pl_sessions p') (pl_at p)" using ok prompts_ok_fewer [OF mv] unfolding pool_ok_def by simp
  have "prompts_ok (pl_sessions p') ((pl_at p)[i := x])" by (rule prompts_ok_move [OF ok' at' x(3)]) (use x(2) new in auto)
  moreover have "locks_ok (pl_locked p') (pl_at p')" unfolding x(1) L using locks_ok_take [of "pl_locked p" "pl_at p" i x k] ok i at x(2) free by (simp add: pool_ok_def)
  ultimately show ?thesis unfolding pool_ok_def x(1) by blast
qed

lemma gives_ok:
  assumes ok: "pool_ok p" and i: "i < length (pl_at p)" and at: "locks (pl_at p ! i) = Some k" "prompts_as (pl_at p ! i) = None"
  shows "pool_ok (goes_to i Idle (frees_lock k p))"
  using ok locks_ok_give [OF _ i at(1), of _ Idle] prompts_ok_move [OF _ at(2), of _ Idle] unfolding pool_ok_def by simp

lemma ends_turn_frees: "ends_turn i a p = (case ta_key a of None \<Rightarrow> goes_to i Idle p | Some k \<Rightarrow> goes_to i Idle (frees_lock k p))"
  by (simp add: ends_turn_def unlock_def frees_lock_def split: option.splits)

lemma ends_turn_ok:
  assumes ok: "pool_ok p" and i: "i < length (pl_at p)" and at: "locks (pl_at p ! i) = ta_key a" "prompts_as (pl_at p ! i) = None"
  shows "pool_ok (ends_turn i a p)"
proof (cases "ta_key a")
  case None
  then show ?thesis using at by (auto simp: ends_turn_frees intro!: moves_ok [OF _ ok i] moves_goes)
next
  case (Some k)
  then show ?thesis using gives_ok [OF ok i _ at(2)] at(1) by (simp add: ends_turn_frees)
qed

text \<open>A prompt begins: with the lock just taken on the session that is there, or on the one just started.\<close>

lemma others_locked:
  assumes "pool_ok p" and "i < length (pl_at p)" and "locks (pl_at p ! i) = Some k" and "j < length (pl_at p)" and "j \<noteq> i"
  shows "locks (pl_at p ! j) \<noteq> Some k"
  using assms locks_one [of "pl_locked p" "pl_at p" i j k] unfolding pool_ok_def by blast

lemma none_locked: "pool_ok p \<Longrightarrow> \<not> pl_locked p k \<Longrightarrow> j < length (pl_at p) \<Longrightarrow> locks (pl_at p ! j) \<noteq> Some k"
  using locks_held [of "pl_locked p" "pl_at p" k] unfolding pool_ok_def by blast

lemma locked_none: "locks ph = None \<Longrightarrow> prompts_as ph = None"
  using prompts_as_locks by (cases "prompts_as ph") auto

lemma turn_begins_ok:
  assumes ok: "pool_ok p" and i: "i < length (pl_at p)" and at: "locks (pl_at p ! i) = None" and a: "ta_key a = Some k"
  shows "pool_ok (turn_begins cfg i a k p)"
proof (cases "pl_locked p k")
  case True
  then show ?thesis using ok by (simp add: turn_begins_def)
next
  case free: False
  let ?p1 = "p\<lparr>pl_locked := (pl_locked p)(k := True)\<rparr>"
  show ?thesis
  proof (cases "session_of k p")
    case None
    have mv: "pool_moves i (Some k) ?p1 (acquires cfg i a ?p1)" using acquires_moves [of i a ?p1 cfg] a by simp
    have "k \<notin> keys (pl_sessions (acquires cfg i a ?p1))" using keys_move [OF mv] None by (auto simp: session_of_None)
    then show ?thesis using moves_take_ok [OF mv ok i at free] None free by (simp add: turn_begins_def)
  next
    case (Some m)
    note m = session_of_Some [OF Some]
    show ?thesis
    proof (cases "mg_fingerprint m = ta_fingerprint a")
      case False
      have "pool_moves i (Some k) ?p1 (goes_to i (ClosesOld a m) (take_out k ?p1))" using a by (intro moves_out) auto
      from moves_take_ok [OF this ok i at free] show ?thesis using Some False free by (simp add: turn_begins_def)
    next
      case True
      have d: "distinct (map mg_key (pl_sessions p))" using ok prompts_ok_distinct unfolding pool_ok_def by blast
      have fp: "mg_fingerprint m' = ta_fingerprint a" if "m' \<in> set (pl_sessions p)" "mg_key m' = k" for m'
        using that m True d by (metis distinct_map inj_on_eq_iff)
      have "prompts_ok (upd_where (with_key k) (mg_busy_update (\<lambda>_. True)) (pl_sessions p)) ((pl_at p)[i := Prompts a])"
        by (rule prompts_ok_begin [OF _ i locked_none [OF at], of _ _ k "ta_fingerprint a"]) (use ok a none_locked [OF ok free] fp in \<open>auto simp: pool_ok_def\<close>)
      moreover have "locks_ok ((pl_locked p)(k := True)) ((pl_at p)[i := Prompts a])"
        using locks_ok_take [of "pl_locked p" "pl_at p" i "Prompts a" k] ok i at a free by (simp add: pool_ok_def)
      ultimately show ?thesis using Some True free a by (simp add: turn_begins_def prompts_def pool_ok_def)
    qed
  qed
qed

lemma process_started_ok:
  assumes ok: "pool_ok p" and i: "i < length (pl_at p)" and at: "pl_at p ! i = Spawns a s"
  shows "pool_ok (process_started i a s p)"
proof (cases "ta_key a")
  case None
  then show ?thesis using moves_ok [OF _ ok i, of "goes_to i (Prompts a) p"] at by (simp add: process_started_def prompts_def moves_goes)
next
  case (Some k)
  let ?m = "new_managed k a s p"
  let ?S = "del_where (with_key k) (pl_sessions p) @ [?m]"
  have lk: "locks (pl_at p ! i) = Some k" and no: "prompts_as (pl_at p ! i) = None" using at Some by simp_all
  have others: "locks (pl_at p ! j) \<noteq> Some k" if "j < length (pl_at p)" "j \<noteq> i" for j using others_locked [OF ok i lk that] .
  have key: "mg_key ?m = k" "mg_fingerprint ?m = ta_fingerprint a" "\<not> mg_busy ?m" by (simp_all add: new_managed_def)
  have out: "prompts_ok (del_where (with_key k) (pl_sessions p)) ((pl_at p)[i := Idle])" (is "prompts_ok ?D ?ps")
    using ok prompts_ok_out prompts_ok_move [OF _ no, of _ Idle] unfolding pool_ok_def by simp
  have "prompts_ok ?S ?ps"
  proof (rule prompts_okI)
    have "distinct (map mg_key ?D)" by (rule prompts_ok_distinct [OF out])
    then show "distinct (map mg_key ?S)" using key(1) by (auto simp: with_key_def)
    show "k' \<notin> keys ?S" if "j < length ?ps" "locks (?ps ! j) = Some k'" "prompts_as (?ps ! j) = None" for j k'
      using starts_alone [OF out that] that others [of j] key(1) by (auto simp: nth_upd split: if_splits)
    show "mg_busy m \<and> mg_fingerprint m = f" if h: "j < length ?ps" "prompts_as (?ps ! j) = Some (mg_key m, f)" "m \<in> set ?S" for j f m
    proof -
      have "mg_key m \<noteq> k" using h others [of j] prompts_as_locks by (fastforce simp: nth_upd split: if_splits)
      then have "m \<in> set ?D" using h(3) key(1) by auto
      then show ?thesis by (rule prompts_own [OF out h(1,2)])
    qed
    show "\<exists>j < length ?ps. \<exists>f. prompts_as (?ps ! j) = Some (mg_key m, f)" if "m \<in> set ?S" "mg_busy m" for m
      using that key(3) by (intro busy_has_prompt [OF out]) auto
  qed
  then have "prompts_ok (upd_where (with_key k) (mg_busy_update (\<lambda>_. True)) ?S) (?ps[i := Prompts a])"
    by (rule prompts_ok_begin [where f = "ta_fingerprint a"]) (use i Some others key in \<open>auto simp: nth_upd with_key_def\<close>)
  moreover have "locks_ok (pl_locked p) ((pl_at p)[i := Prompts a])" using ok lk Some by (intro locks_ok_same) (simp_all add: pool_ok_def)
  ultimately show ?thesis using Some by (simp add: process_started_def prompts_def pool_ok_def)
qed

text \<open>A prompt ends.\<close>

lemma prompt_ends_ok:
  assumes ok: "pool_ok p" and i: "i < length (pl_at p)" and at: "pl_at p ! i = Prompts a"
  shows "pool_ok (prompt_ends i a how p)"
proof (cases "ta_key a")
  case None
  then show ?thesis using moves_ok [OF _ ok i, of "goes_to i (ClosesOneshot a) p"] at by (simp add: prompt_ends_def moves_goes)
next
  case (Some k)
  have lk: "locks (pl_at p ! i) = Some k" and as: "prompts_as (pl_at p ! i) = Some (k, ta_fingerprint a)" using at Some by simp_all
  have oth: "locks (pl_at p ! j) \<noteq> Some k" if "j < length (pl_at p)" "j \<noteq> i" for j using others_locked [OF ok i lk that] .
  have over: "prompts_ok (upd_where (with_key k) g (pl_sessions p)) ((pl_at p)[i := Idle])"
    if "\<And>m. mg_key (g m) = mg_key m \<and> \<not> mg_busy (g m)" for g
    by (rule prompts_ok_over [OF _ as _ that oth]) (use ok in \<open>auto simp: pool_ok_def\<close>)
  have give: "locks_ok ((pl_locked p)(k := False)) ((pl_at p)[i := Idle])"
    using locks_ok_give [OF _ i lk, of _ Idle] ok unfolding pool_ok_def by simp
  have twice: "upd_where (with_key k) (mg_last_used_update (\<lambda>_. t)) (upd_where (with_key k) (mg_busy_update (\<lambda>_. False)) S)
      = upd_where (with_key k) (\<lambda>m. mg_last_used_update (\<lambda>_. t) (mg_busy_update (\<lambda>_. False) m)) S" for t S
    by (simp add: upd_where_def with_key_def)
  let ?S = "upd_where (with_key k) (mg_busy_update (\<lambda>_. False)) (pl_sessions p)"
  have broke: "pool_ok (goes_to i (ClosesBroken a m) (take_out k (p\<lparr>pl_sessions := ?S\<rparr>)))" for m
  proof -
    have "prompts_ok (del_where (with_key k) ?S) ((pl_at p)[i := Idle])" by (rule prompts_ok_out [OF over]) simp
    from prompts_ok_move [OF this, of i "ClosesBroken a m"] have "prompts_ok (del_where (with_key k) ?S) ((pl_at p)[i := ClosesBroken a m])"
      using i Some by simp
    moreover have "locks_ok (pl_locked p) ((pl_at p)[i := ClosesBroken a m])" using ok lk Some by (intro locks_ok_same) (simp_all add: pool_ok_def)
    ultimately show ?thesis unfolding pool_ok_def by simp
  qed
  show ?thesis
    using over [of "mg_busy_update (\<lambda>_. False)"] over [of "\<lambda>m. mg_last_used_update (\<lambda>_. pl_now p) (mg_busy_update (\<lambda>_. False) m)"] give broke
    by (auto simp: prompt_ends_def Some Let_def ends_turn_frees twice pool_ok_def split: prompt_end.splits option.splits)
qed

text \<open>Every step keeps it.\<close>

lemma frame_ok: "pool_ok p \<Longrightarrow> pl_at q = pl_at p \<Longrightarrow> pl_locked q = pl_locked p \<Longrightarrow> pl_sessions q = pl_sessions p \<Longrightarrow> pool_ok q"
  by (simp add: pool_ok_def)

lemma got_slot_moves: "pl_at p ! i = AwaitsSlot a \<Longrightarrow> got_slot i a p = p \<or> pool_moves i (ta_key a) p (got_slot i a p)"
proof -
  let ?p1 = "p\<lparr>pl_free := pl_free p - 1, pl_waiting := pl_waiting p - 1\<rparr>"
  let ?q = "case ta_key a of None \<Rightarrow> ?p1\<lparr>pl_next_proof := Suc (pl_next_proof p)\<rparr> | Some k \<Rightarrow> issue_proof k ?p1"
  have "pool_moves i (ta_key a) ?q (goes_to i (Spawns a (pl_next_proof p)) ?q)" by (rule moves_goes) simp_all
  then have "pool_moves i (ta_key a) p (goes_to i (Spawns a (pl_next_proof p)) ?q)" by (rule moves_via) (auto split: option.splits)
  then show ?thesis unfolding got_slot_def Let_def by (simp only: split: if_split) blast
qed

lemma got_agent_slot_moves: "got_agent_slot cfg i a p = p \<or> pool_moves i (ta_key a) p (got_agent_slot cfg i a p)"
proof -
  let ?p1 = "p\<lparr>pl_agent_free := (pl_agent_free p)(ta_agent a := pl_agent_free p (ta_agent a) - 1)\<rparr>"
  have "pool_moves i (ta_key a) p (awaits_all cfg i a ?p1)" by (rule moves_via [OF awaits_all_moves]) auto
  then show ?thesis by (simp add: got_agent_slot_def)
qed

lemma closed_moves: "pool_moves i l (process_closed cfg m p) p' \<Longrightarrow> pool_moves i l p p'"
  by (erule moves_via) simp_all

lemma freed_moves: "pool_moves i l (release_permits cfg g p) p' \<Longrightarrow> pool_moves i l p p'"
  by (erule moves_via) simp_all

lemma reset_begins_ok:
  assumes ok: "pool_ok p" and i: "i < length (pl_at p)" and at: "locks (pl_at p ! i) = None"
  shows "pool_ok (reset_begins i k p)"
proof (cases "pl_locked p k")
  case True
  then show ?thesis using ok by (simp add: reset_begins_def)
next
  case free: False
  have no: "prompts_as (pl_at p ! i) = None" using at by (rule locked_none)
  show ?thesis
  proof (cases "session_of k p")
    case None
    have "pool_moves i (locks (pl_at p ! i)) p (goes_to i Idle (forget_memory k p))" using at by (intro moves_via [OF moves_goes]) auto
    from moves_ok [OF this ok i no] show ?thesis using None free by (simp add: reset_begins_def)
  next
    case (Some m)
    have "pool_moves i (Some k) (p\<lparr>pl_locked := (pl_locked p)(k := True)\<rparr>)
      (goes_to i (ResetCloses k m) (take_out k (p\<lparr>pl_locked := (pl_locked p)(k := True)\<rparr>)))" by (intro moves_out) auto
    from moves_take_ok [OF this ok i at free] show ?thesis using Some free by (simp add: reset_begins_def)
  qed
qed

lemma reset_ends_ok:
  assumes ok: "pool_ok p" and i: "i < length (pl_at p)" and at: "pl_at p ! i = ResetCloses k m"
  shows "pool_ok (reset_ends i k p)"
proof -
  have "pool_ok (goes_to i Idle (frees_lock k (forget_memory k p)))" by (rule gives_ok) (use ok i at in \<open>auto simp: pool_ok_def\<close>)
  then show ?thesis by (simp add: reset_ends_def)
qed

lemma proceeds_ok:
  assumes ok: "pool_ok p" and i: "i < length (pl_at p)"
  shows "pool_ok (proceeds cfg i p)"
proof -
  note mv = moves_ok [OF _ ok i]
  have closed: "pool_ok (process_closed cfg m p)" for m by (rule frame_ok [OF ok]) auto
  have freed: "pool_ok (release_permits cfg g p)" for g by (rule frame_ok [OF ok]) auto
  show ?thesis
  proof (cases "pl_at p ! i")
    case (AwaitsTurn a)
    then show ?thesis using turn_begins_ok [OF ok i] ok by (simp add: proceeds_def split: option.splits)
  next
    case (ClosesOld a m)
    then show ?thesis using mv [OF closed_moves [of i _ cfg m], of "acquires cfg i a (process_closed cfg m p)"] acquires_moves [of i a] by (simp add: proceeds_def)
  next
    case (AwaitsAgentSlot a)
    then show ?thesis using got_agent_slot_moves [of cfg i a p] ok mv [of "got_agent_slot cfg i a p"] by (auto simp: proceeds_def)
  next
    case (RoomForAgent a m)
    then show ?thesis by (simp add: proceeds_def) (rule mv [OF closed_moves [OF moves_goes]]; simp)
  next
    case (AwaitsSlot a)
    then show ?thesis using got_slot_moves [OF AwaitsSlot] ok mv [of "got_slot i a p"] by (auto simp: proceeds_def)
  next
    case (RoomForAll a m)
    then show ?thesis by (simp add: proceeds_def) (rule mv [OF closed_moves [OF moves_goes]]; simp)
  next
    case (Spawns a s)
    then show ?thesis using process_started_ok [OF ok i] by (simp add: proceeds_def)
  next
    case (ClosesBroken a m)
    then show ?thesis using ends_turn_ok [OF closed [of m]] i by (simp add: proceeds_def)
  next
    case (ClosesOneshot a)
    then show ?thesis by (simp add: proceeds_def) (rule mv [OF freed_moves [OF moves_goes]]; simp)
  next
    case (SweepCloses m ks)
    then show ?thesis using moves_unlocked_ok [OF closed_moves [OF sweep_moves] ok i] by (simp add: proceeds_def)
  next
    case (CancelCloses m k r)
    then show ?thesis using moves_unlocked_ok [OF closed_moves [OF after_cancel_moves] ok i] by (simp add: proceeds_def)
  next
    case (AwaitsReset k)
    then show ?thesis using reset_begins_ok [OF ok i] by (simp add: proceeds_def)
  next
    case (ResetCloses k m)
    then show ?thesis using reset_ends_ok [OF closed [of m]] i by (simp add: proceeds_def)
  qed (use ok in \<open>simp_all add: proceeds_def\<close>)
qed

lemma stops_waiting_ok:
  assumes ok: "pool_ok p" and i: "i < length (pl_at p)"
  shows "pool_ok (stops_waiting cfg i p)"
proof -
  note mv = moves_ok [OF _ ok i]
  have closed: "pool_ok (process_closed cfg m p)" "pool_ok (process_closed cfg m (gives_up_waiting p))" "pool_ok (gives_up_waiting p)" for m
    by (rule frame_ok [OF ok]; simp)+
  note ends = ends_turn_ok [OF ok i] ends_turn_ok [OF closed(1)] ends_turn_ok [OF closed(2)] ends_turn_ok [OF closed(3)]
  have idle: "pool_ok (goes_to i Idle p)" if "locks (pl_at p ! i) = None"
    using that by (intro mv moves_goes) (auto simp: locked_none)
  show ?thesis
  proof (cases "pl_at p ! i")
    case (Prompts a)
    then show ?thesis using prompt_ends_ok [OF ok i] by (simp add: stops_waiting_def)
  next
    case (ClosesOneshot a)
    then show ?thesis by (simp add: stops_waiting_def) (rule mv [OF freed_moves [OF moves_goes]]; simp)
  next
    case (SweepCloses m ks)
    then show ?thesis by (simp add: stops_waiting_def) (rule mv [OF closed_moves [OF moves_goes]]; simp)
  next
    case (CancelCloses m k r)
    then show ?thesis by (simp add: stops_waiting_def) (rule mv [OF closed_moves [OF moves_goes]]; simp)
  next
    case (ResetCloses k m)
    then show ?thesis using gives_ok [OF closed(1) [of m], of i k] i by (simp add: stops_waiting_def)
  qed (use ends i idle in \<open>simp_all add: stops_waiting_def\<close>)
qed

lemma abandoned_ok: "pool_ok p \<Longrightarrow> i < length (pl_at p) \<Longrightarrow> pool_ok (abandoned cfg i p)"
  by (simp add: abandoned_def stops_waiting_ok)

lemma times_out_ok:
  assumes ok: "pool_ok p" and i: "i < length (pl_at p)"
  shows "pool_ok (times_out cfg i p)" "pool_ok (spawn_fails cfg i p)"
proof -
  have up: "pool_ok (gives_up_waiting p)" "pool_ok (gives_up_waiting (p\<lparr>pl_agent_free := f\<rparr>))" "pool_ok (release_permits cfg g p)" for f g
    by (rule frame_ok [OF ok]; simp)+
  note ends = ends_turn_ok [OF up(1)] ends_turn_ok [OF up(2)] ends_turn_ok [OF up(3)]
  show "pool_ok (times_out cfg i p)" using ok i ends by (simp add: times_out_def split: pool_phase.splits)
  show "pool_ok (spawn_fails cfg i p)" using ok i ends by (simp add: spawn_fails_def split: pool_phase.splits)
qed

lemma pool_do_ok:
  assumes ok: "pool_ok p"
  shows "pool_ok (pool_do cfg op p)"
proof -
  have idle: "pool_ok (if_idle i f p)" if "pool_moves i None p (f p)" for i f
    using ok that moves_unlocked_ok [OF that ok] by (simp add: if_idle_def)
  have comes: "pool_moves i None p (turn_comes cfg i a p)" for i a
    using acquires_moves [of i a p cfg] by (auto simp: turn_comes_def split: option.splits intro!: moves_goes)
  note sub = proceeds_ok [OF ok] abandoned_ok [OF ok] times_out_ok [OF ok] prompt_ends_ok [OF ok] moves_unlocked_ok [OF cancel_ends_moves ok]
  show ?thesis
    using ok sub by (cases op)
      (auto simp: if_there_def pool_ok_def [of "_\<lparr>pl_now := _\<rparr>"] intro!: idle comes sweep_moves cancel_comes_moves split: pool_phase.splits,
       simp_all add: pool_ok_def)
qed

lemma new_pool_ok: "pool_ok (new_pool cfg n)"
  by (simp add: pool_ok_def new_pool_def locks_ok_def prompts_ok_def cong: conj_cong)

lemma pool_run_ok: "pool_ok p \<Longrightarrow> pool_ok (pool_run cfg ops p)"
  unfolding pool_run_def by (induction ops arbitrary: p) (auto intro: pool_do_ok)

section \<open>The account of the slots\<close>

text \<open>
  One count for all slots (\<open>None\<close>) and one for each agent's: a process of an agent weighs one in the first and in its agent's; a turn
  that waits for a slot of all already has its agent's.
\<close>

fun weighs :: "string option \<Rightarrow> string \<Rightarrow> nat" where
  "weighs None a = 1"
| "weighs (Some g) a = (if a = g then 1 else 0)"

definition queues :: "string option \<Rightarrow> string \<Rightarrow> nat" where
  "queues g a = (if g = None then 0 else weighs g a)"

fun slots_of :: "string option \<Rightarrow> pool_phase \<Rightarrow> nat" where
  "slots_of g (ClosesOld a m) = weighs g (mg_agent m)"
| "slots_of g (RoomForAgent a m) = weighs g (mg_agent m)"
| "slots_of g (AwaitsSlot a) = queues g (ta_agent a)"
| "slots_of g (RoomForAll a m) = weighs g (mg_agent m) + queues g (ta_agent a)"
| "slots_of g (Spawns a s) = weighs g (ta_agent a)"
| "slots_of g (Prompts a) = (if ta_key a = None then weighs g (ta_agent a) else 0)"
| "slots_of g (ClosesBroken a m) = weighs g (mg_agent m)"
| "slots_of g (ClosesOneshot a) = weighs g (ta_agent a)"
| "slots_of g (SweepCloses m ks) = weighs g (mg_agent m)"
| "slots_of g (CancelCloses m k r) = weighs g (mg_agent m)"
| "slots_of g (ResetCloses k m) = weighs g (mg_agent m)"
| "slots_of g _ = 0"

definition summed :: "('a \<Rightarrow> nat) \<Rightarrow> 'a list \<Rightarrow> nat" where
  "summed f xs = sum_list (map f xs)"

definition free_of :: "string option \<Rightarrow> pool \<Rightarrow> nat" where
  "free_of g p = (case g of None \<Rightarrow> pl_free p | Some a \<Rightarrow> pl_agent_free p a)"

definition alive_of :: "string option \<Rightarrow> pool \<Rightarrow> nat" where
  "alive_of g p = summed (\<lambda>m. weighs g (mg_agent m)) (pl_sessions p)"

definition account :: "string option \<Rightarrow> pool \<Rightarrow> nat" where
  "account g p = free_of g p + alive_of g p + summed (slots_of g) (pl_at p)"

definition slots :: "pool_config \<Rightarrow> string option \<Rightarrow> nat" where
  "slots cfg g = (case g of None \<Rightarrow> pc_capacity cfg | Some a \<Rightarrow> pc_per_agent cfg)"

definition counted :: "pool_config \<Rightarrow> string option \<Rightarrow> bool" where
  "counted cfg g \<longleftrightarrow> (g = None \<or> bounded cfg)"

lemma summed_simps [simp]: "summed f [] = 0" "summed f (x # xs) = f x + summed f xs" "summed f (xs @ ys) = summed f xs + summed f ys"
  by (simp_all add: summed_def)

lemma summed_upd: "i < length xs \<Longrightarrow> summed f (xs[i := x]) + f (xs ! i) = summed f xs + f x"
  by (induction xs arbitrary: i) (auto split: nat.splits simp: nth_Cons' list_update.simps)

lemma summed_upd_where: "(\<And>m. f (g m) = f m) \<Longrightarrow> summed f (upd_where P g xs) = summed f xs"
  by (induction xs) auto

lemma summed_out: "distinct (map mg_key S) \<Longrightarrow> m \<in> set S \<Longrightarrow> summed f (del_where (with_key (mg_key m)) S) + f m = summed f S"
proof (induction S)
  case (Cons x S)
  show ?case
  proof (cases "x = m")
    case True
    have "mg_key y \<noteq> mg_key m" if "y \<in> set S" for y
    proof
      assume "mg_key y = mg_key m"
      with imageI [OF that, of mg_key] have "mg_key m \<in> mg_key ` set S" by simp
      with Cons.prems(1) True show False by simp
    qed
    then have "del_where (with_key (mg_key m)) S = S" by (auto simp: del_where_def with_key_def filter_id_conv)
    then show ?thesis using True by (simp add: del_where_def with_key_def)
  next
    case False
    then have "m \<in> set S" "mg_key x \<noteq> mg_key m" using Cons.prems by auto
    then show ?thesis using Cons by (simp add: del_where_def with_key_def)
  qed
qed simp

lemma account_goes: "i < length (pl_at p) \<Longrightarrow> account g (goes_to i x p) + slots_of g (pl_at p ! i) = account g p + slots_of g x"
  using summed_upd [of i "pl_at p" "slots_of g" x] by (simp add: account_def alive_of_def free_of_def goes_to_def split: option.splits)

lemma account_out:
  "distinct (map mg_key (pl_sessions p)) \<Longrightarrow> m \<in> set (pl_sessions p) \<Longrightarrow> account g (take_out (mg_key m) p) + weighs g (mg_agent m) = account g p"
  using summed_out [of "pl_sessions p" m "\<lambda>m. weighs g (mg_agent m)"]
  by (simp add: account_def alive_of_def free_of_def take_out_def revoke_proof_def split: option.splits)

lemma account_release: "counted cfg g \<Longrightarrow> account g (release_permits cfg a p) = account g p + weighs g a"
  by (cases g) (auto simp: account_def alive_of_def free_of_def release_permits_def counted_def Let_def)

lemma account_closed: "counted cfg g \<Longrightarrow> account g (process_closed cfg m p) = account g p + weighs g (mg_agent m)"
  unfolding process_closed_def by (subst account_release) (simp_all add: account_def alive_of_def free_of_def revoke_proof_def split: option.splits)

lemma account_frame [simp]:
  "account g (gives_up_waiting p) = account g p" "account g (frees_lock k p) = account g p" "account g (unlock a p) = account g p"
  "account g (forget_memory k p) = account g p" "account g (issue_proof k p) = account g p"
  "account g (pl_waiting_update f1 p) = account g p" "account g (pl_locked_update f2 p) = account g p"
  "account g (pl_next_proof_update f3 p) = account g p" "account g (pl_memory_update f4 p) = account g p" "account g (pl_now_update f5 p) = account g p"
  by (simp_all add: account_def alive_of_def free_of_def gives_up_waiting_def frees_lock_def unlock_def forget_memory_def issue_proof_def split: option.splits)

abbreviation one_each :: "pool \<Rightarrow> bool" where
  "one_each p \<equiv> distinct (map mg_key (pl_sessions p))"

lemma one_each_ok: "pool_ok p \<Longrightarrow> one_each p"
  using prompts_ok_distinct unfolding pool_ok_def by blast

lemma account_goes_out:
  assumes "one_each p" and "session_of k p = Some m" and "i < length (pl_at p)"
  shows "account g (goes_to i x (take_out k p)) + weighs g (mg_agent m) + slots_of g (pl_at p ! i) = account g p + slots_of g x"
  using account_goes [of i "take_out k p" g x] account_out [OF assms(1), of m g] session_of_Some [OF assms(2)] assms(3) by auto

lemma session_of_unique: "one_each p \<Longrightarrow> m \<in> set (pl_sessions p) \<Longrightarrow> session_of (mg_key m) p = Some m"
  unfolding session_of_def by (rule fetchone_unique [where k = mg_key and x = "mg_key m"]) (auto simp: with_key_def)

lemma room_victim_in: "room_victim cfg agent p = Some m \<Longrightarrow> m \<in> set (evictable agent p)"
  unfolding room_victim_def by (auto split: if_splits list.splits) (metis list.set_intros(1) set_sort)

lemma evictable_in: "m \<in> set (evictable agent p) \<Longrightarrow> m \<in> set (pl_sessions p)"
  by (simp add: evictable_def)

lemma account_awaits_all:
  assumes "one_each p" and "i < length (pl_at p)"
  shows "account g (awaits_all cfg i a p) + slots_of g (pl_at p ! i) = account g p + queues g (ta_agent a)"
proof -
  have "account g (goes_to i (AwaitsSlot a) p) + slots_of g (pl_at p ! i) = account g p + queues g (ta_agent a)"
    using account_goes [OF assms(2), of g "AwaitsSlot a"] by simp
  moreover have "account g (goes_to i (RoomForAll a m) (take_out (mg_key m) p)) + slots_of g (pl_at p ! i) = account g p + queues g (ta_agent a)"
    if "room_victim cfg None p = Some m" for m
    using account_goes_out [OF assms(1) session_of_unique [OF assms(1) evictable_in [OF room_victim_in [OF that]]] assms(2), of g "RoomForAll a m"] by simp
  ultimately show ?thesis by (simp add: awaits_all_def split: option.splits)
qed

lemma account_acquires:
  assumes d: "one_each p" and i: "i < length (pl_at p)" and g: "counted cfg g"
  shows "account g (acquires cfg i a p) + slots_of g (pl_at p ! i) = account g p"
proof -
  let ?p1 = "p\<lparr>pl_waiting := Suc (pl_waiting p)\<rparr>"
  have d': "one_each ?p1" and i': "i < length (pl_at ?p1)" using d i by simp_all
  have "account g (awaits_all cfg i a ?p1) + slots_of g (pl_at p ! i) = account g p" if "\<not> bounded cfg"
    using account_awaits_all [OF d' i', of g cfg a] g that by (simp add: counted_def queues_def)
  moreover have "account g (goes_to i (AwaitsAgentSlot a) ?p1) + slots_of g (pl_at p ! i) = account g p" using account_goes [OF i', of g "AwaitsAgentSlot a"] by simp
  moreover have "account g (goes_to i (RoomForAgent a m) (take_out (mg_key m) ?p1)) + slots_of g (pl_at p ! i) = account g p"
    if "room_victim cfg (Some (ta_agent a)) ?p1 = Some m" for m
    using account_goes_out [OF d' session_of_unique [OF d' evictable_in [OF room_victim_in [OF that]]] i', of g "RoomForAgent a m"] by simp
  ultimately show ?thesis unfolding acquires_def Let_def by (simp split: option.splits)
qed

lemma account_agent_free:
  "account g (p\<lparr>pl_agent_free := (pl_agent_free p)(a := n)\<rparr>) + (if g = Some a then pl_agent_free p a else 0) = account g p + (if g = Some a then n else 0)"
  by (auto simp: account_def free_of_def alive_of_def split: option.splits)

lemma account_got_agent_slot:
  assumes "one_each p" and "i < length (pl_at p)" and "pl_at p ! i = AwaitsAgentSlot a"
  shows "account g (got_agent_slot cfg i a p) = account g p"
proof -
  let ?p1 = "p\<lparr>pl_agent_free := (pl_agent_free p)(ta_agent a := pl_agent_free p (ta_agent a) - 1)\<rparr>"
  have "account g (awaits_all cfg i a ?p1) = account g ?p1 + queues g (ta_agent a)" using account_awaits_all [of ?p1 i g cfg a] assms by simp
  moreover have "account g ?p1 + queues g (ta_agent a) = account g p" if "pl_agent_free p (ta_agent a) \<noteq> 0"
    using account_agent_free [of g p "ta_agent a" "pl_agent_free p (ta_agent a) - 1"] that by (cases g) (auto simp: queues_def)
  ultimately show ?thesis by (simp add: got_agent_slot_def)
qed

lemma account_got_slot:
  assumes i: "i < length (pl_at p)" and at: "pl_at p ! i = AwaitsSlot a"
  shows "account g (got_slot i a p) = account g p"
proof (cases "pl_free p = 0")
  case False
  let ?p1 = "p\<lparr>pl_free := pl_free p - 1, pl_waiting := pl_waiting p - 1\<rparr>"
  have "account g ?p1 + (if g = None then 1 else 0) = account g p" using False by (auto simp: account_def free_of_def alive_of_def split: option.splits)
  moreover have "account g (goes_to i (Spawns a s) q) + queues g (ta_agent a) = account g ?p1 + weighs g (ta_agent a)"
    if "account g q = account g ?p1" "pl_at q = pl_at p" for q s
    using account_goes [of i q g "Spawns a s"] i at that by simp
  ultimately show ?thesis using False by (cases g) (auto simp: got_slot_def Let_def queues_def split: option.splits)
qed (simp add: got_slot_def)

lemma account_prompts: "i < length (pl_at p) \<Longrightarrow> account g (prompts i a p) + slots_of g (pl_at p ! i) = account g p + slots_of g (Prompts a)"
proof -
  assume i: "i < length (pl_at p)"
  have same: "account g (p\<lparr>pl_sessions := upd_where (with_key k) (mg_busy_update (\<lambda>_. True)) (pl_sessions p), pl_memory := M\<rparr>) = account g p" for k M
    by (simp add: account_def free_of_def alive_of_def summed_upd_where split: option.splits)
  have "account g (goes_to i (Prompts a) q) + slots_of g (pl_at p ! i) = account g p + slots_of g (Prompts a)"
    if "account g q = account g p" "pl_at q = pl_at p" for q
    using account_goes [of i q g "Prompts a"] i that by simp
  from this [OF same] this [OF refl refl] show ?thesis by (simp add: prompts_def split: option.splits)
qed

lemma account_goes_from:
  "i < length (pl_at q) \<Longrightarrow> account g (goes_to i Idle q) + slots_of g (pl_at q ! i) = account g q"
  using account_goes [of i q g Idle] by simp

lemma account_ends_turn: "i < length (pl_at p) \<Longrightarrow> account g (ends_turn i a p) + slots_of g (pl_at p ! i) = account g p"
  using account_goes_from [of i "unlock a p" g] by (cases "ta_key a") (simp_all add: ends_turn_def unlock_def)

lemma account_turn_begins:
  assumes ok: "pool_ok p" and i: "i < length (pl_at p)" and g: "counted cfg g" and at: "pl_at p ! i = AwaitsTurn a" and a: "ta_key a = Some k"
  shows "account g (turn_begins cfg i a k p) = account g p"
proof -
  let ?p1 = "p\<lparr>pl_locked := (pl_locked p)(k := True)\<rparr>"
  have d: "one_each ?p1" and i': "i < length (pl_at ?p1)" using one_each_ok [OF ok] i by simp_all
  have s: "session_of k ?p1 = session_of k p" by (simp add: session_of_def)
  have "account g (goes_to i (ClosesOld a m) (take_out k ?p1)) = account g p" if "session_of k p = Some m" for m
    using account_goes_out [OF d _ i', of k m g "ClosesOld a m"] that s at by simp
  moreover have "account g (acquires cfg i a ?p1) = account g p" using account_acquires [OF d i' g, of a] at by simp
  moreover have "account g (prompts i a ?p1) = account g p" using account_prompts [OF i', of g a] at a by simp
  ultimately show ?thesis by (simp add: turn_begins_def Let_def split: option.splits)
qed

lemma account_process_started:
  assumes ok: "pool_ok p" and i: "i < length (pl_at p)" and at: "pl_at p ! i = Spawns a s"
  shows "account g (process_started i a s p) = account g p"
proof (cases "ta_key a")
  case None
  then show ?thesis using account_prompts [OF i, of g a] at by (simp add: process_started_def)
next
  case (Some k)
  have "k \<notin> keys (pl_sessions p)" using starts_alone [of "pl_sessions p" "pl_at p" i k] ok i at Some by (simp add: pool_ok_def)
  then have same: "del_where (with_key k) (pl_sessions p) = pl_sessions p" by (auto simp: del_where_def with_key_def keys_def filter_id_conv)
  let ?q = "p\<lparr>pl_sessions := pl_sessions p @ [new_managed k a s p]\<rparr>"
  have "account g ?q = account g p + weighs g (ta_agent a)" by (simp add: account_def alive_of_def free_of_def new_managed_def split: option.splits)
  then show ?thesis using account_prompts [of i ?q g a] i at Some by (simp add: process_started_def same)
qed

lemma account_prompt_ends:
  assumes ok: "pool_ok p" and i: "i < length (pl_at p)" and at: "pl_at p ! i = Prompts a"
  shows "account g (prompt_ends i a how p) = account g p"
proof (cases "ta_key a")
  case None
  then show ?thesis using account_goes [OF i, of g "ClosesOneshot a"] at by (simp add: prompt_ends_def)
next
  case (Some k)
  have same: "account g (p\<lparr>pl_sessions := S\<rparr>) = account g p" if "summed (\<lambda>m. weighs g (mg_agent m)) S = summed (\<lambda>m. weighs g (mg_agent m)) (pl_sessions p)" for S
    using that by (simp add: account_def free_of_def alive_of_def split: option.splits)
  let ?S = "upd_where (with_key k) (mg_busy_update (\<lambda>_. False)) (pl_sessions p)"
  have S: "account g (p\<lparr>pl_sessions := ?S\<rparr>) = account g p"
    "account g (p\<lparr>pl_sessions := upd_where (with_key k) (mg_last_used_update (\<lambda>_. t)) ?S\<rparr>) = account g p" for t
    by (rule same; simp add: summed_upd_where)+
  have end_of: "account g (ends_turn i a q) = account g q" if "pl_at q = pl_at p" for q
    using account_ends_turn [of i q g a] that i at Some by simp
  have d: "one_each (p\<lparr>pl_sessions := ?S\<rparr>)" using one_each_ok [OF ok] by (simp add: upd_where_keeps)
  have "account g (goes_to i (ClosesBroken a m) (take_out k (p\<lparr>pl_sessions := ?S\<rparr>))) = account g p" if "session_of k (p\<lparr>pl_sessions := ?S\<rparr>) = Some m" for m
    using account_goes_out [OF d that, of i g "ClosesBroken a m"] i at Some S(1) by simp
  then show ?thesis using S end_of by (simp add: prompt_ends_def Some Let_def split: prompt_end.splits option.splits)
qed

lemma account_sweep:
  "one_each p \<Longrightarrow> i < length (pl_at p) \<Longrightarrow> account g (sweep_goes i ks p) + slots_of g (pl_at p ! i) = account g p"
proof (induction i ks p rule: sweep_goes.induct)
  case (2 i k ks p)
  show ?case
  proof (cases "session_of k p")
    case (Some m)
    then show ?thesis using account_goes_out [OF 2(2) Some 2(3), of g "SweepCloses m ks"] by simp
  qed (use 2 in simp)
qed (simp add: account_goes_from)

lemma account_after_cancel: "i < length (pl_at p) \<Longrightarrow> account g (after_cancel i k r p) + slots_of g (pl_at p ! i) = account g p"
  using account_goes [of i p g "AwaitsReset k"] account_goes_from [of i p g] by (simp add: after_cancel_def)

lemma account_cancel:
  assumes d: "one_each p" and i: "i < length (pl_at p)"
  shows "account g (cancel_comes i k r p) + slots_of g (pl_at p ! i) = account g p" (is ?c)
    and "account g (cancel_ends i k r e p) + slots_of g (pl_at p ! i) = account g p" (is ?e)
proof -
  note after = account_after_cancel [OF i, of g k r]
  show ?c using after account_goes [OF i, of g "Cancels k r"] by (simp add: cancel_comes_def split: option.splits)
  have "account g (goes_to i (CancelCloses m k r) (take_out k p)) + slots_of g (pl_at p ! i) = account g p" if "session_of k p = Some m" for m
    using account_goes_out [OF d that i, of g "CancelCloses m k r"] by simp
  then show ?e using after by (simp add: cancel_ends_def split: option.splits)
qed

lemma account_reset_begins:
  assumes d: "one_each p" and i: "i < length (pl_at p)" and at: "pl_at p ! i = AwaitsReset k"
  shows "account g (reset_begins i k p) = account g p"
proof -
  let ?p1 = "p\<lparr>pl_locked := (pl_locked p)(k := True)\<rparr>"
  have "account g (goes_to i (ResetCloses k m) (take_out k ?p1)) = account g p" if "session_of k p = Some m" for m
    using account_goes_out [of ?p1 k m i g "ResetCloses k m"] d i at that by (simp add: session_of_def)
  then show ?thesis using account_goes_from [of i "forget_memory k p" g] i at by (simp add: reset_begins_def split: option.splits)
qed

text \<open>A coroutine that closed a process gave its permits back and then went on.\<close>

lemma account_step:
  assumes ok: "pool_ok p" and g: "counted cfg g" and i: "i < length (pl_at p)"
  shows "account g (proceeds cfg i p) = account g p"
proof -
  have d: "one_each p" by (rule one_each_ok [OF ok])
  have closed: "account g (process_closed cfg m p) = account g p + weighs g (mg_agent m)"
      "one_each (process_closed cfg m p)" "i < length (pl_at (process_closed cfg m p))" for m
    using d i account_closed [OF g] by simp_all
  show ?thesis
  proof (cases "pl_at p ! i")
    case (AwaitsTurn a)
    then show ?thesis using account_turn_begins [OF ok i g AwaitsTurn] by (simp add: proceeds_def split: option.splits)
  next
    case (ClosesOld a m)
    then show ?thesis using account_acquires [OF closed(2,3) [of m] g, of a] closed(1) [of m] by (simp add: proceeds_def)
  next
    case (AwaitsAgentSlot a)
    then show ?thesis using account_got_agent_slot [OF d i AwaitsAgentSlot] by (simp add: proceeds_def)
  next
    case (RoomForAgent a m)
    then show ?thesis using account_goes [OF closed(3) [of m], of g "AwaitsAgentSlot a"] closed(1) [of m] by (simp add: proceeds_def)
  next
    case (AwaitsSlot a)
    then show ?thesis using account_got_slot [OF i AwaitsSlot] by (simp add: proceeds_def)
  next
    case (RoomForAll a m)
    then show ?thesis using account_goes [OF closed(3) [of m], of g "AwaitsSlot a"] closed(1) [of m] by (simp add: proceeds_def)
  next
    case (Spawns a s)
    then show ?thesis using account_process_started [OF ok i Spawns] by (simp add: proceeds_def)
  next
    case (ClosesBroken a m)
    then show ?thesis using account_ends_turn [OF closed(3) [of m], of g a] closed(1) [of m] by (simp add: proceeds_def)
  next
    case (ClosesOneshot a)
    then show ?thesis using account_goes_from [of i "release_permits cfg (ta_agent a) p" g] account_release [OF g] i by (simp add: proceeds_def)
  next
    case (SweepCloses m ks)
    then show ?thesis using account_sweep [OF closed(2,3) [of m], of g ks] closed(1) [of m] by (simp add: proceeds_def)
  next
    case (CancelCloses m k r)
    then show ?thesis using account_after_cancel [OF closed(3) [of m], of g k r] closed(1) [of m] by (simp add: proceeds_def)
  next
    case (AwaitsReset k)
    then show ?thesis using account_reset_begins [OF d i AwaitsReset] by (simp add: proceeds_def)
  next
    case (ResetCloses k m)
    then show ?thesis using account_goes_from [of i "frees_lock k (forget_memory k (process_closed cfg m p))" g] closed(1) [of m] i
      by (simp add: proceeds_def reset_ends_def)
  qed (simp_all add: proceeds_def)
qed

lemma account_times_out:
  assumes g: "counted cfg g" and i: "i < length (pl_at p)"
  shows "account g (times_out cfg i p) = account g p" and "account g (spawn_fails cfg i p) = account g p"
proof -
  let ?q = "\<lambda>a. p\<lparr>pl_agent_free := (pl_agent_free p)(ta_agent a := Suc (pl_agent_free p (ta_agent a)))\<rparr>"
  have gives: "account g (?q a) = account g p + queues g (ta_agent a)" for a
    using account_agent_free [of g p "ta_agent a" "Suc (pl_agent_free p (ta_agent a))"] by (cases g) (auto simp: queues_def split: if_splits)
  show "account g (times_out cfg i p) = account g p"
  proof (cases "pl_at p ! i")
    case (AwaitsAgentSlot a)
    then show ?thesis using account_ends_turn [of i "gives_up_waiting p" g a] i by (simp add: times_out_def)
  next
    case (AwaitsSlot a)
    show ?thesis
    proof (cases "bounded cfg")
      case True
      then show ?thesis using account_ends_turn [of i "gives_up_waiting (?q a)" g a] gives [of a] i AwaitsSlot by (simp add: times_out_def)
    next
      case False
      then have "queues g (ta_agent a) = 0" using g by (simp add: counted_def queues_def)
      then show ?thesis using account_ends_turn [of i "gives_up_waiting p" g a] i AwaitsSlot False by (simp add: times_out_def)
    qed
  qed (simp_all add: times_out_def)
  show "account g (spawn_fails cfg i p) = account g p"
  proof (cases "pl_at p ! i")
    case (Spawns a s)
    then show ?thesis using account_ends_turn [of i "release_permits cfg (ta_agent a) p" g a] account_release [OF g] i by (simp add: spawn_fails_def)
  qed (simp_all add: spawn_fails_def)
qed

lemma account_stops_waiting:
  assumes ok: "pool_ok p" and g: "counted cfg g" and i: "i < length (pl_at p)"
  shows "account g (stops_waiting cfg i p) \<le> account g p"
proof -
  have closed: "account g (process_closed cfg m q) = account g q + weighs g (mg_agent m)" for m q by (rule account_closed [OF g])
  have ends: "account g (ends_turn i a (process_closed cfg m q)) + slots_of g (pl_at q ! i) = account g q + weighs g (mg_agent m)"
    if "i < length (pl_at q)" for a m q
    using account_ends_turn [of i "process_closed cfg m q" g a] closed that by simp
  have stops: "account g (goes_to i Idle (process_closed cfg m p)) + slots_of g (pl_at p ! i) = account g p + weighs g (mg_agent m)" for m
    using account_goes_from [of i "process_closed cfg m p" g] closed i by simp
  show ?thesis
  proof (cases "pl_at p ! i")
    case (Prompts a)
    then show ?thesis using account_prompt_ends [OF ok i Prompts] by (simp add: stops_waiting_def)
  next
    case (ClosesOneshot a)
    then show ?thesis using account_goes_from [of i "release_permits cfg (ta_agent a) p" g] account_release [OF g] i by (simp add: stops_waiting_def)
  next
    case (ClosesOld a m)
    then show ?thesis using ends [OF i, of a m] by (simp add: stops_waiting_def)
  next
    case (RoomForAgent a m)
    then show ?thesis using ends [of "gives_up_waiting p" a m] i by (simp add: stops_waiting_def)
  next
    case (RoomForAll a m)
    then show ?thesis using ends [of "gives_up_waiting p" a m] i by (simp add: stops_waiting_def)
  next
    case (AwaitsAgentSlot a)
    then show ?thesis using account_ends_turn [of i "gives_up_waiting p" g a] i by (simp add: stops_waiting_def)
  next
    case (AwaitsSlot a)
    then show ?thesis using account_ends_turn [of i "gives_up_waiting p" g a] i by (simp add: stops_waiting_def)
  next
    case (Spawns a s)
    then show ?thesis using account_ends_turn [OF i, of g a] by (simp add: stops_waiting_def)
  next
    case (ClosesBroken a m)
    then show ?thesis using ends [OF i, of a m] by (simp add: stops_waiting_def)
  next
    case (SweepCloses m ks)
    then show ?thesis using stops [of m] by (simp add: stops_waiting_def)
  next
    case (CancelCloses m k r)
    then show ?thesis using stops [of m] by (simp add: stops_waiting_def)
  next
    case (ResetCloses k m)
    then show ?thesis using account_goes_from [of i "frees_lock k (process_closed cfg m p)" g] closed [of m p] i by (simp add: stops_waiting_def)
  qed (use account_goes_from [OF i, of g] in \<open>simp_all add: stops_waiting_def\<close>)
qed

lemma account_abandoned:
  "pool_ok p \<Longrightarrow> counted cfg g \<Longrightarrow> i < length (pl_at p) \<Longrightarrow> account g (abandoned cfg i p) \<le> account g p"
  using account_stops_waiting [of p cfg g i] by (cases g) (simp_all add: abandoned_def account_def free_of_def alive_of_def)

fun abandons :: "pool_op \<Rightarrow> bool" where
  "abandons (Abandoned i) = True"
| "abandons _ = False"

lemma account_do:
  assumes ok: "pool_ok p" and g: "counted cfg g" and op: "\<not> abandons op"
  shows "account g (pool_do cfg op p) = account g p"
proof -
  have d: "one_each p" by (rule one_each_ok [OF ok])
  have idle: "account g (if_idle i f p) = account g p" if "i < length (pl_at p) \<Longrightarrow> account g (f p) + slots_of g (pl_at p ! i) = account g p" for i f
    using that by (auto simp: if_idle_def)
  have comes: "account g (turn_comes cfg i a p) + slots_of g (pl_at p ! i) = account g p" if "i < length (pl_at p)" for i a
    using account_acquires [OF d that g, of a] account_goes [OF that, of g "AwaitsTurn a"] by (simp add: turn_comes_def split: option.splits)
  show ?thesis
  proof (cases op)
    case (CancelEnds i e)
    then show ?thesis using account_cancel(2) [OF d, of i g] by (fastforce simp: if_there_def split: pool_phase.splits)
  next
    case (PromptEnds i how)
    then show ?thesis using account_prompt_ends [OF ok] by (auto simp: if_there_def split: pool_phase.splits)
  qed (use op account_step [OF ok g] account_times_out [OF g] comes account_sweep [OF d] account_cancel(1) [OF d] in
      \<open>auto simp: if_there_def intro!: idle\<close>)
qed

lemma account_do_le: "pool_ok p \<Longrightarrow> counted cfg g \<Longrightarrow> account g (pool_do cfg op p) \<le> account g p"
  using account_do [of p cfg g op] account_abandoned [of p cfg g] by (cases op) (auto simp: if_there_def)

lemma summed_replicate_0: "f x = 0 \<Longrightarrow> summed f (replicate n x) = 0"
  by (induction n) auto

lemma account_new: "account g (new_pool cfg n) = slots cfg g"
  by (simp add: account_def new_pool_def alive_of_def free_of_def slots_def summed_replicate_0 split: option.splits)

lemma account_run_le: "pool_ok p \<Longrightarrow> counted cfg g \<Longrightarrow> account g (pool_run cfg ops p) \<le> account g p"
proof (induction ops arbitrary: p)
  case (Cons op ops)
  then have "account g (pool_run cfg ops (pool_do cfg op p)) \<le> account g (pool_do cfg op p)" by (simp add: pool_do_ok)
  then show ?case using account_do_le [OF Cons.prems, of op] by (simp add: pool_run_def)
qed (simp add: pool_run_def)

lemma account_run: "pool_ok p \<Longrightarrow> counted cfg g \<Longrightarrow> \<not> list_ex abandons ops \<Longrightarrow> account g (pool_run cfg ops p) = account g p"
proof (induction ops arbitrary: p)
  case (Cons op ops)
  then have "account g (pool_run cfg ops (pool_do cfg op p)) = account g (pool_do cfg op p)" by (simp add: pool_do_ok)
  then show ?case using account_do [OF Cons.prems(1,2), of op] Cons.prems(3) by (simp add: pool_run_def)
qed (simp add: pool_run_def)

section \<open>The proofs\<close>

text \<open>The session a phase closes the process of, and what a spawn was given to prove itself with.\<close>

fun being_closed :: "pool_phase \<Rightarrow> managed option" where
  "being_closed (ClosesOld a m) = Some m"
| "being_closed (RoomForAgent a m) = Some m"
| "being_closed (RoomForAll a m) = Some m"
| "being_closed (ClosesBroken a m) = Some m"
| "being_closed (SweepCloses m ks) = Some m"
| "being_closed (CancelCloses m k r) = Some m"
| "being_closed (ResetCloses k m) = Some m"
| "being_closed _ = None"

fun spawning :: "pool_phase \<Rightarrow> (turn_ask \<times> nat) option" where
  "spawning (Spawns a s) = Some (a, s)"
| "spawning _ = None"

definition ids :: "managed list \<Rightarrow> (string \<times> nat) set" where
  "ids ms = set (map (\<lambda>m. (mg_key m, mg_proof m)) ms)"

lemma ids_simps [simp]:
  "ids [] = {}" "ids (ms @ [m]) = insert (mg_key m, mg_proof m) (ids ms)" "ids (del_where P ms) \<subseteq> ids ms"
  by (auto simp: ids_def)

lemma ids_in: "m \<in> set S \<Longrightarrow> (mg_key m, mg_proof m) \<in> ids S"
  by (auto simp: ids_def)

lemma ids_upd [simp]: "(\<And>m. mg_key (f m) = mg_key m \<and> mg_proof (f m) = mg_proof m) \<Longrightarrow> ids (upd_where P f ms) = ids ms"
  by (simp add: ids_def upd_where_keeps del: set_map)

definition proofs_ok :: "pool \<Rightarrow> bool" where
  "proofs_ok p \<longleftrightarrow>
     (\<forall>k s. pl_proofs p k = Some s \<longrightarrow> s < pl_next_proof p)
     \<and> (\<forall>k s. (k, s) \<in> ids (pl_sessions p) \<longrightarrow> s < pl_next_proof p \<and> (pl_proofs p k = None \<or> pl_proofs p k = Some s))
     \<and> (\<forall>ph \<in> set (pl_at p). \<forall>a s k. spawning ph = Some (a, s) \<and> ta_key a = Some k \<longrightarrow>
          s < pl_next_proof p \<and> (pl_proofs p k = None \<or> pl_proofs p k = Some s))
     \<and> (\<forall>ph \<in> set (pl_at p). \<forall>m. being_closed ph = Some m \<longrightarrow> mg_proof m < pl_next_proof p \<and> pl_proofs p (mg_key m) \<noteq> Some (mg_proof m))"

lemma proofs_ok_frame:
  "proofs_ok p \<Longrightarrow> pl_proofs q = pl_proofs p \<Longrightarrow> pl_next_proof q = pl_next_proof p \<Longrightarrow> pl_sessions q = pl_sessions p \<Longrightarrow> pl_at q = pl_at p \<Longrightarrow> proofs_ok q"
  by (simp only: proofs_ok_def)

text \<open>Most steps only take proofs away; a session whose process they close has none from then on.\<close>

definition revokes :: "pool \<Rightarrow> pool \<Rightarrow> bool" where
  "revokes p q \<longleftrightarrow>
     (\<forall>k. pl_proofs q k = None \<or> pl_proofs q k = pl_proofs p k) \<and> pl_next_proof p \<le> pl_next_proof q \<and> ids (pl_sessions q) \<subseteq> ids (pl_sessions p)"

definition proof_quiet :: "nat \<Rightarrow> pool \<Rightarrow> pool \<Rightarrow> bool" where
  "proof_quiet i p p' \<longleftrightarrow> revokes p p'
     \<and> (\<exists>x. pl_at p' = (pl_at p)[i := x] \<and> spawning x = None
          \<and> (\<forall>m. being_closed x = Some m \<longrightarrow> (mg_key m, mg_proof m) \<in> ids (pl_sessions p) \<and> pl_proofs p' (mg_key m) = None))"

lemma quiet_ok:
  assumes ok: "proofs_ok p" and q: "proof_quiet i p p'"
  shows "proofs_ok p'"
proof -
  from q obtain x where x: "pl_at p' = (pl_at p)[i := x]" "spawning x = None"
    "\<And>m. being_closed x = Some m \<Longrightarrow> (mg_key m, mg_proof m) \<in> ids (pl_sessions p) \<and> pl_proofs p' (mg_key m) = None"
    and r: "\<And>k. pl_proofs p' k = None \<or> pl_proofs p' k = pl_proofs p k" "pl_next_proof p \<le> pl_next_proof p'" "ids (pl_sessions p') \<subseteq> ids (pl_sessions p)"
    unfolding proof_quiet_def revokes_def by blast
  have in_at: "ph = x \<or> ph \<in> set (pl_at p)" if "ph \<in> set (pl_at p')" for ph using that x(1) set_update_subset_insert [of "pl_at p" i x] by auto
  have "s < pl_next_proof p'" if "pl_proofs p' k = Some s" for k s
    using ok r(1) [of k] r(2) that unfolding proofs_ok_def by (metis option.distinct(1) order_less_le_trans)
  moreover have "s < pl_next_proof p' \<and> (pl_proofs p' k = None \<or> pl_proofs p' k = Some s)" if "(k, s) \<in> ids (pl_sessions p')" for k s
    using ok r(1) [of k] r(2,3) that unfolding proofs_ok_def by (metis order_less_le_trans subsetD)
  moreover have "s < pl_next_proof p' \<and> (pl_proofs p' k = None \<or> pl_proofs p' k = Some s)"
    if "ph \<in> set (pl_at p')" "spawning ph = Some (a, s)" "ta_key a = Some k" for ph a s k
    using ok r(1) [of k] r(2) in_at [OF that(1)] that(2,3) x(2) unfolding proofs_ok_def by (metis option.distinct(1) order_less_le_trans)
  moreover have "mg_proof m < pl_next_proof p' \<and> pl_proofs p' (mg_key m) \<noteq> Some (mg_proof m)" if "ph \<in> set (pl_at p')" "being_closed ph = Some m" for ph m
  proof (cases "ph = x")
    case True
    then show ?thesis using x(3) that(2) ok r(2) unfolding proofs_ok_def by (metis option.distinct(1) order_less_le_trans)
  next
    case False
    then show ?thesis using in_at [OF that(1)] that(2) ok r(1) [of "mg_key m"] r(2) unfolding proofs_ok_def by (metis option.distinct(1) order_less_le_trans)
  qed
  ultimately show ?thesis unfolding proofs_ok_def by blast
qed

lemma proofs_frame [simp]:
  "pl_proofs (goes_to i x p) = pl_proofs p" "pl_next_proof (goes_to i x p) = pl_next_proof p"
  "pl_proofs (take_out k p) = (pl_proofs p)(k := None)" "pl_next_proof (take_out k p) = pl_next_proof p"
  "pl_proofs (release_permits cfg g p) = pl_proofs p" "pl_next_proof (release_permits cfg g p) = pl_next_proof p"
  "pl_proofs (process_closed cfg m p) = (pl_proofs p)(mg_key m := None)" "pl_next_proof (process_closed cfg m p) = pl_next_proof p"
  "pl_proofs (gives_up_waiting p) = pl_proofs p" "pl_next_proof (gives_up_waiting p) = pl_next_proof p"
  "pl_proofs (frees_lock k p) = pl_proofs p" "pl_next_proof (frees_lock k p) = pl_next_proof p"
  "pl_proofs (forget_memory k p) = pl_proofs p" "pl_next_proof (forget_memory k p) = pl_next_proof p"
  "pl_proofs (unlock a p) = pl_proofs p" "pl_next_proof (unlock a p) = pl_next_proof p"
  "pl_sessions (unlock a p) = pl_sessions p" "pl_at (unlock a p) = pl_at p"
  by (simp_all add: goes_to_def take_out_def revoke_proof_def release_permits_def process_closed_def gives_up_waiting_def frees_lock_def
      forget_memory_def unlock_def Let_def split: option.splits)

lemma revokes_same [simp]: "revokes p p"
  by (simp add: revokes_def)

lemma quiet_goes: "spawning x = None \<Longrightarrow> being_closed x = None \<Longrightarrow> proof_quiet i p (goes_to i x p)"
  unfolding proof_quiet_def revokes_def by auto

lemma quiet_out:
  "session_of k p = Some m \<Longrightarrow> spawning x = None \<Longrightarrow> being_closed x = Some m \<Longrightarrow> proof_quiet i p (goes_to i x (take_out k p))"
  using session_of_Some [of k p m] ids_in [of m "pl_sessions p"] ids_simps(3) [of "with_key k" "pl_sessions p"] unfolding proof_quiet_def revokes_def by auto

lemma quiet_via:
  assumes "proof_quiet i q p'" and "revokes p q" and "pl_at q = pl_at p"
  shows "proof_quiet i p p'"
proof -
  have "pl_proofs p' k = None \<or> pl_proofs p' k = pl_proofs p k" for k using assms unfolding proof_quiet_def revokes_def by metis
  then have "revokes p p'" using assms unfolding proof_quiet_def revokes_def by auto
  moreover from assms(1) obtain x where x: "pl_at p' = (pl_at q)[i := x]" "spawning x = None"
    "\<And>m. being_closed x = Some m \<Longrightarrow> (mg_key m, mg_proof m) \<in> ids (pl_sessions q) \<and> pl_proofs p' (mg_key m) = None" unfolding proof_quiet_def by blast
  moreover have "ids (pl_sessions q) \<subseteq> ids (pl_sessions p)" using assms(2) unfolding revokes_def by blast
  ultimately show ?thesis using assms(3) unfolding proof_quiet_def by (auto intro!: exI [of _ x])
qed

lemma revokes_closed [simp]: "revokes p (process_closed cfg m p)"
  by (simp add: revokes_def)

lemma quiet_victim: "one_each p \<Longrightarrow> room_victim cfg agent p = Some m \<Longrightarrow> spawning x = None \<Longrightarrow> being_closed x = Some m
    \<Longrightarrow> proof_quiet i p (goes_to i x (take_out (mg_key m) p))"
  by (rule quiet_out) (auto intro: session_of_unique dest: evictable_in room_victim_in)

lemma quiet_awaits_all: "one_each p \<Longrightarrow> proof_quiet i p (awaits_all cfg i a p)"
  by (auto simp: awaits_all_def split: option.splits intro!: quiet_goes quiet_victim)

lemma quiet_acquires:
  assumes "one_each p"
  shows "proof_quiet i p (acquires cfg i a p)"
proof -
  let ?p1 = "p\<lparr>pl_waiting := Suc (pl_waiting p)\<rparr>"
  have "one_each ?p1" using assms by simp
  then have "proof_quiet i ?p1 (acquires cfg i a p)" unfolding acquires_def Let_def
    by (auto split: option.splits intro!: quiet_goes quiet_victim quiet_awaits_all)
  then show ?thesis by (rule quiet_via) (simp_all add: revokes_def)
qed

lemma quiet_prompts: "proof_quiet i p (prompts i a p)"
proof -
  have "proof_quiet i p (goes_to i (Prompts a) (p\<lparr>pl_sessions := upd_where P (mg_busy_update (\<lambda>_. True)) (pl_sessions p), pl_memory := M\<rparr>))" for P M
    by (rule quiet_via [OF quiet_goes]) (simp_all add: revokes_def)
  then show ?thesis by (simp add: prompts_def quiet_goes split: option.splits)
qed

lemma prompts_proofs [simp]: "pl_proofs (prompts i a p) = pl_proofs p" "pl_next_proof (prompts i a p) = pl_next_proof p"
  by (simp_all add: prompts_def split: option.splits)

lemma quiet_turn_begins:
  assumes d: "one_each p"
  shows "turn_begins cfg i a k p = p \<or> proof_quiet i p (turn_begins cfg i a k p)"
proof -
  let ?p1 = "p\<lparr>pl_locked := (pl_locked p)(k := True)\<rparr>"
  have s: "session_of k ?p1 = session_of k p" by (simp add: session_of_def)
  have d': "one_each ?p1" using d by simp
  have out: "proof_quiet i ?p1 (goes_to i (ClosesOld a m) (take_out k ?p1))" if "session_of k p = Some m" for m
    by (rule quiet_out) (use that s in simp_all)
  have "proof_quiet i ?p1 (turn_begins cfg i a k p)" if "\<not> pl_locked p k"
    using that out quiet_acquires [OF d', of i cfg a] quiet_prompts [of i ?p1 a] by (simp add: turn_begins_def Let_def split: option.splits)
  moreover have "revokes p ?p1" by (simp add: revokes_def)
  ultimately have "proof_quiet i p (turn_begins cfg i a k p)" if "\<not> pl_locked p k" using that quiet_via [of i ?p1 _ p] by simp
  then show ?thesis by (cases "pl_locked p k") (simp_all add: turn_begins_def)
qed

lemma quiet_sweep: "proof_quiet i p (sweep_goes i ks p)"
  by (induction i ks p rule: sweep_goes.induct) (auto split: option.splits intro!: quiet_goes quiet_out)

lemma quiet_cancel: "proof_quiet i p (after_cancel i k r p)" "proof_quiet i p (cancel_comes i k r p)" "proof_quiet i p (cancel_ends i k r e p)"
proof -
  show after: "proof_quiet i p (after_cancel i k r p)" by (simp add: after_cancel_def quiet_goes)
  then show "proof_quiet i p (cancel_comes i k r p)" by (simp add: cancel_comes_def quiet_goes split: option.splits)
  show "proof_quiet i p (cancel_ends i k r e p)" using after by (auto simp: cancel_ends_def split: option.splits intro!: quiet_out)
qed

lemma quiet_reset_begins: "reset_begins i k p = p \<or> proof_quiet i p (reset_begins i k p)"
proof -
  let ?p1 = "p\<lparr>pl_locked := (pl_locked p)(k := True)\<rparr>"
  have "proof_quiet i p (goes_to i (ResetCloses k m) (take_out k ?p1))" if "session_of k p = Some m" for m
    by (rule quiet_via [of i ?p1], rule quiet_out) (use that in \<open>simp_all add: session_of_def revokes_def\<close>)
  moreover have "proof_quiet i p (goes_to i Idle (forget_memory k p))"
    by (rule quiet_via [OF quiet_goes]) (simp_all add: revokes_def)
  ultimately show ?thesis by (simp add: reset_begins_def split: option.splits)
qed

lemma quiet_ends: "revokes p q \<Longrightarrow> pl_at q = pl_at p \<Longrightarrow> proof_quiet i p (goes_to i Idle q)"
  by (rule quiet_via [OF quiet_goes]) simp_all

lemma quiet_ends_turn: "revokes p q \<Longrightarrow> pl_at q = pl_at p \<Longrightarrow> proof_quiet i p (ends_turn i a q)"
  unfolding ends_turn_def by (rule quiet_ends) (simp_all add: revokes_def)

lemma quiet_prompt_ends:
  assumes "pl_at p ! i = Prompts a"
  shows "proof_quiet i p (prompt_ends i a how p)"
proof (cases "ta_key a")
  case None
  then show ?thesis by (simp add: prompt_ends_def quiet_goes)
next
  case (Some k)
  let ?S = "upd_where (with_key k) (mg_busy_update (\<lambda>_. False)) (pl_sessions p)"
  have r: "revokes p (p\<lparr>pl_sessions := ?S\<rparr>)" "revokes p (p\<lparr>pl_sessions := upd_where (with_key k) (mg_last_used_update (\<lambda>_. t)) ?S\<rparr>)" for t
    by (simp_all add: revokes_def)
  have "proof_quiet i p (goes_to i (ClosesBroken a m) (take_out k (p\<lparr>pl_sessions := ?S\<rparr>)))" if "session_of k (p\<lparr>pl_sessions := ?S\<rparr>) = Some m" for m
    by (rule quiet_via [OF quiet_out [OF that]]) (use r in simp_all)
  then show ?thesis using quiet_ends_turn [OF r(1), where i = i and a = a] quiet_ends_turn [OF r(2), where i = i and a = a]
    by (simp add: prompt_ends_def Some Let_def split: prompt_end.splits option.splits)
qed

lemma proofs_ok_issue:
  assumes pool: "pool_ok p" and ok: "proofs_ok p" and i: "i < length (pl_at p)" and at: "pl_at p ! i = AwaitsSlot a"
  shows "proofs_ok (got_slot i a p)"
proof (cases "pl_free p = 0")
  case True
  then show ?thesis using ok by (simp add: got_slot_def)
next
  case False
  let ?n = "pl_next_proof p" and ?p' = "got_slot i a p"
  have at': "pl_at ?p' = (pl_at p)[i := Spawns a ?n]" and S: "pl_sessions ?p' = pl_sessions p" and next': "pl_next_proof ?p' = Suc ?n"
    and pr: "pl_proofs ?p' = (case ta_key a of None \<Rightarrow> pl_proofs p | Some k \<Rightarrow> (pl_proofs p)(k \<mapsto> ?n))"
    using False by (simp_all add: got_slot_def Let_def goes_to_def issue_proof_def split: option.splits)
  have same: "pl_proofs ?p' k = pl_proofs p k" if "ta_key a \<noteq> Some k" for k using that pr by (auto split: option.splits)
  have fresh: "pl_proofs ?p' k = Some ?n" if "ta_key a = Some k" for k using that pr by simp
  have in_at: "ph = Spawns a ?n \<or> (ph \<in> set (pl_at p) \<and> (\<forall>k. ta_key a = Some k \<longrightarrow> locks ph \<noteq> Some k))" if ph: "ph \<in> set (pl_at ?p')" for ph
  proof -
    from ph obtain j where j: "j < length (pl_at p)" "ph = (pl_at p)[i := Spawns a ?n] ! j" by (auto simp: at' in_set_conv_nth)
    show ?thesis
    proof (cases "j = i")
      case False
      then show ?thesis using j others_locked [OF pool i _ j(1) False] at by (auto simp: nth_upd)
    qed (use j in simp)
  qed
  have new: "k \<notin> keys (pl_sessions p)" if "ta_key a = Some k" for k
    using starts_alone [of "pl_sessions p" "pl_at p" i k] pool i at that by (simp add: pool_ok_def)
  have "s < Suc ?n" if "pl_proofs ?p' k = Some s" for k s
    using that same [of k] fresh [of k] ok unfolding proofs_ok_def by (cases "ta_key a = Some k") (auto simp: less_Suc_eq)
  moreover have "s < Suc ?n \<and> (pl_proofs ?p' k = None \<or> pl_proofs ?p' k = Some s)" if m: "(k, s) \<in> ids (pl_sessions p)" for k s
  proof -
    have "ta_key a \<noteq> Some k" using new [of k] m by (auto simp: ids_def keys_def)
    then show ?thesis using same ok m unfolding proofs_ok_def by (auto simp: less_Suc_eq)
  qed
  moreover have "s < Suc ?n \<and> (pl_proofs ?p' k = None \<or> pl_proofs ?p' k = Some s)"
    if h: "ph \<in> set (pl_at ?p')" "spawning ph = Some (b, s)" "ta_key b = Some k" for ph b s k
    using in_at [OF h(1)]
  proof
    assume "ph = Spawns a ?n"
    then show ?thesis using h(2,3) fresh by simp
  next
    assume old: "ph \<in> set (pl_at p) \<and> (\<forall>k. ta_key a = Some k \<longrightarrow> locks ph \<noteq> Some k)"
    have "locks ph = Some k" using h(2,3) by (cases ph) auto
    then have "ta_key a \<noteq> Some k" using old by blast
    then show ?thesis using same [of k] ok old h(2,3) unfolding proofs_ok_def by (metis less_Suc_eq)
  qed
  moreover have "mg_proof m < Suc ?n \<and> pl_proofs ?p' (mg_key m) \<noteq> Some (mg_proof m)" if h: "ph \<in> set (pl_at ?p')" "being_closed ph = Some m" for ph m
  proof -
    have "ph \<in> set (pl_at p)" using in_at [OF h(1)] h(2) by auto
    then have "mg_proof m < ?n \<and> pl_proofs p (mg_key m) \<noteq> Some (mg_proof m)" using ok h(2) unfolding proofs_ok_def by blast
    then show ?thesis using same [of "mg_key m"] fresh [of "mg_key m"] by (cases "ta_key a = Some (mg_key m)") auto
  qed
  ultimately show ?thesis unfolding proofs_ok_def S next' by blast
qed

lemma proofs_ok_started:
  assumes ok: "proofs_ok p" and i: "i < length (pl_at p)" and at: "pl_at p ! i = Spawns a s"
  shows "proofs_ok (process_started i a s p)"
proof (cases "ta_key a")
  case None
  then show ?thesis using quiet_ok [OF ok quiet_prompts] by (simp add: process_started_def)
next
  case (Some k)
  let ?q = "p\<lparr>pl_sessions := del_where (with_key k) (pl_sessions p) @ [new_managed k a s p]\<rparr>"
  have s: "s < pl_next_proof p \<and> (pl_proofs p k = None \<or> pl_proofs p k = Some s)"
    using ok nth_mem [OF i] at Some unfolding proofs_ok_def by (metis spawning.simps(1))
  have new: "(k', s') = (k, s) \<or> (k', s') \<in> ids (pl_sessions p)" if "(k', s') \<in> ids (pl_sessions ?q)" for k' s'
    using that by (auto simp: new_managed_def dest: subsetD [OF ids_simps(3)])
  have "s' < pl_next_proof p \<and> (pl_proofs p k' = None \<or> pl_proofs p k' = Some s')" if "(k', s') \<in> ids (pl_sessions ?q)" for k' s'
    using new [OF that] s ok unfolding proofs_ok_def by (metis prod.inject)
  then have "proofs_ok ?q" using ok unfolding proofs_ok_def by auto
  then show ?thesis using quiet_ok [OF _ quiet_prompts] Some by (simp add: process_started_def)
qed

text \<open>What a step does to the proofs: nothing, taking some away, issuing one, or handing one to the session it was issued for.\<close>

definition proof_step :: "pool \<Rightarrow> pool \<Rightarrow> bool" where
  "proof_step p p' \<longleftrightarrow>
     (\<exists>t. p' = p\<lparr>pl_now := t\<rparr>) \<or> (\<exists>i. proof_quiet i p p')
     \<or> (\<exists>i < length (pl_at p). \<exists>a. pl_at p ! i = AwaitsSlot a \<and> p' = got_slot i a p)
     \<or> (\<exists>i < length (pl_at p). \<exists>a s. pl_at p ! i = Spawns a s \<and> p' = process_started i a s p)"

lemma proof_step_same [simp]: "proof_step p p"
  unfolding proof_step_def by (intro disjI1 exI [of _ "pl_now p"]) simp

lemma proof_step_quiet: "proof_quiet i p p' \<Longrightarrow> proof_step p p'"
  unfolding proof_step_def by blast

lemma proof_step_proceeds:
  assumes pool: "pool_ok p" and i: "i < length (pl_at p)"
  shows "proof_step p (proceeds cfg i p)"
proof -
  have d: "one_each p" "one_each (process_closed cfg m p)" for m using one_each_ok [OF pool] by simp_all
  have via: "proof_step p p'" if "proof_quiet i (process_closed cfg m p) p'" for m p' by (rule proof_step_quiet [OF quiet_via [OF that]]) simp_all
  have r: "revokes p (release_permits cfg g p)" "revokes p (frees_lock k (forget_memory k (process_closed cfg m p)))" for g k m
    by (simp_all add: revokes_def)
  show ?thesis
  proof (cases "pl_at p ! i")
    case (AwaitsTurn a)
    have "proof_step p (turn_begins cfg i a k p)" for k using quiet_turn_begins [OF d(1), of cfg i a k] proof_step_quiet [of i p] by auto
    then show ?thesis using AwaitsTurn by (simp add: proceeds_def split: option.splits)
  next
    case (ClosesOld a m)
    then show ?thesis using via [OF quiet_acquires [OF d(2)]] by (simp add: proceeds_def)
  next
    case (AwaitsAgentSlot a)
    have "proof_quiet i p (awaits_all cfg i a (p\<lparr>pl_agent_free := f\<rparr>))" for f
      by (rule quiet_via [OF quiet_awaits_all]) (use d(1) in \<open>simp_all add: revokes_def\<close>)
    then have "proof_step p (awaits_all cfg i a (p\<lparr>pl_agent_free := f\<rparr>))" for f by (rule proof_step_quiet)
    then show ?thesis using AwaitsAgentSlot by (simp add: proceeds_def got_agent_slot_def)
  next
    case (RoomForAgent a m)
    then show ?thesis using via [OF quiet_goes] by (simp add: proceeds_def)
  next
    case (AwaitsSlot a)
    then show ?thesis using i unfolding proof_step_def by (auto simp: proceeds_def)
  next
    case (RoomForAll a m)
    then show ?thesis using via [OF quiet_goes] by (simp add: proceeds_def)
  next
    case (Spawns a s)
    then show ?thesis using i unfolding proof_step_def by (auto simp: proceeds_def)
  next
    case (ClosesBroken a m)
    then show ?thesis using proof_step_quiet [OF quiet_ends_turn [OF revokes_closed]] by (simp add: proceeds_def)
  next
    case (ClosesOneshot a)
    then show ?thesis using proof_step_quiet [OF quiet_ends [OF r(1)]] by (simp add: proceeds_def)
  next
    case (SweepCloses m ks)
    then show ?thesis using via [OF quiet_sweep] by (simp add: proceeds_def)
  next
    case (CancelCloses m k r)
    then show ?thesis using via [OF quiet_cancel(1)] by (simp add: proceeds_def)
  next
    case (AwaitsReset k)
    then show ?thesis using quiet_reset_begins [of i k p] proof_step_quiet [of i p] by (auto simp: proceeds_def)
  next
    case (ResetCloses k m)
    then show ?thesis using proof_step_quiet [OF quiet_ends [OF r(2)]] by (simp add: proceeds_def reset_ends_def)
  qed (simp_all add: proceeds_def)
qed

lemma proof_step_stops: "proof_step p (times_out cfg i p)" "proof_step p (spawn_fails cfg i p)"
proof -
  have r: "revokes p (gives_up_waiting p)" "revokes p (process_closed cfg m p)" "revokes p (process_closed cfg m (gives_up_waiting p))"
    "revokes p (release_permits cfg g p)" "revokes p (frees_lock k (process_closed cfg m p))" "revokes p (gives_up_waiting (p\<lparr>pl_agent_free := f\<rparr>))" for m g k f
    by (simp_all add: revokes_def gives_up_waiting_def)
  note ends = r [THEN quiet_ends_turn, THEN proof_step_quiet] r [THEN quiet_ends, THEN proof_step_quiet]
    proof_step_quiet [OF quiet_ends_turn [OF revokes_same]] proof_step_quiet [OF quiet_ends [OF revokes_same]]
  show "proof_step p (times_out cfg i p)" using ends by (simp add: times_out_def split: pool_phase.splits)
  show "proof_step p (spawn_fails cfg i p)" using ends by (simp add: spawn_fails_def split: pool_phase.splits)
qed

lemma stops_waiting_quiet: "proof_quiet i p (stops_waiting cfg i p)"
proof -
  have r: "revokes p (gives_up_waiting p)" "revokes p (process_closed cfg m p)" "revokes p (process_closed cfg m (gives_up_waiting p))"
    "revokes p (release_permits cfg g p)" "revokes p (frees_lock k (process_closed cfg m p))" for m g k
    by (simp_all add: revokes_def gives_up_waiting_def)
  note ends = r [THEN quiet_ends_turn] r [THEN quiet_ends] quiet_ends_turn [OF revokes_same] quiet_ends [OF revokes_same]
  show ?thesis using ends quiet_prompt_ends by (cases "pl_at p ! i") (simp_all add: stops_waiting_def)
qed

lemma proof_step_abandoned: "proof_step p (abandoned cfg i p)"
  using stops_waiting_quiet [of i p cfg]
  by (intro proof_step_quiet [of i]) (simp add: abandoned_def proof_quiet_def revokes_def)

lemma proof_step_do:
  assumes pool: "pool_ok p"
  shows "proof_step p (pool_do cfg op p)"
proof -
  have idle: "proof_step p (if_idle i f p)" if "proof_quiet i p (f p)" for i f using proof_step_quiet [OF that] by (simp add: if_idle_def)
  have comes: "proof_quiet i p (turn_comes cfg i a p)" for i a
    using quiet_acquires [OF one_each_ok [OF pool], of i cfg a] by (simp add: turn_comes_def quiet_goes split: option.splits)
  have ticks: "proof_step p (p\<lparr>pl_now := t\<rparr>)" for t unfolding proof_step_def by blast
  show ?thesis
  proof (cases op)
    case (PromptEnds i how)
    then show ?thesis using proof_step_quiet [OF quiet_prompt_ends] by (simp add: if_there_def split: pool_phase.splits)
  next
    case (CancelEnds i e)
    then show ?thesis using proof_step_quiet [OF quiet_cancel(3)] by (simp add: if_there_def split: pool_phase.splits)
  qed (use ticks proof_step_proceeds [OF pool] proof_step_stops proof_step_abandoned in \<open>auto simp: if_there_def intro!: idle comes quiet_sweep quiet_cancel\<close>)
qed

lemma proofs_ok_do:
  assumes pool: "pool_ok p" and ok: "proofs_ok p"
  shows "proofs_ok (pool_do cfg op p)"
  using proof_step_do [OF pool, of cfg op] proofs_ok_issue [OF pool ok] proofs_ok_started [OF ok] quiet_ok [OF ok] proofs_ok_frame [OF ok]
  unfolding proof_step_def by auto

lemma proofs_ok_new: "proofs_ok (new_pool cfg n)"
  by (simp add: proofs_ok_def new_pool_def)

lemma proofs_ok_run: "pool_ok p \<Longrightarrow> proofs_ok p \<Longrightarrow> proofs_ok (pool_run cfg ops p)"
  unfolding pool_run_def by (induction ops arbitrary: p) (auto intro: pool_do_ok proofs_ok_do)

text \<open>A proof that is no longer the current one does not become so again: what is issued is new.\<close>

definition spent :: "string \<Rightarrow> nat \<Rightarrow> pool \<Rightarrow> bool" where
  "spent k s p \<longleftrightarrow> pl_proofs p k \<noteq> Some s \<and> s < pl_next_proof p"

lemma spent_quiet: "spent k s p \<Longrightarrow> proof_quiet i p p' \<Longrightarrow> spent k s p'"
  unfolding spent_def proof_quiet_def revokes_def by (metis option.distinct(1) order_less_le_trans)

lemma spent_do:
  assumes pool: "pool_ok p" and sp: "spent k s p"
  shows "spent k s (pool_do cfg op p)"
proof -
  have issue: "spent k s (got_slot i a p)" for i a
    using sp by (auto simp: spent_def got_slot_def Let_def issue_proof_def split: option.splits)
  have started: "spent k s (process_started i a s' p)" for i a s'
    using sp by (simp add: process_started_def spent_def split: option.splits)
  show ?thesis using proof_step_do [OF pool, of cfg op] issue started spent_quiet [OF sp] sp unfolding proof_step_def by (auto simp: spent_def)
qed

lemma spent_run: "pool_ok p \<Longrightarrow> spent k s p \<Longrightarrow> spent k s (pool_run cfg ops p)"
  unfolding pool_run_def by (induction ops arbitrary: p) (auto intro: pool_do_ok spent_do)

section \<open>What the pool promises\<close>

interpretation pool_system: invariant_system "\<lambda>p. \<exists>n. p = new_pool cfg n" "\<lambda>p p'. \<exists>op. p' = pool_do cfg op p" "\<lambda>p. pool_ok p \<and> proofs_ok p" for cfg
  by unfold_locales (auto intro: new_pool_ok proofs_ok_new pool_do_ok proofs_ok_do)

lemma runs_reach: "reachable (\<lambda>p. \<exists>n. p = new_pool cfg n) (\<lambda>p p'. \<exists>op. p' = pool_do cfg op p) (pool_run cfg ops (new_pool cfg n))"
  unfolding pool_run_def by (induction ops rule: rev_induct) (auto intro: reachable.intros)

lemmas run_ok = pool_system.reachable_inv [OF runs_reach, THEN conjunct1] and run_proofs = pool_system.reachable_inv [OF runs_reach, THEN conjunct2]

text \<open>The agent whose process a coroutine starts, has to itself, or closes.\<close>

fun process_of :: "pool_phase \<Rightarrow> string option" where
  "process_of (Spawns a s) = Some (ta_agent a)"
| "process_of (Prompts a) = (if ta_key a = None then Some (ta_agent a) else None)"
| "process_of (ClosesOneshot a) = Some (ta_agent a)"
| "process_of ph = map_option mg_agent (being_closed ph)"

lemma summed_filter: "(\<And>x. x \<in> set xs \<Longrightarrow> P x \<Longrightarrow> f x \<ge> 1) \<Longrightarrow> length (filter P xs) \<le> summed f xs"
  by (induction xs) fastforce+

lemma summed_one: "summed (\<lambda>_. Suc 0) xs = length xs"
  by (induction xs) auto

lemma processes_held: "length (filter (\<lambda>ph. process_of ph \<noteq> None) ps) \<le> summed (slots_of None) ps"
proof (rule summed_filter)
  fix ph assume "process_of ph \<noteq> None"
  then show "slots_of None ph \<ge> 1" by (cases ph) (auto split: if_splits)
qed

lemma agent_processes_held: "length (filter (\<lambda>ph. process_of ph = Some g) ps) \<le> summed (slots_of (Some g)) ps"
proof (rule summed_filter)
  fix ph assume "process_of ph = Some g"
  then show "slots_of (Some g) ph \<ge> 1" by (cases ph) (auto split: if_splits)
qed

lemma agent_sessions_weigh: "length (filter (\<lambda>m. mg_agent m = g) S) = summed (\<lambda>m. weighs (Some g) (mg_agent m)) S"
  by (induction S) auto

text \<open>C35. Whatever the turns, sweeps, cancellations, resets and failures, in whatever order: the processes alive, those being started and those
  still being closed are never more than the slots, nor those of one agent more than its own bound.  A process whose close was
  cancelled counts as gone here, as it does for the pool, although it may still be ending (\<open>a_cut_close_exceeds_the_slots\<close>).\<close>

theorem never_more_processes_than_slots:
  "let p = pool_run cfg ops (new_pool cfg n) in
     length (pl_sessions p) + length (filter (\<lambda>ph. process_of ph \<noteq> None) (pl_at p)) \<le> pc_capacity cfg
     \<and> (bounded cfg \<longrightarrow>
          length (filter (\<lambda>m. mg_agent m = g) (pl_sessions p)) + length (filter (\<lambda>ph. process_of ph = Some g) (pl_at p)) \<le> pc_per_agent cfg)"
proof -
  let ?p = "pool_run cfg ops (new_pool cfg n)"
  have all: "account None ?p \<le> pc_capacity cfg"
    using account_run_le [OF new_pool_ok, where cfg = cfg and g = None and ops = ops] by (simp add: account_new slots_def counted_def)
  have own: "account (Some g) ?p \<le> pc_per_agent cfg" if "bounded cfg"
    using account_run_le [OF new_pool_ok, where cfg = cfg and g = "Some g" and ops = ops] that by (simp add: account_new slots_def counted_def)
  have "alive_of None ?p = length (pl_sessions ?p)" by (simp add: alive_of_def summed_one)
  then show ?thesis using all own processes_held [of "pl_at ?p"] agent_processes_held [of g "pl_at ?p"]
    by (cases "bounded cfg") (simp_all add: Let_def account_def alive_of_def agent_sessions_weigh)
qed

text \<open>C36. A turn that prompts has its conversation to itself: no other coroutine has the conversation's lock, the session registered for it is of the
  turn's own profile and marked busy, and no session of that conversation is ever taken to make room.\<close>

theorem a_turn_has_its_own_process:
  assumes p: "p = pool_run cfg ops (new_pool cfg n)" and i: "i < length (pl_at p)" and at: "pl_at p ! i = Prompts a" and a: "ta_key a = Some k"
  shows "(\<forall>j < length (pl_at p). locks (pl_at p ! j) = Some k \<longrightarrow> j = i)
    \<and> (\<forall>m \<in> set (pl_sessions p). mg_key m = k \<longrightarrow> mg_fingerprint m = ta_fingerprint a \<and> mg_busy m)
    \<and> (\<forall>agent m. room_victim cfg agent p = Some m \<longrightarrow> mg_key m \<noteq> k)"
proof (intro conjI)
  have ok: "pool_ok p" unfolding p by (rule run_ok)
  have lk: "locks (pl_at p ! i) = Some k" and as: "prompts_as (pl_at p ! i) = Some (k, ta_fingerprint a)" using at a by simp_all
  show "\<forall>j < length (pl_at p). locks (pl_at p ! j) = Some k \<longrightarrow> j = i" using others_locked [OF ok i lk] by blast
  show "\<forall>m \<in> set (pl_sessions p). mg_key m = k \<longrightarrow> mg_fingerprint m = ta_fingerprint a \<and> mg_busy m"
    using prompts_own [of "pl_sessions p" "pl_at p" i] ok i as unfolding pool_ok_def by blast
  have "pl_locked p k" using locks_held [of "pl_locked p" "pl_at p" k] ok i lk unfolding pool_ok_def by blast
  then show "\<forall>agent m. room_victim cfg agent p = Some m \<longrightarrow> mg_key m \<noteq> k" by (auto simp: evictable_def dest!: room_victim_in)
qed

text \<open>C37. A proof dies with its process: that of a session whose process is being closed is not believed from then on, whatever follows; and while a
  session lives, no other proof than its own is believed of its conversation.\<close>

theorem a_proof_dies_with_its_process:
  assumes p: "p = pool_run cfg ops (new_pool cfg n)"
  shows "(\<forall>i < length (pl_at p). \<forall>m. being_closed (pl_at p ! i) = Some m \<longrightarrow> \<not> verify_proof (mg_key m) (mg_proof m) (pool_run cfg later p))
    \<and> (\<forall>m \<in> set (pl_sessions p). \<forall>s. verify_proof (mg_key m) s p \<longrightarrow> s = mg_proof m)"
proof (intro conjI allI ballI impI)
  have ok: "pool_ok p" "proofs_ok p" unfolding p by (rule run_ok, rule run_proofs)
  show "\<not> verify_proof (mg_key m) (mg_proof m) (pool_run cfg later p)" if "i < length (pl_at p)" "being_closed (pl_at p ! i) = Some m" for i m
  proof -
    have "spent (mg_key m) (mg_proof m) p" using ok(2) nth_mem [OF that(1)] that(2) unfolding proofs_ok_def spent_def by blast
    from spent_run [OF ok(1) this] show ?thesis by (simp add: verify_proof_def spent_def)
  qed
  show "s = mg_proof m" if "m \<in> set (pl_sessions p)" "verify_proof (mg_key m) s p" for m s
    using ok(2) ids_in [OF that(1)] that(2) unfolding proofs_ok_def verify_proof_def by fastforce
qed

text \<open>Every slot comes back: unless a coroutine was cancelled where it stood, whenever none is under way the slots that are free and the sessions
  alive are all the slots, and likewise for each agent.\<close>

lemma every_slot_comes_back:
  assumes "\<not> list_ex abandons ops" and p: "p = pool_run cfg ops (new_pool cfg n)" and idle: "\<forall>ph \<in> set (pl_at p). ph = Idle"
  shows "pl_free p + length (pl_sessions p) = pc_capacity cfg
    \<and> (bounded cfg \<longrightarrow> pl_agent_free p g + length (filter (\<lambda>m. mg_agent m = g) (pl_sessions p)) = pc_per_agent cfg)"
proof -
  have none: "summed (slots_of g') (pl_at p) = 0" for g' using idle unfolding summed_def by (auto simp: sum_list_eq_0_iff)
  have "account None p = pc_capacity cfg"
    using account_run [OF new_pool_ok, where cfg = cfg and g = None and ops = ops] assms(1) by (simp add: p account_new slots_def counted_def)
  moreover have "account (Some g) p = pc_per_agent cfg" if "bounded cfg"
    using account_run [OF new_pool_ok, where cfg = cfg and g = "Some g" and ops = ops] assms(1) that by (simp add: p account_new slots_def counted_def)
  ultimately show ?thesis using none by (simp add: account_def alive_of_def free_of_def summed_one agent_sessions_weigh)
qed

text \<open>A reset forgets a conversation only when nothing runs for it: no session of it is left and no turn of it prompts.\<close>

lemma memory_frame [simp]:
  "pl_memory (goes_to i x p) = pl_memory p" "pl_memory (take_out k p) = pl_memory p" "pl_memory (release_permits cfg g p) = pl_memory p"
  "pl_memory (process_closed cfg m p) = pl_memory p" "pl_memory (gives_up_waiting p) = pl_memory p" "pl_memory (frees_lock k p) = pl_memory p"
  "pl_memory (unlock a p) = pl_memory p" "pl_memory (issue_proof k p) = pl_memory p" "pl_memory (ends_turn i a p) = pl_memory p"
  "pl_memory (awaits_all cfg i a p) = pl_memory p" "pl_memory (acquires cfg i a p) = pl_memory p" "pl_memory (got_slot i a p) = pl_memory p"
  "pl_memory (got_agent_slot cfg i a p) = pl_memory p" "pl_memory (prompt_ends i a how p) = pl_memory p"
  "pl_memory (after_cancel i k r p) = pl_memory p" "pl_memory (cancel_comes i k r p) = pl_memory p" "pl_memory (cancel_ends i k r e p) = pl_memory p"
  by (simp_all add: goes_to_def take_out_def revoke_proof_def release_permits_def process_closed_def gives_up_waiting_def frees_lock_def unlock_def
      issue_proof_def ends_turn_def awaits_all_def acquires_def got_slot_def got_agent_slot_def prompt_ends_def after_cancel_def cancel_comes_def
      cancel_ends_def Let_def split: option.splits prompt_end.splits)

lemma memory_sweep [simp]: "pl_memory (sweep_goes i ks p) = pl_memory p"
  by (induction i ks p rule: sweep_goes.induct) (auto split: option.splits)

lemma memory_prompts: "pl_memory p k \<Longrightarrow> pl_memory (prompts i a p) k"
  by (simp add: prompts_def split: option.splits)

lemma memory_turn: "pl_memory p k \<Longrightarrow> pl_memory (turn_begins cfg i a k' p) k" "pl_memory p k \<Longrightarrow> pl_memory (process_started i a s p) k"
  "pl_memory p k \<Longrightarrow> pl_memory (turn_comes cfg i a p) k"
  by (simp_all add: turn_begins_def process_started_def turn_comes_def Let_def memory_prompts split: option.splits)

lemma forgotten_in:
  assumes m: "pl_memory p k" and gone: "\<not> pl_memory (proceeds cfg i p) k"
  shows "(pl_at p ! i = AwaitsReset k \<and> \<not> pl_locked p k \<and> session_of k p = None) \<or> (\<exists>m. pl_at p ! i = ResetCloses k m)"
proof (cases "pl_at p ! i")
  case (AwaitsReset k')
  then show ?thesis using assms by (cases "session_of k' p") (auto simp: proceeds_def reset_begins_def forget_memory_def split: if_splits)
next
  case (ResetCloses k' m)
  then show ?thesis using assms by (auto simp: proceeds_def reset_ends_def forget_memory_def split: if_splits)
qed (use assms memory_turn in \<open>auto simp: proceeds_def split: option.splits\<close>)

lemma memory_stops:
  assumes "pl_memory p k"
  shows "pl_memory (abandoned cfg i p) k" and "pl_memory (times_out cfg i p) k" and "pl_memory (spawn_fails cfg i p) k"
  using assms by (simp_all add: abandoned_def stops_waiting_def times_out_def spawn_fails_def gives_up_waiting_def split: pool_phase.splits)

lemma a_reset_forgets_alone:
  assumes ok: "pool_ok p" and m: "pl_memory p k" and gone: "\<not> pl_memory (pool_do cfg op p) k"
  shows "session_of k p = None \<and> (\<forall>j < length (pl_at p). \<forall>f. prompts_as (pl_at p ! j) \<noteq> Some (k, f))"
proof -
  from m gone obtain i where i: "i < length (pl_at p)" and st: "\<not> pl_memory (proceeds cfg i p) k"
    using memory_stops memory_turn(3) by (cases op) (auto simp: if_idle_def if_there_def split: if_splits pool_phase.splits)
  show ?thesis using forgotten_in [OF m st]
  proof
    assume "pl_at p ! i = AwaitsReset k \<and> \<not> pl_locked p k \<and> session_of k p = None"
    then show ?thesis using none_locked [OF ok] prompts_as_locks by blast
  next
    assume "\<exists>m. pl_at p ! i = ResetCloses k m"
    then have lk: "locks (pl_at p ! i) = Some k" and no: "prompts_as (pl_at p ! i) = None" by auto
    have "session_of k p = None" using starts_alone [of "pl_sessions p" "pl_at p" i k] ok i lk no by (simp add: session_of_None pool_ok_def)
    moreover have "prompts_as (pl_at p ! j) \<noteq> Some (k, f)" if "j < length (pl_at p)" for j f
      using others_locked [OF ok i lk that] prompts_as_locks no by (cases "j = i") auto
    ultimately show ?thesis by blast
  qed
qed

section \<open>Concrete runs\<close>

definition two_slots :: "pool_config" where
  "two_slots = \<lparr>pc_capacity = 2, pc_per_agent = 2, pc_evict = True, pc_idle_ttl = 10\<rparr>"

definition a_turn_of :: "string \<Rightarrow> turn_ask" where
  "a_turn_of k = \<lparr>ta_key = Some k, ta_agent = ''a'', ta_fingerprint = ''fp''\<rparr>"

text \<open>A turn from its call to its prompt: the lock, the agent's slot, a slot of all, the process.\<close>

definition turn_up_to_prompt :: "nat \<Rightarrow> string \<Rightarrow> pool_op list" where
  "turn_up_to_prompt i k = [TurnComes i (a_turn_of k), Proceeds i, Proceeds i, Proceeds i, Proceeds i]"

definition a_prompting_pool :: pool where
  "a_prompting_pool = pool_run two_slots (turn_up_to_prompt 0 ''a--x'') (new_pool two_slots 2)"

lemma never_more_processes_than_slots_witness:
  "length (pl_sessions a_prompting_pool) = 1 \<and> length (filter (\<lambda>m. mg_agent m = ''a'') (pl_sessions a_prompting_pool)) \<le> 2"
proof -
  have b: "bounded two_slots" by (simp add: bounded_def two_slots_def)
  have "length (pl_sessions a_prompting_pool) = 1" by code_simp
  moreover have "length (filter (\<lambda>m. mg_agent m = ''a'') (pl_sessions a_prompting_pool)) \<le> pc_per_agent two_slots"
    using never_more_processes_than_slots [of two_slots "turn_up_to_prompt 0 ''a--x''" 2 "''a''"] b by (simp add: Let_def a_prompting_pool_def)
  ultimately show ?thesis by (simp add: two_slots_def)
qed

lemma a_turn_has_its_own_process_witness:
  "mg_key (hd (pl_sessions a_prompting_pool)) = ''a--x'' \<and> mg_fingerprint (hd (pl_sessions a_prompting_pool)) = ''fp'' \<and> mg_busy (hd (pl_sessions a_prompting_pool))"
proof -
  have "0 < length (pl_at a_prompting_pool)" "pl_at a_prompting_pool ! 0 = Prompts (a_turn_of ''a--x'')" by code_simp+
  note own = a_turn_has_its_own_process [OF a_prompting_pool_def this, of "''a--x''"]
  have "length (pl_sessions a_prompting_pool) = 1" "mg_key (hd (pl_sessions a_prompting_pool)) = ''a--x''" by code_simp+
  then have "hd (pl_sessions a_prompting_pool) \<in> set (pl_sessions a_prompting_pool)" by (intro hd_in_set) auto
  then show ?thesis using own \<open>mg_key (hd (pl_sessions a_prompting_pool)) = ''a--x''\<close> by (simp add: a_turn_of_def)
qed

text \<open>A conversation quiet for longer than the reaper waits is being closed, and says something just then.\<close>

definition reaped_and_back :: "pool_op list" where
  "reaped_and_back = turn_up_to_prompt 0 ''a--x'' @ [PromptEnds 0 Answered, PoolTicks 100, Reaps 1] @ turn_up_to_prompt 0 ''a--x''"

definition a_pool_reaping :: pool where
  "a_pool_reaping = pool_run two_slots reaped_and_back (new_pool two_slots 2)"

lemma a_proof_dies_with_its_process_witness:
  "\<not> verify_proof ''a--x'' 0 (pool_run two_slots [Proceeds 1] a_pool_reaping)"
proof -
  have at: "1 < length (pl_at a_pool_reaping)" by code_simp
  have cl: "map_option (\<lambda>m. (mg_key m, mg_proof m)) (being_closed (pl_at a_pool_reaping ! 1)) = Some (''a--x'', 0)" by code_simp
  then obtain m where "being_closed (pl_at a_pool_reaping ! 1) = Some m" "mg_key m = ''a--x''" "mg_proof m = 0" by auto
  then show ?thesis using a_proof_dies_with_its_process [OF a_pool_reaping_def, of "[Proceeds 1]"] at by metis
qed

text \<open>The new process has its proof while the old one closes; when that is done, the conversation's proof is revoked once more, and it is the new
  process's: every tool call of it is refused from then on.\<close>

lemma a_closing_process_takes_the_new_proof:
  "map mg_proof (pl_sessions a_pool_reaping) = [1] \<and> verify_proof ''a--x'' 1 a_pool_reaping
   \<and> map mg_proof (pl_sessions (pool_run two_slots [Proceeds 1] a_pool_reaping)) = [1]
   \<and> \<not> verify_proof ''a--x'' 1 (pool_run two_slots [Proceeds 1] a_pool_reaping)"
  by (intro conjI; code_simp)

text \<open>A sweep drops what was idle when it listed it: the second of its list may have a turn by then.\<close>

definition swept_in_its_turn :: "pool_op list" where
  "swept_in_its_turn = turn_up_to_prompt 0 ''a--x'' @ [PromptEnds 0 Answered] @ turn_up_to_prompt 0 ''a--y''
     @ [PromptEnds 0 Answered, PoolTicks 100, Reaps 1, TurnComes 0 (a_turn_of ''a--y''), Proceeds 0, Proceeds 1]"

lemma a_sweep_takes_a_session_in_its_turn:
  "case pl_at (pool_run two_slots swept_in_its_turn (new_pool two_slots 2)) of
     [Prompts a, SweepCloses m ks] \<Rightarrow> ta_key a = Some ''a--y'' \<and> mg_key m = ''a--y'' \<and> mg_busy m
   | _ \<Rightarrow> False"
  by code_simp

text \<open>A start that is cancelled keeps both its slots for good.\<close>

lemma a_cancelled_start_keeps_its_slots:
  "let p = pool_run two_slots [TurnComes 0 (a_turn_of ''a--x''), Proceeds 0, Proceeds 0, Proceeds 0, Abandoned 0] (new_pool two_slots 2) in
     pl_at p = [Idle, Idle] \<and> pl_sessions p = [] \<and> pl_free p = 1 \<and> pl_agent_free p ''a'' = 1"
  by code_simp

text \<open>A close that is cancelled gives its slots back with the process only told to end: when it does not, there are more
  processes than slots.\<close>

definition one_slot :: "pool_config" where
  "one_slot = \<lparr>pc_capacity = 1, pc_per_agent = 0, pc_evict = True, pc_idle_ttl = 10\<rparr>"

lemma a_cut_close_exceeds_the_slots:
  "let p = pool_run one_slot ([TurnComes 0 (a_turn_of ''a--x''), Proceeds 0, Proceeds 0, Proceeds 0, PromptEnds 0 Answered,
        TurnComes 1 (a_turn_of ''a--y''), Proceeds 1, Abandoned 1,
        TurnComes 1 (a_turn_of ''a--z''), Proceeds 1, Proceeds 1, Proceeds 1]) (new_pool one_slot 2) in
     pl_left p = [''a''] \<and> map mg_key (pl_sessions p) = [''a--z'']"
  by code_simp

text \<open>A prompt whose command cannot be written leaves its process in the pool, and the conversation's next turn gets the same one.\<close>

lemma a_dead_process_is_kept:
  "let p = pool_run two_slots (turn_up_to_prompt 0 ''a--x'' @ [PromptEnds 0 OtherError, TurnComes 0 (a_turn_of ''a--x''), Proceeds 0]) (new_pool two_slots 2) in
     map mg_proof (pl_sessions p) = [0] \<and> pl_at p = [Prompts (a_turn_of ''a--x''), Idle]"
  by code_simp

definition a_finished_run :: "pool_op list" where
  "a_finished_run = turn_up_to_prompt 0 ''a--x'' @ [PromptEnds 0 Answered]"

lemma every_slot_comes_back_witness:
  "pl_free (pool_run two_slots a_finished_run (new_pool two_slots 2)) + length (pl_sessions (pool_run two_slots a_finished_run (new_pool two_slots 2))) = 2"
proof -
  have "\<not> list_ex abandons a_finished_run" by code_simp
  moreover have "\<forall>ph \<in> set (pl_at (pool_run two_slots a_finished_run (new_pool two_slots 2))). ph = Idle" by code_simp
  ultimately show ?thesis using every_slot_comes_back [OF _ refl] by (simp add: two_slots_def)
qed

end
