(* ===== verification/PiTurn.thy ===== *)
theory PiTurn
  imports ChatCards AgentFlow
begin

text \<open>
  One conversation's process and its turns: \<open>packages/crucible/src/crucible/runtimes/pi/session.py\<close>, and the events of
  \<open>packages/crucible/src/crucible/runtimes/pi/protocol.py\<close> from the JSON object on.

  The session has a reader of the process's lines and at most one caller with a turn; each is at a phase, the await it stands
  at, and the other may run in between.  The lines, the clock, whether a command can be written, a person's answers and the
  waits of the tool server are inputs.  The turns are kept by number: the reader goes on with the turn it began an event with.
  A number of the wire is an integer; costs are left out.
\<close>

section \<open>Events\<close>

record pi_event =
  pe_type :: string
  pe_raw :: "(string \<times> json) list"

definition EV_RESPONSE :: string where "EV_RESPONSE = ''response''"
definition EV_AGENT_END :: string where "EV_AGENT_END = ''agent_end''"
definition EV_AGENT_SETTLED :: string where "EV_AGENT_SETTLED = ''agent_settled''"
definition EV_TURN_END :: string where "EV_TURN_END = ''turn_end''"
definition EV_MESSAGE_UPDATE :: string where "EV_MESSAGE_UPDATE = ''message_update''"
definition EV_TOOL_EXECUTION_START :: string where "EV_TOOL_EXECUTION_START = ''tool_execution_start''"
definition EV_TOOL_EXECUTION_END :: string where "EV_TOOL_EXECUTION_END = ''tool_execution_end''"
definition EV_EXTENSION_UI_REQUEST :: string where "EV_EXTENSION_UI_REQUEST = ''extension_ui_request''"

lemmas pi_event_types = EV_RESPONSE_def EV_AGENT_END_def EV_AGENT_SETTLED_def EV_TURN_END_def EV_MESSAGE_UPDATE_def EV_TOOL_EXECUTION_START_def
  EV_TOOL_EXECUTION_END_def EV_EXTENSION_UI_REQUEST_def

text \<open>\<open>parse_line\<close> after its \<open>json.loads\<close>: an object with a type.\<close>

definition event_of_json :: "json \<Rightarrow> pi_event option" where
  "event_of_json j = (case j of JObj ms \<Rightarrow> (case map_of ms ''type'' of Some (JStr t) \<Rightarrow> Some \<lparr>pe_type = t, pe_raw = ms\<rparr> | _ \<Rightarrow> None) | _ \<Rightarrow> None)"

text \<open>A field that is a string, an object, a list; \<open>None\<close> for anything else.\<close>

definition str_at :: "string \<Rightarrow> (string \<times> json) list \<Rightarrow> string option" where
  "str_at k ms = (case map_of ms k of Some (JStr s) \<Rightarrow> Some s | _ \<Rightarrow> None)"

definition obj_at :: "string \<Rightarrow> (string \<times> json) list \<Rightarrow> (string \<times> json) list option" where
  "obj_at k ms = (case map_of ms k of Some (JObj o') \<Rightarrow> Some o' | _ \<Rightarrow> None)"

definition list_at :: "string \<Rightarrow> (string \<times> json) list \<Rightarrow> json list option" where
  "list_at k ms = (case map_of ms k of Some (JList js) \<Rightarrow> Some js | _ \<Rightarrow> None)"

definition event_id :: "pi_event \<Rightarrow> json option" where
  "event_id e = (case map_of (pe_raw e) ''id'' of Some JNull \<Rightarrow> None | r \<Rightarrow> r)"

definition refused_by :: "string \<Rightarrow> pi_event \<Rightarrow> bool" where
  "refused_by command e \<longleftrightarrow> pe_type e = EV_RESPONSE \<and> event_id e = Some (JStr command) \<and> map_of (pe_raw e) ''success'' = Some (JBool False)"

definition disposition :: "pi_event \<Rightarrow> string" where
  "disposition e = (case obj_at ''data'' (pe_raw e) of None \<Rightarrow> [] | Some d \<Rightarrow> (case str_at ''disposition'' d of None \<Rightarrow> [] | Some s \<Rightarrow> s))"

definition handled_by :: "string \<Rightarrow> pi_event \<Rightarrow> bool" where
  "handled_by command e \<longleftrightarrow> pe_type e = EV_RESPONSE \<and> event_id e = Some (JStr command) \<and> disposition e = ''handled''"

definition completed_text :: "pi_event \<Rightarrow> string option" where
  "completed_text e =
     (if pe_type e \<noteq> EV_MESSAGE_UPDATE then None
      else case obj_at ''assistantMessageEvent'' (pe_raw e) of
        None \<Rightarrow> None
      | Some p \<Rightarrow> if str_at ''type'' p = Some ''text_end'' \<or> str_at ''type'' p = Some ''text_done'' then str_at ''content'' p else None)"

definition is_tool_event :: "pi_event \<Rightarrow> bool" where
  "is_tool_event e \<longleftrightarrow> pe_type e = EV_TOOL_EXECUTION_START \<or> pe_type e = EV_TOOL_EXECUTION_END"

definition tool_name :: "pi_event \<Rightarrow> string option" where
  "tool_name e =
     (if \<not> is_tool_event e then None
      else case str_at ''toolName'' (pe_raw e) of
        Some n \<Rightarrow> Some n
      | None \<Rightarrow> (case str_at ''name'' (pe_raw e) of
          Some n \<Rightarrow> Some n
        | None \<Rightarrow> Option.bind (obj_at ''tool'' (pe_raw e)) (str_at ''name'')))"

definition or_blank :: "string option \<Rightarrow> string" where
  "or_blank s = (case s of None \<Rightarrow> [] | Some t \<Rightarrow> t)"

definition tool_call_id :: "pi_event \<Rightarrow> string" where
  "tool_call_id e = or_blank (str_at ''toolCallId'' (pe_raw e))"

definition tool_args :: "pi_event \<Rightarrow> (string \<times> json) list" where
  "tool_args e = (case obj_at ''args'' (pe_raw e) of None \<Rightarrow> [] | Some a \<Rightarrow> a)"

text \<open>\<open>willRetry\<close> is read by its truth: any value but null, false, zero and what is empty.\<close>

fun truthy :: "json \<Rightarrow> bool" where
  "truthy JNull = False"
| "truthy (JBool b) = b"
| "truthy (JInt n) = (n \<noteq> 0)"
| "truthy (JStr x) = (x \<noteq> [])"
| "truthy (JList js) = (js \<noteq> [])"
| "truthy (JObj ms) = (ms \<noteq> [])"

definition will_retry :: "pi_event \<Rightarrow> bool" where
  "will_retry e = (case map_of (pe_raw e) ''willRetry'' of None \<Rightarrow> False | Some j \<Rightarrow> truthy j)"

definition tool_is_error :: "pi_event \<Rightarrow> bool" where
  "tool_is_error e \<longleftrightarrow> map_of (pe_raw e) ''isError'' = Some (JBool True)"

section \<open>What a run ended with\<close>

definition int_or_zero :: "string \<Rightarrow> (string \<times> json) list \<Rightarrow> int" where
  "int_or_zero k ms = (case map_of ms k of Some (JInt n) \<Rightarrow> n | _ \<Rightarrow> 0)"

definition is_assistant :: "(string \<times> json) list \<Rightarrow> bool" where
  "is_assistant m \<longleftrightarrow> str_at ''role'' m = Some ''assistant''"

fun the_objects :: "json list \<Rightarrow> (string \<times> json) list list" where
  "the_objects [] = []"
| "the_objects (JObj m # js) = m # the_objects js"
| "the_objects (_ # js) = the_objects js"

definition messages_of :: "pi_event \<Rightarrow> (string \<times> json) list list" where
  "messages_of e = (case list_at ''messages'' (pe_raw e) of None \<Rightarrow> [] | Some js \<Rightarrow> the_objects js)"

definition assistant_messages :: "pi_event \<Rightarrow> (string \<times> json) list list" where
  "assistant_messages e = filter is_assistant (messages_of e)"

text \<open>\<open>_tokens_of_message\<close>, of the message a \<open>turn_end\<close> carries.\<close>

definition tokens_of_message :: "pi_event \<Rightarrow> int" where
  "tokens_of_message e =
     (case obj_at ''message'' (pe_raw e) of
        None \<Rightarrow> 0
      | Some m \<Rightarrow>
          if \<not> is_assistant m then 0 else case obj_at ''usage'' m of None \<Rightarrow> 0 | Some u \<Rightarrow> int_or_zero ''totalTokens'' u)"

record token_usage =
  tu_input :: int
  tu_output :: int
  tu_cache_read :: int
  tu_cache_write :: int
  tu_total :: int

definition usage_of_object :: "(string \<times> json) list \<Rightarrow> token_usage" where
  "usage_of_object u = \<lparr>tu_input = int_or_zero ''input'' u, tu_output = int_or_zero ''output'' u, tu_cache_read = int_or_zero ''cacheRead'' u,
     tu_cache_write = int_or_zero ''cacheWrite'' u, tu_total = int_or_zero ''totalTokens'' u\<rparr>"

definition sum_usage :: "token_usage \<Rightarrow> token_usage \<Rightarrow> token_usage" where
  "sum_usage a b = \<lparr>tu_input = tu_input a + tu_input b, tu_output = tu_output a + tu_output b, tu_cache_read = tu_cache_read a + tu_cache_read b,
     tu_cache_write = tu_cache_write a + tu_cache_write b, tu_total = tu_total a + tu_total b\<rparr>"

definition usage_of_end :: "pi_event \<Rightarrow> token_usage option" where
  "usage_of_end e =
     fold (\<lambda>m total. case obj_at ''usage'' m of
         None \<Rightarrow> total
       | Some u \<Rightarrow> Some (case total of None \<Rightarrow> usage_of_object u | Some t \<Rightarrow> sum_usage t (usage_of_object u)))
       (assistant_messages e) None"

definition model_of_end :: "pi_event \<Rightarrow> string" where
  "model_of_end e =
     (case assistant_messages e of
        [] \<Rightarrow> []
      | ms \<Rightarrow>
          (case (str_at ''provider'' (last ms), str_at ''model'' (last ms)) of
             (Some p, Some m) \<Rightarrow> if p \<noteq> [] \<and> m \<noteq> [] then p @ ''/'' @ m else []
           | _ \<Rightarrow> []))"

definition block_text :: "json \<Rightarrow> string" where
  "block_text b = (case b of JObj m \<Rightarrow> if str_at ''type'' m = Some ''text'' then or_blank (str_at ''text'' m) else [] | _ \<Rightarrow> [])"

definition message_text :: "(string \<times> json) list \<Rightarrow> string" where
  "message_text m = (case map_of m ''content'' of Some (JStr s) \<Rightarrow> s | Some (JList bs) \<Rightarrow> concat (map block_text bs) | _ \<Rightarrow> [])"

definition final_text_of_end :: "pi_event \<Rightarrow> string" where
  "final_text_of_end e = strip (concat (map message_text (assistant_messages e)))"

text \<open>A message that says it was aborted; worded as an error, only when the engine asked for the abort.\<close>

definition was_aborted :: "bool \<Rightarrow> (string \<times> json) list \<Rightarrow> bool" where
  "was_aborted requested m \<longleftrightarrow>
     str_at ''stopReason'' m = Some ''aborted''
     \<or> (requested \<and> str_at ''stopReason'' m = Some ''error'' \<and> says ''aborted'' (or_blank (str_at ''errorMessage'' m)))"

definition error_of_end :: "bool \<Rightarrow> pi_event \<Rightarrow> string option" where
  "error_of_end requested e =
     (case filter (\<lambda>m. str_at ''stopReason'' m = Some ''error'' \<and> \<not> was_aborted requested m) (messages_of e) of
        [] \<Rightarrow> None
      | m # _ \<Rightarrow> Some (case or_blank (str_at ''errorMessage'' m) of [] \<Rightarrow> ''unknown error'' | s \<Rightarrow> s))"

definition stop_reason_of_end :: "bool \<Rightarrow> pi_event \<Rightarrow> string option" where
  "stop_reason_of_end requested e =
     (case filter (\<lambda>m. or_blank (str_at ''stopReason'' m) \<noteq> []) (assistant_messages e) of
        [] \<Rightarrow> None
      | ms \<Rightarrow> if was_aborted requested (last ms) then Some ''aborted'' else str_at ''stopReason'' (last ms))"

section \<open>A session and its turns\<close>

record pi_result =
  pr_text :: string
  pr_tool_calls :: "string list"
  pr_stop_reason :: "string option"
  pr_model :: string
  pr_truncated :: bool
  pr_usage :: "token_usage option"

datatype pi_error = PiProcessError string | PiTimeout | PiStalled | PiOverBudget | OtherFailure

datatype turn_end = Answer pi_result | Fails pi_error

text \<open>What a turn may take: 0 is no limit, but for the timeout.\<close>

record turn_limits =
  tl_timeout :: int
  tl_idle :: int
  tl_wrap_up :: int
  tl_tokens :: int

record pi_turn =
  pt_command :: string
  pt_limits :: turn_limits
  pt_end :: "turn_end option"
  pt_texts :: "string list"
  pt_progress :: "string list"
  pt_calls :: "string list"
  pt_tokens :: int
  pt_budget_told :: bool
  pt_abort_requested :: bool
  pt_tools :: "(string \<times> int) list"
  pt_last_end :: "pi_event option"
  pt_last_event_at :: int
  pt_wrapped_up :: bool
  pt_began :: int

datatype pi_command = PromptCommand string string | SteerCommand nat string | AbortCommand | UiReply json "string option" "bool option" bool

text \<open>What a listener hears: the neutral events, and the driver's own as they are.\<close>

datatype agent_event = TextProgress string | ToolStarted string string "(string \<times> json) list" | ToolFinished string string bool int | Other pi_event

datatype caller_phase = NoCall | Sending nat | Waiting nat | Steering nat | Telling nat | Aborting nat pi_error

datatype reader_phase = Reading | Remarked pi_event "nat option" | Noticed pi_event "nat option" | Asking json | Dying string | Gone

record pi_session =
  ps_turns :: "pi_turn list"
  ps_current :: "nat option"
  ps_caller :: caller_phase
  ps_reader :: reader_phase
  ps_closed :: bool
  ps_poisoned :: bool
  ps_wait_started :: "int option"
  ps_wait_depth :: nat
  ps_wait_total :: int
  ps_now :: int
  ps_sent :: "pi_command list"
  ps_heard :: "(nat option \<times> agent_event) list"
  ps_told :: "(nat \<times> turn_end) list"

record pi_session_config =
  sc_bridge :: bool
  sc_allowed_ui_tools :: "string list"

definition on_turn :: "nat \<Rightarrow> (pi_turn \<Rightarrow> pi_turn) \<Rightarrow> pi_session \<Rightarrow> pi_session" where
  "on_turn t f s = s\<lparr>ps_turns := (ps_turns s)[t := f (ps_turns s ! t)]\<rparr>"

definition on_that_turn :: "nat option \<Rightarrow> (pi_turn \<Rightarrow> pi_turn) \<Rightarrow> pi_session \<Rightarrow> pi_session" where
  "on_that_turn t f s = (case t of None \<Rightarrow> s | Some i \<Rightarrow> on_turn i f s)"

definition sends :: "pi_command \<Rightarrow> pi_session \<Rightarrow> pi_session" where
  "sends c s = s\<lparr>ps_sent := ps_sent s @ [c]\<rparr>"

definition hears :: "agent_event \<Rightarrow> pi_session \<Rightarrow> pi_session" where
  "hears e s = s\<lparr>ps_heard := ps_heard s @ [(ps_current s, e)]\<rparr>"

definition reader_at :: "reader_phase \<Rightarrow> pi_session \<Rightarrow> pi_session" where
  "reader_at ph s = s\<lparr>ps_reader := ph\<rparr>"

definition caller_at :: "caller_phase \<Rightarrow> pi_session \<Rightarrow> pi_session" where
  "caller_at ph s = s\<lparr>ps_caller := ph\<rparr>"

text \<open>A future is set once.\<close>

definition settles :: "turn_end \<Rightarrow> pi_turn \<Rightarrow> pi_turn" where
  "settles r t = (if pt_end t = None then t\<lparr>pt_end := Some r\<rparr> else t)"

definition fail_turn :: "pi_error \<Rightarrow> pi_session \<Rightarrow> pi_session" where
  "fail_turn e s = on_that_turn (ps_current s) (settles (Fails e)) s"

text \<open>\<open>pause_clock\<close>: entered and left.\<close>

definition pause_begins :: "pi_session \<Rightarrow> pi_session" where
  "pause_begins s = s\<lparr>ps_wait_started := (if ps_wait_depth s = 0 then Some (ps_now s) else ps_wait_started s), ps_wait_depth := Suc (ps_wait_depth s)\<rparr>"

definition pause_ends :: "pi_session \<Rightarrow> pi_session" where
  "pause_ends s =
     (let d = ps_wait_depth s - 1 in
      case ps_wait_started s of
        Some w \<Rightarrow> if d = 0 then s\<lparr>ps_wait_depth := d, ps_wait_total := ps_wait_total s + (ps_now s - w), ps_wait_started := None\<rparr> else s\<lparr>ps_wait_depth := d\<rparr>
      | None \<Rightarrow> s\<lparr>ps_wait_depth := d\<rparr>)"

section \<open>The caller\<close>

definition fresh_turn :: "string \<Rightarrow> turn_limits \<Rightarrow> int \<Rightarrow> pi_turn" where
  "fresh_turn command l now =
     \<lparr>pt_command = command, pt_limits = l, pt_end = None, pt_texts = [], pt_progress = [], pt_calls = [], pt_tokens = 0, pt_budget_told = False,
      pt_abort_requested = False, pt_tools = [], pt_last_end = None, pt_last_event_at = now, pt_wrapped_up = False, pt_began = now\<rparr>"

text \<open>\<open>_run_turn\<close> up to the command being written; refused on a session that is closed, poisoned, or has a turn.\<close>

definition run_turn :: "string \<Rightarrow> string \<Rightarrow> turn_limits \<Rightarrow> pi_session \<Rightarrow> pi_error + pi_session" where
  "run_turn command message l s =
     (if ps_closed s then Inl (PiProcessError ''Session is closed'')
      else if ps_poisoned s then Inl (PiProcessError ''Session is poisoned after a timeout; discard it and spawn a fresh one'')
      else if ps_current s \<noteq> None then Inl OtherFailure
      else
        let t = length (ps_turns s) in
        Inr (caller_at (Sending t) (sends (PromptCommand command message)
          (s\<lparr>ps_turns := ps_turns s @ [fresh_turn command l (ps_now s)], ps_current := Some t, ps_wait_total := 0,
             ps_wait_started := (if ps_wait_depth s > 0 then Some (ps_now s) else None)\<rparr>))))"

text \<open>The turn is over for its caller, and no longer the session's.\<close>

definition call_ends :: "nat \<Rightarrow> turn_end \<Rightarrow> pi_session \<Rightarrow> pi_session" where
  "call_ends t r s = caller_at NoCall (s\<lparr>ps_current := None, ps_told := ps_told s @ [(t, r)]\<rparr>)"

definition command_written :: "nat \<Rightarrow> pi_session \<Rightarrow> pi_session" where
  "command_written t s = caller_at (Waiting t) (on_turn t (pt_began_update (\<lambda>_. ps_now s)) s)"

text \<open>A turn that is stopped: the session is poisoned and the process told to abort.\<close>

definition stops :: "nat \<Rightarrow> pi_error \<Rightarrow> pi_session \<Rightarrow> pi_session" where
  "stops t e s = caller_at (Aborting t e) (sends AbortCommand (on_that_turn (ps_current s) (pt_abort_requested_update (\<lambda>_. True)) (s\<lparr>ps_poisoned := True\<rparr>)))"

definition active_for :: "nat \<Rightarrow> pi_session \<Rightarrow> int" where
  "active_for t s = (ps_now s - pt_began (ps_turns s ! t)) - ps_wait_total s"

definition WRAP_UP_NOTE :: string where
  "WRAP_UP_NOTE = ''You are running out of time for this turn. Stop calling tools now and answer with what is done so far and what is left to do.''"

definition BUDGET_NOTE :: string where
  "BUDGET_NOTE = ''This turn has used its token budget. Stop calling tools now and answer with what is done so far and what is left to do.''"

definition looks_at_budget :: "nat \<Rightarrow> pi_session \<Rightarrow> pi_session" where
  "looks_at_budget t s =
     (let u = ps_turns s ! t; b = tl_tokens (pt_limits u) in
      if b \<noteq> 0 \<and> 4 * pt_tokens u \<ge> 5 * b then stops t PiOverBudget s
      else if b \<noteq> 0 \<and> \<not> pt_budget_told u \<and> pt_tokens u \<ge> b
      then caller_at (Telling t) (sends (SteerCommand t BUDGET_NOTE) (on_turn t (pt_budget_told_update (\<lambda>_. True)) s))
      else caller_at (Waiting t) s)"

text \<open>\<open>_await_turn\<close>, once round: the result if there is one; the limits, unless a person is waited on.\<close>

definition looks :: "nat \<Rightarrow> pi_session \<Rightarrow> pi_session" where
  "looks t s =
     (let u = ps_turns s ! t; l = pt_limits u; active = active_for t s in
      case pt_end u of
        Some r \<Rightarrow> call_ends t r s
      | None \<Rightarrow>
          if ps_wait_started s \<noteq> None then s
          else if active \<ge> tl_timeout l then stops t PiTimeout s
          else if tl_idle l \<noteq> 0 \<and> pt_tools u = [] \<and> ps_now s - pt_last_event_at u \<ge> tl_idle l then stops t PiStalled s
          else if tl_wrap_up l \<noteq> 0 \<and> \<not> pt_wrapped_up u \<and> active \<ge> tl_wrap_up l
          then caller_at (Steering t) (sends (SteerCommand t WRAP_UP_NOTE) (on_turn t (pt_wrapped_up_update (\<lambda>_. True)) s))
          else looks_at_budget t s)"

section \<open>The reader\<close>

text \<open>\<open>_complete_turn\<close>: what the model said after its last call, else what the run ended with, else an error, else its last remark.\<close>

definition result_of :: "pi_turn \<Rightarrow> pi_event \<Rightarrow> string \<Rightarrow> pi_result" where
  "result_of u e answer =
     \<lparr>pr_text = answer, pr_tool_calls = pt_calls u, pr_stop_reason = stop_reason_of_end (pt_abort_requested u) e, pr_model = model_of_end e,
      pr_truncated = (stop_reason_of_end (pt_abort_requested u) e = Some ''length''), pr_usage = usage_of_end e\<rparr>"

definition said_text :: "pi_turn \<Rightarrow> pi_event \<Rightarrow> string" where
  "said_text u e = (case strip (concat (pt_texts u)) of [] \<Rightarrow> final_text_of_end e | c # cs \<Rightarrow> c # cs)"

definition complete_turn :: "nat \<Rightarrow> pi_event \<Rightarrow> pi_session \<Rightarrow> pi_session" where
  "complete_turn t e s =
     (let u = ps_turns s ! t; answer = said_text u e in
      case (answer, error_of_end (pt_abort_requested u) e) of
        ([], Some err) \<Rightarrow> fail_turn (PiProcessError (''pi LLM error: '' @ err)) s
      | _ \<Rightarrow> on_turn t (settles (Answer (result_of u e (if answer = [] \<and> pt_progress u \<noteq> [] then last (pt_progress u) else answer)))) s)"

definition no_run :: "pi_turn \<Rightarrow> pi_result" where
  "no_run u = \<lparr>pr_text = strip (concat (pt_texts u)), pr_tool_calls = pt_calls u, pr_stop_reason = None, pr_model = [], pr_truncated = False, pr_usage = None\<rparr>"

text \<open>\<open>_dispatch\<close> up to its first await: the time, the tokens, and a remark that a call follows.\<close>

definition touches :: "pi_event \<Rightarrow> pi_session \<Rightarrow> pi_turn \<Rightarrow> pi_turn" where
  "touches e s u =
     u\<lparr>pt_last_event_at := ps_now s, pt_tokens := pt_tokens u + (if pe_type e = EV_TURN_END then tokens_of_message e else 0)\<rparr>"

definition remarks :: "pi_event \<Rightarrow> pi_turn \<Rightarrow> pi_turn" where
  "remarks e u =
     (if pe_type e = EV_TOOL_EXECUTION_START \<and> pt_texts u \<noteq> []
      then u\<lparr>pt_texts := [], pt_progress := pt_progress u @ (case strip (concat (pt_texts u)) of [] \<Rightarrow> [] | r \<Rightarrow> [r])\<rparr>
      else u)"

definition remark_before :: "pi_event \<Rightarrow> pi_turn \<Rightarrow> string" where
  "remark_before e u = (if pe_type e = EV_TOOL_EXECUTION_START then strip (concat (pt_texts u)) else [])"

text \<open>\<open>_translate\<close> and what it writes down of a call, on the session's turn of that moment.\<close>

definition pairs_by :: "pi_event \<Rightarrow> string" where
  "pairs_by e = (case tool_call_id e of [] \<Rightarrow> or_blank (tool_name e) | i \<Rightarrow> i)"

definition notices :: "pi_event \<Rightarrow> pi_session \<Rightarrow> pi_session" where
  "notices e s =
     (let c = pairs_by e; n = or_blank (tool_name e) in
      if pe_type e = EV_TOOL_EXECUTION_START
      then hears (ToolStarted c n (tool_args e)) (on_that_turn (ps_current s) (pt_tools_update (\<lambda>ts. (c, ps_now s) # filter (\<lambda>x. fst x \<noteq> c) ts)) s)
      else if pe_type e = EV_TOOL_EXECUTION_END
      then
        let began = (case ps_current s of None \<Rightarrow> None | Some t \<Rightarrow> map_of (pt_tools (ps_turns s ! t)) c) in
        hears (ToolFinished c n (tool_is_error e) (case began of None \<Rightarrow> 0 | Some b \<Rightarrow> ps_now s - b))
          (on_that_turn (ps_current s) (pt_tools_update (filter (\<lambda>x. fst x \<noteq> c))) s)
      else hears (Other e) s)"

definition announces :: "pi_event \<Rightarrow> nat option \<Rightarrow> pi_session \<Rightarrow> pi_session" where
  "announces e t s = reader_at (Noticed e t) (notices e s)"

definition reads :: "pi_event \<Rightarrow> pi_session \<Rightarrow> pi_session" where
  "reads e s =
     (case ps_current s of
        None \<Rightarrow> announces e None s
      | Some t \<Rightarrow>
          let r = remark_before e (ps_turns s ! t); s1 = on_turn t (\<lambda>u. remarks e (touches e s u)) s in
          if r = [] then announces e (Some t) s1 else reader_at (Remarked e (Some t)) (hears (TextProgress r) s1))"

text \<open>An \<open>extension_ui_request\<close>: put to the person, or without a bridge answered by the list of what is allowed.\<close>

definition interactive :: "string list" where
  "interactive = [''select'', ''confirm'', ''input'', ''editor'']"

definition ui_target :: "pi_event \<Rightarrow> string option" where
  "ui_target e =
     (case filter (\<lambda>k. str_at k (pe_raw e) \<noteq> None) [''toolName'', ''name'', ''target'', ''title''] of [] \<Rightarrow> None | k # _ \<Rightarrow> str_at k (pe_raw e))"

definition asks_for :: "pi_session_config \<Rightarrow> pi_event \<Rightarrow> pi_session \<Rightarrow> pi_session" where
  "asks_for cfg e s =
     (case event_id e of
        None \<Rightarrow> reader_at Reading s
      | Some i \<Rightarrow>
          if or_blank (str_at ''method'' (pe_raw e)) \<notin> set interactive then reader_at Reading s
          else if sc_bridge cfg then reader_at (Asking i) (pause_begins s)
          else
            let allow = (case ui_target e of None \<Rightarrow> False | Some t \<Rightarrow> t \<in> set (sc_allowed_ui_tools cfg)) in
            reader_at Reading (sends (UiReply i (Some (if allow then ''Allow'' else ''Block'')) (Some allow) False) s))"

definition person_answers :: "json \<Rightarrow> string option \<Rightarrow> bool option \<Rightarrow> bool \<Rightarrow> pi_session \<Rightarrow> pi_session" where
  "person_answers i v c cancelled s =
     reader_at Reading (sends (if cancelled then UiReply i None None True else UiReply i v c False) (pause_ends s))"

text \<open>The rest of \<open>_dispatch\<close>, with the turn it began with.\<close>

definition takes_in :: "pi_event \<Rightarrow> nat \<Rightarrow> pi_session \<Rightarrow> pi_session" where
  "takes_in e t s =
     (let u = ps_turns s ! t in
      if refused_by (pt_command u) e
      then fail_turn (PiProcessError (case or_blank (str_at ''error'' (pe_raw e)) of [] \<Rightarrow> ''pi rejected the prompt'' | m \<Rightarrow> m)) s
      else if handled_by (pt_command u) e then on_turn t (settles (Answer (no_run u))) s
      else if pe_type e = EV_MESSAGE_UPDATE
      then (case completed_text e of None \<Rightarrow> s | Some x \<Rightarrow> on_turn t (pt_texts_update (\<lambda>xs. xs @ [x])) s)
      else if is_tool_event e
      then
        (case or_blank (tool_name e) of
           [] \<Rightarrow> s
         | n \<Rightarrow> if pe_type e = EV_TOOL_EXECUTION_START then on_turn t (pt_calls_update (\<lambda>xs. xs @ [n])) s else s)
      else if pe_type e = EV_AGENT_END
      then if will_retry e then s else on_turn t (pt_last_end_update (\<lambda>_. Some e)) s
      else if pe_type e = EV_AGENT_SETTLED
      then
        (case pt_last_end u of
           None \<Rightarrow> fail_turn (PiProcessError ''pi settled without ending a run'') s
         | Some d \<Rightarrow> complete_turn t d s)
      else s)"

definition goes_on_reading :: "pi_session_config \<Rightarrow> pi_event \<Rightarrow> nat option \<Rightarrow> pi_session \<Rightarrow> pi_session" where
  "goes_on_reading cfg e t s =
     (if pe_type e = EV_EXTENSION_UI_REQUEST then asks_for cfg e s
      else case t of None \<Rightarrow> reader_at Reading s | Some i \<Rightarrow> reader_at Reading (takes_in e i s))"

text \<open>The process is gone: the run that had ended answers, if one had.\<close>

definition end_or_fail :: "string \<Rightarrow> pi_session \<Rightarrow> pi_session" where
  "end_or_fail why s =
     (case ps_current s of
        None \<Rightarrow> s
      | Some t \<Rightarrow> (case pt_last_end (ps_turns s ! t) of None \<Rightarrow> fail_turn (PiProcessError why) s | Some d \<Rightarrow> complete_turn t d s))"

section \<open>Steps\<close>

datatype session_op =
    ClockTicks int | PromptCalled string string turn_limits | CommandWritten | CommandFails | CallerLooks | NoteWritten | AbortWritten | CallerCancelled
  | LineComes pi_event | ListenerDone | PersonAnswers "string option" "bool option" bool | LinesEnd string | DeathTold
  | WaitBegins | WaitEnds | CancelAsked | CloseCalled | CloseDone

definition caller_goes :: "session_op \<Rightarrow> pi_session \<Rightarrow> pi_session" where
  "caller_goes op s =
     (case (op, ps_caller s) of
        (CommandWritten, Sending t) \<Rightarrow> command_written t s
      | (CommandFails, Sending t) \<Rightarrow> call_ends t (Fails OtherFailure) s
      | (CommandFails, Steering t) \<Rightarrow> call_ends t (Fails OtherFailure) s
      | (CommandFails, Telling t) \<Rightarrow> call_ends t (Fails OtherFailure) s
      | (CallerLooks, Waiting t) \<Rightarrow> looks t s
      | (NoteWritten, Steering t) \<Rightarrow> looks_at_budget t s
      | (NoteWritten, Telling t) \<Rightarrow> caller_at (Waiting t) s
      | (AbortWritten, Aborting t e) \<Rightarrow> call_ends t (Fails e) s
      | (CallerCancelled, NoCall) \<Rightarrow> s
      | (CallerCancelled, _) \<Rightarrow> caller_at NoCall (s\<lparr>ps_current := None\<rparr>)
      | _ \<Rightarrow> s)"

definition reader_goes :: "pi_session_config \<Rightarrow> session_op \<Rightarrow> pi_session \<Rightarrow> pi_session" where
  "reader_goes cfg op s =
     (case (op, ps_reader s) of
        (LineComes e, Reading) \<Rightarrow> reads e s
      | (ListenerDone, Remarked e t) \<Rightarrow> announces e t s
      | (ListenerDone, Noticed e t) \<Rightarrow> goes_on_reading cfg e t s
      | (PersonAnswers v c x, Asking i) \<Rightarrow> person_answers i v c x s
      | (LinesEnd why, Reading) \<Rightarrow> reader_at (Dying why) s
      | (DeathTold, Dying why) \<Rightarrow> reader_at Gone (end_or_fail why s)
      | _ \<Rightarrow> s)"

text \<open>\<open>close\<close> after the transport is closed: the reader is cancelled, in the middle of a question too, and a turn in flight ends.\<close>

definition close_done :: "pi_session \<Rightarrow> pi_session" where
  "close_done s =
     (let s1 = (case ps_current s of
                  None \<Rightarrow> s
                | Some t \<Rightarrow> if pt_end (ps_turns s ! t) = None then end_or_fail ''Session closed during an in-flight turn'' s else s) in
      reader_at Gone (case ps_reader s1 of Asking i \<Rightarrow> pause_ends s1 | _ \<Rightarrow> s1))"

definition session_do :: "pi_session_config \<Rightarrow> session_op \<Rightarrow> pi_session \<Rightarrow> pi_session" where
  "session_do cfg op s =
     (case op of
        ClockTicks t \<Rightarrow> s\<lparr>ps_now := max t (ps_now s)\<rparr>
      | PromptCalled command message l \<Rightarrow> (case run_turn command message l s of Inl e \<Rightarrow> s | Inr s1 \<Rightarrow> s1)
      | WaitBegins \<Rightarrow> pause_begins s
      | WaitEnds \<Rightarrow> if ps_wait_depth s > (case ps_reader s of Asking i \<Rightarrow> 1 | _ \<Rightarrow> 0) then pause_ends s else s
      | CancelAsked \<Rightarrow> if ps_current s = None then s else sends AbortCommand (on_that_turn (ps_current s) (pt_abort_requested_update (\<lambda>_. True)) s)
      | CloseCalled \<Rightarrow> s\<lparr>ps_closed := True\<rparr>
      | CloseDone \<Rightarrow> if ps_closed s then close_done s else s
      | _ \<Rightarrow> reader_goes cfg op (caller_goes op s))"

definition session_run :: "pi_session_config \<Rightarrow> session_op list \<Rightarrow> pi_session \<Rightarrow> pi_session" where
  "session_run cfg ops s = fold (session_do cfg) ops s"

definition new_session :: pi_session where
  "new_session = \<lparr>ps_turns = [], ps_current = None, ps_caller = NoCall, ps_reader = Reading, ps_closed = False, ps_poisoned = False,
     ps_wait_started = None, ps_wait_depth = 0, ps_wait_total = 0, ps_now = 0, ps_sent = [], ps_heard = [], ps_told = []\<rparr>"

end
