(* ===== verification/PiTurnProps.thy ===== *)
theory PiTurnProps
  imports PiTurn
begin

text \<open>
  What a session keeps: the time a person takes is not the turn's, a note is given once, a session that was stopped is sent
  nothing more, and a turn's answer is what the model said after its last call.
\<close>

section \<open>The answer\<close>

text \<open>A line that takes its whole way through the reader, its listeners included.\<close>

definition takes_line :: "pi_session_config \<Rightarrow> pi_event \<Rightarrow> pi_session \<Rightarrow> pi_session" where
  "takes_line cfg e s = session_run cfg [LineComes e, ListenerDone, ListenerDone] s"

definition takes_lines :: "pi_session_config \<Rightarrow> pi_event list \<Rightarrow> pi_session \<Rightarrow> pi_session" where
  "takes_lines cfg es s = fold (takes_line cfg) es s"

definition is_call :: "pi_event \<Rightarrow> bool" where
  "is_call e \<longleftrightarrow> pe_type e = EV_TOOL_EXECUTION_START"

text \<open>Of the lines so far: the texts after the last call, the remarks before one, the names of the calls.\<close>

definition texts_after_call :: "pi_event list \<Rightarrow> string list" where
  "texts_after_call es = List.map_filter completed_text (rev (takeWhile (\<lambda>e. \<not> is_call e) (rev es)))"

definition remark_at :: "pi_event list \<Rightarrow> nat \<Rightarrow> string list" where
  "remark_at es i = (if is_call (es ! i) then (case strip (concat (texts_after_call (take i es))) of [] \<Rightarrow> [] | r \<Rightarrow> [r]) else [])"

definition remarks_of :: "pi_event list \<Rightarrow> string list" where
  "remarks_of es = concat (map (remark_at es) [0..<length es])"

definition calls_of :: "pi_event list \<Rightarrow> string list" where
  "calls_of es = filter (\<lambda>n. n \<noteq> []) (map (\<lambda>e. or_blank (tool_name e)) (filter is_call es))"

text \<open>A line that is neither an answer to a command, nor a question to a person, nor the end of the run.\<close>

definition on_the_way :: "pi_event \<Rightarrow> bool" where
  "on_the_way e \<longleftrightarrow> pe_type e \<notin> {EV_RESPONSE, EV_EXTENSION_UI_REQUEST, EV_AGENT_SETTLED}"

lemma map_filter_snoc: "List.map_filter f (xs @ [x]) = List.map_filter f xs @ (case f x of None \<Rightarrow> [] | Some y \<Rightarrow> [y])"
  by (simp add: List.map_filter_def split: option.splits)

lemma texts_after_call_simps [simp]:
  "texts_after_call [] = []"
  "texts_after_call (es @ [e]) = (if is_call e then [] else texts_after_call es @ (case completed_text e of None \<Rightarrow> [] | Some t \<Rightarrow> [t]))"
  by (simp_all add: texts_after_call_def map_filter_snoc)

lemma remarks_of_simps [simp]:
  "remarks_of [] = []"
  "remarks_of (es @ [e]) = remarks_of es @ (if is_call e then (case strip (concat (texts_after_call es)) of [] \<Rightarrow> [] | r \<Rightarrow> [r]) else [])"
proof -
  show "remarks_of [] = []" by (simp add: remarks_of_def)
  have "map (remark_at (es @ [e])) [0..<length es] = map (remark_at es) [0..<length es]" by (rule map_cong) (simp_all add: remark_at_def nth_append)
  then have "concat (map (remark_at (es @ [e])) [0..<length es]) = remarks_of es" by (simp only: remarks_of_def)
  then show "remarks_of (es @ [e]) = remarks_of es @ (if is_call e then (case strip (concat (texts_after_call es)) of [] \<Rightarrow> [] | r \<Rightarrow> [r]) else [])"
    unfolding remarks_of_def [of "es @ [e]"] by (simp add: remark_at_def [of "es @ [e]" "length es"])
qed

lemma calls_of_simps [simp]:
  "calls_of [] = []" "calls_of (es @ [e]) = calls_of es @ (if is_call e \<and> or_blank (tool_name e) \<noteq> [] then [or_blank (tool_name e)] else [])"
  by (simp_all add: calls_of_def)

definition reading :: "nat \<Rightarrow> pi_session \<Rightarrow> bool" where
  "reading t s \<longleftrightarrow> ps_current s = Some t \<and> ps_reader s = Reading \<and> t < length (ps_turns s)"

lemmas reader_defs = reads_def announces_def notices_def goes_on_reading_def takes_in_def on_turn_def on_that_turn_def hears_def reader_at_def
  remarks_def touches_def remark_before_def

lemma session_do_reader [simp]:
  "session_do cfg (LineComes e) s = (case ps_reader s of Reading \<Rightarrow> reads e s | _ \<Rightarrow> s)"
  "session_do cfg ListenerDone s = (case ps_reader s of Remarked e t \<Rightarrow> announces e t s | Noticed e t \<Rightarrow> goes_on_reading cfg e t s | _ \<Rightarrow> s)"
  by (simp_all add: session_do_def reader_goes_def caller_goes_def split: reader_phase.splits)

lemma not_an_answer: "on_the_way e \<Longrightarrow> \<not> refused_by c e \<and> \<not> handled_by c e"
  by (simp add: on_the_way_def refused_by_def handled_by_def)

text \<open>What a line on the way does to the turn.\<close>

definition line_taken :: "pi_event \<Rightarrow> pi_turn \<Rightarrow> pi_turn \<Rightarrow> bool" where
  "line_taken e u u' \<longleftrightarrow>
     pt_texts u' = (if is_call e then [] else pt_texts u @ (case completed_text e of None \<Rightarrow> [] | Some x \<Rightarrow> [x]))
     \<and> pt_progress u' = pt_progress u @ (if is_call e then (case strip (concat (pt_texts u)) of [] \<Rightarrow> [] | r \<Rightarrow> [r]) else [])
     \<and> pt_calls u' = pt_calls u @ (if is_call e \<and> or_blank (tool_name e) \<noteq> [] then [or_blank (tool_name e)] else [])
     \<and> pt_last_end u' = (if pe_type e = EV_AGENT_END \<and> \<not> will_retry e then Some e else pt_last_end u)
     \<and> pt_end u' = pt_end u \<and> pt_command u' = pt_command u \<and> pt_abort_requested u' = pt_abort_requested u"

lemma strip_Nil [simp]: "strip [] = []"
  by (simp add: strip_def)

lemma line_taken_call:
  assumes r: "reading t s" and c: "is_call e"
  shows "reading t (takes_line cfg e s) \<and> line_taken e (ps_turns s ! t) (ps_turns (takes_line cfg e s) ! t)"
proof -
  have ty: "pe_type e = EV_TOOL_EXECUTION_START" using c by (simp add: is_call_def)
  have no: "\<not> refused_by k e" "\<not> handled_by k e" "completed_text e = None" for k
    using ty by (simp_all add: refused_by_def handled_by_def completed_text_def pi_event_types)
  show ?thesis
    using r ty no by (cases "strip (concat (pt_texts (ps_turns s ! t)))")
      (auto simp: reading_def line_taken_def takes_line_def session_run_def is_call_def reader_defs Let_def is_tool_event_def pi_event_types
        split: list.splits)
qed

lemma line_taken_other:
  assumes r: "reading t s" and c: "\<not> is_call e" and e: "on_the_way e"
  shows "reading t (takes_line cfg e s) \<and> line_taken e (ps_turns s ! t) (ps_turns (takes_line cfg e s) ! t)"
proof -
  note no = not_an_answer [OF e]
  have ty: "pe_type e \<noteq> EV_TOOL_EXECUTION_START" "pe_type e \<noteq> EV_EXTENSION_UI_REQUEST" "pe_type e \<noteq> EV_AGENT_SETTLED" using c e by (auto simp: is_call_def on_the_way_def)
  have quiet_text: "completed_text e = None" if "pe_type e \<noteq> EV_MESSAGE_UPDATE" using that by (simp add: completed_text_def)
  show ?thesis
    using r ty no quiet_text
    by (cases "completed_text e")
      (auto simp: reading_def line_taken_def takes_line_def session_run_def is_call_def reader_defs Let_def is_tool_event_def pi_event_types
        split: list.splits option.splits)
qed

lemma line_taken:
  "reading t s \<Longrightarrow> on_the_way e \<Longrightarrow> reading t (takes_line cfg e s) \<and> line_taken e (ps_turns s ! t) (ps_turns (takes_line cfg e s) ! t)"
  using line_taken_call line_taken_other by blast

text \<open>A turn that has read nothing yet, and the same one after some lines.\<close>

definition unspoken :: "pi_turn \<Rightarrow> bool" where
  "unspoken u \<longleftrightarrow> pt_texts u = [] \<and> pt_progress u = [] \<and> pt_calls u = [] \<and> pt_end u = None"

lemma lines_taken:
  assumes "reading t s" and "unspoken (ps_turns s ! t)" and "list_all on_the_way es"
  shows "reading t (takes_lines cfg es s) \<and> (let u = ps_turns (takes_lines cfg es s) ! t in
    pt_texts u = texts_after_call es \<and> pt_progress u = remarks_of es \<and> pt_calls u = calls_of es \<and> pt_end u = None
    \<and> pt_abort_requested u = pt_abort_requested (ps_turns s ! t))"
  using assms(3)
proof (induction es rule: rev_induct)
  case Nil
  then show ?case using assms(1,2) by (simp add: takes_lines_def unspoken_def)
next
  case (snoc e es)
  have step: "takes_lines cfg (es @ [e]) s = takes_line cfg e (takes_lines cfg es s)" by (simp add: takes_lines_def)
  have ih: "reading t (takes_lines cfg es s)" and e: "on_the_way e" using snoc by simp_all
  from line_taken [OF ih e, of cfg] snoc show ?case unfolding step by (simp add: line_taken_def Let_def)
qed

text \<open>How the run that ended answers, of the lines before its end: the text after the last call, or the text of the run's own messages, or an error,
  or the last remark.\<close>

definition answer_of :: "bool \<Rightarrow> pi_event list \<Rightarrow> pi_event \<Rightarrow> turn_end" where
  "answer_of aborted es d =
     (let spoken = strip (concat (texts_after_call es));
          written = (if spoken \<noteq> [] then spoken else final_text_of_end d);
          result = (\<lambda>answer. Answer \<lparr>pr_text = answer, pr_tool_calls = calls_of es, pr_stop_reason = stop_reason_of_end aborted d, pr_model = model_of_end d,
            pr_truncated = (stop_reason_of_end aborted d = Some ''length''), pr_usage = usage_of_end d\<rparr>) in
      if written \<noteq> [] then result written
      else case error_of_end aborted d of
        Some err \<Rightarrow> Fails (PiProcessError (''pi LLM error: '' @ err))
      | None \<Rightarrow> result (if remarks_of es \<noteq> [] then last (remarks_of es) else []))"

lemma settled_takes:
  assumes r: "reading t s" and f: "pe_type f = EV_AGENT_SETTLED" and d: "pt_last_end (ps_turns s ! t) = Some d" and u: "pt_end (ps_turns s ! t) = None"
  shows "pt_end (ps_turns (takes_line cfg f s) ! t) = pt_end (ps_turns (complete_turn t d s) ! t)"
proof -
  have no: "\<not> refused_by k f" "\<not> handled_by k f" for k using f by (simp_all add: refused_by_def handled_by_def pi_event_types)
  show ?thesis using r f d u no
    by (auto simp: reading_def takes_line_def session_run_def reader_defs Let_def is_tool_event_def pi_event_types complete_turn_def said_text_def
        fail_turn_def settles_def result_of_def split: list.splits option.splits)
qed

text \<open>C38. The answer of a turn is a function of the lines of its run, however many remarks and calls they have: the text after the last call; where there
  is none, the text of the run's own messages; where there is none either, the run's error, or else the last remark.\<close>

theorem the_answer_follows_the_last_call:
  assumes "reading t s" and "unspoken (ps_turns s ! t)" and "list_all on_the_way es"
    and "pe_type d = EV_AGENT_END" and "\<not> will_retry d" and "pe_type f = EV_AGENT_SETTLED"
  shows "pt_end (ps_turns (takes_lines cfg (es @ [d, f]) s) ! t) = Some (answer_of (pt_abort_requested (ps_turns s ! t)) es d)"
proof -
  let ?s1 = "takes_lines cfg es s" and ?s2 = "takes_lines cfg (es @ [d]) s"
  have d: "on_the_way d" "\<not> is_call d" "completed_text d = None" using assms(4) by (simp_all add: on_the_way_def is_call_def completed_text_def pi_event_types)
  have lines: "list_all on_the_way (es @ [d])" using assms(3) d(1) by simp
  from lines_taken [OF assms(1,2) lines, of cfg] d(2,3)
  have r: "reading t ?s2" and u: "pt_texts (ps_turns ?s2 ! t) = texts_after_call es" "pt_progress (ps_turns ?s2 ! t) = remarks_of es"
    "pt_calls (ps_turns ?s2 ! t) = calls_of es" "pt_end (ps_turns ?s2 ! t) = None" "pt_abort_requested (ps_turns ?s2 ! t) = pt_abort_requested (ps_turns s ! t)"
    by (simp_all add: Let_def)
  have s2: "?s2 = takes_line cfg d ?s1" by (simp add: takes_lines_def)
  have "reading t ?s1" using lines_taken [OF assms(1,2,3), of cfg] by simp
  from line_taken [OF this d(1), of cfg] have e: "pt_last_end (ps_turns ?s2 ! t) = Some d" using assms(4,5) unfolding s2 by (simp add: line_taken_def)
  have "takes_lines cfg (es @ [d, f]) s = takes_line cfg f ?s2" by (simp add: takes_lines_def)
  then have "pt_end (ps_turns (takes_lines cfg (es @ [d, f]) s) ! t) = pt_end (ps_turns (complete_turn t d ?s2) ! t)"
    using settled_takes [OF r assms(6) e u(4)] by simp
  also have "\<dots> = Some (answer_of (pt_abort_requested (ps_turns s ! t)) es d)"
    using r u by (auto simp: reading_def complete_turn_def answer_of_def said_text_def Let_def fail_turn_def on_turn_def on_that_turn_def settles_def result_of_def
        split: list.splits option.splits)
  finally show ?thesis .
qed

section \<open>The turn's clock\<close>

text \<open>The time a run passes while anybody waits for a person, however many do.\<close>

fun waited :: "pi_session_config \<Rightarrow> session_op list \<Rightarrow> pi_session \<Rightarrow> int" where
  "waited cfg [] s = 0"
| "waited cfg (op # ops) s =
     (case op of ClockTicks t \<Rightarrow> if ps_wait_depth s > 0 then max t (ps_now s) - ps_now s else 0 | _ \<Rightarrow> 0) + waited cfg ops (session_do cfg op s)"

text \<open>What the session has written down of it: what is over, and what is under way.\<close>

definition wait_so_far :: "pi_session \<Rightarrow> int" where
  "wait_so_far s = ps_wait_total s + (case ps_wait_started s of None \<Rightarrow> 0 | Some w \<Rightarrow> ps_now s - w)"

definition waits_ok :: "pi_session \<Rightarrow> bool" where
  "waits_ok s \<longleftrightarrow> (ps_wait_started s \<noteq> None \<longleftrightarrow> ps_wait_depth s > 0)"

definition same_waits :: "pi_session \<Rightarrow> pi_session \<Rightarrow> bool" where
  "same_waits s s' \<longleftrightarrow> ps_wait_started s' = ps_wait_started s \<and> ps_wait_depth s' = ps_wait_depth s \<and> ps_wait_total s' = ps_wait_total s \<and> ps_now s' = ps_now s"

definition same_turns :: "pi_session \<Rightarrow> pi_session \<Rightarrow> bool" where
  "same_turns s s' \<longleftrightarrow> length (ps_turns s') = length (ps_turns s)
     \<and> (\<forall>i < length (ps_turns s). pt_limits (ps_turns s' ! i) = pt_limits (ps_turns s ! i))"

text \<open>The parts of a step that touch neither the waits nor the number of the turns and their limits.\<close>

lemma settle_limits [simp]: "pt_limits (settles r u) = pt_limits u"
  by (simp add: settles_def)

lemma on_turn_same:
  assumes "\<And>u. pt_limits (f u) = pt_limits u"
  shows "same_turns s (on_turn t f s)"
proof -
  have "pt_limits ((ps_turns s)[t := f (ps_turns s ! t)] ! i) = pt_limits (ps_turns s ! i)" if "i < length (ps_turns s)" for i
    using assms that by (cases "i = t") simp_all
  then show ?thesis by (simp add: same_turns_def on_turn_def)
qed

lemma same_turns_trans: "same_turns a b \<Longrightarrow> same_turns b c \<Longrightarrow> same_turns a c"
  by (simp add: same_turns_def)

definition plain :: "pi_session \<Rightarrow> pi_session \<Rightarrow> bool" where
  "plain s s' \<longleftrightarrow> same_waits s s' \<and> same_turns s s'"

lemma plain_refl [simp]: "plain s s"
  by (simp add: plain_def same_waits_def same_turns_def)

lemma plain_on_turn: "(\<And>u. pt_limits (f u) = pt_limits u) \<Longrightarrow> plain s q \<Longrightarrow> plain s (on_turn t f q)"
  using on_turn_same [of f q t] same_turns_trans [of s q] by (simp add: plain_def same_waits_def on_turn_def)

lemma plain_on_that_turn: "(\<And>u. pt_limits (f u) = pt_limits u) \<Longrightarrow> plain s q \<Longrightarrow> plain s (on_that_turn t f q)"
  by (simp add: on_that_turn_def plain_on_turn split: option.splits)

lemma plain_other:
  "plain s q \<Longrightarrow> plain s (sends c q)" "plain s q \<Longrightarrow> plain s (hears e q)" "plain s q \<Longrightarrow> plain s (reader_at r q)" "plain s q \<Longrightarrow> plain s (caller_at ph q)"
  "plain s q \<Longrightarrow> plain s (q\<lparr>ps_current := cu\<rparr>)" "plain s q \<Longrightarrow> plain s (q\<lparr>ps_told := tl'\<rparr>)" "plain s q \<Longrightarrow> plain s (q\<lparr>ps_poisoned := po\<rparr>)"
  "plain s q \<Longrightarrow> plain s (q\<lparr>ps_closed := cl\<rparr>)"
  by (simp_all add: plain_def same_waits_def same_turns_def sends_def hears_def reader_at_def caller_at_def)

lemma plain_call_ends: "plain s q \<Longrightarrow> plain s (call_ends t r q)"
  using plain_other(4) [OF plain_other(6) [OF plain_other(5)]] by (simp add: call_ends_def)

lemmas plain_intros = plain_on_turn plain_on_that_turn plain_other plain_call_ends

lemma plain_fail_turn: "plain s q \<Longrightarrow> plain s (fail_turn e q)"
  unfolding fail_turn_def by (rule plain_on_that_turn) simp_all

lemma plain_stops: "plain s q \<Longrightarrow> plain s (stops t e q)"
  unfolding stops_def by (intro plain_intros) simp_all

lemma plain_looks: "plain s (looks_at_budget t s)" "plain s (looks t s)"
proof -
  show b: "plain s (looks_at_budget t s)" unfolding looks_at_budget_def Let_def by (auto intro!: plain_intros plain_stops)
  show "plain s (looks t s)" unfolding looks_def Let_def using b by (auto intro!: plain_intros plain_stops split: option.splits)
qed

lemma plain_caller: "plain s (caller_goes op s)"
  by (cases op; cases "ps_caller s") (simp_all add: caller_goes_def command_written_def plain_intros plain_looks)

lemma plain_complete: "plain s q \<Longrightarrow> plain s (complete_turn t e q)"
  unfolding complete_turn_def Let_def by (auto intro!: plain_intros plain_fail_turn split: list.splits option.splits)

lemma plain_takes_in: "plain s q \<Longrightarrow> plain s (takes_in e t q)"
  unfolding takes_in_def Let_def by (simp add: plain_intros plain_fail_turn plain_complete split: list.splits option.splits)

lemma plain_notices: "plain s q \<Longrightarrow> plain s (announces e t q)"
  unfolding announces_def notices_def Let_def by (auto intro!: plain_intros split: option.splits)

lemma plain_reads: "plain s (reads e s)"
  unfolding reads_def Let_def
  by (auto intro!: plain_intros plain_notices simp: remarks_def touches_def split: option.splits)

lemma plain_end_or_fail: "plain s q \<Longrightarrow> plain s (end_or_fail w q)"
  unfolding end_or_fail_def by (auto intro!: plain_fail_turn plain_complete split: option.splits)

text \<open>A step: the clock, a wait that begins or ends, a turn that begins, or a plain one.\<close>

definition kept :: "pi_session \<Rightarrow> pi_session \<Rightarrow> bool" where
  "kept s s' \<longleftrightarrow> (waits_ok s \<longrightarrow> waits_ok s' \<and> wait_so_far s' = wait_so_far s) \<and> same_turns s s'"

lemma kept_plain: "plain s s' \<Longrightarrow> kept s s'"
  by (simp add: kept_def plain_def same_waits_def waits_ok_def wait_so_far_def split: option.splits)

lemma kept_trans: "kept a b \<Longrightarrow> kept b c \<Longrightarrow> kept a c"
  using same_turns_trans by (auto simp: kept_def)

lemma kept_begins: "kept s (pause_begins s)"
  by (auto simp: kept_def waits_ok_def wait_so_far_def pause_begins_def same_turns_def)

lemma kept_ends: "kept s (pause_ends s)"
  by (auto simp: kept_def waits_ok_def wait_so_far_def pause_ends_def same_turns_def Let_def split: option.splits)

lemma kept_asks: "kept s (asks_for cfg e s)"
proof -
  have "kept s (reader_at r (pause_begins s))" for r by (rule kept_trans [OF kept_begins kept_plain]) (simp add: plain_intros)
  moreover have "kept s (reader_at r s)" "kept s (reader_at r (sends c s))" for r c by (rule kept_plain, simp add: plain_intros)+
  ultimately show ?thesis by (simp add: asks_for_def Let_def split: option.splits)
qed

lemma kept_answers: "kept s (person_answers i v c x s)"
  unfolding person_answers_def by (rule kept_trans [OF kept_ends kept_plain]) (simp add: plain_intros)

lemma kept_reading: "kept s (goes_on_reading cfg e t s)"
  using kept_asks [of s cfg e] by (auto simp: goes_on_reading_def plain_intros plain_takes_in intro!: kept_plain split: option.splits)

lemma kept_close: "kept s (close_done s)"
proof -
  let ?s1 = "case ps_current s of None \<Rightarrow> s
    | Some t \<Rightarrow> if pt_end (ps_turns s ! t) = None then end_or_fail ''Session closed during an in-flight turn'' s else s"
  have one: "plain s ?s1" using plain_end_or_fail [OF plain_refl] by (simp split: option.splits)
  have two: "kept ?s1 (reader_at Gone ?s1)" by (rule kept_plain) (simp add: plain_intros)
  have three: "kept ?s1 (reader_at Gone (pause_ends ?s1))" by (rule kept_trans [OF kept_ends kept_plain]) (simp add: plain_intros)
  show ?thesis unfolding close_done_def Let_def using kept_trans [OF kept_plain [OF one] two] kept_trans [OF kept_plain [OF one] three]
    by (cases "ps_reader ?s1") simp_all
qed

lemma kept_refl: "kept s s"
  by (rule kept_plain) simp

lemma kept_reader: "kept s (reader_goes cfg op s)"
  using kept_plain [OF plain_reads] kept_plain [OF plain_notices [OF plain_refl]] kept_reading kept_answers kept_refl
    kept_plain [OF plain_other(3) [OF plain_refl]] kept_plain [OF plain_other(3) [OF plain_end_or_fail [OF plain_refl]]]
  by (cases op; cases "ps_reader s") (simp_all add: reader_goes_def)

lemma kept_other:
  assumes "\<And>t. op \<noteq> ClockTicks t" and "\<And>c m l. op \<noteq> PromptCalled c m l"
  shows "kept s (session_do cfg op s)"
proof -
  have both: "kept s (reader_goes cfg op (caller_goes op s))" by (rule kept_trans [OF kept_plain [OF plain_caller] kept_reader])
  show ?thesis
  proof (cases op)
    case CancelAsked
    then show ?thesis by (intro kept_plain) (simp add: session_do_def plain_intros)
  next
    case CloseCalled
    then show ?thesis by (intro kept_plain) (simp add: session_do_def plain_intros)
  qed (use assms both kept_begins kept_ends kept_close kept_refl in \<open>simp_all add: session_do_def\<close>)
qed

lemma prompt_called:
  "session_do cfg (PromptCalled c m l) s = s \<or> (\<exists>s'. run_turn c m l s = Inr s' \<and> session_do cfg (PromptCalled c m l) s = s' \<and> length (ps_turns s') = Suc (length (ps_turns s)))"
  by (auto simp: session_do_def run_turn_def Let_def caller_at_def sends_def)

lemma turns_grow: "length (ps_turns s) \<le> length (ps_turns (session_do cfg op s))"
proof (cases op)
  case (PromptCalled c m l)
  then show ?thesis using prompt_called [of cfg c m l s] by auto
next
  case (ClockTicks t)
  then show ?thesis by (simp add: session_do_def)
qed (use kept_other [of op s cfg] in \<open>simp_all add: kept_def same_turns_def\<close>)

lemma waits_step:
  assumes ok: "waits_ok s" and len: "length (ps_turns (session_do cfg op s)) = length (ps_turns s)"
  shows "waits_ok (session_do cfg op s) \<and> wait_so_far (session_do cfg op s) = wait_so_far s + waited cfg [op] s \<and> same_turns s (session_do cfg op s)"
proof (cases op)
  case (ClockTicks t)
  then show ?thesis using ok by (auto simp: session_do_def waits_ok_def wait_so_far_def same_turns_def split: option.splits)
next
  case (PromptCalled c m l)
  then have "session_do cfg op s = s" using len prompt_called [of cfg c m l s] by auto
  then show ?thesis using ok PromptCalled by (simp add: same_turns_def)
qed (use kept_other [of op s cfg] ok in \<open>simp_all add: kept_def\<close>)

lemma turns_grow_run: "length (ps_turns s) \<le> length (ps_turns (session_run cfg ops s))"
proof (induction ops arbitrary: s)
  case (Cons op ops)
  show ?case using Cons [of "session_do cfg op s"] turns_grow [of s cfg op] by (simp add: session_run_def)
qed (simp add: session_run_def)

text \<open>While no other turn begins, what is written down of the waits is the time anybody waited.\<close>

lemma waits_run:
  "waits_ok s \<Longrightarrow> length (ps_turns (session_run cfg ops s)) = length (ps_turns s)
    \<Longrightarrow> waits_ok (session_run cfg ops s) \<and> wait_so_far (session_run cfg ops s) = wait_so_far s + waited cfg ops s \<and> same_turns s (session_run cfg ops s)"
proof (induction ops arbitrary: s)
  case (Cons op ops)
  let ?s = "session_do cfg op s"
  have run: "session_run cfg (op # ops) s = session_run cfg ops ?s" by (simp add: session_run_def)
  have len: "length (ps_turns ?s) = length (ps_turns s)" "length (ps_turns (session_run cfg ops ?s)) = length (ps_turns ?s)"
    using Cons.prems(2) turns_grow [of s cfg op] turns_grow_run [of ?s cfg ops] unfolding run by linarith+
  note one = waits_step [OF Cons.prems(1) len(1)]
  have ok: "waits_ok ?s" using one by blast
  note rest = Cons.IH [OF ok len(2)]
  have "wait_so_far (session_run cfg ops ?s) = wait_so_far s + waited cfg (op # ops) s" using one rest by simp
  then show ?case using one rest same_turns_trans unfolding run by blast
qed (simp add: session_run_def same_turns_def)

section \<open>The caller and its turn\<close>

fun turn_of_call :: "caller_phase \<Rightarrow> nat option" where
  "turn_of_call NoCall = None"
| "turn_of_call (Sending t) = Some t"
| "turn_of_call (Waiting t) = Some t"
| "turn_of_call (Steering t) = Some t"
| "turn_of_call (Telling t) = Some t"
| "turn_of_call (Aborting t e) = Some t"

fun engine_command :: "pi_command \<Rightarrow> bool" where
  "engine_command (PromptCommand c m) = True"
| "engine_command (SteerCommand t n) = True"
| "engine_command _ = False"

definition note_flags :: "pi_turn \<Rightarrow> bool \<times> bool" where
  "note_flags u = (pt_wrapped_up u, pt_budget_told u)"

text \<open>What of a session only its caller changes.\<close>

definition call_view :: "pi_session \<Rightarrow> nat option \<times> caller_phase \<times> bool \<times> pi_command list \<times> (bool \<times> bool) list" where
  "call_view s = (ps_current s, ps_caller s, ps_poisoned s, filter engine_command (ps_sent s), map note_flags (ps_turns s))"

lemma view_on_turn:
  assumes "\<And>u. note_flags (f u) = note_flags u"
  shows "call_view (on_turn t f s) = call_view s"
proof -
  have "map note_flags ((ps_turns s)[t := f (ps_turns s ! t)]) = map note_flags (ps_turns s)"
  proof (rule nth_equalityI)
    show "map note_flags ((ps_turns s)[t := f (ps_turns s ! t)]) ! i = map note_flags (ps_turns s) ! i"
      if "i < length (map note_flags ((ps_turns s)[t := f (ps_turns s ! t)]))" for i
      using that assms by (cases "i = t") simp_all
  qed simp
  then show ?thesis by (simp add: call_view_def on_turn_def)
qed

lemma view_on_that_turn: "(\<And>u. note_flags (f u) = note_flags u) \<Longrightarrow> call_view (on_that_turn t f s) = call_view s"
  by (simp add: on_that_turn_def view_on_turn split: option.splits)

lemma settle_flags [simp]: "note_flags (settles r u) = note_flags u"
  by (simp add: settles_def note_flags_def)

lemma view_settle [simp]: "call_view (on_turn t (settles r) s) = call_view s" "call_view (fail_turn er s) = call_view s"
  unfolding fail_turn_def by (rule view_on_turn view_on_that_turn; simp)+

lemma view_simps [simp]:
  "call_view (hears e s) = call_view s" "call_view (reader_at r s) = call_view s" "call_view (pause_begins s) = call_view s"
  "call_view (pause_ends s) = call_view s" "\<not> engine_command c \<Longrightarrow> call_view (sends c s) = call_view s"
  "call_view (s\<lparr>ps_closed := b\<rparr>) = call_view s" "call_view (s\<lparr>ps_now := n\<rparr>) = call_view s"
  by (simp_all add: call_view_def hears_def reader_at_def pause_begins_def pause_ends_def sends_def Let_def split: option.splits)

lemma view_complete [simp]: "call_view (complete_turn t e s) = call_view s"
  by (simp add: complete_turn_def Let_def view_on_turn split: list.splits option.splits)

lemma view_reader_parts [simp]:
  "call_view (takes_in e t s) = call_view s" "call_view (announces e t' s) = call_view s" "call_view (reads e s) = call_view s"
  "call_view (asks_for cfg e s) = call_view s" "call_view (person_answers i v c x s) = call_view s" "call_view (end_or_fail w s) = call_view s"
  by (simp_all add: takes_in_def announces_def notices_def reads_def asks_for_def person_answers_def end_or_fail_def remarks_def touches_def Let_def
      view_on_turn view_on_that_turn note_flags_def split: list.splits option.splits)

lemma view_reader: "call_view (reader_goes cfg op s) = call_view s"
  by (cases op; cases "ps_reader s") (simp_all add: reader_goes_def goes_on_reading_def split: option.splits)

lemma view_close: "call_view (close_done s) = call_view s"
  by (simp add: close_done_def Let_def split: option.splits reader_phase.splits)

text \<open>A turn in flight is its caller's and the last; a note is told once, and written down as told.\<close>

definition note_count :: "nat \<Rightarrow> string \<Rightarrow> pi_session \<Rightarrow> nat" where
  "note_count t n s = count_list (filter engine_command (ps_sent s)) (SteerCommand t n)"

definition note_told :: "nat \<Rightarrow> string \<Rightarrow> pi_session \<Rightarrow> bool" where
  "note_told t n s \<longleftrightarrow> t < length (ps_turns s)
     \<and> ((n = WRAP_UP_NOTE \<and> pt_wrapped_up (ps_turns s ! t)) \<or> (n = BUDGET_NOTE \<and> pt_budget_told (ps_turns s ! t)))"

definition calls_well :: "pi_session \<Rightarrow> bool" where
  "calls_well s \<longleftrightarrow> ps_current s = turn_of_call (ps_caller s) \<and> (\<forall>t. ps_current s = Some t \<longrightarrow> Suc t = length (ps_turns s))
     \<and> (\<forall>t n. note_count t n s \<le> (if note_told t n s then 1 else 0))"

lemma calls_well_view:
  assumes "call_view s' = call_view s" and "calls_well s"
  shows "calls_well s'"
proof -
  have v: "ps_current s' = ps_current s" "ps_caller s' = ps_caller s" "filter engine_command (ps_sent s') = filter engine_command (ps_sent s)"
    and m: "map note_flags (ps_turns s') = map note_flags (ps_turns s)" using assms(1) by (simp_all add: call_view_def)
  have len: "length (ps_turns s') = length (ps_turns s)" using m by (metis length_map)
  have fl: "note_flags (ps_turns s' ! t) = note_flags (ps_turns s ! t)" if "t < length (ps_turns s)" for t using m len that by (metis nth_map)
  have "note_told t n s' = note_told t n s" for t n using fl [of t] len by (auto simp: note_told_def note_flags_def)
  then show ?thesis using assms(2) v len by (simp add: calls_well_def note_count_def)
qed

lemma notes_differ: "WRAP_UP_NOTE \<noteq> BUDGET_NOTE"
  by (simp add: WRAP_UP_NOTE_def BUDGET_NOTE_def)

lemma calls_well_at: "calls_well s \<Longrightarrow> turn_of_call ph = ps_current s \<Longrightarrow> calls_well (caller_at ph s)"
  by (simp add: calls_well_def caller_at_def note_count_def note_told_def)

lemma calls_well_free: "calls_well s \<Longrightarrow> calls_well (caller_at NoCall (s\<lparr>ps_current := None\<rparr>))"
  by (simp add: calls_well_def caller_at_def note_count_def note_told_def)

lemma calls_well_ends: "calls_well s \<Longrightarrow> calls_well (call_ends t r s)"
  by (simp add: calls_well_def call_ends_def caller_at_def note_count_def note_told_def)

lemma calls_well_stops: "calls_well s \<Longrightarrow> ps_current s = Some t \<Longrightarrow> calls_well (stops t e s)"
proof -
  assume ok: "calls_well s" and c: "ps_current s = Some t"
  have "calls_well (s\<lparr>ps_poisoned := True\<rparr>)" using ok by (simp add: calls_well_def note_count_def note_told_def)
  then have "calls_well (sends AbortCommand (on_that_turn (ps_current s) (pt_abort_requested_update (\<lambda>_. True)) (s\<lparr>ps_poisoned := True\<rparr>)))"
    by (rule calls_well_view [rotated]) (simp add: view_on_that_turn note_flags_def)
  then show ?thesis unfolding stops_def using c by (intro calls_well_at) (simp_all add: sends_def on_that_turn_def on_turn_def)
qed

text \<open>A note goes to the turn in flight, which had not been told it.\<close>

lemma calls_well_note:
  assumes ok: "calls_well s" and c: "ps_current s = Some t" and not: "\<not> note_told t n s" and ph: "turn_of_call ph = Some t"
    and f: "\<And>u. note_flags (f u) = (pt_wrapped_up u \<or> n = WRAP_UP_NOTE, pt_budget_told u \<or> n = BUDGET_NOTE)" and n: "n = WRAP_UP_NOTE \<or> n = BUDGET_NOTE"
  shows "calls_well (caller_at ph (sends (SteerCommand t n) (on_turn t f s)))" (is "calls_well ?s")
proof -
  have t: "t < length (ps_turns s)" "Suc t = length (ps_turns s)" using ok c by (auto simp: calls_well_def)
  have told: "note_told t' m ?s \<longleftrightarrow> note_told t' m s \<or> (t' = t \<and> m = n)" for t' m
    using t f [of "ps_turns s ! t"] n by (cases "t' = t") (auto simp: note_told_def note_flags_def caller_at_def sends_def on_turn_def)
  have count: "note_count t' m ?s = note_count t' m s + (if t' = t \<and> m = n then 1 else 0)" for t' m
    by (simp add: note_count_def caller_at_def sends_def on_turn_def)
  have "note_count t' m ?s \<le> (if note_told t' m ?s then 1 else 0)" for t' m
  proof (cases "t' = t \<and> m = n")
    case True
    have "note_count t n s \<le> 0" using ok not unfolding calls_well_def by (metis (full_types))
    then show ?thesis unfolding told count using True by simp
  next
    case False
    then have "note_count t' m ?s = note_count t' m s" "note_told t' m ?s = note_told t' m s" unfolding told count by auto
    then show ?thesis using ok unfolding calls_well_def by simp
  qed
  moreover have "ps_current ?s = Some t" "ps_caller ?s = ph" "length (ps_turns ?s) = length (ps_turns s)" using c by (simp_all add: caller_at_def sends_def on_turn_def)
  ultimately show ?thesis using ph t(2) unfolding calls_well_def by simp
qed

lemma calls_well_budget:
  assumes ok: "calls_well s" and c: "ps_current s = Some t"
  shows "calls_well (looks_at_budget t s)"
proof -
  have t: "t < length (ps_turns s)" using ok c by (auto simp: calls_well_def)
  have "calls_well (caller_at (Telling t) (sends (SteerCommand t BUDGET_NOTE) (on_turn t (pt_budget_told_update (\<lambda>_. True)) s)))"
    if "\<not> pt_budget_told (ps_turns s ! t)"
    by (rule calls_well_note [OF ok c]) (use that notes_differ in \<open>auto simp: note_told_def note_flags_def\<close>)
  then show ?thesis using calls_well_stops [OF ok c] calls_well_at [OF ok, of "Waiting t"] c by (simp add: looks_at_budget_def Let_def)
qed

lemma calls_well_looks:
  assumes ok: "calls_well s" and c: "ps_current s = Some t"
  shows "calls_well (looks t s)"
proof -
  have "calls_well (caller_at (Steering t) (sends (SteerCommand t WRAP_UP_NOTE) (on_turn t (pt_wrapped_up_update (\<lambda>_. True)) s)))"
    if "\<not> pt_wrapped_up (ps_turns s ! t)"
    by (rule calls_well_note [OF ok c]) (use that notes_differ in \<open>auto simp: note_told_def note_flags_def\<close>)
  then show ?thesis using ok calls_well_stops [OF ok c] calls_well_ends [OF ok] calls_well_budget [OF ok c]
    by (simp add: looks_def Let_def split: option.splits)
qed

lemma calls_well_caller:
  assumes ok: "calls_well s"
  shows "calls_well (caller_goes op s)"
proof -
  have c: "ps_current s = turn_of_call (ps_caller s)" using ok by (simp add: calls_well_def)
  have w: "calls_well (command_written t s)" if "ps_current s = Some t" for t
  proof -
    have "calls_well (on_turn t (pt_began_update (\<lambda>_. ps_now s)) s)" by (rule calls_well_view [OF view_on_turn ok]) (simp add: note_flags_def)
    then show ?thesis unfolding command_written_def using that by (intro calls_well_at) (simp_all add: on_turn_def)
  qed
  show ?thesis
    using ok c w calls_well_ends [OF ok] calls_well_looks [OF ok] calls_well_budget [OF ok] calls_well_free [OF ok] calls_well_at [OF ok]
    by (cases op; cases "ps_caller s") (simp_all add: caller_goes_def)
qed

lemma calls_well_do:
  assumes ok: "calls_well s"
  shows "calls_well (session_do cfg op s)"
proof -
  have view: "calls_well s'" if "call_view s' = call_view s" for s' using calls_well_view [OF that ok] .
  have both: "calls_well (reader_goes cfg op (caller_goes op s))" by (rule calls_well_view [OF view_reader calls_well_caller [OF ok]])
  show ?thesis
  proof (cases op)
    case (PromptCalled c m l)
    show ?thesis
    proof (cases "session_do cfg op s = s")
      case False
      then obtain s' where s': "run_turn c m l s = Inr s'" "session_do cfg op s = s'" using prompt_called [of cfg c m l s] PromptCalled by auto
      let ?n = "length (ps_turns s)"
      have e: "s' = caller_at (Sending ?n) (sends (PromptCommand c m)
          (s\<lparr>ps_turns := ps_turns s @ [fresh_turn c l (ps_now s)], ps_current := Some ?n, ps_wait_total := 0,
             ps_wait_started := (if ps_wait_depth s > 0 then Some (ps_now s) else None)\<rparr>))"
        using s'(1) by (simp add: run_turn_def Let_def split: if_splits)
      have "note_count t n s' = note_count t n s" for t n by (simp add: e note_count_def caller_at_def sends_def)
      moreover have "note_told t n s \<Longrightarrow> note_told t n s'" for t n by (auto simp: e note_told_def caller_at_def sends_def nth_append)
      moreover have "ps_current s' = Some ?n" "ps_caller s' = Sending ?n" "length (ps_turns s') = Suc ?n" by (simp_all add: e caller_at_def sends_def)
      ultimately show ?thesis using ok unfolding s'(2) calls_well_def by (auto split: if_splits) (metis le_zero_eq zero_le)+
    qed (use ok in simp)
  next
    case CancelAsked
    then show ?thesis by (intro view) (simp add: session_do_def view_on_that_turn note_flags_def)
  qed (use view both view_close in \<open>simp_all add: session_do_def\<close>)
qed

lemma calls_well_new: "calls_well new_session"
  by (simp add: calls_well_def new_session_def note_count_def)

interpretation session_system: invariant_system "\<lambda>s. s = new_session" "\<lambda>s s'. \<exists>op. s' = session_do cfg op s" "calls_well" for cfg
  by unfold_locales (auto intro: calls_well_new calls_well_do)

lemma session_runs_reach: "reachable (\<lambda>s. s = new_session) (\<lambda>s s'. \<exists>op. s' = session_do cfg op s) (session_run cfg ops new_session)"
  unfolding session_run_def by (induction ops rule: rev_induct) (auto intro: reachable.intros)

lemmas calls_well_run = session_system.reachable_inv [OF session_runs_reach]

text \<open>A session that was stopped stays so, and is sent no prompt.\<close>

definition prompts_sent :: "pi_session \<Rightarrow> pi_command list" where
  "prompts_sent s = filter (\<lambda>c. case c of PromptCommand x m \<Rightarrow> True | _ \<Rightarrow> False) (filter engine_command (ps_sent s))"

lemma stopped_view: "call_view s' = call_view s \<Longrightarrow> ps_poisoned s' = ps_poisoned s \<and> prompts_sent s' = prompts_sent s"
  by (simp add: call_view_def prompts_sent_def)

lemma prompts_simps [simp]:
  "prompts_sent (on_turn t f s) = prompts_sent s" "prompts_sent (caller_at ph s) = prompts_sent s" "prompts_sent (call_ends t r s) = prompts_sent s"
  "prompts_sent (sends AbortCommand s) = prompts_sent s" "prompts_sent (sends (SteerCommand t n) s) = prompts_sent s"
  "prompts_sent (s\<lparr>ps_current := cu\<rparr>) = prompts_sent s" "prompts_sent (s\<lparr>ps_poisoned := b\<rparr>) = prompts_sent s" "prompts_sent (on_that_turn t' f s) = prompts_sent s"
  by (simp_all add: prompts_sent_def on_turn_def on_that_turn_def caller_at_def call_ends_def sends_def split: option.splits)

lemma poison_simps [simp]:
  "ps_poisoned (on_turn t f s) = ps_poisoned s" "ps_poisoned (caller_at ph s) = ps_poisoned s" "ps_poisoned (call_ends t r s) = ps_poisoned s"
  "ps_poisoned (sends c s) = ps_poisoned s" "ps_poisoned (on_that_turn t' f s) = ps_poisoned s" "ps_poisoned (stops t e s)"
  by (simp_all add: on_turn_def on_that_turn_def caller_at_def call_ends_def sends_def stops_def split: option.splits)

lemma stops_prompts [simp]: "prompts_sent (stops t e s) = prompts_sent s"
  by (simp add: stops_def)

lemma stopped_budget: "ps_poisoned s \<Longrightarrow> ps_poisoned (looks_at_budget t s) \<and> prompts_sent (looks_at_budget t s) = prompts_sent s"
  by (simp add: looks_at_budget_def Let_def)

lemma stopped_looks: "ps_poisoned s \<Longrightarrow> ps_poisoned (looks t s) \<and> prompts_sent (looks t s) = prompts_sent s"
  using stopped_budget [of s t] by (simp add: looks_def Let_def split: option.splits)

lemma stopped_caller: "ps_poisoned s \<Longrightarrow> ps_poisoned (caller_goes op s) \<and> prompts_sent (caller_goes op s) = prompts_sent s"
  using stopped_budget [of s] stopped_looks [of s] by (cases op; cases "ps_caller s") (simp_all add: caller_goes_def command_written_def)

lemma stopped_do: "ps_poisoned s \<Longrightarrow> ps_poisoned (session_do cfg op s) \<and> prompts_sent (session_do cfg op s) = prompts_sent s"
proof -
  assume p: "ps_poisoned s"
  have both: "ps_poisoned (reader_goes cfg op (caller_goes op s)) \<and> prompts_sent (reader_goes cfg op (caller_goes op s)) = prompts_sent s"
    using stopped_view [OF view_reader] stopped_caller [OF p] by simp
  have view: "ps_poisoned s' \<and> prompts_sent s' = prompts_sent s" if "call_view s' = call_view s" for s' using stopped_view [OF that] p by simp
  show ?thesis
  proof (cases op)
    case (PromptCalled c m l)
    then have "session_do cfg op s = s" using p by (simp add: session_do_def run_turn_def)
    then show ?thesis using p by simp
  next
    case CancelAsked
    then show ?thesis by (intro view) (simp add: session_do_def view_on_that_turn note_flags_def)
  next
    case WaitBegins
    then show ?thesis by (intro view) (simp add: session_do_def)
  next
    case WaitEnds
    then show ?thesis by (intro view) (simp add: session_do_def)
  next
    case CloseCalled
    then show ?thesis by (intro view) (simp add: session_do_def)
  next
    case CloseDone
    then show ?thesis by (intro view) (simp add: session_do_def view_close)
  next
    case (ClockTicks t)
    then show ?thesis by (intro view) (simp add: session_do_def)
  qed (use both in \<open>simp_all add: session_do_def\<close>)
qed

lemma stopped_run: "ps_poisoned s \<Longrightarrow> prompts_sent (session_run cfg ops s) = prompts_sent s"
  unfolding session_run_def by (induction ops arbitrary: s) (simp_all add: stopped_do)

text \<open>C40. Whatever comes and in whatever order: a turn is told to wrap up at most once and of its budget at most once, and told nothing else; and a
  session that was stopped, out of time, stalled or over its budget, is never sent a prompt again.\<close>

theorem told_once_and_stopped_for_good:
  assumes s: "s = session_run cfg ops new_session"
  shows "count_list (ps_sent s) (SteerCommand t n) \<le> 1 \<and> (n \<notin> {WRAP_UP_NOTE, BUDGET_NOTE} \<longrightarrow> SteerCommand t n \<notin> set (ps_sent s))
    \<and> (ps_poisoned s \<longrightarrow> prompts_sent (session_run cfg later s) = prompts_sent s)"
proof -
  have same: "count_list (filter engine_command xs) (SteerCommand t n) = count_list xs (SteerCommand t n)" for xs by (induction xs) auto
  have "note_count t n s \<le> (if note_told t n s then 1 else 0)" using calls_well_run [of cfg ops] unfolding s calls_well_def by blast
  then have c: "count_list (ps_sent s) (SteerCommand t n) \<le> (if note_told t n s then 1 else 0)" by (simp add: note_count_def same)
  have "SteerCommand t n \<notin> set (ps_sent s)" if "n \<notin> {WRAP_UP_NOTE, BUDGET_NOTE}"
    using c that by (simp add: note_told_def count_list_0_iff split: if_splits)
  then show ?thesis using c stopped_run [of s cfg later] by (auto split: if_splits)
qed

section \<open>Out of time\<close>

lemma caller_simps [simp]: "ps_caller (caller_at ph s) = ph" "ps_caller (call_ends t r s) = NoCall" "ps_caller (stops t e s) = Aborting t e"
  by (simp_all add: caller_at_def call_ends_def stops_def)

lemma budget_is_no_timeout: "ps_caller (looks_at_budget t s) \<noteq> Aborting t' PiTimeout"
  by (simp add: looks_at_budget_def Let_def)

lemma looks_out:
  "ps_caller (looks t s) = Aborting t' PiTimeout \<Longrightarrow> ps_caller s = Waiting t
    \<Longrightarrow> t' = t \<and> ps_wait_started s = None \<and> active_for t s \<ge> tl_timeout (pt_limits (ps_turns s ! t))"
  using budget_is_no_timeout [of t s t'] by (auto simp: looks_def Let_def split: option.splits if_splits)

lemma out_of_time:
  assumes no: "ps_caller s \<noteq> Aborting t PiTimeout" and goes: "ps_caller (session_do cfg op s) = Aborting t PiTimeout"
  shows "ps_caller s = Waiting t \<and> ps_wait_started s = None \<and> active_for t s \<ge> tl_timeout (pt_limits (ps_turns s ! t))"
proof -
  have view: "ps_caller s' = ps_caller s" if "call_view s' = call_view s" for s' using that by (simp add: call_view_def)
  have rd: "ps_caller (reader_goes cfg op s') = ps_caller s'" for s' using view_reader [of cfg op s'] by (simp add: call_view_def)
  have "ps_caller (caller_goes op s) = Aborting t PiTimeout"
  proof (cases op)
    case (PromptCalled c m l)
    then show ?thesis using goes no by (auto simp: session_do_def run_turn_def Let_def split: if_splits)
  next
    case WaitBegins
    then show ?thesis using goes no view [of "session_do cfg op s"] by (simp add: session_do_def)
  next
    case WaitEnds
    then have "call_view (session_do cfg op s) = call_view s" by (simp add: session_do_def)
    from view [OF this] show ?thesis using goes no by simp
  next
    case CancelAsked
    then have "call_view (session_do cfg op s) = call_view s" by (simp add: session_do_def view_on_that_turn note_flags_def)
    from view [OF this] show ?thesis using goes no by simp
  next
    case CloseCalled
    then show ?thesis using goes no view [of "session_do cfg op s"] by (simp add: session_do_def)
  next
    case CloseDone
    then have "call_view (session_do cfg op s) = call_view s" by (simp add: session_do_def view_close)
    from view [OF this] show ?thesis using goes no by simp
  next
    case (ClockTicks n)
    then show ?thesis using goes no view [of "session_do cfg op s"] by (simp add: session_do_def)
  qed (use goes rd in \<open>simp_all add: session_do_def\<close>)
  then show ?thesis using no looks_out [of _ s t] budget_is_no_timeout
    by (cases op; cases "ps_caller s") (auto simp: caller_goes_def command_written_def)
qed

lemma new_session_waits: "waits_ok new_session"
  by (simp add: waits_ok_def new_session_def)

lemma waits_ok_called: "waits_ok s \<Longrightarrow> run_turn c m l s = Inr s' \<Longrightarrow> waits_ok s'"
  by (auto simp: run_turn_def Let_def waits_ok_def caller_at_def sends_def split: if_splits)

lemma waits_always:
  assumes ok: "waits_ok s"
  shows "waits_ok (session_do cfg op s)"
proof (cases op)
  case (PromptCalled c m l)
  show ?thesis
  proof (cases "session_do cfg op s = s")
    case False
    then have "run_turn c m l s = Inr (session_do cfg op s)" using prompt_called [of cfg c m l s] PromptCalled by auto
    then show ?thesis by (rule waits_ok_called [OF ok])
  qed (use ok in simp)
next
  case (ClockTicks t)
  then show ?thesis using ok by (simp add: session_do_def waits_ok_def)
qed (use kept_other [of op s cfg] ok in \<open>simp_all add: kept_def\<close>)

lemma waits_ok_run: "waits_ok (session_run cfg ops new_session)"
  unfolding session_run_def by (induction ops rule: rev_induct) (auto intro: new_session_waits waits_always)

text \<open>C39. A turn runs out of time only on its own time: when it is stopped for the time it took, nobody is being waited on, and the time since its command was
  written, less all the time anybody waited for a person, in how many questions at once, is the timeout at least.\<close>

theorem only_its_own_time_runs_out:
  assumes s0: "s0 = session_run cfg before new_session" and called: "run_turn c m l s0 = Inr s1" and s: "s = session_run cfg ops s1"
    and same: "length (ps_turns s) = length (ps_turns s1)" and no: "ps_caller s \<noteq> Aborting t PiTimeout"
    and out: "ps_caller (session_do cfg op s) = Aborting t PiTimeout"
  shows "ps_wait_depth s = 0 \<and> ps_now s - pt_began (ps_turns s ! t) - waited cfg ops s1 \<ge> tl_timeout l"
proof -
  have s1: "s1 = session_do cfg (PromptCalled c m l) s0" using called by (simp add: session_do_def)
  have ok1: "waits_ok s1" unfolding s1 by (rule waits_always) (simp add: s0 waits_ok_run)
  have begun: "wait_so_far s1 = 0" "length (ps_turns s1) = Suc (length (ps_turns s0))" "pt_limits (ps_turns s1 ! length (ps_turns s0)) = l"
    using called by (auto simp: run_turn_def Let_def wait_so_far_def caller_at_def sends_def fresh_turn_def split: if_splits)
  note run = waits_run [OF ok1, of cfg ops, folded s, OF same]
  have well: "calls_well s"
  proof -
    have "s = session_run cfg (before @ PromptCalled c m l # ops) new_session" by (simp add: s s1 s0 session_run_def)
    then show ?thesis using calls_well_run by metis
  qed
  note o = out_of_time [OF no out]
  have "ps_current s = Some t" using o well by (simp add: calls_well_def)
  then have t: "t = length (ps_turns s0)" using well same begun(2) by (auto simp: calls_well_def)
  have "pt_limits (ps_turns s ! t) = l" using run begun(2,3) unfolding t same_turns_def by simp
  moreover have "ps_wait_total s = waited cfg ops s1" using run o begun(1) by (simp add: wait_so_far_def)
  ultimately show ?thesis using o run by (simp add: active_for_def waits_ok_def)
qed

section \<open>Concrete runs\<close>

definition with_person :: pi_session_config where
  "with_person = \<lparr>sc_bridge = True, sc_allowed_ui_tools = []\<rparr>"

definition some_limits :: turn_limits where
  "some_limits = \<lparr>tl_timeout = 100, tl_idle = 20, tl_wrap_up = 80, tl_tokens = 0\<rparr>"

definition says_text :: "string \<Rightarrow> pi_event" where
  "says_text x = \<lparr>pe_type = EV_MESSAGE_UPDATE, pe_raw = [(''assistantMessageEvent'', JObj [(''type'', JStr ''text_end''), (''content'', JStr x)])]\<rparr>"

definition calls_tool :: "string \<Rightarrow> pi_event" where
  "calls_tool n = \<lparr>pe_type = EV_TOOL_EXECUTION_START, pe_raw = [(''toolName'', JStr n)]\<rparr>"

definition tool_done :: "string \<Rightarrow> pi_event" where
  "tool_done n = \<lparr>pe_type = EV_TOOL_EXECUTION_END, pe_raw = [(''toolName'', JStr n)]\<rparr>"

definition run_over :: pi_event where
  "run_over = \<lparr>pe_type = EV_AGENT_END, pe_raw = []\<rparr>"

definition settled_now :: pi_event where
  "settled_now = \<lparr>pe_type = EV_AGENT_SETTLED, pe_raw = []\<rparr>"

definition asks_person :: pi_event where
  "asks_person = \<lparr>pe_type = EV_EXTENSION_UI_REQUEST, pe_raw = [(''id'', JStr ''q''), (''method'', JStr ''confirm'')]\<rparr>"

definition prompted :: pi_session where
  "prompted = session_run with_person [PromptCalled ''p1'' ''hello'' some_limits, CommandWritten] new_session"

lemma the_answer_follows_the_last_call_witness:
  "map_option (\<lambda>r. case r of Answer a \<Rightarrow> (pr_text a, pr_tool_calls a) | _ \<Rightarrow> ([], []))
     (pt_end (ps_turns (takes_lines with_person [says_text ''looking'', calls_tool ''read'', tool_done ''read'', says_text ''found it'', run_over, settled_now] prompted) ! 0))
   = Some (''found it'', [''read''])"
proof -
  let ?es = "[says_text ''looking'', calls_tool ''read'', tool_done ''read'', says_text ''found it'']"
  have h: "reading 0 prompted" "unspoken (ps_turns prompted ! 0)" "list_all on_the_way ?es" by code_simp+
  have d: "pe_type run_over = EV_AGENT_END" "\<not> will_retry run_over" "pe_type settled_now = EV_AGENT_SETTLED"
    by (simp_all add: run_over_def settled_now_def will_retry_def)
  have a: "map_option (\<lambda>r. case r of Answer a \<Rightarrow> (pr_text a, pr_tool_calls a) | _ \<Rightarrow> ([], []))
     (Some (answer_of (pt_abort_requested (ps_turns prompted ! 0)) ?es run_over)) = Some (''found it'', [''read''])" by code_simp
  show ?thesis using a the_answer_follows_the_last_call [OF h d, of with_person] by simp
qed

definition notes_run :: "session_op list" where
  "notes_run = [PromptCalled ''p1'' ''hello'' some_limits, CommandWritten, ClockTicks 15, LineComes (calls_tool ''read''), ListenerDone, ListenerDone,
     ClockTicks 85, CallerLooks, NoteWritten, CallerLooks, ClockTicks 100, CallerLooks]"

lemma told_once_and_stopped_for_good_witness:
  "count_list (ps_sent (session_run with_person notes_run new_session)) (SteerCommand 0 WRAP_UP_NOTE) = 1
   \<and> prompts_sent (session_run with_person [AbortWritten, PromptCalled ''p2'' ''again'' some_limits] (session_run with_person notes_run new_session))
     = prompts_sent (session_run with_person notes_run new_session)"
proof -
  have "ps_poisoned (session_run with_person notes_run new_session)" by code_simp
  moreover have "count_list (ps_sent (session_run with_person notes_run new_session)) (SteerCommand 0 WRAP_UP_NOTE) = 1" by code_simp
  ultimately show ?thesis using told_once_and_stopped_for_good [OF refl, of with_person notes_run 0 WRAP_UP_NOTE "[AbortWritten, PromptCalled ''p2'' ''again'' some_limits]"]
    by blast
qed

text \<open>A person takes 50 of the first 130: the turn runs out at 150.\<close>

definition waiting_run :: "session_op list" where
  "waiting_run = [CommandWritten, ClockTicks 10, LineComes (calls_tool ''read''), ListenerDone, ListenerDone, WaitBegins, ClockTicks 30, WaitBegins, ClockTicks 60,
     WaitEnds, WaitEnds, ClockTicks 149, CallerLooks, NoteWritten, CallerLooks, ClockTicks 150]"

definition called_first :: pi_session where
  "called_first = session_do with_person (PromptCalled ''p1'' ''hello'' some_limits) new_session"

lemma only_its_own_time_runs_out_witness:
  "ps_now (session_run with_person waiting_run called_first) - pt_began (ps_turns (session_run with_person waiting_run called_first) ! 0)
     - waited with_person waiting_run called_first \<ge> 100"
proof -
  have called: "run_turn ''p1'' ''hello'' some_limits (session_run with_person [] new_session) = Inr called_first" by code_simp
  have h: "length (ps_turns (session_run with_person waiting_run called_first)) = length (ps_turns called_first)"
    "ps_caller (session_run with_person waiting_run called_first) \<noteq> Aborting 0 PiTimeout"
    "ps_caller (session_do with_person CallerLooks (session_run with_person waiting_run called_first)) = Aborting 0 PiTimeout" by code_simp+
  show ?thesis using only_its_own_time_runs_out [OF refl called refl h] by (simp add: some_limits_def)
qed

text \<open>The time a person takes counts against the idle limit all the same: whoever answers after more than that finds the turn stopped as stalled,
  before the process can say a word.\<close>

lemma an_answered_turn_is_stalled:
  "ps_caller (session_run with_person [LineComes asks_person, ListenerDone, ListenerDone, ClockTicks 30, CallerLooks, PersonAnswers None (Some True) False, CallerLooks] prompted)
   = Aborting 0 PiStalled"
  by code_simp

text \<open>A caller that is cancelled leaves its run going, and the session takes the next prompt: the first run's end answers it.\<close>

lemma a_cancelled_prompt_answers_the_next:
  "let s = session_run with_person ([CallerCancelled, PromptCalled ''p2'' ''other'' some_limits, CommandWritten]
       @ concat (map (\<lambda>e. [LineComes e, ListenerDone, ListenerDone]) [says_text ''to the first'', run_over, settled_now]) @ [CallerLooks]) prompted in
     map (\<lambda>(t, r). (t, case r of Answer a \<Rightarrow> pr_text a | _ \<Rightarrow> [])) (ps_told s) = [(1, ''to the first'')]"
  by code_simp

end
